(* ===== verification/VM_Prelude.thy ===== *)
theory VM_Prelude
  imports Main "HOL-Library.Word"
begin

text \<open>
  Shared vocabulary of the development: the machine integers of the C++ sources, the bytes of a
  packet buffer on a little-endian host, the network byte order conversions, and the outcome of a
  computation that may leave its buffer or run out of the fuel given to a loop.
\<close>

unbundle bit_operations_syntax

named_theorems mem_simps \<open>evaluation of loads, stores and byte order conversions\<close>
named_theorems outcome_intros \<open>introduction rules for computations that stay inside their buffer\<close>

section \<open>Machine integers\<close>

type_synonym u8 = "8 word"
type_synonym u16 = "16 word"
type_synonym u32 = "32 word"
type_synonym u64 = "64 word"

lemma unat_byte_less [simp]: "unat (a :: u8) < 256"
  using unsigned_less [of a] by simp

lemma unat_u16_less [simp]: "unat (a :: u16) < 65536"
  using unsigned_less [of a] by simp

lemma unat_u32_less [simp]: "unat (a :: u32) < 4294967296"
  using unsigned_less [of a] by simp

lemma unat_ucast_byte [simp]:
  "unat (ucast (a :: u8) :: u16) = unat a" "unat (ucast (a :: u8) :: u32) = unat a"
  by (simp_all add: unsigned_ucast_eq take_bit_nat_eq_self order.strict_trans [OF unat_byte_less])

lemma unat_ucast_u16 [simp]: "unat (ucast (a :: u16) :: u32) = unat a"
  by (simp add: unsigned_ucast_eq take_bit_nat_eq_self order.strict_trans [OF unat_u16_less])

lemma unat_ucast_u64 [simp]:
  "unat (ucast (a :: u8) :: u64) = unat a" "unat (ucast (b :: u16) :: u64) = unat b" "unat (ucast (c :: u32) :: u64) = unat c"
  by (simp_all add: unsigned_ucast_eq take_bit_nat_eq_self order.strict_trans [OF unat_byte_less]
      order.strict_trans [OF unat_u16_less] order.strict_trans [OF unat_u32_less])

lemma unat_less_2_32: "unat (a :: u8) < 2 ^ 32" "unat (b :: u16) < 2 ^ 32" "unat (c :: u32) < 2 ^ 32"
  by (simp_all add: order.strict_trans [OF unat_byte_less] order.strict_trans [OF unat_u16_less])

lemma unat_word_of_nat: "n < 2 ^ LENGTH('a) \<Longrightarrow> unat (word_of_nat n :: 'a::len word) = n"
  by (simp add: unat_of_nat)

lemma word_of_nat_lessI: "a < b \<Longrightarrow> b < 2 ^ LENGTH('a) \<Longrightarrow> word_of_nat a < (word_of_nat b :: 'a::len word)"
  by (simp add: word_less_nat_alt unat_of_nat)

lemma min_word_of_nat:
  "a \<le> b \<Longrightarrow> b < 2 ^ LENGTH('a) \<Longrightarrow> min (word_of_nat a) (word_of_nat b) = (word_of_nat a :: 'a::len word)"
  by (auto simp: min_def word_le_nat_alt unat_of_nat)

section \<open>Little-endian bytes\<close>

text \<open>The host is little-endian (the \<open>__LITTLE_ENDIAN\<close> branches of the sources): the first byte
  in memory is the least significant one.\<close>

fun le_nat :: "u8 list \<Rightarrow> nat" where
  "le_nat [] = 0"
| "le_nat (b # bs) = unat b + 256 * le_nat bs"

fun le_list :: "nat \<Rightarrow> nat \<Rightarrow> u8 list" where
  "le_list 0 v = []"
| "le_list (Suc n) v = word_of_nat v # le_list n (v div 256)"

definition le_word :: "u8 list \<Rightarrow> 'a::len word" where
  "le_word bs = word_of_nat (le_nat bs)"

definition word_le :: "nat \<Rightarrow> 'a::len word \<Rightarrow> u8 list" where
  "word_le n w = le_list n (unat w)"

definition ntohs :: "u16 \<Rightarrow> u16" where
  "ntohs w = le_word (rev (word_le 2 w))"

definition ntohl :: "u32 \<Rightarrow> u32" where
  "ntohl w = le_word (rev (word_le 4 w))"

definition be64toh :: "u64 \<Rightarrow> u64" where
  "be64toh w = le_word (rev (word_le 8 w))"

section \<open>Outcomes and buffers\<close>

text \<open>
  \<open>OutOfBounds\<close> stands for a read or a write outside the buffer (undefined behaviour in C++),
  \<open>OutOfFuel\<close> for a loop that has not returned within the steps it was given.
\<close>

datatype 'a outcome = Ret 'a | OutOfBounds | OutOfFuel

fun obind :: "'a outcome \<Rightarrow> ('a \<Rightarrow> 'b outcome) \<Rightarrow> 'b outcome" where
  "obind (Ret a) f = f a"
| "obind OutOfBounds f = OutOfBounds"
| "obind OutOfFuel f = OutOfFuel"

fun omap :: "('a \<Rightarrow> 'b) \<Rightarrow> 'a outcome \<Rightarrow> 'b outcome" where
  "omap f (Ret a) = Ret (f a)"
| "omap f OutOfBounds = OutOfBounds"
| "omap f OutOfFuel = OutOfFuel"

fun returns :: "'a outcome \<Rightarrow> bool" where
  "returns (Ret a) = True"
| "returns OutOfBounds = False"
| "returns OutOfFuel = False"

type_synonym mem = "u8 list"

definition ld8 :: "mem \<Rightarrow> nat \<Rightarrow> u8 outcome" where
  "ld8 m p = (if p < length m then Ret (m ! p) else OutOfBounds)"

definition ldi8 :: "mem \<Rightarrow> int \<Rightarrow> u8 outcome" where
  "ldi8 m a = (if a < 0 then OutOfBounds else ld8 m (nat a))"

definition ldn :: "nat \<Rightarrow> mem \<Rightarrow> nat \<Rightarrow> u8 list outcome" where
  "ldn n m p = (if p + n \<le> length m then Ret (take n (drop p m)) else OutOfBounds)"

definition ld16 :: "mem \<Rightarrow> nat \<Rightarrow> u16 outcome" where
  "ld16 m p = omap le_word (ldn 2 m p)"

definition ld32 :: "mem \<Rightarrow> nat \<Rightarrow> u32 outcome" where
  "ld32 m p = omap le_word (ldn 4 m p)"

definition ld64 :: "mem \<Rightarrow> nat \<Rightarrow> u64 outcome" where
  "ld64 m p = omap le_word (ldn 8 m p)"

definition stn :: "mem \<Rightarrow> nat \<Rightarrow> u8 list \<Rightarrow> mem outcome" where
  "stn m p bs = (if p + length bs \<le> length m
                 then Ret (take p m @ bs @ drop (p + length bs) m) else OutOfBounds)"

section \<open>Lemmas on bytes\<close>

lemma le_list_numeral [simp]:
  "le_list (numeral k) v = word_of_nat v # le_list (pred_numeral k) (v div 256)"
  by (subst numeral_eq_Suc) simp

lemma length_le_list [simp]: "length (le_list n v) = n"
  by (induction n arbitrary: v) auto

lemma length_word_le [simp]: "length (word_le n w) = n"
  by (simp add: word_le_def)

lemma le_nat_less: "le_nat bs < 256 ^ length bs"
proof (induction bs)
  case (Cons b bs)
  have "unat b + 256 * le_nat bs < 256 + 256 * le_nat bs" by simp
  also have "\<dots> \<le> 256 * 256 ^ length bs" using Cons by simp
  finally show ?case by simp
qed simp

lemma le_nat_append: "le_nat (xs @ ys) = le_nat xs + 256 ^ length xs * le_nat ys"
  by (induction xs) (auto simp: algebra_simps)

lemma le_nat_le_list: "le_nat (le_list n v) = v mod 256 ^ n"
proof (induction n arbitrary: v)
  case (Suc n)
  have "unat (word_of_nat v :: u8) = v mod 256" by (simp add: unat_of_nat)
  then show ?case using Suc by (simp add: mod_mult2_eq)
qed simp

lemma word_of_nat_byte: "word_of_nat (unat b + 256 * v) = (b :: u8)"
proof -
  have "unat (word_of_nat (unat b + 256 * v) :: u8) = unat b"
    by (simp only: unat_of_nat) simp
  then show ?thesis by (simp only: word_unat_eq_iff)
qed

lemma le_list_le_nat: "le_list (length bs) (le_nat bs) = bs"
proof (induction bs)
  case (Cons b bs)
  have "(unat b + 256 * le_nat bs) div 256 = le_nat bs"
    using unat_byte_less [of b] by (simp del: unat_byte_less)
  then show ?case
    using Cons by (simp only: list.size le_list.simps le_nat.simps word_of_nat_byte add_Suc_right add_0_right)
qed simp

lemma unat_le_word:
  assumes "length bs * 8 \<le> LENGTH('a)"
  shows "unat (le_word bs :: 'a::len word) = le_nat bs"
proof -
  have "(2::nat) ^ (8 * length bs) \<le> 2 ^ LENGTH('a)"
    using assms by (intro power_increasing) auto
  then have "le_nat bs < 2 ^ LENGTH('a)"
    using le_nat_less [of bs] by (simp add: power_mult)
  then show ?thesis by (simp add: le_word_def unat_of_nat)
qed

lemma word_le_le_word:
  "length bs * 8 \<le> LENGTH('a) \<Longrightarrow> word_le (length bs) (le_word bs :: 'a::len word) = bs"
  by (simp add: word_le_def unat_le_word le_list_le_nat)

lemma le_word_word_le:
  assumes "LENGTH('a) \<le> n * 8"
  shows "le_word (word_le n w) = (w :: 'a::len word)"
proof -
  have "(2::nat) ^ LENGTH('a) \<le> 2 ^ (8 * n)"
    using assms by (intro power_increasing) auto
  then have "2 ^ LENGTH('a) \<le> (256::nat) ^ n" by (simp add: power_mult)
  with unsigned_less have "unat w < 256 ^ n" by (rule order.strict_trans2)
  then show ?thesis by (simp add: le_word_def word_le_def le_nat_le_list)
qed

lemma ntohs_le_word: "length bs = 2 \<Longrightarrow> ntohs (le_word bs) = le_word (rev bs)"
  using word_le_le_word [where 'a = 16, of bs] by (simp add: ntohs_def)

lemma ntohl_le_word: "length bs = 4 \<Longrightarrow> ntohl (le_word bs) = le_word (rev bs)"
  using word_le_le_word [where 'a = 32, of bs] by (simp add: ntohl_def)

lemma be64toh_le_word: "length bs = 8 \<Longrightarrow> be64toh (le_word bs) = le_word (rev bs)"
  using word_le_le_word [where 'a = 64, of bs] by (simp add: be64toh_def)

lemma ntohs_ntohs [simp]: "ntohs (ntohs w) = w"
  using ntohs_le_word [of "rev (word_le 2 w)"] le_word_word_le [of 2 w]
  by (simp add: ntohs_def [of w])

lemma ntohl_ntohl [simp]: "ntohl (ntohl w) = w"
  using ntohl_le_word [of "rev (word_le 4 w)"] le_word_word_le [of 4 w]
  by (simp add: ntohl_def [of w])

lemma ntohs_eq_iff [simp]: "ntohs a = ntohs b \<longleftrightarrow> a = b"
  by (metis ntohs_ntohs)

lemma ntohl_eq_iff [simp]: "ntohl a = ntohl b \<longleftrightarrow> a = b"
  by (metis ntohl_ntohl)

lemma ntohs_0 [simp]: "ntohs 0 = 0"
  by (simp add: ntohs_def word_le_def le_word_def)

section \<open>Lemmas on outcomes, loads and stores\<close>

lemma obind_Ret_iff: "obind m f = Ret b \<longleftrightarrow> (\<exists>a. m = Ret a \<and> f a = Ret b)"
  by (cases m) auto

lemma omap_Ret_iff: "omap f m = Ret b \<longleftrightarrow> (\<exists>a. m = Ret a \<and> b = f a)"
  by (cases m) auto

lemma obind_assoc: "obind (obind m f) g = obind m (\<lambda>x. obind (f x) g)"
  by (cases m) auto

lemma returns_iff: "returns m \<longleftrightarrow> (\<exists>a. m = Ret a)"
  by (cases m) auto

lemma ld8_Ret [mem_simps]: "p < length m \<Longrightarrow> ld8 m p = Ret (m ! p)"
  by (simp add: ld8_def)

lemma ldn_Ret [mem_simps]: "p + n \<le> length m \<Longrightarrow> ldn n m p = Ret (take n (drop p m))"
  by (simp add: ldn_def)

lemma ld16_Ret [mem_simps]: "p + 2 \<le> length m \<Longrightarrow> ld16 m p = Ret (le_word (take 2 (drop p m)))"
  by (simp add: ld16_def ldn_def)

lemma ld32_Ret [mem_simps]: "p + 4 \<le> length m \<Longrightarrow> ld32 m p = Ret (le_word (take 4 (drop p m)))"
  by (simp add: ld32_def ldn_def)

lemma ld64_Ret [mem_simps]: "p + 8 \<le> length m \<Longrightarrow> ld64 m p = Ret (le_word (take 8 (drop p m)))"
  by (simp add: ld64_def ldn_def)

text \<open>A view into a buffer: reading behind a prefix.\<close>

lemma ldn_shift: "ldn n (pre @ m) (length pre + k) = ldn n m k"
  by (simp add: ldn_def)

lemma ld8_shift: "ld8 (pre @ m) (length pre + k) = ld8 m k"
  by (simp add: ld8_def)

lemma ld16_shift: "ld16 (pre @ m) (length pre + k) = ld16 m k"
  by (simp add: ld16_def ldn_shift)

lemma ld32_shift: "ld32 (pre @ m) (length pre + k) = ld32 m k"
  by (simp add: ld32_def ldn_shift)

lemmas ld_shift = ldn_shift ld8_shift ld16_shift ld32_shift

lemma ldn_0 [simp]: "ldn 0 m p = (if p \<le> length m then Ret [] else OutOfBounds)"
  by (simp add: ldn_def)

lemma ldn_prefix: "ldn (length xs) (xs @ m) 0 = Ret xs"
  by (simp add: ldn_def)

lemma stn_length: "stn m p bs = Ret m' \<Longrightarrow> length m' = length m"
  by (auto simp: stn_def split: if_splits)

lemma ldn_stn: "stn m p bs = Ret m' \<Longrightarrow> ldn (length bs) m' p = Ret bs"
  by (auto simp: stn_def ldn_def split: if_splits)

lemma ldn_stn_other:
  assumes "stn m p bs = Ret m'" and "q + n \<le> p \<or> p + length bs \<le> q"
  shows "ldn n m' q = ldn n m q"
proof -
  from assms(1) have le: "p + length bs \<le> length m"
    and m': "m' = take p m @ bs @ drop (p + length bs) m"
    by (auto simp: stn_def split: if_splits)
  show ?thesis
  proof (cases "q + n \<le> p")
    case True
    with le have "take n (drop q m') = take n (drop q m)"
      by (simp add: m' take_drop)
    with le True show ?thesis by (auto simp: ldn_def m')
  next
    case False
    with assms(2) have q: "p + length bs \<le> q" by simp
    then obtain d where "q = p + length bs + d" using le_Suc_ex by blast
    with le show ?thesis by (auto simp: ldn_def m' add.commute)
  qed
qed

lemma ld8_ldn: "ld8 m p = omap hd (ldn 1 m p)"
  by (auto simp: ld8_def ldn_def hd_drop_conv_nth)

lemma ld8_stn_other: "stn m p bs = Ret m' \<Longrightarrow> q < p \<or> p + length bs \<le> q \<Longrightarrow> ld8 m' q = ld8 m q"
  by (simp only: ld8_ldn ldn_stn_other [of m p bs m' q 1]) (use ldn_stn_other [of m p bs m' q 1] in auto)

lemma ld16_stn_other: "stn m p bs = Ret m' \<Longrightarrow> q + 2 \<le> p \<or> p + length bs \<le> q \<Longrightarrow> ld16 m' q = ld16 m q"
  by (simp add: ld16_def ldn_stn_other)

lemma ld32_stn_other: "stn m p bs = Ret m' \<Longrightarrow> q + 4 \<le> p \<or> p + length bs \<le> q \<Longrightarrow> ld32 m' q = ld32 m q"
  by (simp add: ld32_def ldn_stn_other)

lemma ld16_stn: "stn m p (word_le 2 w) = Ret m' \<Longrightarrow> ld16 m' p = Ret w"
  using ldn_stn [of m p "word_le 2 w" m'] by (simp add: ld16_def le_word_word_le)

lemma ld32_stn: "stn m p (word_le 4 w) = Ret m' \<Longrightarrow> ld32 m' p = Ret w"
  using ldn_stn [of m p "word_le 4 w" m'] by (simp add: ld32_def le_word_word_le)

lemma stn_Ret: "p + length bs \<le> length m \<Longrightarrow> \<exists>m'. stn m p bs = Ret m' \<and> length m' = length m"
  by (auto simp: stn_def)

lemma take_stn: "stn m p bs = Ret m' \<Longrightarrow> n \<le> p \<Longrightarrow> take n m' = take n m"
  by (auto simp: stn_def split: if_splits)

lemma drop_stn:
  assumes "stn m p bs = Ret m'" and "p + length bs \<le> n"
  shows "drop n m' = drop n m"
proof -
  obtain d where "n = p + length bs + d" using assms(2) le_Suc_ex by blast
  then show ?thesis using assms(1) by (auto simp: stn_def add.commute split: if_splits)
qed

lemmas ld_stn_other = ld8_stn_other ld16_stn_other ld32_stn_other

section \<open>Network byte order\<close>

definition be_bytes :: "nat \<Rightarrow> 'a::len word \<Rightarrow> mem" where
  "be_bytes n w = rev (word_le n w)"

lemma length_be_bytes [simp]: "length (be_bytes n w) = n"
  by (simp add: be_bytes_def)

lemma be_bytes_Nil [simp]: "be_bytes n w = [] \<longleftrightarrow> n = 0"
  by (metis length_0_conv length_be_bytes)

lemma be_bytes_read:
  "ntohl (le_word (be_bytes 4 (a :: u32))) = a" "ntohs (le_word (be_bytes 2 (b :: u16))) = b"
  by (simp_all add: be_bytes_def ntohl_le_word ntohs_le_word le_word_word_le)

lemma drop_step: "drop p m = xs @ ys \<Longrightarrow> length xs = k \<Longrightarrow> drop (p + k) m = ys"
  by (metis add.commute append_eq_conv_conj drop_drop)

lemma drop_part: "drop p m = xs @ ys \<Longrightarrow> k \<le> length xs \<Longrightarrow> drop (p + k) m = drop k xs @ ys"
  by (simp add: add.commute [of p] drop_drop [symmetric] del: drop_drop)

lemma ld_at:
  assumes "drop p m = xs @ ys"
  shows "length xs = 4 \<Longrightarrow> ld32 m p = Ret (le_word xs)" "length xs = 2 \<Longrightarrow> ld16 m p = Ret (le_word xs)" "length xs = n \<Longrightarrow> 0 < n \<Longrightarrow> ldn n m p = Ret xs"
    and "xs = [b] \<Longrightarrow> ld8 m p = Ret b"
proof -
  have "length m - p = length xs + length ys" using arg_cong [OF assms, of length] by simp
  then have n: "ldn (length xs) m p = Ret xs" if "xs \<noteq> []"
    using assms that by (cases "p \<le> length m") (auto simp: ldn_def)
  then show "length xs = 4 \<Longrightarrow> ld32 m p = Ret (le_word xs)" "length xs = 2 \<Longrightarrow> ld16 m p = Ret (le_word xs)" "length xs = n \<Longrightarrow> 0 < n \<Longrightarrow> ldn n m p = Ret xs"
    by (force simp: ld32_def ld16_def)+
  show "xs = [b] \<Longrightarrow> ld8 m p = Ret b" using n by (simp add: ld8_ldn)
qed

end
