(* ===== verification/VM_StdMap.thy ===== *)
theory VM_StdMap
  imports VM_Prelude
begin

text \<open>
  The ordered associative container of the standard library that the sniffer keys by addresses,
  fragment offsets and identities. A \<open>std::map\<close> is the list of its nodes in iteration order; the
  operations compare keys only through the comparator \<open>lt\<close> (the key's \<open>operator <\<close>), as the
  standard prescribes. The locale \<open>map_key_order\<close> is the contract a key type owes the container
  (a strict weak ordering whose equivalence is the type's \<open>operator ==\<close>); inside it the container
  is shown to behave as a finite map.
\<close>

section \<open>The container\<close>

type_synonym ('k, 'v) std_map = "('k \<times> 'v) list"

fun map_find :: "('k \<Rightarrow> 'k \<Rightarrow> bool) \<Rightarrow> 'k \<Rightarrow> ('k, 'v) std_map \<Rightarrow> 'v option" where
  "map_find lt k [] = None"
| "map_find lt k ((k', v) # m) =
     (if lt k' k then map_find lt k m else if lt k k' then None else Some v)"

fun map_put :: "('k \<Rightarrow> 'k \<Rightarrow> bool) \<Rightarrow> 'k \<Rightarrow> 'v \<Rightarrow> ('k, 'v) std_map \<Rightarrow> ('k, 'v) std_map" where
  "map_put lt k v [] = [(k, v)]"
| "map_put lt k v ((k', v') # m) =
     (if lt k' k then (k', v') # map_put lt k v m
      else if lt k k' then (k, v) # (k', v') # m
      else (k', v) # m)"

fun map_erase :: "('k \<Rightarrow> 'k \<Rightarrow> bool) \<Rightarrow> 'k \<Rightarrow> ('k, 'v) std_map \<Rightarrow> ('k, 'v) std_map" where
  "map_erase lt k [] = []"
| "map_erase lt k ((k', v) # m) =
     (if lt k' k then (k', v) # map_erase lt k m else if lt k k' then (k', v) # m else m)"

fun map_ordered :: "('k \<Rightarrow> 'k \<Rightarrow> bool) \<Rightarrow> ('k, 'v) std_map \<Rightarrow> bool" where
  "map_ordered lt [] = True"
| "map_ordered lt ((k, v) # m) = ((\<forall>p \<in> set m. lt k (fst p)) \<and> map_ordered lt m)"

lemma map_ordered_filter: "map_ordered lt m \<Longrightarrow> map_ordered lt (filter P m)"
  by (induction lt m rule: map_ordered.induct) auto

lemma map_put_nonempty [simp]: "map_put lt k v m \<noteq> []"
  by (cases "(lt, k, v, m)" rule: map_put.cases) auto

lemma set_map_put_subset: "set (map_put lt k v m) \<subseteq> insert (k, v) (set m \<union> {(k', v) |k' v'. (k', v') \<in> set m})"
  by (induction lt k v m rule: map_put.induct) auto

section \<open>The key contract\<close>

locale map_key_order =
  fixes lt :: "'k \<Rightarrow> 'k \<Rightarrow> bool"
    and eq :: "'k \<Rightarrow> 'k \<Rightarrow> bool"
  assumes lt_irrefl: "\<not> lt a a"
    and lt_trans: "lt a b \<Longrightarrow> lt b c \<Longrightarrow> lt a c"
    and lt_total: "lt a b \<or> eq a b \<or> lt b a"
    and eq_lt: "eq a b \<Longrightarrow> \<not> lt a b"
    and eq_sym: "eq a b \<Longrightarrow> eq b a"
    and eq_trans: "eq a b \<Longrightarrow> eq b c \<Longrightarrow> eq a c"
begin

lemma lt_asym: "lt a b \<Longrightarrow> \<not> lt b a"
  using lt_irrefl lt_trans by blast

lemma eq_iff_incomparable: "eq a b \<longleftrightarrow> \<not> lt a b \<and> \<not> lt b a"
  using eq_lt eq_sym lt_total by blast

lemma eq_refl: "eq a a"
  by (simp add: eq_iff_incomparable lt_irrefl)

lemma lt_eq_trans: "lt a b \<Longrightarrow> eq b c \<Longrightarrow> lt a c"
  by (meson eq_iff_incomparable eq_sym eq_trans lt_total lt_trans)

lemma eq_lt_trans: "eq a b \<Longrightarrow> lt b c \<Longrightarrow> lt a c"
  by (meson eq_iff_incomparable eq_sym eq_trans lt_total lt_trans)

lemma map_find_above:
  "\<forall>p \<in> set m. lt k (fst p) \<Longrightarrow> map_find lt k m = None"
  by (induction m) (auto dest: lt_asym)

lemma map_find_Some_eq: "map_find lt k m = Some v \<Longrightarrow> \<exists>k'. (k', v) \<in> set m \<and> eq k k'"
  by (induction m) (auto simp: eq_iff_incomparable split: if_splits)

lemma map_find_cong:
  assumes "eq k k'"
  shows "map_find lt k m = map_find lt k' m"
proof (induction m)
  case (Cons p m)
  have "lt k x = lt k' x" and "lt x k = lt x k'" for x
    using assms eq_lt_trans eq_sym lt_eq_trans by blast+
  with Cons show ?case by (cases p) simp
qed simp

lemma keys_map_put: "p \<in> set (map_put lt k v m) \<Longrightarrow> fst p = k \<or> fst p \<in> fst ` set m"
  by (induction m) (auto split: if_splits simp: image_iff)

lemma keys_map_erase: "p \<in> set (map_erase lt k m) \<Longrightarrow> p \<in> set m"
  by (induction m) (auto split: if_splits)

lemma map_ordered_put: "map_ordered lt m \<Longrightarrow> map_ordered lt (map_put lt k v m)"
proof (induction m)
  case (Cons p m)
  obtain k' v' where p: "p = (k', v')" by (cases p)
  from Cons.prems have hd: "\<forall>q \<in> set m. lt k' (fst q)" and tl: "map_ordered lt m"
    by (auto simp: p)
  have "lt k' k \<Longrightarrow> \<forall>q \<in> set (map_put lt k v m). lt k' (fst q)"
    using hd keys_map_put by fastforce
  moreover have "lt k k' \<Longrightarrow> \<forall>q \<in> set m. lt k (fst q)"
    using hd lt_trans by blast
  ultimately show ?case using hd tl Cons.IH by (simp add: p)
qed simp

lemma map_ordered_erase: "map_ordered lt m \<Longrightarrow> map_ordered lt (map_erase lt k m)"
proof (induction m)
  case (Cons p m)
  then show ?case by (cases p) (auto dest: keys_map_erase)
qed simp

theorem map_find_put:
  "map_ordered lt m \<Longrightarrow>
   map_find lt k' (map_put lt k v m) = (if eq k k' then Some v else map_find lt k' m)"
proof (induction m)
  case Nil
  then show ?case by (auto simp: eq_iff_incomparable)
next
  case (Cons p m)
  obtain k0 v0 where p: "p = (k0, v0)" by (cases p)
  from Cons have IH: "map_find lt k' (map_put lt k v m) =
      (if eq k k' then Some v else map_find lt k' m)"
    by (simp add: p)
  consider "lt k0 k" | "lt k k0" | "eq k k0" using lt_total by blast
  then show ?case
  proof cases
    case 1
    then have "eq k k' \<Longrightarrow> lt k0 k'" by (rule lt_eq_trans)
    with 1 IH show ?thesis by (auto simp: p)
  next
    case 2
    then have "lt k' k \<Longrightarrow> lt k' k0 \<and> \<not> lt k0 k'" using lt_trans lt_asym by blast
    with 2 lt_asym [OF 2] show ?thesis by (auto simp: p eq_iff_incomparable)
  next
    case 3
    then have "eq k k' \<longleftrightarrow> eq k0 k'" using eq_sym eq_trans by blast
    moreover have "\<not> lt k0 k" "\<not> lt k k0" using 3 eq_iff_incomparable by blast+
    ultimately show ?thesis by (simp add: p eq_iff_incomparable [of k0 k'])
  qed
qed

theorem map_find_erase:
  "map_ordered lt m \<Longrightarrow>
   map_find lt k' (map_erase lt k m) = (if eq k k' then None else map_find lt k' m)"
proof (induction m)
  case (Cons p m)
  obtain k0 v0 where p: "p = (k0, v0)" by (cases p)
  from Cons have above: "\<forall>q \<in> set m. lt k0 (fst q)"
    and IH: "map_find lt k' (map_erase lt k m) = (if eq k k' then None else map_find lt k' m)"
    by (auto simp: p)
  consider "lt k0 k" | "lt k k0" | "eq k k0" using lt_total by blast
  then show ?case
  proof cases
    case 1
    then have "eq k k' \<Longrightarrow> lt k0 k'" by (rule lt_eq_trans)
    with 1 IH show ?thesis by (auto simp: p)
  next
    case 2
    then have "eq k k' \<Longrightarrow> lt k' k0" using eq_lt_trans eq_sym by blast
    with 2 lt_asym show ?thesis by (auto simp: p)
  next
    case 3
    then have same: "eq k k' \<longleftrightarrow> eq k0 k'" using eq_sym eq_trans by blast
    have none: "\<not> lt k0 k' \<Longrightarrow> map_find lt k' m = None"
      using above lt_total [of k0 k'] eq_sym eq_lt_trans lt_trans
      by (intro map_find_above) blast
    have "\<not> lt k0 k" "\<not> lt k k0" using 3 eq_iff_incomparable by blast+
    with same none show ?thesis by (auto simp: p eq_iff_incomparable [of k0 k'])
  qed
qed simp

lemma map_find_mem: "map_ordered lt m \<Longrightarrow> (k, v) \<in> set m \<Longrightarrow> map_find lt k m = Some v"
proof (induction m)
  case (Cons p m)
  obtain k0 v0 where p: "p = (k0, v0)" by (cases p)
  show ?case
  proof (cases "(k, v) = p")
    case True
    then show ?thesis by (simp add: p lt_irrefl)
  next
    case False
    then have "(k, v) \<in> set m" using Cons.prems by simp
    moreover from this have "lt k0 k" using Cons.prems(1) by (auto simp: p)
    ultimately show ?thesis using Cons by (simp add: p)
  qed
qed simp

lemma map_ordered_distinct: "map_ordered lt m \<Longrightarrow> distinct (map fst m)"
proof (induction m)
  case (Cons p m)
  then have "fst p \<notin> fst ` set m" using lt_irrefl by (cases p) fastforce
  with Cons show ?case by (cases p) simp
qed simp

lemma map_find_filter_map:
  "map_ordered lt m \<Longrightarrow>
   map_find lt k (filter (\<lambda>(k, v). P v) (map (\<lambda>(k, v). (k, f v)) m)) =
     (case map_find lt k m of None \<Rightarrow> None | Some v \<Rightarrow> if P (f v) then Some (f v) else None)"
proof (induction m)
  case (Cons p m)
  obtain k0 v0 where p: "p = (k0, v0)" by (cases p)
  from Cons.prems have above: "\<forall>q \<in> set m. lt k0 (fst q)" and ord: "map_ordered lt m" by (auto simp: p)
  have "\<not> lt k0 k \<Longrightarrow> \<forall>q \<in> set m. lt k (fst q)"
    using above lt_total [of k0 k] eq_sym eq_lt_trans lt_trans by blast
  then have "\<not> lt k0 k \<Longrightarrow> map_find lt k (filter (\<lambda>(k, v). P v) (map (\<lambda>(k, v). (k, f v)) m)) = None"
    by (intro map_find_above) auto
  with Cons.IH [OF ord] show ?case by (auto simp: p)
qed simp

end

section \<open>Lexicographic keys\<close>

text \<open>The sources order composite keys (address and port, address and mask, pairs of endpoints)
  by the first component and then by the second.\<close>

definition lex_lt :: "('a \<Rightarrow> 'a \<Rightarrow> bool) \<Rightarrow> ('a \<Rightarrow> 'a \<Rightarrow> bool) \<Rightarrow> ('b \<Rightarrow> 'b \<Rightarrow> bool) \<Rightarrow> 'a \<times> 'b \<Rightarrow> 'a \<times> 'b \<Rightarrow> bool" where
  "lex_lt lt1 eq1 lt2 p q = (lt1 (fst p) (fst q) \<or> eq1 (fst p) (fst q) \<and> lt2 (snd p) (snd q))"

definition lex_eq :: "('a \<Rightarrow> 'a \<Rightarrow> bool) \<Rightarrow> ('b \<Rightarrow> 'b \<Rightarrow> bool) \<Rightarrow> 'a \<times> 'b \<Rightarrow> 'a \<times> 'b \<Rightarrow> bool" where
  "lex_eq eq1 eq2 p q = (eq1 (fst p) (fst q) \<and> eq2 (snd p) (snd q))"

lemma map_key_order_lex:
  assumes "map_key_order lt1 eq1" and "map_key_order lt2 eq2"
  shows "map_key_order (lex_lt lt1 eq1 lt2) (lex_eq eq1 eq2)"
proof -
  note a = map_key_order.lt_irrefl [OF assms(1)] map_key_order.lt_trans [OF assms(1)]
    map_key_order.lt_total [OF assms(1)] map_key_order.eq_lt [OF assms(1)]
    map_key_order.eq_sym [OF assms(1)] map_key_order.eq_trans [OF assms(1)]
    map_key_order.lt_eq_trans [OF assms(1)] map_key_order.eq_lt_trans [OF assms(1)]
  note b = map_key_order.lt_irrefl [OF assms(2)] map_key_order.lt_trans [OF assms(2)]
    map_key_order.lt_total [OF assms(2)] map_key_order.eq_lt [OF assms(2)]
    map_key_order.eq_sym [OF assms(2)] map_key_order.eq_trans [OF assms(2)]
  show ?thesis
  proof (unfold_locales, goal_cases)
    case (1 x)
    show ?case using a(1) [of "fst x"] b(1) [of "snd x"] by (simp add: lex_lt_def)
  next
    case (2 x y z)
    then show ?case
      using a(2) [of "fst x" "fst y" "fst z"] a(6) [of "fst x" "fst y" "fst z"]
        a(7) [of "fst x" "fst y" "fst z"] a(8) [of "fst x" "fst y" "fst z"]
        b(2) [of "snd x" "snd y" "snd z"]
      unfolding lex_lt_def by blast
  next
    case (3 x y)
    show ?case
      using a(3) [of "fst x" "fst y"] a(5) [of "fst x" "fst y"] b(3) [of "snd x" "snd y"]
      unfolding lex_lt_def lex_eq_def by blast
  next
    case (4 x y)
    then show ?case
      using a(4) [of "fst x" "fst y"] b(4) [of "snd x" "snd y"]
      unfolding lex_lt_def lex_eq_def by blast
  next
    case (5 x y)
    then show ?case using a(5) b(5) by (simp add: lex_eq_def)
  next
    case (6 x y z)
    then show ?case using a(6) b(6) unfolding lex_eq_def by blast
  qed
qed

lemma map_key_order_pullback:
  assumes "map_key_order lt eq"
  shows "map_key_order (\<lambda>x y. lt (f x) (f y)) (\<lambda>x y. eq (f x) (f y))"
  using assms unfolding map_key_order_def by blast

lemma map_key_order_lexI:
  assumes "map_key_order lt1 eq1" and "map_key_order lt2 eq2"
    and "\<And>a b. lt a b = (lt1 (f a) (f b) \<or> eq1 (f a) (f b) \<and> lt2 (g a) (g b))"
    and "\<And>a b. eq a b = (eq1 (f a) (f b) \<and> eq2 (g a) (g b))"
  shows "map_key_order lt eq"
proof -
  have "lt = (\<lambda>a b. lex_lt lt1 eq1 lt2 (f a, g a) (f b, g b))"
    and "eq = (\<lambda>a b. lex_eq eq1 eq2 (f a, g a) (f b, g b))"
    using assms(3,4) by (auto simp: lex_lt_def lex_eq_def fun_eq_iff)
  then show ?thesis
    using map_key_order_pullback [OF map_key_order_lex [OF assms(1,2)], of "\<lambda>a. (f a, g a)"] by simp
qed

lemma map_key_order_linorder: "map_key_order ((<) :: 'a::linorder \<Rightarrow> 'a \<Rightarrow> bool) (=)"
  by unfold_locales auto

interpretation nat_key: map_key_order "(<) :: nat \<Rightarrow> nat \<Rightarrow> bool" "(=)"
  by (rule map_key_order_linorder)

end
