(* ===== verification/VM_CString.thy ===== *)
theory VM_CString
  imports VM_Prelude
begin

text \<open>
  The parts of the C string library the sources rely on. A C string is the list of its characters
  before the terminating NUL; reading at index \<open>length s\<close> yields that NUL. \<open>c_strtol\<close> is base 10
  with the saturation of the 64-bit \<open>long\<close>; \<open>c_atoi\<close> truncates it to \<open>int\<close>, \<open>c_atol\<close> keeps it.
\<close>

type_synonym cstr = string

definition nul :: char where
  "nul = CHR 0x00"

definition cstr_at :: "cstr \<Rightarrow> nat \<Rightarrow> char" where
  "cstr_at s i = (if i < length s then s ! i else nul)"

definition c_isspace :: "char \<Rightarrow> bool" where
  "c_isspace c = (c = CHR '' '' \<or> (9 \<le> (of_char c :: nat) \<and> (of_char c :: nat) \<le> 13))"

definition c_isdigit :: "char \<Rightarrow> bool" where
  "c_isdigit c = (48 \<le> (of_char c :: nat) \<and> (of_char c :: nat) \<le> 57)"

definition c_isxdigit :: "char \<Rightarrow> bool" where
  "c_isxdigit c = (c_isdigit c \<or> (65 \<le> (of_char c :: nat) \<and> (of_char c :: nat) \<le> 70) \<or>
                   (97 \<le> (of_char c :: nat) \<and> (of_char c :: nat) \<le> 102))"

definition c_isupper :: "char \<Rightarrow> bool" where
  "c_isupper c = (65 \<le> (of_char c :: nat) \<and> (of_char c :: nat) \<le> 90)"

definition c_tolower :: "char \<Rightarrow> char" where
  "c_tolower c = (if c_isupper c then char_of ((of_char c :: nat) + 32) else c)"

fun digits_val :: "nat \<Rightarrow> cstr \<Rightarrow> nat" where
  "digits_val acc [] = acc"
| "digits_val acc (c # cs) = (if c_isdigit c then digits_val (10 * acc + (of_char c - 48)) cs else acc)"

definition c_strtol :: "cstr \<Rightarrow> int" where
  "c_strtol s =
     (let s1 = dropWhile c_isspace s;
          neg = (s1 \<noteq> [] \<and> hd s1 = CHR ''-'');
          s2 = (if s1 \<noteq> [] \<and> (hd s1 = CHR ''-'' \<or> hd s1 = CHR ''+'') then tl s1 else s1);
          v = int (digits_val 0 s2)
      in if neg then max (- (2 ^ 63)) (- v) else min (2 ^ 63 - 1) v)"

definition c_atol :: "cstr \<Rightarrow> int" where
  "c_atol s = c_strtol s"

definition c_atoi :: "cstr \<Rightarrow> int" where
  "c_atoi s = sint (word_of_int (c_strtol s) :: 32 word)"

fun strchr :: "cstr \<Rightarrow> char \<Rightarrow> nat option" where
  "strchr [] c = None"
| "strchr (x # xs) c = (if x = c then Some 0 else map_option Suc (strchr xs c))"

lemma strchr_None_iff: "strchr s c = None \<longleftrightarrow> c \<notin> set s"
  by (induction s) auto

lemma strchr_Some_iff: "strchr s c = Some i \<longleftrightarrow> i < length s \<and> s ! i = c \<and> c \<notin> set (take i s)"
proof (induction s arbitrary: i)
  case (Cons x s)
  then show ?case by (cases i) auto
qed simp

text \<open>Decimal text of a natural number, as the stream insertion of an unsigned integer prints it.\<close>

fun nat_dec :: "nat \<Rightarrow> string" where
  "nat_dec n = (if n < 10 then [char_of (48 + n)] else nat_dec (n div 10) @ [char_of (48 + n mod 10)])"

declare nat_dec.simps [simp del]

lemma of_char_digit: "d < 10 \<Longrightarrow> (of_char (char_of (48 + d) :: char) :: nat) = 48 + d"
  by (simp add: of_char_of)

lemma c_isdigit_digit: "d < 10 \<Longrightarrow> c_isdigit (char_of (48 + d :: nat))"
  by (simp add: c_isdigit_def of_char_digit)

lemma nat_dec_digits: "\<forall>c \<in> set (nat_dec n). c_isdigit c"
proof (induction n rule: nat_dec.induct)
  case (1 n)
  then show ?case
    by (cases "n < 10") (auto simp: nat_dec.simps [of n] c_isdigit_digit)
qed

lemma nat_dec_nonempty [simp]: "nat_dec n \<noteq> []"
  by (subst nat_dec.simps) simp

lemma digits_val_append:
  "\<forall>c \<in> set s. c_isdigit c \<Longrightarrow> digits_val acc (s @ t) = digits_val (digits_val acc s) t"
  by (induction s arbitrary: acc) auto

lemma digits_val_nat_dec: "digits_val 0 (nat_dec n) = n"
proof (induction n rule: nat_dec.induct)
  case (1 n)
  show ?case
  proof (cases "n < 10")
    case True
    then show ?thesis by (simp add: nat_dec.simps [of n] c_isdigit_digit of_char_digit)
  next
    case False
    with 1 show ?thesis
      by (simp add: nat_dec.simps [of n] digits_val_append nat_dec_digits c_isdigit_digit of_char_digit)
  qed
qed

lemma c_isdigit_facts: "c_isdigit c \<Longrightarrow> \<not> c_isspace c \<and> c \<noteq> CHR ''-'' \<and> c \<noteq> CHR ''+''"
  by (auto simp: c_isdigit_def c_isspace_def)

lemma c_strtol_digits:
  assumes "s \<noteq> []" and "\<forall>c \<in> set s. c_isdigit c"
  shows "c_strtol s = min (2 ^ 63 - 1) (int (digits_val 0 s))"
proof -
  obtain c cs where s: "s = c # cs" using assms(1) by (cases s) auto
  with assms(2) have "\<not> c_isspace c" "c \<noteq> CHR ''-''" "c \<noteq> CHR ''+''"
    using c_isdigit_facts by auto
  then show ?thesis by (simp add: c_strtol_def s Let_def)
qed

lemma c_strtol_nat_dec: "n < 2 ^ 63 \<Longrightarrow> c_strtol (nat_dec n) = int n"
  by (simp add: c_strtol_digits nat_dec_digits digits_val_nat_dec min_def)

lemma c_atoi_nat_dec: "n < 2 ^ 31 \<Longrightarrow> c_atoi (nat_dec n) = int n"
  by (simp add: c_atoi_def c_strtol_nat_dec signed_of_nat signed_take_bit_int_eq_self)


text \<open>A number ends at the first character that is not a digit.\<close>

lemma c_strtol_stop:
  assumes "v \<noteq> []" "\<not> c_isspace (hd v)" "\<not> c_isdigit c"
  shows "c_strtol (v @ c # r) = c_strtol v"
proof -
  obtain a w where v: "v = a # w" using assms(1) by (cases v) auto
  have dv: "digits_val acc (s @ c # r) = digits_val acc s" for acc s using assms(3) by (induction s arbitrary: acc) auto
  show ?thesis using assms(2) dv [of 0 w] dv [of 0 "a # w"] by (simp add: c_strtol_def v Let_def)
qed

end
