(* ===== verification/VM_Ip.thy ===== *)
theory VM_Ip
  imports VM_StdMap VM_CString
begin

text \<open>
  Addresses and ports (\<open>ip.h\<close>, \<open>ip.cpp\<close>), as built with IPv6 support (\<open>VM_IPV6\<close>). The union of
  \<open>vmIP\<close> is four 32-bit words in host order; the IPv4 address is the last word (\<open>v4.n\<close> lies behind
  the three words of \<open>filler\<close>). The constructors leave the filler of an IPv4 address unset: the
  model sets it to 0, and no comparison or query of an IPv4 address reads it. A shift or a floating point
  conversion that C++ leaves undefined is \<open>None\<close>; a write behind a local array is \<open>OutOfBounds\<close>.
\<close>

section \<open>vmIP\<close>

record vmIP =
  v6 :: u8
  addr0 :: u32
  addr1 :: u32
  addr2 :: u32
  addr3 :: u32

type_synonym in6_addr = "u32 \<times> u32 \<times> u32 \<times> u32"

definition vmIP_v4 :: "u32 \<Rightarrow> vmIP" where
  "vmIP_v4 ip = \<lparr>v6 = 0, addr0 = 0, addr1 = 0, addr2 = 0, addr3 = ip\<rparr>"

definition vmIP_v6 :: "in6_addr \<Rightarrow> vmIP" where
  "vmIP_v6 ip = (case ip of (a, b, c, d) \<Rightarrow> \<lparr>v6 = 1, addr0 = a, addr1 = b, addr2 = c, addr3 = d\<rparr>)"

definition vmIP_words :: "vmIP \<Rightarrow> u32 list" where
  "vmIP_words ip = [addr0 ip, addr1 ip, addr2 ip, addr3 ip]"

definition vmIP_clear :: "u32 \<Rightarrow> vmIP \<Rightarrow> vmIP" where
  "vmIP_clear s ip = ip\<lparr>v6 := 0, addr0 := s, addr1 := s, addr2 := s, addr3 := s\<rparr>"

definition vmIP_setIPv4 :: "u32 \<Rightarrow> bool \<Rightarrow> vmIP \<Rightarrow> vmIP" where
  "vmIP_setIPv4 ip ntoh this = this\<lparr>addr3 := (if ntoh then ntohl ip else ip), v6 := 0\<rparr>"

definition vmIP_setIPv6 :: "in6_addr \<Rightarrow> bool \<Rightarrow> vmIP \<Rightarrow> vmIP" where
  "vmIP_setIPv6 ip ntoh this =
     (case ip of (a, b, c, d) \<Rightarrow>
        (let f = (if ntoh then ntohl else id)
         in this\<lparr>addr0 := f a, addr1 := f b, addr2 := f c, addr3 := f d, v6 := 1\<rparr>))"

definition vmIP_getIPv4 :: "bool \<Rightarrow> vmIP \<Rightarrow> u32" where
  "vmIP_getIPv4 hton ip = (if hton then ntohl (addr3 ip) else addr3 ip)"

definition vmIP_getIPv6 :: "bool \<Rightarrow> vmIP \<Rightarrow> in6_addr" where
  "vmIP_getIPv6 hton ip =
     (let f = (if hton then ntohl else id) in (f (addr0 ip), f (addr1 ip), f (addr2 ip), f (addr3 ip)))"

text \<open>\<open>setIP\<close> from a database column: \<open>varbinary\<close> data is dispatched on its length, anything else
  is parsed by \<open>atol\<close>. The decimal digits wrap in 32 bits.\<close>

fun setIP_digits :: "u32 \<Rightarrow> u8 list \<Rightarrow> u32" where
  "setIP_digits ipl [] = ipl"
| "setIP_digits ipl (b # bs) = setIP_digits (ipl * 10 + (ucast b - 0x30)) bs"

definition vmIP_setIP :: "u8 list \<Rightarrow> bool \<Rightarrow> vmIP \<Rightarrow> vmIP" where
  "vmIP_setIP data varbinary this =
     (let ip = vmIP_clear 0 this; n = length data in
      if varbinary then
        (if n = 4 then ip\<lparr>addr3 := ntohl (le_word data), v6 := 0\<rparr>
         else if n = 8 \<or> n = 9 \<or> n = 10 then ip\<lparr>addr3 := setIP_digits 0 data, v6 := 0\<rparr>
         else if n = 16 then
           ip\<lparr>addr0 := ntohl (le_word (take 4 data)),
              addr1 := ntohl (le_word (take 4 (drop 4 data))),
              addr2 := ntohl (le_word (take 4 (drop 8 data))),
              addr3 := ntohl (le_word (take 4 (drop 12 data))), v6 := 1\<rparr>
         else ip)
      else ip\<lparr>addr3 := word_of_int (c_atol (takeWhile (\<lambda>c. c \<noteq> nul) (map (\<lambda>b. char_of (unat b)) data)))\<rparr>)"

definition vmIP_isLocalhost :: "vmIP \<Rightarrow> bool" where
  "vmIP_isLocalhost ip =
     (if v6 ip = 0 then drop_bit 8 (addr3 ip) = 0x7F0000
      else (addr0 ip = 0 \<and> addr1 ip = 0 \<and> addr2 ip = 0 \<and> addr3 ip = 1) \<or>
           (addr0 ip = 0 \<and> addr1 ip = 0 \<and> addr2 ip = 0xFFFF \<and> drop_bit 8 (addr3 ip) = 0x7F0000))"

text \<open>\<open>memcmp\<close> compares the sixteen bytes of the address in memory order, so each host-order word
  is compared from its least significant byte.\<close>

fun memcmp_lt :: "u8 list \<Rightarrow> u8 list \<Rightarrow> bool" where
  "memcmp_lt (a # as) (b # bs) = (a < b \<or> a = b \<and> memcmp_lt as bs)"
| "memcmp_lt _ _ = False"

definition vmIP_bytes_v6 :: "vmIP \<Rightarrow> u8 list" where
  "vmIP_bytes_v6 ip = concat (map (word_le 4) (vmIP_words ip))"

definition vmIP_eq :: "vmIP \<Rightarrow> vmIP \<Rightarrow> bool" where
  "vmIP_eq a b = (v6 a = v6 b \<and>
     (if v6 a \<noteq> 0 then vmIP_bytes_v6 a = vmIP_bytes_v6 b else addr3 a = addr3 b))"

definition vmIP_lt :: "vmIP \<Rightarrow> vmIP \<Rightarrow> bool" where
  "vmIP_lt a b =
     (if v6 a \<noteq> v6 b then v6 a < v6 b
      else if v6 a \<noteq> 0 then memcmp_lt (vmIP_bytes_v6 a) (vmIP_bytes_v6 b)
      else addr3 a < addr3 b)"

definition vmIP_le :: "vmIP \<Rightarrow> vmIP \<Rightarrow> bool" where
  "vmIP_le a b = (vmIP_lt a b \<or> vmIP_eq a b)"

definition vmIP_gt :: "vmIP \<Rightarrow> vmIP \<Rightarrow> bool" where
  "vmIP_gt a b = (\<not> vmIP_le a b)"

definition vmIP_ge :: "vmIP \<Rightarrow> vmIP \<Rightarrow> bool" where
  "vmIP_ge a b = (vmIP_gt a b \<or> vmIP_eq a b)"

definition vmIP_isSet :: "vmIP \<Rightarrow> bool" where
  "vmIP_isSet ip =
     (if v6 ip = 0 then addr3 ip \<noteq> 0
      else addr0 ip \<noteq> 0 \<or> addr1 ip \<noteq> 0 \<or> addr2 ip \<noteq> 0 \<or> addr3 ip \<noteq> 0)"

text \<open>\<open>_inc\<close> carries from the last word towards the first, stopping at the first word that does not
  become 0.\<close>

definition vmIP_inc :: "vmIP \<Rightarrow> vmIP" where
  "vmIP_inc ip =
     (if v6 ip = 0 then ip\<lparr>addr3 := addr3 ip + 1\<rparr>
      else let ip = ip\<lparr>addr3 := addr3 ip + 1\<rparr> in
        if addr3 ip \<noteq> 0 then ip
        else let ip = ip\<lparr>addr2 := addr2 ip + 1\<rparr> in
          if addr2 ip \<noteq> 0 then ip
          else let ip = ip\<lparr>addr1 := addr1 ip + 1\<rparr> in
            if addr1 ip \<noteq> 0 then ip
            else ip\<lparr>addr0 := addr0 ip + 1\<rparr>)"

definition vmIP_and :: "vmIP \<Rightarrow> vmIP \<Rightarrow> vmIP" where
  "vmIP_and ip msk =
     (if v6 ip = 0 then ip\<lparr>addr3 := addr3 ip AND addr3 msk\<rparr>
      else ip\<lparr>addr0 := addr0 ip AND addr0 msk, addr1 := addr1 ip AND addr1 msk,
              addr2 := addr2 ip AND addr2 msk, addr3 := addr3 ip AND addr3 msk\<rparr>)"

definition vmIP_or :: "vmIP \<Rightarrow> vmIP \<Rightarrow> vmIP" where
  "vmIP_or ip msk =
     (if v6 ip = 0 then ip\<lparr>addr3 := addr3 ip OR addr3 msk\<rparr>
      else ip\<lparr>addr0 := addr0 ip OR addr0 msk, addr1 := addr1 ip OR addr1 msk,
              addr2 := addr2 ip OR addr2 msk, addr3 := addr3 ip OR addr3 msk\<rparr>)"

definition vmIP_mask :: "vmIP \<Rightarrow> vmIP \<Rightarrow> vmIP" where
  "vmIP_mask ip msk = vmIP_and ip msk"

text \<open>The mask of one 32-bit word. \<open>_mask\<close> is the \<open>int\<close> that remains of the prefix length.\<close>

definition word_mask_v6 :: "u32 \<Rightarrow> nat \<Rightarrow> u32" where
  "word_mask_v6 msk i =
     (let m = sint (msk - word_of_nat (i * 32)) in
      if msk = 0 \<or> m \<le> 0 then 0
      else if m \<ge> 32 then - 1
      else push_bit (nat (32 - m)) (- 1) AND - 1)"

definition word_wildcard_v6 :: "u32 \<Rightarrow> nat \<Rightarrow> u32" where
  "word_wildcard_v6 msk i =
     (let m = sint (msk - word_of_nat (i * 32)) in
      if msk = 0 \<or> m \<le> 0 then - 1
      else if m \<ge> 32 then 0
      else word_of_int (2 ^ nat (32 - m) - 1))"

definition vmIP_network_mask :: "u32 \<Rightarrow> bool \<Rightarrow> vmIP \<Rightarrow> vmIP option" where
  "vmIP_network_mask msk enable_zero this =
     (if v6 this = 0 then
        (let msk = (if msk = 0 \<and> \<not> enable_zero then 32 else msk) in
         if msk = 0 then Some (vmIP_v4 0)
         else if msk \<le> 32 then Some (vmIP_v4 (push_bit (unat (32 - msk)) (- 1) AND - 1))
         else None)
      else
        (let msk = (if msk = 0 then 128 else msk) in
         Some (vmIP_v6 (word_mask_v6 msk 0, word_mask_v6 msk 1, word_mask_v6 msk 2, word_mask_v6 msk 3))))"

definition vmIP_wildcard_mask :: "u32 \<Rightarrow> bool \<Rightarrow> vmIP \<Rightarrow> vmIP option" where
  "vmIP_wildcard_mask msk enable_zero this =
     (if v6 this = 0 then
        (let msk = (if msk = 0 \<and> \<not> enable_zero then 32 else msk) in
         if msk = 0 then Some (vmIP_v4 (- 1))
         else if msk \<le> 32 then Some (vmIP_v4 (word_of_int (2 ^ unat (32 - msk) - 1)))
         else None)
      else
        (let msk = (if msk = 0 then 128 else msk) in
         Some (vmIP_v6 (word_wildcard_v6 msk 0, word_wildcard_v6 msk 1,
                        word_wildcard_v6 msk 2, word_wildcard_v6 msk 3))))"

definition vmIP_network :: "u32 \<Rightarrow> bool \<Rightarrow> vmIP \<Rightarrow> vmIP option" where
  "vmIP_network msk enable_zero this =
     map_option (vmIP_and this) (vmIP_network_mask msk enable_zero this)"

definition vmIP_broadcast :: "u32 \<Rightarrow> bool \<Rightarrow> vmIP \<Rightarrow> vmIP option" where
  "vmIP_broadcast msk enable_zero this =
     map_option (vmIP_or this) (vmIP_wildcard_mask msk enable_zero this)"

definition vmIP_getHashNumber :: "vmIP \<Rightarrow> u32" where
  "vmIP_getHashNumber ip = (if v6 ip = 0 then addr3 ip else addr3 ip)"

definition vmIP_is_v6 :: "vmIP \<Rightarrow> bool" where
  "vmIP_is_v6 ip = (v6 ip \<noteq> 0)"

definition vmIP_bits :: "vmIP \<Rightarrow> nat" where
  "vmIP_bits ip = (if v6 ip \<noteq> 0 then 128 else 32)"

definition vmIP_bytes :: "vmIP \<Rightarrow> nat" where
  "vmIP_bytes ip = (if v6 ip \<noteq> 0 then 16 else 4)"

definition vmIP_v :: "vmIP \<Rightarrow> nat" where
  "vmIP_v ip = (if v6 ip \<noteq> 0 then 6 else 4)"

definition vmIP_is_net_mask :: "int \<Rightarrow> vmIP \<Rightarrow> bool" where
  "vmIP_is_net_mask bits ip = (bits > 0 \<and> bits < int (vmIP_bits ip))"

definition vmIP_set_to_v6 :: "vmIP \<Rightarrow> vmIP" where
  "vmIP_set_to_v6 ip = ip\<lparr>v6 := 1, addr0 := 0, addr1 := 0, addr2 := 0\<rparr>"

definition vmIP_set_to_v4 :: "vmIP \<Rightarrow> vmIP" where
  "vmIP_set_to_v4 ip = ip\<lparr>v6 := 0\<rparr>"

section \<open>Local networks\<close>

text \<open>The three networks of \<open>vmIP::isLocalIP\<close>, already split at the slash and parsed.\<close>

definition local_nets :: "(vmIP \<times> u32) list" where
  "local_nets = [(vmIP_v4 0xC0A80000, 16), (vmIP_v4 0x0A000000, 8), (vmIP_v4 0xAC100000, 20)]"

definition vmIP_isLocalIP :: "vmIP \<Rightarrow> bool" where
  "vmIP_isLocalIP this =
     list_ex (\<lambda>(ip, bits).
       case (vmIP_network bits False ip, vmIP_network_mask bits False ip) of
         (Some net, Some m) \<Rightarrow> vmIP_eq (vmIP_mask this m) net
       | _ \<Rightarrow> False) local_nets"

section \<open>The value of an address\<close>

definition vmIP_val :: "vmIP \<Rightarrow> nat" where
  "vmIP_val ip = (if v6 ip = 0 then unat (addr3 ip)
     else ((unat (addr0 ip) * 2 ^ 32 + unat (addr1 ip)) * 2 ^ 32 + unat (addr2 ip)) * 2 ^ 32 + unat (addr3 ip))"

section \<open>Comparators\<close>

lemma memcmp_lt_irrefl: "\<not> memcmp_lt a a"
  by (induction a) auto

lemma memcmp_lt_trans: "memcmp_lt a b \<Longrightarrow> memcmp_lt b c \<Longrightarrow> memcmp_lt a c"
proof (induction a b arbitrary: c rule: memcmp_lt.induct)
  case (1 a as b bs)
  then show ?case by (cases c) auto
qed auto

lemma memcmp_lt_total: "length a = length b \<Longrightarrow> memcmp_lt a b \<or> a = b \<or> memcmp_lt b a"
  by (induction a b rule: list_induct2) auto

lemma length_vmIP_bytes_v6 [simp]: "length (vmIP_bytes_v6 ip) = 16"
  by (simp add: vmIP_bytes_v6_def vmIP_words_def)

lemma map_key_order_vmIP: "map_key_order vmIP_lt vmIP_eq"
proof (unfold_locales, goal_cases)
  case (1 a) show ?case by (simp add: vmIP_lt_def memcmp_lt_irrefl)
next
  case (2 a b c) then show ?case
    by (auto simp: vmIP_lt_def split: if_splits intro: memcmp_lt_trans)
next
  case (3 a b) show ?case
    using memcmp_lt_total [of "vmIP_bytes_v6 a" "vmIP_bytes_v6 b"]
    by (auto simp: vmIP_lt_def vmIP_eq_def word_gt_0)
next
  case (4 a b) then show ?case by (auto simp: vmIP_lt_def vmIP_eq_def memcmp_lt_irrefl split: if_splits)
next
  case (5 a b) then show ?case by (auto simp: vmIP_eq_def split: if_splits)
next
  case (6 a b c) then show ?case by (auto simp: vmIP_eq_def split: if_splits)
qed

interpretation vmIP_key: map_key_order vmIP_lt vmIP_eq
  by (rule map_key_order_vmIP)

lemma word_le_inj: "LENGTH('a) \<le> n * 8 \<Longrightarrow> word_le n a = word_le n b \<longleftrightarrow> a = (b :: 'a::len word)"
  by (metis le_word_word_le)

lemma vmIP_bytes_v6_eq_iff: "vmIP_bytes_v6 a = vmIP_bytes_v6 b \<longleftrightarrow> vmIP_words a = vmIP_words b"
  by (auto simp: vmIP_bytes_v6_def vmIP_words_def word_le_inj)

lemma and_push_bit_minus_1: "n AND push_bit k (- 1) = push_bit k (drop_bit k (n :: 'a::len word))"
  by (rule bit_word_eqI) (auto simp: bit_simps)

lemma and_not_mask_eq: "n AND NOT (mask k) = push_bit k (drop_bit k (n :: 'a::len word))"
  by (rule bit_word_eqI) (auto simp: bit_simps)

lemma or_mask_eq: "n OR mask k = push_bit k (drop_bit k n) + mask k" for n :: "'a::len word"
proof -
  have "n OR mask k = push_bit k (drop_bit k n) OR mask k"
    by (rule bit_word_eqI) (auto simp: bit_simps)
  moreover have "push_bit k (drop_bit k n) AND mask k = 0"
    by (rule bit_word_eqI) (auto simp: bit_simps)
  ultimately show ?thesis by (simp add: disjunctive_add_eq_or)
qed

lemma unat_push_drop: "unat (push_bit k (drop_bit k n)) = unat n div 2 ^ k * 2 ^ k" for n :: "'a::len word"
proof -
  have "unat n div 2 ^ k * 2 ^ k \<le> unat n" by simp
  also have "\<dots> < 2 ^ LENGTH('a)" by (rule unsigned_less)
  finally have "unat n div 2 ^ k * 2 ^ k mod 2 ^ LENGTH('a) = unat n div 2 ^ k * 2 ^ k" by simp
  moreover have "unat (push_bit k (drop_bit k n)) = take_bit LENGTH('a) (push_bit k (drop_bit k (unat n)))"
    by (simp only: unsigned_push_bit_eq unsigned_drop_bit_eq take_bit_nat_eq_self [OF unsigned_less])
  ultimately show ?thesis by (simp add: take_bit_eq_mod push_bit_eq_mult drop_bit_eq_div)
qed


lemma network_mask_v4:
  assumes "v6 ip = 0" and "1 \<le> m" and "m \<le> 32"
  shows "vmIP_network_mask (word_of_nat m) z ip = Some (vmIP_v4 (push_bit (32 - m) (- 1)))"
    and "vmIP_wildcard_mask (word_of_nat m) z ip = Some (vmIP_v4 (mask (32 - m)))"
proof -
  have u: "unat (word_of_nat m :: u32) = m" using assms by (simp add: unat_of_nat)
  then have nz: "(word_of_nat m :: u32) \<noteq> 0" using assms by auto
  have le: "(word_of_nat m :: u32) \<le> 32" using u assms by (simp add: word_le_nat_alt)
  have d: "unat (32 - word_of_nat m :: u32) = 32 - m"
    using u le by (simp add: unat_sub)
  show "vmIP_network_mask (word_of_nat m) z ip = Some (vmIP_v4 (push_bit (32 - m) (- 1)))"
    using assms(1) nz le d by (simp add: vmIP_network_mask_def Let_def)
  show "vmIP_wildcard_mask (word_of_nat m) z ip = Some (vmIP_v4 (mask (32 - m)))"
    using assms(1) nz le by (simp add: vmIP_wildcard_mask_def Let_def d mask_eq_exp_minus_1)
qed

lemma network_v4:
  assumes "v6 ip = 0" and "1 \<le> m" and "m \<le> 32"
  shows "vmIP_network (word_of_nat m) z ip = Some (ip\<lparr>addr3 := push_bit (32 - m) (drop_bit (32 - m) (addr3 ip))\<rparr>)"
    and "vmIP_broadcast (word_of_nat m) z ip = Some (ip\<lparr>addr3 := push_bit (32 - m) (drop_bit (32 - m) (addr3 ip)) + mask (32 - m)\<rparr>)"
  using assms
  by (simp_all add: vmIP_network_def vmIP_broadcast_def network_mask_v4 vmIP_and_def vmIP_or_def vmIP_v4_def
      and_push_bit_minus_1 and_not_mask_eq or_mask_eq)

lemma unat_network_v4: "unat (push_bit k (drop_bit k n) + mask k) = unat n div 2 ^ k * 2 ^ k + (2 ^ k - 1)"
  if "k < LENGTH('a)" for n :: "'a::len word"
proof -
  have m: "unat (mask k :: 'a word) = 2 ^ k - 1"
  proof -
    have "(2::nat) ^ k - 1 < 2 ^ LENGTH('a)"
      using that by (meson diff_le_self le_less_trans power_strict_increasing one_less_numeral_iff semiring_norm(76))
    then have "unat (of_nat (mask k) :: 'a word) = 2 ^ k - 1"
      by (simp only: unat_of_nat mask_eq_exp_minus_1 mod_less)
    then show ?thesis by (simp only: of_nat_mask_eq)
  qed
  have "unat n < 2 ^ k * 2 ^ (LENGTH('a) - k)"
    using that unsigned_less [of n] by (simp flip: power_add del: unsigned_less)
  then have "unat n div 2 ^ k < 2 ^ (LENGTH('a) - k)" by (simp add: less_mult_imp_div_less mult.commute)
  then have "(unat n div 2 ^ k + 1) * 2 ^ k \<le> 2 ^ (LENGTH('a) - k) * 2 ^ k" by (intro mult_le_mono1) simp
  then have "unat n div 2 ^ k * 2 ^ k + 2 ^ k \<le> 2 ^ LENGTH('a)" using that by (simp flip: power_add)
  then have "unat n div 2 ^ k * 2 ^ k + (2 ^ k - 1) < 2 ^ LENGTH('a)" 
    using zero_less_power [of "2::nat" k] by linarith
  then show ?thesis by (simp only: unat_word_ariths unat_push_drop m mod_less)
qed

lemma div_interval: "0 < c \<Longrightarrow> (a div c * c \<le> b \<and> b \<le> a div c * c + (c - 1)) \<longleftrightarrow> b div c = a div (c :: nat)"
proof
  assume c: "0 < c" and h: "a div c * c \<le> b \<and> b \<le> a div c * c + (c - 1)"
  then have "a div c \<le> b div c" by (simp add: less_eq_div_iff_mult_less_eq)
  moreover have "b div c < Suc (a div c)"
    using c h by (simp add: div_less_iff_less_mult) linarith
  ultimately show "b div c = a div c" by simp
next
  assume c: "0 < c" and h: "b div c = a div c"
  have "b = b div c * c + b mod c" and "b mod c < c" using c by simp_all
  with h show "a div c * c \<le> b \<and> b \<le> a div c * c + (c - 1)" by (metis Suc_diff_1 add_le_cancel_left c le_add1 less_Suc_eq_le)
qed

lemma vmIP_le_v4: "v6 a = 0 \<Longrightarrow> v6 b = 0 \<Longrightarrow> vmIP_le a b \<longleftrightarrow> unat (addr3 a) \<le> unat (addr3 b)"
  by (auto simp: vmIP_le_def vmIP_lt_def vmIP_eq_def word_less_nat_alt word_unat_eq_iff)

lemma unat_inc_cases:
  "w + 1 = 0 \<and> unat w = 4294967295 \<or> w + 1 \<noteq> 0 \<and> unat (w + 1) = unat w + 1" for w :: u32
proof (cases "unat w = 4294967295")
  case True
  then have "unat (w + 1) = 0" by (simp add: unat_word_ariths)
  then show ?thesis using True by (simp add: unat_eq_zero)
next
  case False
  then have "unat w + 1 < 4294967296" using unat_u32_less [of w] by linarith
  then have "unat (w + 1) = unat w + 1" by (simp add: unat_word_ariths)
  then show ?thesis by auto
qed

lemma unat_inc32: "unat (w + 1) = (unat w + 1) mod 4294967296" for w :: u32
  by (simp add: unat_word_ariths)

lemma eq_and_not_mask:
  "x AND NOT (mask k) = y AND NOT (mask k) \<longleftrightarrow> unat x div 2 ^ k = unat y div 2 ^ k" for x y :: u32
  by (simp only: and_not_mask_eq word_unat_eq_iff unat_push_drop) simp

section \<open>Properties\<close>

text \<open>a \<open>std::map\<close> keyed by \<open>vmIP\<close> stores under an address exactly what is found under the
  addresses \<open>operator ==\<close> identifies with it, and leaves every other key as it was.\<close>

theorem vmIP_map_insert_lookup:
  assumes "map_ordered vmIP_lt m"
  shows "map_ordered vmIP_lt (map_put vmIP_lt a v m) \<and>
         map_find vmIP_lt b (map_put vmIP_lt a v m) = (if vmIP_eq a b then Some v else map_find vmIP_lt b m)"
  using assms by (simp add: vmIP_key.map_find_put vmIP_key.map_ordered_put)

theorem vmIP_map_insert_lookup_witness:
  "map_ordered vmIP_lt [(vmIP_v4 1, True)] \<and>
   map_find vmIP_lt (vmIP_v4 2) (map_put vmIP_lt (vmIP_v4 2) False [(vmIP_v4 1, True)]) = Some False"
proof -
  have h: "map_ordered vmIP_lt [(vmIP_v4 1, True)]" by simp
  show ?thesis
    using h vmIP_map_insert_lookup [OF h, of "vmIP_v4 2" False "vmIP_v4 2"]
    by (simp add: vmIP_eq_def)
qed

text \<open>an IPv4 address lies between \<open>network(mask)\<close> and \<open>broadcast(mask)\<close> of another one, in the
  order of \<open>vmIP\<close>, exactly when both have the same network.\<close>

theorem network_broadcast_interval:
  assumes "v6 ip = 0" and "v6 x = 0" and "1 \<le> m" and "m \<le> 32"
    and "vmIP_network (word_of_nat m) z ip = Some net"
    and "vmIP_broadcast (word_of_nat m) z ip = Some bc"
    and "vmIP_network (word_of_nat m) z x = Some nx"
  shows "vmIP_le net x \<and> vmIP_le x bc \<longleftrightarrow> vmIP_eq nx net"
proof -
  let ?c = "2 ^ (32 - m) :: nat" and ?a = "unat (addr3 ip)" and ?b = "unat (addr3 x)"
  have net: "v6 net = 0" "unat (addr3 net) = ?a div ?c * ?c"
    and bc: "v6 bc = 0" "unat (addr3 bc) = ?a div ?c * ?c + (?c - 1)"
    and nx: "v6 nx = 0" "unat (addr3 nx) = ?b div ?c * ?c"
    using assms by (auto simp: network_v4 unat_push_drop unat_network_v4)
  have "vmIP_le net x \<and> vmIP_le x bc \<longleftrightarrow> ?b div ?c = ?a div ?c"
    using net bc assms(2) by (simp only: vmIP_le_v4 div_interval zero_less_power zero_less_numeral)
  also have "\<dots> \<longleftrightarrow> unat (addr3 nx) = unat (addr3 net)"
    using net nx by simp
  finally show ?thesis using net nx by (simp add: vmIP_eq_def word_unat_eq_iff)
qed

theorem network_broadcast_interval_witness:
  "vmIP_le (vmIP_v4 0x0A010200) (vmIP_v4 0x0A010277) \<and> vmIP_le (vmIP_v4 0x0A010277) (vmIP_v4 0x0A0102FF)"
proof -
  have "vmIP_network (word_of_nat 24) False (vmIP_v4 0x0A010203) = Some (vmIP_v4 0x0A010200)"
    and "vmIP_broadcast (word_of_nat 24) False (vmIP_v4 0x0A010203) = Some (vmIP_v4 0x0A0102FF)"
    and "vmIP_network (word_of_nat 24) False (vmIP_v4 0x0A010277) = Some (vmIP_v4 0x0A010200)"
    by (simp_all add: vmIP_network_def vmIP_broadcast_def vmIP_network_mask_def vmIP_wildcard_mask_def
        vmIP_and_def vmIP_or_def vmIP_v4_def Let_def mask_eq_exp_minus_1)
  from network_broadcast_interval [OF _ _ _ _ this]
  show ?thesis by (simp add: vmIP_v4_def vmIP_eq_def)
qed

text \<open>\<open>_inc\<close> adds one to the address, read as a 32-bit or a 128-bit number, and wraps at its
  width.\<close>

theorem vmIP_inc_val: "vmIP_val (vmIP_inc ip) = (vmIP_val ip + 1) mod 2 ^ vmIP_bits ip"
proof (cases "v6 ip = 0")
  case True
  then show ?thesis
    by (simp add: vmIP_inc_def vmIP_val_def vmIP_bits_def unat_word_ariths)
next
  case False
  have lt: "vmIP_val (vmIP_inc ip) < 2 ^ 128"
    using unat_u32_less [of "addr0 (vmIP_inc ip)"] unat_u32_less [of "addr1 (vmIP_inc ip)"]
      unat_u32_less [of "addr2 (vmIP_inc ip)"] unat_u32_less [of "addr3 (vmIP_inc ip)"]
    by (simp add: vmIP_val_def del: unat_u32_less)
  note c = unat_inc_cases [of "addr3 ip"] unat_inc_cases [of "addr2 ip"]
    unat_inc_cases [of "addr1 ip"] unat_inc_cases [of "addr0 ip"]
  have "vmIP_val (vmIP_inc ip) = vmIP_val ip + 1 \<or>
        vmIP_val (vmIP_inc ip) = 0 \<and> vmIP_val ip + 1 = 2 ^ 128"
    using False c by (auto simp: vmIP_inc_def vmIP_val_def Let_def)
  with lt False show ?thesis by (auto simp: vmIP_bits_def)
qed

text \<open>\<open>isLocalIP\<close> holds exactly on 192.168.0.0/16, 10.0.0.0/8 and 172.16.0.0/20 (so not on
  172.16.16.0 up to 172.31.255.255, the rest of the private block 172.16.0.0/12).\<close>

theorem isLocalIP_ranges:
  "vmIP_isLocalIP ip \<longleftrightarrow> v6 ip = 0 \<and>
     (unat (addr3 ip) div 2 ^ 16 = 0xC0A8 \<or> unat (addr3 ip) div 2 ^ 24 = 10 \<or>
      unat (addr3 ip) div 2 ^ 12 = 0xAC100)"
proof (cases "v6 ip = 0")
  case True
  then show ?thesis
    by (simp add: vmIP_isLocalIP_def local_nets_def vmIP_network_def network_mask_v4 [of _ 16, simplified]
        network_mask_v4 [of _ 8, simplified] network_mask_v4 [of _ 20, simplified] vmIP_v4_def
        vmIP_mask_def vmIP_and_def vmIP_eq_def eq_and_not_mask)
next
  case False
  then show ?thesis
    by (simp add: vmIP_isLocalIP_def local_nets_def vmIP_network_def vmIP_network_mask_def vmIP_v4_def
        vmIP_mask_def vmIP_and_def vmIP_eq_def)
qed

end
