(* ===== verification/VM_IpHeader.thy ===== *)
theory VM_IpHeader
  imports VM_Ip
begin

text \<open>
  The IP headers read in place in a packet buffer (\<open>ip6hdr2\<close> and \<open>iphdr2\<close> of \<open>ip.h\<close> and \<open>ip.cpp\<close>).
  A header is a position \<open>p\<close> in the buffer \<open>m\<close>; every field access is a load or a store at its offset
  in the structure and fails with \<open>OutOfBounds\<close> behind the end of the buffer. The walk over the IPv6
  extension headers advances by at least one byte per header, so \<open>Suc (length m)\<close> iterations are
  enough fuel for every buffer that the 16-bit offset can address.
\<close>

section \<open>Protocol numbers and sizes\<close>

abbreviation (input) "IPPROTO_HOPOPTS \<equiv> (0 :: u8)"
abbreviation (input) "IPPROTO_ROUTING \<equiv> (43 :: u8)"
abbreviation (input) "IPPROTO_FRAGMENT \<equiv> (44 :: u8)"
abbreviation (input) "IPPROTO_ESP \<equiv> (50 :: u8)"
abbreviation (input) "IPPROTO_ICMPV6 \<equiv> (58 :: u8)"
abbreviation (input) "IPPROTO_NONE \<equiv> (59 :: u8)"
abbreviation (input) "IPPROTO_DSTOPTS \<equiv> (60 :: u8)"
abbreviation (input) "IPPROTO_MH \<equiv> (135 :: u8)"

abbreviation (input) "sizeof_ip6hdr2 \<equiv> (40 :: nat)"
abbreviation (input) "sizeof_iphdr2 \<equiv> (20 :: nat)"
abbreviation (input) "IPPROTO_ESP_HEADER_SIZE \<equiv> (8 :: u16)"
abbreviation (input) "IPPROTO_ESP_FOOTER_SIZE \<equiv> (14 :: int)"
abbreviation (input) "IP6_EXT_HEADERS_MAX \<equiv> (10 :: nat)"

section \<open>ip6hdr2\<close>

definition ld_in6 :: "mem \<Rightarrow> nat \<Rightarrow> in6_addr outcome" where
  "ld_in6 m p =
     obind (ld32 m p) (\<lambda>a. obind (ld32 m (p + 4)) (\<lambda>b. obind (ld32 m (p + 8)) (\<lambda>c.
       omap (\<lambda>d. (a, b, c, d)) (ld32 m (p + 12)))))"

definition in6_ntohl :: "in6_addr \<Rightarrow> in6_addr" where
  "in6_ntohl x = (case x of (a, b, c, d) \<Rightarrow> (ntohl a, ntohl b, ntohl c, ntohl d))"

definition st_in6 :: "mem \<Rightarrow> nat \<Rightarrow> in6_addr \<Rightarrow> mem outcome" where
  "st_in6 m p x = (case x of (a, b, c, d) \<Rightarrow> stn m p (word_le 4 a @ word_le 4 b @ word_le 4 c @ word_le 4 d))"

definition ip6_get_saddr :: "mem \<Rightarrow> nat \<Rightarrow> vmIP outcome" where
  "ip6_get_saddr m p = omap (\<lambda>a. vmIP_v6 (in6_ntohl a)) (ld_in6 m (p + 8))"

definition ip6_get_daddr :: "mem \<Rightarrow> nat \<Rightarrow> vmIP outcome" where
  "ip6_get_daddr m p = omap (\<lambda>a. vmIP_v6 (in6_ntohl a)) (ld_in6 m (p + 24))"

definition ip6_set_saddr :: "vmIP \<Rightarrow> mem \<Rightarrow> nat \<Rightarrow> mem outcome" where
  "ip6_set_saddr ip m p = st_in6 m (p + 8) (in6_ntohl (vmIP_getIPv6 False ip))"

definition ip6_set_daddr :: "vmIP \<Rightarrow> mem \<Rightarrow> nat \<Rightarrow> mem outcome" where
  "ip6_set_daddr ip m p = st_in6 m (p + 24) (in6_ntohl (vmIP_getIPv6 False ip))"

definition is_ext_header :: "u8 \<Rightarrow> bool" where
  "is_ext_header h = (h = IPPROTO_HOPOPTS \<or> h = IPPROTO_ROUTING \<or> h = IPPROTO_FRAGMENT \<or> h = IPPROTO_ICMPV6 \<or>
                      h = IPPROTO_NONE \<or> h = IPPROTO_DSTOPTS \<or> h = IPPROTO_MH)"

text \<open>The length field of every extension header but the fragment header is its second byte, and the
  code takes it as a number of bytes.\<close>

definition get_ext_header_size :: "mem \<Rightarrow> nat \<Rightarrow> u8 \<Rightarrow> u16 outcome" where
  "get_ext_header_size m q h =
     (if h = IPPROTO_HOPOPTS then omap ucast (ld8 m (q + 1))
      else if h = IPPROTO_ROUTING then omap ucast (ld8 m (q + 1))
      else if h = IPPROTO_FRAGMENT then Ret 8
      else if h = IPPROTO_ICMPV6 then omap ucast (ld8 m (q + 1))
      else if h = IPPROTO_NONE then omap ucast (ld8 m (q + 1))
      else if h = IPPROTO_DSTOPTS then omap ucast (ld8 m (q + 1))
      else if h = IPPROTO_MH then omap ucast (ld8 m (q + 1))
      else Ret 0)"

definition get_ext_header_nxt :: "mem \<Rightarrow> nat \<Rightarrow> u8 \<Rightarrow> u8 outcome" where
  "get_ext_header_nxt m q h = (if is_ext_header h then ld8 m q else Ret 0)"

definition ip6_get_tot_len :: "mem \<Rightarrow> nat \<Rightarrow> u32 outcome" where
  "ip6_get_tot_len m p = omap (\<lambda>w. 40 + ucast (ntohs w)) (ld16 m (p + 4))"

definition ip6_set_tot_len :: "u32 \<Rightarrow> mem \<Rightarrow> nat \<Rightarrow> mem outcome" where
  "ip6_set_tot_len tot_len m p = stn m (p + 4) (word_le 2 (ntohs (ucast (tot_len - 40))))"

definition ip6_get_tos :: "mem \<Rightarrow> nat \<Rightarrow> u8 outcome" where
  "ip6_get_tos m p = Ret 0"

text \<open>\<open>types\<close> is the array filled by the caller's \<open>ext_headers_type\<close>; \<open>None\<close> stands for a null array.
  The result is the protocol behind the last extension header, or 255 for the \<open>-1\<close> of the code.\<close>

fun get_ext_headers_loop :: "nat \<Rightarrow> mem \<Rightarrow> nat \<Rightarrow> u8 \<Rightarrow> u16 \<Rightarrow> nat \<Rightarrow> u8 list option \<Rightarrow> (u8 \<times> u8 list option) outcome" where
  "get_ext_headers_loop 0 m p nxt off mx types = OutOfFuel"
| "get_ext_headers_loop (Suc fuel) m p nxt off mx types =
     (if is_ext_header nxt then
        (let q = p + sizeof_ip6hdr2 + unat off in
         obind (get_ext_header_size m q nxt) (\<lambda>sz.
           if sz = 0 then Ret (- 1, types)
           else if (case types of Some ts \<Rightarrow> length ts \<ge> mx | None \<Rightarrow> False) then Ret (- 1, types)
           else obind (get_ext_header_nxt m q nxt) (\<lambda>nxt'.
             get_ext_headers_loop fuel m p nxt' (off + sz) mx (map_option (\<lambda>ts. ts @ [nxt]) types))))
      else Ret (nxt, types))"

definition get_ext_headers :: "mem \<Rightarrow> nat \<Rightarrow> nat \<Rightarrow> u8 list option \<Rightarrow> (u8 \<times> u8 list option) outcome" where
  "get_ext_headers m p mx types =
     obind (ld8 m (p + 6)) (\<lambda>nxt. get_ext_headers_loop (Suc (length m)) m p nxt 0 mx types)"

fun ext_headers_size :: "mem \<Rightarrow> nat \<Rightarrow> u16 \<Rightarrow> u8 list \<Rightarrow> u16 outcome" where
  "ext_headers_size m p sz [] = Ret sz"
| "ext_headers_size m p sz (h # hs) =
     obind (get_ext_header_size m (p + sizeof_ip6hdr2 + unat sz) h) (\<lambda>s. ext_headers_size m p (sz + s) hs)"

text \<open>The length is 65535 for \<open>(u_int16_t)-1\<close>; the protocol is set only on success.\<close>

definition get_ext_headers_len :: "mem \<Rightarrow> nat \<Rightarrow> (u16 \<times> u8 option) outcome" where
  "get_ext_headers_len m p =
     obind (get_ext_headers m p IP6_EXT_HEADERS_MAX (Some [])) (\<lambda>(nxt, types).
       if nxt = - 1 then Ret (- 1, None)
       else omap (\<lambda>sz. (sz, Some nxt)) (ext_headers_size m p 0 (the types)))"

fun ext_header_search :: "mem \<Rightarrow> nat \<Rightarrow> u16 \<Rightarrow> u8 \<Rightarrow> u8 list \<Rightarrow> u16 outcome" where
  "ext_header_search m p off header_id [] = Ret (- 1)"
| "ext_header_search m p off header_id (h # hs) =
     (if h = header_id then Ret off
      else obind (get_ext_header_size m (p + unat off) h) (\<lambda>s. ext_header_search m p (off + s) header_id hs))"

definition get_ext_header_offset :: "u8 \<Rightarrow> mem \<Rightarrow> nat \<Rightarrow> u16 outcome" where
  "get_ext_header_offset header_id m p =
     obind (get_ext_headers m p IP6_EXT_HEADERS_MAX (Some [])) (\<lambda>(nxt, types).
       if nxt = - 1 \<or> the types = [] then Ret (- 1)
       else ext_header_search m p 40 header_id (the types))"

definition get_ext_header :: "u8 \<Rightarrow> mem \<Rightarrow> nat \<Rightarrow> nat option outcome" where
  "get_ext_header header_id m p =
     omap (\<lambda>off. if off = - 1 then None else Some (p + unat off)) (get_ext_header_offset header_id m p)"

definition get_total_headers_len :: "mem \<Rightarrow> nat \<Rightarrow> (u16 \<times> u8 option) outcome" where
  "get_total_headers_len m p =
     omap (\<lambda>(l, proto). if l = - 1 then (- 1, proto) else (l + 40, proto)) (get_ext_headers_len m p)"

definition ip6_get_frag_id :: "mem \<Rightarrow> nat \<Rightarrow> u32 outcome" where
  "ip6_get_frag_id m p =
     obind (get_ext_header IPPROTO_FRAGMENT m p) (\<lambda>f.
       case f of Some q \<Rightarrow> omap ntohl (ld32 m (q + 4)) | None \<Rightarrow> Ret 0)"

definition ip6_get_frag_data :: "mem \<Rightarrow> nat \<Rightarrow> u16 outcome" where
  "ip6_get_frag_data m p =
     obind (get_ext_header IPPROTO_FRAGMENT m p) (\<lambda>f.
       case f of Some q \<Rightarrow> omap ntohs (ld16 m (q + 2)) | None \<Rightarrow> Ret 0)"

definition ip6_is_more_frag :: "u16 \<Rightarrow> bool" where
  "ip6_is_more_frag d = (d AND 1 \<noteq> 0)"

definition ip6_get_frag_offset :: "u16 \<Rightarrow> u16" where
  "ip6_get_frag_offset d = push_bit 3 (drop_bit 3 d)"

definition ip6_clear_frag_data :: "mem \<Rightarrow> nat \<Rightarrow> mem outcome" where
  "ip6_clear_frag_data m p =
     obind (get_ext_header IPPROTO_FRAGMENT m p) (\<lambda>f.
       case f of Some q \<Rightarrow> stn m (q + 2) [0, 0] | None \<Rightarrow> Ret m)"

definition ip6_get_protocol_raw :: "mem \<Rightarrow> nat \<Rightarrow> u8 outcome" where
  "ip6_get_protocol_raw m p = omap fst (get_ext_headers m p 0 None)"

definition ip6_get_protocol :: "u32 \<Rightarrow> mem \<Rightarrow> nat \<Rightarrow> u8 outcome" where
  "ip6_get_protocol max_len m p =
     obind (ip6_get_protocol_raw m p) (\<lambda>proto.
       if proto = IPPROTO_ESP then
         obind (ip6_get_tot_len m p) (\<lambda>tot_len.
           if max_len = 0 \<or> tot_len \<le> max_len then ldi8 m (int (p + unat tot_len) - IPPROTO_ESP_FOOTER_SIZE + 1)
           else Ret proto)
       else Ret proto)"

definition ip6_set_protocol :: "u8 \<Rightarrow> mem \<Rightarrow> nat \<Rightarrow> mem outcome" where
  "ip6_set_protocol protocol m p = stn m (p + 6) [protocol]"

definition ip6_get_hdr_size :: "mem \<Rightarrow> nat \<Rightarrow> (u16 \<times> u8 option) outcome" where
  "ip6_get_hdr_size m p =
     omap (\<lambda>(hdr_size, proto).
         if hdr_size = - 1 then (- 1, proto)
         else if proto = Some IPPROTO_ESP then (hdr_size + IPPROTO_ESP_HEADER_SIZE, proto)
         else (hdr_size, proto))
       (get_total_headers_len m p)"

definition ip6_is_ext_headers :: "mem \<Rightarrow> nat \<Rightarrow> bool outcome" where
  "ip6_is_ext_headers m p = omap is_ext_header (ld8 m (p + 6))"

section \<open>iphdr2\<close>

definition iph_version :: "mem \<Rightarrow> nat \<Rightarrow> u8 outcome" where
  "iph_version m p = omap (drop_bit 4) (ld8 m p)"

definition iph_if_v4 :: "mem \<Rightarrow> nat \<Rightarrow> 'a outcome \<Rightarrow> 'a outcome \<Rightarrow> 'a outcome" where
  "iph_if_v4 m p a b = obind (iph_version m p) (\<lambda>v. if v = 4 then a else b)"

definition iph_get_saddr :: "mem \<Rightarrow> nat \<Rightarrow> vmIP outcome" where
  "iph_get_saddr m p = iph_if_v4 m p (omap (\<lambda>w. vmIP_v4 (ntohl w)) (ld32 m (p + 12))) (ip6_get_saddr m p)"

definition iph_get_daddr :: "mem \<Rightarrow> nat \<Rightarrow> vmIP outcome" where
  "iph_get_daddr m p = iph_if_v4 m p (omap (\<lambda>w. vmIP_v4 (ntohl w)) (ld32 m (p + 16))) (ip6_get_daddr m p)"

definition iph_set_saddr :: "vmIP \<Rightarrow> mem \<Rightarrow> nat \<Rightarrow> mem outcome" where
  "iph_set_saddr ip m p =
     iph_if_v4 m p (stn m (p + 12) (word_le 4 (ntohl (vmIP_getIPv4 False ip)))) (ip6_set_saddr ip m p)"

definition iph_set_daddr :: "vmIP \<Rightarrow> mem \<Rightarrow> nat \<Rightarrow> mem outcome" where
  "iph_set_daddr ip m p =
     iph_if_v4 m p (stn m (p + 16) (word_le 4 (ntohl (vmIP_getIPv4 False ip)))) (ip6_set_daddr ip m p)"

definition iph_set_saddr_raw :: "u32 \<Rightarrow> mem \<Rightarrow> nat \<Rightarrow> mem outcome" where
  "iph_set_saddr_raw ip m p = iph_if_v4 m p (stn m (p + 12) (word_le 4 ip)) (Ret m)"

definition iph_set_daddr_raw :: "u32 \<Rightarrow> mem \<Rightarrow> nat \<Rightarrow> mem outcome" where
  "iph_set_daddr_raw ip m p = iph_if_v4 m p (stn m (p + 16) (word_le 4 ip)) (Ret m)"

definition iph_get_tot_len :: "mem \<Rightarrow> nat \<Rightarrow> u32 outcome" where
  "iph_get_tot_len m p = iph_if_v4 m p (omap (\<lambda>w. ucast (ntohs w)) (ld16 m (p + 2))) (ip6_get_tot_len m p)"

definition iph_set_tot_len :: "u32 \<Rightarrow> mem \<Rightarrow> nat \<Rightarrow> mem outcome" where
  "iph_set_tot_len tot_len m p =
     iph_if_v4 m p (stn m (p + 2) (word_le 2 (ntohs (ucast tot_len)))) (ip6_set_tot_len tot_len m p)"

definition iph_get_tos :: "mem \<Rightarrow> nat \<Rightarrow> u8 outcome" where
  "iph_get_tos m p = iph_if_v4 m p (ld8 m (p + 1)) (ip6_get_tos m p)"

definition iph_get_frag_id :: "mem \<Rightarrow> nat \<Rightarrow> u32 outcome" where
  "iph_get_frag_id m p = iph_if_v4 m p (omap (\<lambda>w. ucast (ntohs w)) (ld16 m (p + 4))) (ip6_get_frag_id m p)"

definition iph_get_frag_data :: "mem \<Rightarrow> nat \<Rightarrow> u16 outcome" where
  "iph_get_frag_data m p = iph_if_v4 m p (omap ntohs (ld16 m (p + 6))) (ip6_get_frag_data m p)"

text \<open>\<open>IP_MF\<close> is 0x2000 and \<open>IP_OFFMASK\<close> 0x1FFF; the shifted offset is truncated to 16 bits.\<close>

definition ip4_is_more_frag :: "u16 \<Rightarrow> bool" where
  "ip4_is_more_frag d = (d AND 0x2000 \<noteq> 0)"

definition ip4_get_frag_offset :: "u16 \<Rightarrow> u16" where
  "ip4_get_frag_offset d = push_bit 3 (d AND 0x1FFF)"

definition iph_is_more_frag :: "u16 \<Rightarrow> mem \<Rightarrow> nat \<Rightarrow> bool outcome" where
  "iph_is_more_frag d m p = iph_if_v4 m p (Ret (ip4_is_more_frag d)) (Ret (ip6_is_more_frag d))"

definition iph_get_frag_offset :: "u16 \<Rightarrow> mem \<Rightarrow> nat \<Rightarrow> u16 outcome" where
  "iph_get_frag_offset d m p = iph_if_v4 m p (Ret (ip4_get_frag_offset d)) (Ret (ip6_get_frag_offset d))"

definition iph_clear_frag_data :: "mem \<Rightarrow> nat \<Rightarrow> mem outcome" where
  "iph_clear_frag_data m p = iph_if_v4 m p (stn m (p + 6) [0, 0]) (ip6_clear_frag_data m p)"

definition iph_get_ttl :: "mem \<Rightarrow> nat \<Rightarrow> u8 outcome" where
  "iph_get_ttl m p = iph_if_v4 m p (ld8 m (p + 8)) (Ret 0)"

definition iph_set_ttl :: "u8 \<Rightarrow> mem \<Rightarrow> nat \<Rightarrow> mem outcome" where
  "iph_set_ttl ttl m p = iph_if_v4 m p (stn m (p + 8) [ttl]) (Ret m)"

definition iph_get_protocol_raw :: "mem \<Rightarrow> nat \<Rightarrow> u8 outcome" where
  "iph_get_protocol_raw m p = iph_if_v4 m p (ld8 m (p + 9)) (ip6_get_protocol_raw m p)"

definition iph_get_protocol :: "u32 \<Rightarrow> mem \<Rightarrow> nat \<Rightarrow> u8 outcome" where
  "iph_get_protocol max_len m p =
     iph_if_v4 m p
       (obind (ld8 m (p + 9)) (\<lambda>proto.
          if proto = IPPROTO_ESP then
            obind (iph_get_tot_len m p) (\<lambda>tot_len.
              if max_len = 0 \<or> tot_len \<le> max_len then ldi8 m (int (p + unat tot_len) - IPPROTO_ESP_FOOTER_SIZE + 1)
              else Ret proto)
          else Ret proto))
       (ip6_get_protocol max_len m p)"

definition iph_set_protocol :: "u8 \<Rightarrow> mem \<Rightarrow> nat \<Rightarrow> mem outcome" where
  "iph_set_protocol protocol m p = iph_if_v4 m p (stn m (p + 9) [protocol]) (ip6_set_protocol protocol m p)"

definition iph_get_hdr_size :: "mem \<Rightarrow> nat \<Rightarrow> (u16 \<times> u8 option) outcome" where
  "iph_get_hdr_size m p =
     iph_if_v4 m p
       (omap (\<lambda>proto. (20 + (if proto = IPPROTO_ESP then IPPROTO_ESP_HEADER_SIZE else 0), Some proto)) (ld8 m (p + 9)))
       (ip6_get_hdr_size m p)"

definition iph_get_footer_size :: "u8 \<Rightarrow> mem \<Rightarrow> nat \<Rightarrow> u16 outcome" where
  "iph_get_footer_size proto m p =
     obind (if proto = - 1 then iph_get_protocol_raw m p else Ret proto) (\<lambda>proto.
       if proto = IPPROTO_ESP then
         obind (iph_get_tot_len m p) (\<lambda>tot_len.
           omap (\<lambda>padding. 14 + ucast padding) (ldi8 m (int (p + unat tot_len) - IPPROTO_ESP_FOOTER_SIZE)))
       else Ret 0)"

definition iph_get_check :: "mem \<Rightarrow> nat \<Rightarrow> u16 outcome" where
  "iph_get_check m p = iph_if_v4 m p (omap ntohs (ld16 m (p + 10))) (Ret 0)"

definition iph_set_check :: "u16 \<Rightarrow> mem \<Rightarrow> nat \<Rightarrow> mem outcome" where
  "iph_set_check check m p = iph_if_v4 m p (stn m (p + 10) (word_le 2 (ntohs check))) (Ret m)"

definition iph_get_ihl :: "mem \<Rightarrow> nat \<Rightarrow> u8 outcome" where
  "iph_get_ihl m p = iph_if_v4 m p (omap (\<lambda>b. b AND 15) (ld8 m p)) (Ret 0)"

definition iph_version_is_ok :: "mem \<Rightarrow> nat \<Rightarrow> bool outcome" where
  "iph_version_is_ok m p = omap (\<lambda>v. v = 4 \<or> v = 6) (iph_version m p)"

definition iph_create :: "nat \<Rightarrow> mem" where
  "iph_create version =
     (if version = 4 then (replicate 20 0)[0 := 0x45, 8 := 50]
      else (replicate 40 0)[0 := 0x60])"

text \<open>The bytes \<open>md5_update_ip\<close> feeds to the digest: source and destination address as they stand in
  the packet.\<close>

definition ip6_md5_update_ip :: "mem \<Rightarrow> nat \<Rightarrow> u8 list outcome" where
  "ip6_md5_update_ip m p = obind (ldn 16 m (p + 8)) (\<lambda>s. omap (\<lambda>d. s @ d) (ldn 16 m (p + 24)))"

definition iph_md5_update_ip :: "mem \<Rightarrow> nat \<Rightarrow> u8 list outcome" where
  "iph_md5_update_ip m p =
     iph_if_v4 m p (obind (ldn 4 m (p + 12)) (\<lambda>s. omap (\<lambda>d. s @ d) (ldn 4 m (p + 16)))) (ip6_md5_update_ip m p)"

section \<open>Transport headers\<close>

text \<open>\<open>tcphdr2\<close> and \<open>udphdr2\<close> begin with the two ports in network byte order.\<close>

definition tcp_get_source :: "mem \<Rightarrow> nat \<Rightarrow> u16 outcome" where
  "tcp_get_source m p = omap ntohs (ld16 m p)"

definition tcp_get_dest :: "mem \<Rightarrow> nat \<Rightarrow> u16 outcome" where
  "tcp_get_dest m p = omap ntohs (ld16 m (p + 2))"

definition tcp_set_source :: "u16 \<Rightarrow> mem \<Rightarrow> nat \<Rightarrow> mem outcome" where
  "tcp_set_source port m p = stn m p (word_le 2 (ntohs port))"

definition tcp_set_dest :: "u16 \<Rightarrow> mem \<Rightarrow> nat \<Rightarrow> mem outcome" where
  "tcp_set_dest port m p = stn m (p + 2) (word_le 2 (ntohs port))"

definition udp_get_source :: "mem \<Rightarrow> nat \<Rightarrow> u16 outcome" where
  "udp_get_source m p = omap ntohs (ld16 m p)"

definition udp_get_dest :: "mem \<Rightarrow> nat \<Rightarrow> u16 outcome" where
  "udp_get_dest m p = omap ntohs (ld16 m (p + 2))"

definition udp_set_source :: "u16 \<Rightarrow> mem \<Rightarrow> nat \<Rightarrow> mem outcome" where
  "udp_set_source port m p = stn m p (word_le 2 (ntohs port))"

definition udp_set_dest :: "u16 \<Rightarrow> mem \<Rightarrow> nat \<Rightarrow> mem outcome" where
  "udp_set_dest port m p = stn m (p + 2) (word_le 2 (ntohs port))"

section \<open>Addresses as bytes of a packet\<close>

definition in6_bytes :: "in6_addr \<Rightarrow> mem" where
  "in6_bytes a = (case a of (x, y, z, u) \<Rightarrow> be_bytes 4 x @ be_bytes 4 y @ be_bytes 4 z @ be_bytes 4 u)"

lemma length_in6_bytes [simp]: "length (in6_bytes a) = 16"
  by (cases a) (simp add: in6_bytes_def)

lemma ldn_sub:
  assumes "ldn n m p = Ret bs" and "k + j \<le> n"
  shows "ldn j m (p + k) = Ret (take j (drop k bs))"
  using assms by (auto simp: ldn_def drop_take add.commute min_def split: if_splits)

lemma ld_in6_bytes:
  assumes "ldn 16 m p = Ret (in6_bytes a)"
  shows "ld_in6 m p = Ret (in6_ntohl a)"
proof -
  obtain x y z u where a: "a = (x, y, z, u)" by (cases a)
  have r: "le_word (be_bytes 4 w) = ntohl w" for w :: u32 by (metis be_bytes_read(1) ntohl_ntohl)
  have "ld32 m p = Ret (ntohl x)" "ld32 m (p + 4) = Ret (ntohl y)" "ld32 m (p + 8) = Ret (ntohl z)" "ld32 m (p + 12) = Ret (ntohl u)"
    using ldn_sub [OF assms, of 0 4] ldn_sub [OF assms, of 4 4] ldn_sub [OF assms, of 8 4] ldn_sub [OF assms, of 12 4]
    by (simp_all add: ld32_def a in6_bytes_def r)
  then show ?thesis by (simp add: ld_in6_def a in6_ntohl_def)
qed

section \<open>Lemmas\<close>

lemma get_ext_header_size_no_fuel: "get_ext_header_size m q h \<noteq> OutOfFuel"
  by (simp add: get_ext_header_size_def ld8_def)

lemma get_ext_header_size_le: "get_ext_header_size m q h = Ret sz \<Longrightarrow> unat sz \<le> 255"
  by (auto simp: get_ext_header_size_def ld8_def less_Suc_eq_le [symmetric] split: if_splits)

lemma get_ext_header_nxt_bound:
  "get_ext_header_nxt m q h = Ret n \<Longrightarrow> is_ext_header h \<Longrightarrow> q < length m"
  by (auto simp: get_ext_header_nxt_def ld8_def split: if_splits)

lemma get_ext_header_nxt_no_fuel: "get_ext_header_nxt m q h \<noteq> OutOfFuel"
  by (simp add: get_ext_header_nxt_def ld8_def)

lemma get_ext_headers_loop_returns:
  assumes "length m \<le> 65280" and "1 \<le> fuel" and "length m < fuel + unat off"
  shows "get_ext_headers_loop fuel m p nxt off mx types \<noteq> OutOfFuel"
  using assms
proof (induction fuel arbitrary: nxt off types)
  case (Suc fuel)
  let ?q = "p + sizeof_ip6hdr2 + unat off"
  have step: "get_ext_headers_loop fuel m p n (off + sz) mx ts \<noteq> OutOfFuel"
    if "get_ext_header_size m ?q nxt = Ret sz" "sz \<noteq> 0" "get_ext_header_nxt m ?q nxt = Ret n"
      "is_ext_header nxt" for sz n ts
  proof -
    have q: "unat off < length m" using get_ext_header_nxt_bound [OF that(3,4)] by simp
    have le: "unat sz \<le> 255" and pos: "0 < unat sz"
      using get_ext_header_size_le that(1,2) by (auto simp: unat_gt_0)
    have "unat (off + sz) = unat off + unat sz"
      using q le Suc.prems(1) by (simp add: unat_word_ariths)
    then show ?thesis using q pos Suc.prems by (intro Suc.IH) auto
  qed
  show ?case
    using step get_ext_header_size_no_fuel [of m ?q nxt] get_ext_header_nxt_no_fuel [of m ?q nxt]
    by (cases "get_ext_header_size m ?q nxt"; cases "get_ext_header_nxt m ?q nxt")
       (auto simp: Let_def split: option.splits)
qed simp

lemma iph_if_v4_4: "p < length m \<Longrightarrow> drop_bit 4 (m ! p) = 4 \<Longrightarrow> iph_if_v4 m p a b = a"
  by (simp add: iph_if_v4_def iph_version_def ld8_def)

lemma iph_v4_repair_fields:
  assumes "p + 20 \<le> length m" and "drop_bit 4 (m ! p) = 4"
  shows "\<exists>m1 m2 m3. iph_set_tot_len n m p = Ret m1 \<and> iph_set_check 0 m1 p = Ret m2 \<and>
     iph_clear_frag_data m2 p = Ret m3 \<and> length m3 = length m \<and>
     iph_get_tot_len m3 p = Ret (ucast (ucast n :: u16)) \<and> iph_get_check m3 p = Ret 0 \<and>
     iph_get_frag_data m3 p = Ret 0 \<and> iph_get_saddr m3 p = iph_get_saddr m p \<and>
     iph_get_daddr m3 p = iph_get_daddr m p \<and> iph_get_protocol_raw m3 p = iph_get_protocol_raw m p \<and>
     iph_get_frag_id m3 p = iph_get_frag_id m p \<and>
     take p m3 = take p m \<and> drop (p + 20) m3 = drop (p + 20) m"
proof -
  obtain m1 where m1: "stn m (p + 2) (word_le 2 (ntohs (ucast n))) = Ret m1" "length m1 = length m"
    using assms(1) stn_Ret [of "p + 2" "word_le 2 (ntohs (ucast n))" m] by auto
  obtain m2 where m2: "stn m1 (p + 10) (word_le 2 (ntohs 0)) = Ret m2" "length m2 = length m"
    using assms(1) m1 stn_Ret [of "p + 10" "word_le 2 (ntohs 0)" m1] by auto
  obtain m3 where m3: "stn m2 (p + 6) (word_le 2 (0 :: u16)) = Ret m3" "length m3 = length m"
    using assms(1) m2 stn_Ret [of "p + 6" "word_le 2 (0 :: u16)" m2] by auto
  note other = ld_stn_other [OF m1(1)] ld_stn_other [OF m2(1)] ld_stn_other [OF m3(1)]
  have p: "p < length m" using assms(1) by simp
  have "ld8 m1 p = ld8 m p" "ld8 m2 p = ld8 m p" "ld8 m3 p = ld8 m p" by (simp_all add: other)
  then have b: "m1 ! p = m ! p" "m2 ! p = m ! p" "m3 ! p = m ! p"
    using p m1(2) m2(2) m3(2) by (simp_all add: ld8_def)
  have v: "iph_if_v4 m p a b = a" "iph_if_v4 m1 p a b = a" "iph_if_v4 m2 p a b = a" "iph_if_v4 m3 p a b = a"
    for a b :: "'x outcome"
    using iph_if_v4_4 p assms(2) b m1(2) m2(2) m3(2) by (metis (no_types))+
  have zero: "word_le 2 (0 :: u16) = [0, 0]" by (simp add: word_le_def)
  have tot: "ld16 m3 (p + 2) = Ret (ntohs (ucast n))"
    using ld16_stn [OF m1(1)] by (simp add: other)
  have chk: "ld16 m3 (p + 10) = Ret 0"
    using ld16_stn [OF m2(1)] by (simp add: other)
  have frg: "ld16 m3 (p + 6) = Ret 0"
    using ld16_stn [OF m3(1)] .
  show ?thesis
  proof (intro exI conjI)
    show "iph_set_tot_len n m p = Ret m1" using m1(1) by (simp only: iph_set_tot_len_def v)
    show "iph_set_check 0 m1 p = Ret m2" using m2(1) by (simp only: iph_set_check_def v)
    show "iph_clear_frag_data m2 p = Ret m3" using m3(1) by (simp add: iph_clear_frag_data_def v zero)
    show "length m3 = length m" by (rule m3(2))
    show "iph_get_tot_len m3 p = Ret (ucast (ucast n :: u16))" by (simp only: iph_get_tot_len_def v tot omap.simps ntohs_ntohs)
    show "iph_get_check m3 p = Ret 0" by (simp add: iph_get_check_def v chk)
    show "iph_get_frag_data m3 p = Ret 0" by (simp add: iph_get_frag_data_def v frg)
    show "iph_get_saddr m3 p = iph_get_saddr m p" by (simp add: iph_get_saddr_def v other)
    show "iph_get_daddr m3 p = iph_get_daddr m p" by (simp add: iph_get_daddr_def v other)
    show "iph_get_protocol_raw m3 p = iph_get_protocol_raw m p" by (simp add: iph_get_protocol_raw_def v other)
    show "iph_get_frag_id m3 p = iph_get_frag_id m p" by (simp add: iph_get_frag_id_def v other)
    show "take p m3 = take p m"
      using take_stn [OF m1(1), of p] take_stn [OF m2(1), of p] take_stn [OF m3(1), of p] by simp
    show "drop (p + 20) m3 = drop (p + 20) m"
      using drop_stn [OF m1(1), of "p + 20"] drop_stn [OF m2(1), of "p + 20"] drop_stn [OF m3(1), of "p + 20"] by simp
  qed
qed

section \<open>Properties\<close>

text \<open>the walk over the IPv6 extension headers returns (it stops at the last header, at a header of
  length 0, or at the end of the buffer) for every buffer of at most 65280 bytes, with or without the
  array of header types.\<close>

theorem get_ext_headers_terminates:
  assumes "length m \<le> 65280"
  shows "get_ext_headers m p mx types \<noteq> OutOfFuel"
  using get_ext_headers_loop_returns [OF assms, of "Suc (length m)" 0]
  by (auto simp: get_ext_headers_def ld8_def simp del: get_ext_headers_loop.simps)

theorem get_ext_headers_terminates_witness:
  "get_ext_headers (replicate 6 0 @ [60, 0] @ replicate 32 0 @ [17, 8] @ replicate 6 0) 0 10 (Some []) \<noteq> OutOfFuel"
  by (rule get_ext_headers_terminates) simp

text \<open>an IPv6 packet whose first extension header carries the length field 0 (a hop-by-hop, routing,
  destination or mobility header of the minimal size of 8 bytes, since the field counts 8-byte units
  behind the first 8 bytes) is taken for malformed: its header length is \<open>-1\<close>.\<close>

theorem ext_header_minimal_rejected:
  assumes "p + 42 \<le> length m" and "m ! (p + 41) = 0"
    and "m ! (p + 6) \<in> {IPPROTO_HOPOPTS, IPPROTO_ROUTING, IPPROTO_DSTOPTS, IPPROTO_MH}"
  shows "get_ext_headers_len m p = Ret (- 1, None)"
proof -
  have "is_ext_header (m ! (p + 6))" and "get_ext_header_size m (p + 40) (m ! (p + 6)) = Ret 0"
    using assms by (auto simp: is_ext_header_def get_ext_header_size_def ld8_def add.commute [of _ p])
  then show ?thesis
    using assms(1) by (simp add: get_ext_headers_len_def get_ext_headers_def ld8_def)
qed

theorem ext_header_minimal_rejected_witness:
  "get_ext_headers_len ([0x60, 0, 0, 0, 0, 8, 0, 64] @ replicate 32 0 @ [17, 0] @ replicate 6 0) 0 = Ret (- 1, None)"
  by (rule ext_header_minimal_rejected) (simp_all add: nth_append)

text \<open>setting the total length of an IPv4 header, clearing its checksum and its fragment field (the
  repair after reassembly) stays inside the header and changes nothing else: the new length is read
  back modulo 65536, checksum and fragment field are 0, addresses, protocol and identification are as
  before.\<close>

theorem iph_v4_repair:
  assumes "p + 20 \<le> length m" and "drop_bit 4 (m ! p) = 4"
  shows "\<exists>m1 m2 m3. iph_set_tot_len n m p = Ret m1 \<and> iph_set_check 0 m1 p = Ret m2 \<and>
     iph_clear_frag_data m2 p = Ret m3 \<and> length m3 = length m \<and>
     iph_get_tot_len m3 p = Ret (ucast (ucast n :: u16)) \<and> iph_get_check m3 p = Ret 0 \<and>
     iph_get_frag_data m3 p = Ret 0 \<and> iph_get_saddr m3 p = iph_get_saddr m p \<and>
     iph_get_daddr m3 p = iph_get_daddr m p \<and> iph_get_protocol_raw m3 p = iph_get_protocol_raw m p \<and>
     iph_get_frag_id m3 p = iph_get_frag_id m p \<and>
     take p m3 = take p m \<and> drop (p + 20) m3 = drop (p + 20) m"
  using assms by (rule iph_v4_repair_fields)

theorem iph_v4_repair_witness:
  "\<exists>m1 m2 m3. iph_set_tot_len 1500 (iph_create 4) 0 = Ret m1 \<and> iph_set_check 0 m1 0 = Ret m2 \<and>
     iph_clear_frag_data m2 0 = Ret m3 \<and> iph_get_tot_len m3 0 = Ret 1500"
proof -
  have "0 + 20 \<le> length (iph_create 4)" and "drop_bit 4 (iph_create 4 ! 0) = 4"
    by (simp_all add: iph_create_def)
  from iph_v4_repair [OF this, of 1500] show ?thesis by auto
qed

end
