(* ===== verification/VM_IpKeys.thy ===== *)
theory VM_IpKeys
  imports VM_Ip
begin

text \<open>
  Ports, endpoints, links and networks (\<open>vmPort\<close>, \<open>vmIPport\<close>, \<open>vmIPportLink\<close>, \<open>vmIPmask\<close>,
  \<open>vmIPmask_order2\<close>, \<open>vmIPmask_port\<close> of \<open>ip.h\<close>): their comparators, each shown to meet the key
  contract of \<open>std::map\<close>, and the enumeration of the addresses of a network.
\<close>

section \<open>vmPort\<close>

datatype vmPort = VmPort (port_val: u16)

definition vmPort_lt :: "vmPort \<Rightarrow> vmPort \<Rightarrow> bool" where
  "vmPort_lt a b = (port_val a < port_val b)"

instantiation vmPort :: linorder
begin

definition less_eq_vmPort :: "vmPort \<Rightarrow> vmPort \<Rightarrow> bool" where
  "less_eq_vmPort a b = (port_val a \<le> port_val b)"

definition less_vmPort :: "vmPort \<Rightarrow> vmPort \<Rightarrow> bool" where
  "less_vmPort a b = vmPort_lt a b"

instance
proof
  fix x y z :: vmPort
  show "(x < y) = (x \<le> y \<and> \<not> y \<le> x)"
    by (auto simp: less_eq_vmPort_def less_vmPort_def vmPort_lt_def)
  show "x \<le> x"
    by (simp add: less_eq_vmPort_def)
  show "x \<le> y \<Longrightarrow> y \<le> z \<Longrightarrow> x \<le> z"
    by (auto simp: less_eq_vmPort_def)
  show "x \<le> y \<Longrightarrow> y \<le> x \<Longrightarrow> x = y"
    by (auto simp: less_eq_vmPort_def vmPort.expand)
  show "x \<le> y \<or> y \<le> x"
    by (auto simp: less_eq_vmPort_def)
qed

end

definition vmPort_setPort :: "u16 \<Rightarrow> bool \<Rightarrow> vmPort" where
  "vmPort_setPort p ntoh = VmPort (if ntoh then ntohs p else p)"

definition vmPort_getPort :: "bool \<Rightarrow> vmPort \<Rightarrow> u16" where
  "vmPort_getPort hton p = (if hton then ntohs (port_val p) else port_val p)"

definition vmPort_setFromString :: "cstr \<Rightarrow> bool \<Rightarrow> vmPort" where
  "vmPort_setFromString s inverse_order =
     (let p = word_of_int (c_atoi s) in VmPort (if inverse_order then ntohs p else p))"

definition vmPort_getString :: "vmPort \<Rightarrow> string" where
  "vmPort_getString p = nat_dec (unat (port_val p))"

definition vmPort_isSet :: "vmPort \<Rightarrow> bool" where
  "vmPort_isSet p = (port_val p \<noteq> 0)"

definition vmPort_inc :: "int \<Rightarrow> vmPort \<Rightarrow> vmPort" where
  "vmPort_inc n p = VmPort (word_of_int (uint (port_val p) + n))"

definition vmPort_dec :: "int \<Rightarrow> vmPort \<Rightarrow> vmPort" where
  "vmPort_dec n p = VmPort (word_of_int (uint (port_val p) - n))"

section \<open>Endpoints and links\<close>

record vmIPport =
  ep_ip :: vmIP
  ep_port :: vmPort

definition vmIPport_eq :: "vmIPport \<Rightarrow> vmIPport \<Rightarrow> bool" where
  "vmIPport_eq a b = (ep_port a = ep_port b \<and> vmIP_eq (ep_ip a) (ep_ip b))"

definition vmIPport_lt :: "vmIPport \<Rightarrow> vmIPport \<Rightarrow> bool" where
  "vmIPport_lt a b = (vmIP_lt (ep_ip a) (ep_ip b) \<or>
                      (vmIP_eq (ep_ip a) (ep_ip b) \<and> ep_port a < ep_port b))"

definition vmIPport_gt :: "vmIPport \<Rightarrow> vmIPport \<Rightarrow> bool" where
  "vmIPport_gt a b = (vmIP_gt (ep_ip a) (ep_ip b) \<or>
                      (vmIP_eq (ep_ip a) (ep_ip b) \<and> ep_port a > ep_port b))"

record vmIPportLink =
  link_src :: vmIPport
  link_dst :: vmIPport

definition vmIPportLink_eq :: "vmIPportLink \<Rightarrow> vmIPportLink \<Rightarrow> bool" where
  "vmIPportLink_eq a b = (vmIPport_eq (link_src a) (link_src b) \<and> vmIPport_eq (link_dst a) (link_dst b))"

definition vmIPportLink_lt :: "vmIPportLink \<Rightarrow> vmIPportLink \<Rightarrow> bool" where
  "vmIPportLink_lt a b = (vmIPport_lt (link_src a) (link_src b) \<or>
                          (vmIPport_eq (link_src a) (link_src b) \<and> vmIPport_lt (link_dst a) (link_dst b)))"

section \<open>Networks\<close>

record vmIPmask =
  nm_ip :: vmIP
  nm_mask :: u16

definition vmIPmask_network :: "vmIPmask \<Rightarrow> vmIP option" where
  "vmIPmask_network m = vmIP_network (ucast (nm_mask m)) False (nm_ip m)"

definition vmIPmask_broadcast :: "vmIPmask \<Rightarrow> vmIP option" where
  "vmIPmask_broadcast m = vmIP_broadcast (ucast (nm_mask m)) False (nm_ip m)"

text \<open>\<open>pow(2, bits - mask)\<close> is converted to \<open>unsigned\<close>, which is undefined from \<open>2 ^ 32\<close> on.\<close>

definition vmIPmask_ip_list_size :: "vmIPmask \<Rightarrow> nat option" where
  "vmIPmask_ip_list_size m =
     (let bits = vmIP_bits (nm_ip m); mk = unat (nm_mask m) in
      if mk = bits then Some 1
      else if mk < bits then (if bits - mk < 32 then Some (2 ^ (bits - mk)) else None)
      else Some 0)"

fun ip_list_loop :: "nat \<Rightarrow> vmIP \<Rightarrow> vmIP \<Rightarrow> vmIP list" where
  "ip_list_loop 0 ip ip_to = []"
| "ip_list_loop (Suc n) ip ip_to =
     ip # (if vmIP_eq ip ip_to then [] else ip_list_loop n (vmIP_inc ip) ip_to)"

definition vmIPmask_ip_list :: "vmIPmask \<Rightarrow> vmIP list option" where
  "vmIPmask_ip_list m =
     (case (vmIPmask_network m, vmIPmask_broadcast m, vmIPmask_ip_list_size m) of
        (Some net, Some bc, Some n) \<Rightarrow> Some (ip_list_loop n net bc)
      | _ \<Rightarrow> None)"

definition vmIPmask_host_bits :: "vmIPmask \<Rightarrow> u8" where
  "vmIPmask_host_bits m =
     (if unat (nm_mask m) \<le> vmIP_bits (nm_ip m) then word_of_nat (vmIP_bits (nm_ip m) - unat (nm_mask m)) else 0)"

definition vmIPmask_lt :: "vmIPmask \<Rightarrow> vmIPmask \<Rightarrow> bool" where
  "vmIPmask_lt a b = (if \<not> vmIP_eq (nm_ip a) (nm_ip b) then vmIP_lt (nm_ip a) (nm_ip b) else nm_mask a < nm_mask b)"

definition vmIPmask_gt :: "vmIPmask \<Rightarrow> vmIPmask \<Rightarrow> bool" where
  "vmIPmask_gt a b = (if \<not> vmIP_eq (nm_ip a) (nm_ip b) then vmIP_gt (nm_ip a) (nm_ip b) else nm_mask a > nm_mask b)"

definition vmIPmask_eq :: "vmIPmask \<Rightarrow> vmIPmask \<Rightarrow> bool" where
  "vmIPmask_eq a b = (vmIP_eq (nm_ip a) (nm_ip b) \<and> nm_mask a = nm_mask b)"

text \<open>\<open>vmIPmask_order2\<close> has the members of \<open>vmIPmask\<close> (both derive from \<open>vmIPmask_\<close>), another \<open>operator <\<close> and no \<open>operator ==\<close> of its own; the
  order is compared with the one of \<open>vmIPmask\<close>.\<close>

definition vmIPmask_order2_lt :: "vmIPmask \<Rightarrow> vmIPmask \<Rightarrow> bool" where
  "vmIPmask_order2_lt a b = (if nm_mask a \<noteq> nm_mask b then nm_mask a < nm_mask b else vmIP_lt (nm_ip a) (nm_ip b))"

record vmIPmask_port =
  mp_ip_mask :: vmIPmask
  mp_port :: vmPort

definition vmIPmask_port_eq :: "vmIPmask_port \<Rightarrow> vmIPmask_port \<Rightarrow> bool" where
  "vmIPmask_port_eq a b = (mp_port a = mp_port b \<and> vmIPmask_eq (mp_ip_mask a) (mp_ip_mask b))"

definition vmIPmask_port_lt :: "vmIPmask_port \<Rightarrow> vmIPmask_port \<Rightarrow> bool" where
  "vmIPmask_port_lt a b = (vmIPmask_lt (mp_ip_mask a) (mp_ip_mask b) \<or>
     (vmIPmask_eq (mp_ip_mask a) (mp_ip_mask b) \<and> mp_port a < mp_port b))"

definition vmIPmask_port_gt :: "vmIPmask_port \<Rightarrow> vmIPmask_port \<Rightarrow> bool" where
  "vmIPmask_port_gt a b = (vmIPmask_gt (mp_ip_mask a) (mp_ip_mask b) \<or>
     (vmIPmask_eq (mp_ip_mask a) (mp_ip_mask b) \<and> mp_port a > mp_port b))"

section \<open>Every comparator meets the key contract\<close>

interpretation vmIPport_key: map_key_order vmIPport_lt vmIPport_eq
  by (rule map_key_order_lexI [OF map_key_order_vmIP map_key_order_linorder, where f = ep_ip and g = ep_port])
     (auto simp: vmIPport_lt_def vmIPport_eq_def)

interpretation vmIPportLink_key: map_key_order vmIPportLink_lt vmIPportLink_eq
  by (rule map_key_order_lexI [OF vmIPport_key.map_key_order_axioms vmIPport_key.map_key_order_axioms,
        where f = link_src and g = link_dst])
     (auto simp: vmIPportLink_lt_def vmIPportLink_eq_def)

interpretation vmIPmask_key: map_key_order vmIPmask_lt vmIPmask_eq
  by (rule map_key_order_lexI [OF map_key_order_vmIP map_key_order_linorder, where f = nm_ip and g = nm_mask])
     (auto simp: vmIPmask_lt_def vmIPmask_eq_def vmIP_key.eq_lt)

interpretation vmIPmask_order2_key: map_key_order vmIPmask_order2_lt vmIPmask_eq
  by (rule map_key_order_lexI [OF map_key_order_linorder map_key_order_vmIP, where f = nm_mask and g = nm_ip])
     (auto simp: vmIPmask_order2_lt_def vmIPmask_eq_def)

interpretation vmIPmask_port_key: map_key_order vmIPmask_port_lt vmIPmask_port_eq
  by (rule map_key_order_lexI [OF vmIPmask_key.map_key_order_axioms map_key_order_linorder,
        where f = mp_ip_mask and g = mp_port])
     (auto simp: vmIPmask_port_lt_def vmIPmask_port_eq_def)

lemma vmIP_gt_lt: "vmIP_gt a b = vmIP_lt b a"
  using vmIP_key.eq_iff_incomparable [of a b] vmIP_key.lt_asym [of b a]
  by (auto simp: vmIP_gt_def vmIP_le_def)

section \<open>The addresses of a network\<close>

lemma ip_list_loop_v4:
  assumes "v6 ip = 0" and "v6 bc = 0" and "unat (addr3 ip) + n = unat (addr3 bc)"
  shows "ip_list_loop (Suc n) ip bc = map (\<lambda>i. ip\<lparr>addr3 := addr3 ip + word_of_nat i\<rparr>) [0..<Suc n]"
  using assms
proof (induction n arbitrary: ip)
  case 0
  then show ?case by (simp add: vmIP_eq_def word_unat_eq_iff)
next
  case (Suc n)
  have lt: "unat (addr3 ip) + 1 < 2 ^ 32"
    using Suc.prems(3) unat_u32_less [of "addr3 bc"] by (simp del: unat_u32_less)
  have ne: "\<not> vmIP_eq ip bc"
    using Suc.prems by (auto simp: vmIP_eq_def)
  have inc: "vmIP_inc ip = ip\<lparr>addr3 := addr3 ip + 1\<rparr>"
    using Suc.prems(1) by (simp add: vmIP_inc_def)
  have u: "unat (addr3 ip + 1) = unat (addr3 ip) + 1"
    using lt by (simp add: unat_word_ariths)
  have "ip_list_loop (Suc n) (vmIP_inc ip) bc =
      map (\<lambda>i. ip\<lparr>addr3 := addr3 ip + 1 + word_of_nat i\<rparr>) [0..<Suc n]"
    using Suc.IH [of "vmIP_inc ip"] Suc.prems u by (simp add: inc del: ip_list_loop.simps)
  moreover have "map (\<lambda>i. ip\<lparr>addr3 := addr3 ip + word_of_nat i\<rparr>) [0..<Suc (Suc n)] =
      ip # map (\<lambda>i. ip\<lparr>addr3 := addr3 ip + 1 + word_of_nat i\<rparr>) [0..<Suc n]"
    by (simp only: upt_conv_Cons [OF zero_less_Suc] list.map map_Suc_upt [symmetric] map_map)
       (simp add: comp_def add.assoc)
  ultimately show ?case using ne by simp
qed


lemma ip_list_v4:
  assumes "v6 (nm_ip m) = 0" and "nm_mask m = word_of_nat k" and "1 \<le> k" and "k \<le> 32"
  shows "\<exists>net. vmIPmask_network m = Some net \<and> v6 net = 0 \<and>
           vmIPmask_ip_list m = Some (map (\<lambda>i. net\<lparr>addr3 := addr3 net + word_of_nat i\<rparr>) [0..<2 ^ (32 - k)])"
proof -
  let ?ip = "nm_ip m" and ?c = "2 ^ (32 - k) :: nat"
  have u: "unat (nm_mask m) = k" and c: "ucast (nm_mask m) = (word_of_nat k :: u32)"
    using assms by (simp_all add: unsigned_of_nat take_bit_nat_eq_self)
  let ?net = "?ip\<lparr>addr3 := push_bit (32 - k) (drop_bit (32 - k) (addr3 ?ip))\<rparr>"
  have net: "vmIPmask_network m = Some ?net"
    using assms(1,3,4) by (simp add: vmIPmask_network_def c network_v4)
  obtain bc where bc: "vmIPmask_broadcast m = Some bc" "v6 bc = 0"
      "unat (addr3 bc) = unat (addr3 ?net) + (?c - 1)"
    using assms(1,3,4) by (simp add: vmIPmask_broadcast_def c network_v4 unat_network_v4 unat_push_drop)
  have n: "vmIPmask_ip_list_size m = Some ?c"
    using assms(1,3,4) u by (auto simp: vmIPmask_ip_list_size_def vmIP_bits_def Let_def)
  obtain d where d: "?c = Suc d" by (metis Suc_diff_1 zero_less_numeral zero_less_power)
  have "ip_list_loop (Suc d) ?net bc = map (\<lambda>i. ?net\<lparr>addr3 := addr3 ?net + word_of_nat i\<rparr>) [0..<Suc d]"
    using bc d assms(1) by (intro ip_list_loop_v4) auto
  then have "vmIPmask_ip_list m = Some (map (\<lambda>i. ?net\<lparr>addr3 := addr3 ?net + word_of_nat i\<rparr>) [0..<?c])"
    by (simp only: vmIPmask_ip_list_def net bc n d prod.case option.case)
  with net assms(1) show ?thesis by auto
qed

section \<open>Properties\<close>

text \<open>C30: the comparators of endpoints, links and networks are strict weak orders whose equivalence
  is the type's \<open>operator ==\<close> (for \<open>vmIPmask_order2\<close> the one of \<open>vmIPmask\<close>), so all of them are valid keys of \<open>std::map\<close>.\<close>

theorem ip_keys_strict_weak_orders:
  "map_key_order vmIPport_lt vmIPport_eq \<and> map_key_order vmIPportLink_lt vmIPportLink_eq \<and>
   map_key_order vmIPmask_lt vmIPmask_eq \<and> map_key_order vmIPmask_order2_lt vmIPmask_eq \<and>
   map_key_order vmIPmask_port_lt vmIPmask_port_eq \<and>
   (\<forall>a b. vmIPport_gt a b = vmIPport_lt b a) \<and> (\<forall>a b. vmIPmask_gt a b = vmIPmask_lt b a)"
  using vmIPport_key.map_key_order_axioms vmIPportLink_key.map_key_order_axioms
    vmIPmask_key.map_key_order_axioms vmIPmask_order2_key.map_key_order_axioms
    vmIPmask_port_key.map_key_order_axioms
  by (auto simp: vmIPport_gt_def vmIPport_lt_def vmIPmask_gt_def vmIPmask_lt_def vmIP_gt_lt
      dest: vmIP_key.eq_sym)

text \<open>C29: \<open>ip_list\<close> of an IPv4 network of 1 to 32 prefix bits is the list of all its addresses in
  increasing order, from the network address, without repetition.\<close>

theorem vmIPmask_ip_list_complete:
  assumes "v6 (nm_ip m) = 0" and "nm_mask m = word_of_nat k" and "1 \<le> k" and "k \<le> 32"
    and "vmIPmask_ip_list m = Some ips"
  shows "\<exists>net. vmIPmask_network m = Some net \<and> length ips = 2 ^ (32 - k) \<and>
           (\<forall>i < 2 ^ (32 - k). v6 (ips ! i) = 0 \<and> unat (addr3 (ips ! i)) = unat (addr3 net) + i)"
proof -
  from ip_list_v4 [OF assms(1-4)] assms(5) obtain net where net: "vmIPmask_network m = Some net" "v6 net = 0"
    and ips: "ips = map (\<lambda>i. net\<lparr>addr3 := addr3 net + word_of_nat i\<rparr>) [0..<2 ^ (32 - k)]"
    by auto
  have c: "ucast (nm_mask m) = (word_of_nat k :: u32)"
    using assms by (simp add: unsigned_of_nat take_bit_nat_eq_self)
  have a: "addr3 net = push_bit (32 - k) (drop_bit (32 - k) (addr3 (nm_ip m)))"
    using assms(1,3,4) net by (auto simp: vmIPmask_network_def c network_v4)
  have "unat (addr3 net + mask (32 - k)) = unat (addr3 net) + (2 ^ (32 - k) - 1)"
    using assms(3,4) by (simp add: a unat_network_v4 unat_push_drop)
  then have top: "unat (addr3 net) + (2 ^ (32 - k) - 1) < 4294967296"
    by (metis unat_u32_less)
  have "unat (addr3 net + word_of_nat i) = unat (addr3 net) + i" if "i < 2 ^ (32 - k)" for i
    using that top by (simp add: unat_word_ariths unat_of_nat)
  with net ips show ?thesis by simp
qed

theorem vmIPmask_ip_list_complete_witness:
  "\<exists>net ips. vmIPmask_ip_list \<lparr>nm_ip = vmIP_v4 0x0A000001, nm_mask = 30\<rparr> = Some ips \<and>
     vmIPmask_network \<lparr>nm_ip = vmIP_v4 0x0A000001, nm_mask = 30\<rparr> = Some net \<and> length ips = 4"
proof -
  let ?m = "\<lparr>nm_ip = vmIP_v4 0x0A000001, nm_mask = 30\<rparr>"
  have h: "v6 (nm_ip ?m) = 0" "nm_mask ?m = word_of_nat 30" by (simp_all add: vmIP_v4_def)
  obtain ips where ips: "vmIPmask_ip_list ?m = Some ips" using ip_list_v4 [OF h] by auto
  from vmIPmask_ip_list_complete [OF h _ _ ips] ips show ?thesis by auto
qed

text \<open>a port printed by \<open>getString\<close> is read back by \<open>setFromString\<close>.\<close>

theorem vmPort_string_roundtrip: "vmPort_setFromString (vmPort_getString p) False = p"
proof -
  have "unat (port_val p) < 2 ^ 31" using unat_u16_less [of "port_val p"] by (simp del: unat_u16_less)
  then show ?thesis
    by (cases p) (simp add: vmPort_setFromString_def vmPort_getString_def c_atoi_nat_dec)
qed

end
