(* ===== verification/VM_IpFrag.thy ===== *)
theory VM_IpFrag
  imports VM_IpHeader VM_IpKeys "HOL-Library.Multiset"
begin

text \<open>
  Reassembly of fragmented IP packets (\<open>cIpFrag\<close> of \<open>ip_frag.h\<close> and \<open>ip_frag.cpp\<close>). A captured packet
  is its capture header and its bytes; a fragment queue (\<open>sFrags\<close>) is the \<open>std::map\<close> from fragment
  offset to fragment, ordered by offset, and the flag that the last fragment was seen; the queues are
  kept per source address and identification (\<open>sDefrag\<close>), split over threads. The code has two
  flavours of every packet, \<open>sHeaderPacket\<close> and \<open>sHeaderPacketPQout\<close>, chosen by the caller for a whole
  instance: the flag \<open>pq\<close> selects the second. The bytes of a fresh buffer are whatever the allocator
  returns: \<open>junk i\<close> at index \<open>i\<close>. \<open>memcpy\<close> outside source or destination is \<open>OutOfBounds\<close>.
\<close>

section \<open>Data\<close>

record hpacket =
  hp_sec :: int
  hp_usec :: int
  hp_caplen :: u32
  hp_len :: u32
  hp_pid :: nat
  hp_data :: mem

record sFrag =
  fr_packet :: hpacket
  fr_header_ip_offset :: u32
  fr_ts :: int
  fr_offset :: u32
  fr_len :: u32
  fr_iphdr_len :: u16

record sFrags =
  fq_map :: "(u16, sFrag) std_map"
  has_last :: bool

type_synonym frag_key = "vmIP \<times> u32"
type_synonym sDefrag = "(frag_key, sFrags) std_map"

definition empty_sFrags :: sFrags where
  "empty_sFrags = \<lparr>fq_map = [], has_last = False\<rparr>"

definition frag_key_lt :: "frag_key \<Rightarrow> frag_key \<Rightarrow> bool" where
  "frag_key_lt a b = lex_lt vmIP_lt vmIP_eq (<) a b"

definition frag_key_eq :: "frag_key \<Rightarrow> frag_key \<Rightarrow> bool" where
  "frag_key_eq a b = lex_eq vmIP_eq (=) a b"

record cIpFrag =
  fdata :: "sDefrag list"
  fdata_threads_split :: nat

definition cIpFrag_create :: "nat \<Rightarrow> cIpFrag" where
  "cIpFrag_create split =
     (let n = (if split > 1 then split else 1) in \<lparr>fdata = replicate n [], fdata_threads_split = n\<rparr>)"

section \<open>dequeue\<close>

fun total_len_rest :: "u32 \<Rightarrow> (u16, sFrag) std_map \<Rightarrow> u32" where
  "total_len_rest t [] = t"
| "total_len_rest t ((k, f) # m) = total_len_rest (t + fr_len f - ucast (fr_iphdr_len f)) m"

definition total_len :: "(u16 \<times> sFrag) \<Rightarrow> (u16, sFrag) std_map \<Rightarrow> u32" where
  "total_len kf m =
     (let hio = fr_header_ip_offset (snd kf);
          t = total_len_rest (hio + fr_len (snd kf)) m
      in if t > 0xFFFF + hio then 0xFFFF + hio else t)"

definition alloc_packet :: "(nat \<Rightarrow> u8) \<Rightarrow> nat \<Rightarrow> mem" where
  "alloc_packet junk n = map junk [0..<n]"

definition cap_avail :: "sFrag \<Rightarrow> u32 \<Rightarrow> u32" where
  "cap_avail f skip = (if hp_caplen (fr_packet f) > skip then hp_caplen (fr_packet f) - skip else 0)"

text \<open>The first fragment is copied with its link and IP header, the others contribute their payload.
  In the \<open>pq\<close> flavour the copies are limited to the captured bytes.\<close>

definition dequeue_first :: "bool \<Rightarrow> sFrag \<Rightarrow> mem \<Rightarrow> mem outcome" where
  "dequeue_first pq f dst =
     (let src = hp_data (fr_packet f); hio = fr_header_ip_offset f;
          n = (if pq then min (fr_len f) (cap_avail f hio) else fr_len f) in
      obind (if hio \<noteq> 0 then obind (ldn (unat hio) src 0) (\<lambda>bs. stn dst 0 bs) else Ret dst) (\<lambda>dst.
        obind (ldn (unat n) src (unat hio)) (\<lambda>bs. stn dst (unat hio) bs)))"

fun dequeue_rest :: "bool \<Rightarrow> u32 \<Rightarrow> (u16, sFrag) std_map \<Rightarrow> mem \<times> u32 \<times> u32 \<Rightarrow> (mem \<times> u32 \<times> u32) outcome" where
  "dequeue_rest pq totallen [] st = Ret st"
| "dequeue_rest pq totallen ((k, f) # m) (dst, len, additionallen) =
     (if len < totallen then
        (let skip = fr_header_ip_offset f + ucast (fr_iphdr_len f);
             frag_len = min (fr_len f - ucast (fr_iphdr_len f)) (totallen - len);
             n = (if pq then min frag_len (cap_avail f skip) else frag_len) in
         obind (ldn (unat n) (hp_data (fr_packet f)) (unat (fr_header_ip_offset f) + unat (fr_iphdr_len f))) (\<lambda>bs.
           obind (stn dst (unat len) bs) (\<lambda>dst.
             dequeue_rest pq totallen m (dst, len + frag_len, additionallen + frag_len))))
      else dequeue_rest pq totallen m (dst, len, additionallen))"

definition repair_header :: "u32 \<Rightarrow> u32 \<Rightarrow> mem \<Rightarrow> mem outcome" where
  "repair_header hio additionallen dst =
     (if hio \<noteq> 0 then
        obind (iph_get_tot_len dst (unat hio)) (\<lambda>n.
          obind (iph_set_tot_len (n + additionallen) dst (unat hio)) (\<lambda>dst.
            obind (iph_set_check 0 dst (unat hio)) (\<lambda>dst.
              iph_clear_frag_data dst (unat hio))))
      else Ret dst)"

fun dequeue :: "bool \<Rightarrow> (nat \<Rightarrow> u8) \<Rightarrow> (u16, sFrag) std_map \<Rightarrow> hpacket option outcome" where
  "dequeue pq junk [] = Ret None"
| "dequeue pq junk ((k, f) # m) =
     (let totallen = total_len (k, f) m;
          dst = alloc_packet junk (unat totallen);
          lastp = fr_packet (snd (last ((k, f) # m))) in
      obind (dequeue_first pq f dst) (\<lambda>dst.
        obind (dequeue_rest pq totallen m (dst, fr_header_ip_offset f + fr_len f, 0)) (\<lambda>(dst, len, additionallen).
          omap (\<lambda>dst. Some (lastp\<lparr>hp_len := totallen, hp_caplen := totallen,
                                 hp_pid := hp_pid (fr_packet f), hp_data := dst\<rparr>))
               (repair_header (fr_header_ip_offset f) additionallen dst))))"

section \<open>add\<close>

fun contiguous :: "u32 \<Rightarrow> (u16, sFrag) std_map \<Rightarrow> bool" where
  "contiguous lastoffset [] = True"
| "contiguous lastoffset ((k, f) # m) =
     (if fr_offset f \<noteq> lastoffset then False
      else contiguous (lastoffset + (fr_len f - ucast (fr_iphdr_len f))) m)"

definition frags_complete :: "sFrags \<Rightarrow> bool" where
  "frags_complete q =
     (has_last q \<and> (case fq_map q of [] \<Rightarrow> False | (k, f) # _ \<Rightarrow> fr_offset f = 0) \<and> contiguous 0 (fq_map q))"

definition make_frag :: "hpacket \<Rightarrow> u32 \<Rightarrow> u32 \<Rightarrow> u16 \<Rightarrow> u16 \<Rightarrow> u8 \<Rightarrow> sFrag" where
  "make_frag pkt hio len offset_d hdr_size proto =
     \<lparr>fr_packet = pkt, fr_header_ip_offset = hio, fr_ts = hp_sec pkt, fr_offset = ucast offset_d, fr_len = len,
      fr_iphdr_len = hdr_size - (if proto = IPPROTO_ESP then 8 else 0)\<rparr>"

text \<open>The result is the return code (-1 for a duplicate offset, 0 for an incomplete queue, 1 when the
  packet is complete), the queue and, when complete, the reassembled packet.\<close>

definition frag_add :: "bool \<Rightarrow> (nat \<Rightarrow> u8) \<Rightarrow> sFrags \<Rightarrow> hpacket \<Rightarrow> u32 \<Rightarrow> u32 \<Rightarrow> (int \<times> sFrags \<times> hpacket option) outcome" where
  "frag_add pq junk q pkt hio len =
     (let m = hp_data pkt; p = unat hio in
      obind (iph_get_frag_data m p) (\<lambda>frag_data.
      obind (iph_get_frag_offset frag_data m p) (\<lambda>offset_d.
      obind (iph_is_more_frag frag_data m p) (\<lambda>mf.
        let q = (if \<not> mf \<and> offset_d \<noteq> 0 then q\<lparr>has_last := True\<rparr> else q) in
        if map_find (<) offset_d (fq_map q) = None then
          obind (iph_get_hdr_size m p) (\<lambda>(hdr_size, _).
          obind (iph_get_protocol_raw m p) (\<lambda>proto.
            let q = q\<lparr>fq_map := map_put (<) offset_d (make_frag pkt hio len offset_d hdr_size proto) (fq_map q)\<rparr> in
            if frags_complete q then omap (\<lambda>out. (1, q, out)) (dequeue pq junk (fq_map q))
            else Ret (0, q, None)))
        else Ret (- 1, q, None)))))"

section \<open>defrag and cleanup\<close>

definition defrag_thread :: "cIpFrag \<Rightarrow> int \<Rightarrow> vmIP \<Rightarrow> nat" where
  "defrag_thread c idx saddr =
     (if idx < 0 then
        (if fdata_threads_split c > 1 then unat (vmIP_getHashNumber saddr) mod fdata_threads_split c else 0)
      else nat idx)"

definition defrag :: "bool \<Rightarrow> (nat \<Rightarrow> u8) \<Rightarrow> cIpFrag \<Rightarrow> hpacket \<Rightarrow> u32 \<Rightarrow> int \<Rightarrow> (int \<times> cIpFrag \<times> hpacket option) outcome" where
  "defrag pq junk c pkt hio idx =
     (let m = hp_data pkt; p = unat hio in
      obind (iph_get_saddr m p) (\<lambda>saddr.
      obind (iph_get_frag_id m p) (\<lambda>frag_id.
      obind (iph_get_tot_len m p) (\<lambda>tot_len.
        let t = defrag_thread c idx saddr in
        if t < length (fdata c) then
          (let key = (saddr, frag_id);
               d = fdata c ! t;
               q = (case map_find frag_key_lt key d of Some q \<Rightarrow> q | None \<Rightarrow> empty_sFrags) in
           omap (\<lambda>(res, q, out).
               (res,
                c\<lparr>fdata := (fdata c)[t := (if res > 0 then map_erase frag_key_lt key d
                                          else map_put frag_key_lt key q d)]\<rparr>,
                out))
             (frag_add pq junk q pkt hio tot_len))
        else OutOfBounds))))"

definition queue_expired :: "u32 \<Rightarrow> bool \<Rightarrow> int \<Rightarrow> sFrags \<Rightarrow> bool" where
  "queue_expired tv_sec all_q limit q =
     (case fq_map q of [] \<Rightarrow> False | (k, f) # _ \<Rightarrow> all_q \<or> uint tv_sec - fr_ts f > limit)"

text \<open>The loop over the queues of one thread: \<open>kept\<close> is the part of the map before the iterator, \<open>freed\<close> lists the destroyed fragments.
  An expired queue is emptied, an empty queue is erased from the map.\<close>

fun cleanup_queues :: "u32 \<Rightarrow> bool \<Rightarrow> int \<Rightarrow> sFrag list \<Rightarrow> sDefrag \<Rightarrow> sDefrag \<Rightarrow> sFrag list \<times> sDefrag" where
  "cleanup_queues tv_sec all_q limit freed kept [] = (freed, kept)"
| "cleanup_queues tv_sec all_q limit freed kept ((k, q) # rest) =
     (let (freed, q) = (if queue_expired tv_sec all_q limit q then (freed @ map snd (fq_map q), q\<lparr>fq_map := []\<rparr>) else (freed, q)) in
      if fq_map q = [] then cleanup_queues tv_sec all_q limit freed kept rest
      else cleanup_queues tv_sec all_q limit freed (kept @ [(k, q)]) rest)"

fun cleanup_threads :: "u32 \<Rightarrow> bool \<Rightarrow> int \<Rightarrow> sFrag list \<Rightarrow> sDefrag list \<Rightarrow> sFrag list \<times> sDefrag list" where
  "cleanup_threads tv_sec all_q limit freed [] = (freed, [])"
| "cleanup_threads tv_sec all_q limit freed (d # ds) =
     (let (freed, d) = cleanup_queues tv_sec all_q limit freed [] d;
          (freed, ds) = cleanup_threads tv_sec all_q limit freed ds in (freed, d # ds))"

definition ipfrag_cleanup :: "u32 \<Rightarrow> bool \<Rightarrow> int \<Rightarrow> cIpFrag \<Rightarrow> sFrag list \<times> cIpFrag" where
  "ipfrag_cleanup tv_sec all_q cleanup_limit c =
     (let limit = (if cleanup_limit < 0 then 30 else cleanup_limit);
          (freed, ds) = cleanup_threads tv_sec all_q limit [] (fdata c) in (freed, c\<lparr>fdata := ds\<rparr>))"

section \<open>Specification of a fragmented datagram\<close>

definition frag_of :: "u32 \<Rightarrow> bool \<Rightarrow> nat \<Rightarrow> u8 list \<Rightarrow> hpacket \<Rightarrow> bool" where
  "frag_of hio mf off chunk pkt =
     (let m = hp_data pkt; p = unat hio in
      p + 20 + length chunk \<le> length m \<and> p + 20 + length chunk \<le> unat (hp_caplen pkt) \<and> drop_bit 4 (m ! p) = 4 \<and> m ! (p + 9) \<noteq> IPPROTO_ESP \<and>
      iph_get_tot_len m p = Ret (word_of_nat (20 + length chunk)) \<and>
      (case iph_get_frag_data m p of
         Ret d \<Rightarrow> ip4_is_more_frag d = mf \<and> ip4_get_frag_offset d = word_of_nat off
       | _ \<Rightarrow> False) \<and>
      take (length chunk) (drop (p + 20) m) = chunk)"

definition chunk_off :: "u8 list list \<Rightarrow> nat \<Rightarrow> nat" where
  "chunk_off cs i = length (concat (take i cs))"

definition datagram_frags :: "u32 \<Rightarrow> u8 list list \<Rightarrow> hpacket list \<Rightarrow> bool" where
  "datagram_frags hio cs pkts =
     (length pkts = length cs \<and> 2 \<le> length cs \<and> (\<forall>c \<in> set cs. c \<noteq> []) \<and>
      20 + length (concat cs) \<le> 65535 \<and> 0 < unat hio \<and> unat hio < 65536 \<and>
      (\<forall>i < length cs. frag_of hio (i + 1 < length cs) (chunk_off cs i) (cs ! i) (pkts ! i)))"

fun frag_add_all :: "bool \<Rightarrow> (nat \<Rightarrow> u8) \<Rightarrow> u32 \<Rightarrow> sFrags \<Rightarrow> hpacket list \<Rightarrow> (int list \<times> sFrags \<times> hpacket option) outcome" where
  "frag_add_all pq junk hio q [] = Ret ([], q, None)"
| "frag_add_all pq junk hio q (pkt # pkts) =
     obind (iph_get_tot_len (hp_data pkt) (unat hio)) (\<lambda>len.
       obind (frag_add pq junk q pkt hio len) (\<lambda>(res, q, out).
         if pkts = [] then Ret ([res], q, out)
         else omap (\<lambda>(rs, q, out). (res # rs, q, out)) (frag_add_all pq junk hio q pkts)))"

definition frag_entry :: "u32 \<Rightarrow> u8 list list \<Rightarrow> hpacket list \<Rightarrow> nat \<Rightarrow> u16 \<times> sFrag" where
  "frag_entry hio cs pkts i =
     (word_of_nat (chunk_off cs i),
      \<lparr>fr_packet = pkts ! i, fr_header_ip_offset = hio, fr_ts = hp_sec (pkts ! i),
       fr_offset = word_of_nat (chunk_off cs i), fr_len = word_of_nat (20 + length (cs ! i)), fr_iphdr_len = 20\<rparr>)"

section \<open>Offsets\<close>

lemma chunk_off_0 [simp]: "chunk_off cs 0 = 0"
  by (simp add: chunk_off_def)

lemma chunk_off_Suc: "i < length cs \<Longrightarrow> chunk_off cs (Suc i) = chunk_off cs i + length (cs ! i)"
  by (simp add: chunk_off_def take_Suc_conv_app_nth)

lemma chunk_off_le: "chunk_off cs i \<le> length (concat cs)"
proof -
  have "concat cs = concat (take i cs) @ concat (drop i cs)"
    by (metis append_take_drop_id concat_append)
  then show ?thesis by (simp add: chunk_off_def)
qed

lemma chunk_off_length: "chunk_off cs (length cs) = length (concat cs)"
  by (simp add: chunk_off_def)

lemma chunk_off_strict:
  assumes "\<forall>c \<in> set cs. c \<noteq> []" and "i < j" and "j \<le> length cs"
  shows "chunk_off cs i < chunk_off cs j"
  using assms(2,3)
proof (induction j)
  case (Suc j)
  then have "j < length cs" by simp
  then have "cs ! j \<in> set cs" by (rule nth_mem)
  then have "0 < length (cs ! j)" using assms(1) by auto
  moreover have "chunk_off cs i \<le> chunk_off cs j" using Suc by (cases "i = j") auto
  ultimately have "chunk_off cs i < chunk_off cs j + length (cs ! j)" by linarith
  then show ?case using \<open>j < length cs\<close> by (simp add: chunk_off_Suc)
qed simp

lemma chunk_off_eq_iff:
  assumes "\<forall>c \<in> set cs. c \<noteq> []" and "i \<le> length cs" and "j \<le> length cs"
  shows "chunk_off cs i = chunk_off cs j \<longleftrightarrow> i = j"
  using chunk_off_strict [OF assms(1), of i j] chunk_off_strict [OF assms(1), of j i] assms(2,3)
  by (cases i j rule: linorder_cases) auto

lemma chunk_off_less_iff:
  assumes "\<forall>c \<in> set cs. c \<noteq> []" and "i \<le> length cs" and "j \<le> length cs"
  shows "chunk_off cs i < chunk_off cs j \<longleftrightarrow> i < j"
  using chunk_off_strict [OF assms(1), of i j] chunk_off_strict [OF assms(1), of j i] assms(2,3)
  by (cases i j rule: linorder_cases) auto

section \<open>The queue of a set of fragments\<close>

lemma word16_of_off:
  assumes "datagram_frags hio cs pkts"
  shows "unat (word_of_nat (chunk_off cs i) :: u16) = chunk_off cs i"
    and "unat (word_of_nat (chunk_off cs i) :: u32) = chunk_off cs i"
  using assms chunk_off_le [of cs i]
  by (auto simp: datagram_frags_def unsigned_of_nat take_bit_nat_eq_self)

lemma entry_less_iff:
  assumes "datagram_frags hio cs pkts" and "i \<le> length cs" and "j \<le> length cs"
  shows "fst (frag_entry hio cs pkts i) < fst (frag_entry hio cs pkts j) \<longleftrightarrow> i < j"
  using assms chunk_off_less_iff [of cs i j] word16_of_off [OF assms(1)]
  by (auto simp: frag_entry_def word_less_nat_alt datagram_frags_def)

lemma map_put_insort:
  assumes "datagram_frags hio cs pkts" and "i < length cs" and "set xs \<subseteq> {..<length cs}" and "i \<notin> set xs"
  shows "map_put (<) (fst (frag_entry hio cs pkts i)) (snd (frag_entry hio cs pkts i)) (map (frag_entry hio cs pkts) xs) =
         map (frag_entry hio cs pkts) (insort i xs)"
  using assms(3,4)
proof (induction xs)
  case (Cons x xs)
  have lt: "fst (frag_entry hio cs pkts x) < fst (frag_entry hio cs pkts i) \<longleftrightarrow> x < i"
    "fst (frag_entry hio cs pkts i) < fst (frag_entry hio cs pkts x) \<longleftrightarrow> i < x"
    using Cons.prems assms(2) by (auto intro!: entry_less_iff [OF assms(1)])
  obtain k f where e: "frag_entry hio cs pkts x = (k, f)" by (cases "frag_entry hio cs pkts x")
  with Cons lt show ?case by (cases "x < i") auto
qed simp

lemma map_find_absent:
  assumes "datagram_frags hio cs pkts" and "i < length cs" and "set xs \<subseteq> {..<length cs}" and "i \<notin> set xs"
  shows "map_find (<) (fst (frag_entry hio cs pkts i)) (map (frag_entry hio cs pkts) xs) = None"
  using assms(3,4)
proof (induction xs)
  case (Cons x xs)
  have lt: "fst (frag_entry hio cs pkts x) < fst (frag_entry hio cs pkts i) \<longleftrightarrow> x < i"
    "fst (frag_entry hio cs pkts i) < fst (frag_entry hio cs pkts x) \<longleftrightarrow> i < x"
    using Cons.prems assms(2) by (auto intro!: entry_less_iff [OF assms(1)])
  obtain k f where e: "frag_entry hio cs pkts x = (k, f)" by (cases "frag_entry hio cs pkts x")
  with Cons lt show ?case by (cases "x < i") auto
qed simp

lemma contiguous_entry:
  "contiguous l (frag_entry hio cs pkts x # m) =
     (word_of_nat (chunk_off cs x) = l \<and> contiguous (l + (word_of_nat (20 + length (cs ! x)) - 20)) m)"
  by (simp add: frag_entry_def)

lemma contiguous_iff:
  assumes "datagram_frags hio cs pkts" and "set xs \<subseteq> {..<length cs}" and "a \<le> length cs"
  shows "contiguous (word_of_nat (chunk_off cs a)) (map (frag_entry hio cs pkts) xs) \<longleftrightarrow> xs = [a..<a + length xs]"
  using assms(2,3)
proof (induction xs arbitrary: a)
  case (Cons x xs)
  have x: "x < length cs" using Cons.prems by simp
  have "(word_of_nat (chunk_off cs x) :: u32) = word_of_nat (chunk_off cs a) \<longleftrightarrow> x = a"
    using word16_of_off(2) [OF assms(1)] chunk_off_eq_iff [of cs x a] x Cons.prems(2) assms(1)
    by (metis datagram_frags_def less_imp_le_nat)
  moreover have "(word_of_nat (chunk_off cs x) :: u32) + (word_of_nat (20 + length (cs ! x)) - 20) =
      word_of_nat (chunk_off cs (Suc x))"
    using x by (simp add: chunk_off_Suc)
  moreover have "[a..<a + length (x # xs)] = a # [Suc a..<Suc a + length xs]"
    by (simp add: upt_conv_Cons del: upt_Suc)
  moreover have "x = a \<Longrightarrow> contiguous (word_of_nat (chunk_off cs (Suc x))) (map (frag_entry hio cs pkts) xs) \<longleftrightarrow>
      xs = [Suc a..<Suc a + length xs]"
    using Cons.IH [of "Suc x"] Cons.prems x by simp
  ultimately show ?case
    by (auto simp only: list.map contiguous_entry list.inject)
qed simp


lemma frags_complete_iff:
  assumes "datagram_frags hio cs pkts" and "set xs \<subseteq> {..<length cs}" and "sorted xs" and "distinct xs"
  shows "frags_complete \<lparr>fq_map = map (frag_entry hio cs pkts) xs, has_last = (length cs - 1 \<in> set xs)\<rparr> \<longleftrightarrow>
         xs = [0..<length cs]"
proof -
  have n: "2 \<le> length cs" using assms(1) by (simp add: datagram_frags_def)
  have c: "contiguous 0 (map (frag_entry hio cs pkts) xs) \<longleftrightarrow> xs = [0..<length xs]"
    using contiguous_iff [OF assms(1,2), of 0] by simp
  show ?thesis
  proof
    assume h: "frags_complete \<lparr>fq_map = map (frag_entry hio cs pkts) xs, has_last = (length cs - 1 \<in> set xs)\<rparr>"
    then have xs: "xs = [0..<length xs]" and l: "length cs - 1 \<in> set xs"
      using c by (simp_all add: frags_complete_def)
    have "length cs - 1 < length xs" using l by (subst (asm) xs) simp
    moreover have "length xs \<le> length cs"
      using assms(2,4) by (metis card_lessThan card_mono distinct_card finite_lessThan)
    ultimately have "length xs = length cs" using n by linarith
    with xs show "xs = [0..<length cs]" by simp
  next
    assume xs: "xs = [0..<length cs]"
    obtain m where m: "length cs = Suc m" using n by (cases "length cs") auto
    have "xs = 0 # [1..<length cs]" using xs m by (simp add: upt_conv_Cons del: upt_Suc)
    then have hd: "map (frag_entry hio cs pkts) xs = frag_entry hio cs pkts 0 # map (frag_entry hio cs pkts) [1..<length cs]"
      by simp
    have "contiguous 0 (map (frag_entry hio cs pkts) xs)" using c xs by simp
    moreover have "length cs - 1 \<in> set xs" using xs n by simp
    ultimately show "frags_complete \<lparr>fq_map = map (frag_entry hio cs pkts) xs, has_last = (length cs - 1 \<in> set xs)\<rparr>"
      by (simp add: frags_complete_def hd) (simp add: frag_entry_def)
  qed
qed

section \<open>One fragment\<close>

lemma iph_v4_fields:
  assumes "p + 20 \<le> length m" and "drop_bit 4 (m ! p) = 4" and "m ! (p + 9) \<noteq> IPPROTO_ESP"
  shows "iph_get_hdr_size m p = Ret (20, Some (m ! (p + 9)))" and "iph_get_protocol_raw m p = Ret (m ! (p + 9))"
    and "iph_is_more_frag d m p = Ret (ip4_is_more_frag d)" and "iph_get_frag_offset d m p = Ret (ip4_get_frag_offset d)"
  using assms
  by (simp_all add: iph_get_hdr_size_def iph_get_protocol_raw_def iph_is_more_frag_def iph_get_frag_offset_def
      iph_if_v4_4 ld8_def)

lemma frag_add_entry:
  assumes d: "datagram_frags hio cs pkts" and i: "i < length cs" and xs: "set xs \<subseteq> {..<length cs}" "i \<notin> set xs"
  shows "frag_add pq junk \<lparr>fq_map = map (frag_entry hio cs pkts) xs, has_last = (length cs - 1 \<in> set xs)\<rparr>
           (pkts ! i) hio (word_of_nat (20 + length (cs ! i))) =
         (let q = \<lparr>fq_map = map (frag_entry hio cs pkts) (insort i xs), has_last = (length cs - 1 \<in> set (insort i xs))\<rparr> in
          if frags_complete q then omap (\<lambda>out. (1, q, out)) (dequeue pq junk (fq_map q)) else Ret (0, q, None))"
proof -
  let ?m = "hp_data (pkts ! i)" and ?p = "unat hio"
  from d i have f: "frag_of hio (i + 1 < length cs) (chunk_off cs i) (cs ! i) (pkts ! i)"
    and ne: "\<forall>c \<in> set cs. c \<noteq> []" and n: "2 \<le> length cs"
    by (simp_all add: datagram_frags_def)
  then obtain fd where fd: "iph_get_frag_data ?m ?p = Ret fd" "ip4_is_more_frag fd = (i + 1 < length cs)"
      "ip4_get_frag_offset fd = word_of_nat (chunk_off cs i)"
    and b: "?p + 20 \<le> length ?m" "drop_bit 4 (?m ! ?p) = 4" "?m ! (?p + 9) \<noteq> IPPROTO_ESP"
    by (auto simp: frag_of_def Let_def split: outcome.splits)
  have off0: "(word_of_nat (chunk_off cs i) :: u16) = 0 \<longleftrightarrow> i = 0"
    using word16_of_off(1) [OF d, of i] chunk_off_eq_iff [OF ne, of i 0] i
    by (metis chunk_off_0 le0 less_imp_le_nat unat_0 unat_eq_zero)
  define K :: u16 where "K = word_of_nat (chunk_off cs i)"
  define F where "F = make_frag (pkts ! i) hio (word_of_nat (20 + length (cs ! i))) K 20 (?m ! (?p + 9))"
  define L where "L \<longleftrightarrow> i = length cs - 1"
  have lst: "(\<not> i + 1 < length cs \<and> K \<noteq> 0) = L"
    using off0 i n by (auto simp: K_def L_def)
  have e: "frag_entry hio cs pkts i = (K, F)"
    using b(3) word16_of_off [OF d, of i]
    by (simp add: frag_entry_def make_frag_def word_unat_eq_iff K_def F_def)
  have find: "map_find (<) K (map (frag_entry hio cs pkts) xs) = None"
    using map_find_absent [OF d i xs] by (simp only: e fst_conv)
  have put: "map_put (<) K F (map (frag_entry hio cs pkts) xs) = map (frag_entry hio cs pkts) (insort i xs)"
    using map_put_insort [OF d i xs] by (simp only: e fst_conv snd_conv)
  have set: "(length cs - 1 \<in> set (insort i xs)) = (L \<or> length cs - 1 \<in> set xs)"
    by (auto simp add: set_insort_key L_def)
  have fd3: "ip4_get_frag_offset fd = K" using fd(3) by (simp only: K_def)
  show ?thesis
    unfolding frag_add_def
    by (simp only: Let_def fd(1,2) fd3 iph_v4_fields [OF b] obind.simps prod.case F_def [symmetric] set lst)
       (cases L; simp add: find put)
qed


definition datagram_size :: "u32 \<Rightarrow> u8 list list \<Rightarrow> nat" where
  "datagram_size hio cs = unat hio + 20 + length (concat cs)"

lemma datagram_size_less: "datagram_frags hio cs pkts \<Longrightarrow> datagram_size hio cs < 131071"
  by (simp add: datagram_frags_def datagram_size_def)

lemma chunk_end_le: "i < length cs \<Longrightarrow> chunk_off cs i + length (cs ! i) \<le> length (concat cs)"
  using chunk_off_le [of cs "Suc i"] by (simp add: chunk_off_Suc)

lemma entry_copy:
  assumes d: "datagram_frags hio cs pkts" and i: "i < length cs"
  shows "min (fr_len (snd (frag_entry hio cs pkts i)) - 20)
             (word_of_nat (datagram_size hio cs) - word_of_nat (unat hio + 20 + chunk_off cs i)) =
         word_of_nat (length (cs ! i))"
    and "min (word_of_nat (length (cs ! i))) (cap_avail (snd (frag_entry hio cs pkts i)) (hio + 20)) =
         word_of_nat (length (cs ! i))"
    and "unat (word_of_nat (length (cs ! i)) :: u32) = length (cs ! i)"
    and "ldn (length (cs ! i)) (hp_data (pkts ! i)) (unat hio + 20) = Ret (cs ! i)"
proof -
  note sz = datagram_size_less [OF d]
  have le: "chunk_off cs i + length (cs ! i) \<le> length (concat cs)" by (rule chunk_end_le [OF i])
  have "(word_of_nat (datagram_size hio cs) :: u32) - word_of_nat (unat hio + 20 + chunk_off cs i) =
      word_of_nat (datagram_size hio cs - (unat hio + 20 + chunk_off cs i))"
    using le by (simp add: datagram_size_def)
  then show "min (fr_len (snd (frag_entry hio cs pkts i)) - 20)
             (word_of_nat (datagram_size hio cs) - word_of_nat (unat hio + 20 + chunk_off cs i)) =
         word_of_nat (length (cs ! i))"
    using le sz min_word_of_nat [where 'a = 32, of "length (cs ! i)" "datagram_size hio cs - (unat hio + 20 + chunk_off cs i)"]
    by (simp only:) (simp add: frag_entry_def datagram_size_def)
  show u: "unat (word_of_nat (length (cs ! i)) :: u32) = length (cs ! i)"
    using le sz by (simp add: unat_of_nat datagram_size_def)
  from d i have f: "frag_of hio (i + 1 < length cs) (chunk_off cs i) (cs ! i) (pkts ! i)"
    by (simp add: datagram_frags_def)
  then have c: "unat hio + 20 + length (cs ! i) \<le> unat (hp_caplen (pkts ! i))"
    and "unat hio + 20 + length (cs ! i) \<le> length (hp_data (pkts ! i))"
    and "take (length (cs ! i)) (drop (unat hio + 20) (hp_data (pkts ! i))) = cs ! i"
    by (simp_all add: frag_of_def Let_def)
  then show "ldn (length (cs ! i)) (hp_data (pkts ! i)) (unat hio + 20) = Ret (cs ! i)"
    by (simp add: ldn_def)
  have h: "unat (hio + 20) = unat hio + 20" using sz by (simp add: unat_word_ariths datagram_size_def)
  have pos: "0 < length (cs ! i)" using d i by (simp add: datagram_frags_def)
  then have gt: "hp_caplen (pkts ! i) > hio + 20" using c h unfolding word_less_nat_alt by linarith
  then have "unat (hp_caplen (pkts ! i) - (hio + 20)) = unat (hp_caplen (pkts ! i)) - (unat hio + 20)"
    using h by (simp add: unat_sub less_imp_le)
  then have "word_of_nat (length (cs ! i)) \<le> hp_caplen (pkts ! i) - (hio + 20)"
    using c u by (simp add: word_le_nat_alt)
  with gt show "min (word_of_nat (length (cs ! i))) (cap_avail (snd (frag_entry hio cs pkts i)) (hio + 20)) =
      word_of_nat (length (cs ! i))"
    by (simp add: frag_entry_def cap_avail_def min_absorb1)
qed

lemma dequeue_rest_entries:
  assumes d: "datagram_frags hio cs pkts" and "i + k = length cs"
    and "length A = unat hio + 20 + chunk_off cs i" and "length A + length R = datagram_size hio cs"
  shows "dequeue_rest pq (word_of_nat (datagram_size hio cs)) (map (frag_entry hio cs pkts) [i..<length cs])
           (A @ R, word_of_nat (length A), t) =
         Ret (A @ concat (drop i cs), word_of_nat (datagram_size hio cs), t + word_of_nat (length R))"
  using assms(2-)
proof (induction k arbitrary: i A R t)
  case 0
  then have "length R = 0" by (simp add: datagram_size_def chunk_off_length)
  with 0 show ?case by simp
next
  case (Suc k)
  let ?T = "datagram_size hio cs" and ?c = "cs ! i" and ?e = "frag_entry hio cs pkts i"
  have i: "i < length cs" using Suc.prems by simp
  have le: "length ?c \<le> length R"
    using Suc.prems chunk_end_le [OF i] by (simp add: datagram_size_def)
  have pos: "0 < length ?c" using d i by (simp add: datagram_frags_def)
  have sz: "?T < 131071" by (rule datagram_size_less [OF d])
  have lt: "(word_of_nat (length A) :: u32) < word_of_nat ?T"
    using Suc.prems(3) le pos sz by (intro word_of_nat_lessI) (linarith, simp)
  have upt: "[i..<length cs] = i # [Suc i..<length cs]" using i by (simp add: upt_conv_Cons)
  have e: "?e = (fst ?e, snd ?e)" "fr_iphdr_len (snd ?e) = 20" "fr_header_ip_offset (snd ?e) = hio"
    "fr_packet (snd ?e) = pkts ! i"
    by (simp_all add: frag_entry_def)
  have st: "stn (A @ R) (unat (word_of_nat (length A) :: u32)) ?c = Ret ((A @ ?c) @ drop (length ?c) R)"
    using le Suc.prems(3) sz by (simp add: stn_def unat_of_nat)
  have IH: "dequeue_rest pq (word_of_nat ?T) (map (frag_entry hio cs pkts) [Suc i..<length cs])
      ((A @ ?c) @ drop (length ?c) R, word_of_nat (length (A @ ?c)), t + word_of_nat (length ?c)) =
    Ret ((A @ ?c) @ concat (drop (Suc i) cs), word_of_nat ?T, t + word_of_nat (length ?c) + word_of_nat (length (drop (length ?c) R)))"
    using Suc.prems le i by (intro Suc.IH) (simp_all add: chunk_off_Suc)
  have cd: "concat (drop i cs) = ?c @ concat (drop (Suc i) cs)"
    using i by (metis Cons_nth_drop_Suc concat.simps(2))
  have u20: "ucast (20 :: u16) = (20 :: u32)" "unat (20 :: u16) = 20" by simp_all
  have len: "(word_of_nat (length A) :: u32) + word_of_nat (length ?c) = word_of_nat (length (A @ ?c))" by simp
  have tt: "t + word_of_nat (length ?c) + word_of_nat (length (drop (length ?c) R)) = t + word_of_nat (length R)"
    using le by (simp add: of_nat_diff)
  note copy = entry_copy [OF d i, folded Suc.prems(2)]
  show ?case
    unfolding upt list.map
    by (subst e(1), subst dequeue_rest.simps, simp only: lt if_True Let_def e(2-) u20 copy if_cancel obind.simps st len IH [unfolded append_assoc] tt cd append_assoc)
qed


lemma total_len_rest_entry:
  "total_len_rest t (frag_entry hio cs pkts i # m) = total_len_rest (t + word_of_nat (20 + length (cs ! i)) - 20) m"
  by (simp add: frag_entry_def)

lemma total_len_rest_entries:
  assumes "i + k = length cs"
  shows "total_len_rest (word_of_nat (unat hio + 20 + chunk_off cs i)) (map (frag_entry hio cs pkts) [i..<length cs]) =
         word_of_nat (datagram_size hio cs)"
  using assms
proof (induction k arbitrary: i)
  case 0
  then show ?case by (simp add: datagram_size_def chunk_off_length)
next
  case (Suc k)
  then have i: "i < length cs" by simp
  have upt: "[i..<length cs] = i # [Suc i..<length cs]" using i by (simp add: upt_conv_Cons)
  have "(word_of_nat (unat hio + 20 + chunk_off cs i) :: u32) + word_of_nat (20 + length (cs ! i)) - 20 =
      word_of_nat (unat hio + 20 + chunk_off cs (Suc i))"
    using i by (simp add: chunk_off_Suc algebra_simps)
  moreover have "total_len_rest (word_of_nat (unat hio + 20 + chunk_off cs (Suc i)))
      (map (frag_entry hio cs pkts) [Suc i..<length cs]) = word_of_nat (datagram_size hio cs)"
    using Suc by simp
  ultimately show ?case
    unfolding upt list.map
    by (simp only: total_len_rest_entry)
qed

lemma total_len_entries:
  assumes d: "datagram_frags hio cs pkts"
  shows "total_len (frag_entry hio cs pkts 0) (map (frag_entry hio cs pkts) [1..<length cs]) =
         word_of_nat (datagram_size hio cs)"
proof -
  have n: "2 \<le> length cs" and lim: "20 + length (concat cs) \<le> 65535" using d by (simp_all add: datagram_frags_def)
  have c1: "chunk_off cs 1 = length (cs ! 0)" using n chunk_off_Suc [of 0 cs] by fastforce
  have "hio + word_of_nat (20 + length (cs ! 0)) = word_of_nat (unat hio + 20 + chunk_off cs 1)"
    by (simp only: c1) simp
  moreover have "1 + (length cs - 1) = length cs" using n by simp
  ultimately have r: "total_len_rest (hio + word_of_nat (20 + length (cs ! 0))) (map (frag_entry hio cs pkts) [1..<length cs]) =
      word_of_nat (datagram_size hio cs)"
    using total_len_rest_entries [of 1 "length cs - 1" cs hio pkts] by (simp only:)
  have "\<not> word_of_nat (datagram_size hio cs) > 0xFFFF + hio"
    using lim datagram_size_less [OF d]
    by (simp add: word_less_nat_alt unat_of_nat unat_word_ariths datagram_size_def)
  with r show ?thesis by (simp add: total_len_def frag_entry_def Let_def)
qed

section \<open>dequeue of a complete queue\<close>


lemma dequeue_first_entry:
  assumes d: "datagram_frags hio cs pkts" and l: "length dst = datagram_size hio cs"
  shows "\<exists>R. dequeue_first pq (snd (frag_entry hio cs pkts 0)) dst =
           Ret ((take (unat hio + 20) (hp_data (pkts ! 0)) @ cs ! 0) @ R) \<and>
         length R + unat hio + 20 + chunk_off cs 1 = datagram_size hio cs"
proof -
  let ?s = "hp_data (pkts ! 0)" and ?c = "cs ! 0"
  have n: "0 < length cs" "0 < unat hio" using d by (auto simp: datagram_frags_def)
  have c1: "chunk_off cs 1 = length ?c" using n chunk_off_Suc [of 0 cs] by simp
  have le: "length ?c \<le> length (concat cs)" using chunk_off_le [of cs 1] c1 by simp
  have sz: "datagram_size hio cs < 131071" by (rule datagram_size_less [OF d])
  from d n have f: "frag_of hio (0 + 1 < length cs) (chunk_off cs 0) ?c (pkts ! 0)"
    unfolding datagram_frags_def by blast
  then have b: "unat hio + 20 + length ?c \<le> length ?s" "unat hio + 20 + length ?c \<le> unat (hp_caplen (pkts ! 0))"
    and t: "take (length ?c) (drop (unat hio + 20) ?s) = ?c"
    by (simp_all add: frag_of_def Let_def)
  have u: "unat (word_of_nat (20 + length ?c) :: u32) = 20 + length ?c"
    using le sz by (intro unat_word_of_nat) (simp add: datagram_size_def)
  have gt: "hp_caplen (pkts ! 0) > hio" using b(2) by (simp add: word_less_nat_alt)
  then have "unat (hp_caplen (pkts ! 0) - hio) = unat (hp_caplen (pkts ! 0)) - unat hio"
    by (simp add: unat_sub less_imp_le)
  then have "word_of_nat (20 + length ?c) \<le> hp_caplen (pkts ! 0) - hio"
    using b(2) unfolding word_le_nat_alt u by linarith
  with gt have cap: "min (word_of_nat (20 + length ?c)) (cap_avail (snd (frag_entry hio cs pkts 0)) hio) =
      word_of_nat (20 + length ?c)"
    by (simp only: frag_entry_def cap_avail_def min_absorb1 snd_conv sFrag.simps if_True)
  have ld: "ldn (unat hio) ?s 0 = Ret (take (unat hio) ?s)"
    "ldn (20 + length ?c) ?s (unat hio) = Ret (take (20 + length ?c) (drop (unat hio) ?s))"
    using b(1) by (simp_all add: ldn_def)
  let ?d1 = "take (unat hio) ?s @ drop (unat hio) dst"
  have st1: "stn dst 0 (take (unat hio) ?s) = Ret ?d1"
    using b(1) l by (simp add: stn_def datagram_size_def min_absorb2)
  have st2: "stn ?d1 (unat hio) (take (20 + length ?c) (drop (unat hio) ?s)) =
      Ret (take (unat hio) ?s @ take (20 + length ?c) (drop (unat hio) ?s) @ drop (unat hio + (20 + length ?c)) dst)"
    using b(1) l le by (simp add: stn_def datagram_size_def min_absorb2 add.commute)
  have "take (unat hio) ?s @ take (20 + length ?c) (drop (unat hio) ?s) = take (unat hio + 20) ?s @ ?c"
  proof -
    have "take (20 + length ?c) (drop (unat hio) ?s) = take 20 (drop (unat hio) ?s) @ take (length ?c) (drop 20 (drop (unat hio) ?s))"
      by (rule take_add)
    also have "take (length ?c) (drop 20 (drop (unat hio) ?s)) = ?c" using t by (simp add: add.commute)
    finally show ?thesis by (simp add: take_add)
  qed
  then have st2': "stn ?d1 (unat hio) (take (20 + length ?c) (drop (unat hio) ?s)) =
      Ret ((take (unat hio + 20) ?s @ ?c) @ drop (unat hio + (20 + length ?c)) dst)"
    using st2 by (metis append_assoc)
  have hio: "hio \<noteq> 0" using n(2) by auto
  have e: "fr_packet (snd (frag_entry hio cs pkts 0)) = pkts ! 0" "fr_header_ip_offset (snd (frag_entry hio cs pkts 0)) = hio"
    "fr_len (snd (frag_entry hio cs pkts 0)) = word_of_nat (20 + length ?c)"
    by (simp_all add: frag_entry_def)
  have eq: "dequeue_first pq (snd (frag_entry hio cs pkts 0)) dst =
      Ret ((take (unat hio + 20) ?s @ ?c) @ drop (unat hio + (20 + length ?c)) dst)"
    unfolding dequeue_first_def Let_def e cap if_cancel u
    by (simp only: hio not_False_eq_True if_True ld obind.simps st1 st2')
  show ?thesis
    by (rule exI [of _ "drop (unat hio + (20 + length ?c)) dst"]) (use eq l le c1 in \<open>simp add: datagram_size_def\<close>)
qed

definition reassembled :: "u32 \<Rightarrow> u8 list list \<Rightarrow> hpacket list \<Rightarrow> hpacket \<Rightarrow> bool" where
  "reassembled hio cs pkts out =
     (let m = hp_data out; m0 = hp_data (pkts ! 0); p = unat hio in
      hp_len out = word_of_nat (datagram_size hio cs) \<and> hp_caplen out = word_of_nat (datagram_size hio cs) \<and>
      length m = datagram_size hio cs \<and> take p m = take p m0 \<and> drop (p + 20) m = concat cs \<and>
      iph_get_tot_len m p = Ret (word_of_nat (20 + length (concat cs))) \<and>
      iph_get_frag_data m p = Ret 0 \<and> iph_get_check m p = Ret 0 \<and>
      iph_get_saddr m p = iph_get_saddr m0 p \<and> iph_get_daddr m p = iph_get_daddr m0 p \<and>
      iph_get_protocol_raw m p = iph_get_protocol_raw m0 p \<and> iph_get_frag_id m p = iph_get_frag_id m0 p)"

lemma ldn_take: "p + n \<le> k \<Longrightarrow> k \<le> length m \<Longrightarrow> ldn n (take k m @ r) p = ldn n m p"
  by (auto simp: ldn_def drop_take min_absorb2)

lemma iph_v4_prefix:
  assumes "p + 20 \<le> length m" and "drop_bit 4 (m ! p) = 4" and "m' = take (p + 20) m @ r"
  shows "iph_get_tot_len m' p = iph_get_tot_len m p" and "iph_get_saddr m' p = iph_get_saddr m p"
    and "iph_get_daddr m' p = iph_get_daddr m p" and "iph_get_protocol_raw m' p = iph_get_protocol_raw m p"
    and "iph_get_frag_id m' p = iph_get_frag_id m p" and "drop_bit 4 (m' ! p) = 4" and "p + 20 \<le> length m'"
proof -
  show l: "p + 20 \<le> length m'" and v: "drop_bit 4 (m' ! p) = 4"
    using assms by (simp_all add: nth_append)
  have if4: "iph_if_v4 m' p a b = a" "iph_if_v4 m p a b = a" for a b :: "'x outcome"
    using l v assms(1,2) by (simp_all add: iph_if_v4_4)
  show "iph_get_tot_len m' p = iph_get_tot_len m p" "iph_get_saddr m' p = iph_get_saddr m p"
    "iph_get_daddr m' p = iph_get_daddr m p" "iph_get_protocol_raw m' p = iph_get_protocol_raw m p"
    "iph_get_frag_id m' p = iph_get_frag_id m p"
    using assms(1)
    by (simp_all only: iph_get_tot_len_def iph_get_saddr_def iph_get_daddr_def iph_get_protocol_raw_def
        iph_get_frag_id_def if4) (simp_all add: ld16_def ld32_def ld8_ldn ldn_take assms(3))
qed

lemma repair_header_entries:
  assumes d: "datagram_frags hio cs pkts"
  shows "\<exists>m. repair_header hio (word_of_nat (length (concat cs) - length (cs ! 0)))
               (take (unat hio + 20) (hp_data (pkts ! 0)) @ concat cs) = Ret m \<and>
         (\<forall>out. reassembled hio cs pkts (out\<lparr>hp_len := word_of_nat (datagram_size hio cs),
            hp_caplen := word_of_nat (datagram_size hio cs), hp_pid := pid, hp_data := m\<rparr>))"
proof -
  let ?s = "hp_data (pkts ! 0)" and ?c = "cs ! 0" and ?p = "unat hio"
  let ?m = "take (unat hio + 20) (hp_data (pkts ! 0)) @ concat cs"
  have n: "0 < length cs" "0 < unat hio" "20 + length (concat cs) \<le> 65535" using d by (auto simp: datagram_frags_def)
  have le: "length ?c \<le> length (concat cs)" using chunk_end_le [OF n(1)] by simp
  from d n have f: "frag_of hio (0 + 1 < length cs) (chunk_off cs 0) ?c (pkts ! 0)"
    unfolding datagram_frags_def by blast
  then have b: "?p + 20 \<le> length ?s" "drop_bit 4 (?s ! ?p) = 4"
    and tl: "iph_get_tot_len ?s ?p = Ret (word_of_nat (20 + length ?c))"
    by (simp_all add: frag_of_def Let_def)
  have hio: "hio \<noteq> 0" using n(2) by auto
  note pre = iph_v4_prefix [OF b refl, of "concat cs"]
  have nn: "word_of_nat (20 + length ?c) + word_of_nat (length (concat cs) - length ?c) =
      (word_of_nat (20 + length (concat cs)) :: u32)"
    using le by (simp add: of_nat_diff)
  have uu: "ucast (ucast (word_of_nat (20 + length (concat cs)) :: u32) :: u16) = (word_of_nat (20 + length (concat cs)) :: u32)"
  proof -
    have "unat (word_of_nat (20 + length (concat cs)) :: u32) = 20 + length (concat cs)"
      using n(3) by (intro unat_word_of_nat) simp
    moreover have "take_bit 16 (20 + length (concat cs)) = 20 + length (concat cs)"
      using n(3) by (intro take_bit_nat_eq_self) simp
    moreover have "LENGTH(16) = 16" by simp
    ultimately show ?thesis 
      by (subst word_unat_eq_iff, subst unat_ucast_u16, subst unsigned_ucast_eq) (simp only:)
  qed
  obtain m1 m2 m3 where m: "iph_set_tot_len (word_of_nat (20 + length (concat cs))) ?m ?p = Ret m1"
    "iph_set_check 0 m1 ?p = Ret m2" "iph_clear_frag_data m2 ?p = Ret m3" "length m3 = length ?m"
    "iph_get_tot_len m3 ?p = Ret (word_of_nat (20 + length (concat cs)))" "iph_get_check m3 ?p = Ret 0"
    "iph_get_frag_data m3 ?p = Ret 0" "iph_get_saddr m3 ?p = iph_get_saddr ?s ?p"
    "iph_get_daddr m3 ?p = iph_get_daddr ?s ?p" "iph_get_protocol_raw m3 ?p = iph_get_protocol_raw ?s ?p"
    "iph_get_frag_id m3 ?p = iph_get_frag_id ?s ?p" "take ?p m3 = take ?p ?m" "drop (?p + 20) m3 = drop (?p + 20) ?m"
    using iph_v4_repair_fields [OF pre(7) pre(6), of "word_of_nat (20 + length (concat cs))"]
    unfolding pre uu by blast
  have r: "repair_header hio (word_of_nat (length (concat cs) - length ?c)) ?m = Ret m3"
    unfolding repair_header_def pre(1) tl obind.simps nn m using hio by simp
  show ?thesis
    by (rule exI [of _ m3]) (use r m b in \<open>simp add: reassembled_def datagram_size_def Let_def min_absorb2\<close>)
qed


lemma dequeue_entries:
  assumes d: "datagram_frags hio cs pkts"
  shows "\<exists>out. dequeue pq junk (map (frag_entry hio cs pkts) [0..<length cs]) = Ret (Some out) \<and>
           reassembled hio cs pkts out"
proof -
  let ?e = "frag_entry hio cs pkts" and ?T = "datagram_size hio cs" and ?s = "hp_data (pkts ! 0)"
  have n: "2 \<le> length cs" using d by (simp add: datagram_frags_def)
  then have i0: "0 < length cs" and i1: "1 + (length cs - 1) = length cs" by linarith+
  have c1: "chunk_off cs 1 = length (cs ! 0)" using chunk_off_Suc [OF i0] by simp
  have upt: "[0..<length cs] = 0 # [1..<length cs]" using i0 by (simp add: upt_conv_Cons del: upt_Suc)
  have f: "frag_of hio (0 + 1 < length cs) (chunk_off cs 0) (cs ! 0) (pkts ! 0)"
    using d i0 unfolding datagram_frags_def by blast
  have A: "length (take (unat hio + 20) ?s @ cs ! 0) = unat hio + 20 + chunk_off cs 1"
    using f c1 by (simp add: frag_of_def Let_def min_absorb2)
  have uT: "unat (word_of_nat ?T :: u32) = ?T"
    using datagram_size_less [OF d] by (intro unat_word_of_nat) simp
  obtain R where R: "dequeue_first pq (snd (?e 0)) (alloc_packet junk ?T) = Ret ((take (unat hio + 20) ?s @ cs ! 0) @ R)"
    "length R + unat hio + 20 + chunk_off cs 1 = ?T"
    using dequeue_first_entry [OF d, of "alloc_packet junk ?T" pq] by (auto simp: alloc_packet_def)
  have lR: "length R = length (concat cs) - length (cs ! 0)" using R(2) c1 by (simp add: datagram_size_def)
  have lA: "hio + fr_len (snd (?e 0)) = word_of_nat (length (take (unat hio + 20) ?s @ cs ! 0))"
    unfolding A c1 by (simp add: frag_entry_def)
  have cc: "cs ! 0 @ concat (drop 1 cs) = concat cs" using i0 by (cases cs) auto
  have rest: "dequeue_rest pq (word_of_nat ?T) (map ?e [1..<length cs])
      ((take (unat hio + 20) ?s @ cs ! 0) @ R, hio + fr_len (snd (?e 0)), 0) =
    Ret (take (unat hio + 20) ?s @ concat cs, word_of_nat ?T, word_of_nat (length (concat cs) - length (cs ! 0)))"
  proof -
    have "length (take (unat hio + 20) ?s @ cs ! 0) + length R = ?T" using R(2) A by linarith
    from dequeue_rest_entries [OF d i1 A this, of pq 0]
    show ?thesis unfolding lA by (simp only: cc append_assoc add_0 lR)
  qed
  obtain m where m: "repair_header hio (word_of_nat (length (concat cs) - length (cs ! 0)))
      (take (unat hio + 20) ?s @ concat cs) = Ret m"
    "\<forall>out. reassembled hio cs pkts (out\<lparr>hp_len := word_of_nat ?T, hp_caplen := word_of_nat ?T,
       hp_pid := hp_pid (fr_packet (snd (?e 0))), hp_data := m\<rparr>)"
    using repair_header_entries [OF d] by blast
  have h: "fr_header_ip_offset (snd (?e 0)) = hio" by (simp add: frag_entry_def)
  have e: "?e 0 = (fst (?e 0), snd (?e 0))" by simp
  have "\<exists>lp. dequeue pq junk (map ?e [0..<length cs]) =
      Ret (Some (lp\<lparr>hp_len := word_of_nat ?T, hp_caplen := word_of_nat ?T, hp_pid := hp_pid (fr_packet (snd (?e 0))), hp_data := m\<rparr>))"
    unfolding upt list.map
    by (subst e, subst dequeue.simps)
       (simp only: Let_def total_len_entries [OF d] prod.collapse h uT R(1) obind.simps rest prod.case m(1) omap.simps,
        blast)
  then show ?thesis using m(2) by blast
qed

definition entries_queue :: "u32 \<Rightarrow> u8 list list \<Rightarrow> hpacket list \<Rightarrow> nat list \<Rightarrow> sFrags" where
  "entries_queue hio cs pkts xs =
     \<lparr>fq_map = map (frag_entry hio cs pkts) xs, has_last = (length cs - 1 \<in> set xs)\<rparr>"

lemma frag_add_all_entries:
  assumes d: "datagram_frags hio cs pkts"
    and "ps \<noteq> []" and "distinct (xs @ ps)" and "set xs \<union> set ps = {..<length cs}" and "sorted xs"
  shows "\<exists>out q. frag_add_all pq junk hio (entries_queue hio cs pkts xs) (map ((!) pkts) ps) =
           Ret (replicate (length ps - 1) 0 @ [1], q, Some out) \<and> reassembled hio cs pkts out"
  using assms(2-)
proof (induction ps arbitrary: xs)
  case (Cons i ps)
  have i: "i < length cs" and xs: "set xs \<subseteq> {..<length cs}" "i \<notin> set xs" using Cons.prems by auto
  let ?ys = "insort i xs"
  have ys: "set ?ys = insert i (set xs)" "distinct ?ys" "sorted ?ys" "set ?ys \<subseteq> {..<length cs}"
    using Cons.prems i by (auto simp: set_insort_key distinct_insort sorted_insort)
  define W :: u32 where "W = word_of_nat (20 + length (cs ! i))"
  have tl: "iph_get_tot_len (hp_data (pkts ! i)) (unat hio) = Ret W"
    using d i by (simp add: datagram_frags_def frag_of_def Let_def W_def)
  have add: "frag_add pq junk (entries_queue hio cs pkts xs) (pkts ! i) hio W =
      (let q = entries_queue hio cs pkts ?ys in
       if ?ys = [0..<length cs] then omap (\<lambda>out. (1, q, out)) (dequeue pq junk (fq_map q)) else Ret (0, q, None))"
    using frag_add_entry [OF d i xs] frags_complete_iff [OF d ys(4,3,2)]
    by (simp only: entries_queue_def Let_def W_def)
  have fq: "fq_map (entries_queue hio cs pkts zs) = map (frag_entry hio cs pkts) zs" for zs
    by (simp add: entries_queue_def)
  show ?case
  proof (cases "ps = []")
    case True
    then have "?ys = [0..<length cs]"
      using Cons.prems(3) by (intro sorted_distinct_set_unique ys(2,3)) (simp_all add: set_insort_key lessThan_atLeast0)
    moreover obtain out where "dequeue pq junk (map (frag_entry hio cs pkts) [0..<length cs]) = Ret (Some out)"
      "reassembled hio cs pkts out"
      using dequeue_entries [OF d] by blast
    ultimately show ?thesis using True by (simp add: tl add fq Let_def)
  next
    case False
    then obtain j where "j \<in> set ps" by (cases ps) auto
    then have "j \<notin> set ?ys" "j < length cs" using Cons.prems ys by auto
    then have nf: "?ys \<noteq> [0..<length cs]" by auto
    have "distinct (?ys @ ps)" using Cons.prems ys by auto
    moreover have "set ?ys \<union> set ps = {..<length cs}" using Cons.prems ys by auto
    ultimately obtain out q where IH: "frag_add_all pq junk hio (entries_queue hio cs pkts ?ys) (map ((!) pkts) ps) =
        Ret (replicate (length ps - 1) 0 @ [1], q, Some out)" "reassembled hio cs pkts out"
      using Cons.IH [OF False, of ?ys] ys(3) by blast
    have "replicate (length (i # ps) - 1) (0::int) = 0 # replicate (length ps - 1) 0"
      using False by (cases ps) auto
    with IH nf False show ?thesis by (simp add: tl add Let_def)
  qed
qed simp

lemma frag_add_all_perm:
  assumes d: "datagram_frags hio cs pkts" and p: "mset ps = mset [0..<length cs]"
  shows "\<exists>out q. frag_add_all pq junk hio empty_sFrags (map ((!) pkts) ps) =
           Ret (replicate (length cs - 1) 0 @ [1], q, Some out) \<and> reassembled hio cs pkts out"
proof -
  have "empty_sFrags = entries_queue hio cs pkts []" by (simp add: empty_sFrags_def entries_queue_def)
  moreover have l: "length ps = length cs" using p by (metis length_upt diff_zero mset_eq_length)
  moreover have "ps \<noteq> []" using l d by (auto simp: datagram_frags_def)
  moreover have "distinct ps" "set ps = {..<length cs}"
    using p by (metis distinct_upt mset_eq_imp_distinct_iff, metis atLeast_upt set_mset_mset)
  ultimately show ?thesis using frag_add_all_entries [OF d, of ps "[]" pq junk] by simp
qed

section \<open>The table of queues\<close>

lemma map_key_order_frag_key: "map_key_order frag_key_lt frag_key_eq"
  by (rule map_key_order_lexI [OF map_key_order_vmIP map_key_order_linorder, where f = fst and g = snd])
     (simp_all add: frag_key_lt_def frag_key_eq_def lex_lt_def lex_eq_def)

interpretation frag_key: map_key_order frag_key_lt frag_key_eq
  by (rule map_key_order_frag_key)

definition cIpFrag_ok :: "cIpFrag \<Rightarrow> bool" where
  "cIpFrag_ok c = (length (fdata c) = fdata_threads_split c \<and> 0 < fdata_threads_split c \<and>
     (\<forall>d \<in> set (fdata c). map_ordered frag_key_lt d))"

definition frags_of :: "cIpFrag \<Rightarrow> nat \<Rightarrow> frag_key \<Rightarrow> sFrags option" where
  "frags_of c t key = map_find frag_key_lt key (fdata c ! t)"

lemma defrag_Ret:
  assumes "defrag pq junk c pkt hio idx = Ret (res, c', out)"
  obtains saddr frag_id tot_len q q' where
    "iph_get_saddr (hp_data pkt) (unat hio) = Ret saddr" "iph_get_frag_id (hp_data pkt) (unat hio) = Ret frag_id"
    "iph_get_tot_len (hp_data pkt) (unat hio) = Ret tot_len"
    "defrag_thread c idx saddr < length (fdata c)"
    "q = (case frags_of c (defrag_thread c idx saddr) (saddr, frag_id) of Some q \<Rightarrow> q | None \<Rightarrow> empty_sFrags)"
    "frag_add pq junk q pkt hio tot_len = Ret (res, q', out)"
    "c' = c\<lparr>fdata := (fdata c)[defrag_thread c idx saddr :=
        (if res > 0 then map_erase frag_key_lt (saddr, frag_id) (fdata c ! defrag_thread c idx saddr)
         else map_put frag_key_lt (saddr, frag_id) q' (fdata c ! defrag_thread c idx saddr))]\<rparr>"
  using assms
  by (auto simp: defrag_def Let_def obind_Ret_iff omap_Ret_iff frags_of_def split: if_splits)

lemma defrag_ok:
  assumes "cIpFrag_ok c" and "defrag pq junk c pkt hio idx = Ret (res, c', out)"
  shows "cIpFrag_ok c'"
  using assms(2)
proof (rule defrag_Ret)
  fix saddr and frag_id :: u32 and q'
  let ?t = "defrag_thread c idx saddr" and ?k = "(saddr, frag_id)"
  assume t: "?t < length (fdata c)"
    and c': "c' = c\<lparr>fdata := (fdata c)[?t := (if res > 0 then map_erase frag_key_lt ?k (fdata c ! ?t)
         else map_put frag_key_lt ?k q' (fdata c ! ?t))]\<rparr>"
  have "map_ordered frag_key_lt (fdata c ! ?t)" using assms(1) t by (auto simp: cIpFrag_ok_def)
  then have "map_ordered frag_key_lt (if res > 0 then map_erase frag_key_lt ?k (fdata c ! ?t)
      else map_put frag_key_lt ?k q' (fdata c ! ?t))"
    by (simp add: frag_key.map_ordered_erase frag_key.map_ordered_put)
  then show ?thesis
    using assms(1) set_update_subset_insert [of "fdata c" ?t] unfolding cIpFrag_ok_def c' by fastforce
qed

lemma defrag_frags_of:
  assumes "cIpFrag_ok c" and "defrag pq junk c pkt hio idx = Ret (res, c', out)"
    and "iph_get_saddr (hp_data pkt) (unat hio) = Ret saddr" and "iph_get_frag_id (hp_data pkt) (unat hio) = Ret frag_id"
    and "t \<noteq> defrag_thread c idx saddr \<or> \<not> frag_key_eq (saddr, frag_id) key"
  shows "frags_of c' t key = frags_of c t key"
  using assms(2)
proof (rule defrag_Ret)
  fix saddr' and frag_id' :: u32 and q'
  let ?t = "defrag_thread c idx saddr'" and ?k = "(saddr', frag_id')"
  assume k: "iph_get_saddr (hp_data pkt) (unat hio) = Ret saddr'" "iph_get_frag_id (hp_data pkt) (unat hio) = Ret frag_id'"
    and t: "?t < length (fdata c)"
    and c': "c' = c\<lparr>fdata := (fdata c)[?t := (if res > 0 then map_erase frag_key_lt ?k (fdata c ! ?t)
         else map_put frag_key_lt ?k q' (fdata c ! ?t))]\<rparr>"
  have "map_ordered frag_key_lt (fdata c ! ?t)" using assms(1) t by (auto simp: cIpFrag_ok_def)
  then show ?thesis
    using assms(3-5) k t by (cases "t = ?t") (auto simp: frags_of_def c' frag_key.map_find_erase frag_key.map_find_put)
qed

definition queue_live :: "u32 \<Rightarrow> bool \<Rightarrow> int \<Rightarrow> sFrags \<Rightarrow> bool" where
  "queue_live tv_sec all_q limit q = (fq_map q \<noteq> [] \<and> \<not> queue_expired tv_sec all_q limit q)"

definition map_frags :: "sDefrag \<Rightarrow> sFrag list" where
  "map_frags d = concat (map (\<lambda>(k, q). map snd (fq_map q)) d)"

definition table_frags :: "cIpFrag \<Rightarrow> sFrag list" where
  "table_frags c = concat (map map_frags (fdata c))"

lemma map_frags_simps [simp]:
  "map_frags [] = []" "map_frags ((k, q) # d) = map snd (fq_map q) @ map_frags d" "map_frags (a @ b) = map_frags a @ map_frags b"
  by (simp_all add: map_frags_def)

lemma cleanup_queues_kept:
  "snd (cleanup_queues tv_sec all_q limit freed kept d) = kept @ filter (\<lambda>(k, q). queue_live tv_sec all_q limit q) d"
  by (induction tv_sec all_q limit freed kept d rule: cleanup_queues.induct) (auto simp: queue_live_def queue_expired_def)

lemma cleanup_queues_frags:
  "cleanup_queues tv_sec all_q limit freed kept d = (freed', d') \<Longrightarrow>
   mset freed' + mset (map_frags d') = mset freed + mset (map_frags kept) + mset (map_frags d)"
  by (induction tv_sec all_q limit freed kept d rule: cleanup_queues.induct) (auto split: if_splits)

lemma cleanup_threads_maps:
  "snd (cleanup_threads tv_sec all_q limit freed ds) = map (filter (\<lambda>(k, q). queue_live tv_sec all_q limit q)) ds"
proof (induction ds arbitrary: freed)
  case (Cons d ds)
  then show ?case using cleanup_queues_kept [of tv_sec all_q limit freed "[]" d]
    by (auto split: prod.splits) (metis snd_conv)
qed simp

lemma cleanup_threads_frags:
  "cleanup_threads tv_sec all_q limit freed ds = (freed', ds') \<Longrightarrow>
   mset freed' + mset (concat (map map_frags ds')) = mset freed + mset (concat (map map_frags ds))"
proof (induction ds arbitrary: freed freed' ds')
  case (Cons d ds)
  obtain f1 d1 where c: "cleanup_queues tv_sec all_q limit freed [] d = (f1, d1)" by force
  obtain f2 ds2 where t: "cleanup_threads tv_sec all_q limit f1 ds = (f2, ds2)" by force
  have r: "freed' = f2" "ds' = d1 # ds2" using Cons.prems c t by simp_all
  have "mset freed' + mset (concat (map map_frags ds')) = mset (map_frags d1) + (mset f2 + mset (concat (map map_frags ds2)))" by (simp add: r ac_simps)
  also have "\<dots> = (mset f1 + mset (map_frags d1)) + mset (concat (map map_frags ds))" unfolding Cons.IH [OF t] by (simp add: ac_simps)
  also have "\<dots> = mset freed + mset (concat (map map_frags (d # ds)))" unfolding cleanup_queues_frags [OF c] by (simp add: ac_simps)
  finally show ?case .
qed simp

lemma cleanup_find:
  assumes "map_ordered frag_key_lt d"
  shows "map_find frag_key_lt key (filter (\<lambda>(k, q). queue_live tv_sec all_q limit q) d) =
         (case map_find frag_key_lt key d of None \<Rightarrow> None | Some q \<Rightarrow> if queue_live tv_sec all_q limit q then Some q else None)"
  using frag_key.map_find_filter_map [OF assms, of key "queue_live tv_sec all_q limit" "\<lambda>q. q"] by simp

section \<open>Properties\<close>

text \<open>C4: Fragments of one IPv4 datagram (20-byte headers, non-ESP, at least two non-empty fragments, total at most 65535 bytes, every
  byte captured) given to \<open>cIpFrag::add\<close> in any order: every call but the last returns 0, the last
  returns 1 with a packet whose payload is the concatenation of the fragment payloads in datagram order,
  whose header is the first fragment's with the total length corrected, the checksum and the fragment word
  cleared, for both packet flavours and whatever bytes the allocator returns.\<close>

theorem defrag_any_order:
  assumes "datagram_frags hio cs pkts" and "mset ps = mset [0..<length cs]"
  shows "\<exists>out q. frag_add_all pq junk hio empty_sFrags (map ((!) pkts) ps) =
           Ret (replicate (length cs - 1) 0 @ [1], q, Some out) \<and> reassembled hio cs pkts out"
  using assms by (rule frag_add_all_perm)

definition demo_frag :: "u16 \<Rightarrow> u8 list \<Rightarrow> hpacket" where
  "demo_frag fo payload =
     \<lparr>hp_sec = 0, hp_usec = 0, hp_caplen = word_of_nat (34 + length payload), hp_len = word_of_nat (34 + length payload), hp_pid = 0,
      hp_data = [0, 0, 0, 0, 0, 0, 0, 0, 0, 0, 0, 0, 8, 0, 0x45, 0, 0, word_of_nat (20 + length payload), 0, 1, ucast (drop_bit 8 fo), ucast fo,
        64, 17, 0, 0, 10, 0, 0, 1, 10, 0, 0, 2] @ payload\<rparr>"

lemmas frag_eval = demo_frag_def Let_def iph_get_tot_len_def iph_get_frag_data_def iph_get_saddr_def iph_get_frag_id_def
  iph_if_v4_4 ld16_def ld32_def ldn_def le_word_def ntohs_def ntohl_def word_le_def ip4_is_more_frag_def ip4_get_frag_offset_def

theorem defrag_any_order_witness:
  "\<exists>out q. frag_add_all False (\<lambda>_. 0) 14 empty_sFrags [demo_frag 0x0001 [9, 9], demo_frag 0x2000 [1, 2, 3, 4, 5, 6, 7, 8]] =
     Ret ([0, 1], q, Some out) \<and> drop 34 (hp_data out) = [1, 2, 3, 4, 5, 6, 7, 8, 9, 9]"
proof -
  let ?cs = "[[1, 2, 3, 4, 5, 6, 7, 8], [9, 9]] :: u8 list list"
  let ?ps = "[demo_frag 0x2000 [1, 2, 3, 4, 5, 6, 7, 8], demo_frag 0x0001 [9, 9]]"
  have "frag_of 14 True 0 (?cs ! 0) (?ps ! 0)" "frag_of 14 False (Suc (Suc (Suc (Suc (Suc (Suc (Suc (Suc 0)))))))) (?cs ! 1) (?ps ! 1)"
    by (simp_all add: frag_of_def frag_eval)
  then have "datagram_frags 14 ?cs ?ps"
    by (simp add: datagram_frags_def chunk_off_def All_less_Suc)
  moreover have "mset [1, 0] = mset [0..<length ?cs]" by (simp add: upt_rec)
  ultimately show ?thesis
    using defrag_any_order [of 14 ?cs ?ps "[1, 0]" False "\<lambda>_. 0"]
    by (auto simp: reassembled_def Let_def)
qed

text \<open>C26: A call of \<open>cIpFrag::defrag\<close> keeps the table well-formed and touches only the queue of its own
  thread, source address and identification: every other queue is found unchanged.\<close>

theorem defrag_isolated:
  assumes "cIpFrag_ok c" and "defrag pq junk c pkt hio idx = Ret (res, c', out)"
    and "iph_get_saddr (hp_data pkt) (unat hio) = Ret saddr" and "iph_get_frag_id (hp_data pkt) (unat hio) = Ret frag_id"
  shows "cIpFrag_ok c' \<and> (\<forall>t key. (t \<noteq> defrag_thread c idx saddr \<or> \<not> frag_key_eq (saddr, frag_id) key) \<longrightarrow>
           frags_of c' t key = frags_of c t key)"
  using defrag_ok [OF assms(1,2)] defrag_frags_of [OF assms] by blast

theorem defrag_isolated_witness:
  "\<exists>c' out. defrag False (\<lambda>_. 0) (cIpFrag_create 1) (demo_frag 0x2000 [1, 2, 3, 4, 5, 6, 7, 8]) 14 (- 1) = Ret (0, c', out) \<and>
     cIpFrag_ok c' \<and> frags_of c' 0 (vmIP_v4 0x0A000002, 1) = None"
proof -
  let ?pkt = "demo_frag 0x2000 [1, 2, 3, 4, 5, 6, 7, 8]" and ?c = "cIpFrag_create 1"
  have a: "iph_get_saddr (hp_data ?pkt) (unat (14 :: u32)) = Ret (vmIP_v4 0x0A000001)"
    "iph_get_frag_id (hp_data ?pkt) (unat (14 :: u32)) = Ret 1"
    "iph_get_tot_len (hp_data ?pkt) (unat (14 :: u32)) = Ret 28"
    "iph_get_frag_data (hp_data ?pkt) (unat (14 :: u32)) = Ret 0x2000"
    by (simp_all add: frag_eval)
  have b: "14 + 20 \<le> length (hp_data ?pkt)" "drop_bit 4 (hp_data ?pkt ! 14) = 4" "hp_data ?pkt ! (14 + 9) = 17"
    by (simp_all add: demo_frag_def)
  then have f: "iph_get_hdr_size (hp_data ?pkt) 14 = Ret (20, Some 17)" "iph_get_protocol_raw (hp_data ?pkt) 14 = Ret 17"
    "iph_is_more_frag 0x2000 (hp_data ?pkt) 14 = Ret True" "iph_get_frag_offset 0x2000 (hp_data ?pkt) 14 = Ret 0"
    using iph_v4_fields [OF b(1,2)] by (simp_all add: frag_eval)
  obtain c' out where d: "defrag False (\<lambda>_. 0) ?c ?pkt 14 (- 1) = Ret (0, c', out)"
    using a f
    by (simp add: defrag_def cIpFrag_create_def defrag_thread_def frag_add_def empty_sFrags_def frags_complete_def Let_def)
  have ok: "cIpFrag_ok ?c" by (simp add: cIpFrag_ok_def cIpFrag_create_def)
  have ne: "\<not> frag_key_eq (vmIP_v4 0x0A000001, 1) (vmIP_v4 0x0A000002, 1)"
    by (simp add: frag_key_eq_def lex_eq_def vmIP_eq_def vmIP_v4_def)
  have "frags_of ?c 0 (vmIP_v4 0x0A000002, 1) = None"
    by (simp add: frags_of_def cIpFrag_create_def)
  with defrag_isolated [OF ok d a(1,2)] ne d show ?thesis by metis
qed

text \<open>C25: \<open>cIpFrag::cleanup\<close> removes exactly the queues that are empty or whose first fragment is older than the limit (every queue when
  \<open>all\<close> is set; a negative limit means 30 s), leaves every other queue as it was, and destroys the fragments of the removed queues
  exactly once: the fragments in the table before are those destroyed and those in the table after it.\<close>

theorem cleanup_exact:
  assumes "cIpFrag_ok c" and "t < fdata_threads_split c" and "ipfrag_cleanup tv_sec all_q limit c = (freed, c')"
  shows "cIpFrag_ok c' \<and> mset (table_frags c) = mset freed + mset (table_frags c') \<and>
         frags_of c' t key =
         (case frags_of c t key of
            None \<Rightarrow> None
          | Some q \<Rightarrow> if fq_map q = [] \<or> all_q \<or> uint tv_sec - fr_ts (snd (hd (fq_map q))) > (if limit < 0 then 30 else limit)
                     then None else Some q)"
proof -
  define l where "l = (if limit < 0 then 30 else limit)"
  obtain ds where ds: "cleanup_threads tv_sec all_q l [] (fdata c) = (freed, ds)" "c' = c\<lparr>fdata := ds\<rparr>"
    using assms(3) by (auto simp: ipfrag_cleanup_def l_def split: prod.splits)
  then have maps: "ds = map (filter (\<lambda>(k, q). queue_live tv_sec all_q l q)) (fdata c)"
    using cleanup_threads_maps [of tv_sec all_q l "[]" "fdata c"] by simp
  have ord: "map_ordered frag_key_lt (fdata c ! t)" and t: "t < length (fdata c)"
    using assms(1,2) by (auto simp: cIpFrag_ok_def)
  have "cIpFrag_ok c'" using assms(1) by (auto simp: cIpFrag_ok_def ds(2) maps intro: map_ordered_filter)
  moreover have "mset (table_frags c) = mset freed + mset (table_frags c')"
    using cleanup_threads_frags [OF ds(1)] by (simp add: table_frags_def ds(2))
  moreover have "frags_of c' t key = (case frags_of c t key of None \<Rightarrow> None | Some q \<Rightarrow> if queue_live tv_sec all_q l q then Some q else None)"
    using t cleanup_find [OF ord, of key tv_sec all_q l] by (simp add: frags_of_def ds(2) maps)
  moreover have "queue_live tv_sec all_q l q = (\<not> (fq_map q = [] \<or> all_q \<or> uint tv_sec - fr_ts (snd (hd (fq_map q))) > l))" for q
    by (cases "fq_map q") (auto simp: queue_live_def queue_expired_def)
  ultimately show ?thesis unfolding l_def [symmetric] by (simp split: option.splits)
qed

text \<open>Two queues of one thread, the first with a fragment of second 10 and the second with one of second 90.\<close>

definition demo_table :: cIpFrag where
  "demo_table = (let f = make_frag (demo_frag 0x2000 [1, 2, 3, 4, 5, 6, 7, 8]) 14 28 0x2000 20 17 in
     \<lparr>fdata = [[((vmIP_v4 1, 7), \<lparr>fq_map = [(0, f\<lparr>fr_ts := 10\<rparr>)], has_last = False\<rparr>),
               ((vmIP_v4 2, 7), \<lparr>fq_map = [(0, f\<lparr>fr_ts := 90\<rparr>)], has_last = False\<rparr>)]], fdata_threads_split = 1\<rparr>)"

theorem cleanup_exact_witness:
  "\<exists>freed c'. ipfrag_cleanup 100 False (- 1) demo_table = (freed, c') \<and> frags_of c' 0 (vmIP_v4 1, 7) = None \<and>
     frags_of c' 0 (vmIP_v4 2, 7) = frags_of demo_table 0 (vmIP_v4 2, 7) \<and> frags_of demo_table 0 (vmIP_v4 2, 7) \<noteq> None \<and> size (mset freed) = 1"
proof -
  obtain freed c' where r: "ipfrag_cleanup 100 False (- 1) demo_table = (freed, c')" by force
  have lt: "frag_key_lt (vmIP_v4 1, 7) (vmIP_v4 2, 7)" "\<not> frag_key_lt (vmIP_v4 2, 7) (vmIP_v4 1, 7)"
    by (simp_all add: frag_key_lt_def lex_lt_def vmIP_lt_def vmIP_eq_def vmIP_v4_def)
  have irr: "\<not> frag_key_lt k k" for k by (rule frag_key.lt_irrefl)
  have ok: "cIpFrag_ok demo_table" "0 < fdata_threads_split demo_table" using lt by (simp_all add: cIpFrag_ok_def demo_table_def Let_def)
  note e = cleanup_exact [OF ok r, of "(vmIP_v4 1, 7)"] cleanup_exact [OF ok r, of "(vmIP_v4 2, 7)"]
  have f: "frags_of c' 0 (vmIP_v4 1, 7) = None" "frags_of c' 0 (vmIP_v4 2, 7) = frags_of demo_table 0 (vmIP_v4 2, 7)" "frags_of demo_table 0 (vmIP_v4 2, 7) \<noteq> None"
    using e lt irr by (simp_all add: frags_of_def demo_table_def Let_def)
  have "length freed = 1" using r by (auto simp: ipfrag_cleanup_def demo_table_def Let_def queue_expired_def)
  then show ?thesis using r f by simp
qed

end
