(* ===== verification/VM_IpText.thy ===== *)
theory VM_IpText
  imports VM_IpKeys
begin

text \<open>
  Addresses and networks as text (\<open>ip.h\<close>, \<open>ip.cpp\<close>). The conversions of the system library are
  parameters: \<open>pton4\<close>, \<open>pton6\<close> for \<open>inet_pton\<close> and \<open>ntop4\<close>, \<open>ntop6\<close> for \<open>inet_ntop\<close>, on addresses
  in network byte order. The local array \<open>ip_str_tmp\<close> has 100 characters, and the terminating NUL is
  written at index \<open>min(length, 100)\<close>: a text of 100 characters or more writes behind the array.
\<close>

type_synonym pton4 = "cstr \<Rightarrow> u32 option"
type_synonym pton6 = "cstr \<Rightarrow> in6_addr option"
type_synonym ntop4 = "u32 \<Rightarrow> cstr"
type_synonym ntop6 = "in6_addr \<Rightarrow> cstr"

section \<open>vmIP\<close>

definition tmp_copy :: "nat \<Rightarrow> cstr \<Rightarrow> cstr outcome" where
  "tmp_copy n s = (if min n 100 < 100 then Ret (take n s) else OutOfBounds)"

definition vmIP_set_pton6 :: "in6_addr \<Rightarrow> vmIP \<Rightarrow> vmIP" where
  "vmIP_set_pton6 a this =
     (case a of (a0, a1, a2, a3) \<Rightarrow>
        this\<lparr>addr0 := ntohl a0, addr1 := ntohl a1, addr2 := ntohl a2, addr3 := ntohl a3\<rparr>)"

definition vmIP_setFromString :: "pton4 \<Rightarrow> pton6 \<Rightarrow> cstr \<Rightarrow> vmIP \<Rightarrow> (bool \<times> vmIP) outcome" where
  "vmIP_setFromString pton4 pton6 s this =
     (if strchr s CHR '':'' \<noteq> None then
        (let this = this\<lparr>v6 := 1\<rparr>; failed = Ret (False, vmIP_clear 0 this) in
         if cstr_at s 0 = CHR ''['' then
           (let n = length s in
            if cstr_at s (n - 1) = CHR '']'' then
              obind (tmp_copy (n - 2) (tl s)) (\<lambda>tmp.
                case pton6 tmp of Some a \<Rightarrow> Ret (True, vmIP_set_pton6 a this) | None \<Rightarrow> failed)
            else failed)
         else (case pton6 s of Some a \<Rightarrow> Ret (True, vmIP_set_pton6 a this) | None \<Rightarrow> failed))
      else
        (let this = this\<lparr>v6 := 0\<rparr> in
         case pton4 s of Some n \<Rightarrow> Ret (True, this\<lparr>addr3 := ntohl n\<rparr>)
         | None \<Rightarrow> Ret (False, vmIP_clear 0 this)))"

text \<open>The variant with \<open>end_ptr\<close>: leading blanks are skipped, the longest run of address characters
  is converted, and the position behind it is returned (\<open>None\<close> for a null \<open>*end_ptr\<close>).\<close>

definition is_ip6_char :: "char \<Rightarrow> bool" where
  "is_ip6_char c = (c_isxdigit c \<or> c = CHR '':'')"

definition is_ip4_char :: "char \<Rightarrow> bool" where
  "is_ip4_char c = (c_isdigit c \<or> c = CHR ''.'')"

definition vmIP_setFromString_end :: "pton4 \<Rightarrow> pton6 \<Rightarrow> cstr \<Rightarrow> vmIP \<Rightarrow> (bool \<times> vmIP \<times> nat option) outcome" where
  "vmIP_setFromString_end pton4 pton6 s this =
     (let off = length (takeWhile (\<lambda>c. c = CHR '' '' \<or> c = CHR 0x09) s); p = drop off s in
      if (case strchr p CHR '':'' of None \<Rightarrow> False
          | Some i \<Rightarrow> i \<le> (if cstr_at p 0 = CHR ''['' then 5 else 4)) then
        (let this = this\<lparr>v6 := 1\<rparr>;
             br = cstr_at p 0 = CHR ''['';
             p = (if br then tl p else p); off = (if br then off + 1 else off);
             n = length (takeWhile is_ip6_char p);
             failed = Ret (False, vmIP_clear 0 this, None) in
         if n > 0 then
           obind (tmp_copy n p) (\<lambda>tmp.
             case pton6 tmp of
               Some a \<Rightarrow> Ret (True, vmIP_set_pton6 a this, Some (off + n + (if cstr_at p n = CHR '']'' then 1 else 0)))
             | None \<Rightarrow> failed)
         else failed)
      else
        (let this = this\<lparr>v6 := 0\<rparr>;
             n = length (takeWhile is_ip4_char p);
             failed = Ret (False, vmIP_clear 0 this, None) in
         if n > 0 then
           obind (tmp_copy n p) (\<lambda>tmp.
             case pton4 tmp of
               Some a \<Rightarrow> Ret (True, this\<lparr>addr3 := ntohl a\<rparr>, Some (off + n))
             | None \<Rightarrow> failed)
         else failed))"

definition vmIP_getString :: "ntop4 \<Rightarrow> ntop6 \<Rightarrow> bool \<Rightarrow> vmIP \<Rightarrow> string" where
  "vmIP_getString ntop4 ntop6 ipv6_in_brackets ip =
     (if v6 ip \<noteq> 0 then
        (let s = ntop6 (ntohl (addr0 ip), ntohl (addr1 ip), ntohl (addr2 ip), ntohl (addr3 ip)) in
         if ipv6_in_brackets then ''['' @ s @ '']'' else s)
      else ntop4 (ntohl (addr3 ip)))"

definition str_2_vmIP :: "pton4 \<Rightarrow> pton6 \<Rightarrow> cstr \<Rightarrow> vmIP outcome" where
  "str_2_vmIP pton4 pton6 s = omap snd (vmIP_setFromString pton4 pton6 s (vmIP_v4 0))"

definition ipv4_2_vmIP :: "u32 \<Rightarrow> bool \<Rightarrow> vmIP" where
  "ipv4_2_vmIP ip ntoh = vmIP_setIPv4 ip ntoh (vmIP_v4 0)"

definition ip_is_v4 :: "pton4 \<Rightarrow> cstr \<Rightarrow> bool" where
  "ip_is_v4 pton4 s = (pton4 s \<noteq> None)"

definition ip_is_v6 :: "pton6 \<Rightarrow> cstr \<Rightarrow> bool" where
  "ip_is_v6 pton6 s = (pton6 s \<noteq> None)"

definition ip_is_valid :: "pton4 \<Rightarrow> pton6 \<Rightarrow> cstr \<Rightarrow> nat" where
  "ip_is_valid pton4 pton6 s = (if ip_is_v4 pton4 s then 4 else if ip_is_v6 pton6 s then 6 else 0)"

definition string_is_look_like_ipv4 :: "cstr \<Rightarrow> bool" where
  "string_is_look_like_ipv4 s =
     (c_isdigit (cstr_at s 0) \<and> (cstr_at s 1 = CHR ''.'' \<or>
      (c_isdigit (cstr_at s 1) \<and> (cstr_at s 2 = CHR ''.'' \<or>
      (c_isdigit (cstr_at s 2) \<and> cstr_at s 3 = CHR ''.'')))))"

fun string_is_look_like_ipv6 :: "cstr \<Rightarrow> bool" where
  "string_is_look_like_ipv6 s =
     (case s of
        c # t \<Rightarrow>
          if c = CHR ''['' then string_is_look_like_ipv6 t
          else
            (c_isxdigit (cstr_at s 0) \<and> (cstr_at s 1 = CHR '':'' \<or>
             (c_isxdigit (cstr_at s 1) \<and> (cstr_at s 2 = CHR '':'' \<or>
             (c_isxdigit (cstr_at s 2) \<and> (cstr_at s 3 = CHR '':'' \<or>
             (c_isxdigit (cstr_at s 3) \<and> cstr_at s 4 = CHR '':''))))))) \<or>
            (cstr_at s 0 = CHR '':'' \<and> (c_isxdigit (cstr_at s 1) \<or>
             (cstr_at s 1 = CHR '':'' \<and> c_isxdigit (cstr_at s 2))))
      | [] \<Rightarrow> False)"

declare string_is_look_like_ipv6.simps [simp del]

definition string_is_look_like_ip :: "cstr \<Rightarrow> nat" where
  "string_is_look_like_ip s =
     (if string_is_look_like_ipv4 s then 4 else if string_is_look_like_ipv6 s then 6 else 0)"

section \<open>Endpoints and networks\<close>

definition vmIPport_getString :: "ntop4 \<Rightarrow> ntop6 \<Rightarrow> bool \<Rightarrow> vmIPport \<Rightarrow> string" where
  "vmIPport_getString ntop4 ntop6 br e = vmIP_getString ntop4 ntop6 br (ep_ip e) @ '':'' @ vmPort_getString (ep_port e)"

definition vmIPmask_getString :: "ntop4 \<Rightarrow> ntop6 \<Rightarrow> bool \<Rightarrow> vmIPmask \<Rightarrow> string" where
  "vmIPmask_getString ntop4 ntop6 br m =
     vmIP_getString ntop4 ntop6 br (nm_ip m) @
     (if nm_mask m > 0 \<and> unat (nm_mask m) < vmIP_bits (nm_ip m) then ''/'' @ nat_dec (unat (nm_mask m)) else [])"

definition vmIPmask_port_getString :: "ntop4 \<Rightarrow> ntop6 \<Rightarrow> bool \<Rightarrow> vmIPmask_port \<Rightarrow> string" where
  "vmIPmask_port_getString ntop4 ntop6 br mp =
     vmIPmask_getString ntop4 ntop6 br (mp_ip_mask mp) @ '':'' @ vmPort_getString (mp_port mp)"

definition vmIPmask_clear :: "vmIPmask \<Rightarrow> vmIPmask" where
  "vmIPmask_clear m = m\<lparr>nm_ip := vmIP_clear 0 (nm_ip m), nm_mask := 0\<rparr>"

text \<open>With \<open>want_end\<close> (a non-null \<open>end_ptr\<close>) the separator is searched behind the address, without it
  in the whole text.\<close>

definition vmIPmask_setFromString ::
  "pton4 \<Rightarrow> pton6 \<Rightarrow> bool \<Rightarrow> cstr \<Rightarrow> vmIPmask \<Rightarrow> (bool \<times> vmIPmask \<times> nat option) outcome" where
  "vmIPmask_setFromString pton4 pton6 want_end s this =
     (let this = vmIPmask_clear this in
      obind (vmIP_setFromString_end pton4 pton6 s (nm_ip this)) (\<lambda>(ok, ip, endp).
        let this = this\<lparr>nm_ip := ip\<rparr> in
        if ok then
          (let base = (if want_end then the endp else 0) in
           case strchr (drop base s) CHR ''/'' of
             Some i \<Rightarrow>
               (let sep = base + i + 1;
                    sep = sep + length (takeWhile (\<lambda>c. c = CHR '' '') (drop sep s));
                    m = c_atoi (drop sep s);
                    mk = (if 0 \<le> m \<and> m \<le> int (vmIP_bits ip) then word_of_int m else word_of_nat (vmIP_bits ip)) in
                Ret (True, this\<lparr>nm_mask := mk\<rparr>,
                     if want_end then Some (sep + length (takeWhile c_isdigit (drop sep s))) else endp))
           | None \<Rightarrow> Ret (True, this\<lparr>nm_mask := word_of_nat (vmIP_bits ip)\<rparr>, endp))
        else Ret (False, this, endp)))"

section \<open>Lemmas\<close>

lemma set_pton6_eq: "vmIP_set_pton6 (ntohl a, ntohl b, ntohl c, ntohl d) this =
    this\<lparr>addr0 := a, addr1 := b, addr2 := c, addr3 := d\<rparr>"
  by (simp add: vmIP_set_pton6_def)

lemma strchr_mem: "c \<in> set s \<Longrightarrow> \<exists>i. strchr s c = Some i"
  using strchr_None_iff [of s c] by auto

lemma cstr_at_0: "s \<noteq> [] \<Longrightarrow> cstr_at s 0 = hd s"
  by (cases s) (auto simp: cstr_at_def)

lemma takeWhile_append_stop: "\<forall>c \<in> set s. P c \<Longrightarrow> t = [] \<or> \<not> P (hd t) \<Longrightarrow> takeWhile P (s @ t) = s"
  by (cases t) (auto simp: takeWhile_append)

lemma vmIP_eq_refl: "vmIP_eq a a"
  by (simp add: vmIP_eq_def)

section \<open>Properties\<close>

text \<open>C31: an address printed by \<open>getString\<close> (with or without brackets) is read back by
  \<open>setFromString\<close>, for every \<open>inet_ntop\<close> and \<open>inet_pton\<close> that invert each other on this address.\<close>

theorem vmIP_string_roundtrip:
  assumes "v6 ip = 0 \<or> v6 ip = 1"
    and "v6 ip = 0 \<Longrightarrow> pton4 (ntop4 (ntohl (addr3 ip))) = Some (ntohl (addr3 ip)) \<and>
           CHR '':'' \<notin> set (ntop4 (ntohl (addr3 ip)))"
    and "v6 ip = 1 \<Longrightarrow> (let w = (ntohl (addr0 ip), ntohl (addr1 ip), ntohl (addr2 ip), ntohl (addr3 ip)) in
           pton6 (ntop6 w) = Some w \<and> CHR '':'' \<in> set (ntop6 w) \<and> hd (ntop6 w) \<noteq> CHR ''['' \<and>
           length (ntop6 w) < 100)"
  shows "\<exists>ip'. vmIP_setFromString pton4 pton6 (vmIP_getString ntop4 ntop6 br ip) this = Ret (True, ip') \<and>
           vmIP_eq ip' ip"
proof (cases "v6 ip = 0")
  case True
  with assms(2) show ?thesis
    by (simp add: vmIP_getString_def vmIP_setFromString_def strchr_None_iff vmIP_eq_def)
next
  case False
  then have one: "v6 ip = 1" using assms(1) by simp
  define w where "w = (ntohl (addr0 ip), ntohl (addr1 ip), ntohl (addr2 ip), ntohl (addr3 ip))"
  define s where "s = ntop6 w"
  have p: "pton6 s = Some w" and c: "CHR '':'' \<in> set s" and b: "hd s \<noteq> CHR ''[''" and n: "length s < 100"
    using assms(3) [OF one] by (auto simp: Let_def w_def s_def)
  have ne: "s \<noteq> []" using c by auto
  have eq: "vmIP_eq (vmIP_set_pton6 w (this\<lparr>v6 := 1\<rparr>)) ip"
    by (simp add: w_def set_pton6_eq vmIP_eq_def one vmIP_bytes_v6_def vmIP_words_def)
  have str: "vmIP_getString ntop4 ntop6 br ip = (if br then ''['' @ s @ '']'' else s)"
    using one by (simp add: vmIP_getString_def w_def s_def Let_def)
  obtain i where i: "strchr s CHR '':'' = Some i" using c strchr_mem by blast
  have at: "cstr_at (''['' @ s @ '']'') (length (''['' @ s @ '']'') - 1) = CHR '']''"
    by (simp add: cstr_at_def nth_append)
  have "strchr (''['' @ s @ '']'') CHR '':'' \<noteq> None" using c by (simp add: strchr_None_iff)
  then show ?thesis
    using p i b n ne eq at
    by (auto simp: str vmIP_setFromString_def Let_def tmp_copy_def cstr_at_0)
qed

theorem vmIP_string_roundtrip_witness:
  "\<exists>ip'. vmIP_setFromString (\<lambda>s. None) (\<lambda>s. if s = ''::1'' then Some (0, 0, 0, ntohl 1) else None)
      (vmIP_getString (\<lambda>_. ''0.0.0.0'') (\<lambda>_. ''::1'') True (vmIP_v6 (0, 0, 0, 1))) (vmIP_v4 7) = Ret (True, ip') \<and>
    vmIP_eq ip' (vmIP_v6 (0, 0, 0, 1))"
proof (rule vmIP_string_roundtrip)
  have z: "ntohl 0 = 0" by (simp add: ntohl_def word_le_def le_word_def)
  show "v6 (vmIP_v6 (0, 0, 0, 1)) = 0 \<or> v6 (vmIP_v6 (0, 0, 0, 1)) = 1" by (simp add: vmIP_v6_def)
  show "v6 (vmIP_v6 (0, 0, 0, 1)) = 0 \<Longrightarrow>
    (None :: u32 option) = Some (ntohl (addr3 (vmIP_v6 (0, 0, 0, 1)))) \<and> CHR '':'' \<notin> set ''0.0.0.0''"
    by (simp add: vmIP_v6_def)
  show "let w = (ntohl (addr0 (vmIP_v6 (0, 0, 0, 1))), ntohl (addr1 (vmIP_v6 (0, 0, 0, 1))),
                 ntohl (addr2 (vmIP_v6 (0, 0, 0, 1))), ntohl (addr3 (vmIP_v6 (0, 0, 0, 1)))) in
        (if ''::1'' = ''::1'' then Some (0, 0, 0, ntohl 1) else None) = Some w \<and>
        CHR '':'' \<in> set ''::1'' \<and> hd ''::1'' \<noteq> CHR ''['' \<and> length ''::1'' < 100"
    by (simp add: vmIP_v6_def z)
qed

text \<open>a text of at least 100 address characters makes \<open>setFromString\<close> with \<open>end_ptr\<close> write behind
  its local array, whatever \<open>inet_pton\<close> would say; every shorter run stays inside it.\<close>

theorem setFromString_end_bounds:
  assumes "\<forall>c \<in> set s. is_ip4_char c" and "s \<noteq> []"
  shows "vmIP_setFromString_end pton4 pton6 s this = OutOfBounds \<longleftrightarrow> 100 \<le> length s"
proof -
  obtain c t where s: "s = c # t" using assms(2) by (cases s) auto
  have "c \<noteq> CHR '' ''" "c \<noteq> CHR 0x09" and colon: "strchr s CHR '':'' = None"
    using assms(1) by (auto simp: s is_ip4_char_def c_isdigit_def strchr_None_iff)
  then have off: "takeWhile (\<lambda>c. c = CHR '' '' \<or> c = CHR 0x09) s = []" by (simp add: s)
  have all: "takeWhile is_ip4_char s = s" using assms(1) by simp
  have "length s > 0" using assms(2) by simp
  then show ?thesis
    by (auto simp: vmIP_setFromString_end_def Let_def off colon all tmp_copy_def split: option.splits)
qed

theorem setFromString_end_bounds_witness:
  "vmIP_setFromString_end (\<lambda>_. None) (\<lambda>_. None) (replicate 100 CHR ''1'') (vmIP_v4 0) = OutOfBounds"
proof -
  have "\<forall>c \<in> set (replicate 100 CHR ''1''). is_ip4_char c"
    by (simp add: is_ip4_char_def c_isdigit_def)
  from setFromString_end_bounds [OF this] show ?thesis by simp
qed

text \<open>an IPv4 network of 1 to 32 prefix bits printed by \<open>getString\<close> is read back by
  \<open>setFromString\<close>, for every \<open>inet_ntop\<close> that prints digits and dots and that \<open>inet_pton\<close> inverts on
  this address.\<close>

theorem vmIPmask_string_roundtrip:
  assumes "v6 (nm_ip m) = 0" and "nm_mask m = word_of_nat k" and "1 \<le> k" and "k \<le> 32"
    and "pton4 (ntop4 (ntohl (addr3 (nm_ip m)))) = Some (ntohl (addr3 (nm_ip m)))"
    and "\<forall>c \<in> set (ntop4 (ntohl (addr3 (nm_ip m)))). is_ip4_char c"
    and "ntop4 (ntohl (addr3 (nm_ip m))) \<noteq> []" and "length (ntop4 (ntohl (addr3 (nm_ip m)))) < 100"
  shows "\<exists>m' e. vmIPmask_setFromString pton4 pton6 want_end (vmIPmask_getString ntop4 ntop6 br m) this = Ret (True, m', e) \<and>
           vmIPmask_eq m' m"
proof -
  define s where "s = ntop4 (ntohl (addr3 (nm_ip m)))"
  define tail where "tail = (if k < 32 then ''/'' @ nat_dec k else [])"
  have k: "unat (nm_mask m) = k" using assms by (simp add: unsigned_of_nat take_bit_nat_eq_self)
  have pos: "0 < nm_mask m" using k assms(3) by (simp add: word_less_nat_alt)
  have str: "vmIPmask_getString ntop4 ntop6 br m = s @ tail"
    using assms(1,4) k pos by (auto simp: vmIPmask_getString_def vmIP_getString_def vmIP_bits_def s_def tail_def)
  have chars: "\<forall>c \<in> set s. is_ip4_char c" and ne: "s \<noteq> []" and len: "length s < 100"
    and p: "pton4 s = Some (ntohl (addr3 (nm_ip m)))"
    using assms by (simp_all add: s_def)
  have dig: "\<forall>c \<in> set (nat_dec k). c_isdigit c" by (rule nat_dec_digits)
  have stop: "tail = [] \<or> \<not> is_ip4_char (hd tail)" by (simp add: tail_def is_ip4_char_def c_isdigit_def)
  have run: "takeWhile is_ip4_char (s @ tail) = s" by (rule takeWhile_append_stop [OF chars stop])
  have blank: "takeWhile (\<lambda>c. c = CHR '' '' \<or> c = CHR 0x09) (s @ tail) = []"
    using chars ne by (cases s) (auto simp: is_ip4_char_def c_isdigit_def)
  have colon: "strchr (s @ tail) CHR '':'' = None"
    using chars dig by (auto simp: strchr_None_iff tail_def is_ip4_char_def c_isdigit_def)
  let ?z = "vmIP_clear 0 (nm_ip this)"
  have addr: "vmIP_setFromString_end pton4 pton6 (s @ tail) ?z =
      Ret (True, ?z\<lparr>v6 := 0, addr3 := addr3 (nm_ip m)\<rparr>, Some (length s))"
    using ne len p by (simp add: vmIP_setFromString_end_def Let_def blank colon run tmp_copy_def)
  have noslash: "CHR ''/'' \<notin> set s" using chars by (auto simp: is_ip4_char_def c_isdigit_def)
  have sep: "strchr (drop (if want_end then length s else 0) (s @ tail)) CHR ''/'' =
      (if k < 32 then Some (if want_end then 0 else length s) else None)"
    using noslash by (auto simp: tail_def strchr_Some_iff strchr_None_iff nth_append)
  have atoi: "c_atoi (nat_dec k) = int k" using assms(4) by (intro c_atoi_nat_dec) simp
  have blank2: "takeWhile (\<lambda>c. c = CHR '' '') (nat_dec k) = []"
    using dig nat_dec_nonempty [of k] by (cases "nat_dec k") (auto simp: c_isdigit_def)
  have d: "k < 32 \<Longrightarrow> drop (Suc (length s)) (s @ tail) = nat_dec k" by (simp add: tail_def)
  let ?ip = "?z\<lparr>v6 := 0, addr3 := addr3 (nm_ip m)\<rparr>"
  have nm: "nm_ip (vmIPmask_clear this) = ?z" by (simp add: vmIPmask_clear_def)
  have "\<exists>e. vmIPmask_setFromString pton4 pton6 want_end (s @ tail) this =
      Ret (True, (vmIPmask_clear this)\<lparr>nm_ip := ?ip, nm_mask := word_of_nat k\<rparr>, e)"
  proof (cases "k < 32")
    case True
    then show ?thesis
      using sep d by (cases want_end) (simp_all add: vmIPmask_setFromString_def Let_def nm addr blank2 atoi vmIP_bits_def)
  next
    case False
    then show ?thesis
      using sep assms(4) by (cases want_end) (simp_all add: vmIPmask_setFromString_def Let_def nm addr vmIP_bits_def)
  qed
  moreover have "vmIPmask_eq ((vmIPmask_clear this)\<lparr>nm_ip := ?ip, nm_mask := word_of_nat k\<rparr>) m"
    using assms(1,2) by (simp add: vmIPmask_eq_def vmIP_eq_def)
  ultimately show ?thesis unfolding str by blast
qed

theorem vmIPmask_string_roundtrip_witness:
  "\<exists>m' e. vmIPmask_setFromString (\<lambda>s. if s = ''10.0.0.0'' then Some (ntohl 0x0A000000) else None) (\<lambda>_. None) True
      (vmIPmask_getString (\<lambda>_. ''10.0.0.0'') (\<lambda>_. ''::'') False \<lparr>nm_ip = vmIP_v4 0x0A000000, nm_mask = 8\<rparr>)
      \<lparr>nm_ip = vmIP_v4 0, nm_mask = 0\<rparr> = Ret (True, m', e) \<and>
    vmIPmask_eq m' \<lparr>nm_ip = vmIP_v4 0x0A000000, nm_mask = 8\<rparr>"
  by (rule vmIPmask_string_roundtrip [where k = 8])
     (simp_all add: vmIP_v4_def is_ip4_char_def c_isdigit_def)

end
