(* ===== verification/VM_Rqueue.thy ===== *)
theory VM_Rqueue
  imports VM_Prelude
begin

text \<open>
  The lock-free ring buffer between the capture threads (\<open>rqueue_quick\<close> of \<open>rqueue.h\<close>): \<open>length\<close>
  slots, a flag per slot (1 when free, 0 when it holds an item), a write and a read index of 32 bits.
  The operations are modelled twice over the same elementary steps: as the functions of the class, one
  thread at a time, refining a bounded FIFO queue; and as a step relation in which one producer and one
  consumer interleave at every memory access (the \<open>#else\<close> branch of \<open>RQUEUE_SAFE\<close>, sequentially
  consistent memory). The optional lock of \<open>push\<close> and \<open>pop\<close> is not part of the model.
\<close>

section \<open>State and elementary steps\<close>

record 'a rqueue =
  rq_length :: nat
  rq_buffer :: "'a list"
  rq_free :: "int list"
  rq_readit :: nat
  rq_writeit :: nat

text \<open>The buffer and the last flag are whatever the allocator returns.\<close>

definition rq_create :: "nat \<Rightarrow> 'a list \<Rightarrow> int \<Rightarrow> 'a rqueue" where
  "rq_create n junk last_flag =
     \<lparr>rq_length = n, rq_buffer = junk, rq_free = replicate n 1 @ [last_flag], rq_readit = 0, rq_writeit = 0\<rparr>"

definition rq_next :: "nat \<Rightarrow> nat \<Rightarrow> nat" where
  "rq_next n i = (if (i + 1) mod 2 ^ 32 = n then 0 else (i + 1) mod 2 ^ 32)"

definition rq_store :: "'a \<Rightarrow> 'a rqueue \<Rightarrow> 'a rqueue" where
  "rq_store x q = q\<lparr>rq_buffer := (rq_buffer q)[rq_writeit q := x]\<rparr>"

definition rq_mark_used :: "'a rqueue \<Rightarrow> 'a rqueue" where
  "rq_mark_used q = q\<lparr>rq_free := (rq_free q)[rq_writeit q := 0]\<rparr>"

definition rq_advance_write :: "'a rqueue \<Rightarrow> 'a rqueue" where
  "rq_advance_write q = q\<lparr>rq_writeit := rq_next (rq_length q) (rq_writeit q)\<rparr>"

definition rq_mark_free :: "'a rqueue \<Rightarrow> 'a rqueue" where
  "rq_mark_free q = q\<lparr>rq_free := (rq_free q)[rq_readit q := 1]\<rparr>"

definition rq_advance_read :: "'a rqueue \<Rightarrow> 'a rqueue" where
  "rq_advance_read q = q\<lparr>rq_readit := rq_next (rq_length q) (rq_readit q)\<rparr>"

section \<open>The operations\<close>

text \<open>A sleep is an element of the list: the value of the termination flag found before it and what
  the other threads do to the queue during it. A list that is too short is \<open>OutOfFuel\<close>.\<close>

type_synonym 'a sleeps = "(bool \<times> ('a rqueue \<Rightarrow> 'a rqueue)) list"

fun rq_push :: "'a sleeps \<Rightarrow> 'a \<Rightarrow> bool \<Rightarrow> 'a rqueue \<Rightarrow> (bool \<times> 'a rqueue) outcome" where
  "rq_push sl x waitForFree q =
     (if rq_free q ! rq_writeit q \<noteq> 1 then
        (if waitForFree then
           (case sl of
              [] \<Rightarrow> OutOfFuel
            | (term, env) # sl' \<Rightarrow> if term then Ret (False, q) else rq_push sl' x waitForFree (env q))
         else Ret (False, q))
      else Ret (True, rq_advance_write (rq_mark_used (rq_store x q))))"

fun rq_pop :: "'a sleeps \<Rightarrow> bool \<Rightarrow> 'a rqueue \<Rightarrow> ('a option \<times> 'a rqueue) outcome" where
  "rq_pop sl waitForFree q =
     (if rq_free q ! rq_readit q \<noteq> 0 then
        (if waitForFree then
           (case sl of
              [] \<Rightarrow> OutOfFuel
            | (term, env) # sl' \<Rightarrow> if term then Ret (None, q) else rq_pop sl' waitForFree (env q))
         else Ret (None, q))
      else Ret (Some (rq_buffer q ! rq_readit q), rq_advance_read (rq_mark_free q)))"

definition rq_popq :: "'a rqueue \<Rightarrow> 'a option \<times> 'a rqueue" where
  "rq_popq q =
     (if rq_free q ! rq_readit q \<noteq> 0 then (None, q)
      else (Some (rq_buffer q ! rq_readit q), rq_advance_read (rq_mark_free q)))"

definition rq_get :: "'a rqueue \<Rightarrow> 'a option" where
  "rq_get q = (if rq_free q ! rq_readit q \<noteq> 0 then None else Some (rq_buffer q ! rq_readit q))"

definition rq_moveReadit :: "'a rqueue \<Rightarrow> 'a rqueue" where
  "rq_moveReadit q = rq_advance_read (rq_mark_free q)"

definition rq_size :: "'a rqueue \<Rightarrow> nat" where
  "rq_size q =
     (if rq_writeit q > rq_readit q then rq_writeit q - rq_readit q
      else if rq_writeit q < rq_readit q then rq_writeit q + rq_length q - rq_readit q
      else if rq_free q ! rq_writeit q \<noteq> 0 then 0 else rq_length q)"

declare rq_push.simps [simp del] rq_pop.simps [simp del]

section \<open>Positions in the ring\<close>

text \<open>The invariants count the items ever written and read; item \<open>k\<close> lives in slot \<open>k mod n\<close>. The flags
  of the ring say exactly which of the items \<open>r..<w\<close> are in it.\<close>

definition ring_flags :: "nat \<Rightarrow> nat \<Rightarrow> nat \<Rightarrow> int list \<Rightarrow> bool" where
  "ring_flags n r w fl =
     (length fl = Suc n \<and> r \<le> w \<and> w \<le> r + n \<and>
      (\<forall>i < n. fl ! i = (if \<exists>k. r \<le> k \<and> k < w \<and> k mod n = i then 0 else 1)))"

lemma rq_next_mod: "i < n \<Longrightarrow> n < 2 ^ 32 \<Longrightarrow> rq_next n i = (i + 1) mod n"
  by (auto simp: rq_next_def mod_Suc)

lemma rq_next_counter: "0 < n \<Longrightarrow> n < 2 ^ 32 \<Longrightarrow> rq_next n (k mod n) = Suc k mod n"
  by (simp add: rq_next_mod mod_Suc_eq)

lemma mod_window_inj:
  assumes "k mod n = l mod n" and "r \<le> k" "k < r + n" "r \<le> l" "l < r + (n :: nat)"
  shows "k = l"
proof -
  have "n dvd k - l" if "l \<le> k" using that assms(1) mod_eq_dvd_iff_nat [of l k n] by auto
  moreover have "n dvd l - k" if "k \<le> l" using that assms(1) mod_eq_dvd_iff_nat [of k l n] by auto
  moreover have "k - l < n" "l - k < n" using assms by auto
  ultimately show ?thesis by (cases "l \<le> k") (auto dest: nat_dvd_not_less)
qed

lemma ring_flags_write:
  assumes "ring_flags n r w fl" and "0 < n"
  shows "fl ! (w mod n) = (if w < r + n then 1 else 0)"
proof -
  have "(\<exists>k. r \<le> k \<and> k < w \<and> k mod n = w mod n) \<longleftrightarrow> \<not> w < r + n"
  proof
    assume "\<exists>k. r \<le> k \<and> k < w \<and> k mod n = w mod n"
    then obtain k where k: "r \<le> k" "k < w" "k mod n = w mod n" by blast
    show "\<not> w < r + n" using mod_window_inj [OF k(3), of r] k assms(1) by (auto simp: ring_flags_def)
  next
    assume "\<not> w < r + n"
    then have "r \<le> w - n" "w - n < w" "(w - n) mod n = w mod n"
      using assms by (auto simp: ring_flags_def mod_if [of w])
    then show "\<exists>k. r \<le> k \<and> k < w \<and> k mod n = w mod n" by blast
  qed
  with assms show ?thesis by (auto simp: ring_flags_def)
qed

lemma ring_flags_read:
  assumes "ring_flags n r w fl" and "0 < n"
  shows "fl ! (r mod n) = (if r < w then 0 else 1)"
  using assms by (auto simp: ring_flags_def)

lemma ring_flags_add:
  assumes "ring_flags n r w fl" and "0 < n" and "w < r + n"
  shows "ring_flags n r (Suc w) (fl[w mod n := 0])"
  using assms unfolding ring_flags_def
  by (auto simp: nth_list_update less_Suc_eq)

lemma ring_flags_remove:
  assumes "ring_flags n r w fl" and "0 < n" and "r < w"
  shows "ring_flags n (Suc r) w (fl[r mod n := 1])"
proof -
  have "fl[r mod n := 1] ! i = (if \<exists>k. Suc r \<le> k \<and> k < w \<and> k mod n = i then 0 else 1)" if i: "i < n" for i
  proof (cases "i = r mod n")
    case True
    have "\<not> (\<exists>k. Suc r \<le> k \<and> k < w \<and> k mod n = i)"
    proof
      assume "\<exists>k. Suc r \<le> k \<and> k < w \<and> k mod n = i"
      then obtain k where "Suc r \<le> k" "k < w" "k mod n = r mod n" using True by blast
      then show False using mod_window_inj [of k n r r] assms by (auto simp: ring_flags_def)
    qed
    moreover have "fl[r mod n := 1] ! i = 1"
      using True i assms(1) by (simp add: ring_flags_def)
    ultimately show ?thesis by (simp only: if_False)
  next
    case False
    have "(\<exists>k. Suc r \<le> k \<and> k < w \<and> k mod n = i) \<longleftrightarrow> (\<exists>k. r \<le> k \<and> k < w \<and> k mod n = i)"
      using False by (metis Suc_leD le_antisym not_less_eq_eq)
    then show ?thesis using False assms i by (simp add: ring_flags_def)
  qed
  then show ?thesis using assms by (simp add: ring_flags_def)
qed


section \<open>One producer and one consumer\<close>

datatype 'a producer = PIdle | PStore 'a | PMark | PAdvance
datatype consumer = CIdle | CLoad | CMark | CAdvance

text \<open>\<open>sp_pushed\<close> and \<open>sp_popped\<close> record the items as they are written to and read from the buffer.\<close>

record 'a spsc =
  sp_q :: "'a rqueue"
  sp_p :: "'a producer"
  sp_c :: consumer
  sp_pushed :: "'a list"
  sp_popped :: "'a list"

inductive spsc_step :: "'a spsc \<Rightarrow> 'a spsc \<Rightarrow> bool" where
  push_test: "sp_p s = PIdle \<Longrightarrow> rq_free (sp_q s) ! rq_writeit (sp_q s) = 1 \<Longrightarrow> spsc_step s (s\<lparr>sp_p := PStore x\<rparr>)"
| push_store: "sp_p s = PStore x \<Longrightarrow>
    spsc_step s (s\<lparr>sp_q := rq_store x (sp_q s), sp_p := PMark, sp_pushed := sp_pushed s @ [x]\<rparr>)"
| push_mark: "sp_p s = PMark \<Longrightarrow> spsc_step s (s\<lparr>sp_q := rq_mark_used (sp_q s), sp_p := PAdvance\<rparr>)"
| push_advance: "sp_p s = PAdvance \<Longrightarrow> spsc_step s (s\<lparr>sp_q := rq_advance_write (sp_q s), sp_p := PIdle\<rparr>)"
| pop_test: "sp_c s = CIdle \<Longrightarrow> rq_free (sp_q s) ! rq_readit (sp_q s) = 0 \<Longrightarrow> spsc_step s (s\<lparr>sp_c := CLoad\<rparr>)"
| pop_load: "sp_c s = CLoad \<Longrightarrow>
    spsc_step s (s\<lparr>sp_c := CMark, sp_popped := sp_popped s @ [rq_buffer (sp_q s) ! rq_readit (sp_q s)]\<rparr>)"
| pop_mark: "sp_c s = CMark \<Longrightarrow> spsc_step s (s\<lparr>sp_q := rq_mark_free (sp_q s), sp_c := CAdvance\<rparr>)"
| pop_advance: "sp_c s = CAdvance \<Longrightarrow> spsc_step s (s\<lparr>sp_q := rq_advance_read (sp_q s), sp_c := CIdle\<rparr>)"

definition spsc_init :: "nat \<Rightarrow> 'a list \<Rightarrow> int \<Rightarrow> 'a spsc" where
  "spsc_init n junk last_flag =
     \<lparr>sp_q = rq_create n junk last_flag, sp_p = PIdle, sp_c = CIdle, sp_pushed = [], sp_popped = []\<rparr>"

inductive spsc_reach :: "nat \<Rightarrow> 'a list \<Rightarrow> int \<Rightarrow> 'a spsc \<Rightarrow> bool" for n junk last_flag where
  init: "spsc_reach n junk last_flag (spsc_init n junk last_flag)"
| step: "spsc_reach n junk last_flag s \<Longrightarrow> spsc_step s s' \<Longrightarrow> spsc_reach n junk last_flag s'"

text \<open>\<open>wi\<close> and \<open>ri\<close> count the completed advances of the two indices.\<close>

definition spsc_inv :: "nat \<Rightarrow> nat \<Rightarrow> nat \<Rightarrow> 'a spsc \<Rightarrow> bool" where
  "spsc_inv n wi ri s =
     (let q = sp_q s;
          w = (if sp_p s = PAdvance then Suc wi else wi);
          r = (if sp_c s = CAdvance then Suc ri else ri) in
      rq_length q = n \<and> length (rq_buffer q) = Suc n \<and> rq_writeit q = wi mod n \<and> rq_readit q = ri mod n \<and>
      ring_flags n r w (rq_free q) \<and>
      length (sp_pushed s) = (if sp_p s = PMark then Suc w else w) \<and>
      sp_popped s = take (if sp_c s = CMark then Suc r else r) (sp_pushed s) \<and>
      (\<forall>k. r \<le> k \<and> k < length (sp_pushed s) \<longrightarrow> rq_buffer q ! (k mod n) = sp_pushed s ! k) \<and>
      (sp_p s \<noteq> PIdle \<and> sp_p s \<noteq> PAdvance \<longrightarrow> w < r + n) \<and>
      (sp_c s = CLoad \<or> sp_c s = CMark \<longrightarrow> r < w))"

lemma spsc_inv_init: "0 < n \<Longrightarrow> length junk = Suc n \<Longrightarrow> spsc_inv n 0 0 (spsc_init n junk lf)"
  by (auto simp: spsc_inv_def spsc_init_def rq_create_def ring_flags_def nth_append)

lemma spsc_inv_step:
  assumes "spsc_step s s'" and "0 < n" and "n < 2 ^ 32" and "spsc_inv n wi ri s"
  shows "\<exists>wi ri. spsc_inv n wi ri s'"
  using assms(1)
proof cases
  case (push_test x)
  have "wi < (if sp_c s = CAdvance then Suc ri else ri) + n"
    using assms(2,4) push_test ring_flags_write [of n "if sp_c s = CAdvance then Suc ri else ri" wi "rq_free (sp_q s)"]
    by (simp add: spsc_inv_def Let_def split: if_splits)
  then have "spsc_inv n wi ri s'" using assms(4) push_test by (auto simp: spsc_inv_def Let_def)
  then show ?thesis by blast
next
  case (push_store x)
  let ?r = "if sp_c s = CAdvance then Suc ri else ri"
  have w: "wi < ?r + n" "length (sp_pushed s) = wi" "\<forall>k. ?r \<le> k \<and> k < wi \<longrightarrow> rq_buffer (sp_q s) ! (k mod n) = sp_pushed s ! k"
    "length (rq_buffer (sp_q s)) = Suc n"
    using assms(4) push_store by (auto simp: spsc_inv_def Let_def)
  have "\<forall>k. ?r \<le> k \<and> k < Suc wi \<longrightarrow> (rq_buffer (sp_q s))[wi mod n := x] ! (k mod n) = (sp_pushed s @ [x]) ! k"
  proof (intro allI impI)
    fix k
    assume k: "?r \<le> k \<and> k < Suc wi"
    then have "k < wi \<Longrightarrow> k mod n \<noteq> wi mod n" using mod_window_inj [of k n wi ?r] w(1) by auto
    moreover have "wi mod n < Suc n" using assms(2) by (simp add: less_SucI)
    ultimately show "(rq_buffer (sp_q s))[wi mod n := x] ! (k mod n) = (sp_pushed s @ [x]) ! k"
      using k w by (cases "k = wi") (auto simp: nth_append)
  qed
  moreover have "(if sp_c s = CMark then Suc ?r else ?r) \<le> wi" "wi < ?r + n"
    using assms(4) push_store by (auto simp: spsc_inv_def Let_def ring_flags_def split: if_splits)
  ultimately have "spsc_inv n wi ri s'" using assms(4) push_store
    by (simp add: spsc_inv_def Let_def rq_store_def del: if_split)
  then show ?thesis by blast
next
  case push_mark
  have "spsc_inv n wi ri s'"
    using assms push_mark by (auto simp: spsc_inv_def Let_def rq_mark_used_def intro: ring_flags_add)
  then show ?thesis by blast
next
  case push_advance
  have "spsc_inv n (Suc wi) ri s'"
    using assms push_advance by (simp add: spsc_inv_def Let_def rq_advance_write_def rq_next_counter)
  then show ?thesis by blast
next
  case pop_test
  have "ri < (if sp_p s = PAdvance then Suc wi else wi)"
    using assms(2,4) pop_test ring_flags_read [of n ri "if sp_p s = PAdvance then Suc wi else wi" "rq_free (sp_q s)"]
    by (simp add: spsc_inv_def Let_def split: if_splits)
  then have "spsc_inv n wi ri s'" using assms(4) pop_test by (auto simp: spsc_inv_def Let_def)
  then show ?thesis by blast
next
  case pop_load
  have l: "ri < length (sp_pushed s)"
    using assms(4) pop_load by (auto simp: spsc_inv_def Let_def split: if_splits)
  moreover have "\<forall>k. ri \<le> k \<and> k < length (sp_pushed s) \<longrightarrow> rq_buffer (sp_q s) ! (k mod n) = sp_pushed s ! k"
    using assms(4) pop_load by (simp add: spsc_inv_def Let_def del: if_split)
  ultimately have "rq_buffer (sp_q s) ! (ri mod n) = sp_pushed s ! ri" by simp
  with l have "spsc_inv n wi ri s'" using assms(4) pop_load
    by (auto simp: spsc_inv_def Let_def take_Suc_conv_app_nth)
  then show ?thesis by blast
next
  case pop_mark
  have "spsc_inv n wi ri s'"
    using assms pop_mark by (auto simp: spsc_inv_def Let_def rq_mark_free_def intro: ring_flags_remove)
  then show ?thesis by blast
next
  case pop_advance
  have "spsc_inv n wi (Suc ri) s'"
    using assms pop_advance by (simp add: spsc_inv_def Let_def rq_advance_read_def rq_next_counter)
  then show ?thesis by blast
qed

lemma spsc_reach_inv:
  assumes "spsc_reach n junk lf s" and "0 < n" and "n < 2 ^ 32" and "length junk = Suc n"
  shows "\<exists>wi ri. spsc_inv n wi ri s"
  using assms(1)
proof induction
  case init
  then show ?case using spsc_inv_init [OF assms(2,4)] by blast
next
  case (step s s')
  then show ?case using spsc_inv_step assms(2,3) by blast
qed


section \<open>The queue contract\<close>

text \<open>What the users of a bounded queue rely on: an operation keeps the queue well-formed; an insertion
  succeeds exactly when there is room and appends; a removal takes the first item.\<close>

locale bounded_fifo =
  fixes ok :: "'q \<Rightarrow> bool" and items :: "'q \<Rightarrow> 'a list" and cap :: "'q \<Rightarrow> nat"
    and enq :: "'a \<Rightarrow> 'q \<Rightarrow> bool \<times> 'q" and deq :: "'q \<Rightarrow> 'a option \<times> 'q"
  assumes enq_law: "ok q \<Longrightarrow> enq x q = (b, q') \<Longrightarrow>
      ok q' \<and> cap q' = cap q \<and> (b \<longleftrightarrow> length (items q) < cap q) \<and> items q' = (if b then items q @ [x] else items q)"
    and deq_law: "ok q \<Longrightarrow> deq q = (y, q') \<Longrightarrow>
      ok q' \<and> cap q' = cap q \<and> items q = (case y of None \<Rightarrow> [] | Some x \<Rightarrow> [x]) @ items q' \<and> (y = None \<longleftrightarrow> items q = [])"
begin

fun fifo_run :: "'a option list \<Rightarrow> 'q \<Rightarrow> 'a list \<times> 'a list \<times> 'q" where
  "fifo_run [] q = ([], [], q)"
| "fifo_run (Some x # ops) q =
     (case enq x q of (b, q) \<Rightarrow> case fifo_run ops q of (ins, outs, q) \<Rightarrow> ((if b then x # ins else ins), outs, q))"
| "fifo_run (None # ops) q =
     (case deq q of (y, q) \<Rightarrow> case fifo_run ops q of (ins, outs, q) \<Rightarrow> (ins, (case y of None \<Rightarrow> outs | Some x \<Rightarrow> x # outs), q))"

lemma fifo_run_law:
  "ok q \<Longrightarrow> fifo_run ops q = (ins, outs, q') \<Longrightarrow> ok q' \<and> items q @ ins = outs @ items q'"
proof (induction ops arbitrary: q ins outs)
  case (Cons op ops)
  show ?case
  proof (cases op)
    case None
    obtain y q1 where d: "deq q = (y, q1)" by (cases "deq q")
    obtain ins1 outs1 q2 where r: "fifo_run ops q1 = (ins1, outs1, q2)" by (cases "fifo_run ops q1")
    have e: "q2 = q'" "ins1 = ins" "outs = (case y of None \<Rightarrow> outs1 | Some x \<Rightarrow> x # outs1)"
      using Cons.prems(2) d r None by auto
    then show ?thesis using deq_law [OF Cons.prems(1) d] Cons.IH [of q1 ins1 outs1] r by (cases y) auto
  next
    case (Some x)
    obtain b q1 where d: "enq x q = (b, q1)" by (cases "enq x q")
    obtain ins1 outs1 q2 where r: "fifo_run ops q1 = (ins1, outs1, q2)" by (cases "fifo_run ops q1")
    have e: "q2 = q'" "ins = (if b then x # ins1 else ins1)" "outs1 = outs"
      using Cons.prems(2) d r Some by auto
    then show ?thesis using enq_law [OF Cons.prems(1) d] Cons.IH [of q1 ins1 outs1] r by (cases b) auto
  qed
qed simp

end

section \<open>The ring buffer keeps the contract\<close>

definition rq_at :: "nat \<Rightarrow> nat \<Rightarrow> 'a rqueue \<Rightarrow> bool" where
  "rq_at r w q =
     (0 < rq_length q \<and> rq_length q < 2 ^ 32 \<and> length (rq_buffer q) = Suc (rq_length q) \<and>
      rq_readit q = r mod rq_length q \<and> rq_writeit q = w mod rq_length q \<and> ring_flags (rq_length q) r w (rq_free q))"

definition rq_ok :: "'a rqueue \<Rightarrow> bool" where
  "rq_ok q = (\<exists>r w. rq_at r w q)"

definition rq_items :: "'a rqueue \<Rightarrow> 'a list" where
  "rq_items q = map (\<lambda>i. rq_buffer q ! ((rq_readit q + i) mod rq_length q)) [0..<rq_size q]"

definition rq_enq :: "'a \<Rightarrow> 'a rqueue \<Rightarrow> bool \<times> 'a rqueue" where
  "rq_enq x q = (case rq_push [] x False q of Ret r \<Rightarrow> r | _ \<Rightarrow> (False, q))"

lemma rq_at_size: "rq_at r w q \<Longrightarrow> rq_size q = w - r"
proof -
  assume a: "rq_at r w q"
  let ?n = "rq_length q"
  have n: "0 < ?n" "r \<le> w" "w \<le> r + ?n" using a by (auto simp: rq_at_def ring_flags_def)
  then obtain d where d: "w = r + d" "d \<le> ?n" by (metis le_Suc_ex nat_add_left_cancel_le)
  have wm: "w mod ?n = (r mod ?n + d) mod ?n" using d(1) by (simp add: mod_add_left_eq)
  have fl: "rq_free q ! (w mod ?n) = (if d < ?n then 1 else 0)"
    using ring_flags_write [of ?n r w "rq_free q"] a n d by (simp add: rq_at_def)
  have i: "rq_writeit q = w mod ?n" "rq_readit q = r mod ?n" using a by (simp_all add: rq_at_def)
  have rm: "r mod ?n < ?n" using n(1) by simp
  consider "d = ?n" | "d = 0" "d < ?n" | "0 < d" "d < ?n" "r mod ?n + d < ?n" | "0 < d" "d < ?n" "\<not> r mod ?n + d < ?n"
    using d(2) by fastforce
  then show ?thesis
  proof cases
    case 1
    then have "w mod ?n = r mod ?n" using wm by simp
    then show ?thesis using 1 fl d(1) by (simp add: rq_size_def i)
  next
    case 2
    then show ?thesis using fl d(1) by (simp add: rq_size_def i)
  next
    case 3
    then have "w mod ?n = r mod ?n + d" using wm by simp
    then show ?thesis using 3 d(1) by (simp add: rq_size_def i)
  next
    case 4
    then have "w mod ?n = r mod ?n + d - ?n" using wm rm le_mod_geq [of ?n "r mod ?n + d"] by simp
    then show ?thesis unfolding rq_size_def i using 4 d(1) rm by auto
  qed
qed

lemma rq_at_items:
  assumes "rq_at r w q"
  shows "rq_items q = map (\<lambda>k. rq_buffer q ! (k mod rq_length q)) [r..<w]"
proof -
  have "(\<lambda>i. rq_buffer q ! ((rq_readit q + i) mod rq_length q)) = (\<lambda>k. rq_buffer q ! (k mod rq_length q)) \<circ> (\<lambda>i. r + i)"
    using assms by (auto simp: rq_at_def mod_add_left_eq)
  moreover have "map (\<lambda>i. r + i) [0..<w - r] = [r..<w]"
    using map_add_upt [of r "w - r"] assms by (simp add: rq_at_def ring_flags_def add.commute)
  ultimately show ?thesis unfolding rq_items_def rq_at_size [OF assms] by (metis map_map)
qed

lemma rq_enq_at:
  assumes "rq_at r w q" and "rq_enq x q = (b, q')"
  shows "(b \<longleftrightarrow> w < r + rq_length q) \<and> rq_length q' = rq_length q \<and>
         (if b then rq_at r (Suc w) q' \<and> rq_items q' = rq_items q @ [x] else q' = q)"
proof (cases "w < r + rq_length q")
  case False
  then show ?thesis
    using assms ring_flags_write [of "rq_length q" r w "rq_free q"] by (auto simp: rq_at_def rq_enq_def rq_push.simps)
next
  case True
  let ?n = "rq_length q"
  have n: "0 < ?n" "?n < 2 ^ 32" using assms(1) by (auto simp: rq_at_def)
  have q': "b" "q' = q\<lparr>rq_buffer := (rq_buffer q)[w mod ?n := x], rq_free := (rq_free q)[w mod ?n := 0], rq_writeit := Suc w mod ?n\<rparr>"
    using assms True n ring_flags_write [of ?n r w "rq_free q"]
    by (auto simp: rq_at_def rq_enq_def rq_push.simps rq_store_def rq_mark_used_def rq_advance_write_def rq_next_counter)
  have at: "rq_at r (Suc w) q'"
    using assms(1) True ring_flags_add by (auto simp: rq_at_def q'(2))
  have "w mod ?n \<noteq> k mod ?n" if "r \<le> k" "k < w" for k
    using mod_window_inj [of w ?n k r] that True by auto
  then have "map (\<lambda>k. rq_buffer q' ! (k mod ?n)) [r..<w] = map (\<lambda>k. rq_buffer q ! (k mod ?n)) [r..<w]"
    by (simp add: q'(2))
  moreover have "rq_buffer q' ! (w mod ?n) = x"
    using assms(1) n by (simp add: q'(2) rq_at_def less_SucI)
  moreover have "rq_length q' = ?n" "r \<le> w" using assms(1) by (simp_all add: q'(2) rq_at_def ring_flags_def)
  ultimately show ?thesis
    using at q'(1) True by (simp add: rq_at_items [OF at] rq_at_items [OF assms(1)])
qed

lemma rq_popq_at:
  assumes "rq_at r w q" and "rq_popq q = (y, q')"
  shows "rq_length q' = rq_length q \<and>
         (if r < w then y = Some (hd (rq_items q)) \<and> rq_at (Suc r) w q' \<and> rq_items q' = tl (rq_items q) else y = None \<and> q' = q)"
proof (cases "r < w")
  case False
  then show ?thesis
    using assms ring_flags_read [of "rq_length q" r w "rq_free q"] by (auto simp: rq_at_def rq_popq_def)
next
  case True
  let ?n = "rq_length q"
  have n: "0 < ?n" "?n < 2 ^ 32" using assms(1) by (auto simp: rq_at_def)
  have q': "y = Some (rq_buffer q ! (r mod ?n))" "q' = q\<lparr>rq_free := (rq_free q)[r mod ?n := 1], rq_readit := Suc r mod ?n\<rparr>"
    using assms True n ring_flags_read [of ?n r w "rq_free q"]
    by (auto simp: rq_at_def rq_popq_def rq_mark_free_def rq_advance_read_def rq_next_counter)
  have at: "rq_at (Suc r) w q'"
    using assms(1) True ring_flags_remove by (auto simp: rq_at_def q'(2))
  have "rq_items q' = map (\<lambda>k. rq_buffer q ! (k mod ?n)) [Suc r..<w]"
    using rq_at_items [OF at] by (simp add: q'(2))
  moreover have "[r..<w] = r # [Suc r..<w]" using True by (simp add: upt_conv_Cons)
  moreover have "rq_length q' = ?n" by (simp add: q'(2))
  ultimately show ?thesis
    using True at q'(1) by (simp add: rq_at_items [OF assms(1)])
qed

interpretation ring: bounded_fifo rq_ok rq_items rq_length rq_enq rq_popq
proof
  fix q q' :: "'a rqueue" and x b
  assume "rq_ok q" and e: "rq_enq x q = (b, q')"
  then obtain r w where a: "rq_at r w q" by (auto simp: rq_ok_def)
  have "length (rq_items q) = w - r" by (simp add: rq_at_items [OF a])
  moreover have "r \<le> w" using a by (simp add: rq_at_def ring_flags_def)
  ultimately show "rq_ok q' \<and> rq_length q' = rq_length q \<and> (b \<longleftrightarrow> length (rq_items q) < rq_length q) \<and>
      rq_items q' = (if b then rq_items q @ [x] else rq_items q)"
    using rq_enq_at [OF a e] a by (auto simp: rq_ok_def split: if_splits)
next
  fix q q' :: "'a rqueue" and y
  assume "rq_ok q" and e: "rq_popq q = (y, q')"
  then obtain r w where a: "rq_at r w q" by (auto simp: rq_ok_def)
  have it: "rq_items q = map (\<lambda>k. rq_buffer q ! (k mod rq_length q)) [r..<w]" by (rule rq_at_items [OF a])
  show "rq_ok q' \<and> rq_length q' = rq_length q \<and> rq_items q = (case y of None \<Rightarrow> [] | Some x \<Rightarrow> [x]) @ rq_items q' \<and>
      (y = None \<longleftrightarrow> rq_items q = [])"
  proof (cases "r < w")
    case True
    then have "rq_items q \<noteq> []" by (simp add: it)
    then show ?thesis using rq_popq_at [OF a e] True by (auto simp: rq_ok_def)
  next
    case False
    then show ?thesis using rq_popq_at [OF a e] a it by (auto simp: rq_ok_def)
  qed
qed


lemma rq_create_ok:
  "0 < n \<Longrightarrow> n < 2 ^ 32 \<Longrightarrow> length junk = Suc n \<Longrightarrow> rq_ok (rq_create n junk lf) \<and> rq_items (rq_create n junk lf) = []"
proof -
  assume "0 < n" "n < 2 ^ 32" "length junk = Suc n"
  then have "rq_at 0 0 (rq_create n junk lf)"
    by (auto simp: rq_at_def rq_create_def ring_flags_def nth_append)
  then show ?thesis using rq_at_items by (fastforce simp: rq_ok_def)
qed

lemma rq_push_awake:
  "i < length sl \<Longrightarrow> (\<forall>j \<le> i. \<not> fst (sl ! j)) \<Longrightarrow>
   rq_free (fold (\<lambda>e. snd e) (take (Suc i) sl) q) ! rq_writeit (fold (\<lambda>e. snd e) (take (Suc i) sl) q) = 1 \<Longrightarrow>
   \<exists>q'. rq_push sl x True q = Ret (True, q')"
proof (induction i arbitrary: sl q)
  case 0
  then obtain t f sl' where "sl = (t, f) # sl'" by (cases sl) auto
  then show ?case using 0 by (auto simp: rq_push.simps [of "(False, f) # sl'"] rq_push.simps [of sl'])
next
  case (Suc i)
  then obtain t f sl' where sl: "sl = (t, f) # sl'" by (cases sl) auto
  have "\<forall>j \<le> i. \<not> fst (sl' ! j)" using Suc.prems(2) by (force simp: sl)
  moreover have "\<not> t" using Suc.prems(2) by (force simp: sl)
  ultimately show ?case using Suc.IH [of sl' "f q"] Suc.prems by (auto simp: sl rq_push.simps [of "(False, f) # sl'"])
qed

section \<open>Properties\<close>

text \<open>C14: One producer and one consumer thread on an \<open>rqueue_quick\<close> of \<open>n\<close> slots, interleaved at every
  memory access: what the consumer has read is a prefix of what the producer has written (nothing is lost,
  doubled, reordered or read before it is complete), and at most \<open>n\<close> items are under way.\<close>

theorem spsc_fifo:
  assumes "spsc_reach n junk lf s" and "0 < n" and "n < 2 ^ 32" and "length junk = Suc n"
  shows "sp_popped s = take (length (sp_popped s)) (sp_pushed s) \<and> length (sp_popped s) \<le> length (sp_pushed s) \<and>
         length (sp_pushed s) \<le> length (sp_popped s) + n"
proof -
  obtain wi ri where inv: "spsc_inv n wi ri s" using spsc_reach_inv [OF assms] by blast
  define r where "r = (if sp_c s = CAdvance then Suc ri else ri)"
  define w where "w = (if sp_p s = PAdvance then Suc wi else wi)"
  have p: "length (sp_pushed s) = (if sp_p s = PMark then Suc w else w)" "w \<le> r + n" "r \<le> w"
    "sp_popped s = take (if sp_c s = CMark then Suc r else r) (sp_pushed s)"
    "sp_p s = PMark \<longrightarrow> w < r + n" "sp_c s = CMark \<longrightarrow> r < w"
    using inv by (auto simp: spsc_inv_def Let_def ring_flags_def r_def w_def)
  then have "length (sp_popped s) = (if sp_c s = CMark then Suc r else r)" by (auto simp: min_def)
  then show ?thesis using p by (auto split: if_splits)
qed

theorem spsc_fifo_witness:
  "sp_popped (\<lparr>sp_q = rq_store 7 (rq_create 2 [0, 0, 0] 0), sp_p = PMark, sp_c = CIdle, sp_pushed = [7], sp_popped = []\<rparr> :: nat spsc) =
   take 0 [7 :: nat]"
proof -
  let ?s0 = "spsc_init 2 [0, 0, 0 :: nat] 0"
  have r0: "spsc_reach 2 [0, 0, 0] 0 ?s0" by (rule spsc_reach.init)
  have "spsc_step ?s0 (?s0\<lparr>sp_p := PStore 7\<rparr>)"
    by (rule spsc_step.push_test) (simp_all add: spsc_init_def rq_create_def numeral_2_eq_2)
  then have r1: "spsc_reach 2 [0, 0, 0] 0 (?s0\<lparr>sp_p := PStore 7\<rparr>)" using r0 spsc_reach.step by blast
  have "spsc_step (?s0\<lparr>sp_p := PStore 7\<rparr>)
     \<lparr>sp_q = rq_store 7 (rq_create 2 [0, 0, 0] 0), sp_p = PMark, sp_c = CIdle, sp_pushed = [7], sp_popped = []\<rparr>"
    using spsc_step.push_store [of "?s0\<lparr>sp_p := PStore 7\<rparr>" 7] by (simp add: spsc_init_def)
  then have "spsc_reach 2 [0, 0, 0 :: nat] 0
     \<lparr>sp_q = rq_store 7 (rq_create 2 [0, 0, 0] 0), sp_p = PMark, sp_c = CIdle, sp_pushed = [7], sp_popped = []\<rparr>"
    using r1 spsc_reach.step by blast
  from spsc_fifo [OF this] show ?thesis by simp
qed

text \<open>C27: \<open>push\<close> without waiting and \<open>popq\<close> refine a bounded FIFO queue of capacity \<open>length\<close>: the invariant is
  kept, an insertion succeeds exactly when there is room and appends, a removal yields the oldest item,
  and \<open>size()\<close> is the number of items.\<close>

theorem rqueue_refines_fifo:
  assumes "rq_ok q"
  shows "(\<exists>b q'. rq_push [] x False q = Ret (b, q') \<and> rq_ok q' \<and> (b \<longleftrightarrow> length (rq_items q) < rq_length q) \<and>
           rq_items q' = (if b then rq_items q @ [x] else rq_items q)) \<and>
         (\<exists>y q'. rq_popq q = (y, q') \<and> rq_ok q' \<and> rq_get q = y \<and>
           (case y of None \<Rightarrow> rq_items q = [] \<and> q' = q | Some z \<Rightarrow> rq_items q = z # rq_items q' \<and> q' = rq_moveReadit q)) \<and>
         rq_size q = length (rq_items q)"
proof (intro conjI)
  obtain b q' where e: "rq_push [] x False q = Ret (b, q')" by (cases "rq_free q ! rq_writeit q = 1") (auto simp: rq_push.simps)
  then have "rq_enq x q = (b, q')" by (simp add: rq_enq_def)
  from ring.enq_law [OF assms this] e
  show "\<exists>b q'. rq_push [] x False q = Ret (b, q') \<and> rq_ok q' \<and> (b \<longleftrightarrow> length (rq_items q) < rq_length q) \<and>
      rq_items q' = (if b then rq_items q @ [x] else rq_items q)" by auto
next
  obtain y q' where e: "rq_popq q = (y, q')" by (cases "rq_popq q")
  have "rq_get q = y" and "y = None \<longrightarrow> q' = q" and "y \<noteq> None \<longrightarrow> q' = rq_moveReadit q"
    using e by (auto simp: rq_popq_def rq_get_def rq_moveReadit_def split: if_splits)
  with ring.deq_law [OF assms e] e
  show "\<exists>y q'. rq_popq q = (y, q') \<and> rq_ok q' \<and> rq_get q = y \<and>
      (case y of None \<Rightarrow> rq_items q = [] \<and> q' = q | Some z \<Rightarrow> rq_items q = z # rq_items q' \<and> q' = rq_moveReadit q)"
    by (cases y) auto
qed (simp add: rq_items_def)

theorem rqueue_refines_fifo_witness:
  "\<exists>b q'. rq_push [] 5 False (rq_create 3 [0, 0, 0, 0] 9) = Ret (b, q') \<and> b \<and> rq_items q' = [5 :: nat]"
proof -
  have "rq_ok (rq_create 3 [0, 0, 0, 0 :: nat] 9)" and i: "rq_items (rq_create 3 [0, 0, 0, 0 :: nat] 9) = []"
    using rq_create_ok [of 3 "[0, 0, 0, 0 :: nat]" 9] by simp_all
  from rqueue_refines_fifo [OF this(1), of 5] i show ?thesis by (auto simp: rq_create_def)
qed

text \<open>A \<open>push\<close> that waits for a free slot and is not told to terminate returns true as soon as the other
  threads have freed the slot at the write index during one of its sleeps.\<close>

theorem rq_push_wakes:
  assumes "i < length sl" and "\<forall>j \<le> i. \<not> fst (sl ! j)"
    and "rq_free (fold (\<lambda>e. snd e) (take (Suc i) sl) q) ! rq_writeit (fold (\<lambda>e. snd e) (take (Suc i) sl) q) = 1"
  shows "\<exists>q'. rq_push sl x True q = Ret (True, q')"
  using assms by (rule rq_push_awake)

theorem rq_push_wakes_witness:
  "\<exists>q'. rq_push [(False, \<lambda>q. snd (rq_popq q))] 2 True
     (rq_advance_write (rq_mark_used (rq_store 1 (rq_create 1 [0, 0 :: nat] 0)))) = Ret (True, q')"
  by (rule rq_push_wakes [of 0])
     (simp_all add: rq_popq_def rq_advance_write_def rq_mark_used_def rq_store_def rq_create_def rq_next_def
        rq_mark_free_def rq_advance_read_def)

end
