(* ===== verification/VM_WebSocket.thy ===== *)
theory VM_WebSocket
  imports VM_Prelude
begin

text \<open>
  WebSocket frames (\<open>cWebSocketHeader\<close> of \<open>websocket.h\<close> and \<open>websocket.cpp\<close>) that carry SIP. A header
  object is a pointer to the captured bytes and the size the caller claims for them; here the bytes are
  the whole buffer behind the pointer, so that a read behind it is \<open>OutOfBounds\<close>.
\<close>

section \<open>Model\<close>

datatype eCheckDataSizeType = chdst_na | chdst_strict | chdst_ge_limit | chdst_ge_unlimited

record cWebSocketHeader =
  ws_header :: mem
  ws_size :: u32

definition ws_payload_len :: "cWebSocketHeader \<Rightarrow> u8 outcome" where
  "ws_payload_len h = omap (\<lambda>b. b AND 0x7F) (ld8 (ws_header h) 1)"

definition isExtendedLength :: "cWebSocketHeader \<Rightarrow> nat outcome" where
  "isExtendedLength h = omap (\<lambda>l. if l = 126 then 1 else if l = 127 then 2 else 0) (ws_payload_len h)"

definition getExtendedLengthSize :: "cWebSocketHeader \<Rightarrow> u32 outcome" where
  "getExtendedLengthSize h = omap (\<lambda>e. if e = 1 then 2 else if e = 2 then 8 else 0) (isExtendedLength h)"

text \<open>\<open>htonl\<close> takes 32 bits: of the eight bytes of the long form the first four are used.\<close>

definition getDataLength :: "cWebSocketHeader \<Rightarrow> u64 outcome" where
  "getDataLength h =
     obind (isExtendedLength h) (\<lambda>e.
       if e = 1 then omap (\<lambda>w. ucast (ntohs w)) (ld16 (ws_header h) 2)
       else if e = 2 then omap (\<lambda>w. ucast (ntohl (ucast w))) (ld64 (ws_header h) 2)
       else omap ucast (ws_payload_len h))"

definition isMask :: "cWebSocketHeader \<Rightarrow> bool outcome" where
  "isMask h = omap (\<lambda>b. b AND 0x80 \<noteq> 0) (ld8 (ws_header h) 1)"

definition getMask :: "cWebSocketHeader \<Rightarrow> nat option outcome" where
  "getMask h = obind (isMask h) (\<lambda>m.
     if m then omap (\<lambda>e. Some (2 + unat e)) (getExtendedLengthSize h) else Ret None)"

definition getHeaderLength :: "cWebSocketHeader \<Rightarrow> u32 outcome" where
  "getHeaderLength h = obind (getExtendedLengthSize h) (\<lambda>e. omap (\<lambda>m. 2 + e + (if m then 4 else 0)) (isMask h))"

definition getData :: "cWebSocketHeader \<Rightarrow> nat outcome" where
  "getData h = omap unat (getHeaderLength h)"

definition isHeaderSizeOk :: "cWebSocketHeader \<Rightarrow> bool outcome" where
  "isHeaderSizeOk h = (if ws_size h \<ge> 2 then omap (\<lambda>l. ws_size h \<ge> l) (getHeaderLength h) else Ret False)"

definition isDataSizeOk :: "eCheckDataSizeType \<Rightarrow> cWebSocketHeader \<Rightarrow> bool outcome" where
  "isDataSizeOk t h =
     obind (getHeaderLength h) (\<lambda>hl. omap (\<lambda>dl.
         let n = ucast hl + dl; sz = ucast (ws_size h) in
         case t of
           chdst_na \<Rightarrow> True
         | chdst_strict \<Rightarrow> sz = n
         | chdst_ge_limit \<Rightarrow> sz \<ge> n \<and> sz \<le> n + 1
         | chdst_ge_unlimited \<Rightarrow> sz \<ge> n)
       (getDataLength h))"

text \<open>\<open>xorData\<close> of \<open>tools_global.cpp\<close>; the key is read for every byte.\<close>

definition xorData :: "u8 list \<Rightarrow> u8 list \<Rightarrow> nat \<Rightarrow> u8 list" where
  "xorData xs key initPos = map (\<lambda>i. xs ! i XOR key ! ((initPos + i) mod length key)) [0..<length xs]"

text \<open>The result of \<open>decodeData\<close>: a null pointer, a pointer into the frame, or allocated bytes.\<close>

datatype decoded = DNull | DPointer nat | DAlloc "u8 list"

definition decode_alloc :: "cWebSocketHeader \<Rightarrow> u32 \<Rightarrow> decoded outcome" where
  "decode_alloc h dataLength =
     (if dataLength > 0 \<and> dataLength \<le> 0xFFFF then
        obind (getData h) (\<lambda>p.
        obind (ldn (unat dataLength) (ws_header h) p) (\<lambda>xs.
        obind (getMask h) (\<lambda>mp.
        omap (\<lambda>key. DAlloc (xorData xs key 0)) (ldn 4 (ws_header h) (the mp)))))
      else Ret DNull)"

definition decodeData :: "u32 \<Rightarrow> cWebSocketHeader \<Rightarrow> decoded outcome" where
  "decodeData dataLength h =
     obind (isMask h) (\<lambda>m.
       if m then
         (if dataLength \<noteq> 0 then
            obind (getHeaderLength h) (\<lambda>hl.
              if dataLength > hl then
                obind (getDataLength h) (\<lambda>dl. decode_alloc h (min (dataLength - hl) (ucast dl)))
              else Ret DNull)
          else obind (getDataLength h) (\<lambda>dl. decode_alloc h (ucast dl)))
       else omap DPointer (getData h))"

definition check_websocket_header :: "mem \<Rightarrow> u32 \<Rightarrow> eCheckDataSizeType \<Rightarrow> bool outcome" where
  "check_websocket_header m len t =
     (let h = \<lparr>ws_header = m, ws_size = len\<rparr> in
      obind (isHeaderSizeOk h) (\<lambda>ok. if ok then (if t = chdst_na then Ret True else isDataSizeOk t h) else Ret False))"

definition websocket_header_length :: "mem \<Rightarrow> u32 \<Rightarrow> u32 outcome" where
  "websocket_header_length m len = (if len < 2 then Ret 2 else getHeaderLength \<lparr>ws_header = m, ws_size = len\<rparr>)"

definition check_websocket_first_byte :: "mem \<Rightarrow> u32 \<Rightarrow> bool outcome" where
  "check_websocket_first_byte m len = (if len > 0 then omap (\<lambda>b. b = 0x81) (ld8 m 0) else Ret False)"

definition check_websocket :: "mem \<Rightarrow> u32 \<Rightarrow> eCheckDataSizeType \<Rightarrow> bool outcome" where
  "check_websocket m len t =
     obind (check_websocket_first_byte m len) (\<lambda>b. if b then check_websocket_header m len t else Ret False)"

section \<open>Specification: a masked text frame\<close>

fun ws_mask :: "u8 list \<Rightarrow> u8 list \<Rightarrow> u8 list" where
  "ws_mask key [] = []"
| "ws_mask key (x # xs) = (x XOR hd key) # ws_mask (rotate1 key) xs"

definition ws_frame :: "u8 list \<Rightarrow> u8 list \<Rightarrow> mem" where
  "ws_frame key payload =
     (let n = length payload in
      (if n < 126 then [0x81, 0x80 + word_of_nat n]
       else if n < 65536 then [0x81, 0xFE, word_of_nat (n div 256), word_of_nat n]
       else [0x81, 0xFF] @ rev (le_list 8 n)) @
      key @ ws_mask key payload)"

section \<open>Lemmas\<close>

lemma length_xorData [simp]: "length (xorData xs key i) = length xs"
  by (simp add: xorData_def)

lemma length_ws_mask [simp]: "length (ws_mask key xs) = length xs"
  by (induction xs arbitrary: key) auto

lemma ws_mask_nth: "key \<noteq> [] \<Longrightarrow> i < length xs \<Longrightarrow> ws_mask key xs ! i = xs ! i XOR key ! (i mod length key)"
proof (induction xs arbitrary: key i)
  case (Cons x xs)
  then show ?case by (cases i) (auto simp: hd_conv_nth nth_rotate1 mod_Suc_eq)
qed simp

lemma xorData_ws_mask: "key \<noteq> [] \<Longrightarrow> xorData (ws_mask key xs) key 0 = xs"
  by (rule nth_equalityI) (simp_all add: xorData_def ws_mask_nth xor.assoc)

lemma short_len_bits:
  assumes "n < 126"
  shows "(0x80 + word_of_nat n :: u8) AND 0x7F = word_of_nat n" and "(0x80 + word_of_nat n :: u8) AND 0x80 \<noteq> 0"
    and "(word_of_nat n :: u8) \<noteq> 126" and "(word_of_nat n :: u8) \<noteq> 127"
proof -
  have "\<forall>n \<in> set [0..<126]. (0x80 + word_of_nat n :: u8) AND 0x7F = word_of_nat n \<and> (0x80 + word_of_nat n :: u8) AND 0x80 \<noteq> 0 \<and>
      (word_of_nat n :: u8) \<noteq> 126 \<and> (word_of_nat n :: u8) \<noteq> 127"
    by (simp add: upt_rec)
  then show "(0x80 + word_of_nat n :: u8) AND 0x7F = word_of_nat n" and "(0x80 + word_of_nat n :: u8) AND 0x80 \<noteq> 0"
    and "(word_of_nat n :: u8) \<noteq> 126" and "(word_of_nat n :: u8) \<noteq> 127"
    using assms by auto
qed

lemma be16_len: "n < 65536 \<Longrightarrow> ntohs (le_word [word_of_nat (n div 256), word_of_nat n]) = word_of_nat n"
proof -
  assume n: "n < 65536"
  have "le_nat [word_of_nat n, word_of_nat (n div 256)] = n"
    using n le_nat_le_list [of 2 n] by (simp add: numeral_2_eq_2)
  then show ?thesis by (simp add: ntohs_le_word) (simp add: le_word_def)
qed


definition ws_hdr_len :: "nat \<Rightarrow> nat" where
  "ws_hdr_len n = (if n < 126 then 6 else 8)"

lemma ws_frame_fields:
  fixes payload key rest :: "u8 list" and sz :: u32
  assumes "length payload < 65536" and "length key = 4"
  defines "h \<equiv> \<lparr>ws_header = ws_frame key payload @ rest, ws_size = sz\<rparr>"
  shows "isMask h = Ret True" and "getHeaderLength h = Ret (word_of_nat (ws_hdr_len (length payload)))"
    and "getDataLength h = Ret (word_of_nat (length payload))"
    and "getMask h = Ret (Some (ws_hdr_len (length payload) - 4))"
proof -
  let ?n = "length payload"
  have "isMask h = Ret True \<and> getHeaderLength h = Ret (word_of_nat (ws_hdr_len ?n)) \<and>
      getDataLength h = Ret (word_of_nat ?n) \<and> getMask h = Ret (Some (ws_hdr_len ?n - 4))"
  proof (cases "?n < 126")
    case True
    have u: "ucast (word_of_nat ?n :: u8) = (word_of_nat ?n :: u64)"
      using True by (simp add: word_unat_eq_iff unsigned_ucast_eq unat_of_nat take_bit_nat_eq_self)
    show ?thesis
      using True short_len_bits [OF True] u
      by (simp add: h_def isMask_def getHeaderLength_def getExtendedLengthSize_def isExtendedLength_def ws_payload_len_def
          getDataLength_def getMask_def ws_frame_def Let_def ld8_def ws_hdr_len_def)
  next
    case False
    have u: "ucast (word_of_nat ?n :: u16) = (word_of_nat ?n :: u64)"
      using assms(1) by (simp add: word_unat_eq_iff unsigned_ucast_eq unat_of_nat take_bit_nat_eq_self)
    show ?thesis
      using False assms(1) be16_len [OF assms(1)] u
      by (simp add: h_def isMask_def getHeaderLength_def getExtendedLengthSize_def isExtendedLength_def ws_payload_len_def
          getDataLength_def getMask_def ws_frame_def Let_def ld8_def ws_hdr_len_def ld16_def ldn_def)
  qed
  then show "isMask h = Ret True" and "getHeaderLength h = Ret (word_of_nat (ws_hdr_len ?n))"
    and "getDataLength h = Ret (word_of_nat ?n)" and "getMask h = Ret (Some (ws_hdr_len ?n - 4))" by simp_all
qed

lemma ws_frame_bytes:
  assumes "length payload < 65536" and "length key = 4"
  shows "length (ws_frame key payload) = ws_hdr_len (length payload) + length payload"
    and "ldn 4 (ws_frame key payload @ rest) (ws_hdr_len (length payload) - 4) = Ret key"
    and "ldn (length payload) (ws_frame key payload @ rest) (ws_hdr_len (length payload)) = Ret (ws_mask key payload)"
  using assms by (simp_all add: ws_frame_def ws_hdr_len_def ldn_def Let_def)

lemma ws_frame_decode:
  assumes "0 < length payload" and "length payload < 65536" and "length key = 4"
  shows "decodeData 0 \<lparr>ws_header = ws_frame key payload @ rest, ws_size = sz\<rparr> = Ret (DAlloc payload)"
proof -
  let ?n = "length payload"
  have k: "key \<noteq> []" using assms(3) by auto
  have u: "unat (ucast (word_of_nat ?n :: u64) :: u32) = ?n"
    using assms(2) by (simp add: unsigned_ucast_eq unat_of_nat take_bit_nat_eq_self)
  then have "ucast (word_of_nat ?n :: u64) > (0 :: u32)" "ucast (word_of_nat ?n :: u64) \<le> (0xFFFF :: u32)"
    using assms by (simp_all add: word_less_nat_alt word_le_nat_alt)
  moreover have "unat (word_of_nat (ws_hdr_len ?n) :: u32) = ws_hdr_len ?n" by (simp add: ws_hdr_len_def)
  ultimately show ?thesis
    using u by (simp add: decodeData_def decode_alloc_def getData_def ws_frame_fields [OF assms(2,3)] ws_frame_bytes [OF assms(2,3)] xorData_ws_mask [OF k])
qed

lemma ws_frame_check:
  assumes "length payload < 65536" and "length key = 4"
  shows "check_websocket (ws_frame key payload) (word_of_nat (length (ws_frame key payload))) chdst_strict = Ret True"
proof -
  let ?n = "length payload" and ?l = "length (ws_frame key payload)"
  have l: "?l = ws_hdr_len ?n + ?n" by (rule ws_frame_bytes [OF assms])
  have ul: "unat (word_of_nat ?l :: u32) = ?l"
    using assms(1) l by (intro unat_word_of_nat) (simp add: ws_hdr_len_def)
  have sz: "(word_of_nat ?l :: u32) > 0" "\<not> (word_of_nat ?l :: u32) < 2" "(word_of_nat ?l :: u32) \<ge> 2"
    "(word_of_nat ?l :: u32) \<ge> word_of_nat (ws_hdr_len ?n)"
    using ul l by (simp_all add: word_less_nat_alt word_le_nat_alt ws_hdr_len_def)
  have e: "ucast (word_of_nat ?l :: u32) = ucast (word_of_nat (ws_hdr_len ?n) :: u32) + (word_of_nat ?n :: u64)"
  proof -
    have lt: "?l < 2 ^ 32" "?l < 2 ^ LENGTH(64)" using assms(1) l by (simp_all add: ws_hdr_len_def)
    have "ucast (word_of_nat ?l :: u32) = (word_of_nat ?l :: u64)"
      using take_bit_nat_eq_self [OF lt(2)]
      by (simp only: word_unat_eq_iff unsigned_ucast_eq ul unat_word_of_nat [OF lt(2)])
    moreover have "ucast (word_of_nat (ws_hdr_len ?n) :: u32) = (word_of_nat (ws_hdr_len ?n) :: u64)"
      by (simp add: ws_hdr_len_def)
    ultimately show ?thesis by (simp add: l)
  qed
  have b0: "ld8 (ws_frame key payload) 0 = Ret 0x81" by (simp add: ws_frame_def Let_def ld8_def)
  show ?thesis
    using sz e ws_frame_fields [OF assms, where rest = "[]"]
    by (simp add: check_websocket_def check_websocket_first_byte_def b0 check_websocket_header_def isHeaderSizeOk_def
        isDataSizeOk_def Let_def)
qed

section \<open>Properties\<close>

text \<open>C18: A masked text frame of 1 to 65535 payload bytes built as RFC 6455 prescribes is accepted by
  \<open>check_websocket\<close> under the strict size check, and \<open>decodeData\<close> returns exactly the payload.\<close>

theorem websocket_roundtrip:
  assumes "0 < length payload" and "length payload < 65536" and "length key = 4"
  shows "check_websocket (ws_frame key payload) (word_of_nat (length (ws_frame key payload))) chdst_strict = Ret True \<and>
         decodeData 0 \<lparr>ws_header = ws_frame key payload, ws_size = word_of_nat (length (ws_frame key payload))\<rparr> = Ret (DAlloc payload)"
  using ws_frame_check [OF assms(2,3)] ws_frame_decode [OF assms, of "[]"] by simp

theorem websocket_roundtrip_witness:
  "decodeData 0 \<lparr>ws_header = ws_frame [1, 2, 3, 4] [10, 20, 30, 40, 50], ws_size = word_of_nat (length (ws_frame [1, 2, 3, 4] [10, 20, 30, 40, 50]))\<rparr> =
   Ret (DAlloc [10, 20, 30, 40, 50])"
  using websocket_roundtrip [of "[10, 20, 30, 40, 50]" "[1, 2, 3, 4]"] by simp

text \<open>A frame with the 64-bit length form: \<open>getDataLength\<close> returns the upper 32 bits of the length, so every
  frame of 65536 up to \<open>2 ^ 32 - 1\<close> payload bytes is taken for empty and \<open>decodeData\<close> yields no data.\<close>

theorem websocket_long_frame_empty:
  assumes "65536 \<le> length payload" and "length payload < 2 ^ 32" and "length key = 4"
  shows "getDataLength \<lparr>ws_header = ws_frame key payload, ws_size = sz\<rparr> = Ret 0 \<and>
         decodeData 0 \<lparr>ws_header = ws_frame key payload, ws_size = sz\<rparr> = Ret DNull"
proof -
  let ?n = "length payload" and ?h = "\<lparr>ws_header = ws_frame key payload, ws_size = sz\<rparr>"
  obtain t where f: "ws_frame key payload = [0x81, 0xFF, word_of_nat (?n div 256 ^ 7), word_of_nat (?n div 256 ^ 6),
      word_of_nat (?n div 256 ^ 5), word_of_nat (?n div 256 ^ 4)] @ t \<and> 4 \<le> length t"
    using assms(1) by (simp add: ws_frame_def Let_def div_mult2_eq [symmetric])
  have "?n div 256 ^ 7 = 0" "?n div 256 ^ 6 = 0" "?n div 256 ^ 5 = 0" "?n div 256 ^ 4 = 0" using assms(2) by simp_all
  then have f0: "ws_frame key payload = [0x81, 0xFF, 0, 0, 0, 0] @ t" using f by simp
  have t: "4 \<le> length t" using f by simp
  have e: "isExtendedLength ?h = Ret 2" "isMask ?h = Ret True"
    by (simp_all add: f0 isExtendedLength_def ws_payload_len_def isMask_def ld8_def)
  have "unat (le_word (0 # 0 # 0 # 0 # take 4 t) :: u64) = 2 ^ 32 * le_nat (take 4 t)"
    by (subst unat_le_word) simp_all
  then have "ucast (le_word (0 # 0 # 0 # 0 # take 4 t) :: u64) = (0 :: u32)"
    by (simp add: word_unat_eq_iff unsigned_ucast_eq take_bit_eq_mod)
  moreover have "ntohl 0 = 0" by (simp add: ntohl_def word_le_def le_word_def)
  ultimately have "omap (\<lambda>w. ucast (ntohl (ucast w))) (ld64 (ws_frame key payload) 2) = Ret (0 :: u64)"
    using t by (simp add: f0 ld64_def ldn_def)
  then have d: "getDataLength ?h = Ret 0" unfolding getDataLength_def e by simp
  then show ?thesis by (simp add: decodeData_def e decode_alloc_def)
qed


theorem websocket_long_frame_empty_witness:
  "decodeData 0 \<lparr>ws_header = ws_frame [1, 2, 3, 4] (replicate 70000 65), ws_size = 70014\<rparr> = Ret DNull"
  using websocket_long_frame_empty [of "replicate 70000 65" "[1, 2, 3, 4]" 70014] by simp

text \<open>When the header and the data size checks of a frame have succeeded and the claimed size is really
  there, \<open>decodeData\<close> stays inside the frame.\<close>

theorem websocket_decode_in_bounds:
  assumes "check_websocket_header m len t = Ret True" and "t \<noteq> chdst_na" and "unat len \<le> length m"
  shows "\<exists>d. decodeData 0 \<lparr>ws_header = m, ws_size = len\<rparr> = Ret d"
proof -
  let ?h = "\<lparr>ws_header = m, ws_size = len\<rparr>"
  obtain hl dl where hl: "getHeaderLength ?h = Ret hl" "hl \<le> len" and dl: "getDataLength ?h = Ret dl"
    and sz: "ucast hl + dl \<le> ucast len"
    using assms(1,2)
    by (cases t) (auto simp: check_websocket_header_def Let_def obind_Ret_iff omap_Ret_iff isHeaderSizeOk_def isDataSizeOk_def
        split: if_splits)
  obtain e mk where e: "getExtendedLengthSize ?h = Ret e" and mk: "isMask ?h = Ret mk" and he: "hl = 2 + e + (if mk then 4 else 0)"
    using hl(1) by (auto simp: getHeaderLength_def obind_Ret_iff omap_Ret_iff)
  have e8: "unat e \<le> 8" using e by (auto simp: getExtendedLengthSize_def omap_Ret_iff)
  have uhl: "unat hl = 2 + unat e + (if mk then 4 else 0)"
    using e8 by (auto simp: he unat_word_ariths)
  have len: "unat hl \<le> length m" using hl(2) assms(3) by (simp add: word_le_nat_alt)
  have dl32: "unat dl < 2 ^ 32"
    using dl unat_less_2_32 by (auto simp: getDataLength_def obind_Ret_iff omap_Ret_iff simp del: unat_byte_less split: if_splits)
  have "unat (ucast hl + dl) = unat hl + unat dl"
    using dl32 unat_u32_less [of hl] by (simp add: unat_word_ariths del: unat_u32_less)
  then have "unat hl + unat dl \<le> unat len"
    using sz by (simp add: word_le_nat_alt)
  moreover have "unat (ucast dl :: u32) = unat dl"
    using dl32 by (simp add: unsigned_ucast_eq take_bit_nat_eq_self)
  ultimately have "unat hl + unat (ucast dl :: u32) \<le> length m" using assms(3) by simp
  then show ?thesis
    using mk dl hl(1) e len uhl
    by (auto simp: decodeData_def decode_alloc_def getData_def getMask_def ldn_def)
qed

theorem websocket_decode_in_bounds_witness:
  "\<exists>d. decodeData 0 \<lparr>ws_header = [0x81, 0x82, 1, 2, 3, 4, 72, 73], ws_size = 8\<rparr> = Ret d"
  by (rule websocket_decode_in_bounds [of _ _ chdst_strict])
     (simp_all add: check_websocket_header_def isHeaderSizeOk_def isDataSizeOk_def getHeaderLength_def getDataLength_def
        getExtendedLengthSize_def isExtendedLength_def ws_payload_len_def isMask_def ld8_def Let_def)

end
