(* ===== verification/VM_StdString.thy ===== *)
theory VM_StdString
  imports VM_CString VM_StdMap
begin

text \<open>\<open>std::string\<close> as the key of a \<open>std::map\<close>: \<open>operator <\<close> compares bytes as unsigned values and takes a
  proper prefix for the smaller string.\<close>

fun str_lt :: "string \<Rightarrow> string \<Rightarrow> bool" where
  "str_lt xs [] = False"
| "str_lt [] (y # ys) = True"
| "str_lt (x # xs) (y # ys) = ((of_char x :: nat) < of_char y \<or> x = y \<and> str_lt xs ys)"

lemma of_char_eq_nat_iff: "(of_char c :: nat) = of_char d \<longleftrightarrow> c = d"
  by (metis char_of_char)

lemma str_lt_total: "str_lt a b \<or> a = b \<or> str_lt b a"
proof (induction a b rule: str_lt.induct)
  case (1 xs)
  then show ?case by (cases xs) auto
next
  case (3 x xs y ys)
  then show ?case by (cases "(of_char x :: nat)" "of_char y :: nat" rule: linorder_cases) (auto simp: of_char_eq_nat_iff)
qed simp

lemma str_lt_irrefl: "\<not> str_lt a a"
  by (induction a) auto

lemma str_lt_trans: "str_lt a b \<Longrightarrow> str_lt b c \<Longrightarrow> str_lt a c"
proof (induction a b arbitrary: c rule: str_lt.induct)
  case (2 y ys)
  then show ?case by (cases c) auto
next
  case (3 x xs y ys)
  then show ?case by (cases c) (auto intro: order.strict_trans)
qed simp

lemma map_key_order_string: "map_key_order str_lt (=)"
  by unfold_locales (auto simp: str_lt_irrefl intro: str_lt_trans, use str_lt_total in blast)

interpretation string_key: map_key_order str_lt "(=)"
  by (rule map_key_order_string)

end
