(* ===== verification/VM_Diameter.thy ===== *)
theory VM_Diameter
  imports VM_CString
begin

text \<open>
  The Diameter messages of the sniffer (\<open>diameter.h\<close>, \<open>diameter.cpp\<close>): \<open>cDiameter\<close> and \<open>cDiameterAvp\<close>
  are views (pointer and length) into the captured bytes; here a view is the buffer, an index and the length.
  The mutual recursion of \<open>cDiameterAvp::parse\<close> and its loop takes fuel, since it need not end.
\<close>

section \<open>cDiameterAvp\<close>

abbreviation (input) "sizeof_avp_header \<equiv> (8 :: u32)"
abbreviation (input) "sizeof_diameter_header \<equiv> (20 :: u32)"

record avp_item =
  it_code :: u32
  it_length :: u32
  it_payload :: mem

definition avp_code :: "mem \<Rightarrow> nat \<Rightarrow> u32 outcome" where
  "avp_code m p = omap ntohl (ld32 m p)"

definition avp_flags :: "mem \<Rightarrow> nat \<Rightarrow> u8 outcome" where
  "avp_flags m p = ld8 m (p + 4)"

definition avp_header_length :: "mem \<Rightarrow> nat \<Rightarrow> u32 outcome" where
  "avp_header_length m p = omap (\<lambda>f. 8 + (if f AND 0x80 \<noteq> 0 then 4 else 0)) (avp_flags m p)"

text \<open>The 24-bit field is shifted to the upper three bytes before the byte order is reversed.\<close>

definition avp_length :: "mem \<Rightarrow> nat \<Rightarrow> u32 outcome" where
  "avp_length m p = omap (\<lambda>bs. ntohl (push_bit 8 (le_word bs))) (ldn 3 m (p + 5))"

definition avp_real_length :: "mem \<Rightarrow> nat \<Rightarrow> u32 outcome" where
  "avp_real_length m p = omap (\<lambda>l. l div 4 * 4 + (if l mod 4 \<noteq> 0 then 4 else 0)) (avp_length m p)"

text \<open>The sum is taken before the byte order is reversed, on the code field.\<close>

definition avp_vendor_id :: "mem \<Rightarrow> nat \<Rightarrow> u32 outcome" where
  "avp_vendor_id m p =
     obind (avp_flags m p) (\<lambda>f. if f AND 0x80 \<noteq> 0 then omap (\<lambda>w. ntohl (w + 8)) (ld32 m p) else Ret 0)"

definition avp_payload :: "mem \<Rightarrow> nat \<Rightarrow> nat outcome" where
  "avp_payload m p = omap (\<lambda>hl. p + unat hl) (avp_header_length m p)"

definition avp_payload_len :: "mem \<Rightarrow> nat \<Rightarrow> u32 outcome" where
  "avp_payload_len m p =
     obind (avp_length m p) (\<lambda>l. omap (\<lambda>hl. if l > hl then l - hl else 0) (avp_header_length m p))"

definition group_code :: "u32 \<Rightarrow> bool" where
  "group_code c = (c = 456 \<or> c = 651 \<or> c = 700 \<or> c = 873 \<or> c = 876)"

definition avp_isGroup :: "mem \<Rightarrow> nat \<Rightarrow> bool outcome" where
  "avp_isGroup m p = omap group_code (avp_code m p)"

definition avp_headerLengthIsOk :: "mem \<Rightarrow> nat \<Rightarrow> u32 \<Rightarrow> bool outcome" where
  "avp_headerLengthIsOk m p datalen =
     (if datalen \<ge> sizeof_avp_header then omap (\<lambda>hl. datalen \<ge> hl) (avp_header_length m p) else Ret False)"

definition avp_lengthIsOk :: "mem \<Rightarrow> nat \<Rightarrow> u32 \<Rightarrow> bool outcome" where
  "avp_lengthIsOk m p datalen =
     obind (avp_headerLengthIsOk m p datalen) (\<lambda>ok.
       if ok then omap (\<lambda>rl. rl \<le> datalen) (avp_real_length m p) else Ret False)"

definition avp_leaf :: "mem \<Rightarrow> nat \<Rightarrow> avp_item list \<Rightarrow> avp_item list outcome" where
  "avp_leaf m p its =
     obind (avp_payload_len m p) (\<lambda>pl.
       if pl > 0 \<and> pl < 16 * 1024 then
         obind (avp_payload m p) (\<lambda>q.
         obind (avp_code m p) (\<lambda>c.
         omap (\<lambda>bs. its @ [\<lparr>it_code = c, it_length = pl, it_payload = bs\<rparr>]) (ldn (unat pl) m q)))
       else Ret its)"

fun avp_parse :: "nat \<Rightarrow> mem \<Rightarrow> nat \<Rightarrow> avp_item list \<Rightarrow> avp_item list outcome"
  and avps_loop :: "nat \<Rightarrow> mem \<Rightarrow> nat \<Rightarrow> u32 \<Rightarrow> u32 \<Rightarrow> avp_item list \<Rightarrow> avp_item list outcome" where
  "avp_parse 0 m p its = OutOfFuel"
| "avp_parse (Suc fuel) m p its =
     obind (avp_isGroup m p) (\<lambda>g.
       if g then
         obind (avp_payload_len m p) (\<lambda>pl.
           if pl > 0 then obind (avp_payload m p) (\<lambda>q. avps_loop fuel m q pl 0 its) else Ret its)
       else avp_leaf m p its)"
| "avps_loop 0 m q len off its = OutOfFuel"
| "avps_loop (Suc fuel) m q len off its =
     (if off < len \<and> len - off > sizeof_avp_header then
        obind (avp_lengthIsOk m (q + unat off) (len - off)) (\<lambda>ok.
          if ok then
            obind (avp_parse fuel m (q + unat off) its) (\<lambda>its.
            obind (avp_real_length m (q + unat off)) (\<lambda>rl.
              avps_loop fuel m q len (off + rl) its))
          else Ret its)
      else Ret its)"

section \<open>cDiameter\<close>

definition dia_version :: "mem \<Rightarrow> nat \<Rightarrow> u8 outcome" where
  "dia_version m p = ld8 m p"

definition dia_length :: "mem \<Rightarrow> nat \<Rightarrow> u32 outcome" where
  "dia_length m p = omap (\<lambda>bs. ntohl (push_bit 8 (le_word bs))) (ldn 3 m (p + 1))"

definition dia_flags :: "mem \<Rightarrow> nat \<Rightarrow> u8 outcome" where
  "dia_flags m p = ld8 m (p + 4)"

definition dia_command_code :: "mem \<Rightarrow> nat \<Rightarrow> u32 outcome" where
  "dia_command_code m p = omap (\<lambda>bs. ntohl (push_bit 8 (le_word bs))) (ldn 3 m (p + 5))"

definition dia_application_id :: "mem \<Rightarrow> nat \<Rightarrow> u32 outcome" where
  "dia_application_id m p = omap ntohl (ld32 m (p + 8))"

definition dia_hop_by_hop_id :: "mem \<Rightarrow> nat \<Rightarrow> u32 outcome" where
  "dia_hop_by_hop_id m p = omap ntohl (ld32 m (p + 12))"

definition dia_end_to_end_id :: "mem \<Rightarrow> nat \<Rightarrow> u32 outcome" where
  "dia_end_to_end_id m p = omap ntohl (ld32 m (p + 16))"

definition dia_payload_len :: "mem \<Rightarrow> nat \<Rightarrow> u32 outcome" where
  "dia_payload_len m p = omap (\<lambda>l. l - sizeof_diameter_header) (dia_length m p)"

definition dia_isRequest :: "mem \<Rightarrow> nat \<Rightarrow> bool outcome" where
  "dia_isRequest m p = omap (\<lambda>f. f AND 0x80 \<noteq> 0) (dia_flags m p)"

definition dia_versionIsOk :: "mem \<Rightarrow> nat \<Rightarrow> u32 \<Rightarrow> bool outcome" where
  "dia_versionIsOk m p datalen = (if datalen > 0 then omap (\<lambda>v. v = 1) (ld8 m p) else Ret False)"

definition dia_headerLengthIsOk :: "u32 \<Rightarrow> bool" where
  "dia_headerLengthIsOk datalen = (datalen \<ge> sizeof_diameter_header)"

definition dia_lengthIsOk :: "mem \<Rightarrow> nat \<Rightarrow> u32 \<Rightarrow> bool outcome" where
  "dia_lengthIsOk m p datalen =
     (if dia_headerLengthIsOk datalen then omap (\<lambda>l. l \<le> datalen) (dia_length m p) else Ret False)"

definition checkOkDiameter :: "mem \<Rightarrow> nat \<Rightarrow> u32 \<Rightarrow> bool outcome" where
  "checkOkDiameter m p datalen =
     (if datalen > 0 then
        obind (ld8 m p) (\<lambda>b.
          if b = 1 then
            obind (dia_versionIsOk m p datalen) (\<lambda>v.
              if v \<and> dia_headerLengthIsOk datalen then dia_lengthIsOk m p datalen else Ret False)
          else Ret False)
      else Ret False)"

definition dia_parse :: "nat \<Rightarrow> mem \<Rightarrow> nat \<Rightarrow> avp_item list \<Rightarrow> avp_item list outcome" where
  "dia_parse fuel m p its = obind (dia_payload_len m p) (\<lambda>pl. avps_loop fuel m (p + 20) pl 0 its)"

section \<open>Identities\<close>

text \<open>The payload of an item becomes a C string: it ends at the first zero byte.\<close>

definition payload_string :: "mem \<Rightarrow> cstr" where
  "payload_string bs = map (\<lambda>b. char_of (unat b)) (takeWhile (\<lambda>b. b \<noteq> 0) bs)"

fun dia_getValue :: "u32 \<Rightarrow> avp_item list \<Rightarrow> cstr" where
  "dia_getValue code [] = []"
| "dia_getValue code (it # its) =
     (if it_code it = code \<and> it_length it > 0 then payload_string (it_payload it) else dia_getValue code its)"

fun dia_getValues :: "u32 \<Rightarrow> avp_item list \<Rightarrow> cstr list \<Rightarrow> cstr list" where
  "dia_getValues code [] values = values"
| "dia_getValues code (it # its) values =
     (let v = payload_string (it_payload it) in
      dia_getValues code its (if it_code it = code \<and> it_length it > 0 \<and> v \<notin> set values then values @ [v] else values))"

definition strip_domain :: "bool \<Rightarrow> cstr \<Rightarrow> cstr" where
  "strip_domain opt s =
     (if opt then (case strchr s CHR 0x40 of Some i \<Rightarrow> if i > 0 then take i s else s | None \<Rightarrow> s) else s)"

definition strip_prefix :: "bool \<Rightarrow> cstr \<Rightarrow> cstr" where
  "strip_prefix opt s =
     (if opt then (case strchr s CHR '':'' of Some i \<Rightarrow> if i < length s - 1 then drop (i + 1) s else s | None \<Rightarrow> s) else s)"

definition after_last_semicolon :: "cstr \<Rightarrow> cstr" where
  "after_last_semicolon s = (if CHR '';'' \<in> set s then rev (takeWhile (\<lambda>c. c \<noteq> CHR '';'') (rev s)) else s)"

definition before_semicolon :: "cstr \<Rightarrow> cstr" where
  "before_semicolon s = takeWhile (\<lambda>c. c \<noteq> CHR '';'') s"

definition dia_getPublicIdentity :: "bool \<Rightarrow> bool \<Rightarrow> avp_item list \<Rightarrow> cstr" where
  "dia_getPublicIdentity ignore_domain ignore_prefix its =
     (let v = dia_getValue 601 its in
      if v \<noteq> [] then strip_prefix ignore_prefix (strip_domain ignore_domain v) else [])"

definition has_uri_scheme :: "cstr \<Rightarrow> bool" where
  "has_uri_scheme s = (map c_tolower (take 4 s) = ''sip:'' \<or> map c_tolower (take 4 s) = ''tel:'')"

definition dia_getSessionId :: "bool \<Rightarrow> bool \<Rightarrow> avp_item list \<Rightarrow> cstr" where
  "dia_getSessionId ignore_domain ignore_prefix its =
     (let v = dia_getValue 263 its in
      if v \<noteq> [] then
        (let s = strip_prefix ignore_prefix (strip_domain ignore_domain (after_last_semicolon v)) in
         if has_uri_scheme s then s else [])
      else [])"

definition dia_getCallingPartyAddress :: "bool \<Rightarrow> bool \<Rightarrow> avp_item list \<Rightarrow> cstr" where
  "dia_getCallingPartyAddress ignore_domain ignore_prefix its =
     (let v = dia_getValue 831 its in
      if v \<noteq> [] then strip_prefix ignore_prefix (strip_domain ignore_domain (before_semicolon v)) else [])"

section \<open>Specification: messages as trees\<close>

datatype avp = Leaf u32 "u32 option" "u8 list" | Group u32 "u32 option" "avp list"

definition be32 :: "u32 \<Rightarrow> u8 list" where
  "be32 w = rev (word_le 4 w)"

definition be24 :: "nat \<Rightarrow> u8 list" where
  "be24 n = rev (le_list 3 n)"

definition vendor_len :: "u32 option \<Rightarrow> nat" where
  "vendor_len v = (case v of None \<Rightarrow> 0 | Some _ \<Rightarrow> 4)"

definition enc_header :: "u32 \<Rightarrow> u32 option \<Rightarrow> nat \<Rightarrow> u8 list" where
  "enc_header code v n =
     be32 code @ [(case v of None \<Rightarrow> 0x40 | Some _ \<Rightarrow> 0xC0)] @ be24 (8 + vendor_len v + n) @
     (case v of None \<Rightarrow> [] | Some w \<Rightarrow> be32 w)"

definition pad4 :: "nat \<Rightarrow> nat" where
  "pad4 n = (4 - n mod 4) mod 4"

fun enc_avp :: "avp \<Rightarrow> u8 list" where
  "enc_avp (Leaf code v bs) = enc_header code v (length bs) @ bs @ replicate (pad4 (length bs)) 0"
| "enc_avp (Group code v as) = (let bs = concat (map enc_avp as) in enc_header code v (length bs) @ bs)"

fun avp_items :: "avp \<Rightarrow> avp_item list" where
  "avp_items (Leaf code v bs) =
     (if 0 < length bs \<and> length bs < 16384
      then [\<lparr>it_code = code, it_length = word_of_nat (length bs), it_payload = bs\<rparr>] else [])"
| "avp_items (Group code v as) = concat (map avp_items as)"

fun avp_wf :: "avp \<Rightarrow> bool" where
  "avp_wf (Leaf code v bs) = (\<not> group_code code \<and> length bs + 16 < 2 ^ 24)"
| "avp_wf (Group code v as) =
     (group_code code \<and> length (concat (map enc_avp as)) + 16 < 2 ^ 24 \<and> (\<forall>a \<in> set as. avp_wf a))"

fun avp_fuel :: "avp \<Rightarrow> nat" where
  "avp_fuel (Leaf code v bs) = 1"
| "avp_fuel (Group code v as) = 2 + sum_list (map (\<lambda>a. Suc (avp_fuel a)) as)"

definition avps_fuel :: "avp list \<Rightarrow> nat" where
  "avps_fuel as = 1 + sum_list (map (\<lambda>a. Suc (avp_fuel a)) as)"

definition dia_message :: "u8 \<Rightarrow> u32 \<Rightarrow> u32 \<Rightarrow> u32 \<Rightarrow> u32 \<Rightarrow> avp list \<Rightarrow> mem" where
  "dia_message flags command app hbh e2e as =
     (let bs = concat (map enc_avp as) in
      [1] @ be24 (20 + length bs) @ [flags] @ be24 (unat command) @ be32 app @ be32 hbh @ be32 e2e @ bs)"


section \<open>Reading back an encoded header\<close>

lemma length_be [simp]: "length (be32 w) = 4" "length (be24 n) = 3"
  by (simp_all add: be32_def be24_def)

lemma length_enc_header [simp]: "length (enc_header code v n) = 8 + vendor_len v"
  by (simp add: enc_header_def vendor_len_def split: option.splits)

lemma ntohl_be32: "ntohl (le_word (be32 w)) = w"
  by (simp add: ntohl_le_word be32_def le_word_word_le)

lemma push_bit_le_word: "length bs = 3 \<Longrightarrow> push_bit 8 (le_word bs) = (le_word (0 # bs) :: u32)"
  by (simp add: le_word_def push_bit_eq_mult)

lemma ntohl_be24:
  assumes "n < 2 ^ 24"
  shows "ntohl (push_bit 8 (le_word (be24 n))) = (word_of_nat n :: u32)"
proof -
  have "rev (0 # be24 n) = le_list 3 n @ [0]" by (simp add: be24_def)
  moreover have "le_nat (le_list 3 n @ [0]) = n" using assms le_nat_le_list [of 3 n] by (simp add: le_nat_append del: le_list_numeral)
  ultimately show ?thesis
    by (simp add: push_bit_le_word ntohl_le_word del: rev.simps) (simp add: le_word_def)
qed

lemma pad4_round: "(n div 4 * 4 + (if n mod 4 \<noteq> 0 then 4 else 0)) = n + pad4 n"
proof -
  have "n mod 4 < 4" by simp
  then consider "n mod 4 = 0" | "n mod 4 = 1" | "n mod 4 = 2" | "n mod 4 = 3" by linarith
  then show ?thesis using div_mult_mod_eq [of n 4] by cases (simp_all add: pad4_def)
qed

lemma pad4_add8: "pad4 (8 + vendor_len v + n) = pad4 n"
proof -
  have "(8 + n) mod 4 = n mod 4" "(12 + n) mod 4 = n mod 4" by presburger+
  then show ?thesis by (cases v) (simp_all add: pad4_def vendor_len_def)
qed

lemma header_fields:
  assumes "m = pre @ enc_header code v n @ rest" and "n + 16 < 2 ^ 24"
  shows "avp_code m (length pre) = Ret code" 
    and "avp_header_length m (length pre) = Ret (word_of_nat (8 + vendor_len v))"
    and "avp_length m (length pre) = Ret (word_of_nat (8 + vendor_len v + n))"
proof -
  let ?l = "8 + vendor_len v + n"
  have l: "?l < 2 ^ 24" using assms(2) by (simp add: vendor_len_def split: option.splits)
  have "ld32 m (length pre) = Ret (le_word (be32 code))"
    using ld32_shift [of pre "enc_header code v n @ rest" 0] by (simp add: assms(1) enc_header_def ld32_def ldn_def)
  then show "avp_code m (length pre) = Ret code" by (simp add: avp_code_def ntohl_be32)
  show "avp_header_length m (length pre) = Ret (word_of_nat (8 + vendor_len v))"
    unfolding avp_header_length_def avp_flags_def assms(1) ld8_shift
    by (cases v) (simp_all add: enc_header_def ld8_def vendor_len_def nth_append)
  have "enc_header code v n = (be32 code @ [case v of None \<Rightarrow> 0x40 | Some _ \<Rightarrow> 0xC0]) @ be24 ?l @ (case v of None \<Rightarrow> [] | Some w \<Rightarrow> be32 w)"
    by (simp add: enc_header_def)
  then have "ldn 3 m (length pre + 5) = Ret (be24 ?l)"
    unfolding assms(1) ldn_shift by (simp add: ldn_def)
  then show "avp_length m (length pre) = Ret (word_of_nat ?l)"
    by (simp only: avp_length_def omap.simps ntohl_be24 [OF l])
qed

lemma header_lengths:
  assumes "m = pre @ enc_header code v n @ rest" and "n + 16 < 2 ^ 24"
  shows "avp_payload m (length pre) = Ret (length pre + 8 + vendor_len v)"
    and "avp_payload_len m (length pre) = Ret (word_of_nat n)"
    and "avp_real_length m (length pre) = Ret (word_of_nat (8 + vendor_len v + n + pad4 n))"
proof -
  let ?h = "8 + vendor_len v" and ?l = "8 + vendor_len v + n"
  note f = header_fields [OF assms]
  have vl: "vendor_len v \<le> 4" by (simp add: vendor_len_def split: option.splits)
  have u: "unat (word_of_nat ?h :: u32) = ?h" "unat (word_of_nat ?l :: u32) = ?l"
    by (rule unat_word_of_nat; use vl assms(2) in simp)+
  show "avp_payload m (length pre) = Ret (length pre + 8 + vendor_len v)"
    by (simp only: avp_payload_def f omap.simps u) simp
  have "(if (word_of_nat ?l :: u32) > word_of_nat ?h then word_of_nat ?l - word_of_nat ?h else 0) = (word_of_nat n :: u32)"
    unfolding word_less_nat_alt u by simp
  then show "avp_payload_len m (length pre) = Ret (word_of_nat n)"
    by (simp only: avp_payload_len_def f omap.simps obind.simps)
  have "(word_of_nat ?l :: u32) div 4 * 4 + (if (word_of_nat ?l :: u32) mod 4 \<noteq> 0 then 4 else 0) =
      word_of_nat (?l div 4 * 4 + (if ?l mod 4 \<noteq> 0 then 4 else 0))"
  proof -
    have d: "(word_of_nat ?l :: u32) div 4 = word_of_nat (?l div 4)" "(word_of_nat ?l :: u32) mod 4 = word_of_nat (?l mod 4)"
      using word_arith_nat_div [of "word_of_nat ?l :: u32" 4] word_arith_nat_mod [of "word_of_nat ?l :: u32" 4]
      unfolding u(2) by simp_all
    have "unat (word_of_nat (?l mod 4) :: u32) = ?l mod 4"
      by (rule unat_word_of_nat) (rule order.strict_trans [of _ 4], simp_all)
    then have "(word_of_nat (?l mod 4) :: u32) \<noteq> 0 \<longleftrightarrow> ?l mod 4 \<noteq> 0"
      by (simp only: word_unat_eq_iff unat_0)
    then show ?thesis unfolding d by (simp only: if_distrib) simp
  qed
  then show "avp_real_length m (length pre) = Ret (word_of_nat (8 + vendor_len v + n + pad4 n))"
    by (simp only: avp_real_length_def f omap.simps pad4_round pad4_add8)
qed


section \<open>Reading back a message\<close>

definition avp_size :: "avp \<Rightarrow> nat" where
  "avp_size a = (case a of Leaf _ v bs \<Rightarrow> length bs | Group _ v as \<Rightarrow> length (concat (map enc_avp as)))"

definition avp_vendor :: "avp \<Rightarrow> u32 option" where
  "avp_vendor a = (case a of Leaf _ v bs \<Rightarrow> v | Group _ v as \<Rightarrow> v)"

definition avp_code_of :: "avp \<Rightarrow> u32" where
  "avp_code_of a = (case a of Leaf c v bs \<Rightarrow> c | Group c v as \<Rightarrow> c)"

lemma sum_list_mod4: "\<forall>x \<in> set xs. x mod 4 = 0 \<Longrightarrow> sum_list xs mod (4 :: nat) = 0"
  by (induction xs) (auto simp: mod_add_eq [symmetric])

lemma enc_avp_mod4: "length (enc_avp a) mod 4 = 0"
proof (induction a)
  case (Leaf c v bs)
  have "(8 + vendor_len v) mod 4 = 0" by (cases v) (simp_all add: vendor_len_def)
  moreover have "(length bs + pad4 (length bs)) mod 4 = 0"
    by (subst pad4_round [symmetric]) simp
  ultimately have "((8 + vendor_len v) + (length bs + pad4 (length bs))) mod 4 = 0" by (metis add_0 mod_0 mod_add_eq)
  then show ?case by (simp add: add.assoc)
next
  case (Group c v as)
  have "(8 + vendor_len v) mod 4 = 0" by (cases v) (simp_all add: vendor_len_def)
  moreover have "length (concat (map enc_avp as)) mod 4 = 0"
    using Group by (simp add: length_concat o_def sum_list_mod4)
  ultimately have "((8 + vendor_len v) + length (concat (map enc_avp as))) mod 4 = 0" by (metis add_0 mod_0 mod_add_eq)
  then show ?case by (simp add: Let_def)
qed

lemma enc_avp_parts:
  "\<exists>body. enc_avp a = enc_header (avp_code_of a) (avp_vendor a) (avp_size a) @ body \<and>
     length (enc_avp a) = 8 + vendor_len (avp_vendor a) + avp_size a + pad4 (avp_size a)"
proof (cases a)
  case (Leaf c v bs)
  then show ?thesis by (simp add: avp_code_of_def avp_vendor_def avp_size_def)
next
  case (Group c v as)
  have "length (concat (map enc_avp as)) mod 4 = 0"
    using enc_avp_mod4 by (simp add: length_concat o_def sum_list_mod4)
  then have "pad4 (length (concat (map enc_avp as))) = 0" by (simp only: pad4_def) simp
  then show ?thesis using Group by (simp add: avp_code_of_def avp_vendor_def avp_size_def Let_def)
qed

lemma enc_avp_ge8: "8 \<le> length (enc_avp a)"
  using enc_avp_parts [of a] by auto

lemma enc_avp_nonempty [simp]: "enc_avp a \<noteq> []"
  using enc_avp_ge8 [of a] by auto

lemma avp_wf_size: "avp_wf a \<Longrightarrow> avp_size a + 16 < 2 ^ 24"
  by (cases a) (auto simp: avp_size_def)

lemma avp_wf_len: "avp_wf a \<Longrightarrow> length (enc_avp a) < 2 ^ 24"
proof -
  assume "avp_wf a"
  then have "avp_size a + 16 < 2 ^ 24" by (rule avp_wf_size)
  moreover have "pad4 (avp_size a) < 4" by (simp add: pad4_def)
  moreover have "vendor_len (avp_vendor a) \<le> 4" by (simp add: vendor_len_def split: option.splits)
  ultimately show ?thesis using enc_avp_parts [of a] by auto
qed

lemma avp_items_empty: "avp_size a = 0 \<Longrightarrow> avp_items a = []"
proof (cases a)
  case (Group c v as)
  assume "avp_size a = 0"
  then have "concat (map enc_avp as) = []" using Group by (simp add: avp_size_def)
  then have "as = []" by (cases as) auto
  then show ?thesis using Group by simp
qed (simp add: avp_size_def)

lemma enc_short_items:
  assumes "length (concat (map enc_avp as)) \<le> 8"
  shows "concat (map avp_items as) = []"
proof (cases as)
  case (Cons a as')
  then have l: "length (enc_avp a) + length (concat (map enc_avp as')) \<le> 8" using assms by simp
  moreover note enc_avp_ge8 [of a]
  ultimately have a8: "length (enc_avp a) = 8" and "length (concat (map enc_avp as')) = 0" by linarith+
  then have "as' = []" by (cases as') auto
  moreover have "avp_size a = 0" using enc_avp_parts [of a] a8 by auto
  ultimately show ?thesis using Cons avp_items_empty by simp
qed simp

lemma avp_lengthIsOk_enc:
  assumes "avp_wf a" and "m = pre @ enc_avp a @ rest" and "length (enc_avp a) \<le> n" and "n < 2 ^ 32"
  shows "avp_lengthIsOk m (length pre) (word_of_nat n) = Ret True"
    and "avp_real_length m (length pre) = Ret (word_of_nat (length (enc_avp a)))"
proof -
  obtain body where b: "enc_avp a = enc_header (avp_code_of a) (avp_vendor a) (avp_size a) @ body"
    and l: "length (enc_avp a) = 8 + vendor_len (avp_vendor a) + avp_size a + pad4 (avp_size a)"
    using enc_avp_parts by blast
  have m: "m = pre @ enc_header (avp_code_of a) (avp_vendor a) (avp_size a) @ (body @ rest)" using assms(2) b by simp
  note h = header_fields(2) [OF m avp_wf_size [OF assms(1)]] header_lengths(3) [OF m avp_wf_size [OF assms(1)]]
  show r: "avp_real_length m (length pre) = Ret (word_of_nat (length (enc_avp a)))" using h(2) l by simp
  have u: "unat (word_of_nat n :: u32) = n" "unat (word_of_nat (8 + vendor_len (avp_vendor a)) :: u32) = 8 + vendor_len (avp_vendor a)"
    "unat (word_of_nat (length (enc_avp a)) :: u32) = length (enc_avp a)"
    using assms(3,4) avp_wf_len [OF assms(1)] l by (intro unat_word_of_nat; simp)+
  have "word_of_nat n \<ge> (8 :: u32)" "word_of_nat n \<ge> (word_of_nat (8 + vendor_len (avp_vendor a)) :: u32)"
    "word_of_nat (length (enc_avp a)) \<le> (word_of_nat n :: u32)"
    unfolding word_le_nat_alt u using l assms(3) by simp_all
  then show "avp_lengthIsOk m (length pre) (word_of_nat n) = Ret True"
    by (simp only: avp_lengthIsOk_def avp_headerLengthIsOk_def h(1) r omap.simps obind.simps if_True)
qed

lemma word_of_nat_pos: "n < 2 ^ 32 \<Longrightarrow> (word_of_nat n :: u32) > 0 \<longleftrightarrow> 0 < n"
  using unat_word_of_nat [where 'a = 32, of n] by (simp add: word_less_nat_alt)

lemma avp_leaf_enc:
  assumes "avp_wf (Leaf c v bs)" and "m = pre @ enc_avp (Leaf c v bs) @ rest"
  shows "avp_isGroup m (length pre) = Ret False" and "avp_leaf m (length pre) its = Ret (its @ avp_items (Leaf c v bs))"
proof -
  let ?n = "length bs"
  have m: "m = pre @ enc_header c v ?n @ (bs @ replicate (pad4 ?n) 0 @ rest)" using assms(2) by simp
  have n: "?n + 16 < 2 ^ 24" "\<not> group_code c" using assms(1) by simp_all
  note h = header_fields(1) [OF m n(1)] header_lengths [OF m n(1)]
  show "avp_isGroup m (length pre) = Ret False" using n(2) by (simp add: avp_isGroup_def h)
  have u: "unat (word_of_nat ?n :: u32) = ?n" using n by (intro unat_word_of_nat) simp
  have c: "(word_of_nat ?n :: u32) > 0 \<and> (word_of_nat ?n :: u32) < 16 * 1024 \<longleftrightarrow> 0 < ?n \<and> ?n < 16384"
    unfolding word_less_nat_alt u by simp
  have "ldn ?n m (length pre + 8 + vendor_len v) = Ret bs"
    by (simp add: m ldn_def)
  then show "avp_leaf m (length pre) its = Ret (its @ avp_items (Leaf c v bs))"
    by (simp only: avp_leaf_def h obind.simps c u omap.simps avp_items.simps) simp
qed

lemma avp_group_enc:
  assumes "avp_wf (Group c v as)" and "m = pre @ enc_avp (Group c v as) @ rest"
  shows "avp_parse (Suc fuel) m (length pre) its =
    (if concat (map enc_avp as) = [] then Ret its
     else avps_loop fuel m (length pre + 8 + vendor_len v) (word_of_nat (length (concat (map enc_avp as)))) 0 its)"
proof -
  let ?bs = "concat (map enc_avp as)"
  have m: "m = pre @ enc_header c v (length ?bs) @ (?bs @ rest)" using assms(2) by (simp add: Let_def)
  have n: "length ?bs + 16 < 2 ^ 24" "group_code c" using assms(1) by simp_all
  note h = header_fields(1) [OF m n(1)] header_lengths [OF m n(1)]
  have "avp_isGroup m (length pre) = Ret True" using n(2) by (simp only: avp_isGroup_def h) simp
  moreover have "(word_of_nat (length ?bs) :: u32) > 0 \<longleftrightarrow> ?bs \<noteq> []"
    using word_of_nat_pos [of "length ?bs"] n(1) by simp
  ultimately show ?thesis by (simp only: avp_parse.simps h obind.simps if_True) (simp split: if_splits)
qed

lemma avp_parse_enc:
  "(\<forall>a pre rest its. avp_wf a \<and> avp_fuel a \<le> fuel \<longrightarrow>
      avp_parse fuel (pre @ enc_avp a @ rest) (length pre) its = Ret (its @ avp_items a)) \<and>
   (\<forall>as pre rest its q off. (\<forall>a \<in> set as. avp_wf a) \<and> avps_fuel as \<le> fuel \<and> q + off = length pre \<and>
        off + length (concat (map enc_avp as)) < 2 ^ 32 \<longrightarrow>
      avps_loop fuel (pre @ concat (map enc_avp as) @ rest) q (word_of_nat (off + length (concat (map enc_avp as))))
        (word_of_nat off) its = Ret (its @ concat (map avp_items as)))"
proof (induction fuel)
  case 0
  have "\<not> avp_fuel a \<le> 0" for a by (cases a) auto
  then show ?case by (simp add: avps_fuel_def)
next
  case (Suc fuel)
  show ?case
  proof (intro conjI allI impI)
    fix a and pre rest :: mem and its
    assume a: "avp_wf a \<and> avp_fuel a \<le> Suc fuel"
    let ?m = "pre @ enc_avp a @ rest"
    show "avp_parse (Suc fuel) ?m (length pre) its = Ret (its @ avp_items a)"
    proof (cases a)
      case (Leaf c v bs)
      then show ?thesis using avp_leaf_enc [of c v bs ?m pre rest] a by (simp del: enc_avp.simps avp_items.simps)
    next
      case (Group c v as)
      let ?bs = "concat (map enc_avp as)"
      have wf: "avp_wf (Group c v as)" and n: "length ?bs + 16 < 2 ^ 24" "\<forall>a \<in> set as. avp_wf a" using a Group by simp_all
      have fuel: "avps_fuel as \<le> fuel" using a Group by (simp add: avps_fuel_def)
      have m': "pre @ enc_avp (Group c v as) @ rest = (pre @ enc_header c v (length ?bs)) @ ?bs @ rest" by (simp add: Let_def)
      have "avps_loop fuel (pre @ enc_avp (Group c v as) @ rest) (length pre + 8 + vendor_len v)
          (word_of_nat (0 + length ?bs)) (word_of_nat 0) its = Ret (its @ concat (map avp_items as))"
        unfolding m' by (rule Suc.IH [THEN conjunct2, rule_format]) (use n fuel in auto)
      moreover have "?bs = [] \<Longrightarrow> avp_items (Group c v as) = []" by (intro avp_items_empty) (simp add: avp_size_def)
      ultimately show ?thesis
        using avp_group_enc [OF wf refl, of fuel pre rest its]
        by (cases "?bs = []") (simp_all only: Group avp_items.simps simp_thms if_True if_False add_0 semiring_1_class.of_nat_0 append_Nil2)
    qed
  next
    fix as and pre rest :: mem and its and q off :: nat
    assume h: "(\<forall>a \<in> set as. avp_wf a) \<and> avps_fuel as \<le> Suc fuel \<and> q + off = length pre \<and>
        off + length (concat (map enc_avp as)) < 2 ^ 32"
    let ?m = "pre @ concat (map enc_avp as) @ rest" and ?L = "length (concat (map enc_avp as))"
    have uo: "unat (word_of_nat off :: u32) = off" "unat (word_of_nat (off + ?L) :: u32) = off + ?L"
      using h by (intro unat_word_of_nat; simp)+
    have df: "(word_of_nat (off + ?L) :: u32) - word_of_nat off = word_of_nat ?L" by simp
    have uL: "unat (word_of_nat ?L :: u32) = ?L" using h by (intro unat_word_of_nat) simp
    have cond: "(word_of_nat off :: u32) < word_of_nat (off + ?L) \<and> (word_of_nat ?L :: u32) > 8 \<longleftrightarrow> 8 < ?L"
      unfolding word_less_nat_alt uo uL by auto
    show "avps_loop (Suc fuel) ?m q (word_of_nat (off + ?L)) (word_of_nat off) its = Ret (its @ concat (map avp_items as))"
    proof (cases "8 < ?L")
      case False
      then have "concat (map avp_items as) = []" by (intro enc_short_items) simp
      then show ?thesis using False by (simp only: avps_loop.simps df cond if_False append_Nil2)
    next
      case True
      then obtain a as' where as: "as = a # as'" by (cases as) auto
      let ?l = "length (enc_avp a)"
      have m: "?m = pre @ enc_avp a @ (concat (map enc_avp as') @ rest)" by (simp add: as)
      have wf: "avp_wf a" "\<forall>a \<in> set as'. avp_wf a" and fu: "avp_fuel a \<le> fuel" "avps_fuel as' \<le> fuel"
        using h by (auto simp: as avps_fuel_def)
      have "?l \<le> ?L" by (simp add: as)
      then have ok: "avp_lengthIsOk ?m (length pre) (word_of_nat ?L) = Ret True"
        "avp_real_length ?m (length pre) = Ret (word_of_nat ?l)"
        using avp_lengthIsOk_enc [OF wf(1) m] h by simp_all
      have p: "avp_parse fuel ?m (length pre) its = Ret (its @ avp_items a)"
        unfolding m using Suc.IH wf(1) fu(1) by blast
      have m': "?m = (pre @ enc_avp a) @ concat (map enc_avp as') @ rest" by (simp add: as)
      have L: "off + ?L = (off + ?l) + length (concat (map enc_avp as'))" by (simp add: as)
      have N: "avps_loop fuel ?m q (word_of_nat (off + ?L)) (word_of_nat (off + ?l)) (its @ avp_items a) =
          Ret ((its @ avp_items a) @ concat (map avp_items as'))"
        unfolding L m' by (rule Suc.IH [THEN conjunct2, rule_format]) (use wf fu h as in auto)
      have S: "word_of_nat off + word_of_nat ?l = (word_of_nat (off + ?l) :: u32)" by (rule of_nat_add [symmetric])
      have Q: "q + off = length pre" using h by blast
      have C: "concat (map avp_items as) = avp_items a @ concat (map avp_items as')" by (simp add: as)
      show ?thesis
        unfolding avps_loop.simps df uo Q ok obind.simps p S N C append_assoc by (simp only: cond True if_True)
    qed
  qed
qed


section \<open>Every buffer: bounds and divergence\<close>

lemma be24_value_less:
  assumes "length bs = 3"
  shows "unat (ntohl (push_bit 8 (le_word bs))) < 2 ^ 24"
proof -
  have "ntohl (push_bit 8 (le_word bs)) = le_word (rev bs @ [0])"
    using assms by (simp add: push_bit_le_word ntohl_le_word)
  moreover have "unat (le_word (rev bs @ [0]) :: u32) = le_nat (rev bs)"
    using assms by (subst unat_le_word) (simp_all add: le_nat_append)
  moreover have "le_nat (rev bs) < 256 ^ 3" using le_nat_less [of "rev bs"] assms by simp
  ultimately show ?thesis by simp
qed

lemma unat_round4:
  assumes "unat (l :: u32) < 2 ^ 24"
  shows "unat (l div 4 * 4 + (if l mod 4 \<noteq> 0 then 4 else 0)) = unat l + pad4 (unat l)"
proof -
  have "l mod 4 \<noteq> 0 \<longleftrightarrow> unat l mod 4 \<noteq> 0"
    by (simp add: word_unat_eq_iff unat_mod_distrib)
  then show ?thesis
    using assms pad4_round [of "unat l"] by (auto simp: unat_word_ariths unat_div_distrib unat_mod_distrib split: if_splits)
qed

definition avp_facts :: "mem \<Rightarrow> nat \<Rightarrow> u32 \<Rightarrow> u32 \<Rightarrow> u32 \<Rightarrow> u32 \<Rightarrow> u32 \<Rightarrow> bool" where
  "avp_facts m p n c hl l rl =
     (avp_code m p = Ret c \<and> avp_isGroup m p = Ret (group_code c) \<and> avp_header_length m p = Ret hl \<and>
      (unat hl = 8 \<or> unat hl = 12) \<and> avp_payload m p = Ret (p + unat hl) \<and> avp_length m p = Ret l \<and> unat l < 2 ^ 24 \<and>
      avp_real_length m p = Ret rl \<and> unat rl = unat l + pad4 (unat l) \<and>
      avp_payload_len m p = Ret (if l > hl then l - hl else 0) \<and> avp_lengthIsOk m p n = Ret (hl \<le> n \<and> rl \<le> n))"

lemma avp_view:
  assumes "p + unat n \<le> length m" and "8 \<le> n"
  shows "\<exists>c hl l rl. avp_facts m p n c hl l rl"
proof -
  have p8: "p + 8 \<le> length m" using assms by (simp add: word_le_nat_alt)
  obtain c where c: "avp_code m p = Ret c" using p8 by (simp add: avp_code_def ld32_Ret)
  obtain hl where hl: "avp_header_length m p = Ret hl" "unat hl = 8 \<or> unat hl = 12"
    using p8 by (simp add: avp_header_length_def avp_flags_def ld8_def)
  have "ldn 3 m (p + 5) = Ret (take 3 (drop (p + 5) m))" and l3: "length (take 3 (drop (p + 5) m)) = 3"
    using p8 by (simp_all add: ldn_def)
  then obtain l where l: "avp_length m p = Ret l" "unat l < 2 ^ 24"
    using be24_value_less [OF l3] by (simp add: avp_length_def)
  define rl where "rl = l div 4 * 4 + (if l mod 4 \<noteq> 0 then 4 else 0)"
  have rl: "avp_real_length m p = Ret rl" "unat rl = unat l + pad4 (unat l)"
    using unat_round4 [OF l(2)] by (simp_all only: avp_real_length_def l omap.simps rl_def)
  have "avp_facts m p n c hl l rl"
    using c hl l rl assms(2)
    by (simp add: avp_facts_def avp_isGroup_def avp_payload_def avp_payload_len_def avp_lengthIsOk_def avp_headerLengthIsOk_def)
  then show ?thesis by blast
qed

lemma avp_leaf_in_bounds:
  assumes "p + unat n \<le> length m" and "8 \<le> n" and "avp_lengthIsOk m p n = Ret True"
  shows "avp_leaf m p its \<noteq> OutOfBounds"
proof -
  obtain c hl l rl where "avp_facts m p n c hl l rl" using avp_view [OF assms(1,2)] by blast
  then have v: "avp_code m p = Ret c" "avp_payload m p = Ret (p + unat hl)"
    "avp_payload_len m p = Ret (if l > hl then l - hl else 0)" "unat rl = unat l + pad4 (unat l)" "hl \<le> n \<and> rl \<le> n"
    using assms(3) by (simp_all add: avp_facts_def)
  have "unat l \<le> unat n" using v(4,5) by (simp add: word_le_nat_alt)
  then have "hl < l \<Longrightarrow> unat hl + unat (l - hl) \<le> unat n" by (simp add: unat_sub word_less_nat_alt word_le_nat_alt)
  then show ?thesis
    using assms(1) v by (auto simp: avp_leaf_def ldn_def)
qed

lemma parse_in_bounds:
  "(\<forall>p n its. p + unat n \<le> length m \<and> 8 \<le> n \<and> avp_lengthIsOk m p n = Ret True \<longrightarrow> avp_parse fuel m p its \<noteq> OutOfBounds) \<and>
   (\<forall>q len off its. q + unat len \<le> length m \<longrightarrow> avps_loop fuel m q len off its \<noteq> OutOfBounds)"
proof (induction fuel)
  case (Suc fuel)
  show ?case
  proof (intro conjI allI impI)
    fix p its and n :: u32
    assume h: "p + unat n \<le> length m \<and> 8 \<le> n \<and> avp_lengthIsOk m p n = Ret True"
    then obtain c hl l rl where "avp_facts m p n c hl l rl" using avp_view by blast
    then have v: "avp_isGroup m p = Ret (group_code c)" "avp_payload m p = Ret (p + unat hl)"
      "avp_payload_len m p = Ret (if l > hl then l - hl else 0)" "unat rl = unat l + pad4 (unat l)" "hl \<le> n \<and> rl \<le> n"
      using h by (simp_all add: avp_facts_def)
    have "unat l \<le> unat n" using v(4,5) by (simp add: word_le_nat_alt)
    then have "hl < l \<Longrightarrow> p + unat hl + unat (l - hl) \<le> length m"
      using h by (simp add: unat_sub word_less_nat_alt word_le_nat_alt)
    then show "avp_parse (Suc fuel) m p its \<noteq> OutOfBounds"
      using Suc.IH v avp_leaf_in_bounds [of p n m its] h by (cases "group_code c") auto
  next
    fix q its and len off :: u32
    assume h: "q + unat len \<le> length m"
    show "avps_loop (Suc fuel) m q len off its \<noteq> OutOfBounds"
    proof (cases "off < len \<and> len - off > 8")
      case True
      then have "off \<le> len" and d2: "8 \<le> len - off" by auto
      then have d: "q + unat off + unat (len - off) \<le> length m" "8 \<le> len - off"
        using h by (simp_all add: unat_sub word_le_nat_alt)
      obtain c hl l rl where "avp_facts m (q + unat off) (len - off) c hl l rl" using avp_view [OF d] by blast
      then have v: "avp_real_length m (q + unat off) = Ret rl"
        "avp_lengthIsOk m (q + unat off) (len - off) = Ret (hl \<le> len - off \<and> rl \<le> len - off)"
        by (simp_all add: avp_facts_def)
      have "avps_loop fuel m q len (off + rl) i \<noteq> OutOfBounds" for i using Suc.IH h by blast
      moreover have "hl \<le> len - off \<and> rl \<le> len - off \<Longrightarrow> avp_parse fuel m (q + unat off) its \<noteq> OutOfBounds"
        using Suc.IH d v(2) by auto
      ultimately show ?thesis
        using True v by (cases "avp_parse fuel m (q + unat off) its") auto
    qed auto
  qed
qed simp

lemma zero_length_loop:
  assumes "q + unat len \<le> length m" and "unat off + 8 < unat len" and "avp_length m (q + unat off) = Ret 0"
    and "avp_header_length m (q + unat off) = Ret 8 \<or> unat off + 12 \<le> unat len"
  shows "avps_loop fuel m q len off its = OutOfFuel"
proof (induction fuel)
  case (Suc fuel)
  have c: "off < len" "len - off > 8" and d: "q + unat off + unat (len - off) \<le> length m" "8 \<le> len - off"
    using assms(1,2) by (simp_all add: unat_sub word_less_nat_alt word_le_nat_alt)
  obtain c hl l rl where f: "avp_facts m (q + unat off) (len - off) c hl l rl" using avp_view [OF d] by blast
  have l0: "l = 0" using f assms(3) by (simp add: avp_facts_def)
  then have "unat rl = 0" using f by (simp add: avp_facts_def pad4_def)
  then have rl0: "rl = 0" by (simp only: unat_eq_zero)
  have v: "avp_isGroup m (q + unat off) = Ret (group_code c)" "avp_header_length m (q + unat off) = Ret hl" "unat hl = 8 \<or> unat hl = 12"
    and ok: "avp_lengthIsOk m (q + unat off) (len - off) = Ret (hl \<le> len - off)"
    and pl: "avp_payload_len m (q + unat off) = Ret 0" and rl: "avp_real_length m (q + unat off) = Ret 0"
    using f by (simp_all add: avp_facts_def l0 rl0)
  have "unat hl \<le> unat (len - off)"
    using assms(4) v(2,3) c(1) assms(2) by (auto simp: unat_sub word_less_nat_alt word_le_nat_alt)
  then have t: "avp_lengthIsOk m (q + unat off) (len - off) = Ret True" using ok by (simp add: word_le_nat_alt)
  have "avp_parse fuel m (q + unat off) its = Ret its \<or> avp_parse fuel m (q + unat off) its = OutOfFuel"
    by (cases fuel; cases "group_code c") (simp_all add: v pl avp_leaf_def)
  then show ?case using Suc c t rl by auto
qed simp


section \<open>Whole messages\<close>

lemma dia_message_fields:
  assumes "m = dia_message flags command app hbh e2e as" and "length (concat (map enc_avp as)) + 20 < 2 ^ 24"
  shows "dia_length m 0 = Ret (word_of_nat (length m))" and "length m = 20 + length (concat (map enc_avp as))"
    and "dia_hop_by_hop_id m 0 = Ret hbh" and "dia_flags m 0 = Ret flags" and "ld8 m 0 = Ret 1"
proof -
  let ?bs = "concat (map enc_avp as)"
  show len: "length m = 20 + length ?bs" by (simp add: assms(1) dia_message_def Let_def)
  obtain r where r: "m = [1] @ be24 (20 + length ?bs) @ r" by (simp add: assms(1) dia_message_def Let_def)
  have "ldn 3 m (length [1 :: u8] + 0) = Ret (be24 (20 + length ?bs))"
    unfolding r ldn_shift using ldn_prefix [of "be24 (20 + length ?bs)" r] by simp
  then show "dia_length m 0 = Ret (word_of_nat (length m))"
    using ntohl_be24 [of "20 + length ?bs"] assms(2) by (simp add: dia_length_def len)
  have "m = ([1] @ be24 (20 + length ?bs) @ [flags] @ be24 (unat command) @ be32 app) @ be32 hbh @ be32 e2e @ ?bs"
    by (simp add: assms(1) dia_message_def Let_def)
  then have "ld32 m 12 = Ret (le_word (be32 hbh))"
    using ld32_shift [of "[1] @ be24 (20 + length ?bs) @ [flags] @ be24 (unat command) @ be32 app" "be32 hbh @ be32 e2e @ ?bs" 0]
    by (simp add: ld32_def ldn_def)
  then show "dia_hop_by_hop_id m 0 = Ret hbh" by (simp add: dia_hop_by_hop_id_def ntohl_be32)
  have "m = ([1] @ be24 (20 + length ?bs)) @ flags # (be24 (unat command) @ be32 app @ be32 hbh @ be32 e2e @ ?bs)"
    by (simp add: assms(1) dia_message_def Let_def)
  then show "dia_flags m 0 = Ret flags"
    using ld8_shift [of "[1] @ be24 (20 + length ?bs)" "flags # (be24 (unat command) @ be32 app @ be32 hbh @ be32 e2e @ ?bs)" 0]
    by (simp add: dia_flags_def ld8_def)
  show "ld8 m 0 = Ret 1" by (simp add: r ld8_def)
qed

lemma dia_parse_message:
  assumes "m = dia_message flags command app hbh e2e as" and "length (concat (map enc_avp as)) + 20 < 2 ^ 24"
    and "\<forall>a \<in> set as. avp_wf a" and "avps_fuel as \<le> fuel"
  shows "dia_parse fuel m 0 its = Ret (its @ concat (map avp_items as))"
proof -
  let ?bs = "concat (map enc_avp as)"
  let ?pre = "[1] @ be24 (20 + length ?bs) @ [flags] @ be24 (unat command) @ be32 app @ be32 hbh @ be32 e2e"
  have m: "m = ?pre @ ?bs @ []" by (simp add: assms(1) dia_message_def Let_def)
  have pl: "dia_payload_len m 0 = Ret (word_of_nat (0 + length ?bs))"
    using dia_message_fields(1,2) [OF assms(1,2)] by (simp add: dia_payload_len_def)
  have "avps_loop fuel m (20 + 0) (word_of_nat (0 + length ?bs)) (word_of_nat 0) its = Ret (its @ concat (map avp_items as))"
    unfolding m by (rule avp_parse_enc [THEN conjunct2, rule_format]) (use assms in auto)
  then show ?thesis using pl by (simp add: dia_parse_def)
qed

lemma tolower_colon: "c_tolower c = CHR '':'' \<Longrightarrow> c = CHR '':''"
proof (cases "c_isupper c")
  case True
  then have "(of_char (c_tolower c) :: nat) = of_char c + 32" by (simp add: c_tolower_def c_isupper_def)
  moreover assume "c_tolower c = CHR '':''"
  ultimately show ?thesis using True by (simp add: c_isupper_def)
qed (simp add: c_tolower_def)

section \<open>Properties\<close>

text \<open>C17: A Diameter message built from well-formed AVPs (grouped AVPs nested to any depth, with or without
  vendor identifier, padded to four bytes) is accepted by \<open>checkOkDiameter\<close>, its header is read back, and
  \<open>parse\<close> ends and yields exactly the non-empty leaf AVPs below 16 KiB in order.\<close>

theorem diameter_roundtrip:
  assumes "\<forall>a \<in> set as. avp_wf a" and "length (concat (map enc_avp as)) + 20 < 2 ^ 24"
  shows "let m = dia_message flags command app hbh e2e as in
     checkOkDiameter m 0 (word_of_nat (length m)) = Ret True \<and>
     dia_hop_by_hop_id m 0 = Ret hbh \<and> dia_isRequest m 0 = Ret (flags AND 0x80 \<noteq> 0) \<and>
     (\<forall>fuel \<ge> avps_fuel as. dia_parse fuel m 0 [] = Ret (concat (map avp_items as)))"
proof -
  define m where "m = dia_message flags command app hbh e2e as"
  note f = dia_message_fields [OF m_def assms(2)]
  have u: "unat (word_of_nat (length m) :: u32) = length m" using f(2) assms(2) by (intro unat_word_of_nat) simp
  have "(word_of_nat (length m) :: u32) > 0" "(word_of_nat (length m) :: u32) \<ge> 20"
    unfolding word_less_nat_alt word_le_nat_alt u using f(2) by simp_all
  then have "checkOkDiameter m 0 (word_of_nat (length m)) = Ret True"
    by (simp add: checkOkDiameter_def f(1,5) dia_versionIsOk_def dia_headerLengthIsOk_def dia_lengthIsOk_def)
  moreover have "dia_isRequest m 0 = Ret (flags AND 0x80 \<noteq> 0)" by (simp add: dia_isRequest_def f(4))
  moreover have "\<forall>fuel \<ge> avps_fuel as. dia_parse fuel m 0 [] = Ret (concat (map avp_items as))"
    using dia_parse_message [OF m_def assms(2,1), of _ "[]"] by simp
  ultimately show ?thesis using f(3) by (simp only: Let_def m_def)
qed

theorem diameter_roundtrip_witness:
  "dia_parse 9 (dia_message 0x80 300 1 7 9 [Group 873 (Some 10415) [Leaf 601 None [115, 105, 112]], Leaf 263 None [97]]) 0 [] =
   Ret [\<lparr>it_code = 601, it_length = 3, it_payload = [115, 105, 112]\<rparr>, \<lparr>it_code = 263, it_length = 1, it_payload = [97]\<rparr>]"
proof -
  let ?as = "[Group 873 (Some 10415) [Leaf 601 None [115, 105, 112]], Leaf 263 None [97]]"
  have "\<forall>a \<in> set ?as. avp_wf a" and "length (concat (map enc_avp ?as)) + 20 < 2 ^ 24"
    by (simp_all add: group_code_def vendor_len_def pad4_def)
  from diameter_roundtrip [OF this, where flags = 128 and command = 300 and app = 1 and hbh = 7 and e2e = 9] show ?thesis
    by (simp add: Let_def avps_fuel_def)
qed

text \<open>C28: Whatever bytes a message holds, \<open>parse\<close> stays inside the captured bytes when the length field is at least
  the header size and at most the bytes there are.\<close>

theorem diameter_parse_in_bounds:
  assumes "dia_length m p = Ret l" and "20 \<le> l" and "p + unat l \<le> length m"
  shows "dia_parse fuel m p its \<noteq> OutOfBounds"
proof -
  have "p + 20 + unat (l - 20) \<le> length m" using assms(2,3) by (simp add: unat_sub word_le_nat_alt)
  then have "avps_loop fuel m (p + 20) (l - 20) 0 its \<noteq> OutOfBounds" using parse_in_bounds by blast
  then show ?thesis using assms(1) by (simp add: dia_parse_def dia_payload_len_def)
qed

theorem diameter_parse_in_bounds_witness:
  "dia_parse 5 ([1, 0, 0, 24] @ replicate 20 255) 0 [] \<noteq> OutOfBounds"
  by (rule diameter_parse_in_bounds [of _ _ 24])
     (simp_all add: dia_length_def ldn_def le_word_def ntohl_def word_le_def)

text \<open>A message whose length field is below the header size passes \<open>checkOkDiameter\<close>, and \<open>parse\<close> then reads
  behind the captured bytes: the payload length wraps around.\<close>

theorem diameter_short_length_overrun:
  assumes "ld8 m 0 = Ret 1" and "length m = 20" and "dia_length m 0 = Ret l" and "l < 20"
  shows "checkOkDiameter m 0 20 = Ret True \<and> dia_parse (Suc fuel) m 0 its = OutOfBounds"
proof
  show "checkOkDiameter m 0 20 = Ret True"
    using assms by (simp add: checkOkDiameter_def dia_versionIsOk_def dia_headerLengthIsOk_def dia_lengthIsOk_def)
  have "unat (l - 20) = unat l + (2 ^ 32 - 20)"
    using assms(4) by (simp add: unat_sub_if' word_less_nat_alt word_le_nat_alt)
  then have b: "l - 20 > 8" "l - 20 > 0" "l - 20 \<ge> 8" by (simp_all add: word_less_nat_alt word_le_nat_alt)
  have "avp_lengthIsOk m 20 (l - 20) = OutOfBounds"
    using b assms(2) by (simp add: avp_lengthIsOk_def avp_headerLengthIsOk_def avp_header_length_def avp_flags_def ld8_def)
  then show "dia_parse (Suc fuel) m 0 its = OutOfBounds"
    using b assms(3) by (simp add: dia_parse_def dia_payload_len_def)
qed

theorem diameter_short_length_overrun_witness:
  "checkOkDiameter [1, 0, 0, 0, 0, 0, 0, 0, 0, 0, 0, 0, 0, 0, 0, 0, 0, 0, 0, 0] 0 20 = Ret True \<and> dia_parse (Suc 3) [1, 0, 0, 0, 0, 0, 0, 0, 0, 0, 0, 0, 0, 0, 0, 0, 0, 0, 0, 0] 0 [] = OutOfBounds"
  by (rule diameter_short_length_overrun [of _ 0])
     (simp_all add: ld8_def dia_length_def ldn_def le_word_def ntohl_def word_le_def)

text \<open>C32: A message whose first AVP has the length field 0 is parsed forever: no amount of fuel is enough.\<close>

theorem diameter_zero_avp_diverges:
  assumes "dia_length m p = Ret l" and "p + unat l \<le> length m" and "32 \<le> unat l" and "avp_length m (p + 20) = Ret 0"
  shows "dia_parse fuel m p its = OutOfFuel"
proof -
  have u: "unat (l - 20) = unat l - 20" using assms(3) by (simp add: unat_sub word_le_nat_alt)
  have "avps_loop fuel m (p + 20) (l - 20) 0 its = OutOfFuel"
    by (rule zero_length_loop) (use assms u in auto)
  then show ?thesis using assms(1) by (simp add: dia_parse_def dia_payload_len_def)
qed

theorem diameter_zero_avp_diverges_witness:
  "\<forall>fuel. dia_parse fuel [1, 0, 0, 32, 0, 0, 0, 0, 0, 0, 0, 0, 0, 0, 0, 0, 0, 0, 0, 0, 0, 0, 0, 0, 0, 0, 0, 0, 0, 0, 0, 0] 0 [] = OutOfFuel"
proof
  fix fuel
  show "dia_parse fuel [1, 0, 0, 32, 0, 0, 0, 0, 0, 0, 0, 0, 0, 0, 0, 0, 0, 0, 0, 0, 0, 0, 0, 0, 0, 0, 0, 0, 0, 0, 0, 0] 0 [] = OutOfFuel"
    by (rule diameter_zero_avp_diverges [of _ _ 32])
       (simp_all add: dia_length_def avp_length_def ldn_def le_word_def ntohl_def word_le_def)
qed

text \<open>With \<open>opt_diameter_ignore_prefix\<close> set, a session identifier that is a \<open>sip:\<close> or \<open>tel:\<close> URI loses its scheme
  before \<open>getSessionId\<close> asks for the scheme, so no identifier is found (the user part holding no
  colon or semicolon).\<close>

theorem session_id_lost:
  assumes "dia_getValue 263 its = scheme @ user" and "scheme = ''sip:'' \<or> scheme = ''tel:''" and "user \<noteq> []"
    and "CHR '':'' \<notin> set user" and "CHR '';'' \<notin> set user"
  shows "dia_getSessionId False True its = [] \<and> dia_getSessionId False False its = scheme @ user"
proof -
  have "CHR '';'' \<notin> set (scheme @ user)" using assms(2,5) by auto
  then have a: "after_last_semicolon (scheme @ user) = scheme @ user" by (simp add: after_last_semicolon_def)
  have "strchr (scheme @ user) CHR '':'' = Some 3" using assms(2) by auto
  then have s: "strip_prefix True (scheme @ user) = user" using assms(2,3) by (auto simp: strip_prefix_def)
  have "has_uri_scheme (scheme @ user)" using assms(2) by (auto simp: has_uri_scheme_def c_tolower_def c_isupper_def)
  moreover have "\<not> has_uri_scheme user"
  proof
    assume "has_uri_scheme user"
    then have "c_tolower (user ! 3) = CHR '':''" and l: "3 < length user"
      by (auto simp: has_uri_scheme_def dest!: arg_cong [where f = "\<lambda>xs. (length xs, xs ! 3)"])
    then have "user ! 3 = CHR '':''" using tolower_colon by blast
    then show False using assms(4) l nth_mem by metis
  qed
  ultimately show ?thesis
    using assms(1,2) s a by (auto simp: dia_getSessionId_def Let_def strip_domain_def strip_prefix_def)
qed


theorem session_id_lost_witness:
  "dia_getSessionId False True [\<lparr>it_code = 263, it_length = 7, it_payload = [115, 105, 112, 58, 98, 111, 98]\<rparr>] = []"
proof -
  let ?its = "[\<lparr>it_code = 263, it_length = 7, it_payload = [115, 105, 112, 58, 98, 111, 98]\<rparr>]"
  have "dia_getValue 263 ?its = ''sip:'' @ ''bob''" by (simp add: payload_string_def char_of_def bit_simps)
  from session_id_lost [OF this] show ?thesis by simp
qed

end
