(* ===== verification/VM_DiameterStack.thy ===== *)
theory VM_DiameterStack
  imports VM_StdString VM_Diameter
begin

text \<open>
  The store of Diameter packets that wait for their SIP call (\<open>cDiameterPacketStack\<close> of \<open>diameter.h\<close> and
  \<open>diameter.cpp\<close>). A queue of packets is a heap object; the stack, the two search indexes and the
  hop-by-hop index hold pointers to it. The heap is a map from addresses to live queues, \<open>new\<close> takes an address
  from the caller (whatever the allocator returns) and reading a deleted queue is \<open>OutOfBounds\<close>. Whether a
  call still uses an identity (\<open>check_used\<close>, which asks the call table) is the parameter \<open>used\<close>. The
  lock and the release of the packets themselves are left out.
\<close>

section \<open>Data\<close>

record sPacket =
  pk_packet :: nat
  pk_is_request :: bool
  pk_hbh :: u32
  pk_time :: u64

record sQueuePacketsId =
  public_identity :: string
  session_id :: string
  calling_party_address :: string

record cQueuePackets =
  qp_id :: sQueuePacketsId
  qp_packets :: "sPacket list"

type_synonym ptr = nat
type_synonym find_index = "(string, ptr list) std_map"

record packet_stack =
  ds_heap :: "ptr \<rightharpoonup> cQueuePackets"
  ds_stack :: "(sQueuePacketsId, ptr) std_map"
  ds_by_from :: find_index
  ds_by_to :: find_index
  ds_hbh :: "(u32, ptr) std_map"
  ds_age_expiration_s :: u32
  ds_cleanup_period_s :: u32
  ds_last_cleanup_s :: u32

definition TIME_US_TO_S :: "u64 \<Rightarrow> u32" where
  "TIME_US_TO_S us = ucast (us div 1000000)"

definition TIME_S_TO_US :: "int \<Rightarrow> u64" where
  "TIME_S_TO_US s = word_of_int s * 1000000"

definition packet_age_s :: "sPacket \<Rightarrow> u64 \<Rightarrow> u32" where
  "packet_age_s p time_us = (if pk_time p < time_us then TIME_US_TO_S (time_us - pk_time p) else 0)"

definition qid_set :: "bool \<Rightarrow> bool \<Rightarrow> avp_item list \<Rightarrow> sQueuePacketsId" where
  "qid_set ignore_domain ignore_prefix its =
     \<lparr>public_identity = dia_getPublicIdentity ignore_domain ignore_prefix its,
      session_id = dia_getSessionId ignore_domain ignore_prefix its,
      calling_party_address = dia_getCallingPartyAddress ignore_domain ignore_prefix its\<rparr>"

definition qid_isSet :: "sQueuePacketsId \<Rightarrow> bool" where
  "qid_isSet i = (public_identity i \<noteq> [] \<or> session_id i \<noteq> [] \<or> calling_party_address i \<noteq> [])"

definition qid_lt :: "sQueuePacketsId \<Rightarrow> sQueuePacketsId \<Rightarrow> bool" where
  "qid_lt a b =
     (if str_lt (public_identity a) (public_identity b) then True
      else if str_lt (public_identity b) (public_identity a) then False
      else if str_lt (session_id a) (session_id b) then True
      else if str_lt (session_id b) (session_id a) then False
      else str_lt (calling_party_address a) (calling_party_address b))"

definition qp_add :: "cQueuePackets \<Rightarrow> nat \<Rightarrow> bool \<Rightarrow> u32 \<Rightarrow> u64 \<Rightarrow> cQueuePackets" where
  "qp_add qp packet is_request hbh_id time_us =
     qp\<lparr>qp_packets := qp_packets qp @
        [\<lparr>pk_packet = packet, pk_is_request = is_request, pk_hbh = hbh_id, pk_time = time_us\<rparr>]\<rparr>"

definition qp_age_s :: "cQueuePackets \<Rightarrow> u64 \<Rightarrow> u32" where
  "qp_age_s qp time_us = (case qp_packets qp of [] \<Rightarrow> 0 | p # _ \<Rightarrow> packet_age_s p time_us)"

definition ds_create :: packet_stack where
  "ds_create = \<lparr>ds_heap = Map.empty, ds_stack = [], ds_by_from = [], ds_by_to = [], ds_hbh = [],
     ds_age_expiration_s = 60, ds_cleanup_period_s = 120, ds_last_cleanup_s = 0\<rparr>"

section \<open>Search indexes\<close>

definition index_list :: "string \<Rightarrow> find_index \<Rightarrow> ptr list" where
  "index_list k m = (case map_find str_lt k m of None \<Rightarrow> [] | Some l \<Rightarrow> l)"

definition addFindIndex :: "ptr \<Rightarrow> string \<Rightarrow> find_index \<Rightarrow> find_index" where
  "addFindIndex a k m =
     (let l = index_list k m in map_put str_lt k (if a \<in> set l then l else l @ [a]) m)"

definition eraseFindIndex :: "ptr \<Rightarrow> string \<Rightarrow> find_index \<Rightarrow> find_index" where
  "eraseFindIndex a k m =
     (let l = remove1 a (index_list k m) in if l = [] then map_erase str_lt k m else map_put str_lt k l m)"

text \<open>The keys a queue is found by: the non-empty identities, the calling party only as a caller.\<close>

definition to_keys :: "sQueuePacketsId \<Rightarrow> string list" where
  "to_keys i = (if public_identity i \<noteq> [] then [public_identity i] else []) @ (if session_id i \<noteq> [] then [session_id i] else [])"

definition from_keys :: "sQueuePacketsId \<Rightarrow> string list" where
  "from_keys i = to_keys i @ (if calling_party_address i \<noteq> [] then [calling_party_address i] else [])"

definition addFindIndexes :: "ptr \<Rightarrow> sQueuePacketsId \<Rightarrow> packet_stack \<Rightarrow> packet_stack" where
  "addFindIndexes a i ds =
     ds\<lparr>ds_by_to := fold (addFindIndex a) (to_keys i) (ds_by_to ds),
        ds_by_from := fold (addFindIndex a) (from_keys i) (ds_by_from ds)\<rparr>"

definition eraseFindIndexes :: "ptr \<Rightarrow> sQueuePacketsId \<Rightarrow> packet_stack \<Rightarrow> packet_stack" where
  "eraseFindIndexes a i ds =
     ds\<lparr>ds_by_to := fold (eraseFindIndex a) (to_keys i) (ds_by_to ds),
        ds_by_from := fold (eraseFindIndex a) (from_keys i) (ds_by_from ds)\<rparr>"

section \<open>Operations\<close>

definition deref :: "packet_stack \<Rightarrow> ptr \<Rightarrow> cQueuePackets outcome" where
  "deref ds a = (case ds_heap ds a of Some qp \<Rightarrow> Ret qp | None \<Rightarrow> OutOfBounds)"

definition erase_hbhs :: "sPacket list \<Rightarrow> (u32, ptr) std_map \<Rightarrow> (u32, ptr) std_map" where
  "erase_hbhs ps m = fold (\<lambda>p. map_erase (<) (pk_hbh p)) ps m"

text \<open>A queue object leaves all maps and is deleted.\<close>

definition delete_queue :: "ptr \<Rightarrow> sQueuePacketsId \<Rightarrow> packet_stack \<Rightarrow> packet_stack" where
  "delete_queue a i ds =
     (let ds = eraseFindIndexes a i (ds\<lparr>ds_stack := map_erase qid_lt i (ds_stack ds)\<rparr>) in
      ds\<lparr>ds_heap := (ds_heap ds)(a := None)\<rparr>)"

fun expired_prefix :: "u32 \<Rightarrow> u64 \<Rightarrow> sPacket list \<Rightarrow> sPacket list" where
  "expired_prefix expiration time_us [] = []"
| "expired_prefix expiration time_us (p # ps) =
     (if packet_age_s p time_us > expiration then p # expired_prefix expiration time_us ps else [])"

text \<open>Packets are taken out of a queue; a queue without packets is deleted.\<close>

definition take_packets :: "ptr \<Rightarrow> cQueuePackets \<Rightarrow> sPacket list \<Rightarrow> sPacket list \<Rightarrow> packet_stack \<Rightarrow> packet_stack" where
  "take_packets a qp taken kept ds =
     (let ds = ds\<lparr>ds_hbh := erase_hbhs taken (ds_hbh ds), ds_heap := (ds_heap ds)(a \<mapsto> qp\<lparr>qp_packets := kept\<rparr>)\<rparr> in
      if kept = [] then delete_queue a (qp_id qp) ds else ds)"

definition cleanup_queue :: "(sQueuePacketsId \<Rightarrow> bool) \<Rightarrow> u32 \<Rightarrow> u64 \<Rightarrow> sQueuePacketsId \<times> ptr \<Rightarrow> packet_stack \<Rightarrow> packet_stack outcome" where
  "cleanup_queue used absolute_timeout time_us e ds =
     obind (deref ds (snd e)) (\<lambda>qp.
       let age = qp_age_s qp time_us in
       if age > absolute_timeout + 120 \<or> age > ds_age_expiration_s ds \<and> \<not> used (fst e) then
         (let gone = expired_prefix (ds_age_expiration_s ds) time_us (qp_packets qp) in
          Ret (take_packets (snd e) qp gone (drop (length gone) (qp_packets qp)) ds))
       else Ret ds)"

fun cleanup_loop :: "(sQueuePacketsId \<Rightarrow> bool) \<Rightarrow> u32 \<Rightarrow> u64 \<Rightarrow> (sQueuePacketsId, ptr) std_map \<Rightarrow> packet_stack \<Rightarrow> packet_stack outcome" where
  "cleanup_loop used absolute_timeout time_us [] ds = Ret ds"
| "cleanup_loop used absolute_timeout time_us (e # es) ds =
     obind (cleanup_queue used absolute_timeout time_us e ds) (cleanup_loop used absolute_timeout time_us es)"

definition ds_cleanup :: "(sQueuePacketsId \<Rightarrow> bool) \<Rightarrow> u32 \<Rightarrow> u64 \<Rightarrow> u64 \<Rightarrow> packet_stack \<Rightarrow> packet_stack outcome" where
  "ds_cleanup used absolute_timeout now time_us ds =
     cleanup_loop used absolute_timeout (if time_us = 0 then now else time_us) (ds_stack ds) ds"

definition ds_queue_for :: "ptr \<Rightarrow> bool \<Rightarrow> u32 \<Rightarrow> sQueuePacketsId \<Rightarrow> packet_stack \<Rightarrow> ptr option \<times> packet_stack" where
  "ds_queue_for fresh is_request hbh_id i ds =
     (if is_request then
        (case map_find qid_lt i (ds_stack ds) of
           Some a \<Rightarrow> (Some a, ds\<lparr>ds_hbh := map_put (<) hbh_id a (ds_hbh ds)\<rparr>)
         | None \<Rightarrow>
             (let ds = addFindIndexes fresh i
                         (ds\<lparr>ds_heap := (ds_heap ds)(fresh \<mapsto> \<lparr>qp_id = i, qp_packets = []\<rparr>),
                             ds_stack := map_put qid_lt i fresh (ds_stack ds)\<rparr>) in
              (Some fresh, ds\<lparr>ds_hbh := map_put (<) hbh_id fresh (ds_hbh ds)\<rparr>)))
      else (map_find (<) hbh_id (ds_hbh ds), ds))"

definition ds_push :: "ptr \<Rightarrow> nat \<Rightarrow> bool \<Rightarrow> u32 \<Rightarrow> sQueuePacketsId \<Rightarrow> u64 \<Rightarrow> packet_stack \<Rightarrow> (bool \<times> packet_stack) outcome" where
  "ds_push fresh packet is_request hbh_id i time_us ds =
     (case ds_queue_for fresh is_request hbh_id i ds of
        (Some a, ds) \<Rightarrow>
          omap (\<lambda>qp. (True, ds\<lparr>ds_heap := (ds_heap ds)(a \<mapsto> qp_add qp packet is_request hbh_id time_us)\<rparr>)) (deref ds a)
      | (None, ds) \<Rightarrow> Ret (False, ds))"

definition ds_add :: "(sQueuePacketsId \<Rightarrow> bool) \<Rightarrow> u32 \<Rightarrow> u64 \<Rightarrow> ptr \<Rightarrow> nat \<Rightarrow> bool \<Rightarrow> u32 \<Rightarrow> sQueuePacketsId \<Rightarrow> u64 \<Rightarrow>
    packet_stack \<Rightarrow> (bool \<times> packet_stack) outcome" where
  "ds_add used absolute_timeout now fresh packet is_request hbh_id i time_us ds =
     obind (ds_push fresh packet is_request hbh_id i time_us ds) (\<lambda>(rslt, ds).
       let s = TIME_US_TO_S time_us in
       if ds_last_cleanup_s ds = 0 then Ret (rslt, ds\<lparr>ds_last_cleanup_s := s\<rparr>)
       else if s > ds_last_cleanup_s ds \<and> s - ds_last_cleanup_s ds > ds_cleanup_period_s ds then
         omap (\<lambda>ds. (rslt, ds\<lparr>ds_last_cleanup_s := s\<rparr>)) (ds_cleanup used absolute_timeout now time_us ds)
       else Ret (rslt, ds))"

definition in_window :: "int \<Rightarrow> u64 \<Rightarrow> u64 \<Rightarrow> sPacket \<Rightarrow> bool" where
  "in_window overlap from_time to_time p =
     (pk_time p \<ge> from_time - TIME_S_TO_US overlap \<and> pk_time p \<le> to_time + TIME_S_TO_US overlap)"

fun retrieve_queues :: "int \<Rightarrow> u64 \<Rightarrow> u64 \<Rightarrow> ptr list \<Rightarrow> packet_stack \<Rightarrow> (sPacket list \<times> packet_stack) outcome" where
  "retrieve_queues overlap from_time to_time [] ds = Ret ([], ds)"
| "retrieve_queues overlap from_time to_time (a # as) ds =
     obind (deref ds a) (\<lambda>qp.
       let taken = filter (in_window overlap from_time to_time) (qp_packets qp);
           kept = filter (\<lambda>p. \<not> in_window overlap from_time to_time p) (qp_packets qp) in
       omap (\<lambda>(ps, ds). (taken @ ps, ds))
         (retrieve_queues overlap from_time to_time as (take_packets a qp taken kept ds)))"

datatype eTypeRetrieve = tr_from | tr_to

text \<open>The result is the list of packets taken; the code returns true when it is not empty.\<close>

definition ds_retrieve :: "int \<Rightarrow> eTypeRetrieve \<Rightarrow> string \<Rightarrow> u64 \<Rightarrow> u64 \<Rightarrow> packet_stack \<Rightarrow> (sPacket list \<times> packet_stack) outcome" where
  "ds_retrieve overlap t identity from_time to_time ds =
     retrieve_queues overlap from_time to_time
       (index_list identity (case t of tr_from \<Rightarrow> ds_by_from ds | tr_to \<Rightarrow> ds_by_to ds)) ds"

fun retrieve_each :: "int \<Rightarrow> eTypeRetrieve \<Rightarrow> string list \<Rightarrow> u64 \<Rightarrow> u64 \<Rightarrow> nat \<Rightarrow> sPacket list \<Rightarrow> packet_stack \<Rightarrow>
    (nat \<times> sPacket list \<times> packet_stack) outcome" where
  "retrieve_each overlap t [] from_time to_time n acc ds = Ret (n, acc, ds)"
| "retrieve_each overlap t (i # is) from_time to_time n acc ds =
     obind (ds_retrieve overlap t i from_time to_time ds) (\<lambda>(ps, ds).
       retrieve_each overlap t is from_time to_time (if ps \<noteq> [] then n + 1 else n) (acc @ ps) ds)"

definition ds_retrieve_list :: "int \<Rightarrow> eTypeRetrieve \<Rightarrow> string list \<Rightarrow> sPacket list \<Rightarrow> u64 \<Rightarrow> u64 \<Rightarrow> packet_stack \<Rightarrow>
    (bool \<times> sPacket list \<times> packet_stack) outcome" where
  "ds_retrieve_list overlap t is packets from_time to_time ds =
     omap (\<lambda>(n, ps, ds). (n > 0, (if n > 1 then sort_key pk_time ps else ps), ds))
       (retrieve_each overlap t is from_time to_time 0 packets ds)"


section \<open>Invariant\<close>

lemma map_key_order_qid: "map_key_order qid_lt (=)"
proof -
  have "map_key_order (\<lambda>(a :: sQueuePacketsId) b. lex_lt str_lt (=) (lex_lt str_lt (=) str_lt)
      (public_identity a, session_id a, calling_party_address a) (public_identity b, session_id b, calling_party_address b))
    (\<lambda>a b. lex_eq (=) (lex_eq (=) (=))
      (public_identity a, session_id a, calling_party_address a) (public_identity b, session_id b, calling_party_address b))"
    using map_key_order_pullback [OF map_key_order_lex [OF map_key_order_string
        map_key_order_lex [OF map_key_order_string map_key_order_string]],
        of "\<lambda>a. (public_identity a, session_id a, calling_party_address a)"] .
  moreover have "(\<lambda>(a :: sQueuePacketsId) b. lex_lt str_lt (=) (lex_lt str_lt (=) str_lt)
      (public_identity a, session_id a, calling_party_address a) (public_identity b, session_id b, calling_party_address b)) = qid_lt"
    using string_key.lt_total string_key.lt_irrefl string_key.lt_asym
    by (intro ext) (auto simp: lex_lt_def qid_lt_def)
  moreover have "(\<lambda>(a :: sQueuePacketsId) b. lex_eq (=) (lex_eq (=) (=))
      (public_identity a, session_id a, calling_party_address a) (public_identity b, session_id b, calling_party_address b)) = (=)"
    by (intro ext, rename_tac a b, case_tac a, case_tac b) (auto simp: lex_eq_def)
  ultimately show ?thesis by simp
qed

interpretation qid_key: map_key_order qid_lt "(=)"
  by (rule map_key_order_qid)

interpretation u32_key: map_key_order "(<) :: u32 \<Rightarrow> u32 \<Rightarrow> bool" "(=)"
  by (rule map_key_order_linorder)

definition live_key :: "(ptr \<rightharpoonup> cQueuePackets) \<Rightarrow> (sQueuePacketsId \<Rightarrow> string list) \<Rightarrow> string \<Rightarrow> ptr \<Rightarrow> bool" where
  "live_key h keys k a = (case h a of None \<Rightarrow> False | Some qp \<Rightarrow> k \<in> set (keys (qp_id qp)))"

definition live_id :: "(ptr \<rightharpoonup> cQueuePackets) \<Rightarrow> sQueuePacketsId \<Rightarrow> ptr \<Rightarrow> bool" where
  "live_id h i a = (case h a of None \<Rightarrow> False | Some qp \<Rightarrow> qp_id qp = i)"

definition idx_ok :: "(ptr \<rightharpoonup> cQueuePackets) \<Rightarrow> (sQueuePacketsId \<Rightarrow> string list) \<Rightarrow> find_index \<Rightarrow> bool" where
  "idx_ok h keys m =
     (map_ordered str_lt m \<and> (\<forall>k. distinct (index_list k m) \<and> set (index_list k m) = {a. live_key h keys k a}))"

definition stack_map_ok :: "(ptr \<rightharpoonup> cQueuePackets) \<Rightarrow> (sQueuePacketsId, ptr) std_map \<Rightarrow> bool" where
  "stack_map_ok h m = (map_ordered qid_lt m \<and> (\<forall>i a. map_find qid_lt i m = Some a \<longleftrightarrow> live_id h i a))"

definition hbh_ok :: "(ptr \<rightharpoonup> cQueuePackets) \<Rightarrow> (u32, ptr) std_map \<Rightarrow> bool" where
  "hbh_ok h m =
     (map_ordered (<) m \<and>
      (\<forall>x a. map_find (<) x m = Some a \<longrightarrow> (\<exists>qp. h a = Some qp \<and> x \<in> pk_hbh ` set (qp_packets qp))))"

definition ds_ok :: "packet_stack \<Rightarrow> bool" where
  "ds_ok ds = (idx_ok (ds_heap ds) from_keys (ds_by_from ds) \<and> idx_ok (ds_heap ds) to_keys (ds_by_to ds) \<and>
     stack_map_ok (ds_heap ds) (ds_stack ds) \<and> hbh_ok (ds_heap ds) (ds_hbh ds))"

section \<open>Index maintenance\<close>

lemma index_list_add:
  "map_ordered str_lt m \<Longrightarrow> index_list k (addFindIndex a k' m) =
     (if k = k' then (if a \<in> set (index_list k m) then index_list k m else index_list k m @ [a]) else index_list k m)"
  by (auto simp: addFindIndex_def index_list_def Let_def string_key.map_find_put)

lemma index_list_erase:
  "map_ordered str_lt m \<Longrightarrow> index_list k (eraseFindIndex a k' m) = (if k = k' then remove1 a (index_list k m) else index_list k m)"
  by (auto simp: eraseFindIndex_def index_list_def Let_def string_key.map_find_put string_key.map_find_erase)

lemma ordered_add: "map_ordered str_lt m \<Longrightarrow> map_ordered str_lt (addFindIndex a k m)"
  by (simp add: addFindIndex_def Let_def string_key.map_ordered_put)

lemma ordered_erase: "map_ordered str_lt m \<Longrightarrow> map_ordered str_lt (eraseFindIndex a k m)"
  by (simp add: eraseFindIndex_def Let_def string_key.map_ordered_put string_key.map_ordered_erase)

lemma fold_add:
  assumes "map_ordered str_lt m" and "\<forall>k. distinct (index_list k m)"
  shows "map_ordered str_lt (fold (addFindIndex a) ks m) \<and> distinct (index_list k (fold (addFindIndex a) ks m)) \<and>
         set (index_list k (fold (addFindIndex a) ks m)) = set (index_list k m) \<union> (if k \<in> set ks then {a} else {})"
  using assms
proof (induction ks arbitrary: m)
  case (Cons k' ks)
  have "map_ordered str_lt (addFindIndex a k' m)" "\<forall>k. distinct (index_list k (addFindIndex a k' m))"
    using Cons.prems by (auto simp: ordered_add index_list_add)
  from Cons.IH [OF this] show ?case using Cons.prems by (auto simp: index_list_add split: if_splits)
qed simp

lemma fold_erase:
  assumes "map_ordered str_lt m" and "\<forall>k. distinct (index_list k m)"
  shows "map_ordered str_lt (fold (eraseFindIndex a) ks m) \<and> distinct (index_list k (fold (eraseFindIndex a) ks m)) \<and>
         set (index_list k (fold (eraseFindIndex a) ks m)) = set (index_list k m) - (if k \<in> set ks then {a} else {})"
  using assms
proof (induction ks arbitrary: m)
  case (Cons k' ks)
  have "map_ordered str_lt (eraseFindIndex a k' m)" "\<forall>k. distinct (index_list k (eraseFindIndex a k' m))"
    using Cons.prems by (auto simp: ordered_erase index_list_erase)
  from Cons.IH [OF this] show ?case using Cons.prems by (auto simp: index_list_erase split: if_splits)
qed simp

lemma live_upd [simp]:
  "live_key (h(a \<mapsto> qp)) keys k b = (if b = a then k \<in> set (keys (qp_id qp)) else live_key h keys k b)"
  "live_key (h(a := None)) keys k b = (b \<noteq> a \<and> live_key h keys k b)"
  "live_id (h(a \<mapsto> qp)) i b = (if b = a then qp_id qp = i else live_id h i b)"
  "live_id (h(a := None)) i b = (b \<noteq> a \<and> live_id h i b)"
  by (auto simp: live_key_def live_id_def)

lemma idx_ok_add:
  assumes "idx_ok h keys m" and "h a = None"
  shows "idx_ok (h(a \<mapsto> qp)) keys (fold (addFindIndex a) (keys (qp_id qp)) m)"
proof -
  have o: "map_ordered str_lt m" "\<forall>k. distinct (index_list k m)" using assms(1) by (auto simp: idx_ok_def)
  have "\<not> live_key h keys k a" for k using assms(2) by (simp add: live_key_def)
  then show ?thesis
    using fold_add [OF o, of a "keys (qp_id qp)"] assms(1) by (auto simp: idx_ok_def)
qed

lemma idx_ok_erase:
  assumes "idx_ok h keys m" and "h a = Some qp"
  shows "idx_ok (h(a := None)) keys (fold (eraseFindIndex a) (keys (qp_id qp)) m)"
proof -
  have o: "map_ordered str_lt m" "\<forall>k. distinct (index_list k m)" using assms(1) by (auto simp: idx_ok_def)
  have "live_key h keys k a \<longleftrightarrow> k \<in> set (keys (qp_id qp))" for k using assms(2) by (simp add: live_key_def)
  then show ?thesis
    using fold_erase [OF o, of a "keys (qp_id qp)"] assms(1) by (auto simp: idx_ok_def)
qed

lemma idx_ok_update:
  assumes "idx_ok h keys m" and "h a = Some qp" and "qp_id qp' = qp_id qp"
  shows "idx_ok (h(a \<mapsto> qp')) keys m"
proof -
  have "live_key (h(a \<mapsto> qp')) keys k = live_key h keys k" for k
    using assms(2,3) by (auto simp: live_key_def fun_eq_iff)
  then show ?thesis using assms(1) by (simp add: idx_ok_def)
qed

lemma stack_map_ok_update:
  assumes "stack_map_ok h m" and "h a = Some qp" and "qp_id qp' = qp_id qp"
  shows "stack_map_ok (h(a \<mapsto> qp')) m"
proof -
  have "live_id (h(a \<mapsto> qp')) i = live_id h i" for i
    using assms(2,3) by (auto simp: live_id_def fun_eq_iff)
  then show ?thesis using assms(1) by (simp add: stack_map_ok_def)
qed

lemma stack_map_ok_erase:
  assumes "stack_map_ok h m" and "h a = Some qp"
  shows "stack_map_ok (h(a := None)) (map_erase qid_lt (qp_id qp) m)"
proof -
  have o: "map_ordered qid_lt m" using assms(1) by (simp add: stack_map_ok_def)
  have l: "live_id h i a \<longleftrightarrow> i = qp_id qp" for i using assms(2) by (auto simp: live_id_def)
  have f: "map_find qid_lt i m = Some b \<longleftrightarrow> live_id h i b" for i b using assms(1) by (simp add: stack_map_ok_def)
  have "map_find qid_lt (qp_id qp) m = Some a" by (simp add: f l)
  then have "(if qp_id qp = i then None else map_find qid_lt i m) = Some b \<longleftrightarrow> b \<noteq> a \<and> live_id h i b" for i b
    using f [of i b] l [of i] by auto
  then show ?thesis
    by (simp add: stack_map_ok_def qid_key.map_ordered_erase [OF o] qid_key.map_find_erase [OF o])
qed

lemma stack_map_ok_add:
  assumes "stack_map_ok h m" and "h a = None" and "map_find qid_lt i m = None"
  shows "stack_map_ok (h(a \<mapsto> \<lparr>qp_id = i, qp_packets = ps\<rparr>)) (map_put qid_lt i a m)"
proof -
  have o: "map_ordered qid_lt m" using assms(1) by (simp add: stack_map_ok_def)
  have l: "\<not> live_id h j a" for j using assms(2) by (simp add: live_id_def)
  have f: "map_find qid_lt j m = Some b \<longleftrightarrow> live_id h j b" for j b using assms(1) by (simp add: stack_map_ok_def)
  have "(if i = j then Some a else map_find qid_lt j m) = Some b \<longleftrightarrow> (if b = a then i = j else live_id h j b)" for j b
    using f [of j b] l [of j] assms(3) by auto
  then show ?thesis
    by (simp add: stack_map_ok_def qid_key.map_ordered_put [OF o] qid_key.map_find_put [OF o])
qed

lemma erase_hbhs_find:
  "map_ordered (<) m \<Longrightarrow> map_ordered (<) (erase_hbhs ps m) \<and>
     map_find (<) x (erase_hbhs ps m) = (if x \<in> pk_hbh ` set ps then None else map_find (<) x m)"
proof (induction ps arbitrary: m)
  case (Cons p ps)
  from Cons.IH [of "map_erase (<) (pk_hbh p) m"] Cons.prems show ?case
    by (auto simp: erase_hbhs_def u32_key.map_ordered_erase u32_key.map_find_erase)
qed (simp add: erase_hbhs_def)

lemma hbh_ok_take:
  assumes "hbh_ok h m" and "h a = Some qp" and "set (qp_packets qp) \<subseteq> set taken \<union> set kept"
  shows "hbh_ok (h(a \<mapsto> qp\<lparr>qp_packets := kept\<rparr>)) (erase_hbhs taken m)"
proof -
  have m: "map_ordered (<) m" using assms(1) by (simp add: hbh_ok_def)
  have "\<exists>q. (h(a \<mapsto> qp\<lparr>qp_packets := kept\<rparr>)) b = Some q \<and> x \<in> pk_hbh ` set (qp_packets q)"
    if f: "map_find (<) x (erase_hbhs taken m) = Some b" for x b
  proof -
    have x: "x \<notin> pk_hbh ` set taken" "map_find (<) x m = Some b"
      using f erase_hbhs_find [OF m, of taken x] by (auto split: if_splits)
    then obtain q where q: "h b = Some q" "x \<in> pk_hbh ` set (qp_packets q)" using assms(1) unfolding hbh_ok_def by blast
    show ?thesis
    proof (cases "b = a")
      case True
      then have "x \<in> pk_hbh ` set kept" using q x(1) assms(2,3) by auto
      then show ?thesis using True by simp
    qed (use q in auto)
  qed
  then show ?thesis using erase_hbhs_find [OF m, of taken] by (simp add: hbh_ok_def)
qed

lemma hbh_ok_empty:
  assumes "hbh_ok h m" and "h a = Some qp" and "qp_packets qp = []"
  shows "hbh_ok (h(a := None)) m"
  using assms by (fastforce simp: hbh_ok_def)


section \<open>Operations keep the invariant\<close>

lemma ds_okI: "idx_ok (ds_heap ds) from_keys (ds_by_from ds) \<Longrightarrow> idx_ok (ds_heap ds) to_keys (ds_by_to ds) \<Longrightarrow>
    stack_map_ok (ds_heap ds) (ds_stack ds) \<Longrightarrow> hbh_ok (ds_heap ds) (ds_hbh ds) \<Longrightarrow> ds_ok ds"
  by (simp add: ds_ok_def)

lemma ds_okD:
  assumes "ds_ok ds"
  shows "idx_ok (ds_heap ds) from_keys (ds_by_from ds)" and "idx_ok (ds_heap ds) to_keys (ds_by_to ds)"
    and "stack_map_ok (ds_heap ds) (ds_stack ds)" and "hbh_ok (ds_heap ds) (ds_hbh ds)"
  using assms by (simp_all add: ds_ok_def)

lemma ds_heap_delete [simp]: "ds_heap (delete_queue a i ds) = (ds_heap ds)(a := None)"
  by (simp add: delete_queue_def Let_def eraseFindIndexes_def)

lemma delete_queue_ok:
  assumes "ds_ok ds" and "ds_heap ds a = Some qp" and "qp_packets qp = []"
  shows "ds_ok (delete_queue a (qp_id qp) ds)"
  using idx_ok_erase [OF ds_okD(1) [OF assms(1)] assms(2)] idx_ok_erase [OF ds_okD(2) [OF assms(1)] assms(2)]
    stack_map_ok_erase [OF ds_okD(3) [OF assms(1)] assms(2)] hbh_ok_empty [OF ds_okD(4) [OF assms(1)] assms(2,3)]
  by (intro ds_okI) (simp_all add: delete_queue_def Let_def eraseFindIndexes_def)

lemma heap_take_packets:
  "ds_heap (take_packets a qp taken kept ds) = (ds_heap ds)(a := if kept = [] then None else Some (qp\<lparr>qp_packets := kept\<rparr>))"
  by (auto simp: take_packets_def Let_def fun_eq_iff)

lemma take_packets_ok:
  assumes "ds_ok ds" and "ds_heap ds a = Some qp" and "set (qp_packets qp) \<subseteq> set taken \<union> set kept"
  shows "ds_ok (take_packets a qp taken kept ds)"
proof -
  let ?qp = "qp\<lparr>qp_packets := kept\<rparr>"
  let ?ds = "ds\<lparr>ds_hbh := erase_hbhs taken (ds_hbh ds), ds_heap := (ds_heap ds)(a \<mapsto> ?qp)\<rparr>"
  have "ds_ok ?ds"
    using idx_ok_update [OF ds_okD(1) [OF assms(1)] assms(2)] idx_ok_update [OF ds_okD(2) [OF assms(1)] assms(2)]
      stack_map_ok_update [OF ds_okD(3) [OF assms(1)] assms(2)] hbh_ok_take [OF ds_okD(4) [OF assms(1)] assms(2,3)]
    by (intro ds_okI) simp_all
  then show ?thesis
    using delete_queue_ok [of ?ds a ?qp] by (simp add: take_packets_def Let_def)
qed

definition window_packets :: "int \<Rightarrow> u64 \<Rightarrow> u64 \<Rightarrow> packet_stack \<Rightarrow> ptr \<Rightarrow> sPacket list" where
  "window_packets overlap from_time to_time ds a =
     (case ds_heap ds a of None \<Rightarrow> [] | Some qp \<Rightarrow> filter (in_window overlap from_time to_time) (qp_packets qp))"

definition without_window :: "int \<Rightarrow> u64 \<Rightarrow> u64 \<Rightarrow> cQueuePackets \<Rightarrow> cQueuePackets option" where
  "without_window overlap from_time to_time qp =
     (let kept = filter (\<lambda>p. \<not> in_window overlap from_time to_time p) (qp_packets qp) in
      if kept = [] then None else Some (qp\<lparr>qp_packets := kept\<rparr>))"

lemma retrieve_queues_ok:
  "ds_ok ds \<Longrightarrow> distinct as \<Longrightarrow> \<forall>a \<in> set as. ds_heap ds a \<noteq> None \<Longrightarrow>
   \<exists>ds'. retrieve_queues overlap f t as ds = Ret (concat (map (window_packets overlap f t ds) as), ds') \<and> ds_ok ds' \<and>
     (\<forall>a. ds_heap ds' a = (if a \<in> set as then Option.bind (ds_heap ds a) (without_window overlap f t) else ds_heap ds a))"
proof (induction as arbitrary: ds)
  case (Cons a as)
  obtain qp where qp: "ds_heap ds a = Some qp" using Cons.prems(3) by auto
  define taken where "taken = filter (in_window overlap f t) (qp_packets qp)"
  define kept where "kept = filter (\<lambda>p. \<not> in_window overlap f t p) (qp_packets qp)"
  let ?ds = "take_packets a qp taken kept ds"
  have ok: "ds_ok ?ds" by (rule take_packets_ok [OF Cons.prems(1) qp]) (auto simp: taken_def kept_def)
  have heap: "ds_heap ?ds b = ds_heap ds b" if "b \<noteq> a" for b using that by (simp add: heap_take_packets)
  have "\<forall>b \<in> set as. ds_heap ?ds b \<noteq> None" using Cons.prems(2,3) heap by (metis distinct.simps(2) list.set_intros(2))
  from Cons.IH [OF ok _ this] Cons.prems(2)
  obtain ds' where ds': "retrieve_queues overlap f t as ?ds = Ret (concat (map (window_packets overlap f t ?ds) as), ds')" "ds_ok ds'"
    "\<forall>b. ds_heap ds' b = (if b \<in> set as then Option.bind (ds_heap ?ds b) (without_window overlap f t) else ds_heap ?ds b)"
    by auto
  have mp: "map (window_packets overlap f t ?ds) as = map (window_packets overlap f t ds) as"
    using Cons.prems(2) heap by (intro map_cong refl) (metis distinct.simps(2) window_packets_def)
  have "window_packets overlap f t ds a = taken" by (simp add: window_packets_def qp taken_def)
  moreover have "ds_heap ds' b = (if b \<in> set (a # as) then Option.bind (ds_heap ds b) (without_window overlap f t) else ds_heap ds b)" for b
    using ds'(3) heap Cons.prems(2) qp by (cases "b = a") (auto simp: heap_take_packets without_window_def kept_def Let_def)
  ultimately show ?case using ds'(1) [unfolded mp] ds'(2) qp by (simp add: deref_def Let_def taken_def [symmetric] kept_def [symmetric])
qed simp

lemma index_live:
  assumes "ds_ok ds"
  shows "distinct (index_list k (ds_by_from ds)) \<and> set (index_list k (ds_by_from ds)) = {a. live_key (ds_heap ds) from_keys k a}"
    and "distinct (index_list k (ds_by_to ds)) \<and> set (index_list k (ds_by_to ds)) = {a. live_key (ds_heap ds) to_keys k a}"
  using ds_okD [OF assms] by (simp_all add: idx_ok_def)

lemma ds_retrieve_takes:
  assumes "ds_ok ds"
  defines "hit \<equiv> \<lambda>t k a. live_key (ds_heap ds) (case t of tr_from \<Rightarrow> from_keys | tr_to \<Rightarrow> to_keys) k a"
  shows "\<exists>as ds'. distinct as \<and> set as = {a. hit t k a} \<and>
    ds_retrieve overlap t k f u ds = Ret (concat (map (window_packets overlap f u ds) as), ds') \<and> ds_ok ds' \<and>
     (\<forall>a. ds_heap ds' a = (if hit t k a then Option.bind (ds_heap ds a) (without_window overlap f u) else ds_heap ds a))"
proof -
  define l where "l = index_list k (case t of tr_from \<Rightarrow> ds_by_from ds | tr_to \<Rightarrow> ds_by_to ds)"
  have l: "distinct l" "set l = {a. hit t k a}" using index_live [OF assms(1)] by (cases t; simp add: l_def hit_def)+
  have live: "ds_heap ds a \<noteq> None" if "hit t k a" for a using that by (auto simp: hit_def live_key_def split: option.splits)
  obtain ds' where "retrieve_queues overlap f u l ds = Ret (concat (map (window_packets overlap f u ds) l), ds')" "ds_ok ds'"
    "\<forall>a. ds_heap ds' a = (if a \<in> set l then Option.bind (ds_heap ds a) (without_window overlap f u) else ds_heap ds a)"
    using retrieve_queues_ok [OF assms(1) l(1), of overlap f u] l(2) live by blast
  then show ?thesis using l unfolding ds_retrieve_def l_def [symmetric] by auto
qed


lemma retrieve_each_ok:
  "ds_ok ds \<Longrightarrow> \<exists>n' ps ds'. retrieve_each overlap t is f u n acc ds = Ret (n', ps, ds') \<and> ds_ok ds'"
proof (induction "is" arbitrary: n acc ds)
  case (Cons i "is")
  obtain ps ds1 where "ds_retrieve overlap t i f u ds = Ret (ps, ds1)" "ds_ok ds1"
    using ds_retrieve_takes [OF Cons.prems] by blast
  then show ?case using Cons.IH [of ds1] by simp
qed simp


lemma expired_prefix_split: "expired_prefix e t ps @ drop (length (expired_prefix e t ps)) ps = ps"
  by (induction ps) auto

lemma cleanup_queue_ok:
  assumes "ds_ok ds" and "ds_heap ds (snd e) \<noteq> None"
  shows "\<exists>ds'. cleanup_queue used to t e ds = Ret ds' \<and> ds_ok ds' \<and> (\<forall>b. b \<noteq> snd e \<longrightarrow> ds_heap ds' b = ds_heap ds b)"
proof -
  obtain qp where qp: "ds_heap ds (snd e) = Some qp" using assms(2) by auto
  let ?g = "expired_prefix (ds_age_expiration_s ds) t (qp_packets qp)"
  have "set (qp_packets qp) \<subseteq> set ?g \<union> set (drop (length ?g) (qp_packets qp))"
    by (metis expired_prefix_split set_append subset_refl)
  from take_packets_ok [OF assms(1) qp this] show ?thesis
    using assms(1) by (auto simp: cleanup_queue_def deref_def qp Let_def heap_take_packets)
qed

lemma cleanup_loop_ok:
  "ds_ok ds \<Longrightarrow> distinct (map snd es) \<Longrightarrow> \<forall>e \<in> set es. ds_heap ds (snd e) \<noteq> None \<Longrightarrow>
   \<exists>ds'. cleanup_loop used to t es ds = Ret ds' \<and> ds_ok ds'"
proof (induction es arbitrary: ds)
  case (Cons e es)
  obtain ds1 where ds1: "cleanup_queue used to t e ds = Ret ds1" "ds_ok ds1" "\<forall>b. b \<noteq> snd e \<longrightarrow> ds_heap ds1 b = ds_heap ds b"
    using cleanup_queue_ok [of ds e used to t] Cons.prems by auto
  have "\<forall>e' \<in> set es. ds_heap ds1 (snd e') \<noteq> None"
  proof
    fix e'
    assume e': "e' \<in> set es"
    then have "snd e' \<in> snd ` set es" by simp
    moreover have "snd e \<notin> snd ` set es" using Cons.prems(2) by simp
    ultimately have "snd e' \<noteq> snd e" by metis
    then show "ds_heap ds1 (snd e') \<noteq> None" using ds1(3) Cons.prems(3) e' by simp
  qed
  then show ?case using Cons.IH [of ds1] ds1 Cons.prems(2) by simp
qed simp

lemma stack_entries:
  assumes "ds_ok ds"
  shows "distinct (map snd (ds_stack ds))" and "\<forall>e \<in> set (ds_stack ds). ds_heap ds (snd e) \<noteq> None"
proof -
  have s: "map_ordered qid_lt (ds_stack ds)" "\<forall>i a. map_find qid_lt i (ds_stack ds) = Some a \<longleftrightarrow> live_id (ds_heap ds) i a"
    using ds_okD(3) [OF assms] by (simp_all add: stack_map_ok_def)
  have live: "live_id (ds_heap ds) i a" if "(i, a) \<in> set (ds_stack ds)" for i a
    using qid_key.map_find_mem [OF s(1) that] s(2) by simp
  then show "\<forall>e \<in> set (ds_stack ds). ds_heap ds (snd e) \<noteq> None"
    by (fastforce simp: live_id_def split: option.splits)
  have "i = j" if "(i, a) \<in> set (ds_stack ds)" "(j, a) \<in> set (ds_stack ds)" for i j a
    using live [OF that(1)] live [OF that(2)] by (auto simp: live_id_def split: option.splits)
  then have "inj_on snd (set (ds_stack ds))" by (auto intro!: inj_onI)
  moreover have "distinct (ds_stack ds)" using qid_key.map_ordered_distinct [OF s(1)] by (simp add: distinct_map)
  ultimately show "distinct (map snd (ds_stack ds))" by (simp add: distinct_map)
qed

lemma ds_cleanup_ok: "ds_ok ds \<Longrightarrow> \<exists>ds'. ds_cleanup used to now t ds = Ret ds' \<and> ds_ok ds'"
  unfolding ds_cleanup_def using cleanup_loop_ok stack_entries by blast

lemma hbh_ok_put:
  assumes "hbh_ok h m" and "h a = Some qp"
  shows "hbh_ok (h(a \<mapsto> qp_add qp p r x t)) (map_put (<) x a m)"
proof -
  have m: "map_ordered (<) m" using assms(1) by (simp add: hbh_ok_def)
  have "\<exists>q. (h(a \<mapsto> qp_add qp p r x t)) b = Some q \<and> y \<in> pk_hbh ` set (qp_packets q)"
    if f: "map_find (<) y (map_put (<) x a m) = Some b" for y b
  proof (cases "x = y")
    case True
    then have "b = a" using f by (simp add: u32_key.map_find_put [OF m])
    then show ?thesis using True by (simp add: qp_add_def)
  next
    case False
    then have "map_find (<) y m = Some b" using f by (simp add: u32_key.map_find_put [OF m])
    then obtain q where "h b = Some q" "y \<in> pk_hbh ` set (qp_packets q)" using assms(1) unfolding hbh_ok_def by blast
    then show ?thesis using assms(2) by (cases "b = a") (auto simp: qp_add_def)
  qed
  then show ?thesis using u32_key.map_ordered_put [OF m] by (simp add: hbh_ok_def)
qed

lemma hbh_ok_append:
  assumes "hbh_ok h m" and "h a = Some qp"
  shows "hbh_ok (h(a \<mapsto> qp_add qp p r x t)) m"
proof -
  have "\<exists>q. (h(a \<mapsto> qp_add qp p r x t)) b = Some q \<and> y \<in> pk_hbh ` set (qp_packets q)"
    if f: "map_find (<) y m = Some b" for y b
  proof -
    obtain q where "h b = Some q" "y \<in> pk_hbh ` set (qp_packets q)" using assms(1) f unfolding hbh_ok_def by blast
    then show ?thesis using assms(2) by (cases "b = a") (auto simp: qp_add_def)
  qed
  then show ?thesis using assms(1) by (simp add: hbh_ok_def)
qed

lemma hbh_ok_fresh: "hbh_ok h m \<Longrightarrow> h a = None \<Longrightarrow> hbh_ok (h(a \<mapsto> qp)) m"
  unfolding hbh_ok_def by (metis fun_upd_apply option.distinct(1))

lemma ds_ok_new:
  assumes "ds_ok ds" and "ds_heap ds a = None" and "map_find qid_lt i (ds_stack ds) = None"
  shows "ds_ok (addFindIndexes a i (ds\<lparr>ds_heap := (ds_heap ds)(a \<mapsto> \<lparr>qp_id = i, qp_packets = []\<rparr>),
            ds_stack := map_put qid_lt i a (ds_stack ds)\<rparr>))"
  using idx_ok_add [OF ds_okD(1) [OF assms(1)] assms(2), of "\<lparr>qp_id = i, qp_packets = []\<rparr>"]
    idx_ok_add [OF ds_okD(2) [OF assms(1)] assms(2), of "\<lparr>qp_id = i, qp_packets = []\<rparr>"]
    stack_map_ok_add [OF ds_okD(3) [OF assms(1)] assms(2,3), of "[]"] hbh_ok_fresh [OF ds_okD(4) [OF assms(1)] assms(2)]
  by (intro ds_okI) (simp_all add: addFindIndexes_def)


lemma ds_push_known:
  assumes "ds_ok ds" and "ds_heap ds a = Some qp"
  shows "ds_ok (ds\<lparr>ds_hbh := map_put (<) x a (ds_hbh ds), ds_heap := (ds_heap ds)(a \<mapsto> qp_add qp p r x t)\<rparr>)"
    and "ds_ok (ds\<lparr>ds_heap := (ds_heap ds)(a \<mapsto> qp_add qp p r x t)\<rparr>)"
proof -
  have i: "qp_id (qp_add qp p r x t) = qp_id qp" by (simp add: qp_add_def)
  note u = idx_ok_update [OF ds_okD(1) [OF assms(1)] assms(2) i] idx_ok_update [OF ds_okD(2) [OF assms(1)] assms(2) i]
    stack_map_ok_update [OF ds_okD(3) [OF assms(1)] assms(2) i]
  show "ds_ok (ds\<lparr>ds_hbh := map_put (<) x a (ds_hbh ds), ds_heap := (ds_heap ds)(a \<mapsto> qp_add qp p r x t)\<rparr>)"
    using u hbh_ok_put [OF ds_okD(4) [OF assms(1)] assms(2)] by (intro ds_okI) simp_all
  show "ds_ok (ds\<lparr>ds_heap := (ds_heap ds)(a \<mapsto> qp_add qp p r x t)\<rparr>)"
    using u hbh_ok_append [OF ds_okD(4) [OF assms(1)] assms(2)] by (intro ds_okI) simp_all
qed

text \<open>A request always finds or creates its queue, and the hop-by-hop index then leads to it.\<close>

lemma ds_push_request:
  assumes "ds_ok ds" and "ds_heap ds fresh = None"
  shows "\<exists>a qp ds'. ds_push fresh packet True x i t ds = Ret (True, ds') \<and> ds_ok ds' \<and>
     ds_heap ds' a = Some (qp_add qp packet True x t) \<and> qp_id qp = i \<and> map_find (<) x (ds_hbh ds') = Some a"
proof (cases "map_find qid_lt i (ds_stack ds)")
  case (Some a)
  then have "live_id (ds_heap ds) i a" using ds_okD(3) [OF assms(1)] by (simp add: stack_map_ok_def)
  then obtain qp where qp: "ds_heap ds a = Some qp" "qp_id qp = i" by (auto simp: live_id_def split: option.splits)
  have m: "map_ordered (<) (ds_hbh ds)" using ds_okD(4) [OF assms(1)] by (simp add: hbh_ok_def)
  show ?thesis
    using ds_push_known(1) [OF assms(1) qp(1), where x = x and p = packet and r = True and t = t] qp Some
    by (auto simp: ds_push_def ds_queue_for_def deref_def u32_key.map_find_put [OF m] intro!: exI [of _ a] exI [of _ qp])
next
  case None
  let ?qp = "\<lparr>qp_id = i, qp_packets = []\<rparr>"
  let ?ds = "addFindIndexes fresh i (ds\<lparr>ds_heap := (ds_heap ds)(fresh \<mapsto> ?qp), ds_stack := map_put qid_lt i fresh (ds_stack ds)\<rparr>)"
  have ok: "ds_ok ?ds" by (rule ds_ok_new [OF assms None])
  have h: "ds_heap ?ds fresh = Some ?qp" by (simp add: addFindIndexes_def)
  have m: "map_ordered (<) (ds_hbh ?ds)" using ds_okD(4) [OF ok] by (simp add: hbh_ok_def)
  have e: "ds_queue_for fresh True x i ds = (Some fresh, ?ds\<lparr>ds_hbh := map_put (<) x fresh (ds_hbh ?ds)\<rparr>)"
    by (simp add: ds_queue_for_def None Let_def)
  show ?thesis
    using ds_push_known(1) [OF ok h, where x = x and p = packet and r = True and t = t]
    by (intro exI [of _ fresh] exI [of _ ?qp] exI)
       (auto simp: ds_push_def e deref_def h u32_key.map_find_put [OF m])
qed

lemma ds_push_answer:
  assumes "ds_ok ds"
  shows "\<exists>r ds'. ds_push fresh packet False x i t ds = Ret (r, ds') \<and> ds_ok ds'"
proof (cases "map_find (<) x (ds_hbh ds)")
  case None
  then show ?thesis using assms by (auto simp: ds_push_def ds_queue_for_def)
next
  case (Some a)
  then obtain qp where qp: "ds_heap ds a = Some qp" using ds_okD(4) [OF assms] unfolding hbh_ok_def by blast
  show ?thesis
    using ds_push_known(2) [OF assms qp, where x = x and p = packet and r = False and t = t] Some qp by (auto simp: ds_push_def ds_queue_for_def deref_def)
qed

lemma ds_ok_last_cleanup [simp]: "ds_ok (ds\<lparr>ds_last_cleanup_s := s\<rparr>) = ds_ok ds"
  by (simp add: ds_ok_def)

lemma ds_add_ok:
  assumes "ds_ok ds" and "ds_heap ds fresh = None"
  shows "\<exists>r ds'. ds_add used to now fresh packet is_request x i t ds = Ret (r, ds') \<and> ds_ok ds'"
proof -
  obtain r ds1 where p: "ds_push fresh packet is_request x i t ds = Ret (r, ds1)" and ok: "ds_ok ds1"
  proof (cases is_request)
    case True
    then show ?thesis using ds_push_request [OF assms, of packet x i t] that by auto
  next
    case False
    then show ?thesis using ds_push_answer [OF assms(1), of fresh packet x i t] that by auto
  qed
  obtain ds2 where "ds_cleanup used to now t ds1 = Ret ds2" "ds_ok ds2" using ds_cleanup_ok [OF ok] by blast
  then show ?thesis using p ok by (auto simp: ds_add_def Let_def)
qed

lemma ds_create_ok: "ds_ok ds_create"
  by (auto simp: ds_ok_def ds_create_def idx_ok_def stack_map_ok_def hbh_ok_def index_list_def live_key_def live_id_def)

section \<open>Properties\<close>

text \<open>C15: Memory safety of \<open>cDiameterPacketStack\<close>: \<open>add\<close>, \<open>retrieve\<close> and \<open>cleanup\<close> never follow a pointer to a deleted queue,
  and keep the invariant that the two search indexes, the stack and the hop-by-hop index describe exactly the
  live queues (no dangling pointer, no queue lost, no queue twice in an index).\<close>

theorem diameter_stack_safe:
  assumes "ds_ok ds" and "ds_heap ds fresh = None"
  shows "(\<exists>r ds'. ds_add used absolute_timeout now fresh packet is_request hbh_id i time_us ds = Ret (r, ds') \<and> ds_ok ds') \<and>
         (\<exists>r ps ds'. ds_retrieve_list overlap t is packets from_time to_time ds = Ret (r, ps, ds') \<and> ds_ok ds') \<and>
         (\<exists>ds'. ds_cleanup used absolute_timeout now time_us ds = Ret ds' \<and> ds_ok ds')"
proof (intro conjI)
  obtain n ps ds' where "retrieve_each overlap t is from_time to_time 0 packets ds = Ret (n, ps, ds')" "ds_ok ds'"
    using retrieve_each_ok [OF assms(1)] by blast
  then show "\<exists>r ps ds'. ds_retrieve_list overlap t is packets from_time to_time ds = Ret (r, ps, ds') \<and> ds_ok ds'"
    by (auto simp: ds_retrieve_list_def)
qed (use ds_add_ok [OF assms] ds_cleanup_ok [OF assms(1)] in blast)+

theorem diameter_stack_safe_witness:
  "\<exists>r ds'. ds_add (\<lambda>_. False) 14400 1 7 1 True 99 \<lparr>public_identity = ''a'', session_id = '''', calling_party_address = ''''\<rparr> 5 ds_create =
     Ret (r, ds') \<and> ds_ok ds'"
proof -
  have "ds_heap ds_create 7 = None" by (simp add: ds_create_def)
  from diameter_stack_safe [OF ds_create_ok this] show ?thesis by blast
qed

text \<open>A request is queued under its identities, and an answer with the same hop-by-hop identifier that
  follows is appended to the same queue, whatever identities the answer itself carries.\<close>

theorem diameter_answer_joins_request:
  assumes "ds_ok ds" and "ds_heap ds fresh = None"
  shows "\<exists>ds1 ds2 a qp. ds_push fresh p1 True x i t1 ds = Ret (True, ds1) \<and> ds_push fresh' p2 False x j t2 ds1 = Ret (True, ds2) \<and>
     ds_ok ds2 \<and> ds_heap ds2 a = Some qp \<and> qp_id qp = i \<and>
     (\<exists>ps. qp_packets qp = ps @ [\<lparr>pk_packet = p1, pk_is_request = True, pk_hbh = x, pk_time = t1\<rparr>,
                                 \<lparr>pk_packet = p2, pk_is_request = False, pk_hbh = x, pk_time = t2\<rparr>])"
proof -
  obtain a qp ds1 where r: "ds_push fresh p1 True x i t1 ds = Ret (True, ds1)" "ds_ok ds1"
    "ds_heap ds1 a = Some (qp_add qp p1 True x t1)" "qp_id qp = i" "map_find (<) x (ds_hbh ds1) = Some a"
    using ds_push_request [OF assms, of p1 x i t1] by blast
  let ?qp = "qp_add (qp_add qp p1 True x t1) p2 False x t2"
  have "ds_push fresh' p2 False x j t2 ds1 = Ret (True, ds1\<lparr>ds_heap := (ds_heap ds1)(a \<mapsto> ?qp)\<rparr>)"
    using r(3,5) by (simp add: ds_push_def ds_queue_for_def deref_def)
  moreover have "ds_ok (ds1\<lparr>ds_heap := (ds_heap ds1)(a \<mapsto> ?qp)\<rparr>)" by (rule ds_push_known(2) [OF r(2,3)])
  moreover have "qp_id ?qp = i" using r(4) by (simp add: qp_add_def)
  moreover have "qp_packets ?qp = qp_packets qp @ [\<lparr>pk_packet = p1, pk_is_request = True, pk_hbh = x, pk_time = t1\<rparr>,
      \<lparr>pk_packet = p2, pk_is_request = False, pk_hbh = x, pk_time = t2\<rparr>]" by (simp add: qp_add_def)
  ultimately show ?thesis using r(1) by fastforce
qed

theorem diameter_answer_joins_request_witness:
  "\<exists>ds1 ds2 a qp. ds_push 7 1 True 99 \<lparr>public_identity = ''a'', session_id = '''', calling_party_address = ''''\<rparr> 5 ds_create = Ret (True, ds1) \<and>
     ds_push 8 2 False 99 \<lparr>public_identity = '''', session_id = '''', calling_party_address = ''''\<rparr> 6 ds1 = Ret (True, ds2) \<and>
     ds_heap ds2 a = Some qp \<and> public_identity (qp_id qp) = ''a''"
proof -
  have "ds_heap ds_create 7 = None" by (simp add: ds_create_def)
  from diameter_answer_joins_request [OF ds_create_ok this, of 1 99 "\<lparr>public_identity = ''a'', session_id = '''', calling_party_address = ''''\<rparr>" 5 8 2
      "\<lparr>public_identity = '''', session_id = '''', calling_party_address = ''''\<rparr>" 6]
  show ?thesis by fastforce
qed


text \<open>The window of a call on the time line: from the overlap before its begin to the overlap behind its end, both ends included.\<close>

definition near_call :: "int \<Rightarrow> u64 \<Rightarrow> u64 \<Rightarrow> sPacket \<Rightarrow> bool" where
  "near_call overlap from_time to_time p =
     (uint from_time - overlap * 1000000 \<le> uint (pk_time p) \<and> uint (pk_time p) \<le> uint to_time + overlap * 1000000)"

lemma in_window_near:
  assumes "0 \<le> overlap" "overlap * 1000000 \<le> uint f" "uint t + overlap * 1000000 < 2 ^ 64"
  shows "in_window overlap f t = near_call overlap f t"
proof
  fix p
  let ?k = "overlap * 1000000"
  have "?k < 2 ^ 64" using assms(1,3) by (smt (verit) uint_ge_0)
  then have k: "uint (TIME_S_TO_US overlap) = ?k" using assms(1)
    by (simp add: TIME_S_TO_US_def uint_word_ariths uint_word_of_int)
  have "uint (f - TIME_S_TO_US overlap) = uint f - ?k"
    using assms(2) k by (simp add: uint_sub_lem [THEN iffD1])
  moreover have "uint (t + TIME_S_TO_US overlap) = uint t + ?k" using assms(3) k by (simp add: uint_add_lem [THEN iffD1])
  ultimately show "in_window overlap f t p = near_call overlap f t p" by (simp add: in_window_def near_call_def Word.word_le_def)
qed

text \<open>C24: \<open>retrieve\<close> for an identity takes out, queue by queue and in the order of each queue, every packet whose time lies between the
  begin of the call less the overlap and its end plus the overlap (both ends included) of the queues indexed under the identity, each
  packet once, leaves all other packets in place, and deletes exactly the queues that become empty. The overlap must not reach back
  before time 0 nor beyond the range of the clock.\<close>

theorem diameter_retrieve_exact:
  assumes "ds_ok ds" and "0 \<le> overlap" "overlap * 1000000 \<le> uint from_time" "uint to_time + overlap * 1000000 < 2 ^ 64"
  shows "\<exists>as ps ds'. ds_retrieve overlap t k from_time to_time ds = Ret (ps, ds') \<and> distinct as \<and>
    set as = {a. \<exists>qp. ds_heap ds a = Some qp \<and> k \<in> set (case t of tr_from \<Rightarrow> from_keys (qp_id qp) | tr_to \<Rightarrow> to_keys (qp_id qp))} \<and>
    ps = concat (map (\<lambda>a. filter (near_call overlap from_time to_time) (qp_packets (the (ds_heap ds a)))) as) \<and>
    (\<forall>a. ds_heap ds' a =
      (case ds_heap ds a of None \<Rightarrow> None
       | Some qp \<Rightarrow> if a \<notin> set as then Some qp
                   else (let kept = filter (\<lambda>p. \<not> near_call overlap from_time to_time p) (qp_packets qp) in
                         if kept = [] then None else Some (qp\<lparr>qp_packets := kept\<rparr>))))"
proof -
  let ?hit = "live_key (ds_heap ds) (case t of tr_from \<Rightarrow> from_keys | tr_to \<Rightarrow> to_keys) k"
  note w = in_window_near [OF assms(2-4)]
  obtain as ds' where r: "distinct as" "set as = {a. ?hit a}"
    "ds_retrieve overlap t k from_time to_time ds = Ret (concat (map (window_packets overlap from_time to_time ds) as), ds')"
    "\<forall>a. ds_heap ds' a = (if ?hit a then Option.bind (ds_heap ds a) (without_window overlap from_time to_time) else ds_heap ds a)"
    using ds_retrieve_takes [OF assms(1), of t k overlap from_time to_time] by blast
  have hit: "?hit a \<longleftrightarrow> (\<exists>qp. ds_heap ds a = Some qp \<and> k \<in> set (case t of tr_from \<Rightarrow> from_keys (qp_id qp) | tr_to \<Rightarrow> to_keys (qp_id qp)))" for a
    by (cases t) (auto simp: live_key_def split: option.splits)
  have "window_packets overlap from_time to_time ds a = filter (near_call overlap from_time to_time) (qp_packets (the (ds_heap ds a)))" if "a \<in> set as" for a
    using that r(2) hit by (auto simp: window_packets_def w)
  then have mp: "map (window_packets overlap from_time to_time ds) as = map (\<lambda>a. filter (near_call overlap from_time to_time) (qp_packets (the (ds_heap ds a)))) as"
    by simp
  have "ds_heap ds' a = (case ds_heap ds a of None \<Rightarrow> None
       | Some qp \<Rightarrow> if a \<notin> set as then Some qp
                   else (let kept = filter (\<lambda>p. \<not> near_call overlap from_time to_time p) (qp_packets qp) in
                         if kept = [] then None else Some (qp\<lparr>qp_packets := kept\<rparr>)))" for a
    using r(2,4) by (cases "ds_heap ds a") (auto simp: without_window_def w Let_def)
  then show ?thesis using r(1) r(2) [unfolded hit] r(3) [unfolded mp] by blast
qed

text \<open>A request in second 5 and its answer in second 500.\<close>

lemma demo_stack:
  obtains ds qp where "ds_ok ds" "ds_heap ds = [7 \<mapsto> qp]" "qp_id qp = \<lparr>public_identity = ''a'', session_id = [], calling_party_address = []\<rparr>"
    "qp_packets qp = [\<lparr>pk_packet = 1, pk_is_request = True, pk_hbh = 99, pk_time = 5000000\<rparr>, \<lparr>pk_packet = 2, pk_is_request = False, pk_hbh = 99, pk_time = 500000000\<rparr>]"
proof -
  let ?i = "\<lparr>public_identity = ''a'', session_id = [], calling_party_address = []\<rparr>"
  have n: "ds_heap ds_create 7 = None" by (simp add: ds_create_def)
  obtain r ds1 where p1: "ds_push 7 1 True 99 ?i 5000000 ds_create = Ret (r, ds1)" "ds_ok ds1"
    using ds_push_request [OF ds_create_ok n, of 1 99 ?i 5000000] by blast
  then have h1: "ds_heap ds1 = [7 \<mapsto> \<lparr>qp_id = ?i, qp_packets = [\<lparr>pk_packet = 1, pk_is_request = True, pk_hbh = 99, pk_time = 5000000\<rparr>]\<rparr>]"
    by (auto simp: ds_push_def ds_queue_for_def ds_create_def deref_def qid_isSet_def qp_add_def addFindIndexes_def Let_def)
  define ds where "ds = ds1\<lparr>ds_heap := (ds_heap ds1)(7 \<mapsto> qp_add (the (ds_heap ds1 7)) 2 False 99 500000000)\<rparr>"
  have "ds_ok (ds1\<lparr>ds_heap := (ds_heap ds1)(7 \<mapsto> qp_add (the (ds_heap ds1 7)) 2 False 99 500000000)\<rparr>)" using h1 ds_push_known(2) [OF p1(2), of 7] by simp
  then show thesis using h1 by (intro that [of ds]) (auto simp: ds_def qp_add_def)
qed

theorem diameter_retrieve_exact_witness:
  "\<exists>ds ps ds' qp. ds_retrieve 2 tr_to ''a'' 6000000 7000000 ds = Ret (ps, ds') \<and>
     ps = [\<lparr>pk_packet = 1, pk_is_request = True, pk_hbh = 99, pk_time = 5000000\<rparr>] \<and> ds_heap ds' 7 = Some qp \<and>
     qp_packets qp = [\<lparr>pk_packet = 2, pk_is_request = False, pk_hbh = 99, pk_time = 500000000\<rparr>]"
proof -
  obtain ds qp where ds: "ds_ok ds" "ds_heap ds = [7 \<mapsto> qp]" "qp_id qp = \<lparr>public_identity = ''a'', session_id = [], calling_party_address = []\<rparr>"
    "qp_packets qp = [\<lparr>pk_packet = 1, pk_is_request = True, pk_hbh = 99, pk_time = 5000000\<rparr>, \<lparr>pk_packet = 2, pk_is_request = False, pk_hbh = 99, pk_time = 500000000\<rparr>]"
    by (rule demo_stack)
  have b: "(0 :: int) \<le> 2" "(2 :: int) * 1000000 \<le> uint (6000000 :: u64)" "uint (7000000 :: u64) + 2 * 1000000 < 2 ^ 64" by simp_all
  obtain as ps ds' where r: "ds_retrieve 2 tr_to ''a'' 6000000 7000000 ds = Ret (ps, ds')" "distinct as"
    "set as = {a. \<exists>q. ds_heap ds a = Some q \<and> ''a'' \<in> set (to_keys (qp_id q))}"
    "ps = concat (map (\<lambda>a. filter (near_call 2 6000000 7000000) (qp_packets (the (ds_heap ds a)))) as)"
    "ds_heap ds' 7 = (case ds_heap ds 7 of None \<Rightarrow> None | Some qp \<Rightarrow> if 7 \<notin> set as then Some qp
       else (let kept = filter (\<lambda>p. \<not> near_call 2 6000000 7000000 p) (qp_packets qp) in if kept = [] then None else Some (qp\<lparr>qp_packets := kept\<rparr>)))"
    using diameter_retrieve_exact [OF ds(1) b, of tr_to "''a''"] by auto
  have "set as = {7}" using r(3) ds(2,3) by (auto simp: to_keys_def)
  then have as: "as = [7]" using r(2) distinct_card [OF r(2)] by (cases as) (auto simp: subset_singleton_iff)
  show ?thesis using r(1,4,5) ds(2,4) as by (intro exI conjI) (auto simp: near_call_def)
qed

end
