(* ===== verification/VM_SimpleBuffer.thy ===== *)
theory VM_SimpleBuffer
  imports VM_Prelude
begin

text \<open>
  The growing byte buffers of \<open>tools_global.h\<close>: \<open>SimpleBuffer\<close>, one heap array that is reallocated, and
  \<open>SimpleChunkBuffer\<close>, a list of arrays. A heap array is a byte list of the allocated size whose initial bytes
  are arbitrary (the parameter \<open>g\<close> gives them), the null pointer is \<open>None\<close>, all sizes are 32-bit words
  that wrap, and an access outside an array or through the null pointer is \<open>OutOfBounds\<close>. The locale
  \<open>byte_buffer\<close> is what the clients of a buffer rely on.
\<close>

section \<open>SimpleBuffer\<close>

definition new_array :: "(nat \<Rightarrow> u8) \<Rightarrow> u32 \<Rightarrow> mem" where
  "new_array g n = map g [0..<unat n]"

record SimpleBuffer =
  sb_buffer :: "mem option"
  sb_length :: u32
  sb_capacity :: u32
  sb_reserve :: u32

text \<open>A read of \<open>n\<close> bytes from the start of the array, as \<open>memcpy\<close> does it: no byte is read when \<open>n\<close> is 0.\<close>

definition sb_load :: "SimpleBuffer \<Rightarrow> nat \<Rightarrow> nat \<Rightarrow> mem outcome" where
  "sb_load sb n p = (if n = 0 then Ret [] else case sb_buffer sb of None \<Rightarrow> OutOfBounds | Some m \<Rightarrow> ldn n m p)"

definition sb_store :: "SimpleBuffer \<Rightarrow> nat \<Rightarrow> mem \<Rightarrow> SimpleBuffer outcome" where
  "sb_store sb p bs =
     (case sb_buffer sb of None \<Rightarrow> OutOfBounds | Some m \<Rightarrow> omap (\<lambda>m. sb\<lparr>sb_buffer := Some m\<rparr>) (stn m p bs))"

text \<open>A new array of the given size takes over the first \<open>sb_length\<close> bytes of the old one, which is deleted.\<close>

definition sb_realloc :: "(nat \<Rightarrow> u8) \<Rightarrow> u32 \<Rightarrow> SimpleBuffer \<Rightarrow> SimpleBuffer outcome" where
  "sb_realloc g cap sb =
     obind (sb_load sb (unat (sb_length sb)) 0) (\<lambda>old.
       omap (\<lambda>m. sb\<lparr>sb_buffer := Some m, sb_capacity := cap\<rparr>) (stn (new_array g cap) 0 old))"

definition sb_new :: "u32 \<Rightarrow> SimpleBuffer" where
  "sb_new reserve = \<lparr>sb_buffer = None, sb_length = 0, sb_capacity = 0, sb_reserve = reserve\<rparr>"

definition sb_add :: "(nat \<Rightarrow> u8) \<Rightarrow> mem option \<Rightarrow> u32 \<Rightarrow> SimpleBuffer \<Rightarrow> SimpleBuffer outcome" where
  "sb_add g data dataLength sb =
     (case data of None \<Rightarrow> Ret sb | Some src \<Rightarrow>
      if dataLength = 0 then Ret sb else
      obind
        (if sb_buffer sb = None then
           (let n = dataLength + sb_reserve sb + 1 in Ret (sb\<lparr>sb_buffer := Some (new_array g n), sb_capacity := n\<rparr>))
         else if sb_length sb + dataLength + 1 > sb_capacity sb then
           sb_realloc g (sb_length sb + dataLength + sb_reserve sb + 1) sb
         else Ret sb)
        (\<lambda>sb. obind (ldn (unat dataLength) src 0) (\<lambda>bs.
           omap (\<lambda>sb. sb\<lparr>sb_length := sb_length sb + dataLength\<rparr>) (sb_store sb (unat (sb_length sb)) bs))))"

definition sb_new_data :: "(nat \<Rightarrow> u8) \<Rightarrow> mem option \<Rightarrow> u32 \<Rightarrow> u32 \<Rightarrow> SimpleBuffer outcome" where
  "sb_new_data g data dataLength reserve = sb_add g data dataLength (sb_new reserve)"

definition sb_copy :: "(nat \<Rightarrow> u8) \<Rightarrow> SimpleBuffer \<Rightarrow> SimpleBuffer outcome" where
  "sb_copy g other =
     (if sb_length other \<noteq> 0 then
        obind (sb_load other (unat (sb_length other)) 0) (\<lambda>bs.
          omap (\<lambda>m. \<lparr>sb_buffer = Some m, sb_length = sb_length other, sb_capacity = sb_capacity other, sb_reserve = sb_reserve other\<rparr>)
            (stn (new_array g (sb_capacity other)) 0 bs))
      else Ret \<lparr>sb_buffer = None, sb_length = sb_length other, sb_capacity = sb_capacity other, sb_reserve = sb_reserve other\<rparr>)"

definition sb_add_buffer :: "(nat \<Rightarrow> u8) \<Rightarrow> SimpleBuffer \<Rightarrow> SimpleBuffer \<Rightarrow> SimpleBuffer outcome" where
  "sb_add_buffer g data sb = (if sb_length data > 0 then sb_add g (sb_buffer data) (sb_length data) sb else Ret sb)"

definition sb_clear :: "SimpleBuffer \<Rightarrow> SimpleBuffer" where
  "sb_clear sb = sb\<lparr>sb_length := 0\<rparr>"

definition sb_set :: "(nat \<Rightarrow> u8) \<Rightarrow> mem option \<Rightarrow> u32 \<Rightarrow> SimpleBuffer \<Rightarrow> SimpleBuffer outcome" where
  "sb_set g data dataLength sb = sb_add g data dataLength (sb_clear sb)"

definition sb_set_data_capacity :: "(nat \<Rightarrow> u8) \<Rightarrow> u32 \<Rightarrow> SimpleBuffer \<Rightarrow> SimpleBuffer outcome" where
  "sb_set_data_capacity g cap sb =
     (if cap > sb_capacity sb then
        (if sb_buffer sb = None then Ret (sb\<lparr>sb_buffer := Some (new_array g cap), sb_capacity := cap\<rparr>)
         else sb_realloc g cap sb)
      else Ret sb)"

definition sb_set_data_len :: "(nat \<Rightarrow> u8) \<Rightarrow> u32 \<Rightarrow> SimpleBuffer \<Rightarrow> SimpleBuffer outcome" where
  "sb_set_data_len g n sb =
     omap (\<lambda>sb. sb\<lparr>sb_length := n\<rparr>) (if sb_capacity sb < n then sb_set_data_capacity g n sb else Ret sb)"

definition sb_destroy :: "SimpleBuffer \<Rightarrow> SimpleBuffer" where
  "sb_destroy sb = sb\<lparr>sb_buffer := None, sb_length := 0, sb_capacity := 0\<rparr>"

definition sb_empty :: "SimpleBuffer \<Rightarrow> bool" where
  "sb_empty sb = (sb_length sb = 0)"

definition sb_removeDataFromLeft :: "(nat \<Rightarrow> u8) \<Rightarrow> u32 \<Rightarrow> SimpleBuffer \<Rightarrow> (bool \<times> SimpleBuffer) outcome" where
  "sb_removeDataFromLeft g removeSize sb =
     (if removeSize > sb_length sb then Ret (False, sb)
      else if removeSize = sb_length sb then Ret (True, sb_destroy sb)
      else
        (let n = sb_length sb - removeSize in
         obind (sb_load sb (unat n) (unat removeSize)) (\<lambda>bs.
           omap (\<lambda>m. (True, sb\<lparr>sb_buffer := Some m, sb_length := n\<rparr>)) (stn (new_array g (sb_capacity sb)) 0 bs))))"

text \<open>Assignment first destroys the target; the source is another object.\<close>

definition sb_assign :: "(nat \<Rightarrow> u8) \<Rightarrow> SimpleBuffer \<Rightarrow> SimpleBuffer \<Rightarrow> SimpleBuffer outcome" where
  "sb_assign g other sb = sb_copy g other"

text \<open>The conversion to \<open>char*\<close>: the buffer with a terminating zero, and the memory the pointer addresses.\<close>

definition sb_c_str :: "(nat \<Rightarrow> u8) \<Rightarrow> SimpleBuffer \<Rightarrow> (mem \<times> SimpleBuffer) outcome" where
  "sb_c_str g sb =
     (if sb_length sb = 0 then Ret ([0], sb)
      else
        obind (if sb_capacity sb \<le> sb_length sb then sb_realloc g (sb_length sb + 1) sb else Ret sb)
          (\<lambda>sb. omap (\<lambda>sb. (case sb_buffer sb of Some m \<Rightarrow> m | None \<Rightarrow> [], sb))
                     (sb_store sb (unat (sb_length sb)) [0])))"

definition memmem :: "mem \<Rightarrow> mem \<Rightarrow> nat option" where
  "memmem hay needle =
     (let is = filter (\<lambda>i. take (length needle) (drop i hay) = needle) [0..<Suc (length hay)] in
      if is = [] then None else Some (hd is))"

definition sb_contains :: "mem \<Rightarrow> bool \<Rightarrow> SimpleBuffer \<Rightarrow> bool outcome" where
  "sb_contains data at_begin sb =
     (if at_begin then
        (if unat (sb_length sb) \<ge> length data then omap (\<lambda>bs. bs = data) (sb_load sb (length data) 0) else Ret False)
      else omap (\<lambda>bs. memmem bs data \<noteq> None) (sb_load sb (unat (sb_length sb)) 0))"

definition sb_isJsonObject :: "SimpleBuffer \<Rightarrow> bool outcome" where
  "sb_isJsonObject sb =
     (if sb_length sb = 0 then Ret False
      else obind (sb_load sb 1 0) (\<lambda>a. if a \<noteq> [123] then Ret False else
           omap (\<lambda>b. b = [125]) (sb_load sb 1 (unat (sb_length sb - 1)))))"

section \<open>Well-formed buffers and their contents\<close>

definition sb_ok :: "SimpleBuffer \<Rightarrow> bool" where
  "sb_ok sb =
     (case sb_buffer sb of None \<Rightarrow> sb_length sb = 0
      | Some m \<Rightarrow> length m = unat (sb_capacity sb) \<and> sb_length sb \<le> sb_capacity sb)"

definition sb_bytes :: "SimpleBuffer \<Rightarrow> mem" where
  "sb_bytes sb = (case sb_buffer sb of None \<Rightarrow> [] | Some m \<Rightarrow> take (unat (sb_length sb)) m)"

lemma length_new_array [simp]: "length (new_array g n) = unat n"
  by (simp add: new_array_def)

lemma length_sb_bytes: "sb_ok sb \<Longrightarrow> length (sb_bytes sb) = unat (sb_length sb)"
  by (auto simp: sb_ok_def sb_bytes_def word_le_nat_alt split: option.splits)

lemma sb_load_bytes:
  "sb_ok sb \<Longrightarrow> p + n \<le> unat (sb_length sb) \<Longrightarrow> sb_load sb n p = Ret (take n (drop p (sb_bytes sb)))"
  by (auto simp: sb_ok_def sb_load_def sb_bytes_def word_le_nat_alt ldn_def drop_take min_def split: option.splits)

lemma stn_prefix: "length bs \<le> length m \<Longrightarrow> \<exists>m'. stn m 0 bs = Ret m' \<and> length m' = length m \<and> take (length bs) m' = bs"
  by (auto simp: stn_def)

lemma stn_append:
  "p + length bs \<le> length m \<Longrightarrow> \<exists>m'. stn m p bs = Ret m' \<and> length m' = length m \<and> take (p + length bs) m' = take p m @ bs"
  by (auto simp: stn_def)

lemma sb_realloc_ok:
  assumes "sb_ok sb" and "sb_length sb \<le> cap"
  shows "\<exists>sb'. sb_realloc g cap sb = Ret sb' \<and> sb_ok sb' \<and> sb_bytes sb' = sb_bytes sb \<and> sb_buffer sb' \<noteq> None \<and>
     sb_capacity sb' = cap \<and> sb_length sb' = sb_length sb \<and> sb_reserve sb' = sb_reserve sb"
proof -
  have l: "sb_load sb (unat (sb_length sb)) 0 = Ret (sb_bytes sb)"
    using sb_load_bytes [OF assms(1), of 0 "unat (sb_length sb)"] length_sb_bytes [OF assms(1)] by simp
  obtain m where m: "stn (new_array g cap) 0 (sb_bytes sb) = Ret m" "length m = unat cap"
      "take (unat (sb_length sb)) m = sb_bytes sb"
    using stn_prefix [of "sb_bytes sb" "new_array g cap"] assms length_sb_bytes [OF assms(1)] by (auto simp: word_le_nat_alt)
  show ?thesis using m assms(2) by (simp add: sb_realloc_def l sb_ok_def sb_bytes_def [of "sb\<lparr>sb_buffer := _, sb_capacity := _\<rparr>"])
qed


lemma sb_bytes_upd [simp]: "sb_bytes (sb\<lparr>sb_buffer := Some m, sb_length := n\<rparr>) = take (unat n) m"
  "sb_bytes (sb\<lparr>sb_buffer := None, sb_length := n\<rparr>) = []"
  by (simp_all add: sb_bytes_def)

text \<open>The bytes that can still be added before a 32-bit size wraps.\<close>

definition sb_room :: "SimpleBuffer \<Rightarrow> nat \<Rightarrow> bool" where
  "sb_room sb n = (unat (sb_length sb) + n + unat (sb_reserve sb) + 1 < 2 ^ 32)"

lemma unat_sum:
  "unat (a :: u32) + unat b < 2 ^ 32 \<Longrightarrow> unat (a + b) = unat a + unat b"
  by (simp add: unat_word_ariths)

lemma sb_store_ok:
  assumes "sb_ok sb" "sb_buffer sb \<noteq> None" "unat (sb_length sb) + length bs \<le> unat (sb_capacity sb)" "unat k = length bs"
  shows "\<exists>sb'. omap (\<lambda>sb. sb\<lparr>sb_length := sb_length sb + k\<rparr>) (sb_store sb (unat (sb_length sb)) bs) = Ret sb' \<and> sb_ok sb' \<and>
    sb_bytes sb' = sb_bytes sb @ bs \<and> sb_reserve sb' = sb_reserve sb \<and> sb_capacity sb' = sb_capacity sb"
proof -
  obtain m where m: "sb_buffer sb = Some m" "length m = unat (sb_capacity sb)" using assms(1,2) by (auto simp: sb_ok_def)
  have "unat (sb_capacity sb) < 2 ^ 32" by simp
  then have n: "unat (sb_length sb + k) = unat (sb_length sb) + length bs"
    using assms(3,4) unat_sum [of "sb_length sb" k] by linarith
  obtain m' where m': "stn m (unat (sb_length sb)) bs = Ret m'" "length m' = length m"
      "take (unat (sb_length sb) + length bs) m' = take (unat (sb_length sb)) m @ bs"
    using stn_append [of "unat (sb_length sb)" bs m] assms(3) m by auto
  show ?thesis using m m' assms(3) n by (simp add: sb_store_def sb_ok_def sb_bytes_def word_le_nat_alt)
qed

lemma sb_add_ok:
  assumes "sb_ok sb" "sb_room sb (unat n)" "length src \<ge> unat n"
  shows "\<exists>sb'. sb_add g (Some src) n sb = Ret sb' \<and> sb_ok sb' \<and> sb_bytes sb' = sb_bytes sb @ take (unat n) src \<and> sb_reserve sb' = sb_reserve sb \<and>
     (n \<noteq> 0 \<longrightarrow> sb_length sb' < sb_capacity sb')"
proof (cases "n = 0")
  case True
  then show ?thesis using assms by (simp add: sb_add_def)
next
  case False
  have room: "unat (sb_length sb) + unat n + unat (sb_reserve sb) + 1 < 2 ^ 32" using assms(2) by (simp add: sb_room_def)
  let ?grown = "if sb_buffer sb = None then
           (let n = n + sb_reserve sb + 1 in Ret (sb\<lparr>sb_buffer := Some (new_array g n), sb_capacity := n\<rparr>))
         else if sb_length sb + n + 1 > sb_capacity sb then
           sb_realloc g (sb_length sb + n + sb_reserve sb + 1) sb
         else Ret sb"
  have u: "unat (n + sb_reserve sb + 1) = unat n + unat (sb_reserve sb) + 1"
    "unat (sb_length sb + n + 1) = unat (sb_length sb) + unat n + 1"
    "unat (sb_length sb + n + sb_reserve sb + 1) = unat (sb_length sb) + unat n + unat (sb_reserve sb) + 1"
    using room by (simp_all add: unat_sum)
  have "\<exists>sb1. ?grown = Ret sb1 \<and> sb_ok sb1 \<and> sb_buffer sb1 \<noteq> None \<and> sb_bytes sb1 = sb_bytes sb \<and> sb_length sb1 = sb_length sb \<and>
      sb_reserve sb1 = sb_reserve sb \<and> unat (sb_length sb) + unat n + 1 \<le> unat (sb_capacity sb1)"
  proof (cases "sb_buffer sb")
    case None
    then show ?thesis using assms(1) u by (auto simp: sb_ok_def sb_bytes_def word_le_nat_alt Let_def)
  next
    case (Some m)
    show ?thesis
    proof (cases "sb_length sb + n + 1 > sb_capacity sb")
      case True
      then show ?thesis using sb_realloc_ok [OF assms(1), of "sb_length sb + n + sb_reserve sb + 1" g] u Some
        by (force simp: word_le_nat_alt)
    next
      case False
      then show ?thesis using assms(1) u Some by (auto simp: word_le_nat_alt word_less_nat_alt)
    qed
  qed
  then obtain sb1 where g: "?grown = Ret sb1" and s: "sb_ok sb1" "sb_buffer sb1 \<noteq> None" "sb_bytes sb1 = sb_bytes sb"
    "sb_length sb1 = sb_length sb" "sb_reserve sb1 = sb_reserve sb" "unat (sb_length sb) + unat n + 1 \<le> unat (sb_capacity sb1)" by blast
  have ld: "ldn (unat n) src 0 = Ret (take (unat n) src)" using assms(3) by (simp add: ldn_def)
  have "sb_add g (Some src) n sb = omap (\<lambda>sb. sb\<lparr>sb_length := sb_length sb + n\<rparr>) (sb_store sb1 (unat (sb_length sb1)) (take (unat n) src))"
    using False g by (simp add: sb_add_def ld)
  with sb_store_ok [of sb1 "take (unat n) src" n] s assms(3) obtain sb' where
    sb': "sb_add g (Some src) n sb = Ret sb'" "sb_ok sb'" "sb_bytes sb' = sb_bytes sb @ take (unat n) src" "sb_reserve sb' = sb_reserve sb"
      "sb_capacity sb' = sb_capacity sb1" by auto
  then have "unat (sb_length sb') = unat (sb_length sb) + unat n"
    using length_sb_bytes [OF sb'(2)] length_sb_bytes [OF assms(1)] assms(3) by simp
  then have "sb_length sb' < sb_capacity sb'" using s(6) sb'(5) by (simp add: word_less_nat_alt)
  then show ?thesis using sb' by auto
qed


lemma sb_remove_ok:
  assumes "sb_ok sb"
  shows "\<exists>sb'. sb_removeDataFromLeft g n sb = Ret (n \<le> sb_length sb, sb') \<and> sb_ok sb' \<and> sb_reserve sb' = sb_reserve sb \<and>
     sb_bytes sb' = (if n \<le> sb_length sb then drop (unat n) (sb_bytes sb) else sb_bytes sb)"
proof (cases "n < sb_length sb")
  case False
  then show ?thesis using assms length_sb_bytes [OF assms]
    by (auto simp: sb_removeDataFromLeft_def sb_destroy_def sb_ok_def sb_bytes_def not_less)
next
  case True
  let ?n = "sb_length sb - n"
  have n: "unat ?n = unat (sb_length sb) - unat n" using True by (simp add: unat_sub less_imp_le)
  have le: "unat n < unat (sb_length sb)" using True by (simp add: word_less_nat_alt)
  obtain m where m: "sb_buffer sb = Some m" "length m = unat (sb_capacity sb)" "sb_length sb \<le> sb_capacity sb"
    using assms True by (auto simp: sb_ok_def split: option.splits)
  have l: "sb_load sb (unat ?n) (unat n) = Ret (drop (unat n) (sb_bytes sb))"
    using sb_load_bytes [OF assms, of "unat n" "unat ?n"] n le length_sb_bytes [OF assms] by simp
  obtain m' where m': "stn (new_array g (sb_capacity sb)) 0 (drop (unat n) (sb_bytes sb)) = Ret m'" "length m' = unat (sb_capacity sb)"
      "take (unat ?n) m' = drop (unat n) (sb_bytes sb)"
  proof -
    have "length (drop (unat n) (sb_bytes sb)) = unat ?n" "unat ?n \<le> length (new_array g (sb_capacity sb))"
      using m(3) n le length_sb_bytes [OF assms] by (simp_all add: word_le_nat_alt)
    then show thesis using stn_prefix [of "drop (unat n) (sb_bytes sb)" "new_array g (sb_capacity sb)"] that by fastforce
  qed
  have "sb_removeDataFromLeft g n sb = Ret (True, sb\<lparr>sb_buffer := Some m', sb_length := ?n\<rparr>)"
    using True l m' by (auto simp: sb_removeDataFromLeft_def Let_def not_less)
  moreover have "sb_ok (sb\<lparr>sb_buffer := Some m', sb_length := ?n\<rparr>)" using m m' n by (simp add: sb_ok_def word_le_nat_alt)
  ultimately show ?thesis using True m'(3) by simp
qed

lemma sb_copy_ok:
  assumes "sb_ok sb"
  shows "\<exists>sb'. sb_copy g sb = Ret sb' \<and> sb_ok sb' \<and> sb_bytes sb' = sb_bytes sb \<and> sb_length sb' = sb_length sb \<and> sb_reserve sb' = sb_reserve sb \<and>
     sb_capacity sb' = sb_capacity sb"
proof (cases "sb_length sb = 0")
  case True
  then show ?thesis by (auto simp: sb_copy_def sb_ok_def sb_bytes_def split: option.splits)
next
  case False
  then have "sb_length sb \<le> sb_capacity sb" using assms by (auto simp: sb_ok_def split: option.splits)
  from sb_realloc_ok [OF assms this, of g] show ?thesis using False
    by (cases "sb_load sb (unat (sb_length sb)) 0")
       (auto simp: sb_copy_def sb_realloc_def sb_ok_def sb_bytes_def omap_Ret_iff)
qed

lemma sb_set_data_capacity_ok:
  assumes "sb_ok sb"
  shows "\<exists>sb'. sb_set_data_capacity g cap sb = Ret sb' \<and> sb_ok sb' \<and> sb_bytes sb' = sb_bytes sb \<and> sb_length sb' = sb_length sb \<and>
    sb_reserve sb' = sb_reserve sb \<and> sb_capacity sb' = max cap (sb_capacity sb)"
proof (cases "cap > sb_capacity sb \<and> sb_buffer sb \<noteq> None")
  case True
  then have "sb_length sb \<le> cap" using assms by (auto simp: sb_ok_def)
  from sb_realloc_ok [OF assms this, of g] show ?thesis using True by (auto simp: sb_set_data_capacity_def max_def)
qed (use assms in \<open>auto simp: sb_set_data_capacity_def sb_ok_def sb_bytes_def max_def\<close>)

lemma sb_c_str_ok:
  assumes "sb_ok sb" "sb_room sb 0"
  shows "\<exists>m sb'. sb_c_str g sb = Ret (m, sb') \<and> sb_ok sb' \<and> sb_bytes sb' = sb_bytes sb \<and> sb_length sb' = sb_length sb \<and>
    sb_reserve sb' = sb_reserve sb \<and>
    length (sb_bytes sb) < length m \<and> take (length (sb_bytes sb)) m = sb_bytes sb \<and> m ! length (sb_bytes sb) = 0"
proof (cases "sb_length sb = 0")
  case True
  then have "sb_bytes sb = []" by (auto simp: sb_bytes_def split: option.splits)
  then show ?thesis using assms(1) True by (simp add: sb_c_str_def)
next
  case False
  have u: "unat (sb_length sb + 1) = unat (sb_length sb) + 1" using assms(2) by (simp add: sb_room_def unat_sum)
  have "\<exists>sb1. (if sb_capacity sb \<le> sb_length sb then sb_realloc g (sb_length sb + 1) sb else Ret sb) = Ret sb1 \<and> sb_ok sb1 \<and>
      sb_bytes sb1 = sb_bytes sb \<and> sb_buffer sb1 \<noteq> None \<and> sb_length sb1 = sb_length sb \<and> sb_reserve sb1 = sb_reserve sb \<and>
      unat (sb_length sb) < unat (sb_capacity sb1)"
    using assms(1) False sb_realloc_ok [OF assms(1), of "sb_length sb + 1" g] u
    by (auto simp: sb_ok_def word_le_nat_alt split: option.splits)
  then obtain sb1 m where r: "(if sb_capacity sb \<le> sb_length sb then sb_realloc g (sb_length sb + 1) sb else Ret sb) = Ret sb1"
    "sb_ok sb1" "sb_bytes sb1 = sb_bytes sb" "sb_buffer sb1 = Some m" "sb_length sb1 = sb_length sb" "sb_reserve sb1 = sb_reserve sb"
    "unat (sb_length sb) < unat (sb_capacity sb1)" by auto
  let ?l = "unat (sb_length sb)"
  have m: "length m = unat (sb_capacity sb1)" "take ?l m = sb_bytes sb" "sb_length sb1 \<le> sb_capacity sb1"
    using r(2-5) by (auto simp: sb_ok_def sb_bytes_def [of sb1])
  have l: "length (sb_bytes sb) = ?l" by (rule length_sb_bytes [OF assms(1)])
  let ?m = "take ?l m @ [0] @ drop (Suc ?l) m"
  have "sb_store sb1 (unat (sb_length sb1)) [0] = Ret (sb1\<lparr>sb_buffer := Some ?m\<rparr>)"
    using r m by (simp add: sb_store_def stn_def)
  then have "sb_c_str g sb = Ret (?m, sb1\<lparr>sb_buffer := Some ?m\<rparr>)" using False r(1) by (simp add: sb_c_str_def)
  moreover have "sb_ok (sb1\<lparr>sb_buffer := Some ?m\<rparr>)" "sb_bytes (sb1\<lparr>sb_buffer := Some ?m\<rparr>) = sb_bytes sb"
    using r(5,7) m by (simp_all add: sb_ok_def sb_bytes_def [of "sb1\<lparr>sb_buffer := _\<rparr>"] l)
  moreover have "take ?l ?m = sb_bytes sb" "?m ! ?l = 0" "?l < length ?m"
    using m r(7) l by (simp_all add: nth_append)
  ultimately show ?thesis using r(5,6) l by (auto simp: sb_bytes_def)
qed


section \<open>The contract of a byte buffer\<close>

text \<open>A sink collects bytes: what \<open>append\<close> is given stands behind the bytes already there, as long as the sizes
  have room. A buffer also gives bytes up at its front.\<close>

locale byte_sink =
  fixes ok :: "'s \<Rightarrow> bool" and bytes :: "'s \<Rightarrow> mem" and room :: "'s \<Rightarrow> nat \<Rightarrow> bool"
    and append :: "mem \<Rightarrow> 's \<Rightarrow> 's outcome"
  assumes append_ok: "ok s \<Longrightarrow> room s (length d + k) \<Longrightarrow>
      \<exists>s'. append d s = Ret s' \<and> ok s' \<and> bytes s' = bytes s @ d \<and> room s' k"
begin

lemma append_all:
  assumes "ok s" and "room s (length (concat ds) + k)"
  shows "\<exists>s'. fold (\<lambda>d m. obind m (append d)) ds (Ret s) = Ret s' \<and> ok s' \<and> bytes s' = bytes s @ concat ds \<and> room s' k"
  using assms
proof (induction ds arbitrary: s)
  case (Cons d ds)
  have "room s (length d + (length (concat ds) + k))" using Cons.prems(2) by (simp add: add.assoc)
  from append_ok [OF Cons.prems(1) this] obtain s1 where
    s1: "append d s = Ret s1" "ok s1" "bytes s1 = bytes s @ d" "room s1 (length (concat ds) + k)" by blast
  from Cons.IH [OF s1(2,4)] show ?case using s1 by auto
qed auto

text \<open>How a stream is cut into pieces does not matter.\<close>

lemma append_pieces:
  assumes "ok s" and "room s (length (concat ds))" and "concat ds = concat es"
  shows "\<exists>s1 s2. fold (\<lambda>d m. obind m (append d)) ds (Ret s) = Ret s1 \<and> fold (\<lambda>d m. obind m (append d)) es (Ret s) = Ret s2 \<and>
     bytes s1 = bytes s2"
  using append_all [of s ds 0] append_all [of s es 0] assms by auto

end

locale byte_buffer = byte_sink ok bytes room append
  for ok :: "'s \<Rightarrow> bool" and bytes :: "'s \<Rightarrow> mem" and room :: "'s \<Rightarrow> nat \<Rightarrow> bool" and append :: "mem \<Rightarrow> 's \<Rightarrow> 's outcome" +
  fixes remove :: "nat \<Rightarrow> 's \<Rightarrow> (bool \<times> 's) outcome"
  assumes remove_ok: "ok s \<Longrightarrow> n \<le> length (bytes s) \<Longrightarrow> room s k \<Longrightarrow>
      \<exists>s'. remove n s = Ret (True, s') \<and> ok s' \<and> bytes s' = drop n (bytes s) \<and> room s' (k + n)"
begin

text \<open>A message that arrives behind the buffered bytes and is taken off together with them leaves the rest.\<close>

lemma append_remove:
  assumes "ok s" and "room s (length d)" and "n \<le> length (bytes s) + length d"
  shows "\<exists>s1 s2. append d s = Ret s1 \<and> remove n s1 = Ret (True, s2) \<and> ok s2 \<and> bytes s2 = drop n (bytes s @ d)"
proof -
  obtain s1 where s1: "append d s = Ret s1" "ok s1" "bytes s1 = bytes s @ d" "room s1 0"
    using append_ok [of s d 0] assms by auto
  then show ?thesis using remove_ok [of s1 n 0] assms(3) by auto
qed

end

lemma sb_room_length: "sb_ok sb \<Longrightarrow> sb_room sb n = (length (sb_bytes sb) + n + unat (sb_reserve sb) + 1 < 2 ^ 32)"
  by (simp add: sb_room_def length_sb_bytes)

interpretation sbuf: byte_buffer sb_ok sb_bytes sb_room
  "\<lambda>d. sb_add g (Some d) (word_of_nat (length d))" "\<lambda>n. sb_removeDataFromLeft g (word_of_nat n)" for g
proof unfold_locales
  fix s k and d :: mem assume ok: "sb_ok s" and room: "sb_room s (length d + k)"
  have n: "unat (word_of_nat (length d) :: u32) = length d" using room by (simp add: sb_room_def unat_word_of_nat)
  then have "sb_room s (unat (word_of_nat (length d) :: u32))" using room by (simp add: sb_room_def)
  from sb_add_ok [OF ok this, of d g] n obtain s' where
    s': "sb_add g (Some d) (word_of_nat (length d)) s = Ret s'" "sb_ok s'" "sb_bytes s' = sb_bytes s @ d" "sb_reserve s' = sb_reserve s"
    by auto
  then show "\<exists>s'. sb_add g (Some d) (word_of_nat (length d)) s = Ret s' \<and> sb_ok s' \<and> sb_bytes s' = sb_bytes s @ d \<and> sb_room s' k"
    using room ok by (auto simp: sb_room_length)
next
  fix s n k assume ok: "sb_ok s" and n: "n \<le> length (sb_bytes s)" and room: "sb_room s k"
  have l: "length (sb_bytes s) = unat (sb_length s)" by (rule length_sb_bytes [OF ok])
  have "n < 2 ^ 32" using n l unat_less_2_32(3) [of "sb_length s"] by linarith
  then have u: "unat (word_of_nat n :: u32) = n" by (simp add: unat_word_of_nat)
  from sb_remove_ok [OF ok, of g "word_of_nat n"] u n l obtain s' where
    s': "sb_removeDataFromLeft g (word_of_nat n) s = Ret (True, s')" "sb_ok s'" "sb_reserve s' = sb_reserve s" "sb_bytes s' = drop n (sb_bytes s)"
    by (auto simp: word_le_nat_alt)
  then show "\<exists>s'. sb_removeDataFromLeft g (word_of_nat n) s = Ret (True, s') \<and> sb_ok s' \<and> sb_bytes s' = drop n (sb_bytes s) \<and> sb_room s' (k + n)"
    using room ok n l by (auto simp: sb_room_length)
qed

section \<open>SimpleChunkBuffer\<close>

record sChunk =
  ck_buffer :: mem
  ck_length :: u32
  ck_capacity :: u32

record SimpleChunkBuffer =
  scb_minChunkLength :: u32
  scb_buffer :: "sChunk list"

definition chunk_new :: "(nat \<Rightarrow> u8) \<Rightarrow> mem \<Rightarrow> nat \<Rightarrow> u32 \<Rightarrow> u32 \<Rightarrow> sChunk outcome" where
  "chunk_new g data off dataLength capacity =
     obind (ldn (unat dataLength) data off) (\<lambda>bs.
       omap (\<lambda>m. \<lparr>ck_buffer = m, ck_length = dataLength, ck_capacity = max dataLength capacity\<rparr>)
         (stn (new_array g (max dataLength capacity)) 0 bs))"

definition chunk_isFull :: "sChunk \<Rightarrow> bool" where
  "chunk_isFull c = (ck_length c \<ge> ck_capacity c)"

definition chunk_freeCapacity :: "sChunk \<Rightarrow> u32" where
  "chunk_freeCapacity c = (if ck_capacity c > ck_length c then ck_capacity c - ck_length c else 0)"

text \<open>The result is the number of bytes that did not fit.\<close>

definition chunk_add :: "mem \<Rightarrow> u32 \<Rightarrow> sChunk \<Rightarrow> (u32 \<times> sChunk) outcome" where
  "chunk_add data dataLength c =
     (if chunk_isFull c then Ret (dataLength, c)
      else
        (let (rest, n) = (if dataLength > chunk_freeCapacity c then (dataLength - chunk_freeCapacity c, chunk_freeCapacity c)
                          else (0, dataLength)) in
         obind (ldn (unat n) data 0) (\<lambda>bs.
           omap (\<lambda>m. (rest, c\<lparr>ck_buffer := m, ck_length := ck_length c + n\<rparr>)) (stn (ck_buffer c) (unat (ck_length c)) bs))))"

definition scb_new :: "u32 \<Rightarrow> SimpleChunkBuffer" where
  "scb_new minChunkLength = \<lparr>scb_minChunkLength = minChunkLength, scb_buffer = []\<rparr>"

definition scb_add :: "(nat \<Rightarrow> u8) \<Rightarrow> mem \<Rightarrow> u32 \<Rightarrow> SimpleChunkBuffer \<Rightarrow> SimpleChunkBuffer outcome" where
  "scb_add g data dataLength s =
     (if scb_buffer s = [] \<or> chunk_isFull (last (scb_buffer s)) then
        omap (\<lambda>c. s\<lparr>scb_buffer := scb_buffer s @ [c]\<rparr>) (chunk_new g data 0 dataLength (scb_minChunkLength s))
      else
        obind (chunk_add data dataLength (last (scb_buffer s))) (\<lambda>(rest, c).
          let s = s\<lparr>scb_buffer := butlast (scb_buffer s) @ [c]\<rparr> in
          if rest > 0 then
            omap (\<lambda>c. s\<lparr>scb_buffer := scb_buffer s @ [c]\<rparr>)
              (chunk_new g data (unat (dataLength - rest)) rest (scb_minChunkLength s))
          else Ret s))"

definition scb_size :: "SimpleChunkBuffer \<Rightarrow> u32" where
  "scb_size s = fold (\<lambda>c size. size + ck_length c) (scb_buffer s) 0"

fun scb_data_loop :: "sChunk list \<Rightarrow> u32 \<Rightarrow> mem \<Rightarrow> mem outcome" where
  "scb_data_loop [] pos m = Ret m"
| "scb_data_loop (c # cs) pos m =
     obind (ldn (unat (ck_length c)) (ck_buffer c) 0) (\<lambda>bs.
       obind (stn m (unat pos) bs) (scb_data_loop cs (pos + ck_length c)))"

definition scb_data :: "(nat \<Rightarrow> u8) \<Rightarrow> SimpleChunkBuffer \<Rightarrow> mem option outcome" where
  "scb_data g s =
     (if scb_size s = 0 then Ret None
      else omap Some (scb_data_loop (scb_buffer s) 0 (new_array g (scb_size s))))"

definition chunk_ok :: "sChunk \<Rightarrow> bool" where
  "chunk_ok c = (length (ck_buffer c) = unat (ck_capacity c) \<and> ck_length c \<le> ck_capacity c)"

definition chunk_bytes :: "sChunk \<Rightarrow> mem" where
  "chunk_bytes c = take (unat (ck_length c)) (ck_buffer c)"

definition scb_ok :: "SimpleChunkBuffer \<Rightarrow> bool" where
  "scb_ok s = (\<forall>c \<in> set (scb_buffer s). chunk_ok c)"

definition scb_bytes :: "SimpleChunkBuffer \<Rightarrow> mem" where
  "scb_bytes s = concat (map chunk_bytes (scb_buffer s))"

definition scb_room :: "SimpleChunkBuffer \<Rightarrow> nat \<Rightarrow> bool" where
  "scb_room s n = (length (scb_bytes s) + n < 2 ^ 32)"

lemma length_chunk_bytes: "chunk_ok c \<Longrightarrow> length (chunk_bytes c) = unat (ck_length c)"
  by (auto simp: chunk_ok_def chunk_bytes_def word_le_nat_alt)

lemma chunk_new_ok:
  assumes "off + unat n \<le> length data"
  shows "\<exists>c. chunk_new g data off n cap = Ret c \<and> chunk_ok c \<and> chunk_bytes c = take (unat n) (drop off data)"
proof -
  obtain m where m: "stn (new_array g (max n cap)) 0 (take (unat n) (drop off data)) = Ret m" "length m = unat (max n cap)"
      "take (unat n) m = take (unat n) (drop off data)"
  proof -
    have "n \<le> max n cap" by simp
    then have "unat n \<le> unat (max n cap)" by (simp only: word_le_nat_alt)
    then show thesis using stn_prefix [of "take (unat n) (drop off data)" "new_array g (max n cap)"] assms that by fastforce
  qed
  then show ?thesis using assms by (auto simp: chunk_new_def ldn_def chunk_ok_def chunk_bytes_def)
qed

lemma chunk_add_ok:
  assumes "chunk_ok c" and "\<not> chunk_isFull c" and "unat n \<le> length data"
  shows "\<exists>r c'. chunk_add data n c = Ret (r, c') \<and> chunk_ok c' \<and> r \<le> n \<and> chunk_bytes c' = chunk_bytes c @ take (unat (n - r)) data"
proof -
  let ?f = "chunk_freeCapacity c" and ?k = "min n (chunk_freeCapacity c)"
  have f: "unat ?f = unat (ck_capacity c) - unat (ck_length c)"
    using assms(2) by (simp add: chunk_freeCapacity_def chunk_isFull_def unat_sub less_imp_le not_le)
  have k: "unat ?k \<le> unat n" "unat ?k \<le> unat ?f" by (auto simp: min_def word_le_nat_alt)
  have c: "length (ck_buffer c) = unat (ck_capacity c)" "unat (ck_length c) \<le> unat (ck_capacity c)"
    using assms(1) by (auto simp: chunk_ok_def word_le_nat_alt)
  have sum: "unat (ck_length c + ?k) = unat (ck_length c) + unat ?k"
    using unat_sum [of "ck_length c" ?k] f k c unat_less_2_32(3) [of "ck_capacity c"] by linarith
  have fits: "unat (ck_length c) + unat ?k \<le> unat (ck_capacity c)" using f k c by linarith
  then obtain m where m: "stn (ck_buffer c) (unat (ck_length c)) (take (unat ?k) data) = Ret m" "length m = unat (ck_capacity c)"
      "take (unat (ck_length c) + unat ?k) m = chunk_bytes c @ take (unat ?k) data"
    using stn_append [of "unat (ck_length c)" "take (unat ?k) data" "ck_buffer c"] assms(3) k(1) c(1) by (auto simp: chunk_bytes_def)
  have ld: "ldn (unat ?k) data 0 = Ret (take (unat ?k) data)" using k(1) assms(3) by (simp add: ldn_def)
  let ?c = "c\<lparr>ck_buffer := m, ck_length := ck_length c + ?k\<rparr>"
  have "chunk_add data n c = Ret (n - ?k, ?c)"
    using assms(2) ld m(1) by (auto simp: chunk_add_def Let_def min_def not_less split: if_splits dest: order.antisym)
  moreover have "chunk_ok ?c" using m(2) sum fits by (simp add: chunk_ok_def word_le_nat_alt)
  moreover have "chunk_bytes ?c = chunk_bytes c @ take (unat ?k) data" using m(3) sum by (simp add: chunk_bytes_def)
  moreover have "n - ?k \<le> n" using k(1) by (simp add: word_le_nat_alt unat_sub)
  ultimately show ?thesis by auto
qed


lemma scb_add_ok:
  assumes "scb_ok s" and "unat n \<le> length data"
  shows "\<exists>s'. scb_add g data n s = Ret s' \<and> scb_ok s' \<and> scb_bytes s' = scb_bytes s @ take (unat n) data"
proof (cases "scb_buffer s = [] \<or> chunk_isFull (last (scb_buffer s))")
  case True
  then show ?thesis using chunk_new_ok [of 0 n data g "scb_minChunkLength s"] assms
    by (auto simp: scb_add_def scb_ok_def scb_bytes_def)
next
  case False
  then obtain cs c where cs: "scb_buffer s = cs @ [c]" by (metis append_butlast_last_id)
  have c: "chunk_ok c" "\<not> chunk_isFull c" using assms(1) False cs by (auto simp: scb_ok_def)
  from chunk_add_ok [OF c assms(2)] obtain r c' where a: "chunk_add data n c = Ret (r, c')" "chunk_ok c'" "r \<le> n"
    "chunk_bytes c' = chunk_bytes c @ take (unat (n - r)) data" by blast
  have sub: "unat (n - r) = unat n - unat r" "unat r \<le> unat n" using a(3) by (simp_all add: unat_sub word_le_nat_alt)
  then have "unat (n - r) + unat r \<le> length data" using assms(2) by simp
  from chunk_new_ok [OF this, of g "scb_minChunkLength s"] obtain c2 where
    c2: "chunk_new g data (unat (n - r)) r (scb_minChunkLength s) = Ret c2" "chunk_ok c2"
      "chunk_bytes c2 = take (unat r) (drop (unat (n - r)) data)" by blast
  have split: "take (unat (n - r)) data @ take (unat r) (drop (unat (n - r)) data) = take (unat n) data"
    using sub take_add [of "unat (n - r)" "unat r" data] by simp
  show ?thesis
  proof (cases "r = 0")
    case True
    then show ?thesis using False cs a assms(1) by (auto simp: scb_add_def scb_ok_def scb_bytes_def)
  next
    case False': False
    then have "r > 0" by (simp add: word_neq_0_conv)
    then show ?thesis using False cs a c2 split assms(1) by (auto simp: scb_add_def scb_ok_def scb_bytes_def)
  qed
qed

interpretation scb: byte_sink scb_ok scb_bytes scb_room "\<lambda>d. scb_add g d (word_of_nat (length d))" for g
proof unfold_locales
  fix s k and d :: mem assume ok: "scb_ok s" and room: "scb_room s (length d + k)"
  have "unat (word_of_nat (length d) :: u32) = length d" using room by (simp add: scb_room_def unat_word_of_nat)
  then show "\<exists>s'. scb_add g d (word_of_nat (length d)) s = Ret s' \<and> scb_ok s' \<and> scb_bytes s' = scb_bytes s @ d \<and> scb_room s' k"
    using scb_add_ok [OF ok, of "word_of_nat (length d)" d g] room by (auto simp: scb_room_def)
qed

lemma sum_chunks:
  "\<forall>c \<in> set cs. chunk_ok c \<Longrightarrow> unat z + length (concat (map chunk_bytes cs)) < 2 ^ 32 \<Longrightarrow>
     unat (fold (\<lambda>c size. size + ck_length c) cs (z :: u32)) = unat z + length (concat (map chunk_bytes cs))"
proof (induction cs arbitrary: z)
  case (Cons c cs)
  have l: "length (chunk_bytes c) = unat (ck_length c)" using Cons.prems(1) by (simp add: length_chunk_bytes)
  have "unat (z + ck_length c) = unat z + unat (ck_length c)" using Cons.prems(2) l by (intro unat_sum) simp
  then show ?case using Cons l by simp
qed simp

lemma scb_size_ok: "scb_ok s \<Longrightarrow> scb_room s 0 \<Longrightarrow> unat (scb_size s) = length (scb_bytes s)"
  using sum_chunks [of "scb_buffer s" 0] by (simp add: scb_size_def scb_ok_def scb_bytes_def scb_room_def)

lemma scb_data_loop_ok:
  assumes "\<forall>c \<in> set cs. chunk_ok c" and "unat pos + length (concat (map chunk_bytes cs)) = length m" and "length m < 2 ^ 32"
  shows "scb_data_loop cs pos m = Ret (take (unat pos) m @ concat (map chunk_bytes cs))"
  using assms
proof (induction cs arbitrary: pos m)
  case (Cons c cs)
  have l: "length (chunk_bytes c) = unat (ck_length c)" "unat (ck_length c) \<le> length (ck_buffer c)"
    using Cons.prems(1) by (auto simp: length_chunk_bytes chunk_ok_def word_le_nat_alt)
  then have ld: "ldn (unat (ck_length c)) (ck_buffer c) 0 = Ret (chunk_bytes c)" by (simp add: ldn_def chunk_bytes_def)
  obtain m' where m': "stn m (unat pos) (chunk_bytes c) = Ret m'" "length m' = length m"
      "take (unat pos + length (chunk_bytes c)) m' = take (unat pos) m @ chunk_bytes c"
    using stn_append [of "unat pos" "chunk_bytes c" m] Cons.prems(2) by auto
  have u: "unat (pos + ck_length c) = unat pos + unat (ck_length c)" using Cons.prems(2,3) l by (intro unat_sum) simp
  have "scb_data_loop cs (pos + ck_length c) m' = Ret (take (unat (pos + ck_length c)) m' @ concat (map chunk_bytes cs))"
    using Cons.prems l m'(2) u by (intro Cons.IH) auto
  then show ?case using ld m' l u by simp
qed simp

lemma scb_data_ok:
  assumes "scb_ok s" and "scb_room s 0"
  shows "scb_data g s = Ret (if scb_bytes s = [] then None else Some (scb_bytes s))"
proof -
  have n: "unat (scb_size s) = length (scb_bytes s)" by (rule scb_size_ok [OF assms])
  then have "scb_size s = 0 \<longleftrightarrow> scb_bytes s = []" by (metis length_0_conv unat_eq_zero)
  moreover have "scb_data_loop (scb_buffer s) 0 (new_array g (scb_size s)) = Ret (scb_bytes s)"
    using scb_data_loop_ok [of "scb_buffer s" 0 "new_array g (scb_size s)"] assms n by (simp add: scb_ok_def scb_bytes_def scb_room_def)
  ultimately show ?thesis by (simp add: scb_data_def)
qed

section \<open>Properties\<close>

text \<open>C21: \<open>SimpleBuffer\<close> implements a byte sequence: as long as length, reserve and new data stay below 32 bits, \<open>add\<close> appends
  the given bytes, \<open>removeDataFromLeft\<close> drops a prefix (and refuses more than there is), copy and assignment give the
  same bytes, growing the capacity keeps them, and the conversion to \<open>char*\<close> yields them with a terminating zero
  inside the array; no operation leaves the heap array and all keep the invariant.\<close>

theorem simple_buffer_refines_bytes:
  assumes "sb_ok sb" and "sb_room sb (unat n)" and "unat n \<le> length src"
  shows "(\<exists>sb'. sb_add g (Some src) n sb = Ret sb' \<and> sb_ok sb' \<and> sb_bytes sb' = sb_bytes sb @ take (unat n) src) \<and>
    (\<exists>sb'. sb_set g (Some src) n sb = Ret sb' \<and> sb_ok sb' \<and> sb_bytes sb' = take (unat n) src) \<and>
    (\<exists>sb'. sb_removeDataFromLeft g k sb = Ret (unat k \<le> length (sb_bytes sb), sb') \<and> sb_ok sb' \<and>
       sb_bytes sb' = (if unat k \<le> length (sb_bytes sb) then drop (unat k) (sb_bytes sb) else sb_bytes sb)) \<and>
    (\<exists>sb'. sb_copy g sb = Ret sb' \<and> sb_ok sb' \<and> sb_bytes sb' = sb_bytes sb) \<and>
    (\<exists>sb'. sb_set_data_capacity g cap sb = Ret sb' \<and> sb_ok sb' \<and> sb_bytes sb' = sb_bytes sb \<and> sb_capacity sb' \<ge> cap) \<and>
    (\<exists>m sb'. sb_c_str g sb = Ret (m, sb') \<and> sb_ok sb' \<and> sb_bytes sb' = sb_bytes sb \<and>
       length (sb_bytes sb) < length m \<and> take (length (sb_bytes sb)) m = sb_bytes sb \<and> m ! length (sb_bytes sb) = 0)"
proof (intro conjI)
  have c: "sb_ok (sb_clear sb)" "sb_room (sb_clear sb) (unat n)" "sb_bytes (sb_clear sb) = []"
    using assms(1,2) by (auto simp: sb_clear_def sb_ok_def sb_room_def sb_bytes_def split: option.splits)
  show "\<exists>sb'. sb_set g (Some src) n sb = Ret sb' \<and> sb_ok sb' \<and> sb_bytes sb' = take (unat n) src"
    using sb_add_ok [OF c(1,2) assms(3), of g] c(3) by (auto simp: sb_set_def)
  show "\<exists>sb'. sb_removeDataFromLeft g k sb = Ret (unat k \<le> length (sb_bytes sb), sb') \<and> sb_ok sb' \<and>
       sb_bytes sb' = (if unat k \<le> length (sb_bytes sb) then drop (unat k) (sb_bytes sb) else sb_bytes sb)"
    using sb_remove_ok [OF assms(1), of g k] length_sb_bytes [OF assms(1)] by (auto simp: word_le_nat_alt)
  show "\<exists>m sb'. sb_c_str g sb = Ret (m, sb') \<and> sb_ok sb' \<and> sb_bytes sb' = sb_bytes sb \<and>
       length (sb_bytes sb) < length m \<and> take (length (sb_bytes sb)) m = sb_bytes sb \<and> m ! length (sb_bytes sb) = 0"
  proof -
    have "sb_room sb 0" using assms(2) by (simp add: sb_room_def)
    from sb_c_str_ok [OF assms(1) this, of g] show ?thesis by blast
  qed
qed (use sb_add_ok [OF assms, of g] sb_copy_ok [OF assms(1), of g] sb_set_data_capacity_ok [OF assms(1), of g cap] in auto)

theorem simple_buffer_refines_bytes_witness:
  "\<exists>sb'. sb_add (\<lambda>_. 0) (Some [1, 2, 3]) 2 (sb_new 8) = Ret sb' \<and> sb_ok sb' \<and> sb_bytes sb' = [1, 2]"
proof -
  have "sb_ok (sb_new 8)" "sb_room (sb_new 8) (unat (2 :: u32))" "unat (2 :: u32) \<le> length [1, 2, 3 :: u8]" "sb_bytes (sb_new 8) = []"
    by (simp_all add: sb_new_def sb_ok_def sb_room_def sb_bytes_def)
  from conjunct1 [OF simple_buffer_refines_bytes [OF this(1-3), of "\<lambda>_. 0"]] this(4) show ?thesis by simp
qed

text \<open>A copy of a buffer that was cleared (not destroyed) has no array but the old capacity: a following \<open>set_data_len\<close> within
  that capacity gives a buffer that claims bytes behind a null pointer, and its conversion to \<open>char*\<close> writes through it.\<close>

theorem simple_buffer_copy_of_cleared:
  assumes "0 < n" and "n < sb_capacity sb"
  shows "\<exists>c sb'. sb_copy g (sb_clear sb) = Ret c \<and> sb_set_data_len g n c = Ret sb' \<and> \<not> sb_ok sb' \<and> sb_c_str g sb' = OutOfBounds"
proof -
  have "n \<noteq> 0" "\<not> sb_capacity sb < n" "\<not> sb_capacity sb \<le> n" using assms by auto
  then show ?thesis by (simp add: sb_copy_def sb_clear_def sb_set_data_len_def sb_ok_def sb_c_str_def sb_store_def)
qed

theorem simple_buffer_copy_of_cleared_witness:
  "\<exists>sb c sb'. sb_add (\<lambda>_. 0) (Some [1, 2, 3]) 3 (sb_new 0) = Ret sb \<and> sb_copy (\<lambda>_. 0) (sb_clear sb) = Ret c \<and> sb_set_data_len (\<lambda>_. 0) 2 c = Ret sb' \<and> sb_c_str (\<lambda>_. 0) sb' = OutOfBounds"
proof -
  have "\<exists>sb. sb_add (\<lambda>_. 0) (Some [1, 2, 3]) 3 (sb_new 0) = Ret sb \<and> sb_capacity sb = 4"
    by (simp add: sb_add_def sb_new_def Let_def ldn_def sb_store_def stn_def)
  then obtain sb where sb: "sb_add (\<lambda>_. 0) (Some [1, 2, 3]) 3 (sb_new 0) = Ret sb" "sb_capacity sb = 4" by blast
  then have "(2 :: u32) < sb_capacity sb" by simp
  from simple_buffer_copy_of_cleared [OF _ this, of "\<lambda>_. 0"] sb(1) show ?thesis by auto
qed

text \<open>\<open>SimpleChunkBuffer\<close> collects a stream: whatever the pieces it is given and the minimal chunk length, \<open>size\<close> is the
  number of bytes and \<open>data\<close> their concatenation (the null pointer when there are none), without leaving any chunk.\<close>

theorem chunk_buffer_collects:
  assumes "length (concat ds) < 2 ^ 32"
  shows "\<exists>s. fold (\<lambda>d m. obind m (scb_add g d (word_of_nat (length d)))) ds (Ret (scb_new minChunkLength)) = Ret s \<and>
    unat (scb_size s) = length (concat ds) \<and> scb_data g' s = Ret (if concat ds = [] then None else Some (concat ds))"
proof -
  have "scb_ok (scb_new minChunkLength)" "scb_room (scb_new minChunkLength) (length (concat ds) + 0)" "scb_bytes (scb_new minChunkLength) = []"
    using assms by (simp_all add: scb_new_def scb_ok_def scb_room_def scb_bytes_def)
  from scb.append_all [OF this(1,2), of g] this(3) show ?thesis using scb_size_ok scb_data_ok by auto
qed

theorem chunk_buffer_collects_witness:
  "\<exists>s. fold (\<lambda>d m. obind m (scb_add (\<lambda>_. 0) d (word_of_nat (length d)))) [[1, 2, 3], [], [4, 5]] (Ret (scb_new 4)) = Ret s \<and>
    scb_data (\<lambda>_. 0) s = Ret (Some [1, 2, 3, 4, 5])"
  using chunk_buffer_collects [of "[[1, 2, 3], [], [4, 5]]" "\<lambda>_. 0" 4 "\<lambda>_. 0"] by auto

end
