(* ===== verification/VM_Hep.thy ===== *)
theory VM_Hep
  imports VM_IpKeys VM_IpHeader VM_SimpleBuffer
begin

text \<open>
  The receiver of the Homer encapsulation protocol, version 3 (\<open>hep.h\<close>, \<open>hep.cpp\<close>): a stream of messages,
  each a list of chunks that describe one captured packet. Received data is a memory with the position of the
  data in it; lengths are \<open>size_t\<close> (64 bits) or \<open>unsigned\<close> (32 bits) as in the code and wrap; a read outside
  the memory is \<open>OutOfBounds\<close>. The two loops take fuel. The decompression (zlib), the two JSON converters,
  the bytes of fresh arrays and of the uninitialised stack are fields of the record \<open>hep_env\<close>. A
  packet handed on to \<open>pushPacket\<close> is recorded in \<open>hs_pushed\<close>.
\<close>

section \<open>Data\<close>

record sHEP_Data =
  set_flags :: u64
  ip_protocol_family :: u8
  ip_protocol_id :: u8
  ip_source_address :: vmIP
  ip_destination_address :: vmIP
  protocol_source_port :: vmPort
  protocol_destination_port :: vmPort
  timestamp_seconds :: u32
  timestamp_microseconds :: u32
  protocol_type :: u8
  capture_agent_id :: u32
  keep_alive_timer :: u16
  authenticate_key :: SimpleBuffer
  captured_packet_payload :: SimpleBuffer
  internal_correlation_id :: SimpleBuffer
  vlan_id :: u16
  group_id :: SimpleBuffer
  source_mac :: u64
  destination_mac :: u64
  ethernet_type :: u16
  tcp_flag :: u8
  ip_tos :: u8
  mos_value :: u16
  r_factor :: u16
  geo_location :: SimpleBuffer
  jitter :: u32
  transaction_type :: SimpleBuffer
  payload_json_keys :: SimpleBuffer
  tags_values :: SimpleBuffer
  tag_type :: u16

text \<open>What \<open>pushPacket\<close> is given: the arguments of \<open>createSimpleTcpDataPacket\<close> or \<open>createSimpleUdpDataPacket\<close>.\<close>

record hep_packet =
  hp_tcp :: bool
  hp_v6 :: bool
  hp_saddr :: vmIP
  hp_daddr :: vmIP
  hp_sport :: vmPort
  hp_dport :: vmPort
  hp_tcp_flags :: u8
  hp_sec :: u32
  hp_usec :: u32
  hp_payload :: mem

record hep_env =
  kamailio_protocol_id_fix :: bool
  counter_log :: bool
  gunzip :: "mem \<Rightarrow> mem option"
  json_payload :: "mem \<Rightarrow> mem"
  rtcp_from_json :: "mem \<Rightarrow> mem option"
  fresh_byte :: "nat \<Rightarrow> u8"
  stack_garbage :: sHEP_Data

record hep_state =
  hs_buffer :: SimpleBuffer
  hs_counter :: "(vmIP, u64) std_map"
  hs_pushed :: "hep_packet list"

text \<open>The constructor sets the flags; addresses, ports and buffers have constructors of their own; all other
  fields keep what was on the stack.\<close>

definition sHEP_Data_new :: "sHEP_Data \<Rightarrow> sHEP_Data" where
  "sHEP_Data_new u = u\<lparr>set_flags := 0,
     ip_source_address := vmIP_v4 0, ip_destination_address := vmIP_v4 0,
     protocol_source_port := VmPort 0, protocol_destination_port := VmPort 0,
     authenticate_key := sb_new 0, captured_packet_payload := sb_new 0, internal_correlation_id := sb_new 0,
     group_id := sb_new 0, geo_location := sb_new 0, transaction_type := sb_new 0, payload_json_keys := sb_new 0,
     tags_values := sb_new 0\<rparr>"

section \<open>Framing\<close>

fun match_bytes :: "mem \<Rightarrow> nat \<Rightarrow> u8 list \<Rightarrow> bool outcome" where
  "match_bytes m p [] = Ret True"
| "match_bytes m p (b # bs) = obind (ld8 m p) (\<lambda>x. if x = b then match_bytes m (p + 1) bs else Ret False)"

definition isBeginHep :: "mem \<Rightarrow> nat \<Rightarrow> u64 \<Rightarrow> bool outcome" where
  "isBeginHep m p dataLen = (if dataLen \<ge> 4 then match_bytes m p [0x48, 0x45, 0x50, 0x33] else Ret False)"

text \<open>The length fields are read as 32-bit values of which \<open>ntohs\<close> takes the lower half.\<close>

definition hepLength :: "mem \<Rightarrow> nat \<Rightarrow> u64 \<Rightarrow> u16 outcome" where
  "hepLength m p dataLen = (if dataLen \<ge> 6 then omap (\<lambda>w. ntohs (ucast w)) (ld32 m (p + 4)) else Ret 0)"

definition isCompleteHep :: "mem \<Rightarrow> nat \<Rightarrow> u64 \<Rightarrow> bool outcome" where
  "isCompleteHep m p dataLen =
     obind (isBeginHep m p dataLen) (\<lambda>b. if b then omap (\<lambda>l. ucast l \<le> dataLen) (hepLength m p dataLen) else Ret False)"

definition chunkVendor :: "mem \<Rightarrow> nat \<Rightarrow> u64 \<Rightarrow> u16 outcome" where
  "chunkVendor m p dataLen = (if dataLen \<ge> 2 then omap (\<lambda>w. ntohs (ucast w)) (ld32 m p) else Ret 0)"

definition chunkType :: "mem \<Rightarrow> nat \<Rightarrow> u64 \<Rightarrow> u16 outcome" where
  "chunkType m p dataLen = (if dataLen \<ge> 4 then omap (\<lambda>w. ntohs (ucast w)) (ld32 m (p + 2)) else Ret 0)"

definition chunkLength :: "mem \<Rightarrow> nat \<Rightarrow> u64 \<Rightarrow> u16 outcome" where
  "chunkLength m p dataLen = (if dataLen \<ge> 6 then omap (\<lambda>w. ntohs (ucast w)) (ld32 m (p + 4)) else Ret 0)"

section \<open>Chunks\<close>

text \<open>A field of fixed size is taken when the payload has exactly that size; the boolean is \<open>ok\<close> of the code.\<close>

definition fixed_field :: "u32 \<Rightarrow> u32 \<Rightarrow> 'v outcome \<Rightarrow> ('v \<Rightarrow> sHEP_Data \<Rightarrow> sHEP_Data) \<Rightarrow> sHEP_Data \<Rightarrow> (bool \<times> sHEP_Data) outcome" where
  "fixed_field n payloadLen load upd h =
     (if payloadLen = n then omap (\<lambda>v. (True, upd v h)) load else Ret (False, h))"

text \<open>A field of any size is appended to its buffer.\<close>

definition bin_field :: "(nat \<Rightarrow> u8) \<Rightarrow> mem \<Rightarrow> nat \<Rightarrow> u32 \<Rightarrow> (sHEP_Data \<Rightarrow> SimpleBuffer) \<Rightarrow> (SimpleBuffer \<Rightarrow> sHEP_Data \<Rightarrow> sHEP_Data) \<Rightarrow>
    sHEP_Data \<Rightarrow> (bool \<times> sHEP_Data) outcome" where
  "bin_field g m payload payloadLen get upd h =
     omap (\<lambda>sb. (True, upd sb h)) (sb_add g (Some (drop payload m)) payloadLen (get h))"

definition fix_protocol_id :: "bool \<Rightarrow> u8 \<Rightarrow> u8" where
  "fix_protocol_id kamailio v = (if v = 22 \<and> kamailio then 17 else v)"

definition gzip_isCompress :: "mem \<Rightarrow> nat \<Rightarrow> u64 \<Rightarrow> bool outcome" where
  "gzip_isCompress m p bufferLength = (if bufferLength > 2 then match_bytes m p [0x1F, 0x8B] else Ret False)"

definition compressed_field :: "hep_env \<Rightarrow> mem \<Rightarrow> nat \<Rightarrow> u32 \<Rightarrow> sHEP_Data \<Rightarrow> (bool \<times> sHEP_Data) outcome" where
  "compressed_field env m payload payloadLen h =
     obind (gzip_isCompress m payload (ucast payloadLen)) (\<lambda>c.
       if c then
         obind (ldn (unat payloadLen) m payload) (\<lambda>z.
           case gunzip env z of
             None \<Rightarrow> Ret (False, h)
           | Some d \<Rightarrow>
               omap (\<lambda>sb. (False, h\<lparr>captured_packet_payload := sb\<rparr>))
                 (sb_add (fresh_byte env) (Some d) (word_of_nat (length d)) (captured_packet_payload h)))
       else Ret (False, h))"

text \<open>The cases of the switch up to the keep-alive timer, and from the authentication key on.\<close>

definition processChunk_net :: "hep_env \<Rightarrow> u16 \<Rightarrow> mem \<Rightarrow> nat \<Rightarrow> u32 \<Rightarrow> sHEP_Data \<Rightarrow> (bool \<times> sHEP_Data) outcome" where
  "processChunk_net env t m p n h =
     (if t = 0x01 then fixed_field 1 n (ld8 m p) (\<lambda>v. ip_protocol_family_update (\<lambda>_. v)) h
      else if t = 0x02 then fixed_field 1 n (ld8 m p) (\<lambda>v. ip_protocol_id_update (\<lambda>_. fix_protocol_id (kamailio_protocol_id_fix env) v)) h
      else if t = 0x03 then fixed_field 4 n (ld32 m p) (\<lambda>v. ip_source_address_update (vmIP_setIPv4 v True)) h
      else if t = 0x05 then fixed_field 16 n (ld_in6 m p) (\<lambda>v. ip_source_address_update (vmIP_setIPv6 v True)) h
      else if t = 0x04 then fixed_field 4 n (ld32 m p) (\<lambda>v. ip_destination_address_update (vmIP_setIPv4 v True)) h
      else if t = 0x06 then fixed_field 16 n (ld_in6 m p) (\<lambda>v. ip_destination_address_update (vmIP_setIPv6 v True)) h
      else if t = 0x07 then fixed_field 2 n (ld16 m p) (\<lambda>v. protocol_source_port_update (\<lambda>_. vmPort_setPort v True)) h
      else if t = 0x08 then fixed_field 2 n (ld16 m p) (\<lambda>v. protocol_destination_port_update (\<lambda>_. vmPort_setPort v True)) h
      else if t = 0x09 then fixed_field 4 n (ld32 m p) (\<lambda>v. timestamp_seconds_update (\<lambda>_. ntohl v)) h
      else if t = 0x0a then fixed_field 4 n (ld32 m p) (\<lambda>v. timestamp_microseconds_update (\<lambda>_. ntohl v)) h
      else if t = 0x0b then fixed_field 1 n (ld8 m p) (\<lambda>v. protocol_type_update (\<lambda>_. v)) h
      else if t = 0x0c then fixed_field 4 n (ld32 m p) (\<lambda>v. capture_agent_id_update (\<lambda>_. ntohl v)) h
      else if t = 0x0d then fixed_field 2 n (ld16 m p) (\<lambda>v. keep_alive_timer_update (\<lambda>_. ntohs v)) h
      else Ret (False, h))"

definition processChunk_meta :: "hep_env \<Rightarrow> u16 \<Rightarrow> mem \<Rightarrow> nat \<Rightarrow> u32 \<Rightarrow> sHEP_Data \<Rightarrow> (bool \<times> sHEP_Data) outcome" where
  "processChunk_meta env t m p n h =
     (let bin = bin_field (fresh_byte env) m p n in
      if t = 0x0e then bin authenticate_key (\<lambda>b. authenticate_key_update (\<lambda>_. b)) h
      else if t = 0x0f then bin captured_packet_payload (\<lambda>b. captured_packet_payload_update (\<lambda>_. b)) h
      else if t = 0x10 then compressed_field env m p n h
      else if t = 0x11 then bin internal_correlation_id (\<lambda>b. internal_correlation_id_update (\<lambda>_. b)) h
      else if t = 0x12 then fixed_field 2 n (ld16 m p) (\<lambda>v. vlan_id_update (\<lambda>_. ntohs v)) h
      else if t = 0x13 then bin group_id (\<lambda>b. group_id_update (\<lambda>_. b)) h
      else if t = 0x14 then fixed_field 8 n (ld64 m p) (\<lambda>v. source_mac_update (\<lambda>_. be64toh v)) h
      else if t = 0x15 then fixed_field 8 n (ld64 m p) (\<lambda>v. destination_mac_update (\<lambda>_. be64toh v)) h
      else if t = 0x16 then fixed_field 2 n (ld16 m p) (\<lambda>v. ethernet_type_update (\<lambda>_. ntohs v)) h
      else if t = 0x17 then fixed_field 1 n (ld8 m p) (\<lambda>v. tcp_flag_update (\<lambda>_. v)) h
      else if t = 0x18 then fixed_field 1 n (ld8 m p) (\<lambda>v. ip_tos_update (\<lambda>_. v)) h
      else if t = 0x20 then fixed_field 2 n (ld16 m p) (\<lambda>v. mos_value_update (\<lambda>_. ntohs v)) h
      else if t = 0x21 then fixed_field 2 n (ld16 m p) (\<lambda>v. r_factor_update (\<lambda>_. ntohs v)) h
      else if t = 0x22 then bin geo_location (\<lambda>b. geo_location_update (\<lambda>_. b)) h
      else if t = 0x23 then fixed_field 4 n (ld32 m p) (\<lambda>v. jitter_update (\<lambda>_. ntohl v)) h
      else if t = 0x24 then bin transaction_type (\<lambda>b. transaction_type_update (\<lambda>_. b)) h
      else if t = 0x25 then bin payload_json_keys (\<lambda>b. payload_json_keys_update (\<lambda>_. b)) h
      else if t = 0x26 then bin tags_values (\<lambda>b. tags_values_update (\<lambda>_. b)) h
      else if t = 0x27 then fixed_field 2 n (ld16 m p) (\<lambda>v. tag_type_update (\<lambda>_. ntohs v)) h
      else Ret (False, h))"

definition set_flag :: "nat \<Rightarrow> sHEP_Data \<Rightarrow> sHEP_Data" where
  "set_flag t h = h\<lparr>set_flags := set_flags h OR push_bit t 1\<rparr>"

definition processChunk :: "hep_env \<Rightarrow> mem \<Rightarrow> nat \<Rightarrow> u64 \<Rightarrow> sHEP_Data \<Rightarrow> sHEP_Data outcome" where
  "processChunk env m p dataLen h =
     obind (chunkType m p dataLen) (\<lambda>t.
       let payloadLen = ucast (dataLen - 6) :: u32 in
       omap (\<lambda>(ok, h). if ok then set_flag (unat t) h else h)
         (if t \<le> 0x0d then processChunk_net env t m (p + 6) payloadLen h
          else processChunk_meta env t m (p + 6) payloadLen h))"

fun chunks_loop :: "nat \<Rightarrow> hep_env \<Rightarrow> mem \<Rightarrow> nat \<Rightarrow> u64 \<Rightarrow> u32 \<Rightarrow> sHEP_Data \<Rightarrow> sHEP_Data outcome" where
  "chunks_loop 0 env m p dataLen offset h = OutOfFuel"
| "chunks_loop (Suc k) env m p dataLen offset h =
     (if ucast offset < dataLen - 6 then
        obind (chunkLength m (p + unat offset) (dataLen - ucast offset)) (\<lambda>l.
          if l = 0 \<or> ucast l > dataLen - ucast offset then Ret h
          else obind (processChunk env m (p + unat offset) (ucast l) h)
                 (chunks_loop k env m p dataLen (offset + ucast l)))
      else Ret h)"

definition processChunks :: "nat \<Rightarrow> hep_env \<Rightarrow> mem \<Rightarrow> nat \<Rightarrow> u64 \<Rightarrow> sHEP_Data \<Rightarrow> sHEP_Data outcome" where
  "processChunks fuel env m p dataLen h = chunks_loop fuel env m p dataLen 0 h"

section \<open>Messages\<close>

definition hep_counter_inc :: "vmIP \<Rightarrow> (vmIP, u64) std_map \<Rightarrow> (vmIP, u64) std_map" where
  "hep_counter_inc ip c = map_put vmIP_lt ip ((case map_find vmIP_lt ip c of None \<Rightarrow> 0 | Some n \<Rightarrow> n) + 1) c"

definition get_sum_counter :: "(vmIP, u64) std_map \<Rightarrow> u64" where
  "get_sum_counter c = fold (\<lambda>e sum. sum + snd e) c 0"

text \<open>The payload that is handed on: JSON wrappers are replaced when they convert. The converters are given
  the bytes of the buffer from its start.\<close>

definition hep_payload :: "hep_env \<Rightarrow> sHEP_Data \<Rightarrow> mem outcome" where
  "hep_payload env h =
     (let sb = captured_packet_payload h; raw = sb_load sb (unat (sb_length sb)) 0 in
      if protocol_type h = 0x01 \<or> protocol_type h = 0x05 then
        obind (sb_isJsonObject sb) (\<lambda>j.
          if \<not> j then raw
          else if protocol_type h = 0x01 then
            obind raw (\<lambda>bs. Ret (if json_payload env bs \<noteq> [] then json_payload env bs else bs))
          else
            obind raw (\<lambda>bs. Ret (case rtcp_from_json env bs of Some r \<Rightarrow> r | None \<Rightarrow> bs)))
      else raw)"

definition hep_to_packet :: "sHEP_Data \<Rightarrow> mem \<Rightarrow> hep_packet" where
  "hep_to_packet h payload =
     (let tcp = (ip_protocol_id h = 6 \<or> ip_protocol_id h = 50) in
      \<lparr>hp_tcp = tcp, hp_v6 = (ip_protocol_family h = 10),
       hp_saddr = ip_source_address h, hp_daddr = ip_destination_address h,
       hp_sport = protocol_source_port h, hp_dport = protocol_destination_port h,
       hp_tcp_flags = (if tcp \<and> set_flags h AND push_bit 0x17 1 \<noteq> 0 then tcp_flag h else 0),
       hp_sec = timestamp_seconds h, hp_usec = timestamp_microseconds h, hp_payload = payload\<rparr>)"

definition processHep :: "nat \<Rightarrow> hep_env \<Rightarrow> mem \<Rightarrow> nat \<Rightarrow> u64 \<Rightarrow> vmIP \<Rightarrow> hep_state \<Rightarrow> hep_state outcome" where
  "processHep fuel env m p dataLen ip st =
     (let st = (if counter_log env \<and> vmIP_isSet ip then st\<lparr>hs_counter := hep_counter_inc ip (hs_counter st)\<rparr> else st) in
      obind (processChunks fuel env m (p + 6) (dataLen - 6) (sHEP_Data_new (stack_garbage env))) (\<lambda>h.
        if (ip_protocol_family h = 2 \<or> ip_protocol_family h = 10) \<and>
           (ip_protocol_id h = 17 \<or> ip_protocol_id h = 6 \<or> ip_protocol_id h = 50) then
          omap (\<lambda>payload. st\<lparr>hs_pushed := hs_pushed st @ [hep_to_packet h payload]\<rparr>) (hep_payload env h)
        else Ret st))"

fun heps_loop :: "nat \<Rightarrow> nat \<Rightarrow> hep_env \<Rightarrow> mem \<Rightarrow> nat \<Rightarrow> u64 \<Rightarrow> vmIP \<Rightarrow> u32 \<Rightarrow> hep_state \<Rightarrow> (u32 \<times> hep_state) outcome" where
  "heps_loop 0 fuel env m p dataLen ip processed st = OutOfFuel"
| "heps_loop (Suc k) fuel env m p dataLen ip processed st =
     (if ucast processed < dataLen - 6 then
        obind (isBeginHep m (p + unat processed) (dataLen - ucast processed)) (\<lambda>b.
          if \<not> b then Ret (processed, st)
          else obind (hepLength m (p + unat processed) (dataLen - ucast processed)) (\<lambda>l.
            if ucast l > dataLen - ucast processed then Ret (processed, st)
            else obind (processHep fuel env m (p + unat processed) (ucast l) ip st)
                   (heps_loop k fuel env m p dataLen ip (processed + ucast l))))
      else Ret (processed, st))"

definition processHeps :: "nat \<Rightarrow> hep_env \<Rightarrow> mem \<Rightarrow> nat \<Rightarrow> u64 \<Rightarrow> vmIP \<Rightarrow> hep_state \<Rightarrow> (u32 \<times> hep_state) outcome" where
  "processHeps fuel env m p dataLen ip st = heps_loop fuel fuel env m p dataLen ip 0 st"

section \<open>The receiver\<close>

definition hep_buffer_add :: "hep_env \<Rightarrow> mem \<Rightarrow> nat \<Rightarrow> u64 \<Rightarrow> hep_state \<Rightarrow> hep_state outcome" where
  "hep_buffer_add env m p n st =
     omap (\<lambda>sb. st\<lparr>hs_buffer := sb\<rparr>) (sb_add (fresh_byte env) (Some (drop p m)) (ucast n) (hs_buffer st))"

text \<open>The buffered data: \<open>processHeps\<close> reads from the array of the buffer.\<close>

definition hep_array :: "SimpleBuffer \<Rightarrow> mem" where
  "hep_array sb = (case sb_buffer sb of None \<Rightarrow> [] | Some m \<Rightarrow> m)"

definition process_buffered :: "nat \<Rightarrow> hep_env \<Rightarrow> u64 \<Rightarrow> vmIP \<Rightarrow> hep_state \<Rightarrow> hep_state outcome" where
  "process_buffered fuel env dataLen ip st =
     (let m = hep_array (hs_buffer st); n = ucast (sb_length (hs_buffer st)) in
      obind (isCompleteHep m 0 n) (\<lambda>c.
        if \<not> c then Ret st
        else obind (processHeps fuel env m 0 n ip st) (\<lambda>(processed, st).
          if processed = sb_length (hs_buffer st) then Ret (st\<lparr>hs_buffer := sb_clear (hs_buffer st)\<rparr>)
          else if ucast processed < dataLen then
            omap (\<lambda>(_, sb). st\<lparr>hs_buffer := sb\<rparr>) (sb_removeDataFromLeft (fresh_byte env) processed (hs_buffer st))
          else Ret st)))"

definition processData :: "nat \<Rightarrow> hep_env \<Rightarrow> mem \<Rightarrow> nat \<Rightarrow> u64 \<Rightarrow> vmIP \<Rightarrow> hep_state \<Rightarrow> hep_state outcome" where
  "processData fuel env m p dataLen ip st =
     obind (isBeginHep m p dataLen) (\<lambda>begins.
       if begins then
         (let st = st\<lparr>hs_buffer := sb_clear (hs_buffer st)\<rparr> in
          obind (isCompleteHep m p dataLen) (\<lambda>c.
            if c then
              obind (processHeps fuel env m p dataLen ip st) (\<lambda>(processed, st).
                if ucast processed < dataLen
                then hep_buffer_add env m (p + unat processed) (dataLen - ucast processed) st
                else Ret st)
            else hep_buffer_add env m p dataLen st))
       else if sb_empty (hs_buffer st) then Ret st
       else
         obind (hep_buffer_add env m p dataLen st) (\<lambda>st.
           omap (\<lambda>st. if sb_length (hs_buffer st) > 1024 * 1024 then st\<lparr>hs_buffer := sb_clear (hs_buffer st)\<rparr> else st)
             (process_buffered fuel env dataLen ip st)))"


section \<open>Encoded messages\<close>

definition be16 :: "nat \<Rightarrow> mem" where
  "be16 n = [word_of_nat (n div 256), word_of_nat n]"

definition hep_chunk :: "nat \<Rightarrow> nat \<Rightarrow> mem \<Rightarrow> mem" where
  "hep_chunk vendor t bs = be16 vendor @ be16 t @ be16 (6 + length bs) @ bs"

lemma length_be16 [simp]: "length (be16 n) = 2"
  by (simp add: be16_def)

lemma length_hep_chunk [simp]: "length (hep_chunk v t bs) = 6 + length bs"
  by (simp add: hep_chunk_def)

lemma ucast_word_of_nat_u16: "ucast (word_of_nat n :: u32) = (word_of_nat n :: u16)"
  by (simp add: word_unat_eq_iff unsigned_ucast_eq unat_of_nat take_bit_eq_mod mod_mod_cancel)

lemma ucast_le_word:
  assumes "length bs = 4"
  shows "ucast (le_word bs :: u32) = (le_word (take 2 bs) :: u16)"
proof -
  have "le_nat bs = le_nat (take 2 bs) + 65536 * le_nat (drop 2 bs)"
    using le_nat_append [of "take 2 bs" "drop 2 bs"] assms by simp
  then have "le_nat bs mod 2 ^ 16 = le_nat (take 2 bs) mod 2 ^ 16" by simp
  then have "(word_of_nat (le_nat bs) :: u16) = word_of_nat (le_nat (take 2 bs))"
    by (simp only: word_unat_eq_iff unat_of_nat) simp
  then show ?thesis by (simp add: le_word_def ucast_word_of_nat_u16)
qed

lemma ntohs_be16:
  assumes "n < 65536"
  shows "ntohs (le_word (be16 n)) = (word_of_nat n :: u16)"
proof -
  have "le_nat (rev (be16 n)) = n" using assms by (simp add: be16_def unat_of_nat)
  then show ?thesis using ntohs_le_word [of "be16 n"] by (simp add: le_word_def)
qed

lemma ld32_be16:
  assumes "take 2 (drop p m) = be16 n" and "p + 4 \<le> length m" and "n < 65536"
  shows "omap (\<lambda>w. ntohs (ucast w)) (ld32 m p) = Ret (word_of_nat n)"
proof -
  have "take 2 (take 4 (drop p m)) = be16 n" using assms(1) by (simp add: min_def)
  then show ?thesis using assms(2,3) ucast_le_word [of "take 4 (drop p m)"] by (simp add: mem_simps ntohs_be16)
qed

text \<open>A chunk at a position of the memory, with at least one byte behind it.\<close>

definition chunk_at :: "mem \<Rightarrow> nat \<Rightarrow> nat \<Rightarrow> nat \<Rightarrow> mem \<Rightarrow> bool" where
  "chunk_at m p vendor t bs =
     (take (6 + length bs) (drop p m) = hep_chunk vendor t bs \<and> p + 6 + length bs < length m \<and> bs \<noteq> [] \<and>
      6 + length bs < 65536 \<and> t < 65536)"

lemma chunk_at_header:
  assumes "chunk_at m p v t bs"
  shows "take 2 (drop (p + 2) m) = be16 t" "take 2 (drop (p + 4) m) = be16 (6 + length bs)" "take (length bs) (drop (p + 6) m) = bs"
    "p + 8 \<le> length m"
proof -
  let ?c = "hep_chunk v t bs"
  have c: "take (6 + length bs) (drop p m) = ?c" using assms by (simp add: chunk_at_def)
  have d: "take n (drop (p + k) m) = take n (drop k ?c)" if "k + n \<le> 6 + length bs" for k n
    using that unfolding c [symmetric] by (simp add: drop_take add.commute min_def)
  have "bs \<noteq> []" "p + 6 + length bs < length m" using assms by (auto simp: chunk_at_def)
  then show "p + 8 \<le> length m" by (cases bs) auto
  show "take 2 (drop (p + 2) m) = be16 t" "take 2 (drop (p + 4) m) = be16 (6 + length bs)" "take (length bs) (drop (p + 6) m) = bs"
    using d [of 2 2] d [of 4 2] d [of 6 "length bs"] by (simp_all add: hep_chunk_def be16_def)
qed

lemma chunk_at_reads:
  assumes "chunk_at m p v t bs"
  shows "n \<ge> 4 \<Longrightarrow> chunkType m p n = Ret (word_of_nat t)"
    and "n \<ge> 6 \<Longrightarrow> chunkLength m p n = Ret (word_of_nat (6 + length bs))"
    and "length bs = k \<Longrightarrow> ldn k m (p + 6) = Ret bs"
    and "ld8 m (p + 6) = Ret (hd bs)"
proof -
  note h = chunk_at_header [OF assms]
  have b: "t < 65536" "6 + length bs < 65536" "bs \<noteq> []" "p + 6 + length bs < length m" using assms by (auto simp: chunk_at_def)
  show "n \<ge> 4 \<Longrightarrow> chunkType m p n = Ret (word_of_nat t)"
    using ld32_be16 [OF h(1)] h(4) b by (simp add: chunkType_def)
  show "n \<ge> 6 \<Longrightarrow> chunkLength m p n = Ret (word_of_nat (6 + length bs))"
    using ld32_be16 [OF h(2)] h(4) b(2) unfolding chunkLength_def by simp
  show l: "length bs = k \<Longrightarrow> ldn k m (p + 6) = Ret bs" for k
    using h(3) b by (auto simp: ldn_def)
  show "ld8 m (p + 6) = Ret (hd bs)"
    using h(3) b by (cases bs) (auto simp: ld8_def nth_append hd_conv_nth dest!: arg_cong [of _ _ hd] simp: hd_drop_conv_nth take_Suc)
qed


text \<open>The fields of a message a packet is made of, in host byte order; \<open>HOther\<close> is any other chunk but a compressed payload.\<close>

datatype hep_item =
    HFamily u8 | HProto u8 | HSrc4 u32 | HDst4 u32 | HSrc6 in6_addr | HDst6 in6_addr
  | HSport u16 | HDport u16 | HSec u32 | HUsec u32 | HType u8 | HTcpFlag u8 | HPayload mem | HOther nat mem

fun item_type :: "hep_item \<Rightarrow> nat" where
  "item_type (HFamily _) = 1" | "item_type (HProto _) = 2" | "item_type (HSrc4 _) = 3" | "item_type (HDst4 _) = 4"
| "item_type (HSrc6 _) = 5" | "item_type (HDst6 _) = 6" | "item_type (HSport _) = 7" | "item_type (HDport _) = 8"
| "item_type (HSec _) = 9" | "item_type (HUsec _) = 10" | "item_type (HType _) = 11" | "item_type (HTcpFlag _) = 23"
| "item_type (HPayload _) = 15" | "item_type (HOther t _) = t"

fun item_bytes :: "hep_item \<Rightarrow> mem" where
  "item_bytes (HFamily x) = [x]" | "item_bytes (HProto x) = [x]" | "item_bytes (HSrc4 a) = be_bytes 4 a" | "item_bytes (HDst4 a) = be_bytes 4 a"
| "item_bytes (HSrc6 a) = in6_bytes a" | "item_bytes (HDst6 a) = in6_bytes a" | "item_bytes (HSport a) = be_bytes 2 a" | "item_bytes (HDport a) = be_bytes 2 a"
| "item_bytes (HSec a) = be_bytes 4 a" | "item_bytes (HUsec a) = be_bytes 4 a" | "item_bytes (HType x) = [x]" | "item_bytes (HTcpFlag x) = [x]"
| "item_bytes (HPayload bs) = bs" | "item_bytes (HOther _ bs) = bs"

definition item_wf :: "hep_item \<Rightarrow> bool" where
  "item_wf it =
     (item_bytes it \<noteq> [] \<and> 6 + length (item_bytes it) < 65536 \<and> item_type it < 65536 \<and>
      (case it of HOther t _ \<Rightarrow> t \<notin> {1..11} \<and> t \<noteq> 15 \<and> t \<noteq> 16 \<and> t \<noteq> 23 | _ \<Rightarrow> True))"

text \<open>What the receiver knows of the packet after some fields.\<close>

record hep_view =
  vw_family :: u8
  vw_proto :: u8
  vw_src :: vmIP
  vw_dst :: vmIP
  vw_sport :: vmPort
  vw_dport :: vmPort
  vw_sec :: u32
  vw_usec :: u32
  vw_type :: u8
  vw_tcp_flag :: u8
  vw_tcp_set :: bool
  vw_payload :: mem

fun item_view :: "bool \<Rightarrow> hep_item \<Rightarrow> hep_view \<Rightarrow> hep_view" where
  "item_view kam (HFamily x) v = v\<lparr>vw_family := x\<rparr>"
| "item_view kam (HProto x) v = v\<lparr>vw_proto := (if x = 22 \<and> kam then 17 else x)\<rparr>"
| "item_view kam (HSrc4 a) v = v\<lparr>vw_src := (vw_src v)\<lparr>addr3 := a, v6 := 0\<rparr>\<rparr>"
| "item_view kam (HDst4 a) v = v\<lparr>vw_dst := (vw_dst v)\<lparr>addr3 := a, v6 := 0\<rparr>\<rparr>"
| "item_view kam (HSrc6 a) v = v\<lparr>vw_src := vmIP_v6 a\<rparr>"
| "item_view kam (HDst6 a) v = v\<lparr>vw_dst := vmIP_v6 a\<rparr>"
| "item_view kam (HSport x) v = v\<lparr>vw_sport := VmPort x\<rparr>"
| "item_view kam (HDport x) v = v\<lparr>vw_dport := VmPort x\<rparr>"
| "item_view kam (HSec x) v = v\<lparr>vw_sec := x\<rparr>"
| "item_view kam (HUsec x) v = v\<lparr>vw_usec := x\<rparr>"
| "item_view kam (HType x) v = v\<lparr>vw_type := x\<rparr>"
| "item_view kam (HTcpFlag x) v = v\<lparr>vw_tcp_flag := x, vw_tcp_set := True\<rparr>"
| "item_view kam (HPayload bs) v = v\<lparr>vw_payload := vw_payload v @ bs\<rparr>"
| "item_view kam (HOther t bs) v = v"

definition hep_view_of :: "sHEP_Data \<Rightarrow> hep_view" where
  "hep_view_of h = \<lparr>vw_family = ip_protocol_family h, vw_proto = ip_protocol_id h, vw_src = ip_source_address h, vw_dst = ip_destination_address h,
     vw_sport = protocol_source_port h, vw_dport = protocol_destination_port h, vw_sec = timestamp_seconds h, vw_usec = timestamp_microseconds h,
     vw_type = protocol_type h, vw_tcp_flag = tcp_flag h, vw_tcp_set = bit (set_flags h) 23, vw_payload = sb_bytes (captured_packet_payload h)\<rparr>"

definition hep_buffers :: "sHEP_Data \<Rightarrow> SimpleBuffer list" where
  "hep_buffers h = [authenticate_key h, captured_packet_payload h, internal_correlation_id h, group_id h, geo_location h,
     transaction_type h, payload_json_keys h, tags_values h]"

definition hep_ok :: "nat \<Rightarrow> sHEP_Data \<Rightarrow> bool" where
  "hep_ok k h = (\<forall>b \<in> set (hep_buffers h). sb_ok b \<and> sb_room b k)"

lemma sb_room_less: "sb_room b (n + k) \<Longrightarrow> sb_room b k"
  by (simp add: sb_room_def)

lemma processChunk_at:
  assumes "chunk_at m p v t bs"
  shows "processChunk env m p (word_of_nat (6 + length bs)) h =
     omap (\<lambda>(ok, h). if ok then set_flag t h else h)
       (if t \<le> 13 then processChunk_net env (word_of_nat t) m (p + 6) (word_of_nat (length bs)) h
        else processChunk_meta env (word_of_nat t) m (p + 6) (word_of_nat (length bs)) h)"
proof -
  have b: "t < 65536" "6 + length bs < 65536" using assms by (auto simp: chunk_at_def)
  have n: "(word_of_nat (6 + length bs) :: u64) \<ge> 4" using b by (simp add: word_le_nat_alt unat_word_of_nat del: of_nat_add)
  have t: "unat (word_of_nat t :: u16) = t" using b(1) by (simp add: unat_word_of_nat)
  have l: "ucast (word_of_nat (6 + length bs) - 6 :: u64) = (word_of_nat (length bs) :: u32)"
    using b by (simp add: word_unat_eq_iff unsigned_ucast_eq unat_of_nat take_bit_eq_mod)
  have "(word_of_nat t :: u16) \<le> 13 \<longleftrightarrow> t \<le> 13" using t by (simp add: word_le_nat_alt)
  then show ?thesis unfolding processChunk_def chunk_at_reads(1) [OF assms n] obind.simps l t Let_def by simp
qed


lemma bin_field_ok:
  assumes "chunk_at m p v t bs" and "sb_ok (get h)" and "sb_room (get h) (length bs + k)"
  shows "\<exists>sb. bin_field g m (p + 6) (word_of_nat (length bs)) get upd h = Ret (True, upd sb h) \<and> sb_ok sb \<and> sb_room sb k \<and>
     sb_bytes sb = sb_bytes (get h) @ bs"
proof -
  have l: "length bs < 2 ^ 32" "length bs \<le> length (drop (p + 6) m)" using assms(1) by (auto simp: chunk_at_def)
  then have n: "unat (word_of_nat (length bs) :: u32) = length bs" by (simp add: unat_word_of_nat)
  have "sb_room (get h) (length bs)" using assms(3) by (simp add: sb_room_def)
  then obtain sb where sb: "sb_add g (Some (drop (p + 6) m)) (word_of_nat (length bs)) (get h) = Ret sb" "sb_ok sb"
      "sb_bytes sb = sb_bytes (get h) @ bs" "sb_reserve sb = sb_reserve (get h)"
    using sb_add_ok [OF assms(2), of "word_of_nat (length bs)" "drop (p + 6) m" g] chunk_at_header(3) [OF assms(1)] l n by auto
  then have "sb_room sb k" using assms(2,3) by (simp add: sb_room_length)
  then show ?thesis using sb by (intro exI [of _ sb]) (simp add: bin_field_def)
qed

lemma bit_set_flag: "bit (w OR push_bit t 1 :: u64) 23 \<longleftrightarrow> bit w 23 \<or> t = 23"
  by (auto simp: bit_simps)

lemma set_flag_fields [simp]:
  "bit (set_flags (set_flag t h)) 23 \<longleftrightarrow> bit (set_flags h) 23 \<or> t = 23"
  "ip_protocol_family (set_flag t h) = ip_protocol_family h"
  "ip_protocol_id (set_flag t h) = ip_protocol_id h"
  "ip_source_address (set_flag t h) = ip_source_address h"
  "ip_destination_address (set_flag t h) = ip_destination_address h"
  "protocol_source_port (set_flag t h) = protocol_source_port h"
  "protocol_destination_port (set_flag t h) = protocol_destination_port h"
  "timestamp_seconds (set_flag t h) = timestamp_seconds h"
  "timestamp_microseconds (set_flag t h) = timestamp_microseconds h"
  "protocol_type (set_flag t h) = protocol_type h"
  "tcp_flag (set_flag t h) = tcp_flag h"
  "captured_packet_payload (set_flag t h) = captured_packet_payload h"
  unfolding set_flag_def using bit_set_flag by (simp_all del: push_bit_of_1)

lemma hep_view_set_flag: "hep_view_of (set_flag t h) = (hep_view_of h)\<lparr>vw_tcp_set := vw_tcp_set (hep_view_of h) \<or> t = 23\<rparr>"
  by (simp add: hep_view_of_def)

lemma hep_buffers_set_flag [simp]: "hep_buffers (set_flag t h) = hep_buffers h"
  by (simp add: hep_buffers_def set_flag_def)

lemma hep_ok_set_flag [simp]: "hep_ok k (set_flag t h) = hep_ok k h"
  by (simp add: hep_ok_def)

lemma hep_ok_less: "hep_ok (n + k) h \<Longrightarrow> hep_ok k h"
  by (auto simp: hep_ok_def intro: sb_room_less)

lemma hep_ok_scalar [simp]:
  "hep_ok k (h\<lparr>ip_protocol_family := x0\<rparr>) = hep_ok k h"
  "hep_ok k (h\<lparr>ip_protocol_id := x1\<rparr>) = hep_ok k h"
  "hep_ok k (ip_source_address_update f2 h) = hep_ok k h"
  "hep_ok k (ip_destination_address_update f3 h) = hep_ok k h"
  "hep_ok k (h\<lparr>protocol_source_port := x4\<rparr>) = hep_ok k h"
  "hep_ok k (h\<lparr>protocol_destination_port := x5\<rparr>) = hep_ok k h"
  "hep_ok k (h\<lparr>timestamp_seconds := x6\<rparr>) = hep_ok k h"
  "hep_ok k (h\<lparr>timestamp_microseconds := x7\<rparr>) = hep_ok k h"
  "hep_ok k (h\<lparr>protocol_type := x8\<rparr>) = hep_ok k h"
  "hep_ok k (h\<lparr>tcp_flag := x9\<rparr>) = hep_ok k h"
  by (simp_all add: hep_ok_def hep_buffers_def)

text \<open>Chunks that do not describe the packet.\<close>

definition quiet :: "nat \<Rightarrow> sHEP_Data \<Rightarrow> (bool \<times> sHEP_Data) outcome \<Rightarrow> bool" where
  "quiet k h r = (\<exists>b h'. r = Ret (b, h') \<and> hep_ok k h' \<and> hep_view_of h' = hep_view_of h)"

lemma quiet_if: "(c \<Longrightarrow> quiet k h a) \<Longrightarrow> (\<not> c \<Longrightarrow> quiet k h b) \<Longrightarrow> quiet k h (if c then a else b)"
  by simp

lemma quiet_none: "hep_ok (n + k) h \<Longrightarrow> quiet k h (Ret (b, h))"
  by (auto simp: quiet_def intro: hep_ok_less)

lemma quiet_fixed:
  assumes "n' = n \<Longrightarrow> returns load" and "hep_ok (j + k) h" and "\<And>x. hep_buffers (upd x h) = hep_buffers h \<and> hep_view_of (upd x h) = hep_view_of h"
  shows "quiet k h (fixed_field n n' load upd h)"
proof -
  have "hep_ok k (upd x h)" for x using hep_ok_less [OF assms(2)] assms(3) [of x] by (simp add: hep_ok_def)
  then show ?thesis using assms hep_ok_less [OF assms(2)] by (cases "n' = n"; cases load) (auto simp: fixed_field_def quiet_def)
qed

lemma quiet_bin:
  assumes "chunk_at m p v t bs" and "hep_ok (length bs + k) h" and "get h \<in> set (hep_buffers h)"
    and "\<And>sb. set (hep_buffers (upd sb h)) \<subseteq> insert sb (set (hep_buffers h)) \<and> hep_view_of (upd sb h) = hep_view_of h"
  shows "quiet k h (bin_field g m (p + 6) (word_of_nat (length bs)) get upd h)"
proof -
  obtain sb where sb: "bin_field g m (p + 6) (word_of_nat (length bs)) get upd h = Ret (True, upd sb h)" "sb_ok sb" "sb_room sb k"
    using bin_field_ok [OF assms(1), of get h k g upd] assms(2,3) by (auto simp: hep_ok_def)
  moreover have "hep_ok k (upd sb h)" using sb(2,3) hep_ok_less [OF assms(2)] assms(4) [of sb] by (auto simp: hep_ok_def)
  ultimately show ?thesis using assms(4) by (auto simp: quiet_def)
qed

lemma processChunk_other:
  assumes "chunk_at m p v t bs" and "hep_ok (length bs + k) h" and "t \<notin> {1..11}" "t \<noteq> 15" "t \<noteq> 16" "t \<noteq> 23"
  shows "quiet k h (if t \<le> 13 then processChunk_net env (word_of_nat t) m (p + 6) (word_of_nat (length bs)) h
        else processChunk_meta env (word_of_nat t) m (p + 6) (word_of_nat (length bs)) h)"
proof -
  have t: "t < 65536" "length bs < 2 ^ 32" using assms(1) by (auto simp: chunk_at_def)
  have eq: "((word_of_nat t :: u16) = c) = (t = unat c)" for c using t by (auto simp: word_unat_eq_iff unat_of_nat)
  have len: "((word_of_nat (length bs) :: u32) = c) = (length bs = unat c)" for c using t by (auto simp: word_unat_eq_iff unat_of_nat)
  have ld: "length bs = 1 \<Longrightarrow> returns (ld8 m (p + 6))" "length bs = 2 \<Longrightarrow> returns (ld16 m (p + 6))" "length bs = 4 \<Longrightarrow> returns (ld32 m (p + 6))"
    "length bs = 8 \<Longrightarrow> returns (ld64 m (p + 6))"
    using chunk_at_reads(3,4) [OF assms(1)] by (simp_all add: ld16_def ld32_def ld64_def)
  show ?thesis
    unfolding processChunk_net_def processChunk_meta_def Let_def eq
    using assms(3-6)
    by (intro quiet_if quiet_fixed [OF _ assms(2)] quiet_bin [OF assms(1,2)] quiet_none [OF assms(2)])
       (auto simp: len ld hep_buffers_def hep_view_of_def)
qed

lemma processChunk_item:
  assumes "chunk_at m p v (item_type it) (item_bytes it)" and "item_wf it" and "hep_ok (length (item_bytes it) + k) h"
  shows "\<exists>h'. processChunk env m p (word_of_nat (6 + length (item_bytes it))) h = Ret h' \<and> hep_ok k h' \<and>
    hep_view_of h' = item_view (kamailio_protocol_id_fix env) it (hep_view_of h)"
proof -
  note at = processChunk_at [OF assms(1), of env h]
  note ld = chunk_at_reads(3) [OF assms(1)] chunk_at_reads(4) [OF assms(1)]
  have k: "hep_ok k h" using assms(3) by (rule hep_ok_less)
  note defs = processChunk_net_def processChunk_meta_def fixed_field_def hep_view_of_def
  show ?thesis
  proof (cases it)
    case (HOther t bs)
    then have "quiet k h (if t \<le> 13 then processChunk_net env (word_of_nat t) m (p + 6) (word_of_nat (length bs)) h
        else processChunk_meta env (word_of_nat t) m (p + 6) (word_of_nat (length bs)) h)"
      using processChunk_other [of m p v t bs k h env] assms by (simp add: item_wf_def)
    then show ?thesis using HOther at assms(2) unfolding quiet_def
      by (auto simp: item_wf_def hep_view_set_flag)
  next
    case (HPayload bs)
    then obtain sb where "bin_field (fresh_byte env) m (p + 6) (word_of_nat (length bs)) captured_packet_payload (\<lambda>b. captured_packet_payload_update (\<lambda>_. b)) h =
         Ret (True, captured_packet_payload_update (\<lambda>_. sb) h)" "sb_ok sb" "sb_room sb k" "sb_bytes sb = sb_bytes (captured_packet_payload h) @ bs"
      using bin_field_ok [of m p v 15 bs captured_packet_payload h k "fresh_byte env" "\<lambda>b. captured_packet_payload_update (\<lambda>_. b)"] assms
      by (auto simp: hep_ok_def hep_buffers_def)
    moreover from this k have "hep_ok k (h\<lparr>captured_packet_payload := sb\<rparr>)" by (simp add: hep_ok_def hep_buffers_def)
    ultimately show ?thesis using HPayload at by (simp add: defs)
  next
    case (HSrc6 a)
    then have "ld_in6 m (p + 6) = Ret (in6_ntohl a)" using ld(1) [of 16] ld_in6_bytes by simp
    then show ?thesis using HSrc6 at k by (cases a) (simp add: defs in6_ntohl_def vmIP_setIPv6_def vmIP_v6_def)
  next
    case (HDst6 a)
    then have "ld_in6 m (p + 6) = Ret (in6_ntohl a)" using ld(1) [of 16] ld_in6_bytes by simp
    then show ?thesis using HDst6 at k by (cases a) (simp add: defs in6_ntohl_def vmIP_setIPv6_def vmIP_v6_def)
  qed (use at k ld(1) [of 2] ld(1) [of 4] ld(2) in
        \<open>simp_all add: defs ld16_def ld32_def be_bytes_read vmIP_setIPv4_def vmPort_setPort_def fix_protocol_id_def\<close>)
qed


section \<open>Loops over encoded data\<close>

lemma ucast_of_nat:
  "n < 2 ^ 32 \<Longrightarrow> ucast (word_of_nat n :: u32) = (word_of_nat n :: u64)"
  "n < 65536 \<Longrightarrow> ucast (word_of_nat n :: u16) = (word_of_nat n :: u64)"
  "n < 65536 \<Longrightarrow> ucast (word_of_nat n :: u16) = (word_of_nat n :: u32)"
  by (simp_all add: word_unat_eq_iff unsigned_ucast_eq unat_of_nat take_bit_eq_mod)

lemma word_of_nat_minus: "b \<le> a \<Longrightarrow> word_of_nat a - word_of_nat b = (word_of_nat (a - b) :: 'a::len word)"
  by (simp add: of_nat_diff)

lemma word_of_nat_less_iff: "a < 2 ^ LENGTH('a) \<Longrightarrow> b < 2 ^ LENGTH('a) \<Longrightarrow> (word_of_nat a < (word_of_nat b :: 'a::len word)) = (a < b)"
  by (simp add: word_less_nat_alt unat_of_nat)

lemma word_of_nat_le_iff: "a < 2 ^ LENGTH('a) \<Longrightarrow> b < 2 ^ LENGTH('a) \<Longrightarrow> (word_of_nat a \<le> (word_of_nat b :: 'a::len word)) = (a \<le> b)"
  by (simp add: word_le_nat_alt unat_of_nat)

lemma loop_guard:
  assumes "a < 2 ^ 32" "b < 2 ^ 32" "6 \<le> b"
  shows "(ucast (word_of_nat a :: u32) < (word_of_nat b :: u64) - 6) = (a + 6 < b)"
proof -
  have e: "(word_of_nat b :: u64) - 6 = word_of_nat (b - 6)" using word_of_nat_minus [of 6 b, where 'a = 64] assms(3) by simp
  have "(word_of_nat a < (word_of_nat (b - 6) :: u64)) = (a < b - 6)" using assms by (intro word_of_nat_less_iff) auto
  then show ?thesis unfolding e ucast_of_nat(1) [OF assms(1)] by auto
qed

definition hep_items :: "(nat \<times> hep_item) list \<Rightarrow> mem" where
  "hep_items its = concat (map (\<lambda>(vendor, it). hep_chunk vendor (item_type it) (item_bytes it)) its)"

definition items_view :: "bool \<Rightarrow> (nat \<times> hep_item) list \<Rightarrow> hep_view \<Rightarrow> hep_view" where
  "items_view kam its v = fold (\<lambda>(_, it). item_view kam it) its v"

definition items_wf :: "(nat \<times> hep_item) list \<Rightarrow> bool" where
  "items_wf its = (\<forall>(_, it) \<in> set its. item_wf it)"

lemma hep_items_Cons: "hep_items ((v, it) # its) = hep_chunk v (item_type it) (item_bytes it) @ hep_items its"
  by (simp add: hep_items_def)

lemma chunks_loop_stop:
  assumes "6 \<le> n" and "n < 2 ^ 32"
  shows "chunks_loop (Suc k) env m p (word_of_nat n) (word_of_nat n) h = Ret h"
proof -
  have "\<not> (ucast (word_of_nat n :: u32) < (word_of_nat n :: u64) - 6)" using loop_guard [of n n] assms by simp
  then show ?thesis by (simp only: chunks_loop.simps if_False)
qed

lemma chunks_loop_step:
  assumes at: "chunk_at m (p + n) v t bs" and L: "6 + length bs \<le> L" and small: "n + L < 2 ^ 32"
  shows "chunks_loop (Suc k) env m p (word_of_nat (n + L)) (word_of_nat n) h =
     obind (processChunk env m (p + n) (word_of_nat (6 + length bs)) h)
       (chunks_loop k env m p (word_of_nat (n + L)) (word_of_nat (n + (6 + length bs))))"
proof -
  have b: "6 + length bs < 65536" "bs \<noteq> []" using at by (auto simp: chunk_at_def)
  then have b7: "6 < L" using L by (cases bs) auto
  have u: "unat (word_of_nat n :: u32) = n" using small by (simp add: unat_word_of_nat)
  have rest: "word_of_nat (n + L) - ucast (word_of_nat n :: u32) = (word_of_nat L :: u64)"
    using small by (simp add: ucast_of_nat word_of_nat_minus)
  have guard: "ucast (word_of_nat n :: u32) < (word_of_nat (n + L) :: u64) - 6"
    using loop_guard [of n "n + L"] small b7 by simp
  have ge: "(word_of_nat L :: u64) \<ge> 6" using b7 small by (simp add: word_le_nat_alt unat_word_of_nat)
  have l: "ucast (word_of_nat (6 + length bs) :: u16) = (word_of_nat (6 + length bs) :: u64)"
    "ucast (word_of_nat (6 + length bs) :: u16) = (word_of_nat (6 + length bs) :: u32)"
    by (rule ucast_of_nat(2,3) [OF b(1)])+
  have le: "\<not> (word_of_nat (6 + length bs) :: u64) > word_of_nat L"
    using L small b by (subst word_of_nat_less_iff) auto
  have sum: "word_of_nat n + word_of_nat (6 + length bs) = (word_of_nat (n + (6 + length bs)) :: u32)" by (simp only: of_nat_add)
  have nz: "(word_of_nat (6 + length bs) :: u16) \<noteq> 0" using b(1) by (simp add: word_unat_eq_iff unat_word_of_nat del: of_nat_add)
  show ?thesis
    using guard le nz by (simp only: chunks_loop.simps rest u chunk_at_reads(2) [OF at ge] obind.simps l if_True if_False simp_thms sum)
qed

lemma chunks_loop_items:
  assumes "items_wf its" and "drop (p + n) m = hep_items its @ post" and "post \<noteq> []" and "6 \<le> n \<or> its \<noteq> []"
    and "n + length (hep_items its) < 2 ^ 32" and "length its < fuel" and "hep_ok (length (hep_items its) + k) h"
  shows "\<exists>h'. chunks_loop fuel env m p (word_of_nat (n + length (hep_items its))) (word_of_nat n) h = Ret h' \<and> hep_ok k h' \<and>
     hep_view_of h' = items_view (kamailio_protocol_id_fix env) its (hep_view_of h)"
  using assms
proof (induction its arbitrary: n h fuel)
  case Nil
  obtain f where "fuel = Suc f" using Nil.prems(6) by (cases fuel) auto
  then show ?case using Nil.prems chunks_loop_stop [of n] by (auto simp: hep_items_def items_view_def)
next
  case (Cons a its)
  obtain v it where a: "a = (v, it)" by (cases a)
  obtain f where f: "fuel = Suc f" using Cons.prems(6) by (cases fuel) auto
  let ?bs = "item_bytes it" let ?L = "length (hep_items (a # its))"
  have wf: "item_wf it" "items_wf its" using Cons.prems(1) a by (auto simp: items_wf_def)
  have d: "drop (p + n) m = hep_chunk v (item_type it) ?bs @ hep_items its @ post" using Cons.prems(2) a by (simp add: hep_items_Cons)
  have lm: "length m = p + n + (6 + length ?bs) + length (hep_items its) + length post"
  proof -
    have "length (drop (p + n) m) = (6 + length ?bs) + length (hep_items its) + length post" using d by simp
    then show ?thesis using Cons.prems(3) by (cases post) auto
  qed
  have at: "chunk_at m (p + n) v (item_type it) ?bs"
    using wf(1) d lm Cons.prems(3) by (auto simp: chunk_at_def item_wf_def)
  have L: "?L = (6 + length ?bs) + length (hep_items its)" by (simp add: a hep_items_Cons)
  have "hep_ok (length ?bs + (6 + length (hep_items its) + k)) h" using Cons.prems(7) L by (simp add: add.assoc add.left_commute)
  from processChunk_item [OF at wf(1) this, of env] obtain h1 where
    h1: "processChunk env m (p + n) (word_of_nat (6 + length ?bs)) h = Ret h1" "hep_ok (6 + (length (hep_items its) + k)) h1"
      "hep_view_of h1 = item_view (kamailio_protocol_id_fix env) it (hep_view_of h)" by (auto simp: add.assoc)
  have step: "chunks_loop fuel env m p (word_of_nat (n + ?L)) (word_of_nat n) h =
      chunks_loop f env m p (word_of_nat ((n + (6 + length ?bs)) + length (hep_items its))) (word_of_nat (n + (6 + length ?bs))) h1"
    using chunks_loop_step [OF at, of ?L f env h] L Cons.prems(5) h1(1) f by (simp add: add.assoc)
  have "drop (p + (n + (6 + length ?bs))) m = hep_items its @ post"
    using arg_cong [OF d, of "drop (6 + length ?bs)"] by (simp add: ac_simps)
  then have "\<exists>h'. chunks_loop f env m p (word_of_nat ((n + (6 + length ?bs)) + length (hep_items its))) (word_of_nat (n + (6 + length ?bs))) h1 = Ret h' \<and>
      hep_ok k h' \<and> hep_view_of h' = items_view (kamailio_protocol_id_fix env) its (hep_view_of h1)"
    using Cons.prems(3,5,6) L f hep_ok_less [OF h1(2)] by (intro Cons.IH [OF wf(2)]) auto
  then show ?case unfolding step using h1(3) by (auto simp: items_view_def a)
qed


definition hep_msg :: "(nat \<times> hep_item) list \<Rightarrow> mem" where
  "hep_msg its = [0x48, 0x45, 0x50, 0x33] @ be16 (6 + length (hep_items its)) @ hep_items its"

definition msg_wf :: "(nat \<times> hep_item) list \<Rightarrow> bool" where
  "msg_wf its = (items_wf its \<and> its \<noteq> [] \<and> length (hep_msg its) < 65536)"

definition view_payload :: "hep_env \<Rightarrow> hep_view \<Rightarrow> mem" where
  "view_payload env v =
     (let bs = vw_payload v in
      if bs \<noteq> [] \<and> hd bs = 123 \<and> last bs = 125 then
        (if vw_type v = 1 then (if json_payload env bs \<noteq> [] then json_payload env bs else bs)
         else if vw_type v = 5 then (case rtcp_from_json env bs of Some r \<Rightarrow> r | None \<Rightarrow> bs)
         else bs)
      else bs)"

text \<open>The packets a message stands for: one when it names a known family and transport, none otherwise.\<close>

definition view_packets :: "hep_env \<Rightarrow> hep_view \<Rightarrow> hep_packet list" where
  "view_packets env v =
     (if (vw_family v = 2 \<or> vw_family v = 10) \<and> (vw_proto v = 17 \<or> vw_proto v = 6 \<or> vw_proto v = 50) then
        [\<lparr>hp_tcp = (vw_proto v \<noteq> 17), hp_v6 = (vw_family v = 10), hp_saddr = vw_src v, hp_daddr = vw_dst v,
          hp_sport = vw_sport v, hp_dport = vw_dport v, hp_tcp_flags = (if vw_proto v \<noteq> 17 \<and> vw_tcp_set v then vw_tcp_flag v else 0),
          hp_sec = vw_sec v, hp_usec = vw_usec v, hp_payload = view_payload env v\<rparr>]
      else [])"

definition msg_packets :: "hep_env \<Rightarrow> (nat \<times> hep_item) list \<Rightarrow> hep_packet list" where
  "msg_packets env its = view_packets env (items_view (kamailio_protocol_id_fix env) its (hep_view_of (sHEP_Data_new (stack_garbage env))))"

definition hep_deliver :: "hep_env \<Rightarrow> vmIP \<Rightarrow> (nat \<times> hep_item) list \<Rightarrow> hep_state \<Rightarrow> hep_state" where
  "hep_deliver env ip its st =
     st\<lparr>hs_counter := (if counter_log env \<and> vmIP_isSet ip then hep_counter_inc ip (hs_counter st) else hs_counter st),
        hs_pushed := hs_pushed st @ msg_packets env its\<rparr>"

lemma hep_buffer_deliver [simp]: "hs_buffer (hep_deliver env ip its st) = hs_buffer st"
  by (simp add: hep_deliver_def)

lemma hep_buffer_delivers [simp]: "hs_buffer (fold (hep_deliver env ip) msgs st) = hs_buffer st"
  by (induction msgs arbitrary: st) auto

lemma length_hep_msg [simp]: "length (hep_msg its) = 6 + length (hep_items its)"
  by (simp add: hep_msg_def)

lemma msg_wf_items: "msg_wf its \<Longrightarrow> length (hep_items its) > 6"
  by (cases its) (auto simp: msg_wf_def hep_items_def items_wf_def item_wf_def)

lemma isJsonObject_bytes:
  assumes "sb_ok sb"
  shows "sb_isJsonObject sb = Ret (sb_bytes sb \<noteq> [] \<and> hd (sb_bytes sb) = 123 \<and> last (sb_bytes sb) = 125)"
proof (cases "sb_length sb = 0")
  case True
  then have "sb_bytes sb = []" using length_sb_bytes [OF assms] by simp
  then show ?thesis using True by (simp add: sb_isJsonObject_def)
next
  case False
  let ?n = "unat (sb_length sb)"
  have l: "length (sb_bytes sb) = ?n" by (rule length_sb_bytes [OF assms])
  have n: "?n \<noteq> 0" using False by (simp add: unat_eq_zero)
  have s: "unat (sb_length sb - 1) = ?n - 1"
    using n by (subst unat_sub) (auto simp: word_le_nat_alt)
  have ne: "sb_bytes sb \<noteq> []" using l n by auto
  have "take 1 (sb_bytes sb) = [hd (sb_bytes sb)]" using ne by (cases "sb_bytes sb") auto
  then have "sb_load sb 1 0 = Ret [hd (sb_bytes sb)]" using sb_load_bytes [OF assms, of 0 1] n by simp
  moreover have "drop (?n - 1) (sb_bytes sb) = [last (sb_bytes sb)]"
    unfolding l [symmetric] using ne by (metis append_butlast_last_id append_eq_conv_conj length_butlast)
  then have "sb_load sb 1 (?n - 1) = Ret [last (sb_bytes sb)]" using sb_load_bytes [OF assms, of "?n - 1" 1] n by simp
  ultimately show ?thesis using False ne by (simp add: sb_isJsonObject_def s)
qed

lemma hep_payload_view:
  assumes "sb_ok (captured_packet_payload h)"
  shows "hep_payload env h = Ret (view_payload env (hep_view_of h))"
proof -
  have "sb_load (captured_packet_payload h) (unat (sb_length (captured_packet_payload h))) 0 = Ret (sb_bytes (captured_packet_payload h))"
    using sb_load_bytes [OF assms, of 0 "unat (sb_length (captured_packet_payload h))"] length_sb_bytes [OF assms] by simp
  then show ?thesis using isJsonObject_bytes [OF assms]
    by (auto simp: hep_payload_def view_payload_def hep_view_of_def Let_def split: option.split)
qed

lemma and_bit_23: "(w AND push_bit 23 1 \<noteq> 0) = bit (w :: u64) 23"
  using and_exp_eq_0_iff_not_bit [of w 23] by simp

lemma hep_to_packet_view:
  assumes "ip_protocol_id h = 17 \<or> ip_protocol_id h = 6 \<or> ip_protocol_id h = 50"
  shows "hep_to_packet h payload = \<lparr>hp_tcp = (vw_proto (hep_view_of h) \<noteq> 17), hp_v6 = (vw_family (hep_view_of h) = 10),
     hp_saddr = vw_src (hep_view_of h), hp_daddr = vw_dst (hep_view_of h), hp_sport = vw_sport (hep_view_of h), hp_dport = vw_dport (hep_view_of h),
     hp_tcp_flags = (if vw_proto (hep_view_of h) \<noteq> 17 \<and> vw_tcp_set (hep_view_of h) then vw_tcp_flag (hep_view_of h) else 0),
     hp_sec = vw_sec (hep_view_of h), hp_usec = vw_usec (hep_view_of h), hp_payload = payload\<rparr>"
  using assms unfolding hep_to_packet_def and_bit_23 by (auto simp: hep_view_of_def Let_def)

lemma hep_ok_new: "k < 2 ^ 32 - 1 \<Longrightarrow> hep_ok k (sHEP_Data_new u)"
  by (simp add: hep_ok_def hep_buffers_def sHEP_Data_new_def sb_ok_def sb_new_def sb_room_def)

lemma processHep_msg:
  assumes "msg_wf its" and "drop p m = hep_msg its @ post" and "post \<noteq> []" and "length its < fuel"
  shows "processHep fuel env m p (word_of_nat (length (hep_msg its))) ip st = Ret (hep_deliver env ip its st)"
proof -
  let ?n = "length (hep_items its)" let ?h = "sHEP_Data_new (stack_garbage env)"
  have b: "?n + 6 < 65536" "items_wf its" "its \<noteq> []" using assms(1) by (auto simp: msg_wf_def)
  have d: "drop (p + 6 + 0) m = hep_items its @ post" using arg_cong [OF assms(2), of "drop 6"] by (simp add: hep_msg_def add.commute be16_def)
  have "hep_ok (?n + 0) ?h" using b by (simp add: hep_ok_new)
  from chunks_loop_items [OF b(2) d assms(3) _ _ assms(4) this, of env] b obtain h where
    h: "chunks_loop fuel env m (p + 6) (word_of_nat (0 + ?n)) (word_of_nat 0) ?h = Ret h" "hep_ok 0 h"
      "hep_view_of h = items_view (kamailio_protocol_id_fix env) its (hep_view_of ?h)" by auto
  have len: "word_of_nat (length (hep_msg its)) - 6 = (word_of_nat ?n :: u64)" by simp
  have pc: "processChunks fuel env m (p + 6) (word_of_nat ?n) ?h = Ret h" using h(1) by (simp add: processChunks_def)
  have "sb_ok (captured_packet_payload h)" using h(2) by (simp add: hep_ok_def hep_buffers_def)
  note pay = hep_payload_view [OF this, of env]
  have f: "ip_protocol_family h = vw_family (hep_view_of h)" "ip_protocol_id h = vw_proto (hep_view_of h)" by (simp_all add: hep_view_of_def)
  show ?thesis
    unfolding processHep_def len pc Let_def obind.simps pay
    using h(3) hep_to_packet_view [of h "view_payload env (hep_view_of h)"]
    by (auto simp: hep_deliver_def msg_packets_def view_packets_def f)
qed


definition hep_msgs :: "(nat \<times> hep_item) list list \<Rightarrow> mem" where
  "hep_msgs msgs = concat (map hep_msg msgs)"

text \<open>A message at a position, of which at least \<open>j\<close> bytes and one more byte are there.\<close>

lemma hep_prefix_reads:
  assumes "take j (drop p m) = take j (hep_msg its)" and "length (hep_msg its) < 65536"
  shows "4 \<le> j \<Longrightarrow> p + 4 \<le> length m \<Longrightarrow> dataLen \<ge> 4 \<Longrightarrow> isBeginHep m p dataLen = Ret True"
    and "6 \<le> j \<Longrightarrow> p + 8 \<le> length m \<Longrightarrow> dataLen \<ge> 6 \<Longrightarrow> hepLength m p dataLen = Ret (word_of_nat (length (hep_msg its)))"
proof -
  have t: "take n (drop (p + k) m) = take n (drop k (hep_msg its))" if "k + n \<le> j" for k n
  proof -
    have "take n (drop k (take j (drop p m))) = take n (drop k (take j (hep_msg its)))" using assms(1) by simp
    moreover have "n \<le> j - k" using that by simp
    ultimately show ?thesis by (simp add: drop_take min_absorb1 add.commute)
  qed
  show "isBeginHep m p dataLen = Ret True" if "4 \<le> j" "p + 4 \<le> length m" "dataLen \<ge> 4"
  proof -
    have "m ! (p + i) = hep_msg its ! i" if "i < 4" for i
      using t [of i 1] that \<open>4 \<le> j\<close> \<open>p + 4 \<le> length m\<close> by (simp add: take_Suc hd_drop_conv_nth Suc_le_eq)
    from this [of 0] this [of 1] this [of 2] this [of 3] show ?thesis
      using that by (simp add: isBeginHep_def ld8_def hep_msg_def numeral_2_eq_2 numeral_3_eq_3)
  qed
  show "hepLength m p dataLen = Ret (word_of_nat (length (hep_msg its)))" if "6 \<le> j" "p + 8 \<le> length m" "dataLen \<ge> 6"
  proof -
    have "take 2 (drop (p + 4) m) = be16 (length (hep_msg its))" using t [of 4 2] that(1) by (simp add: hep_msg_def be16_def)
    from ld32_be16 [OF this _ assms(2)] that show ?thesis by (simp only: hepLength_def if_True)
  qed
qed

lemma heps_loop_stop:
  assumes "n + length rest < 2 ^ 32" and "6 \<le> n + length rest" and "drop (p + n) m = rest @ post" and "post \<noteq> []"
    and "rest = take j (hep_msg its)" and "j < length (hep_msg its)" and "length (hep_msg its) < 65536"
  shows "heps_loop (Suc k) fuel env m p (word_of_nat (n + length rest)) ip (word_of_nat n) st = Ret (word_of_nat n, st)"
proof (cases "6 < length rest")
  case False
  have "\<not> (ucast (word_of_nat n :: u32) < (word_of_nat (n + length rest) :: u64) - 6)" using loop_guard [of n "n + length rest"] assms(1,2) False by simp
  then show ?thesis by (simp only: heps_loop.simps if_False)
next
  case True
  have j: "length rest = j" using assms(5,6) by (simp del: length_hep_msg)
  have guard: "ucast (word_of_nat n :: u32) < (word_of_nat (n + length rest) :: u64) - 6" using loop_guard [of n "n + length rest"] assms(1) True by simp
  have lm: "p + n + length rest + 1 \<le> length m"
    using arg_cong [OF assms(3), of length] assms(4) True by (cases post) auto
  have u: "unat (word_of_nat n :: u32) = n" using assms(1) by (simp add: unat_word_of_nat)
  have r: "word_of_nat (n + length rest) - ucast (word_of_nat n :: u32) = (word_of_nat (length rest) :: u64)"
    using assms(1) by (simp add: ucast_of_nat word_of_nat_minus)
  have ge: "(word_of_nat (length rest) :: u64) \<ge> 4" "(word_of_nat (length rest) :: u64) \<ge> 6"
    using True assms(1) by (simp_all add: word_le_nat_alt unat_word_of_nat)
  have tk: "take j (drop (p + n) m) = take j (hep_msg its)" using assms(3,5) j by simp
  have gt: "ucast (word_of_nat (length (hep_msg its)) :: u16) > (word_of_nat (length rest) :: u64)"
    unfolding ucast_of_nat(2) [OF assms(7)] using assms(1,6,7) j by (subst word_of_nat_less_iff) auto
  have b: "isBeginHep m (p + n) (word_of_nat (length rest)) = Ret True"
    using hep_prefix_reads(1) [OF tk assms(7)] ge(1) True j lm by auto
  have l: "hepLength m (p + n) (word_of_nat (length rest)) = Ret (word_of_nat (length (hep_msg its)))"
    using hep_prefix_reads(2) [OF tk assms(7)] ge(2) True j lm by auto
  show ?thesis by (simp only: heps_loop.simps guard r u b l gt obind.simps if_True if_False simp_thms)
qed

lemma heps_loop_step:
  assumes "msg_wf its" and "drop (p + n) m = hep_msg its @ post" and "post \<noteq> []" and "length its < fuel" and "length (hep_msg its) \<le> L" and "n + L < 2 ^ 32"
  shows "heps_loop (Suc k) fuel env m p (word_of_nat (n + L)) ip (word_of_nat n) st =
     heps_loop k fuel env m p (word_of_nat (n + L)) ip (word_of_nat (n + length (hep_msg its))) (hep_deliver env ip its st)"
proof -
  let ?l = "length (hep_msg its)"
  have b: "?l < 65536" "?l > 12" using assms(1) msg_wf_items [OF assms(1)] by (auto simp: msg_wf_def)
  have guard: "ucast (word_of_nat n :: u32) < (word_of_nat (n + L) :: u64) - 6" using loop_guard [of n "n + L"] assms(5,6) b(2) by simp
  have u: "unat (word_of_nat n :: u32) = n" using assms(6) by (simp add: unat_word_of_nat)
  have r: "word_of_nat (n + L) - ucast (word_of_nat n :: u32) = (word_of_nat L :: u64)" using assms(6) by (simp add: ucast_of_nat word_of_nat_minus)
  have ge: "(word_of_nat L :: u64) \<ge> 4" "(word_of_nat L :: u64) \<ge> 6" using assms(5,6) b(2) by (simp_all add: word_le_nat_alt unat_word_of_nat)
  have lm: "p + n + ?l + 1 \<le> length m" using arg_cong [OF assms(2), of length] assms(3) by (cases post) auto
  have tk: "take ?l (drop (p + n) m) = take ?l (hep_msg its)" using assms(2) by simp
  have bg: "isBeginHep m (p + n) (word_of_nat L) = Ret True" using hep_prefix_reads(1) [OF tk b(1)] ge lm b(2) by auto
  have hl: "hepLength m (p + n) (word_of_nat L) = Ret (word_of_nat ?l)" using hep_prefix_reads(2) [OF tk b(1)] ge lm b(2) by auto
  have le: "\<not> (word_of_nat ?l :: u64) > word_of_nat L" using assms(5,6) b by (subst word_of_nat_less_iff) auto
  have sum: "word_of_nat n + word_of_nat ?l = (word_of_nat (n + ?l) :: u32)" by (simp only: of_nat_add)
  note c = ucast_of_nat(2,3) [OF b(1)]
  show ?thesis
    by (simp only: heps_loop.simps guard r u bg hl c le sum processHep_msg [OF assms(1-4)] obind.simps if_True if_False simp_thms)
qed

lemma heps_loop_msgs:
  assumes "\<forall>its \<in> set msgs. msg_wf its \<and> length its < fuel" and "drop (p + n) m = hep_msgs msgs @ rest @ post" and "post \<noteq> []"
    and "6 \<le> n + length (hep_msgs msgs @ rest)" and "n + length (hep_msgs msgs @ rest) < 2 ^ 32" and "length msgs < k"
    and "rest = take j (hep_msg tail)" and "j < length (hep_msg tail)" and "length (hep_msg tail) < 65536"
  shows "heps_loop k fuel env m p (word_of_nat (n + length (hep_msgs msgs @ rest))) ip (word_of_nat n) st =
     Ret (word_of_nat (n + length (hep_msgs msgs)), fold (hep_deliver env ip) msgs st)"
  using assms(1-6)
proof (induction msgs arbitrary: n k st)
  case Nil
  then show ?case using heps_loop_stop [OF _ _ _ Nil.prems(3) assms(7-9), of n p m "k - 1" fuel env ip st]
    by (cases k) (auto simp: hep_msgs_def)
next
  case (Cons its msgs)
  obtain k' where k: "k = Suc k'" using Cons.prems(6) by (cases k) auto
  have wf: "msg_wf its" "length its < fuel" using Cons.prems(1) by auto
  have d: "drop (p + n) m = hep_msg its @ (hep_msgs msgs @ rest @ post)" using Cons.prems(2) by (simp add: hep_msgs_def)
  have L: "length (hep_msgs (its # msgs) @ rest) = length (hep_msg its) + length (hep_msgs msgs @ rest)" by (simp add: hep_msgs_def)
  have d': "drop (p + (n + length (hep_msg its))) m = hep_msgs msgs @ rest @ post"
    using arg_cong [OF d, of "drop (length (hep_msg its))"] by (simp add: ac_simps del: length_hep_msg)
  have "heps_loop k fuel env m p (word_of_nat (n + length (hep_msgs (its # msgs) @ rest))) ip (word_of_nat n) st =
    heps_loop k' fuel env m p (word_of_nat ((n + length (hep_msg its)) + length (hep_msgs msgs @ rest))) ip (word_of_nat (n + length (hep_msg its))) (hep_deliver env ip its st)"
    using heps_loop_step [OF wf(1) d _ wf(2), of "length (hep_msgs (its # msgs) @ rest)" k' env ip st] Cons.prems(3,5) L k by (simp only: add.assoc) simp
  also have "\<dots> = Ret (word_of_nat ((n + length (hep_msg its)) + length (hep_msgs msgs)), fold (hep_deliver env ip) msgs (hep_deliver env ip its st))"
    using Cons.prems L k d' by (intro Cons.IH) auto
  finally show ?case by (simp add: hep_msgs_def add.assoc)
qed


section \<open>The receive buffer\<close>

definition hep_inv :: "hep_state \<Rightarrow> bool" where
  "hep_inv st = (sb_ok (hs_buffer st) \<and> sb_reserve (hs_buffer st) = 0)"

text \<open>The array of the buffer has a byte behind the buffered ones, which the 32-bit read of a length field may touch.\<close>

definition hep_slack :: "SimpleBuffer \<Rightarrow> bool" where
  "hep_slack sb = (\<exists>post. post \<noteq> [] \<and> hep_array sb = sb_bytes sb @ post)"

lemma hep_slackI:
  assumes "sb_ok sb" and "sb_length sb < sb_capacity sb" and "sb_bytes sb \<noteq> []"
  shows "hep_slack sb"
proof -
  obtain m where m: "sb_buffer sb = Some m" "length m = unat (sb_capacity sb)"
    using assms(1,3) by (cases "sb_buffer sb") (auto simp: sb_ok_def sb_bytes_def)
  show ?thesis unfolding hep_slack_def
    using m assms(2) by (intro exI [of _ "drop (unat (sb_length sb)) m"]) (auto simp: hep_array_def sb_bytes_def word_less_nat_alt)
qed

lemma ucast_u64_u32: "ucast (word_of_nat n :: u64) = (word_of_nat n :: u32)"
  by (simp add: word_unat_eq_iff unsigned_ucast_eq unat_of_nat take_bit_eq_mod mod_mod_cancel)

lemma hep_buffer_add_ok:
  assumes "hep_inv st" and "drop p m = d @ post" and "d \<noteq> []" and "length (sb_bytes (hs_buffer st)) + length d < 2 ^ 32 - 1"
  shows "\<exists>sb. hep_buffer_add env m p (word_of_nat (length d)) st = Ret (st\<lparr>hs_buffer := sb\<rparr>) \<and> sb_ok sb \<and> sb_reserve sb = 0 \<and>
     sb_bytes sb = sb_bytes (hs_buffer st) @ d \<and> hep_slack sb"
proof -
  have ok: "sb_ok (hs_buffer st)" "sb_reserve (hs_buffer st) = 0" using assms(1) by (auto simp: hep_inv_def)
  have n: "unat (word_of_nat (length d) :: u32) = length d" using assms(4) by (simp add: unat_word_of_nat)
  have "sb_room (hs_buffer st) (unat (word_of_nat (length d) :: u32))"
    using assms(4) ok n by (simp add: sb_room_length)
  from sb_add_ok [OF ok(1) this, of "drop p m" "fresh_byte env"] n assms(2) obtain sb where
    sb: "sb_add (fresh_byte env) (Some (drop p m)) (word_of_nat (length d)) (hs_buffer st) = Ret sb" "sb_ok sb"
      "sb_bytes sb = sb_bytes (hs_buffer st) @ d" "sb_reserve sb = sb_reserve (hs_buffer st)"
      "(word_of_nat (length d) :: u32) \<noteq> 0 \<longrightarrow> sb_length sb < sb_capacity sb" by auto
  have "(word_of_nat (length d) :: u32) \<noteq> 0" using n assms(3) by (metis length_0_conv unat_0)
  then have "hep_slack sb" using sb assms(3) by (intro hep_slackI) auto
  then show ?thesis using sb ok(2) by (auto simp: hep_buffer_add_def ucast_u64_u32)
qed

text \<open>The beginning of a message that is not complete yet (possibly nothing).\<close>

definition partial_msg :: "mem \<Rightarrow> bool" where
  "partial_msg rest = (\<exists>its j. rest = take j (hep_msg its) \<and> j < length (hep_msg its) \<and> length (hep_msg its) < 65536)"

definition msgs_fit :: "nat \<Rightarrow> (nat \<times> hep_item) list list \<Rightarrow> bool" where
  "msgs_fit fuel msgs = (msgs \<noteq> [] \<and> length msgs < fuel \<and> (\<forall>its \<in> set msgs. msg_wf its \<and> length its < fuel))"

lemma partial_Nil [simp]: "partial_msg []"
  by (auto simp: partial_msg_def hep_items_def intro!: exI [of _ "[]"] exI [of _ 0])

lemma partial_length: "partial_msg rest \<Longrightarrow> length rest < 65536"
  by (auto simp: partial_msg_def simp del: length_hep_msg)

lemma hep_msgs_first:
  assumes "msgs_fit fuel msgs"
  obtains its more where "hep_msgs msgs = hep_msg its @ more" "msg_wf its" "length (hep_msgs msgs) > 12"
proof -
  obtain its ms where m: "msgs = its # ms" "msg_wf its" using assms by (cases msgs) (auto simp: msgs_fit_def)
  then have "hep_msgs msgs = hep_msg its @ hep_msgs ms" by (simp add: hep_msgs_def)
  then show thesis using that m msg_wf_items [of its] by auto
qed

lemma processHeps_msgs:
  assumes "msgs_fit fuel msgs" and "partial_msg rest" and "drop p m = hep_msgs msgs @ rest @ post" and "post \<noteq> []"
    and "length (hep_msgs msgs @ rest) < 2 ^ 32"
  shows "processHeps fuel env m p (word_of_nat (length (hep_msgs msgs @ rest))) ip st =
     Ret (word_of_nat (length (hep_msgs msgs)), fold (hep_deliver env ip) msgs st)"
proof -
  obtain its j where r: "rest = take j (hep_msg its)" "j < length (hep_msg its)" "length (hep_msg its) < 65536"
    using assms(2) by (auto simp: partial_msg_def)
  have "length (hep_msgs msgs) > 12" using hep_msgs_first [OF assms(1)] by blast
  then show ?thesis
    using heps_loop_msgs [of msgs fuel p 0 m rest post fuel j its env ip st] assms r by (simp add: processHeps_def msgs_fit_def)
qed

lemma hep_complete:
  assumes "msgs_fit fuel msgs" and "drop p m = hep_msgs msgs @ rest" and "L < 2 ^ 32" and "length (hep_msgs msgs) \<le> L"
  shows "isBeginHep m p (word_of_nat L) = Ret True" "isCompleteHep m p (word_of_nat L) = Ret True"
proof -
  obtain its more where f: "hep_msgs msgs = hep_msg its @ more" "msg_wf its" "length (hep_msgs msgs) > 12" by (rule hep_msgs_first [OF assms(1)])
  let ?l = "length (hep_msg its)"
  have b: "?l < 65536" "12 < ?l" "?l \<le> L" using f msg_wf_items [OF f(2)] assms(4) by (auto simp: msg_wf_def)
  have tk: "take ?l (drop p m) = take ?l (hep_msg its)" using assms(2) f(1) by simp
  have lm: "p + 8 \<le> length m" using arg_cong [OF assms(2), of length] f(3) by auto
  have ge: "(word_of_nat L :: u64) \<ge> 4" "(word_of_nat L :: u64) \<ge> 6" using b assms(3) by (simp_all add: word_le_nat_alt unat_word_of_nat)
  show bg: "isBeginHep m p (word_of_nat L) = Ret True" using hep_prefix_reads(1) [OF tk b(1)] b lm ge by simp
  have "hepLength m p (word_of_nat L) = Ret (word_of_nat ?l)" using hep_prefix_reads(2) [OF tk b(1)] b lm ge by auto
  moreover have "ucast (word_of_nat ?l :: u16) \<le> (word_of_nat L :: u64)"
    unfolding ucast_of_nat(2) [OF b(1)] using b assms(3) by (subst word_of_nat_le_iff) auto
  ultimately show "isCompleteHep m p (word_of_nat L) = Ret True" by (simp only: isCompleteHep_def bg obind.simps if_True omap.simps simp_thms)
qed

lemma hep_incomplete:
  assumes "partial_msg rest" and "7 \<le> length rest" and "drop p m = rest @ post" and "post \<noteq> []"
  shows "isBeginHep m p (word_of_nat (length rest)) = Ret True" "isCompleteHep m p (word_of_nat (length rest)) = Ret False"
proof -
  obtain its j where r: "rest = take j (hep_msg its)" "j < length (hep_msg its)" "length (hep_msg its) < 65536"
    using assms(1) by (auto simp: partial_msg_def)
  then have j: "length rest = j" by (simp del: length_hep_msg)
  have tk: "take j (drop p m) = take j (hep_msg its)" using assms(3) r(1) j by simp
  have lm: "p + 8 \<le> length m" using arg_cong [OF assms(3), of length] assms(2,4) by (cases post) auto
  have ge: "(word_of_nat (length rest) :: u64) \<ge> 4" "(word_of_nat (length rest) :: u64) \<ge> 6"
    using assms(2) partial_length [OF assms(1)] by (simp_all add: word_le_nat_alt unat_word_of_nat)
  show bg: "isBeginHep m p (word_of_nat (length rest)) = Ret True" using hep_prefix_reads(1) [OF tk r(3)] assms(2) j lm ge by auto
  have "hepLength m p (word_of_nat (length rest)) = Ret (word_of_nat (length (hep_msg its)))"
    using hep_prefix_reads(2) [OF tk r(3)] assms(2) j lm ge by auto
  moreover have "\<not> ucast (word_of_nat (length (hep_msg its)) :: u16) \<le> (word_of_nat (length rest) :: u64)"
    unfolding ucast_of_nat(2) [OF r(3)] using r(2,3) j by (subst word_of_nat_le_iff) auto
  ultimately show "isCompleteHep m p (word_of_nat (length rest)) = Ret False" by (simp only: isCompleteHep_def bg obind.simps if_True omap.simps simp_thms)
qed


lemma sb_length_word: "sb_ok sb \<Longrightarrow> sb_length sb = word_of_nat (length (sb_bytes sb))"
  by (simp add: length_sb_bytes)

lemma sb_length_u64:
  assumes "sb_ok sb"
  shows "ucast (sb_length sb) = (word_of_nat (length (sb_bytes sb)) :: u64)"
proof -
  have "length (sb_bytes sb) < 2 ^ 32" using length_sb_bytes [OF assms] unat_less_2_32(3) [of "sb_length sb"] by (simp only:)
  from ucast_of_nat(1) [OF this] show ?thesis by (simp only: sb_length_word [OF assms, symmetric])
qed

lemma process_buffered_msgs:
  assumes "sb_ok (hs_buffer st)" and "hep_slack (hs_buffer st)" and "sb_bytes (hs_buffer st) = hep_msgs msgs @ rest" and "msgs_fit fuel msgs" and "partial_msg rest"
  shows "process_buffered fuel env dl ip st =
    (if rest = [] then Ret ((fold (hep_deliver env ip) msgs st)\<lparr>hs_buffer := sb_clear (hs_buffer st)\<rparr>)
     else if word_of_nat (length (hep_msgs msgs)) < dl then
       omap (\<lambda>(_, sb). (fold (hep_deliver env ip) msgs st)\<lparr>hs_buffer := sb\<rparr>)
         (sb_removeDataFromLeft (fresh_byte env) (word_of_nat (length (hep_msgs msgs))) (hs_buffer st))
     else Ret (fold (hep_deliver env ip) msgs st))"
proof -
  let ?sb = "hs_buffer st" let ?n = "length (hep_msgs msgs @ rest)"
  have n: "?n < 2 ^ 32" using length_sb_bytes [OF assms(1)] assms(3) unat_less_2_32(3) [of "sb_length ?sb"] by simp
  obtain post where a: "hep_array ?sb = hep_msgs msgs @ rest @ post" "post \<noteq> []" using assms(2,3) by (auto simp: hep_slack_def)
  have d: "drop 0 (hep_array ?sb) = hep_msgs msgs @ rest @ post" using a(1) by simp
  have u: "ucast (sb_length ?sb) = (word_of_nat ?n :: u64)" using sb_length_u64 [OF assms(1)] assms(3) by simp
  have c: "isCompleteHep (hep_array ?sb) 0 (word_of_nat ?n) = Ret True"
    using hep_complete(2) [OF assms(4) d n] by simp
  have h: "processHeps fuel env (hep_array ?sb) 0 (word_of_nat ?n) ip st = Ret (word_of_nat (length (hep_msgs msgs)), fold (hep_deliver env ip) msgs st)"
    by (rule processHeps_msgs [OF assms(4,5) d a(2) n])
  have lt: "length (hep_msgs msgs) < 2 ^ 32" using n by simp
  have eq: "(word_of_nat (length (hep_msgs msgs)) = sb_length ?sb) = (rest = [])"
    using lt length_sb_bytes [OF assms(1)] assms(3) by (cases rest) (auto simp: word_unat_eq_iff unat_word_of_nat)
  show ?thesis
    by (simp only: process_buffered_def Let_def u c h obind.simps simp_thms if_False prod.case hep_buffer_delivers eq ucast_of_nat(1) [OF lt])
qed

lemma process_buffered_partial:
  assumes "sb_ok (hs_buffer st)" and "hep_slack (hs_buffer st)" and "partial_msg (sb_bytes (hs_buffer st))" and "7 \<le> length (sb_bytes (hs_buffer st))"
  shows "process_buffered fuel env dl ip st = Ret st"
proof -
  obtain post where a: "hep_array (hs_buffer st) = sb_bytes (hs_buffer st) @ post" "post \<noteq> []" using assms(2) by (auto simp: hep_slack_def)
  then have "isCompleteHep (hep_array (hs_buffer st)) 0 (word_of_nat (length (sb_bytes (hs_buffer st)))) = Ret False"
    using hep_incomplete(2) [OF assms(3,4), of 0] by simp
  then show ?thesis by (simp add: process_buffered_def Let_def sb_length_u64 [OF assms(1)])
qed

section \<open>Receiving a piece of data\<close>

definition hep_begins :: "mem \<Rightarrow> bool" where
  "hep_begins d = (take 4 d = [0x48, 0x45, 0x50, 0x33])"

definition hep_recv :: "nat \<Rightarrow> hep_env \<Rightarrow> vmIP \<Rightarrow> mem \<Rightarrow> mem \<Rightarrow> hep_state \<Rightarrow> hep_state outcome" where
  "hep_recv fuel env ip slack d st = processData fuel env (d @ slack) 0 (word_of_nat (length d)) ip st"

lemma not_begins:
  assumes "\<not> hep_begins d" and "length d < 2 ^ 32"
  shows "isBeginHep (d @ slack) 0 (word_of_nat (length d)) = Ret False"
proof (cases "4 \<le> length d")
  case True
  then obtain a b c e r where "d = a # b # c # e # r" by (auto simp: numeral_eq_Suc Suc_le_length_iff)
  then show ?thesis using assms by (auto simp: isBeginHep_def ld8_def hep_begins_def)
next
  case False
  then have "\<not> (4 \<le> (word_of_nat (length d) :: u64))" using assms(2) by (simp add: word_le_nat_alt unat_word_of_nat)
  then show ?thesis by (simp add: isBeginHep_def)
qed

text \<open>The first piece of a message.\<close>

lemma recv_partial:
  assumes "hep_inv st" and "partial_msg d" and "7 \<le> length d" and "slack \<noteq> []"
  shows "\<exists>sb. hep_recv fuel env ip slack d st = Ret (st\<lparr>hs_buffer := sb\<rparr>) \<and> hep_inv (st\<lparr>hs_buffer := sb\<rparr>) \<and> sb_bytes sb = d"
proof -
  let ?st = "st\<lparr>hs_buffer := sb_clear (hs_buffer st)\<rparr>"
  have inv: "hep_inv ?st" "sb_bytes (hs_buffer ?st) = []"
    using assms(1) by (auto simp: hep_inv_def sb_clear_def sb_ok_def sb_bytes_def split: option.splits)
  have d: "drop 0 (d @ slack) = d @ slack" "d \<noteq> []" using assms(3) by auto
  from hep_buffer_add_ok [OF inv(1) d, of env] inv(2) partial_length [OF assms(2)] obtain sb where
    "hep_buffer_add env (d @ slack) 0 (word_of_nat (length d)) ?st = Ret (?st\<lparr>hs_buffer := sb\<rparr>)" "sb_ok sb" "sb_reserve sb = 0" "sb_bytes sb = d" by auto
  then show ?thesis using hep_incomplete [OF assms(2,3) d(1) assms(4)]
    by (auto simp: hep_recv_def processData_def Let_def hep_inv_def)
qed

text \<open>A further piece: it is appended, and what is complete is processed.\<close>

lemma recv_more:
  assumes "hep_inv st" and "sb_bytes (hs_buffer st) \<noteq> []" and "\<not> hep_begins d" and "d \<noteq> []" and "length (sb_bytes (hs_buffer st)) + length d \<le> 1024 * 1024"
  shows "\<exists>sb. sb_ok sb \<and> sb_reserve sb = 0 \<and> hep_slack sb \<and> sb_bytes sb = sb_bytes (hs_buffer st) @ d \<and>
    hep_recv fuel env ip slack d st =
      omap (\<lambda>st. if sb_length (hs_buffer st) > 1024 * 1024 then st\<lparr>hs_buffer := sb_clear (hs_buffer st)\<rparr> else st)
        (process_buffered fuel env (word_of_nat (length d)) ip (st\<lparr>hs_buffer := sb\<rparr>))"
proof -
  have d: "drop 0 (d @ slack) = d @ slack" by simp
  have ne: "\<not> sb_empty (hs_buffer st)"
    using assms(1,2) length_sb_bytes [of "hs_buffer st"] by (auto simp: hep_inv_def sb_empty_def)
  have nb: "isBeginHep (d @ slack) 0 (word_of_nat (length d)) = Ret False" using assms(5) by (intro not_begins [OF assms(3)]) simp
  have "length (sb_bytes (hs_buffer st)) + length d < 2 ^ 32 - 1" using assms(5) by simp
  from hep_buffer_add_ok [OF assms(1) d assms(4) this, of env] show ?thesis
    using ne nb by (auto simp: hep_recv_def processData_def)
qed

lemma small_buffer: "sb_ok sb \<Longrightarrow> length (sb_bytes sb) \<le> 1024 * 1024 \<Longrightarrow> \<not> sb_length sb > 1024 * 1024"
  by (simp add: length_sb_bytes word_less_nat_alt)


lemma partial_msgI:
  assumes "xs @ ys = hep_msg its" and "ys \<noteq> []" and "length (hep_msg its) < 65536"
  shows "partial_msg xs"
proof -
  have "xs = take (length xs) (hep_msg its)" "length xs < length (hep_msg its)"
    using assms(2) unfolding assms(1) [symmetric] by simp_all
  then show ?thesis using assms(3) unfolding partial_msg_def by blast
qed

lemma pushed_delivers: "hs_pushed (fold (hep_deliver env ip) msgs st) = hs_pushed st @ concat (map (msg_packets env) msgs)"
  by (induction msgs arbitrary: st) (auto simp: hep_deliver_def)

lemma recv_msgs:
  assumes "hep_inv st" and "msgs_fit fuel msgs" and "partial_msg rest" and "slack \<noteq> []" and "length (hep_msgs msgs @ rest) < 2 ^ 32 - 1"
  shows "\<exists>sb. hep_recv fuel env ip slack (hep_msgs msgs @ rest) st = Ret ((fold (hep_deliver env ip) msgs (st\<lparr>hs_buffer := sb_clear (hs_buffer st)\<rparr>))\<lparr>hs_buffer := sb\<rparr>) \<and>
     sb_ok sb \<and> sb_reserve sb = 0 \<and> sb_bytes sb = rest"
proof -
  let ?n = "length (hep_msgs msgs @ rest)" and ?k = "length (hep_msgs msgs)" and ?m = "(hep_msgs msgs @ rest) @ slack"
  let ?st = "st\<lparr>hs_buffer := sb_clear (hs_buffer st)\<rparr>"
  let ?st' = "fold (hep_deliver env ip) msgs ?st"
  have inv: "sb_ok (sb_clear (hs_buffer st))" "sb_reserve (sb_clear (hs_buffer st)) = 0" "sb_bytes (sb_clear (hs_buffer st)) = []"
    using assms(1) by (auto simp: hep_inv_def sb_clear_def sb_ok_def sb_bytes_def split: option.splits)
  have d: "drop 0 ?m = hep_msgs msgs @ rest @ slack" by simp
  have c: "isBeginHep ?m 0 (word_of_nat ?n) = Ret True" "isCompleteHep ?m 0 (word_of_nat ?n) = Ret True"
    using hep_complete [OF assms(2) d, of ?n] assms(5) by simp_all
  have h: "processHeps fuel env ?m 0 (word_of_nat ?n) ip ?st = Ret (word_of_nat ?k, ?st')"
    using assms(5) by (intro processHeps_msgs [OF assms(2,3) d assms(4)]) simp
  have k: "ucast (word_of_nat ?k :: u32) = (word_of_nat ?k :: u64)" "unat (word_of_nat ?k :: u32) = ?k"
    using assms(5) by (auto intro!: ucast_of_nat(1) simp: unat_word_of_nat)
  have lt: "((word_of_nat ?k :: u64) < word_of_nat ?n) = (rest \<noteq> [])" using assms(5) by (subst word_of_nat_less_iff) auto
  have sub: "(word_of_nat ?n :: u64) - word_of_nat ?k = word_of_nat (length rest)" by simp
  have p: "hep_recv fuel env ip slack (hep_msgs msgs @ rest) st =
     (if rest \<noteq> [] then hep_buffer_add env ?m ?k (word_of_nat (length rest)) ?st' else Ret ?st')"
    unfolding hep_recv_def processData_def c h Let_def obind.simps prod.case k lt sub by simp
  show ?thesis
  proof (cases "rest = []")
    case True
    then show ?thesis using p inv by (intro exI [of _ "sb_clear (hs_buffer st)"]) simp
  next
    case False
    have "hep_inv ?st'" "drop ?k ?m = rest @ slack" "length (sb_bytes (hs_buffer ?st')) + length rest < 2 ^ 32 - 1"
      using inv assms(5) by (simp_all add: hep_inv_def)
    from hep_buffer_add_ok [OF this(1,2) False this(3), of env] show ?thesis using p False inv(3) by auto
  qed
qed

lemma recv_pieces:
  assumes "hep_inv st" and "msg_wf its" and "Suc (length its) < fuel" and "slack \<noteq> []"
    and "sb_bytes (hs_buffer st) @ concat ds = hep_msg its" and "7 \<le> length (sb_bytes (hs_buffer st))" and "ds \<noteq> []"
    and "\<forall>d \<in> set ds. d \<noteq> [] \<and> \<not> hep_begins d"
  shows "\<exists>sb. fold (\<lambda>d r. obind r (hep_recv fuel env ip slack d)) ds (Ret st) = Ret ((hep_deliver env ip its st)\<lparr>hs_buffer := sb\<rparr>) \<and>
     sb_ok sb \<and> sb_reserve sb = 0 \<and> sb_bytes sb = []"
  using assms
proof (induction ds arbitrary: st)
  case (Cons d ds)
  let ?b = "sb_bytes (hs_buffer st)"
  have l: "length (hep_msg its) < 65536" using Cons.prems(2) by (simp add: msg_wf_def)
  have bd: "?b @ d @ concat ds = hep_msg its" using Cons.prems(5) by simp
  have total: "length ?b + length d + length (concat ds) = length (hep_msg its)" using arg_cong [OF bd, of length] by (simp only: length_append add.assoc)
  with l have small: "length ?b + length d \<le> 1024 * 1024" by linarith
  have ne: "?b \<noteq> []" using Cons.prems(6) by auto
  obtain sb where sb: "sb_ok sb" "sb_reserve sb = 0" "hep_slack sb" "sb_bytes sb = ?b @ d"
    and r: "hep_recv fuel env ip slack d st =
      omap (\<lambda>st. if sb_length (hs_buffer st) > 1024 * 1024 then st\<lparr>hs_buffer := sb_clear (hs_buffer st)\<rparr> else st)
        (process_buffered fuel env (word_of_nat (length d)) ip (st\<lparr>hs_buffer := sb\<rparr>))"
    using recv_more [OF Cons.prems(1) ne _ _ small, of fuel env ip slack] Cons.prems(8) by auto
  have sm: "\<not> sb_length sb > 1024 * 1024" using small_buffer [OF sb(1)] sb(4) small by simp
  show ?case
  proof (cases "ds = []")
    case True
    have fit: "msgs_fit fuel [its]" using Cons.prems(2,3) by (simp add: msgs_fit_def)
    have "process_buffered fuel env (word_of_nat (length d)) ip (st\<lparr>hs_buffer := sb\<rparr>) =
        Ret ((hep_deliver env ip its (st\<lparr>hs_buffer := sb\<rparr>))\<lparr>hs_buffer := sb_clear sb\<rparr>)"
      using process_buffered_msgs [OF _ _ _ fit partial_Nil, of "st\<lparr>hs_buffer := sb\<rparr>"] sb bd True by (simp add: hep_msgs_def)
    moreover have "sb_ok (sb_clear sb)" "sb_bytes (sb_clear sb) = []" "sb_reserve (sb_clear sb) = 0" "\<not> sb_length (sb_clear sb) > 1024 * 1024"
      using sb by (auto simp: sb_clear_def sb_ok_def sb_bytes_def split: option.splits)
    ultimately show ?thesis using r True by (intro exI [of _ "sb_clear sb"]) (simp add: hep_deliver_def)
  next
    case False
    then have "0 < length (concat ds)" using Cons.prems(8) by (cases ds) auto
    then have "partial_msg (?b @ d)" using bd l by (intro partial_msgI [of _ "concat ds"]) auto
    then have "process_buffered fuel env (word_of_nat (length d)) ip (st\<lparr>hs_buffer := sb\<rparr>) = Ret (st\<lparr>hs_buffer := sb\<rparr>)"
      using process_buffered_partial [of "st\<lparr>hs_buffer := sb\<rparr>"] sb Cons.prems(6) by simp
    then have "hep_recv fuel env ip slack d st = Ret (st\<lparr>hs_buffer := sb\<rparr>)" using r sm by simp
    moreover have "\<exists>sb'. fold (\<lambda>d r. obind r (hep_recv fuel env ip slack d)) ds (Ret (st\<lparr>hs_buffer := sb\<rparr>)) =
        Ret ((hep_deliver env ip its (st\<lparr>hs_buffer := sb\<rparr>))\<lparr>hs_buffer := sb'\<rparr>) \<and> sb_ok sb' \<and> sb_reserve sb' = 0 \<and> sb_bytes sb' = []"
      using sb False Cons.prems bd by (intro Cons.IH) (auto simp: hep_inv_def)
    ultimately show ?thesis by (auto simp: hep_deliver_def)
  qed
qed simp


section \<open>Defects of the framing\<close>

lemma chunk_zero_stops:
  assumes "drop (p + 4) m = 0 # 0 # rest" and "2 \<le> length rest"
  shows "chunks_loop (Suc k) env m p (- 6) 0 h = Ret h"
proof -
  have "take 2 (drop (p + 4) m) = be16 0" using assms(1) by (simp add: be16_def)
  moreover have "p + 4 + 4 \<le> length m" using arg_cong [OF assms(1), of length] assms(2) by simp
  ultimately have "omap (\<lambda>w. ntohs (ucast w)) (ld32 m (p + 4)) = Ret (word_of_nat 0 :: u16)" by (intro ld32_be16) auto
  then show ?thesis by (simp add: chunkLength_def)
qed

lemma processHep_empty:
  assumes "drop (p + 10) m = 0 # 0 # rest" and "2 \<le> length rest"
  shows "\<exists>st'. processHep (Suc fuel) env m p 0 ip st = Ret st'"
proof -
  let ?h = "sHEP_Data_new (stack_garbage env)"
  have "chunks_loop (Suc fuel) env m (p + 6) (- 6) 0 ?h = Ret ?h"
    using chunk_zero_stops [of "p + 6" m rest] assms by (simp add: add.assoc)
  moreover have "sb_ok (captured_packet_payload ?h)" by (simp add: sHEP_Data_new_def sb_new_def sb_ok_def)
  ultimately show ?thesis using hep_payload_view by (simp add: processHep_def processChunks_def Let_def)
qed

lemma heps_loop_zero:
  assumes "hep_prefix = [0x48, 0x45, 0x50, 0x33, 0, 0]" and "m = hep_prefix @ [a, b, c, d, 0, 0] @ rest" and "2 \<le> length rest" and "6 < n" "n < 2 ^ 32"
  shows "heps_loop k (Suc fuel) env m 0 (word_of_nat n) ip 0 st = OutOfFuel"
proof (induction k arbitrary: st)
  case (Suc k)
  have d: "drop (0 + 10) m = 0 # 0 # rest" using assms(1,2) by simp
  obtain st' where st': "processHep (Suc fuel) env m 0 0 ip st = Ret st'" using processHep_empty [OF d assms(3)] by blast
  have ge: "(word_of_nat n :: u64) \<ge> 4" "(word_of_nat n :: u64) \<ge> 6" using assms(4,5) by (simp_all add: word_le_nat_alt unat_word_of_nat)
  have guard: "(0 :: u64) < word_of_nat n - 6" using loop_guard [of 0 n] assms(4,5) by simp
  have bg: "isBeginHep m 0 (word_of_nat n) = Ret True" using ge assms(1,2) by (simp add: isBeginHep_def ld8_def)
  have "omap (\<lambda>w. ntohs (ucast w)) (ld32 m (0 + 4)) = Ret (word_of_nat 0 :: u16)"
    using assms(1,2) by (intro ld32_be16) (simp_all add: be16_def)
  then have hl: "hepLength m 0 (word_of_nat n) = Ret 0" using ge by (simp add: hepLength_def)
  show ?case using guard bg hl st' Suc.IH by simp
qed simp

section \<open>Properties\<close>

text \<open>C16: \<open>processData\<close> delivers what it receives: a piece of data made of complete messages and possibly the beginning of a
  further one, in a receive buffer with at least one byte behind the data, is processed to the end: exactly the packets the
  messages describe are handed on, in order, with the addresses, ports, times and payload of the message (JSON payloads
  replaced as the converters say), and the beginning of the further message is kept in the buffer.\<close>

theorem hep_data_delivered:
  assumes "hep_inv st" and "msgs_fit fuel msgs" and "partial_msg rest" and "slack \<noteq> []" and "length (hep_msgs msgs @ rest) < 2 ^ 32 - 1"
  shows "\<exists>st'. processData fuel env ((hep_msgs msgs @ rest) @ slack) 0 (word_of_nat (length (hep_msgs msgs @ rest))) ip st = Ret st' \<and>
     hs_pushed st' = hs_pushed st @ concat (map (msg_packets env) msgs) \<and> sb_bytes (hs_buffer st') = rest \<and> hep_inv st'"
  using recv_msgs [OF assms, of env ip] by (auto simp: hep_recv_def pushed_delivers hep_inv_def)

lemma hep_inv_new: "hep_inv \<lparr>hs_buffer = sb_new 0, hs_counter = c, hs_pushed = ps\<rparr>"
  by (simp add: hep_inv_def sb_new_def sb_ok_def)

theorem hep_data_delivered_witness:
  "\<forall>env. \<exists>st'. processData 20 env (hep_msg [(0, HFamily 2), (0, HProto 17), (0, HSrc4 0x0A000001), (0, HDst4 0x0A000002), (0, HSport 5060),
       (0, HDport 5061), (0, HSec 7), (0, HUsec 8), (0, HType 4), (0, HPayload [1, 2, 3])] @ [0]) 0 92 (vmIP_v4 1)
       \<lparr>hs_buffer = sb_new 0, hs_counter = [], hs_pushed = []\<rparr> = Ret st' \<and>
     hs_pushed st' = [\<lparr>hp_tcp = False, hp_v6 = False, hp_saddr = vmIP_v4 0x0A000001, hp_daddr = vmIP_v4 0x0A000002, hp_sport = VmPort 5060,
       hp_dport = VmPort 5061, hp_tcp_flags = 0, hp_sec = 7, hp_usec = 8, hp_payload = [1, 2, 3]\<rparr>]"
proof
  fix env :: hep_env
  let ?its = "[(0, HFamily 2), (0, HProto 17), (0, HSrc4 0x0A000001), (0, HDst4 0x0A000002), (0, HSport 5060),
       (0, HDport 5061), (0, HSec 7), (0, HUsec 8), (0, HType 4), (0, HPayload [1, 2, 3])] :: (nat \<times> hep_item) list"
  have len: "length (hep_items ?its) = 86" by (simp add: hep_items_def)
  have wf: "msg_wf ?its" using len by (simp add: msg_wf_def items_wf_def item_wf_def)
  have fit: "msgs_fit 20 [?its]" using wf by (simp add: msgs_fit_def)
  have view: "msg_packets env ?its = [\<lparr>hp_tcp = False, hp_v6 = False, hp_saddr = vmIP_v4 0x0A000001, hp_daddr = vmIP_v4 0x0A000002, hp_sport = VmPort 5060,
       hp_dport = VmPort 5061, hp_tcp_flags = 0, hp_sec = 7, hp_usec = 8, hp_payload = [1, 2, 3]\<rparr>]"
    by (simp add: msg_packets_def items_view_def view_packets_def view_payload_def hep_view_of_def sHEP_Data_new_def vmIP_v4_def sb_bytes_def sb_new_def)
  have "length (hep_msgs [?its] @ []) < 2 ^ 32 - 1" "length (hep_msgs [?its] @ []) = 92" using len by (simp_all add: hep_msgs_def)
  from hep_data_delivered [OF hep_inv_new fit partial_Nil _ this(1), of "[0]" env "vmIP_v4 1" "[]" "[]"] this(2) view
  show "\<exists>st'. processData 20 env (hep_msg ?its @ [0]) 0 92 (vmIP_v4 1) \<lparr>hs_buffer = sb_new 0, hs_counter = [], hs_pushed = []\<rparr> = Ret st' \<and>
     hs_pushed st' = [\<lparr>hp_tcp = False, hp_v6 = False, hp_saddr = vmIP_v4 0x0A000001, hp_daddr = vmIP_v4 0x0A000002, hp_sport = VmPort 5060,
       hp_dport = VmPort 5061, hp_tcp_flags = 0, hp_sec = 7, hp_usec = 8, hp_payload = [1, 2, 3]\<rparr>]"
    by (auto simp: hep_msgs_def)
qed

text \<open>C33: A message that arrives in several pieces is reassembled: when the first piece has at least 7 bytes and no later piece
  happens to begin with the four bytes of the protocol's mark, the message is delivered once, at its last piece, exactly as if it
  had arrived whole, and the buffer is empty again.\<close>

theorem hep_pieces_reassembled:
  assumes "hep_inv st" and "msg_wf its" and "Suc (length its) < fuel" and "slack \<noteq> []"
    and "d @ concat ds = hep_msg its" and "7 \<le> length d" and "ds \<noteq> []" and "\<forall>x \<in> set ds. x \<noteq> [] \<and> \<not> hep_begins x"
  shows "\<exists>st'. fold (\<lambda>x r. obind r (processData fuel env (x @ slack) 0 (word_of_nat (length x)) ip)) (d # ds) (Ret st) = Ret st' \<and>
     hs_pushed st' = hs_pushed st @ msg_packets env its \<and> sb_bytes (hs_buffer st') = [] \<and> hep_inv st'"
proof -
  have l: "length (hep_msg its) < 65536" using assms(2) by (simp add: msg_wf_def)
  have "concat ds \<noteq> []" using assms(7,8) by (cases ds) auto
  from recv_partial [OF assms(1) partial_msgI [OF assms(5) this l] assms(6,4), of fuel env ip] obtain sb where
    first: "hep_recv fuel env ip slack d st = Ret (st\<lparr>hs_buffer := sb\<rparr>)" "hep_inv (st\<lparr>hs_buffer := sb\<rparr>)" "sb_bytes sb = d" by blast
  have "\<exists>sb'. fold (\<lambda>d r. obind r (hep_recv fuel env ip slack d)) ds (Ret (st\<lparr>hs_buffer := sb\<rparr>)) =
      Ret ((hep_deliver env ip its (st\<lparr>hs_buffer := sb\<rparr>))\<lparr>hs_buffer := sb'\<rparr>) \<and> sb_ok sb' \<and> sb_reserve sb' = 0 \<and> sb_bytes sb' = []"
    using assms first by (intro recv_pieces) auto
  then show ?thesis using first(1) unfolding hep_recv_def by (auto simp: hep_inv_def hep_deliver_def)
qed

lemma hep_example_msg:
  "msg_wf [(0, HFamily 2), (0, HPayload [1, 2, 3])]"
  "hep_msg [(0, HFamily 2), (0, HPayload [1, 2, 3])] =
     [0x48, 0x45, 0x50, 0x33, 0, 22, 0, 0, 0, 1, 0, 7, 2, 0, 0, 0, 15, 0, 9, 1, 2, 3]"
  by (simp_all add: msg_wf_def items_wf_def item_wf_def hep_msg_def hep_items_def hep_chunk_def be16_def)

theorem hep_pieces_reassembled_witness:
  "\<forall>env. \<exists>st'. fold (\<lambda>x r. obind r (processData 5 env (x @ [0]) 0 (word_of_nat (length x)) (vmIP_v4 0)))
      [[0x48, 0x45, 0x50, 0x33, 0, 22, 0, 0, 0, 1], [0, 7, 2, 0, 0, 0], [15, 0, 9, 1, 2, 3]]
      (Ret \<lparr>hs_buffer = sb_new 0, hs_counter = [], hs_pushed = []\<rparr>) = Ret st' \<and> sb_bytes (hs_buffer st') = []"
proof
  fix env :: hep_env
  have "[0x48, 0x45, 0x50, 0x33, 0, 22, 0, 0, 0, 1] @ concat [[0, 7, 2, 0, 0, 0], [15, 0, 9, 1, 2, 3]] = hep_msg [(0, HFamily 2), (0, HPayload [1, 2, 3])]"
    by (simp add: hep_example_msg)
  from hep_pieces_reassembled [OF hep_inv_new hep_example_msg(1) _ _ this, of 5 "[0]" env "vmIP_v4 0" "[]" "[]"]
  show "\<exists>st'. fold (\<lambda>x r. obind r (processData 5 env (x @ [0]) 0 (word_of_nat (length x)) (vmIP_v4 0)))
      [[0x48, 0x45, 0x50, 0x33, 0, 22, 0, 0, 0, 1], [0, 7, 2, 0, 0, 0], [15, 0, 9, 1, 2, 3]]
      (Ret \<lparr>hs_buffer = sb_new 0, hs_counter = [], hs_pushed = []\<rparr>) = Ret st' \<and> sb_bytes (hs_buffer st') = []"
    by (auto simp: hep_begins_def)
qed

text \<open>A buffered message is delivered twice when the piece that completes it is not longer than the message and brings the
  beginning of the next one: the processed bytes are only removed when they are fewer than the bytes of the last
  piece, so the message is still in front of the buffer when the next piece arrives.\<close>

theorem hep_message_delivered_twice:
  assumes "hep_inv st" and "sb_bytes (hs_buffer st) \<noteq> []" and "msg_wf its" and "Suc (length its) < fuel"
    and "sb_bytes (hs_buffer st) @ d = hep_msg its @ rest" and "length d \<le> length (hep_msg its)"
    and "d \<noteq> []" "\<not> hep_begins d" "e \<noteq> []" "\<not> hep_begins e" and "rest \<noteq> []" "partial_msg rest" "partial_msg (rest @ e)"
  shows "\<exists>st1 st2. processData fuel env (d @ slack) 0 (word_of_nat (length d)) ip st = Ret st1 \<and>
     processData fuel env (e @ slack) 0 (word_of_nat (length e)) ip st1 = Ret st2 \<and>
     hs_pushed st2 = hs_pushed st @ msg_packets env its @ msg_packets env its"
proof -
  have l: "length (hep_msg its) < 65536" using assms(3) by (simp add: msg_wf_def)
  have fit: "msgs_fit fuel [its]" using assms(3,4) by (simp add: msgs_fit_def)
  have m: "hep_msgs [its] = hep_msg its" by (simp add: hep_msgs_def)
  have tot: "length (sb_bytes (hs_buffer st)) + length d = length (hep_msg its) + length rest" using arg_cong [OF assms(5), of length] by simp
  have ld: "length rest + length e < 65536" using partial_length [OF assms(13)] by simp
  have small: "length (sb_bytes (hs_buffer st)) + length d \<le> 1024 * 1024" using tot l ld by simp
  obtain sb where sb: "sb_ok sb" "sb_reserve sb = 0" "hep_slack sb" "sb_bytes sb = hep_msg its @ rest"
    and r: "hep_recv fuel env ip slack d st =
      omap (\<lambda>st. if sb_length (hs_buffer st) > 1024 * 1024 then st\<lparr>hs_buffer := sb_clear (hs_buffer st)\<rparr> else st)
        (process_buffered fuel env (word_of_nat (length d)) ip (st\<lparr>hs_buffer := sb\<rparr>))"
    using recv_more [OF assms(1,2,8,7) small, of fuel env ip slack] assms(5) by auto
  let ?st1 = "hep_deliver env ip its (st\<lparr>hs_buffer := sb\<rparr>)"
  have "\<not> (word_of_nat (length (hep_msg its)) :: u64) < word_of_nat (length d)" using assms(6) l by (subst word_of_nat_less_iff) auto
  then have "process_buffered fuel env (word_of_nat (length d)) ip (st\<lparr>hs_buffer := sb\<rparr>) = Ret ?st1"
    using process_buffered_msgs [OF _ _ _ fit assms(12), of "st\<lparr>hs_buffer := sb\<rparr>"] sb assms(11) by (simp add: m)
  moreover have "\<not> sb_length sb > 1024 * 1024" using small_buffer [OF sb(1)] sb(4) l ld by simp
  ultimately have one: "hep_recv fuel env ip slack d st = Ret ?st1" using r by simp
  have inv: "hep_inv ?st1" using sb by (simp add: hep_inv_def)
  have "length (sb_bytes (hs_buffer ?st1)) + length e \<le> 1024 * 1024" "sb_bytes (hs_buffer ?st1) \<noteq> []" using sb(4) l ld by (auto simp: hep_msg_def)
  from recv_more [OF inv this(2) assms(10,9) this(1), of fuel env ip slack] sb(4) obtain sb2 where
    sb2: "sb_ok sb2" "hep_slack sb2" "sb_bytes sb2 = hep_msg its @ rest @ e"
    and r2: "hep_recv fuel env ip slack e ?st1 =
      omap (\<lambda>st. if sb_length (hs_buffer st) > 1024 * 1024 then st\<lparr>hs_buffer := sb_clear (hs_buffer st)\<rparr> else st)
        (process_buffered fuel env (word_of_nat (length e)) ip (?st1\<lparr>hs_buffer := sb2\<rparr>))" by auto
  obtain b sb3 where "sb_removeDataFromLeft (fresh_byte env) (word_of_nat (length (hep_msg its))) sb2 = Ret (b, sb3)"
    using sb_remove_ok [OF sb2(1)] by blast
  then obtain st2 where pb: "process_buffered fuel env (word_of_nat (length e)) ip (?st1\<lparr>hs_buffer := sb2\<rparr>) = Ret st2"
    "hs_pushed st2 = hs_pushed st @ msg_packets env its @ msg_packets env its"
    using process_buffered_msgs [OF _ _ _ fit assms(13), of "?st1\<lparr>hs_buffer := sb2\<rparr>" env "word_of_nat (length e)" ip] sb2 assms(11)
    by (cases "(word_of_nat (length (hep_msg its)) :: u64) < word_of_nat (length e)") (auto simp: m hep_deliver_def)
  have "\<exists>st3. hep_recv fuel env ip slack e ?st1 = Ret st3 \<and> hs_pushed st3 = hs_pushed st2" using r2 pb(1) by auto
  with pb(2) have "\<exists>st3. hep_recv fuel env ip slack e ?st1 = Ret st3 \<and> hs_pushed st3 = hs_pushed st @ msg_packets env its @ msg_packets env its" by simp
  then show ?thesis using one by (auto simp: hep_recv_def)
qed

theorem hep_message_delivered_twice_witness:
  "\<exists>st st1 st2. \<forall>env. processData 5 env ([3, 0x48] @ [0]) 0 2 (vmIP_v4 0) st = Ret (st1 env) \<and>
     processData 5 env ([0x45] @ [0]) 0 1 (vmIP_v4 0) (st1 env) = Ret (st2 env) \<and>
     hs_pushed (st2 env) = msg_packets env [(0, HFamily 2), (0, HPayload [1, 2, 3])] @ msg_packets env [(0, HFamily 2), (0, HPayload [1, 2, 3])]"
proof -
  let ?its = "[(0, HFamily 2), (0, HPayload [1, 2, 3])] :: (nat \<times> hep_item) list"
  let ?b = "[0x48, 0x45, 0x50, 0x33, 0, 22, 0, 0, 0, 1, 0, 7, 2, 0, 0, 0, 15, 0, 9, 1, 2] :: mem"
  let ?st = "\<lparr>hs_buffer = \<lparr>sb_buffer = Some (?b @ [0]), sb_length = 21, sb_capacity = 22, sb_reserve = 0\<rparr>, hs_counter = [], hs_pushed = []\<rparr>"
  have inv: "hep_inv ?st" "sb_bytes (hs_buffer ?st) = ?b" by (simp_all add: hep_inv_def sb_ok_def sb_bytes_def)
  have p: "partial_msg [0x48]" "partial_msg ([0x48] @ [0x45])"
    using partial_msgI [of "[0x48]" "tl (hep_msg ?its)" ?its] partial_msgI [of "[0x48] @ [0x45]" "tl (tl (hep_msg ?its))" ?its] by (simp_all add: hep_example_msg)
  have "\<exists>st1 st2. processData 5 env ([3, 0x48] @ [0]) 0 (word_of_nat (length [3, 0x48 :: u8])) (vmIP_v4 0) ?st = Ret st1 \<and>
     processData 5 env ([0x45] @ [0]) 0 (word_of_nat (length [0x45 :: u8])) (vmIP_v4 0) st1 = Ret st2 \<and>
     hs_pushed st2 = hs_pushed ?st @ msg_packets env ?its @ msg_packets env ?its" for env
    using inv p by (intro hep_message_delivered_twice [OF inv(1) _ hep_example_msg(1) _ _ _ _ _ _ _ _ p]) (simp_all add: hep_example_msg hep_begins_def)
  then have "\<forall>env. \<exists>st1 st2. processData 5 env ([3, 0x48] @ [0]) 0 2 (vmIP_v4 0) ?st = Ret st1 \<and>
     processData 5 env ([0x45] @ [0]) 0 1 (vmIP_v4 0) st1 = Ret st2 \<and> hs_pushed st2 = msg_packets env ?its @ msg_packets env ?its" by simp
  then show ?thesis by metis
qed

text \<open>A message whose length field is 0 (and whose first chunk length is 0) makes \<open>processData\<close> run forever: the loop
  of \<open>processHeps\<close> advances by the length field, so no amount of steps is enough.\<close>

theorem hep_zero_length_diverges:
  assumes "2 \<le> length rest" and "6 < n" and "n < 2 ^ 32"
  shows "processData fuel env ([0x48, 0x45, 0x50, 0x33, 0, 0] @ [a, b, c, d, 0, 0] @ rest) 0 (word_of_nat n) ip st = OutOfFuel"
proof -
  let ?m = "[0x48, 0x45, 0x50, 0x33, 0, 0] @ [a, b, c, d, 0, 0] @ rest"
  have ge: "(word_of_nat n :: u64) \<ge> 4" "(word_of_nat n :: u64) \<ge> 6" using assms(2,3) by (simp_all add: word_le_nat_alt unat_word_of_nat)
  have bg: "isBeginHep ?m 0 (word_of_nat n) = Ret True" using ge by (simp add: isBeginHep_def ld8_def)
  have "omap (\<lambda>w. ntohs (ucast w)) (ld32 ?m (0 + 4)) = Ret (word_of_nat 0 :: u16)" by (intro ld32_be16) (simp_all add: be16_def)
  then have "isCompleteHep ?m 0 (word_of_nat n) = Ret True" using bg ge by (simp add: isCompleteHep_def hepLength_def)
  moreover have "processHeps fuel env ?m 0 (word_of_nat n) ip st' = OutOfFuel" for st'
    using heps_loop_zero [OF refl refl assms] by (cases fuel) (auto simp: processHeps_def)
  ultimately show ?thesis using bg by (simp only: processData_def obind.simps if_True Let_def)
qed

theorem hep_zero_length_diverges_witness:
  "\<forall>fuel env. processData fuel env [0x48, 0x45, 0x50, 0x33, 0, 0, 0, 0, 0, 0, 0, 0, 0, 0] 0 14 (vmIP_v4 1)
     \<lparr>hs_buffer = sb_new 0, hs_counter = [], hs_pushed = []\<rparr> = OutOfFuel"
  using hep_zero_length_diverges [of "[0, 0]" 14 _ _ 0 0 0 0 "vmIP_v4 1"] by simp

text \<open>A payload chunk with the length field 4 or 5 (less than its header) is taken to have a payload of almost 4 GB: the
  payload length wraps, and copying it leaves any received data.\<close>

theorem hep_short_chunk_overrun:
  assumes "drop p m = be16 vendor @ be16 15 @ be16 l @ rest" and "l = 4 \<or> l = 5" and "2 \<le> length rest" and "length m < 2 ^ 32 - 2"
    and "6 < n" and "n < 2 ^ 32"
  shows "processChunks (Suc fuel) env m p (word_of_nat n) (sHEP_Data_new u) = OutOfBounds"
proof -
  have lm: "p + 8 \<le> length m" using arg_cong [OF assms(1), of length] assms(3) by simp
  have ge: "(word_of_nat n :: u64) \<ge> 6" using assms(5,6) by (simp add: word_le_nat_alt unat_word_of_nat)
  have t: "take 2 (drop (p + 2) m) = be16 15" "take 2 (drop (p + 4) m) = be16 l"
    using arg_cong [OF assms(1), of "drop 2"] arg_cong [OF assms(1), of "drop 4"] by (simp_all add: add.commute be16_def)
  have len: "chunkLength m p (word_of_nat n) = Ret (word_of_nat l)"
    using ld32_be16 [OF t(2)] lm assms(2) ge by (auto simp: chunkLength_def)
  have ty: "chunkType m p (word_of_nat l) = Ret 15" using ld32_be16 [OF t(1)] lm assms(2) by (auto simp: chunkType_def)
  have guard: "(0 :: u64) < word_of_nat n - 6" using loop_guard [of 0 n] assms(5,6) by simp
  have le: "\<not> (word_of_nat n :: u64) < word_of_nat l" using assms(2,5,6) by (subst word_of_nat_less_iff) auto
  have pl: "unat (ucast (word_of_nat l - 6 :: u64) :: u32) = 2 ^ 32 - 6 + l"
    using assms(2) by (auto simp: unsigned_ucast_eq unsigned_minus_1_eq_mask mask_eq_exp_minus_1 take_bit_eq_mod)
  then have nz: "(ucast (word_of_nat l - 6 :: u64) :: u32) \<noteq> 0" using assms(2) by auto
  have "ldn (unat (ucast (word_of_nat l - 6 :: u64) :: u32)) (drop (p + 6) m) 0 = OutOfBounds"
    unfolding pl using assms(2,4) by (auto simp: ldn_def)
  then have "sb_add g (Some (drop (p + 6) m)) (ucast (word_of_nat l - 6 :: u64)) (captured_packet_payload (sHEP_Data_new u)) = OutOfBounds" for g
    using nz by (simp add: sb_add_def sHEP_Data_new_def sb_new_def Let_def)
  then have pc: "processChunk env m p (word_of_nat l) (sHEP_Data_new u) = OutOfBounds"
    using ty by (simp add: processChunk_def processChunk_meta_def bin_field_def Let_def)
  have "ucast (word_of_nat l :: u16) = (word_of_nat l :: u64)" "(word_of_nat l :: u16) \<noteq> 0" using assms(2) by auto
  then show ?thesis using guard len le pc by (simp add: processChunks_def)
qed

theorem hep_short_chunk_overrun_witness:
  "\<forall>env. processChunks 3 env [0, 0, 0, 15, 0, 4, 0, 0, 0, 0] 0 10 (sHEP_Data_new (stack_garbage env)) = OutOfBounds"
  using hep_short_chunk_overrun [of 0 "[0, 0, 0, 15, 0, 4, 0, 0, 0, 0]" 0 4 "[0, 0, 0, 0]" 10 2] by (simp add: be16_def numeral_3_eq_3)

section \<open>The counter of messages\<close>

lemma get_sum_counter_sum: "get_sum_counter c = sum_list (map snd c)"
proof -
  have "fold (\<lambda>e sum. sum + snd e) c a = a + sum_list (map snd c)" for a :: u64
    by (induction c arbitrary: a) (auto simp: ac_simps)
  then show ?thesis by (simp add: get_sum_counter_def)
qed

text \<open>Counting a message raises the sum over all senders by one (modulo the 64 bits of the counters).\<close>

lemma sum_counter_inc: "get_sum_counter (hep_counter_inc ip c) = get_sum_counter c + 1"
proof -
  have "sum_list (map snd (map_put vmIP_lt ip ((case map_find vmIP_lt ip c of None \<Rightarrow> 0 | Some n \<Rightarrow> n) + 1) c)) = sum_list (map snd c) + 1"
    by (induction c) (auto simp: ac_simps)
  then show ?thesis by (simp add: get_sum_counter_sum hep_counter_inc_def)
qed

end
