(* ===== verification/VM_Link.thy ===== *)
theory VM_Link
  imports VM_IpHeader
begin

text \<open>
  The link layer of a captured frame (\<open>parseEtherHeader\<close> of \<open>sniff_inline.cpp\<close>) and the length of the data of
  a transport packet (\<open>get_udp_data_len\<close>, \<open>get_tcp_data_len\<close>, \<open>get_sctp_data_len\<close>). The code walks over
  VLAN tags and MPLS labels without a bound; the loops take fuel, a read outside the captured bytes is
  \<open>OutOfBounds\<close>. Offsets are 16-bit words that wrap, as \<open>header_ip_offset\<close> does.
\<close>

section \<open>Link layer\<close>

datatype dlt = DLT_LINUX_SLL | DLT_LINUX_SLL2 | DLT_ATM_RFC1483 | DLT_EN10MB | DLT_RAW | DLT_IEEE802_11_RADIO
  | DLT_MTP2_WITH_PHDR | DLT_MTP2 | DLT_NULL | DLT_other

abbreviation (input) "ETHERTYPE_IP \<equiv> (0x0800 :: u16)"
abbreviation (input) "ETHERTYPE_IPV6 \<equiv> (0x86DD :: u16)"
abbreviation (input) "VLAN_NOSET \<equiv> (0xFFFE :: u16)"

text \<open>The sizes of \<open>ether_header\<close>, \<open>sll_header\<close> and \<open>sll2_header\<close>.\<close>

abbreviation (input) "ETHER_SIZE \<equiv> (14 :: nat)"
abbreviation (input) "SLL_SIZE \<equiv> (16 :: nat)"
abbreviation (input) "SLL2_SIZE \<equiv> (20 :: nat)"

record link_hdr =
  lk_eth :: "nat option"
  lk_ppp_o_e :: "nat option"
  lk_ip_offset :: u16
  lk_protocol :: u16
  lk_vlan :: u16

definition ldbe16 :: "mem \<Rightarrow> nat \<Rightarrow> u16 outcome" where
  "ldbe16 m p = omap ntohs (ld16 m p)"

text \<open>The loop over VLAN tags: the identifier of the last tag, the protocol behind it and the offset.\<close>

fun vlan_loop :: "nat \<Rightarrow> mem \<Rightarrow> nat \<Rightarrow> u16 \<Rightarrow> (u16 \<times> u16 \<times> u16) outcome" where
  "vlan_loop 0 m base off = OutOfFuel"
| "vlan_loop (Suc k) m base off =
     obind (ldbe16 m (base + unat off)) (\<lambda>tag. obind (ldbe16 m (base + unat off + 2)) (\<lambda>protocol.
       if protocol = 0x8100 then vlan_loop k m base (off + 4)
       else Ret (tag AND 0xFFF, protocol, off + 4)))"

fun mpls_loop :: "nat \<Rightarrow> mem \<Rightarrow> nat \<Rightarrow> u16 \<Rightarrow> u16 outcome" where
  "mpls_loop 0 m base off = OutOfFuel"
| "mpls_loop (Suc k) m base off =
     obind (ld8 m (base + unat off + 2)) (\<lambda>b.
       if b AND 1 = 0 then mpls_loop k m base (off + 4) else Ret (off + 4))"

text \<open>The switch on the ethernet type: whether VLAN tags follow, the offset, the protocol and the PPPoE header.
  For a plain VLAN frame the protocol is set later.\<close>

definition eth_switch :: "nat \<Rightarrow> mem \<Rightarrow> nat \<Rightarrow> u16 \<Rightarrow> (bool \<times> u16 \<times> u16 \<times> nat option) outcome" where
  "eth_switch fuel m base ether_type =
     (if ether_type = 0x8100 then Ret (True, 0, 0, None)
      else if ether_type = 0x88A8 then omap (\<lambda>p. (p = 0x8100, 4, p, None)) (ldbe16 m (base + 2))
      else if ether_type = 0x8926 then omap (\<lambda>p. (p = 0x8100, 6, p, None)) (ldbe16 m (base + 4))
      else if ether_type = 0x8864 then
        omap (\<lambda>p. if p = 0x0021 then (False, 8, ETHERTYPE_IP, Some base) else (False, 0, 0, None)) (ldbe16 m (base + 6))
      else if ether_type = 0x8847 then omap (\<lambda>off. (False, off, ETHERTYPE_IP, None)) (mpls_loop fuel m base 0)
      else Ret (False, 0, ether_type, None))"

definition eth_vlan :: "nat \<Rightarrow> mem \<Rightarrow> nat \<Rightarrow> u16 \<Rightarrow> nat option \<Rightarrow> (u16 \<times> u16 \<times> u16 \<times> nat option) outcome" where
  "eth_vlan fuel m base off ppp =
     obind (vlan_loop fuel m base off) (\<lambda>(vlan, protocol, off).
       if protocol = 0x8864 then
         omap (\<lambda>p. if p = 0x0021 then (vlan, off + 8, ETHERTYPE_IP, Some (base + unat off)) else (vlan, off, protocol, ppp))
           (ldbe16 m (base + unat off + 6))
       else Ret (vlan, off, protocol, ppp))"

definition parse_ethernet :: "nat \<Rightarrow> mem \<Rightarrow> nat \<Rightarrow> link_hdr outcome" where
  "parse_ethernet fuel m link =
     obind (ldbe16 m (link + 12)) (\<lambda>ether_type.
       let link = (if ether_type = 0x8903 then link + 20 else link); base = link + ETHER_SIZE in
       obind (ldbe16 m (link + 12)) (\<lambda>ether_type.
         obind (eth_switch fuel m base ether_type) (\<lambda>(exists_vlan, off, protocol, ppp).
           omap (\<lambda>(vlan, off, protocol, ppp).
               \<lparr>lk_eth = Some link, lk_ppp_o_e = ppp, lk_ip_offset = off + word_of_nat base, lk_protocol = protocol, lk_vlan = vlan\<rparr>)
             (if exists_vlan then eth_vlan fuel m base off ppp else Ret (VLAN_NOSET, off, protocol, ppp)))))"

text \<open>Linux cooked captures. The VLAN tags are looked for behind a header of the first version in both cases.\<close>

definition parse_sll :: "nat \<Rightarrow> mem \<Rightarrow> bool \<Rightarrow> link_hdr outcome" where
  "parse_sll fuel m v2 =
     obind (ldbe16 m (if v2 then 0 else 14)) (\<lambda>protocol.
       omap (\<lambda>(vlan, protocol, off).
           \<lparr>lk_eth = None, lk_ppp_o_e = None, lk_ip_offset = off + word_of_nat (if v2 then SLL2_SIZE else SLL_SIZE),
            lk_protocol = protocol, lk_vlan = vlan\<rparr>)
         (if protocol = 0x8100 then vlan_loop fuel m SLL_SIZE 0 else Ret (VLAN_NOSET, protocol, 0)))"

definition link_fixed :: "u16 \<Rightarrow> u16 \<Rightarrow> link_hdr" where
  "link_fixed off protocol = \<lparr>lk_eth = None, lk_ppp_o_e = None, lk_ip_offset = off, lk_protocol = protocol, lk_vlan = VLAN_NOSET\<rparr>"

text \<open>\<open>None\<close> is the result false.\<close>

definition parseEtherHeader :: "nat \<Rightarrow> dlt \<Rightarrow> mem \<Rightarrow> link_hdr option outcome" where
  "parseEtherHeader fuel d m =
     (case d of
        DLT_LINUX_SLL \<Rightarrow> omap Some (parse_sll fuel m False)
      | DLT_LINUX_SLL2 \<Rightarrow> omap Some (parse_sll fuel m True)
      | DLT_ATM_RFC1483 \<Rightarrow> omap Some (parse_ethernet fuel m 10)
      | DLT_EN10MB \<Rightarrow> omap Some (parse_ethernet fuel m 0)
      | DLT_RAW \<Rightarrow> Ret (Some (link_fixed 0 ETHERTYPE_IP))
      | DLT_IEEE802_11_RADIO \<Rightarrow> Ret (Some (link_fixed 52 ETHERTYPE_IP))
      | DLT_MTP2_WITH_PHDR \<Rightarrow> Ret (Some (link_fixed 0xFFFF 0))
      | DLT_MTP2 \<Rightarrow> Ret (Some (link_fixed 0xFFFF 0))
      | DLT_NULL \<Rightarrow> Ret (Some (link_fixed 4 ETHERTYPE_IP))
      | DLT_other \<Rightarrow> Ret None)"

section \<open>Data of a transport packet\<close>

text \<open>The position of the data and its length. \<open>ip\<close> is the position of the IP header, \<open>hdr\<close> of the transport
  header; the protocol for \<open>get_footer_size\<close> is the one \<open>get_hdr_size\<close> stored.\<close>

definition ip_payload_len :: "mem \<Rightarrow> nat \<Rightarrow> u32 outcome" where
  "ip_payload_len m ip =
     obind (iph_get_tot_len m ip) (\<lambda>tot_len. obind (iph_get_hdr_size m ip) (\<lambda>(size, proto).
       omap (\<lambda>footer. tot_len - ucast size - ucast footer)
         (iph_get_footer_size (case proto of Some p \<Rightarrow> p | None \<Rightarrow> 0) m ip)))"

definition get_udp_data_len :: "mem \<Rightarrow> nat \<Rightarrow> nat \<Rightarrow> u32 \<Rightarrow> (nat \<times> u32) outcome" where
  "get_udp_data_len m ip hdr caplen =
     obind (ip_payload_len m ip) (\<lambda>n. omap (\<lambda>len.
       (hdr + 8, min (n - 8) (min (ucast len - 8) (caplen - word_of_nat (hdr + 8))))) (ldbe16 m (hdr + 4)))"

definition get_tcp_header_len :: "mem \<Rightarrow> nat \<Rightarrow> nat outcome" where
  "get_tcp_header_len m hdr = omap (\<lambda>b. unat (drop_bit 4 b) * 4) (ld8 m (hdr + 12))"

definition get_tcp_data_len :: "mem \<Rightarrow> nat \<Rightarrow> nat \<Rightarrow> u32 \<Rightarrow> (nat \<times> u32) outcome" where
  "get_tcp_data_len m ip hdr caplen =
     obind (get_tcp_header_len m hdr) (\<lambda>l. omap (\<lambda>n.
       (hdr + l, min (n - word_of_nat l) (caplen - word_of_nat (hdr + l)))) (ip_payload_len m ip))"

definition get_sctp_data_len :: "mem \<Rightarrow> nat \<Rightarrow> u32 \<Rightarrow> (nat \<times> u32) outcome" where
  "get_sctp_data_len m ip caplen =
     obind (iph_get_hdr_size m ip) (\<lambda>(size, _). omap (\<lambda>tot_len.
       (ip + unat size + 12, min (tot_len - ucast size - 12) (caplen - word_of_nat (ip + unat size + 12)))) (iph_get_tot_len m ip))"


section \<open>Stacked VLAN tags\<close>

text \<open>The bytes behind the ethernet header of a frame with the tags \<open>ts\<close> and the protocol \<open>proto\<close>: every tag is followed
  by the type of what comes next.\<close>

fun vlan_bytes :: "u16 list \<Rightarrow> u16 \<Rightarrow> mem" where
  "vlan_bytes [] proto = []"
| "vlan_bytes [t] proto = be_bytes 2 t @ be_bytes 2 proto"
| "vlan_bytes (t # t' # ts) proto = be_bytes 2 t @ be_bytes 2 (0x8100 :: u16) @ vlan_bytes (t' # ts) proto"

lemma ldbe16_be:
  assumes "drop p m = be_bytes 2 (w :: u16) @ rest"
  shows "ldbe16 m p = Ret w"
proof -
  have "length m = p + 2 + length rest" using arg_cong [OF assms, of length] by (cases "p \<le> length m") auto
  then show ?thesis using assms by (simp add: ldbe16_def mem_simps be_bytes_read)
qed

lemma length_vlan_bytes: "length (vlan_bytes ts proto) = 4 * length ts"
  by (induction ts proto rule: vlan_bytes.induct) auto

lemma vlan_loop_tags:
  assumes "drop (base + n) m = vlan_bytes ts proto @ rest" and "ts \<noteq> []" and "proto \<noteq> 0x8100" and "n + 4 * length ts < 65536" and "length ts \<le> fuel"
  shows "vlan_loop fuel m base (word_of_nat n) = Ret (last ts AND 0xFFF, proto, word_of_nat (n + 4 * length ts))"
  using assms
proof (induction ts proto arbitrary: n fuel rule: vlan_bytes.induct)
  case (2 t proto)
  obtain k where k: "fuel = Suc k" using "2.prems"(5) by (cases fuel) auto
  have u: "unat (word_of_nat n :: u16) = n" using "2.prems"(4) by (simp add: unat_word_of_nat)
  have "drop (base + n + 2) m = be_bytes 2 proto @ rest" by (rule drop_step [where xs = "be_bytes 2 t"]) (use "2.prems"(1) in simp_all)
  then have "ldbe16 m (base + n) = Ret t" "ldbe16 m (base + n + 2) = Ret proto"
    using "2.prems"(1) by (auto intro!: ldbe16_be)
  then show ?case using k u "2.prems"(3) by simp
next
  case (3 t t' ts proto)
  obtain k where k: "fuel = Suc k" using "3.prems"(5) by (cases fuel) auto
  have u: "unat (word_of_nat n :: u16) = n" using "3.prems"(4) by (simp add: unat_word_of_nat)
  have d: "drop (base + n + 2) m = be_bytes 2 (0x8100 :: u16) @ vlan_bytes (t' # ts) proto @ rest"
    by (rule drop_step [where xs = "be_bytes 2 t"]) (use "3.prems"(1) in simp_all)
  then have r: "ldbe16 m (base + n) = Ret t" "ldbe16 m (base + n + 2) = Ret 0x8100"
    using "3.prems"(1) by (auto intro!: ldbe16_be)
  have "drop (base + n + 2 + 2) m = vlan_bytes (t' # ts) proto @ rest" by (rule drop_step [OF d]) simp
  moreover have "base + (n + 4) = base + n + 2 + 2" by simp
  ultimately have "drop (base + (n + 4)) m = vlan_bytes (t' # ts) proto @ rest" by (simp only:)
  from "3.IH" [OF this] have "vlan_loop k m base (word_of_nat (n + 4)) = Ret (last (t' # ts) AND 0xFFF, proto, word_of_nat (n + 4 + 4 * length (t' # ts)))"
    using "3.prems" k by simp
  moreover have "vlan_loop fuel m base (word_of_nat n) = vlan_loop k m base (word_of_nat (n + 4))" using k u r by simp
  moreover have "n + 4 + 4 * length (t' # ts) = n + 4 * length (t # t' # ts)" by simp
  ultimately show ?case by (simp only: last.simps list.distinct if_False)
qed simp

lemma vlan_loop_endless:
  assumes "drop (base + n) m = concat (replicate j (be_bytes 2 (t :: u16) @ be_bytes 2 (0x8100 :: u16)))" and "n + 4 * j < 65536" and "base + n \<le> length m" and "j < fuel"
  shows "vlan_loop fuel m base (word_of_nat n) = OutOfBounds"
  using assms
proof (induction j arbitrary: n fuel)
  case 0
  then obtain k where k: "fuel = Suc k" by (cases fuel) auto
  have "unat (word_of_nat n :: u16) = n" using 0 by (simp add: unat_word_of_nat)
  moreover have "ldbe16 m (base + n) = OutOfBounds" using 0 by (simp add: ldbe16_def ld16_def ldn_def)
  ultimately show ?case using k by simp
next
  case (Suc j)
  obtain k where k: "fuel = Suc k" using Suc.prems(4) by (cases fuel) auto
  have u: "unat (word_of_nat n :: u16) = n" using Suc.prems(2) by (simp add: unat_word_of_nat)
  have d: "drop (base + n) m = be_bytes 2 t @ be_bytes 2 (0x8100 :: u16) @ concat (replicate j (be_bytes 2 (t :: u16) @ be_bytes 2 (0x8100 :: u16)))" using Suc.prems(1) by simp
  have d2: "drop (base + n + 2) m = be_bytes 2 (0x8100 :: u16) @ concat (replicate j (be_bytes 2 (t :: u16) @ be_bytes 2 (0x8100 :: u16)))"
    by (rule drop_step [OF d]) simp
  have r: "ldbe16 m (base + n) = Ret t" "ldbe16 m (base + n + 2) = Ret 0x8100" using d d2 by (auto intro!: ldbe16_be)
  have e: "base + (n + 4) = base + n + 2 + 2" by simp
  have d4: "drop (base + (n + 4)) m = concat (replicate j (be_bytes 2 (t :: u16) @ be_bytes 2 (0x8100 :: u16)))" unfolding e by (rule drop_step [OF d2]) simp
  have "length (drop (base + n) m) \<ge> 4" unfolding d by simp
  then have "base + (n + 4) \<le> length m" by simp
  then have "vlan_loop k m base (word_of_nat (n + 4)) = OutOfBounds" using Suc.prems(2,4) k by (intro Suc.IH [OF d4]) auto
  moreover have "vlan_loop fuel m base (word_of_nat n) = vlan_loop k m base (word_of_nat (n + 4))" using k u r by simp
  ultimately show ?case by (simp only:)
qed

section \<open>Properties\<close>

text \<open>\<open>parseEtherHeader\<close> on an ethernet frame with any number of stacked VLAN tags: the IP offset is behind all the tags, the
  protocol is the one behind the last tag and the VLAN is the identifier of the last tag.\<close>

theorem parse_vlan_stack:
  assumes "m = macs @ be_bytes 2 (0x8100 :: u16) @ vlan_bytes ts proto @ rest" and "length macs = 12"
    and "ts \<noteq> []" and "proto \<noteq> 0x8100" "proto \<noteq> 0x8864" and "length ts < 16000" and "length ts \<le> fuel"
  shows "parseEtherHeader fuel DLT_EN10MB m = Ret (Some \<lparr>lk_eth = Some 0, lk_ppp_o_e = None,
     lk_ip_offset = word_of_nat (14 + 4 * length ts), lk_protocol = proto, lk_vlan = last ts AND 0xFFF\<rparr>)"
proof -
  have "drop (0 + 12) m = be_bytes 2 (0x8100 :: u16) @ vlan_bytes ts proto @ rest" "drop (14 + 0) m = vlan_bytes ts proto @ rest"
    using assms(1,2) by simp_all
  note d = this
  have "ldbe16 m (0 + 12) = Ret 0x8100" by (rule ldbe16_be [OF d(1)])
  moreover have "vlan_loop fuel m 14 (word_of_nat 0) = Ret (last ts AND 0xFFF, proto, word_of_nat (0 + 4 * length ts))"
    using assms(6,7) by (intro vlan_loop_tags [OF d(2) assms(3,4)]) auto
  ultimately show ?thesis using assms(5) by (simp add: parseEtherHeader_def parse_ethernet_def eth_switch_def eth_vlan_def Let_def)
qed

theorem parse_vlan_stack_witness:
  "parseEtherHeader 5 DLT_EN10MB [1,2,3,4,5,6,7,8,9,10,11,12, 0x81,0x00, 0x00,0x05, 0x81,0x00, 0x20,0x07, 0x08,0x00, 0x45] =
     Ret (Some \<lparr>lk_eth = Some 0, lk_ppp_o_e = None, lk_ip_offset = 22, lk_protocol = 0x0800, lk_vlan = 7\<rparr>)"
proof -
  have "[1,2,3,4,5,6,7,8,9,10,11,12, 0x81,0x00, 0x00,0x05, 0x81,0x00, 0x20,0x07, 0x08,0x00, 0x45] =
      [1,2,3,4,5,6,7,8,9,10,11,12 :: u8] @ be_bytes 2 (0x8100 :: u16) @ vlan_bytes [0x0005, 0x2007] 0x0800 @ [0x45]"
    by (simp add: be_bytes_def word_le_def)
  from parse_vlan_stack [OF this, of 5] show ?thesis by simp
qed

text \<open>No bound stops the loop: a frame that ends inside a stack of VLAN tags is read behind its end.\<close>

lemma parse_vlan_overrun:
  assumes "m = macs @ be_bytes 2 (0x8100 :: u16) @ concat (replicate j (be_bytes 2 (t :: u16) @ be_bytes 2 (0x8100 :: u16)))" and "length macs = 12"
    and "j < 16000" and "j < fuel"
  shows "parseEtherHeader fuel DLT_EN10MB m = OutOfBounds"
proof -
  have d: "drop (0 + 12) m = be_bytes 2 (0x8100 :: u16) @ concat (replicate j (be_bytes 2 (t :: u16) @ be_bytes 2 (0x8100 :: u16)))"
    "drop (14 + 0) m = concat (replicate j (be_bytes 2 (t :: u16) @ be_bytes 2 (0x8100 :: u16)))"
    using assms(1,2) by simp_all
  have "ldbe16 m (0 + 12) = Ret 0x8100" by (rule ldbe16_be [OF d(1)])
  moreover have "vlan_loop fuel m 14 (word_of_nat 0) = OutOfBounds" using assms by (intro vlan_loop_endless [OF d(2)]) auto
  ultimately show ?thesis by (simp add: parseEtherHeader_def parse_ethernet_def eth_switch_def eth_vlan_def Let_def)
qed

text \<open>A version 2 cooked capture with a VLAN tag is read at the wrong place: the tag is looked for 16 bytes into the frame, in
  the sender's address and its padding, although the header has 20 bytes.\<close>

lemma sll2_vlan_misread:
  assumes "ldbe16 m 0 = Ret 0x8100" and "ldbe16 m 16 = Ret x" and "ldbe16 m 18 = Ret y" and "y \<noteq> 0x8100"
  shows "parseEtherHeader (Suc k) DLT_LINUX_SLL2 m =
     Ret (Some \<lparr>lk_eth = None, lk_ppp_o_e = None, lk_ip_offset = 24, lk_protocol = y, lk_vlan = x AND 0xFFF\<rparr>)"
  using assms by (simp add: parseEtherHeader_def parse_sll_def)

end
