(* ===== verification/VM_SimplePacket.thy ===== *)
theory VM_SimplePacket
  imports VM_Link VM_IpKeys VM_SimpleBuffer
begin

text \<open>
  Frames the sniffer builds itself around data it has received by other means (HEP, IPFIX, decrypted or reassembled
  streams): \<open>createSimpleUdpDataPacket\<close> and \<open>createSimpleTcpDataPacket\<close> of \<open>tools.cpp\<close>. The headers are
  written with the setters of \<open>iphdr2\<close>, \<open>ip6hdr2\<close>, \<open>udphdr2\<close> and \<open>tcphdr2\<close>, the frame is a fresh array with
  arbitrary bytes (\<open>g\<close>) into which the parts are copied.
\<close>

record pcap_pkthdr =
  ph_sec :: u32
  ph_usec :: u32
  ph_caplen :: u32
  ph_len :: u32

section \<open>Headers\<close>

definition simple_ip4_header :: "u8 \<Rightarrow> vmIP \<Rightarrow> vmIP \<Rightarrow> u32 \<Rightarrow> mem outcome" where
  "simple_ip4_header proto saddr daddr tot_len =
     (let h = [0x45, 0, 0, 0, 0, 0, 0, 0, 0, proto, 0, 0, 0, 0, 0, 0, 0, 0, 0, 0] in
      obind (iph_set_saddr saddr h 0) (\<lambda>h. obind (iph_set_daddr daddr h 0) (\<lambda>h.
        obind (iph_set_tot_len tot_len h 0) (\<lambda>h. stn h 8 [50]))))"

definition simple_ip6_header :: "u8 \<Rightarrow> vmIP \<Rightarrow> vmIP \<Rightarrow> u32 \<Rightarrow> mem outcome" where
  "simple_ip6_header proto saddr daddr tot_len =
     (let h = [0x60, 0, 0, 0, 0, 0, proto, 0, 0, 0, 0, 0, 0, 0, 0, 0, 0, 0, 0, 0,
               0, 0, 0, 0, 0, 0, 0, 0, 0, 0, 0, 0, 0, 0, 0, 0, 0, 0, 0, 0] in
      obind (ip6_set_saddr saddr h 0) (\<lambda>h. obind (ip6_set_daddr daddr h 0) (\<lambda>h. ip6_set_tot_len tot_len h 0)))"

definition simple_ip_header :: "bool \<Rightarrow> u8 \<Rightarrow> vmIP \<Rightarrow> vmIP \<Rightarrow> u32 \<Rightarrow> mem outcome" where
  "simple_ip_header is_v6 proto saddr daddr tot_len =
     (if is_v6 then simple_ip6_header proto saddr daddr tot_len else simple_ip4_header proto saddr daddr tot_len)"

text \<open>The ethernet type of the copied link header is adapted to the version of the source address.\<close>

definition fix_ether_type :: "bool \<Rightarrow> mem \<Rightarrow> mem outcome" where
  "fix_ether_type is_v6 pk =
     obind (ldbe16 pk 12) (\<lambda>t.
       if is_v6 then (if t = ETHERTYPE_IP then stn pk 12 (be_bytes 2 ETHERTYPE_IPV6) else Ret pk)
       else (if t = ETHERTYPE_IPV6 then stn pk 12 (be_bytes 2 ETHERTYPE_IP) else Ret pk))"

definition simple_udp_header :: "vmPort \<Rightarrow> vmPort \<Rightarrow> u32 \<Rightarrow> mem outcome" where
  "simple_udp_header sport dport len =
     obind (udp_set_source (port_val sport) [0, 0, 0, 0, 0, 0, 0, 0] 0) (\<lambda>h.
       obind (udp_set_dest (port_val dport) h 0) (\<lambda>h. stn h 4 (be_bytes 2 (ucast len :: u16))))"

text \<open>The data offset of 8 words stands in the upper half of byte 12; without given flags only \<open>ack\<close> is set.\<close>

definition simple_tcp_header :: "vmPort \<Rightarrow> vmPort \<Rightarrow> u32 \<Rightarrow> u32 \<Rightarrow> u8 \<Rightarrow> mem outcome" where
  "simple_tcp_header sport dport seq ack_seq flags =
     obind (tcp_set_source (port_val sport) [0, 0, 0, 0, 0, 0, 0, 0, 0, 0, 0, 0, 0, 0, 0, 0, 0, 0, 0, 0] 0) (\<lambda>h.
       obind (tcp_set_dest (port_val dport) h 0) (\<lambda>h. obind (stn h 4 (be_bytes 4 seq)) (\<lambda>h.
         obind (stn h 8 (be_bytes 4 ack_seq)) (\<lambda>h. obind (stn h 12 [0x80, if flags \<noteq> 0 then flags else 0x10]) (\<lambda>h.
           stn h 14 (be_bytes 2 (0x8000 :: u16)))))))"

definition tcp_options :: mem where
  "tcp_options = [1, 1, 8, 10, 0, 0, 0, 0, 0, 0, 0, 0]"

section \<open>Frames\<close>

text \<open>The link header and the IP header in a fresh array.\<close>

definition simple_frame :: "(nat \<Rightarrow> u8) \<Rightarrow> u32 \<Rightarrow> u32 \<Rightarrow> mem \<Rightarrow> bool \<Rightarrow> u8 \<Rightarrow> vmIP \<Rightarrow> vmIP \<Rightarrow> u32 \<Rightarrow> mem outcome" where
  "simple_frame g packet_length ether_len source_packet is_v6 proto saddr daddr tot_len =
     obind (ldn (unat ether_len) source_packet 0) (\<lambda>eth.
       obind (stn (new_array g packet_length) 0 eth) (\<lambda>pk. obind (fix_ether_type is_v6 pk) (\<lambda>pk.
         obind (simple_ip_header is_v6 proto saddr daddr tot_len) (\<lambda>h. stn pk (unat ether_len) h))))"

definition iphdr_size :: "bool \<Rightarrow> u32" where
  "iphdr_size is_v6 = (if is_v6 then 40 else 20)"

definition createSimpleUdpDataPacket :: "(nat \<Rightarrow> u8) \<Rightarrow> u32 \<Rightarrow> mem \<Rightarrow> mem \<Rightarrow> u32 \<Rightarrow> u32 \<Rightarrow> vmIP \<Rightarrow> vmIP \<Rightarrow> vmPort \<Rightarrow> vmPort \<Rightarrow> u32 \<Rightarrow> u32 \<Rightarrow>
    (pcap_pkthdr \<times> mem) outcome" where
  "createSimpleUdpDataPacket g ether_len source_packet data datalen hdrs_datalen saddr daddr sport dport sec usec =
     (let hdrs_datalen = (if hdrs_datalen = 0 then datalen else hdrs_datalen);
          v = vmIP_is_v6 saddr;
          packet_length = ether_len + iphdr_size v + 8 + datalen;
          packet_length_hdr = ether_len + iphdr_size v + 8 + hdrs_datalen;
          off = unat ether_len + unat (iphdr_size v) in
      obind (simple_frame g packet_length ether_len source_packet v 17 saddr daddr (iphdr_size v + 8 + hdrs_datalen)) (\<lambda>pk.
        obind (simple_udp_header sport dport (8 + hdrs_datalen)) (\<lambda>h. obind (stn pk off h) (\<lambda>pk.
          obind (ldn (unat datalen) data 0) (\<lambda>bs.
            omap (\<lambda>pk. (\<lparr>ph_sec = sec, ph_usec = usec, ph_caplen = packet_length, ph_len = packet_length_hdr\<rparr>, pk))
              (stn pk (off + 8) bs))))))"

text \<open>With a longer link header the PPPoE length is corrected when there is one.\<close>

definition fix_pppoe :: "nat \<Rightarrow> dlt \<Rightarrow> u32 \<Rightarrow> u32 \<Rightarrow> mem \<Rightarrow> mem outcome" where
  "fix_pppoe fuel d ether_len len pk =
     (if ether_len > 14 then
        obind (parseEtherHeader fuel d pk) (\<lambda>r.
          case r of None \<Rightarrow> Ret pk
          | Some l \<Rightarrow> (case lk_ppp_o_e l of None \<Rightarrow> Ret pk | Some q \<Rightarrow> stn pk (q + 4) (be_bytes 2 (ucast (len + 2) :: u16))))
      else Ret pk)"

definition createSimpleTcpDataPacket :: "(nat \<Rightarrow> u8) \<Rightarrow> nat \<Rightarrow> dlt \<Rightarrow> u32 \<Rightarrow> mem \<Rightarrow> mem \<Rightarrow> u32 \<Rightarrow> u32 \<Rightarrow> vmIP \<Rightarrow> vmIP \<Rightarrow> vmPort \<Rightarrow> vmPort \<Rightarrow>
    u32 \<Rightarrow> u32 \<Rightarrow> u8 \<Rightarrow> u32 \<Rightarrow> u32 \<Rightarrow> (pcap_pkthdr \<times> mem) outcome" where
  "createSimpleTcpDataPacket g fuel d ether_len source_packet data datalen hdrs_datalen saddr daddr sport dport seq ack_seq flags sec usec =
     (let hdrs_datalen = (if hdrs_datalen = 0 then datalen else hdrs_datalen);
          v = vmIP_is_v6 saddr;
          packet_length = ether_len + iphdr_size v + 32 + datalen;
          packet_length_hdr = ether_len + iphdr_size v + 32 + hdrs_datalen;
          off = unat ether_len + unat (iphdr_size v) in
      obind (simple_frame g packet_length ether_len source_packet v 6 saddr daddr (iphdr_size v + 32 + hdrs_datalen)) (\<lambda>pk.
        obind (simple_tcp_header sport dport seq ack_seq flags) (\<lambda>h. obind (stn pk off h) (\<lambda>pk.
          obind (stn pk (off + 20) tcp_options) (\<lambda>pk. obind (ldn (unat datalen) data 0) (\<lambda>bs.
            obind (stn pk (off + 32) bs) (\<lambda>pk.
              omap (\<lambda>pk. (\<lparr>ph_sec = sec, ph_usec = usec, ph_caplen = packet_length, ph_len = packet_length_hdr\<rparr>, pk))
                (fix_pppoe fuel d ether_len (iphdr_size v + 32 + hdrs_datalen) pk))))))))"


section \<open>The bytes of the headers\<close>

lemma word_le_ntoh: "word_le 4 (ntohl x) = be_bytes 4 x" "word_le 2 (ntohs y) = be_bytes 2 y"
  using word_le_le_word [where 'a = 32, of "rev (word_le 4 x)"] word_le_le_word [where 'a = 16, of "rev (word_le 2 y)"]
  by (simp_all add: ntohl_def ntohs_def be_bytes_def)

lemma stn_at: "length A = p \<Longrightarrow> length bs \<le> length B \<Longrightarrow> stn (A @ B) p bs = Ret (A @ bs @ drop (length bs) B)"
  by (auto simp: stn_def)

lemma bytes_2: "length xs = 2 \<Longrightarrow> \<exists>a b. xs = [a, b]" and bytes_4: "length xs = 4 \<Longrightarrow> \<exists>a b c d. xs = [a, b, c, d]"
  by (auto simp: numeral_eq_Suc length_Suc_conv)

lemma simple_ip4_header_bytes:
  "simple_ip4_header proto saddr daddr tot_len =
     Ret ([0x45, 0] @ be_bytes 2 (ucast tot_len :: u16) @ [0, 0, 0, 0, 50, proto, 0, 0] @ be_bytes 4 (addr3 saddr) @ be_bytes 4 (addr3 daddr))"
proof -
  obtain a b c d where s: "be_bytes 4 (addr3 saddr) = [a, b, c, d]" using bytes_4 [OF length_be_bytes] by blast
  obtain e f g h where t: "be_bytes 4 (addr3 daddr) = [e, f, g, h]" using bytes_4 [OF length_be_bytes] by blast
  obtain x y where l: "be_bytes 2 (ucast tot_len :: u16) = [x, y]" using bytes_2 [OF length_be_bytes] by blast
  show ?thesis
    by (simp add: simple_ip4_header_def iph_set_saddr_def iph_set_daddr_def iph_set_tot_len_def iph_if_v4_def iph_version_def ld8_def
        vmIP_getIPv4_def word_le_ntoh stn_def s t l)
qed

lemma simple_ip6_header_bytes:
  "simple_ip6_header proto saddr daddr tot_len =
     Ret ([0x60, 0, 0, 0] @ be_bytes 2 (ucast (tot_len - 40) :: u16) @ [proto, 0] @ in6_bytes (vmIP_getIPv6 False saddr) @ in6_bytes (vmIP_getIPv6 False daddr))"
proof -
  have st: "st_in6 m p (in6_ntohl a) = stn m p (in6_bytes a)" for m p a
    by (cases a) (simp add: st_in6_def in6_ntohl_def in6_bytes_def word_le_ntoh)
  obtain l where l: "be_bytes 2 (ucast (tot_len - 40) :: u16) = l" and len: "length l = 2" by simp
  then show ?thesis by (simp add: simple_ip6_header_def ip6_set_saddr_def ip6_set_daddr_def ip6_set_tot_len_def st word_le_ntoh stn_def)
qed

lemma simple_udp_header_bytes:
  "simple_udp_header sport dport len = Ret (be_bytes 2 (port_val sport) @ be_bytes 2 (port_val dport) @ be_bytes 2 (ucast len :: u16) @ [0, 0])"
proof -
  obtain a b where s: "be_bytes 2 (port_val sport) = [a, b]" using bytes_2 [OF length_be_bytes] by blast
  obtain c d where t: "be_bytes 2 (port_val dport) = [c, d]" using bytes_2 [OF length_be_bytes] by blast
  obtain x y where l: "be_bytes 2 (ucast len :: u16) = [x, y]" using bytes_2 [OF length_be_bytes] by blast
  show ?thesis by (simp add: simple_udp_header_def udp_set_source_def udp_set_dest_def word_le_ntoh stn_def s t l)
qed

lemma simple_tcp_header_bytes:
  "simple_tcp_header sport dport seq ack_seq flags =
     Ret (be_bytes 2 (port_val sport) @ be_bytes 2 (port_val dport) @ be_bytes 4 seq @ be_bytes 4 ack_seq @
          [0x80, if flags \<noteq> 0 then flags else 0x10, 0x80, 0, 0, 0, 0, 0])"
proof -
  obtain a b where s: "be_bytes 2 (port_val sport) = [a, b]" using bytes_2 [OF length_be_bytes] by blast
  obtain c d where t: "be_bytes 2 (port_val dport) = [c, d]" using bytes_2 [OF length_be_bytes] by blast
  obtain x y z u where q: "be_bytes 4 seq = [x, y, z, u]" using bytes_4 [OF length_be_bytes] by blast
  obtain i j k l where r: "be_bytes 4 ack_seq = [i, j, k, l]" using bytes_4 [OF length_be_bytes] by blast
  have w: "be_bytes 2 (0x8000 :: u16) = [0x80, 0]" by (simp add: be_bytes_def word_le_def)
  show ?thesis by (simp add: simple_tcp_header_def tcp_set_source_def tcp_set_dest_def word_le_ntoh stn_def s t q r w)
qed


section \<open>The bytes of the frames\<close>

definition iphdr_bytes :: "bool \<Rightarrow> u8 \<Rightarrow> vmIP \<Rightarrow> vmIP \<Rightarrow> u32 \<Rightarrow> mem" where
  "iphdr_bytes is_v6 proto saddr daddr tot_len =
     (if is_v6 then [0x60, 0, 0, 0] @ be_bytes 2 (ucast (tot_len - 40) :: u16) @ [proto, 0] @
        in6_bytes (vmIP_getIPv6 False saddr) @ in6_bytes (vmIP_getIPv6 False daddr)
      else [0x45, 0] @ be_bytes 2 (ucast tot_len :: u16) @ [0, 0, 0, 0, 50, proto, 0, 0] @ be_bytes 4 (addr3 saddr) @ be_bytes 4 (addr3 daddr))"

definition ether_type_for :: "bool \<Rightarrow> u16 \<Rightarrow> u16" where
  "ether_type_for is_v6 t = (if is_v6 \<and> t = ETHERTYPE_IP then ETHERTYPE_IPV6 else if \<not> is_v6 \<and> t = ETHERTYPE_IPV6 then ETHERTYPE_IP else t)"

lemma simple_ip_header_bytes: "simple_ip_header is_v6 proto saddr daddr tot_len = Ret (iphdr_bytes is_v6 proto saddr daddr tot_len)"
  by (simp add: simple_ip_header_def simple_ip4_header_bytes simple_ip6_header_bytes iphdr_bytes_def)

lemma length_iphdr_bytes: "length (iphdr_bytes is_v6 proto saddr daddr tot_len) = unat (iphdr_size is_v6)"
  by (simp add: iphdr_bytes_def iphdr_size_def)

lemma fix_ether_type_bytes:
  assumes "length macs = 12"
  shows "fix_ether_type is_v6 (macs @ be_bytes 2 t @ rest) = Ret (macs @ be_bytes 2 (ether_type_for is_v6 t) @ rest)"
proof -
  have "ldbe16 (macs @ be_bytes 2 t @ rest) 12 = Ret t" by (rule ldbe16_be) (use assms in simp)
  moreover have "stn (macs @ be_bytes 2 x @ rest) 12 (be_bytes 2 u) = Ret (macs @ be_bytes 2 u @ rest)" for x u :: u16
    using assms by (simp add: stn_at)
  ultimately show ?thesis by (simp add: fix_ether_type_def ether_type_for_def)
qed

lemma simple_frame_bytes:
  assumes "length macs = 12" and "length src = 14 + length tail" and "src = macs @ be_bytes 2 t @ tail" and "length src < 2 ^ 32"
    and "unat packet_length = length src + unat (iphdr_size is_v6) + n"
  shows "\<exists>junk. length junk = n \<and> simple_frame g packet_length (word_of_nat (length src)) (src @ mo) is_v6 proto saddr daddr tot_len =
     Ret (macs @ be_bytes 2 (ether_type_for is_v6 t) @ tail @ iphdr_bytes is_v6 proto saddr daddr tot_len @ junk)"
proof -
  let ?a = "new_array g packet_length"
  have len: "length ?a = length src + unat (iphdr_size is_v6) + n" using assms(5) by (simp add: new_array_def)
  have u: "unat (word_of_nat (length src) :: u32) = length src" using assms(4) by (simp add: unat_word_of_nat)
  have "stn ?a 0 src = Ret (src @ drop (length src) ?a)" using len by (simp add: stn_def)
  moreover have "stn (macs @ be_bytes 2 (ether_type_for is_v6 t) @ tail @ drop (length src) ?a) (length src) (iphdr_bytes is_v6 proto saddr daddr tot_len) =
    Ret ((macs @ be_bytes 2 (ether_type_for is_v6 t) @ tail) @ iphdr_bytes is_v6 proto saddr daddr tot_len @ drop (unat (iphdr_size is_v6)) (drop (length src) ?a))"
    using stn_at [of "macs @ be_bytes 2 (ether_type_for is_v6 t) @ tail" "length src" "iphdr_bytes is_v6 proto saddr daddr tot_len" "drop (length src) ?a"] len assms(1,2)
    by (simp add: length_iphdr_bytes)
  moreover have "fix_ether_type is_v6 (src @ drop (length src) ?a) = Ret (macs @ be_bytes 2 (ether_type_for is_v6 t) @ tail @ drop (length src) ?a)"
    unfolding assms(3) using fix_ether_type_bytes [OF assms(1)] by simp
  ultimately have "simple_frame g packet_length (word_of_nat (length src)) (src @ mo) is_v6 proto saddr daddr tot_len =
      Ret (macs @ be_bytes 2 (ether_type_for is_v6 t) @ tail @ iphdr_bytes is_v6 proto saddr daddr tot_len @ drop (unat (iphdr_size is_v6)) (drop (length src) ?a))"
    by (simp add: simple_frame_def u ldn_def simple_ip_header_bytes)
  then show ?thesis using len by (intro exI [of _ "drop (unat (iphdr_size is_v6)) (drop (length src) ?a)"]) simp
qed

definition udphdr_bytes :: "u16 \<Rightarrow> u16 \<Rightarrow> u32 \<Rightarrow> mem" where
  "udphdr_bytes sport dport len = be_bytes 2 sport @ be_bytes 2 dport @ be_bytes 2 (ucast len :: u16) @ [0, 0]"

definition tcphdr_bytes :: "u16 \<Rightarrow> u16 \<Rightarrow> u32 \<Rightarrow> u32 \<Rightarrow> u8 \<Rightarrow> mem" where
  "tcphdr_bytes sport dport seq ack_seq flags = be_bytes 2 sport @ be_bytes 2 dport @ be_bytes 4 seq @ be_bytes 4 ack_seq @
     [0x80, if flags \<noteq> 0 then flags else 0x10, 0x80, 0, 0, 0, 0, 0] @ tcp_options"

lemma simple_frame_room:
  assumes "length macs = 12" and "src = macs @ be_bytes 2 t @ tail" and "length src + length data < 2 ^ 32 - 100" and "unat hl \<le> 60"
  shows "\<exists>junk. length junk = unat hl + length data \<and>
      simple_frame g (word_of_nat (length src) + iphdr_size v + hl + word_of_nat (length data)) (word_of_nat (length src)) (src @ mo) v proto saddr daddr tot_len =
        Ret (macs @ be_bytes 2 (ether_type_for v t) @ tail @ iphdr_bytes v proto saddr daddr tot_len @ junk)"
    and "word_of_nat (length src) + iphdr_size v + hl + word_of_nat (length data) = word_of_nat (length src + unat (iphdr_size v) + unat hl + length data)"
    and "length (macs @ be_bytes 2 (ether_type_for v t) @ tail @ iphdr_bytes v proto saddr daddr tot_len) = length src + unat (iphdr_size v)"
    and "unat (word_of_nat (length src) :: u32) = length src" and "unat (word_of_nat (length data) :: u32) = length data"
proof -
  let ?pl = "word_of_nat (length src) + iphdr_size v + hl + word_of_nat (length data) :: u32"
  let ?N = "length src + unat (iphdr_size v) + unat hl + length data"
  have ls: "length src = 14 + length tail" and l: "length src < 2 ^ 32" using assms(1-3) by simp_all
  show pl: "?pl = word_of_nat ?N" by simp
  show "length (macs @ be_bytes 2 (ether_type_for v t) @ tail @ iphdr_bytes v proto saddr daddr tot_len) = length src + unat (iphdr_size v)"
    using ls assms(1) by (simp add: length_iphdr_bytes)
  show "unat (word_of_nat (length src) :: u32) = length src" "unat (word_of_nat (length data) :: u32) = length data"
    using assms(3) by (simp_all add: unat_word_of_nat)
  have "unat (iphdr_size v) \<le> 40" by (simp add: iphdr_size_def)
  then have "?N < 2 ^ 32" using assms(3,4) by simp
  then have un: "unat ?pl = length src + unat (iphdr_size v) + (unat hl + length data)"
    unfolding pl using unat_word_of_nat [where 'a = 32, of ?N] by (simp del: of_nat_add)
  show "\<exists>junk. length junk = unat hl + length data \<and> simple_frame g ?pl (word_of_nat (length src)) (src @ mo) v proto saddr daddr tot_len =
        Ret (macs @ be_bytes 2 (ether_type_for v t) @ tail @ iphdr_bytes v proto saddr daddr tot_len @ junk)"
    by (rule simple_frame_bytes [OF assms(1) ls assms(2) l un])
qed

lemma stn_fill:
  assumes "length A = p" and "length junk = length H + length bs"
  shows "stn (A @ junk) p H = Ret (A @ H @ drop (length H) junk)" "stn (A @ H @ drop (length H) junk) (p + length H) bs = Ret (A @ H @ bs)"
  using stn_at [OF assms(1), of H junk] stn_at [of "A @ H" "p + length H" bs "drop (length H) junk"] assms by simp_all

lemma createSimpleUdpDataPacket_bytes:
  assumes "length macs = 12" and "src = macs @ be_bytes 2 t @ tail" and "length src + length data < 2 ^ 32 - 100" and "v = vmIP_is_v6 saddr"
    and "n = (if hdrs = 0 then word_of_nat (length data) else hdrs)"
  shows "createSimpleUdpDataPacket g (word_of_nat (length src)) (src @ mo) (data @ rest) (word_of_nat (length data)) hdrs saddr daddr sport dport sec usec =
    Ret (\<lparr>ph_sec = sec, ph_usec = usec, ph_caplen = word_of_nat (length src + unat (iphdr_size v) + 8 + length data),
          ph_len = word_of_nat (length src) + iphdr_size v + 8 + n\<rparr>,
      macs @ be_bytes 2 (ether_type_for v t) @ tail @ iphdr_bytes v 17 saddr daddr (iphdr_size v + 8 + n) @
        udphdr_bytes (port_val sport) (port_val dport) (8 + n) @ data)"
proof -
  have e: "unat (8 :: u32) \<le> 60" by simp
  note r = simple_frame_room [OF assms(1,2,3) e]
  obtain junk where j: "length junk = 8 + length data" "simple_frame g (word_of_nat (length src) + iphdr_size v + 8 + word_of_nat (length data))
       (word_of_nat (length src)) (src @ mo) v 17 saddr daddr (iphdr_size v + 8 + n) =
     Ret (macs @ be_bytes 2 (ether_type_for v t) @ tail @ iphdr_bytes v 17 saddr daddr (iphdr_size v + 8 + n) @ junk)"
    using r(1) [of g v mo 17 saddr daddr "iphdr_size v + 8 + n"] by auto
  have lh: "length (udphdr_bytes (port_val sport) (port_val dport) (8 + n)) = 8" by (simp add: udphdr_bytes_def)
  have h: "simple_udp_header sport dport (8 + n) = Ret (udphdr_bytes (port_val sport) (port_val dport) (8 + n))"
    by (simp add: simple_udp_header_bytes udphdr_bytes_def)
  note f = stn_fill [OF r(3) [of v 17 saddr daddr "iphdr_size v + 8 + n"], of junk "udphdr_bytes (port_val sport) (port_val dport) (8 + n)" data, unfolded lh j(1), OF refl]
  show ?thesis unfolding createSimpleUdpDataPacket_def Let_def r(4,5) assms(4) [symmetric] assms(5) [symmetric] j(2) h
    using f r(2) [of v] by (simp add: ldn_def del: of_nat_add)
qed

lemma createSimpleTcpDataPacket_bytes:
  assumes "length macs = 12" and "src = macs @ be_bytes 2 t" and "length data < 2 ^ 32 - 200" and "v = vmIP_is_v6 saddr"
    and "n = (if hdrs = 0 then word_of_nat (length data) else hdrs)"
  shows "createSimpleTcpDataPacket g fuel d 14 (src @ mo) (data @ rest) (word_of_nat (length data)) hdrs saddr daddr sport dport
        seq ack_seq flags sec usec =
    Ret (\<lparr>ph_sec = sec, ph_usec = usec, ph_caplen = word_of_nat (length src + unat (iphdr_size v) + 32 + length data),
          ph_len = 14 + iphdr_size v + 32 + n\<rparr>,
      macs @ be_bytes 2 (ether_type_for v t) @ iphdr_bytes v 6 saddr daddr (iphdr_size v + 32 + n) @
        tcphdr_bytes (port_val sport) (port_val dport) seq ack_seq flags @ data)"
proof -
  have e: "unat (32 :: u32) \<le> 60" and s: "src = macs @ be_bytes 2 t @ []" and l: "length src + length data < 2 ^ 32 - 100" "length src = 14"
    using assms(1-3) by simp_all
  note r = simple_frame_room [OF assms(1) s l(1) e, unfolded l(2), simplified]
  obtain junk where j: "length junk = 32 + length data" "simple_frame g (14 + iphdr_size v + 32 + word_of_nat (length data))
       14 (src @ mo) v 6 saddr daddr (iphdr_size v + 32 + n) =
     Ret (macs @ be_bytes 2 (ether_type_for v t) @ iphdr_bytes v 6 saddr daddr (iphdr_size v + 32 + n) @ junk)"
    using r(1) [of g v mo 6 saddr daddr "iphdr_size v + 32 + n"] by auto
  obtain H where H: "simple_tcp_header sport dport seq ack_seq flags = Ret H" "length H = 20" "tcphdr_bytes (port_val sport) (port_val dport) seq ack_seq flags = H @ tcp_options"
    by (simp add: simple_tcp_header_bytes tcphdr_bytes_def)
  let ?A = "macs @ be_bytes 2 (ether_type_for v t) @ iphdr_bytes v 6 saddr daddr (iphdr_size v + 32 + n)"
  have la: "length ?A = 14 + unat (iphdr_size v)" using assms(1) by (simp add: length_iphdr_bytes)
  have lo: "length tcp_options = 12" by (simp add: tcp_options_def)
  have s1: "stn (?A @ junk) (14 + unat (iphdr_size v)) H = Ret (?A @ H @ drop 20 junk)" using stn_at [OF la, of H junk] H(2) j(1) by simp
  have "length (?A @ H) = 14 + unat (iphdr_size v) + 20" "length (drop 20 junk) = length tcp_options + length data" using la H(2) j(1) lo by simp_all
  note f = stn_fill [OF this, unfolded lo append_assoc]
  have r2: "14 + iphdr_size v + 32 + word_of_nat (length data) = (word_of_nat (14 + unat (iphdr_size v) + 32 + length data) :: u32)" by simp
  show ?thesis unfolding createSimpleTcpDataPacket_def Let_def assms(4) [symmetric] assms(5) [symmetric] H(1,3) 
    using f s1 j(2) r2 l(2) assms(3) by (simp add: ldn_def fix_pppoe_def unat_word_of_nat del: of_nat_add)
qed


section \<open>Reading a frame back\<close>

text \<open>The addresses a header can carry: IPv6, or IPv4 with no other word set.\<close>

definition vmIP_plain :: "vmIP \<Rightarrow> bool" where
  "vmIP_plain ip = (v6 ip = 1 \<or> (v6 ip = 0 \<and> addr0 ip = 0 \<and> addr1 ip = 0 \<and> addr2 ip = 0))"

lemma in6_ntohl_twice [simp]: "in6_ntohl (in6_ntohl a) = a"
  by (cases a) (simp add: in6_ntohl_def)

lemma vmIP_plain_back: "vmIP_plain ip \<Longrightarrow> vmIP_is_v6 ip \<Longrightarrow> vmIP_v6 (vmIP_getIPv6 False ip) = ip"
   "vmIP_plain ip \<Longrightarrow> \<not> vmIP_is_v6 ip \<Longrightarrow> vmIP_v4 (addr3 ip) = ip"
  by (simp_all add: vmIP_plain_def vmIP_is_v6_def vmIP_v6_def vmIP_v4_def vmIP_getIPv6_def)

lemma ucast_down_up: "L < 65536 \<Longrightarrow> ucast (ucast (L :: u32) :: u16) = L"
  by (simp add: word_unat_eq_iff unsigned_ucast_eq word_less_nat_alt take_bit_nat_eq_self unsigned_take_bit_eq)

text \<open>Where the parts of an IP header stand.\<close>

lemma iphdr_parts4:
  assumes "drop p m = iphdr_bytes False proto s d L @ rest"
  shows "drop p m = [0x45] @ tl (iphdr_bytes False proto s d L) @ rest" "drop (p + 2) m = be_bytes 2 (ucast L :: u16) @ drop 4 (iphdr_bytes False proto s d L) @ rest"
    "drop (p + 9) m = [proto] @ drop 10 (iphdr_bytes False proto s d L) @ rest" "drop (p + 12) m = be_bytes 4 (addr3 s) @ drop 16 (iphdr_bytes False proto s d L) @ rest"
    "drop (p + 16) m = be_bytes 4 (addr3 d) @ rest" "drop (p + 20) m = rest"
  using assms drop_part [OF assms, of 2] drop_part [OF assms, of 9] drop_part [OF assms, of 12] drop_part [OF assms, of 16] drop_part [OF assms, of 20]
  by (simp_all add: iphdr_bytes_def del: add_2_eq_Suc')

lemma iphdr_parts6:
  assumes "drop p m = iphdr_bytes True proto s d L @ rest"
  shows "drop p m = [0x60] @ tl (iphdr_bytes True proto s d L) @ rest" "drop (p + 4) m = be_bytes 2 (ucast (L - 40) :: u16) @ drop 6 (iphdr_bytes True proto s d L) @ rest"
    "drop (p + 6) m = [proto] @ drop 7 (iphdr_bytes True proto s d L) @ rest" "drop (p + 8) m = in6_bytes (vmIP_getIPv6 False s) @ drop 24 (iphdr_bytes True proto s d L) @ rest"
    "drop (p + 24) m = in6_bytes (vmIP_getIPv6 False d) @ rest" "drop (p + 40) m = rest"
  using assms drop_part [OF assms, of 4] drop_part [OF assms, of 6] drop_part [OF assms, of 8] drop_part [OF assms, of 24] drop_part [OF assms, of 40]
  by (simp_all add: iphdr_bytes_def)

lemma iph_if_v4_at:
  "drop p m = [0x45] @ xs \<Longrightarrow> iph_if_v4 m p a b = a" "drop p m = [0x60] @ xs \<Longrightarrow> iph_if_v4 m p a b = b"
  using ld_at(4) [of p m "[0x45]" xs] ld_at(4) [of p m "[0x60]" xs] by (auto simp: iph_if_v4_def iph_version_def)

lemma iphdr_read4:
  assumes "drop p m = iphdr_bytes False proto s d L @ rest" and "proto = 17 \<or> proto = 6" and "L < 65536"
  shows "iph_get_saddr m p = Ret (vmIP_v4 (addr3 s))" "iph_get_daddr m p = Ret (vmIP_v4 (addr3 d))" "iph_get_protocol x m p = Ret proto"
    "iph_get_hdr_size m p = Ret (20, Some proto)" "ip_payload_len m p = Ret (L - 20)" "drop (p + 20) m = rest" "iph_get_tot_len m p = Ret L"
proof -
  note P = iphdr_parts4 [OF assms(1)]
  note V = iph_if_v4_at(1) [OF P(1)]
  have pr: "ld8 m (p + 9) = Ret proto" by (rule ld_at(4) [OF P(3) refl])
  show tot: "iph_get_tot_len m p = Ret L"
    using ld_at(2) [OF P(2)] assms(3) by (simp add: iph_get_tot_len_def V be_bytes_read ucast_down_up del: add_2_eq_Suc')
  show h: "iph_get_hdr_size m p = Ret (20, Some proto)" using pr assms(2) by (auto simp: iph_get_hdr_size_def V)
  show "iph_get_saddr m p = Ret (vmIP_v4 (addr3 s))" "iph_get_daddr m p = Ret (vmIP_v4 (addr3 d))"
    using ld_at(1) [OF P(4)] ld_at(1) [OF P(5)] by (simp_all add: iph_get_saddr_def iph_get_daddr_def V be_bytes_read)
  show "iph_get_protocol x m p = Ret proto" using pr assms(2) by (auto simp: iph_get_protocol_def V)
  show "ip_payload_len m p = Ret (L - 20)" using tot h assms(2) by (auto simp: ip_payload_len_def iph_get_footer_size_def)
  show "drop (p + 20) m = rest" by (rule P(6))
qed

lemma iphdr_read6:
  assumes "drop p m = iphdr_bytes True proto s d L @ rest" and "proto = 17 \<or> proto = 6" and "40 \<le> L" and "L < 65536"
  shows "iph_get_saddr m p = Ret (vmIP_v6 (vmIP_getIPv6 False s))" "iph_get_daddr m p = Ret (vmIP_v6 (vmIP_getIPv6 False d))" "iph_get_protocol x m p = Ret proto"
    "iph_get_hdr_size m p = Ret (40, Some proto)" "ip_payload_len m p = Ret (L - 40)" "drop (p + 40) m = rest" "iph_get_tot_len m p = Ret L"
proof -
  note P = iphdr_parts6 [OF assms(1)]
  note V = iph_if_v4_at(2) [OF P(1)]
  have pr: "ld8 m (p + 6) = Ret proto" by (rule ld_at(4) [OF P(3) refl])
  have nx: "\<not> is_ext_header proto" "proto \<noteq> - 1" using assms(2) by (auto simp: is_ext_header_def)
  show tot: "iph_get_tot_len m p = Ret L"
  proof -
    have "L - 40 < 65536" using assms(3,4) by (simp add: word_less_nat_alt word_le_nat_alt unat_sub)
    then show ?thesis using ld_at(2) [OF P(2)] by (simp add: iph_get_tot_len_def ip6_get_tot_len_def V be_bytes_read ucast_down_up)
  qed
  have ext: "get_ext_headers m p mx ts = Ret (proto, ts)" for mx ts using pr nx by (simp add: get_ext_headers_def)
  show h: "iph_get_hdr_size m p = Ret (40, Some proto)"
    using assms(2) nx ext by (auto simp: iph_get_hdr_size_def V ip6_get_hdr_size_def get_total_headers_len_def get_ext_headers_len_def)
  show "iph_get_saddr m p = Ret (vmIP_v6 (vmIP_getIPv6 False s))" "iph_get_daddr m p = Ret (vmIP_v6 (vmIP_getIPv6 False d))"
    using ld_in6_bytes [OF ld_at(3) [OF P(4)]] ld_in6_bytes [OF ld_at(3) [OF P(5)]] by (simp_all add: iph_get_saddr_def iph_get_daddr_def ip6_get_saddr_def ip6_get_daddr_def V)
  show "iph_get_protocol x m p = Ret proto" using ext assms(2) by (auto simp: iph_get_protocol_def V ip6_get_protocol_def ip6_get_protocol_raw_def)
  show "ip_payload_len m p = Ret (L - 40)" using tot h assms(2) by (auto simp: ip_payload_len_def iph_get_footer_size_def)
  show "drop (p + 40) m = rest" by (rule P(6))
qed

lemma iphdr_read:
  assumes "drop p m = iphdr_bytes v proto s d (iphdr_size v + n) @ rest" and "v = vmIP_is_v6 s" "v = vmIP_is_v6 d" and "vmIP_plain s" "vmIP_plain d"
    and "proto = 17 \<or> proto = 6" and "unat n < 65400"
  shows "iph_get_saddr m p = Ret s" "iph_get_daddr m p = Ret d" "iph_get_protocol x m p = Ret proto"
    "iph_get_hdr_size m p = Ret (ucast (iphdr_size v), Some proto)" "ip_payload_len m p = Ret n" "drop (p + unat (iphdr_size v)) m = rest" "iph_get_tot_len m p = Ret (iphdr_size v + n)"
proof -
  have u: "unat (20 + n) = 20 + unat n" "unat (40 + n) = 40 + unat n" using assms(7) by (simp_all add: unat_word_ariths)
  have b: "20 + n < 65536" "40 \<le> 40 + n" "40 + n < 65536" using assms(7) u by (simp_all add: word_less_nat_alt word_le_nat_alt)
  have "iph_get_saddr m p = Ret s \<and> iph_get_daddr m p = Ret d \<and> iph_get_protocol x m p = Ret proto \<and>
    iph_get_hdr_size m p = Ret (ucast (iphdr_size v), Some proto) \<and> ip_payload_len m p = Ret n \<and> drop (p + unat (iphdr_size v)) m = rest \<and>
    iph_get_tot_len m p = Ret (iphdr_size v + n)"
  proof (cases v)
    case True
    have a: "drop p m = iphdr_bytes True proto s d (40 + n) @ rest" using assms(1) True by (simp add: iphdr_size_def)
    show ?thesis using iphdr_read6 [OF a assms(6) b(2,3)] vmIP_plain_back(1) [OF assms(4)] vmIP_plain_back(1) [OF assms(5)] assms(2,3) True
      by (simp add: iphdr_size_def)
  next
    case False
    have a: "drop p m = iphdr_bytes False proto s d (20 + n) @ rest" using assms(1) False by (simp add: iphdr_size_def)
    show ?thesis using iphdr_read4 [OF a assms(6) b(1)] vmIP_plain_back(2) [OF assms(4)] vmIP_plain_back(2) [OF assms(5)] assms(2,3) False
      by (simp add: iphdr_size_def)
  qed
  then show "iph_get_saddr m p = Ret s" "iph_get_daddr m p = Ret d" "iph_get_protocol x m p = Ret proto"
    "iph_get_hdr_size m p = Ret (ucast (iphdr_size v), Some proto)" "ip_payload_len m p = Ret n" "drop (p + unat (iphdr_size v)) m = rest" "iph_get_tot_len m p = Ret (iphdr_size v + n)"
    by simp_all
qed

lemma parse_plain_frame:
  assumes "length macs = 12" and "t = ETHERTYPE_IP \<or> t = ETHERTYPE_IPV6"
  shows "parseEtherHeader fuel DLT_EN10MB (macs @ be_bytes 2 t @ rest) =
    Ret (Some \<lparr>lk_eth = Some 0, lk_ppp_o_e = None, lk_ip_offset = 14, lk_protocol = t, lk_vlan = VLAN_NOSET\<rparr>)"
proof -
  have "ldbe16 (macs @ be_bytes 2 t @ rest) 12 = Ret t" by (rule ldbe16_be) (use assms(1) in simp)
  then show ?thesis using assms(2) by (auto simp: parseEtherHeader_def parse_ethernet_def eth_switch_def Let_def)
qed

lemma ether_type_for_ip: "t = ETHERTYPE_IP \<or> t = ETHERTYPE_IPV6 \<Longrightarrow> ether_type_for v t = (if v then ETHERTYPE_IPV6 else ETHERTYPE_IP)"
  by (auto simp: ether_type_for_def)

lemma ucast_iphdr_size [simp]: "unat (ucast (iphdr_size v) :: u16) = unat (iphdr_size v)"
  by (simp add: iphdr_size_def)

lemma ph_caplen_frame: "unat (iphdr_size v) + n < 2 ^ 20 \<Longrightarrow> unat (word_of_nat (14 + unat (iphdr_size v) + n) :: u32) = 14 + unat (iphdr_size v) + n"
  by (rule unat_word_of_nat) simp

lemma tcphdr_fields:
  assumes "drop p m = tcphdr_bytes sport dport seq ack_seq flags @ data"
  shows "tcp_get_source m p = Ret sport" "tcp_get_dest m p = Ret dport" "omap ntohl (ld32 m (p + 4)) = Ret seq"
    "get_tcp_header_len m p = Ret 32" "drop (p + 32) m = data"
proof -
  have d: "drop p m = (be_bytes 2 sport @ be_bytes 2 dport @ be_bytes 4 seq @ be_bytes 4 ack_seq @
      [0x80, if flags \<noteq> 0 then flags else 0x10, 0x80, 0, 0, 0, 0, 0] @ tcp_options) @ data"
    using assms by (simp add: tcphdr_bytes_def)
  have "drop (p + 2) m = be_bytes 2 dport @ be_bytes 4 seq @ be_bytes 4 ack_seq @ [0x80, if flags \<noteq> 0 then flags else 0x10, 0x80, 0, 0, 0, 0, 0] @ tcp_options @ data"
    "drop (p + 4) m = be_bytes 4 seq @ be_bytes 4 ack_seq @ [0x80, if flags \<noteq> 0 then flags else 0x10, 0x80, 0, 0, 0, 0, 0] @ tcp_options @ data"
    "drop (p + 12) m = [0x80] @ [if flags \<noteq> 0 then flags else 0x10, 0x80, 0, 0, 0, 0, 0] @ tcp_options @ data" "drop (p + 32) m = data"
    using drop_part [OF d, of 2] drop_part [OF d, of 4] drop_part [OF d, of 12] drop_part [OF d, of 32] by (simp_all add: tcp_options_def del: add_2_eq_Suc')
  note e = this
  show "tcp_get_source m p = Ret sport" "tcp_get_dest m p = Ret dport"
    using ldbe16_be [OF d [unfolded append_assoc]] ldbe16_be [OF e(1)] by (simp_all add: tcp_get_source_def tcp_get_dest_def ldbe16_def)
  show "omap ntohl (ld32 m (p + 4)) = Ret seq" using ld_at(1) [OF e(2)] by (simp add: be_bytes_read)
  show "get_tcp_header_len m p = Ret 32" using ld_at(4) [OF e(3) refl] by (simp add: get_tcp_header_len_def)
  show "drop (p + 32) m = data" by (rule e(4))
qed

lemma created_udp_facts:
  assumes "src = macs @ be_bytes 2 t" and "length macs = 12" and "t = ETHERTYPE_IP \<or> t = ETHERTYPE_IPV6"
    and "vmIP_plain s" "vmIP_plain d" "vmIP_is_v6 s = vmIP_is_v6 d" and "length data < 65000" and "k = 14 + unat (iphdr_size (vmIP_is_v6 s))"
  obtains pk where
    "createSimpleUdpDataPacket g 14 src data (word_of_nat (length data)) 0 s d sport dport sec usec =
       Ret (\<lparr>ph_sec = sec, ph_usec = usec, ph_caplen = word_of_nat (k + 8 + length data), ph_len = word_of_nat (k + 8 + length data)\<rparr>, pk)"
    "length pk = k + 8 + length data" "unat (word_of_nat (k + 8 + length data) :: u32) = k + 8 + length data"
    "\<And>fuel. parseEtherHeader fuel DLT_EN10MB pk = Ret (Some \<lparr>lk_eth = Some 0, lk_ppp_o_e = None, lk_ip_offset = 14,
      lk_protocol = (if vmIP_is_v6 s then ETHERTYPE_IPV6 else ETHERTYPE_IP), lk_vlan = VLAN_NOSET\<rparr>)"
    "iph_get_saddr pk 14 = Ret s" "iph_get_daddr pk 14 = Ret d" "\<And>x. iph_get_protocol x pk 14 = Ret 17"
    "iph_get_hdr_size pk 14 = Ret (ucast (iphdr_size (vmIP_is_v6 s)), Some 17)"
    "iph_get_tot_len pk 14 = Ret (iphdr_size (vmIP_is_v6 s) + (8 + word_of_nat (length data)))"
    "udp_get_source pk k = Ret (port_val sport)" "udp_get_dest pk k = Ret (port_val dport)" "ldbe16 pk (k + 4) = Ret (word_of_nat (8 + length data))"
    "get_udp_data_len pk 14 k (word_of_nat (k + 8 + length data)) = Ret (k + 8, word_of_nat (length data))" "drop (k + 8) pk = data"
proof -
  define v n where "v = vmIP_is_v6 s" and "n = (word_of_nat (length data) :: u32)"
  define et where "et = (if v then ETHERTYPE_IPV6 else ETHERTYPE_IP)"
  define iph where "iph = iphdr_bytes v 17 s d (iphdr_size v + (8 + n))"
  define uh where "uh = udphdr_bytes (port_val sport) (port_val dport) (8 + n)"
  define pk where "pk = macs @ be_bytes 2 et @ iph @ uh @ data"
  let ?k = "14 + unat (iphdr_size v)" and ?N = "14 + unat (iphdr_size v) + 8 + length data"
  have un: "unat n = length data" "unat (8 + n) = 8 + length data" using assms(7) by (simp_all add: n_def unat_of_nat unat_word_ariths)
  have "createSimpleUdpDataPacket g (word_of_nat (length src)) (src @ []) (data @ []) (word_of_nat (length data)) 0 s d sport dport sec usec =
     Ret (\<lparr>ph_sec = sec, ph_usec = usec, ph_caplen = word_of_nat (length src + unat (iphdr_size v) + 8 + length data),
          ph_len = word_of_nat (length src) + iphdr_size v + 8 + n\<rparr>, macs @ be_bytes 2 (ether_type_for v t) @ [] @ iphdr_bytes v 17 s d (iphdr_size v + 8 + n) @ uh @ data)"
    unfolding uh_def by (rule createSimpleUdpDataPacket_bytes) (use assms in \<open>auto simp: v_def n_def\<close>)
  moreover have "length src = 14" using assms(1,2) by simp
  ultimately have c: "createSimpleUdpDataPacket g 14 src data (word_of_nat (length data)) 0 s d sport dport sec usec =
     Ret (\<lparr>ph_sec = sec, ph_usec = usec, ph_caplen = word_of_nat ?N, ph_len = word_of_nat ?N\<rparr>, pk)"
    unfolding pk_def et_def iph_def by (simp add: ether_type_for_ip [OF assms(3)] n_def add.assoc)
  have "drop 14 pk = iphdr_bytes v 17 s d (iphdr_size v + (8 + n)) @ uh @ data" unfolding pk_def iph_def using assms(2) by simp
  from iphdr_read [OF this v_def] have r: "iph_get_saddr pk 14 = Ret s" "iph_get_daddr pk 14 = Ret d" "\<And>x. iph_get_protocol x pk 14 = Ret 17"
    "iph_get_hdr_size pk 14 = Ret (ucast (iphdr_size v), Some 17)" "ip_payload_len pk 14 = Ret (8 + n)" "drop ?k pk = uh @ data" "iph_get_tot_len pk 14 = Ret (iphdr_size v + (8 + n))"
    using assms(4-7) un(2) by (simp_all add: v_def)
  have d: "drop ?k pk = be_bytes 2 (port_val sport) @ be_bytes 2 (port_val dport) @ be_bytes 2 (ucast (8 + n) :: u16) @ [0, 0] @ data"
    using r(6) by (simp add: uh_def udphdr_bytes_def)
  have d2: "drop (?k + 2) pk = be_bytes 2 (port_val dport) @ be_bytes 2 (ucast (8 + n) :: u16) @ [0, 0] @ data" by (rule drop_step [OF d]) simp
  have d4: "drop (?k + 4) pk = be_bytes 2 (ucast (8 + n) :: u16) @ [0, 0] @ data" using drop_part [OF d [folded append_assoc], of 4] by simp
  have d8: "drop (?k + 8) pk = data" using drop_part [OF d [folded append_assoc], of 8] by simp
  have "8 + n < 65536" using un(2) assms(7) by (simp add: word_less_nat_alt)
  then have l: "ldbe16 pk (?k + 4) = Ret (ucast (8 + n))" "ucast (ucast (8 + n) :: u16) = 8 + n" using ldbe16_be [OF d4] by (simp_all only: ucast_down_up)
  have cap: "(word_of_nat ?N :: u32) - word_of_nat (?k + 8) = n" by (simp add: n_def)
  have "length pk = ?N" unfolding pk_def iph_def uh_def using assms(2) by (simp add: length_iphdr_bytes udphdr_bytes_def)
  moreover have "unat (word_of_nat ?N :: u32) = ?N" using ph_caplen_frame [of v "8 + length data"] assms(7) by (simp add: iphdr_size_def add.assoc)
  moreover have "udp_get_source pk ?k = Ret (port_val sport)" "udp_get_dest pk (?k) = Ret (port_val dport)"
    using ldbe16_be [OF d] ldbe16_be [OF d2] by (simp_all add: udp_get_source_def udp_get_dest_def ldbe16_def)
  moreover have "get_udp_data_len pk 14 ?k (word_of_nat ?N) = Ret (?k + 8, n)"
    unfolding get_udp_data_len_def r(5) l(1) obind.simps omap.simps l(2) cap by simp
  moreover have "\<And>fuel. parseEtherHeader fuel DLT_EN10MB pk = Ret (Some \<lparr>lk_eth = Some 0, lk_ppp_o_e = None, lk_ip_offset = 14, lk_protocol = et, lk_vlan = VLAN_NOSET\<rparr>)"
    unfolding pk_def by (rule parse_plain_frame [OF assms(2)]) (simp add: et_def)
  moreover have "ldbe16 pk (?k + 4) = Ret (word_of_nat (8 + length data))"
    using l(1) un(2) by (simp add: word_unat_eq_iff unsigned_ucast_eq unat_of_nat take_bit_eq_mod del: of_nat_add)
  ultimately show thesis using c r(1-5,7) d8 that unfolding et_def v_def [symmetric] n_def [symmetric] assms(8) by blast
qed

lemma created_tcp_facts:
  assumes "src = macs @ be_bytes 2 t" and "length macs = 12" and "t = ETHERTYPE_IP \<or> t = ETHERTYPE_IPV6"
    and "vmIP_plain s" "vmIP_plain d" "vmIP_is_v6 s = vmIP_is_v6 d" and "length data < 65000"
  shows "\<exists>h pk k. createSimpleTcpDataPacket g fuel dl 14 src data (word_of_nat (length data)) 0 s d sport dport seq ack_seq flags sec usec = Ret (h, pk) \<and>
    unat (ph_caplen h) = length pk \<and> ph_len h = ph_caplen h \<and> ph_sec h = sec \<and> ph_usec h = usec \<and>
    parseEtherHeader fuel' DLT_EN10MB pk = Ret (Some \<lparr>lk_eth = Some 0, lk_ppp_o_e = None, lk_ip_offset = 14,
      lk_protocol = (if vmIP_is_v6 s then ETHERTYPE_IPV6 else ETHERTYPE_IP), lk_vlan = VLAN_NOSET\<rparr>) \<and>
    iph_get_saddr pk 14 = Ret s \<and> iph_get_daddr pk 14 = Ret d \<and> iph_get_protocol 0 pk 14 = Ret 6 \<and> iph_get_hdr_size pk 14 = Ret (k, Some 6) \<and>
    tcp_get_source pk (14 + unat k) = Ret (port_val sport) \<and> tcp_get_dest pk (14 + unat k) = Ret (port_val dport) \<and>
    omap ntohl (ld32 pk (14 + unat k + 4)) = Ret seq \<and> get_tcp_header_len pk (14 + unat k) = Ret 32 \<and>
    get_tcp_data_len pk 14 (14 + unat k) (ph_caplen h) = Ret (14 + unat k + 32, word_of_nat (length data)) \<and>
    drop (14 + unat k + 32) pk = data"
proof -
  define v n where "v = vmIP_is_v6 s" and "n = (word_of_nat (length data) :: u32)"
  define et where "et = (if v then ETHERTYPE_IPV6 else ETHERTYPE_IP)"
  define iph where "iph = iphdr_bytes v 6 s d (iphdr_size v + (32 + n))"
  define th where "th = tcphdr_bytes (port_val sport) (port_val dport) seq ack_seq flags"
  define pk where "pk = macs @ be_bytes 2 et @ iph @ th @ data"
  let ?k = "14 + unat (iphdr_size v)" and ?N = "14 + unat (iphdr_size v) + 32 + length data"
  have un: "unat n = length data" "unat (32 + n) = 32 + length data" using assms(7) by (simp_all add: n_def unat_of_nat unat_word_ariths)
  have "createSimpleTcpDataPacket g fuel dl 14 (src @ []) (data @ []) (word_of_nat (length data)) 0 s d sport dport seq ack_seq flags sec usec =
     Ret (\<lparr>ph_sec = sec, ph_usec = usec, ph_caplen = word_of_nat (length src + unat (iphdr_size v) + 32 + length data), ph_len = 14 + iphdr_size v + 32 + n\<rparr>,
       macs @ be_bytes 2 (ether_type_for v t) @ iphdr_bytes v 6 s d (iphdr_size v + 32 + n) @ th @ data)"
    unfolding th_def by (rule createSimpleTcpDataPacket_bytes [OF assms(2,1)]) (use assms in \<open>auto simp: v_def n_def\<close>)
  moreover have "length src = 14" using assms(1,2) by simp
  ultimately have c: "createSimpleTcpDataPacket g fuel dl 14 src data (word_of_nat (length data)) 0 s d sport dport seq ack_seq flags sec usec =
     Ret (\<lparr>ph_sec = sec, ph_usec = usec, ph_caplen = word_of_nat ?N, ph_len = word_of_nat ?N\<rparr>, pk)"
    unfolding pk_def et_def iph_def by (simp add: ether_type_for_ip [OF assms(3)] n_def add.assoc)
  have "drop 14 pk = iphdr_bytes v 6 s d (iphdr_size v + (32 + n)) @ th @ data" unfolding pk_def iph_def using assms(2) by simp
  from iphdr_read [OF this v_def] have r: "iph_get_saddr pk 14 = Ret s" "iph_get_daddr pk 14 = Ret d" "iph_get_protocol 0 pk 14 = Ret 6"
    "iph_get_hdr_size pk 14 = Ret (ucast (iphdr_size v), Some 6)" "ip_payload_len pk 14 = Ret (32 + n)" "drop ?k pk = th @ data"
    using assms(4-7) un(2) by (simp_all add: v_def)
  note f = tcphdr_fields [OF r(6) [unfolded th_def]]
  have cap: "(word_of_nat ?N :: u32) - word_of_nat (?k + 32) = n" by (simp add: n_def)
  have "length pk = ?N" unfolding pk_def iph_def th_def using assms(2) by (simp add: length_iphdr_bytes tcphdr_bytes_def tcp_options_def)
  moreover have "unat (word_of_nat ?N :: u32) = ?N" using ph_caplen_frame [of v "32 + length data"] assms(7) by (simp add: iphdr_size_def add.assoc)
  moreover have "get_tcp_data_len pk 14 ?k (word_of_nat ?N) = Ret (?k + 32, n)"
    unfolding get_tcp_data_len_def f(4) r(5) obind.simps omap.simps cap by simp
  moreover have "parseEtherHeader fuel' DLT_EN10MB pk = Ret (Some \<lparr>lk_eth = Some 0, lk_ppp_o_e = None, lk_ip_offset = 14, lk_protocol = et, lk_vlan = VLAN_NOSET\<rparr>)"
    unfolding pk_def by (rule parse_plain_frame [OF assms(2)]) (simp add: et_def)
  ultimately show ?thesis using c r(1-4) f unfolding et_def v_def [symmetric] n_def [symmetric]
    by (intro exI [of _ pk] exI [of _ "ucast (iphdr_size v) :: u16"] exI) (auto simp del: of_nat_add)
qed

section \<open>What a frame builder promises\<close>

text \<open>The contract of the two builders towards the code that hands their frames on: which bytes the frame consists of, and that the
  length of the transport header can be read back from it. That the endpoints and the data are found again follows from it.
  \<open>build\<close> takes the link header, the addresses and the data, \<open>trh\<close> is the transport header in front of the data and \<open>hdr_len\<close> the length
  of the transport header at a position.\<close>

definition eth_plain :: "mem \<Rightarrow> bool" where
  "eth_plain eth = (length eth = 14 \<and> drop 12 eth \<in> {be_bytes 2 ETHERTYPE_IP, be_bytes 2 ETHERTYPE_IPV6})"

locale frame_builder =
  fixes build :: "mem \<Rightarrow> vmIP \<Rightarrow> vmIP \<Rightarrow> mem \<Rightarrow> (pcap_pkthdr \<times> mem) outcome"
    and proto :: u8
    and trh :: "mem \<Rightarrow> mem"
    and hdr_len :: "mem \<Rightarrow> nat \<Rightarrow> nat outcome"
    and sec :: u32 and usec :: u32
  assumes layout: "\<lbrakk>eth_plain eth; length data < 65000\<rbrakk> \<Longrightarrow>
    \<exists>h e. build eth s d data = Ret (h, e @ iphdr_bytes (vmIP_is_v6 s) proto s d (iphdr_size (vmIP_is_v6 s) + word_of_nat (length (trh data) + length data)) @
        trh data @ data) \<and> length e = 14 \<and> ph_caplen h = word_of_nat (14 + unat (iphdr_size (vmIP_is_v6 s)) + (length (trh data) + length data)) \<and>
      ph_sec h = sec \<and> ph_usec h = usec"
    and transport: "proto = 17 \<or> proto = 6" "length (trh data) \<le> 60"
    and hdr_len: "drop p m = trh data @ data \<Longrightarrow> hdr_len m p = Ret (length (trh data))"
begin

lemma offset_leads_to_data:
  assumes "eth_plain eth" "vmIP_plain s" "vmIP_plain d" "vmIP_is_v6 s = vmIP_is_v6 d" "length data < 65000"
  shows "\<exists>h pk off. build eth s d data = Ret (h, pk) \<and> unat (ph_caplen h) = length pk \<and> ph_sec h = sec \<and> ph_usec h = usec \<and>
    iph_get_saddr pk 14 = Ret s \<and> iph_get_daddr pk 14 = Ret d \<and> iph_get_protocol 0 pk 14 = Ret proto \<and>
    obind (iph_get_hdr_size pk 14) (\<lambda>(sz, _). omap (\<lambda>l. 14 + unat sz + l) (hdr_len pk (14 + unat sz))) = Ret off \<and> drop off pk = data"
proof -
  define v where "v = vmIP_is_v6 s"
  define n where "n = (word_of_nat (length (trh data) + length data) :: u32)"
  obtain h e where b: "build eth s d data = Ret (h, e @ iphdr_bytes v proto s d (iphdr_size v + n) @ trh data @ data)" "length e = 14"
    "ph_caplen h = word_of_nat (14 + unat (iphdr_size v) + (length (trh data) + length data))" "ph_sec h = sec" "ph_usec h = usec"
    using layout [OF assms(1,5), of s d] by (auto simp: v_def n_def simp del: of_nat_add)
  define pk where "pk = e @ iphdr_bytes v proto s d (iphdr_size v + n) @ trh data @ data"
  have d: "drop 14 pk = iphdr_bytes v proto s d (iphdr_size v + n) @ trh data @ data" using b(2) by (simp add: pk_def)
  have un: "unat n < 65400" using transport(2) [of data] assms(5) by (simp add: n_def unat_of_nat del: of_nat_add)
  have v: "v = vmIP_is_v6 d" using assms(4) by (simp add: v_def)
  note r = iphdr_read [OF d v_def v assms(2,3) transport(1) un]
  let ?k = "14 + unat (iphdr_size v)"
  have "unat (ph_caplen h) = length pk" using b(2,3) ph_caplen_frame [of v "length (trh data) + length data"] transport(2) [of data] assms(5)
    by (simp add: pk_def length_iphdr_bytes iphdr_size_def del: of_nat_add)
  moreover have "hdr_len pk ?k = Ret (length (trh data))" by (rule hdr_len [OF r(6)])
  moreover have "drop (?k + length (trh data)) pk = data" using drop_step [OF r(6) refl] by simp
  ultimately show ?thesis using b(1,4,5) r(1-4) unfolding pk_def [symmetric] by auto
qed

end

lemma eth_plain_parts:
  assumes "eth_plain eth"
  obtains macs t where "eth = macs @ be_bytes 2 t" "length macs = 12" "t = ETHERTYPE_IP \<or> t = ETHERTYPE_IPV6"
proof -
  have "eth = take 12 eth @ drop 12 eth" "length (take 12 eth) = 12" using assms by (simp_all add: eth_plain_def)
  then show thesis using assms that unfolding eth_plain_def by fastforce
qed

interpretation udp_frame: frame_builder
  "\<lambda>eth s d data. createSimpleUdpDataPacket g 14 eth data (word_of_nat (length data)) 0 s d sport dport sec usec" 17
  "\<lambda>data. udphdr_bytes (port_val sport) (port_val dport) (8 + word_of_nat (length data))" "\<lambda>_ _. Ret 8" sec usec
  for g sport dport sec usec
proof unfold_locales
  fix eth s d and data :: mem
  let ?v = "vmIP_is_v6 s" and ?uh = "udphdr_bytes (port_val sport) (port_val dport) (8 + word_of_nat (length data))"
  assume a: "eth_plain eth" "length data < 65000"
  obtain macs t where e: "eth = macs @ be_bytes 2 t" "length macs = 12" "t = ETHERTYPE_IP \<or> t = ETHERTYPE_IPV6" by (rule eth_plain_parts [OF a(1)])
  have l: "length ?uh = 8" "length eth = 14" using e by (simp_all add: udphdr_bytes_def)
  have "createSimpleUdpDataPacket g (word_of_nat (length eth)) (eth @ []) (data @ []) (word_of_nat (length data)) 0 s d sport dport sec usec =
     Ret (\<lparr>ph_sec = sec, ph_usec = usec, ph_caplen = word_of_nat (length eth + unat (iphdr_size ?v) + 8 + length data),
          ph_len = word_of_nat (length eth) + iphdr_size ?v + 8 + word_of_nat (length data)\<rparr>,
       macs @ be_bytes 2 (ether_type_for ?v t) @ [] @ iphdr_bytes ?v 17 s d (iphdr_size ?v + 8 + word_of_nat (length data)) @ ?uh @ data)"
    by (rule createSimpleUdpDataPacket_bytes [OF e(2)]) (use e a in auto)
  then show "\<exists>h e. createSimpleUdpDataPacket g 14 eth data (word_of_nat (length data)) 0 s d sport dport sec usec =
      Ret (h, e @ iphdr_bytes ?v 17 s d (iphdr_size ?v + word_of_nat (length ?uh + length data)) @ ?uh @ data) \<and> length e = 14 \<and>
      ph_caplen h = word_of_nat (14 + unat (iphdr_size ?v) + (length ?uh + length data)) \<and> ph_sec h = sec \<and> ph_usec h = usec"
    unfolding l using e(2) by (intro exI [of _ "macs @ be_bytes 2 (ether_type_for ?v t)"] exI) (auto simp: add.assoc)
qed (simp_all add: udphdr_bytes_def)

interpretation tcp_frame: frame_builder
  "\<lambda>eth s d data. createSimpleTcpDataPacket g fuel dl 14 eth data (word_of_nat (length data)) 0 s d sport dport seq ack_seq flags sec usec" 6
  "\<lambda>_. tcphdr_bytes (port_val sport) (port_val dport) seq ack_seq flags" get_tcp_header_len sec usec
  for g fuel dl sport dport seq ack_seq flags sec usec
proof unfold_locales
  let ?th = "tcphdr_bytes (port_val sport) (port_val dport) seq ack_seq flags"
  have lt: "length ?th = 32" by (simp add: tcphdr_bytes_def tcp_options_def)
  fix eth s d and data :: mem
  let ?v = "vmIP_is_v6 s"
  assume a: "eth_plain eth" "length data < 65000"
  obtain macs t where e: "eth = macs @ be_bytes 2 t" "length macs = 12" "t = ETHERTYPE_IP \<or> t = ETHERTYPE_IPV6" by (rule eth_plain_parts [OF a(1)])
  have l: "length eth = 14" using e by simp
  have "createSimpleTcpDataPacket g fuel dl 14 (eth @ []) (data @ []) (word_of_nat (length data)) 0 s d sport dport seq ack_seq flags sec usec =
     Ret (\<lparr>ph_sec = sec, ph_usec = usec, ph_caplen = word_of_nat (length eth + unat (iphdr_size ?v) + 32 + length data),
          ph_len = 14 + iphdr_size ?v + 32 + word_of_nat (length data)\<rparr>,
       macs @ be_bytes 2 (ether_type_for ?v t) @ iphdr_bytes ?v 6 s d (iphdr_size ?v + 32 + word_of_nat (length data)) @ ?th @ data)"
    by (rule createSimpleTcpDataPacket_bytes [OF e(2,1)]) (use a in auto)
  then show "\<exists>h e. createSimpleTcpDataPacket g fuel dl 14 eth data (word_of_nat (length data)) 0 s d sport dport seq ack_seq flags sec usec =
      Ret (h, e @ iphdr_bytes ?v 6 s d (iphdr_size ?v + word_of_nat (length ?th + length data)) @ ?th @ data) \<and> length e = 14 \<and>
      ph_caplen h = word_of_nat (14 + unat (iphdr_size ?v) + (length ?th + length data)) \<and> ph_sec h = sec \<and> ph_usec h = usec"
    unfolding lt l using e(2) by (intro exI [of _ "macs @ be_bytes 2 (ether_type_for ?v t)"] exI) (auto simp: add.assoc)
next
  show "length (tcphdr_bytes (port_val sport) (port_val dport) seq ack_seq flags) \<le> 60" by (simp add: tcphdr_bytes_def tcp_options_def)
next
  fix p m and data :: mem
  assume "drop p m = tcphdr_bytes (port_val sport) (port_val dport) seq ack_seq flags @ data"
  then show "get_tcp_header_len m p = Ret (length (tcphdr_bytes (port_val sport) (port_val dport) seq ack_seq flags))"
    using tcphdr_fields(4) by (simp add: tcphdr_bytes_def tcp_options_def)
qed simp

section \<open>Properties\<close>

text \<open>C19: A UDP frame made by \<open>createSimpleUdpDataPacket\<close> is read back by the parser: the link header leads to the IP header, the
  addresses, the protocol and the ports are the ones given, and the data found by \<open>get_udp_data_len\<close> are the given data, for both
  versions of IP and every length that fits into an IP packet.\<close>

theorem created_udp_parsed:
  assumes "src = macs @ be_bytes 2 t" and "length macs = 12" and "t = ETHERTYPE_IP \<or> t = ETHERTYPE_IPV6"
    and "vmIP_plain s" "vmIP_plain d" "vmIP_is_v6 s = vmIP_is_v6 d" and "length data < 65000"
  shows "\<exists>h pk k. createSimpleUdpDataPacket g 14 src data (word_of_nat (length data)) 0 s d sport dport sec usec = Ret (h, pk) \<and>
    unat (ph_caplen h) = length pk \<and> ph_len h = ph_caplen h \<and> ph_sec h = sec \<and> ph_usec h = usec \<and>
    parseEtherHeader fuel DLT_EN10MB pk = Ret (Some \<lparr>lk_eth = Some 0, lk_ppp_o_e = None, lk_ip_offset = 14,
      lk_protocol = (if vmIP_is_v6 s then ETHERTYPE_IPV6 else ETHERTYPE_IP), lk_vlan = VLAN_NOSET\<rparr>) \<and>
    iph_get_saddr pk 14 = Ret s \<and> iph_get_daddr pk 14 = Ret d \<and> iph_get_protocol 0 pk 14 = Ret 17 \<and> iph_get_hdr_size pk 14 = Ret (k, Some 17) \<and>
    udp_get_source pk (14 + unat k) = Ret (port_val sport) \<and> udp_get_dest pk (14 + unat k) = Ret (port_val dport) \<and>
    get_udp_data_len pk 14 (14 + unat k) (ph_caplen h) = Ret (14 + unat k + 8, word_of_nat (length data)) \<and>
    drop (14 + unat k + 8) pk = data"
proof -
  define k where "k = 14 + unat (iphdr_size (vmIP_is_v6 s))"
  obtain pk where f: "createSimpleUdpDataPacket g 14 src data (word_of_nat (length data)) 0 s d sport dport sec usec =
       Ret (\<lparr>ph_sec = sec, ph_usec = usec, ph_caplen = word_of_nat (k + 8 + length data), ph_len = word_of_nat (k + 8 + length data)\<rparr>, pk)"
    "length pk = k + 8 + length data" "unat (word_of_nat (k + 8 + length data) :: u32) = k + 8 + length data"
    "\<And>fuel. parseEtherHeader fuel DLT_EN10MB pk = Ret (Some \<lparr>lk_eth = Some 0, lk_ppp_o_e = None, lk_ip_offset = 14,
      lk_protocol = (if vmIP_is_v6 s then ETHERTYPE_IPV6 else ETHERTYPE_IP), lk_vlan = VLAN_NOSET\<rparr>)"
    "iph_get_saddr pk 14 = Ret s" "iph_get_daddr pk 14 = Ret d" "\<And>x. iph_get_protocol x pk 14 = Ret 17"
    "iph_get_hdr_size pk 14 = Ret (ucast (iphdr_size (vmIP_is_v6 s)), Some 17)"
    "udp_get_source pk k = Ret (port_val sport)" "udp_get_dest pk k = Ret (port_val dport)"
    "get_udp_data_len pk 14 k (word_of_nat (k + 8 + length data)) = Ret (k + 8, word_of_nat (length data))" "drop (k + 8) pk = data"
    by (rule created_udp_facts [OF assms k_def, of g sport dport sec usec]) blast
  show ?thesis
    by (intro exI [of _ pk] exI [of _ "ucast (iphdr_size (vmIP_is_v6 s)) :: u16"]
          exI [of _ "\<lparr>ph_sec = sec, ph_usec = usec, ph_caplen = word_of_nat (k + 8 + length data), ph_len = word_of_nat (k + 8 + length data)\<rparr>"])
       (use f in \<open>simp add: k_def [symmetric] del: of_nat_add\<close>)
qed


theorem created_udp_parsed_witness:
  "\<exists>h pk (k :: u16). createSimpleUdpDataPacket (\<lambda>_. 0) 14 [2,0,0,0,0,1,2,0,0,0,0,2,0x86,0xDD] [0x53,0x49,0x50] 3 0 (vmIP_v4 0x0A000001) (vmIP_v4 0x0A000002)
      (VmPort 5060) (VmPort 5061) 7 8 = Ret (h, pk) \<and> iph_get_saddr pk 14 = Ret (vmIP_v4 0x0A000001) \<and>
    get_udp_data_len pk 14 (14 + unat k) (ph_caplen h) = Ret (14 + unat k + 8, 3) \<and> drop (14 + unat k + 8) pk = [0x53,0x49,0x50]"
proof -
  have "[2,0,0,0,0,1,2,0,0,0,0,2,0x86,0xDD] = [2,0,0,0,0,1,2,0,0,0,0,2 :: u8] @ be_bytes 2 (0x86DD :: u16)" by (simp add: be_bytes_def word_le_def)
  note e = this
  have p: "vmIP_plain (vmIP_v4 0x0A000001)" "vmIP_plain (vmIP_v4 0x0A000002)" "vmIP_is_v6 (vmIP_v4 0x0A000001) = vmIP_is_v6 (vmIP_v4 0x0A000002)" by (simp_all add: vmIP_plain_def vmIP_is_v6_def vmIP_v4_def)
  have l: "length [2,0,0,0,0,1,2,0,0,0,0,2 :: u8] = 12" "length [0x53,0x49,0x50 :: u8] < 65000" by simp_all
  obtain h pk and k :: u16 where "createSimpleUdpDataPacket (\<lambda>_. 0) 14 [2,0,0,0,0,1,2,0,0,0,0,2,0x86,0xDD] [0x53,0x49,0x50] (word_of_nat (length [0x53,0x49,0x50 :: u8])) 0 (vmIP_v4 0x0A000001) (vmIP_v4 0x0A000002)
      (VmPort 5060) (VmPort 5061) 7 8 = Ret (h, pk)" "iph_get_saddr pk 14 = Ret (vmIP_v4 0x0A000001)"
      "get_udp_data_len pk 14 (14 + unat k) (ph_caplen h) = Ret (14 + unat k + 8, word_of_nat (length [0x53,0x49,0x50 :: u8]))" "drop (14 + unat k + 8) pk = [0x53,0x49,0x50]"
    using created_udp_parsed [OF e l(1) disjI2 [OF refl] p l(2), where g = "\<lambda>_. 0" and sport = "VmPort 5060" and dport = "VmPort 5061" and sec = 7 and usec = 8] by blast
  then show ?thesis by (intro exI [of _ h] exI [of _ pk] exI [of _ k]) simp
qed

text \<open>The same for \<open>createSimpleTcpDataPacket\<close>: the frame it makes is parsed back to the addresses, ports, sequence number and data
  it was made from; the data begin behind the header and its 12 bytes of options.\<close>

theorem created_tcp_parsed:
  assumes "src = macs @ be_bytes 2 t" and "length macs = 12" and "t = ETHERTYPE_IP \<or> t = ETHERTYPE_IPV6"
    and "vmIP_plain s" "vmIP_plain d" "vmIP_is_v6 s = vmIP_is_v6 d" and "length data < 65000"
  shows "\<exists>h pk k. createSimpleTcpDataPacket g fuel dl 14 src data (word_of_nat (length data)) 0 s d sport dport seq ack_seq flags sec usec = Ret (h, pk) \<and>
    unat (ph_caplen h) = length pk \<and> ph_len h = ph_caplen h \<and> ph_sec h = sec \<and> ph_usec h = usec \<and>
    parseEtherHeader fuel' DLT_EN10MB pk = Ret (Some \<lparr>lk_eth = Some 0, lk_ppp_o_e = None, lk_ip_offset = 14,
      lk_protocol = (if vmIP_is_v6 s then ETHERTYPE_IPV6 else ETHERTYPE_IP), lk_vlan = VLAN_NOSET\<rparr>) \<and>
    iph_get_saddr pk 14 = Ret s \<and> iph_get_daddr pk 14 = Ret d \<and> iph_get_protocol 0 pk 14 = Ret 6 \<and> iph_get_hdr_size pk 14 = Ret (k, Some 6) \<and>
    tcp_get_source pk (14 + unat k) = Ret (port_val sport) \<and> tcp_get_dest pk (14 + unat k) = Ret (port_val dport) \<and>
    omap ntohl (ld32 pk (14 + unat k + 4)) = Ret seq \<and> get_tcp_header_len pk (14 + unat k) = Ret 32 \<and>
    get_tcp_data_len pk 14 (14 + unat k) (ph_caplen h) = Ret (14 + unat k + 32, word_of_nat (length data)) \<and>
    drop (14 + unat k + 32) pk = data"
  by (rule created_tcp_facts [OF assms])

theorem created_tcp_parsed_witness:
  "\<exists>h pk (k :: u16). createSimpleTcpDataPacket (\<lambda>_. 0) 1 DLT_EN10MB 14 [2,0,0,0,0,1,2,0,0,0,0,2,0x08,0x00] [0x53,0x49,0x50] 3 0 (vmIP_v4 0x0A000001) (vmIP_v4 0x0A000002)
      (VmPort 5060) (VmPort 5061) 1000 2000 0 7 8 = Ret (h, pk) \<and> iph_get_daddr pk 14 = Ret (vmIP_v4 0x0A000002) \<and>
    get_tcp_data_len pk 14 (14 + unat k) (ph_caplen h) = Ret (14 + unat k + 32, 3) \<and> drop (14 + unat k + 32) pk = [0x53,0x49,0x50]"
proof -
  have "[2,0,0,0,0,1,2,0,0,0,0,2,0x08,0x00] = [2,0,0,0,0,1,2,0,0,0,0,2 :: u8] @ be_bytes 2 (0x0800 :: u16)" by (simp add: be_bytes_def word_le_def)
  note e = this
  have p: "vmIP_plain (vmIP_v4 0x0A000001)" "vmIP_plain (vmIP_v4 0x0A000002)" "vmIP_is_v6 (vmIP_v4 0x0A000001) = vmIP_is_v6 (vmIP_v4 0x0A000002)" by (simp_all add: vmIP_plain_def vmIP_is_v6_def vmIP_v4_def)
  have l: "length [2,0,0,0,0,1,2,0,0,0,0,2 :: u8] = 12" "length [0x53,0x49,0x50 :: u8] < 65000" by simp_all
  obtain h pk and k :: u16 where "createSimpleTcpDataPacket (\<lambda>_. 0) 1 DLT_EN10MB 14 [2,0,0,0,0,1,2,0,0,0,0,2,0x08,0x00] [0x53,0x49,0x50] (word_of_nat (length [0x53,0x49,0x50 :: u8])) 0 (vmIP_v4 0x0A000001) (vmIP_v4 0x0A000002)
      (VmPort 5060) (VmPort 5061) 1000 2000 0 7 8 = Ret (h, pk)" "iph_get_daddr pk 14 = Ret (vmIP_v4 0x0A000002)"
      "get_tcp_data_len pk 14 (14 + unat k) (ph_caplen h) = Ret (14 + unat k + 32, word_of_nat (length [0x53,0x49,0x50 :: u8]))" "drop (14 + unat k + 32) pk = [0x53,0x49,0x50]"
    using created_tcp_parsed [OF e l(1) disjI1 [OF refl] p l(2), where g = "\<lambda>_. 0" and fuel = 1 and dl = DLT_EN10MB and sport = "VmPort 5060" and dport = "VmPort 5061"
        and seq = 1000 and ack_seq = 2000 and flags = 0 and sec = 7 and usec = 8] by blast
  then show ?thesis by (intro exI [of _ h] exI [of _ pk] exI [of _ k]) simp
qed

end
