(* ===== verification/VM_HepFrame.thy ===== *)
theory VM_HepFrame
  imports VM_Hep VM_SimplePacket
begin

text \<open>
  What becomes of a HEP message after it has been read (\<open>processHep\<close> and \<open>pushPacket\<close> of \<open>hep.cpp\<close>): the frame built
  around the payload and the position of the payload in it that is handed to the packet processing. The queues
  behind \<open>pushPacket\<close> are not part of the model.
\<close>

definition hep_header_eth :: "bool \<Rightarrow> mem" where
  "hep_header_eth is_v6 = [0, 0, 0, 0, 0, 0, 0, 0, 0, 0, 0, 0] @ be_bytes 2 (if is_v6 then ETHERTYPE_IPV6 else ETHERTYPE_IP)"

definition hep_frame :: "(nat \<Rightarrow> u8) \<Rightarrow> nat \<Rightarrow> hep_packet \<Rightarrow> (pcap_pkthdr \<times> mem) outcome" where
  "hep_frame g fuel hp =
     (let payload_len = word_of_nat (length (hp_payload hp)); eth = hep_header_eth (hp_v6 hp) in
      if hp_tcp hp then
        createSimpleTcpDataPacket g fuel DLT_EN10MB 14 eth (hp_payload hp) payload_len 0 (hp_saddr hp) (hp_daddr hp) (hp_sport hp) (hp_dport hp)
          0 0 (hp_tcp_flags hp) (hp_sec hp) (hp_usec hp)
      else
        createSimpleUdpDataPacket g 14 eth (hp_payload hp) payload_len 0 (hp_saddr hp) (hp_daddr hp) (hp_sport hp) (hp_dport hp) (hp_sec hp) (hp_usec hp))"

definition push_data_offset :: "bool \<Rightarrow> mem \<Rightarrow> nat outcome" where
  "push_data_offset tcp pk =
     obind (iph_get_hdr_size pk 14) (\<lambda>(sz, _).
       omap (\<lambda>l. 14 + unat sz + l) (if tcp then get_tcp_header_len pk (14 + unat sz) else Ret 8))"

text \<open>The frame \<open>processHep\<close> builds for a message whose two addresses are of the same family (and whose IPv4 addresses set no other
  word) and whose payload has less than 65000 bytes: it has the addresses and the time stamp of the message, its IP packet carries TCP
  or UDP as the message says, and the data offset \<open>pushPacket\<close> computes leads to exactly the payload.\<close>

theorem hep_frame_payload:
  assumes "vmIP_plain (hp_saddr hp)" "vmIP_plain (hp_daddr hp)" "vmIP_is_v6 (hp_saddr hp) = vmIP_is_v6 (hp_daddr hp)"
    and "length (hp_payload hp) < 65000"
  shows "\<exists>h pk off. hep_frame g fuel hp = Ret (h, pk) \<and> unat (ph_caplen h) = length pk \<and> ph_sec h = hp_sec hp \<and> ph_usec h = hp_usec hp \<and>
    iph_get_saddr pk 14 = Ret (hp_saddr hp) \<and> iph_get_daddr pk 14 = Ret (hp_daddr hp) \<and>
    iph_get_protocol 0 pk 14 = Ret (if hp_tcp hp then 6 else 17) \<and>
    push_data_offset (hp_tcp hp) pk = Ret off \<and> drop off pk = hp_payload hp"
proof -
  have e: "eth_plain (hep_header_eth (hp_v6 hp))" by (simp add: eth_plain_def hep_header_eth_def)
  show ?thesis
  proof (cases "hp_tcp hp")
    case True
    then show ?thesis
      using tcp_frame.offset_leads_to_data [OF e assms, of g fuel DLT_EN10MB "hp_sport hp" "hp_dport hp" 0 0 "hp_tcp_flags hp" "hp_sec hp" "hp_usec hp"]
      by (simp add: hep_frame_def push_data_offset_def)
  next
    case False
    then show ?thesis
      using udp_frame.offset_leads_to_data [OF e assms, of g "hp_sport hp" "hp_dport hp" "hp_sec hp" "hp_usec hp"]
      by (simp add: hep_frame_def push_data_offset_def)
  qed
qed

theorem hep_frame_payload_witness:
  "\<exists>h pk off. hep_frame (\<lambda>_. 0) 1 \<lparr>hp_tcp = True, hp_v6 = True, hp_saddr = vmIP_v6 (1, 2, 3, 4), hp_daddr = vmIP_v6 (5, 6, 7, 8), hp_sport = VmPort 5060,
      hp_dport = VmPort 5061, hp_tcp_flags = 0, hp_sec = 9, hp_usec = 10, hp_payload = [1, 2, 3]\<rparr> = Ret (h, pk) \<and>
    iph_get_saddr pk 14 = Ret (vmIP_v6 (1, 2, 3, 4)) \<and> push_data_offset True pk = Ret off \<and> drop off pk = [1, 2, 3]"
proof -
  let ?hp = "\<lparr>hp_tcp = True, hp_v6 = True, hp_saddr = vmIP_v6 (1, 2, 3, 4), hp_daddr = vmIP_v6 (5, 6, 7, 8), hp_sport = VmPort 5060,
      hp_dport = VmPort 5061, hp_tcp_flags = 0, hp_sec = 9, hp_usec = 10, hp_payload = [1, 2, 3]\<rparr>"
  have "vmIP_plain (hp_saddr ?hp)" "vmIP_plain (hp_daddr ?hp)" "vmIP_is_v6 (hp_saddr ?hp) = vmIP_is_v6 (hp_daddr ?hp)" "length (hp_payload ?hp) < 65000"
    by (simp_all add: vmIP_plain_def vmIP_is_v6_def vmIP_v6_def)
  from hep_frame_payload [OF this, of "\<lambda>_. 0" 1] show ?thesis unfolding hep_packet.select_convs by blast
qed

end
