(* ===== verification/VM_Audiocodes.thy ===== *)
theory VM_Audiocodes
  imports VM_Link VM_IpKeys
begin

text \<open>
  The AudioCodes debug recording header (\<open>audiocodes.cpp\<close>, \<open>audiocodes.h\<close>): \<open>sAudiocodes::parse\<close> reads
  the header at position \<open>q\<close> of the packet buffer \<open>m\<close>; the length the caller passes is not used by the
  code, a read behind the buffer is \<open>OutOfBounds\<close>. The total header length is an 8-bit word that wraps.
\<close>

section \<open>Data\<close>

record sAudiocodes =
  ac_version :: u8
  ac_header_length :: u8
  ac_header_length_extension :: u8
  ac_header_length_total :: u8
  ac_timestamp :: u64
  ac_sequence_number :: u16
  ac_source_id :: u32
  ac_dest_id :: u32
  ac_extra_data :: u8
  ac_trace_point :: u8
  ac_media_type :: u8
  ac_payload_offset :: u8
  ac_session_id :: "u8 list"
  ac_session_id_length :: u8
  ac_packet_source_ip :: vmIP
  ac_packet_dest_ip :: vmIP
  ac_packet_source_port :: vmPort
  ac_packet_dest_port :: vmPort
  ac_ip_type_of_service :: u8
  ac_ip_protocol_type :: u8
  ac_packet_direction :: u8
  ac_payload_type :: u8

abbreviation (input) "ac_mt_T38 \<equiv> (3 :: u8)"

text \<open>The media types that share a branch: those with a payload type, the media streams, the signalling protocols.\<close>

definition ac_mt_payload_type :: "u8 \<Rightarrow> bool" where
  "ac_mt_payload_type t = (t \<in> {51, 52, 53, 54, 56})"

definition ac_mt_stream :: "u8 \<Rightarrow> bool" where
  "ac_mt_stream t = (t \<in> {1, 51, 52, 53, 54, 55, 56, 57, 58, 59, 60, 3, 2, 27, 28, 36, 61})"

definition ac_mt_signalling :: "u8 \<Rightarrow> bool" where
  "ac_mt_signalling t = (t \<in> {10, 11, 12, 13, 14})"

abbreviation (input) "ac_tp_Net2Dsp \<equiv> (0 :: u8)"
abbreviation (input) "ac_tp_Dsp2Net \<equiv> (1 :: u8)"
abbreviation (input) "ac_tp_System \<equiv> (6 :: u8)"

definition ac_tp_dsp :: "u8 \<Rightarrow> bool" where
  "ac_tp_dsp t = (t \<in> {33, 34})"

text \<open>Trace points of packets that come from the network, and of packets that go to it.\<close>

definition ac_tp_from_net :: "u8 \<Rightarrow> bool" where
  "ac_tp_from_net t = (t \<in> {0, 4, 18, 20, 27, 35})"

definition ac_tp_to_net :: "u8 \<Rightarrow> bool" where
  "ac_tp_to_net t = (t \<in> {1, 5, 17, 23, 24, 22, 21, 19, 28})"

section \<open>Operations\<close>

definition ac_init :: sAudiocodes where
  "ac_init = \<lparr>ac_version = 0, ac_header_length = 0, ac_header_length_extension = 0, ac_header_length_total = 0, ac_timestamp = 0,
     ac_sequence_number = 0, ac_source_id = 0, ac_dest_id = 0, ac_extra_data = 0, ac_trace_point = 0, ac_media_type = 0, ac_payload_offset = 0,
     ac_session_id = [0, 0, 0, 0, 0, 0, 0, 0, 0], ac_session_id_length = 0, ac_packet_source_ip = vmIP_v4 0, ac_packet_dest_ip = vmIP_v4 0,
     ac_packet_source_port = VmPort 0, ac_packet_dest_port = VmPort 0, ac_ip_type_of_service = 0, ac_ip_protocol_type = 0,
     ac_packet_direction = 0, ac_payload_type = 0\<rparr>"

definition ac_set_ip :: "vmIP \<Rightarrow> mem \<Rightarrow> nat \<Rightarrow> bool \<Rightarrow> vmIP outcome" where
  "ac_set_ip ip m p ipv6 =
     (if ipv6 then omap (\<lambda>a. vmIP_setIPv6 a True ip) (ld_in6 m p) else omap (\<lambda>a. vmIP_setIPv4 a True ip) (ld32 m p))"

definition ac_set_port :: "mem \<Rightarrow> nat \<Rightarrow> vmPort outcome" where
  "ac_set_port m p = omap (\<lambda>w. vmPort_setPort w True) (ld16 m p)"

text \<open>The header length and the length of an identifier by minor version.\<close>

definition ac_lengths :: "u8 \<Rightarrow> u8 \<times> nat" where
  "ac_lengths minor =
     (if minor < 5 then (15, 2) else if minor < 7 then (19, 2) else if minor = 7 then (23, 2) else if minor = 8 then (24, 2) else (28, 4))"

text \<open>Media type, trace point, extra data and the two identifiers; \<open>idl\<close> is \<open>id_length\<close>.\<close>

definition ac_parse_ids :: "mem \<Rightarrow> nat \<Rightarrow> nat \<Rightarrow> sAudiocodes \<Rightarrow> sAudiocodes outcome" where
  "ac_parse_ids m q idl a =
     obind (ld8 m (q + 9 + idl + idl)) (\<lambda>mt. obind (ld8 m (q + 8 + idl + idl)) (\<lambda>tp. obind (ld8 m (q + 7 + idl + idl)) (\<lambda>ed.
       let a = a\<lparr>ac_media_type := mt, ac_trace_point := tp, ac_extra_data := ed\<rparr> in
       if idl = 2 then
         obind (ldbe16 m (q + 7)) (\<lambda>s. omap (\<lambda>d. a\<lparr>ac_source_id := ucast s, ac_dest_id := ucast d\<rparr>) (ldbe16 m (q + 7 + idl)))
       else
         obind (ld32 m (q + 7)) (\<lambda>s. omap (\<lambda>d. a\<lparr>ac_source_id := ntohl s, ac_dest_id := ntohl d\<rparr>) (ld32 m (q + 7 + idl))))))"

text \<open>The time stamp of old versions is put together in 32 bits.\<close>

definition ac_parse_time :: "mem \<Rightarrow> nat \<Rightarrow> u8 \<Rightarrow> sAudiocodes \<Rightarrow> sAudiocodes outcome" where
  "ac_parse_time m q minor a =
     obind (ld32 m (q + 1)) (\<lambda>t.
       obind (if minor \<le> 3 then omap (\<lambda>u. push_bit 16 (ntohl t) OR ucast u) (ldbe16 m (q + 2)) else Ret (ntohl t)) (\<lambda>ts.
         let a = a\<lparr>ac_timestamp := ucast ts\<rparr> in
         if minor \<ge> 4 then omap (\<lambda>s. a\<lparr>ac_sequence_number := s\<rparr>) (ldbe16 m (q + 5)) else Ret a))"

definition ac_session_len :: "u8 \<Rightarrow> u8" where
  "ac_session_len minor = (if minor < 7 then 4 else if minor = 7 then 8 else 9)"

definition ac_parse_session :: "mem \<Rightarrow> nat \<Rightarrow> nat \<Rightarrow> u8 \<Rightarrow> sAudiocodes \<Rightarrow> sAudiocodes outcome" where
  "ac_parse_session m q idl minor a =
     obind (ld8 m (q + 10 + idl + idl)) (\<lambda>b.
       if minor < 5 then Ret (a\<lparr>ac_payload_offset := b\<rparr>)
       else
         (let n = ac_session_len minor in
          omap (\<lambda>bs. a\<lparr>ac_header_length_extension := b, ac_session_id_length := n,
                  ac_session_id := bs @ drop (unat n) (ac_session_id a)\<rparr>)
            (ldn (unat n) m (q + 11 + idl + idl))))"

definition ac_total :: "u8 \<Rightarrow> sAudiocodes \<Rightarrow> sAudiocodes" where
  "ac_total minor a =
     a\<lparr>ac_header_length_total := ac_header_length a + ac_header_length_extension a +
         (if minor \<ge> 3 \<and> ac_extra_data a AND 1 = 1 then 4 else 0)\<rparr>"

text \<open>The switch for T.38 and the media types with a payload type. The ports of T.38 are read into locals that nothing uses.\<close>

definition ac_payload :: "mem \<Rightarrow> nat \<Rightarrow> sAudiocodes \<Rightarrow> sAudiocodes outcome" where
  "ac_payload m q a =
     (let header_added = (ac_extra_data a AND 8 = 8 \<and> ac_extra_data a \<noteq> 0xAA); total = unat (ac_header_length_total a) in
      if ac_media_type a = ac_mt_T38 \<and> header_added then
        (let short = (ac_header_length_extension a = 12); off = (if short then int total - 8 else int total) in
         obind (if int q + off < 0 then OutOfBounds else ldbe16 m (nat (int q + off))) (\<lambda>_. obind (ldbe16 m (nat (int q + off) + 2)) (\<lambda>_.
           Ret (if short then a\<lparr>ac_header_length_extension := 4\<rparr> else a))))
      else if ac_media_type a = ac_mt_T38 \<or> ac_mt_payload_type (ac_media_type a) then
        omap (\<lambda>b. a\<lparr>ac_payload_type := b AND 0x7F\<rparr>) (ld8 m (q + total + 1))
      else Ret a)"

text \<open>The extension of a media packet. \<open>w\<close> selects the address the extension carries: the source for a packet from the network.\<close>

definition ac_ext_ip_bytes :: "u8 \<Rightarrow> bool \<Rightarrow> nat" where
  "ac_ext_ip_bytes minor ipv6 = (if minor = 3 then 16 else if minor \<ge> 4 then (if ipv6 then 16 else 4) else 4)"

definition ac_stream :: "mem \<Rightarrow> nat \<Rightarrow> u8 \<Rightarrow> bool \<Rightarrow> sAudiocodes \<Rightarrow> sAudiocodes outcome" where
  "ac_stream m q minor ipv6 a =
     (let n = ac_ext_ip_bytes minor ipv6; e = q + unat (ac_header_length a); t = ac_trace_point a;
          tos = ld8 m (e + n + 2 + 2); six = (minor \<ge> 3 \<and> ipv6) in
      if ac_tp_from_net t then
        obind (ac_set_ip (ac_packet_source_ip a) m e six) (\<lambda>ip.
          let a = a\<lparr>ac_packet_source_ip := ip\<rparr> in
          if ac_media_type a = ac_mt_T38 \<and> t = ac_tp_Net2Dsp \<and> ac_header_length_extension a = 4 then Ret a
          else obind (ac_set_port m (e + n)) (\<lambda>s. obind (ac_set_port m (e + n + 2)) (\<lambda>d.
            omap (\<lambda>b. a\<lparr>ac_packet_source_port := s, ac_packet_dest_port := d, ac_ip_type_of_service := b\<rparr>) tos)))
      else if ac_tp_to_net t then
        obind (ac_set_ip (ac_packet_dest_ip a) m e six) (\<lambda>ip.
          let a = a\<lparr>ac_packet_dest_ip := ip\<rparr> in
          if ac_media_type a = ac_mt_T38 \<and> t = ac_tp_Dsp2Net \<and> ac_header_length_extension a = 4 then Ret a
          else obind (ac_set_port m (e + n)) (\<lambda>d. obind (ac_set_port m (e + n + 2)) (\<lambda>s.
            omap (\<lambda>b. a\<lparr>ac_packet_dest_port := d, ac_packet_source_port := s, ac_ip_type_of_service := b\<rparr>) tos)))
      else Ret a)"

text \<open>The extension of a signalling packet: both ports are stored as the source port, the second one stays.\<close>

definition ac_signalling :: "mem \<Rightarrow> nat \<Rightarrow> sAudiocodes \<Rightarrow> sAudiocodes outcome" where
  "ac_signalling m q a =
     (let e = q + unat (ac_header_length a) in
      if ac_trace_point a = ac_tp_System then
        obind (ac_set_ip (ac_packet_source_ip a) m e False) (\<lambda>sip. obind (ac_set_ip (ac_packet_dest_ip a) m (e + 4) False) (\<lambda>dip.
          obind (ac_set_port m (e + 8)) (\<lambda>p1. obind (ac_set_port m (e + 10)) (\<lambda>p2.
            obind (ld8 m (e + 12)) (\<lambda>proto. omap (\<lambda>dir.
              a\<lparr>ac_packet_source_ip := sip, ac_packet_dest_ip := dip, ac_packet_source_port := p1,
                ac_packet_source_port := p2, ac_ip_protocol_type := proto, ac_packet_direction := dir\<rparr>) (ld8 m (e + 13)))))))
      else Ret a)"

definition ac_extension :: "mem \<Rightarrow> nat \<Rightarrow> u8 \<Rightarrow> sAudiocodes \<Rightarrow> sAudiocodes outcome" where
  "ac_extension m q minor a =
     obind (ac_payload m q a) (\<lambda>a.
       if ac_tp_dsp (ac_trace_point a) then Ret a
       else if ac_mt_stream (ac_media_type a) then ac_stream m q minor (ac_extra_data a AND 2 = 2) a
       else if ac_mt_signalling (ac_media_type a) then ac_signalling m q a
       else Ret a)"

text \<open>\<open>None\<close> is the result false.\<close>

definition ac_parse :: "mem \<Rightarrow> nat \<Rightarrow> sAudiocodes option outcome" where
  "ac_parse m q =
     obind (ld8 m q) (\<lambda>version.
       let minor = version AND 0xF; (hl, idl) = ac_lengths minor in
       if minor > 9 \<or> drop_bit 4 version AND 0xF \<noteq> 0 then Ret None
       else
         omap Some
           (obind (ac_parse_ids m q idl (ac_init\<lparr>ac_version := version, ac_header_length := hl\<rparr>)) (\<lambda>a.
             obind (ac_parse_time m q minor a) (\<lambda>a. obind (ac_parse_session m q idl minor a) (\<lambda>a.
               let a = ac_total minor a in
               if ac_header_length_extension a > 0 then ac_extension m q minor a else Ret a)))))"

section \<open>Where the packet inside stands\<close>

definition ac_carries_ip :: "sAudiocodes \<Rightarrow> bool" where
  "ac_carries_ip a = (ac_ip_protocol_type a = 17 \<or> ac_ip_protocol_type a = 6)"

definition ac_get_iphdr :: "sAudiocodes \<Rightarrow> nat \<Rightarrow> nat option" where
  "ac_get_iphdr a q = (if ac_carries_ip a then Some (q + unat (ac_header_length_total a)) else None)"

definition ac_get_hdr :: "u8 \<Rightarrow> sAudiocodes \<Rightarrow> mem \<Rightarrow> nat \<Rightarrow> nat option outcome" where
  "ac_get_hdr proto a m q =
     (case ac_get_iphdr a q of None \<Rightarrow> Ret None
      | Some ip \<Rightarrow> obind (iph_get_protocol 0 m ip) (\<lambda>p.
          if p = proto then omap (\<lambda>(size, _). Some (q + unat (ac_header_length_total a) + unat size)) (iph_get_hdr_size m ip) else Ret None))"

definition ac_get_udphdr :: "sAudiocodes \<Rightarrow> mem \<Rightarrow> nat \<Rightarrow> nat option outcome" where
  "ac_get_udphdr = ac_get_hdr 17"

definition ac_get_tcphdr :: "sAudiocodes \<Rightarrow> mem \<Rightarrow> nat \<Rightarrow> nat option outcome" where
  "ac_get_tcphdr = ac_get_hdr 6"

definition ac_get_data_offset :: "sAudiocodes \<Rightarrow> mem \<Rightarrow> nat \<Rightarrow> nat outcome" where
  "ac_get_data_offset a m q =
     (let total = unat (ac_header_length_total a) in
      case ac_get_iphdr a q of None \<Rightarrow> Ret total
      | Some ip \<Rightarrow> obind (iph_get_protocol 0 m ip) (\<lambda>p.
          if p = 17 then omap (\<lambda>(size, _). total + unat size + 8) (iph_get_hdr_size m ip)
          else if p = 6 then
            obind (iph_get_hdr_size m ip) (\<lambda>(size, _). omap (\<lambda>l. total + unat size + l) (get_tcp_header_len m (q + total + unat size)))
          else Ret total))"

definition ac_get_data :: "sAudiocodes \<Rightarrow> mem \<Rightarrow> nat \<Rightarrow> nat outcome" where
  "ac_get_data a m q = omap (\<lambda>off. q + off) (ac_get_data_offset a m q)"


section \<open>Signalling headers of the current version\<close>

text \<open>A version 9 header of a signalling packet: time stamp, sequence number, source and destination identifier, extra data, trace
  point, media type, length of the extension, session identifier, and the extension with the two endpoints.\<close>

definition ac_sip_bytes :: "u32 \<Rightarrow> u16 \<Rightarrow> u32 \<Rightarrow> u32 \<Rightarrow> u8 \<Rightarrow> u8 \<Rightarrow> u8 list \<Rightarrow> u32 \<Rightarrow> u32 \<Rightarrow> u16 \<Rightarrow> u16 \<Rightarrow> u8 \<Rightarrow> u8 \<Rightarrow> mem" where
  "ac_sip_bytes ts seqn src dst extra mt sid sip dip sport dport proto dir =
     [9] @ be_bytes 4 ts @ be_bytes 2 seqn @ be_bytes 4 src @ be_bytes 4 dst @ [extra, ac_tp_System, mt, 14] @ sid @
     be_bytes 4 sip @ be_bytes 4 dip @ be_bytes 2 sport @ be_bytes 2 dport @ [proto, dir]"

lemma ac_sip_reads:
  assumes "drop q m = ac_sip_bytes ts seqn src dst extra mt sid sip dip sport dport proto dir @ rest" and "length sid = 9"
  shows "ld8 m q = Ret 9" "ld32 m (q + 1) = Ret (ntohl ts)" "ldbe16 m (q + 5) = Ret seqn" "ld32 m (q + 7) = Ret (ntohl src)"
    "ld32 m (q + 11) = Ret (ntohl dst)" "ld8 m (q + 15) = Ret extra" "ld8 m (q + 16) = Ret ac_tp_System" "ld8 m (q + 17) = Ret mt"
    "ld8 m (q + 18) = Ret 14" "ldn 9 m (q + 19) = Ret sid" "ld32 m (q + 28) = Ret (ntohl sip)" "ld32 m (q + 32) = Ret (ntohl dip)"
    "ld16 m (q + 36) = Ret (ntohs sport)" "ld16 m (q + 38) = Ret (ntohs dport)" "ld8 m (q + 40) = Ret proto" "ld8 m (q + 41) = Ret dir"
proof -
  have d: "drop (q + k) m = drop k (ac_sip_bytes ts seqn src dst extra mt sid sip dip sport dport proto dir) @ rest" if "k \<le> 42" for k
    using drop_part [OF assms(1), of k] that assms(2) by (simp add: ac_sip_bytes_def)
  have w: "le_word (be_bytes 4 x) = ntohl x" "le_word (be_bytes 2 y) = ntohs y" for x y by (metis be_bytes_read ntohl_ntohl ntohs_ntohs)+
  note D = d [unfolded ac_sip_bytes_def]
  show "ld8 m q = Ret 9" using ld_at(4) [of q m "[9]"] assms(1) by (simp add: ac_sip_bytes_def)
  show "ld32 m (q + 1) = Ret (ntohl ts)" using ld_at(1) [of "q + 1" m "be_bytes 4 ts"] D [of 1] by (simp add: w)
  show "ldbe16 m (q + 5) = Ret seqn" by (rule ldbe16_be) (use D [of 5] in simp)
  show "ld32 m (q + 7) = Ret (ntohl src)" "ld32 m (q + 11) = Ret (ntohl dst)" 
    using ld_at(1) [of "q + 7" m "be_bytes 4 src"] D [of 7] ld_at(1) [of "q + 11" m "be_bytes 4 dst"] D [of 11] by (simp_all add: w)
  show "ld8 m (q + 15) = Ret extra" "ld8 m (q + 16) = Ret ac_tp_System" "ld8 m (q + 17) = Ret mt" "ld8 m (q + 18) = Ret 14"
    using ld_at(4) [of "q + 15" m "[extra]"] D [of 15] ld_at(4) [of "q + 16" m "[ac_tp_System]"] D [of 16]
      ld_at(4) [of "q + 17" m "[mt]"] D [of 17] ld_at(4) [of "q + 18" m "[14]"] D [of 18] by simp_all
  show "ldn 9 m (q + 19) = Ret sid" using ld_at(3) [of "q + 19" m sid] D [of 19] assms(2) by simp
  show "ld32 m (q + 28) = Ret (ntohl sip)" "ld32 m (q + 32) = Ret (ntohl dip)" 
    using ld_at(1) [of "q + 28" m "be_bytes 4 sip"] D [of 28] ld_at(1) [of "q + 32" m "be_bytes 4 dip"] D [of 32] assms(2) by (simp_all add: w)
  show "ld16 m (q + 36) = Ret (ntohs sport)" "ld16 m (q + 38) = Ret (ntohs dport)"
    using ld_at(2) [of "q + 36" m "be_bytes 2 sport"] D [of 36] ld_at(2) [of "q + 38" m "be_bytes 2 dport"] D [of 38] assms(2) by (simp_all add: w)
  show "ld8 m (q + 40) = Ret proto" "ld8 m (q + 41) = Ret dir"
    using ld_at(4) [of "q + 40" m "[proto]"] D [of 40] ld_at(4) [of "q + 41" m "[dir]"] D [of 41] assms(2) by simp_all
qed

text \<open>\<open>sAudiocodes::parse\<close> of a version 9 signalling header with its endpoints: every field is the one that was sent, but the
  destination port stays zero and the source port is the destination port of the packet, because both ports are stored into
  \<open>packet_source_port\<close>; the total length covers the extension and, with the MII bit, four bytes more.\<close>

theorem ac_parse_signalling:
  assumes "drop q m = ac_sip_bytes ts seqn src dst extra mt sid sip dip sport dport proto dir @ rest" and "length sid = 9" and "ac_mt_signalling mt"
  shows "ac_parse m q = Ret (Some (ac_init\<lparr>ac_version := 9, ac_header_length := 28, ac_header_length_extension := 14,
     ac_header_length_total := (if extra AND 1 = 1 then 46 else 42), ac_timestamp := ucast ts, ac_sequence_number := seqn,
     ac_source_id := src, ac_dest_id := dst, ac_extra_data := extra, ac_trace_point := ac_tp_System, ac_media_type := mt,
     ac_session_id := sid, ac_session_id_length := 9, ac_packet_source_ip := vmIP_v4 sip, ac_packet_dest_ip := vmIP_v4 dip,
     ac_packet_source_port := VmPort dport, ac_ip_protocol_type := proto, ac_packet_direction := dir\<rparr>))"
proof -
  note R = ac_sip_reads [OF assms(1,2)]
  note R' = R [unfolded add.commute [of q]]
  have mt: "mt \<noteq> 3" "\<not> ac_mt_payload_type mt" "\<not> ac_mt_stream mt" using assms(3)
    by (auto simp: ac_mt_signalling_def ac_mt_payload_type_def ac_mt_stream_def)
  have nine: "(9 :: u8) AND 0xF = 9" "ac_lengths 9 = (28, 4)" "ac_session_len 9 = 9" by (simp_all add: ac_lengths_def ac_session_len_def)
  have ids: "ac_parse_ids m q 4 a = Ret (a\<lparr>ac_media_type := mt, ac_trace_point := ac_tp_System, ac_extra_data := extra, ac_source_id := src, ac_dest_id := dst\<rparr>)" for a
    using R R' by (simp add: ac_parse_ids_def)
  have tim: "ac_parse_time m q 9 a = Ret (a\<lparr>ac_timestamp := ucast ts, ac_sequence_number := seqn\<rparr>)" for a using R by (simp add: ac_parse_time_def)
  have ses: "length (ac_session_id a) = 9 \<Longrightarrow>
      ac_parse_session m q 4 9 a = Ret (a\<lparr>ac_header_length_extension := 14, ac_session_id_length := 9, ac_session_id := sid\<rparr>)" for a
    using R R' by (simp add: ac_parse_session_def nine)
  have pay: "ac_media_type a = mt \<Longrightarrow> ac_payload m q a = Ret a" for a using mt by (simp add: ac_payload_def Let_def)
  have ips: "ac_set_ip ip m (q + 28) False = Ret (ip\<lparr>addr3 := sip, v6 := 0\<rparr>)" "ac_set_ip ip m (q + 32) False = Ret (ip\<lparr>addr3 := dip, v6 := 0\<rparr>)" for ip
    using R by (simp_all add: ac_set_ip_def vmIP_setIPv4_def)
  have pts: "ac_set_port m (q + 36) = Ret (VmPort sport)" "ac_set_port m (q + 38) = Ret (VmPort dport)"
    using R by (simp_all add: ac_set_port_def vmPort_setPort_def)
  have sg: "ac_header_length a = 28 \<Longrightarrow> ac_trace_point a = ac_tp_System \<Longrightarrow> ac_signalling m q a =
     Ret (a\<lparr>ac_packet_source_ip := (ac_packet_source_ip a)\<lparr>addr3 := sip, v6 := 0\<rparr>, ac_packet_dest_ip := (ac_packet_dest_ip a)\<lparr>addr3 := dip, v6 := 0\<rparr>,
       ac_packet_source_port := VmPort dport, ac_ip_protocol_type := proto, ac_packet_direction := dir\<rparr>)" for a
    using ips ips [unfolded add.commute [of q]] pts [unfolded add.commute [of q]] R' by (simp add: ac_signalling_def)
  have ext: "ac_media_type a = mt \<Longrightarrow> ac_trace_point a = ac_tp_System \<Longrightarrow> ac_extension m q 9 a = ac_signalling m q a" for a
    using mt assms(3) pay by (simp add: ac_extension_def ac_tp_dsp_def)
  show ?thesis using R(1) nine ids tim ses ext sg
    by (simp add: ac_parse_def Let_def ac_total_def ac_init_def vmIP_v4_def)
qed

theorem ac_parse_signalling_witness:
  "ac_parse [9, 0,0,0,1, 0,2, 0,0,0,3, 0,0,0,4, 0, 6, 10, 14, 1,2,3,4,5,6,7,8,9, 10,0,0,1, 10,0,0,2, 0x13,0xC4, 0x13,0xC5, 17, 1] 0 =
     Ret (Some (ac_init\<lparr>ac_version := 9, ac_header_length := 28, ac_header_length_extension := 14,
     ac_header_length_total := 42, ac_timestamp := 1, ac_sequence_number := 2, ac_source_id := 3, ac_dest_id := 4,
     ac_extra_data := 0, ac_trace_point := 6, ac_media_type := 10, ac_session_id := [1,2,3,4,5,6,7,8,9], ac_session_id_length := 9,
     ac_packet_source_ip := vmIP_v4 0x0A000001, ac_packet_dest_ip := vmIP_v4 0x0A000002,
     ac_packet_source_port := VmPort 5061, ac_ip_protocol_type := 17, ac_packet_direction := 1\<rparr>))"
proof -
  have "drop 0 [9, 0,0,0,1, 0,2, 0,0,0,3, 0,0,0,4, 0, 6, 10, 14, 1,2,3,4,5,6,7,8,9, 10,0,0,1, 10,0,0,2, 0x13,0xC4, 0x13,0xC5, 17, 1] =
      ac_sip_bytes 1 2 3 4 0 10 [1,2,3,4,5,6,7,8,9] 0x0A000001 0x0A000002 5060 5061 17 1 @ []"
    by (simp add: ac_sip_bytes_def be_bytes_def word_le_def)
  from ac_parse_signalling [OF this] show ?thesis by (simp add: ac_mt_signalling_def)
qed

section \<open>Bounds\<close>

text \<open>The code reads at most 260 bytes, whatever the header says; it never asks for the length it was given.\<close>

lemma ld_in6_returns: "p + 16 \<le> length m \<Longrightarrow> returns (ld_in6 m p)"
  by (simp add: ld_in6_def mem_simps)

lemma returns_obind: "returns x \<Longrightarrow> (\<And>a. x = Ret a \<Longrightarrow> returns (f a)) \<Longrightarrow> returns (obind x f)"
  by (cases x) auto

lemma returns_omap [simp]: "returns (omap f x) = returns x"
  by (cases x) auto

lemma ld_returns: "p < length m \<Longrightarrow> returns (ld8 m p)" "p + 2 \<le> length m \<Longrightarrow> returns (ld16 m p)" "p + 2 \<le> length m \<Longrightarrow> returns (ldbe16 m p)"
   "p + 4 \<le> length m \<Longrightarrow> returns (ld32 m p)" "p + n \<le> length m \<Longrightarrow> returns (ldn n m p)"
  by (simp_all add: mem_simps ldbe16_def)

lemma ac_set_returns: "p + 16 \<le> length m \<Longrightarrow> returns (ac_set_ip ip m p six)" "p + 2 \<le> length m \<Longrightarrow> returns (ac_set_port m p)"
  by (simp_all add: ac_set_ip_def ac_set_port_def ld_in6_returns ld_returns)

lemmas ac_returns = returns_obind ld_returns ac_set_returns

lemma ac_payload_returns:
  assumes "q + 260 \<le> length m" and "ac_header_length_extension a = 12 \<Longrightarrow> 8 \<le> unat (ac_header_length_total a)"
  shows "returns (ac_payload m q a)"
proof -
  define total where "total = unat (ac_header_length_total a)"
  have t: "total < 256" by (simp add: total_def)
  define off where "off = (if ac_header_length_extension a = 12 then int total - 8 else int total)"
  have "0 \<le> off" "off < 256" using assms(2) [folded total_def] t by (simp_all add: off_def)
  then have o: "\<not> int q + off < 0" "nat (int q + off) + 4 \<le> length m" using assms(1) by linarith+
  then have "returns (ldbe16 m (nat (int q + off)))" "returns (ldbe16 m (nat (int q + off) + 2))" by (auto intro!: ld_returns)
  moreover have "returns (ld8 m (q + total + 1))" using assms(1) t by (intro ld_returns) simp
  ultimately show ?thesis using o unfolding ac_payload_def Let_def total_def [symmetric] off_def [symmetric] by (auto intro!: returns_obind)
qed

lemma ac_payload_keeps:
  assumes "ac_payload m q a = Ret b"
  shows "ac_header_length b = ac_header_length a"
  using assms by (auto simp: ac_payload_def Let_def obind_Ret_iff omap_Ret_iff split: if_splits)

lemma ac_stream_returns:
  assumes "q + 260 \<le> length m" and "ac_header_length a \<le> 28"
  shows "returns (ac_stream m q minor ipv6 a)"
proof -
  have e: "q + unat (ac_header_length a) + 100 \<le> length m" using assms by (simp add: word_le_nat_alt)
  have n: "ac_ext_ip_bytes minor ipv6 \<le> 16" by (simp add: ac_ext_ip_bytes_def)
  show ?thesis using e n unfolding ac_stream_def Let_def
    by (auto intro!: ac_returns split del: if_split split: if_split)
qed

lemma ac_signalling_returns:
  assumes "q + 260 \<le> length m" and "ac_header_length a \<le> 28"
  shows "returns (ac_signalling m q a)"
proof -
  have e: "q + unat (ac_header_length a) + 100 \<le> length m" using assms by (simp add: word_le_nat_alt)
  show ?thesis using e unfolding ac_signalling_def Let_def by (auto intro!: ac_returns)
qed

lemma ac_extension_returns:
  assumes "q + 260 \<le> length m" and "ac_header_length a \<le> 28" and "ac_header_length_extension a = 12 \<Longrightarrow> 8 \<le> unat (ac_header_length_total a)"
  shows "returns (ac_extension m q minor a)"
  using ac_payload_returns [OF assms(1,3)] ac_stream_returns [OF assms(1)] ac_signalling_returns [OF assms(1)] assms(2)
  by (auto simp: ac_extension_def ac_payload_keeps intro!: returns_obind)

lemma ac_lengths_cases: "ac_lengths minor = (hl, idl) \<Longrightarrow> 15 \<le> hl \<and> hl \<le> 28 \<and> (idl = 2 \<or> idl = 4)"
  by (auto simp: ac_lengths_def split: if_splits)

lemma ac_total_twelve:
  assumes "15 \<le> ac_header_length a" "ac_header_length a \<le> 28" and "ac_header_length_extension (ac_total minor a) = 12"
  shows "8 \<le> unat (ac_header_length_total (ac_total minor a))"
proof -
  have "15 \<le> unat (ac_header_length a)" "unat (ac_header_length a) \<le> 28" using assms(1,2) by (simp_all add: word_le_nat_alt)
  then show ?thesis using assms(3) by (simp add: ac_total_def unat_word_ariths)
qed

lemma ac_parse_parts:
  assumes "q + 260 \<le> length m" and "idl = 2 \<or> idl = 4"
  shows "\<exists>b. ac_parse_ids m q idl a = Ret b \<and> ac_header_length b = ac_header_length a"
    "\<exists>b. ac_parse_time m q minor a = Ret b \<and> ac_header_length b = ac_header_length a"
    "\<exists>b. ac_parse_session m q idl minor a = Ret b \<and> ac_header_length b = ac_header_length a"
proof -
  have s: "unat (ac_session_len minor) \<le> 9" by (simp add: ac_session_len_def)
  show "\<exists>b. ac_parse_ids m q idl a = Ret b \<and> ac_header_length b = ac_header_length a" using assms by (auto simp: ac_parse_ids_def Let_def mem_simps ldbe16_def)
  show "\<exists>b. ac_parse_time m q minor a = Ret b \<and> ac_header_length b = ac_header_length a" using assms by (auto simp: ac_parse_time_def Let_def mem_simps ldbe16_def)
  show "\<exists>b. ac_parse_session m q idl minor a = Ret b \<and> ac_header_length b = ac_header_length a" using assms s by (auto simp: ac_parse_session_def Let_def mem_simps)
qed

text \<open>\<open>sAudiocodes::parse\<close> stays inside a buffer that has 260 bytes behind the start of the header, for every content of it.\<close>

theorem ac_parse_bounded:
  assumes "q + 260 \<le> length m"
  shows "returns (ac_parse m q)"
proof -
  obtain hl idl where l: "ac_lengths (m ! q AND 0xF) = (hl, idl)" by (cases "ac_lengths (m ! q AND 0xF)")
  note c = ac_lengths_cases [OF l]
  have "idl = 2 \<or> idl = 4" using c by simp
  note p = ac_parse_parts [OF assms this]
  have v: "ld8 m q = Ret (m ! q)" using assms by (simp add: ld8_def)
  obtain a1 where a1: "ac_parse_ids m q idl (ac_init\<lparr>ac_version := m ! q, ac_header_length := hl\<rparr>) = Ret a1" "ac_header_length a1 = hl" using p(1) by fastforce
  obtain a2 where a2: "ac_parse_time m q (m ! q AND 0xF) a1 = Ret a2" "ac_header_length a2 = hl" using p(2) a1(2) by metis
  obtain a3 where a3: "ac_parse_session m q idl (m ! q AND 0xF) a2 = Ret a3" "ac_header_length a3 = hl" using p(3) a2(2) by metis
  have t: "ac_header_length (ac_total (m ! q AND 0xF) a3) = hl" using a3(2) by (simp add: ac_total_def)
  have "returns (ac_extension m q (m ! q AND 0xF) (ac_total (m ! q AND 0xF) a3))"
    using c a3(2) t by (intro ac_extension_returns [OF assms]) (auto intro: ac_total_twelve)
  then show ?thesis unfolding ac_parse_def v obind.simps Let_def l prod.case a1(1) a2(1) a3(1) by simp
qed

theorem ac_parse_bounded_witness: "returns (ac_parse (3 # replicate 259 255) 0)"
  by (rule ac_parse_bounded) simp

text \<open>Without that room the parser reads behind the data it was given: the length is ignored.\<close>

lemma ac_parse_short: "ac_parse [9, 0, 0, 0] 0 = OutOfBounds"
  by (simp add: ac_parse_def ac_lengths_def ac_parse_ids_def ld8_def)

end
