(* ===== verification/VM_Encaps.thy ===== *)
theory VM_Encaps
  imports VM_Audiocodes VM_SimplePacket
begin

text \<open>
  The search for an IP header inside an IP packet (\<open>findNextHeaderIp\<close> and \<open>convertHeaderIP_GRE\<close> of
  \<open>sniff_inline.cpp\<close>): IP in IP, GRE with ERSPAN and MPLS, L2TP, TZSP, VXLAN, HP ERM, AudioCodes and ICMP.
  \<open>ip\<close> is the position of the outer header in the packet \<open>m\<close>. The GRE loops take fuel; a read behind the
  packet is \<open>OutOfBounds\<close>. Lengths that the code computes in \<open>size_t\<close> without a possible wrap are natural numbers.
\<close>

section \<open>Conditions that read the packet\<close>

text \<open>\<open>&&\<close>, \<open>||\<close> and \<open>if\<close> on conditions that read memory: the second operand is not read when the first decides.\<close>

definition oand :: "bool outcome \<Rightarrow> bool outcome \<Rightarrow> bool outcome" where
  "oand a b = obind a (\<lambda>x. if x then b else Ret False)"

definition oor :: "bool outcome \<Rightarrow> bool outcome \<Rightarrow> bool outcome" where
  "oor a b = obind a (\<lambda>x. if x then Ret True else b)"

definition oif :: "bool outcome \<Rightarrow> 'a outcome \<Rightarrow> 'a outcome \<Rightarrow> 'a outcome" where
  "oif c a b = obind c (\<lambda>x. if x then a else b)"

definition hdr_size :: "mem \<Rightarrow> nat \<Rightarrow> nat outcome" where
  "hdr_size m ip = omap (\<lambda>(sz, _). unat sz) (iph_get_hdr_size m ip)"

section \<open>GRE\<close>

text \<open>The flags of the GRE header: version in the low bits of the second byte, sequence and key in the first.\<close>

record gre_hdr =
  gre_seq :: bool
  gre_key :: bool
  gre_version :: u8
  gre_protocol :: u16

definition ld_gre :: "mem \<Rightarrow> nat \<Rightarrow> gre_hdr outcome" where
  "ld_gre m p =
     obind (ld8 m p) (\<lambda>a. obind (ld8 m (p + 1)) (\<lambda>b. omap (\<lambda>w.
       \<lparr>gre_seq = a AND 0x10 \<noteq> 0, gre_key = a AND 0x20 \<noteq> 0, gre_version = b AND 7, gre_protocol = w\<rparr>) (ldbe16 m (p + 2))))"

definition is_ip_type :: "u16 \<Rightarrow> bool" where
  "is_ip_type t = (t = ETHERTYPE_IP \<or> t = ETHERTYPE_IPV6)"

fun gre_vlan_loop :: "nat \<Rightarrow> mem \<Rightarrow> nat \<Rightarrow> u32 \<Rightarrow> (u16 \<times> u32) outcome" where
  "gre_vlan_loop 0 m eth off = OutOfFuel"
| "gre_vlan_loop (Suc k) m eth off =
     obind (ldbe16 m (eth + ETHER_SIZE + unat off + 2)) (\<lambda>protocol.
       if protocol = 0x8100 then gre_vlan_loop k m eth (off + 4) else Ret (protocol, off + 4))"

definition gre_eth_offset :: "gre_hdr \<Rightarrow> nat" where
  "gre_eth_offset g = 4 + (if gre_seq g then 4 else 0) + (if gre_key g then 4 else 0)"

definition gre_erspan :: "gre_hdr \<Rightarrow> bool" where
  "gre_erspan g = (gre_protocol g = 0x88BE \<and> gre_seq g \<or> gre_protocol g = 0x22EB)"

definition erspan_length :: "mem \<Rightarrow> nat \<Rightarrow> nat outcome" where
  "erspan_length m p =
     obind (ld8 m p) (\<lambda>b.
       if drop_bit 4 b = 2 then omap (\<lambda>c. if c AND 1 \<noteq> 0 then 20 else 12) (ld8 m (p + 11)) else Ret 8)"

text \<open>The ethernet frame in a GRE packet; the result is the position of its IP header.\<close>

definition gre_ethernet :: "nat \<Rightarrow> mem \<Rightarrow> nat \<Rightarrow> nat \<Rightarrow> gre_hdr \<Rightarrow> nat option outcome" where
  "gre_ethernet fuel m ip sz g =
     (let p = ip + sz + gre_eth_offset g in
      obind (if gre_erspan g then erspan_length m p else Ret 0) (\<lambda>n.
        let eth = p + n in
        obind (ldbe16 m (eth + 12)) (\<lambda>t.
          omap (\<lambda>(protocol, off). if is_ip_type protocol then Some (eth + ETHER_SIZE + unat off) else None)
            (if t = 0x8100 then gre_vlan_loop fuel m eth 0 else Ret (t, 0)))))"

text \<open>The MPLS labels in a GRE packet; this loop is bounded by the captured length.\<close>

fun gre_mpls_loop :: "nat \<Rightarrow> mem \<Rightarrow> nat \<Rightarrow> u32 \<Rightarrow> u32 \<Rightarrow> u32 outcome" where
  "gre_mpls_loop 0 m ip off max_len = OutOfFuel"
| "gre_mpls_loop (Suc k) m ip off max_len =
     obind (ld8 m (ip + unat off + 2)) (\<lambda>b.
       let off = off + 4 in
       if b AND 1 = 0 \<and> unat (off + 4) + 20 < unat max_len then gre_mpls_loop k m ip off max_len else Ret off)"

definition gre_mpls :: "nat \<Rightarrow> mem \<Rightarrow> nat \<Rightarrow> nat \<Rightarrow> u32 \<Rightarrow> nat option outcome" where
  "gre_mpls fuel m ip sz max_len =
     obind (gre_mpls_loop fuel m ip (word_of_nat (sz + 4)) max_len) (\<lambda>off.
       omap (\<lambda>ok. if ok then Some (ip + unat off) else None) (iph_version_is_ok m (ip + unat off)))"

definition convertHeaderIP_GRE :: "nat \<Rightarrow> mem \<Rightarrow> nat \<Rightarrow> u32 \<Rightarrow> nat option outcome" where
  "convertHeaderIP_GRE fuel m ip max_len =
     obind (hdr_size m ip) (\<lambda>sz. obind (ld_gre m (ip + sz)) (\<lambda>g.
       let proto = gre_protocol g; version_ok = iph_version_is_ok m (ip + sz + 4) in
       if gre_version g = 0 \<and> (proto = 0x6558 \<or> proto = 0x88BE \<or> proto = 0x22EB) then gre_ethernet fuel m ip sz g
       else if gre_version g \<noteq> 0 then Ret None
       else if proto = 0x800 then oif version_ok (Ret (Some (ip + sz + 4))) (gre_mpls fuel m ip sz max_len)
       else if proto = 0x8847 then gre_mpls fuel m ip sz max_len
       else Ret None))"

section \<open>UDP tunnels\<close>

record encaps_opts =
  opt_udp_port_l2tp :: u32
  opt_udp_port_tzsp :: u32
  opt_udp_port_vxlan :: u32
  opt_udp_port_hperm :: u32
  opt_icmp_process_data :: bool
  opt_audiocodes :: bool
  opt_udp_port_audiocodes :: u32
  opt_tcp_port_audiocodes :: u32

text \<open>The ports and the length field of the UDP header, or the ports of the TCP header, behind the outer header.\<close>

definition tr_dest :: "mem \<Rightarrow> nat \<Rightarrow> u32 outcome" where
  "tr_dest m ip = obind (hdr_size m ip) (\<lambda>s. omap ucast (udp_get_dest m (ip + s)))"

definition tr_source :: "mem \<Rightarrow> nat \<Rightarrow> u32 outcome" where
  "tr_source m ip = obind (hdr_size m ip) (\<lambda>s. omap ucast (udp_get_source m (ip + s)))"

definition udp_len_above :: "nat \<Rightarrow> mem \<Rightarrow> nat \<Rightarrow> bool outcome" where
  "udp_len_above n m ip = obind (hdr_size m ip) (\<lambda>s. omap (\<lambda>w. unat w > n) (ldbe16 m (ip + s + 4)))"

definition port_is :: "u32 outcome \<Rightarrow> u32 \<Rightarrow> bool outcome" where
  "port_is p opt = omap (\<lambda>w. w = opt) p"

definition IS_RTP :: "mem \<Rightarrow> nat \<Rightarrow> nat \<Rightarrow> bool outcome" where
  "IS_RTP m p len = (if len \<ge> 2 then omap (\<lambda>w. w AND 0xC000 = 0x8000) (ldbe16 m p) else Ret False)"

definition is_plain_rtp :: "mem \<Rightarrow> nat \<Rightarrow> u32 \<Rightarrow> u32 \<Rightarrow> u8 \<Rightarrow> bool outcome" where
  "is_plain_rtp m ip header_ip_offset caplen proto =
     oand (Ret (proto = 17))
       (obind (iph_get_tot_len m ip) (\<lambda>tot_len.
         if tot_len + header_ip_offset = caplen then
           obind (hdr_size m ip) (\<lambda>s.
             if unat tot_len > s + 8 then IS_RTP m (ip + s + 8) (unat tot_len - s - 8) else Ret False)
         else Ret False))"

definition is_l2tp :: "encaps_opts \<Rightarrow> mem \<Rightarrow> nat \<Rightarrow> u8 \<Rightarrow> bool outcome" where
  "is_l2tp opt m ip proto =
     oand (Ret (opt_udp_port_l2tp opt \<noteq> 0 \<and> proto = 17))
       (oand (port_is (tr_dest m ip) (opt_udp_port_l2tp opt)) (oand (port_is (tr_source m ip) (opt_udp_port_l2tp opt)) (udp_len_above 18 m ip)))"

definition next_l2tp :: "mem \<Rightarrow> nat \<Rightarrow> nat outcome" where
  "next_l2tp m ip =
     obind (hdr_size m ip) (\<lambda>s. obind (ldbe16 m (ip + s + 8)) (\<lambda>flags.
       let ptp = s + 8 + (if flags AND 0x4000 \<noteq> 0 then 8 else 6) in
       obind (ld8 m (ip + ptp + 1)) (\<lambda>control.
         if control = 3 then omap (\<lambda>p. if p = 0x0021 then ptp + 4 else 0) (ldbe16 m (ip + ptp + 2)) else Ret 0)))"

definition is_tzsp :: "encaps_opts \<Rightarrow> mem \<Rightarrow> nat \<Rightarrow> u8 \<Rightarrow> bool outcome" where
  "is_tzsp opt m ip proto =
     oand (Ret (opt_udp_port_tzsp opt \<noteq> 0 \<and> proto = 17))
       (oand (oor (port_is (tr_dest m ip) (opt_udp_port_tzsp opt)) (port_is (tr_source m ip) (opt_udp_port_tzsp opt))) (udp_len_above 27 m ip))"

text \<open>The search for the end tag; at most five steps, so the recursion is on the number of steps left.\<close>

fun tzsp_loop :: "nat \<Rightarrow> mem \<Rightarrow> nat \<Rightarrow> u32 \<Rightarrow> nat \<Rightarrow> u32 \<Rightarrow> nat outcome" where
  "tzsp_loop 0 m p off len caplen = Ret len"
| "tzsp_loop (Suc k) m p off len caplen =
     obind (ld8 m (p + len - 1)) (\<lambda>b.
       if b \<noteq> 1 then (if unat (off + word_of_nat len) + ETHER_SIZE < unat caplen then tzsp_loop k m p off (len + 1) caplen else Ret len) else Ret len)"

definition next_tzsp :: "mem \<Rightarrow> nat \<Rightarrow> u32 \<Rightarrow> u32 \<Rightarrow> nat outcome" where
  "next_tzsp m ip header_ip_offset caplen =
     obind (hdr_size m ip) (\<lambda>s. let p = ip + s + 8 in
       obind (ld8 m p) (\<lambda>version.
         if version = 1 then
           obind (ldbe16 m (p + 2)) (\<lambda>proto.
             if proto = 1 then
               obind (tzsp_loop 5 m p (header_ip_offset + word_of_nat (s + 8)) 5 caplen) (\<lambda>len.
                 omap (\<lambda>b. if b = 1 then s + 8 + len + ETHER_SIZE else 0) (ld8 m (p + len - 1)))
             else Ret 0)
         else Ret 0))"

definition is_vxlan :: "encaps_opts \<Rightarrow> mem \<Rightarrow> nat \<Rightarrow> u8 \<Rightarrow> bool outcome" where
  "is_vxlan opt m ip proto =
     oand (Ret (opt_udp_port_vxlan opt \<noteq> 0 \<and> proto = 17))
       (oand (port_is (tr_dest m ip) (opt_udp_port_vxlan opt)) (udp_len_above 50 m ip))"

text \<open>The frame behind a tunnel header of \<open>n\<close> bytes.\<close>

definition next_frame :: "mem \<Rightarrow> nat \<Rightarrow> nat \<Rightarrow> nat outcome" where
  "next_frame m ip off =
     obind (ldbe16 m (ip + off + 12)) (\<lambda>t.
       if is_ip_type t then omap (\<lambda>ok. if ok then off + ETHER_SIZE else 0) (iph_version_is_ok m (ip + off + ETHER_SIZE)) else Ret 0)"

definition next_vxlan :: "mem \<Rightarrow> nat \<Rightarrow> nat outcome" where
  "next_vxlan m ip =
     obind (hdr_size m ip) (\<lambda>s. obind (ld8 m (ip + s + 8)) (\<lambda>b. if b = 8 then next_frame m ip (s + 8 + 8) else Ret 0))"

definition is_hperm :: "encaps_opts \<Rightarrow> mem \<Rightarrow> nat \<Rightarrow> u8 \<Rightarrow> bool outcome" where
  "is_hperm opt m ip proto =
     oand (Ret (opt_udp_port_hperm opt \<noteq> 0 \<and> proto = 17))
       (oand (port_is (tr_dest m ip) (opt_udp_port_hperm opt)) (udp_len_above 52 m ip))"

definition next_hperm :: "mem \<Rightarrow> nat \<Rightarrow> nat outcome" where
  "next_hperm m ip = obind (hdr_size m ip) (\<lambda>s. next_frame m ip (s + 8 + 12))"

section \<open>AudioCodes and ICMP\<close>

definition is_audiocodes :: "encaps_opts \<Rightarrow> mem \<Rightarrow> nat \<Rightarrow> u8 \<Rightarrow> bool outcome" where
  "is_audiocodes opt m ip proto =
     oand (Ret (opt_audiocodes opt))
       (oor (oand (Ret (opt_udp_port_audiocodes opt \<noteq> 0 \<and> proto = 17))
               (oor (port_is (tr_source m ip) (opt_udp_port_audiocodes opt)) (port_is (tr_dest m ip) (opt_udp_port_audiocodes opt))))
            (oand (Ret (opt_tcp_port_audiocodes opt \<noteq> 0 \<and> proto = 6))
               (oor (port_is (tr_source m ip) (opt_tcp_port_audiocodes opt)) (port_is (tr_dest m ip) (opt_tcp_port_audiocodes opt)))))"

text \<open>The offset of the IP header behind the AudioCodes header and whether the flag is set.\<close>

definition next_audiocodes :: "mem \<Rightarrow> nat \<Rightarrow> u32 \<Rightarrow> u8 \<Rightarrow> (nat \<times> bool) outcome" where
  "next_audiocodes m ip caplen proto =
     obind (hdr_size m ip) (\<lambda>s.
       obind (if proto = 17 then omap (\<lambda>(data, _). (data, 8)) (get_udp_data_len m ip (ip + s) caplen)
              else obind (get_tcp_data_len m ip (ip + s) caplen) (\<lambda>(data, _). omap (\<lambda>l. (data, l)) (get_tcp_header_len m (ip + s)))) (\<lambda>(data, hl).
         omap (\<lambda>r. case r of None \<Rightarrow> (0, False)
                   | Some a \<Rightarrow> if ac_carries_ip a then (s + hl + unat (ac_header_length_total a), True) else (0, False))
           (ac_parse m data)))"

text \<open>An ICMP destination unreachable message carries the header of the packet it is about.\<close>

definition next_icmp :: "mem \<Rightarrow> nat \<Rightarrow> nat option outcome" where
  "next_icmp m ip =
     obind (iph_get_tot_len m ip) (\<lambda>tot_len. obind (hdr_size m ip) (\<lambda>s.
       if unat tot_len > s + 8 + 20 then
         oif (oand (omap (\<lambda>b. b = 3) (ld8 m (ip + s))) (iph_version_is_ok m (ip + s + 8))) (Ret (Some (s + 8))) (Ret None)
       else Ret None))"

section \<open>The search\<close>

text \<open>An early return, or an offset whose IP version is still to be checked together with the AudioCodes flag.\<close>

datatype next_ip = Early int | Offset nat bool

definition find_next_branch :: "nat \<Rightarrow> encaps_opts \<Rightarrow> mem \<Rightarrow> nat \<Rightarrow> u32 \<Rightarrow> u32 \<Rightarrow> u8 \<Rightarrow> next_ip outcome" where
  "find_next_branch fuel opt m ip header_ip_offset caplen proto =
     (let plain = omap (\<lambda>n. Offset n False) in
      if proto = 4 then plain (hdr_size m ip)
      else if proto = 47 then
        omap (\<lambda>r. case r of None \<Rightarrow> Early (- 1) | Some q \<Rightarrow> Offset (q - ip) False) (convertHeaderIP_GRE fuel m ip (caplen - header_ip_offset))
      else oif (is_plain_rtp m ip header_ip_offset caplen proto) (Ret (Early 0))
       (oif (is_l2tp opt m ip proto) (plain (next_l2tp m ip))
       (oif (is_tzsp opt m ip proto) (plain (next_tzsp m ip header_ip_offset caplen))
       (oif (is_vxlan opt m ip proto) (plain (next_vxlan m ip))
       (oif (is_hperm opt m ip proto) (plain (next_hperm m ip))
       (oif (is_audiocodes opt m ip proto) (omap (\<lambda>(n, f). Offset n f) (next_audiocodes m ip caplen proto))
       (if opt_icmp_process_data opt \<and> proto = 1 then
          omap (\<lambda>r. case r of None \<Rightarrow> Early (- 1) | Some n \<Rightarrow> Offset n False) (next_icmp m ip)
        else Ret (Offset 0 False))))))))"

text \<open>The result is the offset of the next IP header relative to \<open>header_ip\<close>, 0 for none and \<open>-1\<close> for a packet to drop,
  with the flag the code sets in \<open>flags\<close>.\<close>

definition findNextHeaderIp :: "nat \<Rightarrow> encaps_opts \<Rightarrow> mem \<Rightarrow> nat \<Rightarrow> u32 \<Rightarrow> u32 \<Rightarrow> (int \<times> bool) outcome" where
  "findNextHeaderIp fuel opt m ip header_ip_offset caplen =
     (if caplen \<le> header_ip_offset then Ret (0, False)
      else
        obind (iph_get_protocol (caplen - header_ip_offset) m ip) (\<lambda>proto.
          obind (find_next_branch fuel opt m ip header_ip_offset caplen proto) (\<lambda>r.
            case r of Early v \<Rightarrow> Ret (v, False)
            | Offset n f \<Rightarrow>
                if n > 0 then omap (\<lambda>v. if v = 4 \<or> v = 6 then (int n, f) else (- 1, f)) (iph_version m (ip + n)) else Ret (0, f))))"


section \<open>Walking to the innermost header\<close>

text \<open>\<open>processDetach_findHeaderIp\<close> and the loop at the start of \<open>processBeforeAddToPacketBuffer\<close>. \<open>gf\<close> is the fuel of the loops inside one
  step. The first one keeps the offset in 16 bits beside the pointer; 0xFFFF marks a packet to drop.\<close>

fun detach_walk :: "nat \<Rightarrow> nat \<Rightarrow> encaps_opts \<Rightarrow> mem \<Rightarrow> u32 \<Rightarrow> nat \<Rightarrow> u16 \<Rightarrow> u16 outcome" where
  "detach_walk 0 gf opt m caplen ip off = OutOfFuel"
| "detach_walk (Suc k) gf opt m caplen ip off =
     obind (findNextHeaderIp gf opt m ip (ucast off) caplen) (\<lambda>(n, _).
       if n = 0 then Ret off else if n < 0 then Ret 0xFFFF else detach_walk k gf opt m caplen (ip + nat n) (off + word_of_int n))"

definition processDetach_findHeaderIp :: "nat \<Rightarrow> nat \<Rightarrow> encaps_opts \<Rightarrow> mem \<Rightarrow> u32 \<Rightarrow> u16 \<Rightarrow> u16 \<Rightarrow> u16 outcome" where
  "processDetach_findHeaderIp fuel gf opt m caplen header_ip_offset header_ip_last_offset =
     (if header_ip_offset \<noteq> 0xFFFF \<and> header_ip_last_offset = 0xFFFF
      then detach_walk fuel gf opt m caplen (unat header_ip_offset) header_ip_offset else Ret header_ip_last_offset)"

fun before_walk :: "nat \<Rightarrow> nat \<Rightarrow> encaps_opts \<Rightarrow> mem \<Rightarrow> u32 \<Rightarrow> nat \<Rightarrow> u32 \<Rightarrow> (nat \<times> u32) option outcome" where
  "before_walk 0 gf opt m caplen ip off = OutOfFuel"
| "before_walk (Suc k) gf opt m caplen ip off =
     obind (findNextHeaderIp gf opt m ip off caplen) (\<lambda>(n, _).
       if n = 0 then Ret (Some (ip, off)) else if n < 0 then Ret None else before_walk k gf opt m caplen (ip + nat n) (off + word_of_int n))"

section \<open>Nothing runs out of fuel\<close>

definition ends :: "'a outcome \<Rightarrow> bool" where
  "ends x = (x \<noteq> OutOfFuel)"

lemma ends_Ret [simp]: "ends (Ret a)" and ends_OutOfBounds [simp]: "ends OutOfBounds"
  by (simp_all add: ends_def)

lemma ends_obind: "ends x \<Longrightarrow> (\<And>a. x = Ret a \<Longrightarrow> ends (f a)) \<Longrightarrow> ends (obind x f)"
  by (cases x) (auto simp: ends_def)

lemma ends_omap [simp]: "ends (omap f x) = ends x"
  by (cases x) (auto simp: ends_def)

lemma ends_ld [simp]: "ends (ld8 m p)" "ends (ldi8 m i)" "ends (ldn n m p)" "ends (ld16 m p)" "ends (ld32 m p)" "ends (ldbe16 m p)"
  by (simp_all add: ends_def ld8_def ldi8_def ldn_def ld16_def ld32_def ldbe16_def)

lemma ends_cond: "ends a \<Longrightarrow> ends b \<Longrightarrow> ends (oand a b)" "ends a \<Longrightarrow> ends b \<Longrightarrow> ends (oor a b)" "ends a \<Longrightarrow> ends x \<Longrightarrow> ends y \<Longrightarrow> ends (oif a x y)"
  by (auto simp: oand_def oor_def oif_def intro!: ends_obind)

lemma ends_iph_if_v4: "ends a \<Longrightarrow> ends b \<Longrightarrow> ends (iph_if_v4 m p a b)"
  by (auto simp: iph_if_v4_def iph_version_def intro!: ends_obind)

lemma ends_version [simp]: "ends (iph_version m p)" "ends (iph_version_is_ok m p)"
  by (simp_all add: iph_version_def iph_version_is_ok_def)

lemma ends_tot_len [simp]: "ends (iph_get_tot_len m p)" "ends (ip6_get_tot_len m p)"
  by (simp_all add: iph_get_tot_len_def ip6_get_tot_len_def ends_iph_if_v4)

lemma ends_ext_headers_size: "ends (ext_headers_size m p sz hs)"
proof (induction hs arbitrary: sz)
  case (Cons h hs)
  then show ?case using get_ext_header_size_no_fuel [of m "p + sizeof_ip6hdr2 + unat sz" h] by (auto simp: ends_def [of "get_ext_header_size _ _ _", symmetric] intro!: ends_obind)
qed simp

lemma ends_get_ext_headers: "length m \<le> 65280 \<Longrightarrow> ends (get_ext_headers m p mx ts)"
  unfolding get_ext_headers_def by (intro ends_obind ends_ld) (use get_ext_headers_loop_returns [of m "Suc (length m)" 0 p _ mx ts] in \<open>simp add: ends_def\<close>)

lemma ends_hdr_size: "length m \<le> 65280 \<Longrightarrow> ends (iph_get_hdr_size m p)"
  by (auto simp: iph_get_hdr_size_def ip6_get_hdr_size_def get_total_headers_len_def get_ext_headers_len_def
      intro!: ends_iph_if_v4 ends_obind ends_get_ext_headers ends_ext_headers_size split: prod.splits)

lemma ends_get_protocol: "length m \<le> 65280 \<Longrightarrow> ends (iph_get_protocol_raw m p)" "length m \<le> 65280 \<Longrightarrow> ends (iph_get_protocol x m p)"
  by (auto simp: iph_get_protocol_def iph_get_protocol_raw_def ip6_get_protocol_def ip6_get_protocol_raw_def
      intro!: ends_iph_if_v4 ends_obind ends_get_ext_headers)

lemma ends_data_len: "length m \<le> 65280 \<Longrightarrow> ends (get_udp_data_len m ip hdr caplen)" "length m \<le> 65280 \<Longrightarrow> ends (get_tcp_data_len m ip hdr caplen)"
  "ends (get_tcp_header_len m hdr)"
  by (auto simp: get_udp_data_len_def get_tcp_data_len_def get_tcp_header_len_def ip_payload_len_def iph_get_footer_size_def
      intro!: ends_obind ends_hdr_size ends_get_protocol split: prod.splits)

lemma ends_ac_parse: "ends (ac_parse m q)"
proof -
  have s: "ends (ac_set_ip ip m p six)" "ends (ac_set_port m p)" "ends (ld_in6 m p)" for ip p six
    by (auto simp: ac_set_ip_def ac_set_port_def ld_in6_def intro!: ends_obind)
  have "ends (ac_payload m q a)" "ends (ac_stream m q mi six a)" "ends (ac_signalling m q a)" for mi six a
    by (auto simp: ac_payload_def ac_stream_def ac_signalling_def Let_def intro!: ends_obind s)
  then show ?thesis
    by (auto simp: ac_parse_def ac_parse_ids_def ac_parse_time_def ac_parse_session_def ac_extension_def Let_def intro!: ends_obind split: prod.splits)
qed

text \<open>The loops over tags and labels leave the packet before their fuel is used up.\<close>

lemma ldbe16_bound: "ldbe16 m p = Ret w \<Longrightarrow> p + 2 \<le> length m"
  by (auto simp: ldbe16_def ld16_def ldn_def split: if_splits)

lemma ld8_bound: "ld8 m p = Ret w \<Longrightarrow> p < length m"
  by (auto simp: ld8_def split: if_splits)

lemma gre_vlan_loop_ends:
  assumes "length m \<le> 65280" and "length m < fuel + unat off" and "0 < fuel"
  shows "ends (gre_vlan_loop fuel m eth off)"
  using assms(2,3)
proof (induction fuel arbitrary: off)
  case (Suc k)
  have "ends (gre_vlan_loop k m eth (off + 4))" if "ldbe16 m (eth + ETHER_SIZE + unat off + 2) = Ret w" for w
  proof -
    have b: "unat off + 16 < length m" using ldbe16_bound [OF that] by simp
    then have "unat (off + 4) = unat off + 4" using assms(1) by (simp add: unat_word_ariths)
    then show ?thesis using b Suc.prems by (intro Suc.IH) auto
  qed
  then show ?case by (auto intro!: ends_obind)
qed simp

lemma gre_mpls_loop_ends:
  assumes "length m \<le> 65280" and "length m < fuel + unat off" and "0 < fuel"
  shows "ends (gre_mpls_loop fuel m ip off max_len)"
  using assms(2,3)
proof (induction fuel arbitrary: off)
  case (Suc k)
  have "ends (gre_mpls_loop k m ip (off + 4) max_len)" if "ld8 m (ip + unat off + 2) = Ret w" for w
  proof -
    have b: "unat off + 2 < length m" using ld8_bound [OF that] by simp
    then have "unat (off + 4) = unat off + 4" using assms(1) by (simp add: unat_word_ariths)
    then show ?thesis using b Suc.prems by (intro Suc.IH) auto
  qed
  then show ?case by (auto simp: Let_def intro!: ends_obind)
qed simp

lemma ends_gre: 
  assumes "length m \<le> 65280" and "length m < fuel"
  shows "ends (convertHeaderIP_GRE fuel m ip max_len)"
proof -
  have "ends (gre_vlan_loop fuel m eth off)" "ends (gre_mpls_loop fuel m ip off max_len)" for eth off
    using gre_vlan_loop_ends gre_mpls_loop_ends assms by simp_all
  note l = this
  have "ends (ld_gre m p)" "ends (erspan_length m p)" for p by (auto simp: ld_gre_def erspan_length_def intro!: ends_obind)
  then have "ends (gre_ethernet fuel m ip sz g)" "ends (gre_mpls fuel m ip sz max_len)" "ends (ld_gre m p)" for sz g p
    using l by (auto simp: gre_ethernet_def gre_mpls_def Let_def intro!: ends_obind)
  then show ?thesis
    by (auto simp: convertHeaderIP_GRE_def hdr_size_def Let_def intro!: ends_obind ends_cond ends_hdr_size assms)
qed

lemma tzsp_loop_ends: "ends (tzsp_loop k m p off len caplen)"
  by (induction k arbitrary: len) (auto intro!: ends_obind)

lemma ends_hs: "length m \<le> 65280 \<Longrightarrow> ends (hdr_size m ip)"
  by (simp add: hdr_size_def ends_hdr_size)

lemma ends_ports:
  assumes "length m \<le> 65280"
  shows "ends (tr_dest m ip)" "ends (tr_source m ip)" "ends (udp_len_above n m ip)"
  using ends_hs [OF assms] by (auto simp: tr_dest_def tr_source_def udp_len_above_def udp_get_dest_def udp_get_source_def intro!: ends_obind)

lemma ends_guards:
  assumes "length m \<le> 65280"
  shows "ends (is_plain_rtp m ip off caplen proto)" "ends (is_l2tp opt m ip proto)" "ends (is_tzsp opt m ip proto)"
    "ends (is_vxlan opt m ip proto)" "ends (is_hperm opt m ip proto)" "ends (is_audiocodes opt m ip proto)"
  using ends_hs [OF assms] ends_ports [OF assms]
  by (auto simp: is_plain_rtp_def is_l2tp_def is_tzsp_def is_vxlan_def is_hperm_def is_audiocodes_def port_is_def IS_RTP_def intro!: ends_cond ends_obind)

lemma ends_next:
  assumes "length m \<le> 65280"
  shows "ends (next_l2tp m ip)" "ends (next_tzsp m ip off caplen)" "ends (next_vxlan m ip)" "ends (next_hperm m ip)"
    "ends (next_audiocodes m ip caplen proto)" "ends (next_icmp m ip)"
  using ends_hs [OF assms]
  by (auto simp: next_l2tp_def next_tzsp_def next_vxlan_def next_hperm_def next_frame_def next_audiocodes_def next_icmp_def Let_def
      intro!: ends_obind ends_cond ends_data_len ends_ac_parse tzsp_loop_ends assms split: prod.splits)

lemma findNextHeaderIp_ends:
  assumes "length m \<le> 65280" and "length m < gf"
  shows "ends (findNextHeaderIp gf opt m ip off caplen)"
proof -
  have "ends (find_next_branch gf opt m ip off caplen proto)" for proto
    using ends_gre [OF assms] ends_guards [OF assms(1)] ends_next [OF assms(1)] ends_hs [OF assms(1)]
    by (auto simp: find_next_branch_def Let_def intro!: ends_cond)
  then show ?thesis by (auto simp: findNextHeaderIp_def intro!: ends_obind ends_get_protocol assms split: next_ip.splits)
qed

text \<open>Every step moves forward to a header that is inside the packet.\<close>

lemma find_next_early: "find_next_branch gf opt m ip off caplen proto = Ret (Early v) \<Longrightarrow> v = 0 \<or> v = - 1"
  by (auto simp: find_next_branch_def oif_def obind_Ret_iff omap_Ret_iff Let_def split: if_splits option.splits prod.splits)

lemma findNextHeaderIp_step:
  assumes "findNextHeaderIp gf opt m ip off caplen = Ret (n, f)" and "n > 0"
  shows "ip + nat n < length m" "iph_version m (ip + nat n) = Ret 4 \<or> iph_version m (ip + nat n) = Ret 6"
proof -
  obtain proto r where r: "find_next_branch gf opt m ip off caplen proto = Ret r"
      "(case r of Early v \<Rightarrow> Ret (v, False) | Offset n f \<Rightarrow>
          if n > 0 then omap (\<lambda>v. if v = 4 \<or> v = 6 then (int n, f) else (- 1, f)) (iph_version m (ip + n)) else Ret (0, f)) = Ret (n, f)"
    using assms by (auto simp: findNextHeaderIp_def obind_Ret_iff split: if_splits)
  have v: "\<exists>v. iph_version m (ip + nat n) = Ret v \<and> (v = 4 \<or> v = 6)"
    using r assms(2) by (cases r) (auto simp: omap_Ret_iff split: if_splits dest: find_next_early)
  then show "iph_version m (ip + nat n) = Ret 4 \<or> iph_version m (ip + nat n) = Ret 6" by auto
  show "ip + nat n < length m" using v by (auto simp: iph_version_def omap_Ret_iff dest: ld8_bound)
qed

section \<open>The chain of headers\<close>

text \<open>The headers that are reached from the one at \<open>p\<close> by the search.\<close>

inductive ip_chain :: "nat \<Rightarrow> encaps_opts \<Rightarrow> mem \<Rightarrow> u32 \<Rightarrow> nat \<Rightarrow> nat \<Rightarrow> bool" for gf opt m caplen where
  chain_here: "ip_chain gf opt m caplen p p"
| chain_inner: "findNextHeaderIp gf opt m p (word_of_nat p) caplen = Ret (n, f) \<Longrightarrow> 0 < n \<Longrightarrow> ip_chain gf opt m caplen (p + nat n) q \<Longrightarrow>
    ip_chain gf opt m caplen p q"

text \<open>What the walk makes of the answer at the header where it stops.\<close>

definition stop_result :: "nat \<Rightarrow> (int \<times> bool) outcome \<Rightarrow> u16 outcome" where
  "stop_result q x = omap (\<lambda>(n, f). if n = 0 then word_of_nat q else 0xFFFF) x"

definition chain_stops :: "nat \<Rightarrow> encaps_opts \<Rightarrow> mem \<Rightarrow> u32 \<Rightarrow> nat \<Rightarrow> bool" where
  "chain_stops gf opt m caplen q = (\<forall>n f. findNextHeaderIp gf opt m q (word_of_nat q) caplen = Ret (n, f) \<longrightarrow> n \<le> 0)"

lemma chain_end:
  assumes "p < length m"
  shows "\<exists>q. ip_chain gf opt m caplen p q \<and> chain_stops gf opt m caplen q \<and> q < length m"
  using assms
proof (induction "length m - p" arbitrary: p rule: less_induct)
  case less
  show ?case
  proof (cases "chain_stops gf opt m caplen p")
    case True
    then show ?thesis using chain_here less.prems by blast
  next
    case False
    then obtain n f where n: "findNextHeaderIp gf opt m p (word_of_nat p) caplen = Ret (n, f)" "0 < n" by (auto simp: chain_stops_def not_le)
    note l = findNextHeaderIp_step(1) [OF n]
    moreover from l have "length m - (p + nat n) < length m - p" using n(2) by linarith
    ultimately obtain q where "ip_chain gf opt m caplen (p + nat n) q" "chain_stops gf opt m caplen q" "q < length m"
      using less.hyps [of "p + nat n"] by blast
    then show ?thesis using chain_inner [OF n] by blast
  qed
qed

lemma ucast_of_nat_u16: "p < 65536 \<Longrightarrow> ucast (word_of_nat p :: u16) = (word_of_nat p :: u32)"
  by (simp add: word_unat_eq_iff unat_of_nat)

lemma detach_walk_chain:
  assumes "ip_chain gf opt m caplen p q" "chain_stops gf opt m caplen q" "length m \<le> 65280" "p < length m" "length m < k + p"
  shows "detach_walk k gf opt m caplen p (word_of_nat p) = stop_result q (findNextHeaderIp gf opt m q (word_of_nat q) caplen)"
  using assms(1,2,4,5)
proof (induction arbitrary: k rule: ip_chain.induct)
  case (chain_here p)
  then obtain k' where k: "k = Suc k'" by (cases k) auto
  have c: "ucast (word_of_nat p :: u16) = (word_of_nat p :: u32)" using chain_here.prems(2) assms(3) by (intro ucast_of_nat_u16) simp
  show ?case
  proof (cases "findNextHeaderIp gf opt m p (word_of_nat p) caplen")
    case (Ret a)
    then show ?thesis using chain_here.prems(1) k c by (cases a) (auto simp: chain_stops_def stop_result_def)
  qed (use k c in \<open>simp_all add: stop_result_def\<close>)
next
  case (chain_inner p n f q)
  then obtain k' where k: "k = Suc k'" by (cases k) auto
  have c: "ucast (word_of_nat p :: u16) = (word_of_nat p :: u32)" using chain_inner.prems(2) assms(3) by (intro ucast_of_nat_u16) simp
  have w: "word_of_nat p + word_of_int n = (word_of_nat (p + nat n) :: u16)" using chain_inner.hyps(2) by simp
  have "p + nat n < length m" by (rule findNextHeaderIp_step(1) [OF chain_inner.hyps(1,2)])
  then show ?case using chain_inner.IH [of k'] chain_inner.hyps(1,2) chain_inner.prems k c w by (simp add: add.commute)
qed

lemma stop_result_iff:
  assumes "length m \<le> 65280" "q < length m"
  shows "r \<noteq> 0xFFFF \<Longrightarrow> stop_result q x = Ret r \<longleftrightarrow> r = word_of_nat q \<and> (\<exists>f. x = Ret (0, f))"
    "stop_result q x = Ret 0xFFFF \<longleftrightarrow> (\<exists>n f. x = Ret (n, f) \<and> n \<noteq> 0)" "stop_result q x = OutOfBounds \<longleftrightarrow> x = OutOfBounds"
proof -
  have "(word_of_nat q :: u16) \<noteq> 0xFFFF"
  proof
    assume "(word_of_nat q :: u16) = 0xFFFF"
    then have "unat (word_of_nat q :: u16) = 65535" by simp
    then show False using assms by (simp add: unat_of_nat)
  qed
  then show "r \<noteq> 0xFFFF \<Longrightarrow> stop_result q x = Ret r \<longleftrightarrow> r = word_of_nat q \<and> (\<exists>f. x = Ret (0, f))"
    "stop_result q x = Ret 0xFFFF \<longleftrightarrow> (\<exists>n f. x = Ret (n, f) \<and> n \<noteq> 0)" "stop_result q x = OutOfBounds \<longleftrightarrow> x = OutOfBounds"
    by (cases x; auto simp: stop_result_def split: if_splits)+
qed

lemma chain_bound: "ip_chain gf opt m caplen p q \<Longrightarrow> p < length m \<Longrightarrow> q < length m"
  by (induction rule: ip_chain.induct) (auto dest: findNextHeaderIp_step(1))

section \<open>Properties\<close>

text \<open>C22: \<open>processDetach_findHeaderIp\<close> on a captured packet of at most 65280 bytes follows the chain of encapsulated IP headers from the
  first one to its end: it returns an offset exactly when that is the header of the chain inside which no other is found, marks the
  packet as one to drop exactly when the chain leads to something that is not an IP header, reads behind the packet only where the
  search at one header of the chain does, and always ends (one unit of fuel more than the packet has bytes is enough).\<close>

theorem detach_finds_innermost:
  fixes opt caplen
  assumes "length m \<le> 65280" and "length m < gf" and "length m < fuel" and "unat off < length m"
  defines "x \<equiv> processDetach_findHeaderIp fuel gf opt m caplen off 0xFFFF"
    and "next \<equiv> \<lambda>p. findNextHeaderIp gf opt m p (word_of_nat p) caplen" and "chain \<equiv> ip_chain gf opt m caplen (unat off)"
  shows "x \<noteq> OutOfFuel \<and> (\<forall>r. r \<noteq> 0xFFFF \<longrightarrow> (x = Ret r \<longleftrightarrow> chain (unat r) \<and> (\<exists>f. next (unat r) = Ret (0, f)))) \<and>
    (x = Ret 0xFFFF \<longleftrightarrow> (\<exists>p n f. chain p \<and> next p = Ret (n, f) \<and> n < 0)) \<and>
    (x = OutOfBounds \<longleftrightarrow> (\<exists>p. chain p \<and> next p = OutOfBounds))"
proof -
  have x: "x = stop_result q (next q)" if "chain q" "chain_stops gf opt m caplen q" for q
  proof -
    have "off \<noteq> 0xFFFF" using assms(1,4) by auto
    then show ?thesis using detach_walk_chain [OF that(1) [unfolded chain_def] that(2) assms(1,4), of fuel] assms(3) by (simp add: x_def next_def processDetach_findHeaderIp_def)
  qed
  have b: "q < length m" if "chain q" for q using chain_bound [of gf opt m caplen "unat off" q] that assms(4) by (simp add: chain_def)
  obtain q where q: "chain q" "chain_stops gf opt m caplen q" using chain_end [OF assms(4), of gf opt caplen] by (auto simp: chain_def)
  note xq = x [OF q] and sr = stop_result_iff [OF assms(1) b]
  have st: "chain_stops gf opt m caplen p" if "next p = y" "\<And>n f. y = Ret (n, f) \<Longrightarrow> n \<le> 0" for p y using that by (auto simp: chain_stops_def next_def)
  have uq: "unat (word_of_nat q :: u16) = q" using b [OF q(1)] assms(1) by (simp add: unat_of_nat)
  have "next q \<noteq> OutOfFuel" using findNextHeaderIp_ends [of m gf opt q "word_of_nat q" caplen] assms(1,2) by (simp add: next_def ends_def)
  then have "x \<noteq> OutOfFuel" by (cases "next q") (auto simp: xq stop_result_def)
  moreover have "x = Ret r \<longleftrightarrow> chain (unat r) \<and> (\<exists>f. next (unat r) = Ret (0, f))" if "r \<noteq> 0xFFFF" for r
    using sr(1) [OF q(1) that, of "next q"] sr(1) [of "unat r", OF _ that] x [of "unat r"] xq q(1) uq st [of "unat r"] by auto
  moreover have "x = Ret 0xFFFF \<longleftrightarrow> (\<exists>p n f. chain p \<and> next p = Ret (n, f) \<and> n < 0)"
  proof
    assume "x = Ret 0xFFFF"
    then obtain n f where "next q = Ret (n, f)" "n \<noteq> 0" using sr(2) [OF q(1)] xq by auto
    then show "\<exists>p n f. chain p \<and> next p = Ret (n, f) \<and> n < 0" using q by (force simp: chain_stops_def next_def)
  next
    assume "\<exists>p n f. chain p \<and> next p = Ret (n, f) \<and> n < 0"
    then obtain p n f where p: "chain p" "next p = Ret (n, f)" "n < 0" by blast
    then show "x = Ret 0xFFFF" using x [OF p(1) st [OF p(2)]] by (simp add: stop_result_def)
  qed
  moreover have "x = OutOfBounds \<longleftrightarrow> (\<exists>p. chain p \<and> next p = OutOfBounds)"
    using sr(3) [OF q(1), of "next q"] xq q(1) x st sr(3) by (metis outcome.distinct(1))
  ultimately show ?thesis by blast
qed

text \<open>Three IP headers, each in the one before, the innermost with a protocol that carries none.\<close>

definition demo_nested :: mem where
  "demo_nested = [0x45,0,0,60,0,0,0,0,64,4,0,0,10,0,0,1,10,0,0,2] @ [0x45,0,0,40,0,0,0,0,64,4,0,0,10,0,0,3,10,0,0,4] @
     [0x45,0,0,20,0,0,0,0,64,99,0,0,10,0,0,5,10,0,0,6]"

theorem detach_finds_innermost_witness:
  "\<forall>opt. processDetach_findHeaderIp 70 70 opt demo_nested 60 0 0xFFFF = Ret 40"
proof
  fix opt
  have n: "findNextHeaderIp 70 opt demo_nested 0 (word_of_nat 0) 60 = Ret (20, False)"
    "findNextHeaderIp 70 opt demo_nested (0 + nat 20) (word_of_nat (0 + nat 20)) 60 = Ret (20, False)"
    "findNextHeaderIp 70 opt demo_nested 40 (word_of_nat 40) 60 = Ret (0, False)"
    by (simp_all add: demo_nested_def findNextHeaderIp_def find_next_branch_def iph_get_protocol_def iph_if_v4_def iph_version_def hdr_size_def
        iph_get_hdr_size_def ld8_def ldn_def is_plain_rtp_def is_l2tp_def is_tzsp_def is_vxlan_def is_hperm_def is_audiocodes_def oand_def oor_def oif_def)
  have "ip_chain 70 opt demo_nested 60 (unat (0 :: u16)) (unat (40 :: u16))"
    using chain_inner [OF n(1) _ chain_inner [OF n(2) _ chain_here]] by simp
  moreover have "length demo_nested \<le> 65280" "length demo_nested < 70" "unat (0 :: u16) < length demo_nested" by (simp_all add: demo_nested_def)
  ultimately show "processDetach_findHeaderIp 70 70 opt demo_nested 60 0 0xFFFF = Ret 40"
    using detach_finds_innermost [of demo_nested 70 70 0 opt 60] n(3) by auto
qed


text \<open>C20: A packet in a VXLAN tunnel is found: a UDP packet made by \<open>createSimpleUdpDataPacket\<close> with the configured VXLAN port as destination and
  a VXLAN header with a whole ethernet frame as data leads \<open>findNextHeaderIp\<close> to the IP header of the inner frame, at the offset of
  the outer IP, UDP and VXLAN headers and the inner ethernet header.\<close>

theorem vxlan_tunnel_found:
  assumes "src = macs @ be_bytes 2 t" and "length macs = 12" and "t = ETHERTYPE_IP \<or> t = ETHERTYPE_IPV6"
    and "vmIP_plain s" "vmIP_plain d" "vmIP_is_v6 s = vmIP_is_v6 d" and "length data < 65000"
    and "data = 8 # vx @ imacs @ be_bytes 2 it @ b # inner" and "length vx = 7" and "length imacs = 12"
    and "is_ip_type it" and "drop_bit 4 b = 4 \<or> drop_bit 4 b = 6" and "20 \<le> length inner"
    and "port_val dport \<noteq> 0" and "opt_udp_port_vxlan opt = ucast (port_val dport)" and "opt_udp_port_l2tp opt \<noteq> ucast (port_val dport)"
    and "opt_udp_port_tzsp opt \<noteq> ucast (port_val dport)" "opt_udp_port_tzsp opt \<noteq> ucast (port_val sport)"
  shows "\<exists>h pk k. createSimpleUdpDataPacket g 14 src data (word_of_nat (length data)) 0 s d sport dport sec usec = Ret (h, pk) \<and>
    iph_get_hdr_size pk 14 = Ret (k, Some 17) \<and> findNextHeaderIp fuel opt pk 14 14 (ph_caplen h) = Ret (int (unat k + 30), False) \<and>
    drop (14 + unat k + 30) pk = b # inner"
proof -
  define v where "v = vmIP_is_v6 s"
  define z where "z = unat (iphdr_size v)"
  have kz: "14 + z = 14 + unat (iphdr_size (vmIP_is_v6 s))" by (simp add: z_def v_def)
  obtain pk where f: "createSimpleUdpDataPacket g 14 src data (word_of_nat (length data)) 0 s d sport dport sec usec =
       Ret (\<lparr>ph_sec = sec, ph_usec = usec, ph_caplen = word_of_nat (14 + z + 8 + length data), ph_len = word_of_nat (14 + z + 8 + length data)\<rparr>, pk)"
    "unat (word_of_nat (14 + z + 8 + length data) :: u32) = 14 + z + 8 + length data"
    "\<And>x. iph_get_protocol x pk 14 = Ret 17" "iph_get_hdr_size pk 14 = Ret (ucast (iphdr_size v), Some 17)"
    "iph_get_tot_len pk 14 = Ret (iphdr_size v + (8 + word_of_nat (length data)))"
    "udp_get_source pk (14 + z) = Ret (port_val sport)" "udp_get_dest pk (14 + z) = Ret (port_val dport)"
    "ldbe16 pk (14 + z + 4) = Ret (word_of_nat (8 + length data))" "drop (14 + z + 8) pk = data"
    by (rule created_udp_facts [OF assms(1-7) kz, of g sport dport sec usec, folded v_def]) blast
  define cap where "cap = (word_of_nat (14 + z + 8 + length data) :: u32)"
  have hs: "hdr_size pk 14 = Ret z" using f(4) by (simp add: hdr_size_def z_def)
  have l: "length data = 8 + 12 + 2 + 1 + length inner" using assms(8-10) by simp
  have d0: "drop (14 + z + 8) pk = [8] @ vx @ imacs @ be_bytes 2 it @ b # inner" using f(9) assms(8) by simp
  have d20: "drop (14 + z + 8 + 20) pk = be_bytes 2 it @ b # inner"
    using drop_part [OF d0 [folded append_assoc], of 20] assms(9,10) by simp
  have d22: "drop (14 + z + 8 + 22) pk = b # inner"
    using drop_part [OF d0 [folded append_assoc], of 22] assms(9,10) by simp
  have dest: "tr_dest pk 14 = Ret (ucast (port_val dport))" "tr_source pk 14 = Ret (ucast (port_val sport))" using hs f(6,7) by (simp_all add: tr_dest_def tr_source_def)
  have len: "udp_len_above 50 pk 14 = Ret (8 + length data > 50)" using hs f(8) assms(7) by (simp add: udp_len_above_def unat_of_nat del: of_nat_add)
  have nz: "(ucast (port_val dport) :: u32) \<noteq> 0" using assms(14) by (metis ucast_0 unat_ucast_u16 word_unat_eq_iff unsigned_0)
  have w: "\<exists>y. ldbe16 pk (14 + z + 8) = Ret y \<and> y AND 0xC000 \<noteq> 0x8000"
  proof -
    obtain c vx' where vx: "vx = c # vx'" using assms(9) by (cases vx) auto
    have "ldn 2 pk (14 + z + 8) = Ret [8, c]" using ld_at(3) [of "14 + z + 8" pk "[8, c]" "vx' @ imacs @ be_bytes 2 it @ b # inner" 2] d0 vx by simp
    then have "ldbe16 pk (14 + z + 8) = Ret (le_word [c, 8])" by (simp add: ldbe16_def ld16_def ntohs_le_word)
    moreover have "(le_word [c, 8] :: u16) AND 0xC000 \<noteq> 0x8000"
    proof
      assume "(le_word [c, 8] :: u16) AND 0xC000 = 0x8000"
      then have "0x8000 \<le> (le_word [c, 8] :: u16)" by (metis word_and_le2)
      moreover have "unat (le_word [c, 8] :: u16) = unat c + 2048" by (subst unat_le_word) simp_all
      ultimately show False using unat_byte_less [of c] by (simp add: word_le_nat_alt del: unat_byte_less)
    qed
    ultimately show ?thesis by blast
  qed
  then have rtp: "is_plain_rtp pk 14 14 cap 17 = Ret False" using f(5) hs by (auto simp: is_plain_rtp_def oand_def IS_RTP_def)
  have other: "is_l2tp opt pk 14 17 = Ret False" "is_tzsp opt pk 14 17 = Ret False" "is_vxlan opt pk 14 17 = Ret True"
    using dest len assms(13,15-18) nz l by (auto simp: is_l2tp_def is_tzsp_def is_vxlan_def oand_def oor_def port_is_def)
  have b: "ld8 pk (14 + z + 8) = Ret 8" "ldbe16 pk (14 + z + 8 + 20) = Ret it" "ld8 pk (14 + z + 8 + 22) = Ret b"
    using ld_at(4) [OF d0] ldbe16_be [OF d20] ld_at(4) [of _ pk "[b]" inner] d22 by simp_all
  have ver: "iph_version pk (14 + (z + 30)) = Ret (drop_bit 4 b)" using b(3) by (simp add: iph_version_def add.commute)
  have "next_vxlan pk 14 = Ret (z + 30)" using hs b assms(11,12) ver
    by (auto simp: next_vxlan_def next_frame_def iph_version_is_ok_def add.commute)
  then have "find_next_branch fuel opt pk 14 14 cap 17 = Ret (Offset (z + 30) False)"
    using rtp other by (simp add: find_next_branch_def oif_def)
  moreover have "\<not> cap \<le> 14" using f(2) by (simp add: cap_def word_le_nat_alt del: of_nat_add)
  ultimately have "findNextHeaderIp fuel opt pk 14 14 cap = Ret (int (z + 30), False)"
    using f(3) ver assms(12) by (auto simp: findNextHeaderIp_def)
  then show ?thesis
    by (intro exI [of _ pk] exI [of _ "ucast (iphdr_size v) :: u16"]
          exI [of _ "\<lparr>ph_sec = sec, ph_usec = usec, ph_caplen = cap, ph_len = cap\<rparr>"])
       (use f(1,4) d22 in \<open>simp add: z_def cap_def add.assoc del: of_nat_add\<close>)
qed

theorem vxlan_tunnel_found_witness:
  "\<exists>h pk (k :: u16). createSimpleUdpDataPacket (\<lambda>_. 0) 14 [2,0,0,0,0,1,2,0,0,0,0,2,0x08,0x00]
      [8,0,0,0,0,0,1,0, 2,0,0,0,0,3,2,0,0,0,0,4, 0x08,0x00, 0x45, 0,0,21,0,0,0,0,64,99,0,0,10,0,0,1,10,0,0,2,7] 43 0
      (vmIP_v4 0x0A000001) (vmIP_v4 0x0A000002) (VmPort 40000) (VmPort 4789) 7 8 = Ret (h, pk) \<and>
    findNextHeaderIp 1 \<lparr>opt_udp_port_l2tp = 1701, opt_udp_port_tzsp = 0, opt_udp_port_vxlan = 4789, opt_udp_port_hperm = 0, opt_icmp_process_data = False,
      opt_audiocodes = False, opt_udp_port_audiocodes = 0, opt_tcp_port_audiocodes = 0\<rparr> pk 14 14 (ph_caplen h) = Ret (int (unat k + 30), False) \<and>
    drop (14 + unat k + 30) pk = [0x45, 0,0,21,0,0,0,0,64,99,0,0,10,0,0,1,10,0,0,2,7]"
proof -
  let ?data = "[8,0,0,0,0,0,1,0, 2,0,0,0,0,3,2,0,0,0,0,4, 0x08,0x00, 0x45, 0,0,21,0,0,0,0,64,99,0,0,10,0,0,1,10,0,0,2,7] :: u8 list"
  let ?opt = "\<lparr>opt_udp_port_l2tp = 1701, opt_udp_port_tzsp = 0, opt_udp_port_vxlan = 4789, opt_udp_port_hperm = 0, opt_icmp_process_data = False,
      opt_audiocodes = False, opt_udp_port_audiocodes = 0, opt_tcp_port_audiocodes = 0\<rparr>"
  have e: "[2,0,0,0,0,1,2,0,0,0,0,2,0x08,0x00] = [2,0,0,0,0,1,2,0,0,0,0,2 :: u8] @ be_bytes 2 (0x0800 :: u16)"
    "?data = 8 # [0,0,0,0,0,1,0] @ [2,0,0,0,0,3,2,0,0,0,0,4] @ be_bytes 2 (0x0800 :: u16) @ 0x45 # [0,0,21,0,0,0,0,64,99,0,0,10,0,0,1,10,0,0,2,7]"
    by (simp_all add: be_bytes_def word_le_def)
  have p: "vmIP_plain (vmIP_v4 0x0A000001)" "vmIP_plain (vmIP_v4 0x0A000002)" "vmIP_is_v6 (vmIP_v4 0x0A000001) = vmIP_is_v6 (vmIP_v4 0x0A000002)"
    by (simp_all add: vmIP_plain_def vmIP_is_v6_def vmIP_v4_def)
  have l: "length [2,0,0,0,0,1,2,0,0,0,0,2 :: u8] = 12" "length ?data < 65000" "length [0,0,0,0,0,1,0 :: u8] = 7" "length [2,0,0,0,0,3,2,0,0,0,0,4 :: u8] = 12"
    "is_ip_type 0x0800" "drop_bit 4 (0x45 :: u8) = 4 \<or> drop_bit 4 (0x45 :: u8) = 6" "20 \<le> length [0,0,21,0,0,0,0,64,99,0,0,10,0,0,1,10,0,0,2,7 :: u8]"
    by (simp_all add: is_ip_type_def)
  have o: "port_val (VmPort 4789) \<noteq> 0" "opt_udp_port_vxlan ?opt = ucast (port_val (VmPort 4789))" "opt_udp_port_l2tp ?opt \<noteq> ucast (port_val (VmPort 4789))"
    "opt_udp_port_tzsp ?opt \<noteq> ucast (port_val (VmPort 4789))" "opt_udp_port_tzsp ?opt \<noteq> ucast (port_val (VmPort 40000))" by simp_all
  obtain h pk and k :: u16 where "createSimpleUdpDataPacket (\<lambda>_. 0) 14 [2,0,0,0,0,1,2,0,0,0,0,2,0x08,0x00] ?data (word_of_nat (length ?data)) 0
      (vmIP_v4 0x0A000001) (vmIP_v4 0x0A000002) (VmPort 40000) (VmPort 4789) 7 8 = Ret (h, pk)"
      "findNextHeaderIp 1 ?opt pk 14 14 (ph_caplen h) = Ret (int (unat k + 30), False)"
      "drop (14 + unat k + 30) pk = 0x45 # [0,0,21,0,0,0,0,64,99,0,0,10,0,0,1,10,0,0,2,7]"
    using vxlan_tunnel_found [OF e(1) l(1) disjI1 [OF refl] p l(2) e(2) l(3-7) o, where g = "\<lambda>_. 0" and sec = 7 and usec = 8 and fuel = 1] by blast
  then show ?thesis by (intro exI [of _ h] exI [of _ pk] exI [of _ k]) simp
qed

end
