(* ===== verification/VM_Dedup.thy ===== *)
theory VM_Dedup
  imports VM_Prelude
begin

text \<open>
  Detection of duplicate packets (\<open>cPacketDuplBuffer\<close> of \<open>packet_dupl_check.h\<close>). The digest of a packet is the 16 bytes of
  \<open>sPacketDuplCheck\<close>, of which the kind of digest decides how many count. Its first 16 bits select a row of a fixed table or a
  chain of a hash table, the rest is compared there. The two arrays are functions from the 16-bit index; the clock
  (\<open>getTimeS_rdtsc\<close>) is read once for the age limit and once for the new time stamp, both readings are arguments.
\<close>

section \<open>Data\<close>

datatype eDedupType = dedup_na | dedup_md5 | dedup_crc32_sw | dedup_crc32_hw | dedup_crc64 | dedup_blake3 | dedup_murmur

datatype dupl_type = dupl_simple | dupl_hashtable

record sHashItem =
  hi_time :: u32
  hi_hash :: "u8 list"

record cPacketDuplBuffer =
  pd_type :: dupl_type
  pd_dedup_type :: eDedupType
  pd_hash_size :: u8
  pd_hash_size_simple_cmp :: u8
  pd_lifetime :: u16
  pd_simple_buffer :: "u16 \<Rightarrow> u8 list"
  pd_hash_table :: "u16 \<Rightarrow> sHashItem list"

section \<open>Operations\<close>

fun dedup_hash_size :: "eDedupType \<Rightarrow> u8" where
  "dedup_hash_size dedup_md5 = 16"
| "dedup_hash_size dedup_crc32_sw = 4"
| "dedup_hash_size dedup_crc32_hw = 4"
| "dedup_hash_size dedup_crc64 = 8"
| "dedup_hash_size dedup_blake3 = 16"
| "dedup_hash_size dedup_murmur = 16"
| "dedup_hash_size dedup_na = 4"

definition pd_init :: "cPacketDuplBuffer \<Rightarrow> cPacketDuplBuffer" where
  "pd_init pd =
     (let n = dedup_hash_size (pd_dedup_type pd); pd = pd\<lparr>pd_hash_size := n, pd_hash_size_simple_cmp := n - 2\<rparr> in
      if pd_type pd = dupl_simple then pd\<lparr>pd_simple_buffer := (\<lambda>_. replicate (unat (n - 2)) 0)\<rparr>
      else pd\<lparr>pd_hash_table := (\<lambda>_. [])\<rparr>)"

definition pd_new :: "dupl_type \<Rightarrow> eDedupType \<Rightarrow> u16 \<Rightarrow> cPacketDuplBuffer" where
  "pd_new t dt lifetime =
     pd_init \<lparr>pd_type = t, pd_dedup_type = dt, pd_hash_size = 0, pd_hash_size_simple_cmp = 0, pd_lifetime = lifetime,
       pd_simple_buffer = (\<lambda>_. []), pd_hash_table = (\<lambda>_. [])\<rparr>"

definition first_16_bits :: "u8 list \<Rightarrow> u16" where
  "first_16_bits hash = le_word (take 2 hash)"

definition hash_rest :: "u8 list \<Rightarrow> cPacketDuplBuffer \<Rightarrow> u8 list" where
  "hash_rest hash pd = take (unat (pd_hash_size_simple_cmp pd)) (drop 2 hash)"

text \<open>The walk over a chain: items older than the limit are freed, the first equal one gets the new time.\<close>

fun dupl_walk :: "u32 \<Rightarrow> u32 \<Rightarrow> u8 list \<Rightarrow> sHashItem list \<Rightarrow> bool \<times> sHashItem list" where
  "dupl_walk limit_time now key [] = (False, [])"
| "dupl_walk limit_time now key (hi # his) =
     (if hi_time hi < limit_time then dupl_walk limit_time now key his
      else if hi_hash hi = key then (True, hi\<lparr>hi_time := now\<rparr> # his)
      else (case dupl_walk limit_time now key his of (r, his) \<Rightarrow> (r, hi # his)))"

definition check_dupl_hashtable :: "u32 \<Rightarrow> u32 \<Rightarrow> u8 list \<Rightarrow> cPacketDuplBuffer \<Rightarrow> bool \<times> cPacketDuplBuffer" where
  "check_dupl_hashtable t now hash pd =
     (let i = first_16_bits hash in
      case dupl_walk (t - ucast (pd_lifetime pd)) now (hash_rest hash pd) (pd_hash_table pd i) of
        (r, his) \<Rightarrow> (r, pd\<lparr>pd_hash_table := (pd_hash_table pd)(i := his)\<rparr>))"

definition store_hashtable :: "u32 \<Rightarrow> u8 list \<Rightarrow> cPacketDuplBuffer \<Rightarrow> cPacketDuplBuffer" where
  "store_hashtable now hash pd =
     (let i = first_16_bits hash in
      pd\<lparr>pd_hash_table := (pd_hash_table pd)(i := \<lparr>hi_time = now, hi_hash = hash_rest hash pd\<rparr> # pd_hash_table pd i)\<rparr>)"

definition pd_store :: "u32 \<Rightarrow> u8 list \<Rightarrow> cPacketDuplBuffer \<Rightarrow> cPacketDuplBuffer" where
  "pd_store now hash pd =
     (if pd_type pd = dupl_simple then pd\<lparr>pd_simple_buffer := (pd_simple_buffer pd)(first_16_bits hash := hash_rest hash pd)\<rparr>
      else store_hashtable now hash pd)"

text \<open>A change of the kind of digest starts with fresh arrays.\<close>

definition check_dupl :: "u32 \<Rightarrow> u32 \<Rightarrow> u8 list \<Rightarrow> eDedupType \<Rightarrow> cPacketDuplBuffer \<Rightarrow> bool \<times> cPacketDuplBuffer" where
  "check_dupl t now hash dt pd =
     (let pd = (if pd_dedup_type pd \<noteq> dt then pd_init (pd\<lparr>pd_dedup_type := dt\<rparr>) else pd);
          (rslt, pd) = (if pd_type pd = dupl_simple then (hash_rest hash pd = pd_simple_buffer pd (first_16_bits hash), pd)
                        else check_dupl_hashtable t now hash pd) in
      (rslt, if rslt then pd else pd_store now hash pd))"

section \<open>What the hash table promises\<close>

text \<open>A packet is a duplicate when the last packet with the same digest was seen no longer than the lifetime ago. The history holds
  for every digest the time it was last seen.\<close>

fun dedup_spec :: "u16 \<Rightarrow> (u8 list \<times> u32) list \<Rightarrow> (u32 \<times> u32 \<times> u8 list) list \<Rightarrow> bool list" where
  "dedup_spec lifetime H [] = []"
| "dedup_spec lifetime H ((t, now, h) # es) =
     (case map_of H h of None \<Rightarrow> False | Some s \<Rightarrow> unat t \<le> unat s + unat lifetime) # dedup_spec lifetime ((h, now) # H) es"

fun dupl_run :: "eDedupType \<Rightarrow> cPacketDuplBuffer \<Rightarrow> (u32 \<times> u32 \<times> u8 list) list \<Rightarrow> bool list" where
  "dupl_run dt pd [] = []"
| "dupl_run dt pd ((t, now, h) # es) = (case check_dupl t now h dt pd of (r, pd) \<Rightarrow> r # dupl_run dt pd es)"

text \<open>The clock does not go back.\<close>

fun clock_ok :: "u32 \<Rightarrow> (u32 \<times> u32 \<times> u8 list) list \<Rightarrow> bool" where
  "clock_ok T [] = True"
| "clock_ok T ((t, now, h) # es) = (T \<le> t \<and> t \<le> now \<and> clock_ok now es)"

section \<open>One chain\<close>

abbreviation (input) "hi_keys B \<equiv> map hi_hash B"

lemma dupl_walk_result:
  "distinct (hi_keys B) \<Longrightarrow> fst (dupl_walk l now key B) = (\<exists>hi \<in> set B. hi_hash hi = key \<and> l \<le> hi_time hi)"
  by (induction B) (auto simp: not_less split: prod.splits)

lemma dupl_walk_keys: "set (hi_keys (snd (dupl_walk l now key B))) \<subseteq> set (hi_keys B)"
  by (induction B) (auto split: prod.splits, (metis (mono_tags) image_subset_iff)+)

lemma dupl_walk_distinct: "distinct (hi_keys B) \<Longrightarrow> distinct (hi_keys (snd (dupl_walk l now key B)))"
proof (induction B)
  case (Cons hi B)
  then have "hi_hash hi \<notin> set (hi_keys (snd (dupl_walk l now key B)))" using dupl_walk_keys [of l now key B] by auto
  then show ?case using Cons by (cases "dupl_walk l now key B") auto
qed simp

lemma dupl_walk_false: "\<not> fst (dupl_walk l now key B) \<Longrightarrow> snd (dupl_walk l now key B) = filter (\<lambda>hi. l \<le> hi_time hi) B"
  by (induction B) (auto simp: not_less split: prod.splits if_splits)

lemma dupl_walk_true:
  assumes "distinct (hi_keys B)" and "fst (dupl_walk l now key B)"
  shows "(\<exists>hi \<in> set (snd (dupl_walk l now key B)). hi_hash hi = key \<and> hi_time hi = now) \<and>
    (\<forall>hi \<in> set (snd (dupl_walk l now key B)). hi_hash hi = key \<and> hi_time hi = now \<or> hi_hash hi \<noteq> key \<and> hi \<in> set B) \<and>
    (\<forall>hi \<in> set B. hi_hash hi \<noteq> key \<and> l \<le> hi_time hi \<longrightarrow> hi \<in> set (snd (dupl_walk l now key B)))"
  using assms
proof (induction B)
  case (Cons hi B)
  consider "hi_time hi < l" | "\<not> hi_time hi < l" "hi_hash hi = key" | "\<not> hi_time hi < l" "hi_hash hi \<noteq> key" by blast
  then show ?case
  proof cases
    case 2
    then have "hi_hash x \<noteq> key" if "x \<in> set B" for x using Cons.prems(1) that by (auto simp: image_iff)
    then show ?thesis using 2 by auto
  next
    case 3
    obtain r his where w: "dupl_walk l now key B = (r, his)" by (cases "dupl_walk l now key B")
    then show ?thesis using Cons 3 by auto
  qed (use Cons in auto)
qed simp


lemma chain_step:
  assumes "distinct (hi_keys B)" and "dupl_walk l now key B = (r, B')" and "C = (if r then B' else \<lparr>hi_time = now, hi_hash = key\<rparr> # B')"
  shows "r = (\<exists>hi \<in> set B. hi_hash hi = key \<and> l \<le> hi_time hi)" "distinct (hi_keys C)"
    "\<exists>hi \<in> set C. hi_hash hi = key \<and> hi_time hi = now"
    "\<And>hi. hi \<in> set C \<Longrightarrow> hi_hash hi = key \<and> hi_time hi = now \<or> hi_hash hi \<noteq> key \<and> hi \<in> set B"
    "\<And>hi. hi \<in> set B \<Longrightarrow> hi_hash hi \<noteq> key \<Longrightarrow> l \<le> hi_time hi \<Longrightarrow> hi \<in> set C"
proof -
  show r: "r = (\<exists>hi \<in> set B. hi_hash hi = key \<and> l \<le> hi_time hi)" using dupl_walk_result [OF assms(1), of l now key] assms(2) by simp
  have d: "distinct (hi_keys B')" using dupl_walk_distinct [OF assms(1), of l now key] assms(2) by simp
  have f: "\<not> r \<Longrightarrow> B' = filter (\<lambda>hi. l \<le> hi_time hi) B" using dupl_walk_false [of l now key B] assms(2) by simp
  have t: "r \<Longrightarrow> (\<exists>hi \<in> set B'. hi_hash hi = key \<and> hi_time hi = now) \<and>
    (\<forall>hi \<in> set B'. hi_hash hi = key \<and> hi_time hi = now \<or> hi_hash hi \<noteq> key \<and> hi \<in> set B) \<and>
    (\<forall>hi \<in> set B. hi_hash hi \<noteq> key \<and> l \<le> hi_time hi \<longrightarrow> hi \<in> set B')"
    using dupl_walk_true [OF assms(1), of l now key] assms(2) by simp
  have n: "\<not> r \<Longrightarrow> key \<notin> set (hi_keys B')" using f r by auto
  show "distinct (hi_keys C)" using d n assms(3) by simp
  show "\<exists>hi \<in> set C. hi_hash hi = key \<and> hi_time hi = now" using t assms(3) by auto
  show "\<And>hi. hi \<in> set C \<Longrightarrow> hi_hash hi = key \<and> hi_time hi = now \<or> hi_hash hi \<noteq> key \<and> hi \<in> set B"
    using t f n assms(3) by (cases r) auto
  show "\<And>hi. hi \<in> set B \<Longrightarrow> hi_hash hi \<noteq> key \<Longrightarrow> l \<le> hi_time hi \<Longrightarrow> hi \<in> set C" using t f assms(3) by (cases r) auto
qed

section \<open>The table and the history\<close>

text \<open>Every item of the table is the last sight of its digest, and every digest seen since the limit \<open>l\<close> has an item.\<close>

definition dupl_rel :: "eDedupType \<Rightarrow> u16 \<Rightarrow> u32 \<Rightarrow> (u8 list \<times> u32) list \<Rightarrow> cPacketDuplBuffer \<Rightarrow> bool" where
  "dupl_rel dt L l H pd =
     (pd_type pd = dupl_hashtable \<and> pd_dedup_type pd = dt \<and> pd_hash_size_simple_cmp pd = dedup_hash_size dt - 2 \<and> pd_lifetime pd = L \<and>
      (\<forall>i. distinct (hi_keys (pd_hash_table pd i))) \<and>
      (\<forall>h. length h = unat (dedup_hash_size dt) \<longrightarrow>
        (\<forall>hi \<in> set (pd_hash_table pd (first_16_bits h)). hi_hash hi = drop 2 h \<longrightarrow> map_of H h = Some (hi_time hi)) \<and>
        (\<forall>s. map_of H h = Some s \<longrightarrow> l \<le> s \<longrightarrow> (\<exists>hi \<in> set (pd_hash_table pd (first_16_bits h)). hi_hash hi = drop 2 h \<and> hi_time hi = s))))"

lemma dedup_hash_size_bounds: "4 \<le> unat (dedup_hash_size dt)" "unat (dedup_hash_size dt) \<le> 16" "unat (dedup_hash_size dt - 2) = unat (dedup_hash_size dt) - 2"
  by (cases dt; simp)+

lemma first_16_bits_inj: "2 \<le> length g \<Longrightarrow> 2 \<le> length h \<Longrightarrow> first_16_bits g = first_16_bits h \<longleftrightarrow> take 2 g = take 2 h"
proof -
  assume "2 \<le> length g" "2 \<le> length h"
  then have "word_le 2 (first_16_bits g) = take 2 g" "word_le 2 (first_16_bits h) = take 2 h"
    using word_le_le_word [where 'a = 16, of "take 2 g"] word_le_le_word [where 'a = 16, of "take 2 h"] by (simp_all add: first_16_bits_def)
  then show ?thesis unfolding first_16_bits_def by metis
qed

lemma digest_eq: "first_16_bits g = first_16_bits h \<Longrightarrow> drop 2 g = drop 2 h \<Longrightarrow> 2 \<le> length g \<Longrightarrow> 2 \<le> length h \<Longrightarrow> g = h"
  using first_16_bits_inj [of g h] by (metis append_take_drop_id)

lemma dupl_rel_step:
  assumes "dupl_rel dt L l H pd" and "l \<le> t - ucast L" and "length h = 16" and "g = take (unat (dedup_hash_size dt)) h"
    and "check_dupl t now h dt pd = (r, pd')"
  shows "r = (case map_of H g of None \<Rightarrow> False | Some s \<Rightarrow> t - ucast L \<le> s) \<and> dupl_rel dt L (t - ucast L) ((g, now) # H) pd'"
proof -
  let ?l = "t - ucast L :: u32" and ?B = "pd_hash_table pd (first_16_bits g)" and ?n = "unat (dedup_hash_size dt)"
  note sz = dedup_hash_size_bounds [of dt]
  have lg: "length g = ?n" using assms(3,4) sz by simp
  have g: "first_16_bits h = first_16_bits g" "hash_rest h pd = drop 2 g"
    using assms(1,3,4) sz by (simp_all add: dupl_rel_def first_16_bits_def hash_rest_def drop_take min_def)
  have R: "pd_type pd = dupl_hashtable" "pd_dedup_type pd = dt" "pd_lifetime pd = L" "distinct (hi_keys ?B)" using assms(1) by (auto simp: dupl_rel_def)
  obtain B' C where w: "dupl_walk ?l now (drop 2 g) ?B = (r, B')" and C: "C = (if r then B' else \<lparr>hi_time = now, hi_hash = drop 2 g\<rparr> # B')"
      and pd': "pd' = pd\<lparr>pd_hash_table := (pd_hash_table pd)(first_16_bits g := C)\<rparr>"
    using assms(5) R g by (cases "dupl_walk ?l now (drop 2 g) ?B")
      (auto simp: check_dupl_def check_dupl_hashtable_def pd_store_def store_hashtable_def Let_def hash_rest_def split: if_splits)
  note c = chain_step [OF R(4) w C]
  have s: "\<And>hi. hi \<in> set ?B \<Longrightarrow> hi_hash hi = drop 2 g \<Longrightarrow> map_of H g = Some (hi_time hi)"
    "\<And>s. map_of H g = Some s \<Longrightarrow> l \<le> s \<Longrightarrow> \<exists>hi \<in> set ?B. hi_hash hi = drop 2 g \<and> hi_time hi = s"
    using assms(1) lg by (auto simp: dupl_rel_def)
  have r: "r = (case map_of H g of None \<Rightarrow> False | Some s \<Rightarrow> ?l \<le> s)"
  proof (cases "map_of H g")
    case None
    then show ?thesis using s(1) c(1) by fastforce
  next
    case (Some x)
    then show ?thesis using s(1) s(2) [OF Some] c(1) assms(2) by (metis option.inject option.simps(5) order_trans)
  qed
  have "(\<forall>hi \<in> set (pd_hash_table pd' (first_16_bits k)). hi_hash hi = drop 2 k \<longrightarrow> map_of ((g, now) # H) k = Some (hi_time hi)) \<and>
     (\<forall>s. map_of ((g, now) # H) k = Some s \<longrightarrow> ?l \<le> s \<longrightarrow> (\<exists>hi \<in> set (pd_hash_table pd' (first_16_bits k)). hi_hash hi = drop 2 k \<and> hi_time hi = s))"
    if k: "length k = ?n" for k
  proof -
    have K: "\<forall>hi \<in> set (pd_hash_table pd (first_16_bits k)). hi_hash hi = drop 2 k \<longrightarrow> map_of H k = Some (hi_time hi)"
      "\<forall>s. map_of H k = Some s \<longrightarrow> ?l \<le> s \<longrightarrow> (\<exists>hi \<in> set (pd_hash_table pd (first_16_bits k)). hi_hash hi = drop 2 k \<and> hi_time hi = s)"
      using assms(1,2) k by (auto simp: dupl_rel_def)
    consider "k = g" | "k \<noteq> g" "first_16_bits k \<noteq> first_16_bits g" | "k \<noteq> g" "first_16_bits k = first_16_bits g" "drop 2 k \<noteq> drop 2 g"
      using digest_eq [of k g] k lg sz by fastforce
    then show ?thesis
    proof cases
      case 1
      have "hi_time hi = now" if "hi \<in> set C" "hi_hash hi = drop 2 g" for hi using c(4) [OF that(1)] that(2) by blast
      then show ?thesis using c(3) 1 by (auto simp: pd')
    next
      case 2
      then show ?thesis using K by (simp add: pd')
    next
      case 3
      have tab: "pd_hash_table pd' (first_16_bits k) = C" "map_of ((g, now) # H) k = map_of H k" using 3 by (simp_all add: pd')
      have a: "hi \<in> set ?B" if "hi \<in> set C" "hi_hash hi = drop 2 k" for hi using c(4) [OF that(1)] that(2) 3(3) by metis
      have b: "hi \<in> set C" if "hi \<in> set ?B" "hi_hash hi = drop 2 k" "?l \<le> hi_time hi" for hi using c(5) [OF that(1) _ that(3)] that(2) 3(3) by metis
      show ?thesis unfolding tab using K [unfolded 3(2)] a b by blast
    qed
  qed
  then show ?thesis using r c(2) assms(1) unfolding dupl_rel_def by (simp add: pd')
qed

lemma dupl_run_spec:
  assumes "dupl_rel dt L l H pd" and "unat l + unat L \<le> unat T" and "clock_ok T es" and "\<forall>(t, now, h) \<in> set es. length h = 16"
  shows "dupl_run dt pd es = dedup_spec L H (map (\<lambda>(t, now, h). (t, now, take (unat (dedup_hash_size dt)) h)) es)"
  using assms
proof (induction es arbitrary: l H pd T)
  case (Cons e es)
  obtain t now h where e: "e = (t, now, h)" by (cases e)
  obtain r pd' where c: "check_dupl t now h dt pd = (r, pd')" by (cases "check_dupl t now h dt pd")
  have k: "T \<le> t" "t \<le> now" "clock_ok now es" "length h = 16" using Cons.prems(3,4) e by auto
  have L: "unat L \<le> unat t" "unat l + unat L \<le> unat t" using Cons.prems(2) k(1) by (auto simp: word_le_nat_alt)
  then have u: "unat (t - ucast L) = unat t - unat L" by (simp add: unat_sub word_le_nat_alt)
  then have "l \<le> t - ucast L" using L by (simp add: word_le_nat_alt)
  note s = dupl_rel_step [OF Cons.prems(1) this k(4) refl c]
  have "unat (t - ucast L) + unat L \<le> unat now" using u L k(2) by (simp add: word_le_nat_alt)
  then have "dupl_run dt pd' es = dedup_spec L ((take (unat (dedup_hash_size dt)) h, now) # H) (map (\<lambda>(t, now, h). (t, now, take (unat (dedup_hash_size dt)) h)) es)"
    using s Cons.prems(4) k(3) by (intro Cons.IH) auto
  moreover have "t - ucast L \<le> x \<longleftrightarrow> unat t \<le> unat x + unat L" for x using u L by (auto simp: word_le_nat_alt)
  ultimately show ?case using s e c by (simp split: option.splits)
qed simp

lemma dupl_rel_new: "dupl_rel dt L 0 [] (pd_new dupl_hashtable dt L)"
  by (simp add: dupl_rel_def pd_new_def pd_init_def Let_def)

section \<open>Properties\<close>

text \<open>C37: The hash table finds exactly the duplicates: over every sequence of digests checked at times that do not go back (and begin no earlier than
  one lifetime after the zero of the clock), a packet is reported as a duplicate if and only if the last packet with the same digest was checked at most
  the lifetime before, whatever chains the digests share and whatever items have been freed on the way.\<close>

theorem dedup_hashtable_exact:
  assumes "clock_ok (ucast lifetime) es" and "\<forall>(t, now, h) \<in> set es. length h = 16"
  shows "dupl_run dt (pd_new dupl_hashtable dt lifetime) es =
    dedup_spec lifetime [] (map (\<lambda>(t, now, h). (t, now, take (unat (dedup_hash_size dt)) h)) es)"
  by (rule dupl_run_spec [OF dupl_rel_new _ assms]) simp

theorem dedup_hashtable_exact_witness:
  "dupl_run dedup_crc32_sw (pd_new dupl_hashtable dedup_crc32_sw 2)
     [(10, 10, [1,2,3,4,0,0,0,0,0,0,0,0,0,0,0,0]), (11, 11, [1,2,9,9,0,0,0,0,0,0,0,0,0,0,0,0]), (12, 12, [1,2,3,4,7,7,7,7,0,0,0,0,0,0,0,0]),
      (14, 14, [1,2,9,9,0,0,0,0,0,0,0,0,0,0,0,0]), (14, 14, [1,2,3,4,0,0,0,0,0,0,0,0,0,0,0,0])] = [False, False, True, False, True]"
  by (subst dedup_hashtable_exact) simp_all

text \<open>The fixed table starts with zeros and cannot tell an empty row from a digest whose compared part is zero: such a packet is a duplicate the first time
  it is seen.\<close>

lemma dedup_simple_zero:
  assumes "length h = 16" and "take (unat (dedup_hash_size dt) - 2) (drop 2 h) = replicate (unat (dedup_hash_size dt) - 2) 0"
  shows "fst (check_dupl t now h dt (pd_new dupl_simple dt lifetime))"
  using assms by (simp add: check_dupl_def pd_new_def pd_init_def hash_rest_def Let_def dedup_hash_size_bounds(3))

end
