(* ===== verification/VM_PktHdr.thy ===== *)
theory VM_PktHdr
  imports VM_Prelude
begin

text \<open>
  The header in front of each packet of a packet buffer block: \<open>pcap_pkthdr_plus\<close> (36 bytes) and
  \<open>pcap_pkthdr_plus2\<close> (58 bytes) of \<open>pcap_queue_block.h\<close>. The first 24 bytes are a union of the fixed-size header
  \<open>pcap_pkthdr_fix_size\<close> and of the \<open>pcap_pkthdr\<close> of a 64-bit host; the member \<open>std\<close> tells which one is held.
  A header is read and written in the memory that holds it, at the position \<open>p\<close>.
\<close>

record pcap_std =
  sh_sec :: u64
  sh_usec :: u64
  sh_caplen :: u32
  sh_len :: u32

definition plus_size :: nat where "plus_size = 36"
definition plus2_size :: nat where "plus2_size = 58"

section \<open>Fields\<close>

definition hp_std :: "mem \<Rightarrow> nat \<Rightarrow> bool outcome" where
  "hp_std m p = omap (\<lambda>w. w \<noteq> 0) (ld16 m (p + 28))"

definition get_caplen :: "mem \<Rightarrow> nat \<Rightarrow> u32 outcome" where
  "get_caplen m p = obind (hp_std m p) (\<lambda>s. ld32 m (p + (if s then 16 else 8)))"

definition get_len :: "mem \<Rightarrow> nat \<Rightarrow> u32 outcome" where
  "get_len m p = obind (hp_std m p) (\<lambda>s. ld32 m (p + (if s then 20 else 12)))"

definition set_caplen :: "u32 \<Rightarrow> mem \<Rightarrow> nat \<Rightarrow> mem outcome" where
  "set_caplen v m p = obind (hp_std m p) (\<lambda>s. stn m (p + (if s then 16 else 8)) (word_le 4 v))"

definition set_len :: "u32 \<Rightarrow> mem \<Rightarrow> nat \<Rightarrow> mem outcome" where
  "set_len v m p = obind (hp_std m p) (\<lambda>s. stn m (p + (if s then 20 else 12)) (word_le 4 v))"

definition get_tv_sec :: "mem \<Rightarrow> nat \<Rightarrow> u32 outcome" where
  "get_tv_sec m p = obind (hp_std m p) (\<lambda>s. if s then omap ucast (ld64 m p) else ld32 m p)"

definition get_tv_usec :: "mem \<Rightarrow> nat \<Rightarrow> u32 outcome" where
  "get_tv_usec m p = obind (hp_std m p) (\<lambda>s. if s then omap ucast (ld64 m (p + 8)) else ld32 m (p + 4))"

definition get_ts :: "mem \<Rightarrow> nat \<Rightarrow> (u64 \<times> u64) outcome" where
  "get_ts m p = obind (hp_std m p) (\<lambda>s.
     if s then obind (ld64 m p) (\<lambda>sec. omap (\<lambda>usec. (sec, usec)) (ld64 m (p + 8)))
     else obind (ld32 m p) (\<lambda>sec. omap (\<lambda>usec. (ucast sec, ucast usec)) (ld32 m (p + 4))))"

definition get_time_ms :: "mem \<Rightarrow> nat \<Rightarrow> u64 outcome" where
  "get_time_ms m p = obind (get_tv_sec m p) (\<lambda>sec. omap (\<lambda>usec. ucast sec * 1000 + ucast (usec div 1000)) (get_tv_usec m p))"

definition get_time_us :: "mem \<Rightarrow> nat \<Rightarrow> u64 outcome" where
  "get_time_us m p = obind (get_tv_sec m p) (\<lambda>sec. omap (\<lambda>usec. ucast sec * 1000000 + ucast usec) (get_tv_usec m p))"

definition getStdHeader :: "mem \<Rightarrow> nat \<Rightarrow> pcap_std outcome" where
  "getStdHeader m p = obind (hp_std m p) (\<lambda>s.
     if s then
       obind (ld64 m p) (\<lambda>sec. obind (ld64 m (p + 8)) (\<lambda>usec. obind (ld32 m (p + 16)) (\<lambda>caplen. omap (\<lambda>len.
         \<lparr>sh_sec = sec, sh_usec = usec, sh_caplen = caplen, sh_len = len\<rparr>) (ld32 m (p + 20)))))
     else
       obind (ld32 m p) (\<lambda>sec. obind (ld32 m (p + 4)) (\<lambda>usec. obind (ld32 m (p + 8)) (\<lambda>caplen. omap (\<lambda>len.
         \<lparr>sh_sec = ucast sec, sh_usec = ucast usec, sh_caplen = caplen, sh_len = len\<rparr>) (ld32 m (p + 12))))))"

section \<open>Conversions\<close>

definition std_bytes :: "pcap_std \<Rightarrow> mem" where
  "std_bytes h = word_le 8 (sh_sec h) @ word_le 8 (sh_usec h) @ word_le 4 (sh_caplen h) @ word_le 4 (sh_len h)"

definition fix_bytes :: "pcap_std \<Rightarrow> mem" where
  "fix_bytes h = word_le 4 (ucast (sh_sec h) :: u32) @ word_le 4 (ucast (sh_usec h) :: u32) @
     word_le 4 (sh_caplen h) @ word_le 4 (sh_len h)"

definition set_std :: "u16 \<Rightarrow> mem \<Rightarrow> nat \<Rightarrow> mem outcome" where
  "set_std v m p = stn m (p + 28) (word_le 2 v)"

definition convertFromStdHeader :: "pcap_std \<Rightarrow> mem \<Rightarrow> nat \<Rightarrow> mem outcome" where
  "convertFromStdHeader h m p = obind (set_std 0 m p) (\<lambda>m. stn m p (fix_bytes h))"

definition convertFromStdHeaderToStd :: "pcap_std \<Rightarrow> mem \<Rightarrow> nat \<Rightarrow> mem outcome" where
  "convertFromStdHeaderToStd h m p = obind (set_std 1 m p) (\<lambda>m. stn m p (std_bytes h))"

definition convertToStdHeader :: "mem \<Rightarrow> nat \<Rightarrow> mem outcome" where
  "convertToStdHeader m p = obind (hp_std m p) (\<lambda>s.
     if s then Ret m
     else obind (getStdHeader m p) (\<lambda>h. obind (stn m p (std_bytes h)) (\<lambda>m. set_std 1 m p)))"

text \<open>The constructor zeroes the header; the one of \<open>pcap_pkthdr_plus2\<close> then sets \<open>detect_headers\<close>, \<open>dc\<close>,
  \<open>ignore\<close> and \<open>pid\<close> to their initial values (\<open>VLAN_UNSET\<close> is 0xFFFF) and leaves the other bytes as they were.\<close>

definition plus_new :: "mem" where
  "plus_new = replicate plus_size 0"

definition plus2_clear :: "mem \<Rightarrow> nat \<Rightarrow> mem outcome" where
  "plus2_clear m p = obind (stn m (p + 36) [0]) (\<lambda>m. obind (stn m (p + 40) [0, 0, 0, 0]) (\<lambda>m.
     obind (stn m (p + 56) [0]) (\<lambda>m. obind (stn m (p + 32) [0xFF, 0xFF]) (\<lambda>m. stn m (p + 34) [0]))))"

definition plus2_clear_ext :: "mem \<Rightarrow> nat \<Rightarrow> mem outcome" where
  "plus2_clear_ext m p = obind (stn m p (replicate plus2_size 0)) (\<lambda>m. plus2_clear m p)"

definition hp_ignore :: "mem \<Rightarrow> nat \<Rightarrow> bool outcome" where
  "hp_ignore m p = omap (\<lambda>b. b \<noteq> 0) (ld8 m (p + 56))"

section \<open>Conversions keep the header\<close>

lemma ld64_stn_other: "stn m p bs = Ret m' \<Longrightarrow> q + 8 \<le> p \<or> p + length bs \<le> q \<Longrightarrow> ld64 m' q = ld64 m q"
  by (simp add: ld64_def ldn_stn_other)

lemma stn_drop:
  assumes "stn m p bs = Ret m'"
  shows "drop p m' = bs @ drop (p + length bs) m"
  using assms by (auto simp: stn_def split: if_splits)

lemma ld64_at: "drop p m = xs @ ys \<Longrightarrow> length xs = 8 \<Longrightarrow> ld64 m p = Ret (le_word xs)"
  using ld_at(3) [of p m xs ys 8] by (simp add: ld64_def)

lemma le_word_word_le_simps [simp]:
  "le_word (word_le 8 a) = (a :: u64)" "le_word (word_le 4 b) = (b :: u32)" "le_word (word_le 2 c) = (c :: u16)"
  by (simp_all add: le_word_word_le)

text \<open>What is read at a position where a header of either kind has been written.\<close>

lemma std_written:
  assumes "drop p m = std_bytes h @ r"
  shows "ld64 m p = Ret (sh_sec h)" "ld64 m (p + 8) = Ret (sh_usec h)"
    "ld32 m (p + 16) = Ret (sh_caplen h)" "ld32 m (p + 20) = Ret (sh_len h)"
proof -
  note d = assms [unfolded std_bytes_def, simplified]
  show "ld64 m p = Ret (sh_sec h)" using ld64_at [OF d] by simp
  note d8 = drop_step [OF d, of 8, simplified]
  show "ld64 m (p + 8) = Ret (sh_usec h)" using ld64_at [OF d8] by simp
  note d16 = drop_step [OF d8, of 8, simplified]
  show "ld32 m (p + 16) = Ret (sh_caplen h)" using ld_at(1) [OF d16] by (simp add: add.commute)
  note d20 = drop_step [OF d16, of 4, simplified]
  show "ld32 m (p + 20) = Ret (sh_len h)" using ld_at(1) [OF d20] by (simp add: add.commute)
qed

lemma fix_written:
  assumes "drop p m = fix_bytes h @ r"
  shows "ld32 m p = Ret (ucast (sh_sec h))" "ld32 m (p + 4) = Ret (ucast (sh_usec h))"
    "ld32 m (p + 8) = Ret (sh_caplen h)" "ld32 m (p + 12) = Ret (sh_len h)"
proof -
  note d = assms [unfolded fix_bytes_def, simplified]
  show "ld32 m p = Ret (ucast (sh_sec h))" using ld_at(1) [OF d] by simp
  note d4 = drop_step [OF d, of 4, simplified]
  show "ld32 m (p + 4) = Ret (ucast (sh_usec h))" using ld_at(1) [OF d4] by simp
  note d8 = drop_step [OF d4, of 4, simplified]
  show "ld32 m (p + 8) = Ret (sh_caplen h)" using ld_at(1) [OF d8] by (simp add: add.commute)
  note d12 = drop_step [OF d8, of 4, simplified]
  show "ld32 m (p + 12) = Ret (sh_len h)" using ld_at(1) [OF d12] by (simp add: add.commute)
qed

lemma length_std_bytes [simp]: "length (std_bytes h) = 24" and length_fix_bytes [simp]: "length (fix_bytes h) = 16"
  by (simp_all add: std_bytes_def fix_bytes_def)

lemma ucast_up_down [simp]: "(ucast (ucast (x :: u32) :: u64) :: u32) = x"
  by (rule bit_word_eqI) (auto simp: bit_simps)

text \<open>All getters are functions of the header that \<open>getStdHeader\<close> returns.\<close>

lemma getters_of_std:
  assumes "getStdHeader m p = Ret h"
  shows "get_caplen m p = Ret (sh_caplen h)" "get_len m p = Ret (sh_len h)" "get_tv_sec m p = Ret (ucast (sh_sec h))"
    "get_tv_usec m p = Ret (ucast (sh_usec h))" "get_ts m p = Ret (sh_sec h, sh_usec h)"
proof -
  obtain s where s: "hp_std m p = Ret s" using assms by (auto simp: getStdHeader_def obind_Ret_iff)
  show "get_caplen m p = Ret (sh_caplen h)" "get_len m p = Ret (sh_len h)" "get_tv_sec m p = Ret (ucast (sh_sec h))"
    "get_tv_usec m p = Ret (ucast (sh_usec h))" "get_ts m p = Ret (sh_sec h, sh_usec h)"
    using assms unfolding getStdHeader_def get_caplen_def get_len_def get_tv_sec_def get_tv_usec_def get_ts_def s
    by (cases s; clarsimp simp: obind_Ret_iff omap_Ret_iff)+
qed

lemma hp_std_set:
  assumes "set_std v m p = Ret m'"
  shows "hp_std m' p = Ret (v \<noteq> 0)" "length m' = length m" "\<And>q n. q + n \<le> p + 28 \<or> p + 30 \<le> q \<Longrightarrow> ldn n m' q = ldn n m q"
  using assms ld16_stn [of m "p + 28" v m'] stn_length [of m "p + 28" "word_le 2 v" m']
    ldn_stn_other [of m "p + 28" "word_le 2 v" m']
  by (auto simp: set_std_def hp_std_def)

lemma getStd_written:
  assumes "drop p m = std_bytes h @ r" "hp_std m p = Ret True"
  shows "getStdHeader m p = Ret h"
  using assms std_written [OF assms(1)] by (simp add: getStdHeader_def)

lemma getStdHeader_Ret: "p + 30 \<le> length m \<Longrightarrow> \<exists>h. getStdHeader m p = Ret h"
  by (auto simp: getStdHeader_def hp_std_def mem_simps)

text \<open>Writing the header back in the 64-bit form keeps what every getter returns and all the other fields.\<close>

lemma convertToStdHeader_facts:
  assumes "getStdHeader m p = Ret h" "p + 30 \<le> length m"
  obtains m' where "convertToStdHeader m p = Ret m'" "length m' = length m" "hp_std m' p = Ret True" "getStdHeader m' p = Ret h"
    "\<And>q n. q + n \<le> p \<or> p + 24 \<le> q \<and> q + n \<le> p + 28 \<or> p + 30 \<le> q \<Longrightarrow> ldn n m' q = ldn n m q"
proof -
  obtain s where s: "hp_std m p = Ret s" using assms(1) by (auto simp: getStdHeader_def obind_Ret_iff)
  show thesis
  proof (cases s)
    case True
    then show ?thesis using that [of m] s assms by (simp add: convertToStdHeader_def)
  next
    case False
    obtain m1 where m1: "stn m p (std_bytes h) = Ret m1" "length m1 = length m" using stn_Ret [of p "std_bytes h" m] assms(2) by auto
    obtain m2 where m2: "set_std 1 m1 p = Ret m2" using stn_Ret [of "p + 28" "word_le 2 (1 :: u16)" m1] m1 assms(2) by (auto simp: set_std_def)
    note f = hp_std_set [OF m2]
    have "ldn 24 m2 p = Ret (std_bytes h)" using f(3) [of p 24] ldn_stn [OF m1(1)] by simp
    then have "drop p m2 = std_bytes h @ drop 24 (drop p m2)"
      by (metis append_take_drop_id ldn_def outcome.distinct(1) outcome.inject)
    then have "getStdHeader m2 p = Ret h" using getStd_written f(1) by force
    moreover have "ldn n m2 q = ldn n m q" if "q + n \<le> p \<or> p + 24 \<le> q \<and> q + n \<le> p + 28 \<or> p + 30 \<le> q" for q n
      using f(3) [of q n] ldn_stn_other [OF m1(1), of q n] that by auto
    moreover have "convertToStdHeader m p = Ret m2" using s False assms(1) m1 m2 by (simp add: convertToStdHeader_def)
    ultimately show ?thesis using that [of m2] f m1 by simp
  qed
qed

text \<open>converting a packet header to the 64-bit form in place returns, leaves the time stamp and the lengths every
  getter reports unchanged, and touches neither the packet behind the header nor the offsets, the link type and the
  VLAN stored in it.\<close>

theorem convertToStdHeader_same:
  assumes "p + plus_size \<le> length m"
  shows "\<exists>m'. convertToStdHeader m p = Ret m' \<and> hp_std m' p = Ret True \<and> getStdHeader m' p = getStdHeader m p \<and>
    get_caplen m' p = get_caplen m p \<and> get_len m' p = get_len m p \<and> get_tv_sec m' p = get_tv_sec m p \<and>
    get_tv_usec m' p = get_tv_usec m p \<and> get_ts m' p = get_ts m p \<and> get_time_us m' p = get_time_us m p \<and>
    take p m' = take p m \<and> ldn 4 m' (p + 24) = ldn 4 m (p + 24) \<and> drop (p + 30) m' = drop (p + 30) m"
proof -
  have len: "p + 30 \<le> length m" using assms by (simp add: plus_size_def)
  then obtain h where h: "getStdHeader m p = Ret h" using getStdHeader_Ret by blast
  from h len obtain m' where m': "convertToStdHeader m p = Ret m'" "length m' = length m" "hp_std m' p = Ret True"
    "getStdHeader m' p = Ret h"
    "\<And>q n. q + n \<le> p \<or> p + 24 \<le> q \<and> q + n \<le> p + 28 \<or> p + 30 \<le> q \<Longrightarrow> ldn n m' q = ldn n m q"
    using convertToStdHeader_facts [of m p h] by blast
  have "take p m' = take p m" "drop (p + 30) m' = drop (p + 30) m"
    using m'(5) [of 0 p] m'(5) [of "p + 30" "length m - (p + 30)"] m'(2) len by (simp_all add: ldn_def)
  with m' h show ?thesis by (simp add: getters_of_std get_time_us_def)
qed

theorem convertToStdHeader_same_witness:
  "\<exists>m'. convertToStdHeader (replicate 40 7) 0 = Ret m' \<and> get_caplen m' 0 = get_caplen (replicate 40 7) 0"
  using convertToStdHeader_same [of 0 "replicate 40 7"] by (auto simp: plus_size_def)

text \<open>A header filled from a 64-bit one keeps the lengths, and the time stamp as far as it fits into 32 bits.\<close>

lemma convertFromStdHeader_facts:
  assumes "p + 30 \<le> length m"
  obtains m' where "convertFromStdHeader h m p = Ret m'" "length m' = length m" "hp_std m' p = Ret False"
    "getStdHeader m' p = Ret (h\<lparr>sh_sec := ucast (ucast (sh_sec h) :: u32), sh_usec := ucast (ucast (sh_usec h) :: u32)\<rparr>)"
    "ldn 4 m' (p + 24) = ldn 4 m (p + 24)"
proof -
  obtain m1 where m1: "set_std 0 m p = Ret m1" using stn_Ret [of "p + 28" "word_le 2 (0 :: u16)" m] assms by (auto simp: set_std_def)
  note f = hp_std_set [OF m1]
  obtain m2 where m2: "stn m1 p (fix_bytes h) = Ret m2" "length m2 = length m" using stn_Ret [of p "fix_bytes h" m1] assms f by auto
  have s: "hp_std m2 p = Ret False" using f(1) ld16_stn_other [OF m2(1), of "p + 28"] by (simp add: hp_std_def)
  have "getStdHeader m2 p = Ret (h\<lparr>sh_sec := ucast (ucast (sh_sec h) :: u32), sh_usec := ucast (ucast (sh_usec h) :: u32)\<rparr>)"
    using fix_written [OF stn_drop [OF m2(1)]] s by (simp add: getStdHeader_def)
  moreover have "ldn 4 m2 (p + 24) = ldn 4 m (p + 24)" using ldn_stn_other [OF m2(1), of "p + 24" 4] f(3) [of "p + 24" 4] by simp
  ultimately show ?thesis using that [of m2] m1 m2 s by (simp add: convertFromStdHeader_def)
qed

end
