(* ===== verification/VM_BlockStore.thy ===== *)
theory VM_BlockStore
  imports VM_PktHdr
begin

text \<open>
  The packet buffer block \<open>pcap_block_store\<close> (\<open>pcap_queue_block.h\<close>, \<open>pcap_queue.cpp\<close>): packets with their headers laid
  out one behind the other in one heap array, with an array of 32-bit offsets; its image for a file or a mirror
  connection (\<open>getSaveBuffer\<close>) and the receiver that puts the image together again from pieces
  (\<open>addRestoreChunk\<close>). Heap arrays are byte and word lists of the allocated size with arbitrary initial contents
  (\<open>g\<close>), a null pointer is \<open>None\<close>; a \<open>size_t\<close> is a natural number (it counts bytes or packets held in memory),
  the 32-bit fields of the image, the 32-bit offsets and the conversion to \<open>int\<close> are kept at their width. The packets of
  a DPDK block stay in the buffers of the DPDK library; only blocks with \<open>dpdk\<close> unset are modelled.
\<close>

section \<open>Options and state\<close>

datatype header_mode = hm_plus | hm_plus2

record pb_opts =
  opt_block_max_size :: nat
  opt_block_max_time_ms :: nat
  opt_use_checksum :: bool
  opt_require_confirmation :: bool
  opt_max_time_diff_s :: int
  global_pcap_dlink :: u16
  opt_id_sensor :: u16

definition AVG_PACKET_SIZE :: nat where "AVG_PACKET_SIZE = 250"

text \<open>The factor 1.1 of the source is a double; for a quotient below \<open>10 ^ 14\<close> the product rounded down is exact.\<close>

definition offset_init_size :: "pb_opts \<Rightarrow> nat" where
  "offset_init_size cf = (opt_block_max_size cf div AVG_PACKET_SIZE) * 11 div 10"

definition offset_inc_size :: "pb_opts \<Rightarrow> nat" where
  "offset_inc_size cf = opt_block_max_size cf div AVG_PACKET_SIZE div 4"

definition restore_buffer_inc_size :: "pb_opts \<Rightarrow> nat" where
  "restore_buffer_inc_size cf = opt_block_max_size cf div 4"

record pcap_block_store =
  bs_hm :: header_mode
  bs_offsets :: "u32 list option"
  bs_block :: "mem option"
  bs_size :: nat
  bs_size_compress :: nat
  bs_size_packets :: nat
  bs_count :: nat
  bs_offsets_size :: nat
  bs_full :: bool
  bs_dlink :: u16
  bs_sensor_id :: u16
  bs_ifname :: mem
  bs_block_counter :: u32
  bs_confirm :: bool
  bs_restoreBuffer :: "mem option"
  bs_restoreBufferSize :: nat
  bs_restoreBufferAllocSize :: nat
  bs_timestampMS :: nat
  bs_packet_lock :: int
  bs_is_voip :: "mem option"
  bs_idFileStore :: nat
  bs_filePosition :: nat

definition heap_bytes :: "(nat \<Rightarrow> u32) \<Rightarrow> nat \<Rightarrow> mem" where
  "heap_bytes g n = map (\<lambda>i. ucast (g i)) [0..<n]"

definition heap_words :: "(nat \<Rightarrow> u32) \<Rightarrow> nat \<Rightarrow> u32 list" where
  "heap_words g n = map g [0..<n]"

text \<open>A null pointer must not be read or written unless no byte is copied.\<close>

definition bs_ldn :: "nat \<Rightarrow> mem option \<Rightarrow> nat \<Rightarrow> mem outcome" where
  "bs_ldn n b p = (case b of None \<Rightarrow> if n = 0 then Ret [] else OutOfBounds | Some m \<Rightarrow> ldn n m p)"

definition bs_stn :: "mem option \<Rightarrow> nat \<Rightarrow> mem \<Rightarrow> mem option outcome" where
  "bs_stn b p bs = (case b of None \<Rightarrow> if bs = [] then Ret None else OutOfBounds | Some m \<Rightarrow> omap Some (stn m p bs))"

definition bs_offset :: "pcap_block_store \<Rightarrow> nat \<Rightarrow> u32 outcome" where
  "bs_offset st i = (case bs_offsets st of None \<Rightarrow> OutOfBounds | Some os \<Rightarrow> if i < length os then Ret (os ! i) else OutOfBounds)"

section \<open>Construction and destruction\<close>

definition bs_destroy :: "pb_opts \<Rightarrow> pcap_block_store \<Rightarrow> pcap_block_store" where
  "bs_destroy cf st = st\<lparr>bs_offsets := None, bs_block := None, bs_is_voip := None, bs_size := 0, bs_size_compress := 0,
     bs_size_packets := 0, bs_count := 0, bs_offsets_size := 0, bs_full := False, bs_dlink := global_pcap_dlink cf,
     bs_sensor_id := opt_id_sensor cf, bs_ifname := replicate 10 0\<rparr>"

definition destroyRestoreBuffer :: "pcap_block_store \<Rightarrow> pcap_block_store" where
  "destroyRestoreBuffer st = st\<lparr>bs_restoreBuffer := None, bs_restoreBufferSize := 0, bs_restoreBufferAllocSize := 0\<rparr>"

definition isEmptyRestoreBuffer :: "pcap_block_store \<Rightarrow> bool" where
  "isEmptyRestoreBuffer st = (bs_restoreBuffer st = None)"

definition freeBlock :: "pcap_block_store \<Rightarrow> pcap_block_store" where
  "freeBlock st = st\<lparr>bs_block := None\<rparr>"

text \<open>The members \<open>block_counter\<close> and \<open>require_confirmation\<close> are not initialised; \<open>g\<close> gives their values.\<close>

definition pcap_block_store_new :: "pb_opts \<Rightarrow> (nat \<Rightarrow> u32) \<Rightarrow> nat \<Rightarrow> header_mode \<Rightarrow> pcap_block_store" where
  "pcap_block_store_new cf g now hm = destroyRestoreBuffer (bs_destroy cf
     \<lparr>bs_hm = hm, bs_offsets = None, bs_block = None, bs_size = 0, bs_size_compress = 0, bs_size_packets = 0, bs_count = 0,
      bs_offsets_size = 0, bs_full = False, bs_dlink = 0, bs_sensor_id = 0, bs_ifname = replicate 10 0,
      bs_block_counter = g 0, bs_confirm = (g 1 \<noteq> 0), bs_restoreBuffer = None, bs_restoreBufferSize = 0,
      bs_restoreBufferAllocSize = 0, bs_timestampMS = now, bs_packet_lock = 0, bs_is_voip = None, bs_idFileStore = 0, bs_filePosition = 0\<rparr>)"

function prefetch_loop :: "nat \<Rightarrow> nat \<Rightarrow> mem option \<Rightarrow> mem option outcome" where
  "prefetch_loop n i b = (if i < n then obind (bs_stn b i [0]) (prefetch_loop n (i + 128)) else Ret b)"
  by pat_completeness auto
termination by (relation "measure (\<lambda>(n, i, b). n - i)") auto

declare prefetch_loop.simps [simp del]

definition bs_init :: "pb_opts \<Rightarrow> (nat \<Rightarrow> u32) \<Rightarrow> nat \<Rightarrow> bool \<Rightarrow> pcap_block_store \<Rightarrow> pcap_block_store outcome" where
  "bs_init cf g now prefetch st =
     (let b = Some (heap_bytes g (opt_block_max_size cf)) in
      omap (\<lambda>b. st\<lparr>bs_block := b, bs_offsets_size := offset_init_size cf,
                   bs_offsets := Some (heap_words g (offset_init_size cf)), bs_timestampMS := now\<rparr>)
        (if prefetch then prefetch_loop (opt_block_max_size cf) 0 b else Ret b))"

definition bs_clear :: "pb_opts \<Rightarrow> nat \<Rightarrow> bool \<Rightarrow> pcap_block_store \<Rightarrow> pcap_block_store outcome" where
  "bs_clear cf now prefetch st =
     omap (\<lambda>b. st\<lparr>bs_count := 0, bs_size := 0, bs_size_packets := 0, bs_block := b, bs_timestampMS := now\<rparr>)
       (if prefetch then prefetch_loop (opt_block_max_size cf) 0 (bs_block st) else Ret (bs_block st))"

definition bs_copy :: "pb_opts \<Rightarrow> (nat \<Rightarrow> u32) \<Rightarrow> nat \<Rightarrow> pcap_block_store \<Rightarrow> pcap_block_store \<Rightarrow> pcap_block_store outcome" where
  "bs_copy cf g now from st =
     (let st = st\<lparr>bs_count := bs_count from, bs_size := bs_size from, bs_size_packets := bs_size_packets from\<rparr>;
          st = (if bs_block st = None then st\<lparr>bs_block := Some (heap_bytes g (opt_block_max_size cf))\<rparr> else st) in
      obind (bs_ldn (bs_size st) (bs_block from) 0) (\<lambda>bytes. obind (bs_stn (bs_block st) 0 bytes) (\<lambda>b.
        (let st = st\<lparr>bs_block := b\<rparr>;
             st = (if bs_offsets st = None \<or> bs_count st > bs_offsets_size st
                   then st\<lparr>bs_offsets := Some (heap_words g (bs_offsets_size from)), bs_offsets_size := bs_offsets_size from\<rparr>
                   else st);
             fo = (case bs_offsets from of None \<Rightarrow> [] | Some os \<Rightarrow> os);
             os = (case bs_offsets st of None \<Rightarrow> [] | Some os \<Rightarrow> os) in
         if bs_count st \<le> length fo \<and> bs_count st \<le> length os
         then Ret (st\<lparr>bs_offsets := Some (take (bs_count st) fo @ drop (bs_count st) os), bs_packet_lock := 0, bs_timestampMS := now\<rparr>)
         else OutOfBounds))))"

section \<open>Adding packets\<close>

definition header_size :: "header_mode \<Rightarrow> nat" where
  "header_size hm = (case hm of hm_plus2 \<Rightarrow> plus2_size | hm_plus \<Rightarrow> plus_size)"

definition bs_alloc_block :: "pb_opts \<Rightarrow> (nat \<Rightarrow> u32) \<Rightarrow> pcap_block_store \<Rightarrow> pcap_block_store" where
  "bs_alloc_block cf g st =
     (if bs_block st = None then st\<lparr>bs_block := Some (heap_bytes g (opt_block_max_size cf))\<rparr> else st)"

definition bs_alloc_offsets :: "pb_opts \<Rightarrow> (nat \<Rightarrow> u32) \<Rightarrow> pcap_block_store \<Rightarrow> pcap_block_store" where
  "bs_alloc_offsets cf g st =
     (if bs_offsets_size st = 0
      then st\<lparr>bs_offsets_size := offset_init_size cf, bs_offsets := Some (heap_words g (offset_init_size cf))\<rparr> else st)"

definition bs_grow_offsets :: "pb_opts \<Rightarrow> (nat \<Rightarrow> u32) \<Rightarrow> pcap_block_store \<Rightarrow> pcap_block_store outcome" where
  "bs_grow_offsets cf g st =
     (if bs_count st = bs_offsets_size st then
        (let n = bs_offsets_size st; n' = n + offset_inc_size cf in
         case bs_offsets st of
           None \<Rightarrow> if n = 0 then Ret (st\<lparr>bs_offsets_size := n', bs_offsets := Some (heap_words g n')\<rparr>) else OutOfBounds
         | Some old \<Rightarrow>
             if n \<le> length old
             then Ret (st\<lparr>bs_offsets_size := n', bs_offsets := Some (take n old @ drop n (heap_words g n'))\<rparr>)
             else OutOfBounds)
      else Ret st)"

definition bs_set_offset :: "pcap_block_store \<Rightarrow> pcap_block_store outcome" where
  "bs_set_offset st =
     (case bs_offsets st of None \<Rightarrow> OutOfBounds
      | Some os \<Rightarrow> if bs_count st < length os
                  then Ret (st\<lparr>bs_offsets := Some (os[bs_count st := word_of_nat (bs_size st)])\<rparr>) else OutOfBounds)"

definition bs_timeout :: "pb_opts \<Rightarrow> nat \<Rightarrow> pcap_block_store \<Rightarrow> bool" where
  "bs_timeout cf now st = (now > bs_timestampMS st + opt_block_max_time_ms cf)"

text \<open>The number of bytes copied from the packet: \<open>memcpy_packet_size\<close> (an \<open>int\<close>) unless it is 0.\<close>

definition copied_bytes :: "int \<Rightarrow> u32 \<Rightarrow> mem \<Rightarrow> mem outcome" where
  "copied_bytes n caplen packet =
     (if n = 0 then ldn (unat caplen) packet 0 else if n < 0 then OutOfBounds else ldn (nat n) packet 0)"

definition add_hp :: "pb_opts \<Rightarrow> (nat \<Rightarrow> u32) \<Rightarrow> nat \<Rightarrow> mem \<Rightarrow> mem \<Rightarrow> int \<Rightarrow> pcap_block_store \<Rightarrow> (bool \<times> pcap_block_store) outcome" where
  "add_hp cf g now header packet memcpy_packet_size st =
     (if bs_full st then Ret (False, st) else
      obind (get_caplen header 0) (\<lambda>caplen.
      (let sh = header_size (bs_hm st); sp = unat caplen in
       if bs_size st + sh + sp > opt_block_max_size cf \<or> bs_count st mod 20 = 0 \<and> bs_size st \<noteq> 0 \<and> bs_timeout cf now st
       then Ret (False, st\<lparr>bs_full := True\<rparr>)
       else
         obind (bs_grow_offsets cf g (bs_alloc_offsets cf g (bs_alloc_block cf g st))) (\<lambda>st.
         obind (bs_set_offset st) (\<lambda>st.
         obind (ldn sh header 0) (\<lambda>h.
         obind (bs_stn (bs_block st) (bs_size st) h) (\<lambda>b.
         obind (copied_bytes memcpy_packet_size caplen packet) (\<lambda>pk.
         omap (\<lambda>b. (True, st\<lparr>bs_block := b, bs_size := bs_size st + sh + sp,
                             bs_size_packets := bs_size_packets st + sp, bs_count := bs_count st + 1\<rparr>))
           (bs_stn b (bs_size st + sh) pk)))))))))"

definition inc_h :: "pb_opts \<Rightarrow> (nat \<Rightarrow> u32) \<Rightarrow> u32 \<Rightarrow> pcap_block_store \<Rightarrow> pcap_block_store outcome" where
  "inc_h cf g caplen st =
     obind (bs_grow_offsets cf g st) (\<lambda>st.
     omap (\<lambda>st. st\<lparr>bs_size := bs_size st + plus2_size + unat caplen,
                   bs_size_packets := bs_size_packets st + unat caplen, bs_count := bs_count st + 1\<rparr>)
       (bs_set_offset st))"

text \<open>The positions of the next header and packet in the block, or \<open>None\<close> when the block is full.\<close>

definition get_add_hp_pointers :: "pb_opts \<Rightarrow> (nat \<Rightarrow> u32) \<Rightarrow> u32 \<Rightarrow> pcap_block_store \<Rightarrow> (nat \<times> nat) option \<times> pcap_block_store" where
  "get_add_hp_pointers cf g min_size st =
     (let st = bs_alloc_offsets cf g (bs_alloc_block cf g st) in
      if bs_size st + plus2_size + unat min_size > opt_block_max_size cf then (None, st\<lparr>bs_full := True\<rparr>)
      else (Some (bs_size st, bs_size st + plus2_size), st))"

definition isFull_checkTimeout :: "pb_opts \<Rightarrow> nat \<Rightarrow> nat \<Rightarrow> pcap_block_store \<Rightarrow> bool \<times> pcap_block_store" where
  "isFull_checkTimeout cf now timeout_ms st =
     (if bs_full st then (True, st)
      else if bs_size st \<noteq> 0 \<and> now > bs_timestampMS st + (if timeout_ms \<noteq> 0 then timeout_ms else opt_block_max_time_ms cf)
      then (True, st\<lparr>bs_full := True\<rparr>) else (False, st))"

section \<open>Reading packets\<close>

text \<open>The pointers \<open>operator []\<close> returns, as positions in the block; null pointers behind the last packet.\<close>

definition bs_item :: "pcap_block_store \<Rightarrow> nat \<Rightarrow> (nat \<times> nat) option outcome" where
  "bs_item st i = (if i < bs_count st
     then omap (\<lambda>off. Some (unat off, unat off + header_size (bs_hm st))) (bs_offset st i) else Ret None)"

definition get_header :: "pcap_block_store \<Rightarrow> nat \<Rightarrow> nat outcome" where
  "get_header st i = omap unat (bs_offset st i)"

definition get_packet :: "pcap_block_store \<Rightarrow> nat \<Rightarrow> nat outcome" where
  "get_packet st i = omap (\<lambda>off. unat off + header_size (bs_hm st)) (bs_offset st i)"

definition bs_mem :: "pcap_block_store \<Rightarrow> mem" where
  "bs_mem st = (case bs_block st of None \<Rightarrow> [] | Some m \<Rightarrow> m)"

definition get_space_after_packet :: "pcap_block_store \<Rightarrow> nat \<Rightarrow> nat outcome" where
  "get_space_after_packet st i =
     obind (get_packet st i) (\<lambda>p. obind (get_header st i) (\<lambda>h. omap (\<lambda>c. p + unat c) (get_caplen (bs_mem st) h)))"

definition is_ignore :: "pcap_block_store \<Rightarrow> nat \<Rightarrow> bool outcome" where
  "is_ignore st i = (if bs_hm st = hm_plus2 then obind (bs_offset st i) (\<lambda>off. hp_ignore (bs_mem st) (unat off)) else Ret False)"

definition getUseSize :: "pcap_block_store \<Rightarrow> nat" where
  "getUseSize st = (if bs_size_compress st \<noteq> 0 then bs_size_compress st else bs_size st)"

definition getSizePackets :: "pcap_block_store \<Rightarrow> nat" where
  "getSizePackets st =
     (if bs_size_packets st \<noteq> 0 then bs_size_packets st
      else (let sh = bs_count st * header_size (bs_hm st) in if bs_size st > sh then bs_size st - sh else 0))"

fun offsets_increase :: "nat \<Rightarrow> nat \<Rightarrow> pcap_block_store \<Rightarrow> bool outcome" where
  "offsets_increase 0 i st = Ret True"
| "offsets_increase (Suc k) i st =
     obind (bs_offset st i) (\<lambda>a. obind (bs_offset st (i + 1)) (\<lambda>b. if a \<ge> b then Ret False else offsets_increase k (i + 1) st))"

text \<open>With no offsets at all, \<open>offsets_size - 1\<close> wraps and the loop reads behind the empty array.\<close>

definition check_offsets :: "pcap_block_store \<Rightarrow> bool outcome" where
  "check_offsets st =
     (if bs_offsets_size st = 0 then OutOfBounds
      else obind (offsets_increase (bs_offsets_size st - 1) 0 st) (\<lambda>ok.
        if ok then omap (\<lambda>off. unat off < bs_size st) (bs_offset st (bs_offsets_size st - 1)) else Ret False))"

fun headers_ok :: "nat \<Rightarrow> nat \<Rightarrow> pcap_block_store \<Rightarrow> bool outcome" where
  "headers_ok 0 i st = Ret True"
| "headers_ok (Suc k) i st =
     obind (bs_offset st i) (\<lambda>off. obind (ld32 (bs_mem st) (unat off + 8)) (\<lambda>caplen.
       if caplen > 65535 then Ret False else
       obind (ld16 (bs_mem st) (unat off + 26)) (\<lambda>ip. if ip > 1000 then Ret False else headers_ok k (i + 1) st)))"

definition check_headers :: "pcap_block_store \<Rightarrow> bool outcome" where
  "check_headers st = headers_ok (bs_count st) 0 st"

definition lock_packet :: "pcap_block_store \<Rightarrow> pcap_block_store" where
  "lock_packet st = st\<lparr>bs_packet_lock := bs_packet_lock st + 1\<rparr>"

definition unlock_packet :: "pcap_block_store \<Rightarrow> pcap_block_store" where
  "unlock_packet st = st\<lparr>bs_packet_lock := bs_packet_lock st - 1\<rparr>"

definition enableDestroy :: "pcap_block_store \<Rightarrow> bool" where
  "enableDestroy st = (bs_packet_lock st = 0)"

definition getLastPacketHeaderTimeMS :: "pcap_block_store \<Rightarrow> u64 outcome" where
  "getLastPacketHeaderTimeMS st =
     (if bs_count st = 0 then OutOfBounds else
      obind (bs_offset st (bs_count st - 1)) (\<lambda>off. obind (ld32 (bs_mem st) (unat off)) (\<lambda>sec.
        omap (\<lambda>usec. ucast sec * 1000 + ucast (usec div 1000)) (ld32 (bs_mem st) (unat off + 4)))))"

definition setVoipPacket :: "int \<Rightarrow> pcap_block_store \<Rightarrow> pcap_block_store outcome" where
  "setVoipPacket i st =
     (case bs_is_voip st of None \<Rightarrow> Ret st
      | Some v \<Rightarrow> if i < sint (word_of_nat (bs_count st) :: 32 word)
                 then if 0 \<le> i then omap (\<lambda>v. st\<lparr>bs_is_voip := Some v\<rparr>) (stn v (nat i) [1]) else OutOfBounds else Ret st)"


section \<open>The packets a block holds\<close>

type_synonym pkt = "mem \<times> mem"

definition item_ok :: "header_mode \<Rightarrow> pkt \<Rightarrow> bool" where
  "item_ok hm it = (length (fst it) = header_size hm \<and> get_caplen (fst it) 0 = Ret (word_of_nat (length (snd it))) \<and>
     length (snd it) < 2 ^ 32)"

definition lay :: "pkt list \<Rightarrow> mem" where
  "lay items = concat (map (\<lambda>(h, p). h @ p) items)"

fun lay_offsets :: "nat \<Rightarrow> pkt list \<Rightarrow> u32 list" where
  "lay_offsets pos [] = []"
| "lay_offsets pos (it # items) = word_of_nat pos # lay_offsets (pos + length (fst it) + length (snd it)) items"

definition packet_bytes :: "pkt list \<Rightarrow> nat" where
  "packet_bytes items = sum_list (map (length \<circ> snd) items)"

definition bs_ol :: "pcap_block_store \<Rightarrow> u32 list" where
  "bs_ol st = (case bs_offsets st of None \<Rightarrow> [] | Some os \<Rightarrow> os)"

definition bs_content :: "pcap_block_store \<Rightarrow> pkt list \<Rightarrow> bool" where
  "bs_content st items =
     ((\<forall>it \<in> set items. item_ok (bs_hm st) it) \<and> bs_count st = length items \<and> bs_size st = length (lay items) \<and>
      bs_size_compress st = 0 \<and> bs_size st < 2 ^ 32 \<and> bs_size st \<le> length (bs_mem st) \<and> take (bs_size st) (bs_mem st) = lay items \<and>
      length (bs_ol st) = bs_offsets_size st \<and> bs_count st \<le> bs_offsets_size st \<and>
      take (bs_count st) (bs_ol st) = lay_offsets 0 items \<and>
      (bs_size_packets st = 0 \<or> bs_size_packets st = packet_bytes items))"

text \<open>A block that still takes packets has an array of the full size, or none yet.\<close>

definition bs_room :: "pb_opts \<Rightarrow> pcap_block_store \<Rightarrow> bool" where
  "bs_room cf st = (bs_full st \<or>
     (bs_block st = None \<or> length (bs_mem st) = opt_block_max_size cf) \<and> bs_size_packets st = bs_size st - bs_count st * header_size (bs_hm st))"

definition opts_ok :: "pb_opts \<Rightarrow> bool" where
  "opts_ok cf = (4 * AVG_PACKET_SIZE \<le> opt_block_max_size cf \<and> opt_block_max_size cf < 2 ^ 32)"

lemma lay_simps [simp]: "lay [] = []" "lay (it # items) = fst it @ snd it @ lay items" "lay (xs @ ys) = lay xs @ lay ys"
  by (auto simp: lay_def split: prod.splits)

lemma packet_bytes_simps [simp]: "packet_bytes [] = 0" "packet_bytes (it # items) = length (snd it) + packet_bytes items"
  "packet_bytes (xs @ ys) = packet_bytes xs + packet_bytes ys"
  by (auto simp: packet_bytes_def)

lemma lay_offsets_append: "lay_offsets pos (xs @ ys) = lay_offsets pos xs @ lay_offsets (pos + length (lay xs)) ys"
  by (induction xs arbitrary: pos) (auto simp: add.assoc)

lemma length_lay_offsets [simp]: "length (lay_offsets pos xs) = length xs"
  by (induction xs arbitrary: pos) auto

lemma length_lay: "\<forall>it \<in> set items. item_ok hm it \<Longrightarrow> length (lay items) = length items * header_size hm + packet_bytes items"
  by (induction items) (auto simp: item_ok_def)

lemma lay_offsets_nth: "i < length items \<Longrightarrow> lay_offsets pos items ! i = word_of_nat (pos + length (lay (take i items)))"
proof (induction items arbitrary: pos i)
  case (Cons it items)
  then show ?case by (cases i) (auto simp: add.assoc)
qed simp

lemma lay_split: "i < length items \<Longrightarrow> lay items = lay (take i items) @ fst (items ! i) @ snd (items ! i) @ lay (drop (Suc i) items)"
  using id_take_nth_drop [of i items] by (metis lay_simps(2) lay_simps(3))

lemma header_size_bounds: "0 < header_size hm" "36 \<le> header_size hm"
  by (cases hm; simp add: header_size_def plus_size_def plus2_size_def)+

lemma get_caplen_prefix: "drop p m = h @ r \<Longrightarrow> 30 \<le> length h \<Longrightarrow> get_caplen m p = get_caplen h 0"
proof -
  assume d: "drop p m = h @ r" and h: "30 \<le> length h"
  have l: "length m - p = length h + length r" using arg_cong [OF d, of length] by simp
  have n: "ldn n m (p + k) = ldn n h k" if "k + n \<le> length h" for n k
    using that l d h by (cases "p \<le> length m") (auto simp: ldn_def drop_part [OF d])
  show ?thesis using n [of 28 2] n [of 16 4] n [of 8 4] h
    by (cases "ldn 2 h 28") (auto simp: get_caplen_def hp_std_def ld16_def ld32_def)
qed

lemma bs_content_item:
  assumes "bs_content st items" "i < length items"
  shows "bs_offset st i = Ret (word_of_nat (length (lay (take i items))))" "length (lay (take i items)) < 2 ^ 32"
    "\<exists>r. drop (length (lay (take i items))) (bs_mem st) = fst (items ! i) @ snd (items ! i) @ r"
proof -
  note c = assms(1) [unfolded bs_content_def]
  from c assms(2) have "bs_ol st ! i = lay_offsets 0 items ! i" "i < length (bs_ol st)"
    by (metis nth_take, metis order.strict_trans2)
  then show "bs_offset st i = Ret (word_of_nat (length (lay (take i items))))"
    using assms(2) by (auto simp: bs_offset_def bs_ol_def lay_offsets_nth split: option.splits)
  note s = lay_split [OF assms(2)]
  show "length (lay (take i items)) < 2 ^ 32" using c arg_cong [OF s, of length] by simp
  have "bs_mem st = lay items @ drop (bs_size st) (bs_mem st)" using c by (metis append_take_drop_id)
  then have "drop (length (lay (take i items))) (bs_mem st) = fst (items ! i) @ snd (items ! i) @ lay (drop (Suc i) items) @ drop (bs_size st) (bs_mem st)"
    by (subst (asm) s) (metis append.assoc append_eq_conv_conj)
  then show "\<exists>r. drop (length (lay (take i items))) (bs_mem st) = fst (items ! i) @ snd (items ! i) @ r" by blast
qed

text \<open>What a client of the block reads: the bytes of header and packet at the positions of \<open>operator []\<close>.\<close>

definition bs_read :: "pcap_block_store \<Rightarrow> nat \<Rightarrow> pkt option outcome" where
  "bs_read st i = obind (bs_item st i) (\<lambda>r. case r of None \<Rightarrow> Ret None | Some (h, p) \<Rightarrow>
     obind (get_caplen (bs_mem st) h) (\<lambda>caplen. obind (ldn (header_size (bs_hm st)) (bs_mem st) h) (\<lambda>hd.
       omap (\<lambda>pk. Some (hd, pk)) (ldn (unat caplen) (bs_mem st) p))))"

lemma bs_read_content:
  assumes "bs_content st items"
  shows "bs_read st i = Ret (if i < length items then Some (items ! i) else None)"
proof (cases "i < length items")
  case True
  obtain r where d: "drop (length (lay (take i items))) (bs_mem st) = fst (items ! i) @ snd (items ! i) @ r"
    using bs_content_item [OF assms True] by blast
  define p where "p = length (lay (take i items))"
  note d = d [folded p_def]
  have ok: "item_ok (bs_hm st) (items ! i)" and cnt: "bs_count st = length items" using assms True by (auto simp: bs_content_def)
  have h: "length (fst (items ! i)) = header_size (bs_hm st)" using ok by (simp add: item_ok_def)
  have "get_caplen (bs_mem st) p = Ret (word_of_nat (length (snd (items ! i))))"
    using get_caplen_prefix [OF d] ok header_size_bounds(2) [of "bs_hm st"] by (simp add: item_ok_def)
  moreover have "ldn (header_size (bs_hm st)) (bs_mem st) p = Ret (fst (items ! i))"
    using ld_at(3) [OF d, of "header_size (bs_hm st)"] h header_size_bounds(1) by simp
  moreover have "ldn (length (snd (items ! i))) (bs_mem st) (p + header_size (bs_hm st)) = Ret (snd (items ! i))"
  proof -
    have l: "length (bs_mem st) - p = header_size (bs_hm st) + length (snd (items ! i)) + length r" using arg_cong [OF d, of length] h by simp
    have "drop (p + header_size (bs_hm st)) (bs_mem st) = snd (items ! i) @ r" by (rule drop_step [OF d h])
    then show ?thesis using l header_size_bounds(1) [of "bs_hm st"] by (simp add: ldn_def)
  qed
  moreover have "unat (word_of_nat p :: u32) = p" using bs_content_item(2) [OF assms True] by (simp add: p_def unat_of_nat)
  moreover have "unat (word_of_nat (length (snd (items ! i))) :: u32) = length (snd (items ! i))" using ok by (simp add: item_ok_def unat_of_nat)
  ultimately show ?thesis using True cnt bs_content_item(1) [OF assms True, folded p_def]
    by (simp add: bs_read_def bs_item_def)
next
  case False
  then show ?thesis using assms by (simp add: bs_read_def bs_item_def bs_content_def)
qed

lemma getSizePackets_content:
  assumes "bs_content st items"
  shows "getSizePackets st = packet_bytes items"
  using assms length_lay [of items "bs_hm st"] by (auto simp: bs_content_def getSizePackets_def Let_def)


section \<open>Adding a packet\<close>

lemma opts_ok_pos: "opts_ok cf \<Longrightarrow> 0 < offset_init_size cf" "opts_ok cf \<Longrightarrow> 0 < offset_inc_size cf"
  by (auto simp: opts_ok_def offset_init_size_def offset_inc_size_def AVG_PACKET_SIZE_def)

text \<open>The allocations in front of the copies: the arrays exist and have room for one more packet, nothing else changes.\<close>

lemma bs_prepare:
  assumes "opts_ok cf" "bs_content st items" "bs_room cf st" "\<not> bs_full st"
  obtains os m where
    "bs_grow_offsets cf g (bs_alloc_offsets cf g (bs_alloc_block cf g st)) =
       Ret (st\<lparr>bs_block := Some m, bs_offsets := Some os, bs_offsets_size := length os\<rparr>)"
    "length m = opt_block_max_size cf" "take (bs_size st) m = lay items" "bs_count st < length os"
    "take (bs_count st) os = lay_offsets 0 items"
proof -
  note c = assms(2) [unfolded bs_content_def]
  define m where "m = (case bs_block st of None \<Rightarrow> heap_bytes g (opt_block_max_size cf) | Some m \<Rightarrow> m)"
  have m: "bs_alloc_block cf g st = st\<lparr>bs_block := Some m\<rparr>" by (cases "bs_block st") (auto simp: bs_alloc_block_def m_def)
  have len: "length m = opt_block_max_size cf" and tk: "take (bs_size st) m = lay items"
    using assms(3,4) c by (auto simp: m_def bs_room_def bs_mem_def heap_bytes_def split: option.splits)
  define os where "os = (if bs_offsets_size st = 0 then heap_words g (offset_init_size cf) else bs_ol st)"
  have os: "bs_alloc_offsets cf g (bs_alloc_block cf g st) = st\<lparr>bs_block := Some m, bs_offsets := Some os, bs_offsets_size := length os\<rparr>"
    using c by (auto simp: bs_alloc_offsets_def m os_def heap_words_def bs_ol_def split: option.splits)
  have le: "bs_count st \<le> length os" and tko: "take (bs_count st) os = lay_offsets 0 items"
    using c by (auto simp: os_def heap_words_def)
  show thesis
  proof (cases "bs_count st = length os")
    case False
    then show ?thesis using that [of os m] os len tk le tko by (simp add: bs_grow_offsets_def)
  next
    case True
    let ?n = "length os + offset_inc_size cf"
    have "bs_grow_offsets cf g (st\<lparr>bs_block := Some m, bs_offsets := Some os, bs_offsets_size := length os\<rparr>) =
        Ret (st\<lparr>bs_block := Some m, bs_offsets := Some (os @ drop (length os) (heap_words g ?n)), bs_offsets_size := ?n\<rparr>)"
      using True by (simp add: bs_grow_offsets_def Let_def)
    then show ?thesis using that [of "os @ drop (length os) (heap_words g ?n)" m] os len tk tko True opts_ok_pos(2) [OF assms(1)]
      by (simp add: heap_words_def)
  qed
qed

lemma take_list_update_last: "n < length xs \<Longrightarrow> take (Suc n) (xs[n := x]) = take n xs @ [x]"
  by (simp add: take_Suc_conv_app_nth)

lemma stn_at_take:
  assumes "length m = n" "p + length bs \<le> n"
  obtains m' where "stn m p bs = Ret m'" "length m' = n" "take (p + length bs) m' = take p m @ bs"
  using assms by (auto simp: stn_def)

lemma add_hp_accepts:
  assumes cf: "opts_ok cf" and c: "bs_content st items" and rm: "bs_room cf st" and nf: "\<not> bs_full st"
    and it: "item_ok (bs_hm st) (h, p)"
    and fits: "bs_size st + header_size (bs_hm st) + length p \<le> opt_block_max_size cf"
    and nt: "\<not> (bs_count st mod 20 = 0 \<and> bs_size st \<noteq> 0 \<and> bs_timeout cf now st)"
  obtains st' where "add_hp cf g now h p 0 st = Ret (True, st')" "bs_content st' (items @ [(h, p)])" "bs_room cf st'"
    "bs_hm st' = bs_hm st" "\<not> bs_full st'"
proof -
  note cc = c [unfolded bs_content_def]
  obtain os m where pr: "bs_grow_offsets cf g (bs_alloc_offsets cf g (bs_alloc_block cf g st)) =
       Ret (st\<lparr>bs_block := Some m, bs_offsets := Some os, bs_offsets_size := length os\<rparr>)"
    "length m = opt_block_max_size cf" "take (bs_size st) m = lay items" "bs_count st < length os"
    "take (bs_count st) os = lay_offsets 0 items"
    using bs_prepare [OF cf c rm nf] by blast
  have h: "length h = header_size (bs_hm st)" "get_caplen h 0 = Ret (word_of_nat (length p))" "length p < 2 ^ 32"
    using it by (auto simp: item_ok_def)
  have cap: "unat (word_of_nat (length p) :: u32) = length p" using h by (simp add: unat_of_nat)
  obtain m1 where m1: "stn m (bs_size st) h = Ret m1" "length m1 = opt_block_max_size cf" "take (bs_size st + length h) m1 = lay items @ h"
    using stn_at_take [OF pr(2), of "bs_size st" h] fits h(1) pr(3) by auto
  obtain m2 where m2: "stn m1 (bs_size st + header_size (bs_hm st)) p = Ret m2" "length m2 = opt_block_max_size cf"
    "take (bs_size st + header_size (bs_hm st) + length p) m2 = lay items @ h @ p"
    using stn_at_take [OF m1(2), of "bs_size st + header_size (bs_hm st)" p] fits m1(3) h(1) by auto
  define st' where "st' = st\<lparr>bs_block := Some m2, bs_offsets := Some (os[bs_count st := word_of_nat (bs_size st)]),
    bs_offsets_size := length os, bs_size := bs_size st + header_size (bs_hm st) + length p,
    bs_size_packets := bs_size_packets st + length p, bs_count := bs_count st + 1\<rparr>"
  have "add_hp cf g now h p 0 st = Ret (True, st')"
    using nf h cap fits nt pr m1 m2
    by (simp add: add_hp_def Let_def bs_set_offset_def bs_stn_def copied_bytes_def ldn_def st'_def)
  moreover have lay: "length (lay items) = length items * header_size (bs_hm st) + packet_bytes items"
    by (rule length_lay) (use cc in auto)
  moreover have "bs_content st' (items @ [(h, p)])"
    using cc cf fits it h m2 pr take_list_update_last [OF pr(4), of "word_of_nat (bs_size st)"] rm nf lay
    by (auto simp: bs_content_def st'_def bs_mem_def bs_ol_def lay_offsets_append opts_ok_def bs_room_def)
  moreover have "bs_room cf st'"
    using rm nf cc lay m2 by (auto simp: bs_room_def st'_def bs_mem_def)
  ultimately show ?thesis using that [of st'] nf by (simp add: st'_def)
qed


definition add_accepts :: "pb_opts \<Rightarrow> nat \<Rightarrow> nat \<Rightarrow> pcap_block_store \<Rightarrow> bool" where
  "add_accepts cf now n st = (\<not> bs_full st \<and> bs_size st + header_size (bs_hm st) + n \<le> opt_block_max_size cf \<and>
     \<not> (bs_count st mod 20 = 0 \<and> bs_size st \<noteq> 0 \<and> bs_timeout cf now st))"

lemma add_hp_refuses:
  assumes "item_ok (bs_hm st) (h, p)" "\<not> add_accepts cf now (length p) st"
  shows "add_hp cf g now h p 0 st = Ret (False, st\<lparr>bs_full := True\<rparr>)"
proof -
  have "get_caplen h 0 = Ret (word_of_nat (length p))" "unat (word_of_nat (length p) :: u32) = length p"
    using assms(1) by (auto simp: item_ok_def unat_of_nat)
  with assms(2) show ?thesis by (cases "bs_full st") (auto simp: add_hp_def add_accepts_def Let_def not_le)
qed

lemma add_hp_facts:
  assumes "opts_ok cf" "bs_content st items" "bs_room cf st" "item_ok (bs_hm st) (h, p)"
  obtains st' where "add_hp cf g now h p 0 st = Ret (add_accepts cf now (length p) st, st')" "bs_room cf st'" "bs_hm st' = bs_hm st"
    "bs_content st' (if add_accepts cf now (length p) st then items @ [(h, p)] else items)"
    "bs_full st' = (\<not> add_accepts cf now (length p) st)"
proof (cases "add_accepts cf now (length p) st")
  case True
  then obtain st' where "add_hp cf g now h p 0 st = Ret (True, st')" "bs_content st' (items @ [(h, p)])" "bs_room cf st'"
    "bs_hm st' = bs_hm st" "\<not> bs_full st'"
    using add_hp_accepts [OF assms(1-3) _ assms(4), of now g] by (auto simp: add_accepts_def)
  with True that show ?thesis by simp
next
  case False
  have "bs_content (st\<lparr>bs_full := True\<rparr>) items" using assms(2) by (auto simp: bs_content_def bs_mem_def bs_ol_def)
  then show ?thesis using that [of "st\<lparr>bs_full := True\<rparr>"] add_hp_refuses [OF assms(4) False] False by (simp add: bs_room_def)
qed

text \<open>C35: \<open>add_hp\<close> never leaves the arrays of the block. It takes the packet exactly when the block is not full, header
  and packet fit into the configured size and the block has not timed out; then \<open>operator []\<close> yields the
  packets the block held before, unchanged, followed by the new one. Otherwise the block is marked full and keeps its
  packets.\<close>

theorem add_hp_appends:
  assumes "opts_ok cf" "bs_content st items" "bs_room cf st" "item_ok (bs_hm st) (h, p)"
  shows "\<exists>st'. add_hp cf g now h p 0 st = Ret (add_accepts cf now (length p) st, st') \<and> bs_room cf st' \<and>
    bs_full st' = (\<not> add_accepts cf now (length p) st) \<and>
    (let items' = (if add_accepts cf now (length p) st then items @ [(h, p)] else items) in
     bs_content st' items' \<and> getSizePackets st' = packet_bytes items' \<and>
     (\<forall>i. bs_read st' i = Ret (if i < length items' then Some (items' ! i) else None)))"
proof -
  obtain st' where st': "add_hp cf g now h p 0 st = Ret (add_accepts cf now (length p) st, st')" "bs_room cf st'" "bs_hm st' = bs_hm st"
    "bs_content st' (if add_accepts cf now (length p) st then items @ [(h, p)] else items)"
    "bs_full st' = (\<not> add_accepts cf now (length p) st)"
    using add_hp_facts [OF assms, of g now] by blast
  show ?thesis using st'(1,2,5) st'(4) bs_read_content [OF st'(4)] getSizePackets_content [OF st'(4)]
    unfolding Let_def by blast
qed

lemma bs_new_content:
  "bs_content (pcap_block_store_new cf g now hm) []" "bs_room cf (pcap_block_store_new cf g now hm)"
  by (simp_all add: bs_content_def bs_room_def pcap_block_store_new_def destroyRestoreBuffer_def bs_destroy_def bs_mem_def bs_ol_def)

text \<open>A header of either kind for a packet of \<open>n\<close> bytes, all other fields 0.\<close>

definition demo_opts :: pb_opts where
  "demo_opts = \<lparr>opt_block_max_size = 1024, opt_block_max_time_ms = 100, opt_use_checksum = True, opt_require_confirmation = False,
     opt_max_time_diff_s = 30, global_pcap_dlink = 1, opt_id_sensor = 1\<rparr>"

definition demo_header :: "header_mode \<Rightarrow> nat \<Rightarrow> mem" where
  "demo_header hm n = replicate 8 0 @ word_le 4 (word_of_nat n :: u32) @ replicate (header_size hm - 12) 0"

lemma le_nat_zeros: "le_nat (replicate n 0) = 0"
  by (induction n) auto

lemma demo_header_ok: "length p < 2 ^ 32 \<Longrightarrow> item_ok hm (demo_header hm (length p), p)"
proof -
  have h: "length (demo_header hm (length p)) = header_size hm" using header_size_bounds(2) [of hm] by (simp add: demo_header_def)
  have "hp_std (demo_header hm (length p)) 0 = Ret False"
    by (cases hm) (simp_all add: hp_std_def ld16_def ldn_def demo_header_def header_size_def plus_size_def plus2_size_def le_word_def le_nat_zeros)
  moreover have "drop 8 (demo_header hm (length p)) = word_le 4 (word_of_nat (length p) :: u32) @ replicate (header_size hm - 12) 0"
    by (simp add: demo_header_def)
  then have "ld32 (demo_header hm (length p)) 8 = Ret (word_of_nat (length p))" using ld_at(1) by fastforce
  ultimately show "length p < 2 ^ 32 \<Longrightarrow> ?thesis" using h by (simp add: item_ok_def get_caplen_def)
qed

theorem add_hp_appends_witness:
  "\<exists>st'. add_hp demo_opts (\<lambda>_. 5) 7 (demo_header hm_plus 3) [1, 2, 3] 0
     (pcap_block_store_new demo_opts (\<lambda>_. 5) 7 hm_plus) = Ret (True, st') \<and>
     bs_read st' 0 = Ret (Some (demo_header hm_plus 3, [1, 2, 3]))"
proof -
  let ?st = "pcap_block_store_new demo_opts (\<lambda>_. 5) 7 hm_plus"
  have cf: "opts_ok demo_opts" by (simp add: opts_ok_def AVG_PACKET_SIZE_def demo_opts_def)
  have hm: "bs_hm ?st = hm_plus" by (simp add: pcap_block_store_new_def destroyRestoreBuffer_def bs_destroy_def)
  have it: "item_ok (bs_hm ?st) (demo_header hm_plus 3, [1, 2, 3])" using demo_header_ok [of "[1, 2, 3]" hm_plus] hm by (simp add: numeral_3_eq_3)
  have acc: "add_accepts demo_opts 7 (length [1, 2, 3 :: u8]) ?st"
    by (simp add: add_accepts_def demo_opts_def pcap_block_store_new_def destroyRestoreBuffer_def bs_destroy_def header_size_def plus_size_def)
  show ?thesis using add_hp_appends [OF cf bs_new_content it, of "\<lambda>_. 5" 7] acc by (auto simp: Let_def)
qed

lemma demo_block:
  obtains src where "bs_content src [(demo_header hm_plus 3, [1, 2, 3])]" "bs_ifname src = replicate 10 0" "bs_size src = 39" "bs_count src = 1"
proof -
  let ?st = "pcap_block_store_new demo_opts (\<lambda>_. 5) 7 hm_plus"
  have cf: "opts_ok demo_opts" by (simp add: opts_ok_def AVG_PACKET_SIZE_def demo_opts_def)
  have it: "item_ok (bs_hm ?st) (demo_header hm_plus 3, [1, 2, 3])"
    using demo_header_ok [of "[1, 2, 3]" hm_plus] by (simp add: numeral_3_eq_3 pcap_block_store_new_def destroyRestoreBuffer_def bs_destroy_def)
  have acc: "add_accepts demo_opts 7 (length [1, 2, 3 :: u8]) ?st"
    by (simp add: add_accepts_def demo_opts_def pcap_block_store_new_def destroyRestoreBuffer_def bs_destroy_def header_size_def plus_size_def)
  obtain st' where st': "bs_content st' [(demo_header hm_plus 3, [1, 2, 3])]" "bs_hm st' = hm_plus"
    using add_hp_facts [OF cf bs_new_content it, of "\<lambda>_. 5" 7] acc
    by (auto simp: pcap_block_store_new_def destroyRestoreBuffer_def bs_destroy_def)
  then have "bs_content (st'\<lparr>bs_ifname := replicate 10 0\<rparr>) [(demo_header hm_plus 3, [1, 2, 3])]"
    by (auto simp: bs_content_def bs_mem_def bs_ol_def)
  moreover have "bs_size st' = 39" "bs_count st' = 1"
    using st' demo_header_ok [of "[1, 2, 3]" hm_plus] by (auto simp: bs_content_def item_ok_def header_size_def plus_size_def)
  ultimately show thesis using that [of "st'\<lparr>bs_ifname := replicate 10 0\<rparr>"] by simp
qed


section \<open>Every sequence of operations keeps the block well-formed\<close>

definition bs_typed :: "pb_opts \<Rightarrow> pcap_block_store \<Rightarrow> pkt list \<Rightarrow> bool" where
  "bs_typed cf st items = (bs_content st items \<and> bs_size_packets st = packet_bytes items \<and>
     (bs_block st = None \<or> length (bs_mem st) = opt_block_max_size cf))"

lemma typed_room: "bs_typed cf st items \<Longrightarrow> bs_room cf st"
  using length_lay [of items "bs_hm st"] by (auto simp: bs_typed_def bs_room_def bs_content_def)

lemma typed_of_room: "bs_content st items \<Longrightarrow> bs_room cf st \<Longrightarrow> \<not> bs_full st \<Longrightarrow> bs_typed cf st items"
  using length_lay [of items "bs_hm st"] by (auto simp: bs_typed_def bs_room_def bs_content_def)

lemma bs_new_typed: "bs_typed cf (pcap_block_store_new cf g now hm) []"
  by (rule typed_of_room [OF bs_new_content]) (simp add: pcap_block_store_new_def destroyRestoreBuffer_def bs_destroy_def)

lemma typed_cong:
  "bs_typed cf st items \<Longrightarrow> bs_typed cf (st\<lparr>bs_full := f\<rparr>) items"
  "bs_typed cf st items \<Longrightarrow> bs_typed cf (st\<lparr>bs_packet_lock := n\<rparr>) items"
  "bs_typed cf st items \<Longrightarrow> bs_typed cf (st\<lparr>bs_is_voip := v\<rparr>) items"
  by (auto simp: bs_typed_def bs_content_def bs_mem_def bs_ol_def)

lemma add_hp_typed:
  assumes "opts_ok cf" "bs_typed cf st items" "item_ok (bs_hm st) (h, p)"
  shows "\<exists>ok st'. add_hp cf g now h p 0 st = Ret (ok, st') \<and> bs_typed cf st' (if ok then items @ [(h, p)] else items) \<and> bs_hm st' = bs_hm st"
proof (cases "add_accepts cf now (length p) st")
  case True
  have c: "bs_content st items" using assms(2) by (simp add: bs_typed_def)
  obtain st' where "add_hp cf g now h p 0 st = Ret (True, st')" "bs_room cf st'" "bs_hm st' = bs_hm st" "bs_content st' (items @ [(h, p)])" "\<not> bs_full st'"
    using add_hp_facts [OF assms(1) c typed_room [OF assms(2)] assms(3), of g now] True by auto
  then show ?thesis using typed_of_room by fastforce
next
  case False
  then show ?thesis using add_hp_refuses [OF assms(3) False, of g] typed_cong(1) [OF assms(2)] by auto
qed

lemma prefetch_ok: "length m = n \<Longrightarrow> \<exists>m'. prefetch_loop n i (Some m) = Ret (Some m') \<and> length m' = n"
proof (induction n i "Some m" arbitrary: m rule: prefetch_loop.induct)
  case (1 n i)
  show ?case
  proof (cases "i < n")
    case True
    then obtain m1 where m1: "stn m i [0] = Ret m1" "length m1 = n" using stn_Ret [of i "[0]" m] "1.prems" by auto
    then show ?thesis using "1.hyps" [OF True, of m1] True by (subst prefetch_loop.simps) (simp add: bs_stn_def)
  next
    case False
    then show ?thesis using "1.prems" by (subst prefetch_loop.simps) simp
  qed
qed

lemma bs_clear_typed:
  assumes "bs_typed cf st items" "prefetch \<longrightarrow> bs_block st \<noteq> None"
  shows "\<exists>st'. bs_clear cf now prefetch st = Ret st' \<and> bs_typed cf st' [] \<and> bs_hm st' = bs_hm st"
proof (cases prefetch)
  case True
  then obtain m where m: "bs_block st = Some m" "length m = opt_block_max_size cf" using assms by (auto simp: bs_typed_def bs_mem_def)
  then show ?thesis using prefetch_ok [OF m(2), of 0] assms(1) True by (auto simp: bs_clear_def bs_typed_def bs_content_def bs_mem_def bs_ol_def)
next
  case False
  then show ?thesis using assms by (auto simp: bs_clear_def bs_typed_def bs_content_def bs_mem_def bs_ol_def)
qed

lemma bs_init_typed:
  assumes "bs_typed cf st []"
  shows "\<exists>st'. bs_init cf g now prefetch st = Ret st' \<and> bs_typed cf st' [] \<and> bs_hm st' = bs_hm st"
  using prefetch_ok [of "heap_bytes g (opt_block_max_size cf)" "opt_block_max_size cf" 0] assms
  by (cases prefetch) (auto simp: bs_init_def Let_def bs_typed_def bs_content_def bs_mem_def bs_ol_def heap_bytes_def heap_words_def)

lemma bs_copy_typed:
  assumes f: "bs_typed cf from items" and t: "bs_typed cf st items'" and hm: "bs_hm from = bs_hm st"
  shows "\<exists>st'. bs_copy cf g now from st = Ret st' \<and> bs_typed cf st' items \<and> bs_hm st' = bs_hm st"
proof -
  note fc = f [unfolded bs_typed_def bs_content_def] and tc = t [unfolded bs_typed_def bs_content_def]
  define m where "m = (case bs_block st of None \<Rightarrow> heap_bytes g (opt_block_max_size cf) | Some m \<Rightarrow> m)"
  have ml: "length m = opt_block_max_size cf" using tc by (auto simp: m_def bs_mem_def heap_bytes_def split: option.splits)
  have rd: "bs_ldn (bs_size from) (bs_block from) 0 = Ret (lay items)"
    using fc by (cases "bs_block from") (auto simp: bs_ldn_def bs_mem_def ldn_def)
  have fit: "length (lay items) \<le> length m" using fc ml by (auto simp: bs_mem_def)
  obtain m' where m': "stn m 0 (lay items) = Ret m'" "length m' = opt_block_max_size cf" "take (length (lay items)) m' = lay items"
    using stn_at_take [OF refl, of 0 "lay items" m] fit ml by auto
  define os where "os = (if bs_offsets st = None \<or> bs_count from > bs_offsets_size st then heap_words g (bs_offsets_size from) else bs_ol st)"
  have os: "bs_count from \<le> length os" "length os = (if bs_offsets st = None \<or> bs_count from > bs_offsets_size st then bs_offsets_size from else bs_offsets_size st)"
    using fc tc by (auto simp: os_def heap_words_def)
  define st' where "st' = st\<lparr>bs_count := bs_count from, bs_size := bs_size from, bs_size_packets := bs_size_packets from, bs_block := Some m',
    bs_offsets := Some (take (bs_count from) (bs_ol from) @ drop (bs_count from) os), bs_offsets_size := length os, bs_packet_lock := 0, bs_timestampMS := now\<rparr>"
  define st1 where "st1 = st\<lparr>bs_count := bs_count from, bs_size := bs_size from, bs_size_packets := bs_size_packets from, bs_block := Some m\<rparr>"
  have al: "(let st = st\<lparr>bs_count := bs_count from, bs_size := bs_size from, bs_size_packets := bs_size_packets from\<rparr> in
      if bs_block st = None then st\<lparr>bs_block := Some (heap_bytes g (opt_block_max_size cf))\<rparr> else st) = st1"
    by (cases "bs_block st") (simp_all add: st1_def m_def)
  have ol: "(case bs_offsets from of None \<Rightarrow> [] | Some os \<Rightarrow> os) = bs_ol from" by (simp add: bs_ol_def)
  have fo: "take (bs_count from) (bs_ol from) = lay_offsets 0 items" using fc by blast
  have fl: "bs_count from \<le> length (bs_ol from)" using fc by simp
  have "bs_copy cf g now from st = Ret st'"
  proof (cases "bs_offsets st = None \<or> bs_count from > bs_offsets_size st")
    case True
    then have "os = heap_words g (bs_offsets_size from)" by (simp add: os_def)
    then show ?thesis unfolding bs_copy_def al [unfolded Let_def] Let_def ol
      using True rd m'(1) fl os by (simp add: st1_def bs_stn_def st'_def)
  next
    case False
    then have "bs_offsets st = Some os" by (auto simp: os_def bs_ol_def)
    then show ?thesis unfolding bs_copy_def al [unfolded Let_def] Let_def ol
      using False rd m'(1) fl os by (simp add: st1_def bs_stn_def st'_def)
  qed
  moreover have "bs_mem st' = m'" "bs_ol st' = lay_offsets 0 items @ drop (bs_count from) os" 
  proof -
    have "bs_block st' = Some m'" "bs_offsets st' = Some (take (bs_count from) (bs_ol from) @ drop (bs_count from) os)" by (simp_all add: st'_def)
    then show "bs_mem st' = m'" "bs_ol st' = lay_offsets 0 items @ drop (bs_count from) os" using fo by (simp_all add: bs_mem_def [of st'] bs_ol_def [of st'])
  qed
  then have "bs_typed cf st' items" unfolding bs_typed_def bs_content_def
    using fc m'(2,3) os(1) hm fit ml tc by (simp add: st'_def)
  ultimately show ?thesis by (auto simp: st'_def)
qed


text \<open>Filling a block in place: the pointers for the next packet, the header and the packet written there, and the count advanced.\<close>

definition bs_put_hp :: "pb_opts \<Rightarrow> (nat \<Rightarrow> u32) \<Rightarrow> u32 \<Rightarrow> mem \<Rightarrow> mem \<Rightarrow> pcap_block_store \<Rightarrow> (bool \<times> pcap_block_store) outcome" where
  "bs_put_hp cf g snaplen h p st =
     (case get_add_hp_pointers cf g snaplen st of
        (None, st) \<Rightarrow> Ret (False, st)
      | (Some (hp, pp), st) \<Rightarrow>
          obind (bs_stn (bs_block st) hp h) (\<lambda>b. obind (bs_stn b pp p) (\<lambda>b.
          obind (get_caplen h 0) (\<lambda>caplen. omap (Pair True) (inc_h cf g caplen (st\<lparr>bs_block := b\<rparr>))))))"


lemma block_fields:
  "bs_mem (st\<lparr>bs_block := Some m, bs_offsets := Some os, bs_offsets_size := n\<rparr>) = m"
  "bs_ol (st\<lparr>bs_block := Some m, bs_offsets := Some os, bs_offsets_size := n\<rparr>) = os"
  by (simp_all add: bs_mem_def bs_ol_def)

lemma alloc_typed:
  assumes cf: "opts_ok cf" and t: "bs_typed cf st items"
  obtains m os where "bs_alloc_offsets cf g (bs_alloc_block cf g st) = st\<lparr>bs_block := Some m, bs_offsets := Some os, bs_offsets_size := length os\<rparr>"
    "bs_typed cf (st\<lparr>bs_block := Some m, bs_offsets := Some os, bs_offsets_size := length os\<rparr>) items"
    "length m = opt_block_max_size cf" "take (bs_size st) m = lay items" "take (bs_count st) os = lay_offsets 0 items" "bs_count st \<le> length os"
proof -
  note c = t [unfolded bs_typed_def bs_content_def]
  define m where "m = (case bs_block st of None \<Rightarrow> heap_bytes g (opt_block_max_size cf) | Some m \<Rightarrow> m)"
  define os where "os = (if bs_offsets_size st = 0 then heap_words g (offset_init_size cf) else bs_ol st)"
  have m: "bs_alloc_block cf g st = st\<lparr>bs_block := Some m\<rparr>" by (cases "bs_block st") (auto simp: bs_alloc_block_def m_def)
  have len: "length m = opt_block_max_size cf" and tk: "take (bs_size st) m = lay items"
    using c by (auto simp: m_def bs_mem_def heap_bytes_def split: option.splits)
  have os: "bs_alloc_offsets cf g (bs_alloc_block cf g st) = st\<lparr>bs_block := Some m, bs_offsets := Some os, bs_offsets_size := length os\<rparr>"
    using c by (auto simp: bs_alloc_offsets_def m os_def heap_words_def bs_ol_def split: option.splits)
  have le: "bs_count st \<le> length os" and tko: "take (bs_count st) os = lay_offsets 0 items"
    using c by (auto simp: os_def heap_words_def)
  have "bs_size st \<le> length m" using c len by (auto simp: bs_mem_def)
  then have "bs_typed cf (st\<lparr>bs_block := Some m, bs_offsets := Some os, bs_offsets_size := length os\<rparr>) items"
    using c len tk le tko by (simp add: bs_typed_def bs_content_def block_fields)
  then show thesis using that os len tk tko le by blast
qed

lemma inc_h_typed:
  assumes cf: "opts_ok cf" and it: "item_ok hm_plus2 (h, p)" "\<forall>it \<in> set items. item_ok hm_plus2 it" and hm: "bs_hm st = hm_plus2"
    and b: "bs_block st = Some m" "length m = opt_block_max_size cf" "take (bs_size st + plus2_size + length p) m = lay items @ h @ p"
    and fits: "bs_size st + plus2_size + length p \<le> opt_block_max_size cf"
    and os: "bs_offsets st = Some os" "bs_offsets_size st = length os" "take (bs_count st) os = lay_offsets 0 items" "bs_count st \<le> length os"
    and c: "bs_count st = length items" "bs_size st = length (lay items)" "bs_size_compress st = 0" "bs_size_packets st = packet_bytes items"
  shows "\<exists>st'. inc_h cf g (word_of_nat (length p)) st = Ret st' \<and> bs_typed cf st' (items @ [(h, p)]) \<and> bs_hm st' = hm_plus2"
proof -
  define os' where "os' = (if bs_count st = length os then os @ drop (length os) (heap_words g (length os + offset_inc_size cf)) else os)"
  have g: "bs_grow_offsets cf g st = Ret (st\<lparr>bs_offsets := Some os', bs_offsets_size := length os'\<rparr>)"
  proof (cases "bs_count st = length os")
    case True
    then show ?thesis using os(1,2) by (simp add: bs_grow_offsets_def Let_def os'_def heap_words_def)
  next
    case False
    then have "os' = os" by (simp add: os'_def)
    moreover have "st\<lparr>bs_offsets := Some os, bs_offsets_size := length os\<rparr> = st" using os(1,2) by simp
    ultimately show ?thesis using False os(2) by (simp add: bs_grow_offsets_def)
  qed
  have l: "bs_count st < length os'" "take (bs_count st) os' = lay_offsets 0 items"
    using os(3,4) opts_ok_pos(2) [OF cf] by (cases "bs_count st = length os"; simp add: os'_def heap_words_def)+
  have p: "unat (word_of_nat (length p) :: u32) = length p" "length h = plus2_size" using it by (auto simp: item_ok_def unat_of_nat header_size_def)
  define st' where "st' = st\<lparr>bs_offsets := Some (os'[bs_count st := word_of_nat (bs_size st)]), bs_offsets_size := length os',
    bs_size := bs_size st + plus2_size + length p, bs_size_packets := bs_size_packets st + length p, bs_count := bs_count st + 1\<rparr>"
  have "inc_h cf g (word_of_nat (length p)) st = Ret st'" using g l(1) p by (simp add: inc_h_def bs_set_offset_def st'_def)
  moreover have "bs_mem st' = m" "bs_ol st' = os'[bs_count st := word_of_nat (bs_size st)]" using b(1) by (simp_all add: st'_def bs_mem_def bs_ol_def)
  moreover have "bs_count st' = length (items @ [(h, p)])" "bs_size st' = length (lay (items @ [(h, p)]))" "bs_size_packets st' = packet_bytes (items @ [(h, p)])"
    using c(1,2,4) p(2) by (simp_all add: st'_def)
  moreover have "length (lay (items @ [(h, p)])) < 2 ^ 32" "length (lay (items @ [(h, p)])) \<le> length m" "take (length (lay (items @ [(h, p)]))) m = lay (items @ [(h, p)])"
    using fits cf b(2,3) p(2) c(2) by (simp_all add: opts_ok_def add.assoc)
  moreover have "take (length (items @ [(h, p)])) (os'[bs_count st := word_of_nat (bs_size st)]) = lay_offsets 0 (items @ [(h, p)])"
    using take_list_update_last [OF l(1), of "word_of_nat (bs_size st)"] l(2) c(1,2) by (simp add: lay_offsets_append)
  moreover have "bs_size_compress st' = 0" "bs_offsets_size st' = length os'" "bs_hm st' = hm_plus2" "bs_block st' = Some m" using c(3) hm b(1) by (simp_all add: st'_def)
  ultimately have "bs_typed cf st' (items @ [(h, p)])" unfolding bs_typed_def bs_content_def
    using it l(1) c(1) b(2) by (simp del: lay_simps packet_bytes_simps)
  moreover note \<open>inc_h cf g (word_of_nat (length p)) st = Ret st'\<close>
  ultimately show ?thesis using hm by (auto simp: st'_def)
qed

lemma bs_put_hp_typed:
  assumes cf: "opts_ok cf" and t: "bs_typed cf st items" and hm: "bs_hm st = hm_plus2" and it: "item_ok (bs_hm st) (h, p)" and n: "length p \<le> unat snaplen"
  shows "\<exists>ok st'. bs_put_hp cf g snaplen h p st = Ret (ok, st') \<and> bs_typed cf st' (if ok then items @ [(h, p)] else items) \<and> bs_hm st' = bs_hm st"
proof -
  obtain m os where a: "bs_alloc_offsets cf g (bs_alloc_block cf g st) = st\<lparr>bs_block := Some m, bs_offsets := Some os, bs_offsets_size := length os\<rparr>"
    "bs_typed cf (st\<lparr>bs_block := Some m, bs_offsets := Some os, bs_offsets_size := length os\<rparr>) items"
    "length m = opt_block_max_size cf" "take (bs_size st) m = lay items" "take (bs_count st) os = lay_offsets 0 items" "bs_count st \<le> length os"
    using alloc_typed [OF cf t] by blast
  let ?st = "st\<lparr>bs_block := Some m, bs_offsets := Some os, bs_offsets_size := length os\<rparr>"
  show ?thesis
  proof (cases "bs_size st + plus2_size + unat snaplen > opt_block_max_size cf")
    case True
    then have "bs_put_hp cf g snaplen h p st = Ret (False, ?st\<lparr>bs_full := True\<rparr>)" by (simp add: bs_put_hp_def get_add_hp_pointers_def a(1) Let_def)
    then show ?thesis using typed_cong(1) [OF a(2), of True] by auto
  next
    case False
    have h: "length h = plus2_size" "get_caplen h 0 = Ret (word_of_nat (length p))" using it hm by (auto simp: item_ok_def header_size_def)
    have fits: "bs_size st + plus2_size + length p \<le> opt_block_max_size cf" using False n by simp
    obtain m1 where m1: "stn m (bs_size st) h = Ret m1" "length m1 = opt_block_max_size cf" "take (bs_size st + length h) m1 = lay items @ h"
      using stn_at_take [OF a(3), of "bs_size st" h] fits h(1) a(4) by auto
    obtain m2 where m2: "stn m1 (bs_size st + plus2_size) p = Ret m2" "length m2 = opt_block_max_size cf"
      "take (bs_size st + plus2_size + length p) m2 = lay items @ h @ p"
      using stn_at_take [OF m1(2), of "bs_size st + plus2_size" p] fits m1(3) h(1) by auto
    have c: "\<forall>it \<in> set items. item_ok hm_plus2 it" "bs_count st = length items" "bs_size st = length (lay items)" "bs_size_compress st = 0" "bs_size_packets st = packet_bytes items"
      using t hm by (auto simp: bs_typed_def bs_content_def)
    obtain st' where "inc_h cf g (word_of_nat (length p)) (?st\<lparr>bs_block := Some m2\<rparr>) = Ret st'" "bs_typed cf st' (items @ [(h, p)])" "bs_hm st' = hm_plus2"
      using inc_h_typed [OF cf _ c(1), of h p "?st\<lparr>bs_block := Some m2\<rparr>" m2 os g] it hm m2(2,3) fits a(5,6) c(2-5) by auto
    then have "bs_put_hp cf g snaplen h p st = Ret (True, st')" using False m1(1) m2(1) h(2)
      by (simp add: bs_put_hp_def get_add_hp_pointers_def a(1) Let_def bs_stn_def)
    then show ?thesis using \<open>bs_typed cf st' (items @ [(h, p)])\<close> \<open>bs_hm st' = hm_plus2\<close> hm by auto
  qed
qed


text \<open>The life of a block until it is sent: what the readers of interfaces, the deduplication and the queue do with it.\<close>

inductive bs_reach :: "pb_opts \<Rightarrow> pcap_block_store \<Rightarrow> pkt list \<Rightarrow> bool" for cf where
  reach_new: "bs_reach cf (pcap_block_store_new cf g now hm) []"
| reach_init: "bs_reach cf st [] \<Longrightarrow> bs_init cf g now prefetch st = Ret st' \<Longrightarrow> bs_reach cf st' []"
| reach_add: "bs_reach cf st items \<Longrightarrow> item_ok (bs_hm st) (h, p) \<Longrightarrow> add_hp cf g now h p 0 st = Ret (ok, st') \<Longrightarrow>
    bs_reach cf st' (if ok then items @ [(h, p)] else items)"
| reach_put: "bs_reach cf st items \<Longrightarrow> bs_hm st = hm_plus2 \<Longrightarrow> item_ok (bs_hm st) (h, p) \<Longrightarrow> length p \<le> unat snaplen \<Longrightarrow>
    bs_put_hp cf g snaplen h p st = Ret (ok, st') \<Longrightarrow> bs_reach cf st' (if ok then items @ [(h, p)] else items)"
| reach_full: "bs_reach cf st items \<Longrightarrow> isFull_checkTimeout cf now ms st = (b, st') \<Longrightarrow> bs_reach cf st' items"
| reach_clear: "bs_reach cf st items \<Longrightarrow> bs_clear cf now prefetch st = Ret st' \<Longrightarrow> bs_reach cf st' []"
| reach_copy: "bs_reach cf from items \<Longrightarrow> bs_reach cf st items' \<Longrightarrow> bs_hm from = bs_hm st \<Longrightarrow> bs_copy cf g now from st = Ret st' \<Longrightarrow> bs_reach cf st' items"
| reach_lock: "bs_reach cf st items \<Longrightarrow> bs_reach cf (lock_packet st) items"
| reach_unlock: "bs_reach cf st items \<Longrightarrow> bs_reach cf (unlock_packet st) items"
| reach_voip: "bs_reach cf st items \<Longrightarrow> setVoipPacket i st = Ret st' \<Longrightarrow> bs_reach cf st' items"

lemma clear_needs_block: "bs_clear cf now prefetch st = Ret st' \<Longrightarrow> opts_ok cf \<Longrightarrow> prefetch \<longrightarrow> bs_block st \<noteq> None"
  by (cases "bs_block st") (auto simp: bs_clear_def bs_stn_def prefetch_loop.simps [of _ 0] opts_ok_def AVG_PACKET_SIZE_def)

lemma bs_reach_typed: "bs_reach cf st items \<Longrightarrow> opts_ok cf \<Longrightarrow> bs_typed cf st items"
proof (induction rule: bs_reach.induct)
  case (reach_new g now hm)
  show ?case by (rule bs_new_typed)
next
  case (reach_init st g now prefetch st')
  then show ?case using bs_init_typed [of cf st g now prefetch] by auto
next
  case (reach_add st items h p g now ok st')
  then show ?case using add_hp_typed [of cf st items h p g now] by auto
next
  case (reach_put st items h p snaplen g ok st')
  then show ?case using bs_put_hp_typed [of cf st items h p snaplen g] by auto
next
  case (reach_full st items now ms b st')
  then show ?case using typed_cong(1) [of cf st items True] by (auto simp: isFull_checkTimeout_def split: if_splits)
next
  case (reach_clear st items now prefetch st')
  then show ?case using bs_clear_typed [of cf st items prefetch now] clear_needs_block by fastforce
next
  case (reach_copy fr items st items' g now st')
  then show ?case using bs_copy_typed [of cf fr items st items' g now] by auto
next
  case (reach_lock st items)
  then show ?case using typed_cong(2) by (simp add: lock_packet_def)
next
  case (reach_unlock st items)
  then show ?case using typed_cong(2) by (simp add: unlock_packet_def)
next
  case (reach_voip st items i st')
  then show ?case using typed_cong(3) by (auto simp: setVoipPacket_def omap_Ret_iff split: option.splits if_splits)
qed

text \<open>C12: a block that is filled by \<open>add_hp\<close> or in place through \<open>get_add_hp_pointers\<close> and \<open>inc_h\<close>, checked for its timeout, cleared,
  copied, locked and unlocked in any order stays well-formed: its offsets point to the headers of its packets, one behind the other and
  inside the allocated array, every index below the count reads the packet that was put there, and the next packet can be added by
  either way, copied or cleared without an access outside of the arrays.\<close>

theorem block_store_well_typed:
  assumes "opts_ok cf" "bs_reach cf st items"
  shows "bs_typed cf st items \<and> bs_count st = length items \<and> (\<forall>i. bs_read st i = Ret (if i < length items then Some (items ! i) else None)) \<and>
    (\<forall>g now h p. item_ok (bs_hm st) (h, p) \<longrightarrow> returns (add_hp cf g now h p 0 st)) \<and>
    (\<forall>g n h p. bs_hm st = hm_plus2 \<and> item_ok (bs_hm st) (h, p) \<and> length p \<le> unat n \<longrightarrow> returns (bs_put_hp cf g n h p st)) \<and>
    (\<forall>now. returns (bs_clear cf now False st) \<and> (bs_block st \<noteq> None \<longrightarrow> returns (bs_clear cf now True st))) \<and>
    (\<forall>g now st' items'. bs_reach cf st' items' \<and> bs_hm st' = bs_hm st \<longrightarrow> returns (bs_copy cf g now st' st))"
proof -
  note t = bs_reach_typed [OF assms(2,1)]
  then have c: "bs_content st items" by (simp add: bs_typed_def)
  have "returns (add_hp cf g now h p 0 st)" if "item_ok (bs_hm st) (h, p)" for g now h p using add_hp_typed [OF assms(1) t that, of g now] by auto
  moreover have "returns (bs_put_hp cf g n h p st)" if "bs_hm st = hm_plus2 \<and> item_ok (bs_hm st) (h, p) \<and> length p \<le> unat n" for g n h p
    using bs_put_hp_typed [OF assms(1) t, of h p n g] that by auto
  moreover have "returns (bs_clear cf now False st)" "bs_block st \<noteq> None \<Longrightarrow> returns (bs_clear cf now True st)" for now
    using bs_clear_typed [OF t, of False now] bs_clear_typed [OF t, of True now] by auto
  moreover have "returns (bs_copy cf g now st' st)" if "bs_reach cf st' items' \<and> bs_hm st' = bs_hm st" for g now st' items'
    using bs_copy_typed [OF bs_reach_typed t, of st' items' g now] that assms(1) by auto
  ultimately show ?thesis using t c bs_read_content [OF c] by (auto simp: bs_content_def)
qed

theorem block_store_well_typed_witness:
  "\<exists>st. bs_reach demo_opts st [(demo_header hm_plus 3, [1, 2, 3])] \<and> bs_read st 0 = Ret (Some (demo_header hm_plus 3, [1, 2, 3])) \<and> bs_read st 1 = Ret None"
proof -
  let ?st = "pcap_block_store_new demo_opts (\<lambda>_. 5) 7 hm_plus"
  have cf: "opts_ok demo_opts" by (simp add: opts_ok_def AVG_PACKET_SIZE_def demo_opts_def)
  have it: "item_ok (bs_hm ?st) (demo_header hm_plus 3, [1, 2, 3])"
    using demo_header_ok [of "[1, 2, 3]" hm_plus] by (simp add: numeral_3_eq_3 pcap_block_store_new_def destroyRestoreBuffer_def bs_destroy_def)
  have acc: "add_accepts demo_opts 7 (length [1, 2, 3 :: u8]) ?st"
    by (simp add: add_accepts_def demo_opts_def pcap_block_store_new_def destroyRestoreBuffer_def bs_destroy_def header_size_def plus_size_def)
  obtain st' where "add_hp demo_opts (\<lambda>_. 5) 7 (demo_header hm_plus 3) [1, 2, 3] 0 ?st = Ret (True, st')"
    using add_hp_facts [OF cf bs_new_content it, of "\<lambda>_. 5" 7] acc by auto
  from reach_add [OF reach_new it this] have "bs_reach demo_opts st' [(demo_header hm_plus 3, [1, 2, 3])]" by simp
  then show ?thesis using block_store_well_typed [OF cf, of st' "[(demo_header hm_plus 3, [1, 2, 3])]"] by auto
qed

end
