(* ===== verification/VM_BlockImage.thy ===== *)
theory VM_BlockImage
  imports VM_BlockStore
begin

text \<open>
  The image of a packet buffer block: \<open>getSaveBuffer\<close>, \<open>restoreFromSaveBuffer\<close> and \<open>addRestoreChunk\<close> of
  \<open>pcap_queue.cpp\<close>, the compression of the packets, and the file store that keeps images in a file. The
  image starts with \<open>pcap_block_store_header\<close>, 64 bytes with the members at their natural alignment (the padding bytes
  are arbitrary), followed by the offsets and by the packets.
\<close>

section \<open>The image\<close>

definition checksum32buf :: "mem \<Rightarrow> u32" where
  "checksum32buf bs = ucast (fold (\<lambda>b acc. acc + scast b) bs (0 :: u16))"

definition BLOCK_TITLE :: mem where
  "BLOCK_TITLE = [0x70, 0x63, 0x61, 0x70, 0x5F, 0x62, 0x6C, 0x6F, 0x63, 0x6B, 0x5F, 0x73, 0x74, 0x6F, 0x72, 0x65]"

definition BLOCK_VERSION :: u8 where "BLOCK_VERSION = 7"

definition sizeof_header :: nat where "sizeof_header = 64"

definition hm_byte :: "header_mode \<Rightarrow> u8" where
  "hm_byte hm = (case hm of hm_plus \<Rightarrow> 0 | hm_plus2 \<Rightarrow> 1)"

text \<open>\<open>strcpy\<close> into the zeroed name of the header; a name without a NUL is copied behind the array.\<close>

definition c_string :: "mem \<Rightarrow> mem" where
  "c_string bs = takeWhile (\<lambda>b. b \<noteq> 0) bs"

definition save_ifname :: "mem \<Rightarrow> mem outcome" where
  "save_ifname name = (let s = c_string name in
     if length s < 10 \<and> length s < length name then Ret (s @ replicate (10 - length s) 0) else OutOfBounds)"

definition save_header :: "pb_opts \<Rightarrow> (nat \<Rightarrow> u32) \<Rightarrow> u32 \<Rightarrow> u32 \<Rightarrow> mem \<Rightarrow> u32 \<Rightarrow> pcap_block_store \<Rightarrow> mem" where
  "save_header cf g counter time_s ifname checksum st =
     BLOCK_TITLE @ [BLOCK_VERSION] @ heap_bytes g 3 @ word_le 4 (word_of_nat (bs_size st) :: u32) @
     word_le 4 (word_of_nat (bs_size_compress st) :: u32) @ word_le 4 (word_of_nat (bs_count st) :: u32) @
     word_le 2 (bs_dlink st) @ word_le 2 (bs_sensor_id st) @ ifname @ [hm_byte (bs_hm st)] @ heap_bytes g 1 @
     word_le 4 checksum @ word_le 4 counter @ [of_bool (opt_require_confirmation cf)] @ heap_bytes g 3 @ word_le 4 time_s"

definition getSizeSaveBuffer :: "pcap_block_store \<Rightarrow> nat" where
  "getSizeSaveBuffer st = sizeof_header + bs_count st * 4 + getUseSize st"

definition words_bytes :: "u32 list \<Rightarrow> mem" where
  "words_bytes ws = concat (map (word_le 4) ws)"

definition save_offsets :: "pcap_block_store \<Rightarrow> mem outcome" where
  "save_offsets st =
     (if bs_count st = 0 then Ret []
      else case bs_offsets st of None \<Rightarrow> OutOfBounds
           | Some os \<Rightarrow> if bs_count st \<le> length os then Ret (words_bytes (take (bs_count st) os)) else OutOfBounds)"

definition image_checksum :: "mem \<Rightarrow> u32" where
  "image_checksum body = max (checksum32buf body) 1"

definition getSaveBuffer :: "pb_opts \<Rightarrow> (nat \<Rightarrow> u32) \<Rightarrow> u32 \<Rightarrow> u32 \<Rightarrow> pcap_block_store \<Rightarrow> mem outcome" where
  "getSaveBuffer cf g now_s block_counter st =
     obind (save_ifname (bs_ifname st)) (\<lambda>ifname.
     obind (save_offsets st) (\<lambda>offs.
     omap (\<lambda>blk. save_header cf g block_counter now_s ifname
                   (if opt_use_checksum cf then image_checksum (offs @ blk) else 0) st @ offs @ blk)
       (bs_ldn (getUseSize st) (bs_block st) 0)))"

section \<open>Restoring a block\<close>

fun ld_words :: "nat \<Rightarrow> mem \<Rightarrow> nat \<Rightarrow> u32 list outcome" where
  "ld_words 0 m p = Ret []"
| "ld_words (Suc n) m p = obind (ld32 m p) (\<lambda>w. omap (\<lambda>ws. w # ws) (ld_words n m (p + 4)))"

definition strcpy_null_term10 :: "mem \<Rightarrow> mem" where
  "strcpy_null_term10 src = (let s = c_string (take 9 src) in s @ replicate (9 - length s) 0 @ [0])"

definition restoreFromSaveBuffer :: "mem \<Rightarrow> pcap_block_store \<Rightarrow> pcap_block_store outcome" where
  "restoreFromSaveBuffer m st =
     obind (ld8 m 46) (\<lambda>hm. obind (ld32 m 20) (\<lambda>size. obind (ld32 m 24) (\<lambda>size_compress. obind (ld32 m 28) (\<lambda>count.
     obind (ld16 m 32) (\<lambda>dlink. obind (ld16 m 34) (\<lambda>sensor_id. obind (ldn 10 m 36) (\<lambda>ifname.
     obind (ld32 m 52) (\<lambda>counter. obind (ld8 m 56) (\<lambda>confirm.
     (let st = st\<lparr>bs_hm := (if hm = 1 then hm_plus2 else hm_plus), bs_size := unat size, bs_size_compress := unat size_compress,
                  bs_count := unat count, bs_dlink := dlink, bs_sensor_id := sensor_id, bs_ifname := strcpy_null_term10 ifname,
                  bs_block_counter := counter, bs_confirm := (confirm \<noteq> 0), bs_offsets_size := unat count\<rparr> in
      obind (ld_words (bs_count st) m sizeof_header) (\<lambda>os.
      omap (\<lambda>blk. st\<lparr>bs_offsets := Some os, bs_block := Some blk, bs_full := True\<rparr>)
        (ldn (getUseSize st) m (sizeof_header + bs_count st * 4)))))))))))))"

definition rb_mem :: "pcap_block_store \<Rightarrow> mem" where
  "rb_mem st = (case bs_restoreBuffer st of None \<Rightarrow> [] | Some m \<Rightarrow> m)"

definition getSizeSaveBufferFromRestoreBuffer :: "pcap_block_store \<Rightarrow> int outcome" where
  "getSizeSaveBufferFromRestoreBuffer st =
     (if bs_restoreBufferSize st \<ge> sizeof_header then
        obind (ld32 (rb_mem st) 28) (\<lambda>count. obind (ld32 (rb_mem st) 24) (\<lambda>size_compress. omap (\<lambda>size.
          sint (word_of_nat (sizeof_header + unat count * 4 + unat (if size_compress \<noteq> 0 then size_compress else size)) :: 32 word))
          (ld32 (rb_mem st) 20)))
      else Ret (- 1))"

definition restore_append :: "pb_opts \<Rightarrow> (nat \<Rightarrow> u32) \<Rightarrow> mem \<Rightarrow> pcap_block_store \<Rightarrow> pcap_block_store outcome" where
  "restore_append cf g bytes st =
     (let n = bs_restoreBufferSize st + length bytes in
      obind
        (if bs_restoreBufferAllocSize st < n then
           (let alloc = n + restore_buffer_inc_size cf in
            obind (case bs_restoreBuffer st of None \<Rightarrow> Ret [] | Some old \<Rightarrow> ldn (bs_restoreBufferSize st) old 0) (\<lambda>old.
              omap (\<lambda>m. st\<lparr>bs_restoreBuffer := Some m, bs_restoreBufferAllocSize := alloc\<rparr>) (stn (heap_bytes g alloc) 0 old)))
         else Ret st)
        (\<lambda>st. omap (\<lambda>b. st\<lparr>bs_restoreBuffer := b, bs_restoreBufferSize := n\<rparr>)
                (bs_stn (bs_restoreBuffer st) (bs_restoreBufferSize st) bytes)))"

text \<open>The checks of the header once all of it has arrived: the error code, or 0 and the block whose restored time
  stamp has been reset.\<close>

definition time_diff :: "u32 \<Rightarrow> u32 \<Rightarrow> int" where
  "time_diff time_s now_s = \<bar>uint time_s - uint now_s\<bar> mod (3600 div 2)"

definition restore_check :: "pb_opts \<Rightarrow> u32 \<Rightarrow> bool \<Rightarrow> pcap_block_store \<Rightarrow> (int \<times> pcap_block_store) outcome" where
  "restore_check cf now_s restoreFromStore st =
     (if bs_restoreBufferSize st < sizeof_header then Ret (0, st) else
      obind (ldn 16 (rb_mem st) 0) (\<lambda>title. if title \<noteq> BLOCK_TITLE then Ret (- 3, st) else
      obind (ld8 (rb_mem st) 16) (\<lambda>version. if version \<noteq> BLOCK_VERSION then Ret (- 6, st) else
      obind (ld32 (rb_mem st) 60) (\<lambda>time_s.
        if restoreFromStore \<or> time_s = 0 then Ret (0, st)
        else if time_diff time_s now_s > opt_max_time_diff_s cf then Ret (- 7, st)
        else omap (\<lambda>b. (0, st\<lparr>bs_restoreBuffer := b\<rparr>)) (bs_stn (bs_restoreBuffer st) 60 [0, 0, 0, 0])))))"

text \<open>A length below the size of the header wraps in the call of \<open>checksum32buf\<close>.\<close>

definition restore_finish :: "nat \<Rightarrow> pcap_block_store \<Rightarrow> (int \<times> pcap_block_store) outcome" where
  "restore_finish n st =
     obind (ld32 (rb_mem st) 48) (\<lambda>checksum.
     obind (if checksum = 0 then Ret True
            else if n < sizeof_header then OutOfBounds
            else omap (\<lambda>body. checksum = image_checksum body) (ldn (n - sizeof_header) (rb_mem st) sizeof_header)) (\<lambda>ok.
       if \<not> ok then Ret (- 5, st)
       else omap (\<lambda>st. (1, destroyRestoreBuffer st)) (restoreFromSaveBuffer (rb_mem st) st)))"

text \<open>The result code, the block and the offset behind the bytes used (\<open>offset\<close> is \<open>None\<close> for a null pointer).\<close>

definition addRestoreChunk ::
  "pb_opts \<Rightarrow> (nat \<Rightarrow> u32) \<Rightarrow> u32 \<Rightarrow> mem \<Rightarrow> nat \<Rightarrow> nat option \<Rightarrow> bool \<Rightarrow> pcap_block_store \<Rightarrow> (int \<times> pcap_block_store \<times> nat option) outcome" where
  "addRestoreChunk cf g now_s buffer sz offset restoreFromStore st =
     (let off = (case offset of None \<Rightarrow> 0 | Some k \<Rightarrow> k) in
      if sz < off then OutOfBounds
      else if sz - off = 0 then Ret (- 1, st, offset)
      else
        obind (ldn (sz - off) buffer off) (\<lambda>bytes.
        obind (restore_append cf g bytes st) (\<lambda>st.
          if bs_restoreBufferSize st > opt_block_max_size cf * 10 then Ret (- 2, st, offset) else
          obind (restore_check cf now_s restoreFromStore st) (\<lambda>(rc, st).
            if rc \<noteq> 0 then Ret (rc, st, offset) else
            obind (getSizeSaveBufferFromRestoreBuffer st) (\<lambda>n.
              if 0 \<le> n \<and> int (bs_restoreBufferSize st - (sz - off)) > n then Ret (- 4, st, offset)
              else if n < 0 \<or> int (bs_restoreBufferSize st) < n then Ret (0, st, offset)
              else
                (let offset = map_option (\<lambda>_. sz - (bs_restoreBufferSize st - nat n)) offset in
                 omap (\<lambda>(rc, st). (rc, st, offset)) (restore_finish (nat n) st)))))))"

definition addRestoreChunk_getErrorString :: "int \<Rightarrow> string" where
  "addRestoreChunk_getErrorString errorCode =
     (if errorCode = - 1 then ''bad size / offset''
      else if errorCode = - 2 then ''too big''
      else if errorCode = - 3 then ''missing / bad block id''
      else if errorCode = - 4 then ''oversize''
      else if errorCode = - 5 then ''bad checksum''
      else if errorCode = - 6 then ''bad version - sender and receiver must be the same version''
      else if errorCode = - 7 then ''too different time between sender and receiver''
      else ''unknow error'')"


section \<open>The fields of an image\<close>

lemma length_heap [simp]: "length (heap_bytes g n) = n" "length (heap_words g n) = n"
  by (simp_all add: heap_bytes_def heap_words_def)

lemma length_BLOCK_TITLE [simp]: "length BLOCK_TITLE = 16"
  by (simp add: BLOCK_TITLE_def)

lemma length_save_header [simp]: "length ifname = 10 \<Longrightarrow> length (save_header cf g c t ifname ck st) = sizeof_header"
  by (simp add: save_header_def sizeof_header_def)

lemma length_words_bytes [simp]: "length (words_bytes ws) = 4 * length ws"
  by (induction ws) (auto simp: words_bytes_def)

lemma drop_step1: "drop p m = x # ys \<Longrightarrow> drop (p + 1) m = ys"
  using drop_step [of p m "[x]" ys 1] by simp

lemma ld8_at: "drop p m = b # ys \<Longrightarrow> ld8 m p = Ret b"
  using ld_at(4) [of p m "[b]" ys b] by simp

lemma image_loads:
  assumes "length ifname = 10" "drop 0 m = save_header cf g c t ifname ck st @ r"
  shows "ldn 16 m 0 = Ret BLOCK_TITLE" "ld8 m 16 = Ret BLOCK_VERSION" "ld32 m 20 = Ret (word_of_nat (bs_size st))"
    "ld32 m 24 = Ret (word_of_nat (bs_size_compress st))" "ld32 m 28 = Ret (word_of_nat (bs_count st))"
    "ld16 m 32 = Ret (bs_dlink st)" "ld16 m 34 = Ret (bs_sensor_id st)" "ldn 10 m 36 = Ret ifname"
    "ld8 m 46 = Ret (hm_byte (bs_hm st))" "ld32 m 48 = Ret ck" "ld32 m 52 = Ret c"
    "ld8 m 56 = Ret (of_bool (opt_require_confirmation cf))" "ld32 m 60 = Ret t" "drop 64 m = r"
proof -
  note d0 = assms(2) [unfolded save_header_def append_assoc]
  note d16 = drop_step [OF d0, of 16, simplified]
  note d17 = drop_step1 [OF d16, simplified]
  note d20 = drop_step [OF d17, of 3, simplified]
  note d24 = drop_step [OF d20, of 4, simplified]
  note d28 = drop_step [OF d24, of 4, simplified]
  note d32 = drop_step [OF d28, of 4, simplified]
  note d34 = drop_step [OF d32, of 2, simplified]
  note d36 = drop_step [OF d34, of 2, simplified]
  note d46 = drop_step [OF d36, of 10, simplified, OF assms(1)]
  note d47 = drop_step1 [OF d46, simplified]
  note d48 = drop_step [OF d47, of 1, simplified]
  note d52 = drop_step [OF d48, of 4, simplified]
  note d56 = drop_step [OF d52, of 4, simplified]
  note d57 = drop_step1 [OF d56, simplified]
  note d60 = drop_step [OF d57, of 3, simplified]
  show "drop 64 m = r" using drop_step [OF d60, of 4] by simp
  show "ldn 16 m 0 = Ret BLOCK_TITLE" by (rule ld_at(3) [OF d0]) simp_all
  show "ld8 m 16 = Ret BLOCK_VERSION" by (rule ld8_at [OF d16])
  show "ld32 m 20 = Ret (word_of_nat (bs_size st))" using ld_at(1) [OF d20] by simp
  show "ld32 m 24 = Ret (word_of_nat (bs_size_compress st))" using ld_at(1) [OF d24] by simp
  show "ld32 m 28 = Ret (word_of_nat (bs_count st))" using ld_at(1) [OF d28] by simp
  show "ld16 m 32 = Ret (bs_dlink st)" using ld_at(2) [OF d32] by simp
  show "ld16 m 34 = Ret (bs_sensor_id st)" using ld_at(2) [OF d34] by simp
  show "ldn 10 m 36 = Ret ifname" by (rule ld_at(3) [OF d36]) (simp_all add: assms(1))
  show "ld8 m 46 = Ret (hm_byte (bs_hm st))" by (rule ld8_at [OF d46])
  show "ld32 m 48 = Ret ck" using ld_at(1) [OF d48] by simp
  show "ld32 m 52 = Ret c" using ld_at(1) [OF d52] by simp
  show "ld8 m 56 = Ret (of_bool (opt_require_confirmation cf))" by (rule ld8_at [OF d56])
  show "ld32 m 60 = Ret t" using ld_at(1) [OF d60] by simp
qed

lemma ld_words_at: "drop p m = words_bytes ws @ r \<Longrightarrow> ld_words (length ws) m p = Ret ws"
proof (induction ws arbitrary: p)
  case (Cons w ws)
  have d: "drop p m = word_le 4 w @ words_bytes ws @ r" using Cons.prems by (simp add: words_bytes_def)
  have "ld32 m p = Ret w" using ld_at(1) [OF d] by simp
  then show ?case using Cons.IH [OF drop_step [OF d, of 4]] by simp
qed simp

lemma stn_time:
  assumes "length ifname = 10" "m = save_header cf g c t ifname ck st @ r"
  shows "stn m 60 [0, 0, 0, 0] = Ret (save_header cf g c 0 ifname ck st @ r)"
proof -
  have z: "word_le 4 (0 :: u32) = [0, 0, 0, 0]" by (simp add: word_le_def)
  have s: "\<exists>a. length a = 60 \<and> (\<forall>t. save_header cf g c t ifname ck st = a @ word_le 4 t)"
    by (rule exI [of _ "take 60 (save_header cf g c 0 ifname ck st)"]) (simp add: save_header_def assms(1))
  then obtain a where a: "length a = 60" "\<And>t. save_header cf g c t ifname ck st = a @ word_le 4 t" by blast
  then show ?thesis using assms(2) by (simp add: stn_def z)
qed

section \<open>Blocks that can be saved\<close>

definition saveable :: "pcap_block_store \<Rightarrow> bool" where
  "saveable st = (bs_count st \<le> length (bs_ol st) \<and> getUseSize st \<le> length (bs_mem st) \<and> getSizeSaveBuffer st < 2 ^ 31 \<and>
     bs_size st < 2 ^ 32 \<and> length (bs_ifname st) = 10 \<and> 0 \<in> set (bs_ifname st))"

definition image_body :: "pcap_block_store \<Rightarrow> mem" where
  "image_body st = words_bytes (take (bs_count st) (bs_ol st)) @ take (getUseSize st) (bs_mem st)"

definition image_ifname :: "pcap_block_store \<Rightarrow> mem" where
  "image_ifname st = (let s = c_string (bs_ifname st) in s @ replicate (10 - length s) 0)"

definition block_image :: "pb_opts \<Rightarrow> (nat \<Rightarrow> u32) \<Rightarrow> u32 \<Rightarrow> u32 \<Rightarrow> pcap_block_store \<Rightarrow> mem" where
  "block_image cf g now_s counter st =
     save_header cf g counter now_s (image_ifname st) (if opt_use_checksum cf then image_checksum (image_body st) else 0) st @ image_body st"

lemma c_string_short: "0 \<in> set xs \<Longrightarrow> length (c_string xs) < length xs"
  unfolding c_string_def by (induction xs) auto

lemma length_image_ifname: "saveable st \<Longrightarrow> length (image_ifname st) = 10"
  using c_string_short [of "bs_ifname st"] by (auto simp: saveable_def image_ifname_def Let_def)

lemma length_image_body: "saveable st \<Longrightarrow> length (image_body st) = bs_count st * 4 + getUseSize st"
  by (auto simp: saveable_def image_body_def)

lemma length_block_image: "saveable st \<Longrightarrow> length (block_image cf g now_s counter st) = getSizeSaveBuffer st"
  by (simp add: block_image_def length_image_ifname length_image_body getSizeSaveBuffer_def)

lemma getSaveBuffer_image:
  assumes "saveable st"
  shows "getSaveBuffer cf g now_s counter st = Ret (block_image cf g now_s counter st)"
proof -
  have s: "save_ifname (bs_ifname st) = Ret (image_ifname st)"
    using assms c_string_short [of "bs_ifname st"] by (auto simp: saveable_def save_ifname_def image_ifname_def Let_def)
  have o: "save_offsets st = Ret (words_bytes (take (bs_count st) (bs_ol st)))"
    using assms by (auto simp: saveable_def save_offsets_def bs_ol_def words_bytes_def split: option.splits)
  have b: "bs_ldn (getUseSize st) (bs_block st) 0 = Ret (take (getUseSize st) (bs_mem st))"
    using assms by (auto simp: saveable_def bs_ldn_def bs_mem_def ldn_def split: option.splits)
  show ?thesis by (simp add: getSaveBuffer_def s o b block_image_def image_body_def)
qed


section \<open>Restoring an image\<close>

definition restored_block :: "pb_opts \<Rightarrow> u32 \<Rightarrow> pcap_block_store \<Rightarrow> pcap_block_store \<Rightarrow> pcap_block_store" where
  "restored_block cf counter src st =
     st\<lparr>bs_hm := bs_hm src, bs_size := bs_size src, bs_size_compress := bs_size_compress src, bs_count := bs_count src,
        bs_dlink := bs_dlink src, bs_sensor_id := bs_sensor_id src, bs_ifname := image_ifname src, bs_block_counter := counter,
        bs_confirm := opt_require_confirmation cf, bs_offsets_size := bs_count src,
        bs_offsets := Some (take (bs_count src) (bs_ol src)), bs_block := Some (take (getUseSize src) (bs_mem src)), bs_full := True\<rparr>"

lemma c_string_append_zero: "0 \<notin> set s \<Longrightarrow> c_string (s @ 0 # r) = s"
  unfolding c_string_def by (induction s) auto

lemma c_string_no_zero: "0 \<notin> set (c_string s)"
  unfolding c_string_def by (induction s) auto

lemma c_string_full: "0 \<notin> set s \<Longrightarrow> c_string s = s"
  unfolding c_string_def by (induction s) auto

lemma strcpy_image_ifname:
  assumes "saveable st"
  shows "strcpy_null_term10 (image_ifname st) = image_ifname st"
proof -
  define s where "s = c_string (bs_ifname st)"
  have s: "length s < 10" "0 \<notin> set s"
    using assms c_string_short [of "bs_ifname st"] c_string_no_zero by (auto simp: saveable_def s_def)
  obtain k where k: "10 - length s = Suc k" using s by (cases "10 - length s") auto
  have "c_string (take 9 (s @ replicate (10 - length s) 0)) = s"
  proof (cases "length s = 9")
    case True
    then show ?thesis using c_string_full [OF s(2)] by simp
  next
    case False
    then obtain j where "9 - length s = Suc j" using s by (cases "9 - length s") auto
    then show ?thesis using c_string_append_zero [OF s(2)] c_string_full [OF s(2)] s(1) by (simp add: min_def)
  qed
  moreover have "replicate (9 - length s) 0 @ [0] = replicate (10 - length s) (0 :: u8)"
    using k s(1) by (simp add: replicate_append_same Suc_diff_le flip: replicate_Suc)
  ultimately show ?thesis by (simp add: strcpy_null_term10_def image_ifname_def s_def [symmetric])
qed

lemma saveable_words:
  assumes "saveable st"
  shows "unat (word_of_nat (bs_size st) :: u32) = bs_size st" "unat (word_of_nat (bs_size_compress st) :: u32) = bs_size_compress st"
    "unat (word_of_nat (bs_count st) :: u32) = bs_count st"
  using assms by (auto simp: saveable_def unat_of_nat getSizeSaveBuffer_def getUseSize_def split: if_splits)

lemma restoreFromSaveBuffer_image:
  assumes sv: "saveable src" and m: "m = save_header cf g counter t (image_ifname src) ck src @ image_body src @ r"
  shows "restoreFromSaveBuffer m st = Ret (restored_block cf counter src st)"
proof -
  have "drop 0 m = save_header cf g counter t (image_ifname src) ck src @ image_body src @ r" using m by simp
  note l = image_loads [OF length_image_ifname [OF sv] this]
  note w = saveable_words [OF sv]
  have cnt: "length (take (bs_count src) (bs_ol src)) = bs_count src" using sv by (simp add: saveable_def)
  have d: "drop sizeof_header m = words_bytes (take (bs_count src) (bs_ol src)) @ take (getUseSize src) (bs_mem src) @ r"
    using l(14) by (simp add: sizeof_header_def image_body_def)
  have os: "ld_words (bs_count src) m sizeof_header = Ret (take (bs_count src) (bs_ol src))"
    using ld_words_at [OF d] by (simp only: cnt)
  have lm: "length m = getSizeSaveBuffer src + length r"
    using m by (simp add: length_image_ifname [OF sv] length_image_body [OF sv] getSizeSaveBuffer_def)
  have "drop (sizeof_header + bs_count src * 4) m = take (getUseSize src) (bs_mem src) @ r"
    by (rule drop_step [OF d]) (use sv in \<open>simp add: saveable_def\<close>)
  then have blk: "ldn (getUseSize src) m (sizeof_header + bs_count src * 4) = Ret (take (getUseSize src) (bs_mem src))"
    using lm sv by (simp add: ldn_def getSizeSaveBuffer_def saveable_def)
  have hm: "(if hm_byte (bs_hm src) = 1 then hm_plus2 else hm_plus) = bs_hm src" by (cases "bs_hm src") (auto simp: hm_byte_def)
  show ?thesis
    using blk by (cases "bs_size_compress src = 0")
      (simp_all add: restoreFromSaveBuffer_def l w hm Let_def os getUseSize_def restored_block_def strcpy_image_ifname [OF sv])
qed

section \<open>The bytes received so far\<close>

definition rb_has :: "pcap_block_store \<Rightarrow> mem \<Rightarrow> bool" where
  "rb_has st X = (bs_restoreBufferSize st = length X \<and> length (rb_mem st) = bs_restoreBufferAllocSize st \<and>
     take (length X) (rb_mem st) = X)"

definition with_restore :: "pcap_block_store \<Rightarrow> pcap_block_store \<Rightarrow> pcap_block_store" where
  "with_restore st' st = st\<lparr>bs_restoreBuffer := bs_restoreBuffer st', bs_restoreBufferSize := bs_restoreBufferSize st',
     bs_restoreBufferAllocSize := bs_restoreBufferAllocSize st'\<rparr>"

lemma rb_has_len: "rb_has st X \<Longrightarrow> length X \<le> length (rb_mem st)"
  by (metis length_take min.cobounded1 rb_has_def)

lemma rb_has_split: "rb_has st X \<Longrightarrow> rb_mem st = X @ drop (length X) (rb_mem st)"
  by (metis append_take_drop_id rb_has_def)

lemma restore_append_has:
  assumes "rb_has st X" "bytes \<noteq> []"
  obtains st' where "restore_append cf g bytes st = Ret st'" "rb_has st' (X @ bytes)" "st' = with_restore st' st"
proof -
  note h = assms(1) [unfolded rb_has_def]
  show thesis
  proof (cases "bs_restoreBufferAllocSize st < length X + length bytes")
    case True
    define n where "n = length X + length bytes + restore_buffer_inc_size cf"
    define st1 where "st1 = st\<lparr>bs_restoreBuffer := Some (X @ drop (length X) (heap_bytes g n)), bs_restoreBufferAllocSize := n\<rparr>"
    have old: "(case bs_restoreBuffer st of None \<Rightarrow> Ret [] | Some old \<Rightarrow> ldn (bs_restoreBufferSize st) old 0) = Ret X"
      using h rb_has_len [OF assms(1)] by (auto simp: rb_mem_def ldn_def split: option.splits)
    obtain b where b: "stn (X @ drop (length X) (heap_bytes g n)) (length X) bytes = Ret b" "length b = n"
      "take (length X + length bytes) b = X @ bytes"
      using stn_at_take [of "X @ drop (length X) (heap_bytes g n)" n "length X" bytes] by (auto simp: n_def)
    have "restore_append cf g bytes st = Ret (st\<lparr>bs_restoreBuffer := Some b, bs_restoreBufferAllocSize := n, bs_restoreBufferSize := length X + length bytes\<rparr>)"
      using True h old b by (simp add: restore_append_def Let_def n_def stn_def bs_stn_def)
    then show ?thesis using that b by (simp add: rb_has_def with_restore_def rb_mem_def)
  next
    case False
    then obtain m where m: "bs_restoreBuffer st = Some m" using h assms(2) by (cases "bs_restoreBuffer st") (auto simp: rb_mem_def)
    obtain b where b: "stn m (length X) bytes = Ret b" "length b = length m" "take (length X + length bytes) b = X @ bytes"
      using stn_at_take [of m "length m" "length X" bytes] False h m by (auto simp: rb_mem_def)
    have "restore_append cf g bytes st = Ret (st\<lparr>bs_restoreBuffer := Some b, bs_restoreBufferSize := length X + length bytes\<rparr>)"
      using False h m b by (simp add: restore_append_def Let_def bs_stn_def)
    then show ?thesis using that b h m by (simp add: rb_has_def with_restore_def rb_mem_def)
  qed
qed


section \<open>Receiving an image in pieces\<close>

text \<open>The first \<open>n\<close> bytes of an image and what follows it, as the receiver keeps them: the time stamp is reset as soon as the
  header is complete, unless the image comes from a file.\<close>

definition image_stream :: "pb_opts \<Rightarrow> (nat \<Rightarrow> u32) \<Rightarrow> u32 \<Rightarrow> u32 \<Rightarrow> pcap_block_store \<Rightarrow> mem \<Rightarrow> mem" where
  "image_stream cf g t counter src extra = block_image cf g t counter src @ extra"

definition image_seen :: "pb_opts \<Rightarrow> (nat \<Rightarrow> u32) \<Rightarrow> u32 \<Rightarrow> u32 \<Rightarrow> pcap_block_store \<Rightarrow> mem \<Rightarrow> bool \<Rightarrow> nat \<Rightarrow> mem" where
  "image_seen cf g t counter src extra fs n = take n (image_stream cf g (if n < sizeof_header \<or> fs then t else 0) counter src extra)"

definition time_ok :: "pb_opts \<Rightarrow> u32 \<Rightarrow> u32 \<Rightarrow> bool" where
  "time_ok cf now_s t = (t = 0 \<or> time_diff t now_s \<le> opt_max_time_diff_s cf)"

lemma drop_image_stream:
  assumes "saveable src" "sizeof_header \<le> n"
  shows "drop n (image_stream cf g t counter src extra) = drop n (image_stream cf g t' counter src extra)"
  using assms by (simp add: image_stream_def block_image_def length_image_ifname)

lemma rb_header:
  assumes sv: "saveable src" and h: "rb_has st (take n (image_stream cf g t counter src extra))"
    and n: "sizeof_header \<le> n" "n \<le> length (image_stream cf g t counter src extra)"
  obtains ck r where "rb_mem st = save_header cf g counter t (image_ifname src) ck src @ take (n - sizeof_header) (image_body src @ extra) @ r"
    "ck = (if opt_use_checksum cf then image_checksum (image_body src) else 0)"
proof -
  have "take n (image_stream cf g t counter src extra) =
      save_header cf g counter t (image_ifname src) (if opt_use_checksum cf then image_checksum (image_body src) else 0) src @
      take (n - sizeof_header) (image_body src @ extra)"
    using n(1) by (simp add: image_stream_def block_image_def length_image_ifname [OF sv])
  then show thesis using that rb_has_split [OF h] by simp
qed

lemma rb_has_I:
  assumes "rb_mem st = X @ r" "bs_restoreBufferSize st = length X" "length (rb_mem st) = bs_restoreBufferAllocSize st"
  shows "rb_has st X"
  using assms by (simp add: rb_has_def)

lemma restore_check_image:
  assumes sv: "saveable src" and h: "rb_has st (take n (image_stream cf g t counter src extra))"
    and n: "sizeof_header \<le> n" "n \<le> length (image_stream cf g t counter src extra)" and t: "fs \<or> time_ok cr now_s t"
  obtains st' where "restore_check cr now_s fs st = Ret (0, st')" "st' = with_restore st' st"
    "rb_has st' (take n (image_stream cf g (if fs then t else 0) counter src extra))"
proof -
  obtain ck r where m: "rb_mem st = save_header cf g counter t (image_ifname src) ck src @ take (n - sizeof_header) (image_body src @ extra) @ r"
    "ck = (if opt_use_checksum cf then image_checksum (image_body src) else 0)"
    using rb_header [OF sv h n] by blast
  have "drop 0 (rb_mem st) = save_header cf g counter t (image_ifname src) ck src @ take (n - sizeof_header) (image_body src @ extra) @ r"
    using m by simp
  note l = image_loads [OF length_image_ifname [OF sv] this]
  have sz: "bs_restoreBufferSize st = n" "length (rb_mem st) = bs_restoreBufferAllocSize st" using h n by (auto simp: rb_has_def)
  show thesis
  proof (cases "fs \<or> t = 0")
    case True
    then have "restore_check cr now_s fs st = Ret (0, st)" using sz n l by (simp add: restore_check_def)
    then show ?thesis using that [of st] True h by (auto simp: with_restore_def split: if_splits)
  next
    case False
    then have td: "\<not> time_diff t now_s > opt_max_time_diff_s cr" using t by (simp add: time_ok_def)
    obtain b where b: "bs_restoreBuffer st = Some b" using m length_save_header [OF length_image_ifname [OF sv]]
      by (cases "bs_restoreBuffer st") (auto simp: rb_mem_def sizeof_header_def dest: arg_cong [where f = length])
    then have bm: "b = rb_mem st" by (simp add: rb_mem_def)
    define b' where "b' = save_header cf g counter 0 (image_ifname src) ck src @ take (n - sizeof_header) (image_body src @ extra) @ r"
    have s: "stn (rb_mem st) 60 [0, 0, 0, 0] = Ret b'" unfolding b'_def by (rule stn_time [OF length_image_ifname [OF sv] m(1)])
    have lb: "length b' = length (rb_mem st)" by (rule stn_length [OF s])
    let ?st = "st\<lparr>bs_restoreBuffer := Some b'\<rparr>"
    have "restore_check cr now_s fs st = Ret (0, ?st)"
      using sz n l False td b bm s by (simp add: restore_check_def bs_stn_def)
    moreover have "rb_has ?st (take n (image_stream cf g 0 counter src extra))"
      using sz n lb m(2) by (intro rb_has_I [of _ _ r]) (simp_all add: rb_mem_def b'_def image_stream_def block_image_def length_image_ifname [OF sv])
    ultimately show ?thesis using that [of ?st] False by (simp add: with_restore_def)
  qed
qed

lemma restored_size_image:
  assumes sv: "saveable src" and h: "rb_has st (take n (image_stream cf g t counter src extra))"
    and n: "sizeof_header \<le> n" "n \<le> length (image_stream cf g t counter src extra)"
  shows "getSizeSaveBufferFromRestoreBuffer st = Ret (int (getSizeSaveBuffer src))"
proof -
  obtain ck r where m: "rb_mem st = save_header cf g counter t (image_ifname src) ck src @ take (n - sizeof_header) (image_body src @ extra) @ r"
    using rb_header [OF sv h n] by blast
  then have "drop 0 (rb_mem st) = save_header cf g counter t (image_ifname src) ck src @ take (n - sizeof_header) (image_body src @ extra) @ r" by simp
  note l = image_loads [OF length_image_ifname [OF sv] this]
  have sz: "bs_restoreBufferSize st = n" using h n by (auto simp: rb_has_def)
  have lt: "getSizeSaveBuffer src < 2 ^ 31" using sv by (simp add: saveable_def)
  have "sint (word_of_nat (getSizeSaveBuffer src) :: 32 word) = int (getSizeSaveBuffer src)"
    using lt by (simp add: signed_of_nat signed_take_bit_int_eq_self)
  moreover have "unat (if word_of_nat (bs_size_compress src) \<noteq> (0 :: u32) then word_of_nat (bs_size_compress src) else word_of_nat (bs_size src) :: u32) = getUseSize src"
    using saveable_words [OF sv] by (auto simp: getUseSize_def)
  ultimately show ?thesis using sz n l saveable_words(3) [OF sv]
    by (simp add: getSizeSaveBufferFromRestoreBuffer_def getSizeSaveBuffer_def del: of_nat_add)
qed

lemma restore_finish_image:
  assumes sv: "saveable src" and h: "rb_has st (take n (image_stream cf g t counter src extra))"
    and n: "getSizeSaveBuffer src \<le> n" "n \<le> length (image_stream cf g t counter src extra)"
  shows "restore_finish (getSizeSaveBuffer src) st = Ret (1, destroyRestoreBuffer (restored_block cf counter src st))"
proof -
  have n64: "sizeof_header \<le> n" using n by (simp add: getSizeSaveBuffer_def)
  obtain ck r where m: "rb_mem st = save_header cf g counter t (image_ifname src) ck src @ take (n - sizeof_header) (image_body src @ extra) @ r"
    "ck = (if opt_use_checksum cf then image_checksum (image_body src) else 0)"
    using rb_header [OF sv h n64 n(2)] by blast
  obtain r' where r': "take (n - sizeof_header) (image_body src @ extra) @ r = image_body src @ r'"
    using n(1) length_image_body [OF sv] by (simp add: getSizeSaveBuffer_def)
  have m': "rb_mem st = save_header cf g counter t (image_ifname src) ck src @ image_body src @ r'" using m(1) r' by simp
  then have "drop 0 (rb_mem st) = save_header cf g counter t (image_ifname src) ck src @ image_body src @ r'" by simp
  note l = image_loads [OF length_image_ifname [OF sv] this]
  have "ldn (getSizeSaveBuffer src - sizeof_header) (rb_mem st) sizeof_header = Ret (image_body src)"
    using m' length_image_body [OF sv] by (simp add: ldn_def getSizeSaveBuffer_def length_image_ifname [OF sv])
  moreover have "\<not> getSizeSaveBuffer src < sizeof_header" by (simp add: getSizeSaveBuffer_def)
  ultimately show ?thesis using l m(2) restoreFromSaveBuffer_image [OF sv m', of st] by (simp add: restore_finish_def)
qed


lemma image_seen_step:
  assumes "saveable src"
  shows "image_seen cf g t counter src extra fs n @ take k (drop n (image_stream cf g t counter src extra)) =
    take (n + k) (image_stream cf g (if n < sizeof_header \<or> fs then t else 0) counter src extra)"
proof (cases "n < sizeof_header \<or> fs")
  case True
  then show ?thesis by (simp add: image_seen_def take_add)
next
  case False
  then have "drop n (image_stream cf g t counter src extra) = drop n (image_stream cf g 0 counter src extra)"
    using drop_image_stream [OF assms] by simp
  with False show ?thesis by (simp add: image_seen_def take_add)
qed

lemma with_restore_twice: "with_restore c (with_restore b a) = with_restore c a"
  by (simp add: with_restore_def)

lemma length_image_stream: "saveable src \<Longrightarrow> length (image_stream cf g t counter src extra) = getSizeSaveBuffer src + length extra"
  by (simp add: image_stream_def length_block_image)

text \<open>One call of \<open>addRestoreChunk\<close>, after \<open>n\<close> bytes of the image, with \<open>k\<close> further bytes.\<close>

lemma chunk_received:
  assumes sv: "saveable src" and h: "rb_has st (image_seen cf g' t counter src extra fs n)"
    and n: "n < getSizeSaveBuffer src" "n + k \<le> getSizeSaveBuffer src + length extra" "n + k \<le> opt_block_max_size cr * 10"
    and b: "ldn k buffer off = Ret (take k (drop n (image_stream cf g' t counter src extra)))" "0 < k" "sz = off + k"
      "off = (case offset of None \<Rightarrow> 0 | Some o' \<Rightarrow> o')"
    and t: "fs \<or> time_ok cr now_s t"
  shows "n + k < getSizeSaveBuffer src \<Longrightarrow> \<exists>st'. addRestoreChunk cr g now_s buffer sz offset fs st = Ret (0, st', offset) \<and>
      rb_has st' (image_seen cf g' t counter src extra fs (n + k)) \<and> st' = with_restore st' st"
    and "getSizeSaveBuffer src \<le> n + k \<Longrightarrow> addRestoreChunk cr g now_s buffer sz offset fs st =
      Ret (1, destroyRestoreBuffer (restored_block cf counter src st), map_option (\<lambda>_. sz - (n + k - getSizeSaveBuffer src)) offset)"
proof -
  let ?N = "getSizeSaveBuffer src"
  let ?S = "\<lambda>t. image_stream cf g' t counter src extra"
  let ?t0 = "if n < sizeof_header \<or> fs then t else 0"
  define bytes where "bytes = take k (drop n (?S t))"
  have lS: "\<And>t. length (?S t) = ?N + length extra" by (rule length_image_stream [OF sv])
  have lb: "length bytes = k" using n(2) by (simp add: bytes_def lS)
  then have ne: "bytes \<noteq> []" using b(2) by auto
  obtain st1 where st1: "restore_append cr g bytes st = Ret st1" "rb_has st1 (image_seen cf g' t counter src extra fs n @ bytes)"
    "st1 = with_restore st1 st" using restore_append_has [OF h ne, of cr g] by blast
  have h1: "rb_has st1 (take (n + k) (?S ?t0))" using st1(2) image_seen_step [OF sv] by (simp add: bytes_def)
  have sz1: "bs_restoreBufferSize st1 = n + k" using h1 n(2) lS [of ?t0] by (simp add: rb_has_def)
  have t0: "fs \<or> time_ok cr now_s ?t0" using t by (auto simp: time_ok_def)
  have base: "addRestoreChunk cr g now_s buffer sz offset fs st =
      (if 0 \<le> N \<and> int n > N then Ret (- 4, st2, offset) else if N < 0 \<or> int (n + k) < N then Ret (0, st2, offset)
       else omap (\<lambda>(rc, st). (rc, st, map_option (\<lambda>_. sz - (n + k - nat N)) offset)) (restore_finish (nat N) st2))"
    if "restore_check cr now_s fs st1 = Ret (0, st2)" "bs_restoreBufferSize st2 = n + k" "getSizeSaveBufferFromRestoreBuffer st2 = Ret N" for st2 N
    using that b st1(1) sz1 n(3) unfolding addRestoreChunk_def b(4) [symmetric] by (simp add: Let_def bytes_def)
  show "\<exists>st'. addRestoreChunk cr g now_s buffer sz offset fs st = Ret (0, st', offset) \<and>
      rb_has st' (image_seen cf g' t counter src extra fs (n + k)) \<and> st' = with_restore st' st" if lt: "n + k < ?N"
  proof (cases "n + k < sizeof_header")
    case True
    then have rc: "restore_check cr now_s fs st1 = Ret (0, st1)" using sz1 by (simp add: restore_check_def)
    have "getSizeSaveBufferFromRestoreBuffer st1 = Ret (- 1)" using sz1 True by (simp add: getSizeSaveBufferFromRestoreBuffer_def)
    then show ?thesis using base [OF rc sz1] h1 True st1(3) by (auto simp: image_seen_def)
  next
    case False
    then obtain st2 where rc: "restore_check cr now_s fs st1 = Ret (0, st2)" "st2 = with_restore st2 st1"
      "rb_has st2 (take (n + k) (?S (if fs then ?t0 else 0)))"
      using restore_check_image [OF sv h1 _ _ t0] n(2) lS by (metis not_less)
    have sz2: "bs_restoreBufferSize st2 = n + k" using rc(3) n(2) lS by (simp add: rb_has_def)
    have "getSizeSaveBufferFromRestoreBuffer st2 = Ret (int ?N)" using restored_size_image [OF sv rc(3)] False n(2) lS by simp
    then have "addRestoreChunk cr g now_s buffer sz offset fs st = Ret (0, st2, offset)"
      using base [OF rc(1) sz2] lt n(1) by simp
    moreover have "st2 = with_restore st2 st" using rc(2) st1(3) by (metis with_restore_twice)
    ultimately show ?thesis using rc(3) False by (auto simp: image_seen_def)
  qed
  show "addRestoreChunk cr g now_s buffer sz offset fs st =
      Ret (1, destroyRestoreBuffer (restored_block cf counter src st), map_option (\<lambda>_. sz - (n + k - ?N)) offset)" if ge: "?N \<le> n + k"
  proof -
    have n64: "sizeof_header \<le> n + k" using ge by (simp add: getSizeSaveBuffer_def)
    then obtain st2 where rc: "restore_check cr now_s fs st1 = Ret (0, st2)" "st2 = with_restore st2 st1"
      "rb_has st2 (take (n + k) (?S (if fs then ?t0 else 0)))"
      using restore_check_image [OF sv h1 _ _ t0] n(2) lS by metis
    have sz2: "bs_restoreBufferSize st2 = n + k" using rc(3) n(2) lS by (simp add: rb_has_def)
    have sz: "getSizeSaveBufferFromRestoreBuffer st2 = Ret (int ?N)" using restored_size_image [OF sv rc(3)] n64 n(2) lS by simp
    have fin: "restore_finish ?N st2 = Ret (1, destroyRestoreBuffer (restored_block cf counter src st2))"
      using restore_finish_image [OF sv rc(3)] ge n(2) lS by simp
    have "destroyRestoreBuffer (restored_block cf counter src st2) = destroyRestoreBuffer (restored_block cf counter src st)"
      by (subst rc(2), subst st1(3)) (simp add: destroyRestoreBuffer_def restored_block_def with_restore_def)
    then show ?thesis using base [OF rc(1) sz2 sz] fin ge n(1) by simp
  qed
qed


section \<open>The restored block\<close>

lemma restored_content:
  assumes "bs_content src items" "bs_size_packets st = 0 \<or> bs_size_packets st = packet_bytes items"
  shows "bs_content (destroyRestoreBuffer (restored_block cf counter src st)) items"
  using assms by (auto simp: bs_content_def destroyRestoreBuffer_def restored_block_def bs_mem_def [of "_\<lparr>bs_restoreBuffer := _\<rparr>"]
      bs_ol_def [of "_\<lparr>bs_restoreBuffer := _\<rparr>"] bs_mem_def [of "_\<lparr>bs_restoreBufferAllocSize := _\<rparr>"]
      bs_ol_def [of "_\<lparr>bs_restoreBufferAllocSize := _\<rparr>"] getUseSize_def)

lemma content_saveable:
  assumes "bs_content src items" "getSizeSaveBuffer src < 2 ^ 31" "length (bs_ifname src) = 10" "0 \<in> set (bs_ifname src)"
  shows "saveable src"
  using assms by (auto simp: saveable_def bs_content_def getUseSize_def)

lemma image_seen_0: "image_seen cf g t counter src extra fs 0 = []"
  by (simp add: image_seen_def)

text \<open>Feeding the pieces one after the other until a result other than 0, as the readers of a file do it.\<close>

fun restore_chunks :: "pb_opts \<Rightarrow> (nat \<Rightarrow> u32) \<Rightarrow> u32 \<Rightarrow> bool \<Rightarrow> mem list \<Rightarrow> pcap_block_store \<Rightarrow> (int \<times> pcap_block_store) outcome" where
  "restore_chunks cf g now_s fs [] st = Ret (0, st)"
| "restore_chunks cf g now_s fs (c # cs) st =
     obind (addRestoreChunk cf g now_s c (length c) None fs st) (\<lambda>(rc, st, _).
       if rc \<noteq> 0 then Ret (rc, st) else restore_chunks cf g now_s fs cs st)"

lemma restore_chunks_image:
  assumes sv: "saveable src" and t: "fs \<or> time_ok cr now_s t" and ne: "[] \<notin> set chunks"
    and c: "concat chunks = drop n (image_stream cf g' t counter src extra)" and n: "n < getSizeSaveBuffer src"
    and h: "rb_has st (image_seen cf g' t counter src extra fs n)"
    and max: "\<forall>c \<in> set chunks. getSizeSaveBuffer src + min (length c) (length extra) \<le> opt_block_max_size cr * 10"
  shows "restore_chunks cr g now_s fs chunks st = Ret (1, destroyRestoreBuffer (restored_block cf counter src st))"
  using ne c n h max
proof (induction chunks arbitrary: n st)
  case Nil
  then show ?case using length_image_stream [OF sv, of cf g' t counter extra] by (auto dest: arg_cong [where f = length])
next
  case (Cons c cs)
  let ?S = "image_stream cf g' t counter src extra"
  have c: "c = take (length c) (drop n ?S)" "concat cs = drop (n + length c) ?S"
    using Cons.prems(2) by (metis append_eq_conv_conj concat.simps(2), metis add.commute append_eq_conv_conj concat.simps(2) drop_drop)
  have "length c + length (concat cs) = getSizeSaveBuffer src + length extra - n"
    using arg_cong [OF Cons.prems(2), of length] by (simp only: concat.simps length_append length_drop length_image_stream [OF sv])
  then have k: "0 < length c" "n + length c \<le> getSizeSaveBuffer src + length extra" "n + length c \<le> opt_block_max_size cr * 10"
    using Cons.prems(1,3,5) by auto
  have l: "ldn (length c) c 0 = Ret (take (length c) (drop n ?S))" using c(1) by (simp add: ldn_def)
  note step = chunk_received [OF sv Cons.prems(4,3) k(2,3) l k(1), of "length c" None, OF _ _ t, simplified]
  show ?case
  proof (cases "n + length c < getSizeSaveBuffer src")
    case True
    then obtain st' where st': "addRestoreChunk cr g now_s c (length c) None fs st = Ret (0, st', None)"
      "rb_has st' (image_seen cf g' t counter src extra fs (n + length c))" "st' = with_restore st' st"
      using step(1) by blast
    have "destroyRestoreBuffer (restored_block cf counter src st') = destroyRestoreBuffer (restored_block cf counter src st)"
      by (subst st'(3)) (simp add: destroyRestoreBuffer_def restored_block_def with_restore_def)
    then show ?thesis using st'(1) Cons.IH [OF _ c(2) True st'(2)] Cons.prems(1,5) by simp
  next
    case False
    then show ?thesis using step(2) by simp
  qed
qed

lemma rb_has_Nil: "bs_restoreBuffer st = None \<Longrightarrow> bs_restoreBufferSize st = 0 \<Longrightarrow> bs_restoreBufferAllocSize st = 0 \<Longrightarrow> rb_has st []"
  by (simp add: rb_has_def rb_mem_def)

lemma rb_has_new: "rb_has (destroyRestoreBuffer st) []"
  by (simp add: destroyRestoreBuffer_def rb_has_Nil)

lemma block_new_destroyed: "destroyRestoreBuffer (pcap_block_store_new cf g now hm) = pcap_block_store_new cf g now hm"
  by (simp add: pcap_block_store_new_def destroyRestoreBuffer_def)

text \<open>C10: the image of a block that holds \<open>items\<close>, cut into non-empty pieces in any way, gives a block with the same
  packets, link type, sensor and counter at the receiver: \<open>addRestoreChunk\<close> returns 0 up to the last piece and 1 there. The image
  must be shorter than 2 GiB and than ten times the block size of the receiver, and its time stamp close enough to the clock.\<close>

theorem block_image_roundtrip:
  assumes "bs_content src items" "length (bs_ifname src) = 10" "0 \<in> set (bs_ifname src)" "getSizeSaveBuffer src < 2 ^ 31"
    and "getSaveBuffer cf g t counter src = Ret (concat chunks)" "[] \<notin> set chunks"
    and "getSizeSaveBuffer src \<le> opt_block_max_size cr * 10" "fs \<or> time_ok cr now_s t"
  shows "\<exists>st'. restore_chunks cr g' now_s fs chunks (pcap_block_store_new cr g'' now hm) = Ret (1, st') \<and>
    (\<forall>i. bs_read st' i = Ret (if i < length items then Some (items ! i) else None)) \<and> bs_count st' = length items \<and>
    bs_dlink st' = bs_dlink src \<and> bs_sensor_id st' = bs_sensor_id src \<and> bs_block_counter st' = counter"
proof -
  have sv: "saveable src" using content_saveable assms(1-4) by blast
  let ?st = "pcap_block_store_new cr g'' now hm"
  let ?st' = "destroyRestoreBuffer (restored_block cf counter src ?st)"
  have img: "concat chunks = block_image cf g t counter src" using getSaveBuffer_image [OF sv] assms(5) by simp
  have "restore_chunks cr g' now_s fs chunks ?st = Ret (1, ?st')"
  proof (rule restore_chunks_image [OF sv assms(8,6)])
    show "concat chunks = drop 0 (image_stream cf g t counter src [])" using img by (simp add: image_stream_def)
    show "0 < getSizeSaveBuffer src" by (simp add: getSizeSaveBuffer_def sizeof_header_def)
    show "rb_has ?st (image_seen cf g t counter src [] fs 0)" using rb_has_new [of ?st] by (simp add: image_seen_0 block_new_destroyed)
    show "\<forall>c\<in>set chunks. getSizeSaveBuffer src + min (length c) (length []) \<le> opt_block_max_size cr * 10" using assms(7) by simp
  qed
  moreover have c: "bs_content ?st' items"
    by (rule restored_content [OF assms(1)]) (simp add: pcap_block_store_new_def destroyRestoreBuffer_def bs_destroy_def)
  ultimately show ?thesis using bs_read_content [OF c] assms(1)
    by (simp add: destroyRestoreBuffer_def restored_block_def bs_content_def)
qed

theorem block_image_roundtrip_witness:
  "\<exists>src a b st'. getSaveBuffer demo_opts (\<lambda>_. 5) 1000 7 src = Ret (a @ b) \<and> length a = 10 \<and>
     restore_chunks demo_opts (\<lambda>_. 5) 1020 False [a, b] (pcap_block_store_new demo_opts (\<lambda>_. 5) 7 hm_plus) = Ret (1, st') \<and>
     bs_read st' 0 = Ret (Some (demo_header hm_plus 3, [1, 2, 3]))"
proof -
  obtain src where src: "bs_content src [(demo_header hm_plus 3, [1, 2, 3])]" "bs_ifname src = replicate 10 0" "bs_size src = 39" "bs_count src = 1"
    by (rule demo_block)
  have sz: "getSizeSaveBuffer src = 107" using src by (simp add: getSizeSaveBuffer_def getUseSize_def sizeof_header_def bs_content_def)
  have n: "length (bs_ifname src) = 10" "0 \<in> set (bs_ifname src)" using src(2) by auto
  have sv: "saveable src" using content_saveable [OF src(1) _ n] sz by simp
  define img where "img = block_image demo_opts (\<lambda>_. 5) 1000 7 src"
  have l: "length img = 107" using length_block_image [OF sv] sz by (simp add: img_def)
  have cat: "concat [take 10 img, drop 10 img] = img" by simp
  have img: "getSaveBuffer demo_opts (\<lambda>_. 5) 1000 7 src = Ret (concat [take 10 img, drop 10 img])"
    using getSaveBuffer_image [OF sv] by (simp add: img_def)
  have t: "False \<or> time_ok demo_opts 1020 1000" by (simp add: time_ok_def time_diff_def demo_opts_def)
  have ne: "[] \<notin> set [take 10 img, drop 10 img]" using l by auto
  have s: "getSizeSaveBuffer src < 2 ^ 31" "getSizeSaveBuffer src \<le> opt_block_max_size demo_opts * 10" using sz by (simp_all add: demo_opts_def)
  from block_image_roundtrip [OF src(1) n s(1) img ne s(2) t, of "\<lambda>_. 5" "\<lambda>_. 5" 7 hm_plus]
  obtain st' where "restore_chunks demo_opts (\<lambda>_. 5) 1020 False [take 10 img, drop 10 img] (pcap_block_store_new demo_opts (\<lambda>_. 5) 7 hm_plus) = Ret (1, st')"
    "bs_read st' 0 = Ret (Some (demo_header hm_plus 3, [1, 2, 3]))" by auto
  moreover have "getSaveBuffer demo_opts (\<lambda>_. 5) 1000 7 src = Ret (take 10 img @ drop 10 img)" "length (take 10 img) = 10" using img l by simp_all
  ultimately show ?thesis by blast
qed

text \<open>The size of the image is computed in an \<open>int\<close>: a header of 64 bytes with a packet count of \<open>2 ^ 30\<close> passes for a complete
  image, and copying the offsets reads behind the receive buffer.\<close>

lemma ld_words_behind: "length m < p + 4 * n \<Longrightarrow> 0 < n \<Longrightarrow> ld_words n m p = OutOfBounds"
proof (induction n arbitrary: p)
  case (Suc n)
  show ?case
  proof (cases "p + 4 \<le> length m")
    case True
    then have "ld_words n m (p + 4) = OutOfBounds" using Suc by auto
    then show ?thesis using True by (simp add: ld32_Ret)
  qed (simp add: ld32_def ldn_def)
qed simp

lemma restore_count_overflow:
  assumes "opts_ok cr" "bs_count src = 2 ^ 30" "bs_size src = 0" "bs_size_compress src = 0"
  shows "addRestoreChunk cr g now_s (save_header cf g' 1 0 (replicate 10 0) 0 src) 64 None fs
    (pcap_block_store_new cr g'' now hm) = OutOfBounds"
proof -
  let ?h = "save_header cf g' 1 0 (replicate 10 0) 0 src" and ?st = "pcap_block_store_new cr g'' now hm"
  have lh: "length ?h = 64" by (simp add: sizeof_header_def)
  have mx: "64 \<le> opt_block_max_size cr * 10" "opt_block_max_size cr < 2 ^ 32" using assms(1) by (auto simp: opts_ok_def AVG_PACKET_SIZE_def)
  define m where "m = ?h @ drop 64 (heap_bytes g (64 + restore_buffer_inc_size cr))"
  define st1 where "st1 = ?st\<lparr>bs_restoreBuffer := Some m, bs_restoreBufferSize := 64, bs_restoreBufferAllocSize := 64 + restore_buffer_inc_size cr\<rparr>"
  have ap: "restore_append cr g ?h ?st = Ret st1"
    by (simp add: restore_append_def lh pcap_block_store_new_def destroyRestoreBuffer_def bs_destroy_def Let_def bs_stn_def stn_def st1_def m_def)
  have rb: "rb_mem st1 = m" "bs_restoreBufferSize st1 = 64" by (simp_all add: st1_def rb_mem_def)
  have "drop 0 m = ?h @ drop 64 (heap_bytes g (64 + restore_buffer_inc_size cr))" by (simp add: m_def)
  note l = image_loads [OF _ this, simplified, unfolded assms]
  have lm: "length m < 64 + 4 * 2 ^ 30" using mx by (simp add: m_def lh restore_buffer_inc_size_def)
  have "ld_words (2 ^ 30) m 64 = OutOfBounds" by (rule ld_words_behind) (use lm in simp_all)
  then have "restoreFromSaveBuffer m st1 = OutOfBounds"
    by (simp add: restoreFromSaveBuffer_def l Let_def sizeof_header_def)
  moreover have "getSizeSaveBufferFromRestoreBuffer st1 = Ret 64"
    by (simp add: getSizeSaveBufferFromRestoreBuffer_def rb l sizeof_header_def)
  moreover have "ldn 64 ?h 0 = Ret ?h" using lh by (simp add: ldn_def)
  ultimately show ?thesis using mx
    by (simp add: addRestoreChunk_def lh ap rb restore_check_def l sizeof_header_def restore_finish_def)
qed

end
