(* ===== verification/VM_BlockFile.thy ===== *)
theory VM_BlockFile
  imports VM_BlockImage
begin

text \<open>
  Blocks on their way through the packet buffer: the compression of the packets of a block and the file store
  (\<open>pcap_file_store\<close>) that keeps the images of blocks in one file, both of \<open>pcap_queue.cpp\<close>. The compression libraries
  (snappy, LZ4) are parameters. A file is the list of the bytes written to it; the writes go through the buffer of
  the write handle, so the read handle sees the bytes that have been flushed and possibly more (the parameter \<open>disk\<close>).
\<close>

section \<open>Compression\<close>

text \<open>A compression library: \<open>compress\<close> returns the compressed bytes or fails, \<open>uncompress\<close> gets the compressed bytes and the size
  of the target buffer.\<close>

record zip_lib =
  z_compress :: "mem \<Rightarrow> mem option"
  z_uncompress :: "mem \<Rightarrow> nat \<Rightarrow> mem option"

datatype compress_method = compress_method_default | cm_snappy | cm_lz4

record zip_opts =
  opt_compress :: bool
  opt_compress_ratio :: int
  opt_compress_method :: compress_method
  lib_snappy :: zip_lib
  lib_lz4 :: "zip_lib option"

definition compress_snappy :: "zip_opts \<Rightarrow> pcap_block_store \<Rightarrow> (bool \<times> pcap_block_store) outcome" where
  "compress_snappy zo st =
     obind (bs_ldn (bs_size st) (bs_block st) 0) (\<lambda>bytes.
       case z_compress (lib_snappy zo) bytes of
         Some out \<Rightarrow> Ret (True, st\<lparr>bs_block := Some out, bs_size_compress := length out\<rparr>)
       | None \<Rightarrow> Ret (False, st))"

text \<open>\<open>None\<close> for the library means that the program is built without LZ4.\<close>

definition compress_lz4 :: "zip_opts \<Rightarrow> pcap_block_store \<Rightarrow> (bool \<times> pcap_block_store) outcome" where
  "compress_lz4 zo st =
     (case lib_lz4 zo of None \<Rightarrow> Ret (False, st)
      | Some lz4 \<Rightarrow>
          obind (bs_ldn (bs_size st) (bs_block st) 0) (\<lambda>bytes.
            case z_compress lz4 bytes of
              Some out \<Rightarrow> if 0 < length out then Ret (True, st\<lparr>bs_block := Some out, bs_size_compress := length out\<rparr>) else Ret (False, st)
            | None \<Rightarrow> Ret (False, st)))"

text \<open>The blocks left uncompressed for the configured ratio: whether this one is, and the next value of the counter.\<close>

definition compress_skips :: "int \<Rightarrow> u32 \<Rightarrow> bool \<times> u32" where
  "compress_skips ratio counter =
     (if 0 < ratio \<and> ratio < 100 then
        (let r = ratio div 10 in
         if r = 0 then (counter mod 6 \<noteq> 0, counter + 1)
         else if r = 1 then (counter mod 5 \<noteq> 0, counter + 1)
         else if r = 2 then (counter mod 4 \<noteq> 0, counter + 1)
         else if r = 3 then (counter mod 3 \<noteq> 0, counter + 1)
         else if r = 5 then (counter mod 2 \<noteq> 0, counter + 1)
         else if r = 6 then (counter mod 3 = 0, counter + 1)
         else if r = 7 then (counter mod 4 = 0, counter + 1)
         else if r = 8 then (counter mod 5 = 0, counter + 1)
         else if r = 9 then (counter mod 6 = 0, counter + 1)
         else (False, counter))
      else (False, counter))"

definition bs_compress :: "zip_opts \<Rightarrow> u32 \<Rightarrow> pcap_block_store \<Rightarrow> (bool \<times> pcap_block_store \<times> u32) outcome" where
  "bs_compress zo counter st =
     (if \<not> opt_compress zo \<or> bs_size_compress st \<noteq> 0 then Ret (True, st, counter)
      else
        (let (skip, counter) = compress_skips (opt_compress_ratio zo) counter in
         if skip then Ret (True, st, counter)
         else omap (\<lambda>(ok, st). (ok, st, counter))
           (if opt_compress_method zo = cm_lz4 \<and> lib_lz4 zo \<noteq> None then compress_lz4 zo st else compress_snappy zo st)))"

text \<open>The target buffer has the size of the packets before the compression.\<close>

definition uncompress_with :: "zip_lib \<Rightarrow> (nat \<Rightarrow> u32) \<Rightarrow> mem outcome \<Rightarrow> pcap_block_store \<Rightarrow> (bool \<times> pcap_block_store) outcome" where
  "uncompress_with lib g input st =
     obind input (\<lambda>bytes.
       case z_uncompress lib bytes (bs_size st) of
         None \<Rightarrow> Ret (False, st)
       | Some out \<Rightarrow> omap (\<lambda>m. (True, st\<lparr>bs_block := Some m, bs_size_compress := 0\<rparr>)) (stn (heap_bytes g (bs_size st)) 0 out))"

definition uncompress_snappy :: "zip_opts \<Rightarrow> (nat \<Rightarrow> u32) \<Rightarrow> pcap_block_store \<Rightarrow> (bool \<times> pcap_block_store) outcome" where
  "uncompress_snappy zo g st =
     (if bs_size_compress st = 0 then Ret (True, st)
      else uncompress_with (lib_snappy zo) g (bs_ldn (bs_size_compress st) (bs_block st) 0) st)"

definition uncompress_lz4 :: "zip_opts \<Rightarrow> (nat \<Rightarrow> u32) \<Rightarrow> pcap_block_store \<Rightarrow> (bool \<times> pcap_block_store) outcome" where
  "uncompress_lz4 zo g st =
     (case lib_lz4 zo of None \<Rightarrow> Ret (False, st)
      | Some lz4 \<Rightarrow> if bs_size_compress st = 0 then Ret (True, st) else uncompress_with lz4 g (Ret (bs_mem st)) st)"

definition bs_uncompress :: "zip_opts \<Rightarrow> (nat \<Rightarrow> u32) \<Rightarrow> compress_method \<Rightarrow> pcap_block_store \<Rightarrow> (bool \<times> pcap_block_store) outcome" where
  "bs_uncompress zo g method st =
     (if bs_size_compress st = 0 then Ret (True, st)
      else
        (let m = (if method = compress_method_default then opt_compress_method zo else method) in
         if m = cm_lz4 \<and> lib_lz4 zo \<noteq> None then uncompress_lz4 zo g st else uncompress_snappy zo g st))"

section \<open>The file store\<close>

record pcap_file_store =
  fs_id :: nat
  fs_handlePush :: bool
  fs_handlePop :: bool
  fs_file :: mem
  fs_fileSize :: nat
  fs_fileSizeFlushed :: nat
  fs_countPush :: nat
  fs_countPop :: nat
  fs_full :: bool
  fs_timestampMS :: nat

definition typeHandlePush :: "32 word" where "typeHandlePush = 1"
definition typeHandlePop :: "32 word" where "typeHandlePop = 2"
definition typeHandleAll :: "32 word" where "typeHandleAll = 4"

definition file_store_new :: "nat \<Rightarrow> nat \<Rightarrow> pcap_file_store" where
  "file_store_new i now = \<lparr>fs_id = i, fs_handlePush = False, fs_handlePop = False, fs_file = [], fs_fileSize = 0,
     fs_fileSizeFlushed = 0, fs_countPush = 0, fs_countPop = 0, fs_full = False, fs_timestampMS = now\<rparr>"

text \<open>\<open>fopen\<close> for writing truncates the file; whether the call succeeds is a parameter.\<close>

definition fs_open :: "32 word \<Rightarrow> bool \<Rightarrow> pcap_file_store \<Rightarrow> bool \<times> pcap_file_store" where
  "fs_open th ok fs =
     (if (th AND typeHandlePush = 0 \<or> fs_handlePush fs) \<and> (th AND typeHandlePop = 0 \<or> fs_handlePop fs) then (True, fs)
      else
        (let (r, fs) = (if th AND typeHandlePush \<noteq> 0 then (ok, fs\<lparr>fs_handlePush := ok, fs_file := []\<rparr>) else (True, fs));
             (r, fs) = (if th AND typeHandlePop \<noteq> 0 then (r \<and> ok, fs\<lparr>fs_handlePop := ok\<rparr>) else (r, fs)) in (r, fs)))"

definition fs_close :: "32 word \<Rightarrow> pcap_file_store \<Rightarrow> pcap_file_store" where
  "fs_close th fs =
     (let fs = (if th AND typeHandlePush \<noteq> 0 then fs\<lparr>fs_handlePush := False\<rparr> else fs) in
      if th AND typeHandlePop \<noteq> 0 then fs\<lparr>fs_handlePop := False\<rparr> else fs)"

definition fs_destroy :: "pcap_file_store \<Rightarrow> pcap_file_store" where
  "fs_destroy fs = (fs_close typeHandleAll fs)\<lparr>fs_file := []\<rparr>"

definition fs_isFull :: "nat \<Rightarrow> nat \<Rightarrow> nat \<Rightarrow> bool \<Rightarrow> pcap_file_store \<Rightarrow> bool \<times> pcap_file_store" where
  "fs_isFull max_size max_time_ms now force fs =
     (if fs_full fs then (True, fs)
      else if fs_fileSize fs \<ge> max_size \<or> fs_fileSize fs \<noteq> 0 \<and> now > fs_timestampMS fs + max_time_ms \<or> fs_fileSize fs \<noteq> 0 \<and> force
      then (True, (fs_close typeHandlePush fs)\<lparr>fs_full := True\<rparr>)
      else (False, fs))"

definition isForDestroy :: "pcap_file_store \<Rightarrow> bool" where
  "isForDestroy fs = (fs_full fs \<and> fs_countPush fs = fs_countPop fs)"

definition file_write :: "nat \<Rightarrow> mem \<Rightarrow> mem \<Rightarrow> mem" where
  "file_write pos bs file = take pos file @ bs @ drop (pos + length bs) file"

text \<open>\<open>fwrite\<close> has taken \<open>written\<close> bytes of the image.\<close>

definition fs_push :: "pb_opts \<Rightarrow> (nat \<Rightarrow> u32) \<Rightarrow> u32 \<Rightarrow> bool \<Rightarrow> nat \<Rightarrow> pcap_block_store \<Rightarrow> pcap_file_store \<Rightarrow>
    (bool \<times> pcap_block_store \<times> pcap_file_store) outcome" where
  "fs_push cf g now_s open_ok written st fs =
     (let (ok, fs) = (if fs_handlePush fs then (True, fs) else fs_open typeHandlePush open_ok fs) in
      if \<not> ok then Ret (False, st, fs)
      else
        omap (\<lambda>img.
          (let old = fs_fileSize fs; n = min written (length img);
               fs = fs\<lparr>fs_file := file_write old (take n img) (fs_file fs)\<rparr> in
           if n = length img then
             (True, (freeBlock st)\<lparr>bs_idFileStore := fs_id fs, bs_filePosition := old\<rparr>,
              fs\<lparr>fs_fileSize := old + n, fs_countPush := fs_countPush fs + 1\<rparr>)
           else (False, st, fs)))
          (getSaveBuffer cf g now_s 0 st))"

text \<open>The pieces \<open>fread\<close> delivers from a position on.\<close>

function fread_chunks :: "nat \<Rightarrow> mem \<Rightarrow> mem list" where
  "fread_chunks n bs = (if bs = [] \<or> n = 0 then [] else take n bs # fread_chunks n (drop n bs))"
  by pat_completeness auto
termination by (relation "measure (\<lambda>(n, bs). length bs)") (auto simp: not_less)

declare fread_chunks.simps [simp del]

definition fs_flush :: "nat \<Rightarrow> pcap_file_store \<Rightarrow> pcap_file_store" where
  "fs_flush pos fs = (if fs_fileSizeFlushed fs \<le> pos then fs\<lparr>fs_fileSizeFlushed := fs_fileSize fs\<rparr> else fs)"

definition fs_pop :: "pb_opts \<Rightarrow> (nat \<Rightarrow> u32) \<Rightarrow> u32 \<Rightarrow> bool \<Rightarrow> mem \<Rightarrow> (nat \<times> nat \<times> nat) \<Rightarrow> pcap_block_store \<Rightarrow> pcap_file_store \<Rightarrow>
    (bool \<times> pcap_block_store \<times> pcap_file_store) outcome" where
  "fs_pop cf g now_s open_ok disk lim st fs =
     (if bs_idFileStore st = 0 then Ret (False, st, fs) else
      (let (ok, fs) = (if fs_handlePop fs then (True, fs) else fs_open typeHandlePop open_ok fs) in
       if \<not> ok then Ret (False, st, fs)
       else
         (let fs = fs_flush (bs_filePosition st) fs in
          omap (\<lambda>(rc, st).
            (let fs = fs\<lparr>fs_countPop := fs_countPop fs + 1\<rparr>; st = destroyRestoreBuffer st;
                 fs = (if fs_countPop fs = fs_countPush fs then
                         (case lim of (max_size, max_time_ms, now) \<Rightarrow>
                          (let (full, fs) = fs_isFull max_size max_time_ms now False fs in
                           if full then fs_close typeHandlePop fs else fs))
                       else fs) in
             (0 < rc, st, fs)))
            (restore_chunks cf g now_s True (fread_chunks 1000 (drop (bs_filePosition st) disk)) (destroyRestoreBuffer st)))))"


section \<open>Compressed blocks\<close>

text \<open>What a compression library documents: a compressed text is not empty and is uncompressed to the text it was made from.\<close>

definition zip_lib_ok :: "zip_lib \<Rightarrow> bool" where
  "zip_lib_ok lib = (\<forall>x out. z_compress lib x = Some out \<longrightarrow> out \<noteq> [] \<and> z_uncompress lib out (length x) = Some x)"

definition zip_used :: "zip_opts \<Rightarrow> zip_lib" where
  "zip_used zo = (case lib_lz4 zo of Some lz4 \<Rightarrow> if opt_compress_method zo = cm_lz4 then lz4 else lib_snappy zo | None \<Rightarrow> lib_snappy zo)"

text \<open>A block that holds \<open>items\<close>, possibly compressed.\<close>

definition bs_packed :: "zip_opts \<Rightarrow> pcap_block_store \<Rightarrow> pkt list \<Rightarrow> bool" where
  "bs_packed zo st items =
     (bs_content st items \<or>
      bs_size_compress st \<noteq> 0 \<and> length (bs_mem st) = bs_size_compress st \<and> z_uncompress (zip_used zo) (bs_mem st) (bs_size st) = Some (lay items) \<and>
      (\<exists>b. bs_content (st\<lparr>bs_size_compress := 0, bs_block := Some b\<rparr>) items))"

lemma packed_uncompress:
  assumes "bs_packed zo st items"
  obtains st' where "bs_uncompress zo g compress_method_default st = Ret (True, st')" "bs_content st' items"
proof (cases "bs_content st items")
  case True
  then have "bs_size_compress st = 0" by (simp add: bs_content_def)
  then show ?thesis using that [of st] True by (simp add: bs_uncompress_def)
next
  case False
  with assms obtain b where z: "bs_size_compress st \<noteq> 0" "length (bs_mem st) = bs_size_compress st"
    "z_uncompress (zip_used zo) (bs_mem st) (bs_size st) = Some (lay items)" "bs_content (st\<lparr>bs_size_compress := 0, bs_block := Some b\<rparr>) items"
    unfolding bs_packed_def by blast
  have l: "bs_size st = length (lay items)" using z(4) by (simp add: bs_content_def)
  have inp: "bs_ldn (bs_size_compress st) (bs_block st) 0 = Ret (bs_mem st)"
    using z(1,2) by (auto simp: bs_ldn_def bs_mem_def ldn_def split: option.splits)
  let ?st = "st\<lparr>bs_block := Some (lay items), bs_size_compress := 0\<rparr>"
  have "uncompress_with (zip_used zo) g (Ret (bs_mem st)) st = Ret (True, ?st)" using z(3) l by (simp add: uncompress_with_def stn_def)
  then have "bs_uncompress zo g compress_method_default st = Ret (True, ?st)"
    using z(1) inp by (auto simp: bs_uncompress_def uncompress_lz4_def uncompress_snappy_def zip_used_def Let_def split: option.splits if_splits)
  moreover have "bs_content ?st items" using z(4) l by (auto simp: bs_content_def bs_mem_def bs_ol_def)
  ultimately show ?thesis by (rule that)
qed

lemma compress_packed:
  assumes c: "bs_content st items" and z: "zip_lib_ok (zip_used zo)" and r: "bs_compress zo counter st = Ret (ok, st', counter')"
  shows "bs_packed zo st' items" "st' = st\<lparr>bs_block := bs_block st', bs_size_compress := bs_size_compress st'\<rparr>"
proof -
  have inp: "bs_ldn (bs_size st) (bs_block st) 0 = Ret (lay items)"
    using c by (auto simp: bs_content_def bs_ldn_def bs_mem_def ldn_def split: option.splits)
  have "st' = st \<or> (\<exists>out. z_compress (zip_used zo) (lay items) = Some out \<and> st' = st\<lparr>bs_block := Some out, bs_size_compress := length out\<rparr>)"
    using r inp by (auto simp: bs_compress_def compress_lz4_def compress_snappy_def zip_used_def omap_Ret_iff split: option.splits if_splits prod.splits)
  moreover have "bs_packed zo (st\<lparr>bs_block := Some out, bs_size_compress := length out\<rparr>) items" if "z_compress (zip_used zo) (lay items) = Some out" for out
  proof -
    have "bs_content (st\<lparr>bs_size_compress := 0, bs_block := Some (lay items)\<rparr>) items" using c by (auto simp: bs_content_def bs_mem_def bs_ol_def)
    then show ?thesis using that z c by (auto simp: bs_packed_def zip_lib_ok_def bs_mem_def bs_content_def)
  qed
  ultimately show "bs_packed zo st' items" "st' = st\<lparr>bs_block := bs_block st', bs_size_compress := bs_size_compress st'\<rparr>"
    using c by (auto simp: bs_packed_def)
qed

lemma restored_packed:
  assumes "bs_packed zo src items" "bs_size_packets st = 0 \<or> bs_size_packets st = packet_bytes items"
  shows "bs_packed zo (destroyRestoreBuffer (restored_block cf counter src st)) items"
proof (cases "bs_content src items")
  case True
  then show ?thesis using restored_content [OF True assms(2)] by (simp add: bs_packed_def)
next
  case False
  let ?st = "destroyRestoreBuffer (restored_block cf counter src st)"
  from False assms(1) obtain b where z: "bs_size_compress src \<noteq> 0" "length (bs_mem src) = bs_size_compress src"
    "z_uncompress (zip_used zo) (bs_mem src) (bs_size src) = Some (lay items)" "bs_content (src\<lparr>bs_size_compress := 0, bs_block := Some b\<rparr>) items"
    unfolding bs_packed_def by blast
  have m: "bs_mem ?st = bs_mem src" using z(1,2) 
    by (cases "bs_block src") (simp_all add: bs_mem_def destroyRestoreBuffer_def restored_block_def getUseSize_def)
  have "bs_content (?st\<lparr>bs_size_compress := 0, bs_block := Some b\<rparr>) items"
    using z(4) assms(2) by (auto simp: bs_content_def bs_mem_def bs_ol_def destroyRestoreBuffer_def restored_block_def)
  then show ?thesis using z m unfolding bs_packed_def by (auto simp: destroyRestoreBuffer_def restored_block_def)
qed

lemma packed_saveable:
  assumes "bs_packed zo src items" "getSizeSaveBuffer src < 2 ^ 31" "length (bs_ifname src) = 10" "0 \<in> set (bs_ifname src)"
  shows "saveable src"
  using assms unfolding bs_packed_def by (auto simp: saveable_def bs_content_def getUseSize_def bs_ol_def)


text \<open>C34: a block that is compressed, saved, received in any pieces and uncompressed again holds the packets it was filled
  with, whether this block was chosen for compression or not, when the compression library keeps its promise.\<close>

theorem compressed_block_roundtrip:
  assumes "bs_content src items" "zip_lib_ok (zip_used zo)" "bs_compress zo n src = Ret (ok, src', n')"
    and "length (bs_ifname src) = 10" "0 \<in> set (bs_ifname src)" "getSizeSaveBuffer src' < 2 ^ 31"
    and "getSaveBuffer cf g t counter src' = Ret (concat chunks)" "[] \<notin> set chunks"
    and "getSizeSaveBuffer src' \<le> opt_block_max_size cr * 10" "fs \<or> time_ok cr now_s t"
  shows "\<exists>st' st''. restore_chunks cr g' now_s fs chunks (pcap_block_store_new cr g'' now hm) = Ret (1, st') \<and>
    bs_uncompress zo g' compress_method_default st' = Ret (True, st'') \<and>
    (\<forall>i. bs_read st'' i = Ret (if i < length items then Some (items ! i) else None))"
proof -
  note p = compress_packed [OF assms(1-3)]
  have nm: "length (bs_ifname src') = 10" "0 \<in> set (bs_ifname src')" using assms(4,5) by (subst p(2), simp)+
  have sv: "saveable src'" by (rule packed_saveable [OF p(1) assms(6) nm])
  let ?st = "pcap_block_store_new cr g'' now hm"
  let ?st' = "destroyRestoreBuffer (restored_block cf counter src' ?st)"
  have img: "concat chunks = block_image cf g t counter src'" using getSaveBuffer_image [OF sv] assms(7) by simp
  have "restore_chunks cr g' now_s fs chunks ?st = Ret (1, ?st')"
  proof (rule restore_chunks_image [OF sv assms(10,8)])
    show "concat chunks = drop 0 (image_stream cf g t counter src' [])" using img by (simp add: image_stream_def)
    show "0 < getSizeSaveBuffer src'" by (simp add: getSizeSaveBuffer_def sizeof_header_def)
    show "rb_has ?st (image_seen cf g t counter src' [] fs 0)" using rb_has_new [of ?st] by (simp add: image_seen_0 block_new_destroyed)
    show "\<forall>c\<in>set chunks. getSizeSaveBuffer src' + min (length c) (length []) \<le> opt_block_max_size cr * 10" using assms(9) by simp
  qed
  moreover have "bs_packed zo ?st' items"
    by (rule restored_packed [OF p(1)]) (simp add: pcap_block_store_new_def destroyRestoreBuffer_def bs_destroy_def)
  then obtain st'' where "bs_uncompress zo g' compress_method_default ?st' = Ret (True, st'')" "bs_content st'' items"
    by (rule packed_uncompress)
  ultimately show ?thesis using bs_read_content by blast
qed

text \<open>A library that stores the text behind one byte.\<close>

definition demo_zip :: zip_lib where
  "demo_zip = \<lparr>z_compress = (\<lambda>x. Some (1 # x)), z_uncompress = (\<lambda>y n. Some (tl y))\<rparr>"

definition demo_zip_opts :: zip_opts where
  "demo_zip_opts = \<lparr>opt_compress = True, opt_compress_ratio = 0, opt_compress_method = cm_snappy, lib_snappy = demo_zip, lib_lz4 = None\<rparr>"

theorem compressed_block_roundtrip_witness:
  "\<exists>src src' a b st' st''. bs_compress demo_zip_opts 0 src = Ret (True, src', 0) \<and> bs_size_compress src' = 40 \<and>
     getSaveBuffer demo_opts (\<lambda>_. 5) 1000 7 src' = Ret (a @ b) \<and> length a = 70 \<and>
     restore_chunks demo_opts (\<lambda>_. 5) 1020 False [a, b] (pcap_block_store_new demo_opts (\<lambda>_. 5) 7 hm_plus) = Ret (1, st') \<and>
     bs_uncompress demo_zip_opts (\<lambda>_. 5) compress_method_default st' = Ret (True, st'') \<and>
     bs_read st'' 0 = Ret (Some (demo_header hm_plus 3, [1, 2, 3]))"
proof -
  obtain src where src: "bs_content src [(demo_header hm_plus 3, [1, 2, 3])]" "bs_ifname src = replicate 10 0" "bs_size src = 39" "bs_count src = 1"
    by (rule demo_block)
  have n: "length (bs_ifname src) = 10" "0 \<in> set (bs_ifname src)" using src(2) by auto
  have zl: "zip_lib_ok (zip_used demo_zip_opts)" by (simp add: zip_lib_ok_def zip_used_def demo_zip_opts_def demo_zip_def)
  define x where "x = lay [(demo_header hm_plus 3, [1, 2, 3 :: u8])]"
  have x: "length x = 39" "bs_ldn 39 (bs_block src) 0 = Ret x"
    using src(1,3) by (auto simp: x_def bs_content_def bs_ldn_def bs_mem_def ldn_def split: option.splits)
  define src' where "src' = src\<lparr>bs_block := Some (1 # x), bs_size_compress := 40\<rparr>"
  have co: "bs_compress demo_zip_opts 0 src = Ret (True, src', 0)"
    using src(1,3) x by (simp add: bs_compress_def compress_skips_def demo_zip_opts_def compress_snappy_def demo_zip_def src'_def bs_content_def)
  have sz: "getSizeSaveBuffer src' = 108" using src by (simp add: getSizeSaveBuffer_def getUseSize_def sizeof_header_def src'_def)
  have nm: "length (bs_ifname src') = 10" "0 \<in> set (bs_ifname src')" using n by (simp_all add: src'_def)
  have s: "getSizeSaveBuffer src' < 2 ^ 31" "getSizeSaveBuffer src' \<le> opt_block_max_size demo_opts * 10" using sz by (simp_all add: demo_opts_def)
  have sv: "saveable src'" by (rule packed_saveable [OF compress_packed(1) [OF src(1) zl co] s(1) nm])
  define img where "img = block_image demo_opts (\<lambda>_. 5) 1000 7 src'"
  have l: "length img = 108" using length_block_image [OF sv] sz by (simp add: img_def)
  have img: "getSaveBuffer demo_opts (\<lambda>_. 5) 1000 7 src' = Ret (concat [take 70 img, drop 70 img])"
    using getSaveBuffer_image [OF sv] by (simp add: img_def)
  have t: "False \<or> time_ok demo_opts 1020 1000" by (simp add: time_ok_def time_diff_def demo_opts_def)
  have ne: "[] \<notin> set [take 70 img, drop 70 img]" using l by auto
  have r: "getSaveBuffer demo_opts (\<lambda>_. 5) 1000 7 src' = Ret (take 70 img @ drop 70 img)" "length (take 70 img) = 70" using img l by simp_all
  have sc: "bs_size_compress src' = 40" by (simp add: src'_def)
  from compressed_block_roundtrip [OF src(1) zl co n s(1) img ne s(2) t, of "\<lambda>_. 5" "\<lambda>_. 5" 7 hm_plus]
  obtain st' st'' where st: "restore_chunks demo_opts (\<lambda>_. 5) 1020 False [take 70 img, drop 70 img] (pcap_block_store_new demo_opts (\<lambda>_. 5) 7 hm_plus) = Ret (1, st')"
    "bs_uncompress demo_zip_opts (\<lambda>_. 5) compress_method_default st' = Ret (True, st'')"
    "\<forall>i. bs_read st'' i = Ret (if i < length [(demo_header hm_plus 3, [1, 2, 3 :: u8])] then Some ([(demo_header hm_plus 3, [1, 2, 3])] ! i) else None)"
    by blast
  have "bs_read st'' 0 = Ret (Some (demo_header hm_plus 3, [1, 2, 3]))" using st(3) [rule_format, of 0] by simp
  with co sc r st(1,2) show ?thesis by blast
qed


section \<open>Blocks in a file\<close>

text \<open>The file starts with the images pushed so far, one behind the other, and the part known to be flushed ends between
  two of them.\<close>

definition fs_ok :: "pcap_file_store \<Rightarrow> mem list \<Rightarrow> bool" where
  "fs_ok fs imgs =
     (fs_fileSize fs = length (concat imgs) \<and> take (length (concat imgs)) (fs_file fs) = concat imgs \<and>
      (\<exists>k \<le> length imgs. fs_fileSizeFlushed fs = length (concat (take k imgs))) \<and> (fs_full fs \<or> fs_handlePush fs \<or> imgs = []))"

inductive fs_reach :: "pb_opts \<Rightarrow> pcap_file_store \<Rightarrow> mem list \<Rightarrow> bool" for cf where
  fs_new: "fs_reach cf (file_store_new i now) []"
| fs_pushed: "fs_reach cf fs imgs \<Longrightarrow> \<not> fs_full fs \<Longrightarrow> saveable st \<Longrightarrow> fs_push cf g t open_ok w st fs = Ret (True, st', fs') \<Longrightarrow>
    fs_reach cf fs' (imgs @ [block_image cf g t 0 st])"
| fs_push_failed: "fs_reach cf fs imgs \<Longrightarrow> \<not> fs_full fs \<Longrightarrow> saveable st \<Longrightarrow> fs_push cf g t open_ok w st fs = Ret (False, st', fs') \<Longrightarrow>
    fs_reach cf fs' imgs"
| fs_popped: "fs_reach cf fs imgs \<Longrightarrow> fs_pop cf g t open_ok disk lim st fs = Ret (ok, st', fs') \<Longrightarrow> fs_reach cf fs' imgs"
| fs_checked: "fs_reach cf fs imgs \<Longrightarrow> fs_isFull max_size max_time now force fs = (full, fs') \<Longrightarrow> fs_reach cf fs' imgs"

lemma handle_bits [simp]:
  "typeHandlePush \<noteq> 0" "typeHandlePop \<noteq> 0" "typeHandlePush AND typeHandlePop = 0" "typeHandlePop AND typeHandlePush = 0"
  "typeHandleAll AND typeHandlePush = 0" "typeHandleAll AND typeHandlePop = 0"
  by (simp_all add: typeHandlePush_def typeHandlePop_def typeHandleAll_def)

text \<open>\<open>destroy\<close> asks for all handles with the value 4, which neither of the tests in \<open>close\<close> accepts: the handles stay open.\<close>

lemma fs_destroy_keeps_handles: "fs_handlePush (fs_destroy fs) = fs_handlePush fs" "fs_handlePop (fs_destroy fs) = fs_handlePop fs"
  by (simp_all add: fs_destroy_def fs_close_def)

lemma take_file_write: "length bs = n \<Longrightarrow> pos \<le> length file \<Longrightarrow> take (pos + n) (file_write pos bs file) = take pos file @ bs"
  by (simp add: file_write_def)

lemma fs_ok_len: "fs_ok fs imgs \<Longrightarrow> fs_fileSize fs \<le> length (fs_file fs)"
  unfolding fs_ok_def by (metis length_take min.cobounded1)

lemma fs_push_facts:
  assumes ok: "fs_ok fs imgs" and nf: "\<not> fs_full fs" and sv: "saveable st" and r: "fs_push cf g t open_ok w st fs = Ret (done, st', fs')"
  shows "fs_ok fs' (if done then imgs @ [block_image cf g t 0 st] else imgs)" "fs_full fs' = fs_full fs"
    "done \<Longrightarrow> st' = (freeBlock st)\<lparr>bs_idFileStore := fs_id fs, bs_filePosition := length (concat imgs)\<rparr>" "\<not> done \<Longrightarrow> st' = st"
proof -
  define p where "p = (if fs_handlePush fs then (True, fs) else fs_open typeHandlePush open_ok fs)"
  obtain o1 fs1 where p: "p = (o1, fs1)" by (cases p)
  have fs1: "fs_ok fs1 imgs" "fs_full fs1 = fs_full fs" "fs_id fs1 = fs_id fs" "o1 \<Longrightarrow> fs_handlePush fs1"
    using p ok nf by (auto simp: p_def fs_open_def fs_ok_def split: if_splits)
  let ?img = "block_image cf g t 0 st" and ?n = "min w (length (block_image cf g t 0 st))"
  let ?fs2 = "fs1\<lparr>fs_file := file_write (fs_fileSize fs1) (take ?n ?img) (fs_file fs1)\<rparr>"
  have r': "(done, st', fs') = (if \<not> o1 then (False, st, fs1) else if ?n = length ?img
      then (True, (freeBlock st)\<lparr>bs_idFileStore := fs_id fs1, bs_filePosition := fs_fileSize fs1\<rparr>,
            ?fs2\<lparr>fs_fileSize := fs_fileSize fs1 + ?n, fs_countPush := fs_countPush fs1 + 1\<rparr>) else (False, st, ?fs2))"
    using r unfolding fs_push_def p_def [symmetric] p getSaveBuffer_image [OF sv]
    by (cases o1) (simp_all add: Let_def eq_commute [of _ "(done, st', fs')"] split del: if_split cong: if_cong)
  note l = fs_ok_len [OF fs1(1)]
  have app: "fs_ok (?fs2\<lparr>fs_fileSize := fs_fileSize fs1 + ?n, fs_countPush := c\<rparr>) (imgs @ [?img])" if "?n = length ?img" "o1" for c
  proof -
    obtain k where "k \<le> length imgs" "fs_fileSizeFlushed fs1 = length (concat (take k imgs))" using fs1(1) by (auto simp: fs_ok_def)
    then have "\<exists>k \<le> length (imgs @ [?img]). fs_fileSizeFlushed fs1 = length (concat (take k (imgs @ [?img])))" by (intro exI [of _ k]) auto
    then show ?thesis using fs1 that take_file_write [OF _ l, of ?img "length ?img"] by (simp add: fs_ok_def)
  qed
  have keep: "fs_ok ?fs2 imgs" using fs1(1) l by (auto simp: fs_ok_def file_write_def)
  show "fs_ok fs' (if done then imgs @ [?img] else imgs)" "fs_full fs' = fs_full fs"
    "done \<Longrightarrow> st' = (freeBlock st)\<lparr>bs_idFileStore := fs_id fs, bs_filePosition := length (concat imgs)\<rparr>" "\<not> done \<Longrightarrow> st' = st"
    using r' app keep fs1 by (auto split: if_splits simp: fs_ok_def)
qed

lemma fs_flush_ok: "fs_ok fs imgs \<Longrightarrow> fs_ok (fs_flush pos fs) imgs"
  by (auto simp: fs_ok_def fs_flush_def intro: exI [of _ "length imgs"])

lemma fs_isFull_ok: "fs_ok fs imgs \<Longrightarrow> fs_isFull a b c d fs = (r, fs') \<Longrightarrow> fs_ok fs' imgs"
  by (auto simp: fs_ok_def fs_isFull_def fs_close_def split: if_splits)

lemma fs_pop_ok:
  assumes ok: "fs_ok fs imgs" and r: "fs_pop cf g t open_ok disk lim st fs = Ret (b, st', fs')"
  shows "fs_ok fs' imgs"
proof -
  define p where "p = (if fs_handlePop fs then (True, fs) else fs_open typeHandlePop open_ok fs)"
  obtain o1 fs1 where p: "p = (o1, fs1)" by (cases p)
  have fs1: "fs_ok fs1 imgs" using p ok by (auto simp: p_def fs_open_def fs_ok_def split: if_splits)
  let ?fs2 = "(fs_flush (bs_filePosition st) fs1)\<lparr>fs_countPop := fs_countPop (fs_flush (bs_filePosition st) fs1) + 1\<rparr>"
  obtain a b c where lim: "lim = (a, b, c)" by (cases lim)
  obtain fu fs3 where full: "fs_isFull a b c False ?fs2 = (fu, fs3)" by force
  have fs2: "fs_ok ?fs2 imgs" using fs_flush_ok [OF fs1, of "bs_filePosition st"] by (auto simp: fs_ok_def)
  have fs3: "fs_ok fs3 imgs" by (rule fs_isFull_ok [OF fs2 full])
  then have "fs_ok (fs_close typeHandlePop fs3) imgs" by (simp add: fs_ok_def fs_close_def)
  moreover have "fs' \<in> {fs, fs1, ?fs2, fs3, fs_close typeHandlePop fs3}"
    using r p lim full by (auto simp: fs_pop_def p_def [symmetric] omap_Ret_iff Let_def split: if_splits prod.splits)
  ultimately show ?thesis using ok fs1 fs2 fs3 by blast
qed

lemma fs_reach_ok: "fs_reach cf fs imgs \<Longrightarrow> fs_ok fs imgs"
proof (induction rule: fs_reach.induct)
  case (fs_new i now)
  show ?case by (simp add: fs_ok_def file_store_new_def)
next
  case fs_pushed
  then show ?case using fs_push_facts(1) by fastforce
next
  case fs_push_failed
  then show ?case using fs_push_facts(1) by fastforce
next
  case fs_popped
  then show ?case using fs_pop_ok by blast
next
  case fs_checked
  then show ?case using fs_isFull_ok by blast
qed


lemma fread_chunks_concat: "0 < n \<Longrightarrow> concat (fread_chunks n bs) = bs"
proof (induction n bs rule: fread_chunks.induct)
  case (1 n bs)
  then show ?case by (cases "bs = []") (simp_all add: fread_chunks.simps [of n bs] fread_chunks.simps [of n "[]"])
qed

lemma fread_chunks_sizes: "c \<in> set (fread_chunks n bs) \<Longrightarrow> c \<noteq> [] \<and> length c \<le> n"
proof (induction n bs rule: fread_chunks.induct)
  case (1 n bs)
  then show ?case by (auto simp: fread_chunks.simps [of n bs] split: if_splits)
qed

lemma length_concat_take_mono: "i \<le> j \<Longrightarrow> length (concat (take i xs)) \<le> length (concat (take j xs))"
  by (metis concat_append le_add_diff_inverse length_append le_add1 take_add)

lemma concat_take_Suc: "j < length xs \<Longrightarrow> concat (take (Suc j) xs) = concat (take j xs) @ xs ! j"
  by (simp add: take_Suc_conv_app_nth)

text \<open>After the flush all of a pushed image can be read.\<close>

lemma fs_flush_covers:
  assumes ok: "fs_ok fs imgs" and j: "j < length imgs"
  defines "pos \<equiv> length (concat (take j imgs))"
  shows "pos + length (imgs ! j) \<le> fs_fileSizeFlushed (fs_flush pos fs)"
    and "fs_fileSizeFlushed (fs_flush pos fs) \<le> length (fs_file fs)"
    and "drop pos (take (pos + length (imgs ! j)) (fs_file fs)) = imgs ! j"
proof -
  have fin: "pos + length (imgs ! j) = length (concat (take (Suc j) imgs))" by (simp add: pos_def concat_take_Suc [OF j])
  have le: "length (concat (take i imgs)) \<le> length (concat imgs)" for i by (metis append_take_drop_id concat_append le_add1 length_append)
  from ok obtain k where k: "k \<le> length imgs" "fs_fileSizeFlushed fs = length (concat (take k imgs))" by (auto simp: fs_ok_def)
  note sz = fs_ok_len [OF ok]
  have fsz: "fs_fileSize fs = length (concat imgs)" "take (length (concat imgs)) (fs_file fs) = concat imgs" using ok by (auto simp: fs_ok_def)
  show "pos + length (imgs ! j) \<le> fs_fileSizeFlushed (fs_flush pos fs)"
  proof (cases "fs_fileSizeFlushed fs \<le> pos")
    case True
    then show ?thesis using fsz le [of "Suc j"] by (simp add: fs_flush_def fin)
  next
    case False
    then have "j < k" using k length_concat_take_mono [of k j imgs] unfolding pos_def by (metis not_le)
    then show ?thesis using False k length_concat_take_mono [of "Suc j" k imgs] by (simp add: fs_flush_def fin)
  qed
  show "fs_fileSizeFlushed (fs_flush pos fs) \<le> length (fs_file fs)" using k le [of k] sz fsz by (auto simp: fs_flush_def)
  have "take (length (concat (take (Suc j) imgs))) (fs_file fs) = take (length (concat (take (Suc j) imgs))) (concat imgs)"
    using fsz le [of "Suc j"] by (metis min.absorb1 take_take)
  also have "\<dots> = concat (take (Suc j) imgs)" by (metis append_eq_conv_conj append_take_drop_id concat_append)
  finally show "drop pos (take (pos + length (imgs ! j)) (fs_file fs)) = imgs ! j" unfolding fin by (simp add: pos_def concat_take_Suc [OF j])
qed

lemma fs_pop_restores:
  assumes ok: "fs_ok fs imgs" and j: "j < length imgs" "imgs ! j = block_image cf g t 0 src" and sv: "saveable src"
    and st: "bs_idFileStore st \<noteq> 0" "bs_filePosition st = length (concat (take j imgs))" and op: "fs_handlePop fs \<or> open_ok"
    and disk: "take (fs_fileSizeFlushed (fs_flush (bs_filePosition st) fs)) disk = take (fs_fileSizeFlushed (fs_flush (bs_filePosition st) fs)) (fs_file fs)"
    and max: "getSizeSaveBuffer src + 1000 \<le> opt_block_max_size cr * 10"
  shows "\<exists>fs'. fs_pop cr g' now_s open_ok disk lim st fs = Ret (True, destroyRestoreBuffer (restored_block cf 0 src (destroyRestoreBuffer st)), fs')"
proof -
  let ?pos = "bs_filePosition st" and ?img = "block_image cf g t 0 src"
  let ?fl = "fs_fileSizeFlushed (fs_flush ?pos fs)"
  note cov = fs_flush_covers [OF ok j(1), folded st(2), unfolded j(2)]
  have "take (?pos + length ?img) disk = take (?pos + length ?img) (fs_file fs)"
    using disk cov(1) by (metis min.absorb1 take_take)
  then have pre: "drop ?pos (take (?pos + length ?img) disk) = ?img" using cov(3) by simp
  define extra where "extra = drop (?pos + length ?img) disk"
  have d: "drop ?pos disk = ?img @ extra"
    using pre by (metis add.commute append_take_drop_id drop_drop extra_def drop_take diff_add_inverse)
  let ?cs = "fread_chunks 1000 (drop ?pos disk)" and ?st = "destroyRestoreBuffer st"
  have r: "restore_chunks cr g' now_s True ?cs ?st = Ret (1, destroyRestoreBuffer (restored_block cf 0 src ?st))"
  proof (rule restore_chunks_image [OF sv])
    show "True \<or> time_ok cr now_s t" "[] \<notin> set ?cs" using fread_chunks_sizes by auto
    show "concat ?cs = drop 0 (image_stream cf g t 0 src extra)" using d fread_chunks_concat [of 1000] by (simp add: image_stream_def)
    show "0 < getSizeSaveBuffer src" by (simp add: getSizeSaveBuffer_def sizeof_header_def)
    show "rb_has ?st (image_seen cf g t 0 src extra True 0)" by (simp add: image_seen_0 rb_has_new)
    show "\<forall>c\<in>set ?cs. getSizeSaveBuffer src + min (length c) (length extra) \<le> opt_block_max_size cr * 10"
      using fread_chunks_sizes [of _ 1000 "drop ?pos disk"] max by force
  qed
  have dd: "destroyRestoreBuffer (destroyRestoreBuffer s) = destroyRestoreBuffer s" for s by (simp add: destroyRestoreBuffer_def)
  obtain o1 fs1 where p: "(if fs_handlePop fs then (True, fs) else fs_open typeHandlePop open_ok fs) = (o1, fs1)" by force
  have "o1" using p op by (auto simp: fs_open_def split: if_splits)
  then show ?thesis using r st(1) by (simp add: fs_pop_def p dd Let_def)
qed


text \<open>C11: in every state the file store reaches by pushing, failing to push, popping and checking for being full, the block
  pushed as number \<open>j\<close> is found again: \<open>pop\<close> flushes when needed, reads pieces of 1000 bytes from the position kept in the
  block and restores its packets, if the read handle sees at least what has been flushed.\<close>

theorem file_store_pop:
  assumes "fs_reach cf fs imgs" "j < length imgs" "imgs ! j = block_image cf g t 0 src" "bs_content src items"
    and "length (bs_ifname src) = 10" "0 \<in> set (bs_ifname src)" "getSizeSaveBuffer src < 2 ^ 31"
    and "st = (freeBlock src)\<lparr>bs_idFileStore := n, bs_filePosition := length (concat (take j imgs))\<rparr>" "n \<noteq> 0"
    and "fs_handlePop fs \<or> open_ok" "getSizeSaveBuffer src + 1000 \<le> opt_block_max_size cr * 10"
    and "take (fs_fileSizeFlushed (fs_flush (bs_filePosition st) fs)) disk = take (fs_fileSizeFlushed (fs_flush (bs_filePosition st) fs)) (fs_file fs)"
  shows "\<exists>st' fs'. fs_pop cr g' now_s open_ok disk lim st fs = Ret (True, st', fs') \<and> bs_content st' items \<and>
    (\<forall>i. bs_read st' i = Ret (if i < length items then Some (items ! i) else None))"
proof -
  have sv: "saveable src" using content_saveable assms(4-7) by blast
  have st: "bs_idFileStore st \<noteq> 0" "bs_filePosition st = length (concat (take j imgs))" using assms(8,9) by simp_all
  have "bs_content (destroyRestoreBuffer (restored_block cf 0 src (destroyRestoreBuffer st))) items"
    by (rule restored_content [OF assms(4)]) (use assms(4,8) in \<open>auto simp: bs_content_def destroyRestoreBuffer_def freeBlock_def\<close>)
  then show ?thesis
    using fs_pop_restores [OF fs_reach_ok [OF assms(1)] assms(2,3) sv st assms(10) assms(12,11), of g' now_s lim] bs_read_content by blast
qed

theorem file_store_pop_witness:
  "\<exists>src st fs st' fs'. fs_push demo_opts (\<lambda>_. 5) 1000 True 107 src (file_store_new 1 0) = Ret (True, st, fs) \<and>
     fs_pop demo_opts (\<lambda>_. 5) 2000 True (fs_file fs) (1000000, 1000, 50) st fs = Ret (True, st', fs') \<and>
     bs_read st' 0 = Ret (Some (demo_header hm_plus 3, [1, 2, 3]))"
proof -
  obtain src where src: "bs_content src [(demo_header hm_plus 3, [1, 2, 3])]" "bs_ifname src = replicate 10 0" "bs_size src = 39" "bs_count src = 1"
    by (rule demo_block)
  have n: "length (bs_ifname src) = 10" "0 \<in> set (bs_ifname src)" using src(2) by auto
  have sz: "getSizeSaveBuffer src = 107" using src by (simp add: getSizeSaveBuffer_def getUseSize_def sizeof_header_def bs_content_def)
  have lt: "getSizeSaveBuffer src < 2 ^ 31" using sz by simp
  have sv: "saveable src" by (rule content_saveable [OF src(1) lt n])
  let ?img = "block_image demo_opts (\<lambda>_. 5) 1000 0 src"
  have l: "length ?img = 107" using length_block_image [OF sv] sz by simp
  obtain st fs where push: "fs_push demo_opts (\<lambda>_. 5) 1000 True 107 src (file_store_new 1 0) = Ret (True, st, fs)"
    using getSaveBuffer_image [OF sv, of demo_opts "\<lambda>_. 5" 1000 0] l by (simp add: fs_push_def file_store_new_def fs_open_def Let_def)
  have full: "\<not> fs_full (file_store_new 1 0)" by (simp add: file_store_new_def)
  have reach: "fs_reach demo_opts fs [?img]" using fs_pushed [OF fs_new full sv push] by simp
  have st: "st = (freeBlock src)\<lparr>bs_idFileStore := 1, bs_filePosition := length (concat (take 0 [?img]))\<rparr>"
    using fs_push_facts(3) [OF fs_reach_ok [OF fs_new] full sv push] by (simp add: file_store_new_def)
  have j: "0 < length [?img]" "[?img] ! 0 = ?img" "(1 :: nat) \<noteq> 0" by simp_all
  have m: "fs_handlePop fs \<or> True" "getSizeSaveBuffer src + 1000 \<le> opt_block_max_size demo_opts * 10" using sz by (simp_all add: demo_opts_def)
  obtain st' fs' where "fs_pop demo_opts (\<lambda>_. 5) 2000 True (fs_file fs) (1000000, 1000, 50) st fs = Ret (True, st', fs')"
    "\<forall>i. bs_read st' i = Ret (if i < length [(demo_header hm_plus 3, [1, 2, 3 :: u8])] then Some ([(demo_header hm_plus 3, [1, 2, 3])] ! i) else None)"
    using file_store_pop [OF reach j(1,2) src(1) n lt st j(3) m, of "fs_file fs" "\<lambda>_. 5" 2000 "(1000000, 1000, 50)"] by blast
  moreover from this(2) [rule_format, of 0] have "bs_read st' 0 = Ret (Some (demo_header hm_plus 3, [1, 2, 3]))" by simp
  ultimately show ?thesis using push by blast
qed

end
