(* ===== verification/VM_Mirror.thy ===== *)
theory VM_Mirror
  imports VM_BlockFile VM_SimpleBuffer
begin

text \<open>
  The receiver of a packet mirror connection (\<open>PcapQueue_readFromFifo\<close> of \<open>pcap_queue.cpp\<close>): buffers read from the socket are
  searched for the title of a block until the stream is synchronised; then their bytes are put together to blocks, which are
  checked, confirmed and pushed to the queue of the packet buffer, with several blocks or parts of blocks in one buffer. The
  detection of the sensor name and time at the begin of a connection and the waiting for room in the queue are not modelled;
  that the memory of the packet buffer is more than nine tenths full (and there is no disk buffer) is a parameter.
\<close>

section \<open>The receive loop\<close>

record mirror_conn =
  mc_block_counter :: u32
  mc_store :: pcap_block_store
  mc_require_confirmation :: int
  mc_queue :: "pcap_block_store list"
  mc_sync :: bool
  mc_carry :: mem
  mc_errors :: nat
  mc_empty :: nat
  mc_force_stop :: bool

record mirror_env =
  me_opts :: pb_opts
  me_heap :: "nat \<Rightarrow> u32"
  me_now_s :: u32
  me_now_ms :: nat
  me_send_ok :: bool
  me_heap_full :: bool

definition mirror_new_store :: "mirror_env \<Rightarrow> pcap_block_store" where
  "mirror_new_store e = pcap_block_store_new (me_opts e) (me_heap e) (me_now_ms e) hm_plus"

definition mirror_error :: "pcap_block_store \<Rightarrow> mirror_conn \<Rightarrow> mirror_conn" where
  "mirror_error st mc = mc\<lparr>mc_store := destroyRestoreBuffer st, mc_sync := True, mc_errors := mc_errors mc + 1,
     mc_force_stop := (mc_force_stop mc \<or> mc_errors mc + 1 > 20)\<rparr>"

text \<open>A complete block: the connection behind it and whether there was an error.\<close>

definition mirror_block :: "mirror_env \<Rightarrow> pcap_block_store \<Rightarrow> mirror_conn \<Rightarrow> (bool \<times> mirror_conn) outcome" where
  "mirror_block e st mc =
     obind (check_offsets st) (\<lambda>offs_ok. if \<not> offs_ok then Ret (True, mirror_error st mc) else
     obind (if bs_size_compress st = 0 then check_headers st else Ret True) (\<lambda>hdrs_ok. if \<not> hdrs_ok then Ret (True, mirror_error st mc) else
       (let confirm = (if mc_require_confirmation mc < 0 then of_bool (bs_confirm st) else mc_require_confirmation mc);
            mc = mc\<lparr>mc_require_confirmation := confirm\<rparr> in
        if confirm > 0 \<and> \<not> me_send_ok e then Ret (True, mirror_error st mc)
        else if mc_block_counter mc = bs_block_counter st then
          Ret (False, mc\<lparr>mc_store := destroyRestoreBuffer st, mc_errors := 0\<rparr>)
        else
          Ret (False, mc\<lparr>mc_block_counter := bs_block_counter st, mc_queue := mc_queue mc @ [st],
                         mc_store := mirror_new_store e, mc_errors := 0\<rparr>))))"

fun mirror_buffer :: "nat \<Rightarrow> mirror_env \<Rightarrow> mem \<Rightarrow> nat \<Rightarrow> mirror_conn \<Rightarrow> mirror_conn outcome" where
  "mirror_buffer 0 e buffer off mc = OutOfFuel"
| "mirror_buffer (Suc k) e buffer off mc =
     (if off < length buffer then
        obind (addRestoreChunk (me_opts e) (me_heap e) (me_now_s e) buffer (length buffer) (Some off) False (mc_store mc))
          (\<lambda>(rc, st, off').
             if rc > 0 then
               obind (mirror_block e st mc) (\<lambda>(err, mc).
                 if err then Ret mc else mirror_buffer k e buffer (case off' of None \<Rightarrow> 0 | Some n \<Rightarrow> n) mc)
             else if rc < 0 then Ret (mirror_error st mc)
             else Ret (mc\<lparr>mc_store := st, mc_errors := 0\<rparr>))
      else Ret mc)"

text \<open>One read from the socket. As long as the stream is not synchronised the bytes of the last read are kept in front of the
  next ones. More than 300 empty reads in a row, too many errors or a full memory end the connection.\<close>

definition mirror_read :: "mirror_env \<Rightarrow> mem \<Rightarrow> mirror_conn \<Rightarrow> mirror_conn outcome" where
  "mirror_read e bytes mc =
     (if mc_force_stop mc then Ret mc
      else if me_heap_full e then Ret (mc\<lparr>mc_force_stop := True\<rparr>)
      else if bytes = [] then
        (let n = mc_empty mc + 1 in Ret (mc\<lparr>mc_empty := n, mc_force_stop := (n > 300)\<rparr>))
      else
        (let mc = mc\<lparr>mc_empty := 0\<rparr> in
         if mc_sync mc then
           (let buffer = mc_carry mc @ bytes in
            case memmem buffer BLOCK_TITLE of
              None \<Rightarrow> Ret (mc\<lparr>mc_carry := bytes\<rparr>)
            | Some p \<Rightarrow> mirror_buffer (Suc (length buffer)) e (drop p buffer) 0
                         (mc\<lparr>mc_sync := False, mc_carry := [], mc_store := destroyRestoreBuffer (mc_store mc)\<rparr>))
         else mirror_buffer (Suc (length bytes)) e bytes 0 mc))"

fun mirror_reads :: "mirror_env \<Rightarrow> mem list \<Rightarrow> mirror_conn \<Rightarrow> mirror_conn outcome" where
  "mirror_reads e [] mc = Ret mc"
| "mirror_reads e (b # bs) mc = obind (mirror_read e b mc) (mirror_reads e bs)"

section \<open>The checks of a received block\<close>

definition header_fine :: "pkt \<Rightarrow> bool" where
  "header_fine it = (\<exists>c ip. ld32 (fst it) 8 = Ret c \<and> c \<le> 65535 \<and> ld16 (fst it) 26 = Ret ip \<and> ip \<le> 1000)"

lemma lay_take_Suc: "i < length items \<Longrightarrow> lay (take (Suc i) items) = lay (take i items) @ fst (items ! i) @ snd (items ! i)"
  by (simp add: take_Suc_conv_app_nth)

lemma content_header_len: "bs_content st items \<Longrightarrow> i < length items \<Longrightarrow> 36 \<le> length (fst (items ! i))"
  using header_size_bounds(2) [of "bs_hm st"] nth_mem [of i items] by (auto simp: bs_content_def item_ok_def)

lemma offsets_increase_content:
  assumes c: "bs_content st' items" "bs_offsets st = bs_offsets st'"
  shows "i + k < length items \<Longrightarrow> offsets_increase k i st = Ret True"
proof (induction k arbitrary: i)
  case (Suc k)
  have o: "bs_offset st j = Ret (word_of_nat (length (lay (take j items))))" "length (lay (take j items)) < 2 ^ 32" if "j < length items" for j
    using bs_content_item [OF c(1) that] c(2) by (simp_all add: bs_offset_def)
  have "fst (items ! i) \<noteq> []" using content_header_len [OF c(1), of i] Suc.prems by auto
  then have "length (lay (take i items)) < length (lay (take (i + 1) items))" using Suc.prems by (simp add: lay_take_Suc)
  then have "(word_of_nat (length (lay (take i items))) :: u32) < word_of_nat (length (lay (take (i + 1) items)))"
    using o(2) [of "i + 1"] Suc.prems by (intro word_of_nat_lessI) auto
  then show ?case using Suc o(1) [of i] o(1) [of "i + 1"] by (simp add: not_le)
qed simp

lemma check_offsets_content:
  assumes c: "bs_content st' items" "bs_offsets st = bs_offsets st'" "bs_size st = bs_size st'" "items \<noteq> []" "bs_offsets_size st = length items"
  shows "check_offsets st = Ret True"
proof -
  let ?n = "length items - 1"
  have n: "?n < length items" using c(4) by (cases items) auto
  have o: "bs_offset st ?n = Ret (word_of_nat (length (lay (take ?n items))))" "length (lay (take ?n items)) < 2 ^ 32"
    using bs_content_item [OF c(1) n] c(2) by (simp_all add: bs_offset_def)
  have "fst (items ! ?n) \<noteq> []" using content_header_len [OF c(1) n] by auto
  then have "length (lay (take ?n items)) < length (lay items)" using lay_take_Suc [OF n] n c(4) by simp
  moreover have "bs_size st = length (lay items)" using c(1,3) by (simp add: bs_content_def)
  ultimately show ?thesis using offsets_increase_content [OF c(1,2), of 0 ?n] n c(4,5) o by (simp add: check_offsets_def unat_of_nat)
qed

lemma ldn_prefix_at: "drop p m = h @ r \<Longrightarrow> k + n \<le> length h \<Longrightarrow> 0 < length h \<Longrightarrow> ldn n m (p + k) = ldn n h k"
proof -
  assume d: "drop p m = h @ r" and k: "k + n \<le> length h" and h: "0 < length h"
  have "length m - p = length h + length r" using arg_cong [OF d, of length] by simp
  then show ?thesis using k h by (cases "p \<le> length m") (auto simp: ldn_def drop_part [OF d])
qed

lemma headers_ok_content:
  assumes c: "bs_content st items" and f: "\<forall>it \<in> set items. header_fine it"
  shows "i + k \<le> length items \<Longrightarrow> headers_ok k i st = Ret True"
proof (induction k arbitrary: i)
  case (Suc k)
  then have i: "i < length items" by simp
  note o = bs_content_item [OF c i]
  obtain r where d: "drop (length (lay (take i items))) (bs_mem st) = fst (items ! i) @ snd (items ! i) @ r" using o(3) by blast
  have h: "36 \<le> length (fst (items ! i))" by (rule content_header_len [OF c i])
  then have ne: "0 < length (fst (items ! i))" by linarith
  obtain cap ip where f': "ld32 (fst (items ! i)) 8 = Ret cap" "cap \<le> 65535" "ld16 (fst (items ! i)) 26 = Ret ip" "ip \<le> 1000"
    using f nth_mem [OF i] unfolding header_fine_def by blast
  have "ld32 (bs_mem st) (length (lay (take i items)) + 8) = Ret cap" "ld16 (bs_mem st) (length (lay (take i items)) + 26) = Ret ip"
    using f' ldn_prefix_at [OF d _ ne, of 8 4] ldn_prefix_at [OF d _ ne, of 26 2] h by (simp_all add: ld32_def ld16_def)
  then show ?case using Suc f' o(1,2) by (simp add: unat_of_nat not_less)
qed simp

lemma check_headers_content: "bs_content st items \<Longrightarrow> \<forall>it \<in> set items. header_fine it \<Longrightarrow> check_headers st = Ret True"
  using headers_ok_content [of st items 0 "length items"] by (auto simp: check_headers_def bs_content_def)


section \<open>A stream of blocks\<close>

record sent_block =
  sn_block :: pcap_block_store
  sn_items :: "pkt list"
  sn_counter :: u32
  sn_time :: u32

definition sn_image :: "pb_opts \<Rightarrow> (nat \<Rightarrow> u32) \<Rightarrow> sent_block \<Rightarrow> mem" where
  "sn_image cf g s = block_image cf g (sn_time s) (sn_counter s) (sn_block s)"

definition sn_stream :: "pb_opts \<Rightarrow> (nat \<Rightarrow> u32) \<Rightarrow> sent_block list \<Rightarrow> mem" where
  "sn_stream cf g bl = concat (map (sn_image cf g) bl)"

text \<open>A block the receiver accepts: it holds packets whose headers pass the checks, and its image fits into the receive buffer
  together with a read of \<open>n\<close> bytes.\<close>

definition sn_ok :: "zip_opts \<Rightarrow> mirror_env \<Rightarrow> nat \<Rightarrow> sent_block \<Rightarrow> bool" where
  "sn_ok zo e n s =
     (bs_packed zo (sn_block s) (sn_items s) \<and> sn_items s \<noteq> [] \<and> (\<forall>it \<in> set (sn_items s). header_fine it) \<and>
      length (bs_ifname (sn_block s)) = 10 \<and> 0 \<in> set (bs_ifname (sn_block s)) \<and> getSizeSaveBuffer (sn_block s) < 2 ^ 31 \<and>
      getSizeSaveBuffer (sn_block s) + n \<le> opt_block_max_size (me_opts e) * 10 \<and> time_ok (me_opts e) (me_now_s e) (sn_time s))"

fun counters_ok :: "u32 \<Rightarrow> sent_block list \<Rightarrow> bool" where
  "counters_ok c [] = True"
| "counters_ok c (s # bl) = (sn_counter s \<noteq> c \<and> counters_ok (sn_counter s) bl)"

definition sn_delivered :: "zip_opts \<Rightarrow> sent_block \<Rightarrow> pcap_block_store \<Rightarrow> bool" where
  "sn_delivered zo s st = (bs_packed zo st (sn_items s) \<and> bs_block_counter st = sn_counter s \<and>
     bs_dlink st = bs_dlink (sn_block s) \<and> bs_sensor_id st = bs_sensor_id (sn_block s))"

text \<open>The receiver in the middle of a stream: \<open>n\<close> bytes of the first of the remaining blocks have arrived.\<close>

definition mirror_at :: "pb_opts \<Rightarrow> (nat \<Rightarrow> u32) \<Rightarrow> sent_block list \<Rightarrow> nat \<Rightarrow> mirror_conn \<Rightarrow> bool" where
  "mirror_at cf g bl n mc =
     (\<not> mc_sync mc \<and> \<not> mc_force_stop mc \<and> bs_size_packets (mc_store mc) = 0 \<and> counters_ok (mc_block_counter mc) bl \<and>
      (case bl of [] \<Rightarrow> n = 0 \<and> rb_has (mc_store mc) []
       | s # _ \<Rightarrow> n < getSizeSaveBuffer (sn_block s) \<and>
                  rb_has (mc_store mc) (image_seen cf g (sn_time s) (sn_counter s) (sn_block s) [] False n)))"

lemma sn_ok_saveable: "sn_ok zo e n s \<Longrightarrow> saveable (sn_block s)"
  unfolding sn_ok_def using packed_saveable by blast

lemma image_seen_extra:
  assumes "saveable src" "n \<le> getSizeSaveBuffer src"
  shows "image_seen cf g t counter src extra fs n = image_seen cf g t counter src [] fs n"
  using assms by (simp add: image_seen_def image_stream_def length_block_image)

lemma mirror_block_ok:
  fixes cf :: pb_opts
  assumes ok: "sn_ok zo e n s" and c: "mc_block_counter mc \<noteq> sn_counter s" and e: "me_send_ok e" and sp: "bs_size_packets st0 = 0"
  defines "st \<equiv> destroyRestoreBuffer (restored_block cf (sn_counter s) (sn_block s) st0)"
  obtains r where "mirror_block e st mc = Ret (False, mc\<lparr>mc_require_confirmation := r, mc_block_counter := sn_counter s,
      mc_queue := mc_queue mc @ [st], mc_store := mirror_new_store e, mc_errors := 0\<rparr>)" "sn_delivered zo s st"
proof -
  have pk: "bs_packed zo st (sn_items s)" unfolding st_def by (rule restored_packed) (use ok sp in \<open>auto simp: sn_ok_def\<close>)
  obtain st1 where st1: "bs_content st1 (sn_items s)" "bs_offsets st = bs_offsets st1" "bs_size st = bs_size st1"
    "bs_size_compress st = 0 \<Longrightarrow> bs_content st (sn_items s)"
  proof (cases "bs_content st (sn_items s)")
    case True
    then show ?thesis using that [of st] by simp
  next
    case False
    with pk obtain b where "bs_content (st\<lparr>bs_size_compress := 0, bs_block := Some b\<rparr>) (sn_items s)" "bs_size_compress st \<noteq> 0"
      unfolding bs_packed_def by blast
    then show ?thesis using that [of "st\<lparr>bs_size_compress := 0, bs_block := Some b\<rparr>"] by simp
  qed
  have cnt: "bs_offsets_size st = length (sn_items s)"
  proof -
    have "bs_count (sn_block s) = length (sn_items s)" using ok unfolding sn_ok_def bs_packed_def by (auto simp: bs_content_def)
    then show ?thesis by (simp add: st_def destroyRestoreBuffer_def restored_block_def)
  qed
  have co: "check_offsets st = Ret True" using check_offsets_content [OF st1(1-3) _ cnt] ok by (simp add: sn_ok_def)
  have ch: "(if bs_size_compress st = 0 then check_headers st else Ret True) = Ret True"
    using check_headers_content [OF st1(4)] ok by (simp add: sn_ok_def)
  have cn: "bs_block_counter st = sn_counter s" by (simp add: st_def destroyRestoreBuffer_def restored_block_def)
  have "sn_delivered zo s st" using pk by (simp add: sn_delivered_def st_def destroyRestoreBuffer_def restored_block_def)
  moreover have "mirror_block e st mc = Ret (False, mc\<lparr>mc_require_confirmation := (if mc_require_confirmation mc < 0 then of_bool (bs_confirm st) else mc_require_confirmation mc),
      mc_block_counter := sn_counter s, mc_queue := mc_queue mc @ [st], mc_store := mirror_new_store e, mc_errors := 0\<rparr>)"
    using co ch c e cn by (simp add: mirror_block_def Let_def)
  ultimately show thesis using that by blast
qed

lemma mirror_new_store_facts: "bs_size_packets (mirror_new_store e) = 0" "rb_has (mirror_new_store e) []"
  using rb_has_new [of "mirror_new_store e"]
  by (simp_all add: mirror_new_store_def block_new_destroyed) (simp add: pcap_block_store_new_def destroyRestoreBuffer_def bs_destroy_def)

lemma mirror_at_next: "counters_ok (mc_block_counter mc) bl \<Longrightarrow> \<not> mc_sync mc \<Longrightarrow> \<not> mc_force_stop mc \<Longrightarrow> mc_store mc = mirror_new_store e \<Longrightarrow> mirror_at cf g bl 0 mc"
  using mirror_new_store_facts [of e] by (auto simp: mirror_at_def image_seen_0 getSizeSaveBuffer_def sizeof_header_def split: list.splits)

lemma sn_stream_simps [simp]: "sn_stream cf g [] = []" "sn_stream cf g (s # bl) = sn_image cf g s @ sn_stream cf g bl"
  "sn_stream cf g (xs @ ys) = sn_stream cf g xs @ sn_stream cf g ys"
  by (simp_all add: sn_stream_def)

text \<open>One call of \<open>addRestoreChunk\<close> in the loop: the rest of the buffer ends inside the block or completes it.\<close>

lemma mirror_chunk:
  assumes ok: "sn_ok zo e (length buffer) s" and at: "mirror_at cf g (s # bl) n mc" and szb: "length buffer = off + k" and k: "0 < k"
    and b: "drop off buffer = take k (drop n (sn_stream cf g (s # bl)))" and le: "n + k \<le> length (sn_stream cf g (s # bl))"
  shows "n + k < getSizeSaveBuffer (sn_block s) \<Longrightarrow>
      \<exists>st'. addRestoreChunk (me_opts e) (me_heap e) (me_now_s e) buffer (length buffer) (Some off) False (mc_store mc) = Ret (0, st', Some off) \<and>
        mirror_at cf g (s # bl) (n + k) (mc\<lparr>mc_store := st', mc_errors := 0\<rparr>)"
    and "getSizeSaveBuffer (sn_block s) \<le> n + k \<Longrightarrow>
      addRestoreChunk (me_opts e) (me_heap e) (me_now_s e) buffer (length buffer) (Some off) False (mc_store mc) =
      Ret (1, destroyRestoreBuffer (restored_block cf (sn_counter s) (sn_block s) (mc_store mc)), Some (length buffer - (n + k - getSizeSaveBuffer (sn_block s))))"
proof -
  let ?src = "sn_block s" and ?N = "getSizeSaveBuffer (sn_block s)" and ?ex = "sn_stream cf g bl"
  note sv = sn_ok_saveable [OF ok]
  note ex = image_seen_extra [OF sv, of _ cf g "sn_time s" "sn_counter s" ?ex False]
  have n: "n < ?N" and h: "rb_has (mc_store mc) (image_seen cf g (sn_time s) (sn_counter s) ?src ?ex False n)"
    using at ex [of n] by (auto simp: mirror_at_def)
  have S: "image_stream cf g (sn_time s) (sn_counter s) ?src ?ex = sn_stream cf g (s # bl)" by (simp add: image_stream_def sn_image_def)
  have le': "n + k \<le> ?N + length ?ex" using le by (simp add: sn_image_def length_block_image [OF sv])
  have mx: "n + k \<le> opt_block_max_size (me_opts e) * 10" using ok n szb by (auto simp: sn_ok_def)
  have ld: "ldn k buffer off = Ret (take k (drop n (image_stream cf g (sn_time s) (sn_counter s) ?src ?ex)))"
    using szb by (simp add: ldn_def S b del: sn_stream_simps)
  have tm: "False \<or> time_ok (me_opts e) (me_now_s e) (sn_time s)" using ok by (simp add: sn_ok_def)
  note step = chunk_received [OF sv h n le' mx ld k szb _ tm, of "Some off" "me_heap e", simplified]
  show "\<exists>st'. addRestoreChunk (me_opts e) (me_heap e) (me_now_s e) buffer (length buffer) (Some off) False (mc_store mc) = Ret (0, st', Some off) \<and>
        mirror_at cf g (s # bl) (n + k) (mc\<lparr>mc_store := st', mc_errors := 0\<rparr>)" if lt: "n + k < ?N"
  proof -
    obtain st' where st': "addRestoreChunk (me_opts e) (me_heap e) (me_now_s e) buffer (length buffer) (Some off) False (mc_store mc) = Ret (0, st', Some off)"
      "rb_has st' (image_seen cf g (sn_time s) (sn_counter s) ?src ?ex False (n + k))" "st' = with_restore st' (mc_store mc)"
      using step(1) lt by blast
    have "bs_size_packets st' = bs_size_packets (mc_store mc)" by (subst st'(3)) (simp add: with_restore_def)
    then show ?thesis using at lt st'(1,2) ex [of "n + k"] by (simp add: mirror_at_def)
  qed
  show "addRestoreChunk (me_opts e) (me_heap e) (me_now_s e) buffer (length buffer) (Some off) False (mc_store mc) =
      Ret (1, destroyRestoreBuffer (restored_block cf (sn_counter s) ?src (mc_store mc)), Some (length buffer - (n + k - ?N)))" if "?N \<le> n + k"
    using step(2) that by simp
qed

lemma drop_take_later: "n \<le> N \<Longrightarrow> drop (N - n) (take k (drop n xs)) = take (n + k - N) (drop N xs)"
  by (simp add: drop_take add.commute)

definition mirror_progress :: "zip_opts \<Rightarrow> pb_opts \<Rightarrow> (nat \<Rightarrow> u32) \<Rightarrow> sent_block list \<Rightarrow> nat \<Rightarrow> mirror_conn \<Rightarrow> mirror_conn \<Rightarrow> bool" where
  "mirror_progress zo cf g bl m mc mc' =
     (\<exists>got bl' n' qs. bl = got @ bl' \<and> mirror_at cf g bl' n' mc' \<and> m = length (sn_stream cf g got) + n' \<and>
        mc_queue mc' = mc_queue mc @ qs \<and> list_all2 (sn_delivered zo) got qs)"

lemma mirror_progress_none: "mirror_at cf g bl m mc' \<Longrightarrow> mc_queue mc' = mc_queue mc \<Longrightarrow> mirror_progress zo cf g bl m mc mc'"
  unfolding mirror_progress_def by (intro exI [of _ "[]"] exI [of _ bl] exI [of _ m]) simp

lemma mirror_progress_Cons:
  assumes "mirror_progress zo cf g bl m mc1 mc'" "mc_queue mc1 = mc_queue mc @ [st]" "sn_delivered zo s st"
  shows "mirror_progress zo cf g (s # bl) (length (sn_image cf g s) + m) mc mc'"
proof -
  obtain got bl' n' qs where "bl = got @ bl'" "mirror_at cf g bl' n' mc'" "m = length (sn_stream cf g got) + n'"
    "mc_queue mc' = mc_queue mc1 @ qs" "list_all2 (sn_delivered zo) got qs" using assms(1) unfolding mirror_progress_def by blast
  then show ?thesis unfolding mirror_progress_def using assms(2,3)
    by (intro exI [of _ "s # got"] exI [of _ bl'] exI [of _ n'] exI [of _ "st # qs"]) simp
qed

lemma mirror_buffer_ok:
  assumes "\<forall>s \<in> set bl. sn_ok zo e (length buffer) s" "me_send_ok e" "mirror_at cf g bl n mc" "length buffer = off + k" "k < fuel"
    and "drop off buffer = take k (drop n (sn_stream cf g bl))" "n + k \<le> length (sn_stream cf g bl)"
  shows "\<exists>mc'. mirror_buffer fuel e buffer off mc = Ret mc' \<and> mirror_progress zo cf g bl (n + k) mc mc'"
  using assms
proof (induction bl arbitrary: n mc off fuel k)
  case Nil
  then have "k = 0" "n = 0" by (auto simp: mirror_at_def)
  moreover obtain j where "fuel = Suc j" using Nil.prems(5) by (cases fuel) auto
  ultimately show ?case using Nil.prems(3,4) mirror_progress_none [of cf g "[]" 0 mc mc zo] by simp
next
  case (Cons s bl)
  obtain fu where fu: "fuel = Suc fu" using Cons.prems(5) by (cases fuel) auto
  have ok: "sn_ok zo e (length buffer) s" using Cons.prems(1) by simp
  let ?N = "getSizeSaveBuffer (sn_block s)"
  have lS: "length (sn_image cf g s) = ?N" by (simp add: sn_image_def length_block_image [OF sn_ok_saveable [OF ok]])
  have n: "n < ?N" using Cons.prems(3) by (simp add: mirror_at_def)
  note step = mirror_chunk [OF ok Cons.prems(3,4) _ Cons.prems(6,7)]
  consider "k = 0" | "0 < k" "n + k < ?N" | "0 < k" "?N \<le> n + k" by linarith
  then show ?case
  proof cases
    case 1
    then show ?thesis using fu Cons.prems(3,4) mirror_progress_none [of cf g "s # bl" n mc mc zo] by simp
  next
    case 2
    then obtain st' where st': "addRestoreChunk (me_opts e) (me_heap e) (me_now_s e) buffer (length buffer) (Some off) False (mc_store mc) = Ret (0, st', Some off)"
      "mirror_at cf g (s # bl) (n + k) (mc\<lparr>mc_store := st', mc_errors := 0\<rparr>)" using step(1) by blast
    then have "mirror_buffer fuel e buffer off mc = Ret (mc\<lparr>mc_store := st', mc_errors := 0\<rparr>)" using fu 2 Cons.prems(4) by simp
    then show ?thesis using mirror_progress_none [OF st'(2), of mc] by simp
  next
    case 3
    let ?st = "destroyRestoreBuffer (restored_block cf (sn_counter s) (sn_block s) (mc_store mc))"
    have at: "mc_block_counter mc \<noteq> sn_counter s" "bs_size_packets (mc_store mc) = 0" "counters_ok (sn_counter s) bl" "\<not> mc_sync mc" "\<not> mc_force_stop mc"
      using Cons.prems(3) by (auto simp: mirror_at_def)
    obtain r where mb: "mirror_block e ?st mc = Ret (False, mc\<lparr>mc_require_confirmation := r, mc_block_counter := sn_counter s,
        mc_queue := mc_queue mc @ [?st], mc_store := mirror_new_store e, mc_errors := 0\<rparr>)" "sn_delivered zo s ?st"
      using mirror_block_ok [OF ok at(1) Cons.prems(2) at(2)] by blast
    define mc1 where "mc1 = mc\<lparr>mc_require_confirmation := r, mc_block_counter := sn_counter s,
        mc_queue := mc_queue mc @ [?st], mc_store := mirror_new_store e, mc_errors := 0\<rparr>"
    let ?off = "length buffer - (n + k - ?N)"
    have "drop ?off buffer = drop (?N - n) (drop off buffer)" using n 3 Cons.prems(4) by (simp add: add.commute)
    also have "\<dots> = take (n + k - ?N) (sn_stream cf g bl)"
      unfolding Cons.prems(6) drop_take_later [OF less_imp_le [OF n]] using lS by simp
    finally have d: "drop ?off buffer = take (n + k - ?N) (drop 0 (sn_stream cf g bl))" by simp
    have a1: "mirror_at cf g bl 0 mc1" by (rule mirror_at_next) (use at in \<open>simp_all add: mc1_def\<close>)
    have "\<exists>mc'. mirror_buffer fu e buffer ?off mc1 = Ret mc' \<and> mirror_progress zo cf g bl (0 + (n + k - ?N)) mc1 mc'"
      by (rule Cons.IH [OF _ Cons.prems(2) a1 _ _ d]) (use Cons.prems fu n 3 lS in auto)
    then obtain mc' where mc': "mirror_buffer fu e buffer ?off mc1 = Ret mc'" "mirror_progress zo cf g bl (n + k - ?N) mc1 mc'" by auto
    have "mirror_buffer fuel e buffer off mc = Ret mc'" using fu 3 Cons.prems(4) step(2) mb(1) mc'(1) by (simp add: mc1_def)
    moreover have "mirror_progress zo cf g (s # bl) (n + k) mc mc'"
      using mirror_progress_Cons [OF mc'(2) _ mb(2), of mc] 3 lS by (simp add: mc1_def)
    ultimately show ?thesis by blast
  qed
qed


lemma sn_ok_mono: "sn_ok zo e m s \<Longrightarrow> n \<le> m \<Longrightarrow> sn_ok zo e n s"
  by (auto simp: sn_ok_def)

text \<open>No more than 300 empty reads in a row.\<close>

fun few_empty :: "nat \<Rightarrow> mem list \<Rightarrow> bool" where
  "few_empty n [] = True"
| "few_empty n (c # cs) = (if c = [] then n + 1 \<le> 300 \<and> few_empty (n + 1) cs else few_empty 0 cs)"

lemma mirror_block_empty: "mirror_block e st mc = Ret (err, mc') \<Longrightarrow> mc_empty mc' = mc_empty mc"
  by (auto simp: mirror_block_def mirror_error_def obind_Ret_iff Let_def split: if_splits)

lemma mirror_buffer_empty: "mirror_buffer k e buffer off mc = Ret mc' \<Longrightarrow> mc_empty mc' = mc_empty mc"
proof (induction k arbitrary: off mc)
  case (Suc k)
  show ?case
  proof (cases "off < length buffer")
    case True
    then obtain rc st off' where a: "addRestoreChunk (me_opts e) (me_heap e) (me_now_s e) buffer (length buffer) (Some off) False (mc_store mc) = Ret (rc, st, off')"
      using Suc.prems by (auto simp: obind_Ret_iff)
    show ?thesis
    proof (cases "rc > 0")
      case True
      then obtain err mc1 where b: "mirror_block e st mc = Ret (err, mc1)" using Suc.prems a \<open>off < length buffer\<close> by (auto simp: obind_Ret_iff)
      show ?thesis using Suc.prems a b True \<open>off < length buffer\<close> Suc.IH [of _ mc1] mirror_block_empty [OF b] by (cases err) auto
    qed (use Suc.prems a \<open>off < length buffer\<close> in \<open>auto simp: mirror_error_def split: if_splits\<close>)
  qed (use Suc.prems in auto)
qed simp

lemma mirror_at_empty [simp]: "mirror_at cf g bl n (mc\<lparr>mc_empty := k\<rparr>) = mirror_at cf g bl n mc"
  by (simp add: mirror_at_def split: list.splits)

lemma mirror_reads_ok:
  assumes "\<forall>s \<in> set bl. sn_ok zo e m s" "me_send_ok e" "mirror_at cf g bl n mc" "concat reads = drop n (sn_stream cf g bl)"
    and "\<forall>c \<in> set reads. length c \<le> m" "\<not> me_heap_full e" "few_empty (mc_empty mc) reads"
  shows "\<exists>mc' qs. mirror_reads e reads mc = Ret mc' \<and> mirror_at cf g [] 0 mc' \<and> mc_queue mc' = mc_queue mc @ qs \<and> list_all2 (sn_delivered zo) bl qs"
  using assms
proof (induction reads arbitrary: bl n mc)
  case Nil
  have "bl = []"
  proof (rule ccontr)
    assume "bl \<noteq> []"
    then obtain s bl' where bl: "bl = s # bl'" by (cases bl) auto
    have "length (sn_image cf g s) = getSizeSaveBuffer (sn_block s)"
      using length_block_image [OF sn_ok_saveable, of zo e m s] Nil.prems(1) bl by (simp add: sn_image_def)
    then show False using Nil.prems(3,4) bl by (auto simp: mirror_at_def)
  qed
  then show ?case using Nil.prems(3) by (auto simp: mirror_at_def)
next
  case (Cons c cs)
  show ?case
  proof (cases "c = []")
    case True
    have stop: "\<not> mc_force_stop mc" using Cons.prems(3) by (simp add: mirror_at_def)
    define mc0 where "mc0 = mc\<lparr>mc_empty := mc_empty mc + 1, mc_force_stop := False\<rparr>"
    have "mirror_at cf g bl n mc0" using Cons.prems(3) by (auto simp: mc0_def mirror_at_def split: list.splits)
    moreover have "mirror_read e c mc = Ret mc0" "few_empty (mc_empty mc0) cs" using True stop Cons.prems(6,7) by (auto simp: mirror_read_def mc0_def Let_def)
    moreover have "mc_queue mc0 = mc_queue mc" by (simp add: mc0_def)
    ultimately show ?thesis using Cons.IH [OF Cons.prems(1,2), of n mc0] Cons.prems(4-6) True by simp
  next
    case False
    have app: "c @ concat cs = drop n (sn_stream cf g bl)" using Cons.prems(4) by simp
    have le: "n + length c \<le> length (sn_stream cf g bl)" using arg_cong [OF app, of length] False by (cases c) auto
    have c: "drop 0 c = take (length c) (drop n (sn_stream cf g bl))" using app by (metis append_eq_conv_conj drop0)
    have oks: "\<forall>s \<in> set bl. sn_ok zo e (length c) s" using Cons.prems(1,5) sn_ok_mono by auto
    have at0: "mirror_at cf g bl n (mc\<lparr>mc_empty := 0\<rparr>)" using Cons.prems(3) by simp
    obtain mc1 where mc1: "mirror_buffer (Suc (length c)) e c 0 (mc\<lparr>mc_empty := 0\<rparr>) = Ret mc1" "mirror_progress zo cf g bl (n + length c) (mc\<lparr>mc_empty := 0\<rparr>) mc1"
      using mirror_buffer_ok [OF oks Cons.prems(2) at0 _ _ c le, of "Suc (length c)"] by (auto simp del: mirror_buffer.simps)
    then obtain got bl' n' qs where p: "bl = got @ bl'" "mirror_at cf g bl' n' mc1" "n + length c = length (sn_stream cf g got) + n'"
      "mc_queue mc1 = mc_queue mc @ qs" "list_all2 (sn_delivered zo) got qs" unfolding mirror_progress_def by auto
    have e1: "few_empty (mc_empty mc1) cs" using mirror_buffer_empty [OF mc1(1)] Cons.prems(7) False by simp
    have "concat cs = drop (n + length c) (sn_stream cf g bl)" using app by (metis add.commute append_eq_conv_conj drop_drop)
    then have rest: "concat cs = drop n' (sn_stream cf g bl')" using p(1,3) by simp
    obtain mc' qs' where mc': "mirror_reads e cs mc1 = Ret mc'" "mirror_at cf g [] 0 mc'" "mc_queue mc' = mc_queue mc1 @ qs'" "list_all2 (sn_delivered zo) bl' qs'"
      using Cons.IH [OF _ Cons.prems(2) p(2) rest _ Cons.prems(6) e1] Cons.prems(1,5) p(1) by auto
    have "mirror_read e c mc = Ret mc1" using Cons.prems(3,6) mc1(1) False by (simp add: mirror_read_def mirror_at_def Let_def del: mirror_buffer.simps)
    then show ?thesis using mc' p(1,4) list_all2_appendI [OF p(5) mc'(4)] by auto
  qed
qed

text \<open>The first read synchronises the stream when it holds the title.\<close>

lemma memmem_prefix: "memmem (xs @ ys) xs = Some 0"
proof -
  have "[0..<Suc (length (xs @ ys))] = 0 # [1..<Suc (length (xs @ ys))]" by (subst upt_rec) simp
  then show ?thesis by (simp add: memmem_def del: upt_Suc)
qed

lemma mirror_sync_start:
  assumes "mc_sync mc" "mc_carry mc = []" "\<not> mc_force_stop mc" "bs_size_packets (mc_store mc) = 0" "counters_ok (mc_block_counter mc) bl"
    and "c \<noteq> []" "take 16 c = BLOCK_TITLE" "\<not> me_heap_full e"
  shows "\<exists>mc1. mirror_read e c mc = mirror_read e c mc1 \<and> mirror_at cf g bl 0 mc1 \<and> mc_queue mc1 = mc_queue mc"
proof -
  let ?mc = "mc\<lparr>mc_empty := 0, mc_sync := False, mc_carry := [], mc_store := destroyRestoreBuffer (mc_store mc)\<rparr>"
  have "memmem c BLOCK_TITLE = Some 0" using memmem_prefix [of BLOCK_TITLE "drop 16 c"] assms(7) by (metis append_take_drop_id)
  then have "mirror_read e c mc = mirror_read e c ?mc" using assms(1-3,6,8) by (cases mc) (simp add: mirror_read_def Let_def del: mirror_buffer.simps)
  moreover have "mirror_at cf g bl 0 ?mc"
    using assms rb_has_new by (auto simp: mirror_at_def image_seen_0 getSizeSaveBuffer_def sizeof_header_def destroyRestoreBuffer_def rb_has_Nil split: list.splits)
  ultimately show ?thesis by force
qed

lemma sn_stream_title: "bl \<noteq> [] \<Longrightarrow> \<forall>s \<in> set bl. sn_ok zo e m s \<Longrightarrow> take 16 (sn_stream cf g bl) = BLOCK_TITLE"
  by (cases bl) (simp_all add: sn_image_def block_image_def save_header_def)

text \<open>C7: a connection whose first read holds at least the 16 bytes of a block title delivers every block of the stream exactly once
  and in order, with its packets, link type and sensor, wherever the rest of the stream is cut into reads and whether its blocks are
  compressed or not, as long as consecutive blocks carry different counters, at most 300 reads in a row are empty and the memory of
  the packet buffer is not full; the connection is still open and synchronised afterwards.\<close>

theorem mirror_stream_delivered:
  assumes "\<forall>s \<in> set bl. sn_ok zo e m s" "me_send_ok e" "\<not> me_heap_full e" "concat (c # reads) = sn_stream cf g bl" "\<forall>c \<in> set (c # reads). length c \<le> m"
    and "16 \<le> length c" "few_empty 0 reads" "mc_sync mc" "mc_carry mc = []" "\<not> mc_force_stop mc" "mc_store mc = mirror_new_store e"
    and "counters_ok (mc_block_counter mc) bl"
  shows "\<exists>mc' qs. mirror_reads e (c # reads) mc = Ret mc' \<and> mc_queue mc' = mc_queue mc @ qs \<and> list_all2 (sn_delivered zo) bl qs \<and>
    \<not> mc_sync mc' \<and> \<not> mc_force_stop mc'"
proof -
  have ne: "c \<noteq> []" "bl \<noteq> []" using assms(4,6) by auto
  have "take 16 c = take 16 (sn_stream cf g bl)" using assms(4,6) by (metis concat.simps(2) le_iff_add take_append append_Nil2 diff_is_0_eq take0)
  then have t: "take 16 c = BLOCK_TITLE" using sn_stream_title [OF ne(2) assms(1)] by simp
  have sp: "bs_size_packets (mc_store mc) = 0" using assms(11) mirror_new_store_facts by simp
  obtain mc1 where mc1: "mirror_read e c mc = mirror_read e c mc1" "mirror_at cf g bl 0 mc1" "mc_queue mc1 = mc_queue mc"
    using mirror_sync_start [OF assms(8-10) sp assms(12) ne(1) t assms(3)] by blast
  have "concat (c # reads) = drop 0 (sn_stream cf g bl)" "few_empty (mc_empty mc1) (c # reads)" using assms(4,7) ne(1) by simp_all
  from mirror_reads_ok [OF assms(1,2) mc1(2) this(1) assms(5,3) this(2)]
  obtain mc' qs where "mirror_reads e (c # reads) mc1 = Ret mc'" "mirror_at cf g [] 0 mc'" "mc_queue mc' = mc_queue mc1 @ qs" "list_all2 (sn_delivered zo) bl qs"
    by blast
  then show ?thesis using mc1(1,3) by (auto simp: mirror_at_def)
qed

text \<open>The 301st empty read in a row ends the connection.\<close>

lemma mirror_empty_reads_close:
  assumes "\<not> me_heap_full e" "\<not> mc_force_stop mc" "mc_empty mc = 0"
  shows "mirror_reads e (replicate 301 []) mc = Ret (mc\<lparr>mc_empty := 301, mc_force_stop := True\<rparr>)"
proof -
  have "mirror_reads e (replicate n []) mc' = Ret (mc'\<lparr>mc_empty := mc_empty mc' + n\<rparr>)" if "mc_empty mc' + n \<le> 300" "\<not> mc_force_stop mc'" for n mc'
    using that
  proof (induction n arbitrary: mc')
    case (Suc n)
    then show ?case using assms(1) by (simp add: mirror_read_def Let_def)
  qed simp
  from this [of mc 300] have "mirror_reads e (replicate 300 []) mc = Ret (mc\<lparr>mc_empty := 300\<rparr>)" using assms(2,3) by simp
  moreover have "mirror_reads e (xs @ ys) mc = obind (mirror_reads e xs mc) (mirror_reads e ys)" for xs ys
  proof (induction xs arbitrary: mc)
    case (Cons x xs)
    then show ?case by (cases "mirror_read e x mc") simp_all
  qed simp
  ultimately have "mirror_reads e (replicate 300 [] @ [[]]) mc = mirror_reads e [[]] (mc\<lparr>mc_empty := 300\<rparr>)" by simp
  also have "\<dots> = Ret (mc\<lparr>mc_empty := 301, mc_force_stop := True\<rparr>)" using assms(1,2) by (simp add: mirror_read_def Let_def)
  finally show ?thesis by (simp add: replicate_append_same flip: replicate_Suc)
qed


lemma demo_header_fine: "header_fine (demo_header hm_plus 3, p)"
proof -
  have "drop 8 (demo_header hm_plus 3) = word_le 4 (3 :: u32) @ replicate 24 0"
    by (simp add: demo_header_def header_size_def plus_size_def)
  then have "ld32 (demo_header hm_plus 3) 8 = Ret 3" using ld_at(1) [of 8 "demo_header hm_plus 3" "word_le 4 (3 :: u32)"] by simp
  moreover have "ld16 (demo_header hm_plus 3) 26 = Ret 0"
    by (simp add: ld16_def ldn_def demo_header_def header_size_def plus_size_def le_word_def le_nat_zeros)
  ultimately show ?thesis by (auto simp: header_fine_def)
qed

definition demo_env :: mirror_env where
  "demo_env = \<lparr>me_opts = demo_opts, me_heap = (\<lambda>_. 5), me_now_s = 1020, me_now_ms = 7, me_send_ok = True, me_heap_full = False\<rparr>"

definition demo_conn :: mirror_conn where
  "demo_conn = \<lparr>mc_block_counter = 0, mc_store = mirror_new_store demo_env, mc_require_confirmation = - 1, mc_queue = [],
     mc_sync = True, mc_carry = [], mc_errors = 0, mc_empty = 0, mc_force_stop = False\<rparr>"

theorem mirror_stream_delivered_witness:
  "\<exists>src c r mc'. concat [c, [], r] = block_image demo_opts (\<lambda>_. 5) 1000 1 src @ block_image demo_opts (\<lambda>_. 5) 1001 2 src \<and> length c = 150 \<and>
     mirror_reads demo_env [c, [], r] demo_conn = Ret mc' \<and> length (mc_queue mc') = 2"
proof -
  obtain src where src: "bs_content src [(demo_header hm_plus 3, [1, 2, 3])]" "bs_ifname src = replicate 10 0" "bs_size src = 39" "bs_count src = 1"
    by (rule demo_block)
  define bl where "bl = [\<lparr>sn_block = src, sn_items = [(demo_header hm_plus 3, [1, 2, 3])], sn_counter = 1, sn_time = 1000\<rparr>,
    \<lparr>sn_block = src, sn_items = [(demo_header hm_plus 3, [1, 2, 3])], sn_counter = 2, sn_time = 1001\<rparr>]"
  have sz: "getSizeSaveBuffer src = 107" using src by (simp add: getSizeSaveBuffer_def getUseSize_def sizeof_header_def bs_content_def)
  have ok: "\<forall>s \<in> set bl. sn_ok demo_zip_opts demo_env 150 s"
    using src sz demo_header_fine by (simp add: bl_def sn_ok_def bs_packed_def demo_env_def demo_opts_def time_ok_def time_diff_def)
  have sv: "saveable src" using sn_ok_saveable [OF ok [rule_format, of "bl ! 0"]] by (simp add: bl_def)
  have S: "sn_stream demo_opts (\<lambda>_. 5) bl = block_image demo_opts (\<lambda>_. 5) 1000 1 src @ block_image demo_opts (\<lambda>_. 5) 1001 2 src"
    by (simp add: bl_def sn_image_def)
  let ?S = "sn_stream demo_opts (\<lambda>_. 5) bl"
  have l: "length ?S = 214" using S sz length_block_image [OF sv] by simp
  have cat: "concat [take 150 ?S, [], drop 150 ?S] = ?S" by simp
  have m: "\<forall>c \<in> set [take 150 ?S, [], drop 150 ?S]. length c \<le> 150" "16 \<le> length (take 150 ?S)" using l by auto
  have fe: "\<not> me_heap_full demo_env" "few_empty 0 [[], drop 150 ?S]" by (simp_all add: demo_env_def)
  have st: "me_send_ok demo_env" "mc_sync demo_conn" "mc_carry demo_conn = []" "\<not> mc_force_stop demo_conn" "mc_store demo_conn = mirror_new_store demo_env"
    "counters_ok (mc_block_counter demo_conn) bl" by (simp_all add: demo_env_def demo_conn_def bl_def)
  obtain mc' qs where mc': "mirror_reads demo_env [take 150 ?S, [], drop 150 ?S] demo_conn = Ret mc'" "mc_queue mc' = mc_queue demo_conn @ qs"
      "list_all2 (sn_delivered demo_zip_opts) bl qs"
    using mirror_stream_delivered [OF ok st(1) fe(1) cat m fe(2) st(2-6)] by blast
  have "length (mc_queue mc') = 2" using mc'(2) list_all2_lengthD [OF mc'(3)] by (simp add: demo_conn_def bl_def)
  moreover have "length (take 150 ?S) = 150" using l by simp
  ultimately show ?thesis using mc'(1) cat S by metis
qed


text \<open>While the stream is not synchronised only the bytes of the last read are kept: a title that arrives in three reads is
  not found, and the block it starts is lost.\<close>

lemma mirror_title_in_three_reads:
  assumes "mc_sync mc" "mc_carry mc = []" "\<not> mc_force_stop mc" "\<not> me_heap_full e" "mc_empty mc = 0"
  shows "mirror_reads e [take 5 BLOCK_TITLE, take 5 (drop 5 BLOCK_TITLE), drop 10 BLOCK_TITLE] mc = Ret (mc\<lparr>mc_carry := drop 10 BLOCK_TITLE\<rparr>)"
proof -
  have "memmem (take 5 BLOCK_TITLE) BLOCK_TITLE = None" "memmem (take 10 BLOCK_TITLE) BLOCK_TITLE = None" "memmem (drop 5 BLOCK_TITLE) BLOCK_TITLE = None"
    by (simp_all add: memmem_def BLOCK_TITLE_def)
  then show ?thesis using assms by (simp add: mirror_read_def BLOCK_TITLE_def)
qed

end
