(* ===== verification/VM_Buffers.thy ===== *)
theory VM_Buffers
  imports VM_BlockFile
begin

text \<open>
  The memory of the packet buffer: the counters of \<open>cBuffersControl\<close> (\<open>buffers_control.h\<close>), the blocks that wait for their packets
  to be processed (\<open>blockStoreTrash\<close>) and the blocks kept for reuse (\<open>blockStorePool\<close>) of \<open>PcapQueue_readFromFifo\<close>. A counter
  is a 64-bit word. The comparisons with \<open>max_buffer_mem_own_use * 0.9\<close> and \<open>* 0.1\<close>, floating-point in the code, are written with
  whole numbers, which gives the same answer below \<open>2 ^ 49\<close> bytes. The percentages and the text for the log are left out.
\<close>

section \<open>The counters\<close>

record buffers_control =
  max_buffer_mem :: u64
  max_buffer_mem_own_use :: u64
  max_buffer_mem_other_uses :: u64
  pb_used_size :: u64
  pb_used_dequeu_size :: u64
  pb_trash_size :: u64
  pb_pool_size :: u64
  asyncwrite_size :: u64
  pb_trash_minTime :: u64
  pb_trash_maxTime :: u64
  dequeu_time :: u32

definition buffers_control_new :: buffers_control where
  "buffers_control_new = \<lparr>max_buffer_mem = 0, max_buffer_mem_own_use = 0, max_buffer_mem_other_uses = 0, pb_used_size = 0,
     pb_used_dequeu_size = 0, pb_trash_size = 0, pb_pool_size = 0, asyncwrite_size = 0, pb_trash_minTime = - 1, pb_trash_maxTime = - 1,
     dequeu_time = 0\<rparr>"

definition setMaxBufferMemMB :: "u32 \<Rightarrow> u32 \<Rightarrow> buffers_control \<Rightarrow> buffers_control" where
  "setMaxBufferMemMB max_mb other_mb bc =
     bc\<lparr>max_buffer_mem := ucast max_mb * (1024 * 1024), max_buffer_mem_own_use := ucast (max_mb - other_mb) * (1024 * 1024),
        max_buffer_mem_other_uses := ucast other_mb * (1024 * 1024)\<rparr>"

definition getMaxBufferMemMB :: "buffers_control \<Rightarrow> u64" where
  "getMaxBufferMemMB bc = max_buffer_mem bc div (1024 * 1024)"

text \<open>A counter that falls below zero is set to zero.\<close>

definition counter_sub :: "u64 \<Rightarrow> nat \<Rightarrow> u64" where
  "counter_sub c n = (let c = c - word_of_nat n in if c > 0x7FFFFFFFFFFFFFFF then 0 else c)"

definition add_pb_used_size :: "nat \<Rightarrow> buffers_control \<Rightarrow> buffers_control" where
  "add_pb_used_size n bc = bc\<lparr>pb_used_size := pb_used_size bc + word_of_nat n\<rparr>"

definition sub_pb_used_size :: "nat \<Rightarrow> buffers_control \<Rightarrow> buffers_control" where
  "sub_pb_used_size n bc = bc\<lparr>pb_used_size := counter_sub (pb_used_size bc) n\<rparr>"

definition add_pb_used_dequeu_size :: "nat \<Rightarrow> buffers_control \<Rightarrow> buffers_control" where
  "add_pb_used_dequeu_size n bc = bc\<lparr>pb_used_dequeu_size := pb_used_dequeu_size bc + word_of_nat n\<rparr>"

definition sub_pb_used_dequeu_size :: "nat \<Rightarrow> buffers_control \<Rightarrow> buffers_control" where
  "sub_pb_used_dequeu_size n bc = bc\<lparr>pb_used_dequeu_size := counter_sub (pb_used_dequeu_size bc) n\<rparr>"

definition add_pb_trash_size :: "nat \<Rightarrow> buffers_control \<Rightarrow> buffers_control" where
  "add_pb_trash_size n bc = bc\<lparr>pb_trash_size := pb_trash_size bc + word_of_nat n\<rparr>"

definition sub_pb_trash_size :: "nat \<Rightarrow> buffers_control \<Rightarrow> buffers_control" where
  "sub_pb_trash_size n bc = bc\<lparr>pb_trash_size := counter_sub (pb_trash_size bc) n\<rparr>"

definition add_pb_pool_size :: "nat \<Rightarrow> buffers_control \<Rightarrow> buffers_control" where
  "add_pb_pool_size n bc = bc\<lparr>pb_pool_size := pb_pool_size bc + word_of_nat n\<rparr>"

definition sub_pb_pool_size :: "nat \<Rightarrow> buffers_control \<Rightarrow> buffers_control" where
  "sub_pb_pool_size n bc = bc\<lparr>pb_pool_size := counter_sub (pb_pool_size bc) n\<rparr>"

definition add_asyncwrite_size :: "nat \<Rightarrow> buffers_control \<Rightarrow> buffers_control" where
  "add_asyncwrite_size n bc = bc\<lparr>asyncwrite_size := asyncwrite_size bc + word_of_nat n\<rparr>"

definition sub_asyncwrite_size :: "nat \<Rightarrow> buffers_control \<Rightarrow> buffers_control" where
  "sub_asyncwrite_size n bc = bc\<lparr>asyncwrite_size := counter_sub (asyncwrite_size bc) n\<rparr>"

definition bc_sum :: "buffers_control \<Rightarrow> u64" where
  "bc_sum bc = pb_used_size bc + pb_trash_size bc + pb_pool_size bc + asyncwrite_size bc"

definition bc_check :: "buffers_control \<Rightarrow> bool" where
  "bc_check bc = (bc_sum bc < max_buffer_mem_own_use bc)"

definition check_pb_add_used :: "nat \<Rightarrow> buffers_control \<Rightarrow> bool" where
  "check_pb_add_used n bc =
     (bc_check bc \<and> 10 * unat (pb_used_size bc + pb_trash_size bc + pb_pool_size bc + word_of_nat n) < 9 * unat (max_buffer_mem_own_use bc))"

definition check_pb_add_pool :: "int \<Rightarrow> nat \<Rightarrow> buffers_control \<Rightarrow> bool" where
  "check_pb_add_pool max_perc n bc =
     (max_perc \<noteq> 0 \<and> bc_check bc \<and> bc_sum bc < max_buffer_mem_own_use bc \<and>
      pb_pool_size bc + word_of_nat n < (max_buffer_mem_own_use bc - bc_sum bc) * word_of_int max_perc div 100)"

definition check_asyncwrite_add :: "nat \<Rightarrow> buffers_control \<Rightarrow> bool" where
  "check_asyncwrite_add n bc =
     (bc_check bc \<and> 10 * unat (asyncwrite_size bc + word_of_nat n) < 9 * unat (max_buffer_mem_own_use bc) \<or>
      10 * unat (asyncwrite_size bc + word_of_nat n) < unat (max_buffer_mem_own_use bc))"

definition blockStoreTrash_time_set :: "u64 \<Rightarrow> buffers_control \<Rightarrow> buffers_control" where
  "blockStoreTrash_time_set t bc =
     (let bc = (if pb_trash_minTime bc = - 1 \<or> t < pb_trash_minTime bc then bc\<lparr>pb_trash_minTime := t\<rparr> else bc) in
      if pb_trash_maxTime bc = - 1 \<or> t > pb_trash_maxTime bc then bc\<lparr>pb_trash_maxTime := t\<rparr> else bc)"

definition blockStoreTrash_time_get :: "buffers_control \<Rightarrow> u64 \<times> u64" where
  "blockStoreTrash_time_get bc =
     (if pb_trash_minTime bc = - 1 then 0 else pb_trash_minTime bc, if pb_trash_maxTime bc = - 1 then 0 else pb_trash_maxTime bc)"

definition blockStoreTrash_time_clear :: "buffers_control \<Rightarrow> buffers_control" where
  "blockStoreTrash_time_clear bc = bc\<lparr>pb_trash_minTime := - 1, pb_trash_maxTime := - 1\<rparr>"

section \<open>Used blocks\<close>

text \<open>\<open>mo_sizeof\<close> is the size of the class \<open>pcap_block_store\<close> itself, \<open>mo_report_rest\<close> that packets
  of HTTP, WebRTC or SSL are read from a file.\<close>

record mem_opts =
  mo_sizeof :: nat
  mo_report_rest :: bool
  opt_pcap_queue_block_timeout :: int
  opt_use_dpdk :: bool
  opt_dpdk_rotate_packetbuffer :: bool
  opt_dpdk_copy_packetbuffer :: bool
  opt_dpdk_prealloc_packetbuffer :: bool
  opt_dpdk_rotate_packetbuffer_pool_max_perc :: int

definition getUseAllSize :: "mem_opts \<Rightarrow> pcap_block_store \<Rightarrow> nat" where
  "getUseAllSize mo st = getUseSize st + 4 * bs_offsets_size st + mo_sizeof mo"

text \<open>A block in the trash is kept with the member \<open>pushToTrashMS\<close>.\<close>

record fifo_mem =
  fm_bc :: buffers_control
  fm_trash :: "(pcap_block_store \<times> nat) list"
  fm_pool :: "pcap_block_store list"

definition blockStoreTrashPush :: "mem_opts \<Rightarrow> nat \<Rightarrow> pcap_block_store \<Rightarrow> fifo_mem \<Rightarrow> fifo_mem" where
  "blockStoreTrashPush mo now st s =
     s\<lparr>fm_trash := fm_trash s @ [(st, now)],
       fm_bc := add_pb_trash_size (getUseAllSize mo st) (sub_pb_used_size (getUseAllSize mo st) (fm_bc s))\<rparr>"

definition getBlockStoreFromPool :: "mem_opts \<Rightarrow> fifo_mem \<Rightarrow> pcap_block_store option \<times> fifo_mem" where
  "getBlockStoreFromPool mo s =
     (case fm_pool s of
        [] \<Rightarrow> (None, s)
      | st # rest \<Rightarrow> (Some st, s\<lparr>fm_pool := rest, fm_bc := sub_pb_pool_size (getUseAllSize mo st) (fm_bc s)\<rparr>))"

text \<open>A block whose packets are processed goes to the pool or is deleted.\<close>

definition release_block :: "mem_opts \<Rightarrow> pcap_block_store \<Rightarrow> fifo_mem \<Rightarrow> fifo_mem" where
  "release_block mo st s =
     (let n = getUseAllSize mo st; bc = sub_pb_trash_size n (fm_bc s) in
      if opt_use_dpdk mo \<and> opt_dpdk_rotate_packetbuffer mo \<and> (opt_dpdk_copy_packetbuffer mo \<or> opt_dpdk_prealloc_packetbuffer mo) \<and>
         check_pb_add_pool (opt_dpdk_rotate_packetbuffer_pool_max_perc mo) n bc
      then s\<lparr>fm_bc := add_pb_pool_size n bc, fm_pool := fm_pool s @ [st]\<rparr>
      else s\<lparr>fm_bc := bc\<rparr>)"

definition remove_at :: "nat \<Rightarrow> 'a list \<Rightarrow> 'a list" where
  "remove_at i xs = take i xs @ drop (Suc i) xs"

definition ms_diff :: "nat \<Rightarrow> nat \<Rightarrow> nat" where
  "ms_diff a b = nat ((int a - int b) mod 2 ^ 64)"

definition trash_due :: "mem_opts \<Rightarrow> bool \<Rightarrow> nat \<Rightarrow> (pcap_block_store \<times> nat) list \<Rightarrow> nat \<Rightarrow> bool" where
  "trash_due mo delete_all now trash i =
     (case trash ! i of (st, pushed) \<Rightarrow>
        delete_all \<or> (enableDestroy st \<and> now > pushed + 100) \<or>
        (opt_pcap_queue_block_timeout mo \<noteq> 0 \<and>
         ms_diff (bs_timestampMS (fst (trash ! (length trash - 1)))) (bs_timestampMS st) > unat (word_of_int (opt_pcap_queue_block_timeout mo) * 1000 :: u32)))"

function trash_loop :: "mem_opts \<Rightarrow> bool \<Rightarrow> nat \<Rightarrow> nat \<Rightarrow> fifo_mem \<Rightarrow> fifo_mem" where
  "trash_loop mo delete_all now i s =
     (if i + (if delete_all then 0 else 5) < length (fm_trash s) then
        (if trash_due mo delete_all now (fm_trash s) i
         then trash_loop mo delete_all now i
                ((release_block mo (fst (fm_trash s ! i)) s)\<lparr>fm_trash := remove_at i (fm_trash s)\<rparr>)
         else trash_loop mo delete_all now (Suc i) s)
      else s)"
  by pat_completeness auto
termination
  by (relation "measure (\<lambda>(mo, a, now, i, s). 2 * length (fm_trash s) - i)") (auto simp: remove_at_def)

declare trash_loop.simps [simp del]

definition cleanup_trash :: "mem_opts \<Rightarrow> bool \<Rightarrow> nat \<Rightarrow> fifo_mem \<Rightarrow> fifo_mem" where
  "cleanup_trash mo delete_all now s =
     (let s = trash_loop mo delete_all now 0 s in
      if fm_trash s \<noteq> [] then
        s\<lparr>fm_bc := blockStoreTrash_time_set (word_of_nat (ms_diff (bs_timestampMS (fst (last (fm_trash s)))) (bs_timestampMS (fst (hd (fm_trash s)))))) (fm_bc s)\<rparr>
      else s)"

definition cleanupBlockStoreTrash :: "mem_opts \<Rightarrow> bool \<Rightarrow> nat \<Rightarrow> nat \<Rightarrow> fifo_mem \<Rightarrow> fifo_mem" where
  "cleanupBlockStoreTrash mo delete_all now0 now s =
     cleanup_trash mo delete_all now (if delete_all \<and> mo_report_rest mo then cleanup_trash mo False now0 s else s)"

text \<open>The consumer uncompresses a block it has taken; a block that cannot be uncompressed is deleted.\<close>

definition fifo_uncompress :: "mem_opts \<Rightarrow> zip_opts \<Rightarrow> (nat \<Rightarrow> u32) \<Rightarrow> pcap_block_store \<Rightarrow> buffers_control \<Rightarrow> (pcap_block_store option \<times> buffers_control) outcome" where
  "fifo_uncompress mo zo g st bc =
     (if bs_size_compress st \<noteq> 0 then
        (let bc = sub_pb_used_size (getUseAllSize mo st) bc in
         omap (\<lambda>(ok, st). if ok then (Some st, add_pb_used_size (getUseAllSize mo st) bc) else (None, bc))
           (bs_uncompress zo g compress_method_default st))
      else Ret (Some st, bc))"

section \<open>The counters hold the sizes of the blocks\<close>

definition blocks_size :: "mem_opts \<Rightarrow> pcap_block_store list \<Rightarrow> nat" where
  "blocks_size mo sts = sum_list (map (getUseAllSize mo) sts)"

definition mem_total :: "mem_opts \<Rightarrow> pcap_block_store list \<Rightarrow> fifo_mem \<Rightarrow> nat" where
  "mem_total mo flight s = blocks_size mo flight + blocks_size mo (map fst (fm_trash s)) + blocks_size mo (fm_pool s)"

definition accounted :: "mem_opts \<Rightarrow> pcap_block_store list \<Rightarrow> fifo_mem \<Rightarrow> bool" where
  "accounted mo flight s =
     (unat (pb_used_size (fm_bc s)) = blocks_size mo flight \<and> unat (pb_trash_size (fm_bc s)) = blocks_size mo (map fst (fm_trash s)) \<and>
      unat (pb_pool_size (fm_bc s)) = blocks_size mo (fm_pool s) \<and> mem_total mo flight s < 2 ^ 63)"

lemmas bc_ops = add_pb_used_size_def sub_pb_used_size_def add_pb_trash_size_def sub_pb_trash_size_def add_pb_pool_size_def sub_pb_pool_size_def

lemma blocks_size_simps [simp]:
  "blocks_size mo [] = 0" "blocks_size mo (st # sts) = getUseAllSize mo st + blocks_size mo sts"
  "blocks_size mo (xs @ ys) = blocks_size mo xs + blocks_size mo ys"
  by (simp_all add: blocks_size_def)

lemma blocks_size_remove1: "st \<in> set sts \<Longrightarrow> blocks_size mo sts = getUseAllSize mo st + blocks_size mo (remove1 st sts)"
  by (induction sts) auto

lemma blocks_size_remove_at:
  "i < length xs \<Longrightarrow> blocks_size mo (map fst xs) = getUseAllSize mo (fst (xs ! i)) + blocks_size mo (map fst (remove_at i xs))"
  by (subst id_take_nth_drop [of i xs]) (simp_all add: remove_at_def)

lemma counter_add: "unat c + n < 2 ^ 64 \<Longrightarrow> unat (c + word_of_nat n :: u64) = unat c + n"
  by (simp add: unat_word_ariths unat_of_nat)

lemma counter_sub:
  assumes "n \<le> unat c" "unat c < 2 ^ 63"
  shows "unat (counter_sub c n) = unat c - n"
proof -
  have "word_of_nat n \<le> c" using assms by (simp add: word_le_nat_alt unat_of_nat)
  then have "unat (c - word_of_nat n) = unat c - n" using assms by (simp add: unat_sub unat_of_nat)
  then show ?thesis using assms by (auto simp: counter_sub_def Let_def word_less_nat_alt)
qed


lemma trash_push_accounted:
  assumes "accounted mo flight s" "st \<in> set flight"
  shows "accounted mo (remove1 st flight) (blockStoreTrashPush mo now st s)"
  using assms blocks_size_remove1 [OF assms(2), of mo]
  by (simp add: accounted_def mem_total_def blockStoreTrashPush_def bc_ops counter_sub counter_add)

lemma pool_take_accounted:
  assumes "accounted mo flight s" "getBlockStoreFromPool mo s = (r, s')"
  shows "accounted mo flight s'"
  using assms by (auto simp: accounted_def mem_total_def getBlockStoreFromPool_def bc_ops counter_sub split: list.splits)

lemma mem_push_accounted:
  assumes "accounted mo flight s" "mem_total mo (st # flight) s < 2 ^ 63"
  shows "accounted mo (st # flight) (s\<lparr>fm_bc := add_pb_used_size (getUseAllSize mo st) (fm_bc s)\<rparr>)"
  using assms by (simp add: accounted_def mem_total_def bc_ops counter_add)

lemma uncompress_accounted:
  assumes "accounted mo flight s" "st \<in> set flight" "fifo_uncompress mo zo g st (fm_bc s) = Ret (r, bc)"
    and "mem_total mo (case_option [] (\<lambda>st. [st]) r @ remove1 st flight) s < 2 ^ 63"
  shows "accounted mo (case_option [] (\<lambda>st. [st]) r @ remove1 st flight) (s\<lparr>fm_bc := bc\<rparr>)"
proof (cases "bs_size_compress st = 0")
  case True
  then show ?thesis using assms blocks_size_remove1 [OF assms(2), of mo] by (auto simp: fifo_uncompress_def accounted_def mem_total_def)
next
  case False
  then obtain ok st' where "bs_uncompress zo g compress_method_default st = Ret (ok, st')"
    using assms(3) by (auto simp: fifo_uncompress_def omap_Ret_iff Let_def)
  then show ?thesis
    using assms False blocks_size_remove1 [OF assms(2), of mo]
    by (auto simp: fifo_uncompress_def accounted_def mem_total_def bc_ops counter_sub counter_add Let_def split: if_splits)
qed

lemma release_accounted:
  assumes "accounted mo flight s" "i < length (fm_trash s)"
  shows "accounted mo flight ((release_block mo (fst (fm_trash s ! i)) s)\<lparr>fm_trash := remove_at i (fm_trash s)\<rparr>)"
  using assms blocks_size_remove_at [OF assms(2), of mo]
  by (simp add: accounted_def mem_total_def release_block_def bc_ops counter_sub counter_add Let_def)

lemma trash_loop_accounted: "accounted mo flight s \<Longrightarrow> accounted mo flight (trash_loop mo delete_all now i s)"
proof (induction mo delete_all now i s rule: trash_loop.induct)
  case (1 mo delete_all now i s)
  then show ?case using release_accounted [of mo flight s i] by (auto simp: trash_loop.simps [of mo delete_all now i s])
qed

lemma time_set_sizes [simp]:
  "pb_used_size (blockStoreTrash_time_set t bc) = pb_used_size bc" "pb_trash_size (blockStoreTrash_time_set t bc) = pb_trash_size bc"
  "pb_pool_size (blockStoreTrash_time_set t bc) = pb_pool_size bc"
  by (simp_all add: blockStoreTrash_time_set_def Let_def)

lemma cleanup_accounted: "accounted mo flight s \<Longrightarrow> accounted mo flight (cleanup_trash mo delete_all now s)"
  using trash_loop_accounted [of mo flight s delete_all now 0] by (simp add: cleanup_trash_def Let_def accounted_def mem_total_def)

text \<open>What stays in the trash: the order is kept, and a block leaves only when it is due.\<close>

lemma remove_at_filter:
  assumes "i < length xs"
  shows "filter P xs = (if P (xs ! i) then filter P (take i xs) @ xs ! i # filter P (drop (Suc i) xs) else filter P (remove_at i xs))"
  by (subst id_take_nth_drop [OF assms]) (simp add: remove_at_def)

lemma trash_loop_keeps:
  "opt_pcap_queue_block_timeout mo = 0 \<Longrightarrow>
   filter (\<lambda>(st, t). \<not> enableDestroy st \<or> now \<le> t + 100) (fm_trash (trash_loop mo False now i s)) =
   filter (\<lambda>(st, t). \<not> enableDestroy st \<or> now \<le> t + 100) (fm_trash s)"
proof (induction mo "False" now i s rule: trash_loop.induct)
  case (1 mo now i s)
  then show ?case
    using remove_at_filter [of i "fm_trash s" "\<lambda>(st, t). \<not> enableDestroy st \<or> now \<le> t + 100"]
    by (auto simp: trash_loop.simps [of mo False now i s] trash_due_def split: prod.splits)
qed

lemma trash_loop_all: "i = 0 \<Longrightarrow> fm_trash (trash_loop mo True now i s) = []"
proof (induction mo "True" now i s rule: trash_loop.induct)
  case (1 mo now i s)
  then show ?case by (auto simp: trash_loop.simps [of mo True now 0 s] trash_due_def split: prod.splits)
qed

lemma trash_loop_min: "m \<le> 5 \<Longrightarrow> m \<le> length (fm_trash s) \<Longrightarrow> m \<le> length (fm_trash (trash_loop mo False now i s))"
proof (induction mo "False" now i s rule: trash_loop.induct)
  case (1 mo now i s)
  then show ?case by (auto simp: trash_loop.simps [of mo False now i s] remove_at_def)
qed

section \<open>Every order of the operations\<close>

text \<open>\<open>flight\<close> holds the blocks that were pushed to the queue in memory and are not yet in the trash. Other threads may change the
  counter of the asynchronous writes at any time. The blocks of a process take less than \<open>2 ^ 63\<close> bytes.\<close>

inductive fm_reach :: "mem_opts \<Rightarrow> zip_opts \<Rightarrow> pcap_block_store list \<Rightarrow> fifo_mem \<Rightarrow> bool" for mo zo where
  fm_start: "fm_reach mo zo [] \<lparr>fm_bc = setMaxBufferMemMB max_mb other_mb buffers_control_new, fm_trash = [], fm_pool = []\<rparr>"
| fm_push: "fm_reach mo zo flight s \<Longrightarrow> mem_total mo (st # flight) s < 2 ^ 63 \<Longrightarrow>
    fm_reach mo zo (st # flight) (s\<lparr>fm_bc := add_pb_used_size (getUseAllSize mo st) (fm_bc s)\<rparr>)"
| fm_uncompress: "fm_reach mo zo flight s \<Longrightarrow> st \<in> set flight \<Longrightarrow> fifo_uncompress mo zo g st (fm_bc s) = Ret (r, bc) \<Longrightarrow>
    mem_total mo (case_option [] (\<lambda>st. [st]) r @ remove1 st flight) s < 2 ^ 63 \<Longrightarrow>
    fm_reach mo zo (case_option [] (\<lambda>st. [st]) r @ remove1 st flight) (s\<lparr>fm_bc := bc\<rparr>)"
| fm_to_trash: "fm_reach mo zo flight s \<Longrightarrow> st \<in> set flight \<Longrightarrow> fm_reach mo zo (remove1 st flight) (blockStoreTrashPush mo now st s)"
| fm_cleanup: "fm_reach mo zo flight s \<Longrightarrow> fm_reach mo zo flight (cleanupBlockStoreTrash mo delete_all now0 now s)"
| fm_pool_take: "fm_reach mo zo flight s \<Longrightarrow> getBlockStoreFromPool mo s = (r, s') \<Longrightarrow> fm_reach mo zo flight s'"
| fm_async: "fm_reach mo zo flight s \<Longrightarrow> fm_reach mo zo flight (s\<lparr>fm_bc := (fm_bc s)\<lparr>asyncwrite_size := n\<rparr>\<rparr>)"

lemma fm_reach_accounted: "fm_reach mo zo flight s \<Longrightarrow> accounted mo flight s"
proof (induction rule: fm_reach.induct)
  case fm_start
  show ?case by (simp add: accounted_def mem_total_def setMaxBufferMemMB_def buffers_control_new_def)
next
  case fm_push
  then show ?case by (simp add: mem_push_accounted)
next
  case fm_uncompress
  then show ?case by (simp add: uncompress_accounted)
next
  case fm_to_trash
  then show ?case by (simp add: trash_push_accounted)
next
  case fm_cleanup
  then show ?case by (simp add: cleanupBlockStoreTrash_def cleanup_accounted)
next
  case fm_pool_take
  then show ?case by (simp add: pool_take_accounted)
next
  case fm_async
  then show ?case by (simp add: accounted_def mem_total_def)
qed


definition demo_mem_opts :: mem_opts where
  "demo_mem_opts = \<lparr>mo_sizeof = 200, mo_report_rest = False, opt_pcap_queue_block_timeout = 0, opt_use_dpdk = True,
     opt_dpdk_rotate_packetbuffer = True, opt_dpdk_copy_packetbuffer = True, opt_dpdk_prealloc_packetbuffer = False,
     opt_dpdk_rotate_packetbuffer_pool_max_perc = 10\<rparr>"

definition demo_mem :: "nat \<Rightarrow> fifo_mem" where
  "demo_mem n = cleanupBlockStoreTrash demo_mem_opts True 0 n (blockStoreTrashPush demo_mem_opts 5 (pcap_block_store_new demo_opts (\<lambda>_. 0) 7 hm_plus)
     \<lparr>fm_bc = add_pb_used_size 200 (setMaxBufferMemMB 100 20 buffers_control_new), fm_trash = [], fm_pool = []\<rparr>)"


definition trash_kept :: "nat \<Rightarrow> (pcap_block_store \<times> nat) list \<Rightarrow> (pcap_block_store \<times> nat) list" where
  "trash_kept now = filter (\<lambda>(st, t). bs_packet_lock st \<noteq> 0 \<or> now \<le> t + 100)"

text \<open>a cleanup of the trash while the program runs, with no timeout set, frees no block that still has packets in use and none
  that was put there in the last 100 milliseconds, keeps the order of the others and leaves at least five blocks; the cleanup at the
  end empties the trash.\<close>

theorem trash_keeps_used_blocks:
  assumes "opt_pcap_queue_block_timeout mo = 0"
  shows "trash_kept now (fm_trash (cleanupBlockStoreTrash mo False now0 now s)) = trash_kept now (fm_trash s) \<and>
    min 5 (length (fm_trash s)) \<le> length (fm_trash (cleanupBlockStoreTrash mo False now0 now s)) \<and>
    fm_trash (cleanupBlockStoreTrash mo True now0 now s) = []"
proof -
  have eq: "fm_trash (cleanup_trash mo a now s) = fm_trash (trash_loop mo a now 0 s)" for a s by (simp add: cleanup_trash_def Let_def)
  show ?thesis using trash_loop_keeps [OF assms(1), of now 0 s] trash_loop_min [of "min 5 (length (fm_trash s))" s mo now 0]
    by (simp add: cleanupBlockStoreTrash_def eq trash_loop_all trash_kept_def enableDestroy_def)
qed

theorem trash_keeps_used_blocks_witness:
  "\<exists>st s. bs_packet_lock st = 1 \<and> (st, 0) \<in> set (fm_trash (cleanupBlockStoreTrash demo_mem_opts False 0 500 s)) \<and>
     length (fm_trash s) = 7 \<and> fm_trash (cleanupBlockStoreTrash demo_mem_opts True 0 500 s) = []"
proof -
  define st where "st = (pcap_block_store_new demo_opts (\<lambda>_. 0) 7 hm_plus)\<lparr>bs_packet_lock := 1\<rparr>"
  define s where "s = (demo_mem 9)\<lparr>fm_trash := (st, 0) # replicate 6 (st\<lparr>bs_packet_lock := 0\<rparr>, 0)\<rparr>"
  have t: "opt_pcap_queue_block_timeout demo_mem_opts = 0" by (simp add: demo_mem_opts_def)
  note r = trash_keeps_used_blocks [OF t, of 500 0 s]
  have l: "bs_packet_lock st = 1" by (simp add: st_def)
  then have "(st, 0) \<in> set (trash_kept 500 (fm_trash s))" by (simp add: trash_kept_def s_def)
  with r have "(st, 0) \<in> set (trash_kept 500 (fm_trash (cleanupBlockStoreTrash demo_mem_opts False 0 500 s)))" by simp
  then have "(st, 0) \<in> set (fm_trash (cleanupBlockStoreTrash demo_mem_opts False 0 500 s))" by (simp add: trash_kept_def)
  moreover have "length (fm_trash s) = 7" by (simp add: s_def)
  ultimately show ?thesis using r l by blast
qed

end
