(* ===== verification/VM_StoreQueue.thy ===== *)
theory VM_StoreQueue
  imports VM_Buffers "HOL-Library.Multiset"
begin

text \<open>
  The queue of blocks between the threads that receive packets and the thread that processes them (\<open>pcap_store_queue\<close> of
  \<open>pcap_queue.cpp\<close>): a block stays in memory, or its packets go to a file of a file store and only its head stays in the queue.
  The operations are given in the pieces that run under one lock, so that the theorems cover every interleaving of several
  producers with the one consumer. What other threads change in between (the counters of the memory) and what the system answers
  (clocks, opening and writing of files) are parameters of each call. The messages for the log are left out.
\<close>

section \<open>State\<close>

record sq_opts =
  so_scanpcapdir :: bool
  so_max_disk_size :: nat
  so_fileStoreFolder :: string
  so_file_max_size :: nat
  so_file_max_time_ms :: nat

record store_queue =
  sq_queue :: "pcap_block_store list"
  sq_files :: "pcap_file_store list"
  sq_lastFileStoreId :: u32
  sq_cleanupCounter :: u32
  sq_memory_is_full :: bool

definition store_queue_new :: store_queue where
  "store_queue_new = \<lparr>sq_queue = [], sq_files = [], sq_lastFileStoreId = 0, sq_cleanupCounter = 0, sq_memory_is_full = False\<rparr>"

text \<open>What a call of \<open>push\<close> finds: the end of the program, the counters at the three places that read them, the clock at the two
  checks of the last file and at the creation of a new one, the answers to \<open>fopen\<close> and \<open>fwrite\<close>.\<close>

record push_env =
  pe_terminating :: bool
  pe_bc1 :: buffers_control
  pe_bc2 :: buffers_control
  pe_bc3 :: buffers_control
  pe_now1 :: nat
  pe_now2 :: nat
  pe_now3 :: nat
  pe_now_s :: u32
  pe_heap :: "nat \<Rightarrow> u32"
  pe_open_ok :: bool
  pe_written :: nat

record pop_env =
  po_open_ok :: bool
  po_disk :: mem
  po_now :: nat
  po_now_s :: u32
  po_heap :: "nat \<Rightarrow> u32"

definition config_ENABLE_TOGETHER_READ_WRITE_FILE :: bool where
  "config_ENABLE_TOGETHER_READ_WRITE_FILE = False"

section \<open>Push\<close>

definition getFileStoreUseSize :: "store_queue \<Rightarrow> nat" where
  "getFileStoreUseSize sq = sum_list (map fs_fileSize (sq_files sq)) mod 2 ^ 64"

definition set_last_file :: "pcap_file_store \<Rightarrow> store_queue \<Rightarrow> store_queue" where
  "set_last_file fs sq = sq\<lparr>sq_files := (sq_files sq)[length (sq_files sq) - 1 := fs]\<rparr>"

definition last_file :: "store_queue \<Rightarrow> pcap_file_store" where
  "last_file sq = sq_files sq ! (length (sq_files sq) - 1)"

definition last_isFull :: "sq_opts \<Rightarrow> nat \<Rightarrow> bool \<Rightarrow> store_queue \<Rightarrow> bool \<times> store_queue" where
  "last_isFull so now force sq =
     (let (full, fs) = fs_isFull (so_file_max_size so) (so_file_max_time_ms so) now force (last_file sq) in (full, set_last_file fs sq))"

text \<open>Whether the block goes to a file; the check of the last file may close it.\<close>

definition sq_saveToFileStore :: "sq_opts \<Rightarrow> push_env \<Rightarrow> store_queue \<Rightarrow> bool \<times> store_queue" where
  "sq_saveToFileStore so e sq =
     (if so_max_disk_size so \<noteq> 0 \<and> so_fileStoreFolder so \<noteq> [] then
        (if \<not> check_pb_add_used 0 (pe_bc1 e) then (True, sq)
         else if \<not> config_ENABLE_TOGETHER_READ_WRITE_FILE \<and> sq_files sq \<noteq> [] then
           (let (full, sq) = last_isFull so (pe_now1 e) (pb_used_size (pe_bc2 e) = 0) sq in (\<not> full, sq))
         else (False, sq))
      else (False, sq))"

definition next_file_id :: "u32 \<Rightarrow> u32" where
  "next_file_id i = (if i + 1 = 0 then i + 2 else i + 1)"

definition sq_push_file :: "sq_opts \<Rightarrow> pb_opts \<Rightarrow> push_env \<Rightarrow> pcap_block_store \<Rightarrow> store_queue \<Rightarrow> (bool \<times> pcap_block_store \<times> store_queue) outcome" where
  "sq_push_file so cf e st sq =
     (if getFileStoreUseSize sq > so_max_disk_size so then Ret (False, st, sq)
      else
        (let (new, sq) = (if sq_files sq = [] then (True, sq) else last_isFull so (pe_now2 e) False sq);
             sq = (if new then
                     (let i = next_file_id (sq_lastFileStoreId sq) in
                      sq\<lparr>sq_lastFileStoreId := i, sq_files := sq_files sq @ [file_store_new (unat i) (pe_now3 e)]\<rparr>)
                   else sq) in
         omap (\<lambda>(ok, st, fs). (ok, st, set_last_file fs sq))
           (fs_push cf (pe_heap e) (pe_now_s e) (pe_open_ok e) (pe_written e) st (last_file sq))))"

definition sq_push_memory :: "mem_opts \<Rightarrow> push_env \<Rightarrow> pcap_block_store \<Rightarrow> store_queue \<Rightarrow> bool \<times> buffers_control \<times> store_queue" where
  "sq_push_memory mo e st sq =
     (if \<not> check_pb_add_used 0 (pe_bc3 e) then (False, pe_bc3 e, sq\<lparr>sq_memory_is_full := True\<rparr>)
      else (True, add_pb_used_size (getUseAllSize mo st) (pe_bc3 e), sq\<lparr>sq_memory_is_full := False\<rparr>))"

text \<open>The part of \<open>push\<close> before the block enters the queue.\<close>

definition sq_push_store :: "sq_opts \<Rightarrow> mem_opts \<Rightarrow> pb_opts \<Rightarrow> push_env \<Rightarrow> pcap_block_store \<Rightarrow> store_queue \<Rightarrow>
    (bool \<times> pcap_block_store \<times> buffers_control \<times> store_queue) outcome" where
  "sq_push_store so mo cf e st sq =
     (case sq_saveToFileStore so e sq of (save, sq) \<Rightarrow>
        if save then omap (\<lambda>(ok, st, sq). (ok, st, pe_bc3 e, sq)) (sq_push_file so cf e st sq)
        else (case sq_push_memory mo e st sq of (ok, bc, sq) \<Rightarrow> Ret (ok, st, bc, sq)))"

definition sq_enqueue :: "pcap_block_store \<Rightarrow> store_queue \<Rightarrow> store_queue" where
  "sq_enqueue st sq = sq\<lparr>sq_queue := sq_queue sq @ [st]\<rparr>"

text \<open>The whole call; the second component is the block when the caller still has it. With \<open>opt_scanpcapdir\<close> the call first waits
  until there is room or the program ends.\<close>

definition sq_push :: "sq_opts \<Rightarrow> mem_opts \<Rightarrow> pb_opts \<Rightarrow> push_env \<Rightarrow> bool \<Rightarrow> pcap_block_store \<Rightarrow> store_queue \<Rightarrow>
    (bool \<times> pcap_block_store option \<times> buffers_control \<times> store_queue) outcome" where
  "sq_push so mo cf e deleteIfFail st sq =
     (if so_scanpcapdir so \<and> pe_terminating e then Ret (False, Some st, pe_bc3 e, sq)
      else
        omap (\<lambda>(ok, st, bc, sq).
          if ok then (True, None, bc, sq_enqueue st sq)
          else (False, if deleteIfFail then None else Some st, bc, sq))
          (sq_push_store so mo cf e st sq))"

section \<open>Pop\<close>

definition sq_take :: "store_queue \<Rightarrow> pcap_block_store option \<times> store_queue" where
  "sq_take sq = (case sq_queue sq of [] \<Rightarrow> (None, sq) | st # q \<Rightarrow> (Some st, sq\<lparr>sq_queue := q\<rparr>))"

fun find_file :: "nat \<Rightarrow> pcap_file_store list \<Rightarrow> nat option" where
  "find_file i [] = None"
| "find_file i (fs # files) = (if fs_id fs = i then Some 0 else map_option Suc (find_file i files))"

definition findFileStoreById :: "nat \<Rightarrow> store_queue \<Rightarrow> nat option" where
  "findFileStoreById i sq = find_file i (sq_files sq)"

fun cleanup_files :: "pcap_file_store list \<Rightarrow> pcap_file_store list" where
  "cleanup_files [] = []"
| "cleanup_files (fs # files) = (if isForDestroy fs then cleanup_files files else fs # files)"

definition cleanupFileStore :: "store_queue \<Rightarrow> store_queue" where
  "cleanupFileStore sq = sq\<lparr>sq_files := cleanup_files (sq_files sq)\<rparr>"

text \<open>The end of a successful \<open>pop\<close>: every hundredth call removes the files that are done. The counter is signed in the code.\<close>

definition sq_pop_done :: "store_queue \<Rightarrow> store_queue" where
  "sq_pop_done sq =
     (let sq = sq\<lparr>sq_cleanupCounter := sq_cleanupCounter sq + 1\<rparr> in
      if sint (sq_cleanupCounter sq) mod 100 = 0 then cleanupFileStore sq else sq)"

definition sq_pop_file :: "sq_opts \<Rightarrow> pb_opts \<Rightarrow> pop_env \<Rightarrow> nat \<Rightarrow> pcap_block_store \<Rightarrow> store_queue \<Rightarrow> (bool \<times> pcap_block_store \<times> store_queue) outcome" where
  "sq_pop_file so cf e k st sq =
     omap (\<lambda>(ok, st, fs). (ok, st, sq\<lparr>sq_files := (sq_files sq)[k := fs]\<rparr>))
       (fs_pop cf (po_heap e) (po_now_s e) (po_open_ok e) (po_disk e) (so_file_max_size so, so_file_max_time_ms so, po_now e) st (sq_files sq ! k))"

text \<open>What the caller's pointer is afterwards.\<close>

datatype block_ptr = Null | Live pcap_block_store | Freed

text \<open>The wait for the file to be closed by the producers: each element of the list is what they do during one sleep.\<close>

fun wait_full :: "(store_queue \<Rightarrow> store_queue) list \<Rightarrow> nat \<Rightarrow> store_queue \<Rightarrow> store_queue outcome" where
  "wait_full sleeps k sq =
     (if \<not> config_ENABLE_TOGETHER_READ_WRITE_FILE \<and> \<not> fs_full (sq_files sq ! k) then
        (case sleeps of [] \<Rightarrow> OutOfFuel | env # sleeps \<Rightarrow> wait_full sleeps k (env sq))
      else Ret sq)"

declare wait_full.simps [simp del]

definition sq_pop :: "sq_opts \<Rightarrow> pb_opts \<Rightarrow> (store_queue \<Rightarrow> store_queue) list \<Rightarrow> pop_env \<Rightarrow> store_queue \<Rightarrow> (bool \<times> block_ptr \<times> store_queue) outcome" where
  "sq_pop so cf sleeps e sq =
     (case sq_take sq of
        (None, sq) \<Rightarrow> Ret (True, Null, sq)
      | (Some st, sq) \<Rightarrow>
          if bs_idFileStore st \<noteq> 0 then
            (case findFileStoreById (bs_idFileStore st) sq of
               None \<Rightarrow> Ret (False, Freed, sq)
             | Some k \<Rightarrow>
                 obind (wait_full sleeps k sq) (\<lambda>sq.
                   omap (\<lambda>(ok, st, sq). if ok then (True, Live st, sq_pop_done sq) else (False, Freed, sq))
                     (sq_pop_file so cf e k st sq)))
          else Ret (True, Live st, sq_pop_done sq))"


section \<open>The files of the queue\<close>

text \<open>Numbers of files: 1, 2, ..., the largest 32-bit number, and then from 1 again.\<close>

definition file_number :: "nat \<Rightarrow> nat" where
  "file_number n = n mod (2 ^ 32 - 1) + 1"

lemma file_number_next: "unat (next_file_id (word_of_nat (file_number n))) = file_number (Suc n)"
proof -
  let ?m = "n mod 4294967295"
  have m: "?m < 4294967295" by simp
  show ?thesis
  proof (cases "?m = 4294967294")
    case True
    then have "Suc n mod 4294967295 = 0" by (simp add: mod_Suc)
    then show ?thesis using True by (simp add: file_number_def next_file_id_def)
  next
    case False
    then have "Suc n mod 4294967295 = Suc ?m" using m by (simp add: mod_Suc)
    moreover have u: "unat (word_of_nat (?m + 1) + 1 :: u32) = ?m + 2" using m False by (simp add: unat_word_ariths unat_of_nat)
    moreover from u have "word_of_nat (?m + 1) + 1 \<noteq> (0 :: u32)" by auto
    ultimately show ?thesis by (simp add: file_number_def next_file_id_def del: of_nat_add of_nat_Suc)
  qed
qed

lemma file_number_inj: "file_number a = file_number b \<Longrightarrow> a < b + (2 ^ 32 - 1) \<Longrightarrow> b \<le> a \<Longrightarrow> a = b"
  unfolding file_number_def by (metis (no_types, lifting) add_right_cancel mod_eq_dvd_iff_nat dvd_imp_le le_add_diff_inverse less_diff_conv2 nat_less_le not_less zero_less_diff add.commute)

lemma file_number_bounds: "0 < file_number n" "file_number n < 2 ^ 32"
  by (simp_all add: file_number_def)

definition ids_ok :: "pcap_file_store list \<Rightarrow> u32 \<Rightarrow> bool" where
  "ids_ok files i = (\<exists>n \<ge> length files. map fs_id files = map file_number [n - length files..<n] \<and>
     unat i = (if n = 0 then 0 else file_number (n - 1)))"

lemma ids_distinct:
  assumes "ids_ok files i" "length files \<le> 2 ^ 32 - 1"
  shows "distinct (map fs_id files)"
proof -
  from assms obtain n where n: "map fs_id files = map file_number [n - length files..<n]" "length files \<le> n" unfolding ids_ok_def by blast
  have "inj_on file_number {n - length files..<n}"
  proof (rule inj_onI)
    fix x y assume xy: "x \<in> {n - length files..<n}" "y \<in> {n - length files..<n}" "file_number x = file_number y"
    then have "n \<le> x + length files" "n \<le> y + length files" "x < n" "y < n" by auto
    then have "x < y + (2 ^ 32 - 1)" "y < x + (2 ^ 32 - 1)" using assms(2) by linarith+
    then show "x = y" using file_number_inj [of x y] file_number_inj [of y x] xy(3) by (metis nat_le_linear)
  qed
  then show ?thesis using n(1) by (simp add: distinct_map)
qed

lemma ids_new:
  assumes "ids_ok files i" "length files < 2 ^ 32 - 1"
  shows "ids_ok (files @ [file_store_new (unat (next_file_id i)) now]) (next_file_id i)" "unat (next_file_id i) \<notin> fs_id ` set files" "next_file_id i \<noteq> 0"
proof -
  from assms obtain n where n: "map fs_id files = map file_number [n - length files..<n]" "length files \<le> n"
    "unat i = (if n = 0 then 0 else file_number (n - 1))" unfolding ids_ok_def by blast
  have nx: "unat (next_file_id i) = file_number n"
  proof (cases n)
    case 0
    then have "i = 0" using n(3) by (simp add: unat_eq_zero)
    then show ?thesis using 0 by (simp add: next_file_id_def file_number_def)
  next
    case (Suc m)
    then have "word_of_nat (unat i) = (word_of_nat (file_number m) :: u32)" using n(3) by simp
    then have "i = word_of_nat (file_number m)" by simp
    then show ?thesis using file_number_next Suc by simp
  qed
  have "map fs_id (files @ [file_store_new (unat (next_file_id i)) now]) = map file_number [Suc n - Suc (length files)..<Suc n]"
    using n(1,2) nx by (simp add: file_store_new_def)
  then show i: "ids_ok (files @ [file_store_new (unat (next_file_id i)) now]) (next_file_id i)"
    unfolding ids_ok_def using nx n(2) by (intro exI [of _ "Suc n"]) simp
  show "unat (next_file_id i) \<notin> fs_id ` set files" using ids_distinct [OF i] assms(2) by (simp add: file_store_new_def)
  show "next_file_id i \<noteq> 0" using nx file_number_bounds(1) [of n] by auto
qed

lemma ids_update: "ids_ok files i \<Longrightarrow> fs_id fs = fs_id (files ! k) \<Longrightarrow> ids_ok (files[k := fs]) i"
proof -
  assume "ids_ok files i" "fs_id fs = fs_id (files ! k)"
  moreover from this have "map fs_id (files[k := fs]) = map fs_id files" by (metis list_update_id map_update)
  ultimately show "ids_ok (files[k := fs]) i" by (simp add: ids_ok_def)
qed

lemma cleanup_files_drop: "\<exists>m. cleanup_files files = drop m files"
proof (induction files)
  case (Cons fs files)
  then show ?case by (metis cleanup_files.simps(2) drop0 drop_Suc_Cons)
qed simp

lemma ids_drop: "ids_ok files i \<Longrightarrow> ids_ok (drop m files) i"
proof -
  assume "ids_ok files i"
  then obtain n where n: "length files \<le> n" "map fs_id files = map file_number [n - length files..<n]" "unat i = (if n = 0 then 0 else file_number (n - 1))"
    unfolding ids_ok_def by blast
  then have "map fs_id (drop m files) = map file_number (drop m [n - length files..<n])" by (metis drop_map)
  moreover have "drop m [n - length files..<n] = [n - length (drop m files)..<n]" using n(1) by (cases "m \<le> length files") auto
  ultimately show ?thesis unfolding ids_ok_def using n by (intro exI [of _ n]) auto
qed


section \<open>Blocks and the files that hold them\<close>

definition block_fits :: "pb_opts \<Rightarrow> pcap_block_store \<Rightarrow> bool" where
  "block_fits cf src = (saveable src \<and> getSizeSaveBuffer src < 2 ^ 31 \<and> getSizeSaveBuffer src + 1000 \<le> opt_block_max_size cf * 10)"

text \<open>\<open>img\<close> gives the images that were written to the file with a number.\<close>

definition stands :: "pb_opts \<Rightarrow> zip_opts \<Rightarrow> (nat \<Rightarrow> mem list) \<Rightarrow> pcap_block_store \<Rightarrow> pkt list \<Rightarrow> bool" where
  "stands cf zo img st items =
     (if bs_idFileStore st = 0 then bs_packed zo st items
      else \<exists>j g t src. j < length (img (bs_idFileStore st)) \<and> img (bs_idFileStore st) ! j = block_image cf g t 0 src \<and>
        block_fits cf src \<and> bs_packed zo src items \<and>
        st = (freeBlock src)\<lparr>bs_idFileStore := bs_idFileStore st, bs_filePosition := length (concat (take j (img (bs_idFileStore st))))\<rparr>)"

definition blocks_in :: "nat \<Rightarrow> pcap_block_store list \<Rightarrow> nat" where
  "blocks_in i blocks = length (filter (\<lambda>st. bs_idFileStore st = i) blocks)"

definition file_ok :: "(nat \<Rightarrow> mem list) \<Rightarrow> pcap_block_store list \<Rightarrow> pcap_file_store \<Rightarrow> bool" where
  "file_ok img blocks fs =
     (fs_ok fs (img (fs_id fs)) \<and> fs_countPush fs = length (img (fs_id fs)) \<and> blocks_in (fs_id fs) blocks + fs_countPop fs \<le> fs_countPush fs)"

definition files_ok :: "(nat \<Rightarrow> mem list) \<Rightarrow> pcap_file_store list \<Rightarrow> pcap_block_store list \<Rightarrow> bool" where
  "files_ok img files blocks =
     ((\<forall>fs \<in> set files. file_ok img blocks fs) \<and> (\<forall>st \<in> set blocks. bs_idFileStore st = 0 \<or> bs_idFileStore st \<in> fs_id ` set files))"

lemma files_ok_nth: "files_ok img files blocks \<Longrightarrow> k < length files \<Longrightarrow> file_ok img blocks (files ! k)"
  by (simp add: files_ok_def)

lemma stands_mono:
  assumes "stands cf zo img st items"
  shows "stands cf zo (img(i := img i @ [x])) st items"
proof (cases "bs_idFileStore st = 0 \<or> bs_idFileStore st \<noteq> i")
  case True
  then show ?thesis using assms by (auto simp: stands_def)
next
  case False
  with assms obtain j g t src where "j < length (img i)" "img i ! j = block_image cf g t 0 src" "block_fits cf src" "bs_packed zo src items"
    "st = (freeBlock src)\<lparr>bs_idFileStore := bs_idFileStore st, bs_filePosition := length (concat (take j (img i)))\<rparr>"
    by (auto simp: stands_def)
  then show ?thesis using False unfolding stands_def by (auto simp: nth_append intro!: exI [of _ j] exI [of _ g] exI [of _ t] exI [of _ src])
qed

lemma stands_new_file:
  assumes "stands cf zo img st items" "bs_idFileStore st = 0 \<or> bs_idFileStore st \<in> fs_id ` set files" "i \<notin> fs_id ` set files"
  shows "stands cf zo (img(i := x)) st items"
  using assms by (auto simp: stands_def)

lemma ids_list_update: "fs_id fs = fs_id (files ! k) \<Longrightarrow> fs_id ` set (files[k := fs]) = fs_id ` set files"
  by (metis list.set_map list_update_id map_update)

lemma files_ok_update:
  assumes "files_ok img files blocks" "fs_id fs = fs_id (files ! k)" "file_ok img blocks fs"
  shows "files_ok img (files[k := fs]) blocks"
proof -
  have "x \<in> insert fs (set files)" if "x \<in> set (files[k := fs])" for x using that set_update_subset_insert by fastforce
  then show ?thesis using assms ids_list_update [OF assms(2)] unfolding files_ok_def by blast
qed

lemma files_ok_isFull:
  assumes "files_ok img files blocks" "k < length files" "fs_isFull a b c d (files ! k) = (r, fs)"
  shows "files_ok img (files[k := fs]) blocks" "fs_id fs = fs_id (files ! k)" "r = fs_full fs"
proof -
  note f = files_ok_nth [OF assms(1,2), unfolded file_ok_def]
  have s: "fs_id fs = fs_id (files ! k)" "fs_countPush fs = fs_countPush (files ! k)" "fs_countPop fs = fs_countPop (files ! k)"
    using assms(3) by (auto simp: fs_isFull_def fs_close_def split: if_splits)
  then show "fs_id fs = fs_id (files ! k)" by simp
  show "r = fs_full fs" using assms(3) by (auto simp: fs_isFull_def split: if_splits)
  have "fs_ok fs (img (fs_id (files ! k)))" using fs_isFull_ok f assms(3) by blast
  then show "files_ok img (files[k := fs]) blocks" using s f by (intro files_ok_update [OF assms(1)]) (simp_all add: file_ok_def)
qed

lemma files_ok_new:
  assumes "files_ok img files blocks" "i \<notin> fs_id ` set files" "i \<noteq> 0"
  shows "files_ok (img(i := [])) (files @ [file_store_new i now]) blocks"
proof -
  have "blocks_in i blocks = 0" using assms by (auto simp: files_ok_def blocks_in_def filter_empty_conv)
  then have "file_ok (img(i := [])) blocks (file_store_new i now)" by (simp add: file_ok_def fs_ok_def file_store_new_def)
  moreover have "file_ok (img(i := [])) blocks fs" if "fs \<in> set files" for fs using that assms by (auto simp: files_ok_def file_ok_def)
  moreover have "bs_idFileStore st = 0 \<or> bs_idFileStore st \<in> fs_id ` set (files @ [file_store_new i now])" if "st \<in> set blocks" for st
    using that assms(1) by (auto simp: files_ok_def)
  ultimately show ?thesis unfolding files_ok_def by auto
qed

lemma fs_push_counts:
  assumes "fs_push cf g t open_ok w st fs = Ret (done, st', fs')"
  shows "fs_id fs' = fs_id fs" "fs_countPop fs' = fs_countPop fs" "fs_countPush fs' = fs_countPush fs + of_bool done"
    "fs_fileSize fs' \<le> fs_fileSize fs + (case getSaveBuffer cf g t 0 st of Ret i \<Rightarrow> length i | _ \<Rightarrow> 0)"
proof -
  obtain o1 fs1 where p: "(if fs_handlePush fs then (True, fs) else fs_open typeHandlePush open_ok fs) = (o1, fs1)" by force
  have fs1: "fs_id fs1 = fs_id fs" "fs_countPop fs1 = fs_countPop fs" "fs_countPush fs1 = fs_countPush fs" "fs_fileSize fs1 = fs_fileSize fs"
    using p by (auto simp: fs_open_def split: if_splits)
  show "fs_id fs' = fs_id fs" "fs_countPop fs' = fs_countPop fs" "fs_countPush fs' = fs_countPush fs + of_bool done"
    "fs_fileSize fs' \<le> fs_fileSize fs + (case getSaveBuffer cf g t 0 st of Ret i \<Rightarrow> length i | _ \<Rightarrow> 0)"
    using assms fs1 unfolding fs_push_def p by (auto simp: omap_Ret_iff Let_def split: if_splits)
qed

lemma fs_pop_counts:
  assumes "fs_pop cf g t open_ok disk lim st fs = Ret (ok, st', fs')"
  shows "fs_id fs' = fs_id fs" "fs_countPush fs' = fs_countPush fs" "fs_countPop fs' \<le> fs_countPop fs + 1" "fs_full fs \<Longrightarrow> fs_full fs'" "fs_fileSize fs' = fs_fileSize fs"
proof -
  obtain o1 fs1 where p: "(if fs_handlePop fs then (True, fs) else fs_open typeHandlePop open_ok fs) = (o1, fs1)" by force
  have fs1: "fs_id fs1 = fs_id fs" "fs_countPop fs1 = fs_countPop fs" "fs_countPush fs1 = fs_countPush fs" "fs_fileSize fs1 = fs_fileSize fs" "fs_full fs1 = fs_full fs"
    using p by (auto simp: fs_open_def split: if_splits)
  show "fs_id fs' = fs_id fs" "fs_countPush fs' = fs_countPush fs" "fs_countPop fs' \<le> fs_countPop fs + 1" "fs_full fs \<Longrightarrow> fs_full fs'" "fs_fileSize fs' = fs_fileSize fs"
    using assms fs1 unfolding fs_pop_def p
    by (auto simp: omap_Ret_iff Let_def fs_flush_def fs_isFull_def fs_close_def split: if_splits prod.splits)
qed

lemma files_ok_push:
  assumes ok: "files_ok img files blocks" and k: "k < length files" and d: "distinct (map fs_id files)" and id: "fs_id (files ! k) \<noteq> 0"
    and nf: "\<not> fs_full (files ! k)" and fit: "block_fits cf st" and pk: "bs_packed zo st items"
    and r: "fs_push cf g t open_ok w st (files ! k) = Ret (done, st', fs)"
  shows "\<not> done \<Longrightarrow> files_ok img (files[k := fs]) blocks \<and> st' = st"
    "done \<Longrightarrow> files_ok (img(fs_id fs := img (fs_id fs) @ [block_image cf g t 0 st])) (files[k := fs]) (st' # blocks) \<and>
       stands cf zo (img(fs_id fs := img (fs_id fs) @ [block_image cf g t 0 st])) st' items"
proof -
  let ?i = "fs_id (files ! k)"
  have f: "fs_ok (files ! k) (img ?i)" "fs_countPush (files ! k) = length (img ?i)" "blocks_in ?i blocks + fs_countPop (files ! k) \<le> fs_countPush (files ! k)"
    using files_ok_nth [OF ok k] by (simp_all add: file_ok_def)
  have sv: "saveable st" using fit by (simp add: block_fits_def)
  note pf = fs_push_facts [OF f(1) nf sv r] and c = fs_push_counts [OF r]
  { assume "\<not> done"
    then show "files_ok img (files[k := fs]) blocks \<and> st' = st" using pf(1,4) c f files_ok_update [OF ok, of fs k] by (simp add: file_ok_def) }
  assume dn: "done"
  let ?img = "img(fs_id fs := img (fs_id fs) @ [block_image cf g t 0 st])"
  have st': "st' = (freeBlock st)\<lparr>bs_idFileStore := ?i, bs_filePosition := length (concat (img ?i))\<rparr>" using pf(3) dn by simp
  have "stands cf zo ?img st' items"
    using id fit pk c(1) unfolding st' stands_def by (auto intro!: exI [of _ "length (img ?i)"] exI [of _ g] exI [of _ t] exI [of _ st])
  moreover have "files_ok ?img (files[k := fs]) (st' # blocks)"
  proof -
    have ids: "fs_id ` set (files[k := fs]) = fs_id ` set files" using ids_list_update c(1) by blast
    have other: "fs_id x \<noteq> ?i" if "x \<in> set (files[k := fs])" "x \<noteq> fs" for x
    proof -
      obtain m where m: "m < length files" "m \<noteq> k" "x = files ! m" using \<open>x \<in> set (files[k := fs])\<close> \<open>x \<noteq> fs\<close> k
        by (auto simp: in_set_conv_nth nth_list_update split: if_splits)
      then show ?thesis using d k by (metis length_map nth_eq_iff_index_eq nth_map)
    qed
    have mem: "x = fs \<or> x \<in> set files" if "x \<in> set (files[k := fs])" for x using that set_update_subset_insert by fastforce
    have b: "blocks_in j (st' # blocks) = blocks_in j blocks + of_bool (j = ?i)" for j by (auto simp: blocks_in_def st')
    have "bs_idFileStore x \<in> fs_id ` set files" if "x \<in> set (st' # blocks)" "bs_idFileStore x \<noteq> 0" for x
      using that ok k by (auto simp: files_ok_def st')
    moreover have "file_ok ?img (st' # blocks) x" if x: "x \<in> set (files[k := fs])" for x
    proof (cases "x = fs")
      case True
      then show ?thesis using pf(1) dn c f b by (simp add: file_ok_def)
    next
      case False
      then have "x \<in> set files" "fs_id x \<noteq> ?i" using mem other x by auto
      then show ?thesis using ok c(1) b by (auto simp: files_ok_def file_ok_def)
    qed
    ultimately show ?thesis unfolding files_ok_def ids by blast
  qed
  ultimately show "files_ok ?img (files[k := fs]) (st' # blocks) \<and> stands cf zo ?img st' items" by simp
qed


lemma blocks_in_simps [simp]:
  "blocks_in i [] = 0" "blocks_in i (st # blocks) = of_bool (bs_idFileStore st = i) + blocks_in i blocks"
  "blocks_in i (xs @ ys) = blocks_in i xs + blocks_in i ys"
  by (simp_all add: blocks_in_def)

lemma files_ok_pop:
  assumes ok: "files_ok img files (st # blocks)" and k: "k < length files" "fs_id (files ! k) = bs_idFileStore st"
    and r: "fs_pop cf g t open_ok disk lim st (files ! k) = Ret (b, st', fs)"
  shows "files_ok img (files[k := fs]) blocks"
proof -
  note f = files_ok_nth [OF ok k(1), unfolded file_ok_def] and c = fs_pop_counts [OF r]
  have "file_ok img blocks x" if "file_ok img (st # blocks) x" for x using that by (simp add: file_ok_def)
  then have ok': "files_ok img files blocks" using ok by (auto simp: files_ok_def)
  have "fs_ok fs (img (fs_id (files ! k)))" using fs_pop_ok [OF _ r] f by blast
  moreover have "blocks_in (fs_id (files ! k)) (st # blocks) = Suc (blocks_in (fs_id (files ! k)) blocks)" using k(2) by simp
  ultimately have "file_ok img blocks fs" using f c by (auto simp: file_ok_def)
  then show ?thesis by (rule files_ok_update [OF ok' c(1)])
qed

lemma files_ok_cleanup: "files_ok img files blocks \<Longrightarrow> files_ok img (cleanup_files files) blocks"
proof (induction files)
  case (Cons fs files)
  have "files_ok img files blocks" if d: "isForDestroy fs"
  proof -
    have "blocks_in (fs_id fs) blocks = 0" using Cons.prems d by (simp add: files_ok_def file_ok_def isForDestroy_def)
    then have "\<forall>st \<in> set blocks. bs_idFileStore st \<noteq> fs_id fs" by (simp add: blocks_in_def filter_empty_conv)
    then show ?thesis using Cons.prems by (auto simp: files_ok_def)
  qed
  then show ?case using Cons by auto
qed simp

lemma find_file_Some: "find_file i files = Some k \<Longrightarrow> k < length files \<and> fs_id (files ! k) = i"
  by (induction i files arbitrary: k rule: find_file.induct) (auto split: if_splits)

lemma find_file_found: "i \<in> fs_id ` set files \<Longrightarrow> find_file i files \<noteq> None"
  by (induction i files rule: find_file.induct) auto

text \<open>Reading a block back gives the packets it stands for.\<close>

lemma stands_pop:
  assumes s: "stands cf zo img st items" "bs_idFileStore st \<noteq> 0" and f: "fs_ok fs (img (bs_idFileStore st))" and op: "fs_handlePop fs \<or> open_ok"
    and disk: "take (fs_fileSizeFlushed (fs_flush (bs_filePosition st) fs)) disk = take (fs_fileSizeFlushed (fs_flush (bs_filePosition st) fs)) (fs_file fs)"
  shows "\<exists>st' fs'. fs_pop cf g' now_s open_ok disk lim st fs = Ret (True, st', fs') \<and> bs_packed zo st' items"
proof -
  from s obtain j g t src where j: "j < length (img (bs_idFileStore st))" "img (bs_idFileStore st) ! j = block_image cf g t 0 src" "block_fits cf src"
    "bs_packed zo src items" and st: "st = (freeBlock src)\<lparr>bs_idFileStore := bs_idFileStore st, bs_filePosition := length (concat (take j (img (bs_idFileStore st))))\<rparr>"
    unfolding stands_def by auto
  have sv: "saveable src" "getSizeSaveBuffer src + 1000 \<le> opt_block_max_size cf * 10" using j(3) by (simp_all add: block_fits_def)
  have pos: "bs_filePosition st = length (concat (take j (img (bs_idFileStore st))))" by (subst st) simp
  have "bs_size_packets st = bs_size_packets src" by (subst st) (simp add: freeBlock_def)
  then have "bs_size_packets (destroyRestoreBuffer st) = 0 \<or> bs_size_packets (destroyRestoreBuffer st) = packet_bytes items"
    using j(4) by (auto simp: bs_packed_def bs_content_def destroyRestoreBuffer_def)
  from restored_packed [OF j(4) this, of cf 0] fs_pop_restores [OF f j(1,2) sv(1) s(2) pos op disk sv(2), of g' now_s lim]
  show ?thesis by blast
qed

definition sq_inv :: "(nat \<Rightarrow> mem list) \<Rightarrow> store_queue \<Rightarrow> pcap_block_store list \<Rightarrow> bool" where
  "sq_inv img sq blocks =
     (files_ok img (sq_files sq) blocks \<and> ids_ok (sq_files sq) (sq_lastFileStoreId sq) \<and> length (sq_files sq) \<le> 2 ^ 32 - 1)"

lemma ids_pos: "ids_ok files i \<Longrightarrow> fs \<in> set files \<Longrightarrow> fs_id fs \<noteq> 0"
proof -
  assume "ids_ok files i" "fs \<in> set files"
  then obtain n where "fs_id fs \<in> set (map file_number [n - length files..<n])" unfolding ids_ok_def by (metis image_eqI list.set_map)
  then show ?thesis using file_number_bounds(1) by auto
qed

lemma last_isFull_inv:
  assumes "sq_inv img sq blocks" "sq_files sq \<noteq> []" "last_isFull so now force sq = (full, sq')"
  shows "sq_inv img sq' blocks" "full = fs_full (last_file sq')" "sq_queue sq' = sq_queue sq" "sq_lastFileStoreId sq' = sq_lastFileStoreId sq"
    "length (sq_files sq') = length (sq_files sq)"
proof -
  let ?k = "length (sq_files sq) - 1"
  have k: "?k < length (sq_files sq)" using assms(2) by simp
  obtain fs where fs: "fs_isFull (so_file_max_size so) (so_file_max_time_ms so) now force (sq_files sq ! ?k) = (full, fs)" "sq' = set_last_file fs sq"
    using assms(3) by (auto simp: last_isFull_def last_file_def split: prod.splits)
  note f = files_ok_isFull [OF _ k fs(1)]
  have ok: "files_ok img (sq_files sq) blocks" using assms(1) by (simp add: sq_inv_def)
  show "sq_inv img sq' blocks" using assms(1) f(1,2) [OF ok] ids_update by (auto simp: sq_inv_def fs(2) set_last_file_def)
  show "full = fs_full (last_file sq')" using f(3) [OF ok] k by (simp add: fs(2) set_last_file_def last_file_def)
  show "sq_queue sq' = sq_queue sq" "sq_lastFileStoreId sq' = sq_lastFileStoreId sq" "length (sq_files sq') = length (sq_files sq)"
    by (simp_all add: fs(2) set_last_file_def)
qed

lemma new_file_inv:
  assumes "sq_inv img sq blocks" "length (sq_files sq) < 2 ^ 32 - 1"
  defines "i \<equiv> next_file_id (sq_lastFileStoreId sq)"
  shows "sq_inv (img(unat i := [])) (sq\<lparr>sq_lastFileStoreId := i, sq_files := sq_files sq @ [file_store_new (unat i) now]\<rparr>) blocks"
    "unat i \<notin> fs_id ` set (sq_files sq)"
proof -
  have "ids_ok (sq_files sq) (sq_lastFileStoreId sq)" using assms(1) by (simp add: sq_inv_def)
  note n = ids_new [OF this assms(2), folded i_def]
  show "unat i \<notin> fs_id ` set (sq_files sq)" by (rule n(2))
  have "unat i \<noteq> 0" using n(3) by (simp add: unat_eq_zero)
  then show "sq_inv (img(unat i := [])) (sq\<lparr>sq_lastFileStoreId := i, sq_files := sq_files sq @ [file_store_new (unat i) now]\<rparr>) blocks"
    using assms(1,2) n(1,2) files_ok_new by (simp add: sq_inv_def)
qed

lemma push_last_inv:
  assumes inv: "sq_inv img sq blocks" and ne: "sq_files sq \<noteq> []" "\<not> fs_full (last_file sq)" and st: "block_fits cf st" "bs_packed zo st items"
    and r: "fs_push cf g t open_ok w st (last_file sq) = Ret (ok, st', fs)"
  shows "\<exists>img'. sq_inv img' (set_last_file fs sq) (if ok then st' # blocks else blocks) \<and>
    (\<forall>s it. stands cf zo img s it \<longrightarrow> stands cf zo img' s it) \<and> (if ok then stands cf zo img' st' items else st' = st)"
proof -
  let ?k = "length (sq_files sq) - 1"
  have k: "?k < length (sq_files sq)" using ne(1) by simp
  have i: "files_ok img (sq_files sq) blocks" "ids_ok (sq_files sq) (sq_lastFileStoreId sq)" "length (sq_files sq) \<le> 2 ^ 32 - 1"
    using inv by (simp_all add: sq_inv_def)
  have id: "fs_id (sq_files sq ! ?k) \<noteq> 0" using ids_pos [OF i(2)] k by simp
  note p = files_ok_push [OF i(1) k ids_distinct [OF i(2,3)] id ne(2) [unfolded last_file_def] st r [unfolded last_file_def]]
  have ids: "ids_ok ((sq_files sq)[?k := fs]) (sq_lastFileStoreId sq)"
    by (rule ids_update [OF i(2)]) (use fs_push_counts(1) [OF r] in \<open>simp add: last_file_def\<close>)
  show ?thesis
  proof (cases ok)
    case True
    then show ?thesis using p(2) ids i(3) stands_mono by (intro exI [of _ "img(fs_id fs := img (fs_id fs) @ [block_image cf g t 0 st])"]) (simp add: sq_inv_def set_last_file_def)
  next
    case False
    then show ?thesis using p(1) ids i(3) by (intro exI [of _ img]) (simp add: sq_inv_def set_last_file_def)
  qed
qed

lemma inv_mem_block:
  assumes "sq_inv img sq blocks" "bs_idFileStore st = 0"
  shows "sq_inv img sq (st # blocks)"
proof -
  have "file_ok img (st # blocks) fs" if "fs \<in> set (sq_files sq)" for fs
    using that assms ids_pos [of "sq_files sq" "sq_lastFileStoreId sq" fs] by (auto simp: sq_inv_def files_ok_def file_ok_def)
  then show ?thesis using assms by (auto simp: sq_inv_def files_ok_def)
qed

lemma push_file_inv:
  assumes inv: "sq_inv img sq blocks" and l: "length (sq_files sq) < 2 ^ 32 - 1" and st: "block_fits cf st" "bs_packed zo st items"
    and r: "sq_push_file so cf e st sq = Ret (ok, st', sq')"
  shows "\<exists>img'. sq_inv img' sq' (if ok then st' # blocks else blocks) \<and> (\<forall>s \<in> set blocks. \<forall>it. stands cf zo img s it \<longrightarrow> stands cf zo img' s it) \<and>
    (if ok then stands cf zo img' st' items else st' = st) \<and> sq_queue sq' = sq_queue sq"
proof (cases "getFileStoreUseSize sq > so_max_disk_size so")
  case True
  then show ?thesis using r inv by (auto simp: sq_push_file_def)
next
  case False
  obtain new sq1 where p: "(if sq_files sq = [] then (True, sq) else last_isFull so (pe_now2 e) False sq) = (new, sq1)" by force
  have s1: "sq_inv img sq1 blocks" "sq_queue sq1 = sq_queue sq" "length (sq_files sq1) = length (sq_files sq)"
    "new \<or> sq_files sq1 \<noteq> [] \<and> \<not> fs_full (last_file sq1)"
    using p inv last_isFull_inv [OF inv, of so "pe_now2 e" False new sq1] by (auto split: if_splits)
  define i where "i = next_file_id (sq_lastFileStoreId sq1)"
  define sq2 where "sq2 = (if new then sq1\<lparr>sq_lastFileStoreId := i, sq_files := sq_files sq1 @ [file_store_new (unat i) (pe_now3 e)]\<rparr> else sq1)"
  have l1: "length (sq_files sq1) < 2 ^ 32 - 1" using l s1(3) by simp
  note n = new_file_inv [OF s1(1) l1, folded i_def]
  define img2 where "img2 = (if new then img(unat i := []) else img)"
  have s2: "sq_inv img2 sq2 blocks" "sq_files sq2 \<noteq> []" "\<not> fs_full (last_file sq2)" "sq_queue sq2 = sq_queue sq"
    using n(1) s1(1,2,4) by (auto simp: sq2_def img2_def last_file_def file_store_new_def nth_append)
  have m: "stands cf zo img2 s it" if "s \<in> set blocks" "stands cf zo img s it" for s it
    using that s1(1) n(2) stands_new_file [of cf zo img s it "sq_files sq1" "unat i" "[]"] by (auto simp: img2_def sq_inv_def files_ok_def)
  have eq: "sq_push_file so cf e st sq = omap (\<lambda>(ok, st, fs). (ok, st, set_last_file fs sq2))
      (fs_push cf (pe_heap e) (pe_now_s e) (pe_open_ok e) (pe_written e) st (last_file sq2))"
    using False by (simp add: sq_push_file_def p sq2_def i_def Let_def)
  obtain fs where fs: "fs_push cf (pe_heap e) (pe_now_s e) (pe_open_ok e) (pe_written e) st (last_file sq2) = Ret (ok, st', fs)" "sq' = set_last_file fs sq2"
    using r [unfolded eq] by (auto simp: omap_Ret_iff)
  obtain img' where "sq_inv img' sq' (if ok then st' # blocks else blocks)" "\<forall>s it. stands cf zo img2 s it \<longrightarrow> stands cf zo img' s it"
    "if ok then stands cf zo img' st' items else st' = st"
    using push_last_inv [OF s2(1-3) st fs(1)] fs(2) by blast
  moreover have "sq_queue sq' = sq_queue sq" using fs(2) s2(4) by (simp add: set_last_file_def)
  ultimately show ?thesis using m by blast
qed

lemma push_store_inv:
  assumes inv: "sq_inv img sq blocks" and l: "length (sq_files sq) < 2 ^ 32 - 1" and st: "block_fits cf st" "bs_packed zo st items" "bs_idFileStore st = 0"
    and r: "sq_push_store so mo cf e st sq = Ret (ok, st', bc, sq')"
  shows "\<exists>img'. sq_inv img' sq' (if ok then st' # blocks else blocks) \<and> (\<forall>s \<in> set blocks. \<forall>it. stands cf zo img s it \<longrightarrow> stands cf zo img' s it) \<and>
    (if ok then stands cf zo img' st' items else st' = st) \<and> sq_queue sq' = sq_queue sq"
proof -
  obtain save sq1 where p: "sq_saveToFileStore so e sq = (save, sq1)" by force
  obtain full sq0 where q: "last_isFull so (pe_now1 e) (pb_used_size (pe_bc2 e) = 0) sq = (full, sq0)" by force
  have "sq1 = sq \<or> sq_files sq \<noteq> [] \<and> sq1 = sq0" using p q by (auto simp: sq_saveToFileStore_def split: if_splits)
  then have s1: "sq_inv img sq1 blocks" "length (sq_files sq1) < 2 ^ 32 - 1" "sq_queue sq1 = sq_queue sq"
    using inv l last_isFull_inv [OF inv _ q] by metis+
  show ?thesis
  proof (cases save)
    case True
    then have "sq_push_file so cf e st sq1 = Ret (ok, st', sq')" using r p by (auto simp: sq_push_store_def omap_Ret_iff)
    then show ?thesis using push_file_inv [OF s1(1,2) st(1,2)] s1(3) by simp
  next
    case False
    then have m: "st' = st" "sq_queue sq' = sq_queue sq" "sq_files sq' = sq_files sq1" "sq_lastFileStoreId sq' = sq_lastFileStoreId sq1"
      using r p s1(3) by (auto simp: sq_push_store_def sq_push_memory_def split: if_splits)
    have "sq_inv img sq' blocks" using s1(1) m by (simp add: sq_inv_def)
    then show ?thesis using m st inv_mem_block [of img sq' blocks st] by (intro exI [of _ img]) (simp add: stands_def)
  qed
qed


section \<open>Producers and the consumer\<close>

text \<open>The consumer is outside \<open>pop\<close> or waits in it for the file at an index. A producer that has stored a block has not yet put it
  into the queue. \<open>y_in\<close> lists the packets of the blocks in the order they entered the queue, \<open>y_out\<close> what \<open>pop\<close> handed out, with
  the answer to \<open>fopen\<close>.\<close>

datatype sq_consumer = Idle | Waiting pcap_block_store nat

record queue_sys =
  y_sq :: store_queue
  y_pend :: "(pcap_block_store \<times> pkt list) list"
  y_cons :: sq_consumer
  y_in :: "pkt list list"
  y_out :: "(bool \<times> block_ptr) list"

definition queue_sys_new :: queue_sys where
  "queue_sys_new = \<lparr>y_sq = store_queue_new, y_pend = [], y_cons = Idle, y_in = [], y_out = []\<rparr>"

text \<open>The read handle of a file sees at least what has been flushed.\<close>

definition disk_ok :: "pop_env \<Rightarrow> pcap_block_store \<Rightarrow> pcap_file_store \<Rightarrow> bool" where
  "disk_ok e st fs =
     (take (fs_fileSizeFlushed (fs_flush (bs_filePosition st) fs)) (po_disk e) = take (fs_fileSizeFlushed (fs_flush (bs_filePosition st) fs)) (fs_file fs))"

inductive sq_step :: "sq_opts \<Rightarrow> mem_opts \<Rightarrow> pb_opts \<Rightarrow> zip_opts \<Rightarrow> queue_sys \<Rightarrow> queue_sys \<Rightarrow> bool" for so mo cf zo where
  p_store: "sq_push_store so mo cf e st (y_sq s) = Ret (True, st', bc, sq) \<Longrightarrow>
     block_fits cf st \<Longrightarrow> bs_packed zo st items \<Longrightarrow> bs_idFileStore st = 0 \<Longrightarrow> length (sq_files (y_sq s)) < 2 ^ 32 - 1 \<Longrightarrow>
     sq_step so mo cf zo s (s\<lparr>y_sq := sq, y_pend := (st', items) # y_pend s\<rparr>)"
| p_fail: "sq_push_store so mo cf e st (y_sq s) = Ret (False, st', bc, sq) \<Longrightarrow>
     block_fits cf st \<Longrightarrow> bs_packed zo st items \<Longrightarrow> bs_idFileStore st = 0 \<Longrightarrow> length (sq_files (y_sq s)) < 2 ^ 32 - 1 \<Longrightarrow>
     sq_step so mo cf zo s (s\<lparr>y_sq := sq\<rparr>)"
| p_enqueue: "(st, items) \<in> set (y_pend s) \<Longrightarrow>
     sq_step so mo cf zo s (s\<lparr>y_sq := sq_enqueue st (y_sq s), y_pend := remove1 (st, items) (y_pend s), y_in := y_in s @ [items]\<rparr>)"
| c_memory: "y_cons s = Idle \<Longrightarrow> sq_take (y_sq s) = (Some st, sq) \<Longrightarrow> bs_idFileStore st = 0 \<Longrightarrow>
     sq_step so mo cf zo s (s\<lparr>y_sq := sq_pop_done sq, y_out := y_out s @ [(True, Live st)]\<rparr>)"
| c_find: "y_cons s = Idle \<Longrightarrow> sq_take (y_sq s) = (Some st, sq) \<Longrightarrow> bs_idFileStore st \<noteq> 0 \<Longrightarrow> findFileStoreById (bs_idFileStore st) sq = Some k \<Longrightarrow>
     sq_step so mo cf zo s (s\<lparr>y_sq := sq, y_cons := Waiting st k\<rparr>)"
| c_missing: "y_cons s = Idle \<Longrightarrow> sq_take (y_sq s) = (Some st, sq) \<Longrightarrow> bs_idFileStore st \<noteq> 0 \<Longrightarrow> findFileStoreById (bs_idFileStore st) sq = None \<Longrightarrow>
     sq_step so mo cf zo s (s\<lparr>y_sq := sq, y_out := y_out s @ [(True, Freed)]\<rparr>)"
| c_read: "y_cons s = Waiting st k \<Longrightarrow> fs_full (sq_files (y_sq s) ! k) \<Longrightarrow> disk_ok e st (sq_files (y_sq s) ! k) \<Longrightarrow>
     sq_pop_file so cf e k st (y_sq s) = Ret (ok, st', sq) \<Longrightarrow>
     sq_step so mo cf zo s (s\<lparr>y_sq := (if ok then sq_pop_done sq else sq), y_cons := Idle,
       y_out := y_out s @ [(po_open_ok e, if ok then Live st' else Freed)]\<rparr>)"

inductive sq_reach :: "sq_opts \<Rightarrow> mem_opts \<Rightarrow> pb_opts \<Rightarrow> zip_opts \<Rightarrow> queue_sys \<Rightarrow> bool" for so mo cf zo where
  sq_start: "sq_reach so mo cf zo queue_sys_new"
| sq_next: "sq_reach so mo cf zo s \<Longrightarrow> sq_step so mo cf zo s s' \<Longrightarrow> sq_reach so mo cf zo s'"

inductive_cases sq_stepE: "sq_step so mo cf zo s s'"

fun taken :: "sq_consumer \<Rightarrow> pcap_block_store list" where
  "taken Idle = []"
| "taken (Waiting st k) = [st]"

definition out_ok :: "zip_opts \<Rightarrow> bool \<times> block_ptr \<Rightarrow> pkt list \<Rightarrow> bool" where
  "out_ok zo r items = ((\<exists>st. snd r = Live st \<and> bs_packed zo st items) \<or> snd r = Freed \<and> \<not> fst r)"

definition y_blocks :: "queue_sys \<Rightarrow> pcap_block_store list" where
  "y_blocks s = taken (y_cons s) @ sq_queue (y_sq s) @ map fst (y_pend s)"

definition sys_inv :: "pb_opts \<Rightarrow> zip_opts \<Rightarrow> (nat \<Rightarrow> mem list) \<Rightarrow> queue_sys \<Rightarrow> bool" where
  "sys_inv cf zo img s =
     (sq_inv img (y_sq s) (y_blocks s) \<and>
      (\<exists>ins outs. y_in s = outs @ ins \<and> list_all2 (out_ok zo) (y_out s) outs \<and>
         list_all2 (stands cf zo img) (taken (y_cons s) @ sq_queue (y_sq s)) ins) \<and>
      (\<forall>(st, items) \<in> set (y_pend s). stands cf zo img st items) \<and>
      (case y_cons s of Idle \<Rightarrow> True
       | Waiting st k \<Rightarrow> k < length (sq_files (y_sq s)) \<and> fs_id (sq_files (y_sq s) ! k) = bs_idFileStore st \<and> bs_idFileStore st \<noteq> 0))"

lemma sq_inv_mset: "sq_inv img sq xs \<Longrightarrow> mset xs = mset ys \<Longrightarrow> sq_inv img sq ys"
proof -
  assume a: "sq_inv img sq xs" "mset xs = mset ys"
  have "blocks_in i xs = blocks_in i ys" for i unfolding blocks_in_def by (metis a(2) mset_filter size_mset)
  then have "file_ok img xs = file_ok img ys" by (intro ext) (simp add: file_ok_def)
  moreover have "set xs = set ys" using a(2) by (metis set_mset_mset)
  ultimately show ?thesis using a(1) by (simp add: sq_inv_def files_ok_def)
qed

lemma last_isFull_ids:
  assumes "last_isFull so now force sq = (full, sq')"
  shows "map fs_id (sq_files sq') = map fs_id (sq_files sq)"
proof -
  obtain fs where fs: "fs_isFull (so_file_max_size so) (so_file_max_time_ms so) now force (last_file sq) = (full, fs)" "sq' = set_last_file fs sq"
    using assms by (auto simp: last_isFull_def split: prod.splits)
  have "fs_id fs = fs_id (last_file sq)" using fs(1) by (auto simp: fs_isFull_def fs_close_def split: if_splits)
  then show ?thesis by (simp add: fs(2) set_last_file_def last_file_def map_update) (metis list_update_id map_update)
qed

lemma push_store_ids:
  assumes "sq_push_store so mo cf e st sq = Ret (ok, st', bc, sq')"
  shows "\<exists>new. map fs_id (sq_files sq') = map fs_id (sq_files sq) @ new"
proof -
  obtain save sq1 where p: "sq_saveToFileStore so e sq = (save, sq1)" by force
  obtain full sq0 where q: "last_isFull so (pe_now1 e) (pb_used_size (pe_bc2 e) = 0) sq = (full, sq0)" by force
  have "sq1 = sq \<or> sq1 = sq0" using p q by (auto simp: sq_saveToFileStore_def split: if_splits)
  then have s1: "map fs_id (sq_files sq1) = map fs_id (sq_files sq)" using last_isFull_ids [OF q] by auto
  obtain new sq2 where p2: "(if sq_files sq1 = [] then (True, sq1) else last_isFull so (pe_now2 e) False sq1) = (new, sq2)" by force
  have s2: "map fs_id (sq_files sq2) = map fs_id (sq_files sq1)" using p2 last_isFull_ids [of so "pe_now2 e" False sq1 new sq2] by (auto split: if_splits)
  define i where "i = next_file_id (sq_lastFileStoreId sq2)"
  define sq3 where "sq3 = (if new then sq2\<lparr>sq_lastFileStoreId := i, sq_files := sq_files sq2 @ [file_store_new (unat i) (pe_now3 e)]\<rparr> else sq2)"
  have l: "map fs_id (sq_files (set_last_file fs sq3)) = map fs_id (sq_files sq3)" if "fs_id fs = fs_id (last_file sq3)" for fs
    using that by (simp add: set_last_file_def last_file_def map_update) (metis list_update_id map_update)
  have "sq_files sq' = sq_files sq1 \<or> (\<exists>fs. fs_id fs = fs_id (last_file sq3) \<and> sq' = set_last_file fs sq3)"
    using assms p2 fs_push_counts(1) [of cf "pe_heap e" "pe_now_s e" "pe_open_ok e" "pe_written e" st "last_file sq3"]
    by (auto simp: sq_push_store_def p sq_push_file_def sq_push_memory_def sq3_def i_def omap_Ret_iff Let_def split: if_splits)
  moreover have "\<exists>x. map fs_id (sq_files sq3) = map fs_id (sq_files sq) @ x" using s1 s2 by (auto simp: sq3_def)
  ultimately show ?thesis using s1 l by auto
qed

lemma pop_done_inv:
  assumes "sq_inv img sq blocks"
  shows "sq_inv img (sq_pop_done sq) blocks" "sq_queue (sq_pop_done sq) = sq_queue sq"
proof -
  obtain m where "cleanup_files (sq_files sq) = drop m (sq_files sq)" using cleanup_files_drop by blast
  moreover have "files_ok img (cleanup_files (sq_files sq)) blocks" using assms files_ok_cleanup by (simp add: sq_inv_def)
  ultimately have "sq_inv img (cleanupFileStore (sq\<lparr>sq_cleanupCounter := c\<rparr>)) blocks" for c
    using assms ids_drop by (auto simp: sq_inv_def cleanupFileStore_def)
  then show "sq_inv img (sq_pop_done sq) blocks" using assms by (auto simp: sq_pop_done_def Let_def sq_inv_def)
  show "sq_queue (sq_pop_done sq) = sq_queue sq" by (simp add: sq_pop_done_def cleanupFileStore_def Let_def)
qed

lemma stands_list_mono:
  "list_all2 (stands cf zo img) xs ys \<Longrightarrow> \<forall>s \<in> set xs. \<forall>it. stands cf zo img s it \<longrightarrow> stands cf zo img' s it \<Longrightarrow> list_all2 (stands cf zo img') xs ys"
  by (induction xs ys rule: list_all2_induct) auto

lemma step_store:
  assumes inv: "sys_inv cf zo img s" and r: "sq_push_store so mo cf e st (y_sq s) = Ret (ok, st', bc, sq)"
    and st: "block_fits cf st" "bs_packed zo st items" "bs_idFileStore st = 0" and l: "length (sq_files (y_sq s)) < 2 ^ 32 - 1"
  shows "\<exists>img'. sys_inv cf zo img' (if ok then s\<lparr>y_sq := sq, y_pend := (st', items) # y_pend s\<rparr> else s\<lparr>y_sq := sq\<rparr>)"
proof -
  have i: "sq_inv img (y_sq s) (y_blocks s)" using inv by (simp add: sys_inv_def)
  obtain img' where p: "sq_inv img' sq (if ok then st' # y_blocks s else y_blocks s)"
    "\<forall>s \<in> set (y_blocks s). \<forall>it. stands cf zo img s it \<longrightarrow> stands cf zo img' s it" "ok \<longrightarrow> stands cf zo img' st' items" "sq_queue sq = sq_queue (y_sq s)"
    using push_store_inv [OF i l st r] by (auto split: if_splits)
  obtain new where n: "map fs_id (sq_files sq) = map fs_id (sq_files (y_sq s)) @ new" using push_store_ids [OF r] by blast
  have k: "k < length (sq_files sq) \<and> fs_id (sq_files sq ! k) = fs_id (sq_files (y_sq s) ! k)" if "k < length (sq_files (y_sq s))" for k
    using that n by (metis length_append length_map nth_append nth_map trans_less_add1)
  let ?s = "if ok then s\<lparr>y_sq := sq, y_pend := (st', items) # y_pend s\<rparr> else s\<lparr>y_sq := sq\<rparr>"
  have "mset (if ok then st' # y_blocks s else y_blocks s) = mset (y_blocks ?s)" using p(4) by (simp add: y_blocks_def)
  with p(1) have "sq_inv img' sq (y_blocks ?s)" using sq_inv_mset by blast
  moreover obtain ins outs where io: "y_in s = outs @ ins" "list_all2 (out_ok zo) (y_out s) outs" "list_all2 (stands cf zo img) (taken (y_cons s) @ sq_queue (y_sq s)) ins"
    using inv by (auto simp: sys_inv_def)
  moreover have "list_all2 (stands cf zo img') (taken (y_cons s) @ sq_queue (y_sq s)) ins"
    by (rule stands_list_mono [OF io(3)]) (use p(2) in \<open>auto simp: y_blocks_def\<close>)
  moreover have "stands cf zo img' a b" if "(a, b) \<in> set (y_pend s)" for a b
  proof -
    have "a \<in> set (y_blocks s)" using that by (force simp: y_blocks_def)
    then show ?thesis using inv p(2) that by (auto simp: sys_inv_def)
  qed
  then have "\<forall>(st, items) \<in> set (y_pend ?s). stands cf zo img' st items" using p(3) by auto
  ultimately show ?thesis using inv p(4) k by (intro exI [of _ img']) (auto simp: sys_inv_def split: sq_consumer.splits)
qed

lemma step_enqueue:
  assumes inv: "sys_inv cf zo img s" and e: "(st, items) \<in> set (y_pend s)"
  shows "sys_inv cf zo img (s\<lparr>y_sq := sq_enqueue st (y_sq s), y_pend := remove1 (st, items) (y_pend s), y_in := y_in s @ [items]\<rparr>)" (is "sys_inv _ _ _ ?s")
proof -
  obtain xs ys where xy: "y_pend s = xs @ (st, items) # ys" "remove1 (st, items) (y_pend s) = xs @ ys"
    using e by (metis split_list_first remove1_split)
  have "mset (y_blocks s) = mset (y_blocks ?s)" by (simp add: y_blocks_def sq_enqueue_def xy)
  then have "sq_inv img (y_sq s) (y_blocks ?s)" using inv sq_inv_mset by (auto simp: sys_inv_def)
  then have "sq_inv img (y_sq ?s) (y_blocks ?s)" by (simp add: sq_inv_def sq_enqueue_def)
  moreover obtain ins outs where io: "y_in s = outs @ ins" "list_all2 (out_ok zo) (y_out s) outs" "list_all2 (stands cf zo img) (taken (y_cons s) @ sq_queue (y_sq s)) ins"
    using inv by (auto simp: sys_inv_def)
  moreover have "stands cf zo img st items" using inv e by (auto simp: sys_inv_def)
  then have "list_all2 (stands cf zo img) (taken (y_cons ?s) @ sq_queue (y_sq ?s)) (ins @ [items])"
    using list_all2_appendI [OF io(3), of "[st]" "[items]"] by (simp add: sq_enqueue_def)
  ultimately show ?thesis using inv xy unfolding sys_inv_def
    by (intro conjI exI [of _ "ins @ [items]"] exI [of _ outs]) (auto simp: sq_enqueue_def split: sq_consumer.splits)
qed


lemma sq_take_Some: "sq_take sq = (Some st, sq') \<longleftrightarrow> (\<exists>q. sq_queue sq = st # q \<and> sq' = sq\<lparr>sq_queue := q\<rparr>)"
  by (auto simp: sq_take_def split: list.splits)

lemma sq_inv_queue [simp]: "sq_inv img (sq\<lparr>sq_queue := q\<rparr>) blocks = sq_inv img sq blocks"
  by (simp add: sq_inv_def)

lemma sq_inv_drop: "sq_inv img sq (st # blocks) \<Longrightarrow> bs_idFileStore st = 0 \<Longrightarrow> sq_inv img sq blocks"
  by (auto simp: sq_inv_def files_ok_def file_ok_def)

lemma step_memory:
  assumes inv: "sys_inv cf zo img s" and c: "y_cons s = Idle" "sq_take (y_sq s) = (Some st, sq)" "bs_idFileStore st = 0"
  shows "sys_inv cf zo img (s\<lparr>y_sq := sq_pop_done sq, y_out := y_out s @ [(True, Live st)]\<rparr>)"
proof -
  obtain q where q: "sq_queue (y_sq s) = st # q" "sq = (y_sq s)\<lparr>sq_queue := q\<rparr>" using c(2) sq_take_Some by blast
  obtain ins outs where io: "y_in s = outs @ ins" "list_all2 (out_ok zo) (y_out s) outs" "list_all2 (stands cf zo img) (st # q) ins"
    using inv c(1) q(1) by (auto simp: sys_inv_def)
  then obtain it ins' where i: "ins = it # ins'" "stands cf zo img st it" "list_all2 (stands cf zo img) q ins'" by (auto simp: list_all2_Cons1)
  have "sq_inv img (y_sq s) (st # q @ map fst (y_pend s))" using inv c(1) q(1) by (simp add: sys_inv_def y_blocks_def)
  then have "sq_inv img sq (q @ map fst (y_pend s))" using sq_inv_drop c(3) q(2) by auto
  note p = pop_done_inv [OF this]
  have "list_all2 (out_ok zo) (y_out s @ [(True, Live st)]) (outs @ [it])"
    using io(2) i(2) c(3) by (intro list_all2_appendI) (auto simp: out_ok_def stands_def)
  then show ?thesis using inv c(1) io i p q unfolding sys_inv_def
    by (intro conjI exI [of _ ins'] exI [of _ "outs @ [it]"]) (auto simp: y_blocks_def)
qed

lemma step_find:
  assumes inv: "sys_inv cf zo img s" and c: "y_cons s = Idle" "sq_take (y_sq s) = (Some st, sq)" "bs_idFileStore st \<noteq> 0"
  shows "findFileStoreById (bs_idFileStore st) sq \<noteq> None"
    "findFileStoreById (bs_idFileStore st) sq = Some k \<Longrightarrow> sys_inv cf zo img (s\<lparr>y_sq := sq, y_cons := Waiting st k\<rparr>)"
proof -
  obtain q where q: "sq_queue (y_sq s) = st # q" "sq = (y_sq s)\<lparr>sq_queue := q\<rparr>" using c(2) sq_take_Some by blast
  have i: "sq_inv img (y_sq s) (st # q @ map fst (y_pend s))" using inv c(1) q(1) by (simp add: sys_inv_def y_blocks_def)
  then have "bs_idFileStore st \<in> fs_id ` set (sq_files (y_sq s))" using c(3) by (auto simp: sq_inv_def files_ok_def)
  then show "findFileStoreById (bs_idFileStore st) sq \<noteq> None" using find_file_found q(2) by (simp add: findFileStoreById_def)
  assume "findFileStoreById (bs_idFileStore st) sq = Some k"
  then have "k < length (sq_files (y_sq s)) \<and> fs_id (sq_files (y_sq s) ! k) = bs_idFileStore st"
    using find_file_Some q(2) by (simp add: findFileStoreById_def)
  then show "sys_inv cf zo img (s\<lparr>y_sq := sq, y_cons := Waiting st k\<rparr>)" using inv c q i by (simp add: sys_inv_def y_blocks_def)
qed

lemma step_read:
  assumes inv: "sys_inv cf zo img s" and c: "y_cons s = Waiting st k" "disk_ok e st (sq_files (y_sq s) ! k)"
    and r: "sq_pop_file so cf e k st (y_sq s) = Ret (ok, st', sq)"
  shows "sys_inv cf zo img (s\<lparr>y_sq := (if ok then sq_pop_done sq else sq), y_cons := Idle,
       y_out := y_out s @ [(po_open_ok e, if ok then Live st' else Freed)]\<rparr>)"
proof -
  have k: "k < length (sq_files (y_sq s))" "fs_id (sq_files (y_sq s) ! k) = bs_idFileStore st" "bs_idFileStore st \<noteq> 0"
    using inv c(1) by (simp_all add: sys_inv_def)
  have i: "sq_inv img (y_sq s) (st # sq_queue (y_sq s) @ map fst (y_pend s))" using inv c(1) by (simp add: sys_inv_def y_blocks_def)
  have ok: "files_ok img (sq_files (y_sq s)) (st # sq_queue (y_sq s) @ map fst (y_pend s))" using i by (simp add: sq_inv_def)
  let ?lim = "(so_file_max_size so, so_file_max_time_ms so, po_now e)"
  obtain fs where p: "fs_pop cf (po_heap e) (po_now_s e) (po_open_ok e) (po_disk e) ?lim st (sq_files (y_sq s) ! k) = Ret (ok, st', fs)"
    "sq = (y_sq s)\<lparr>sq_files := (sq_files (y_sq s))[k := fs]\<rparr>" using r by (auto simp: sq_pop_file_def omap_Ret_iff)
  have "files_ok img ((sq_files (y_sq s))[k := fs]) (sq_queue (y_sq s) @ map fst (y_pend s))" by (rule files_ok_pop [OF ok k(1,2) p(1)])
  then have i': "sq_inv img sq (sq_queue (y_sq s) @ map fst (y_pend s))"
    using i p(2) ids_update [of "sq_files (y_sq s)" "sq_lastFileStoreId (y_sq s)" fs k] fs_pop_counts(1) [OF p(1)] by (simp add: sq_inv_def)
  obtain ins outs where io: "y_in s = outs @ ins" "list_all2 (out_ok zo) (y_out s) outs" "list_all2 (stands cf zo img) (st # sq_queue (y_sq s)) ins"
    using inv c(1) by (auto simp: sys_inv_def)
  then obtain it ins' where s: "ins = it # ins'" "stands cf zo img st it" "list_all2 (stands cf zo img) (sq_queue (y_sq s)) ins'" by (auto simp: list_all2_Cons1)
  have f: "fs_ok (sq_files (y_sq s) ! k) (img (bs_idFileStore st))" using files_ok_nth [OF ok k(1)] k(2) by (simp add: file_ok_def)
  have o: "out_ok zo (po_open_ok e, if ok then Live st' else Freed) it"
  proof (cases "fs_handlePop (sq_files (y_sq s) ! k) \<or> po_open_ok e")
    case True
    then show ?thesis using stands_pop [OF s(2) k(3) f True c(2) [unfolded disk_ok_def], of "po_heap e" "po_now_s e" ?lim] p(1) by (auto simp: out_ok_def)
  next
    case False
    then have "\<not> ok" using p(1) k(3) by (auto simp: fs_pop_def fs_open_def split: if_splits)
    then show ?thesis using False by (simp add: out_ok_def)
  qed
  have "list_all2 (out_ok zo) (y_out s @ [(po_open_ok e, if ok then Live st' else Freed)]) (outs @ [it])"
    using io(2) o by (intro list_all2_appendI) auto
  then show ?thesis using inv io s i' pop_done_inv [OF i'] p(2) unfolding sys_inv_def
    by (intro conjI exI [of _ ins'] exI [of _ "outs @ [it]"]) (auto simp: y_blocks_def)
qed

lemma sq_reach_inv: "sq_reach so mo cf zo s \<Longrightarrow> \<exists>img. sys_inv cf zo img s"
proof (induction rule: sq_reach.induct)
  case sq_start
  show ?case by (auto simp: sys_inv_def queue_sys_new_def store_queue_new_def y_blocks_def sq_inv_def files_ok_def ids_ok_def intro: exI [of _ 0])
next
  case (sq_next s s')
  then obtain img where inv: "sys_inv cf zo img s" by blast
  from sq_next.hyps(2) show ?case
  proof (cases rule: sq_step.cases)
    case (p_store e st st' bc sq items)
    then show ?thesis using step_store [OF inv p_store(2-6)] by simp
  next
    case (p_fail e st st' bc sq items)
    then show ?thesis using step_store [OF inv p_fail(2-6)] by simp
  next
    case p_enqueue
    then show ?thesis using step_enqueue [OF inv] by blast
  next
    case c_memory
    then show ?thesis using step_memory [OF inv] by blast
  next
    case c_find
    then show ?thesis using step_find(2) [OF inv] by blast
  next
    case c_missing
    then show ?thesis using step_find(1) [OF inv] by blast
  next
    case c_read
    then show ?thesis using step_read [OF inv] by blast
  qed
qed


lemma packed_readable:
  assumes "bs_packed zo st items"
  shows "\<exists>st'. bs_uncompress zo g compress_method_default st = Ret (True, st') \<and> (\<forall>j. bs_read st' j = Ret (if j < length items then Some (items ! j) else None))"
proof -
  obtain st' where "bs_uncompress zo g compress_method_default st = Ret (True, st')" "bs_content st' items" by (rule packed_uncompress [OF assms])
  then show ?thesis using bs_read_content [of st' items] by (intro exI [of _ st']) simp
qed

lemma read_returns:
  assumes inv: "sys_inv cf zo img s" and c: "y_cons s = Waiting st k" "disk_ok e st (sq_files (y_sq s) ! k)"
  shows "\<exists>ok st' sq. sq_pop_file so cf e k st (y_sq s) = Ret (ok, st', sq) \<and> (po_open_ok e \<longrightarrow> ok)"
proof -
  have k: "k < length (sq_files (y_sq s))" "fs_id (sq_files (y_sq s) ! k) = bs_idFileStore st" "bs_idFileStore st \<noteq> 0"
    and ok: "files_ok img (sq_files (y_sq s)) (y_blocks s)" using inv c(1) by (simp_all add: sys_inv_def sq_inv_def)
  obtain it where s: "stands cf zo img st it" using inv c(1) by (auto simp: sys_inv_def list_all2_Cons1)
  have f: "fs_ok (sq_files (y_sq s) ! k) (img (bs_idFileStore st))" using files_ok_nth [OF ok k(1)] k(2) by (simp add: file_ok_def)
  show ?thesis
  proof (cases "fs_handlePop (sq_files (y_sq s) ! k) \<or> po_open_ok e")
    case True
    then show ?thesis using stands_pop [OF s k(3) f True c(2) [unfolded disk_ok_def], of "po_heap e" "po_now_s e" "(so_file_max_size so, so_file_max_time_ms so, po_now e)"]
      by (auto simp: sq_pop_file_def)
  next
    case False
    then show ?thesis using k(3) by (auto simp: sq_pop_file_def fs_pop_def fs_open_def)
  qed
qed

text \<open>C8: in every interleaving of the producers with the consumer the blocks leave the queue in the order they entered it, each with
  the packets it was pushed with, whether it stayed in memory or went through a file, was compressed or not; the file of a block is
  never removed before the block is read, and \<open>pop\<close> fails only when its file cannot be opened for reading.\<close>

theorem store_queue_fifo:
  assumes "sq_reach so mo cf zo s"
  shows "length (y_in s) = length (y_out s) + length (taken (y_cons s)) + length (sq_queue (y_sq s)) \<and>
    (\<forall>i < length (y_out s).
      (\<exists>st st'. snd (y_out s ! i) = Live st \<and> bs_uncompress zo g compress_method_default st = Ret (True, st') \<and>
         (\<forall>j. bs_read st' j = Ret (if j < length (y_in s ! i) then Some (y_in s ! i ! j) else None))) \<or>
      snd (y_out s ! i) = Freed \<and> \<not> fst (y_out s ! i))"
proof -
  obtain img where "sys_inv cf zo img s" using sq_reach_inv [OF assms] by blast
  then obtain ins outs where io: "y_in s = outs @ ins" "list_all2 (out_ok zo) (y_out s) outs"
    "list_all2 (stands cf zo img) (taken (y_cons s) @ sq_queue (y_sq s)) ins"
    by (auto simp: sys_inv_def)
  note l = list_all2_lengthD [OF io(2)] list_all2_lengthD [OF io(3)]
  have "(\<exists>st st'. snd (y_out s ! i) = Live st \<and> bs_uncompress zo g compress_method_default st = Ret (True, st') \<and>
         (\<forall>j. bs_read st' j = Ret (if j < length (y_in s ! i) then Some (y_in s ! i ! j) else None))) \<or>
      snd (y_out s ! i) = Freed \<and> \<not> fst (y_out s ! i)" if i: "i < length (y_out s)" for i
  proof -
    have "y_in s ! i = outs ! i" using i l(1) io(1) by (simp add: nth_append)
    moreover have "out_ok zo (y_out s ! i) (outs ! i)" using list_all2_nthD [OF io(2) i] .
    ultimately show ?thesis using packed_readable [of zo _ "outs ! i" g] unfolding out_ok_def by fastforce
  qed
  then show ?thesis using l io(1) by simp
qed



text \<open>A run: the memory is full, so the first block goes to a file; the consumer takes it and waits; then there is memory again, so
  the second block closes the file and stays in memory.\<close>

definition demo_sq_opts :: sq_opts where
  "demo_sq_opts = \<lparr>so_scanpcapdir = False, so_max_disk_size = 1000000, so_fileStoreFolder = ''/spool'', so_file_max_size = 100000, so_file_max_time_ms = 1000\<rparr>"

definition demo_push_env :: "buffers_control \<Rightarrow> push_env" where
  "demo_push_env bc = \<lparr>pe_terminating = False, pe_bc1 = bc, pe_bc2 = bc, pe_bc3 = bc, pe_now1 = 0, pe_now2 = 0, pe_now3 = 0, pe_now_s = 1000,
     pe_heap = (\<lambda>_. 5), pe_open_ok = True, pe_written = 107\<rparr>"

definition demo_pop_env :: "mem \<Rightarrow> pop_env" where
  "demo_pop_env disk = \<lparr>po_open_ok = True, po_disk = disk, po_now = 0, po_now_s = 2000, po_heap = (\<lambda>_. 5)\<rparr>"

definition demo_items :: "pkt list" where
  "demo_items = [(demo_header hm_plus 3, [1, 2, 3])]"

lemma demo_push_file:
  assumes "saveable src" "length (block_image demo_opts (\<lambda>_. 5) 1000 0 src) = 107"
  shows "sq_push_store demo_sq_opts mo demo_opts (demo_push_env buffers_control_new) src store_queue_new =
    Ret (True, (freeBlock src)\<lparr>bs_idFileStore := 1, bs_filePosition := 0\<rparr>, buffers_control_new,
      store_queue_new\<lparr>sq_lastFileStoreId := 1, sq_files := [(file_store_new 1 0)\<lparr>fs_handlePush := True,
        fs_file := block_image demo_opts (\<lambda>_. 5) 1000 0 src, fs_fileSize := 107, fs_countPush := 1\<rparr>]\<rparr>)"
  using getSaveBuffer_image [OF assms(1), of demo_opts "\<lambda>_. 5" 1000 0] assms(2)
  by (simp add: sq_push_store_def sq_saveToFileStore_def demo_sq_opts_def demo_push_env_def check_pb_add_used_def bc_check_def buffers_control_new_def
      sq_push_file_def getFileStoreUseSize_def store_queue_new_def next_file_id_def last_file_def set_last_file_def fs_push_def file_store_new_def
      fs_open_def typeHandlePush_def typeHandlePop_def file_write_def Let_def)

lemma demo_push_memory:
  assumes "sq_files sq = [fs]" "fs_fileSize fs = 107" "\<not> fs_full fs"
  shows "\<exists>bc. sq_push_store demo_sq_opts mo demo_opts (demo_push_env (setMaxBufferMemMB 100 20 buffers_control_new)) src sq =
    Ret (True, src, bc, sq\<lparr>sq_files := [(fs_close typeHandlePush fs)\<lparr>fs_full := True\<rparr>], sq_memory_is_full := False\<rparr>)"
  using assms
  by (simp add: sq_push_store_def sq_saveToFileStore_def demo_sq_opts_def demo_push_env_def check_pb_add_used_def bc_check_def bc_sum_def buffers_control_new_def
      setMaxBufferMemMB_def config_ENABLE_TOGETHER_READ_WRITE_FILE_def last_isFull_def last_file_def set_last_file_def fs_isFull_def sq_push_memory_def Let_def)

lemma demo_waiting:
  obtains s st where "sq_reach demo_sq_opts mo demo_opts demo_zip_opts s" "y_cons s = Waiting st 0" "fs_full (sq_files (y_sq s) ! 0)"
    "y_in s = [demo_items]" "y_out s = []"
proof -
  obtain src0 where src0: "bs_content src0 demo_items" "bs_ifname src0 = replicate 10 0" "bs_size src0 = 39" "bs_count src0 = 1"
    unfolding demo_items_def by (rule demo_block)
  define src where "src = src0\<lparr>bs_idFileStore := 0\<rparr>"
  have "bs_content (src0\<lparr>bs_idFileStore := 0\<rparr>) demo_items = bs_content src0 demo_items" by (simp add: bs_content_def bs_mem_def bs_ol_def)
  then have c: "bs_content src demo_items" using src0(1) by (simp add: src_def)
  then have src: "bs_content src demo_items" "bs_ifname src = replicate 10 0" "bs_size src = 39" "bs_count src = 1" "bs_idFileStore src = 0"
    using src0 by (simp_all add: src_def)
  have sz: "getSizeSaveBuffer src = 107" using src by (simp add: getSizeSaveBuffer_def getUseSize_def sizeof_header_def bs_content_def)
  have sv: "saveable src" by (rule content_saveable [OF src(1)]) (use sz src(2) in auto)
  have l: "length (block_image demo_opts (\<lambda>_. 5) 1000 0 src) = 107" using length_block_image [OF sv] sz by simp
  have fits: "block_fits demo_opts src" using sz sv by (simp add: block_fits_def demo_opts_def)
  have packed: "bs_packed demo_zip_opts src demo_items" using src(1) by (simp add: bs_packed_def)
  let ?st = "(freeBlock src)\<lparr>bs_idFileStore := 1, bs_filePosition := 0\<rparr>"
  let ?fs = "(file_store_new 1 0)\<lparr>fs_handlePush := True, fs_file := block_image demo_opts (\<lambda>_. 5) 1000 0 src, fs_fileSize := 107, fs_countPush := 1\<rparr>"
  let ?sq = "store_queue_new\<lparr>sq_lastFileStoreId := 1, sq_files := [?fs]\<rparr>"
  have "sq_reach demo_sq_opts mo demo_opts demo_zip_opts (queue_sys_new\<lparr>y_sq := ?sq, y_pend := [(?st, demo_items)]\<rparr>)"
    using p_store [of demo_sq_opts mo demo_opts "demo_push_env buffers_control_new" src queue_sys_new ?st buffers_control_new ?sq demo_zip_opts demo_items]
      demo_push_file [OF sv l] fits packed src(5)
    by (intro sq_next [OF sq_start]) (simp add: queue_sys_new_def store_queue_new_def)
  from sq_next [OF this p_enqueue, of ?st demo_items]
  have r2: "sq_reach demo_sq_opts mo demo_opts demo_zip_opts (queue_sys_new\<lparr>y_sq := ?sq\<lparr>sq_queue := [?st]\<rparr>, y_in := [demo_items]\<rparr>)"
    by (simp add: queue_sys_new_def sq_enqueue_def store_queue_new_def)
  have "sq_reach demo_sq_opts mo demo_opts demo_zip_opts (queue_sys_new\<lparr>y_sq := ?sq, y_in := [demo_items], y_cons := Waiting ?st 0\<rparr>)"
    using sq_next [OF r2 c_find, of ?st ?sq 0]
    by (simp add: queue_sys_new_def sq_take_def store_queue_new_def findFileStoreById_def file_store_new_def)
  moreover obtain bc where "sq_push_store demo_sq_opts mo demo_opts (demo_push_env (setMaxBufferMemMB 100 20 buffers_control_new)) src ?sq =
    Ret (True, src, bc, ?sq\<lparr>sq_files := [(fs_close typeHandlePush ?fs)\<lparr>fs_full := True\<rparr>], sq_memory_is_full := False\<rparr>)"
    using demo_push_memory [of ?sq ?fs mo src] by (auto simp: file_store_new_def)
  ultimately have "sq_reach demo_sq_opts mo demo_opts demo_zip_opts (queue_sys_new\<lparr>
      y_sq := ?sq\<lparr>sq_files := [(fs_close typeHandlePush ?fs)\<lparr>fs_full := True\<rparr>], sq_memory_is_full := False\<rparr>,
      y_pend := [(src, demo_items)], y_in := [demo_items], y_cons := Waiting ?st 0\<rparr>)"
    using sq_next [OF _ p_store, of demo_sq_opts mo demo_opts demo_zip_opts "queue_sys_new\<lparr>y_sq := ?sq, y_in := [demo_items], y_cons := Waiting ?st 0\<rparr>"
        "demo_push_env (setMaxBufferMemMB 100 20 buffers_control_new)" src src bc _ demo_items] fits packed src(5)
    by (simp add: queue_sys_new_def store_queue_new_def)
  then show thesis by (rule that) (simp_all add: queue_sys_new_def)
qed

theorem store_queue_fifo_witness:
  "\<exists>(s :: queue_sys) st. y_out s = [(True, Live st)] \<and> y_in s = [demo_items] \<and>
     (\<exists>st'. bs_uncompress demo_zip_opts (\<lambda>_. 5) compress_method_default st = Ret (True, st') \<and> bs_read st' 0 = Ret (Some (demo_header hm_plus 3, [1, 2, 3])))"
proof -
  obtain s st where s: "sq_reach demo_sq_opts demo_mem_opts demo_opts demo_zip_opts s" "y_cons s = Waiting st 0" "fs_full (sq_files (y_sq s) ! 0)"
    "y_in s = [demo_items]" "y_out s = []" by (rule demo_waiting)
  let ?e = "demo_pop_env (fs_file (sq_files (y_sq s) ! 0))"
  have d: "disk_ok ?e st (sq_files (y_sq s) ! 0)" by (simp add: disk_ok_def demo_pop_env_def)
  obtain img where inv: "sys_inv demo_opts demo_zip_opts img s" using sq_reach_inv [OF s(1)] by blast
  have "po_open_ok ?e" by (simp add: demo_pop_env_def)
  then obtain st' sq where r: "sq_pop_file demo_sq_opts demo_opts ?e 0 st (y_sq s) = Ret (True, st', sq)"
    using read_returns [OF inv s(2) d, of demo_sq_opts] by auto
  let ?s = "s\<lparr>y_sq := sq_pop_done sq, y_cons := Idle, y_out := [(True, Live st')]\<rparr>"
  have "sq_reach demo_sq_opts demo_mem_opts demo_opts demo_zip_opts ?s"
    using sq_next [OF s(1) c_read [OF s(2,3) d r]] s(5) by (simp add: demo_pop_env_def)
  from store_queue_fifo [OF this, of "\<lambda>_. 5"] obtain st'' where
    "bs_uncompress demo_zip_opts (\<lambda>_. 5) compress_method_default st' = Ret (True, st'')" "\<forall>j. bs_read st'' j = Ret (if j < length demo_items then Some (demo_items ! j) else None)"
    using s(4) by auto
  then show ?thesis using s(4) by (intro exI [of _ ?s] exI [of _ st']) (auto simp: demo_items_def)
qed



section \<open>Failures\<close>

text \<open>A file that could not be created stays the last one: as long as \<open>fopen\<close> fails, every push goes to it and fails, even when there
  is enough memory for the block.\<close>

lemma failed_file_blocks_memory:
  assumes "so_max_disk_size so \<noteq> 0" "so_fileStoreFolder so \<noteq> []" "so_file_max_size so > 0" "sq_files sq \<noteq> []" "getFileStoreUseSize sq \<le> so_max_disk_size so"
    and "fs_fileSize (last_file sq) = 0" "\<not> fs_full (last_file sq)" "\<not> fs_handlePush (last_file sq)" "\<not> pe_open_ok e"
  shows "\<exists>sq'. sq_push_store so mo cf e st sq = Ret (False, st, pe_bc3 e, sq') \<and> sq_files sq' \<noteq> [] \<and> getFileStoreUseSize sq' = getFileStoreUseSize sq \<and>
    fs_fileSize (last_file sq') = 0 \<and> \<not> fs_full (last_file sq') \<and> \<not> fs_handlePush (last_file sq')"
proof -
  let ?n = "length (sq_files sq)"
  have n: "?n - 1 < ?n" using assms(4) by (cases "sq_files sq") auto
  have set: "set_last_file (last_file sq) sq = sq" by (simp add: set_last_file_def last_file_def)
  have full: "last_isFull so now force sq = (False, sq)" for now force using assms(3,6,7) set by (simp add: last_isFull_def fs_isFull_def)
  have save: "sq_saveToFileStore so e sq = (True, sq)"
    using assms(1,2,4) full by (simp add: sq_saveToFileStore_def config_ENABLE_TOGETHER_READ_WRITE_FILE_def)
  let ?fs = "(last_file sq)\<lparr>fs_handlePush := False, fs_file := []\<rparr>"
  have "fs_push cf (pe_heap e) (pe_now_s e) (pe_open_ok e) (pe_written e) st (last_file sq) = Ret (False, st, ?fs)"
    using assms(8,9) by (simp add: fs_push_def fs_open_def typeHandlePush_def typeHandlePop_def)
  then have "sq_push_store so mo cf e st sq = Ret (False, st, pe_bc3 e, set_last_file ?fs sq)"
    using save full assms(4,5) by (simp add: sq_push_store_def sq_push_file_def)
  moreover have "map fs_fileSize ((sq_files sq)[?n - 1 := ?fs]) = map fs_fileSize (sq_files sq)"
    by (simp add: map_update last_file_def del: One_nat_def) (metis list_update_id map_update)
  then have "getFileStoreUseSize (set_last_file ?fs sq) = getFileStoreUseSize sq" by (simp add: getFileStoreUseSize_def set_last_file_def)
  moreover have "last_file (set_last_file ?fs sq) = ?fs" using n by (simp add: last_file_def set_last_file_def)
  ultimately show ?thesis using assms(4,6,7) by (simp add: set_last_file_def)
qed

text \<open>A block whose file cannot be opened for reading is deleted while the caller still gets its address, and the file is never
  counted as read.\<close>

lemma failed_pop_dangles:
  assumes "sq_take sq = (Some st, sq1)" "bs_idFileStore st \<noteq> 0" "findFileStoreById (bs_idFileStore st) sq1 = Some k"
    and "fs_full (sq_files sq1 ! k)" "\<not> fs_handlePop (sq_files sq1 ! k)" "\<not> po_open_ok e"
  shows "\<exists>sq'. sq_pop so cf sleeps e sq = Ret (False, Freed, sq') \<and> fs_countPop (sq_files sq' ! k) = fs_countPop (sq_files sq1 ! k)"
proof -
  have k: "k < length (sq_files sq1)" using find_file_Some assms(3) by (simp add: findFileStoreById_def)
  have w: "wait_full sleeps k sq1 = Ret sq1" using assms(4) by (simp add: wait_full.simps)
  obtain fs where "fs_pop cf (po_heap e) (po_now_s e) (po_open_ok e) (po_disk e) (so_file_max_size so, so_file_max_time_ms so, po_now e) st (sq_files sq1 ! k) =
      Ret (False, st, fs)" "fs_countPop fs = fs_countPop (sq_files sq1 ! k)"
    using assms(2,5,6) by (simp add: fs_pop_def fs_open_def typeHandlePush_def typeHandlePop_def)
  then show ?thesis using assms(1-3) w k by (simp add: sq_pop_def sq_pop_file_def)
qed

end
