(* ===== verification/VM_MinHeap.thy ===== *)
theory VM_MinHeap
  imports VM_Prelude "HOL-Library.Multiset"
begin

text \<open>
  The binary heap \<open>cMinHeap\<close> of \<open>tools.h\<close>: an array of \<open>capacity\<close> elements of which the first \<open>size\<close> form a heap under a key that
  the comparison functions of the element type look up elsewhere (the \<open>cmp_data\<close>), here the function \<open>key\<close>. The locale
  \<open>keyed_min_queue\<close> is what the users of the heap rely on; a key may change for the element at the root only, before
  \<open>doHeapify\<close>.
\<close>

section \<open>The heap\<close>

record 'a cMinHeap =
  mh_size :: nat
  mh_capacity :: nat
  mh_data :: "'a list"

definition mh_new :: "'a \<Rightarrow> nat \<Rightarrow> 'a cMinHeap" where
  "mh_new x capacity = \<lparr>mh_size = 0, mh_capacity = capacity, mh_data = replicate capacity x\<rparr>"

definition mh_parent :: "nat \<Rightarrow> nat" where
  "mh_parent i = (i - 1) div 2"

definition mh_leftChild :: "nat \<Rightarrow> nat" where
  "mh_leftChild i = 2 * i + 1"

definition mh_rightChild :: "nat \<Rightarrow> nat" where
  "mh_rightChild i = 2 * i + 2"

definition mh_swap :: "nat \<Rightarrow> nat \<Rightarrow> 'a list \<Rightarrow> 'a list" where
  "mh_swap i j xs = xs[i := xs ! j, j := xs ! i]"

function sift_up :: "('a \<Rightarrow> 'k::linorder) \<Rightarrow> 'a list \<Rightarrow> nat \<Rightarrow> 'a list" where
  "sift_up key xs i =
     (if i \<noteq> 0 \<and> key (xs ! mh_parent i) > key (xs ! i)
      then sift_up key (mh_swap i (mh_parent i) xs) (mh_parent i) else xs)"
  by pat_completeness auto
termination by (relation "measure (\<lambda>(key, xs, i). i)") (auto simp: mh_parent_def)

declare sift_up.simps [simp del]

definition mh_insert :: "('a \<Rightarrow> 'k::linorder) \<Rightarrow> 'a \<Rightarrow> 'a cMinHeap \<Rightarrow> bool \<times> 'a cMinHeap" where
  "mh_insert key x h =
     (if mh_size h \<ge> mh_capacity h then (False, h)
      else (True, h\<lparr>mh_data := sift_up key ((mh_data h)[mh_size h := x]) (mh_size h), mh_size := mh_size h + 1\<rparr>))"

definition mh_getMin :: "'a cMinHeap \<Rightarrow> 'a option" where
  "mh_getMin h = (if mh_size h = 0 then None else Some (mh_data h ! 0))"

definition mh_smallest :: "('a \<Rightarrow> 'k::linorder) \<Rightarrow> nat \<Rightarrow> 'a list \<Rightarrow> nat \<Rightarrow> nat" where
  "mh_smallest key n xs i =
     (let s = i;
          s = (if mh_leftChild i < n \<and> key (xs ! mh_leftChild i) < key (xs ! s) then mh_leftChild i else s) in
      if mh_rightChild i < n \<and> key (xs ! mh_rightChild i) < key (xs ! s) then mh_rightChild i else s)"

text \<open>The indexes are of type \<open>int\<close> in the code; for heaps of less than \<open>2 ^ 30\<close> elements no index overflows.\<close>

lemma mh_child_int:
  assumes "i < 2 ^ 30 - 1"
  shows "sint (2 * word_of_nat i + 1 :: 32 word) = int (mh_leftChild i)" "sint (2 * word_of_nat i + 2 :: 32 word) = int (mh_rightChild i)"
proof -
  have "sint (word_of_nat n :: 32 word) = int n" if "n < 2 ^ 31" for n
    using that by (simp add: sint_uint signed_take_bit_int_eq_self uint_nat unat_of_nat)
  from this [of "2 * i + 1"] this [of "2 * i + 2"] show "sint (2 * word_of_nat i + 1 :: 32 word) = int (mh_leftChild i)"
    "sint (2 * word_of_nat i + 2 :: 32 word) = int (mh_rightChild i)" using assms by (simp_all add: mh_leftChild_def mh_rightChild_def add.commute)
qed

lemma mh_smallest_cases: "mh_smallest key n xs i = i \<or> i < mh_smallest key n xs i \<and> mh_smallest key n xs i < n"
  by (auto simp: mh_smallest_def Let_def mh_leftChild_def mh_rightChild_def)

function mh_heapify :: "('a \<Rightarrow> 'k::linorder) \<Rightarrow> nat \<Rightarrow> 'a list \<Rightarrow> nat \<Rightarrow> 'a list" where
  "mh_heapify key n xs i =
     (let s = mh_smallest key n xs i in if s \<noteq> i then mh_heapify key n (mh_swap i s xs) s else xs)"
  by pat_completeness auto
termination
proof (relation "measure (\<lambda>(key, n, xs, i). n - i)")
  fix key :: "'a \<Rightarrow> 'b" and n xs i s
  assume "s = mh_smallest key n xs i" "s \<noteq> i"
  then show "((key, n, mh_swap i s xs, s), key, n, xs, i) \<in> measure (\<lambda>(key, n, xs, i). n - i)"
    using mh_smallest_cases [of key n xs i] by auto
qed simp

declare mh_heapify.simps [simp del]

definition mh_doHeapify :: "('a \<Rightarrow> 'k::linorder) \<Rightarrow> 'a cMinHeap \<Rightarrow> 'a cMinHeap" where
  "mh_doHeapify key h = h\<lparr>mh_data := mh_heapify key (mh_size h) (mh_data h) 0\<rparr>"

definition mh_extractMin :: "('a \<Rightarrow> 'k::linorder) \<Rightarrow> 'a cMinHeap \<Rightarrow> 'a option \<times> 'a cMinHeap" where
  "mh_extractMin key h =
     (if mh_size h = 0 then (None, h)
      else if mh_size h = 1 then (Some (mh_data h ! 0), h\<lparr>mh_size := 0\<rparr>)
      else (Some (mh_data h ! 0), mh_doHeapify key (h\<lparr>mh_data := (mh_data h)[0 := mh_data h ! (mh_size h - 1)], mh_size := mh_size h - 1\<rparr>)))"

definition mh_extractMinAndInsert :: "('a \<Rightarrow> 'k::linorder) \<Rightarrow> 'a \<Rightarrow> 'a cMinHeap \<Rightarrow> 'a option \<times> 'a cMinHeap" where
  "mh_extractMinAndInsert key x h =
     (if mh_size h = 0 then (None, h)
      else (Some (mh_data h ! 0), mh_doHeapify key (h\<lparr>mh_data := (mh_data h)[0 := x]\<rparr>)))"

section \<open>Heap order\<close>

definition mh_elems :: "'a cMinHeap \<Rightarrow> 'a multiset" where
  "mh_elems h = mset (take (mh_size h) (mh_data h))"

definition mh_wf :: "'a cMinHeap \<Rightarrow> bool" where
  "mh_wf h = (mh_size h \<le> mh_capacity h \<and> length (mh_data h) = mh_capacity h)"

definition heap_order :: "('a \<Rightarrow> 'k::linorder) \<Rightarrow> nat \<Rightarrow> 'a list \<Rightarrow> bool" where
  "heap_order key n xs = (\<forall>i. 0 < i \<longrightarrow> i < n \<longrightarrow> key (xs ! mh_parent i) \<le> key (xs ! i))"

text \<open>The order except between \<open>i\<close> and its parent, or between \<open>i\<close> and its children; grandparents are in order.\<close>

definition order_above :: "('a \<Rightarrow> 'k::linorder) \<Rightarrow> nat \<Rightarrow> 'a list \<Rightarrow> nat \<Rightarrow> bool" where
  "order_above key n xs i =
     ((\<forall>j. 0 < j \<longrightarrow> j < n \<longrightarrow> j \<noteq> i \<longrightarrow> key (xs ! mh_parent j) \<le> key (xs ! j)) \<and>
      (\<forall>j. 0 < j \<longrightarrow> j < n \<longrightarrow> 0 < i \<longrightarrow> mh_parent j = i \<longrightarrow> key (xs ! mh_parent i) \<le> key (xs ! j)))"

definition order_below :: "('a \<Rightarrow> 'k::linorder) \<Rightarrow> nat \<Rightarrow> 'a list \<Rightarrow> nat \<Rightarrow> bool" where
  "order_below key n xs i =
     ((\<forall>j. 0 < j \<longrightarrow> j < n \<longrightarrow> mh_parent j \<noteq> i \<longrightarrow> key (xs ! mh_parent j) \<le> key (xs ! j)) \<and>
      (\<forall>j. 0 < j \<longrightarrow> j < n \<longrightarrow> 0 < i \<longrightarrow> mh_parent j = i \<longrightarrow> key (xs ! mh_parent i) \<le> key (xs ! j)))"

lemma mh_parent_less: "0 < i \<Longrightarrow> mh_parent i < i"
  by (simp add: mh_parent_def)

lemma children_iff: "0 < j \<Longrightarrow> mh_parent j = i \<longleftrightarrow> j = mh_leftChild i \<or> j = mh_rightChild i"
  unfolding mh_parent_def mh_leftChild_def mh_rightChild_def by presburger

lemma swap_facts:
  assumes "i < length xs" "j < length xs"
  shows "length (mh_swap i j xs) = length xs" "mset (mh_swap i j xs) = mset xs"
    "i < n \<Longrightarrow> j < n \<Longrightarrow> mset (take n (mh_swap i j xs)) = mset (take n xs)"
    "mh_swap i j xs ! k = (if k = j then xs ! i else if k = i then xs ! j else xs ! k)"
proof -
  show "length (mh_swap i j xs) = length xs" "mset (mh_swap i j xs) = mset xs"
    using assms by (simp_all add: mh_swap_def mset_swap)
  show "mset (take n (mh_swap i j xs)) = mset (take n xs)" if "i < n" "j < n"
  proof -
    have "take n (mh_swap i j xs) = mh_swap i j (take n xs)" using that by (simp add: mh_swap_def take_update_swap)
    then show ?thesis using that assms mset_swap [of j "take n xs" i] by (simp add: mh_swap_def)
  qed
  show "mh_swap i j xs ! k = (if k = j then xs ! i else if k = i then xs ! j else xs ! k)"
    using assms by (simp add: mh_swap_def nth_list_update)
qed

lemma sift_up_facts:
  assumes "order_above key n xs i" "i < n" "n \<le> length xs"
  shows "heap_order key n (sift_up key xs i)" "length (sift_up key xs i) = length xs" "mset (take n (sift_up key xs i)) = mset (take n xs)"
  using assms
proof (induction key xs i rule: sift_up.induct)
  case (1 key xs i)
  let ?p = "mh_parent i"
  have "heap_order key n (sift_up key xs i) \<and> length (sift_up key xs i) = length xs \<and> mset (take n (sift_up key xs i)) = mset (take n xs)"
    if a: "order_above key n xs i" "i < n" "n \<le> length xs"
  proof (cases "i \<noteq> 0 \<and> key (xs ! ?p) > key (xs ! i)")
    case True
    then have p: "?p < i" by (simp add: mh_parent_less)
    let ?ys = "mh_swap i ?p xs"
    note sw = swap_facts [of i xs ?p]
    have o: "order_above key n ?ys ?p" unfolding order_above_def
    proof (intro conjI allI impI)
      fix j assume j: "0 < j" "j < n" "j \<noteq> ?p"
      show "key (?ys ! mh_parent j) \<le> key (?ys ! j)"
      proof -
        have "key (xs ! i) \<le> key (xs ! j)" if "mh_parent j = ?p" "j \<noteq> i"
          using a(1) j that True unfolding order_above_def by (metis less_imp_le order.trans)
        then show ?thesis using a j True p mh_parent_less [OF j(1)] by (auto simp: sw order_above_def)
      qed
    next
      fix j assume j: "0 < j" "j < n" "0 < ?p" "mh_parent j = ?p"
      have gp: "key (xs ! mh_parent ?p) \<le> key (xs ! ?p)" using a p j by (auto simp: order_above_def)
      show "key (?ys ! mh_parent ?p) \<le> key (?ys ! j)"
      proof (cases "j = i")
        case True
        then show ?thesis using gp p a mh_parent_less [OF j(3)] by (simp add: sw)
      next
        case False
        then have "key (xs ! ?p) \<le> key (xs ! j)" using a(1) j unfolding order_above_def by metis
        then show ?thesis using gp p a j mh_parent_less [OF j(3)] mh_parent_less [OF j(1)] False by (auto simp: sw)
      qed
    qed
    have "sift_up key xs i = sift_up key ?ys ?p" using True by (subst sift_up.simps) simp
    then show ?thesis using "1.IH" [OF True o] p a sw by simp
  next
    case False
    then have "sift_up key xs i = xs" by (subst sift_up.simps) auto
    moreover have "heap_order key n xs" using a False by (auto simp: heap_order_def order_above_def not_less)
    ultimately show ?thesis by simp
  qed
  then show "order_above key n xs i \<Longrightarrow> i < n \<Longrightarrow> n \<le> length xs \<Longrightarrow> heap_order key n (sift_up key xs i)"
    "order_above key n xs i \<Longrightarrow> i < n \<Longrightarrow> n \<le> length xs \<Longrightarrow> length (sift_up key xs i) = length xs"
    "order_above key n xs i \<Longrightarrow> i < n \<Longrightarrow> n \<le> length xs \<Longrightarrow> mset (take n (sift_up key xs i)) = mset (take n xs)" by blast+
qed


lemma smallest_facts:
  assumes "s = mh_smallest key n xs i"
  shows "key (xs ! s) \<le> key (xs ! i)" "0 < j \<Longrightarrow> j < n \<Longrightarrow> mh_parent j = i \<Longrightarrow> key (xs ! s) \<le> key (xs ! j)"
    "s \<noteq> i \<Longrightarrow> 0 < s \<and> s < n \<and> i < s \<and> mh_parent s = i"
  using assms children_iff [of j i] by (auto simp: mh_smallest_def Let_def mh_parent_def mh_leftChild_def mh_rightChild_def split: if_splits)

lemma heapify_facts:
  "order_below key n xs i \<Longrightarrow> i < n \<Longrightarrow> n \<le> length xs \<Longrightarrow>
   heap_order key n (mh_heapify key n xs i) \<and> length (mh_heapify key n xs i) = length xs \<and> mset (take n (mh_heapify key n xs i)) = mset (take n xs)"
proof (induction key n xs i rule: mh_heapify.induct)
  case (1 key n xs i)
  define s where "s = mh_smallest key n xs i"
  note sf = smallest_facts [OF s_def]
  show ?case
  proof (cases "s = i")
    case True
    then have "mh_heapify key n xs i = xs" by (subst mh_heapify.simps) (simp add: s_def)
    moreover have "key (xs ! mh_parent j) \<le> key (xs ! j)" if "0 < j" "j < n" for j
      using "1.prems"(1) sf(2) [of j] True that by (cases "mh_parent j = i") (simp_all add: order_below_def)
    then have "heap_order key n xs" by (simp add: heap_order_def)
    ultimately show ?thesis by simp
  next
    case False
    note s = sf(3) [OF False]
    let ?ys = "mh_swap i s xs"
    have sw: "length ?ys = length xs" "mset (take n ?ys) = mset (take n xs)" "\<And>k. ?ys ! k = (if k = s then xs ! i else if k = i then xs ! s else xs ! k)"
      using swap_facts [of i xs s] s "1.prems" by auto
    have o: "order_below key n ?ys s" unfolding order_below_def
    proof (intro conjI allI impI)
      fix j assume j: "0 < j" "j < n" "mh_parent j \<noteq> s"
      show "key (?ys ! mh_parent j) \<le> key (?ys ! j)"
      proof (cases "mh_parent j = i")
        case True
        then show ?thesis using sf(1) sf(2) [of j] j s mh_parent_less [OF j(1)] by (auto simp: sw)
      next
        case ne: False
        then have "key (xs ! mh_parent j) \<le> key (xs ! j)" using "1.prems"(1) j by (auto simp: order_below_def)
        moreover have "key (xs ! mh_parent i) \<le> key (xs ! s)" if "0 < i" using "1.prems"(1) s that by (auto simp: order_below_def)
        ultimately show ?thesis using ne j s by (auto simp: sw)
      qed
    next
      fix j assume j: "0 < j" "j < n" "mh_parent j = s"
      then have "key (xs ! s) \<le> key (xs ! j)" using "1.prems"(1) s by (auto simp: order_below_def)
      then show "key (?ys ! mh_parent s) \<le> key (?ys ! j)" using s j mh_parent_less [OF j(1)] by (auto simp: sw)
    qed
    have "mh_heapify key n xs i = mh_heapify key n ?ys s" using False by (subst mh_heapify.simps) (simp add: s_def Let_def)
    then show ?thesis using "1.IH" [OF s_def False o] s sw "1.prems" by simp
  qed
qed

lemma heap_order_min: "heap_order key n xs \<Longrightarrow> i < n \<Longrightarrow> key (xs ! 0) \<le> key (xs ! i)"
proof (induction i rule: less_induct)
  case (less i)
  show ?case
  proof (cases "i = 0")
    case False
    then have "key (xs ! 0) \<le> key (xs ! mh_parent i)" using less mh_parent_less [of i] by simp
    then show ?thesis using less.prems False by (force simp: heap_order_def intro: order.trans)
  qed simp
qed


section \<open>What a user of the heap relies on\<close>

definition mh_inv :: "('a \<Rightarrow> 'k::linorder) \<Rightarrow> 'a cMinHeap \<Rightarrow> bool" where
  "mh_inv key h = (mh_wf h \<and> heap_order key (mh_size h) (mh_data h))"

definition mh_room :: "'a cMinHeap \<Rightarrow> bool" where
  "mh_room h = (mh_size h < mh_capacity h)"

locale keyed_min_queue =
  fixes inv :: "('a \<Rightarrow> 'k::linorder) \<Rightarrow> 'h \<Rightarrow> bool"
    and elems :: "'h \<Rightarrow> 'a multiset"
    and room :: "'h \<Rightarrow> bool"
    and ins :: "('a \<Rightarrow> 'k) \<Rightarrow> 'a \<Rightarrow> 'h \<Rightarrow> bool \<times> 'h"
    and get_min :: "'h \<Rightarrow> 'a option"
    and take_min :: "('a \<Rightarrow> 'k) \<Rightarrow> 'h \<Rightarrow> 'a option \<times> 'h"
    and fix_root :: "('a \<Rightarrow> 'k) \<Rightarrow> 'h \<Rightarrow> 'h"
  assumes ins_law: "inv key h \<Longrightarrow> room h \<Longrightarrow> ins key x h = (ok, h') \<Longrightarrow> ok \<and> inv key h' \<and> elems h' = add_mset x (elems h)"
    and ins_full: "inv key h \<Longrightarrow> \<not> room h \<Longrightarrow> ins key x h = (False, h)"
    and min_None: "inv key h \<Longrightarrow> get_min h = None \<longleftrightarrow> elems h = {#}"
    and min_Some: "inv key h \<Longrightarrow> get_min h = Some x \<Longrightarrow> x \<in># elems h \<and> (\<forall>y \<in># elems h. key x \<le> key y)"
    and take_law: "inv key h \<Longrightarrow> get_min h = Some x \<Longrightarrow> take_min key h = (r, h') \<Longrightarrow>
      r = Some x \<and> inv key h' \<and> add_mset x (elems h') = elems h \<and> room h'"
    and fix_law: "inv key h \<Longrightarrow> get_min h = Some x \<Longrightarrow> (\<forall>y \<in># elems h - {#x#}. key' y = key y) \<Longrightarrow> x \<notin># elems h - {#x#} \<Longrightarrow>
      inv key' (fix_root key' h) \<and> elems (fix_root key' h) = elems h"
begin

text \<open>The minimum never goes back: neither when it is taken out nor when its key grows.\<close>

lemma extract_next_min:
  assumes "inv key h" "get_min h = Some x" "take_min key h = (r, h')" "get_min h' = Some y"
  shows "key x \<le> key y"
proof -
  have "y \<in># elems h'" using take_law [OF assms(1-3)] min_Some assms(4) by blast
  then have "y \<in># elems h" using take_law [OF assms(1-3)] by (metis union_iff add_mset_add_single)
  then show ?thesis using min_Some [OF assms(1,2)] by blast
qed

lemma fix_next_min:
  assumes "inv key h" "get_min h = Some x" "\<forall>y \<in># elems h - {#x#}. key' y = key y" "x \<notin># elems h - {#x#}" "key x \<le> key' x"
    and "get_min (fix_root key' h) = Some y"
  shows "key x \<le> key' y"
proof -
  note f = fix_law [OF assms(1-4)]
  have y: "y \<in># elems h" using f min_Some assms(6) by metis
  show ?thesis
  proof (cases "y = x")
    case True
    then show ?thesis using assms(5) by simp
  next
    case False
    then have "y \<in># elems h - {#x#}" using y by (simp add: in_diff_count)
    then show ?thesis using assms(3) min_Some [OF assms(1,2)] y by auto
  qed
qed

end

lemma mset_take_update_last: "n < length xs \<Longrightarrow> mset (take (Suc n) (xs[n := x])) = add_mset x (mset (take n xs))"
  by (simp add: take_Suc_conv_app_nth)

lemma parent_le: "mh_parent i \<le> i"
  by (simp add: mh_parent_def)

lemma mh_insert_law:
  assumes "mh_inv key h" "mh_room h"
  shows "\<exists>h'. mh_insert key x h = (True, h') \<and> mh_inv key h' \<and> mh_elems h' = add_mset x (mh_elems h)"
proof -
  let ?n = "mh_size h" and ?xs = "(mh_data h)[mh_size h := x]"
  have len: "?n < length (mh_data h)" using assms by (simp add: mh_inv_def mh_wf_def mh_room_def)
  have "order_above key (Suc ?n) ?xs ?n" unfolding order_above_def
  proof (intro conjI allI impI)
    fix j assume "0 < j" "j < Suc ?n" "j \<noteq> ?n"
    then show "key (?xs ! mh_parent j) \<le> key (?xs ! j)" using assms(1) mh_parent_less [of j] by (auto simp: mh_inv_def heap_order_def)
  next
    fix j assume "0 < j" "j < Suc ?n" "mh_parent j = ?n"
    then show "key (?xs ! mh_parent ?n) \<le> key (?xs ! j)" using mh_parent_less [of j] by simp
  qed
  note s = sift_up_facts [OF this]
  have "mh_insert key x h = (True, h\<lparr>mh_data := sift_up key ?xs ?n, mh_size := ?n + 1\<rparr>)" using assms by (simp add: mh_insert_def mh_room_def)
  then show ?thesis using s len assms mset_take_update_last [OF len, of x]
    by (auto simp: mh_inv_def mh_wf_def mh_room_def mh_elems_def)
qed

lemma mh_getMin_law:
  assumes "mh_inv key h" "mh_getMin h = Some x"
  shows "x \<in># mh_elems h \<and> (\<forall>y \<in># mh_elems h. key x \<le> key y)" "mh_elems h = add_mset x (mset (drop 1 (take (mh_size h) (mh_data h))))"
proof -
  have x: "0 < mh_size h" "x = mh_data h ! 0" "mh_size h \<le> length (mh_data h)" using assms by (auto simp: mh_getMin_def mh_inv_def mh_wf_def split: if_splits)
  then obtain ys where ys: "take (mh_size h) (mh_data h) = x # ys" by (cases "mh_data h"; cases "mh_size h") auto
  then show e: "mh_elems h = add_mset x (mset (drop 1 (take (mh_size h) (mh_data h))))" by (simp add: mh_elems_def)
  have "key x \<le> key y" if "y \<in> set (take (mh_size h) (mh_data h))" for y
    using that heap_order_min [of key "mh_size h" "mh_data h"] assms(1) x by (auto simp: in_set_conv_nth mh_inv_def)
  moreover have "set_mset (mh_elems h) = set (take (mh_size h) (mh_data h))" by (simp add: mh_elems_def)
  moreover have "x \<in># mh_elems h" using e by simp
  ultimately show "x \<in># mh_elems h \<and> (\<forall>y \<in># mh_elems h. key x \<le> key y)" by blast
qed

lemma mh_extractMin_law:
  assumes "mh_inv key h" "mh_getMin h = Some x"
  shows "\<exists>h'. mh_extractMin key h = (Some x, h') \<and> mh_inv key h' \<and> add_mset x (mh_elems h') = mh_elems h \<and> mh_room h'"
proof -
  have x: "0 < mh_size h" "x = mh_data h ! 0" "mh_size h \<le> length (mh_data h)" "mh_size h \<le> mh_capacity h" "length (mh_data h) = mh_capacity h"
    using assms by (auto simp: mh_getMin_def mh_inv_def mh_wf_def split: if_splits)
  show ?thesis
  proof (cases "mh_size h = 1")
    case True
    then have "take 1 (mh_data h) = [x]" using x by (cases "mh_data h") auto
    then show ?thesis using True x by (auto simp: mh_extractMin_def mh_inv_def mh_wf_def heap_order_def mh_elems_def mh_room_def)
  next
    case False
    let ?n = "mh_size h - 1" and ?xs = "(mh_data h)[0 := mh_data h ! (mh_size h - 1)]"
    have n: "0 < ?n" "?n < length (mh_data h)" using False x by auto
    have "order_below key ?n ?xs 0"
      using assms(1) mh_parent_less by (force simp: order_below_def mh_inv_def heap_order_def)
    note hf = heapify_facts [OF this n(1)]
    obtain ys where ys: "take ?n (mh_data h) = x # ys" using n x by (cases "mh_data h"; cases ?n) auto
    have all: "take (mh_size h) (mh_data h) = x # ys @ [mh_data h ! ?n]" using take_Suc_conv_app_nth [OF n(2)] ys x(1) by simp
    have "take ?n ?xs = mh_data h ! ?n # ys" using ys n by (simp add: take_update_swap)
    then have m: "add_mset x (mset (take ?n ?xs)) = mset (take (mh_size h) (mh_data h))" using all by simp
    have ex: "mh_extractMin key h = (Some x, h\<lparr>mh_data := mh_heapify key ?n ?xs 0, mh_size := ?n\<rparr>)"
      using False x by (simp add: mh_extractMin_def mh_doHeapify_def)
    show ?thesis using hf m x n by (auto simp: ex mh_inv_def mh_wf_def mh_elems_def mh_room_def)
  qed
qed

lemma mh_doHeapify_law:
  assumes "mh_inv key h" "mh_getMin h = Some x" "\<forall>y \<in># mh_elems h - {#x#}. key' y = key y" "x \<notin># mh_elems h - {#x#}"
  shows "mh_inv key' (mh_doHeapify key' h) \<and> mh_elems (mh_doHeapify key' h) = mh_elems h"
proof -
  have x: "0 < mh_size h" "mh_size h \<le> length (mh_data h)" using assms by (auto simp: mh_getMin_def mh_inv_def mh_wf_def split: if_splits)
  have other: "key' (mh_data h ! i) = key (mh_data h ! i)" if "0 < i" "i < mh_size h" for i
  proof -
    have "mh_data h ! i = drop 1 (take (mh_size h) (mh_data h)) ! (i - 1)" using that x by simp
    then have "mh_data h ! i \<in> set (drop 1 (take (mh_size h) (mh_data h)))" using that x by (metis Suc_diff_1 diff_less_mono length_drop length_take less_eq_Suc_le min.absorb2 nth_mem One_nat_def)
    then show ?thesis using assms(3) mh_getMin_law(2) [OF assms(1,2)] by simp
  qed
  have "order_below key' (mh_size h) (mh_data h) 0" unfolding order_below_def
  proof (intro conjI allI impI)
    fix j assume j: "0 < j" "j < mh_size h" "mh_parent j \<noteq> 0"
    then have "0 < mh_parent j" "mh_parent j < mh_size h" using mh_parent_less [OF j(1)] by auto
    then show "key' (mh_data h ! mh_parent j) \<le> key' (mh_data h ! j)" using other j assms(1) by (auto simp: mh_inv_def heap_order_def)
  qed simp
  note hf = heapify_facts [OF this x]
  then show ?thesis using assms(1) by (auto simp: mh_inv_def mh_wf_def mh_doHeapify_def mh_elems_def)
qed

interpretation min_heap: keyed_min_queue mh_inv mh_elems mh_room mh_insert mh_getMin mh_extractMin mh_doHeapify
proof (unfold_locales, goal_cases)
  case (1 key h x ok h')
  then show ?case using mh_insert_law [OF 1(1,2), of x] by auto
next
  case 2
  then show ?case by (simp add: mh_insert_def mh_room_def)
next
  case (3 key h)
  then show ?case by (cases "mh_data h") (simp_all add: mh_getMin_def mh_elems_def mh_inv_def mh_wf_def)
next
  case (4 key h x)
  then show ?case by (rule mh_getMin_law(1))
next
  case (5 key h x r h')
  then show ?case using mh_extractMin_law [OF 5(1,2)] by auto
next
  case (6 key h x key')
  then show ?case by (rule mh_doHeapify_law)
qed


section \<open>Draining the heap\<close>

fun mh_drain :: "nat \<Rightarrow> ('a \<Rightarrow> 'k::linorder) \<Rightarrow> 'a cMinHeap \<Rightarrow> 'a list" where
  "mh_drain 0 key h = []"
| "mh_drain (Suc n) key h = (case mh_extractMin key h of (None, _) \<Rightarrow> [] | (Some x, h) \<Rightarrow> x # mh_drain n key h)"

lemma mh_elems_size: "mh_inv key h \<Longrightarrow> size (mh_elems h) = mh_size h"
  by (simp add: mh_elems_def mh_inv_def mh_wf_def)

lemma mh_drain_facts:
  "mh_inv key h \<Longrightarrow> mset (mh_drain (mh_size h) key h) = mh_elems h \<and> sorted (map key (mh_drain (mh_size h) key h))"
proof (induction "mh_size h" arbitrary: h)
  case 0
  then have "mh_size h = 0" by simp
  then show ?case by (simp add: mh_elems_def)
next
  case (Suc n)
  have n0: "mh_size h = Suc n" using Suc(2) by simp
  obtain x where x: "mh_getMin h = Some x" using n0 by (simp add: mh_getMin_def)
  obtain h' where h': "mh_extractMin key h = (Some x, h')" using mh_extractMin_law [OF Suc.prems x] by blast
  note law = min_heap.take_law [OF Suc.prems x h']
  have "Suc (size (mh_elems h')) = size (mh_elems h)" using law by (metis size_add_mset)
  then have n: "mh_size h' = n" using mh_elems_size [OF Suc.prems] mh_elems_size [of key h'] law n0 by simp
  have IH: "mset (mh_drain n key h') = mh_elems h'" "sorted (map key (mh_drain n key h'))" using Suc(1) [OF n [symmetric]] law n by auto
  have d: "mh_drain (mh_size h) key h = x # mh_drain n key h'" using h' by (simp add: n0)
  have "key x \<le> key y" if "y \<in> set (mh_drain n key h')" for y
  proof -
    have "y \<in># mh_elems h'" using that IH(1) by (metis set_mset_mset)
    then have "y \<in># mh_elems h" using law by (metis insert_DiffM union_iff add_mset_add_single)
    then show ?thesis using min_heap.min_Some [OF Suc.prems x] by blast
  qed
  then show ?case using d IH law by auto
qed

text \<open>C36: taking the minimum as often as the heap has elements yields all of them, each once, in the order of their keys.\<close>

theorem min_heap_drains_sorted:
  "mh_inv key h \<Longrightarrow> mset (mh_drain (mh_size h) key h) = mh_elems h \<and> sorted (map key (mh_drain (mh_size h) key h))"
  by (rule mh_drain_facts)

lemma mh_new_inv: "mh_inv key (mh_new x n)" "mh_elems (mh_new x n) = {#}"
  by (simp_all add: mh_inv_def mh_wf_def mh_new_def heap_order_def mh_elems_def)

theorem min_heap_drains_sorted_witness:
  "mh_drain 3 (\<lambda>n. n) (snd (mh_insert (\<lambda>n. n) 2 (snd (mh_insert (\<lambda>n. n) 5 (snd (mh_insert (\<lambda>n. n) 7 (mh_new (0 :: nat) 4))))))) = [2, 5, 7]"
proof -
  let ?k = "\<lambda>n :: nat. n"
  let ?h1 = "snd (mh_insert ?k 7 (mh_new 0 4))" let ?h2 = "snd (mh_insert ?k 5 ?h1)" let ?h3 = "snd (mh_insert ?k 2 ?h2)"
  have r1: "mh_room (mh_new 0 4 :: nat cMinHeap)" by (simp add: mh_room_def mh_new_def)
  have 1: "mh_inv ?k ?h1" "mh_elems ?h1 = {#7#}" using mh_insert_law [OF mh_new_inv(1) [of ?k] r1, of 7] by (auto simp: mh_new_inv)
  have s1: "mh_size ?h1 = 1" "mh_capacity ?h1 = 4" by (simp_all add: mh_insert_def mh_new_def)
  have 2: "mh_inv ?k ?h2" "mh_elems ?h2 = {#5, 7#}" using mh_insert_law [OF 1(1), of 5] s1 1(2) by (auto simp: mh_room_def)
  have s2: "mh_size ?h2 = 2" "mh_capacity ?h2 = 4" using s1 by (simp_all add: mh_insert_def)
  have 3: "mh_inv ?k ?h3" "mh_elems ?h3 = {#2, 5, 7#}" using mh_insert_law [OF 2(1), of 2] s2 2(2) by (auto simp: mh_room_def)
  have s3: "mh_size ?h3 = 3" using s2 by (simp add: mh_insert_def)
  have "mset (mh_drain 3 ?k ?h3) = mset [2, 5, 7]" "sorted (mh_drain 3 ?k ?h3)" using min_heap_drains_sorted [OF 3(1)] s3 3(2) by simp_all
  then show ?thesis using properties_for_sort [of "mh_drain 3 ?k ?h3" "[2, 5, 7]"] by simp
qed

end
