(* ===== verification/VM_Dequeue.thy ===== *)
theory VM_Dequeue
  imports VM_BlockStore VM_MinHeap
begin

text \<open>
  The merge of the packet buffer blocks in \<open>PcapQueue_readFromFifo::writeThreadFunction\<close> (dequeue method 3): the blocks in work are
  kept in the table \<open>sBlocksInfo\<close> of \<open>pcap_queue.h\<close>, an array whose entries are linked into a list of used and a list of free
  entries, and the entry whose next packet is the oldest is found with \<open>cMinHeap\<close>. Each round of the loop hands one packet over.
  The pointers of the lists are array indexes, -1 is the end.
\<close>

section \<open>Entries\<close>

record sBlockInfo =
  bi_store :: pcap_block_store
  bi_first :: nat
  bi_last :: nat
  bi_act :: nat
  bi_utime_first :: u64
  bi_utime_last :: u64
  bi_at :: u64
  bi_next :: int

text \<open>The time of a packet, from the fixed-size form of its header.\<close>

definition pkt_utime :: "pcap_block_store \<Rightarrow> nat \<Rightarrow> u64 outcome" where
  "pkt_utime st i = obind (bs_item st i) (\<lambda>r. case r of None \<Rightarrow> OutOfBounds
     | Some (h, p) \<Rightarrow> obind (ld32 (bs_mem st) h) (\<lambda>sec. omap (\<lambda>usec. ucast sec * 1000000 + ucast usec) (ld32 (bs_mem st) (h + 4))))"

function skip_ignored :: "pcap_block_store \<Rightarrow> nat \<Rightarrow> nat outcome" where
  "skip_ignored st i =
     (if i < bs_count st then obind (is_ignore st i) (\<lambda>b. if b then skip_ignored st (i + 1) else Ret i) else Ret i)"
  by pat_completeness auto
termination by (relation "measure (\<lambda>(st, i). bs_count st - i)") auto

fun skip_ignored_back :: "pcap_block_store \<Rightarrow> nat \<Rightarrow> nat \<Rightarrow> nat outcome" where
  "skip_ignored_back st first 0 = Ret 0"
| "skip_ignored_back st first (Suc l) =
     (if Suc l > first then obind (is_ignore st (Suc l)) (\<lambda>b. if b then skip_ignored_back st first l else Ret (Suc l)) else Ret (Suc l))"

definition set_first_last :: "sBlockInfo \<Rightarrow> (bool \<times> sBlockInfo) outcome" where
  "set_first_last b =
     obind (skip_ignored (bi_store b) 0) (\<lambda>first.
       if first = bs_count (bi_store b) then Ret (False, b\<lparr>bi_first := first\<rparr>)
       else omap (\<lambda>last. (True, b\<lparr>bi_first := first, bi_last := last, bi_act := first\<rparr>))
              (skip_ignored_back (bi_store b) first (bs_count (bi_store b) - 1)))"

definition set_time_first_last :: "sBlockInfo \<Rightarrow> sBlockInfo outcome" where
  "set_time_first_last b =
     obind (pkt_utime (bi_store b) (bi_first b)) (\<lambda>f. omap (\<lambda>l. b\<lparr>bi_utime_first := f, bi_utime_last := l\<rparr>) (pkt_utime (bi_store b) (bi_last b)))"

definition update_time_first :: "sBlockInfo \<Rightarrow> sBlockInfo outcome" where
  "update_time_first b = omap (\<lambda>t. b\<lparr>bi_utime_first := t\<rparr>) (pkt_utime (bi_store b) (bi_act b))"

function inc_pos :: "pcap_block_store \<Rightarrow> nat \<Rightarrow> nat \<Rightarrow> (bool \<times> nat) outcome" where
  "inc_pos st lst act =
     (if act < lst then obind (is_ignore st (act + 1)) (\<lambda>b. if \<not> b then Ret (True, act + 1) else inc_pos st lst (act + 1))
      else Ret (False, act))"
  by pat_completeness auto
termination by (relation "measure (\<lambda>(st, l, act). l - act)") auto

declare skip_ignored.simps [simp del] inc_pos.simps [simp del]

definition inc_pos_act :: "sBlockInfo \<Rightarrow> (bool \<times> sBlockInfo) outcome" where
  "inc_pos_act b = omap (\<lambda>(r, a). (r, b\<lparr>bi_act := a\<rparr>)) (inc_pos (bi_store b) (bi_last b) (bi_act b))"

section \<open>The table\<close>

record sBlocksInfo =
  bk_blocks :: "sBlockInfo list"
  bk_heap :: "int cMinHeap"
  bk_max :: int
  bk_freeHead :: int
  bk_usedHead :: int
  bk_usedCount :: int
  bk_utime_first :: u64
  bk_utime_last :: u64
  bk_at_first :: u64
  bk_at_last :: u64

definition bk_get :: "sBlocksInfo \<Rightarrow> int \<Rightarrow> sBlockInfo outcome" where
  "bk_get bk i = (if 0 \<le> i \<and> nat i < length (bk_blocks bk) then Ret (bk_blocks bk ! nat i) else OutOfBounds)"

definition bk_put :: "int \<Rightarrow> sBlockInfo \<Rightarrow> sBlocksInfo \<Rightarrow> sBlocksInfo outcome" where
  "bk_put i b bk = (if 0 \<le> i \<and> nat i < length (bk_blocks bk) then Ret (bk\<lparr>bk_blocks := (bk_blocks bk)[nat i := b]\<rparr>) else OutOfBounds)"

definition bk_key :: "sBlocksInfo \<Rightarrow> int \<Rightarrow> u64" where
  "bk_key bk i = bi_utime_first (bk_blocks bk ! nat i)"

definition clean_times :: "sBlocksInfo \<Rightarrow> sBlocksInfo" where
  "clean_times bk = bk\<lparr>bk_utime_first := 0, bk_utime_last := 0, bk_at_first := 0, bk_at_last := 0\<rparr>"

definition blocks_info_new :: "sBlockInfo \<Rightarrow> nat \<Rightarrow> sBlocksInfo" where
  "blocks_info_new b n = clean_times
     \<lparr>bk_blocks = map (\<lambda>i. b\<lparr>bi_next := (if i < n - 1 then int i + 1 else - 1)\<rparr>) [0..<n], bk_heap = mh_new (- 1) n, bk_max = int n,
      bk_freeHead = 0, bk_usedHead = - 1, bk_usedCount = 0, bk_utime_first = 0, bk_utime_last = 0, bk_at_first = 0, bk_at_last = 0\<rparr>"

definition new_block :: "sBlocksInfo \<Rightarrow> (int \<times> sBlocksInfo) outcome" where
  "new_block bk =
     (if bk_freeHead bk = - 1 then Ret (- 1, bk)
      else
        (let i = bk_freeHead bk in
         obind (bk_get bk i) (\<lambda>b.
           omap (\<lambda>bk'. (i, bk'\<lparr>bk_freeHead := bi_next b, bk_usedHead := i, bk_usedCount := bk_usedCount bk' + 1\<rparr>))
             (bk_put i (b\<lparr>bi_next := bk_usedHead bk\<rparr>) bk))))"

text \<open>The search for the entry in the list of used entries: \<open>prev\<close> is the place that holds the current index, the head of the list
  or the link of an entry.\<close>

definition link_get :: "int option \<Rightarrow> sBlocksInfo \<Rightarrow> int outcome" where
  "link_get prev bk = (case prev of None \<Rightarrow> Ret (bk_usedHead bk) | Some p \<Rightarrow> omap bi_next (bk_get bk p))"

definition link_set :: "int option \<Rightarrow> int \<Rightarrow> sBlocksInfo \<Rightarrow> sBlocksInfo outcome" where
  "link_set prev v bk = (case prev of None \<Rightarrow> Ret (bk\<lparr>bk_usedHead := v\<rparr>)
     | Some p \<Rightarrow> obind (bk_get bk p) (\<lambda>b. bk_put p (b\<lparr>bi_next := v\<rparr>) bk))"

fun unlink_used :: "nat \<Rightarrow> int \<Rightarrow> int option \<Rightarrow> sBlocksInfo \<Rightarrow> sBlocksInfo outcome" where
  "unlink_used 0 i prev bk = OutOfFuel"
| "unlink_used (Suc k) i prev bk =
     obind (link_get prev bk) (\<lambda>cur.
       if cur = - 1 then Ret bk
       else if cur = i then obind (bk_get bk i) (\<lambda>b. link_set prev (bi_next b) bk)
       else unlink_used k i (Some cur) bk)"

definition free_block :: "int \<Rightarrow> sBlocksInfo \<Rightarrow> sBlocksInfo outcome" where
  "free_block i bk =
     (if i < 0 \<or> i \<ge> bk_max bk then Ret bk
      else
        obind (unlink_used (Suc (length (bk_blocks bk))) i None bk) (\<lambda>bk.
        obind (bk_get bk i) (\<lambda>b.
        omap (\<lambda>bk. bk\<lparr>bk_freeHead := i, bk_usedCount := bk_usedCount bk - 1\<rparr>)
          (bk_put i (b\<lparr>bi_next := bk_freeHead bk\<rparr>) bk))))"

definition bk_set :: "int \<Rightarrow> sBlockInfo \<Rightarrow> sBlocksInfo \<Rightarrow> sBlocksInfo outcome" where
  "bk_set i d bk = obind (bk_get bk i) (\<lambda>b. bk_put i (d\<lparr>bi_next := bi_next b\<rparr>) bk)"

definition bk_is_full :: "sBlocksInfo \<Rightarrow> bool" where
  "bk_is_full bk = (bk_freeHead bk = - 1)"

definition update_times1 :: "int \<Rightarrow> sBlocksInfo \<Rightarrow> sBlocksInfo outcome" where
  "update_times1 i bk = omap (\<lambda>b.
     bk\<lparr>bk_utime_first := (if bk_utime_first bk = 0 \<or> bi_utime_first b < bk_utime_first bk then bi_utime_first b else bk_utime_first bk),
        bk_utime_last := (if bk_utime_last bk = 0 \<or> bi_utime_last b > bk_utime_last bk then bi_utime_last b else bk_utime_last bk),
        bk_at_first := (if bk_at_first bk = 0 \<or> bi_at b < bk_at_first bk then bi_at b else bk_at_first bk),
        bk_at_last := (if bk_at_last bk = 0 \<or> bi_at b > bk_at_last bk then bi_at b else bk_at_last bk)\<rparr>) (bk_get bk i)"

fun update_times_loop :: "nat \<Rightarrow> int \<Rightarrow> sBlocksInfo \<Rightarrow> sBlocksInfo outcome" where
  "update_times_loop 0 i bk = OutOfFuel"
| "update_times_loop (Suc k) i bk =
     (if i = - 1 then Ret bk
      else obind (update_times1 i bk) (\<lambda>bk. obind (bk_get bk i) (\<lambda>b. update_times_loop k (bi_next b) bk)))"

definition update_times :: "sBlocksInfo \<Rightarrow> sBlocksInfo outcome" where
  "update_times bk = update_times_loop (Suc (length (bk_blocks bk))) (bk_usedHead bk) (clean_times bk)"

section \<open>The loop\<close>

definition deq_add :: "pcap_block_store \<Rightarrow> u64 \<Rightarrow> sBlockInfo \<Rightarrow> sBlocksInfo \<Rightarrow> (bool \<times> sBlocksInfo) outcome" where
  "deq_add st at garbage bk =
     obind (set_first_last (garbage\<lparr>bi_store := st\<rparr>)) (\<lambda>(ok, b).
       if \<not> ok then Ret (False, bk)
       else
         obind (set_time_first_last b) (\<lambda>b.
         obind (new_block bk) (\<lambda>(i, bk).
         obind (bk_set i (b\<lparr>bi_at := at\<rparr>) bk) (\<lambda>bk.
         omap (\<lambda>bk. (True, bk\<lparr>bk_heap := snd (mh_insert (bk_key bk) i (bk_heap bk))\<rparr>)) (update_times1 i bk)))))"

record deq_opts =
  dq_need_blocks :: int
  dq_window_us :: u64

definition deq_ready :: "deq_opts \<Rightarrow> u64 \<Rightarrow> bool \<Rightarrow> sBlocksInfo \<Rightarrow> bool" where
  "deq_ready o' now over_20_perc bk =
     (bk_usedCount bk \<noteq> 0 \<and>
      (if dq_need_blocks o' \<noteq> 0 then bk_usedCount bk \<ge> dq_need_blocks o'
       else bk_utime_last bk - bk_utime_first bk > dq_window_us o' \<and> bk_at_last bk - bk_at_first bk > dq_window_us o' \<or>
            now - bk_at_first bk > dq_window_us o' * 4 \<or> over_20_perc \<or> bk_is_full bk))"

text \<open>One round: the entry and the position of the packet handed over.\<close>

definition deq_step :: "sBlocksInfo \<Rightarrow> ((pcap_block_store \<times> nat) option \<times> sBlocksInfo) outcome" where
  "deq_step bk =
     (case mh_getMin (bk_heap bk) of None \<Rightarrow> Ret (None, bk)
      | Some i \<Rightarrow>
          if i < 0 then Ret (None, bk) else
          obind (bk_get bk i) (\<lambda>b.
          obind (inc_pos_act b) (\<lambda>(ok, b').
          obind (bk_put i b' bk) (\<lambda>bk.
          omap (\<lambda>bk. (Some (bi_store b, bi_act b), bk))
            (if \<not> ok then
               obind (free_block i bk) (\<lambda>bk.
                 update_times (bk\<lparr>bk_heap := snd (mh_extractMin (bk_key bk) (bk_heap bk))\<rparr>))
             else
               obind (update_time_first b') (\<lambda>b''. omap (\<lambda>bk. bk\<lparr>bk_heap := mh_doHeapify (bk_key bk) (bk_heap bk)\<rparr>) (bk_put i b'' bk)))))))"


section \<open>The packets left in an entry\<close>

definition readable :: "pcap_block_store \<Rightarrow> bool" where
  "readable st = (\<forall>i < bs_count st. returns (is_ignore st i) \<and> returns (pkt_utime st i))"

definition ign :: "pcap_block_store \<Rightarrow> nat \<Rightarrow> bool" where
  "ign st i = (is_ignore st i = Ret True)"

definition ptime :: "pcap_block_store \<Rightarrow> nat \<Rightarrow> u64" where
  "ptime st i = (case pkt_utime st i of Ret t \<Rightarrow> t | _ \<Rightarrow> 0)"

lemma readable_simps:
  "readable st \<Longrightarrow> i < bs_count st \<Longrightarrow> is_ignore st i = Ret (ign st i)"
  "readable st \<Longrightarrow> i < bs_count st \<Longrightarrow> pkt_utime st i = Ret (ptime st i)"
  unfolding readable_def ign_def ptime_def by (force simp: returns_iff)+

lemma content_readable:
  assumes c: "bs_content st items"
  shows "readable st"
  unfolding readable_def
proof (intro allI impI)
  fix i assume "i < bs_count st"
  then have i: "i < length items" "i < bs_count st" using c by (simp_all add: bs_content_def)
  note o = bs_content_item [OF c i(1)]
  let ?p = "length (lay (take i items))"
  have p: "unat (word_of_nat ?p :: u32) = ?p" using o(2) by (simp add: unat_of_nat)
  have h: "length (fst (items ! i)) = header_size (bs_hm st)" using c i by (auto simp: bs_content_def item_ok_def)
  have "?p + header_size (bs_hm st) \<le> length (bs_mem st)"
    using o(3) h header_size_bounds(1) [of "bs_hm st"] by (auto dest!: arg_cong [where f = length])
  then have ld: "?p + 36 \<le> length (bs_mem st)" "bs_hm st = hm_plus2 \<Longrightarrow> ?p + 58 \<le> length (bs_mem st)"
    using header_size_bounds(2) [of "bs_hm st"] by (auto simp: header_size_def plus2_size_def)
  show "returns (is_ignore st i) \<and> returns (pkt_utime st i)"
    using o(1) p ld i by (auto simp: is_ignore_def hp_ignore_def pkt_utime_def bs_item_def mem_simps)
qed

definition entry_ok :: "sBlockInfo \<Rightarrow> bool" where
  "entry_ok b = (readable (bi_store b) \<and> bi_act b \<le> bi_last b \<and> bi_last b < bs_count (bi_store b) \<and> \<not> ign (bi_store b) (bi_act b) \<and>
     bi_utime_first b = ptime (bi_store b) (bi_act b))"

definition entry_rest :: "sBlockInfo \<Rightarrow> nat list" where
  "entry_rest b = filter (\<lambda>i. \<not> ign (bi_store b) i) [bi_act b..<Suc (bi_last b)]"

lemma entry_rest_hd: "entry_ok b \<Longrightarrow> entry_rest b = bi_act b # filter (\<lambda>i. \<not> ign (bi_store b) i) [Suc (bi_act b)..<Suc (bi_last b)]"
  by (simp add: entry_rest_def entry_ok_def upt_rec [of "bi_act b"] del: upt_Suc)

lemma inc_pos_facts:
  assumes "readable st" "lst < bs_count st" "act \<le> lst"
  shows "\<exists>ok a. inc_pos st lst act = Ret (ok, a) \<and>
    (if ok then act < a \<and> a \<le> lst \<and> \<not> ign st a \<and> filter (\<lambda>i. \<not> ign st i) [Suc act..<Suc lst] = filter (\<lambda>i. \<not> ign st i) [a..<Suc lst]
     else filter (\<lambda>i. \<not> ign st i) [Suc act..<Suc lst] = [])"
  using assms
proof (induction st lst act rule: inc_pos.induct)
  case (1 st lst act)
  show ?case
  proof (cases "act < lst")
    case True
    have r: "is_ignore st (act + 1) = Ret (ign st (act + 1))" using readable_simps(1) [OF "1.prems"(1)] True "1.prems"(2) by simp
    show ?thesis
    proof (cases "ign st (act + 1)")
      case ig: True
      obtain ok a where IH: "inc_pos st lst (act + 1) = Ret (ok, a)"
        "if ok then act + 1 < a \<and> a \<le> lst \<and> \<not> ign st a \<and> filter (\<lambda>i. \<not> ign st i) [Suc (act + 1)..<Suc lst] = filter (\<lambda>i. \<not> ign st i) [a..<Suc lst]
         else filter (\<lambda>i. \<not> ign st i) [Suc (act + 1)..<Suc lst] = []"
        using "1.IH" [OF True, of True] ig "1.prems" True by auto
      have "inc_pos st lst act = Ret (ok, a)" using True r ig IH(1) by (subst inc_pos.simps) simp
      moreover have "filter (\<lambda>i. \<not> ign st i) [Suc act..<Suc lst] = filter (\<lambda>i. \<not> ign st i) [Suc (act + 1)..<Suc lst]"
        using True ig by (simp add: upt_rec [of "Suc act"] del: upt_Suc)
      ultimately show ?thesis using IH(2) by (intro exI [of _ ok] exI [of _ a]) (auto split: if_splits simp del: upt_Suc)
    next
      case False
      have "inc_pos st lst act = Ret (True, act + 1)" using True r False by (subst inc_pos.simps) simp
      then show ?thesis using True False by (intro exI [of _ True] exI [of _ "act + 1"]) (simp del: upt_Suc)
    qed
  next
    case False
    then have "inc_pos st lst act = Ret (False, act)" by (subst inc_pos.simps) simp
    then show ?thesis using False "1.prems"(3) by auto
  qed
qed

lemma inc_pos_act_facts:
  assumes "entry_ok b"
  obtains ok b' where "inc_pos_act b = Ret (ok, b')" "b' = b\<lparr>bi_act := bi_act b'\<rparr>"
    "ok \<Longrightarrow> entry_rest b = bi_act b # entry_rest b'" "\<not> ok \<Longrightarrow> entry_rest b = [bi_act b]"
    "ok \<Longrightarrow> update_time_first b' = Ret (b'\<lparr>bi_utime_first := ptime (bi_store b) (bi_act b')\<rparr>)"
    "ok \<Longrightarrow> entry_ok (b'\<lparr>bi_utime_first := ptime (bi_store b) (bi_act b')\<rparr>)"
proof -
  have e: "readable (bi_store b)" "bi_act b \<le> bi_last b" "bi_last b < bs_count (bi_store b)" using assms by (auto simp: entry_ok_def)
  obtain ok a where r: "inc_pos (bi_store b) (bi_last b) (bi_act b) = Ret (ok, a)"
    "if ok then bi_act b < a \<and> a \<le> bi_last b \<and> \<not> ign (bi_store b) a \<and>
        filter (\<lambda>i. \<not> ign (bi_store b) i) [Suc (bi_act b)..<Suc (bi_last b)] = filter (\<lambda>i. \<not> ign (bi_store b) i) [a..<Suc (bi_last b)]
     else filter (\<lambda>i. \<not> ign (bi_store b) i) [Suc (bi_act b)..<Suc (bi_last b)] = []"
    using inc_pos_facts [OF e(1,3,2)] by blast
  show thesis
  proof (rule that [of ok "b\<lparr>bi_act := a\<rparr>"])
    show "inc_pos_act b = Ret (ok, b\<lparr>bi_act := a\<rparr>)" using r(1) by (simp add: inc_pos_act_def)
  next
    assume ok
    then show "entry_rest b = bi_act b # entry_rest (b\<lparr>bi_act := a\<rparr>)" using r(2) entry_rest_hd [OF assms] by (simp add: entry_rest_def del: upt_Suc)
    show "update_time_first (b\<lparr>bi_act := a\<rparr>) = Ret (b\<lparr>bi_act := a\<rparr>\<lparr>bi_utime_first := ptime (bi_store b) (bi_act (b\<lparr>bi_act := a\<rparr>))\<rparr>)"
      using r(2) \<open>ok\<close> e readable_simps(2) [OF e(1), of a] by (simp add: update_time_first_def)
    show "entry_ok (b\<lparr>bi_act := a\<rparr>\<lparr>bi_utime_first := ptime (bi_store b) (bi_act (b\<lparr>bi_act := a\<rparr>))\<rparr>)"
      using r(2) \<open>ok\<close> e by (simp add: entry_ok_def)
  next
    assume "\<not> ok"
    then show "entry_rest b = [bi_act b]" using r(2) entry_rest_hd [OF assms] by (simp del: upt_Suc)
  qed simp
qed


text \<open>All packets of a block that are not ignored.\<close>

definition block_pkts :: "pcap_block_store \<Rightarrow> nat list" where
  "block_pkts st = filter (\<lambda>i. \<not> ign st i) [0..<bs_count st]"

lemma skip_ignored_facts:
  assumes "readable st" "i \<le> bs_count st"
  shows "\<exists>j. skip_ignored st i = Ret j \<and> i \<le> j \<and> j \<le> bs_count st \<and> (j < bs_count st \<longrightarrow> \<not> ign st j) \<and>
    filter (\<lambda>i. \<not> ign st i) [i..<bs_count st] = filter (\<lambda>i. \<not> ign st i) [j..<bs_count st]"
  using assms
proof (induction st i rule: skip_ignored.induct)
  case (1 st i)
  show ?case
  proof (cases "i < bs_count st \<and> ign st i")
    case True
    then have r: "skip_ignored st i = skip_ignored st (i + 1)" using readable_simps(1) [OF "1.prems"(1), of i] by (subst skip_ignored.simps) simp
    obtain j where "skip_ignored st (i + 1) = Ret j" "i + 1 \<le> j" "j \<le> bs_count st" "j < bs_count st \<longrightarrow> \<not> ign st j"
      "filter (\<lambda>i. \<not> ign st i) [i + 1..<bs_count st] = filter (\<lambda>i. \<not> ign st i) [j..<bs_count st]"
      using "1.IH" [of True] True "1.prems" by auto
    then show ?thesis using True r by (intro exI [of _ j]) (simp add: upt_rec [of i])
  next
    case False
    then have "skip_ignored st i = Ret i" using readable_simps(1) [OF "1.prems"(1), of i] by (subst skip_ignored.simps) auto
    then show ?thesis using False "1.prems" by auto
  qed
qed

lemma skip_back_facts:
  assumes "readable st" "first \<le> l" "l < bs_count st"
  shows "\<exists>j. skip_ignored_back st first l = Ret j \<and> first \<le> j \<and> j \<le> l \<and>
    filter (\<lambda>i. \<not> ign st i) [first..<Suc l] = filter (\<lambda>i. \<not> ign st i) [first..<Suc j]"
  using assms
proof (induction l)
  case (Suc l)
  show ?case
  proof (cases "first < Suc l \<and> ign st (Suc l)")
    case True
    then have "skip_ignored_back st first (Suc l) = skip_ignored_back st first l" using readable_simps(1) [OF Suc.prems(1) Suc.prems(3)] by simp
    then show ?thesis using Suc True by fastforce
  next
    case False
    then have "skip_ignored_back st first (Suc l) = Ret (Suc l)" using readable_simps(1) [OF Suc.prems(1) Suc.prems(3)] by auto
    then show ?thesis using Suc.prems by auto
  qed
qed auto

lemma entry_new:
  assumes r: "readable st"
  shows "block_pkts st = [] \<Longrightarrow> \<exists>b'. set_first_last (b\<lparr>bi_store := st\<rparr>) = Ret (False, b')"
    and "block_pkts st \<noteq> [] \<Longrightarrow> \<exists>b' b''. set_first_last (b\<lparr>bi_store := st\<rparr>) = Ret (True, b') \<and> set_time_first_last b' = Ret b'' \<and>
      bi_store b'' = st \<and> entry_ok b'' \<and> entry_rest b'' = block_pkts st"
proof -
  obtain j where j: "skip_ignored st 0 = Ret j" "j \<le> bs_count st" "j < bs_count st \<longrightarrow> \<not> ign st j"
    "block_pkts st = filter (\<lambda>i. \<not> ign st i) [j..<bs_count st]" using skip_ignored_facts [OF r, of 0] by (auto simp: block_pkts_def)
  have emp: "block_pkts st = [] \<longleftrightarrow> j = bs_count st"
    using j(2-4) by (cases "j = bs_count st") (auto simp: upt_rec [of j])
  show "\<exists>b'. set_first_last (b\<lparr>bi_store := st\<rparr>) = Ret (False, b')" if "block_pkts st = []"
    using that emp j(1) by (simp add: set_first_last_def)
  show "\<exists>b' b''. set_first_last (b\<lparr>bi_store := st\<rparr>) = Ret (True, b') \<and> set_time_first_last b' = Ret b'' \<and>
      bi_store b'' = st \<and> entry_ok b'' \<and> entry_rest b'' = block_pkts st" if "block_pkts st \<noteq> []"
  proof -
    have lt: "j < bs_count st" using that emp j(2) by auto
    then have c1: "j \<le> bs_count st - 1" "bs_count st - 1 < bs_count st" "Suc (bs_count st - 1) = bs_count st" by auto
    obtain l where l: "skip_ignored_back st j (bs_count st - 1) = Ret l" "j \<le> l" "l < bs_count st"
      "filter (\<lambda>i. \<not> ign st i) [j..<bs_count st] = filter (\<lambda>i. \<not> ign st i) [j..<Suc l]"
      using skip_back_facts [OF r c1(1,2)] c1(2,3) by (metis le_less_trans)
    let ?b = "b\<lparr>bi_store := st, bi_first := j, bi_last := l, bi_act := j\<rparr>"
    have "set_first_last (b\<lparr>bi_store := st\<rparr>) = Ret (True, ?b)" using j(1) l(1) lt by (simp add: set_first_last_def)
    moreover have "set_time_first_last ?b = Ret (?b\<lparr>bi_utime_first := ptime st j, bi_utime_last := ptime st l\<rparr>)"
      using readable_simps(2) [OF r] lt l(3) by (simp add: set_time_first_last_def)
    moreover have "entry_ok (?b\<lparr>bi_utime_first := ptime st j, bi_utime_last := ptime st l\<rparr>)" using r l lt j(3) by (simp add: entry_ok_def)
    moreover have "entry_rest (?b\<lparr>bi_utime_first := ptime st j, bi_utime_last := ptime st l\<rparr>) = block_pkts st"
      using j(4) l(4) by (simp add: entry_rest_def del: upt_Suc)
    ultimately show ?thesis by force
  qed
qed

section \<open>The linked lists\<close>

fun chain :: "sBlockInfo list \<Rightarrow> int \<Rightarrow> nat list \<Rightarrow> bool" where
  "chain bs h [] = (h = - 1)"
| "chain bs h (x # xs) = (h = int x \<and> x < length bs \<and> chain bs (bi_next (bs ! x)) xs)"

lemma chain_update [simp]: "x \<notin> set xs \<Longrightarrow> chain (bs[x := b]) h xs = chain bs h xs"
  by (induction xs arbitrary: h) auto

lemma chain_in: "chain bs h xs \<Longrightarrow> x \<in> set xs \<Longrightarrow> x < length bs"
  by (induction xs arbitrary: h) auto

definition strip :: "sBlockInfo \<Rightarrow> sBlockInfo" where
  "strip b = b\<lparr>bi_next := 0\<rparr>"

text \<open>Only links differ.\<close>

definition same_entries :: "sBlockInfo list \<Rightarrow> sBlockInfo list \<Rightarrow> bool" where
  "same_entries bs bs' = (map strip bs = map strip bs')"

lemma same_entries_facts:
  assumes "same_entries bs bs'"
  shows "length bs' = length bs" "x < length bs \<Longrightarrow> strip (bs' ! x) = strip (bs ! x)"
  using assms unfolding same_entries_def by (metis length_map, metis length_map nth_map)

lemma same_entries_update: "x < length bs \<Longrightarrow> strip b = strip (bs ! x) \<Longrightarrow> same_entries bs (bs[x := b])"
  unfolding same_entries_def using list_update_id [of "map strip bs" x] by (simp add: map_update)

lemma strip_fields:
  "strip a = strip b \<Longrightarrow> bi_utime_first a = bi_utime_first b" "strip a = strip b \<Longrightarrow> bi_store a = bi_store b" "strip a = strip b \<Longrightarrow> entry_ok a = entry_ok b"
  "strip a = strip b \<Longrightarrow> entry_rest a = entry_rest b"
  unfolding strip_def entry_ok_def entry_rest_def by (cases a; cases b; simp)+

lemma bk_get_chain: "chain (bk_blocks bk) (int x) (x # xs) \<Longrightarrow> bk_get bk (int x) = Ret (bk_blocks bk ! x)"
  by (simp add: bk_get_def)

lemma unlink_used_facts:
  assumes "link_get prev bk = Ret cur" "chain (bk_blocks bk) cur (pre @ x # post)" "distinct (pre @ x # post)"
    and "\<And>p. prev = Some p \<Longrightarrow> 0 \<le> p \<and> nat p < length (bk_blocks bk) \<and> nat p \<notin> set (pre @ x # post)" "length pre < k"
  shows "\<exists>bs' h' cur'. unlink_used k (int x) prev bk = Ret (bk\<lparr>bk_blocks := bs', bk_usedHead := h'\<rparr>) \<and> same_entries (bk_blocks bk) bs' \<and>
    link_get prev (bk\<lparr>bk_blocks := bs', bk_usedHead := h'\<rparr>) = Ret cur' \<and> chain bs' cur' (pre @ post) \<and>
    (\<forall>j. j \<notin> set pre \<longrightarrow> prev \<noteq> Some (int j) \<longrightarrow> bs' ! j = bk_blocks bk ! j) \<and> (prev \<noteq> None \<longrightarrow> h' = bk_usedHead bk)"
  using assms
proof (induction pre arbitrary: prev cur k)
  case Nil
  obtain k' where k: "k = Suc k'" using Nil.prems(5) by (cases k) auto
  have cur: "cur = int x" "x < length (bk_blocks bk)" "chain (bk_blocks bk) (bi_next (bk_blocks bk ! x)) post" using Nil.prems(2) by simp_all
  let ?v = "bi_next (bk_blocks bk ! x)"
  have u: "unlink_used k (int x) prev bk = link_set prev ?v bk" using Nil.prems(1) k cur by (simp add: bk_get_def)
  show ?case
  proof (cases prev)
    case None
    then show ?thesis using u cur by (intro exI [of _ "bk_blocks bk"] exI [of _ ?v] exI [of _ ?v]) (simp add: link_set_def link_get_def same_entries_def)
  next
    case (Some p)
    then have p: "0 \<le> p" "nat p < length (bk_blocks bk)" "nat p \<notin> set post" using Nil.prems(4) by auto
    let ?bs = "(bk_blocks bk)[nat p := (bk_blocks bk ! nat p)\<lparr>bi_next := ?v\<rparr>]"
    have "same_entries (bk_blocks bk) ?bs" by (rule same_entries_update [OF p(2)]) (simp add: strip_def)
    moreover have "unlink_used k (int x) prev bk = Ret (bk\<lparr>bk_blocks := ?bs, bk_usedHead := bk_usedHead bk\<rparr>)"
      using u Some p by (simp add: link_set_def bk_get_def bk_put_def)
    moreover have "link_get prev (bk\<lparr>bk_blocks := ?bs, bk_usedHead := bk_usedHead bk\<rparr>) = Ret ?v" using Some p by (simp add: link_get_def bk_get_def)
    moreover have "chain ?bs ?v post" using cur(3) p(3) by simp
    moreover have "?bs ! j = bk_blocks bk ! j" if "prev \<noteq> Some (int j)" for j using that Some p(1) by (cases "j = nat p") auto
    ultimately show ?thesis by (intro exI [of _ ?bs] exI [of _ "bk_usedHead bk"] exI [of _ ?v]) simp
  qed
next
  case (Cons y pre)
  obtain k' where k: "k = Suc k'" "length pre < k'" using Cons.prems(5) by (cases k) auto
  have cur: "cur = int y" "y < length (bk_blocks bk)" "chain (bk_blocks bk) (bi_next (bk_blocks bk ! y)) (pre @ x # post)" "y \<noteq> x"
    using Cons.prems(2,3) by simp_all
  have lg: "link_get (Some (int y)) bk = Ret (bi_next (bk_blocks bk ! y))" using cur(2) by (simp add: link_get_def bk_get_def)
  have u: "unlink_used k (int x) prev bk = unlink_used k' (int x) (Some (int y)) bk" using Cons.prems(1) k cur by simp
  have "\<exists>bs' h' cur'. unlink_used k' (int x) (Some (int y)) bk = Ret (bk\<lparr>bk_blocks := bs', bk_usedHead := h'\<rparr>) \<and> same_entries (bk_blocks bk) bs' \<and>
      link_get (Some (int y)) (bk\<lparr>bk_blocks := bs', bk_usedHead := h'\<rparr>) = Ret cur' \<and> chain bs' cur' (pre @ post) \<and>
      (\<forall>j. j \<notin> set pre \<longrightarrow> Some (int y) \<noteq> Some (int j) \<longrightarrow> bs' ! j = bk_blocks bk ! j) \<and> (Some (int y) \<noteq> None \<longrightarrow> h' = bk_usedHead bk)"
    by (rule Cons.IH [OF lg cur(3)]) (use Cons.prems(3) cur(2) k(2) in auto)
  then obtain bs' cur' where IH: "unlink_used k' (int x) (Some (int y)) bk = Ret (bk\<lparr>bk_blocks := bs', bk_usedHead := bk_usedHead bk\<rparr>)"
    "same_entries (bk_blocks bk) bs'" "link_get (Some (int y)) (bk\<lparr>bk_blocks := bs', bk_usedHead := bk_usedHead bk\<rparr>) = Ret cur'"
    "chain bs' cur' (pre @ post)" "\<forall>j. j \<notin> set pre \<longrightarrow> y \<noteq> j \<longrightarrow> bs' ! j = bk_blocks bk ! j" by auto
  have len: "length bs' = length (bk_blocks bk)" using same_entries_facts(1) [OF IH(2)] .
  have "cur' = bi_next (bs' ! y)" using IH(3) cur(2) len by (simp add: link_get_def bk_get_def)
  then have ch: "chain bs' cur ((y # pre) @ post)" using IH(4) cur(1,2) len by simp
  have "link_get prev (bk\<lparr>bk_blocks := bs', bk_usedHead := bk_usedHead bk\<rparr>) = Ret cur"
  proof (cases prev)
    case None
    then show ?thesis using Cons.prems(1) by (simp add: link_get_def)
  next
    case (Some p)
    then have p: "0 \<le> p" "nat p < length (bk_blocks bk)" "nat p \<notin> set (y # pre)" using Cons.prems(4) by auto
    then have "bs' ! nat p = bk_blocks bk ! nat p" using IH(5) by auto
    then show ?thesis using Cons.prems(1) Some p len by (simp add: link_get_def bk_get_def)
  qed
  then show ?case using u IH(1,2,5) ch by (intro exI [of _ bs'] exI [of _ "bk_usedHead bk"] exI [of _ cur]) auto
qed


section \<open>Invariant of the table\<close>

definition bk_inv :: "sBlocksInfo \<Rightarrow> nat list \<Rightarrow> nat list \<Rightarrow> bool" where
  "bk_inv bk us fs =
     (chain (bk_blocks bk) (bk_usedHead bk) us \<and> chain (bk_blocks bk) (bk_freeHead bk) fs \<and> distinct (us @ fs) \<and>
      length (us @ fs) = length (bk_blocks bk) \<and> bk_max bk = int (length (bk_blocks bk)) \<and> bk_usedCount bk = int (length us) \<and>
      mh_inv (bk_key bk) (bk_heap bk) \<and> mh_elems (bk_heap bk) = mset (map int us) \<and> mh_capacity (bk_heap bk) = length (bk_blocks bk) \<and>
      (\<forall>x \<in> set us. entry_ok (bk_blocks bk ! x)))"

lemma mh_inv_cong:
  assumes "mh_inv key h" "\<And>y. y \<in># mh_elems h \<Longrightarrow> key' y = key y"
  shows "mh_inv key' h"
proof -
  have m: "key' (mh_data h ! i) = key (mh_data h ! i)" if "i < mh_size h" for i
  proof (rule assms(2))
    have "mh_data h ! i \<in> set (take (mh_size h) (mh_data h))"
      using that assms(1) by (auto simp: mh_inv_def mh_wf_def in_set_conv_nth intro!: exI [of _ i])
    then show "mh_data h ! i \<in># mh_elems h" by (simp add: mh_elems_def)
  qed
  have "key' (mh_data h ! mh_parent i) \<le> key' (mh_data h ! i)" if "0 < i" "i < mh_size h" for i
    using m [of i] m [of "mh_parent i"] mh_parent_less [OF that(1)] that assms(1) by (simp add: mh_inv_def heap_order_def)
  then show ?thesis using assms(1) by (simp add: mh_inv_def heap_order_def)
qed

definition times_only :: "sBlocksInfo \<Rightarrow> sBlocksInfo \<Rightarrow> bool" where
  "times_only bk bk' = (\<exists>a b c d. bk' = bk\<lparr>bk_utime_first := a, bk_utime_last := b, bk_at_first := c, bk_at_last := d\<rparr>)"

lemma times_only_trans: "times_only a b \<Longrightarrow> times_only b c \<Longrightarrow> times_only a c"
  unfolding times_only_def by force

lemma times_only_refl: "times_only bk bk"
  unfolding times_only_def by (intro exI [of _ "bk_utime_first bk"] exI [of _ "bk_utime_last bk"] exI [of _ "bk_at_first bk"] exI [of _ "bk_at_last bk"]) simp

lemma times_only_inv: "times_only bk bk' \<Longrightarrow> bk_inv bk' us fs = bk_inv bk us fs" "times_only bk bk' \<Longrightarrow> bk_blocks bk' = bk_blocks bk"
proof -
  have k: "bk_key (bk\<lparr>bk_utime_first := a, bk_utime_last := b, bk_at_first := c, bk_at_last := d\<rparr>) = bk_key bk" for a b c d
    by (simp add: bk_key_def fun_eq_iff)
  show "times_only bk bk' \<Longrightarrow> bk_inv bk' us fs = bk_inv bk us fs" "times_only bk bk' \<Longrightarrow> bk_blocks bk' = bk_blocks bk"
    unfolding times_only_def by (auto simp: bk_inv_def k)
qed

lemma update_times1_ok: "x < length (bk_blocks bk) \<Longrightarrow> \<exists>bk'. update_times1 (int x) bk = Ret bk' \<and> times_only bk bk'"
proof -
  assume "x < length (bk_blocks bk)"
  then have "bk_get bk (int x) = Ret (bk_blocks bk ! x)" by (simp add: bk_get_def)
  then show ?thesis unfolding update_times1_def times_only_def by (simp only: omap.simps) blast
qed

lemma update_times_loop_ok: "chain (bk_blocks bk) h xs \<Longrightarrow> length xs < k \<Longrightarrow> \<exists>bk'. update_times_loop k h bk = Ret bk' \<and> times_only bk bk'"
proof (induction xs arbitrary: h k bk)
  case Nil
  then show ?case by (cases k) (auto simp: times_only_refl)
next
  case (Cons x xs)
  obtain k' where k: "k = Suc k'" using Cons.prems(2) by (cases k) auto
  have x: "h = int x" "x < length (bk_blocks bk)" "chain (bk_blocks bk) (bi_next (bk_blocks bk ! x)) xs" using Cons.prems(1) by simp_all
  obtain bk1 where bk1: "update_times1 (int x) bk = Ret bk1" "times_only bk bk1" using update_times1_ok [OF x(2)] by blast
  note b = times_only_inv(2) [OF bk1(2)]
  obtain bk' where "update_times_loop k' (bi_next (bk_blocks bk ! x)) bk1 = Ret bk'" "times_only bk1 bk'"
    using Cons.IH [of bk1 _ k'] x(3) Cons.prems(2) k b by auto
  then show ?case using k x bk1 b times_only_trans by (force simp: bk_get_def)
qed

lemma clean_times_only: "times_only bk (clean_times bk)"
  unfolding times_only_def clean_times_def by blast

lemma update_times_ok: "chain (bk_blocks bk) (bk_usedHead bk) xs \<Longrightarrow> length xs \<le> length (bk_blocks bk) \<Longrightarrow> \<exists>bk'. update_times bk = Ret bk' \<and> times_only bk bk'"
  using update_times_loop_ok [of "clean_times bk" "bk_usedHead bk" xs "Suc (length (bk_blocks bk))"] times_only_trans [OF clean_times_only]
    times_only_inv(2) [OF clean_times_only [of bk]] by (auto simp: update_times_def less_Suc_eq_le)

lemma remove_mset_int: "add_mset (int x) M = mset (map int (pre @ x # post)) \<Longrightarrow> M = mset (map int (pre @ post))"
  by simp

text \<open>Taking an entry out of the used list and putting it in front of the free list.\<close>

lemma free_block_facts:
  assumes ch: "chain (bk_blocks bk) (bk_usedHead bk) (pre @ x # post)" "chain (bk_blocks bk) (bk_freeHead bk) fs" "distinct (pre @ x # post @ fs)"
    and len: "length (pre @ x # post) \<le> length (bk_blocks bk)" "bk_max bk = int (length (bk_blocks bk))"
  shows "\<exists>bs' h'. free_block (int x) bk = Ret (bk\<lparr>bk_blocks := bs', bk_usedHead := h', bk_freeHead := int x, bk_usedCount := bk_usedCount bk - 1\<rparr>) \<and>
    same_entries (bk_blocks bk) bs' \<and> chain bs' h' (pre @ post) \<and> chain bs' (int x) (x # fs)"
proof -
  have x: "x < length (bk_blocks bk)" using chain_in [OF ch(1)] by simp
  have lg: "link_get None bk = Ret (bk_usedHead bk)" by (simp add: link_get_def)
  have dist: "distinct (pre @ x # post)" using ch(3) by auto
  obtain bs h' where u: "unlink_used (Suc (length (bk_blocks bk))) (int x) None bk = Ret (bk\<lparr>bk_blocks := bs, bk_usedHead := h'\<rparr>)"
    "same_entries (bk_blocks bk) bs" "chain bs h' (pre @ post)" "\<forall>j. j \<notin> set pre \<longrightarrow> bs ! j = bk_blocks bk ! j"
    using unlink_used_facts [OF lg ch(1) dist, of "Suc (length (bk_blocks bk))"] len(1) by (auto simp: link_get_def)
  have lb: "length bs = length (bk_blocks bk)" by (rule same_entries_facts(1) [OF u(2)])
  define bs' where "bs' = bs[x := (bs ! x)\<lparr>bi_next := bk_freeHead bk\<rparr>]"
  have "free_block (int x) bk = Ret (bk\<lparr>bk_blocks := bs', bk_usedHead := h', bk_freeHead := int x, bk_usedCount := bk_usedCount bk - 1\<rparr>)"
    using u(1) x lb len(2) by (simp add: free_block_def bk_get_def bk_put_def bs'_def)
  moreover have "same_entries (bk_blocks bk) bs'"
    using u(2) same_entries_update [of x bs "(bs ! x)\<lparr>bi_next := bk_freeHead bk\<rparr>"] x lb by (simp add: same_entries_def bs'_def strip_def)
  moreover have "chain bs' h' (pre @ post)" using u(3) ch(3) by (simp add: bs'_def)
  moreover have "chain bs' (int x) (x # fs)"
  proof -
    have "chain bs h fs = chain (bk_blocks bk) h fs" for h
      using ch(3) u(4) lb by (induction fs arbitrary: h) auto
    then show ?thesis using ch(2,3) x lb by (simp add: bs'_def)
  qed
  ultimately show ?thesis by blast
qed


section \<open>One round\<close>

lemma bk_inv_facts:
  assumes "bk_inv bk us fs"
  shows "chain (bk_blocks bk) (bk_usedHead bk) us" "chain (bk_blocks bk) (bk_freeHead bk) fs" "distinct (us @ fs)"
    "length us + length fs = length (bk_blocks bk)" "bk_max bk = int (length (bk_blocks bk))" "bk_usedCount bk = int (length us)"
    "mh_inv (bk_key bk) (bk_heap bk)" "mh_elems (bk_heap bk) = mset (map int us)" "mh_capacity (bk_heap bk) = length (bk_blocks bk)"
    "x \<in> set us \<Longrightarrow> entry_ok (bk_blocks bk ! x)" "x \<in> set us \<Longrightarrow> x < length (bk_blocks bk)"
  using assms chain_in [of "bk_blocks bk" "bk_usedHead bk" us x] unfolding bk_inv_def by simp_all

lemma heap_min_entry:
  assumes inv: "bk_inv bk us fs" and ne: "us \<noteq> []"
  obtains x where "x \<in> set us" "mh_getMin (bk_heap bk) = Some (int x)"
    "\<And>y. y \<in> set us \<Longrightarrow> bi_utime_first (bk_blocks bk ! x) \<le> bi_utime_first (bk_blocks bk ! y)"
proof -
  note f = bk_inv_facts [OF inv]
  have "mh_getMin (bk_heap bk) \<noteq> None" using min_heap.min_None [OF f(7)] f(8) ne by (cases us) auto
  then obtain i where i: "mh_getMin (bk_heap bk) = Some i" by blast
  note m = min_heap.min_Some [OF f(7) i]
  then obtain x where x: "i = int x" "x \<in> set us" using f(8) by auto
  have "bi_utime_first (bk_blocks bk ! x) \<le> bi_utime_first (bk_blocks bk ! y)" if "y \<in> set us" for y
  proof -
    have "int y \<in># mh_elems (bk_heap bk)" using f(8) that by simp
    then show ?thesis using m x by (auto simp: bk_key_def)
  qed
  then show thesis using that x i by blast
qed

lemma mh_capacity_keep: "mh_capacity (mh_doHeapify key h) = mh_capacity h" "mh_capacity (snd (mh_extractMin key h)) = mh_capacity h"
  "mh_capacity (snd (mh_insert key x h)) = mh_capacity h"
  by (simp_all add: mh_doHeapify_def mh_extractMin_def mh_insert_def)

lemma chain_same_next: "bi_next b = bi_next (bs ! x) \<Longrightarrow> chain (bs[x := b]) h xs = chain bs h xs"
proof (induction xs arbitrary: h)
  case (Cons y xs)
  have "bi_next (bs[x := b] ! y) = bi_next (bs ! y)" if "y < length bs" using Cons.prems that by (cases "y = x") simp_all
  then show ?case unfolding chain.simps length_list_update Cons.IH [OF Cons.prems] by (cases "y < length bs") simp_all
qed simp

text \<open>The entry with the oldest packet has more packets.\<close>

lemma round_more:
  assumes inv: "bk_inv bk us fs" and x: "x \<in> set us" "mh_getMin (bk_heap bk) = Some (int x)" and b: "entry_ok b" "bi_next b = bi_next (bk_blocks bk ! x)"
  defines "bk1 \<equiv> bk\<lparr>bk_blocks := (bk_blocks bk)[x := b]\<rparr>"
  shows "bk_inv (bk1\<lparr>bk_heap := mh_doHeapify (bk_key bk1) (bk_heap bk1)\<rparr>) us fs"
proof -
  note f = bk_inv_facts [OF inv]
  have ch: "chain ((bk_blocks bk)[x := b]) h xs = chain (bk_blocks bk) h xs" for h xs
    by (rule chain_same_next [OF b(2)])
  have rest: "mh_elems (bk_heap bk) - {#int x#} = mset (map int (remove1 x us))" using f(8) x(1) by (simp add: mset_remove1 image_mset_Diff)
  have "x \<notin> set (remove1 x us)" using f(3) by (simp add: set_remove1_eq)
  then have nx: "int x \<notin># mh_elems (bk_heap bk) - {#int x#}" unfolding rest set_mset_mset set_map by auto
  have same: "\<forall>y \<in># mh_elems (bk_heap bk) - {#int x#}. bk_key bk1 y = bk_key bk y"
  proof
    fix y assume "y \<in># mh_elems (bk_heap bk) - {#int x#}"
    then have "0 \<le> y" "nat y \<noteq> x" using nx unfolding rest set_mset_mset set_map by auto
    then show "bk_key bk1 y = bk_key bk y" by (simp add: bk_key_def bk1_def)
  qed
  note h = min_heap.fix_law [OF f(7) x(2) same nx]
  have k: "bk_key (bk1\<lparr>bk_heap := hh\<rparr>) = bk_key bk1" for hh by (simp add: bk_key_def fun_eq_iff)
  have "entry_ok ((bk_blocks bk)[x := b] ! y)" if "y \<in> set us" for y using that inv b(1) bk_inv_facts(10) [OF inv that] by (cases "y = x") (auto simp: bk_inv_facts(11) [OF inv])
  then show ?thesis using f(1-9) h ch unfolding bk_inv_def k by (simp add: bk1_def mh_capacity_keep)
qed

text \<open>It has no more packets: the entry becomes free.\<close>

lemma round_last:
  assumes inv: "bk_inv bk us fs" and x: "x \<in> set us" "mh_getMin (bk_heap bk) = Some (int x)"
    and b: "bi_next b = bi_next (bk_blocks bk ! x)" "bi_utime_first b = bi_utime_first (bk_blocks bk ! x)"
  shows "\<exists>bk2 bk3. free_block (int x) (bk\<lparr>bk_blocks := (bk_blocks bk)[x := b]\<rparr>) = Ret bk2 \<and>
    update_times (bk2\<lparr>bk_heap := snd (mh_extractMin (bk_key bk2) (bk_heap bk2))\<rparr>) = Ret bk3 \<and> bk_inv bk3 (remove1 x us) (x # fs) \<and>
    (\<forall>y \<in> set us. y \<noteq> x \<longrightarrow> strip (bk_blocks bk3 ! y) = strip (bk_blocks bk ! y))"
proof -
  note f = bk_inv_facts [OF inv]
  let ?bk1 = "bk\<lparr>bk_blocks := (bk_blocks bk)[x := b]\<rparr>"
  obtain pre post where us: "us = pre @ x # post" using x(1) by (meson split_list)
  have ch: "chain ((bk_blocks bk)[x := b]) h xs = chain (bk_blocks bk) h xs" for h xs
    by (rule chain_same_next [OF b(1)])
  have fb: "\<exists>bs' h'. free_block (int x) ?bk1 = Ret (?bk1\<lparr>bk_blocks := bs', bk_usedHead := h', bk_freeHead := int x, bk_usedCount := bk_usedCount ?bk1 - 1\<rparr>) \<and>
    same_entries (bk_blocks ?bk1) bs' \<and> chain bs' h' (pre @ post) \<and> chain bs' (int x) (x # fs)"
    by (rule free_block_facts) (use f ch us in auto)
  then obtain bs' h' where fb: "free_block (int x) ?bk1 = Ret (?bk1\<lparr>bk_blocks := bs', bk_usedHead := h', bk_freeHead := int x, bk_usedCount := bk_usedCount bk - 1\<rparr>)"
    "same_entries ((bk_blocks bk)[x := b]) bs'" "chain bs' h' (pre @ post)" "chain bs' (int x) (x # fs)" by auto
  define bk2 where "bk2 = ?bk1\<lparr>bk_blocks := bs', bk_usedHead := h', bk_freeHead := int x, bk_usedCount := bk_usedCount bk - 1\<rparr>"
  have len: "length bs' = length (bk_blocks bk)" using same_entries_facts(1) [OF fb(2)] by simp
  have st: "strip (bs' ! y) = strip ((bk_blocks bk)[x := b] ! y)" if "y < length (bk_blocks bk)" for y using same_entries_facts(2) [OF fb(2)] that by simp
  have key: "bk_key bk2 y = bk_key bk y" if y: "y \<in># mh_elems (bk_heap bk)" for y
  proof -
    obtain z where z: "y = int z" "z \<in> set us" using y f(8) by auto
    then have "z < length (bk_blocks bk)" using bk_inv_facts(11) [OF inv] by blast
    then have "bi_utime_first (bs' ! z) = bi_utime_first (bk_blocks bk ! z)"
      using strip_fields(1) [OF st] b(2) by (cases "z = x") auto
    then show ?thesis using z(1) by (simp add: bk_key_def bk2_def)
  qed
  have hp: "bk_heap bk2 = bk_heap bk" by (simp add: bk2_def)
  obtain r h2 where ex: "mh_extractMin (bk_key bk2) (bk_heap bk) = (r, h2)" by force
  note law = min_heap.take_law [OF mh_inv_cong [OF f(7) key] x(2) ex]
  have el: "mh_elems h2 = mset (map int (pre @ post))" by (rule remove_mset_int [of x]) (use law f(8) us in simp)
  let ?bk = "bk2\<lparr>bk_heap := h2\<rparr>"
  have k: "bk_key ?bk = bk_key bk2" by (simp add: bk_key_def fun_eq_iff)
  have ents: "entry_ok (bs' ! y)" if "y \<in> set (pre @ post)" for y
  proof -
    have "y \<in> set us" "y \<noteq> x" "y < length (bk_blocks bk)" using that us f(3) bk_inv_facts(11) [OF inv, of y] by auto
    then show ?thesis using strip_fields(3) [OF st] bk_inv_facts(10) [OF inv] by simp
  qed
  have inv': "bk_inv ?bk (pre @ post) (x # fs)"
    unfolding bk_inv_def k using law el fb(3,4) f(3-6,9) us len ents mh_capacity_keep(2) [of "bk_key bk2" "bk_heap bk"] ex
    by (auto simp: bk2_def)
  obtain bk3 where bk3: "update_times ?bk = Ret bk3" "times_only ?bk bk3"
    using update_times_ok [OF bk_inv_facts(1) [OF inv']] bk_inv_facts(4) [OF inv'] by auto
  have rm: "remove1 x us = pre @ post" using us f(3) by (simp add: remove1_append)
  have "bk_inv bk3 (remove1 x us) (x # fs)" using times_only_inv(1) [OF bk3(2)] inv' rm by simp
  moreover have "strip (bk_blocks bk3 ! y) = strip (bk_blocks bk ! y)" if "y \<in> set us" "y \<noteq> x" for y
    using st [of y] bk_inv_facts(11) [OF inv that(1)] times_only_inv(2) [OF bk3(2)] that by (simp add: bk2_def)
  ultimately show ?thesis using fb(1) bk3(1) ex by (intro exI [of _ bk2] exI [of _ bk3]) (simp add: hp, simp add: bk2_def)
qed


text \<open>The packets waiting in the table, as blocks and positions.\<close>

definition entry_pkts :: "sBlocksInfo \<Rightarrow> nat \<Rightarrow> (pcap_block_store \<times> nat) list" where
  "entry_pkts bk x = map (Pair (bi_store (bk_blocks bk ! x))) (entry_rest (bk_blocks bk ! x))"

lemma entry_pkts_strip: "strip (bk_blocks bk' ! y) = strip (bk_blocks bk ! y) \<Longrightarrow> entry_pkts bk' y = entry_pkts bk y"
  using strip_fields(2,4) by (metis entry_pkts_def)

text \<open>The effect of a round: the first packet of an entry \<open>x\<close> leaves, it is not younger than the first packet of any other entry, the
  other entries stay as they are.\<close>

definition deq_move :: "sBlocksInfo \<Rightarrow> nat list \<Rightarrow> nat \<Rightarrow> pcap_block_store \<times> nat \<Rightarrow> (pcap_block_store \<times> nat) list \<Rightarrow> sBlocksInfo \<Rightarrow> nat list \<Rightarrow> bool" where
  "deq_move bk us x p r bk' us' =
     (x \<in> set us \<and> entry_pkts bk x = p # r \<and> (r \<noteq> [] \<longrightarrow> us' = us \<and> entry_pkts bk' x = r) \<and> (r = [] \<longrightarrow> us' = remove1 x us) \<and>
      (\<forall>y \<in> set us. y \<noteq> x \<longrightarrow> entry_pkts bk' y = entry_pkts bk y) \<and>
      (\<forall>y \<in> set us. ptime (fst p) (snd p) \<le> (case hd (entry_pkts bk y) of (st, i) \<Rightarrow> ptime st i)) \<and>
      (\<forall>y \<in> set us'. bi_store (bk_blocks bk' ! y) = bi_store (bk_blocks bk ! y)))"

lemma deq_step_facts:
  assumes inv: "bk_inv bk us fs" and ne: "us \<noteq> []"
  obtains x p r bk' us' fs' where "deq_step bk = Ret (Some p, bk')" "bk_inv bk' us' fs'" "deq_move bk us x p r bk' us'"
proof -
  obtain x where x: "x \<in> set us" "mh_getMin (bk_heap bk) = Some (int x)"
    "\<And>y. y \<in> set us \<Longrightarrow> bi_utime_first (bk_blocks bk ! x) \<le> bi_utime_first (bk_blocks bk ! y)"
    using heap_min_entry [OF inv ne] by blast
  define b where "b = bk_blocks bk ! x"
  have xl: "x < length (bk_blocks bk)" and eb: "entry_ok b" using bk_inv_facts(10,11) [OF inv x(1)] by (simp_all add: b_def)
  obtain ok b' where r: "inc_pos_act b = Ret (ok, b')" "b' = b\<lparr>bi_act := bi_act b'\<rparr>"
    "ok \<Longrightarrow> entry_rest b = bi_act b # entry_rest b'" "\<not> ok \<Longrightarrow> entry_rest b = [bi_act b]"
    "ok \<Longrightarrow> update_time_first b' = Ret (b'\<lparr>bi_utime_first := ptime (bi_store b) (bi_act b')\<rparr>)"
    "ok \<Longrightarrow> entry_ok (b'\<lparr>bi_utime_first := ptime (bi_store b) (bi_act b')\<rparr>)"
    using inc_pos_act_facts [OF eb] by blast
  have bf: "bi_store b' = bi_store b" "bi_next b' = bi_next b" "bi_utime_first b' = bi_utime_first b" "bi_last b' = bi_last b" by (subst r(2), simp)+
  have key: "(case hd (entry_pkts bk y) of (st, i) \<Rightarrow> ptime st i) = bi_utime_first (bk_blocks bk ! y)" if "y \<in> set us" for y
    using entry_rest_hd [OF bk_inv_facts(10) [OF inv that]] bk_inv_facts(10) [OF inv that] by (simp add: entry_pkts_def entry_ok_def)
  let ?p = "(bi_store b, bi_act b)"
  have le: "ptime (fst ?p) (snd ?p) \<le> (case hd (entry_pkts bk y) of (st, i) \<Rightarrow> ptime st i)" if "y \<in> set us" for y
    using key [OF that] x(3) [OF that] eb by (simp add: b_def entry_ok_def)
  have get: "bk_get bk (int x) = Ret b" using xl by (simp add: bk_get_def b_def)
  let ?bk1 = "bk\<lparr>bk_blocks := (bk_blocks bk)[x := b']\<rparr>"
  have put: "bk_put (int x) b' bk = Ret ?bk1" using xl by (simp add: bk_put_def)
  show thesis
  proof (cases ok)
    case True
    define c where "c = b'\<lparr>bi_utime_first := ptime (bi_store b) (bi_act b')\<rparr>"
    let ?bk2 = "bk\<lparr>bk_blocks := (bk_blocks bk)[x := c]\<rparr>"
    let ?bk' = "?bk2\<lparr>bk_heap := mh_doHeapify (bk_key ?bk2) (bk_heap ?bk2)\<rparr>"
    have "entry_ok c" "bi_next c = bi_next (bk_blocks bk ! x)" using r(6) [OF True] bf by (simp_all add: c_def b_def)
    note inv' = round_more [OF inv x(1,2) this]
    have "bk_put (int x) c ?bk1 = Ret ?bk2" using xl by (simp add: bk_put_def)
    then have step: "deq_step bk = Ret (Some ?p, ?bk')" using x(2) get r(1,5) True put by (simp add: deq_step_def c_def)
    have cx: "entry_pkts ?bk' x = map (Pair (bi_store b)) (entry_rest b')" using xl bf by (simp add: entry_pkts_def c_def entry_rest_def)
    have "entry_pkts bk x = ?p # map (Pair (bi_store b)) (entry_rest b')" using r(3) [OF True] by (simp add: entry_pkts_def b_def)
    moreover have "entry_rest b' \<noteq> []" using entry_rest_hd [OF \<open>entry_ok c\<close>] by (simp add: c_def entry_rest_def)
    moreover have "entry_pkts ?bk' y = entry_pkts bk y" if "y \<noteq> x" for y using that by (simp add: entry_pkts_def)
    moreover have "bi_store (bk_blocks ?bk' ! y) = bi_store (bk_blocks bk ! y)" for y using xl bf by (cases "y = x") (simp_all add: c_def b_def)
    ultimately show ?thesis using that [OF step inv'] cx le x(1) unfolding deq_move_def by blast
  next
    case False
    have "bi_next b' = bi_next (bk_blocks bk ! x)" "bi_utime_first b' = bi_utime_first (bk_blocks bk ! x)" using bf by (simp_all add: b_def)
    then obtain bk2 bk3 where fr: "free_block (int x) ?bk1 = Ret bk2"
      "update_times (bk2\<lparr>bk_heap := snd (mh_extractMin (bk_key bk2) (bk_heap bk2))\<rparr>) = Ret bk3" "bk_inv bk3 (remove1 x us) (x # fs)"
      "\<forall>y \<in> set us. y \<noteq> x \<longrightarrow> strip (bk_blocks bk3 ! y) = strip (bk_blocks bk ! y)" using round_last [OF inv x(1,2)] by blast
    have step: "deq_step bk = Ret (Some ?p, bk3)" using x(2) get r(1) False put fr(1,2) by (simp add: deq_step_def)
    have "entry_pkts bk x = [?p]" using r(4) [OF False] by (simp add: entry_pkts_def b_def)
    moreover have "bi_store (bk_blocks bk3 ! y) = bi_store (bk_blocks bk ! y)" if "y \<in> set (remove1 x us)" for y
    proof -
      have "y \<in> set us" "y \<noteq> x" using that bk_inv_facts(3) [OF inv] by (auto simp: set_remove1_eq)
      then show ?thesis using fr(4) strip_fields(2) by blast
    qed
    ultimately show ?thesis using that [OF step fr(3)] le fr(4) entry_pkts_strip x(1) unfolding deq_move_def by blast
  qed
qed

section \<open>Draining the table\<close>

fun deq_drain :: "nat \<Rightarrow> sBlocksInfo \<Rightarrow> ((pcap_block_store \<times> nat) list \<times> sBlocksInfo) outcome" where
  "deq_drain 0 bk = OutOfFuel"
| "deq_drain (Suc k) bk =
     (if bk_usedCount bk = 0 then Ret ([], bk)
      else obind (deq_step bk) (\<lambda>(p, bk). case p of None \<Rightarrow> Ret ([], bk) | Some p \<Rightarrow> omap (\<lambda>(ps, bk). (p # ps, bk)) (deq_drain k bk)))"

definition all_pkts :: "sBlocksInfo \<Rightarrow> nat list \<Rightarrow> (pcap_block_store \<times> nat) multiset" where
  "all_pkts bk us = mset (concat (map (entry_pkts bk) us))"

definition pkt_time :: "pcap_block_store \<times> nat \<Rightarrow> u64" where
  "pkt_time p = ptime (fst p) (snd p)"

lemma all_pkts_in: "p \<in># all_pkts bk us \<longleftrightarrow> (\<exists>y \<in> set us. p \<in> set (entry_pkts bk y))"
  by (auto simp: all_pkts_def)

lemma all_pkts_split: "x \<in> set us \<Longrightarrow> all_pkts bk us = mset (entry_pkts bk x) + all_pkts bk (remove1 x us)"
  by (induction us) (auto simp: all_pkts_def)

lemma all_pkts_cong: "(\<And>y. y \<in> set us \<Longrightarrow> entry_pkts bk' y = entry_pkts bk y) \<Longrightarrow> all_pkts bk' us = all_pkts bk us"
  by (simp add: all_pkts_def cong: map_cong)

lemma entry_pkts_hd: "bk_inv bk us fs \<Longrightarrow> y \<in> set us \<Longrightarrow> entry_pkts bk y \<noteq> []"
  using entry_rest_hd [OF bk_inv_facts(10)] by (simp add: entry_pkts_def)

lemma entry_pkts_fst: "p \<in> set (entry_pkts bk y) \<Longrightarrow> fst p = bi_store (bk_blocks bk ! y)"
  by (auto simp: entry_pkts_def)

text \<open>Per-block order: with different blocks in the entries, the packets of each block come in their order.\<close>

definition keeps_order :: "sBlocksInfo \<Rightarrow> nat list \<Rightarrow> (pcap_block_store \<times> nat) list \<Rightarrow> bool" where
  "keeps_order bk us out = (distinct (map (\<lambda>y. bi_store (bk_blocks bk ! y)) us) \<longrightarrow>
     (\<forall>y \<in> set us. filter (\<lambda>p. fst p = bi_store (bk_blocks bk ! y)) out = entry_pkts bk y))"

definition entries_sorted :: "sBlocksInfo \<Rightarrow> nat list \<Rightarrow> bool" where
  "entries_sorted bk us = (\<forall>y \<in> set us. sorted (map pkt_time (entry_pkts bk y)))"

lemma distinct_stores_eq: "distinct (map f us) \<Longrightarrow> x \<in> set us \<Longrightarrow> y \<in> set us \<Longrightarrow> f x = f y \<Longrightarrow> x = y"
  by (auto simp: distinct_map inj_on_def)

lemma deq_move_rest:
  assumes m: "deq_move bk us x p r bk' us'" and dist: "distinct us"
  shows "set us' \<subseteq> set us" "all_pkts bk' us' = mset r + all_pkts bk (remove1 x us)" "all_pkts bk us = add_mset p (all_pkts bk' us')"
    "y \<in> set us \<Longrightarrow> y \<noteq> x \<Longrightarrow> y \<in> set us'" "x \<in> set us' \<longleftrightarrow> r \<noteq> []"
proof -
  note s = m [unfolded deq_move_def]
  show sub: "set us' \<subseteq> set us" "y \<in> set us \<Longrightarrow> y \<noteq> x \<Longrightarrow> y \<in> set us'" "x \<in> set us' \<longleftrightarrow> r \<noteq> []"
    using s dist by (cases "r = []"; auto simp: set_remove1_eq)+
  have c: "all_pkts bk' (remove1 x us) = all_pkts bk (remove1 x us)"
    by (rule all_pkts_cong) (use s dist in \<open>auto simp: set_remove1_eq\<close>)
  show r: "all_pkts bk' us' = mset r + all_pkts bk (remove1 x us)" using c s all_pkts_split [of x us bk'] by (cases "r = []") auto
  show "all_pkts bk us = add_mset p (all_pkts bk' us')" using all_pkts_split [of x us bk] s r by simp
qed

lemma deq_move_sorted:
  assumes m: "deq_move bk us x p r bk' us'" and dist: "distinct us" and so: "entries_sorted bk us"
    and out: "mset out = all_pkts bk' us'" "entries_sorted bk' us' \<longrightarrow> sorted (map pkt_time out)"
  shows "sorted (map pkt_time (p # out))"
proof -
  note s = m [unfolded deq_move_def] and mr = deq_move_rest [OF m dist]
  have "sorted (map pkt_time (entry_pkts bk' y))" if y: "y \<in> set us'" for y
  proof (cases "y = x")
    case True
    then have "entry_pkts bk' y = r" using s mr(5) y by blast
    then show ?thesis using s so by (auto simp: entries_sorted_def)
  next
    case False
    then show ?thesis using s so mr(1) y by (auto simp: entries_sorted_def)
  qed
  then have "sorted (map pkt_time out)" using out(2) by (simp add: entries_sorted_def)
  moreover have "pkt_time p \<le> pkt_time q" if "q \<in> set out" for q
  proof -
    have "q \<in># all_pkts bk us" using that out(1) mr(3) by (metis insert_iff set_mset_add_mset_insert set_mset_mset)
    then obtain y where y: "y \<in> set us" "q \<in> set (entry_pkts bk y)" by (auto simp: all_pkts_in)
    obtain h t where ht: "entry_pkts bk y = h # t" using y(2) by (cases "entry_pkts bk y") auto
    have "ptime (fst p) (snd p) \<le> (case hd (entry_pkts bk y) of (st, i) \<Rightarrow> ptime st i)" using s y(1) by blast
    then have "pkt_time p \<le> pkt_time h" using ht by (simp add: pkt_time_def split: prod.splits)
    moreover have "pkt_time h \<le> pkt_time q" using so y ht by (auto simp: entries_sorted_def)
    ultimately show ?thesis by (rule order.trans)
  qed
  ultimately show ?thesis by simp
qed

lemma deq_move_order:
  assumes m: "deq_move bk us x p r bk' us'" and dist: "distinct us" "distinct us'"
    and out: "mset out = all_pkts bk' us'" "keeps_order bk' us' out"
  shows "keeps_order bk us (p # out)"
  unfolding keeps_order_def
proof (intro impI ballI)
  fix y assume d: "distinct (map (\<lambda>y. bi_store (bk_blocks bk ! y)) us)" and y: "y \<in> set us"
  note s = m [unfolded deq_move_def] and mr = deq_move_rest [OF m dist(1)]
  have xin: "x \<in> set us" using s by blast
  have fp: "fst p = bi_store (bk_blocks bk ! x)" using entry_pkts_fst [of p bk x] s by simp
  have same: "map (\<lambda>y. bi_store (bk_blocks bk' ! y)) us' = map (\<lambda>y. bi_store (bk_blocks bk ! y)) us'" using s by simp
  have "distinct (map (\<lambda>y. bi_store (bk_blocks bk ! y)) us')" using d mr(1) dist by (auto simp: distinct_map intro: inj_on_subset)
  then have o': "\<forall>z \<in> set us'. filter (\<lambda>p. fst p = bi_store (bk_blocks bk' ! z)) out = entry_pkts bk' z"
    using out(2) unfolding keeps_order_def same by blast
  have flt: "filter (\<lambda>p. fst p = bi_store (bk_blocks bk ! z)) out = entry_pkts bk' z" if "z \<in> set us'" for z
  proof -
    have "bi_store (bk_blocks bk' ! z) = bi_store (bk_blocks bk ! z)" using s that by blast
    then show ?thesis using bspec [OF o' that] by simp
  qed
  show "filter (\<lambda>p. fst p = bi_store (bk_blocks bk ! y)) (p # out) = entry_pkts bk y"
  proof (cases "y = x")
    case True
    show ?thesis
    proof (cases "r = []")
      case r: False
      then have "filter (\<lambda>p. fst p = bi_store (bk_blocks bk ! x)) out = r" using flt [of x] mr(5) s by auto
      then show ?thesis using True fp s by simp
    next
      case r: True
      have "fst q \<noteq> bi_store (bk_blocks bk ! x)" if "q \<in> set out" for q
      proof -
        have "q \<in># all_pkts bk (remove1 x us)" using that out(1) mr(2) r by (metis add_0 mset.simps(1) set_mset_mset)
        then obtain z where "z \<in> set us" "z \<noteq> x" "q \<in> set (entry_pkts bk z)" using dist by (auto simp: all_pkts_in set_remove1_eq)
        then show ?thesis using entry_pkts_fst [of q bk z] distinct_stores_eq [OF d _ xin] by auto
      qed
      then have "filter (\<lambda>p. fst p = bi_store (bk_blocks bk ! x)) out = []" by (simp add: filter_empty_conv)
      then show ?thesis using True r s fp by simp
    qed
  next
    case ne: False
    have "fst p \<noteq> bi_store (bk_blocks bk ! y)" using distinct_stores_eq [OF d xin y] fp ne by auto
    then show ?thesis using flt [OF mr(4) [OF y ne]] s y ne by simp
  qed
qed

lemma deq_drain_facts:
  assumes "bk_inv bk us fs" "size (all_pkts bk us) < k"
  shows "\<exists>out bk' fs'. deq_drain k bk = Ret (out, bk') \<and> bk_inv bk' [] fs' \<and> mset out = all_pkts bk us \<and>
    (entries_sorted bk us \<longrightarrow> sorted (map pkt_time out)) \<and> keeps_order bk us out"
  using assms
proof (induction k arbitrary: bk us fs)
  case (Suc k)
  show ?case
  proof (cases "us = []")
    case True
    then show ?thesis using Suc.prems(1) by (auto simp: bk_inv_def all_pkts_def keeps_order_def entries_sorted_def)
  next
    case False
    have uc: "bk_usedCount bk \<noteq> 0" using bk_inv_facts(6) [OF Suc.prems(1)] False by (cases us) auto
    obtain x p r bk' us' fs' where s: "deq_step bk = Ret (Some p, bk')" "bk_inv bk' us' fs'" "deq_move bk us x p r bk' us'"
      by (rule deq_step_facts [OF Suc.prems(1) False])
    have dist: "distinct us" "distinct us'" using bk_inv_facts(3) [OF Suc.prems(1)] bk_inv_facts(3) [OF s(2)] by simp_all
    note all = deq_move_rest(3) [OF s(3) dist(1)]
    obtain out bk2 fs2 where IH: "deq_drain k bk' = Ret (out, bk2)" "bk_inv bk2 [] fs2" "mset out = all_pkts bk' us'"
      "entries_sorted bk' us' \<longrightarrow> sorted (map pkt_time out)" "keeps_order bk' us' out"
      using Suc.IH [OF s(2)] Suc.prems(2) all by auto
    have "deq_drain (Suc k) bk = Ret (p # out, bk2)" using uc s(1) IH(1) by simp
    then show ?thesis using IH(2,3) all deq_move_sorted [OF s(3) dist(1) _ IH(3,4)] deq_move_order [OF s(3) dist IH(3,5)] by auto
  qed
qed simp


section \<open>Adding blocks\<close>

lemma blocks_info_new_inv: "0 < n \<Longrightarrow> bk_inv (blocks_info_new b n) [] [0..<n]"
proof -
  assume n: "0 < n"
  let ?bs = "map (\<lambda>i. b\<lparr>bi_next := (if i < n - 1 then int i + 1 else - 1)\<rparr>) [0..<n]"
  have "chain ?bs (if i < n then int i else - 1) [i..<n]" if "i \<le> n" for i
    using that
  proof (induction "n - i" arbitrary: i)
    case (Suc k)
    then have i: "i < n" by simp
    then have "[i..<n] = i # [Suc i..<n]" by (rule upt_conv_Cons)
    moreover have "bi_next (?bs ! i) = (if Suc i < n then int (Suc i) else - 1)" using i by auto
    ultimately show ?case using i Suc(1) [of "Suc i"] Suc(2) by simp
  qed simp
  from this [of 0] n have "chain ?bs 0 [0..<n]" by simp
  moreover have "mh_inv key (mh_new (- 1) n :: int cMinHeap)" for key :: "int \<Rightarrow> u64" by (rule mh_new_inv)
  ultimately show ?thesis using n by (simp add: bk_inv_def blocks_info_new_def clean_times_def mh_new_inv) (simp add: mh_new_def)
qed

lemma new_block_facts:
  assumes inv: "bk_inv bk us (f # fs)"
  shows "new_block bk = Ret (int f, bk\<lparr>bk_blocks := (bk_blocks bk)[f := (bk_blocks bk ! f)\<lparr>bi_next := bk_usedHead bk\<rparr>],
     bk_freeHead := bi_next (bk_blocks bk ! f), bk_usedHead := int f, bk_usedCount := bk_usedCount bk + 1\<rparr>)"
  using bk_inv_facts(2) [OF inv] by (simp add: new_block_def bk_get_def bk_put_def Let_def)

lemma deq_add_facts:
  assumes inv: "bk_inv bk us (f # fs)" and r: "readable st" and ne: "block_pkts st \<noteq> []"
  obtains bk' where "deq_add st at g bk = Ret (True, bk')" "bk_inv bk' (f # us) fs" "entry_pkts bk' f = map (Pair st) (block_pkts st)"
    "bi_store (bk_blocks bk' ! f) = st" "\<And>y. y \<in> set us \<Longrightarrow> bk_blocks bk' ! y = bk_blocks bk ! y"
proof -
  note i = bk_inv_facts [OF inv]
  obtain b' b'' where b: "set_first_last (g\<lparr>bi_store := st\<rparr>) = Ret (True, b')" "set_time_first_last b' = Ret b''"
    "bi_store b'' = st" "entry_ok b''" "entry_rest b'' = block_pkts st" using entry_new(2) [OF r ne, of g] by blast
  have fl: "f < length (bk_blocks bk)" using i(2) by simp
  define d where "d = b''\<lparr>bi_at := at, bi_next := bk_usedHead bk\<rparr>"
  define bk1 where "bk1 = bk\<lparr>bk_blocks := (bk_blocks bk)[f := d], bk_freeHead := bi_next (bk_blocks bk ! f), bk_usedHead := int f, bk_usedCount := bk_usedCount bk + 1\<rparr>"
  have fn: "f \<notin> set us" "f \<notin> set fs" "distinct (us @ fs)" using i(3) by auto
  obtain bk2 where bk2: "update_times1 (int f) bk1 = Ret bk2" "times_only bk1 bk2" using update_times1_ok [of f bk1] fl by (auto simp: bk1_def)
  have bl: "bk_blocks bk2 = (bk_blocks bk)[f := d]" using times_only_inv(2) [OF bk2(2)] by (simp add: bk1_def)
  have hp: "bk_heap bk2 = bk_heap bk" using bk2(2) by (auto simp: times_only_def bk1_def)
  have "bk_set (int f) (b''\<lparr>bi_at := at\<rparr>) (bk\<lparr>bk_blocks := (bk_blocks bk)[f := (bk_blocks bk ! f)\<lparr>bi_next := bk_usedHead bk\<rparr>],
     bk_freeHead := bi_next (bk_blocks bk ! f), bk_usedHead := int f, bk_usedCount := bk_usedCount bk + 1\<rparr>) = Ret bk1"
    using fl by (simp add: bk_set_def bk_get_def bk_put_def bk1_def d_def)
  then have add: "deq_add st at g bk = Ret (True, bk2\<lparr>bk_heap := snd (mh_insert (bk_key bk2) (int f) (bk_heap bk))\<rparr>)"
    using b(1,2) new_block_facts [OF inv] bk2(1) hp by (simp add: deq_add_def)
  have key: "bk_key bk2 y = bk_key bk y" if y: "y \<in># mh_elems (bk_heap bk)" for y
  proof -
    obtain x where "y = int x" "x \<noteq> f" using y i(8) fn(1) by auto
    then show ?thesis by (simp add: bk_key_def bl)
  qed
  have room: "mh_room (bk_heap bk)"
    using mh_elems_size [OF i(7)] i(4,8,9) by (simp add: mh_room_def)
  obtain h' where h': "mh_insert (bk_key bk2) (int f) (bk_heap bk) = (True, h')" "mh_inv (bk_key bk2) h'" "mh_elems h' = add_mset (int f) (mset (map int us))"
    using mh_insert_law [OF mh_inv_cong [OF i(7) key] room, of "int f"] i(8) by auto
  have cap: "mh_capacity h' = length (bk_blocks bk)" using mh_capacity_keep(3) [of "bk_key bk2" "int f" "bk_heap bk"] h'(1) i(9) by simp
  have eok: "entry_ok d" using b(4) by (simp add: d_def entry_ok_def)
  have k: "bk_key (bk2\<lparr>bk_heap := h'\<rparr>) = bk_key bk2" by (simp add: bk_key_def fun_eq_iff)
  have rest: "bk_usedHead bk2 = int f" "bk_freeHead bk2 = bi_next (bk_blocks bk ! f)" "bk_usedCount bk2 = bk_usedCount bk + 1" "bk_max bk2 = bk_max bk"
    using bk2(2) by (auto simp: times_only_def bk1_def)
  have "entry_ok ((bk_blocks bk)[f := d] ! y)" if "y \<in> set (f # us)" for y
    using that eok fl bk_inv_facts(10) [OF inv, of y] by (cases "y = f") auto
  then have "bk_inv (bk2\<lparr>bk_heap := h'\<rparr>) (f # us) fs"
    unfolding bk_inv_def k using h' cap rest i(1-6) fn fl by (simp add: bl d_def)
  moreover have "entry_pkts (bk2\<lparr>bk_heap := h'\<rparr>) f = map (Pair st) (block_pkts st)"
    using b(3,5) fl by (simp add: entry_pkts_def bl d_def entry_rest_def)
  moreover have "bk_blocks bk2 ! y = bk_blocks bk ! y" if "y \<in> set us" for y using that fn(1) by (metis bl nth_list_update_neq)
  ultimately show thesis using that [of "bk2\<lparr>bk_heap := h'\<rparr>"] add h'(1) b(3) fl by (simp add: bl d_def)
qed

text \<open>A further block when all entries are used: the index -1 of \<open>new_block\<close> is written to.\<close>

lemma deq_add_full:
  assumes "bk_inv bk us []" "readable st" "block_pkts st \<noteq> []"
  shows "deq_add st at g bk = OutOfBounds"
proof -
  obtain b' b'' where "set_first_last (g\<lparr>bi_store := st\<rparr>) = Ret (True, b')" "set_time_first_last b' = Ret b''" using entry_new(2) [OF assms(2,3), of g] by blast
  then show ?thesis using bk_inv_facts(2) [OF assms(1)] by (simp add: deq_add_def new_block_def bk_set_def bk_get_def)
qed

fun deq_adds :: "u64 \<Rightarrow> sBlockInfo \<Rightarrow> pcap_block_store list \<Rightarrow> sBlocksInfo \<Rightarrow> sBlocksInfo outcome" where
  "deq_adds at g [] bk = Ret bk"
| "deq_adds at g (st # sts) bk = obind (deq_add st at g bk) (\<lambda>(_, bk). deq_adds at g sts bk)"

lemma deq_adds_facts:
  assumes "\<forall>st \<in> set sts. readable st \<and> block_pkts st \<noteq> []" "bk_inv bk us fs" "length sts \<le> length fs"
  shows "\<exists>bk' us' fs'. deq_adds at g sts bk = Ret bk' \<and> bk_inv bk' (us' @ us) fs' \<and> map (\<lambda>y. bi_store (bk_blocks bk' ! y)) us' = rev sts \<and>
    (\<forall>y \<in> set us'. entry_pkts bk' y = map (Pair (bi_store (bk_blocks bk' ! y))) (block_pkts (bi_store (bk_blocks bk' ! y)))) \<and>
    (\<forall>y \<in> set us. bk_blocks bk' ! y = bk_blocks bk ! y)"
  using assms
proof (induction sts arbitrary: bk us fs)
  case Nil
  then show ?case by (intro exI [of _ bk] exI [of _ "[]"] exI [of _ fs]) simp
next
  case (Cons st sts)
  obtain f fs1 where fs: "fs = f # fs1" using Cons.prems(3) by (cases fs) auto
  obtain bk1 where bk1: "deq_add st at g bk = Ret (True, bk1)" "bk_inv bk1 (f # us) fs1" "entry_pkts bk1 f = map (Pair st) (block_pkts st)"
    "bi_store (bk_blocks bk1 ! f) = st" "\<And>y. y \<in> set us \<Longrightarrow> bk_blocks bk1 ! y = bk_blocks bk ! y"
    using deq_add_facts [OF Cons.prems(2) [unfolded fs], of st at g] Cons.prems(1) by (metis list.set_intros(1))
  obtain bk' us' fs' where IH: "deq_adds at g sts bk1 = Ret bk'" "bk_inv bk' (us' @ f # us) fs'" "map (\<lambda>y. bi_store (bk_blocks bk' ! y)) us' = rev sts"
    "\<forall>y \<in> set us'. entry_pkts bk' y = map (Pair (bi_store (bk_blocks bk' ! y))) (block_pkts (bi_store (bk_blocks bk' ! y)))"
    "\<forall>y \<in> set (f # us). bk_blocks bk' ! y = bk_blocks bk1 ! y"
    using Cons.IH [OF _ bk1(2)] Cons.prems(1,3) fs by auto
  have "entry_pkts bk' f = entry_pkts bk1 f" using IH(5) by (simp add: entry_pkts_def)
  then show ?case using IH bk1 by (intro exI [of _ bk'] exI [of _ "us' @ [f]"] exI [of _ fs']) auto
qed

text \<open>C9: blocks put into a table with room for them, each with at least one packet that is not ignored, are merged: the
  rounds of the loop hand over every such packet exactly once, the packets of each block in their order, and, when the packets of
  each block are ordered by time, all packets ordered by time; at the end the table is empty.\<close>

theorem dequeue_merges_by_time:
  assumes "\<forall>st \<in> set sts. (\<exists>items. bs_content st items) \<and> block_pkts st \<noteq> []" "length sts \<le> n" "0 < n" "distinct sts"
    and "sum_list (map (length \<circ> block_pkts) sts) < k"
  shows "\<exists>bk bk' out. deq_adds at g sts (blocks_info_new b n) = Ret bk \<and> deq_drain k bk = Ret (out, bk') \<and>
    ((\<forall>st \<in> set sts. sorted (map (ptime st) (block_pkts st))) \<longrightarrow> sorted (map pkt_time out)) \<and> mset out = mset (concat (map (\<lambda>st. map (Pair st) (block_pkts st)) sts)) \<and>
    (\<forall>st \<in> set sts. map snd (filter (\<lambda>p. fst p = st) out) = block_pkts st) \<and> bk_usedCount bk' = 0"
proof -
  have "\<forall>st \<in> set sts. readable st \<and> block_pkts st \<noteq> []" using assms(1) content_readable by blast
  from deq_adds_facts [OF this blocks_info_new_inv [OF assms(3), of b], of at g] assms(2)
  obtain bk us fs where bk: "deq_adds at g sts (blocks_info_new b n) = Ret bk" "bk_inv bk us fs" "map (\<lambda>y. bi_store (bk_blocks bk ! y)) us = rev sts"
    "\<forall>y \<in> set us. entry_pkts bk y = map (Pair (bi_store (bk_blocks bk ! y))) (block_pkts (bi_store (bk_blocks bk ! y)))" by auto
  have "map (entry_pkts bk) us = map (\<lambda>st. map (Pair st) (block_pkts st)) (map (\<lambda>y. bi_store (bk_blocks bk ! y)) us)" using bk(4) by simp
  then have m: "all_pkts bk us = mset (concat (map (\<lambda>st. map (Pair st) (block_pkts st)) sts))"
    unfolding all_pkts_def bk(3) by (simp add: mset_concat rev_map [symmetric] sum_list_rev)
  have sz: "size (all_pkts bk us) < k" using assms(5) unfolding m by (simp add: length_concat comp_def)
  obtain out bk' fs' where out: "deq_drain k bk = Ret (out, bk')" "bk_inv bk' [] fs'" "mset out = all_pkts bk us"
    "entries_sorted bk us \<longrightarrow> sorted (map pkt_time out)" "keeps_order bk us out" using deq_drain_facts [OF bk(2) sz] by blast
  have "set (map (\<lambda>y. bi_store (bk_blocks bk ! y)) us) = set (rev sts)" by (simp only: bk(3))
  then have ss: "(\<lambda>y. bi_store (bk_blocks bk ! y)) ` set us = set sts" by simp
  then have st: "y \<in> set us \<Longrightarrow> bi_store (bk_blocks bk ! y) \<in> set sts" for y by blast
  have "entries_sorted bk us" if srt: "\<forall>st \<in> set sts. sorted (map (ptime st) (block_pkts st))" unfolding entries_sorted_def
  proof
    fix y assume y: "y \<in> set us"
    have "map pkt_time (entry_pkts bk y) = map (ptime (bi_store (bk_blocks bk ! y))) (block_pkts (bi_store (bk_blocks bk ! y)))"
      by (subst bspec [OF bk(4) y]) (simp add: pkt_time_def)
    then show "sorted (map pkt_time (entry_pkts bk y))" using bspec [OF srt st [OF y]] by (simp only:)
  qed
  moreover have "map snd (filter (\<lambda>p. fst p = st) out) = block_pkts st" if sin: "st \<in> set sts" for st
  proof -
    obtain y where y: "y \<in> set us" "bi_store (bk_blocks bk ! y) = st" using sin unfolding ss [symmetric] by (elim imageE) simp
    have "distinct (map (\<lambda>y. bi_store (bk_blocks bk ! y)) us)" using bk(3) assms(4) by simp
    then have "\<forall>y \<in> set us. filter (\<lambda>p. fst p = bi_store (bk_blocks bk ! y)) out = entry_pkts bk y" by (rule mp [OF out(5) [unfolded keeps_order_def]])
    from bspec [OF this y(1)] bspec [OF bk(4) y(1)] have "filter (\<lambda>p. fst p = st) out = map (Pair st) (block_pkts st)" by (simp only: y(2))
    then show ?thesis by (simp add: comp_def)
  qed
  ultimately show ?thesis using bk(1) out m bk_inv_facts(6) [OF out(2)] by (intro exI [of _ bk] exI [of _ bk'] exI [of _ out]) simp
qed

theorem dequeue_merges_by_time_witness:
  "\<exists>g b st1 st2 bk bk' out. st1 \<noteq> st2 \<and> deq_adds 0 g [st1, st2] (blocks_info_new b 4) = Ret bk \<and> deq_drain 3 bk = Ret (out, bk') \<and>
    mset out = mset [(st1, 0), (st2, 0)] \<and> sorted (map pkt_time out) \<and> bk_usedCount bk' = 0"
proof -
  obtain st1 where s1: "bs_content st1 [(demo_header hm_plus 3, [1, 2, 3])]" "bs_ifname st1 = replicate 10 0" "bs_size st1 = 39" "bs_count st1 = 1"
    by (rule demo_block)
  define st2 where "st2 = st1\<lparr>bs_ifname := replicate 10 1\<rparr>"
  have s2: "bs_content st2 [(demo_header hm_plus 3, [1, 2, 3])]" "bs_count st2 = 1"
    using s1 by (auto simp: st2_def bs_content_def bs_mem_def bs_ol_def)
  have "bs_ifname st1 \<noteq> bs_ifname st2" using s1(2) by (simp add: st2_def)
  then have ne: "st1 \<noteq> st2" by metis
  have hm: "bs_hm st1 \<noteq> hm_plus2" "bs_hm st2 \<noteq> hm_plus2" using s1(1)
    by (auto simp: st2_def bs_content_def item_ok_def demo_header_def header_size_def plus_size_def plus2_size_def)
  have bp: "block_pkts st1 = [0]" "block_pkts st2 = [0]" using hm s1(4) s2(2) by (simp_all add: block_pkts_def ign_def is_ignore_def)
  show ?thesis using dequeue_merges_by_time [of "[st1, st2]" 4 3 0 undefined undefined] s1(1) s2(1) ne bp by fastforce
qed

end
