(* ===== verification/VM_ParsePacket.thy ===== *)
theory VM_ParsePacket
  imports VM_CString
begin

text \<open>
  The header parser of SIP messages (\<open>ParsePacket\<close> of \<open>tools.h\<close> and \<open>tools.cpp\<close>): the names of the headers and of the lines of
  the session description are kept in a tree with one branch for each character; one pass over a message finds the value of
  every known name, the end of the header and the content length. Messages are text with checked access; packet lengths are
  below \<open>2 ^ 32\<close>, so the 32-bit offsets and lengths are natural numbers.
\<close>

section \<open>Data\<close>

datatype eTypeNode = typeNode_std | typeNode_checkSip | typeNode_custom

datatype ppNode = ppNode (pn_nodes: "char \<Rightarrow> ppNode option") (pn_leaf: bool) (pn_type: eTypeNode) (pn_index: nat) (pn_isContentLength: bool)

record ppContentItemX =
  ci_offset :: nat
  ci_length :: nat

text \<open>\<open>doubleEndLine\<close> is a position in the message; \<open>parseDataPtr\<close> is the message.\<close>

record ppContentsX =
  pc_std :: "ppContentItemX list"
  pc_custom :: "ppContentItemX list"
  pc_doubleEndLine :: "nat option"
  pc_doubleEndLineSize :: nat
  pc_contentLength :: int
  pc_parseDataPtr :: "string option"
  pc_sip :: bool

record ParsePacket =
  pp_nodesStd :: "string list"
  pp_nodesCheckSip :: "string list"
  pp_nodesCustom :: "string list"
  pp_nodesCustom_prepare :: "string list"
  pp_root :: "ppNode option"
  pp_rootCheckSip :: "ppNode option"
  pp_time_filter :: nat
  pp_time_cdr :: nat
  pp_time_message :: nat
  pp_time_sip_msg :: nat

definition std_max :: nat where "std_max = 100"
definition custom_max :: nat where "custom_max = 100"

definition ldc :: "string \<Rightarrow> nat \<Rightarrow> char outcome" where
  "ldc m p = (if p < length m then Ret (m ! p) else OutOfBounds)"

section \<open>The tree\<close>

definition init_node :: ppNode where
  "init_node = ppNode (\<lambda>_. None) False typeNode_std 0 False"

text \<open>Newlines at the begin of what is left of the name are skipped at every level.\<close>

fun node_addNode :: "string \<Rightarrow> eTypeNode \<Rightarrow> nat \<Rightarrow> bool \<Rightarrow> ppNode \<Rightarrow> ppNode" where
  "node_addNode [] t i cl node = ppNode (pn_nodes node) True t i cl"
| "node_addNode (c # cs) t i cl node =
     (if c = CHR 0x0A then node_addNode cs t i cl node
      else
        (let k = c_tolower c; sub = (case pn_nodes node k of None \<Rightarrow> init_node | Some s \<Rightarrow> s) in
         ppNode ((pn_nodes node)(k := Some (node_addNode cs t i cl sub))) (pn_leaf node) (pn_type node) (pn_index node) (pn_isContentLength node)))"

fun node_removeNode :: "string \<Rightarrow> ppNode \<Rightarrow> ppNode" where
  "node_removeNode [] node = init_node"
| "node_removeNode (c # cs) node =
     (if c = CHR 0x0A then node_removeNode cs node
      else
        (let k = c_tolower c in
         case pn_nodes node k of None \<Rightarrow> node
         | Some s \<Rightarrow> ppNode ((pn_nodes node)(k := Some (node_removeNode cs s))) (pn_leaf node) (pn_type node) (pn_index node) (pn_isContentLength node)))"

text \<open>The node found for the text at position \<open>p\<close> and the length of its name; \<open>n\<close> characters have been matched already.\<close>

function getContent :: "ppNode \<Rightarrow> string \<Rightarrow> nat \<Rightarrow> nat \<Rightarrow> nat \<Rightarrow> (ppNode \<times> nat) option outcome" where
  "getContent node m p n limit =
     (if pn_leaf node then Ret (Some (node, n))
      else
        obind (ldc m (p + n)) (\<lambda>c.
          if c = nul then Ret None
          else case pn_nodes node (c_tolower c) of None \<Rightarrow> Ret None
            | Some sub \<Rightarrow> if n + 1 > limit then Ret None else getContent sub m p (n + 1) limit))"
  by pat_completeness auto
termination by (relation "measure (\<lambda>(node, m, p, n, limit). limit - n)") auto

declare getContent.simps [simp del]

text \<open>The root of the header tree exists once \<open>setStdParse\<close> has been called; without it the pointer is followed all the same.\<close>

definition getNode :: "ParsePacket \<Rightarrow> string \<Rightarrow> nat \<Rightarrow> nat \<Rightarrow> (ppNode \<times> nat) option outcome" where
  "getNode pp m p datalength = (case pp_root pp of None \<Rightarrow> OutOfBounds | Some root \<Rightarrow> getContent root m p 0 datalength)"

definition isSipContent :: "ParsePacket \<Rightarrow> string \<Rightarrow> nat \<Rightarrow> bool outcome" where
  "isSipContent pp m datalength =
     (case pp_rootCheckSip pp of None \<Rightarrow> Ret False | Some root \<Rightarrow> omap (\<lambda>r. r \<noteq> None) (getContent root m 0 0 datalength))"

section \<open>The contents\<close>

definition item0 :: ppContentItemX where
  "item0 = \<lparr>ci_offset = 0, ci_length = 0\<rparr>"

definition contents_clean :: ppContentsX where
  "contents_clean = \<lparr>pc_std = replicate std_max item0, pc_custom = replicate custom_max item0, pc_doubleEndLine = None,
     pc_doubleEndLineSize = 0, pc_contentLength = - 1, pc_parseDataPtr = None, pc_sip = False\<rparr>"

definition item_at :: "ppContentItemX list \<Rightarrow> nat \<Rightarrow> ppContentItemX outcome" where
  "item_at its i = (if i < length its then Ret (its ! i) else OutOfBounds)"

text \<open>A node of the tree that recognises SIP has no item.\<close>

definition getPointerToItem :: "ppNode \<Rightarrow> ppContentsX \<Rightarrow> ppContentItemX outcome" where
  "getPointerToItem node c = (case pn_type node of
       typeNode_std \<Rightarrow> item_at (pc_std c) (pn_index node)
     | typeNode_custom \<Rightarrow> item_at (pc_custom c) (pn_index node)
     | typeNode_checkSip \<Rightarrow> OutOfBounds)"

definition setItem :: "ppNode \<Rightarrow> ppContentItemX \<Rightarrow> ppContentsX \<Rightarrow> ppContentsX outcome" where
  "setItem node it c = (case pn_type node of
       typeNode_std \<Rightarrow> if pn_index node < length (pc_std c) then Ret (c\<lparr>pc_std := (pc_std c)[pn_index node := it]\<rparr>) else OutOfBounds
     | typeNode_custom \<Rightarrow> if pn_index node < length (pc_custom c) then Ret (c\<lparr>pc_custom := (pc_custom c)[pn_index node := it]\<rparr>) else OutOfBounds
     | typeNode_checkSip \<Rightarrow> OutOfBounds)"

definition isSetNode :: "ppNode \<Rightarrow> ppContentsX \<Rightarrow> bool outcome" where
  "isSetNode node c = (case pn_type node of
       typeNode_std \<Rightarrow> omap (\<lambda>it. ci_length it \<noteq> 0) (item_at (pc_std c) (pn_index node))
     | typeNode_custom \<Rightarrow> omap (\<lambda>it. ci_length it \<noteq> 0) (item_at (pc_custom c) (pn_index node))
     | typeNode_checkSip \<Rightarrow> Ret False)"

fun trim_end :: "string \<Rightarrow> nat \<Rightarrow> nat \<Rightarrow> nat outcome" where
  "trim_end m off 0 = Ret 0"
| "trim_end m off (Suc n) = obind (ldc m (off + n)) (\<lambda>c. if c = CHR '' '' then trim_end m off n else Ret (Suc n))"

fun trim_start :: "string \<Rightarrow> nat \<Rightarrow> nat \<Rightarrow> (nat \<times> nat) outcome" where
  "trim_start m off 0 = Ret (off, 0)"
| "trim_start m off (Suc n) = obind (ldc m off) (\<lambda>c. if c = CHR '' '' then trim_start m (off + 1) n else Ret (off, Suc n))"

definition item_trim :: "string \<Rightarrow> ppContentItemX \<Rightarrow> ppContentItemX outcome" where
  "item_trim m it = obind (trim_end m (ci_offset it) (ci_length it)) (\<lambda>n.
     omap (\<lambda>(off, n). \<lparr>ci_offset = off, ci_length = n\<rparr>) (trim_start m (ci_offset it) n))"

section \<open>The pass over a message\<close>

text \<open>\<open>atoi\<close> reads up to the first character behind blanks, sign and digits.\<close>

definition atoi_span :: "string \<Rightarrow> nat" where
  "atoi_span s =
     (let a = length (takeWhile c_isspace s); s1 = drop a s;
          b = (if s1 \<noteq> [] \<and> (hd s1 = CHR ''-'' \<or> hd s1 = CHR ''+'') then 1 else 0) in
      a + b + length (takeWhile c_isdigit (drop b s1)))"

definition atoi_at :: "string \<Rightarrow> nat \<Rightarrow> int outcome" where
  "atoi_at m p = (if p + atoi_span (drop p m) < length m then Ret (c_atoi (drop p m)) else OutOfBounds)"

definition is_double_end :: "string \<Rightarrow> nat \<Rightarrow> nat \<Rightarrow> bool outcome" where
  "is_double_end m datalen i =
     (if datalen > 3 then
        obind (ldc m i) (\<lambda>c.
          if c = CHR 0x0D then
            (if i + 3 < datalen then omap (\<lambda>cs. cs = [CHR 0x0A, CHR 0x0D, CHR 0x0A])
                                       (obind (ldc m (i + 1)) (\<lambda>a. obind (ldc m (i + 2)) (\<lambda>b. omap (\<lambda>d. [a, b, d]) (ldc m (i + 3)))))
             else Ret False)
          else if c = CHR 0x0A then
            (if i + 1 < datalen then omap (\<lambda>a. a = CHR 0x0A) (ldc m (i + 1)) else Ret False)
          else Ret False)
      else Ret False)"

definition is_line_start :: "string \<Rightarrow> nat \<Rightarrow> bool outcome" where
  "is_line_start m i =
     (if i = 0 then Ret True
      else obind (ldc m (i - 1)) (\<lambda>p.
        if p = CHR 0x0A then Ret True
        else if p = CHR 0x0D then omap (\<lambda>c. c \<noteq> CHR 0x0A) (ldc m i) else Ret False))"

text \<open>The end of the line: whether there is one before \<open>datalen\<close> and where.\<close>

function scan_eol :: "string \<Rightarrow> nat \<Rightarrow> nat \<Rightarrow> (bool \<times> nat) outcome" where
  "scan_eol m datalen i =
     (if i < datalen then obind (ldc m i) (\<lambda>c. if c = CHR 0x0D \<or> c = CHR 0x0A then Ret (True, i) else scan_eol m datalen (i + 1))
      else Ret (False, i))"
  by pat_completeness auto
termination by (relation "measure (\<lambda>(m, datalen, i). datalen - i)") auto

declare scan_eol.simps [simp del]

definition read_contentLength :: "string \<Rightarrow> nat \<Rightarrow> ppContentItemX \<Rightarrow> int outcome" where
  "read_contentLength m datalen it =
     (if ci_offset it + ci_length it = datalen then
        (let n = min 9 (ci_length it) in
         if ci_offset it + n \<le> length m then Ret (c_atoi (takeWhile (\<lambda>c. c \<noteq> nul) (take n (drop (ci_offset it) m)))) else OutOfBounds)
      else atoi_at m (ci_offset it))"

text \<open>The value of a name that ends at \<open>off\<close>: the contents and the position the loop goes on with.\<close>

definition parse_value :: "string \<Rightarrow> nat \<Rightarrow> ppNode \<Rightarrow> nat \<Rightarrow> ppContentsX \<Rightarrow> (nat \<times> ppContentsX) outcome" where
  "parse_value m datalen node off c =
     obind (getPointerToItem node c) (\<lambda>it0.
     obind (scan_eol m datalen off) (\<lambda>(endLine, j).
       if endLine \<or> j = datalen then
         obind (item_trim m \<lparr>ci_offset = off, ci_length = j - off\<rparr>) (\<lambda>it.
         obind (setItem node it c) (\<lambda>c.
         omap (\<lambda>c. (if endLine then j else j + 1, c))
           (if pn_isContentLength node \<and> ci_length it \<noteq> 0
            then omap (\<lambda>n. c\<lparr>pc_contentLength := n\<rparr>) (read_contentLength m datalen it) else Ret c)))
       else omap (\<lambda>c. (j + 1, c)) (setItem node (it0\<lparr>ci_offset := off\<rparr>) c)))"

fun parse_loop :: "nat \<Rightarrow> ParsePacket \<Rightarrow> string \<Rightarrow> nat \<Rightarrow> nat \<Rightarrow> nat \<Rightarrow> ppContentsX \<Rightarrow> (nat \<times> ppContentsX) outcome" where
  "parse_loop 0 pp m datalen rslt i c = OutOfFuel"
| "parse_loop (Suc k) pp m datalen rslt i c =
     (if i < datalen then
        obind (if pc_doubleEndLine c = None then is_double_end m datalen i else Ret False) (\<lambda>dbl.
          if dbl then
            obind (ldc m i) (\<lambda>ch.
              (let sz = (if ch = CHR 0x0D then 4 else 2);
                   c = c\<lparr>pc_doubleEndLine := Some i, pc_doubleEndLineSize := sz\<rparr> in
               if pc_contentLength c > - 1 then
                 (let md = i + sz + nat (pc_contentLength c) in
                  if md < datalen then parse_loop k pp m md md (i + 3) c else parse_loop k pp m datalen rslt (i + 3) c)
               else Ret (i + sz, c)))
          else
            obind (is_line_start m i) (\<lambda>start.
              if start then
                obind (getNode pp m i (datalen - i - 1)) (\<lambda>r. case r of
                    None \<Rightarrow> parse_loop k pp m datalen rslt (i + 1) c
                  | Some (node, n) \<Rightarrow>
                      obind (isSetNode node c) (\<lambda>s.
                        if s then parse_loop k pp m datalen rslt (i + 1) c
                        else obind (parse_value m datalen node (i + n) c) (\<lambda>(i, c). parse_loop k pp m datalen rslt i c)))
              else parse_loop k pp m datalen rslt (i + 1) c))
      else Ret (rslt, c))"

definition parseData :: "nat \<Rightarrow> ParsePacket \<Rightarrow> string \<Rightarrow> nat \<Rightarrow> ppContentsX \<Rightarrow> (nat \<times> ppContentsX) outcome" where
  "parseData k pp m datalen c =
     obind (if datalen \<noteq> 0 then isSipContent pp m (datalen - 1) else Ret False) (\<lambda>s.
       omap (\<lambda>(n, c). (n, c\<lparr>pc_parseDataPtr := Some m\<rparr>)) (parse_loop k pp m datalen datalen 0 (c\<lparr>pc_sip := s\<rparr>)))"

text \<open>\<open>ppContentsX::parse\<close>, with the fuel that is enough for every tree without an empty name.\<close>

definition contents_parse :: "ParsePacket \<Rightarrow> string \<Rightarrow> nat \<Rightarrow> bool \<Rightarrow> ppContentsX \<Rightarrow> (nat \<times> ppContentsX) outcome" where
  "contents_parse pp m datalen clean c = parseData (Suc datalen) pp m datalen (if clean then contents_clean else c)"

text \<open>The value of a name, a null pointer (\<open>None\<close>) when it has none.\<close>

definition getContentData :: "ParsePacket \<Rightarrow> string \<Rightarrow> ppContentsX \<Rightarrow> string option outcome" where
  "getContentData pp nodeName c =
     (let name = dropWhile (\<lambda>ch. ch = CHR 0x0A) nodeName in
      obind (getNode pp (name @ [nul]) 0 (length name)) (\<lambda>r. case r of None \<Rightarrow> Ret None
        | Some (node, n) \<Rightarrow>
            obind (getPointerToItem node c) (\<lambda>it.
              if ci_length it \<noteq> 0 then
                (case pc_parseDataPtr c of None \<Rightarrow> OutOfBounds
                 | Some m \<Rightarrow> if ci_offset it + ci_length it \<le> length m then Ret (Some (take (ci_length it) (drop (ci_offset it) m))) else OutOfBounds)
              else Ret None)))"

definition getContentString :: "ParsePacket \<Rightarrow> string \<Rightarrow> ppContentsX \<Rightarrow> string outcome" where
  "getContentString pp nodeName c = omap (\<lambda>r. case r of None \<Rightarrow> [] | Some s \<Rightarrow> s) (getContentData pp nodeName c)"


section \<open>Building the trees\<close>

definition c_toupper :: "char \<Rightarrow> char" where
  "c_toupper c = (if 97 \<le> (of_char c :: nat) \<and> (of_char c :: nat) \<le> 122 then char_of ((of_char c :: nat) - 32) else c)"

definition nodeNameUpper :: "string \<Rightarrow> string" where
  "nodeNameUpper s = map c_toupper (if s \<noteq> [] \<and> hd s = CHR 0x0A then tl s else s)"

definition root_or_new :: "ppNode option \<Rightarrow> ppNode" where
  "root_or_new r = (case r of None \<Rightarrow> init_node | Some n \<Rightarrow> n)"

definition pp_new :: ParsePacket where
  "pp_new = \<lparr>pp_nodesStd = [], pp_nodesCheckSip = [], pp_nodesCustom = [], pp_nodesCustom_prepare = [], pp_root = None, pp_rootCheckSip = None,
     pp_time_filter = 0, pp_time_cdr = 0, pp_time_message = 0, pp_time_sip_msg = 0\<rparr>"

definition pp_addNode :: "bool \<Rightarrow> string \<Rightarrow> ParsePacket \<Rightarrow> ParsePacket" where
  "pp_addNode isContentLength nodeName pp =
     (let u = nodeNameUpper nodeName in
      if u \<notin> set (pp_nodesStd pp) \<and> u \<notin> set (pp_nodesCustom pp) \<and> length (pp_nodesStd pp) < std_max
      then pp\<lparr>pp_nodesStd := pp_nodesStd pp @ [u],
              pp_root := Some (node_addNode nodeName typeNode_std (length (pp_nodesStd pp)) isContentLength (root_or_new (pp_root pp)))\<rparr>
      else pp)"

definition first_free :: "string list \<Rightarrow> nat option" where
  "first_free ns = (case filter (\<lambda>i. ns ! i = []) [0..<length ns] of [] \<Rightarrow> None | i # _ \<Rightarrow> Some i)"

definition addCustomNode :: "string \<Rightarrow> ParsePacket \<Rightarrow> ParsePacket" where
  "addCustomNode nodeName pp =
     (let u = nodeNameUpper nodeName in
      if u \<notin> set (pp_nodesStd pp) \<and> u \<notin> set (pp_nodesCustom pp) \<and> length (filter (\<lambda>s. s \<noteq> []) (pp_nodesCustom pp)) < custom_max
      then
        (let (i, ns) = (case first_free (pp_nodesCustom pp) of Some i \<Rightarrow> (i, (pp_nodesCustom pp)[i := u])
                        | None \<Rightarrow> (length (pp_nodesCustom pp), pp_nodesCustom pp @ [u])) in
         pp\<lparr>pp_nodesCustom := ns, pp_root := Some (node_addNode nodeName typeNode_custom i False (root_or_new (pp_root pp)))\<rparr>)
      else pp)"

definition prepareCustomNode :: "string \<Rightarrow> ParsePacket \<Rightarrow> ParsePacket" where
  "prepareCustomNode nodeName pp =
     (let u = nodeNameUpper nodeName in
      if u \<in> set (pp_nodesCustom_prepare pp) then pp else pp\<lparr>pp_nodesCustom_prepare := pp_nodesCustom_prepare pp @ [u]\<rparr>)"

definition removeCustomNode :: "string \<Rightarrow> ParsePacket \<Rightarrow> ParsePacket" where
  "removeCustomNode nodeName pp =
     (case pp_root pp of None \<Rightarrow> pp
      | Some root \<Rightarrow>
          (let u = nodeNameUpper nodeName in
           case filter (\<lambda>i. pp_nodesCustom pp ! i = u) [0..<length (pp_nodesCustom pp)] of
             [] \<Rightarrow> pp
           | i # _ \<Rightarrow> pp\<lparr>pp_root := Some (node_removeNode u root), pp_nodesCustom := (pp_nodesCustom pp)[i := []]\<rparr>))"

definition applyCustomNodes :: "ParsePacket \<Rightarrow> ParsePacket" where
  "applyCustomNodes pp =
     (let gone = filter (\<lambda>n. n \<notin> set (pp_nodesCustom_prepare pp)) (pp_nodesCustom pp);
          pp = fold removeCustomNode gone pp;
          pp = fold (\<lambda>n pp. if n \<notin> set (pp_nodesCustom pp) then addCustomNode n pp else pp) (pp_nodesCustom_prepare pp) pp in
      pp\<lparr>pp_nodesCustom_prepare := []\<rparr>)"

definition addNodeCheckSip :: "string \<Rightarrow> ParsePacket \<Rightarrow> ParsePacket" where
  "addNodeCheckSip nodeName pp =
     (if nodeName \<notin> set (pp_nodesCheckSip pp)
      then pp\<lparr>pp_nodesCheckSip := pp_nodesCheckSip pp @ [nodeName],
              pp_rootCheckSip := Some (node_addNode nodeName typeNode_checkSip (length (pp_nodesCheckSip pp)) False (root_or_new (pp_rootCheckSip pp)))\<rparr>
      else pp)"

definition clearNodes :: "ParsePacket \<Rightarrow> ParsePacket" where
  "clearNodes pp = pp\<lparr>pp_nodesStd := [], pp_nodesCheckSip := [], pp_nodesCustom := [], pp_root := None, pp_rootCheckSip := None\<rparr>"

definition pp_free :: "ParsePacket \<Rightarrow> ParsePacket" where
  "pp_free pp = pp\<lparr>pp_root := None, pp_rootCheckSip := None\<rparr>"

text \<open>The names the custom headers and the header filters ask for, and the times they were loaded. A \<open>CustomHeaders\<close> object may not exist.\<close>

record pp_env =
  opt_passertedidentity :: bool
  opt_ppreferredidentity :: bool
  cdr_reason :: bool
  opt_call_id_alternative :: "string list"
  opt_headers :: "string list"
  opt_kamailio :: bool
  opt_ribbonsbc :: bool
  opt_conference_processing :: bool
  custom_cdr :: "(string list \<times> nat) option"
  custom_message :: "(string list \<times> nat) option"
  custom_sip_msg :: "(string list \<times> nat) option"
  header_filter :: "string list \<times> nat"

definition prepareCustomNodes :: "string list \<Rightarrow> ParsePacket \<Rightarrow> ParsePacket" where
  "prepareCustomNodes names pp = fold (\<lambda>n pp. if n \<noteq> [] then prepareCustomNode n pp else pp) names pp"

definition with_colon :: "string \<Rightarrow> string" where
  "with_colon s = (if last s \<noteq> CHR '':'' then s @ '':'' else s)"

definition std_names1 :: "string list" where
  "std_names1 = [''INVITE '', ''MESSAGE '', ''call-id:'', ''i:'', ''from:'', ''f:'', ''to:'', ''t:'', ''contact:'', ''m:'', ''remote-party-id:'']"

definition std_names2 :: "string list" where
  "std_names2 = [''geoposition:'', ''user-agent:'', ''authorization:'', ''proxy-authorization:'', ''expires:'', ''x-voipmonitor-norecord:'',
     ''signal:'', ''signal='', ''x-voipmonitor-custom1:'', ''content-type:'', ''c:'', ''cseq:'', ''supported:'', ''proxy-authenticate:'', ''via:'', ''v:'']"

definition std_names3 :: "string list" where
  "std_names3 = [''m=audio '', ''a=rtpmap:'', ''o='', ''c=IN IP4 '', ''expires='', ''username='' @ [CHR 0x22], ''realm='' @ [CHR 0x22],
     ''CallID:'', ''LocalAddr:'', ''RemoteAddr:'', ''QualityEst:'', ''PacketLoss:'']"

definition check_sip_names :: "string list" where
  "check_sip_names = [''SIP/2.0'', ''INVITE'', ''ACK'', ''BYE'', ''CANCEL'', ''OPTIONS'', ''REGISTER'', ''PRACK'', ''SUBSCRIBE'', ''NOTIFY'', ''PUBLISH'',
     ''INFO'', ''REFER'', ''MESSAGE'', ''UPDATE'']"

text \<open>\<open>opt_headers\<close> are the options \<open>fbasename_header\<close>, \<open>match_header\<close>, \<open>callidmerge_header\<close>, \<open>energylevelheader\<close> and \<open>silenceheader\<close>, empty when
  not set.\<close>

definition prepare_opt :: "(string list \<times> nat) option \<Rightarrow> ParsePacket \<Rightarrow> ParsePacket" where
  "prepare_opt h pp = (case h of None \<Rightarrow> pp | Some (names, _) \<Rightarrow> prepareCustomNodes names pp)"

definition time_or :: "(string list \<times> nat) option \<Rightarrow> nat \<Rightarrow> nat" where
  "time_or h t = (case h of None \<Rightarrow> t | Some (_, t') \<Rightarrow> t')"

definition setStdParse :: "pp_env \<Rightarrow> ParsePacket \<Rightarrow> ParsePacket" where
  "setStdParse e pp =
     (let pp = pp\<lparr>pp_root := Some (root_or_new (pp_root pp)), pp_rootCheckSip := Some (root_or_new (pp_rootCheckSip pp))\<rparr>;
          pp = fold (pp_addNode True) [''content-length:'', ''l:''] pp;
          names = std_names1 @ (if opt_passertedidentity e then [''P-Asserted-Identity:''] else []) @
                  (if opt_ppreferredidentity e then [''P-Preferred-Identity:''] else []) @ std_names2 @
                  (if cdr_reason e then [''reason:''] else []) @ std_names3 @ opt_call_id_alternative e @
                  map with_colon (filter (\<lambda>h. h \<noteq> []) (opt_headers e));
          pp = fold (pp_addNode False) names pp;
          pp = (prepare_opt (custom_cdr e) pp)\<lparr>pp_time_cdr := time_or (custom_cdr e) (pp_time_cdr pp)\<rparr>;
          pp = (prepare_opt (custom_message e) pp)\<lparr>pp_time_message := time_or (custom_message e) (pp_time_message pp)\<rparr>;
          pp = (prepare_opt (custom_sip_msg e) pp)\<lparr>pp_time_sip_msg := time_or (custom_sip_msg e) (pp_time_sip_msg pp)\<rparr>;
          pp = fold (pp_addNode False) ((if opt_kamailio e then [''X-Siptrace-Fromip:'', ''X-Siptrace-Toip:'', ''X-Siptrace-Time:''] else []) @
                  (if opt_ribbonsbc e then [''srcIP:'', ''dstIP:''] else [])) pp;
          pp = fold addNodeCheckSip check_sip_names pp;
          pp = (prepareCustomNodes (map (\<lambda>n. n @ '':'') (fst (header_filter e))) pp)\<lparr>pp_time_filter := snd (header_filter e)\<rparr>;
          pp = fold (pp_addNode False) (if opt_conference_processing e then [''event:'', ''subscription-state:'', ''referred-by:''] else []) pp in
      applyCustomNodes pp)"

text \<open>The time of the headers of messages is taken from the headers of calls, which need not exist.\<close>

definition refreshIfNeed :: "pp_env \<Rightarrow> ParsePacket \<Rightarrow> ParsePacket outcome" where
  "refreshIfNeed e pp =
     (let pp = (if pp_time_filter pp = 0 then pp\<lparr>pp_time_filter := snd (header_filter e)\<rparr> else pp);
          newer = (\<lambda>h t. case h of None \<Rightarrow> False | Some (_, t') \<Rightarrow> t' > t);
          r_filter = (snd (header_filter e) > pp_time_filter pp);
          r_cdr = newer (custom_cdr e) (pp_time_cdr pp); r_message = newer (custom_message e) (pp_time_message pp);
          r_sip_msg = newer (custom_sip_msg e) (pp_time_sip_msg pp) in
      if r_filter \<or> r_cdr \<or> r_message \<or> r_sip_msg then
        (let pp = setStdParse e pp;
             pp = (if r_filter then pp\<lparr>pp_time_filter := snd (header_filter e)\<rparr> else pp);
             pp = (if r_cdr then pp\<lparr>pp_time_cdr := time_or (custom_cdr e) (pp_time_cdr pp)\<rparr> else pp) in
         omap (\<lambda>pp. if r_sip_msg then pp\<lparr>pp_time_sip_msg := time_or (custom_sip_msg e) (pp_time_sip_msg pp)\<rparr> else pp)
           (if r_message then (case custom_cdr e of None \<Rightarrow> OutOfBounds | Some (_, t) \<Rightarrow> Ret (pp\<lparr>pp_time_message := t\<rparr>)) else Ret pp))
      else Ret pp)"


section \<open>What a tree of names means\<close>

type_synonym node_info = "eTypeNode \<times> nat \<times> bool"

definition node_info :: "ppNode \<Rightarrow> node_info option" where
  "node_info node = (if pn_leaf node then Some (pn_type node, pn_index node, pn_isContentLength node) else None)"

text \<open>The names a tree holds: what the node at the end of a path of lower case characters says.\<close>

fun names_of :: "ppNode \<Rightarrow> string \<Rightarrow> node_info option" where
  "names_of node [] = node_info node"
| "names_of node (c # k) = (case pn_nodes node c of None \<Rightarrow> None | Some sub \<Rightarrow> names_of sub k)"

definition name_key :: "string \<Rightarrow> string" where
  "name_key s = map c_tolower (filter (\<lambda>c. c \<noteq> CHR 0x0A) s)"

lemma names_of_init [simp]: "names_of init_node k = None"
  by (cases k) (simp_all add: init_node_def node_info_def)

lemma names_of_upd: "names_of (ppNode f l t i cl) (c # k) = (case f c of None \<Rightarrow> None | Some sub \<Rightarrow> names_of sub k)"
  by simp

lemma names_of_add: "names_of (node_addNode nm t i cl node) k = (if k = name_key nm then Some (t, i, cl) else names_of node k)"
proof (induction nm t i cl node arbitrary: k rule: node_addNode.induct)
  case (1 t i cl node)
  show ?case by (cases k) (simp_all add: name_key_def node_info_def)
next
  case (2 c cs t i cl node)
  show ?case
  proof (cases "c = CHR 0x0A")
    case True
    then show ?thesis using "2.IH"(1) by (simp add: name_key_def)
  next
    case False
    then show ?thesis using "2.IH"(2) [OF False refl refl]
      by (cases k) (auto simp: name_key_def Let_def node_info_def split: option.splits)
  qed
qed

lemma prefix_key_Cons: "take (Suc n) (c # k) = d # ks \<longleftrightarrow> c = d \<and> take n k = ks"
  by simp

text \<open>Removing a name removes every name that begins with it.\<close>

definition starts_with :: "string \<Rightarrow> string \<Rightarrow> bool" where
  "starts_with pre s = (take (length pre) s = pre)"

lemma starts_with_simps [simp]: "starts_with [] s" "starts_with (a # p) (b # s) = (a = b \<and> starts_with p s)" "\<not> starts_with (a # p) []"
  by (auto simp: starts_with_def)

lemma names_of_remove: "names_of (node_removeNode nm node) k = (if starts_with (name_key nm) k then None else names_of node k)"
proof (induction nm node arbitrary: k rule: node_removeNode.induct)
  case (1 node)
  then show ?case by (simp add: name_key_def)
next
  case (2 c cs node)
  show ?case
  proof (cases "c = CHR 0x0A")
    case True
    then show ?thesis using "2.IH"(1) by (simp add: name_key_def)
  next
    case False
    then show ?thesis
    proof (cases "pn_nodes node (c_tolower c)")
      case None
      then show ?thesis using False by (cases k) (auto simp: name_key_def Let_def)
    next
      case (Some s)
      then show ?thesis using False "2.IH"(2) [OF False refl Some]
        by (cases k) (auto simp: name_key_def Let_def node_info_def)
    qed
  qed
qed

section \<open>The search in a tree\<close>

text \<open>The shortest name the text begins with, in upper or lower case, among the first \<open>lim\<close> characters.\<close>

fun name_find :: "(string \<Rightarrow> 'i option) \<Rightarrow> string \<Rightarrow> nat \<Rightarrow> ('i \<times> nat) option" where
  "name_find f [] lim = (case f [] of Some x \<Rightarrow> Some (x, 0) | None \<Rightarrow> None)"
| "name_find f (c # cs) lim =
     (case f [] of Some x \<Rightarrow> Some (x, 0)
      | None \<Rightarrow> if c = nul \<or> lim = 0 then None else map_option (apsnd Suc) (name_find (\<lambda>k. f (c_tolower c # k)) cs (lim - 1)))"

lemma name_find_iff:
  "name_find f s lim = Some (x, k) \<longleftrightarrow>
     k \<le> lim \<and> k \<le> length s \<and> nul \<notin> set (take k s) \<and> f (map c_tolower (take k s)) = Some x \<and> (\<forall>j < k. f (map c_tolower (take j s)) = None)"
proof (induction f s lim arbitrary: k rule: name_find.induct)
  case (1 f lim)
  show ?case by (cases "f []") auto
next
  case (2 f c cs lim)
  show ?case
  proof (cases "f []")
    case (Some y)
    then have "0 < k \<Longrightarrow> \<not> (\<forall>j < k. f (map c_tolower (take j (c # cs))) = None)" by (auto intro!: exI [of _ 0])
    then show ?thesis using Some by (cases k) auto
  next
    case None
    show ?thesis
    proof (cases "c = nul \<or> lim = 0")
      case True
      then show ?thesis using None by (cases k) auto
    next
      case False
      show ?thesis
      proof (cases k)
        case 0
        then show ?thesis using None False by (auto simp: apsnd_def map_prod_def split: prod.splits)
      next
        case (Suc k')
        have "name_find f (c # cs) lim = Some (x, k) \<longleftrightarrow> name_find (\<lambda>k. f (c_tolower c # k)) cs (lim - 1) = Some (x, k')"
          using None False Suc by (auto simp: apsnd_def map_prod_def split: prod.splits)
        also have "\<dots> \<longleftrightarrow> k' \<le> lim - 1 \<and> k' \<le> length cs \<and> nul \<notin> set (take k' cs) \<and> f (c_tolower c # map c_tolower (take k' cs)) = Some x \<and>
            (\<forall>j < k'. f (c_tolower c # map c_tolower (take j cs)) = None)" using "2.IH" [OF None False] .
        also have "(\<forall>j < k'. f (c_tolower c # map c_tolower (take j cs)) = None) \<longleftrightarrow> (\<forall>j < k. f (map c_tolower (take j (c # cs))) = None)"
          using None Suc by (auto simp: less_Suc_eq_0_disj all_conj_distrib)
        finally show ?thesis using Suc False by auto
      qed
    qed
  qed
qed

lemma name_find_none: "name_find (\<lambda>k. None) s lim = None"
  by (induction s arbitrary: lim) simp_all

lemma getContent_find:
  assumes "p + limit < length m" "n \<le> limit"
  shows "\<exists>r. getContent node m p n limit = Ret r \<and>
    (case r of None \<Rightarrow> name_find (names_of node) (drop (p + n) m) (limit - n) = None
     | Some (nd, k) \<Rightarrow> (case node_info nd of None \<Rightarrow> False | Some x \<Rightarrow> n \<le> k \<and> name_find (names_of node) (drop (p + n) m) (limit - n) = Some (x, k - n)))"
  using assms
proof (induction node m p n limit rule: getContent.induct)
  case (1 node m p n limit)
  have d: "drop (p + n) m = m ! (p + n) # drop (p + Suc n) m" using "1.prems" by (simp add: Cons_nth_drop_Suc)
  have ld: "ldc m (p + n) = Ret (m ! (p + n))" using "1.prems" by (simp add: ldc_def)
  show ?case
  proof (cases "pn_leaf node")
    case True
    then show ?thesis by (subst getContent.simps) (simp add: d node_info_def)
  next
    case False
    then have ni: "node_info node = None" by (simp add: node_info_def)
    show ?thesis
    proof (cases "m ! (p + n) = nul")
      case True
      then show ?thesis using False ld ni by (subst getContent.simps) (simp add: d)
    next
      case nn: False
      show ?thesis
      proof (cases "pn_nodes node (c_tolower (m ! (p + n)))")
        case None
        then show ?thesis using False nn ld ni by (subst getContent.simps) (simp add: d name_find_none)
      next
        case (Some sub)
        show ?thesis
        proof (cases "n + 1 > limit")
          case True
          then show ?thesis using False nn Some ld ni by (subst getContent.simps) (simp add: d)
        next
          case le: False
          have IH: "\<exists>r. getContent sub m p (n + 1) limit = Ret r \<and>
            (case r of None \<Rightarrow> name_find (names_of sub) (drop (p + (n + 1)) m) (limit - (n + 1)) = None
             | Some (nd, k) \<Rightarrow> (case node_info nd of None \<Rightarrow> False | Some x \<Rightarrow> n + 1 \<le> k \<and> name_find (names_of sub) (drop (p + (n + 1)) m) (limit - (n + 1)) = Some (x, k - (n + 1))))"
            using "1.IH" [OF False _ Some le] nn "1.prems" le by simp
          have g: "getContent node m p n limit = getContent sub m p (n + 1) limit" using False nn Some le ld by (subst getContent.simps) simp
          have f: "name_find (names_of node) (drop (p + n) m) (limit - n) = map_option (apsnd Suc) (name_find (names_of sub) (drop (p + (n + 1)) m) (limit - (n + 1)))"
            using nn le Some ni by (simp add: d)
          obtain r where r: "getContent sub m p (n + 1) limit = Ret r" "case r of None \<Rightarrow> name_find (names_of sub) (drop (p + (n + 1)) m) (limit - (n + 1)) = None
             | Some (nd, k) \<Rightarrow> (case node_info nd of None \<Rightarrow> False | Some x \<Rightarrow> n + 1 \<le> k \<and> name_find (names_of sub) (drop (p + (n + 1)) m) (limit - (n + 1)) = Some (x, k - (n + 1)))"
            using IH by blast
          show ?thesis unfolding g f
          proof (intro exI conjI)
            show "getContent sub m p (n + 1) limit = Ret r" by (rule r(1))
          qed (use r(2) in \<open>auto split: option.splits\<close>)
        qed
      qed
    qed
  qed
qed


section \<open>The names of a parser\<close>

definition pp_names :: "ParsePacket \<Rightarrow> string \<Rightarrow> node_info option" where
  "pp_names pp = (case pp_root pp of None \<Rightarrow> (\<lambda>_. None) | Some root \<Rightarrow> names_of root)"

lemma pp_names_root: "names_of (root_or_new (pp_root pp)) = pp_names pp"
  by (cases "pp_root pp") (simp_all add: root_or_new_def pp_names_def fun_eq_iff)

lemma pp_names_set: "pp_names (pp\<lparr>pp_nodesStd := a, pp_root := Some r\<rparr>) = names_of r" "pp_names (pp\<lparr>pp_nodesCustom := a, pp_root := Some r\<rparr>) = names_of r"
  "pp_names (pp\<lparr>pp_root := Some r, pp_nodesCustom := a\<rparr>) = names_of r"
  by (simp_all add: pp_names_def)

lemma names_of_add_fun: "names_of (node_addNode nm t i cl node) = (names_of node)(name_key nm \<mapsto> (t, i, cl))"
  by (auto simp: names_of_add fun_eq_iff)

definition std_accepts :: "string \<Rightarrow> ParsePacket \<Rightarrow> bool" where
  "std_accepts nm pp = (nodeNameUpper nm \<notin> set (pp_nodesStd pp) \<and> nodeNameUpper nm \<notin> set (pp_nodesCustom pp) \<and> length (pp_nodesStd pp) < std_max)"

lemma pp_addNode_names:
  "pp_names (pp_addNode cl nm pp) = (if std_accepts nm pp then (pp_names pp)(name_key nm \<mapsto> (typeNode_std, length (pp_nodesStd pp), cl)) else pp_names pp)"
  by (simp add: pp_addNode_def Let_def std_accepts_def pp_names_set names_of_add_fun pp_names_root)

definition custom_accepts :: "string \<Rightarrow> ParsePacket \<Rightarrow> bool" where
  "custom_accepts nm pp = (nodeNameUpper nm \<notin> set (pp_nodesStd pp) \<and> nodeNameUpper nm \<notin> set (pp_nodesCustom pp) \<and>
     length (filter (\<lambda>s. s \<noteq> []) (pp_nodesCustom pp)) < custom_max)"

definition custom_slot :: "ParsePacket \<Rightarrow> nat" where
  "custom_slot pp = (case first_free (pp_nodesCustom pp) of None \<Rightarrow> length (pp_nodesCustom pp) | Some i \<Rightarrow> i)"

lemma addCustomNode_names:
  "pp_names (addCustomNode nm pp) = (if custom_accepts nm pp then (pp_names pp)(name_key nm \<mapsto> (typeNode_custom, custom_slot pp, False)) else pp_names pp)"
  by (cases "first_free (pp_nodesCustom pp)")
    (simp_all add: addCustomNode_def Let_def custom_accepts_def custom_slot_def pp_names_set names_of_add_fun pp_names_root)

lemma removeCustomNode_names:
  "pp_names (removeCustomNode nm pp) = (if nodeNameUpper nm \<in> set (pp_nodesCustom pp)
     then (\<lambda>k. if starts_with (name_key (nodeNameUpper nm)) k then None else pp_names pp k) else pp_names pp)"
proof (cases "pp_root pp")
  case None
  then show ?thesis by (simp add: removeCustomNode_def pp_names_def fun_eq_iff)
next
  case (Some root)
  let ?is = "filter (\<lambda>i. pp_nodesCustom pp ! i = nodeNameUpper nm) [0..<length (pp_nodesCustom pp)]"
  have "?is = [] \<longleftrightarrow> nodeNameUpper nm \<notin> set (pp_nodesCustom pp)" by (auto simp: filter_empty_conv in_set_conv_nth)
  then show ?thesis using Some by (cases ?is) (auto simp: removeCustomNode_def pp_names_def names_of_remove fun_eq_iff Let_def)
qed

lemma getNode_find:
  assumes "pp_root pp \<noteq> None" "p + limit < length m"
  shows "\<exists>r. getNode pp m p limit = Ret r \<and>
    (case r of None \<Rightarrow> name_find (pp_names pp) (drop p m) limit = None
     | Some (nd, k) \<Rightarrow> \<exists>x. node_info nd = Some x \<and> name_find (pp_names pp) (drop p m) limit = Some (x, k))"
proof -
  obtain root where root: "pp_root pp = Some root" using assms(1) by auto
  obtain r where "getContent root m p 0 limit = Ret r" "case r of None \<Rightarrow> name_find (names_of root) (drop (p + 0) m) (limit - 0) = None
     | Some (nd, k) \<Rightarrow> (case node_info nd of None \<Rightarrow> False | Some x \<Rightarrow> 0 \<le> k \<and> name_find (names_of root) (drop (p + 0) m) (limit - 0) = Some (x, k - 0))"
    using getContent_find [OF assms(2), of 0 root] by blast
  then show ?thesis using root by (intro exI [of _ r]) (auto simp: getNode_def pp_names_def split: option.splits)
qed


lemma pp_names_new: "pp_names pp_new = Map.empty"
  by (simp add: pp_names_def pp_new_def)

text \<open>C6: the tree of header names implements a map from names, written in lower case and without newlines, to nodes: \<open>addNode\<close> and
  \<open>addCustomNode\<close> bind a new name to the next index (or the first free one) as long as there is room, \<open>removeCustomNode\<close> unbinds
  the name and every longer name that begins with it, and the search finds the shortest bound name the text begins with, ignoring
  case and not reading behind the limit.\<close>

theorem header_tree_is_map:
  assumes "pp_root pp \<noteq> None" "p + limit < length m"
  shows "pp_names pp_new = Map.empty \<and>
    pp_names (pp_addNode cl nm pp) = (if std_accepts nm pp then (pp_names pp)(name_key nm \<mapsto> (typeNode_std, length (pp_nodesStd pp), cl)) else pp_names pp) \<and>
    pp_names (addCustomNode nm pp) = (if custom_accepts nm pp then (pp_names pp)(name_key nm \<mapsto> (typeNode_custom, custom_slot pp, False)) else pp_names pp) \<and>
    pp_names (removeCustomNode nm pp) = (if nodeNameUpper nm \<in> set (pp_nodesCustom pp)
      then (\<lambda>k. if starts_with (name_key (nodeNameUpper nm)) k then None else pp_names pp k) else pp_names pp) \<and>
    (\<exists>r. getNode pp m p limit = Ret r \<and>
      (case r of None \<Rightarrow> \<forall>k \<le> limit. nul \<notin> set (take k (drop p m)) \<longrightarrow> pp_names pp (map c_tolower (take k (drop p m))) = None
       | Some (nd, k) \<Rightarrow> k \<le> limit \<and> node_info nd = pp_names pp (map c_tolower (take k (drop p m))) \<and> node_info nd \<noteq> None \<and>
           (\<forall>j < k. pp_names pp (map c_tolower (take j (drop p m))) = None)))"
proof (intro conjI)
  obtain r where r: "getNode pp m p limit = Ret r" "case r of None \<Rightarrow> name_find (pp_names pp) (drop p m) limit = None
     | Some (nd, k) \<Rightarrow> \<exists>x. node_info nd = Some x \<and> name_find (pp_names pp) (drop p m) limit = Some (x, k)" using getNode_find [OF assms] by blast
  have none: "\<forall>k \<le> limit. nul \<notin> set (take k (drop p m)) \<longrightarrow> pp_names pp (map c_tolower (take k (drop p m))) = None"
    if n: "name_find (pp_names pp) (drop p m) limit = None"
  proof (intro allI impI)
    fix k assume k: "k \<le> limit" "nul \<notin> set (take k (drop p m))"
    show "pp_names pp (map c_tolower (take k (drop p m))) = None"
    proof (rule ccontr)
      let ?P = "\<lambda>j. j \<le> k \<and> pp_names pp (map c_tolower (take j (drop p m))) \<noteq> None"
      assume "pp_names pp (map c_tolower (take k (drop p m))) \<noteq> None"
      then have P: "?P k" by simp
      define j where "j = (LEAST j. ?P j)"
      have j: "?P j" "\<forall>i < j. \<not> ?P i" unfolding j_def using LeastI [of ?P k, OF P] not_less_Least by blast+
      obtain x where x: "pp_names pp (map c_tolower (take j (drop p m))) = Some x" using j(1) by auto
      have "nul \<notin> set (take j (drop p m))" using k(2) j(1) set_take_subset_set_take [of j k "drop p m"] by auto
      moreover have "\<forall>i < j. pp_names pp (map c_tolower (take i (drop p m))) = None" using j by (meson less_imp_le_nat order.trans)
      ultimately have "name_find (pp_names pp) (drop p m) limit = Some (x, j)"
        unfolding name_find_iff using x j(1) k(1) assms(2) by auto
      then show False using n by simp
    qed
  qed
  show "\<exists>r. getNode pp m p limit = Ret r \<and>
      (case r of None \<Rightarrow> \<forall>k \<le> limit. nul \<notin> set (take k (drop p m)) \<longrightarrow> pp_names pp (map c_tolower (take k (drop p m))) = None
       | Some (nd, k) \<Rightarrow> k \<le> limit \<and> node_info nd = pp_names pp (map c_tolower (take k (drop p m))) \<and> node_info nd \<noteq> None \<and>
           (\<forall>j < k. pp_names pp (map c_tolower (take j (drop p m))) = None))"
  proof (cases r)
    case None
    then show ?thesis using r none by auto
  next
    case (Some q)
    obtain nd k where q: "q = (nd, k)" by (cases q)
    obtain x where x: "node_info nd = Some x" "name_find (pp_names pp) (drop p m) limit = Some (x, k)" using r(2) Some q by auto
    then show ?thesis using r(1) Some q by (cases x) (simp add: name_find_iff)
  qed
qed (simp_all add: pp_addNode_names addCustomNode_names removeCustomNode_names pp_names_new)

section \<open>Reloading custom headers\<close>

lemma removeCustomNode_fields:
  "pp_nodesCustom_prepare (removeCustomNode nm pp) = pp_nodesCustom_prepare pp" "(pp_root (removeCustomNode nm pp) = None) = (pp_root pp = None)"
  by (auto simp: removeCustomNode_def Let_def split: option.splits list.splits)

lemma removeCustomNode_custom:
  assumes "pp_root pp \<noteq> None"
  shows "[] \<in> set (pp_nodesCustom pp) \<or> nodeNameUpper nm \<in> set (pp_nodesCustom pp) \<Longrightarrow> [] \<in> set (pp_nodesCustom (removeCustomNode nm pp))"
    and "x \<in> set (pp_nodesCustom pp) \<Longrightarrow> x \<noteq> nodeNameUpper nm \<Longrightarrow> x \<in> set (pp_nodesCustom (removeCustomNode nm pp))"
proof -
  obtain root where root: "pp_root pp = Some root" using assms by auto
  let ?is = "filter (\<lambda>i. pp_nodesCustom pp ! i = nodeNameUpper nm) [0..<length (pp_nodesCustom pp)]"
  have emp: "?is = [] \<longleftrightarrow> nodeNameUpper nm \<notin> set (pp_nodesCustom pp)" by (auto simp: filter_empty_conv in_set_conv_nth)
  have upd: "pp_nodesCustom (removeCustomNode nm pp) = (pp_nodesCustom pp)[i := []]" "i < length (pp_nodesCustom pp)" "pp_nodesCustom pp ! i = nodeNameUpper nm"
    if "?is = i # js" for i js
  proof -
    have "i \<in> set ?is" using that by simp
    then show "i < length (pp_nodesCustom pp)" "pp_nodesCustom pp ! i = nodeNameUpper nm" by auto
    show "pp_nodesCustom (removeCustomNode nm pp) = (pp_nodesCustom pp)[i := []]" using root that by (simp add: removeCustomNode_def)
  qed
  have keep: "pp_nodesCustom (removeCustomNode nm pp) = pp_nodesCustom pp" if "?is = []" using root that by (simp add: removeCustomNode_def)
  show "[] \<in> set (pp_nodesCustom (removeCustomNode nm pp))" if "[] \<in> set (pp_nodesCustom pp) \<or> nodeNameUpper nm \<in> set (pp_nodesCustom pp)"
    using that emp keep upd by (cases ?is) (auto intro: set_update_memI)
  show "x \<in> set (pp_nodesCustom (removeCustomNode nm pp))" if x: "x \<in> set (pp_nodesCustom pp)" "x \<noteq> nodeNameUpper nm"
  proof (cases ?is)
    case (Cons i js)
    obtain j where "j < length (pp_nodesCustom pp)" "pp_nodesCustom pp ! j = x" using x(1) by (auto simp: in_set_conv_nth)
    moreover from this have "j \<noteq> i" using upd(3) [OF Cons] x(2) by auto
    ultimately show ?thesis using upd(1) [OF Cons] by (auto simp: in_set_conv_nth intro!: exI [of _ j])
  qed (use x keep in simp)
qed

lemma fold_remove_fields:
  "pp_nodesCustom_prepare (fold removeCustomNode ns pp) = pp_nodesCustom_prepare pp" "(pp_root (fold removeCustomNode ns pp) = None) = (pp_root pp = None)"
  by (induction ns arbitrary: pp) (simp_all add: removeCustomNode_fields)

lemma fold_remove_hole:
  assumes "pp_root pp \<noteq> None" "[] \<in> set (pp_nodesCustom pp) \<or> (\<exists>n \<in> set ns. nodeNameUpper n = n \<and> n \<in> set (pp_nodesCustom pp))"
  shows "[] \<in> set (pp_nodesCustom (fold removeCustomNode ns pp))"
  using assms
proof (induction ns arbitrary: pp)
  case (Cons n ns)
  have r: "pp_root (removeCustomNode n pp) \<noteq> None" using Cons.prems(1) removeCustomNode_fields(2) by simp
  have "[] \<in> set (pp_nodesCustom (removeCustomNode n pp)) \<or> (\<exists>n' \<in> set ns. nodeNameUpper n' = n' \<and> n' \<in> set (pp_nodesCustom (removeCustomNode n pp)))"
    using Cons.prems(2) removeCustomNode_custom(1) [OF Cons.prems(1), of n] removeCustomNode_custom(2) [OF Cons.prems(1), of _ n] by (metis set_ConsD)
  then show ?case using Cons.IH [OF r] by simp
qed simp

lemma fold_remove_keeps:
  assumes "pp_root pp \<noteq> None" "x \<in> set (pp_nodesCustom pp)" "x \<notin> nodeNameUpper ` set ns"
  shows "x \<in> set (pp_nodesCustom (fold removeCustomNode ns pp))"
  using assms
proof (induction ns arbitrary: pp)
  case (Cons n ns)
  have "pp_root (removeCustomNode n pp) \<noteq> None" using Cons.prems(1) removeCustomNode_fields(2) by simp
  then show ?case using Cons removeCustomNode_custom(2) [OF Cons.prems(1), of x n] by simp
qed simp

lemma fold_remove_empty: "\<forall>k. pp_names pp k = None \<Longrightarrow> pp_names (fold removeCustomNode ns pp) k = None"
  by (induction ns arbitrary: pp) (simp_all add: removeCustomNode_names)

text \<open>Removing the empty name, which stands for a free index, removes all names.\<close>

lemma fold_remove_all:
  assumes "pp_root pp \<noteq> None" "[] \<in> set ns" "[] \<in> set (pp_nodesCustom pp)"
  shows "pp_names (fold removeCustomNode ns pp) k = None"
  using assms
proof (induction ns arbitrary: pp)
  case (Cons n ns)
  show ?case
  proof (cases "n = []")
    case True
    have "nodeNameUpper [] = []" "name_key [] = []" by (simp_all add: nodeNameUpper_def name_key_def)
    then have "\<forall>k. pp_names (removeCustomNode n pp) k = None" using Cons.prems(3) True by (simp add: removeCustomNode_names)
    then show ?thesis using fold_remove_empty by simp
  next
    case False
    have "pp_root (removeCustomNode n pp) \<noteq> None" using Cons.prems(1) removeCustomNode_fields(2) by simp
    then show ?thesis using False Cons removeCustomNode_custom(1) [OF Cons.prems(1), of n] by simp
  qed
qed simp

definition only_custom :: "ParsePacket \<Rightarrow> bool" where
  "only_custom pp = (\<forall>k t i cl. pp_names pp k = Some (t, i, cl) \<longrightarrow> t = typeNode_custom)"

lemma fold_add_only_custom:
  "only_custom pp \<Longrightarrow> only_custom (fold (\<lambda>n pp. if n \<notin> set (pp_nodesCustom pp) then addCustomNode n pp else pp) ns pp)"
proof (induction ns arbitrary: pp)
  case (Cons n ns)
  have "only_custom (addCustomNode n pp)" using Cons.prems by (auto simp: only_custom_def addCustomNode_names)
  then show ?case using Cons by simp
qed simp

lemma fold_add_root: "pp_root pp \<noteq> None \<Longrightarrow> pp_root (fold (\<lambda>n pp. if n \<notin> set (pp_nodesCustom pp) then addCustomNode n pp else pp) ns pp) \<noteq> None"
proof (induction ns arbitrary: pp)
  case (Cons n ns)
  have "pp_root (addCustomNode n pp) \<noteq> None" using Cons.prems by (auto simp: addCustomNode_def Let_def split: option.splits)
  then show ?case using Cons by simp
qed simp

lemma fold_add_none:
  "\<forall>n \<in> set ns. n \<in> set (pp_nodesCustom pp) \<Longrightarrow> fold (\<lambda>n pp. if n \<notin> set (pp_nodesCustom pp) then addCustomNode n pp else pp) ns pp = pp"
  by (induction ns arbitrary: pp) simp_all

lemma apply_with_hole:
  assumes "pp_root pp \<noteq> None" "[] \<in> set (pp_nodesCustom pp)" "[] \<notin> set (pp_nodesCustom_prepare pp)"
  shows "only_custom (applyCustomNodes pp)" "pp_root (applyCustomNodes pp) \<noteq> None"
proof -
  let ?ns = "filter (\<lambda>n. n \<notin> set (pp_nodesCustom_prepare pp)) (pp_nodesCustom pp)"
  let ?pp = "fold removeCustomNode ?ns pp"
  have "\<forall>k. pp_names ?pp k = None" using fold_remove_all [OF assms(1) _ assms(2), of ?ns] assms by simp
  then have "only_custom ?pp" by (simp add: only_custom_def)
  moreover have "pp_root ?pp \<noteq> None" using fold_remove_fields(2) assms(1) by simp
  ultimately show "only_custom (applyCustomNodes pp)" "pp_root (applyCustomNodes pp) \<noteq> None"
    using fold_add_only_custom [of ?pp "pp_nodesCustom_prepare ?pp"] fold_add_root [of ?pp "pp_nodesCustom_prepare ?pp"]
    by (simp_all add: applyCustomNodes_def Let_def only_custom_def pp_names_def)
qed

lemma apply_leaves_hole:
  assumes "pp_root pp \<noteq> None" "n \<in> set (pp_nodesCustom pp)" "n \<notin> set (pp_nodesCustom_prepare pp)"
    and "\<forall>x \<in> set (pp_nodesCustom pp). nodeNameUpper x = x" "set (pp_nodesCustom_prepare pp) \<subseteq> set (pp_nodesCustom pp)"
  shows "[] \<in> set (pp_nodesCustom (applyCustomNodes pp))" "pp_root (applyCustomNodes pp) \<noteq> None" "pp_nodesCustom_prepare (applyCustomNodes pp) = []"
proof -
  let ?ns = "filter (\<lambda>n. n \<notin> set (pp_nodesCustom_prepare pp)) (pp_nodesCustom pp)"
  let ?pp = "fold removeCustomNode ?ns pp"
  have im: "nodeNameUpper ` set ?ns = set ?ns" using assms(4) by force
  have "\<forall>x \<in> set (pp_nodesCustom_prepare pp). x \<in> set (pp_nodesCustom ?pp)" using fold_remove_keeps [OF assms(1), of _ ?ns] assms(5) unfolding im by auto
  then have "fold (\<lambda>n pp. if n \<notin> set (pp_nodesCustom pp) then addCustomNode n pp else pp) (pp_nodesCustom_prepare ?pp) ?pp = ?pp"
    by (intro fold_add_none) (simp add: fold_remove_fields)
  then have eq: "applyCustomNodes pp = ?pp\<lparr>pp_nodesCustom_prepare := []\<rparr>" by (simp add: applyCustomNodes_def Let_def)
  have "[] \<in> set (pp_nodesCustom ?pp)" using assms by (intro fold_remove_hole) auto
  then show "[] \<in> set (pp_nodesCustom (applyCustomNodes pp))" "pp_root (applyCustomNodes pp) \<noteq> None" "pp_nodesCustom_prepare (applyCustomNodes pp) = []"
    using fold_remove_fields(2) [of ?ns pp] assms(1) by (simp_all add: eq)
qed

lemma prepareCustomNodes_fields:
  "pp_root (prepareCustomNodes ns pp) = pp_root pp" "pp_nodesCustom (prepareCustomNodes ns pp) = pp_nodesCustom pp"
  "[] \<notin> set (pp_nodesCustom_prepare pp) \<Longrightarrow> \<forall>n \<in> set ns. nodeNameUpper n \<noteq> [] \<Longrightarrow> [] \<notin> set (pp_nodesCustom_prepare (prepareCustomNodes ns pp))"
proof -
  show "pp_root (prepareCustomNodes ns pp) = pp_root pp" "pp_nodesCustom (prepareCustomNodes ns pp) = pp_nodesCustom pp"
    by (induction ns arbitrary: pp) (auto simp: prepareCustomNodes_def prepareCustomNode_def Let_def)
  show "[] \<notin> set (pp_nodesCustom_prepare (prepareCustomNodes ns pp))"
    if "[] \<notin> set (pp_nodesCustom_prepare pp)" "\<forall>n \<in> set ns. nodeNameUpper n \<noteq> []"
    using that by (induction ns arbitrary: pp) (auto simp: prepareCustomNodes_def prepareCustomNode_def Let_def)
qed

text \<open>C38: once a custom header has been dropped from the configuration, the next reload of the custom headers empties the tree: no
  standard header (From, To, Call-ID, Content-Length and the others) is found in any message any more. The free index the dropped
  name left is taken for a name that is to be removed, and removing the empty name removes everything.\<close>

theorem dropped_custom_header_clears_parser:
  assumes "pp_root pp \<noteq> None" "n \<in> set (pp_nodesCustom pp)" "n \<notin> set (pp_nodesCustom_prepare pp)"
    and "\<forall>x \<in> set (pp_nodesCustom pp). nodeNameUpper x = x" "set (pp_nodesCustom_prepare pp) \<subseteq> set (pp_nodesCustom pp)"
    and "\<forall>n \<in> set ns. nodeNameUpper n \<noteq> []" "p + limit < length m"
  shows "\<exists>r. getNode (applyCustomNodes (prepareCustomNodes ns (applyCustomNodes pp))) m p limit = Ret r \<and>
    (\<forall>nd k. r = Some (nd, k) \<longrightarrow> pn_type nd = typeNode_custom)"
proof -
  let ?pp1 = "prepareCustomNodes ns (applyCustomNodes pp)"
  note h = apply_leaves_hole [OF assms(1-5)]
  have "[] \<in> set (pp_nodesCustom ?pp1)" "pp_root ?pp1 \<noteq> None" "[] \<notin> set (pp_nodesCustom_prepare ?pp1)"
    using h assms(6) prepareCustomNodes_fields by simp_all
  note a = apply_with_hole [OF this(2,1,3)]
  obtain r where r: "getNode (applyCustomNodes ?pp1) m p limit = Ret r" "case r of None \<Rightarrow> name_find (pp_names (applyCustomNodes ?pp1)) (drop p m) limit = None
     | Some (nd, k) \<Rightarrow> \<exists>x. node_info nd = Some x \<and> name_find (pp_names (applyCustomNodes ?pp1)) (drop p m) limit = Some (x, k)"
    using getNode_find [OF a(2) assms(7)] by blast
  have "pn_type nd = typeNode_custom" if rk: "r = Some (nd, k)" for nd k
  proof -
    obtain x where "node_info nd = Some x" "name_find (pp_names (applyCustomNodes ?pp1)) (drop p m) limit = Some (x, k)"
      using r(2) unfolding rk by auto
    then show ?thesis using a(1) by (auto simp: name_find_iff only_custom_def node_info_def split: if_splits)
  qed
  then show ?thesis using r(1) by blast
qed


definition demo_pp :: ParsePacket where
  "demo_pp = addCustomNode ''X-A:'' (pp_addNode True ''l:'' (pp_addNode False ''From:'' pp_new))"

lemma upper_names: "nodeNameUpper ''From:'' = ''FROM:''" "nodeNameUpper ''l:'' = ''L:''" "nodeNameUpper ''X-A:'' = ''X-A:''" "nodeNameUpper ''To:'' = ''TO:''" "nodeNameUpper ''X-B:'' = ''X-B:''"
  "name_key ''To:'' = ''to:''"
  by code_simp+

lemma demo_pp_fields:
  "pp_nodesStd demo_pp = [''FROM:'', ''L:'']" "pp_nodesCustom demo_pp = [''X-A:'']" "pp_nodesCustom_prepare demo_pp = []" "pp_root demo_pp \<noteq> None"
  by (simp_all add: demo_pp_def addCustomNode_def pp_addNode_def pp_new_def upper_names first_free_def std_max_def custom_max_def Let_def del: node_addNode.simps)

theorem header_tree_is_map_witness:
  "pp_names (pp_addNode False ''To:'' demo_pp) ''to:'' = Some (typeNode_std, 2, False) \<and>
   (\<exists>r. getNode demo_pp ''FROM: a'' 0 6 = Ret r)"
proof -
  have "std_accepts ''To:'' demo_pp" by (simp add: std_accepts_def demo_pp_fields upper_names std_max_def)
  then show ?thesis using header_tree_is_map [of demo_pp 0 6 "''FROM: a''" False "''To:''"] demo_pp_fields upper_names by auto
qed

theorem dropped_custom_header_clears_parser_witness:
  "\<exists>r. getNode (applyCustomNodes (prepareCustomNodes [''X-B:''] (applyCustomNodes demo_pp))) ''From: a'' 0 6 = Ret r \<and>
    (\<forall>nd k. r = Some (nd, k) \<longrightarrow> pn_type nd = typeNode_custom)"
  by (rule dropped_custom_header_clears_parser [of _ "''X-A:''"]) (simp_all add: demo_pp_fields upper_names)

end
