(* ===== verification/VM_SipLines.thy ===== *)
theory VM_SipLines
  imports VM_ParsePacket
begin

text \<open>
  The pass of \<open>ParsePacket::parseData\<close> over a message that consists of lines: the specification \<open>message_fields\<close> reads the message line by line, and the
  loop over the characters finds the same end of the message and the same value for every name. The loop is followed from one position to the next with the
  relation \<open>goes\<close>, which carries the fuel.
\<close>

section \<open>The lines of a message\<close>

abbreviation (input) "CR \<equiv> CHR 0x0D"
abbreviation (input) "LF \<equiv> CHR 0x0A"

definition crlf :: string where "crlf = [CR, LF]"

definition sip_trim :: "string \<Rightarrow> string" where
  "sip_trim s = dropWhile (\<lambda>c. c = CHR '' '') (rev (dropWhile (\<lambda>c. c = CHR '' '') (rev s)))"

definition line_ok :: "string \<Rightarrow> bool" where
  "line_ok l = (l \<noteq> [] \<and> (\<forall>c \<in> set l. c \<noteq> CR \<and> c \<noteq> LF \<and> c \<noteq> nul \<and> (c_isspace c \<longrightarrow> c = CHR '' '')))"

definition names_ok :: "(string \<Rightarrow> node_info option) \<Rightarrow> bool" where
  "names_ok f = (f [] = None \<and> (\<forall>k t i cl. f k = Some (t, i, cl) \<longrightarrow> CR \<notin> set k \<and> LF \<notin> set k \<and> t \<noteq> typeNode_checkSip \<and> i < 100))"

text \<open>What one line contributes: the first value of a name that is not empty counts.\<close>

type_synonym sip_values = "(eTypeNode \<times> nat \<Rightarrow> string) \<times> int"

definition line_step :: "(string \<Rightarrow> node_info option) \<Rightarrow> string \<Rightarrow> sip_values \<Rightarrow> sip_values" where
  "line_step f l st = (case st of (v, cl) \<Rightarrow>
     (case name_find f l (length l) of None \<Rightarrow> (v, cl)
      | Some ((t, i, is_cl), n) \<Rightarrow>
          if v (t, i) \<noteq> [] then (v, cl)
          else (v((t, i) := sip_trim (drop n l)), if is_cl \<and> sip_trim (drop n l) \<noteq> [] then c_atoi (sip_trim (drop n l)) else cl)))"

definition items_of :: "ppContentsX \<Rightarrow> eTypeNode \<Rightarrow> ppContentItemX list" where
  "items_of c t = (case t of typeNode_std \<Rightarrow> pc_std c | typeNode_custom \<Rightarrow> pc_custom c | typeNode_checkSip \<Rightarrow> [])"

definition item_text :: "string \<Rightarrow> ppContentItemX \<Rightarrow> string" where
  "item_text m it = take (ci_length it) (drop (ci_offset it) m)"

definition item_in :: "string \<Rightarrow> ppContentItemX \<Rightarrow> bool" where
  "item_in m it = (ci_offset it + ci_length it \<le> length m)"

definition pp_rel :: "string \<Rightarrow> ppContentsX \<Rightarrow> sip_values \<Rightarrow> bool" where
  "pp_rel m c st = (length (pc_std c) = 100 \<and> length (pc_custom c) = 100 \<and> pc_contentLength c = snd st \<and>
     (\<forall>t i. t \<noteq> typeNode_checkSip \<longrightarrow> i < 100 \<longrightarrow> item_in m (items_of c t ! i) \<and> item_text m (items_of c t ! i) = fst st (t, i)))"

section \<open>Scanning a line\<close>

lemma ldc_drop: "drop p m = c # r \<Longrightarrow> ldc m p = Ret c"
  by (metis ldc_def drop_eq_Nil2 hd_drop_conv_nth linorder_not_less list.distinct(1) list.sel(1))

lemma scan_eol_line:
  assumes "drop i m = s @ CR # r" "CR \<notin> set s" "LF \<notin> set s" "i + length s < datalen"
  shows "scan_eol m datalen i = Ret (True, i + length s)"
  using assms
proof (induction s arbitrary: i)
  case Nil
  then show ?case using ldc_drop [of i m CR r] by (subst scan_eol.simps) simp
next
  case (Cons a s)
  have "ldc m i = Ret a" "drop (Suc i) m = s @ CR # r" using Cons.prems(1) ldc_drop by (simp, metis append_Cons list.sel(3) tl_drop drop_Suc drop_drop)
  then show ?case using Cons by (subst scan_eol.simps) auto
qed

lemma trim_end_facts: "off + n \<le> length m \<Longrightarrow> trim_end m off n = Ret (length (dropWhile (\<lambda>c. c = CHR '' '') (rev (take n (drop off m)))))"
proof (induction n)
  case (Suc n)
  then have "take (Suc n) (drop off m) = take n (drop off m) @ [m ! (off + n)]" by (simp add: take_Suc_conv_app_nth)
  then show ?case using Suc by (auto simp: ldc_def min_def)
qed simp

lemma trim_start_facts:
  "off + n \<le> length m \<Longrightarrow> trim_start m off n = Ret (off + length (takeWhile (\<lambda>c. c = CHR '' '') (take n (drop off m))), n - length (takeWhile (\<lambda>c. c = CHR '' '') (take n (drop off m))))"
proof (induction n arbitrary: off)
  case (Suc n)
  then have "drop off m = m ! off # drop (Suc off) m" by (simp add: Cons_nth_drop_Suc)
  then show ?case using Suc by (simp add: ldc_def)
qed simp

lemma rev_dropWhile_take: "rev (dropWhile P (rev xs)) = take (length (dropWhile P (rev xs))) xs"
  by (metis append_eq_conv_conj length_rev rev_append rev_rev_ident takeWhile_dropWhile_id)

lemma trimmed_next:
  assumes "length (dropWhile P (rev s)) < length s"
  shows "P (s ! length (dropWhile P (rev s)))"
proof -
  have s: "s = rev (dropWhile P (rev s)) @ rev (takeWhile P (rev s))" by (metis rev_append rev_rev_ident takeWhile_dropWhile_id)
  then have "takeWhile P (rev s) \<noteq> []" using assms by (metis append_self_conv length_rev less_irrefl rev_is_Nil_conv)
  then have "s ! length (dropWhile P (rev s)) = hd (rev (takeWhile P (rev s)))"
    by (subst s) (simp add: nth_append hd_conv_nth)
  also have "\<dots> \<in> set (takeWhile P (rev s))" using \<open>takeWhile P (rev s) \<noteq> []\<close> by (metis hd_in_set rev_is_Nil_conv set_rev)
  finally show ?thesis by (rule set_takeWhileD [THEN conjunct2])
qed

lemma item_trim_facts:
  assumes "off + n \<le> length m"
  shows "\<exists>it. item_trim m \<lparr>ci_offset = off, ci_length = n\<rparr> = Ret it \<and> item_in m it \<and> item_text m it = sip_trim (take n (drop off m)) \<and>
    ci_length it = length (sip_trim (take n (drop off m))) \<and> off \<le> ci_offset it \<and> ci_offset it + ci_length it \<le> off + n \<and>
    (ci_offset it + ci_length it < off + n \<longrightarrow> m ! (ci_offset it + ci_length it) = CHR '' '')"
proof -
  let ?s = "take n (drop off m)"
  define n1 where "n1 = length (dropWhile (\<lambda>c. c = CHR '' '') (rev ?s))"
  have n1: "n1 \<le> n" using length_dropWhile_le [of _ "rev ?s"] assms by (auto simp: n1_def intro: order.trans)
  define a where "a = length (takeWhile (\<lambda>c. c = CHR '' '') (take n1 (drop off m)))"
  have t1: "take n1 (drop off m) = rev (dropWhile (\<lambda>c. c = CHR '' '') (rev ?s))"
    using n1 by (subst rev_dropWhile_take) (simp add: n1_def [symmetric] min_def)
  have a: "a \<le> n1" using length_takeWhile_le [of _ "take n1 (drop off m)"] assms n1 by (auto simp: a_def)
  have tr: "sip_trim ?s = drop a (take n1 (drop off m))" unfolding sip_trim_def t1 [symmetric] a_def by (rule dropWhile_eq_drop)
  have "item_trim m \<lparr>ci_offset = off, ci_length = n\<rparr> = Ret \<lparr>ci_offset = off + a, ci_length = n1 - a\<rparr>"
    using trim_end_facts [OF assms] trim_start_facts [of off n1 m] n1 assms by (simp add: item_trim_def n1_def [symmetric] a_def [symmetric])
  moreover have "item_text m \<lparr>ci_offset = off + a, ci_length = n1 - a\<rparr> = sip_trim ?s" unfolding tr item_text_def by (simp add: drop_take add.commute)
  moreover have "length (sip_trim ?s) = n1 - a" unfolding tr using assms n1 by simp
  moreover have "m ! (off + n1) = CHR '' ''" if "n1 < n"
  proof -
    have "?s ! n1 = CHR '' ''" unfolding n1_def by (rule trimmed_next) (use that assms in \<open>simp add: n1_def [symmetric]\<close>)
    then show ?thesis using that assms by simp
  qed
  ultimately show ?thesis using a n1 assms by (intro exI [of _ "\<lparr>ci_offset = off + a, ci_length = n1 - a\<rparr>"]) (simp add: item_in_def)
qed

lemma tolower_ctrl: "c_tolower c = CR \<longleftrightarrow> c = CR" "c_tolower c = LF \<longleftrightarrow> c = LF"
  by (auto simp: c_tolower_def c_isupper_def of_char_of dest!: arg_cong [where f = "of_char :: char \<Rightarrow> nat"])

lemma tolower_CR: "c_tolower CR = CR"
  using tolower_ctrl(1) [of CR] by simp

lemma name_find_line:
  assumes f: "names_ok f" and d: "drop i m = l @ CR # r" and lim: "length l \<le> lim"
  shows "name_find f (drop i m) lim = name_find f l (length l)"
proof -
  have "name_find f (drop i m) lim = Some (x, k) \<longleftrightarrow> name_find f l (length l) = Some (x, k)" for x k
  proof (cases "k \<le> length l")
    case True
    then have "take j (drop i m) = take j l" if "j \<le> k" for j using d that by simp
    then show ?thesis unfolding name_find_iff using True lim d by auto
  next
    case False
    then have "CR \<in> set (take k (drop i m))" using d by (auto simp: take_Cons')
    then have "CR \<in> set (map c_tolower (take k (drop i m)))" unfolding set_map by (intro image_eqI [where x = CR]) (simp_all add: tolower_CR)
    then have "f (map c_tolower (take k (drop i m))) \<noteq> Some x" using f unfolding names_ok_def by (metis prod_cases3)
    then show ?thesis unfolding name_find_iff using False by auto
  qed
  then show ?thesis by (metis option.exhaust prod.exhaust)
qed


lemma item_text_len: "ci_offset it + ci_length it \<le> length m \<Longrightarrow> length (item_text m it) = ci_length it"
  by (simp add: item_text_def)

lemma c_atoi_stop: "v \<noteq> [] \<Longrightarrow> \<not> c_isspace (hd v) \<Longrightarrow> \<not> c_isdigit c \<Longrightarrow> c_atoi (v @ c # r) = c_atoi v"
  by (simp add: c_atoi_def c_strtol_stop)

lemma atoi_span_value:
  assumes "v \<noteq> []" "\<not> c_isspace (hd v)" "\<not> c_isdigit c"
  shows "atoi_span (v @ c # r) \<le> length v"
proof -
  obtain a w where v: "v = a # w" using assms(1) by (cases v) auto
  have tw: "length (takeWhile c_isdigit (s @ c # r)) \<le> length s" for s using assms(3) by (induction s) auto
  show ?thesis using assms(2) tw [of w] tw [of "a # w"] by (simp add: atoi_span_def v Let_def)
qed

lemma sip_trim_hd: "sip_trim s \<noteq> [] \<Longrightarrow> hd (sip_trim s) \<noteq> CHR '' ''"
  unfolding sip_trim_def by (rule hd_dropWhile)

lemma sip_trim_set: "set (sip_trim s) \<subseteq> set s"
  unfolding sip_trim_def by (metis set_dropWhileD set_rev subsetI)

text \<open>The length of the content is read from its text: a blank, the end of the line or nothing follows.\<close>

lemma read_contentLength_facts:
  assumes d: "drop off m = s @ CR # r" and ok: "\<forall>c \<in> set s. c_isspace c \<longrightarrow> c = CHR '' ''"
    and it: "item_text m it = sip_trim s" "item_in m it" "off \<le> ci_offset it" "ci_offset it + ci_length it \<le> off + length s"
    and nx: "ci_offset it + ci_length it < off + length s \<longrightarrow> m ! (ci_offset it + ci_length it) = CHR '' ''"
    and ne: "sip_trim s \<noteq> []" and len: "off + length s < datalen"
  shows "read_contentLength m datalen it = Ret (c_atoi (sip_trim s))"
proof -
  let ?e = "ci_offset it + ci_length it"
  have "length (drop off m) = length s + 1 + length r" using d by simp
  then have ml: "off + length s < length m" by simp
  have lt: "?e < datalen" "?e < length m" using it(4) len ml by simp_all
  have "drop (ci_offset it) m = item_text m it @ drop ?e m" unfolding item_text_def by (metis append_take_drop_id drop_drop add.commute)
  moreover have e: "drop ?e m = m ! ?e # drop (Suc ?e) m" using lt(2) by (simp add: Cons_nth_drop_Suc)
  ultimately have dd: "drop (ci_offset it) m = sip_trim s @ m ! ?e # drop (Suc ?e) m" using it(1) by simp
  have nd: "\<not> c_isdigit (m ! ?e)"
  proof (cases "?e = off + length s")
    case True
    then have "m ! ?e = CR" using arg_cong [OF d, of "\<lambda>x. x ! length s"] ml by (simp add: nth_append)
    then show ?thesis by (simp add: c_isdigit_def)
  next
    case False
    then show ?thesis using it(4) nx by (simp add: c_isdigit_def)
  qed
  have hd: "\<not> c_isspace (hd (sip_trim s))" using sip_trim_hd [OF ne] ok sip_trim_set [of s] ne by (metis hd_in_set subsetD)
  have "atoi_span (drop (ci_offset it) m) \<le> length (sip_trim s)" unfolding dd by (rule atoi_span_value [OF ne hd nd])
  moreover have "length (sip_trim s) = ci_length it" using it(1,2) unfolding item_in_def by (metis item_text_len)
  ultimately show ?thesis using lt c_atoi_stop [OF ne hd nd] unfolding read_contentLength_def atoi_at_def dd by simp
qed


section \<open>One line\<close>

lemma setItem_rel:
  assumes r: "pp_rel m c (v, n)" and nd: "node_info nd = Some (t, i, cl)" "t \<noteq> typeNode_checkSip" "i < 100" and it: "item_in m it"
  shows "\<exists>c'. setItem nd it c = Ret c' \<and> pp_rel m c' (v((t, i) := item_text m it), n) \<and> pc_doubleEndLine c' = pc_doubleEndLine c"
proof -
  have "pn_type nd = t" "pn_index nd = i" using nd(1) by (auto simp: node_info_def split: if_splits)
  then show ?thesis using r nd(2,3) it by (cases t) (auto simp: setItem_def pp_rel_def items_of_def nth_list_update split: eTypeNode.splits)
qed

lemma isSetNode_rel:
  assumes r: "pp_rel m c (v, n)" and nd: "node_info nd = Some (t, i, cl)" "t \<noteq> typeNode_checkSip" "i < 100"
  shows "isSetNode nd c = Ret (v (t, i) \<noteq> [])" "\<exists>it. getPointerToItem nd c = Ret it"
proof -
  have n: "pn_type nd = t" "pn_index nd = i" using nd(1) by (auto simp: node_info_def split: if_splits)
  have l: "length (items_of c t) = 100" using r nd(2) by (cases t) (simp_all add: pp_rel_def items_of_def)
  have "item_in m (items_of c t ! i)" "item_text m (items_of c t ! i) = v (t, i)" using r nd(2,3) by (simp_all add: pp_rel_def)
  then have "v (t, i) \<noteq> [] \<longleftrightarrow> ci_length (items_of c t ! i) \<noteq> 0" using item_text_len [of "items_of c t ! i" m] unfolding item_in_def by (metis length_0_conv)
  then show "isSetNode nd c = Ret (v (t, i) \<noteq> [])" using n l nd(2,3) by (cases t) (auto simp: isSetNode_def item_at_def items_of_def)
  show "\<exists>it. getPointerToItem nd c = Ret it" using n l nd(2,3) by (cases t) (auto simp: getPointerToItem_def item_at_def items_of_def)
qed

lemma parse_value_line:
  assumes d: "drop off m = s @ CR # r" and ok: "\<forall>c \<in> set s. c \<noteq> CR \<and> c \<noteq> LF \<and> (c_isspace c \<longrightarrow> c = CHR '' '')" and len: "off + length s < datalen"
    and rel: "pp_rel m c (v, n)" and nd: "node_info nd = Some (t, i, cl)" "t \<noteq> typeNode_checkSip" "i < 100"
  shows "\<exists>c'. parse_value m datalen nd off c = Ret (off + length s, c') \<and>
    pp_rel m c' (v((t, i) := sip_trim s), if cl \<and> sip_trim s \<noteq> [] then c_atoi (sip_trim s) else n) \<and> pc_doubleEndLine c' = pc_doubleEndLine c"
proof -
  have "length (drop off m) = length s + 1 + length r" using d by simp
  then have ml: "off + length s < length m" by simp
  have s: "take (length s) (drop off m) = s" using d by simp
  obtain it where it: "item_trim m \<lparr>ci_offset = off, ci_length = length s\<rparr> = Ret it" "item_in m it" "item_text m it = sip_trim s"
      "ci_length it = length (sip_trim s)" "off \<le> ci_offset it" "ci_offset it + ci_length it \<le> off + length s"
      "ci_offset it + ci_length it < off + length s \<longrightarrow> m ! (ci_offset it + ci_length it) = CHR '' ''"
    using item_trim_facts [of off "length s" m] ml unfolding s by auto
  have e: "scan_eol m datalen off = Ret (True, off + length s)" by (rule scan_eol_line [OF d _ _ len]) (use ok in auto)
  obtain it0 where it0: "getPointerToItem nd c = Ret it0" using isSetNode_rel(2) [OF rel nd] by blast
  obtain c1 where c1: "setItem nd it c = Ret c1" "pp_rel m c1 (v((t, i) := sip_trim s), n)" "pc_doubleEndLine c1 = pc_doubleEndLine c"
    using setItem_rel [OF rel nd it(2)] it(3) by auto
  have cl: "pn_isContentLength nd = cl" using nd(1) by (auto simp: node_info_def split: if_splits)
  have rd: "read_contentLength m datalen it = Ret (c_atoi (sip_trim s))" if "sip_trim s \<noteq> []"
    by (rule read_contentLength_facts [OF d _ it(3,2,5,6,7) that len]) (use ok in auto)
  show ?thesis
  proof (cases "cl \<and> sip_trim s \<noteq> []")
    case True
    then show ?thesis using e it0 it(1,4) c1 cl rd by (intro exI [of _ "c1\<lparr>pc_contentLength := c_atoi (sip_trim s)\<rparr>"]) (simp add: parse_value_def pp_rel_def items_of_def split: eTypeNode.splits)
  next
    case False
    then show ?thesis using e it0 it(1,4) c1 cl by (intro exI [of _ c1]) (auto simp: parse_value_def)
  qed
qed

text \<open>The loop goes on from one position to another, with enough fuel on both sides.\<close>

definition goes :: "ParsePacket \<Rightarrow> string \<Rightarrow> nat \<Rightarrow> nat \<Rightarrow> ppContentsX \<Rightarrow> nat \<Rightarrow> ppContentsX \<Rightarrow> bool" where
  "goes pp m datalen i c i' c' = (\<forall>k rslt. datalen < k + i \<longrightarrow>
     (\<exists>k'. datalen < k' + i' \<and> parse_loop k pp m datalen rslt i c = parse_loop k' pp m datalen rslt i' c'))"

lemma goes_refl: "goes pp m datalen i c i c"
  unfolding goes_def by blast

lemma goes_trans: "goes pp m datalen i c j c1 \<Longrightarrow> goes pp m datalen j c1 l c2 \<Longrightarrow> goes pp m datalen i c l c2"
  unfolding goes_def by metis

lemma goes_step:
  assumes "\<And>k rslt. parse_loop (Suc k) pp m datalen rslt i c = parse_loop k pp m datalen rslt i' c'" "i < i'" "i < datalen"
  shows "goes pp m datalen i c i' c'"
  unfolding goes_def
proof (intro allI impI)
  fix k rslt
  assume "datalen < k + i"
  then obtain k' where "k = Suc k'" using assms(3) by (cases k) auto
  then show "\<exists>k'. datalen < k' + i' \<and> parse_loop k pp m datalen rslt i c = parse_loop k' pp m datalen rslt i' c'"
    using assms(1,2) \<open>datalen < k + i\<close> by (intro exI [of _ k']) simp
qed

definition mid_line :: "string \<Rightarrow> nat \<Rightarrow> bool" where
  "mid_line m i = (0 < i \<and> i < length m \<and> m ! (i - 1) \<noteq> CR \<and> m ! (i - 1) \<noteq> LF)"

lemma goes_skip:
  assumes "mid_line m i" "i < datalen" "pc_doubleEndLine c = None \<Longrightarrow> is_double_end m datalen i = Ret False"
  shows "goes pp m datalen i c (i + 1) c"
proof (rule goes_step)
  show "parse_loop (Suc k) pp m datalen rslt i c = parse_loop k pp m datalen rslt (i + 1) c" for k rslt
    using assms by (auto simp: mid_line_def is_line_start_def ldc_def)
qed (use assms in simp_all)

lemma drop_Cons_nth: "drop i m = a # s \<Longrightarrow> i < length m \<and> m ! i = a \<and> drop (Suc i) m = s"
  by (metis drop_eq_Nil2 hd_drop_conv_nth drop_Suc list.distinct(1) list.sel(1,3) not_le_imp_less tl_drop)

lemma drop_length_less: "drop i m = s @ a # r \<Longrightarrow> i + length s < length m"
  by (drule arg_cong [where f = length]) simp

lemma goes_walk:
  assumes "drop i m = s @ CR # r" "CR \<notin> set s" "LF \<notin> set s" "i + length s < datalen" "mid_line m i"
  shows "goes pp m datalen i c (i + length s) c \<and> mid_line m (i + length s)"
  using assms
proof (induction s arbitrary: i)
  case (Cons a s)
  then have a: "i < length m" "m ! i = a" "drop (Suc i) m = s @ CR # r" using drop_Cons_nth [of i m a "s @ CR # r"] by simp_all
  have "goes pp m datalen i c (i + 1) c" by (rule goes_skip) (use Cons.prems a in \<open>auto simp: is_double_end_def ldc_def\<close>)
  moreover have "mid_line m (Suc i)" using Cons.prems a drop_length_less [OF a(3)] by (auto simp: mid_line_def)
  ultimately show ?case using Cons.IH [of "Suc i"] Cons.prems a goes_trans by auto
qed (simp add: goes_refl)


lemma goes_line:
  assumes f: "names_ok (pp_names pp)" "pp_root pp \<noteq> None" and l: "line_ok l" and d: "drop i m = l @ CR # LF # r" and start: "i = 0 \<or> m ! (i - 1) = LF"
    and len: "i + length l < datalen" "datalen \<le> length m" and rel: "pp_rel m c st"
  shows "\<exists>c'. goes pp m datalen i c (i + length l) c' \<and> pp_rel m c' (line_step (pp_names pp) l st) \<and> pc_doubleEndLine c' = pc_doubleEndLine c \<and> mid_line m (i + length l)"
proof -
  obtain v n where st: "st = (v, n)" by (cases st)
  obtain a s where la: "l = a # s" using l by (cases l) (auto simp: line_ok_def)
  have nc: "CR \<notin> set l" "LF \<notin> set l" using l by (auto simp: line_ok_def)
  have a: "i < length m" "m ! i = a" "drop (Suc i) m = s @ CR # LF # r" using d drop_Cons_nth [of i m a "s @ CR # LF # r"] unfolding la by simp_all
  have nd: "is_double_end m datalen i = Ret False" using a nc la by (auto simp: is_double_end_def ldc_def)
  have ls: "is_line_start m i = Ret True" using start a by (auto simp: is_line_start_def ldc_def)
  have mid: "mid_line m (Suc i)" using a nc la drop_length_less [OF a(3)] by (auto simp: mid_line_def)
  have walk: "goes pp m datalen (Suc i) c (i + length l) c" "mid_line m (i + length l)"
    using goes_walk [OF a(3) _ _ _ mid, of datalen pp c] nc len la by simp_all
  have nf: "name_find (pp_names pp) (drop i m) (datalen - i - 1) = name_find (pp_names pp) l (length l)"
    by (rule name_find_line [OF f(1) d]) (use len in simp)
  have lim: "i + (datalen - i - 1) < length m" using len by simp
  obtain r' where g: "getNode pp m i (datalen - i - 1) = Ret r'" "case r' of None \<Rightarrow> name_find (pp_names pp) l (length l) = None
     | Some (nd, k) \<Rightarrow> \<exists>x. node_info nd = Some x \<and> name_find (pp_names pp) l (length l) = Some (x, k)"
    using getNode_find [OF f(2) lim] unfolding nf by blast
  show ?thesis
  proof (cases r')
    case None
    have "goes pp m datalen i c (Suc i) c" by (rule goes_step) (use len nd ls g(1) None in simp_all)
    then show ?thesis using goes_trans walk rel None g(2) st by (intro exI [of _ c]) (auto simp: line_step_def)
  next
    case (Some q)
    then obtain node k t j cl where q: "r' = Some (node, k)" "node_info node = Some (t, j, cl)" "name_find (pp_names pp) l (length l) = Some ((t, j, cl), k)"
      using g(2) by (cases q) auto
    have k: "k \<le> length l" "t \<noteq> typeNode_checkSip" "j < 100" using q(3) f(1) unfolding name_find_iff names_ok_def by metis+
    have iss: "isSetNode node c = Ret (v (t, j) \<noteq> [])" by (rule isSetNode_rel(1)) (use rel st q k in simp_all)
    show ?thesis
    proof (cases "v (t, j) = []")
      case False
      have "goes pp m datalen i c (Suc i) c" by (rule goes_step) (use len nd ls g(1) q(1) iss False in simp_all)
      then show ?thesis using goes_trans walk rel q(3) st False by (intro exI [of _ c]) (auto simp: line_step_def)
    next
      case True
      have dk: "drop (i + k) m = drop k l @ CR # LF # r" using arg_cong [OF d, of "drop k"] k(1) by (simp add: add.commute)
      have ok: "\<forall>c \<in> set (drop k l). c \<noteq> CR \<and> c \<noteq> LF \<and> (c_isspace c \<longrightarrow> c = CHR '' '')" using l by (auto simp: line_ok_def dest: in_set_dropD)
      obtain c' where c': "parse_value m datalen node (i + k) c = Ret (i + length l, c')"
          "pp_rel m c' (v((t, j) := sip_trim (drop k l)), if cl \<and> sip_trim (drop k l) \<noteq> [] then c_atoi (sip_trim (drop k l)) else n)" "pc_doubleEndLine c' = pc_doubleEndLine c"
        using parse_value_line [OF dk ok _ rel [unfolded st] q(2) k(2,3), of datalen] len k(1) by auto
      have "goes pp m datalen i c (i + length l) c'" by (rule goes_step) (use len nd ls g(1) q(1) iss True c'(1) la in simp_all)
      then show ?thesis using c' walk(2) q(3) st True by (intro exI [of _ c']) (simp add: line_step_def)
    qed
  qed
qed

section \<open>All lines\<close>

lemma goes_lf:
  assumes "0 < i" "i < datalen" "i < length m" "m ! (i - 1) = CR" "m ! i = LF" "pc_doubleEndLine c = None \<Longrightarrow> is_double_end m datalen i = Ret False"
  shows "goes pp m datalen i c (i + 1) c"
proof (rule goes_step)
  show "parse_loop (Suc k) pp m datalen rslt i c = parse_loop k pp m datalen rslt (i + 1) c" for k rslt
    using assms by (auto simp: is_line_start_def ldc_def)
qed (use assms in simp_all)

lemma goes_eol:
  assumes d: "drop i m = CR # LF # r" and mid: "mid_line m i" and len: "i + 1 < datalen" "datalen \<le> length m"
    and nx: "pc_doubleEndLine c = None \<Longrightarrow> r \<noteq> [] \<and> hd r \<noteq> CR \<and> hd r \<noteq> LF"
  shows "goes pp m datalen i c (i + 2) c"
proof -
  have i: "i < length m" "m ! i = CR" "drop (Suc i) m = LF # r" using drop_Cons_nth [OF d] by simp_all
  have i1: "Suc i < length m" "m ! Suc i = LF" "drop (Suc (Suc i)) m = r" using drop_Cons_nth [OF i(3)] by simp_all
  have r: "i + 2 < length m" "m ! (i + 2) \<noteq> CR" "m ! (i + 2) \<noteq> LF" if "pc_doubleEndLine c = None"
    using nx [OF that] i1(3) by (metis add_2_eq_Suc' drop_eq_Nil2 hd_drop_conv_nth not_le_imp_less)+
  have "goes pp m datalen i c (i + 1) c" by (rule goes_skip) (use mid len i i1 r in \<open>auto simp: is_double_end_def ldc_def\<close>)
  moreover have "goes pp m datalen (i + 1) c (i + 1 + 1) c" by (rule goes_lf) (use len i i1 r in \<open>auto simp: is_double_end_def ldc_def\<close>)
  ultimately show ?thesis using goes_trans by (metis add.assoc one_add_one)
qed

definition lines :: "string list \<Rightarrow> string" where
  "lines ls = concat (map (\<lambda>l. l @ crlf) ls)"

lemma lines_simps [simp]: "lines [] = []" "lines (l # ls) = l @ CR # LF # lines ls" "lines (ls @ ls') = lines ls @ lines ls'"
  by (simp_all add: lines_def crlf_def)

lemma goes_lines:
  assumes f: "names_ok (pp_names pp)" "pp_root pp \<noteq> None"
  shows "list_all line_ok ls \<Longrightarrow> drop i m = lines ls @ r \<Longrightarrow> i = 0 \<or> m ! (i - 1) = LF \<Longrightarrow> i + length (lines ls) \<le> datalen \<Longrightarrow> datalen \<le> length m \<Longrightarrow>
    (pc_doubleEndLine c = None \<Longrightarrow> r \<noteq> [] \<and> hd r \<noteq> CR \<and> hd r \<noteq> LF) \<Longrightarrow> pp_rel m c st \<Longrightarrow>
    \<exists>c'. goes pp m datalen i c (i + length (lines ls)) c' \<and> pp_rel m c' (fold (line_step (pp_names pp)) ls st) \<and> pc_doubleEndLine c' = pc_doubleEndLine c \<and>
      (i + length (lines ls) = 0 \<or> m ! (i + length (lines ls) - 1) = LF)"
proof (induction ls arbitrary: i c st)
  case Nil
  then show ?case using goes_refl by (intro exI [of _ c]) auto
next
  case (Cons l ls)
  have d: "drop i m = l @ CR # LF # (lines ls @ r)" using Cons.prems(2) by simp
  obtain c1 where c1: "goes pp m datalen i c (i + length l) c1" "pp_rel m c1 (line_step (pp_names pp) l st)" "pc_doubleEndLine c1 = pc_doubleEndLine c" "mid_line m (i + length l)"
    using goes_line [OF f _ d Cons.prems(3) _ Cons.prems(5,7)] Cons.prems(1,4) by auto
  have d1: "drop (i + length l) m = CR # LF # (lines ls @ r)" using arg_cong [OF d, of "drop (length l)"] by (simp add: add.commute)
  have d2: "drop (i + length l + 2) m = lines ls @ r" "m ! (i + length l + 2 - 1) = LF"
    using drop_Cons_nth [OF d1] drop_Cons_nth [of "Suc (i + length l)" m LF "lines ls @ r"] by simp_all
  have nx: "lines ls @ r \<noteq> [] \<and> hd (lines ls @ r) \<noteq> CR \<and> hd (lines ls @ r) \<noteq> LF" if "pc_doubleEndLine c1 = None"
    using Cons.prems(1,6) that c1(3) by (cases ls) (auto simp: line_ok_def hd_append)
  have e: "goes pp m datalen (i + length l) c1 (i + length l + 2) c1" by (rule goes_eol [OF d1 c1(4) _ Cons.prems(5) nx]) (use Cons.prems(4) in simp_all)
  obtain c2 where "goes pp m datalen (i + length l + 2) c1 (i + length l + 2 + length (lines ls)) c2" "pp_rel m c2 (fold (line_step (pp_names pp)) ls (line_step (pp_names pp) l st))"
      "pc_doubleEndLine c2 = pc_doubleEndLine c1" "i + length l + 2 + length (lines ls) = 0 \<or> m ! (i + length l + 2 + length (lines ls) - 1) = LF"
    using Cons.IH [of "i + length l + 2" c1 "line_step (pp_names pp) l st"] Cons.prems d2 c1 by (auto simp: add.assoc)
  then show ?case using goes_trans [OF goes_trans [OF c1(1) e]] c1(3) by (intro exI [of _ c2]) (simp add: add.assoc)
qed


lemma parse_loop_end: "0 < k \<Longrightarrow> datalen \<le> i \<Longrightarrow> parse_loop k pp m datalen rslt i c = Ret (rslt, c)"
  by (cases k) simp_all

lemma drops_at: "drop i m = CR # LF # CR # LF # r \<Longrightarrow> m ! i = CR \<and> m ! (i + 1) = LF \<and> m ! (i + 2) = CR \<and> m ! (i + 3) = LF \<and> i + 3 < length m \<and> drop (i + 4) m = r"
  using drop_Cons_nth [of i m CR "LF # CR # LF # r"] drop_Cons_nth [of "Suc i" m LF "CR # LF # r"] drop_Cons_nth [of "Suc (Suc i)" m CR "LF # r"]
    drop_Cons_nth [of "Suc (Suc (Suc i))" m LF r] by (simp add: numeral_eq_Suc)

lemma double_end_at: "drop i m = CR # LF # CR # LF # r \<Longrightarrow> is_double_end m (length m) i = Ret True"
  using drops_at [of i m r] by (simp add: is_double_end_def ldc_def)

text \<open>The blank line: the end of the header. Without a content length the pass stops; with one, it goes on over as much of the message.\<close>

lemma parse_blank:
  assumes d: "drop i m = CR # LF # CR # LF # r" and len: "i + 4 + length b \<le> length m" "length m < k + i" and c: "pc_doubleEndLine c = None"
    and n: "pc_contentLength c = int (length b) \<or> (pc_contentLength c > int (length b) \<and> i + 4 + length b = length m)"
  shows "\<exists>k' c'. i + 4 + length b < k' + (i + 4) \<and> pp_rel m c st = pp_rel m c' st \<and> pc_doubleEndLine c' = Some i \<and>
    parse_loop k pp m (length m) (length m) i c = parse_loop k' pp m (i + 4 + length b) (i + 4 + length b) (i + 4) c'"
proof -
  define c' where "c' = c\<lparr>pc_doubleEndLine := Some i, pc_doubleEndLineSize := 4\<rparr>"
  define dl where "dl = i + 4 + length b"
  have m: "m ! i = CR" "m ! (i + 1) = LF" "m ! (i + 2) = CR" "m ! (i + 3) = LF" "i + 3 < length m" using drops_at [OF d] by simp_all
  obtain k1 where k: "k = Suc k1" using len m(5) by (cases k) simp_all
  note dbl = double_end_at [OF d]
  have cl: "- 1 < pc_contentLength c" "0 \<le> pc_contentLength c" using n by auto
  have s1: "parse_loop k pp m (length m) (length m) i c = parse_loop k1 pp m dl dl (i + 3) c'"
  proof (cases "i + 4 + nat (pc_contentLength c) < length m")
    case True
    then have "i + 4 + nat (pc_contentLength c) = dl" using n by (auto simp: dl_def)
    then show ?thesis using True m dbl c cl unfolding k by (simp add: ldc_def c'_def Let_def)
  next
    case False
    then have "dl = length m" using n len by (auto simp: dl_def)
    then show ?thesis using False m dbl c cl unfolding k by (simp add: ldc_def c'_def Let_def)
  qed
  have "goes pp m dl (i + 3) c' (i + 3 + 1) c'" by (rule goes_lf) (use m in \<open>simp_all add: c'_def dl_def\<close>)
  moreover have "dl < k1 + (i + 3)" using len k by (simp add: dl_def)
  ultimately obtain k2 where "dl < k2 + (i + 3 + 1)" "parse_loop k1 pp m dl dl (i + 3) c' = parse_loop k2 pp m dl dl (i + 3 + 1) c'"
    unfolding goes_def by blast
  then show ?thesis using s1 by (intro exI [of _ k2] exI [of _ c']) (simp add: dl_def c'_def pp_rel_def items_of_def add.assoc add.commute [of 4] split: eTypeNode.splits)
qed

lemma pp_rel_clean: "pp_rel m (contents_clean\<lparr>pc_sip := s\<rparr>) (\<lambda>_. [], - 1)"
  by (auto simp: pp_rel_def contents_clean_def std_max_def custom_max_def items_of_def item_in_def item_text_def item0_def split: eTypeNode.splits)

text \<open>The state of the loop at the blank line.\<close>

lemma parse_header:
  assumes f: "names_ok (pp_names pp)" "pp_root pp \<noteq> None" and h: "list_all line_ok hs" "hs \<noteq> []" and m: "m = lines hs @ CR # LF # r"
    and c: "pp_rel m c st" "pc_doubleEndLine c = None"
  shows "\<exists>c' i. goes pp m (length m) 0 c i c' \<and> pp_rel m c' (fold (line_step (pp_names pp)) hs st) \<and> pc_doubleEndLine c' = None \<and>
    drop i m = CR # LF # CR # LF # r \<and> i + 2 = length (lines hs)"
proof -
  obtain gs l where hs: "hs = gs @ [l]" using h(2) by (metis rev_exhaust)
  have l: "line_ok l" using h(1) hs by simp
  have d0: "drop 0 m = lines gs @ (l @ CR # LF # CR # LF # r)" using m hs by simp
  obtain c1 where c1: "goes pp m (length m) 0 c (length (lines gs)) c1" "pp_rel m c1 (fold (line_step (pp_names pp)) gs st)" "pc_doubleEndLine c1 = None"
      "length (lines gs) = 0 \<or> m ! (length (lines gs) - 1) = LF"
    using goes_lines [OF f, of gs 0 m "l @ CR # LF # CR # LF # r" "length m" c st] h(1) hs m c l by (auto simp: line_ok_def hd_append)
  have d1: "drop (length (lines gs)) m = l @ CR # LF # (CR # LF # r)" using m hs by simp
  obtain c2 where c2: "goes pp m (length m) (length (lines gs)) c1 (length (lines gs) + length l) c2" "pp_rel m c2 (line_step (pp_names pp) l (fold (line_step (pp_names pp)) gs st))"
      "pc_doubleEndLine c2 = None"
    using goes_line [OF f l d1 _ _ _ c1(2), of "length m"] c1 m hs by auto
  have d2: "drop (length (lines gs) + length l) m = CR # LF # CR # LF # r" using m hs by simp
  show ?thesis by (rule exI [of _ c2], rule exI [of _ "length (lines gs) + length l"]) (use goes_trans [OF c1(1) c2(1)] c2 d2 hs in simp)
qed


text \<open>What the values of a message mean for a reader of the contents.\<close>

definition sip_value :: "(string \<Rightarrow> node_info option) \<Rightarrow> sip_values \<Rightarrow> string \<Rightarrow> string" where
  "sip_value f st name = (case name_find f name (length name) of None \<Rightarrow> [] | Some ((t, i, _), _) \<Rightarrow> fst st (t, i))"

lemma name_find_nul: "name_find f (s @ [nul]) (length s) = name_find f s (length s)"
proof -
  have "name_find f (s @ [nul]) (length s) = Some (x, k) \<longleftrightarrow> name_find f s (length s) = Some (x, k)" for x k
    unfolding name_find_iff by auto
  then show ?thesis by (metis option.exhaust prod.exhaust)
qed

lemma getContentString_rel:
  assumes f: "names_ok (pp_names pp)" "pp_root pp \<noteq> None" and rel: "pp_rel m c st" and p: "pc_parseDataPtr c = Some m" and nm: "LF \<notin> set name"
  shows "getContentString pp name c = Ret (sip_value (pp_names pp) st name)"
proof -
  have dw: "dropWhile (\<lambda>ch. ch = LF) name = name" using nm by (cases name) auto
  have "0 + length name < length (name @ [nul])" by simp
  from getNode_find [OF f(2) this] obtain r where g: "getNode pp (name @ [nul]) 0 (length name) = Ret r" "case r of None \<Rightarrow> name_find (pp_names pp) name (length name) = None
     | Some (nd, k) \<Rightarrow> \<exists>x. node_info nd = Some x \<and> name_find (pp_names pp) name (length name) = Some (x, k)"
    unfolding drop_0 name_find_nul by blast
  show ?thesis
  proof (cases r)
    case None
    then show ?thesis using g by (simp add: getContentString_def getContentData_def dw sip_value_def)
  next
    case (Some q)
    then obtain nd k t j cl where q: "r = Some (nd, k)" "node_info nd = Some (t, j, cl)" "name_find (pp_names pp) name (length name) = Some ((t, j, cl), k)"
      using g(2) by (cases q) auto
    have k: "t \<noteq> typeNode_checkSip" "j < 100" using q(3) f(1) unfolding name_find_iff names_ok_def by metis+
    have it: "item_in m (items_of c t ! j)" "item_text m (items_of c t ! j) = fst st (t, j)" "length (items_of c t) = 100"
      using rel k by (auto simp: pp_rel_def items_of_def split: eTypeNode.splits)
    have "getPointerToItem nd c = Ret (items_of c t ! j)"
      using q(2) k it(3) by (cases t) (auto simp: getPointerToItem_def item_at_def items_of_def node_info_def split: if_splits)
    then show ?thesis using g(1) q it p by (auto simp: getContentString_def getContentData_def dw sip_value_def item_in_def item_text_def)
  qed
qed

text \<open>What a message of header lines and body lines says: where it ends and its values. Without a content length it ends behind the blank line.\<close>

definition message_fields :: "(string \<Rightarrow> node_info option) \<Rightarrow> string list \<Rightarrow> string list \<Rightarrow> nat \<times> sip_values" where
  "message_fields f hs bs =
     (let h = fold (line_step f) hs (\<lambda>_. [], - 1) in
      if snd h < 0 then (length (lines hs) + 2, h) else (length (lines hs) + 2 + length (lines bs), fold (line_step f) bs h))"

text \<open>The content length, when there is one, is the length of the body, or more than there is.\<close>

definition body_ok :: "(string \<Rightarrow> node_info option) \<Rightarrow> string list \<Rightarrow> string list \<Rightarrow> string \<Rightarrow> bool" where
  "body_ok f hs bs rest =
     (let n = snd (fold (line_step f) hs (\<lambda>_. [], - 1)) in n < 0 \<or> n = int (length (lines bs)) \<or> (n > int (length (lines bs)) \<and> rest = []))"

lemma isSipContent_returns: "m \<noteq> [] \<Longrightarrow> \<exists>s. isSipContent pp m (length m - 1) = Ret s"
  using getContent_find [of 0 "length m - 1" m 0] by (cases "pp_rootCheckSip pp") (auto simp: isSipContent_def, metis omap.simps(1))

lemma pp_rel_sets [simp]:
  "pp_rel m (c\<lparr>pc_parseDataPtr := p\<rparr>) st = pp_rel m c st" "pp_rel m (c\<lparr>pc_doubleEndLine := e, pc_doubleEndLineSize := z\<rparr>) st = pp_rel m c st"
  by (simp_all add: pp_rel_def items_of_def split: eTypeNode.splits)

lemma parse_to_blank:
  assumes f: "names_ok (pp_names pp)" "pp_root pp \<noteq> None" and h: "list_all line_ok hs" "hs \<noteq> []" and m: "m = lines hs @ CR # LF # r"
  shows "\<exists>c i k. pp_rel m c (fold (line_step (pp_names pp)) hs (\<lambda>_. [], - 1)) \<and> pc_doubleEndLine c = None \<and> drop i m = CR # LF # CR # LF # r \<and>
    i + 2 = length (lines hs) \<and> length m < k + i \<and>
    contents_parse pp m (length m) True c0 = omap (\<lambda>(n, c). (n, c\<lparr>pc_parseDataPtr := Some m\<rparr>)) (parse_loop k pp m (length m) (length m) i c)"
proof -
  obtain s where s: "isSipContent pp m (length m - 1) = Ret s" using isSipContent_returns [of m pp] m by auto
  let ?c = "contents_clean\<lparr>pc_sip := s\<rparr>"
  obtain c i where c: "goes pp m (length m) 0 ?c i c" "pp_rel m c (fold (line_step (pp_names pp)) hs (\<lambda>_. [], - 1))" "pc_doubleEndLine c = None"
      "drop i m = CR # LF # CR # LF # r" "i + 2 = length (lines hs)"
    using parse_header [OF f h m pp_rel_clean, of s] by (auto simp: contents_clean_def)
  obtain k where k: "length m < k + i" "parse_loop (Suc (length m)) pp m (length m) (length m) 0 ?c = parse_loop k pp m (length m) (length m) i c"
    using c(1) unfolding goes_def by (metis add_0_right lessI)
  have "contents_parse pp m (length m) True c0 = omap (\<lambda>(n, c). (n, c\<lparr>pc_parseDataPtr := Some m\<rparr>)) (parse_loop k pp m (length m) (length m) i c)"
    using s k(2) m by (simp add: contents_parse_def parseData_def)
  then show ?thesis using c k(1) by blast
qed

lemma blank_ends:
  assumes d: "drop i m = CR # LF # CR # LF # r" and k: "length m < k + i" and c: "pc_doubleEndLine c = None" "pc_contentLength c < 0"
  shows "parse_loop k pp m (length m) (length m) i c = Ret (i + 4, c\<lparr>pc_doubleEndLine := Some i, pc_doubleEndLineSize := 4\<rparr>)"
proof -
  have i: "m ! i = CR" "i < length m" using drops_at [OF d] by simp_all
  then obtain k1 where "k = Suc k1" using k by (cases k) auto
  then show ?thesis using i double_end_at [OF d] c by (simp add: ldc_def Let_def)
qed

lemma body_read:
  assumes f: "names_ok (pp_names pp)" "pp_root pp \<noteq> None" and b: "list_all line_ok bs" and d: "drop i m = CR # LF # CR # LF # lines bs @ rest"
    and k: "length m < k + i" and c: "pc_doubleEndLine c = None" "pp_rel m c st"
    and n: "snd st = int (length (lines bs)) \<or> (snd st > int (length (lines bs)) \<and> rest = [])"
  shows "\<exists>c'. parse_loop k pp m (length m) (length m) i c = Ret (i + 4 + length (lines bs), c') \<and> pp_rel m c' (fold (line_step (pp_names pp)) bs st)"
proof -
  let ?dl = "i + 4 + length (lines bs)"
  have d4: "drop (i + 4) m = lines bs @ rest" "m ! (i + 3) = LF" "i + 3 < length m" using drops_at [OF d] by simp_all
  have dl: "length m = ?dl + length rest" using arg_cong [OF d4(1), of length] d4(3) by simp
  obtain k1 c1 where k1: "?dl < k1 + (i + 4)" "pp_rel m c1 st" "pc_doubleEndLine c1 = Some i"
      "parse_loop k pp m (length m) (length m) i c = parse_loop k1 pp m ?dl ?dl (i + 4) c1"
    using parse_blank [OF d _ k c(1), of "lines bs" st pp] n dl c(2) by (auto simp: pp_rel_def)
  obtain c2 where c2: "goes pp m ?dl (i + 4) c1 ?dl c2" "pp_rel m c2 (fold (line_step (pp_names pp)) bs st)"
    using goes_lines [OF f b d4(1) _ _ _ _ k1(2), of ?dl] d4(2) dl k1(3) by (auto simp: add.commute)
  then obtain k2 where "?dl < k2 + ?dl" "parse_loop k1 pp m ?dl ?dl (i + 4) c1 = parse_loop k2 pp m ?dl ?dl ?dl c2" using k1(1) unfolding goes_def by blast
  then show ?thesis using k1(4) c2(2) parse_loop_end [of k2 ?dl ?dl] by simp
qed

text \<open>C5: on a message of header lines, a blank line, lines of a body and whatever follows, the parser finds exactly what the lines say: a known name
  that begins a line has the text behind its first occurrence that is not empty, without the blanks around it. Without a content length the message ends behind
  the blank line; with a content length of the size of the body the message is header and body, the lines of the body count too, and what follows is left for
  the next message. The pass ends and no access is outside of the message, whatever the names are.\<close>

theorem sip_headers_found:
  assumes f: "names_ok (pp_names pp)" "pp_root pp \<noteq> None" and h: "list_all line_ok hs" "hs \<noteq> []" "list_all line_ok bs"
    and b: "body_ok (pp_names pp) hs bs rest" and m: "m = lines hs @ crlf @ lines bs @ rest"
  shows "\<exists>c. contents_parse pp m (length m) True c0 = Ret (fst (message_fields (pp_names pp) hs bs), c) \<and>
      (\<forall>name. LF \<notin> set name \<longrightarrow> getContentString pp name c = Ret (sip_value (pp_names pp) (snd (message_fields (pp_names pp) hs bs)) name))"
proof -
  let ?h = "fold (line_step (pp_names pp)) hs (\<lambda>_. [], - 1)"
  have m': "m = lines hs @ CR # LF # (lines bs @ rest)" using m by (simp add: crlf_def)
  obtain c i k where c: "pp_rel m c ?h" "pc_doubleEndLine c = None" "drop i m = CR # LF # CR # LF # lines bs @ rest" "i + 2 = length (lines hs)" "length m < k + i"
      "contents_parse pp m (length m) True c0 = omap (\<lambda>(n, c). (n, c\<lparr>pc_parseDataPtr := Some m\<rparr>)) (parse_loop k pp m (length m) (length m) i c)"
    using parse_to_blank [OF f h(1,2) m'] by blast
  obtain c' where "parse_loop k pp m (length m) (length m) i c = Ret (fst (message_fields (pp_names pp) hs bs), c')" "pp_rel m c' (snd (message_fields (pp_names pp) hs bs))"
  proof (cases "snd ?h < 0")
    case True
    then have "pc_contentLength c < 0" using c(1) by (simp add: pp_rel_def)
    then show ?thesis using True that blank_ends [OF c(3,5,2), of pp] c(1,4) by (simp add: message_fields_def Let_def)
  next
    case False
    then show ?thesis using that body_read [OF f h(3) c(3,5,2,1)] b c(4) by (auto simp: message_fields_def body_ok_def Let_def)
  qed
  then show ?thesis using c(6) getContentString_rel [OF f] by auto
qed


lemma demo_pp_names: "pp_names demo_pp = [''from:'' \<mapsto> (typeNode_std, 0, False), ''l:'' \<mapsto> (typeNode_std, 1, True), ''x-a:'' \<mapsto> (typeNode_custom, 0, False)]"
proof -
  have "name_key ''From:'' = ''from:''" "name_key ''l:'' = ''l:''" "name_key ''X-A:'' = ''x-a:''" by code_simp+
  then show ?thesis
    by (simp add: demo_pp_def addCustomNode_def pp_addNode_def pp_new_def upper_names first_free_def std_max_def custom_max_def Let_def pp_names_def names_of_add_fun root_or_new_def fun_eq_iff
        del: node_addNode.simps)
qed

theorem sip_headers_found_witness:
  "\<exists>c. contents_parse demo_pp (lines [''From:  alice '', ''L: 5'', ''From: bob''] @ crlf @ lines [''x=1''] @ ''INV'') 42 True contents_clean = Ret (39, c) \<and>
     getContentString demo_pp ''from:'' c = Ret ''alice'' \<and> getContentString demo_pp ''l:'' c = Ret ''5'' \<and> getContentString demo_pp ''x-a:'' c = Ret []"
proof -
  let ?h = "[''From:  alice '', ''L: 5'', ''From: bob'']" and ?b = "[''x=1'']"
  have n: "names_ok (pp_names demo_pp)" unfolding demo_pp_names names_ok_def by auto
  have "list_all line_ok ?h" "list_all line_ok ?b" "body_ok (pp_names demo_pp) ?h ?b ''INV''" by code_simp+
  moreover have "fst (message_fields (pp_names demo_pp) ?h ?b) = 39" "length (lines ?h @ crlf @ lines ?b @ ''INV'') = 42" by code_simp+
  moreover have "sip_value (pp_names demo_pp) (snd (message_fields (pp_names demo_pp) ?h ?b)) ''from:'' = ''alice''"
    "sip_value (pp_names demo_pp) (snd (message_fields (pp_names demo_pp) ?h ?b)) ''l:'' = ''5''"
    "sip_value (pp_names demo_pp) (snd (message_fields (pp_names demo_pp) ?h ?b)) ''x-a:'' = []" by code_simp+
  ultimately show ?thesis
    using sip_headers_found [OF n demo_pp_fields(4), of ?h ?b "''INV''" _ contents_clean] by fastforce
qed

end
