(* ===== verification/VM_SipCheck.thy ===== *)
theory VM_SipCheck
  imports VM_CString VM_WebSocket
begin

text \<open>
  The recognition of SIP in a packet and in the data of a TCP connection: the method or status code at its begin
  (\<open>process_packet__parse_sip_method\<close>, \<open>check_sip20\<close> of \<open>sniff.cpp\<close>) and the search for complete messages one behind the other
  (\<open>TcpReassemblySip::checkSip\<close>, \<open>_checkSip\<close>, \<open>_checkSipExt\<close> of \<open>sniff_proc_class.h\<close>). Data is a buffer, a position and a length; SIP may
  be inside of WebSocket frames.
\<close>

section \<open>Bytes as text\<close>

definition b2s :: "u8 list \<Rightarrow> string" where
  "b2s bs = map (\<lambda>b. char_of (unat b)) bs"

definition bytes :: "string \<Rightarrow> u8 list" where
  "bytes s = map (\<lambda>c. word_of_nat (of_char c)) s"

text \<open>\<open>memcmp\<close> of the bytes at a position with a literal.\<close>

definition memcmp_eq :: "mem \<Rightarrow> nat \<Rightarrow> string \<Rightarrow> bool outcome" where
  "memcmp_eq m p s = omap (\<lambda>bs. b2s bs = s) (ldn (length s) m p)"

definition byte_is :: "mem \<Rightarrow> nat \<Rightarrow> char \<Rightarrow> bool outcome" where
  "byte_is m p c = omap (\<lambda>b. char_of (unat b) = c) (ld8 m p)"

text \<open>\<open>memmem\<close>: the position of the first occurrence.\<close>

fun memmem :: "'a list \<Rightarrow> 'a list \<Rightarrow> nat option" where
  "memmem needle [] = (if needle = [] then Some 0 else None)"
| "memmem needle (x # xs) = (if take (length needle) (x # xs) = needle then Some 0 else map_option Suc (memmem needle xs))"

definition strcasestr :: "string \<Rightarrow> string \<Rightarrow> nat option" where
  "strcasestr haystack needle = memmem (map c_tolower needle) (map c_tolower (takeWhile (\<lambda>c. c \<noteq> nul) haystack))"

text \<open>\<open>strncasestr\<close> of \<open>tools_global.cpp\<close> looks at \<open>len\<close> bytes for as much of the needle as fits into them; \<open>strncasecmp\<close> ends at a NUL, which no needle
  here contains.\<close>

fun strncasestr_loop :: "nat \<Rightarrow> mem \<Rightarrow> nat \<Rightarrow> string \<Rightarrow> nat option outcome" where
  "strncasestr_loop 0 m p needle = Ret None"
| "strncasestr_loop (Suc k) m p needle =
     obind (ldn (length needle) m p) (\<lambda>bs.
       if map c_tolower (b2s bs) = map c_tolower needle then Ret (Some p) else strncasestr_loop k m (p + 1) needle)"

definition strncasestr :: "mem \<Rightarrow> nat \<Rightarrow> string \<Rightarrow> nat \<Rightarrow> nat option outcome" where
  "strncasestr m p needle len =
     (let n = min len (length needle) in if n = 0 then Ret (Some p) else strncasestr_loop (len - n + 1) m p (take n needle))"

section \<open>Methods and status codes\<close>

definition INVITE :: nat where "INVITE = 1"
definition BYE :: nat where "BYE = 2"
definition CANCEL :: nat where "CANCEL = 3"
definition REGISTER :: nat where "REGISTER = 4"
definition MESSAGE :: nat where "MESSAGE = 5"
definition INFO :: nat where "INFO = 6"
definition SUBSCRIBE :: nat where "SUBSCRIBE = 7"
definition OPTIONS :: nat where "OPTIONS = 8"
definition NOTIFY :: nat where "NOTIFY = 9"
definition ACK :: nat where "ACK = 10"
definition PRACK :: nat where "PRACK = 11"
definition PUBLISH :: nat where "PUBLISH = 12"
definition REFER :: nat where "REFER = 13"
definition UPDATE :: nat where "UPDATE = 14"
definition RES10X :: nat where "RES10X = 100"
definition RES18X :: nat where "RES18X = 180"
definition RES182 :: nat where "RES182 = 182"
definition RES2XX :: nat where "RES2XX = 200"
definition RES300 :: nat where "RES300 = 300"
definition RES3XX :: nat where "RES3XX = 399"
definition RES401 :: nat where "RES401 = 401"
definition RES403 :: nat where "RES403 = 403"
definition RES404 :: nat where "RES404 = 404"
definition RES4XX :: nat where "RES4XX = 400"
definition RES5XX :: nat where "RES5XX = 500"
definition RES6XX :: nat where "RES6XX = 600"

lemmas sip_codes = INVITE_def BYE_def CANCEL_def REGISTER_def MESSAGE_def INFO_def SUBSCRIBE_def OPTIONS_def NOTIFY_def ACK_def PRACK_def
  PUBLISH_def REFER_def UPDATE_def RES10X_def RES18X_def RES182_def RES2XX_def RES300_def RES3XX_def RES401_def RES403_def RES404_def RES4XX_def
  RES5XX_def RES6XX_def

text \<open>The cases for a first character: name, a character tested before the comparison, code. The names end with a blank, which is compared when the
  caller asks for it.\<close>

definition method_cases :: "char \<Rightarrow> (string \<times> (nat \<times> char) option \<times> nat) list" where
  "method_cases c =
     (if c = CHR ''I'' then [(''INVITE '', Some (2, CHR ''V''), INVITE), (''INFO '', Some (2, CHR ''F''), INFO)]
      else if c = CHR ''M'' then [(''MESSAGE '', None, MESSAGE)]
      else if c = CHR ''R'' then [(''REGISTER '', Some (2, CHR ''G''), REGISTER), (''REFER '', Some (2, CHR ''F''), REFER)]
      else if c = CHR ''B'' then [(''BYE '', None, BYE)]
      else if c = CHR ''C'' then [(''CANCEL '', None, CANCEL)]
      else if c = CHR ''O'' then [(''OPTIONS '', None, OPTIONS)]
      else if c = CHR ''S'' then [(''SUBSCRIBE '', Some (1, CHR ''U''), SUBSCRIBE)]
      else if c = CHR ''N'' then [(''NOTIFY '', None, NOTIFY)]
      else if c = CHR ''A'' then [(''ACK '', None, ACK)]
      else if c = CHR ''P'' then [(''PRACK '', Some (1, CHR ''R''), PRACK), (''PUBLISH '', Some (1, CHR ''U''), PUBLISH)]
      else if c = CHR ''U'' then [(''UPDATE '', None, UPDATE)]
      else [])"

fun first_method :: "mem \<Rightarrow> nat \<Rightarrow> nat \<Rightarrow> nat \<Rightarrow> (string \<times> (nat \<times> char) option \<times> nat) list \<Rightarrow> nat outcome" where
  "first_method m p datalen es [] = Ret 0"
| "first_method m p datalen es ((name, test, code) # cs) =
     (let n = length name - 1 + es in
      if datalen \<ge> n then
        obind (case test of None \<Rightarrow> Ret True | Some (i, c) \<Rightarrow> byte_is m (p + i) c) (\<lambda>t.
        obind (if t then memcmp_eq m p (take n name) else Ret False) (\<lambda>eq.
          if eq then Ret code else first_method m p datalen es cs))
      else first_method m p datalen es cs)"

text \<open>The code of a response, from its ninth character on.\<close>

definition status_code :: "mem \<Rightarrow> nat \<Rightarrow> nat \<Rightarrow> nat outcome" where
  "status_code m p datalen =
     obind (ld8 m (p + 8)) (\<lambda>b8. let c = (char_of (unat b8) :: char) in
       if c = CHR ''1'' then
         (if datalen \<ge> 10 then
            obind (ld8 m (p + 9)) (\<lambda>b9.
              if char_of (unat b9) = CHR ''8'' then
                (if datalen \<ge> 11 then omap (\<lambda>t. if t then RES182 else RES18X) (byte_is m (p + 10) (CHR ''2'')) else Ret RES18X)
              else Ret RES10X)
          else Ret RES10X)
       else if c = CHR ''2'' then
         (if datalen \<ge> 23 then
            obind (ld8 m (p + 12)) (\<lambda>b12.
              if char_of (unat b12) = CHR ''A'' \<or> char_of (unat b12) = CHR ''a''
              then omap (\<lambda>t. if t then RES4XX else RES2XX) (memcmp_eq m p ''SIP/2.0 200 Auth failed'') else Ret RES2XX)
          else Ret RES2XX)
       else if c = CHR ''3'' then
         (if datalen \<ge> 11 then
            obind (byte_is m (p + 9) (CHR ''0'')) (\<lambda>t. if t then omap (\<lambda>t. if t then RES300 else RES3XX) (byte_is m (p + 10) (CHR ''0'')) else Ret RES3XX)
          else Ret RES3XX)
       else if c = CHR ''4'' then
         (if datalen \<ge> 11 then
            obind (byte_is m (p + 9) (CHR ''0'')) (\<lambda>t.
              if t then
                omap (\<lambda>b. if char_of (unat b) = CHR ''1'' then RES401 else if char_of (unat b) = CHR ''3'' then RES403
                          else if char_of (unat b) = CHR ''4'' then RES404 else RES4XX) (ld8 m (p + 10))
              else Ret RES4XX)
          else Ret RES4XX)
       else if c = CHR ''5'' then Ret RES5XX
       else if c = CHR ''6'' then Ret RES6XX
       else Ret 0)"

text \<open>The code and whether the data is a response.\<close>

definition parse_sip_method :: "mem \<Rightarrow> nat \<Rightarrow> nat \<Rightarrow> bool \<Rightarrow> (nat \<times> bool) outcome" where
  "parse_sip_method m p datalen check_end_space =
     (if datalen < 1 then Ret (0, False)
      else
        obind (ld8 m p) (\<lambda>b0. let c = (char_of (unat b0) :: char) in
        obind (first_method m p datalen (if check_end_space then 1 else 0) (method_cases c)) (\<lambda>code.
          if code \<noteq> 0 then Ret (code, False)
          else if c = CHR ''S'' \<and> datalen \<ge> 9 then
            obind (byte_is m (p + 1) (CHR ''I'')) (\<lambda>t.
            obind (if t then memcmp_eq m p ''SIP/2.0 '' else Ret False) (\<lambda>r.
              if r then omap (\<lambda>code. (code, True)) (status_code m p datalen) else Ret (0, False)))
          else Ret (0, False))))"

definition check_sip_method :: "mem \<Rightarrow> nat \<Rightarrow> nat \<Rightarrow> bool outcome" where
  "check_sip_method m p len = omap (\<lambda>(code, _). code > 0) (parse_sip_method m p len True)"

section \<open>Is this SIP?\<close>

text \<open>Empty lines in front of a message on TCP.\<close>

function skip_newlines :: "mem \<Rightarrow> nat \<Rightarrow> nat \<Rightarrow> (nat \<times> nat) outcome" where
  "skip_newlines m p len =
     (if len \<ge> 13 then
        obind (ld8 m p) (\<lambda>a.
          if a = 13 then obind (ld8 m (p + 1)) (\<lambda>b. if b = 10 then skip_newlines m (p + 2) (len - 2) else Ret (p, len))
          else if a = 10 then skip_newlines m (p + 1) (len - 1)
          else Ret (p, len))
      else Ret (p, len))"
  by pat_completeness auto
termination by (relation "measure (\<lambda>(m, p, len). len)") auto

declare skip_newlines.simps [simp del]

text \<open>The parser's contents know the answer for the position they were parsed from (\<open>parsed\<close>). A decoded frame is other memory, an unmasked one is read in
  place; frames in frames use the fuel.\<close>

fun check_sip20 :: "nat \<Rightarrow> mem \<Rightarrow> nat \<Rightarrow> nat \<Rightarrow> (nat \<times> bool) option \<Rightarrow> bool \<Rightarrow> bool outcome" where
  "check_sip20 0 m p len parsed isTcp = OutOfFuel"
| "check_sip20 (Suc k) m p len parsed isTcp =
     obind (check_websocket (drop p m) (word_of_nat len) (if isTcp then chdst_na else chdst_ge_limit)) (\<lambda>w.
       if w then
         (let ws = \<lparr>ws_header = drop p m, ws_size = word_of_nat len\<rparr> in
          obind (getHeaderLength ws) (\<lambda>hl.
            if len > unat hl then
              obind (decodeData (word_of_nat len) ws) (\<lambda>d.
              obind (getDataLength ws) (\<lambda>dl.
                let n = (if isTcp then min (len - unat hl) (unat dl) else unat dl) in
                case d of DNull \<Rightarrow> Ret False
                | DPointer q \<Rightarrow> check_sip20 k m (p + q) n parsed isTcp
                | DAlloc bs \<Rightarrow> check_sip20 k bs 0 n None isTcp))
            else Ret False))
       else
         obind (if isTcp then skip_newlines m p len else Ret (p, len)) (\<lambda>(p, len).
           if len < 11 then Ret False
           else case parsed of
                  Some (q, sip) \<Rightarrow> if q = p then Ret sip else check_sip_method m p len
                | None \<Rightarrow> check_sip_method m p len))"


section \<open>Complete messages\<close>

text \<open>The end of the header: its position behind \<open>p\<close> and whether the lines end with LF only. It is searched in 5000 bytes.\<close>

definition find_header_end :: "mem \<Rightarrow> nat \<Rightarrow> nat \<Rightarrow> (nat \<times> bool) option outcome" where
  "find_header_end m p data_len =
     omap (\<lambda>bs. case memmem [13, 10, 13, 10] bs of Some i \<Rightarrow> Some (i, False)
                | None \<Rightarrow> map_option (\<lambda>i. (i, True)) (memmem [10, 10] bs))
       (ldn (min data_len 5000) m p)"

text \<open>The content length in a header, which is terminated by a NUL in place of its end.\<close>

definition contentLength_at :: "string \<Rightarrow> nat \<Rightarrow> u32" where
  "contentLength_at h q = word_of_int (c_atol (dropWhile (\<lambda>c. c = CHR '' '') (drop q (takeWhile (\<lambda>c. c \<noteq> nul) h))))"

definition header_contentLength :: "string \<Rightarrow> u32 option" where
  "header_contentLength h =
     (case strcasestr h (CHR 0x0A # ''Content-Length:'') of
        Some i \<Rightarrow> Some (contentLength_at h (i + 15 + 1))
      | None \<Rightarrow> (case strcasestr h (CHR 0x0A # ''l:'') of Some i \<Rightarrow> Some (contentLength_at h (i + 2 + 1)) | None \<Rightarrow> None))"

definition chssm_strict :: u8 where "chssm_strict = 1"
definition chssm_ext :: u8 where "chssm_ext = 2"
definition chssm_content_length :: u8 where "chssm_content_length = 4"

definition checkSipExt :: "mem \<Rightarrow> nat \<Rightarrow> nat \<Rightarrow> bool outcome" where
  "checkSipExt m p data_len =
     obind (strncasestr m p (CHR 0x0A # ''Call-ID:'') data_len) (\<lambda>r. case r of None \<Rightarrow> Ret True
       | Some q \<Rightarrow> omap (\<lambda>r2. r2 = None) (strncasestr m (q + 1) (CHR 0x0A # ''Call-ID:'') (data_len - (q - p) - 1)))"

function reduk :: "mem \<Rightarrow> nat \<Rightarrow> nat \<Rightarrow> nat \<Rightarrow> nat outcome" where
  "reduk m p sipDataLen n =
     (if n > sipDataLen then
        obind (ld8 m (p + n - 1)) (\<lambda>b. if b = 10 \<or> b = 13 then reduk m p sipDataLen (n - 1) else Ret n)
      else Ret n)"
  by pat_completeness auto
termination by (relation "measure (\<lambda>(m, p, s, n). n)") auto

declare reduk.simps [simp del]

record checkSip_rslt =
  cs_count :: nat
  cs_offsets :: "(u32 \<times> u32) list"
  cs_used :: nat

text \<open>The length of a message is computed in 64 bits and kept as a 32-bit \<open>int\<close>.\<close>

definition sip_data_len :: "nat \<Rightarrow> bool \<Rightarrow> u32 \<Rightarrow> int" where
  "sip_data_len e lf contentLength = sint (word_of_nat (e + (if lf then 2 else 4) + unat contentLength) :: u32)"

text \<open>The loop over the messages. \<open>orig\<close> is the length of all data.\<close>

definition sip_end :: "u8 \<Rightarrow> nat \<Rightarrow> nat \<Rightarrow> (u32 \<times> u32) list \<Rightarrow> checkSip_rslt" where
  "sip_end mode offset count offs =
     (if mode AND chssm_strict \<noteq> 0 then \<lparr>cs_count = 0, cs_offsets = offs, cs_used = 0\<rparr>
      else \<lparr>cs_count = count, cs_offsets = offs, cs_used = offset\<rparr>)"

fun checkSip_loop :: "nat \<Rightarrow> u8 \<Rightarrow> mem \<Rightarrow> nat \<Rightarrow> nat \<Rightarrow> nat \<Rightarrow> nat \<Rightarrow> nat \<Rightarrow> (u32 \<times> u32) list \<Rightarrow> checkSip_rslt outcome" where
  "checkSip_loop 0 mode m orig p data_len offset count offs = OutOfFuel"
| "checkSip_loop (Suc k) mode m orig p data_len offset count offs =
     (if data_len > 0 then
        obind (find_header_end m p data_len) (\<lambda>e. case e of
            None \<Rightarrow> Ret (sip_end mode offset count offs)
          | Some (e, lf) \<Rightarrow>
              obind (ldn e m p) (\<lambda>h.
                let cl = header_contentLength (b2s h);
                    n = sip_data_len e lf (case cl of None \<Rightarrow> 0 | Some x \<Rightarrow> x);
                    item = (word_of_nat offset, word_of_int n);
                    done = \<lparr>cs_count = count + 1, cs_offsets = offs @ [item], cs_used = orig\<rparr> in
                if mode AND chssm_content_length \<noteq> 0 \<and> cl = None then Ret \<lparr>cs_count = 0, cs_offsets = offs, cs_used = 0\<rparr>
                else if n = int data_len then
                  obind (if mode AND chssm_ext \<noteq> 0 then checkSipExt m p data_len else Ret True) (\<lambda>ok.
                    if ok then Ret done else Ret \<lparr>cs_count = 0, cs_offsets = offs, cs_used = 0\<rparr>)
                else if 0 < n \<and> n < int data_len then
                  (let n = nat n in
                   obind (if mode AND chssm_strict \<noteq> 0 then
                            obind (reduk m p n data_len) (\<lambda>r.
                              if r = n then (if mode AND chssm_ext \<noteq> 0 then checkSipExt m p n else Ret True) else Ret False)
                          else Ret False) (\<lambda>whole.
                     if whole then Ret done
                     else
                       obind (check_sip20 (Suc (data_len - n)) m (p + n) (data_len - n) None True) (\<lambda>sip.
                         if sip then checkSip_loop k mode m orig (p + n) (data_len - n) (offset + n) (count + 1) (offs @ [item])
                         else Ret (sip_end mode (offset + n) (count + 1) (offs @ [item])))))
                else Ret (sip_end mode offset count offs)))
      else Ret (sip_end mode offset count offs))"

definition checkSip_base :: "u8 \<Rightarrow> mem \<Rightarrow> nat \<Rightarrow> nat \<Rightarrow> checkSip_rslt outcome" where
  "checkSip_base mode m p data_len = checkSip_loop (Suc data_len) mode m data_len p data_len 0 0 []"

text \<open>A WebSocket frame around the data: the offsets are those in the frame, except that the first message begins at the frame.\<close>

definition ws_offsets :: "u32 \<Rightarrow> (u32 \<times> u32) list \<Rightarrow> (u32 \<times> u32) list" where
  "ws_offsets hl offs = (case offs of [] \<Rightarrow> [] | (a, n) # r \<Rightarrow> (a, n + hl) # map (\<lambda>(a, n). (a + hl, n + hl)) r)"

definition rslt0 :: checkSip_rslt where
  "rslt0 = \<lparr>cs_count = 0, cs_offsets = [], cs_used = 0\<rparr>"

fun checkSip :: "nat \<Rightarrow> u8 \<Rightarrow> mem \<Rightarrow> nat \<Rightarrow> nat \<Rightarrow> checkSip_rslt outcome" where
  "checkSip 0 mode m p data_len = OutOfFuel"
| "checkSip (Suc k) mode m p data_len =
     obind (check_websocket (drop p m) (word_of_nat data_len) chdst_ge_limit) (\<lambda>w.
       if w then
         (let ws = \<lparr>ws_header = drop p m, ws_size = word_of_nat data_len\<rparr> in
          obind (decodeData 0 ws) (\<lambda>d.
          obind (getDataLength ws) (\<lambda>dl.
          obind (getHeaderLength ws) (\<lambda>hl.
          omap (\<lambda>r. \<lparr>cs_count = cs_count r, cs_offsets = (if cs_count r > 0 then ws_offsets hl (cs_offsets r) else cs_offsets r), cs_used = 0\<rparr>)
            (case d of DNull \<Rightarrow> Ret rslt0
             | DPointer q \<Rightarrow> checkSip k mode m (p + q) (unat dl)
             | DAlloc bs \<Rightarrow> checkSip k mode bs 0 (unat dl))))))
       else if data_len < 10 then Ret rslt0
       else
         obind (check_sip20 (Suc data_len) m p data_len None True) (\<lambda>sip.
           if sip then checkSip_base mode m p data_len else Ret rslt0))"


section \<open>The table of methods and status codes\<close>

text \<open>The reference: the code of the first text of a table that the data begins with.\<close>

definition begins :: "string \<Rightarrow> string \<Rightarrow> bool" where
  "begins pre s = (take (length pre) s = pre)"

definition method_table :: "(string \<times> nat) list" where
  "method_table = [(''INVITE '', INVITE), (''INFO '', INFO), (''MESSAGE '', MESSAGE), (''REGISTER '', REGISTER), (''REFER '', REFER), (''BYE '', BYE),
     (''CANCEL '', CANCEL), (''OPTIONS '', OPTIONS), (''SUBSCRIBE '', SUBSCRIBE), (''NOTIFY '', NOTIFY), (''ACK '', ACK), (''PRACK '', PRACK),
     (''PUBLISH '', PUBLISH), (''UPDATE '', UPDATE)]"

definition status_table :: "(string \<times> nat) list" where
  "status_table = [(''SIP/2.0 182'', RES182), (''SIP/2.0 18'', RES18X), (''SIP/2.0 1'', RES10X), (''SIP/2.0 200 Auth failed'', RES4XX), (''SIP/2.0 2'', RES2XX),
     (''SIP/2.0 300'', RES300), (''SIP/2.0 3'', RES3XX), (''SIP/2.0 401'', RES401), (''SIP/2.0 403'', RES403), (''SIP/2.0 404'', RES404), (''SIP/2.0 4'', RES4XX),
     (''SIP/2.0 5'', RES5XX), (''SIP/2.0 6'', RES6XX)]"

definition sip_table :: "(string \<times> nat) list" where
  "sip_table = method_table @ status_table"

fun table_code :: "(string \<times> nat) list \<Rightarrow> string \<Rightarrow> nat" where
  "table_code [] s = 0"
| "table_code ((pre, code) # t) s = (if begins pre s then code else table_code t s)"

lemma begins_Cons [simp]: "begins (a # p) (b # s) = (a = b \<and> begins p s)" "begins [] s" "\<not> begins (a # p) []"
  by (auto simp: begins_def)

lemma begins_append [simp]: "begins (a @ b) (a @ s) = begins b s"
  by (simp add: begins_def)

lemma begins_nth: "begins pre s \<Longrightarrow> i < length pre \<Longrightarrow> s ! i = pre ! i"
  unfolding begins_def by (metis nth_take)

lemma b2s_simps [simp]: "b2s [] = []" "b2s (a # s) = char_of (unat a) # b2s s" "b2s (s @ r) = b2s s @ b2s r" "length (b2s s) = length s" "(b2s s = []) = (s = [])"
  by (simp_all add: b2s_def)

lemma b2s_take: "b2s (take n s) = take n (b2s s)" and b2s_drop: "b2s (drop n s) = drop n (b2s s)"
  by (simp_all add: b2s_def take_map drop_map)

lemma b2s_nth: "i < length s \<Longrightarrow> b2s s ! i = char_of (unat (s ! i))"
  by (simp add: b2s_def)

text \<open>Checked accesses to the data, as text.\<close>

lemma memcmp_eq_begins:
  assumes "p + len \<le> length m" "length lit \<le> len"
  shows "memcmp_eq m p lit = Ret (begins lit (b2s (take len (drop p m))))"
  using assms by (simp add: memcmp_eq_def ldn_def begins_def min_def b2s_take [symmetric])

lemma byte_is_nth:
  assumes "p + len \<le> length m" "i < len"
  shows "byte_is m (p + i) c = Ret (b2s (take len (drop p m)) ! i = c)"
  using assms by (simp add: byte_is_def ld8_def b2s_nth del: b2s_simps)

lemma ld8_nth:
  assumes "p + len \<le> length m" "i < len"
  shows "ld8 m (p + i) = Ret (m ! (p + i)) \<and> char_of (unat (m ! (p + i))) = b2s (take len (drop p m)) ! i"
  using assms by (simp add: ld8_def b2s_nth del: b2s_simps)

lemma begins_length: "begins pre s \<Longrightarrow> length pre \<le> length s"
  unfolding begins_def by (drule arg_cong [where f = length]) simp

lemma begins_split: "begins pre s \<Longrightarrow> s = pre @ drop (length pre) s"
  unfolding begins_def by (metis append_take_drop_id)

fun case_ok :: "string \<times> (nat \<times> char) option \<times> nat \<Rightarrow> bool" where
  "case_ok (name, test, code) = (name \<noteq> [] \<and> (case test of None \<Rightarrow> True | Some (i, c) \<Rightarrow> i < length name - 1 \<and> name ! i = c))"

lemma first_method_table:
  assumes "p + len \<le> length m" "list_all case_ok cs"
  shows "first_method m p len 1 cs = Ret (table_code (map (\<lambda>(name, _, code). (name, code)) cs) (b2s (take len (drop p m))))"
  using assms(2)
proof (induction cs)
  case (Cons x cs)
  obtain name test code where x: "x = (name, test, code)" by (cases x)
  let ?s = "b2s (take len (drop p m))"
  have ok: "case_ok (name, test, code)" using Cons.prems x by simp
  then have n: "name \<noteq> []" by simp
  then have n': "Suc (length name - Suc 0) = length name" by (cases name) simp_all
  have ls: "length ?s = len" using assms(1) by simp
  have IH: "first_method m p len 1 cs = Ret (table_code (map (\<lambda>(name, _, code). (name, code)) cs) ?s)" using Cons by simp
  show ?case
  proof (cases "len \<ge> length name")
    case False
    then have "\<not> begins name ?s" using ls begins_length [of name ?s] by linarith
    then show ?thesis using False IH n n' by (simp add: x Let_def)
  next
    case True
    note mc = memcmp_eq_begins [OF assms(1) True]
    show ?thesis
    proof (cases test)
      case None
      then show ?thesis using True mc IH n n' by (simp add: x Let_def)
    next
      case (Some ic)
      obtain i c where ic: "ic = (i, c)" by (cases ic)
      have i: "i < length name - 1" "name ! i = c" using ok Some ic by simp_all
      then have bi: "byte_is m (p + i) c = Ret (?s ! i = c)" using byte_is_nth [OF assms(1)] True by simp
      have "begins name ?s \<Longrightarrow> ?s ! i = c" using begins_nth [of name ?s i] i by simp
      then show ?thesis using True mc IH n n' Some ic bi by (auto simp: x Let_def)
    qed
  qed
qed simp


lemma begins_more:
  assumes "begins pre s" "length pre < length s"
  shows "\<exists>c r. s = pre @ c # r"
proof -
  have "drop (length pre) s \<noteq> []" using assms(2) by simp
  then show ?thesis using begins_split [OF assms(1)] by (metis list.exhaust)
qed

lemma status_code_table:
  assumes "p + len \<le> length m" "len \<ge> 9" "begins ''SIP/2.0 '' (b2s (take len (drop p m)))"
  shows "status_code m p len = Ret (table_code sip_table (b2s (take len (drop p m))))"
proof -
  let ?s = "b2s (take len (drop p m))"
  have ls: "length ?s = len" using assms(1) by simp
  have "length ''SIP/2.0 '' = 8" by simp
  then have more: "length ''SIP/2.0 '' < length ?s" unfolding ls using assms(2) by linarith
  obtain c r where s: "?s = ''SIP/2.0 '' @ c # r" using begins_more [OF assms(3) more] by blast
  have len: "len = 9 + length r" using ls s by simp
  have g: "ld8 m (p + i) = Ret (m ! (p + i))" "char_of (unat (m ! (p + i))) = (''SIP/2.0 '' @ c # r) ! i" "byte_is m (p + i) x = Ret ((''SIP/2.0 '' @ c # r) ! i = x)" if "i < len" for i x
    using ld8_nth [OF assms(1) that] byte_is_nth [OF assms(1) that] unfolding s by simp_all
  have mc: "memcmp_eq m p lit = Ret (begins lit (''SIP/2.0 '' @ c # r))" if "length lit \<le> len" for lit
    using memcmp_eq_begins [OF assms(1) that] unfolding s by simp
  consider "r = []" | a where "r = [a]" | a b t where "r = a # b # t" by (metis list.exhaust)
  then show ?thesis
  proof cases
    case 1
    then show ?thesis using g [of 8] len unfolding s by (simp add: status_code_def sip_table_def method_table_def status_table_def Let_def)
  next
    case 2
    then show ?thesis using g [of 8] g [of 9] len unfolding s by (simp add: status_code_def sip_table_def method_table_def status_table_def Let_def)
  next
    case 3
    have af: "begins '' Auth failed'' t \<Longrightarrow> 12 \<le> length t \<and> t ! Suc 0 = CHR ''A''"
      using begins_length [of "'' Auth failed''" t] begins_nth [of "'' Auth failed''" t 1] by simp
    show ?thesis
    proof (cases "c = CHR ''2''")
      case True
      then show ?thesis using 3 af g [of 8] g [of 9] g [of 10] g [of 12] mc [of "''SIP/2.0 200 Auth failed''"] len unfolding s
        by (auto simp: status_code_def sip_table_def method_table_def status_table_def Let_def)
    next
      case False
      then show ?thesis using 3 g [of 8] g [of 9] g [of 10] len unfolding s
        by (simp add: status_code_def sip_table_def method_table_def status_table_def Let_def)
    qed
  qed
qed


lemma method_cases_ok: "list_all case_ok (method_cases c)"
  by (simp add: method_cases_def)

definition is_response :: "string \<Rightarrow> bool" where
  "is_response s = (begins ''SIP/2.0 '' s \<and> length s \<ge> 9)"

lemma table_code_append: "list_all (\<lambda>(p, c). c \<noteq> 0) a \<Longrightarrow> table_code (a @ b) s = (if table_code a s \<noteq> 0 then table_code a s else table_code b s)"
proof (induction a)
  case (Cons x a)
  then show ?case by (cases x) simp
qed simp

lemma sip_table_split: "table_code sip_table s = (if table_code method_table s \<noteq> 0 then table_code method_table s else table_code status_table s)"
proof -
  have "list_all (\<lambda>(p, c). c \<noteq> 0) method_table" by (simp add: method_table_def sip_codes)
  then show ?thesis unfolding sip_table_def by (rule table_code_append)
qed

text \<open>Only the methods with the same first character count.\<close>

lemma table_code_filter:
  "list_all (\<lambda>(p, n). p \<noteq> []) t \<Longrightarrow> table_code (filter (\<lambda>(p, n). hd p = c) t) (c # r) = table_code t (c # r)"
proof (induction t)
  case (Cons x t)
  obtain a p n where "x = (a # p, n)" using Cons.prems by (cases x, cases "fst x") auto
  then show ?case using Cons by simp
qed simp

lemma method_cases_filter: "map (\<lambda>(name, _, code). (name, code)) (method_cases c) = filter (\<lambda>(p, n). hd p = c) method_table"
  unfolding method_cases_def method_table_def by simp auto

lemma method_cases_table: "table_code (map (\<lambda>(name, _, code). (name, code)) (method_cases c)) (c # r) = table_code method_table (c # r)"
  unfolding method_cases_filter by (rule table_code_filter) (simp add: method_table_def)

lemma table_code_member: "table_code t s \<noteq> 0 \<Longrightarrow> \<exists>p c. (p, c) \<in> set t \<and> begins p s"
proof (induction t)
  case (Cons x t)
  then show ?case by (cases x, cases "begins (fst x) s") auto
qed simp

lemma begins_trans: "begins a b \<Longrightarrow> begins b s \<Longrightarrow> begins a s"
  using begins_split [of a b] begins_split [of b s] by (metis append.assoc begins_append begins_Cons(2) append.right_neutral)

lemma responses_table: "table_code status_table s \<noteq> 0 \<Longrightarrow> is_response s"
proof -
  assume "table_code status_table s \<noteq> 0"
  then obtain p c where p: "(p, c) \<in> set status_table" "begins p s" using table_code_member by blast
  have "\<forall>(p, c) \<in> set status_table. begins ''SIP/2.0 '' p \<and> 9 \<le> length p" by (simp add: status_table_def)
  then have "begins ''SIP/2.0 '' p" "9 \<le> length p" using p(1) by blast+
  then show ?thesis unfolding is_response_def using begins_trans p(2) begins_length [OF p(2)] by (meson order.trans)
qed

lemma methods_no_response: "table_code method_table s \<noteq> 0 \<Longrightarrow> \<not> is_response s"
proof
  assume "table_code method_table s \<noteq> 0" and r: "is_response s"
  then obtain p c where p: "(p, c) \<in> set method_table" "begins p s" using table_code_member by blast
  have "\<forall>(p, c) \<in> set method_table. 2 \<le> length p \<and> (p ! 0 \<noteq> CHR ''S'' \<or> p ! 1 \<noteq> CHR ''I'')" by (simp add: method_table_def)
  then have "2 \<le> length p" "p ! 0 \<noteq> CHR ''S'' \<or> p ! 1 \<noteq> CHR ''I''" using p(1) by blast+
  moreover have "s ! 0 = CHR ''S''" "s ! 1 = CHR ''I''" using r begins_nth [of "''SIP/2.0 ''" s 0] begins_nth [of "''SIP/2.0 ''" s 1] by (simp_all add: is_response_def)
  moreover have "s ! 0 = p ! 0" "s ! 1 = p ! 1" using begins_nth [OF p(2), of 0] begins_nth [OF p(2), of 1] \<open>2 \<le> length p\<close> by linarith+
  ultimately show False by simp
qed

lemma parse_sip_method_table:
  assumes "p + len \<le> length m"
  shows "parse_sip_method m p len True = Ret (table_code sip_table (b2s (take len (drop p m))), is_response (b2s (take len (drop p m))))"
proof (cases "len < 1")
  case True
  then show ?thesis by (simp add: parse_sip_method_def sip_table_def method_table_def status_table_def is_response_def)
next
  case False
  let ?s = "b2s (take len (drop p m))"
  have ls: "length ?s = len" using assms by simp
  obtain c r where s: "?s = c # r" using False ls by (cases ?s) auto
  have l0: "ld8 m p = Ret (m ! p)" "char_of (unat (m ! p)) = c" using ld8_nth [OF assms, of 0] False s by simp_all
  note fm = first_method_table [OF assms method_cases_ok, of c, unfolded s method_cases_table]
  have resp: "memcmp_eq m p ''SIP/2.0 '' = Ret (begins ''SIP/2.0 '' ?s)" "byte_is m (p + 1) (CHR ''I'') = Ret (?s ! 1 = CHR ''I'')" if "len \<ge> 9"
    using memcmp_eq_begins [OF assms, of "''SIP/2.0 ''"] byte_is_nth [OF assms, of 1] that by simp_all
  have r: "is_response ?s \<longleftrightarrow> c = CHR ''S'' \<and> len \<ge> 9 \<and> ?s ! 1 = CHR ''I'' \<and> begins ''SIP/2.0 '' ?s"
    using begins_nth [of "''SIP/2.0 ''" ?s 1] begins_nth [of "''SIP/2.0 ''" ?s 0] ls s unfolding is_response_def by auto
  show ?thesis
  proof (cases "table_code method_table ?s = 0")
    case False
    then have "table_code sip_table ?s = table_code method_table ?s" unfolding sip_table_split [of ?s] by simp
    moreover have "\<not> is_response ?s" using methods_no_response [OF False] .
    ultimately show ?thesis using False l0 fm s \<open>\<not> len < 1\<close> by (simp add: parse_sip_method_def Let_def)
  next
    case True
    then have t: "table_code sip_table ?s = table_code status_table ?s" unfolding sip_table_split [of ?s] by simp
    show ?thesis
    proof (cases "is_response ?s")
      case True': True
      then have "status_code m p len = Ret (table_code sip_table ?s)" using status_code_table [OF assms] r by blast
      moreover have "c = CHR ''S''" "len \<ge> 9" "?s ! 1 = CHR ''I''" "begins ''SIP/2.0 '' ?s" using True' r by blast+
      ultimately show ?thesis using True True' resp l0 fm unfolding s by (simp add: parse_sip_method_def Let_def)
    next
      case False': False
      then have "table_code sip_table ?s = 0" unfolding t using responses_table [of ?s] by blast
      moreover have "c = CHR ''S'' \<Longrightarrow> len \<ge> 9 \<Longrightarrow> ?s ! 1 = CHR ''I'' \<Longrightarrow> \<not> begins ''SIP/2.0 '' ?s" using False' r by blast
      ultimately show ?thesis using True False' resp l0 fm \<open>\<not> len < 1\<close> unfolding s by (simp add: parse_sip_method_def Let_def)
    qed
  qed
qed


section \<open>Searching\<close>

lemma memmem_self:
  assumes "x \<notin> set xs" "memmem (x # xs) a = None"
  shows "memmem (x # xs) (a @ x # xs @ r) = Some (length a)"
  using assms(2)
proof (induction a)
  case (Cons y a)
  have "take (Suc (length xs)) (y # a @ x # xs @ r) \<noteq> x # xs"
  proof
    assume t: "take (Suc (length xs)) (y # a @ x # xs @ r) = x # xs"
    then have yx: "y = x" "take (length xs) (a @ x # xs @ r) = xs" by simp_all
    show False
    proof (cases "length xs \<le> length a")
      case True
      then show False using yx Cons.prems by simp
    next
      case False
      then have "xs ! length a = x" using arg_cong [OF yx(2), of "\<lambda>l. l ! length a"] by (simp add: nth_append)
      then show False using False assms(1) by (metis linorder_not_le nth_mem)
    qed
  qed
  then show ?case using Cons by (auto split: if_splits)
qed simp

lemma memmem_first:
  assumes "needle \<noteq> []" "memmem needle (a @ butlast needle) = None"
  shows "memmem needle (a @ needle @ r) = Some (length a)"
  using assms(2)
proof (induction a)
  case Nil
  obtain y ys where "needle = y # ys" using assms(1) by (cases needle) auto
  then show ?case by simp
next
  case (Cons y a)
  have l: "length (butlast needle) = length needle - 1" "needle = butlast needle @ [last needle]" using assms(1) by simp_all
  have "take (length needle) (y # a @ needle @ r) = take (length needle) (y # a @ butlast needle)"
    using l by (cases needle) (simp_all add: take_append)
  then show ?case using Cons by (auto split: if_splits)
qed

section \<open>SIP on a TCP connection\<close>

lemma table_code_pos: "list_all (\<lambda>(p, c). c \<noteq> 0) t \<Longrightarrow> table_code t s > 0 \<longleftrightarrow> (\<exists>x \<in> set t. begins (fst x) s)"
  by (induction t) auto

lemma sip_table_pos: "table_code sip_table s > 0 \<longleftrightarrow> (\<exists>x \<in> set sip_table. begins (fst x) s)"
  by (rule table_code_pos) (simp add: sip_table_def method_table_def status_table_def sip_codes)

lemma sip_table_prefix: "table_code sip_table a > 0 \<Longrightarrow> table_code sip_table (a @ r) > 0"
  unfolding sip_table_pos by (metis append.assoc begins_append begins_Cons(2) begins_split append.right_neutral)

text \<open>A message begins with a letter: it is no WebSocket frame and no empty line.\<close>

lemma sip_first_char:
  assumes "table_code sip_table (c # r) \<noteq> 0"
  shows "c \<in> set ''IMRBCOSNAPU''"
proof -
  obtain p n where p: "(p, n) \<in> set sip_table" "begins p (c # r)" using table_code_member [OF assms] by blast
  have "\<forall>(p, n) \<in> set sip_table. p \<noteq> [] \<and> hd p \<in> set ''IMRBCOSNAPU''" by (simp add: sip_table_def method_table_def status_table_def)
  then have "p \<noteq> []" "hd p \<in> set ''IMRBCOSNAPU''" using p(1) by blast+
  then show ?thesis using p(2) by (cases p) auto
qed

lemma unat_consts: "unat (0x81 :: u8) = 129" "unat (13 :: u8) = 13" "unat (10 :: u8) = 10"
  by simp_all

lemma sip_first_byte:
  assumes "table_code sip_table (b2s (b # r)) \<noteq> 0"
  shows "b \<noteq> 0x81 \<and> b \<noteq> 13 \<and> b \<noteq> 10"
proof -
  have "(char_of (unat b) :: char) \<in> set ''IMRBCOSNAPU''" using sip_first_char assms by simp
  moreover have "(char_of (129 :: nat) :: char) \<notin> set ''IMRBCOSNAPU''" "(char_of (13 :: nat) :: char) \<notin> set ''IMRBCOSNAPU''"
    "(char_of (10 :: nat) :: char) \<notin> set ''IMRBCOSNAPU''" by code_simp+
  ultimately show ?thesis using unat_consts by metis
qed

lemma check_sip20_message:
  assumes "p + len \<le> length m" "table_code sip_table (b2s (take len (drop p m))) > 0" "len \<ge> 11" "len < 2 ^ 32"
  shows "check_sip20 (Suc k) m p len None True = Ret True"
proof -
  have d: "drop p m = m ! p # drop (Suc p) m" using assms(1,3) by (simp add: Cons_nth_drop_Suc)
  have "take len (drop p m) = m ! p # take (len - 1) (drop (Suc p) m)" using assms(3) unfolding d by (cases len) simp_all
  then have b: "m ! p \<noteq> 0x81" "m ! p \<noteq> 13" "m ! p \<noteq> 10" using sip_first_byte [of "m ! p" "take (len - 1) (drop (Suc p) m)"] assms(2) by auto
  have w: "check_websocket (drop p m) (word_of_nat len) chdst_na = Ret False" using b d by (simp add: check_websocket_def check_websocket_first_byte_def ld8_def)
  have s: "skip_newlines m p len = Ret (p, len)" using b assms(1,3) by (subst skip_newlines.simps) (simp add: ld8_def)
  have "check_sip_method m p len = Ret True" using assms(2) by (simp add: check_sip_method_def parse_sip_method_table [OF assms(1)])
  then show ?thesis using w s assms(3) by simp
qed


section \<open>Messages\<close>

text \<open>The header of a message: the lines up to the content length, the length, and the lines behind it.\<close>

record sip_message =
  sm_first :: "u8 list"
  sm_rest :: "u8 list"
  sm_body :: "u8 list"

definition sm_header :: "sip_message \<Rightarrow> u8 list" where
  "sm_header x = sm_first x @ [13, 10] @ bytes ''Content-Length: '' @ bytes (nat_dec (length (sm_body x))) @ sm_rest x"

definition sm_bytes :: "sip_message \<Rightarrow> u8 list" where
  "sm_bytes x = sm_header x @ [13, 10, 13, 10] @ sm_body x"

definition sm_ok :: "sip_message \<Rightarrow> bool" where
  "sm_ok x = (table_code sip_table (b2s (sm_first x)) > 0 \<and> 0 \<notin> set (sm_first x) \<and> 0 \<notin> set (sm_rest x) \<and>
     strcasestr (b2s (sm_first x) @ [CHR 0x0D]) (CHR 0x0A # ''Content-Length:'') = None \<and> (sm_rest x = [] \<or> hd (sm_rest x) = 13) \<and>
     memmem [13, 10, 13, 10] (sm_header x @ [13, 10, 13]) = None \<and> memmem [10, 10] (sm_header x @ [13, 10, 13]) = None \<and> length (sm_header x) \<le> 4996)"

lemma char_of_byte: "(char_of (unat (word_of_nat (of_char c) :: u8)) :: char) = c"
proof -
  have "unat (word_of_nat (of_char c) :: u8) = of_char c" using of_char_of [of "of_char c :: nat"] by (simp add: unat_of_nat)
  then show ?thesis by simp
qed

lemma b2s_bytes [simp]: "b2s (bytes s) = s"
  by (simp add: b2s_def bytes_def char_of_byte comp_def)

lemma length_bytes [simp]: "length (bytes s) = length s"
  by (simp add: bytes_def)

lemma line_chars [simp]: "(char_of (13 :: nat) :: char) = CHR 0x0D" "(char_of (10 :: nat) :: char) = CHR 0x0A" "(char_of (0 :: nat) :: char) = CHR 0x00"
  by code_simp+

lemma b2s_nul: "nul \<in> set (b2s s) \<longleftrightarrow> 0 \<in> set s"
proof -
  have k: "(char_of (unat b) :: char) = nul \<longleftrightarrow> b = 0" for b :: u8
  proof
    assume e: "(char_of (unat b) :: char) = nul"
    have "(of_char (char_of (unat b) :: char) :: nat) = of_char nul" by (simp only: e)
    moreover have "(of_char nul :: nat) = 0" by (simp add: nul_def)
    ultimately have "unat b mod 256 = 0" by (simp only: of_char_of)
    then show "b = 0" using unat_byte_less [of b] by (simp add: unat_eq_0)
  qed (simp add: nul_def)
  then have "nul = (char_of (unat b) :: char) \<longleftrightarrow> b = 0" for b :: u8 by metis
  then show ?thesis by (induction s) auto
qed


lemma nat_dec_text: "nat_dec n \<noteq> []" "nul \<notin> set (nat_dec n)" "\<not> c_isspace (hd (nat_dec n))" "hd (nat_dec n) \<noteq> CHR '' ''"
proof -
  have d: "\<forall>c \<in> set (nat_dec n). c_isdigit c" by (simp add: nat_dec_digits)
  show ne: "nat_dec n \<noteq> []" by (subst nat_dec.simps) simp
  show "nul \<notin> set (nat_dec n)" using d by (auto simp: c_isdigit_def nul_def)
  have "c_isdigit (hd (nat_dec n))" using d ne by simp
  then show "\<not> c_isspace (hd (nat_dec n))" "hd (nat_dec n) \<noteq> CHR '' ''" using c_isdigit_facts by (auto simp: c_isdigit_def)
qed

lemma c_atol_dec:
  assumes "n < 2 ^ 31" "r = [] \<or> hd r = CHR 0x0D"
  shows "c_atol (nat_dec n @ r) = int n"
proof (cases r)
  case Nil
  then show ?thesis using assms(1) by (simp add: c_atol_def c_strtol_nat_dec)
next
  case (Cons c q)
  then have "\<not> c_isdigit c" using assms(2) by (simp add: c_isdigit_def)
  then show ?thesis using Cons assms(1) c_strtol_stop [OF nat_dec_text(1,3), of c n q] by (simp add: c_atol_def c_strtol_nat_dec)
qed

lemma sm_contentLength:
  assumes "sm_ok x" "length (sm_body x) < 2 ^ 31"
  shows "header_contentLength (b2s (sm_header x)) = Some (word_of_nat (length (sm_body x)))"
proof -
  let ?n = "length (sm_body x)" and ?f = "b2s (sm_first x) @ [CHR 0x0D]" and ?r = "b2s (sm_rest x)"
  let ?needle = "CHR 0x0A # ''Content-Length:''"
  have h: "b2s (sm_header x) = ?f @ ?needle @ '' '' @ nat_dec ?n @ ?r" by (simp add: sm_header_def)
  have nn: "nul \<notin> set (b2s (sm_header x))" using assms(1) nat_dec_text(2) [of ?n] unfolding h by (auto simp: sm_ok_def b2s_nul) (auto simp: nul_def)
  then have tw: "takeWhile (\<lambda>c. c \<noteq> nul) (b2s (sm_header x)) = b2s (sm_header x)" by (auto simp: takeWhile_eq_all_conv)
  have "nul \<notin> set ?f" using nn unfolding h by simp
  then have "takeWhile (\<lambda>c. c \<noteq> nul) ?f = ?f" by (auto simp: takeWhile_eq_all_conv)
  then have "memmem (map c_tolower ?needle) (map c_tolower ?f) = None" using assms(1) unfolding sm_ok_def strcasestr_def by metis
  moreover have ml: "map c_tolower ?needle = CHR 0x0A # ''content-length:''" by code_simp
  ultimately have "memmem (CHR 0x0A # ''content-length:'') (map c_tolower ?f @ CHR 0x0A # ''content-length:'' @ map c_tolower ('' '' @ nat_dec ?n @ ?r)) = Some (length ?f)"
    using memmem_self [of "CHR 0x0A" "''content-length:''" "map c_tolower ?f"] by (simp only: length_map) simp
  then have "strcasestr (b2s (sm_header x)) ?needle = Some (length ?f)"
    unfolding strcasestr_def tw ml unfolding h map_append ml by simp
  moreover have "contentLength_at (b2s (sm_header x)) (length ?f + 15 + 1) = word_of_nat ?n"
  proof -
    have "drop (length ?f + 15 + 1) (b2s (sm_header x)) = '' '' @ nat_dec ?n @ ?r" unfolding h by simp
    then have "dropWhile (\<lambda>c. c = CHR '' '') (drop (length ?f + 15 + 1) (b2s (sm_header x))) = nat_dec ?n @ ?r"
      using nat_dec_text(1,4) [of ?n] by (cases "nat_dec ?n") simp_all
    moreover have "?r = [] \<or> hd ?r = CHR 0x0D" using assms(1) by (cases "sm_rest x") (auto simp: sm_ok_def)
    ultimately show ?thesis unfolding contentLength_at_def tw using c_atol_dec assms(2) by simp
  qed
  ultimately show ?thesis by (simp add: header_contentLength_def)
qed


lemma memmem_take: "needle \<noteq> [] \<Longrightarrow> memmem needle s = None \<Longrightarrow> memmem needle (take j s) = None"
proof (induction s arbitrary: j)
  case (Cons x s)
  show ?case
  proof (cases j)
    case (Suc i)
    have "take (length needle) (take j (x # s)) \<noteq> needle"
    proof
      assume t: "take (length needle) (take j (x # s)) = needle"
      have "length (take (length needle) (take j (x # s))) = length needle" by (simp only: t)
      then have "length needle \<le> j" by simp
      then have "take (length needle) (x # s) = needle" using t by (simp add: min_def)
      then show False using Cons.prems by simp
    qed
    then show ?thesis using Cons Suc by (auto split: if_splits)
  qed (use Cons.prems in simp)
qed simp

lemma take_min_take: "take (min d n) (take d xs) = take (min d n) xs"
  by (metis min.absorb1 min.cobounded1 take_take)

text \<open>The first message of the data.\<close>

lemma sm_at:
  assumes ok: "sm_ok x" and w: "take data_len (drop p m) = take data_len (sm_bytes x @ r)" and le: "p + data_len \<le> length m" "length (sm_header x) + 4 \<le> data_len"
  shows "find_header_end m p data_len = Ret (Some (length (sm_header x), False))" "ldn (length (sm_header x)) m p = Ret (sm_header x)"
proof -
  let ?h = "sm_header x" and ?sep = "[13, 10, 13, 10] :: u8 list"
  define k where "k = min data_len 5000 - (length ?h + 4)"
  have k: "min data_len 5000 = length ?h + 4 + k" using ok le(2) by (simp add: sm_ok_def k_def)
  have "take (min data_len 5000) (drop p m) = take (min data_len 5000) (take data_len (drop p m))" by (rule take_min_take [symmetric])
  also have "\<dots> = take (min data_len 5000) (sm_bytes x @ r)" unfolding w by (rule take_min_take)
  also have "\<dots> = ?h @ ?sep @ take k (sm_body x @ r)" unfolding k by (simp add: sm_bytes_def numeral_eq_Suc)
  finally have b: "take (min data_len 5000) (drop p m) = ?h @ ?sep @ take k (sm_body x @ r)" .
  have "memmem ?sep (?h @ ?sep @ take k (sm_body x @ r)) = Some (length ?h)" by (rule memmem_first) (use ok in \<open>simp_all add: sm_ok_def\<close>)
  then show "find_header_end m p data_len = Ret (Some (length ?h, False))" using le(1) b by (simp add: find_header_end_def ldn_def)
  have "take (length ?h) (drop p m) = take (length ?h) (take data_len (drop p m))" using le(2) by (simp add: min_def)
  also have "\<dots> = ?h" unfolding w using le(2) by (simp add: sm_bytes_def)
  finally show "ldn (length ?h) m p = Ret ?h" using le by (simp add: ldn_def)
qed

lemma sint_small: "k < 2 ^ 31 \<Longrightarrow> sint (word_of_nat k :: u32) = int k"
  by (simp add: signed_of_nat signed_take_bit_int_eq_self)

lemma sip_data_len_nat: "e + 4 + n < 2 ^ 31 \<Longrightarrow> sip_data_len e False (word_of_nat n) = int (e + 4 + n)"
proof -
  assume n: "e + 4 + n < 2 ^ 31"
  have "unat (word_of_nat n :: u32) = n" using n by (simp add: unat_of_nat)
  moreover have "sip_data_len e False (word_of_nat n) = sint (word_of_nat (e + 4 + unat (word_of_nat n :: u32)) :: u32)" by (simp only: sip_data_len_def if_False)
  ultimately show ?thesis using sint_small [OF n] by metis
qed

fun sm_offsets :: "nat \<Rightarrow> sip_message list \<Rightarrow> (u32 \<times> u32) list" where
  "sm_offsets offset [] = []"
| "sm_offsets offset (x # xs) = (word_of_nat offset, word_of_nat (length (sm_bytes x))) # sm_offsets (offset + length (sm_bytes x)) xs"

definition sm_stream :: "sip_message list \<Rightarrow> u8 list" where
  "sm_stream ms = concat (map sm_bytes ms)"

lemma sm_stream_simps [simp]: "sm_stream [] = []" "sm_stream (x # xs) = sm_bytes x @ sm_stream xs"
  by (simp_all add: sm_stream_def)


lemma sm_bytes_length: "length (sm_bytes x) = length (sm_header x) + 4 + length (sm_body x)" "length (sm_header x) \<ge> 19"
  using nat_dec_text(1) [of "length (sm_body x)"] by (auto simp: sm_bytes_def sm_header_def Suc_le_eq)

lemma sm_begin: "sm_ok x \<Longrightarrow> table_code sip_table (b2s (sm_header x @ r)) > 0"
  unfolding sm_ok_def sm_header_def by (simp add: sip_table_prefix)

text \<open>What may follow the complete messages: nothing, or the begin of one more that is not complete.\<close>

definition sm_part :: "u8 list \<Rightarrow> bool" where
  "sm_part part = (part = [] \<or> (\<exists>y j. sm_ok y \<and> part = take j (sm_bytes y) \<and> length (sm_first y) \<le> j \<and> 11 \<le> j \<and> j < length (sm_bytes y) \<and> length (sm_bytes y) < 2 ^ 31))"

lemma part_begin: "sm_part part \<Longrightarrow> part \<noteq> [] \<Longrightarrow> 11 \<le> length part \<and> table_code sip_table (b2s part) > 0"
proof -
  assume "sm_part part" "part \<noteq> []"
  then obtain y j where y: "sm_ok y" "part = take j (sm_bytes y)" "length (sm_first y) \<le> j" "11 \<le> j" "j < length (sm_bytes y)" unfolding sm_part_def by blast
  obtain r where "sm_bytes y = sm_first y @ r" unfolding sm_bytes_def sm_header_def by simp
  then have "part = sm_first y @ take (j - length (sm_first y)) r" using y(2,3) by simp
  then have "table_code sip_table (b2s part) > 0" using y(1) sip_table_prefix [of "b2s (sm_first y)"] by (simp add: sm_ok_def)
  moreover have "length part = j" using y(2,5) by simp
  ultimately show ?thesis using y(4) by simp
qed

text \<open>An incomplete message ends the loop.\<close>

lemma part_ends:
  assumes part: "sm_part part" "part \<noteq> []" and w: "take data_len (drop p m) = part" "p + data_len \<le> length m" and mode: "mode AND chssm_strict = 0" "mode AND chssm_content_length = 0"
  shows "checkSip_loop (Suc k) mode m orig p data_len offset count offs = Ret (sip_end mode offset count offs)"
proof -
  obtain y j where y: "sm_ok y" "part = take j (sm_bytes y)" "j < length (sm_bytes y)" "length (sm_bytes y) < 2 ^ 31" using part unfolding sm_part_def by blast
  have dl: "data_len = j" using w y(2,3) by (metis length_drop length_take min.absorb2 nat_less_le le_diff_conv2 add.commute add_leD1 diff_is_0_eq' min.absorb4 min_def)
  have pos: "data_len > 0" using part(2) w(1) by auto
  let ?h = "sm_header y"
  show ?thesis
  proof (cases "length ?h + 4 \<le> data_len")
    case True
    have wy: "take data_len (drop p m) = take data_len (sm_bytes y @ [])" using w y(2) dl by simp
    note at = sm_at [OF y(1) wy w(2) True]
    have "header_contentLength (b2s ?h) = Some (word_of_nat (length (sm_body y)))" using sm_contentLength [OF y(1)] y(4) sm_bytes_length(1) [of y] by simp
    moreover have "sip_data_len (length ?h) False (word_of_nat (length (sm_body y))) = int (length (sm_bytes y))" using sip_data_len_nat y(4) sm_bytes_length(1) [of y] by metis
    ultimately show ?thesis using at pos y(3) dl mode by (simp add: Let_def)
  next
    case False
    have "sm_bytes y = (?h @ [13, 10, 13]) @ 10 # sm_body y" by (simp add: sm_bytes_def)
    then have "part = take j (?h @ [13, 10, 13]) @ take (j - length (?h @ [13, 10, 13])) (10 # sm_body y)" using y(2) by (simp only: take_append)
    then have "part = take j (?h @ [13, 10, 13])" using False dl by simp
    then have e: "take data_len (drop p m) = take data_len (?h @ [13, 10, 13])" using w(1) dl by simp
    have b: "take (min data_len 5000) (drop p m) = take (min data_len 5000) (?h @ [13, 10, 13])"
      using arg_cong [OF e, of "take (min data_len 5000)"] unfolding take_min_take .
    have "memmem [13, 10, 13, 10] (take (min data_len 5000) (?h @ [13, 10, 13])) = None" "memmem [10, 10] (take (min data_len 5000) (?h @ [13, 10, 13])) = None"
      using y(1) memmem_take unfolding sm_ok_def by blast+
    then have "find_header_end m p data_len = Ret None" using w(2) b by (simp add: find_header_end_def ldn_def)
    then show ?thesis using pos by simp
  qed
qed


text \<open>What follows a message is recognised as SIP; in strict mode its last bytes are not only line ends.\<close>

lemma reduk_stop:
  assumes "p + d \<le> length m" "n < d" "m ! (p + n) \<noteq> 10" "m ! (p + n) \<noteq> 13"
  shows "\<exists>r. reduk m p n d = Ret r \<and> r \<noteq> n"
  using assms
proof (induction m p n d rule: reduk.induct)
  case (1 m p s n)
  have ld: "ld8 m (p + n - 1) = Ret (m ! (p + n - 1))" using "1.prems" by (simp add: ld8_def)
  show ?case
  proof (cases "m ! (p + n - 1) = 10 \<or> m ! (p + n - 1) = 13")
    case True
    then have "n \<noteq> Suc s" using "1.prems"(3,4) by auto
    then have "\<exists>r. reduk m p s (n - 1) = Ret r \<and> r \<noteq> s" using "1.IH" [of "m ! (p + n - 1)"] True "1.prems" by simp
    then show ?thesis using True ld "1.prems"(2) by (subst reduk.simps) simp
  next
    case False
    then show ?thesis using ld "1.prems"(2) by (subst reduk.simps) simp
  qed
qed

text \<open>The data behind the first message.\<close>

lemma drop_message:
  assumes "take data_len (drop p m) = a @ r" "p + data_len \<le> length m" "length (a @ r) = data_len"
  shows "take (data_len - length a) (drop (p + length a) m) = r" "p + length a + (data_len - length a) \<le> length m"
proof -
  have "take (data_len - length a) (drop (p + length a) m) = drop (length a) (take data_len (drop p m))" by (simp add: drop_take add.commute)
  then show "take (data_len - length a) (drop (p + length a) m) = r" unfolding assms(1) by simp
  show "p + length a + (data_len - length a) \<le> length m" using assms(2,3) by simp
qed

lemma checkSip_loop_stream:
  assumes "list_all sm_ok ms" "sm_part part" "ms \<noteq> []" "take data_len (drop p m) = sm_stream ms @ part" "p + data_len \<le> length m" "length (sm_stream ms @ part) = data_len"
    and "data_len < 2 ^ 31" "data_len < k" "mode AND chssm_ext = 0" "part = [] \<or> (mode AND chssm_strict = 0 \<and> mode AND chssm_content_length = 0)"
  shows "checkSip_loop k mode m orig p data_len offset count offs =
    Ret \<lparr>cs_count = count + length ms, cs_offsets = offs @ sm_offsets offset ms, cs_used = (if part = [] then orig else offset + length (sm_stream ms))\<rparr>"
  using assms
proof (induction ms arbitrary: k p data_len offset count offs)
  case (Cons x ms)
  let ?h = "sm_header x" and ?n = "length (sm_bytes x)" and ?r = "sm_stream ms @ part"
  have x: "sm_ok x" using Cons.prems by simp
  have w: "take data_len (drop p m) = sm_bytes x @ ?r" "length (sm_bytes x @ ?r) = data_len" using Cons.prems by simp_all
  note n = sm_bytes_length [of x]
  have le: "?n \<le> data_len" "length ?h + 4 \<le> data_len" using w(2) n by simp_all
  have w': "take data_len (drop p m) = take data_len (sm_bytes x @ ?r)" using w by simp
  note at = sm_at [OF x w' Cons.prems(5) le(2)]
  have cl: "header_contentLength (b2s ?h) = Some (word_of_nat (length (sm_body x)))" using sm_contentLength [OF x] Cons.prems(7) le n by simp
  have sl: "sip_data_len (length ?h) False (word_of_nat (length (sm_body x))) = int ?n" using sip_data_len_nat Cons.prems(7) le n by (metis le_less_trans)
  obtain k1 where k: "k = Suc k1" using Cons.prems(8) by (cases k) auto
  have pos: "data_len > 0" using le n by simp
  show ?case
  proof (cases "ms = [] \<and> part = []")
    case True
    then have "data_len = ?n" using w(2) by simp
    then show ?thesis using at cl sl pos Cons.prems(9) True unfolding k by (simp add: Let_def)
  next
    case False
    note d = drop_message [OF w(1) Cons.prems(5) w(2)]
    have more: "11 \<le> length ?r \<and> table_code sip_table (b2s ?r) > 0"
    proof (cases ms)
      case Nil
      then show ?thesis using part_begin [OF Cons.prems(2)] False by simp
    next
      case (Cons y ys)
      then have "sm_ok y" using \<open>list_all sm_ok (x # ms)\<close> by simp
      then show ?thesis using sm_begin [of y "[13, 10, 13, 10] @ sm_body y @ sm_stream ys @ part"] sm_bytes_length [of y] Cons by (simp add: sm_bytes_def)
    qed
    have lr: "data_len - ?n = length ?r" using w(2) by simp
    have c20: "check_sip20 (Suc (data_len - ?n)) m (p + ?n) (data_len - ?n) None True = Ret True"
      by (rule check_sip20_message) (use d more lr Cons.prems(7) in simp_all)
    have lt: "?n < data_len" using lr more by linarith
    have rd: "\<exists>r. reduk m p ?n data_len = Ret r \<and> r \<noteq> ?n"
    proof (rule reduk_stop [OF Cons.prems(5) lt])
      obtain b r where br: "?r = b # r" using more by (cases ?r) auto
      have "m ! (p + ?n) = b" using arg_cong [OF d(1), of "\<lambda>l. l ! 0"] br lt Cons.prems(5) lr by simp
      then show "m ! (p + ?n) \<noteq> 10" "m ! (p + ?n) \<noteq> 13" using sip_first_byte [of b r] more br by auto
    qed
    have step: "checkSip_loop k mode m orig p data_len offset count offs =
        checkSip_loop k1 mode m orig (p + ?n) (data_len - ?n) (offset + ?n) (count + 1) (offs @ [(word_of_nat offset, word_of_nat ?n)])"
    proof -
      obtain r where r: "reduk m p ?n data_len = Ret r" "r \<noteq> ?n" using rd by blast
      have "0 < ?n" using n by simp
      then show ?thesis using at cl sl pos lt c20 r unfolding k by (simp add: Let_def del: check_sip20.simps)
    qed
    show ?thesis
    proof (cases "ms = []")
      case True
      then have "part \<noteq> []" using False by simp
      obtain k2 where "k1 = Suc k2" using Cons.prems(8) lt k by (cases k1) auto
      then show ?thesis using step part_ends [OF Cons.prems(2) \<open>part \<noteq> []\<close>, of "data_len - ?n" "p + ?n" m mode] d True Cons.prems(10) \<open>part \<noteq> []\<close> by (simp add: sip_end_def)
    next
      case ne: False
      show ?thesis unfolding step
        by (subst Cons.IH) (use ne Cons.prems d lr lt k n in \<open>simp_all add: add.assoc\<close>)
    qed
  qed
qed simp


text \<open>C40: the code of a SIP packet is the one of the first entry of a table of methods and status lines that the data begins with, 0 when there is none; the
  packet is a response when it begins with the SIP version and has one more character. No access is outside of the data.\<close>

theorem sip_method_by_table:
  assumes "p + len \<le> length m"
  shows "parse_sip_method m p len True = Ret (table_code sip_table (b2s (take len (drop p m))), is_response (b2s (take len (drop p m))))"
  by (rule parse_sip_method_table [OF assms])

theorem sip_method_by_table_witness: "parse_sip_method (bytes ''SIP/2.0 404 Not Found'') 0 21 True = Ret (RES404, True)"
proof -
  have "table_code sip_table ''SIP/2.0 404 Not Found'' = RES404" "is_response ''SIP/2.0 404 Not Found''" by code_simp+
  then show ?thesis using sip_method_by_table [of 0 21 "bytes ''SIP/2.0 404 Not Found''"] by simp
qed

lemma checkSip_stream:
  assumes ms: "list_all sm_ok ms" "ms \<noteq> []" "sm_part part" and m: "m = pre @ sm_stream ms @ part @ post" and n: "n = length (sm_stream ms @ part)" "n < 2 ^ 31"
    and mode: "mode AND chssm_ext = 0" "part = [] \<or> (mode AND chssm_strict = 0 \<and> mode AND chssm_content_length = 0)"
  shows "checkSip (Suc k) mode m (length pre) n = Ret \<lparr>cs_count = length ms, cs_offsets = sm_offsets 0 ms, cs_used = length (sm_stream ms)\<rparr>"
proof -
  obtain x xs where x: "ms = x # xs" using ms(2) by (cases ms) auto
  have w: "take n (drop (length pre) m) = sm_stream ms @ part" "length pre + n \<le> length m" using m n(1) by simp_all
  have "sm_ok x" using ms(1) x by simp
  then have b: "table_code sip_table (b2s (sm_stream ms @ part)) > 0" using sm_begin [of x "[13, 10, 13, 10] @ sm_body x @ sm_stream xs @ part"] x by (simp add: sm_bytes_def)
  have l: "19 \<le> n" using n(1) x sm_bytes_length [of x] by simp
  obtain c r where cr: "drop (length pre) m = c # r" using w(2) l by (cases "drop (length pre) m") auto
  have "c # take (n - 1) r = sm_stream ms @ part" using w(1) l unfolding cr by (cases n) simp_all
  then have "table_code sip_table (b2s (c # take (n - 1) r)) > 0" using b by (simp only:)
  then have "c \<noteq> 0x81" using sip_first_byte [of c "take (n - 1) r"] by blast
  then have ws: "check_websocket (drop (length pre) m) (word_of_nat n) chdst_ge_limit = Ret False" unfolding cr by (simp add: check_websocket_def check_websocket_first_byte_def ld8_def)
  have c20: "check_sip20 (Suc n) m (length pre) n None True = Ret True" by (rule check_sip20_message) (use w b l n(2) in simp_all)
  have "checkSip_loop (Suc n) mode m n (length pre) n 0 0 [] =
      Ret \<lparr>cs_count = length ms, cs_offsets = sm_offsets 0 ms, cs_used = (if part = [] then n else length (sm_stream ms))\<rparr>"
    using checkSip_loop_stream [OF ms(1,3,2) w n(1) [symmetric] n(2) _ mode, of "Suc n" n 0 0 "[]"] by simp
  moreover have "(if part = [] then n else length (sm_stream ms)) = length (sm_stream ms)" using n(1) by simp
  ultimately show ?thesis using ws c20 l by (simp add: checkSip_base_def del: check_sip20.simps checkSip_loop.simps)
qed

text \<open>An incomplete message alone does not count.\<close>

lemma checkSip_part:
  assumes "sm_part part" "part \<noteq> []" "length part < 2 ^ 31"
  shows "checkSip (Suc k) 0 part 0 (length part) = Ret rslt0"
proof -
  have b: "11 \<le> length part" "table_code sip_table (b2s part) > 0" using part_begin [OF assms(1,2)] by simp_all
  obtain c r where cr: "part = c # r" using assms(2) by (cases part) auto
  have "c \<noteq> 0x81" using sip_first_byte [of c r] b(2) cr by simp
  then have ws: "check_websocket (drop 0 part) (word_of_nat (length part)) chdst_ge_limit = Ret False" unfolding cr by (simp add: check_websocket_def check_websocket_first_byte_def ld8_def)
  have c20: "check_sip20 (Suc (length part)) part 0 (length part) None True = Ret True" by (rule check_sip20_message) (use b assms(3) in simp_all)
  have "checkSip_loop (Suc (length part)) 0 part (length part) 0 (length part) 0 0 [] = Ret (sip_end 0 0 0 [])" by (rule part_ends [OF assms(1,2)]) simp_all
  then show ?thesis using ws c20 b(1) by (simp add: checkSip_base_def sip_end_def rslt0_def del: check_sip20.simps checkSip_loop.simps)
qed

text \<open>C3: data of a connection that consists of SIP messages one behind the other, each with a header of at most 4996 bytes and a content length of the size of its
  body, and possibly the begin of one more message that is not complete: all complete messages are found, with the offset and the length of each, and the data up
  to their end is used. Without an incomplete message this holds in the strict mode too.\<close>

theorem sip_stream_split:
  assumes ms: "list_all sm_ok ms" "ms \<noteq> []" "sm_part part" and m: "m = pre @ sm_stream ms @ part @ post" and n: "n = length (sm_stream ms @ part)" "n < 2 ^ 31"
    and mode: "mode AND chssm_ext = 0" "part = [] \<or> (mode AND chssm_strict = 0 \<and> mode AND chssm_content_length = 0)"
  shows "checkSip (Suc k) mode m (length pre) n = Ret \<lparr>cs_count = length ms, cs_offsets = sm_offsets 0 ms, cs_used = length (sm_stream ms)\<rparr>"
  by (rule checkSip_stream [OF assms])

definition demo_bye :: sip_message where
  "demo_bye = \<lparr>sm_first = bytes ''BYE sip:b SIP/2.0'', sm_rest = [], sm_body = [1, 2, 3]\<rparr>"

definition demo_ok :: sip_message where
  "demo_ok = \<lparr>sm_first = bytes ''SIP/2.0 200 OK'', sm_rest = [], sm_body = []\<rparr>"

lemma demo_messages: "sm_ok demo_bye" "sm_ok demo_ok" "length (sm_bytes demo_bye) = 43" "length (sm_bytes demo_ok) = 37"
  by code_simp+

theorem sip_stream_split_witness:
  "checkSip 1 0 (sm_bytes demo_bye @ sm_bytes demo_ok @ take 30 (sm_bytes demo_bye)) 0 110 =
     Ret \<lparr>cs_count = 2, cs_offsets = [(0, 43), (43, 37)], cs_used = 80\<rparr>"
proof -
  have "sm_part (take 30 (sm_bytes demo_bye))" unfolding sm_part_def
    by (intro disjI2 exI [of _ demo_bye] exI [of _ 30]) (simp add: demo_messages, simp add: demo_bye_def)
  then show ?thesis
    using sip_stream_split [of "[demo_bye, demo_ok]" "take 30 (sm_bytes demo_bye)" _ "[]" "[]" 110 0 0] by (simp add: demo_messages)
qed


section \<open>No access outside of the data\<close>

lemma ws_fields_return:
  assumes "2 \<le> length m"
  shows "\<exists>e mk. getExtendedLengthSize \<lparr>ws_header = m, ws_size = len\<rparr> = Ret e \<and> unat e \<le> 8 \<and> isMask \<lparr>ws_header = m, ws_size = len\<rparr> = Ret mk \<and>
    getHeaderLength \<lparr>ws_header = m, ws_size = len\<rparr> = Ret (2 + e + (if mk then 4 else 0)) \<and> unat (2 + e + (if mk then 4 else 0)) = 2 + unat e + (if mk then 4 else 0) \<and>
    (2 + unat e \<le> length m \<longrightarrow> (\<exists>dl. getDataLength \<lparr>ws_header = m, ws_size = len\<rparr> = Ret dl \<and> unat dl < 2 ^ 32))"
proof -
  let ?h = "\<lparr>ws_header = m, ws_size = len\<rparr>"
  have l: "ld8 m 1 = Ret (m ! 1)" using assms by (simp add: ld8_def)
  define e where "e = (if m ! 1 AND 0x7F = 126 then 2 else if m ! 1 AND 0x7F = 127 then 8 else 0 :: u32)"
  define mk where "mk = (m ! 1 AND 0x80 \<noteq> 0)"
  have e: "getExtendedLengthSize ?h = Ret e" "unat e \<le> 8" using l by (auto simp: getExtendedLengthSize_def isExtendedLength_def ws_payload_len_def e_def)
  have mk: "isMask ?h = Ret mk" using l by (simp add: isMask_def mk_def)
  have hl: "getHeaderLength ?h = Ret (2 + e + (if mk then 4 else 0))" using e mk by (simp add: getHeaderLength_def)
  have u: "unat (2 + e + (if mk then 4 else 0)) = 2 + unat e + (if mk then 4 else 0)" using e(2) by (auto simp: unat_word_ariths)
  have "\<exists>dl. getDataLength ?h = Ret dl \<and> unat dl < 2 ^ 32" if "2 + unat e \<le> length m"
    using that l unat_less_2_32
    by (auto simp: getDataLength_def isExtendedLength_def ws_payload_len_def e_def ld16_Ret ld64_Ret simp del: unat_byte_less split: if_splits)
  then show ?thesis using e mk hl u by blast
qed

lemma check_websocket_returns:
  assumes "unat len \<le> length m"
  shows "\<exists>r. check_websocket m len t = Ret r \<and> (r \<longrightarrow> (\<exists>hl dl. getHeaderLength \<lparr>ws_header = m, ws_size = len\<rparr> = Ret hl \<and> 2 \<le> unat hl \<and> unat hl \<le> unat len \<and>
    getDataLength \<lparr>ws_header = m, ws_size = len\<rparr> = Ret dl \<and> unat dl < 2 ^ 32 \<and> (t = chdst_ge_limit \<longrightarrow> unat hl + unat dl \<le> unat len)))"
proof (cases "unat len < 2")
  case True
  then have "\<not> 2 \<le> len" by (simp add: word_le_nat_alt)
  then show ?thesis using assms by (auto simp: check_websocket_def check_websocket_first_byte_def check_websocket_header_def isHeaderSizeOk_def Let_def ld8_def word_less_nat_alt)
next
  case False
  let ?h = "\<lparr>ws_header = m, ws_size = len\<rparr>"
  have two: "2 \<le> len" "2 \<le> length m" "0 < len" "m \<noteq> []" using False assms by (auto simp: word_le_nat_alt word_less_nat_alt)
  obtain e mk where e: "isMask ?h = Ret mk" "getHeaderLength ?h = Ret (2 + e + (if mk then 4 else 0))" "unat (2 + e + (if mk then 4 else 0)) = 2 + unat e + (if mk then 4 else 0)"
      "2 + unat e \<le> length m \<longrightarrow> (\<exists>dl. getDataLength ?h = Ret dl \<and> unat dl < 2 ^ 32)"
    using ws_fields_return [OF two(2), of len] by blast
  define hl where "hl = 2 + e + (if mk then 4 else 0)"
  have first: "check_websocket m len t = (if m ! 0 = 0x81 then check_websocket_header m len t else Ret False)"
    using two by (simp add: check_websocket_def check_websocket_first_byte_def ld8_def)
  show ?thesis
  proof (cases "hl \<le> len")
    case False
    then show ?thesis using first e(2) two(1) by (intro exI [of _ False]) (simp add: check_websocket_header_def isHeaderSizeOk_def hl_def [symmetric])
  next
    case True
    then have le: "unat hl \<le> unat len" by (simp add: word_le_nat_alt)
    then obtain dl where dl: "getDataLength ?h = Ret dl" "unat dl < 2 ^ 32" using e(3,4) assms unfolding hl_def [symmetric] by auto
    have sum: "unat (ucast hl + dl) = unat hl + unat dl" using dl(2) unat_u32_less [of hl] by (simp add: unat_word_ariths del: unat_u32_less)
    have fin: "2 \<le> unat hl" using e(3) hl_def by simp
    have "\<exists>r. check_websocket_header m len t = Ret r \<and> (r \<longrightarrow> t = chdst_ge_limit \<longrightarrow> unat hl + unat dl \<le> unat len)"
      using True e(2) two(1) dl(1) sum
      by (cases t) (auto simp: check_websocket_header_def isHeaderSizeOk_def isDataSizeOk_def Let_def hl_def [symmetric] word_le_nat_alt [where 'a = 64])
    then show ?thesis using first e(2) dl le fin hl_def by auto
  qed
qed


text \<open>The decoded data: a null pointer, the place in the frame, or a copy of \<open>n\<close> bytes.\<close>

lemma decode_alloc_returns:
  assumes hl: "getHeaderLength h = Ret hl" and mk: "isMask h = Ret True" and n: "unat hl + unat n \<le> length (ws_header h)"
  shows "decode_alloc h n = Ret DNull \<or> (\<exists>bs. decode_alloc h n = Ret (DAlloc bs) \<and> length bs = unat n)"
proof (cases "n > 0 \<and> n \<le> 0xFFFF")
  case True
  obtain e where e: "getExtendedLengthSize h = Ret e" "unat hl = 2 + unat e + 4"
  proof -
    obtain e where e: "getExtendedLengthSize h = Ret e" "hl = 2 + e + 4" using hl mk by (auto simp: getHeaderLength_def obind_Ret_iff omap_Ret_iff)
    have "unat e \<le> 8" using e(1) by (auto simp: getExtendedLengthSize_def omap_Ret_iff)
    then have "unat hl = 2 + unat e + 4" by (simp add: e(2) unat_word_ariths)
    then show ?thesis using that e(1) by blast
  qed
  then show ?thesis using True hl mk n by (simp add: decode_alloc_def getData_def getMask_def ldn_def)
qed (auto simp: decode_alloc_def)

lemma decodeData_returns:
  assumes h: "getHeaderLength h = Ret hl" "getDataLength h = Ret dl" "unat dl < 2 ^ 32" "2 \<le> unat hl"
    and n: "(n = 0 \<and> unat hl + unat dl \<le> length (ws_header h)) \<or> (n > hl \<and> unat n \<le> length (ws_header h))"
  shows "\<exists>d. decodeData n h = Ret d \<and> (d = DNull \<or> d = DPointer (unat hl) \<or>
    (\<exists>bs. d = DAlloc bs \<and> length bs = (if n = 0 then unat dl else min (unat n - unat hl) (unat dl))))"
proof -
  obtain mk where mk: "isMask h = Ret mk" using h(1) by (auto simp: getHeaderLength_def obind_Ret_iff omap_Ret_iff)
  have d32: "unat (ucast dl :: u32) = unat dl" using h(3) by (simp add: unsigned_ucast_eq take_bit_nat_eq_self)
  show ?thesis
  proof (cases mk)
    case False
    then show ?thesis using mk h(1) by (simp add: decodeData_def getData_def)
  next
    case True
    show ?thesis
    proof (cases "n = 0")
      case n0: True
      then have "unat hl + unat (ucast dl :: u32) \<le> length (ws_header h)" using n d32 by auto
      then show ?thesis using decode_alloc_returns [OF h(1), of "ucast dl"] mk True n0 h(2) d32 by (auto simp: decodeData_def)
    next
      case False
      then have gt: "n > hl" "unat n \<le> length (ws_header h)" using n by auto
      have sub: "unat (n - hl) = unat n - unat hl" using gt(1) by (simp add: unat_sub word_less_nat_alt word_le_nat_alt)
      define w where "w = min (n - hl) (ucast dl :: u32)"
      have w: "unat w = min (unat n - unat hl) (unat dl)" unfolding w_def using sub d32 by (auto simp: min_def word_le_nat_alt)
      then have "unat hl + unat w \<le> length (ws_header h)" using gt by (simp add: word_less_nat_alt)
      then show ?thesis using decode_alloc_returns [OF h(1), of w] mk True False h(1,2) gt(1) w unfolding w_def by (auto simp: decodeData_def)
    qed
  qed
qed

lemma skip_newlines_returns: "p + len \<le> length m \<Longrightarrow> \<exists>q n. skip_newlines m p len = Ret (q, n) \<and> q + n = p + len"
proof (induction m p len rule: skip_newlines.induct)
  case (1 m p len)
  show ?case
  proof (cases "len \<ge> 13")
    case True
    have l: "ld8 m p = Ret (m ! p)" "ld8 m (p + 1) = Ret (m ! (p + 1))" using 1 True by (simp_all add: ld8_def)
    have s: "p + 2 + (len - 2) = p + len" "p + 1 + (len - 1) = p + len" using True by simp_all
    have a: "\<exists>q n. skip_newlines m (p + 2) (len - 2) = Ret (q, n) \<and> q + n = p + len" if "m ! p = 13" "m ! (p + 1) = 10"
      using "1.IH"(1) [OF True that] "1.prems" unfolding s by blast
    have b: "\<exists>q n. skip_newlines m (p + 1) (len - 1) = Ret (q, n) \<and> q + n = p + len" if "m ! p \<noteq> 13" "m ! p = 10"
      using "1.IH"(2) [OF True that] "1.prems" unfolding s by blast
    show ?thesis using a b l True by (subst skip_newlines.simps) auto
  next
    case False
    then show ?thesis by (subst skip_newlines.simps) simp
  qed
qed

lemma check_sip_method_returns: "p + len \<le> length m \<Longrightarrow> \<exists>r. check_sip_method m p len = Ret r"
  by (simp add: check_sip_method_def parse_sip_method_table)

lemma check_sip20_returns: "p + len \<le> length m \<Longrightarrow> len < 2 ^ 32 \<Longrightarrow> len < k \<Longrightarrow> \<exists>r. check_sip20 k m p len parsed True = Ret r"
proof (induction k arbitrary: m p len parsed)
  case (Suc k)
  have len: "unat (word_of_nat len :: u32) = len" "len \<le> length (drop p m)" using Suc.prems by (simp_all add: unat_of_nat)
  obtain w where w: "check_websocket (drop p m) (word_of_nat len) chdst_na = Ret w" "w \<longrightarrow> (\<exists>hl dl. getHeaderLength \<lparr>ws_header = drop p m, ws_size = word_of_nat len\<rparr> = Ret hl \<and>
      2 \<le> unat hl \<and> unat hl \<le> len \<and> getDataLength \<lparr>ws_header = drop p m, ws_size = word_of_nat len\<rparr> = Ret dl \<and> unat dl < 2 ^ 32)"
    using check_websocket_returns [of "word_of_nat len" "drop p m" chdst_na] len by auto
  show ?case
  proof (cases w)
    case False
    obtain q n where q: "skip_newlines m p len = Ret (q, n)" "q + n = p + len" using skip_newlines_returns [OF Suc.prems(1)] by blast
    then obtain r where "check_sip_method m q n = Ret r" using check_sip_method_returns [of q n m] Suc.prems(1) by auto
    then show ?thesis using False w(1) q by (cases parsed) auto
  next
    case True
    let ?ws = "\<lparr>ws_header = drop p m, ws_size = word_of_nat len\<rparr>"
    obtain hl dl where h: "getHeaderLength ?ws = Ret hl" "2 \<le> unat hl" "unat hl \<le> len" "getDataLength ?ws = Ret dl" "unat dl < 2 ^ 32" using w(2) True by blast
    show ?thesis
    proof (cases "len > unat hl")
      case False
      then show ?thesis using True w(1) h by (intro exI [of _ False]) (simp add: Let_def)
    next
      case gt: True
      have g: "hl < word_of_nat len" "(word_of_nat len :: u32) \<noteq> 0" using gt len(1) by (auto simp: word_less_nat_alt)
      let ?n = "min (len - unat hl) (unat dl)"
      obtain d where d: "decodeData (word_of_nat len) ?ws = Ret d" "d = DNull \<or> d = DPointer (unat hl) \<or> (\<exists>bs. d = DAlloc bs \<and> length bs = ?n)"
        using decodeData_returns [OF h(1,4,5,2), of "word_of_nat len"] g len by auto
      have "\<exists>r. check_sip20 k m (p + unat hl) ?n parsed True = Ret r" by (rule Suc.IH) (use Suc.prems h(2) gt in auto)
      moreover have "\<exists>r. check_sip20 k bs 0 ?n None True = Ret r" if "length bs = ?n" for bs by (rule Suc.IH) (use that Suc.prems h(2) gt in auto)
      ultimately show ?thesis using True w(1) h(1,4) gt d by (auto simp: Let_def)
    qed
  qed
qed simp


lemma strncasestr_loop_returns:
  "p + k + length needle \<le> Suc (length m) \<Longrightarrow> \<exists>r. strncasestr_loop k m p needle = Ret r \<and> (\<forall>q. r = Some q \<longrightarrow> p \<le> q \<and> q < p + k)"
proof (induction k arbitrary: p)
  case (Suc k)
  obtain r where "strncasestr_loop k m (p + 1) needle = Ret r" "\<forall>q. r = Some q \<longrightarrow> p + 1 \<le> q \<and> q < p + 1 + k" using Suc.IH [of "p + 1"] Suc.prems by auto
  then show ?case using Suc.prems by (auto simp: ldn_def)
qed simp

lemma strncasestr_returns:
  assumes "p + len \<le> length m"
  shows "\<exists>r. strncasestr m p needle len = Ret r \<and> (\<forall>q. r = Some q \<longrightarrow> 0 < len \<longrightarrow> needle \<noteq> [] \<longrightarrow> p \<le> q \<and> q < p + len)"
proof (cases "min len (length needle) = 0")
  case True
  then have "strncasestr m p needle len = Ret (Some p)" unfolding strncasestr_def Let_def by (simp only: if_True simp_thms)
  then show ?thesis using True by (intro exI [of _ "Some p"]) (auto simp: min_def split: if_splits)
next
  case False
  let ?n = "min len (length needle)"
  have n: "?n \<le> len" "0 < ?n" "length (take ?n needle) = ?n" using False by simp_all
  have "p + (len - ?n + 1) + length (take ?n needle) \<le> Suc (length m)" unfolding n(3) using assms n(1) by linarith
  then obtain r where r: "strncasestr_loop (len - ?n + 1) m p (take ?n needle) = Ret r" "\<forall>q. r = Some q \<longrightarrow> p \<le> q \<and> q < p + (len - ?n + 1)"
    using strncasestr_loop_returns by blast
  have "p + (len - ?n + 1) \<le> p + len" using n(1,2) by linarith
  then have "\<forall>q. r = Some q \<longrightarrow> p \<le> q \<and> q < p + len" using r(2) less_le_trans by blast
  then show ?thesis unfolding strncasestr_def Let_def if_not_P [OF False] using r(1) by blast
qed

lemma checkSipExt_returns:
  assumes "p + len \<le> length m" "0 < len"
  shows "\<exists>r. checkSipExt m p len = Ret r"
proof -
  obtain r where r: "strncasestr m p (CHR 0x0A # ''Call-ID:'') len = Ret r" "\<forall>q. r = Some q \<longrightarrow> p \<le> q \<and> q < p + len"
    using strncasestr_returns [OF assms(1), of "CHR 0x0A # ''Call-ID:''"] assms(2) by auto
  show ?thesis
  proof (cases r)
    case None
    then show ?thesis using r by (intro exI [of _ True]) (simp add: checkSipExt_def)
  next
    case (Some q)
    then have "q + 1 + (len - (q - p) - 1) \<le> length m" using r(2) assms by auto
    then obtain r2 where "strncasestr m (q + 1) (CHR 0x0A # ''Call-ID:'') (len - (q - p) - 1) = Ret r2" using strncasestr_returns by blast
    then show ?thesis using r Some by (intro exI [of _ "r2 = None"]) (simp add: checkSipExt_def)
  qed
qed

lemma reduk_returns: "p + n \<le> length m \<Longrightarrow> \<exists>r. reduk m p s n = Ret r"
proof (induction m p s n rule: reduk.induct)
  case (1 m p s n)
  have "ld8 m (p + n - 1) = Ret (m ! (p + n - 1))" if "n > s" using 1 that by (simp add: ld8_def)
  then show ?case using 1 by (subst reduk.simps) auto
qed

lemma memmem_bound: "memmem needle s = Some i \<Longrightarrow> i + length needle \<le> length s"
proof (induction s arbitrary: i)
  case (Cons x s)
  show ?case
  proof (cases "take (length needle) (x # s) = needle")
    case True
    then have "length needle \<le> length (x # s)" by (metis length_take min.cobounded1)
    then show ?thesis using True Cons.prems by simp
  next
    case False
    then show ?thesis using Cons by auto
  qed
qed (simp split: if_splits)

lemma find_header_end_returns: "p + len \<le> length m \<Longrightarrow> \<exists>r. find_header_end m p len = Ret r \<and> (\<forall>e lf. r = Some (e, lf) \<longrightarrow> e \<le> len)"
  using memmem_bound [of "[13, 10, 13, 10]" "take (min len 5000) (drop p m)"] memmem_bound [of "[10, 10]" "take (min len 5000) (drop p m)"]
  by (auto simp: find_header_end_def ldn_def split: option.splits)

lemma checkSip_loop_returns:
  assumes "p + len \<le> length m" "len < 2 ^ 31" "len < k"
  shows "\<exists>r. checkSip_loop k mode m orig p len offset count offs = Ret r"
  using assms
proof (induction k arbitrary: p len offset count offs)
  case (Suc k)
  show ?case
  proof (cases "len > 0")
    case True
    obtain e where e: "find_header_end m p len = Ret e" "\<forall>i lf. e = Some (i, lf) \<longrightarrow> i \<le> len" using find_header_end_returns [OF Suc.prems(1)] by blast
    show ?thesis
    proof (cases e)
      case None
      then show ?thesis using True e(1) by simp
    next
      case (Some il)
      obtain i lf where il: "il = (i, lf)" by (cases il)
      have h: "ldn i m p = Ret (take i (drop p m))" using e(2) Some il Suc.prems(1) by (auto simp: ldn_def)
      obtain x where x: "checkSipExt m p len = Ret x" using checkSipExt_returns [OF Suc.prems(1) True] by blast
      define n where "n = sip_data_len i lf (case header_contentLength (b2s (take i (drop p m))) of None \<Rightarrow> 0 | Some x \<Rightarrow> x)"
      show ?thesis
      proof (cases "0 < n \<and> n < int len")
        case False
        then show ?thesis using True e(1) Some il h x by (auto simp: Let_def n_def [symmetric])
      next
        case inner: True
        then have nn: "nat n < len" "0 < nat n" by auto
        obtain y where y: "checkSipExt m p (nat n) = Ret y" using checkSipExt_returns [of p "nat n" m] Suc.prems(1) nn by auto
        have sm: "p + nat n + (len - nat n) \<le> length m" "len - nat n < 2 ^ 32" using Suc.prems nn by simp_all
        obtain s where s: "check_sip20 (Suc (len - nat n)) m (p + nat n) (len - nat n) None True = Ret s"
          using check_sip20_returns [OF sm lessI] by blast
        obtain r where r: "reduk m p (nat n) len = Ret r" using reduk_returns [OF Suc.prems(1)] by blast
        have IH: "\<exists>r. checkSip_loop k mode m orig (p + nat n) (len - nat n) o' c' os = Ret r" for o' c' os by (rule Suc.IH) (use Suc.prems nn in auto)
        show ?thesis using True e(1) Some il h inner y s r IH by (auto simp: Let_def n_def [symmetric] simp del: check_sip20.simps)
      qed
    qed
  qed simp
qed simp

lemma checkSip_returns: "p + len \<le> length m \<Longrightarrow> len < 2 ^ 31 \<Longrightarrow> len < k \<Longrightarrow> \<exists>r. checkSip k mode m p len = Ret r"
proof (induction k arbitrary: m p len)
  case (Suc k)
  have len: "unat (word_of_nat len :: u32) = len" "len \<le> length (drop p m)" using Suc.prems by (simp_all add: unat_of_nat)
  obtain w where w: "check_websocket (drop p m) (word_of_nat len) chdst_ge_limit = Ret w" "w \<longrightarrow> (\<exists>hl dl. getHeaderLength \<lparr>ws_header = drop p m, ws_size = word_of_nat len\<rparr> = Ret hl \<and>
      2 \<le> unat hl \<and> unat hl \<le> len \<and> getDataLength \<lparr>ws_header = drop p m, ws_size = word_of_nat len\<rparr> = Ret dl \<and> unat dl < 2 ^ 32 \<and> unat hl + unat dl \<le> len)"
    using check_websocket_returns [of "word_of_nat len" "drop p m" chdst_ge_limit] len by auto
  show ?case
  proof (cases w)
    case False
    obtain s where "check_sip20 (Suc len) m p len None True = Ret s" using check_sip20_returns [OF Suc.prems(1) _ lessI] Suc.prems(2) by fastforce
    moreover obtain r where "checkSip_base mode m p len = Ret r" using checkSip_loop_returns [OF Suc.prems(1,2), of "Suc len"] unfolding checkSip_base_def by blast
    ultimately show ?thesis using False w(1) by (simp del: check_sip20.simps)
  next
    case True
    let ?ws = "\<lparr>ws_header = drop p m, ws_size = word_of_nat len\<rparr>"
    obtain hl dl where h: "getHeaderLength ?ws = Ret hl" "2 \<le> unat hl" "unat hl \<le> len" "getDataLength ?ws = Ret dl" "unat dl < 2 ^ 32" "unat hl + unat dl \<le> len" using w(2) True by blast
    obtain d where d: "decodeData 0 ?ws = Ret d" "d = DNull \<or> d = DPointer (unat hl) \<or> (\<exists>bs. d = DAlloc bs \<and> length bs = unat dl)"
      using decodeData_returns [OF h(1,4,5,2), of 0] h(6) len by auto
    have "\<exists>r. checkSip k mode m (p + unat hl) (unat dl) = Ret r" by (rule Suc.IH) (use Suc.prems h in auto)
    moreover have "\<exists>r. checkSip k mode bs 0 (unat dl) = Ret r" if "length bs = unat dl" for bs by (rule Suc.IH) (use that Suc.prems h in auto)
    ultimately have "\<exists>r. (case d of DNull \<Rightarrow> Ret rslt0 | DPointer q \<Rightarrow> checkSip k mode m (p + q) (unat dl) | DAlloc bs \<Rightarrow> checkSip k mode bs 0 (unat dl)) = Ret r"
      using d(2) by auto
    then show ?thesis using True w(1) h(1,4) d(1) by (auto simp: Let_def)
  qed
qed simp


text \<open>C39: whatever the data of a connection is, also when it is a WebSocket frame, frames in a frame or made up by an attacker, the search for complete
  messages ends and reads only the data.\<close>

theorem sip_check_safe:
  assumes "p + len \<le> length m" "len < 2 ^ 31"
  shows "\<exists>r. checkSip (Suc len) mode m p len = Ret r"
  by (rule checkSip_returns [OF assms lessI])

theorem sip_check_safe_witness: "\<exists>r. checkSip 9 7 [0x81, 0x06, 0x81, 0x84, 1, 2, 3, 4] 0 8 = Ret r"
  using sip_check_safe [of 0 8 "[0x81, 0x06, 0x81, 0x84, 1, 2, 3, 4]" 7] by simp

text \<open>A content length near \<open>2 ^ 32\<close>, or a negative one, gives a length of the message that ends inside of its own header.\<close>

lemma content_length_wraps:
  assumes "0 < k" "k < e + 4" "e + 4 < 2 ^ 31"
  shows "sip_data_len e False (word_of_int (- int k)) = int (e + 4 - k)"
proof -
  have "(word_of_nat (e + 4 + unat (word_of_int (- int k) :: u32)) :: u32) = word_of_nat (e + 4 - k)"
    using assms by (simp add: of_nat_diff)
  moreover have "sint (word_of_nat (e + 4 - k) :: u32) = int (e + 4 - k)" by (rule sint_small) (use assms in linarith)
  ultimately show ?thesis by (simp only: sip_data_len_def if_False)
qed

end
