(* ===== verification/VM_SipTcp.thy ===== *)
theory VM_SipTcp
  imports VM_SipCheck VM_IpKeys VM_IpHeader "HOL-Library.Multiset"
begin

text \<open>
  The reassembly of SIP messages from the segments of TCP connections (\<open>TcpReassemblySip\<close> of \<open>sniff_proc_class.h\<close> and \<open>sniff.cpp\<close>). A stream keeps
  the packets of one direction until their data is a complete message; then one packet with all of the data is handed on. Packets are owned:
  each one is held by a stream, handed on, or destroyed. The buffer of a stream is the byte sequence a \<open>SimpleBuffer\<close> implements.
\<close>

section \<open>Data\<close>

text \<open>The TCP header of a packet with its fields in network byte order.\<close>

record tcp_fields =
  th_seq :: u32
  th_ack_seq :: u32
  th_check :: u16
  th_psh :: bool
  th_doff :: nat

text \<open>\<open>ps_id\<close> is the address of the object; \<open>ps_header_ip_offset\<close>, \<open>ps_tcp_offset\<close> and \<open>ps_dataoffset\<close> are the positions of IP header, TCP header and
  data in the bytes \<open>ps_packet\<close>; \<open>ps_caplen\<close> and \<open>ps_len\<close> are the lengths in the capture header, \<open>ps_data\<close> is what \<open>data_()\<close> and \<open>datalen_()\<close> give.\<close>

record packet_s_process =
  ps_id :: nat
  ps_time_s :: u32
  ps_time_us :: u64
  ps_saddr :: vmIP
  ps_source :: vmPort
  ps_daddr :: vmIP
  ps_dest :: vmPort
  ps_tcp :: tcp_fields
  ps_header_ip_offset :: nat
  ps_tcp_offset :: nat
  ps_dataoffset :: nat
  ps_caplen :: u32
  ps_len :: u32
  ps_packet :: "u8 list"
  ps_data :: "u8 list"
  ps_pflags_tcp :: nat

record tcp_stream_packet =
  tp_packetS :: "packet_s_process option"
  tp_ts :: u32
  tp_seq :: u32
  tp_next_seq :: u32
  tp_ack_seq :: u32
  tp_lastpsh :: bool

record tcp_stream =
  ts_packets :: "tcp_stream_packet list"
  ts_complete_data :: "u8 list option"
  ts_last_seq :: u32
  ts_last_ack_seq :: u32
  ts_last_time_us :: u64

record tcp_stream_id =
  si_saddr :: vmIP
  si_source :: vmPort
  si_daddr :: vmIP
  si_dest :: vmPort

definition tcp_stream_id_lt :: "tcp_stream_id \<Rightarrow> tcp_stream_id \<Rightarrow> bool" where
  "tcp_stream_id_lt a b =
     (if vmIP_lt (si_saddr a) (si_saddr b) then True else if vmIP_gt (si_saddr a) (si_saddr b) then False
      else if si_source a < si_source b then True else if si_source a > si_source b then False
      else if vmIP_lt (si_daddr a) (si_daddr b) then True else if vmIP_gt (si_daddr a) (si_daddr b) then False
      else si_dest a < si_dest b)"

record TcpReassemblySip =
  tr_streams :: "(tcp_stream_id, tcp_stream) std_map"
  tr_last_cleanup :: int

text \<open>What happens to packets. A clone is a new object.\<close>

datatype sip_event = Delivered packet_s_process | DeliveredClone packet_s_process | Destroyed packet_s_process

definition tcp_stream_new :: tcp_stream where
  "tcp_stream_new = \<lparr>ts_packets = [], ts_complete_data = None, ts_last_seq = 0, ts_last_ack_seq = 0, ts_last_time_us = 0\<rparr>"

definition TcpReassemblySip_new :: TcpReassemblySip where
  "TcpReassemblySip_new = \<lparr>tr_streams = [], tr_last_cleanup = 0\<rparr>"

section \<open>Streams\<close>

text \<open>The check of the data never leaves it (\<open>sip_check_safe\<close>), so its outcome is a value.\<close>

definition data_complete :: "u8 list \<Rightarrow> bool" where
  "data_complete data = (case checkSip (Suc (length data)) 0 data 0 (length data) of Ret r \<Rightarrow> cs_count r > 0 | _ \<Rightarrow> False)"

definition packet_data :: "tcp_stream_packet \<Rightarrow> u8 list" where
  "packet_data q = (case tp_packetS q of Some p \<Rightarrow> ps_data p | None \<Rightarrow> [])"

definition isCompleteStream :: "tcp_stream \<Rightarrow> bool" where
  "isCompleteStream st = (case ts_packets st of [] \<Rightarrow> False
     | q # _ \<Rightarrow> data_complete (case ts_complete_data st of Some d \<Rightarrow> d | None \<Rightarrow> packet_data q))"

fun packets_of :: "tcp_stream_packet list \<Rightarrow> packet_s_process list" where
  "packets_of [] = []"
| "packets_of (q # qs) = (case tp_packetS q of None \<Rightarrow> packets_of qs | Some p \<Rightarrow> p # packets_of qs)"

definition cleanStream :: "tcp_stream \<Rightarrow> tcp_stream \<times> sip_event list" where
  "cleanStream st = (st\<lparr>ts_packets := [], ts_complete_data := None\<rparr>, map Destroyed (packets_of (ts_packets st)))"

text \<open>A copy of the packet with other data: the headers in front of the data are kept, but for the lengths of the capture header and the total length of the IP
  header, which become those of the new packet. (An IP header outside of the packet would be a write behind it; the bytes are left alone then.)\<close>

definition clonePacketS :: "u8 list \<Rightarrow> packet_s_process \<Rightarrow> packet_s_process" where
  "clonePacketS newData p =
     (let newLen = length newData + ps_dataoffset p;
          new_packet = take (ps_dataoffset p) (ps_packet p) @ newData;
          tot_len = word_of_nat newLen - word_of_nat (ps_header_ip_offset p) in
      p\<lparr>ps_caplen := word_of_nat newLen, ps_len := word_of_nat newLen, ps_data := newData,
        ps_packet := (case iph_set_tot_len tot_len new_packet (ps_header_ip_offset p) of Ret m \<Rightarrow> m | _ \<Rightarrow> new_packet)\<rparr>)"

text \<open>The lengths in the headers of a copy agree with its bytes, and nothing else in front of the data changes.\<close>

lemma clonePacketS_headers:
  assumes "ps_header_ip_offset p + 20 \<le> ps_dataoffset p" "ps_dataoffset p \<le> length (ps_packet p)" "drop_bit 4 (ps_packet p ! ps_header_ip_offset p) = 4"
    and "ps_dataoffset p + length d \<le> 65535"
  shows "iph_get_tot_len (ps_packet (clonePacketS d p)) (ps_header_ip_offset p) = Ret (word_of_nat (ps_dataoffset p + length d - ps_header_ip_offset p))"
    and "drop (ps_dataoffset p) (ps_packet (clonePacketS d p)) = d"
    and "length (ps_packet (clonePacketS d p)) = unat (ps_caplen (clonePacketS d p))" "ps_len (clonePacketS d p) = ps_caplen (clonePacketS d p)"
    and "take (ps_header_ip_offset p) (ps_packet (clonePacketS d p)) = take (ps_header_ip_offset p) (ps_packet p)"
proof -
  let ?o = "ps_header_ip_offset p" and ?k = "ps_dataoffset p"
  let ?m = "take ?k (ps_packet p) @ d" and ?n = "?k + length d - ps_header_ip_offset p"
  have m: "?o + 20 \<le> length ?m" "drop_bit 4 (?m ! ?o) = 4" using assms by (simp_all add: nth_append)
  have if4: "iph_if_v4 m' ?o a b = a" if "?o + 20 \<le> length m'" "drop_bit 4 (m' ! ?o) = 4" for m' and a b :: "'x outcome"
    using that by (simp add: iph_if_v4_4)
  have w: "word_of_nat (length d + ?k) - word_of_nat ?o = (word_of_nat ?n :: u32)" using assms(1) by (simp add: of_nat_diff add.commute)
  have "length (word_le 2 (ntohs (ucast (word_of_nat ?n :: u32)))) = 2" by simp
  note lb = this
  obtain m' where s: "stn ?m (?o + 2) (word_le 2 (ntohs (ucast (word_of_nat ?n :: u32)))) = Ret m'" and l: "length m' = length ?m"
    using stn_Ret [of "?o + 2" "word_le 2 (ntohs (ucast (word_of_nat ?n :: u32)))" ?m] m(1) unfolding lb by auto
  have "iph_set_tot_len (word_of_nat ?n) ?m ?o = Ret m'" unfolding iph_set_tot_len_def if4 [OF m] s ..
  then have p: "ps_packet (clonePacketS d p) = m'" unfolding clonePacketS_def Let_def w by simp
  have "m' ! ?o = ?m ! ?o" using take_stn [OF s, of "Suc ?o"] by (metis le_add1 lessI nth_take add_2_eq_Suc' le_Suc_eq)
  then have v: "?o + 20 \<le> length m'" "drop_bit 4 (m' ! ?o) = 4" using m l by simp_all
  have u: "ucast (ucast (word_of_nat ?n :: u32) :: u16) = (word_of_nat ?n :: u32)"
    using assms(4) by (simp add: word_unat_eq_iff unsigned_ucast_eq unat_of_nat take_bit_eq_mod unat_mod)
  show "iph_get_tot_len (ps_packet (clonePacketS d p)) ?o = Ret (word_of_nat ?n)"
    unfolding p iph_get_tot_len_def if4 [OF v] ld16_stn [OF s] by (simp add: u)
  have "drop ?k m' = drop ?k ?m" using drop_stn [OF s, of ?k] lb assms(1) by simp
  then show "drop ?k (ps_packet (clonePacketS d p)) = d" unfolding p using assms(2) by simp
  show "length (ps_packet (clonePacketS d p)) = unat (ps_caplen (clonePacketS d p))"
    unfolding p l using assms(2,4) unat_word_of_nat [of "length d + ?k", where 'a = 32] by (simp add: clonePacketS_def Let_def min_absorb2)
  show "ps_len (clonePacketS d p) = ps_caplen (clonePacketS d p)" by (simp add: clonePacketS_def Let_def)
  show "take ?o (ps_packet (clonePacketS d p)) = take ?o (ps_packet p)" unfolding p using take_stn [OF s, of ?o] assms(1,2) by (simp add: min_absorb1)
qed

text \<open>The first packet is handed on itself when it is the only one, otherwise a clone of it with all of the data.\<close>

definition complete :: "tcp_stream \<Rightarrow> tcp_stream \<times> sip_event list" where
  "complete st = (case ts_packets st of [] \<Rightarrow> (st, [])
     | q # qs \<Rightarrow> (case tp_packetS q of None \<Rightarrow> (st, [])
         | Some p \<Rightarrow>
             (case ts_complete_data st of
                None \<Rightarrow>
                  (let (st', ev) = cleanStream (st\<lparr>ts_packets := q\<lparr>tp_packetS := None\<rparr> # qs\<rparr>) in
                   (st', Delivered (p\<lparr>ps_pflags_tcp := 2\<rparr>) # ev))
              | Some d \<Rightarrow>
                  (let (st', ev) = cleanStream st in (st', DeliveredClone ((clonePacketS d p)\<lparr>ps_pflags_tcp := 2\<rparr>) # ev)))))"

definition exists_seq_ack :: "u32 \<Rightarrow> u32 \<Rightarrow> tcp_stream \<Rightarrow> bool" where
  "exists_seq_ack seq ack st = (\<exists>q \<in> set (ts_packets st). tp_seq q = seq \<and> tp_ack_seq q = ack)"

definition packet_seq :: "packet_s_process \<Rightarrow> u32" where "packet_seq p = ntohl (th_seq (ps_tcp p))"
definition packet_ack :: "packet_s_process \<Rightarrow> u32" where "packet_ack p = ntohl (th_ack_seq (ps_tcp p))"

definition new_packet :: "packet_s_process \<Rightarrow> tcp_stream_packet" where
  "new_packet p = \<lparr>tp_packetS = Some p, tp_ts = ps_time_s p, tp_seq = packet_seq p,
     tp_next_seq = packet_seq p + ps_caplen p - word_of_nat (ps_tcp_offset p + th_doff (ps_tcp p) * 4),
     tp_ack_seq = packet_ack p, tp_lastpsh = th_psh (ps_tcp p)\<rparr>"

definition addPacket :: "packet_s_process \<Rightarrow> tcp_stream \<Rightarrow> bool \<times> tcp_stream" where
  "addPacket p st =
     (let seq = packet_seq p; ack = packet_ack p in
      if ps_data p = [] then (False, st)
      else if (if ts_packets st \<noteq> [] then exists_seq_ack seq ack st
               else (seq \<noteq> 0 \<or> th_check (ps_tcp p) \<noteq> 0) \<and> seq = ts_last_seq st \<and> ack = ts_last_ack_seq st \<and> ps_time_us p \<noteq> ts_last_time_us st)
      then (False, st)
      else (True, st\<lparr>ts_packets := ts_packets st @ [new_packet p],
                     ts_complete_data := (case ts_packets st of [] \<Rightarrow> ts_complete_data st
                        | q # _ \<Rightarrow> Some (case ts_complete_data st of Some d \<Rightarrow> d @ ps_data p | None \<Rightarrow> packet_data q @ ps_data p)),
                     ts_last_seq := seq, ts_last_ack_seq := ack, ts_last_time_us := ps_time_us p\<rparr>))"

text \<open>The stream is handed on when it is complete and dropped otherwise.\<close>

definition finish :: "tcp_stream \<Rightarrow> tcp_stream \<times> sip_event list" where
  "finish st = (if isCompleteStream st then complete st else cleanStream st)"

section \<open>Processing\<close>

definition id_of :: "packet_s_process \<Rightarrow> tcp_stream_id" where
  "id_of p = \<lparr>si_saddr = ps_saddr p, si_source = ps_source p, si_daddr = ps_daddr p, si_dest = ps_dest p\<rparr>"

definition rev_id_of :: "packet_s_process \<Rightarrow> tcp_stream_id" where
  "rev_id_of p = \<lparr>si_saddr = ps_daddr p, si_source = ps_dest p, si_daddr = ps_saddr p, si_dest = ps_source p\<rparr>"

definition clean :: "int \<Rightarrow> int \<Rightarrow> TcpReassemblySip \<Rightarrow> TcpReassemblySip \<times> sip_event list" where
  "clean timeout ts r =
     (let old = (\<lambda>(k, st). ts = 0 \<or> ts - uint (ucast (ts_last_time_us st div 1000000) :: u32) > timeout) in
      (r\<lparr>tr_streams := filter (\<lambda>x. \<not> old x) (tr_streams r)\<rparr>, concat (map (\<lambda>(k, st). snd (cleanStream st)) (filter old (tr_streams r)))))"

definition reverse_stream :: "packet_s_process \<Rightarrow> (tcp_stream_id, tcp_stream) std_map \<Rightarrow> (tcp_stream_id, tcp_stream) std_map \<times> sip_event list" where
  "reverse_stream p m = (case map_find tcp_stream_id_lt (rev_id_of p) m of None \<Rightarrow> (m, [])
     | Some st \<Rightarrow>
         (let (st, ev) = (if ts_packets st \<noteq> [] then finish st else (st, []));
              st = (if ts_last_seq st \<noteq> 0 \<or> ts_last_ack_seq st \<noteq> 0 then st\<lparr>ts_last_seq := 0, ts_last_ack_seq := 0, ts_last_time_us := 0\<rparr> else st) in
          (map_put tcp_stream_id_lt (rev_id_of p) st m, ev)))"

text \<open>The stream of the packet: what it held is finished when the acknowledgement changes or a new message begins; then the packet is added.\<close>

definition own_stream :: "packet_s_process \<Rightarrow> bool \<Rightarrow> tcp_stream \<Rightarrow> bool \<times> tcp_stream \<times> sip_event list" where
  "own_stream p isSip st =
     (let (st, ev1) = (if ts_packets st \<noteq> [] \<and> ts_last_ack_seq st \<noteq> 0 \<and> ts_last_ack_seq st \<noteq> packet_ack p then finish st else (st, []));
          (st, ev2) = (if ts_packets st \<noteq> [] \<and> isSip \<and> \<not> exists_seq_ack (packet_seq p) (packet_ack p) st then finish st else (st, [])) in
      if ts_packets st \<noteq> [] \<or> isSip then
        (let (used, st) = addPacket p st in
         if used then
           (if isCompleteStream st then (let (st, ev3) = complete st in (True, st, ev1 @ ev2 @ ev3))
            else if (case ts_complete_data st of Some d \<Rightarrow> length d > 65535 | None \<Rightarrow> False) then (let (st, ev3) = cleanStream st in (True, st, ev1 @ ev2 @ ev3))
            else (True, st, ev1 @ ev2))
         else (False, st, ev1 @ ev2))
      else (False, st, ev1 @ ev2))"

definition new_stream :: "packet_s_process \<Rightarrow> bool \<times> tcp_stream \<times> sip_event list" where
  "new_stream p =
     (let (used, st) = addPacket p tcp_stream_new in
      if used \<and> isCompleteStream st then (let (st, ev) = complete st in (True, st, ev)) else (used, st, []))"

definition processPacket :: "int \<Rightarrow> int \<Rightarrow> packet_s_process \<Rightarrow> bool \<Rightarrow> TcpReassemblySip \<Rightarrow> TcpReassemblySip \<times> sip_event list" where
  "processPacket period timeout p isSip r =
     (let (r, ev0) = (if uint (ps_time_s p) - tr_last_cleanup r > period
                      then (let (r, ev) = clean timeout (uint (ps_time_s p)) r in (r\<lparr>tr_last_cleanup := uint (ps_time_s p)\<rparr>, ev)) else (r, [])) in
      if length (ps_data p) < 2 then (r, ev0 @ [Destroyed p])
      else
        (let (m, ev1) = reverse_stream p (tr_streams r);
             (used, m, ev2) = (case map_find tcp_stream_id_lt (id_of p) m of
                 Some st \<Rightarrow> (let (used, st, ev) = own_stream p isSip st in (used, map_put tcp_stream_id_lt (id_of p) st m, ev))
               | None \<Rightarrow> if isSip then (let (used, st, ev) = new_stream p in (used, map_put tcp_stream_id_lt (id_of p) st m, ev)) else (False, m, [])) in
         (r\<lparr>tr_streams := m\<rparr>, ev0 @ ev1 @ ev2 @ (if used then [] else [Destroyed p]))))"


section \<open>Ownership of packets\<close>

definition held :: "tcp_stream \<Rightarrow> nat multiset" where
  "held st = mset (map ps_id (packets_of (ts_packets st)))"

definition held_all :: "(tcp_stream_id, tcp_stream) std_map \<Rightarrow> nat multiset" where
  "held_all m = sum_list (map (\<lambda>(k, st). held st) m)"

fun event_ids :: "sip_event list \<Rightarrow> nat multiset" where
  "event_ids [] = {#}"
| "event_ids (Delivered p # evs) = add_mset (ps_id p) (event_ids evs)"
| "event_ids (Destroyed p # evs) = add_mset (ps_id p) (event_ids evs)"
| "event_ids (DeliveredClone p # evs) = event_ids evs"

fun event_ok :: "sip_event \<Rightarrow> bool" where
  "event_ok (Delivered p) = data_complete (ps_data p)"
| "event_ok (DeliveredClone p) = data_complete (ps_data p)"
| "event_ok (Destroyed p) = True"

text \<open>A stream between two operations: no packet is missing, none is there twice, and the collected data is that of the packets.\<close>

definition stream_ok :: "tcp_stream \<Rightarrow> bool" where
  "stream_ok st = ((\<forall>q \<in> set (ts_packets st). tp_packetS q \<noteq> None) \<and>
     ts_complete_data st = (if length (ts_packets st) \<le> 1 then None else Some (concat (map packet_data (ts_packets st)))) \<and>
     distinct (map (\<lambda>q. (tp_seq q, tp_ack_seq q)) (ts_packets st)))"

lemma event_ids_append [simp]: "event_ids (a @ b) = event_ids a + event_ids b"
  by (induction a rule: event_ids.induct) simp_all

lemma event_ids_destroyed: "event_ids (map Destroyed ps) = mset (map ps_id ps)"
  by (induction ps) simp_all

lemma packets_of_append [simp]: "packets_of (a @ b) = packets_of a @ packets_of b"
  by (induction a) (auto split: option.splits)

lemma stream_new_facts: "stream_ok tcp_stream_new" "held tcp_stream_new = {#}"
  by (simp_all add: stream_ok_def tcp_stream_new_def held_def)

lemma stream_ok_reset [simp]:
  "stream_ok (st\<lparr>ts_last_seq := a, ts_last_ack_seq := b, ts_last_time_us := c\<rparr>) = stream_ok st" "held (st\<lparr>ts_last_seq := a, ts_last_ack_seq := b, ts_last_time_us := c\<rparr>) = held st"
  by (simp_all add: stream_ok_def held_def)

lemma cleanStream_facts:
  assumes "cleanStream st = (st', ev)"
  shows "stream_ok st'" "held st' = {#}" "event_ids ev = held st" "list_all event_ok ev" "ts_packets st' = []"
  using assms by (auto simp: cleanStream_def stream_ok_def held_def event_ids_destroyed list_all_iff)

text \<open>The data a stream is judged by is the data of its packets.\<close>

lemma complete_stream_data:
  assumes "stream_ok st" "ts_packets st \<noteq> []"
  shows "isCompleteStream st = data_complete (concat (map packet_data (ts_packets st)))"
proof -
  obtain q qs where q: "ts_packets st = q # qs" using assms(2) by (cases "ts_packets st") auto
  show ?thesis using assms(1) q by (cases qs) (auto simp: isCompleteStream_def stream_ok_def)
qed

lemma complete_facts:
  assumes "complete st = (st', ev)" "stream_ok st" "isCompleteStream st"
  shows "stream_ok st'" "held st' = {#}" "event_ids ev = held st" "list_all event_ok ev" "ts_packets st' = []"
proof -
  obtain q qs where q: "ts_packets st = q # qs" using assms(3) by (cases "ts_packets st") (auto simp: isCompleteStream_def)
  obtain p where p: "tp_packetS q = Some p" using assms(2) q by (auto simp: stream_ok_def)
  have c: "data_complete (concat (map packet_data (ts_packets st)))" using complete_stream_data [OF assms(2)] assms(3) q by simp
  have "stream_ok st' \<and> held st' = {#} \<and> event_ids ev = held st \<and> list_all event_ok ev \<and> ts_packets st' = []"
  proof (cases "ts_complete_data st")
    case None
    then have "qs = []" using assms(2) q by (auto simp: stream_ok_def split: if_splits)
    then show ?thesis using assms(1) q p None c
      by (auto simp: complete_def cleanStream_def stream_ok_def held_def packet_data_def)
  next
    case (Some d)
    then have d: "d = concat (map packet_data (ts_packets st))" using assms(2) by (auto simp: stream_ok_def split: if_splits)
    obtain st1 ev1 where cl: "cleanStream st = (st1, ev1)" by (cases "cleanStream st")
    then have "st' = st1" "ev = DeliveredClone ((clonePacketS d p)\<lparr>ps_pflags_tcp := 2\<rparr>) # ev1" using assms(1) q p Some by (simp_all add: complete_def)
    then show ?thesis using cleanStream_facts [OF cl] c d by (simp add: clonePacketS_def Let_def)
  qed
  then show "stream_ok st'" "held st' = {#}" "event_ids ev = held st" "list_all event_ok ev" "ts_packets st' = []" by simp_all
qed

lemma finish_facts:
  assumes "finish st = (st', ev)" "stream_ok st"
  shows "stream_ok st'" "held st' = {#}" "event_ids ev = held st" "list_all event_ok ev" "ts_packets st' = []"
  using assms complete_facts [of st st' ev] cleanStream_facts [of st st' ev] by (auto simp: finish_def split: if_splits)

lemma addPacket_facts:
  assumes "addPacket p st = (used, st')" "stream_ok st"
  shows "stream_ok st'" "held st' = (if used then add_mset (ps_id p) (held st) else held st)" "\<not> used \<Longrightarrow> st' = st"
    "used \<Longrightarrow> concat (map packet_data (ts_packets st')) = concat (map packet_data (ts_packets st)) @ ps_data p \<and> ts_packets st' \<noteq> []"
proof -
  have np: "tp_packetS (new_packet p) = Some p" "packet_data (new_packet p) = ps_data p" "tp_seq (new_packet p) = packet_seq p" "tp_ack_seq (new_packet p) = packet_ack p"
    by (simp_all add: new_packet_def packet_data_def)
  show notused: "\<not> used \<Longrightarrow> st' = st" using assms(1) by (auto simp: addPacket_def Let_def split: if_splits)
  have u: "ts_packets st' = ts_packets st @ [new_packet p]" "\<not> exists_seq_ack (packet_seq p) (packet_ack p) st"
    "ts_complete_data st' = (case ts_packets st of [] \<Rightarrow> ts_complete_data st
       | q # _ \<Rightarrow> Some (case ts_complete_data st of Some d \<Rightarrow> d @ ps_data p | None \<Rightarrow> packet_data q @ ps_data p))" if used
    using assms(1) that by (auto simp: addPacket_def Let_def exists_seq_ack_def split: if_splits)
  show "held st' = (if used then add_mset (ps_id p) (held st) else held st)" using u(1) notused np(1) by (auto simp: held_def)
  show "concat (map packet_data (ts_packets st')) = concat (map packet_data (ts_packets st)) @ ps_data p \<and> ts_packets st' \<noteq> []" if used
    using u(1) [OF that] np(2) by simp
  show "stream_ok st'"
  proof (cases used)
    case True
    have "ts_complete_data st' = (if length (ts_packets st') \<le> 1 then None else Some (concat (map packet_data (ts_packets st'))))"
      using assms(2) u [OF True] np(2) by (cases "ts_packets st") (auto simp: stream_ok_def Suc_le_eq split: if_splits)
    moreover have "distinct (map (\<lambda>q. (tp_seq q, tp_ack_seq q)) (ts_packets st'))"
      using assms(2) u(1,2) [OF True] np(3,4) by (auto simp: stream_ok_def exists_seq_ack_def)
    ultimately show ?thesis using assms(2) u(1) [OF True] np(1) by (auto simp: stream_ok_def)
  qed (use notused assms(2) in simp)
qed


section \<open>The map of streams\<close>

definition tcp_stream_id_eq :: "tcp_stream_id \<Rightarrow> tcp_stream_id \<Rightarrow> bool" where
  "tcp_stream_id_eq a b = (vmIP_eq (si_saddr a) (si_saddr b) \<and> si_source a = si_source b \<and> vmIP_eq (si_daddr a) (si_daddr b) \<and> si_dest a = si_dest b)"

lemma tcp_stream_id_lt_lex:
  "tcp_stream_id_lt a b = (vmIP_lt (si_saddr a) (si_saddr b) \<or> vmIP_eq (si_saddr a) (si_saddr b) \<and>
     (si_source a < si_source b \<or> si_source a = si_source b \<and> (vmIP_lt (si_daddr a) (si_daddr b) \<or> vmIP_eq (si_daddr a) (si_daddr b) \<and> si_dest a < si_dest b)))"
proof -
  have g: "vmIP_gt x y = vmIP_lt y x" for x y using vmIP_key.eq_iff_incomparable [of x y] vmIP_key.lt_asym [of x y] vmIP_key.lt_asym [of y x] by (auto simp: vmIP_gt_def vmIP_le_def)
  show ?thesis unfolding tcp_stream_id_lt_def g
    using vmIP_key.eq_iff_incomparable [of "si_saddr a" "si_saddr b"] vmIP_key.eq_iff_incomparable [of "si_daddr a" "si_daddr b"]
      vmIP_key.lt_asym [of "si_saddr a" "si_saddr b"] vmIP_key.lt_asym [of "si_daddr a" "si_daddr b"] by auto
qed

interpretation tcp_stream_id_key: map_key_order tcp_stream_id_lt tcp_stream_id_eq
proof -
  note d = map_key_order_lex [OF map_key_order_vmIP map_key_order_linorder [where 'a = vmPort]]
  note s = map_key_order_lex [OF map_key_order_vmIP map_key_order_lex [OF map_key_order_linorder [where 'a = vmPort] d]]
  have "map_key_order (\<lambda>a b. tcp_stream_id_lt a b) (\<lambda>a b. tcp_stream_id_eq a b)"
    using map_key_order_pullback [OF s, of "\<lambda>x. (si_saddr x, si_source x, si_daddr x, si_dest x)"]
    by (simp add: tcp_stream_id_lt_lex tcp_stream_id_eq_def lex_lt_def lex_eq_def)
  then show "map_key_order tcp_stream_id_lt tcp_stream_id_eq" by simp
qed

lemma held_all_simps [simp]: "held_all [] = {#}" "held_all ((k, st) # m) = held st + held_all m"
  by (simp_all add: held_all_def)

lemma held_put_found: "map_find lt k m = Some st \<Longrightarrow> held_all (map_put lt k st' m) + held st = held_all m + held st'"
  by (induction lt k m rule: map_find.induct) (auto split: if_splits)

lemma held_put_new: "map_find lt k m = None \<Longrightarrow> held_all (map_put lt k st' m) = held_all m + held st'"
  by (induction lt k m rule: map_find.induct) (auto split: if_splits)

definition streams_ok :: "(tcp_stream_id, tcp_stream) std_map \<Rightarrow> bool" where
  "streams_ok m = (map_ordered tcp_stream_id_lt m \<and> (\<forall>(k, st) \<in> set m. stream_ok st))"

lemma streams_ok_put: "streams_ok m \<Longrightarrow> stream_ok st \<Longrightarrow> streams_ok (map_put tcp_stream_id_lt k st m)"
  using tcp_stream_id_key.map_ordered_put [of m k st] set_map_put_subset [of tcp_stream_id_lt k st m] unfolding streams_ok_def by fastforce

lemma streams_ok_find: "streams_ok m \<Longrightarrow> map_find tcp_stream_id_lt k m = Some st \<Longrightarrow> stream_ok st"
  using tcp_stream_id_key.map_find_Some_eq [of k m st] unfolding streams_ok_def by fastforce

section \<open>Every operation keeps account of the packets\<close>

lemma clean_facts:
  assumes "clean timeout ts r = (r', ev)" "streams_ok (tr_streams r)"
  shows "streams_ok (tr_streams r')" "held_all (tr_streams r') + event_ids ev = held_all (tr_streams r)" "list_all event_ok ev" "tr_last_cleanup r' = tr_last_cleanup r"
proof -
  define old where "old = (\<lambda>(k :: tcp_stream_id, st :: tcp_stream). ts = 0 \<or> ts - uint (ucast (ts_last_time_us st div 1000000) :: u32) > timeout)"
  have r: "r' = r\<lparr>tr_streams := filter (\<lambda>x. \<not> old x) (tr_streams r)\<rparr>" "ev = concat (map (\<lambda>(k, st). snd (cleanStream st)) (filter old (tr_streams r)))"
    using assms(1) by (simp_all add: clean_def old_def Let_def)
  have cs: "event_ids (snd (cleanStream st)) = held st" "list_all event_ok (snd (cleanStream st))" for st
    using cleanStream_facts [of st "fst (cleanStream st)" "snd (cleanStream st)"] by simp_all
  show "streams_ok (tr_streams r')" using assms(2) map_ordered_filter unfolding r streams_ok_def by auto
  have "held_all (filter (\<lambda>x. \<not> old x) m) + event_ids (concat (map (\<lambda>(k, st). snd (cleanStream st)) (filter old m))) = held_all m" for m
    by (induction m) (auto simp: cs)
  then show "held_all (tr_streams r') + event_ids ev = held_all (tr_streams r)" unfolding r by simp
  show "list_all event_ok ev" "tr_last_cleanup r' = tr_last_cleanup r" unfolding r using cs(2) by (auto simp: list_all_iff)
qed

lemma reverse_stream_facts:
  assumes "reverse_stream p m = (m', ev)" "streams_ok m"
  shows "streams_ok m'" "held_all m' + event_ids ev = held_all m" "list_all event_ok ev"
proof -
  have "streams_ok m' \<and> held_all m' + event_ids ev = held_all m \<and> list_all event_ok ev"
  proof (cases "map_find tcp_stream_id_lt (rev_id_of p) m")
    case None
    then show ?thesis using assms by (simp add: reverse_stream_def)
  next
    case (Some st)
    have ok: "stream_ok st" by (rule streams_ok_find [OF assms(2) Some])
    obtain st1 ev1 where s1: "(if ts_packets st \<noteq> [] then finish st else (st, [])) = (st1, ev1)" by (metis prod.exhaust)
    have f1: "stream_ok st1" "held st1 + event_ids ev1 = held st" "list_all event_ok ev1"
      using s1 ok finish_facts [of st st1 ev1] by (auto split: if_splits)
    define st2 where "st2 = (if ts_last_seq st1 \<noteq> 0 \<or> ts_last_ack_seq st1 \<noteq> 0 then st1\<lparr>ts_last_seq := 0, ts_last_ack_seq := 0, ts_last_time_us := 0\<rparr> else st1)"
    have f2: "stream_ok st2" "held st2 = held st1" using f1 by (simp_all add: st2_def)
    have m': "m' = map_put tcp_stream_id_lt (rev_id_of p) st2 m" "ev = ev1" using assms(1) Some s1 by (auto simp: reverse_stream_def st2_def)
    have "held_all m' + held st = held_all m + held st2" unfolding m' by (rule held_put_found [OF Some])
    then have "held_all m' + event_ids ev1 + held st2 = held_all m + held st2" using f1(2) f2(2) by (metis add.assoc add.commute)
    then show ?thesis using streams_ok_put [OF assms(2) f2(1)] f1(3) m' by simp
  qed
  then show "streams_ok m'" "held_all m' + event_ids ev = held_all m" "list_all event_ok ev" by simp_all
qed


lemma own_stream_facts:
  assumes "own_stream p isSip st = (used, st', ev)" "stream_ok st"
  shows "stream_ok st'" "held st' + event_ids ev = (if used then add_mset (ps_id p) (held st) else held st)" "list_all event_ok ev"
proof -
  obtain s1 e1 where s1: "(if ts_packets st \<noteq> [] \<and> ts_last_ack_seq st \<noteq> 0 \<and> ts_last_ack_seq st \<noteq> packet_ack p then finish st else (st, [])) = (s1, e1)" by (metis prod.exhaust)
  have f1: "stream_ok s1" "held s1 + event_ids e1 = held st" "list_all event_ok e1" using s1 assms(2) finish_facts [of st s1 e1] by (auto split: if_splits)
  obtain s2 e2 where s2: "(if ts_packets s1 \<noteq> [] \<and> isSip \<and> \<not> exists_seq_ack (packet_seq p) (packet_ack p) s1 then finish s1 else (s1, [])) = (s2, e2)" by (metis prod.exhaust)
  have f2: "stream_ok s2" "held s2 + event_ids e2 = held s1" "list_all event_ok e2" using s2 f1(1) finish_facts [of s1 s2 e2] by (auto split: if_splits)
  have bal: "held s2 + event_ids (e1 @ e2) = held st" by (simp only: event_ids_append f1(2) [symmetric] f2(2) [symmetric] ac_simps)
  have bal': "event_ids e1 + (event_ids e2 + held s2) = held st" by (simp only: f1(2) [symmetric] f2(2) [symmetric] ac_simps)
  obtain u s3 where s3: "addPacket p s2 = (u, s3)" by (cases "addPacket p s2")
  note f3 = addPacket_facts [OF s3 f2(1)]
  obtain s4 e4 where s4: "complete s3 = (s4, e4)" by (cases "complete s3")
  obtain s5 e5 where s5: "cleanStream s3 = (s5, e5)" by (cases "cleanStream s3")
  have o: "own_stream p isSip st = (if ts_packets s2 \<noteq> [] \<or> isSip then
      if u then if isCompleteStream s3 then (True, s4, e1 @ e2 @ e4)
                else if (case ts_complete_data s3 of Some d \<Rightarrow> length d > 65535 | None \<Rightarrow> False) then (True, s5, e1 @ e2 @ e5) else (True, s3, e1 @ e2)
      else (False, s3, e1 @ e2) else (False, s2, e1 @ e2))"
    unfolding own_stream_def s1 s2 s3 s4 s5 by (simp add: s1 s2 s3 s4 s5)
  have "stream_ok st' \<and> held st' + event_ids ev = (if used then add_mset (ps_id p) (held st) else held st) \<and> list_all event_ok ev"
    using assms(1) f2(1) f3(1,2) f1(3) f2(3) bal bal' complete_facts [OF s4 f3(1)] cleanStream_facts [OF s5] unfolding o
    by (auto split: if_splits)
  then show "stream_ok st'" "held st' + event_ids ev = (if used then add_mset (ps_id p) (held st) else held st)" "list_all event_ok ev" by simp_all
qed

lemma new_stream_facts:
  assumes "new_stream p = (used, st, ev)"
  shows "stream_ok st" "held st + event_ids ev = (if used then {#ps_id p#} else {#})" "list_all event_ok ev"
proof -
  obtain u s1 where s1: "addPacket p tcp_stream_new = (u, s1)" by (cases "addPacket p tcp_stream_new")
  note f = addPacket_facts [OF s1 stream_new_facts(1)]
  obtain s2 e2 where s2: "complete s1 = (s2, e2)" by (cases "complete s1")
  have "stream_ok st \<and> held st + event_ids ev = (if used then {#ps_id p#} else {#}) \<and> list_all event_ok ev"
    using assms f(1,2) stream_new_facts(2) complete_facts [OF s2 f(1)] by (auto simp: new_stream_def s1 s2 split: if_splits)
  then show "stream_ok st" "held st + event_ids ev = (if used then {#ps_id p#} else {#})" "list_all event_ok ev" by simp_all
qed

lemma processPacket_facts:
  assumes "processPacket period timeout p isSip r = (r', ev)" "streams_ok (tr_streams r)"
  shows "streams_ok (tr_streams r')" "held_all (tr_streams r') + event_ids ev = add_mset (ps_id p) (held_all (tr_streams r))" "list_all event_ok ev"
proof -
  obtain r0 e0 where r0: "(if uint (ps_time_s p) - tr_last_cleanup r > period
      then (let (r, ev) = clean timeout (uint (ps_time_s p)) r in (r\<lparr>tr_last_cleanup := uint (ps_time_s p)\<rparr>, ev)) else (r, [])) = (r0, e0)" by (metis prod.exhaust)
  have f0: "streams_ok (tr_streams r0)" "held_all (tr_streams r0) + event_ids e0 = held_all (tr_streams r)" "list_all event_ok e0"
    using r0 assms(2) clean_facts [of timeout "uint (ps_time_s p)" r] by (auto split: if_splits prod.splits)
  obtain m1 e1 where m1: "reverse_stream p (tr_streams r0) = (m1, e1)" by (metis prod.exhaust)
  note f1 = reverse_stream_facts [OF m1 f0(1)]
  obtain u m2 e2 where m2: "(case map_find tcp_stream_id_lt (id_of p) m1 of
        Some st \<Rightarrow> (let (used, st, ev) = own_stream p isSip st in (used, map_put tcp_stream_id_lt (id_of p) st m1, ev))
      | None \<Rightarrow> if isSip then (let (used, st, ev) = new_stream p in (used, map_put tcp_stream_id_lt (id_of p) st m1, ev)) else (False, m1, [])) = (u, m2, e2)" by (metis prod_cases3)
  have f2: "streams_ok m2 \<and> held_all m2 + event_ids e2 = (if u then add_mset (ps_id p) (held_all m1) else held_all m1) \<and> list_all event_ok e2"
  proof (cases "map_find tcp_stream_id_lt (id_of p) m1")
    case None
    obtain u' st ev' where n: "new_stream p = (u', st, ev')" by (metis prod_cases3)
    show ?thesis using m2 None n new_stream_facts [OF n] held_put_new [OF None, of st] streams_ok_put [OF f1(1), of st "id_of p"] f1(1)
      by (auto simp: add.assoc split: if_splits)
  next
    case (Some st)
    obtain u' st' ev' where n: "own_stream p isSip st = (u', st', ev')" by (metis prod_cases3)
    have ok: "stream_ok st" by (rule streams_ok_find [OF f1(1) Some])
    note o = own_stream_facts [OF n ok]
    have "held_all m2 + held st = held_all m1 + held st'" "e2 = ev'" "u = u'" "m2 = map_put tcp_stream_id_lt (id_of p) st' m1" using m2 Some n held_put_found [OF Some, of st'] by auto
    moreover from this have "held_all m2 + event_ids ev' + held st = held_all m1 + (held st' + event_ids ev')" by (metis add.assoc add.commute)
    ultimately show ?thesis using o streams_ok_put [OF f1(1) o(1), of "id_of p"] by auto
  qed
  have "processPacket period timeout p isSip r = (if length (ps_data p) < 2 then (r0, e0 @ [Destroyed p])
      else (r0\<lparr>tr_streams := m2\<rparr>, e0 @ e1 @ e2 @ (if u then [] else [Destroyed p])))"
    unfolding processPacket_def r0 by (simp add: m1 m2)
  then have "streams_ok (tr_streams r') \<and> held_all (tr_streams r') + event_ids ev = add_mset (ps_id p) (held_all (tr_streams r)) \<and> list_all event_ok ev"
    using assms(1) f0 f1(2,3) f2 by (auto simp: add.commute add.left_commute split: if_splits)
  then show "streams_ok (tr_streams r')" "held_all (tr_streams r') + event_ids ev = add_mset (ps_id p) (held_all (tr_streams r))" "list_all event_ok ev" by simp_all
qed


section \<open>All packets are accounted for\<close>

text \<open>The states the program can reach, with the packets it was given and what happened to them.\<close>

inductive sip_reach :: "packet_s_process list \<Rightarrow> TcpReassemblySip \<Rightarrow> sip_event list \<Rightarrow> bool" where
  start: "sip_reach [] TcpReassemblySip_new []"
| packet: "sip_reach ps r evs \<Longrightarrow> processPacket period timeout p isSip r = (r', ev) \<Longrightarrow> sip_reach (ps @ [p]) r' (evs @ ev)"
| cleanup: "sip_reach ps r evs \<Longrightarrow> clean timeout ts r = (r', ev) \<Longrightarrow> sip_reach ps r' (evs @ ev)"

lemma sip_reach_facts:
  "sip_reach ps r evs \<Longrightarrow> streams_ok (tr_streams r) \<and> held_all (tr_streams r) + event_ids evs = mset (map ps_id ps) \<and> list_all event_ok evs"
proof (induction rule: sip_reach.induct)
  case start
  show ?case by (simp add: TcpReassemblySip_new_def streams_ok_def)
next
  case (packet ps r evs period timeout p isSip r' ev)
  have o: "streams_ok (tr_streams r)" using packet.IH by blast
  note f = processPacket_facts [OF packet.hyps(2) o]
  have "held_all (tr_streams r') + event_ids (evs @ ev) = add_mset (ps_id p) (held_all (tr_streams r) + event_ids evs)"
    unfolding event_ids_append using f(2) by (metis add.left_commute add.commute union_mset_add_mset_left)
  then show ?case using f packet.IH by simp
next
  case (cleanup ps r evs timeout ts r' ev)
  have o: "streams_ok (tr_streams r)" using cleanup.IH by blast
  note f = clean_facts [OF cleanup.hyps(2) o]
  have "held_all (tr_streams r') + event_ids (evs @ ev) = held_all (tr_streams r) + event_ids evs"
    unfolding event_ids_append using f(2) by (metis add.left_commute add.commute)
  then show ?case using f cleanup.IH by simp
qed

text \<open>C1: in every state that is reached by processing packets and cleaning up, every packet that was given to the reassembly is either held by exactly one
  stream, or was handed on, or was destroyed, each exactly once, so that none is lost and none is used after it was given away; everything handed on, also the
  packets made from several segments, is a complete message; and the streams hold each segment once.\<close>

theorem sip_packets_accounted:
  assumes "sip_reach ps r evs"
  shows "held_all (tr_streams r) + event_ids evs = mset (map ps_id ps) \<and> list_all event_ok evs \<and> (\<forall>(k, st) \<in> set (tr_streams r). stream_ok st)"
  using sip_reach_facts [OF assms] by (simp add: streams_ok_def)


section \<open>The segments of a message\<close>

lemma data_complete_message:
  assumes "sm_ok x" "length (sm_bytes x) < 2 ^ 31"
  shows "data_complete (sm_bytes x)"
  using checkSip_stream [of "[x]" "[]" "sm_bytes x" "[]" "[]" "length (sm_bytes x)" 0 "length (sm_bytes x)"] assms
  by (simp add: data_complete_def sm_part_def)

lemma data_complete_part:
  assumes "sm_part part" "part \<noteq> []" "length part < 2 ^ 31"
  shows "\<not> data_complete part"
  using checkSip_part [OF assms] by (simp add: data_complete_def rslt0_def)

fun process_all :: "int \<Rightarrow> int \<Rightarrow> (packet_s_process \<times> bool) list \<Rightarrow> TcpReassemblySip \<Rightarrow> TcpReassemblySip \<times> sip_event list" where
  "process_all period timeout [] r = (r, [])"
| "process_all period timeout ((p, isSip) # ps) r =
     (let (r, ev) = processPacket period timeout p isSip r; (r, evs) = process_all period timeout ps r in (r, ev @ evs))"

text \<open>Segments of one direction of one connection, all with the same acknowledgement.\<close>

definition segments_ok :: "tcp_stream_id \<Rightarrow> tcp_stream_id \<Rightarrow> u32 \<Rightarrow> packet_s_process list \<Rightarrow> bool" where
  "segments_ok sid rid ack ps = ((\<forall>p \<in> set ps. id_of p = sid \<and> rev_id_of p = rid \<and> packet_ack p = ack \<and> 2 \<le> length (ps_data p)) \<and> distinct (map packet_seq ps) \<and> ack \<noteq> 0)"

definition no_cleanup :: "int \<Rightarrow> packet_s_process list \<Rightarrow> TcpReassemblySip \<Rightarrow> bool" where
  "no_cleanup period ps r = (\<forall>p \<in> set ps. uint (ps_time_s p) - tr_last_cleanup r \<le> period)"

lemma segments_nonempty: "segments_ok sid rid ack ps \<Longrightarrow> p \<in> set ps \<Longrightarrow> ps_data p \<noteq> []"
  unfolding segments_ok_def by (metis le_zero_eq list.size(3) zero_neq_numeral)

text \<open>A stream that holds the first segments.\<close>

definition holds :: "packet_s_process list \<Rightarrow> u32 \<Rightarrow> tcp_stream \<Rightarrow> bool" where
  "holds qs ack st = (ts_packets st = map new_packet qs \<and> stream_ok st \<and> ts_last_ack_seq st = ack)"

lemma packet_data_new [simp]: "packet_data (new_packet p) = ps_data p"
  by (simp add: new_packet_def packet_data_def)

lemma packets_of_new: "packets_of (map new_packet qs) = qs"
  by (induction qs) (simp_all add: new_packet_def)

lemma holds_add:
  assumes "holds qs ack st" "segments_ok sid rid ack (qs @ [p])" "qs \<noteq> []"
  shows "\<exists>st'. addPacket p st = (True, st') \<and> holds (qs @ [p]) ack st'"
proof -
  have "packet_seq p \<notin> set (map packet_seq qs)" using assms(2) by (simp add: segments_ok_def)
  moreover have "set (map packet_seq qs) = tp_seq ` set (ts_packets st)" using assms(1) by (simp add: holds_def image_image new_packet_def)
  ultimately have "\<not> exists_seq_ack (packet_seq p) (packet_ack p) st" unfolding exists_seq_ack_def by (metis image_eqI)
  moreover have "ps_data p \<noteq> []" "packet_ack p = ack" using assms(2) by (auto simp: segments_ok_def)
  moreover have "ts_packets st = map new_packet qs" "ts_packets st \<noteq> []" "stream_ok st" using assms(1,3) by (simp_all add: holds_def)
  ultimately obtain st' where st': "addPacket p st = (True, st')" "ts_packets st' = map new_packet (qs @ [p])" "ts_last_ack_seq st' = ack" by (simp add: addPacket_def Let_def)
  moreover have "stream_ok st'" using addPacket_facts(1) [OF st'(1)] assms(1) by (simp add: holds_def)
  ultimately show ?thesis by (simp add: holds_def)
qed

lemma holds_first:
  assumes "segments_ok sid rid ack [p]"
  shows "\<exists>st. addPacket p tcp_stream_new = (True, st) \<and> holds [p] ack st"
proof -
  have p: "ps_data p \<noteq> []" "packet_ack p = ack" "ack \<noteq> 0" using assms by (auto simp: segments_ok_def)
  then obtain st where st: "addPacket p tcp_stream_new = (True, st)" "ts_packets st = map new_packet [p]" "ts_last_ack_seq st = ack"
    by (auto simp: addPacket_def Let_def tcp_stream_new_def)
  then show ?thesis using addPacket_facts(1) [OF st(1) stream_new_facts(1)] by (simp add: holds_def)
qed

text \<open>What is handed on for the segments of a message.\<close>

definition message_events :: "packet_s_process list \<Rightarrow> sip_event list" where
  "message_events ps = (if length ps = 1 then [Delivered ((hd ps)\<lparr>ps_pflags_tcp := 2\<rparr>)]
     else DeliveredClone ((clonePacketS (concat (map ps_data ps)) (hd ps))\<lparr>ps_pflags_tcp := 2\<rparr>) # map Destroyed ps)"

lemma holds_complete:
  assumes "holds ps ack st" "ps \<noteq> []"
  shows "snd (complete st) = message_events ps" "isCompleteStream st = data_complete (concat (map ps_data ps))"
proof -
  have c: "concat (map packet_data (ts_packets st)) = concat (map ps_data ps)" using assms(1) by (simp add: holds_def comp_def)
  show "isCompleteStream st = data_complete (concat (map ps_data ps))" using complete_stream_data [of st] assms c by (simp add: holds_def)
  obtain p qs where p: "ps = p # qs" using assms(2) by (cases ps) auto
  have tp: "tp_packetS (new_packet p) = Some p" by (simp add: new_packet_def)
  have cd: "ts_complete_data st = (if length ps \<le> 1 then None else Some (concat (map ps_data ps)))"
    using assms(1) c unfolding holds_def stream_ok_def by (metis length_map)
  show "snd (complete st) = message_events ps"
  proof (cases qs)
    case Nil
    then show ?thesis using assms(1) p tp cd by (simp add: holds_def complete_def cleanStream_def message_events_def)
  next
    case (Cons a list)
    then show ?thesis using assms(1) p tp cd packets_of_new [of ps] by (simp add: holds_def complete_def cleanStream_def message_events_def)
  qed
qed


definition waiting :: "tcp_stream_id \<Rightarrow> tcp_stream_id \<Rightarrow> u32 \<Rightarrow> packet_s_process list \<Rightarrow> TcpReassemblySip \<Rightarrow> bool" where
  "waiting sid rid ack qs r = (map_ordered tcp_stream_id_lt (tr_streams r) \<and> map_find tcp_stream_id_lt rid (tr_streams r) = None \<and>
     (\<exists>st. map_find tcp_stream_id_lt sid (tr_streams r) = Some st \<and> holds qs ack st))"

lemma put_find:
  assumes "map_ordered tcp_stream_id_lt m" "\<not> tcp_stream_id_eq sid rid" "map_find tcp_stream_id_lt rid m = None"
  shows "map_ordered tcp_stream_id_lt (map_put tcp_stream_id_lt sid st m)" "map_find tcp_stream_id_lt sid (map_put tcp_stream_id_lt sid st m) = Some st"
    "map_find tcp_stream_id_lt rid (map_put tcp_stream_id_lt sid st m) = None"
  using assms by (simp_all add: tcp_stream_id_key.map_ordered_put tcp_stream_id_key.map_find_put tcp_stream_id_key.eq_refl)

lemma process_no_cleanup:
  assumes "no_cleanup period [p] r" "2 \<le> length (ps_data p)" "map_find tcp_stream_id_lt (rev_id_of p) (tr_streams r) = None"
  shows "processPacket period timeout p isSip r =
    (let (used, m, ev) = (case map_find tcp_stream_id_lt (id_of p) (tr_streams r) of
        Some st \<Rightarrow> (let (used, st, ev) = own_stream p isSip st in (used, map_put tcp_stream_id_lt (id_of p) st (tr_streams r), ev))
      | None \<Rightarrow> if isSip then (let (used, st, ev) = new_stream p in (used, map_put tcp_stream_id_lt (id_of p) st (tr_streams r), ev)) else (False, tr_streams r, [])) in
     (r\<lparr>tr_streams := m\<rparr>, ev @ (if used then [] else [Destroyed p])))"
  using assms by (simp add: processPacket_def reverse_stream_def no_cleanup_def)

text \<open>The first segment makes the stream, every other one is added; the last one completes the message.\<close>

lemma own_stream_add:
  assumes "holds qs ack st" "qs \<noteq> []" "segments_ok sid rid ack (qs @ [p])"
  shows "\<exists>st'. holds (qs @ [p]) ack st' \<and> own_stream p False st =
    (if data_complete (concat (map ps_data (qs @ [p]))) then (True, fst (complete st'), message_events (qs @ [p]))
     else if length (concat (map ps_data (qs @ [p]))) > 65535 then (True, fst (cleanStream st'), snd (cleanStream st')) else (True, st', []))"
proof -
  obtain st' where st': "addPacket p st = (True, st')" "holds (qs @ [p]) ack st'" using holds_add [OF assms(1,3,2)] by blast
  have st: "ts_packets st \<noteq> []" "ts_last_ack_seq st = packet_ack p" using assms by (auto simp: holds_def segments_ok_def)
  have c: "snd (complete st') = message_events (qs @ [p])" "isCompleteStream st' = data_complete (concat (map ps_data (qs @ [p])))"
    using holds_complete [OF st'(2)] by simp_all
  have ne: "map new_packet (qs @ [p]) = ts_packets st'" "\<not> length (ts_packets st') \<le> 1" using st'(2) assms(2) by (auto simp: holds_def Suc_le_eq)
  have "concat (map packet_data (ts_packets st')) = concat (map ps_data (qs @ [p]))" unfolding ne(1) [symmetric] by (simp add: comp_def)
  then have cd: "ts_complete_data st' = Some (concat (map ps_data (qs @ [p])))" using st'(2) ne(2) unfolding holds_def stream_ok_def by metis
  have "complete st' = (fst (complete st'), message_events (qs @ [p]))" using c(1) by (metis prod.collapse)
  then show ?thesis
    by (intro exI [of _ st'] conjI st'(2)) (use st st'(1) c(2) cd in \<open>simp add: own_stream_def case_prod_beta\<close>)
qed

lemma segment_add:
  assumes w: "waiting sid rid ack qs r" "qs \<noteq> []" and s: "segments_ok sid rid ack (qs @ [p])" "no_cleanup period [p] r" "\<not> tcp_stream_id_eq sid rid"
  shows "data_complete (concat (map ps_data (qs @ [p]))) \<Longrightarrow> snd (processPacket period timeout p False r) = message_events (qs @ [p])"
    and "\<not> data_complete (concat (map ps_data (qs @ [p]))) \<Longrightarrow> length (concat (map ps_data (qs @ [p]))) \<le> 65535 \<Longrightarrow>
      \<exists>r'. processPacket period timeout p False r = (r', []) \<and> waiting sid rid ack (qs @ [p]) r' \<and> tr_last_cleanup r' = tr_last_cleanup r"
proof -
  obtain st where st: "map_find tcp_stream_id_lt sid (tr_streams r) = Some st" "holds qs ack st" using w(1) by (auto simp: waiting_def)
  have p: "id_of p = sid" "rev_id_of p = rid" "2 \<le> length (ps_data p)" using s(1) by (auto simp: segments_ok_def)
  have o: "map_ordered tcp_stream_id_lt (tr_streams r)" "map_find tcp_stream_id_lt rid (tr_streams r) = None" using w(1) by (auto simp: waiting_def)
  note pr = process_no_cleanup [OF s(2) p(3), of timeout False, unfolded p, OF o(2)]
  obtain st' where st': "holds (qs @ [p]) ack st'" "own_stream p False st =
    (if data_complete (concat (map ps_data (qs @ [p]))) then (True, fst (complete st'), message_events (qs @ [p]))
     else if length (concat (map ps_data (qs @ [p]))) > 65535 then (True, fst (cleanStream st'), snd (cleanStream st')) else (True, st', []))"
    using own_stream_add [OF st(2) w(2) s(1)] by blast
  show "snd (processPacket period timeout p False r) = message_events (qs @ [p])" if "data_complete (concat (map ps_data (qs @ [p])))"
    using that st st'(2) unfolding pr by simp
  show "\<exists>r'. processPacket period timeout p False r = (r', []) \<and> waiting sid rid ack (qs @ [p]) r' \<and> tr_last_cleanup r' = tr_last_cleanup r"
    if "\<not> data_complete (concat (map ps_data (qs @ [p])))" "length (concat (map ps_data (qs @ [p]))) \<le> 65535"
  proof -
    have "own_stream p False st = (True, st', [])" using st'(2) that by simp
    then have "processPacket period timeout p False r = (r\<lparr>tr_streams := map_put tcp_stream_id_lt sid st' (tr_streams r)\<rparr>, [])" unfolding pr using st(1) by simp
    then show ?thesis using put_find [OF o(1) s(3) o(2)] st'(1) by (simp add: waiting_def)
  qed
qed

lemma segment_first:
  assumes s: "segments_ok sid rid ack [p]" "no_cleanup period [p] r" "\<not> tcp_stream_id_eq sid rid"
    and r: "map_ordered tcp_stream_id_lt (tr_streams r)" "map_find tcp_stream_id_lt rid (tr_streams r) = None" "map_find tcp_stream_id_lt sid (tr_streams r) = None"
  shows "data_complete (ps_data p) \<Longrightarrow> snd (processPacket period timeout p True r) = message_events [p]"
    and "\<not> data_complete (ps_data p) \<Longrightarrow>
      \<exists>r'. processPacket period timeout p True r = (r', []) \<and> waiting sid rid ack [p] r' \<and> tr_last_cleanup r' = tr_last_cleanup r"
proof -
  have p: "id_of p = sid" "rev_id_of p = rid" "2 \<le> length (ps_data p)" using s(1) by (auto simp: segments_ok_def)
  note pr = process_no_cleanup [OF s(2) p(3), of timeout True, unfolded p, OF r(2)]
  obtain st where st: "addPacket p tcp_stream_new = (True, st)" "holds [p] ack st" using holds_first [OF s(1)] by blast
  have c: "snd (complete st) = message_events [p]" "isCompleteStream st = data_complete (ps_data p)" using holds_complete [OF st(2)] by simp_all
  show "snd (processPacket period timeout p True r) = message_events [p]" if "data_complete (ps_data p)"
    using that st c r(3) unfolding pr by (simp add: new_stream_def case_prod_beta)
  show "\<exists>r'. processPacket period timeout p True r = (r', []) \<and> waiting sid rid ack [p] r' \<and> tr_last_cleanup r' = tr_last_cleanup r" if "\<not> data_complete (ps_data p)"
  proof -
    have "new_stream p = (True, st, [])" using that st(1) c by (simp add: new_stream_def)
    then have "processPacket period timeout p True r = (r\<lparr>tr_streams := map_put tcp_stream_id_lt sid st (tr_streams r)\<rparr>, [])" unfolding pr using r(3) by simp
    then show ?thesis using put_find [OF r(1) s(3) r(2)] st(2) by (simp add: waiting_def)
  qed
qed


text \<open>Some segments of a message, but not all, are the begin of it.\<close>

lemma segments_part:
  assumes "sm_ok x" "concat (map ps_data (qs @ ps)) = sm_bytes x" "qs \<noteq> []" "length (sm_first x) \<le> length (ps_data (hd qs))" "11 \<le> length (ps_data (hd qs))"
    and "ps \<noteq> []" "\<forall>p \<in> set ps. ps_data p \<noteq> []" "length (sm_bytes x) < 2 ^ 31"
  shows "sm_part (concat (map ps_data qs))"
proof -
  let ?d = "concat (map ps_data qs)"
  have s: "sm_bytes x = ?d @ concat (map ps_data ps)" using assms(2) by simp
  have "concat (map ps_data ps) \<noteq> []" using assms(6,7) by (cases ps) auto
  then have l: "length ?d < length (sm_bytes x)" unfolding s by simp
  have "length (ps_data (hd qs)) \<le> length ?d" using assms(3) by (cases qs) auto
  then show ?thesis unfolding sm_part_def using assms(1,4,5,8) l s
    by (intro disjI2 exI [of _ x] exI [of _ "length ?d"]) simp
qed

lemma rest_of_segments:
  assumes "ps \<noteq> []" "waiting sid rid ack qs r" "qs \<noteq> []" "segments_ok sid rid ack (qs @ ps)" "no_cleanup period ps r" "\<not> tcp_stream_id_eq sid rid"
    and x: "sm_ok x" "concat (map ps_data (qs @ ps)) = sm_bytes x" "length (sm_bytes x) \<le> 65535"
    and f: "length (sm_first x) \<le> length (ps_data (hd qs))" "11 \<le> length (ps_data (hd qs))"
  shows "snd (process_all period timeout (map (\<lambda>p. (p, False)) ps) r) = message_events (qs @ ps)"
  using assms
proof (induction ps arbitrary: qs r)
  case (Cons p ps)
  have s1: "segments_ok sid rid ack (qs @ [p])" "no_cleanup period [p] r" using Cons.prems(4,5) by (auto simp: segments_ok_def no_cleanup_def)
  note add = segment_add [OF Cons.prems(2,3) s1 Cons.prems(6), of timeout]
  show ?case
  proof (cases "ps = []")
    case True
    then have "data_complete (concat (map ps_data (qs @ [p])))" using data_complete_message [OF x(1)] Cons.prems(8,9) by simp
    from add(1) [OF this] show ?thesis using True by (simp add: case_prod_beta)
  next
    case False
    have ne: "\<forall>p \<in> set ps. ps_data p \<noteq> []" using segments_nonempty [OF Cons.prems(4)] by simp
    have "sm_part (concat (map ps_data (qs @ [p])))"
      by (rule segments_part [OF x(1), of "qs @ [p]" ps]) (use Cons.prems(3,8-11) False ne in \<open>simp_all add: hd_append\<close>)
    moreover have l: "length (concat (map ps_data (qs @ [p]))) \<le> length (sm_bytes x)" using arg_cong [OF Cons.prems(8), of length] by simp
    moreover have "concat (map ps_data (qs @ [p])) \<noteq> []" using Cons.prems(3,11) by (cases qs) auto
    ultimately have nc: "\<not> data_complete (concat (map ps_data (qs @ [p])))" using data_complete_part Cons.prems(9) by simp
    have l2: "length (concat (map ps_data (qs @ [p]))) \<le> 65535" using l Cons.prems(9) by linarith
    obtain r' where r': "processPacket period timeout p False r = (r', [])" "waiting sid rid ack (qs @ [p]) r'" "tr_last_cleanup r' = tr_last_cleanup r" using add(2) [OF nc l2] by blast
    have "snd (process_all period timeout (map (\<lambda>p. (p, False)) ps) r') = message_events ((qs @ [p]) @ ps)"
      by (rule Cons.IH) (use Cons.prems False r' in \<open>auto simp: no_cleanup_def hd_append\<close>)
    then show ?thesis using r'(1) by (simp add: case_prod_beta)
  qed
qed simp

text \<open>C2: a message that arrives in segments of one connection with the same acknowledgement, the first one recognised as SIP, is handed on exactly once, when
  its last segment arrives, with all of its data in one packet; until then nothing is handed on. A message in one packet is handed on itself.\<close>

theorem sip_segments_reassembled:
  assumes s: "segments_ok sid rid ack (p # ps)" "no_cleanup period (p # ps) r" "\<not> tcp_stream_id_eq sid rid"
    and r: "map_ordered tcp_stream_id_lt (tr_streams r)" "map_find tcp_stream_id_lt rid (tr_streams r) = None" "map_find tcp_stream_id_lt sid (tr_streams r) = None"
    and x: "sm_ok x" "concat (map ps_data (p # ps)) = sm_bytes x" "length (sm_bytes x) \<le> 65535" "length (sm_first x) \<le> length (ps_data p)" "11 \<le> length (ps_data p)"
  shows "snd (process_all period timeout ((p, True) # map (\<lambda>p. (p, False)) ps) r) = message_events (p # ps)"
proof -
  have s1: "segments_ok sid rid ack [p]" "no_cleanup period [p] r" using s by (auto simp: segments_ok_def no_cleanup_def)
  note first = segment_first [OF s1 s(3) r, of timeout]
  show ?thesis
  proof (cases "ps = []")
    case True
    then have "data_complete (ps_data p)" using data_complete_message [OF x(1)] x(2,3) by simp
    from first(1) [OF this] show ?thesis using True by (simp add: case_prod_beta)
  next
    case False
    have ne: "\<forall>p \<in> set ps. ps_data p \<noteq> []" "ps_data p \<noteq> []" using segments_nonempty [OF s(1)] by simp_all
    have "sm_part (concat (map ps_data [p]))" by (rule segments_part [OF x(1), of "[p]" ps]) (use x False ne in simp_all)
    moreover have "length (ps_data p) \<le> length (sm_bytes x)" using arg_cong [OF x(2), of length] by simp
    ultimately have "\<not> data_complete (ps_data p)" using data_complete_part [of "ps_data p"] x(3) ne(2) by auto
    then obtain r' where r': "processPacket period timeout p True r = (r', [])" "waiting sid rid ack [p] r'" "tr_last_cleanup r' = tr_last_cleanup r" using first(2) by blast
    have "snd (process_all period timeout (map (\<lambda>p. (p, False)) ps) r') = message_events ([p] @ ps)"
      by (rule rest_of_segments) (use s x False r' in \<open>auto simp: no_cleanup_def\<close>)
    then show ?thesis using r'(1) by (simp add: case_prod_beta)
  qed
qed


definition demo_packet :: "nat \<Rightarrow> u32 \<Rightarrow> u8 list \<Rightarrow> packet_s_process" where
  "demo_packet i seq d = \<lparr>ps_id = i, ps_time_s = 5, ps_time_us = 5000000, ps_saddr = vmIP_v4 1, ps_source = VmPort 5060, ps_daddr = vmIP_v4 2, ps_dest = VmPort 5061,
     ps_tcp = \<lparr>th_seq = seq, th_ack_seq = 7, th_check = 1, th_psh = False, th_doff = 5\<rparr>, ps_header_ip_offset = 14, ps_tcp_offset = 34, ps_dataoffset = 54,
     ps_caplen = word_of_nat (54 + length d), ps_len = word_of_nat (54 + length d), ps_packet = replicate 14 0 @ iph_create 4 @ replicate 20 0 @ d, ps_data = d, ps_pflags_tcp = 1\<rparr>"

theorem sip_packets_accounted_witness:
  "\<exists>r evs. sip_reach [demo_packet 1 1 (bytes ''BYE '')] r evs \<and> held_all (tr_streams r) + event_ids evs = {#1#}"
proof -
  obtain r ev where "processPacket 10 600 (demo_packet 1 1 (bytes ''BYE '')) True TcpReassemblySip_new = (r, ev)" by (metis prod.exhaust)
  then have r: "sip_reach ([] @ [demo_packet 1 1 (bytes ''BYE '')]) r ([] @ ev)" by (rule sip_reach.packet [OF sip_reach.start])
  then show ?thesis using sip_packets_accounted [OF r] by (intro exI [of _ r] exI [of _ ev]) (simp add: demo_packet_def)
qed

lemma demo_packet_fields:
  "id_of (demo_packet i s d) = id_of (demo_packet 0 0 [])" "rev_id_of (demo_packet i s d) = rev_id_of (demo_packet 0 0 [])" "packet_ack (demo_packet i s d) = ntohl 7"
  "packet_seq (demo_packet i s d) = ntohl s" "ps_data (demo_packet i s d) = d" "ps_time_s (demo_packet i s d) = 5"
  "\<not> tcp_stream_id_eq (id_of (demo_packet 0 0 [])) (rev_id_of (demo_packet 0 0 []))" "ntohl 7 \<noteq> 0"
  by (simp_all add: demo_packet_def id_of_def rev_id_of_def packet_ack_def packet_seq_def tcp_stream_id_eq_def ntohl_def le_word_def word_le_def)

theorem sip_segments_reassembled_witness:
  "snd (process_all 10 600 [(demo_packet 1 1 (take 30 (sm_bytes demo_bye)), True), (demo_packet 2 31 (drop 30 (sm_bytes demo_bye)), False)] TcpReassemblySip_new) =
   message_events [demo_packet 1 1 (take 30 (sm_bytes demo_bye)), demo_packet 2 31 (drop 30 (sm_bytes demo_bye))]"
proof -
  let ?p = "demo_packet 1 1 (take 30 (sm_bytes demo_bye))" and ?q = "demo_packet 2 31 (drop 30 (sm_bytes demo_bye))"
  let ?i = "id_of (demo_packet 0 0 [])" and ?j = "rev_id_of (demo_packet 0 0 [])"
  have "segments_ok ?i ?j (ntohl 7) (?p # [?q])" unfolding segments_ok_def by (simp add: demo_packet_fields(1) [of "Suc 0"] demo_packet_fields(1) [of 2] demo_packet_fields(2) [of "Suc 0"] demo_packet_fields(2) [of 2] demo_packet_fields(3-6,8) demo_messages)
  moreover have "no_cleanup 10 (?p # [?q]) TcpReassemblySip_new" by (simp add: no_cleanup_def demo_packet_fields(6) TcpReassemblySip_new_def)
  moreover have "length (sm_first demo_bye) = 17" by (simp add: demo_bye_def)
  ultimately have "snd (process_all 10 600 ((?p, True) # map (\<lambda>p. (p, False)) [?q]) TcpReassemblySip_new) = message_events (?p # [?q])"
    by (intro sip_segments_reassembled [where x = demo_bye and sid = ?i and rid = ?j and ack = "ntohl 7"])
       (simp_all add: TcpReassemblySip_new_def demo_packet_fields(5,7) demo_messages)
  then show ?thesis by (simp only: list.map)
qed

end
