(* ===== verification/Spec2Isabelle.thy ===== *)
theory Spec2Isabelle
  imports VM_IpFrag VM_IpText VM_Rqueue VM_WebSocket VM_DiameterStack VM_HepFrame VM_Encaps VM_Dedup VM_Mirror VM_StoreQueue VM_Dequeue VM_SipLines VM_SipTcp
begin

text \<open>
  A verification library for the core of the VoIPmonitor sniffer (\<open>src/\<close>, C++).

  \<^bold>\<open>The program.\<close> The sniffer captures packets from interfaces, files, mirror connections of other sensors and from protocols
  that wrap packets (HEP, AudioCodes debug recording, tunnels). The path of a packet is: a capture thread puts it into a packet
  buffer block (\<open>pcap_block_store\<close>); the blocks wait in a queue (\<open>pcap_store_queue\<close>), in memory or, when the counted memory
  (\<open>cBuffersControl\<close>) runs short, in files (\<open>pcap_file_store\<close>), may be
  compressed and sent to another host (mirror sender and receiver), and are merged by time on the way out of the buffer
  (\<open>writeThreadFunction\<close>); duplicates are dropped (\<open>cPacketDuplBuffer\<close>), fragments are put together (\<open>cIpFrag\<close>), inner IP headers
  are searched (\<open>findNextHeaderIp\<close>), the link, IP and transport headers give the data, and the data is handed to the parsers of
  the protocols (WebSocket, Diameter, SIP over UDP and, after reassembly, over TCP, and RTP and others behind them). The headers of a SIP message are
  found by one parser (\<open>ParsePacket\<close>). Threads pass items through ring buffers
  (\<open>rqueue_quick\<close>).

  \<^bold>\<open>Conventions.\<close> Machine integers are words of their width (\<open>u8\<close>, \<open>u16\<close>, \<open>u32\<close>, \<open>u64\<close>). Memory a routine reads through pointers is a list
  of bytes with a position; every load and store is checked, and a computation yields an \<open>outcome\<close>: \<open>Ret\<close> a value, \<open>OutOfBounds\<close>
  when the C++ code would leave the array, \<open>OutOfFuel\<close> when a loop that is modelled with fuel has not ended. A theorem that a
  routine is correct states that it returns; a theorem that a routine diverges states \<open>OutOfFuel\<close> for every fuel. Uninitialised and
  freshly allocated memory is an arbitrary argument. The host is little-endian and the program is built with IPv6 support and
  without the debugging variants of its macros. Clocks, sockets, files, compression libraries, \<open>inet_ntop\<close>, \<open>inet_pton\<close> and the JSON
  parser are arguments with the laws a property needs as named hypotheses.

  \<^bold>\<open>Theories, in the order of their imports.\<close>
  \<^item> \<open>VM_Prelude\<close>: words, byte order, loads and stores, outcomes; the collections \<open>mem_simps\<close> and others used by all proofs.
  \<^item> \<open>VM_StdMap\<close>, \<open>VM_StdString\<close>, \<open>VM_CString\<close>: \<open>std::map\<close> as the list of its nodes with the locale of comparators that makes it a
    map, interpreted for every key type of the sources; \<open>std::string\<close> as a key; the C string routines.
  \<^item> \<open>VM_Ip\<close>, \<open>VM_IpKeys\<close>, \<open>VM_IpText\<close> (\<open>ip.h\<close>, \<open>ip.cpp\<close>): \<open>vmIP\<close>, \<open>vmPort\<close>, \<open>vmIPport\<close>, \<open>vmIPportLink\<close>, \<open>vmIPmask\<close> and their comparators,
    masks, enumeration and text forms. Shown: the comparators are strict weak orders consistent with \<open>==\<close>; \<open>ip_list\<close> enumerates
    exactly the network; printing and reading are inverse.
  \<^item> \<open>VM_IpHeader\<close> (\<open>ip.h\<close>): IPv4 and IPv6 headers, extension headers, TCP and UDP headers in place. Shown: the walk over extension
    headers ends in every buffer of at most 65280 bytes.
  \<^item> \<open>VM_IpFrag\<close> (\<open>ip_frag.h\<close>, \<open>ip_frag.cpp\<close>): the tables of fragments, their reassembly and cleanup. Shown: fragments in any order give
    the datagram; a packet changes no other queue; cleanup removes exactly the empty and expired queues, and frees exactly their fragments.
  \<^item> \<open>VM_Rqueue\<close> (\<open>rqueue.h\<close>): the ring buffer, sequentially as a refinement of a bounded queue and as a step relation of one
    producer and one consumer interleaved at every access.
  \<^item> \<open>VM_WebSocket\<close> (\<open>websocket.h\<close>, \<open>websocket.cpp\<close>), \<open>VM_Diameter\<close>, \<open>VM_DiameterStack\<close> (\<open>diameter.h\<close>, \<open>diameter.cpp\<close>): frames and
    messages with round trips and bounds; the stack of Diameter packets with its heap of queues and three indexes.
  \<^item> \<open>VM_SimpleBuffer\<close> (\<open>tools_global.h\<close>): the byte buffers, refining byte sequences.
  \<^item> \<open>VM_Hep\<close>, \<open>VM_HepFrame\<close> (\<open>hep.h\<close>, \<open>hep.cpp\<close>): framing, reassembly and decoding of HEP messages and the frames built for them.
  \<^item> \<open>VM_Link\<close>, \<open>VM_SimplePacket\<close>, \<open>VM_Audiocodes\<close>, \<open>VM_Encaps\<close> (\<open>sniff_inline.cpp\<close>, \<open>tools.cpp\<close>, \<open>audiocodes.cpp\<close>): link layers and VLAN
    tags, the frames the sniffer builds itself, the AudioCodes header, the search for inner IP headers in every tunnel.
  \<^item> \<open>VM_PktHdr\<close>, \<open>VM_BlockStore\<close> (\<open>pcap_queue_block.h\<close>, \<open>pcap_queue.cpp\<close>): the headers of captured packets and the block, a byte array with
    offsets. The abstraction \<open>bs_content\<close> says which packets a block holds; \<open>bs_reach\<close> is its life under all operations.
  \<^item> \<open>VM_BlockImage\<close>, \<open>VM_BlockFile\<close>, \<open>VM_Mirror\<close> (\<open>pcap_queue.cpp\<close>): saving a block, restoring it from chunks, compression, the file
    store as a reachability relation \<open>fs_reach\<close>, and the loop of the mirror receiver. The theorems compose: the receiver delivers
    the packets the sender put into blocks, however the stream is cut behind a first read of 16 bytes, as long as the memory lasts
    and no more than 300 reads in a row are empty.
  \<^item> \<open>VM_Buffers\<close> (\<open>buffers_control.h\<close>, \<open>pcap_queue.h\<close>, \<open>pcap_queue.cpp\<close>): the counters of the memory of blocks, and the trash and the
    pool the blocks go to. Shown: along every sequence of operations (\<open>fm_reach\<close>) on blocks that stay in memory each counter is the sum of the sizes of
    the blocks it stands for; cleanup keeps the blocks in use.
  \<^item> \<open>VM_StoreQueue\<close> (\<open>pcap_queue.cpp\<close>): the queue of blocks with its files, in pieces that run under one lock. Shown for every
    interleaving of producers and consumer (\<open>sq_reach\<close>): blocks leave in the order they entered with the packets they had, the
    consumer waits for nothing but a file that is still written, and what follows from files that cannot be opened.
  \<^item> \<open>VM_MinHeap\<close> (\<open>tools.h\<close>), \<open>VM_Dequeue\<close> (\<open>pcap_queue.h\<close>, \<open>pcap_queue.cpp\<close>): the heap as an implementation of the locale
    \<open>keyed_min_queue\<close>, and the merge of waiting blocks by time that uses it.
  \<^item> \<open>VM_Dedup\<close> (\<open>packet_dupl_check.h\<close>): the tables of digests, against the history of all checks.
  \<^item> \<open>VM_ParsePacket\<close>, \<open>VM_SipLines\<close> (\<open>tools.h\<close>, \<open>tools.cpp\<close>): the header parser of SIP messages. The tree of header names is a map
    (\<open>pp_names\<close>), and the pass over a message finds what a reading line by line (\<open>message_fields\<close>) finds.
  \<^item> \<open>VM_SipCheck\<close>, \<open>VM_SipTcp\<close> (\<open>sniff.cpp\<close>, \<open>sniff_proc_class.h\<close>): the recognition of SIP by a table of methods and status codes, the search
    for complete messages in the data of a connection, and the reassembly of messages from TCP segments. Packets have an owner: \<open>sip_reach\<close> is the life of
    the reassembly under all operations, and in each of its states every packet is held, handed on or destroyed exactly once.

  \<^bold>\<open>Fuel.\<close> Loops whose end depends on the data run with fuel: \<open>avps_loop\<close> and the HEP loops on the number of bytes plus one, which is
  enough because every round that continues consumes at least one byte (the exceptions are theorems: an AVP of length 0 and a HEP
  message of length 0 never end); \<open>detach_walk\<close> on the captured length, since each inner header lies behind the outer one; the loops
  over linked lists of \<open>VM_Dequeue\<close> on the number of entries plus one, since the lists are without repetition; \<open>mirror_buffer\<close> on
  the length of the buffer plus one; \<open>parse_loop\<close> on the length of the message plus one, since every round moves on as long as no name
  is empty; the loops over frames in frames (\<open>check_sip20\<close>, \<open>checkSip\<close>) and over messages (\<open>checkSip_loop\<close>) on the length of the data plus one. In each
  case a theorem states that the loop returns with this fuel.

  \<^bold>\<open>Not modelled.\<close> The call table and the processing of SIP behind the header parser (\<open>calltable\<close>, most of \<open>sniff\<close>), RTP and its codecs, the databases (\<open>sql_db\<close>), the general TCP
  reassembly and decryption (\<open>tcpreassembly\<close>, \<open>ssl\<close>), charts, fraud detection, configuration, the manager and the
  processes around them: they work on the data the modelled parts deliver, and most of their code is input and output, text
  formatting or glue to libraries. Of the modelled files, blocks of DPDK buffers, the dequeue methods 1 and 2, the computation of
  digests, the strings a mirror sender announces itself with, the messages for the log, and the removal of old files when the queue of
  blocks starts are left out. The manifest lists every part with its reason.

  \<^bold>\<open>Plan.\<close> The hash table of calls by address and port, and the sequence numbers of RTP streams.
\<close>

end
